(* ===== verification/Prelude.thy ===== *)
theory Prelude
  imports Main "HOL-Library.Word"
begin

text \<open>
  Shared vocabulary of the development: the result of a Rust function (a value, an error value, or
  a panic), little-endian integers, byte slices, overlap-safe moves inside a buffer, UTF-8
  validity, and the generic lemmas on lists and words that the component theories use.

  \<^item> \<open>('e, 'a) result\<close> is Rust's \<open>Result\<close> with a third outcome, \<open>Panic\<close>, for an out-of-range
    slice index, a failed assertion or an arithmetic overflow (the release profile of the
    repository aborts on panic, so nothing runs after it).
  \<^item> \<open>usize\<close> and lengths are \<open>nat\<close>; the fields of the binary formats keep their width
    (\<open>u16\<close>, \<open>u32\<close>, \<open>u64\<close> are words). Additions that can leave 64 bits go through \<open>usize_add\<close>.
\<close>

unbundle bit_operations_syntax

named_theorems result_simps \<open>rules that run the result monad\<close>
named_theorems codec_simps \<open>round trips and lengths of the encoders\<close>

section \<open>Results\<close>

datatype ('e, 'a) result = Ok 'a | Err 'e | Panic

fun and_then :: "('e, 'a) result \<Rightarrow> ('a \<Rightarrow> ('e, 'b) result) \<Rightarrow> ('e, 'b) result" where
  "and_then (Ok a) f = f a"
| "and_then (Err e) f = Err e"
| "and_then Panic f = Panic"

fun map_err :: "('e \<Rightarrow> 'f) \<Rightarrow> ('e, 'a) result \<Rightarrow> ('f, 'a) result" where
  "map_err g (Ok a) = Ok a"
| "map_err g (Err e) = Err (g e)"
| "map_err g Panic = Panic"

definition ok_or :: "'e \<Rightarrow> 'a option \<Rightarrow> ('e, 'a) result" where
  "ok_or e x = (case x of None \<Rightarrow> Err e | Some a \<Rightarrow> Ok a)"

definition ensure :: "bool \<Rightarrow> 'e \<Rightarrow> ('e, unit) result" where
  "ensure b e = (if b then Ok () else Err e)"

definition assert_that :: "bool \<Rightarrow> ('e, unit) result" where
  "assert_that b = (if b then Ok () else Panic)"

definition is_ok :: "('e, 'a) result \<Rightarrow> bool" where
  "is_ok r \<longleftrightarrow> (\<exists>a. r = Ok a)"

lemma and_then_eq_Ok [result_simps]:
  "and_then r f = Ok b \<longleftrightarrow> (\<exists>a. r = Ok a \<and> f a = Ok b)"
  by (cases r) auto

lemma and_then_eq_Panic [result_simps]:
  "and_then r f = Panic \<longleftrightarrow> r = Panic \<or> (\<exists>a. r = Ok a \<and> f a = Panic)"
  by (cases r) auto

lemma and_then_eq_Err [result_simps]:
  "and_then r f = Err e \<longleftrightarrow> r = Err e \<or> (\<exists>a. r = Ok a \<and> f a = Err e)"
  by (cases r) auto

lemma and_then_assoc: "and_then (and_then r f) g = and_then r (\<lambda>x. and_then (f x) g)"
  by (cases r) simp_all

lemma map_err_eq [result_simps]:
  "map_err g r = Ok a \<longleftrightarrow> r = Ok a"
  "map_err g r = Panic \<longleftrightarrow> r = Panic"
  by (cases r; simp)+

lemma ok_or_simps [simp]: "ok_or e None = Err e" "ok_or e (Some a) = Ok a"
  by (simp_all add: ok_or_def)

lemma ok_or_eq [result_simps]:
  "ok_or e x = Ok a \<longleftrightarrow> x = Some a"
  "ok_or e x \<noteq> Panic"
  by (cases x; simp)+

lemma ensure_simps [simp]:
  "ensure True e = Ok ()" "ensure False e = Err e"
  by (simp_all add: ensure_def)

lemma ensure_eq [result_simps]:
  "ensure b e = Ok u \<longleftrightarrow> b"
  "ensure b e \<noteq> Panic"
  by (cases b; simp)+

lemma assert_that_simps [simp]:
  "assert_that True = Ok ()" "assert_that False = Panic"
  by (simp_all add: assert_that_def)

lemma assert_that_eq [result_simps]:
  "assert_that b = Ok u \<longleftrightarrow> b"
  "assert_that b = Panic \<longleftrightarrow> \<not> b"
  "assert_that b \<noteq> Err e"
  by (cases b; simp)+

text \<open>Running a fallible step once per element, stopping at the first failure.\<close>

fun try_fold :: "('a \<Rightarrow> 's \<Rightarrow> ('e, 's) result) \<Rightarrow> 'a list \<Rightarrow> 's \<Rightarrow> ('e, 's) result" where
  "try_fold f [] s = Ok s"
| "try_fold f (x # xs) s = and_then (f x s) (try_fold f xs)"

lemma try_fold_append:
  "try_fold f (xs @ ys) s = and_then (try_fold f xs s) (try_fold f ys)"
proof (induction xs arbitrary: s)
  case Nil
  show ?case by simp
next
  case (Cons x xs)
  then show ?case by (cases "f x s") simp_all
qed

text \<open>An invariant kept by every step of a fold holds of its result.\<close>

lemma try_fold_invariant:
  assumes "try_fold f xs s = Ok t" and "I s"
    and "\<And>x u v. x \<in> set xs \<Longrightarrow> I u \<Longrightarrow> f x u = Ok v \<Longrightarrow> I v"
  shows "I t"
  using assms
proof (induction xs arbitrary: s)
  case Nil
  then show ?case by simp
next
  case (Cons x xs)
  from Cons.prems(1) obtain u where u: "f x s = Ok u" "try_fold f xs u = Ok t"
    by (auto simp: and_then_eq_Ok)
  from Cons.prems(2,3) u(1) have "I u" by (metis list.set_intros(1))
  with Cons.IH[OF u(2)] Cons.prems(3) show ?case by (metis list.set_intros(2))
qed

lemma try_fold_cong: "(\<And>x u. x \<in> set xs \<Longrightarrow> f x u = g x u) \<Longrightarrow> try_fold f xs s = try_fold g xs s"
proof (induction xs arbitrary: s)
  case (Cons x xs)
  then show ?case by (cases "g x s") simp_all
qed simp

text \<open>If no step fails under the invariant, the fold returns.\<close>

lemma try_fold_total:
  assumes "I s"
    and "\<And>x u. x \<in> set xs \<Longrightarrow> I u \<Longrightarrow> \<exists>v. f x u = Ok v \<and> I v"
  shows "\<exists>t. try_fold f xs s = Ok t \<and> I t"
  using assms
proof (induction xs arbitrary: s)
  case Nil
  then show ?case by simp
next
  case (Cons x xs)
  then obtain v where "f x s = Ok v" "I v" by (metis list.set_intros(1))
  moreover have "\<exists>t. try_fold f xs v = Ok t \<and> I t"
    using Cons.IH[OF \<open>I v\<close>] Cons.prems(2) by (metis list.set_intros(2))
  ultimately show ?case by auto
qed

section \<open>Machine integers\<close>

type_synonym byte = "8 word"
type_synonym u16 = "16 word"
type_synonym u32 = "32 word"
type_synonym u64 = "64 word"

abbreviation usize_limit :: nat where
  "usize_limit \<equiv> 2 ^ 64"

text \<open>
  \<open>usize\<close> addition. An overflow is a panic in a debug build; where it can happen in the modelled
  code, the wrapped value of a release build is used as a slice bound right away and panics there.
\<close>

definition usize_add :: "nat \<Rightarrow> nat \<Rightarrow> ('e, nat) result" where
  "usize_add a b = (if a + b < usize_limit then Ok (a + b) else Panic)"

lemma usize_add_eq [result_simps]:
  "usize_add a b = Ok c \<longleftrightarrow> c = a + b \<and> a + b < usize_limit"
  "usize_add a b = Panic \<longleftrightarrow> usize_limit \<le> a + b"
  by (auto simp: usize_add_def)

lemma usize_add_small [simp]: "a + b < usize_limit \<Longrightarrow> usize_add a b = Ok (a + b)"
  by (simp add: usize_add_def)

definition u64_max :: u64 where
  "u64_max = - 1"

definition u32_max :: u32 where
  "u32_max = - 1"

definition div_ceil :: "nat \<Rightarrow> nat \<Rightarrow> nat" where
  "div_ceil a b = (a div b) + (if a mod b = 0 then 0 else 1)"

text \<open>Little-endian bytes of a number, least significant first.\<close>

primrec le_enc :: "nat \<Rightarrow> nat \<Rightarrow> byte list" where
  "le_enc 0 n = []"
| "le_enc (Suc k) n = word_of_nat (n mod 256) # le_enc k (n div 256)"

primrec le_dec :: "byte list \<Rightarrow> nat" where
  "le_dec [] = 0"
| "le_dec (b # bs) = unat b + 256 * le_dec bs"

lemma length_le_enc [simp]: "length (le_enc k n) = k"
  by (induction k arbitrary: n) auto

lemma unat_byte_of_nat [simp]: "unat (word_of_nat (n mod 256) :: byte) = n mod 256"
  by (simp add: unat_of_nat)

lemma le_dec_enc: "le_dec (le_enc k n) = n mod 256 ^ k"
proof (induction k arbitrary: n)
  case 0
  show ?case by simp
next
  case (Suc k)
  have "n mod 256 ^ Suc k = n mod 256 + 256 * (n div 256 mod 256 ^ k)"
    by (simp add: mod_mult2_eq)
  with Suc show ?case by simp
qed

lemma unat_byte_less [simp]: "unat (b :: byte) < 256"
  using unsigned_less[of b, where ?'a = nat] by simp

lemma le_dec_less: "le_dec bs < 256 ^ length bs"
proof (induction bs)
  case Nil
  show ?case by simp
next
  case (Cons b bs)
  have "unat b < 256" by simp
  moreover have "256 * (le_dec bs + 1) \<le> 256 * 256 ^ length bs" using Cons by simp
  ultimately show ?case by (simp del: unat_byte_less)
qed

lemma le_enc_dec: "le_enc (length bs) (le_dec bs) = bs"
proof (induction bs)
  case Nil
  show ?case by simp
next
  case (Cons b bs)
  have "unat b < 256" by simp
  with Cons show ?case by simp
qed

definition u16_to_le :: "u16 \<Rightarrow> byte list" where "u16_to_le w = le_enc 2 (unat w)"
definition u32_to_le :: "u32 \<Rightarrow> byte list" where "u32_to_le w = le_enc 4 (unat w)"
definition u64_to_le :: "u64 \<Rightarrow> byte list" where "u64_to_le w = le_enc 8 (unat w)"
definition u16_from_le :: "byte list \<Rightarrow> u16" where "u16_from_le bs = word_of_nat (le_dec bs)"
definition u32_from_le :: "byte list \<Rightarrow> u32" where "u32_from_le bs = word_of_nat (le_dec bs)"
definition u64_from_le :: "byte list \<Rightarrow> u64" where "u64_from_le bs = word_of_nat (le_dec bs)"

lemma length_to_le [simp]:
  "length (u16_to_le a) = 2" "length (u32_to_le b) = 4" "length (u64_to_le c) = 8"
  by (simp_all add: u16_to_le_def u32_to_le_def u64_to_le_def)

lemma from_le_to_le [simp, codec_simps]:
  "u16_from_le (u16_to_le a) = a"
  "u32_from_le (u32_to_le b) = b"
  "u64_from_le (u64_to_le c) = c"
  using unsigned_less[of a, where ?'a = nat] unsigned_less[of b, where ?'a = nat]
    unsigned_less[of c, where ?'a = nat]
  by (simp_all add: u16_to_le_def u32_to_le_def u64_to_le_def
        u16_from_le_def u32_from_le_def u64_from_le_def le_dec_enc)

section \<open>Slices and buffers\<close>

text \<open>\<open>xs[a..b]\<close>, which panics when the range is not inside the slice, and \<open>xs[a..]\<close>.\<close>

definition slice :: "'a list \<Rightarrow> nat \<Rightarrow> nat \<Rightarrow> ('e, 'a list) result" where
  "slice xs a b = (if a \<le> b \<and> b \<le> length xs then Ok (take (b - a) (drop a xs)) else Panic)"

definition slice_from :: "'a list \<Rightarrow> nat \<Rightarrow> ('e, 'a list) result" where
  "slice_from xs a = slice xs a (length xs)"

lemma slice_eq_Ok [result_simps]:
  "slice xs a b = Ok ys \<longleftrightarrow> a \<le> b \<and> b \<le> length xs \<and> ys = take (b - a) (drop a xs)"
  by (auto simp: slice_def)

lemma slice_eq_Panic [result_simps]:
  "slice xs a b = Panic \<longleftrightarrow> \<not> (a \<le> b \<and> b \<le> length xs)"
  by (auto simp: slice_def)

lemma slice_not_Err [simp]: "slice xs a b \<noteq> Err e"
  by (simp add: slice_def)

lemma slice_append:
  "length xs = a \<Longrightarrow> a + length ys = b \<Longrightarrow> slice (xs @ ys @ zs) a b = Ok ys"
  by (auto simp: slice_def)

lemma slice_from_eq_Ok [result_simps]:
  "slice_from xs a = Ok ys \<longleftrightarrow> a \<le> length xs \<and> ys = drop a xs"
  "slice_from xs a = Panic \<longleftrightarrow> length xs < a"
  by (auto simp: slice_from_def slice_def)

text \<open>The pure field reader used where the caller has already checked the length.\<close>

abbreviation field :: "'a list \<Rightarrow> nat \<Rightarrow> nat \<Rightarrow> 'a list" where
  "field xs off n \<equiv> take n (drop off xs)"

text \<open>\<open>dst[off..off + len].copy_from_slice(src)\<close>.\<close>

definition copy_into :: "'a list \<Rightarrow> nat \<Rightarrow> 'a list \<Rightarrow> ('e, 'a list) result" where
  "copy_into dst off src =
     (if off + length src \<le> length dst
      then Ok (take off dst @ src @ drop (off + length src) dst) else Panic)"

lemma copy_into_eq_Ok [result_simps]:
  "copy_into dst off src = Ok out \<longleftrightarrow>
     off + length src \<le> length dst \<and> out = take off dst @ src @ drop (off + length src) dst"
  by (auto simp: copy_into_def)

lemma nth_overwrite:
  assumes "off + length src \<le> length dst" and "i < length dst"
  shows "(take off dst @ src @ drop (off + length src) dst) ! i
    = (if off \<le> i \<and> i < off + length src then src ! (i - off) else dst ! i)"
  using assms by (auto simp: nth_append min_def)

lemma length_overwrite:
  "off + length src \<le> length dst \<Longrightarrow>
     length (take off dst @ src @ drop (off + length src) dst) = length dst"
  by simp

text \<open>Fields outside the written range are untouched; the written range holds the source.\<close>

lemma field_overwrite_same:
  assumes "off + length src \<le> length dst"
  shows "field (take off dst @ src @ drop (off + length src) dst) off (length src) = src"
  using assms by simp

lemma field_overwrite_other:
  assumes "off + length src \<le> length dst"
    and "a + n \<le> length dst" and "a + n \<le> off \<or> off + length src \<le> a"
  shows "field (take off dst @ src @ drop (off + length src) dst) a n = field dst a n"
    (is "field ?out a n = _")
proof (rule nth_equalityI)
  show "length (field ?out a n) = length (field dst a n)"
    using assms length_overwrite[OF assms(1)] by (simp only: length_take length_drop)
next
  fix i assume "i < length (field ?out a n)"
  then have i: "i < n" "a + i < length dst" using assms by auto
  then have "field ?out a n ! i = ?out ! (a + i)"
    using length_overwrite[OF assms(1)] by (simp only: nth_take nth_drop less_imp_le)
  also have "\<dots> = dst ! (a + i)"
    using assms i by (subst nth_overwrite) auto
  finally show "field ?out a n ! i = field dst a n ! i" using i by simp
qed

lemma take_overwrite:
  assumes "n \<le> off" and "off + length src \<le> length dst"
  shows "take n (take off dst @ src @ drop (off + length src) dst) = take n dst"
  using assms by (simp add: min_def)

text \<open>
  \<open>std::ptr::copy\<close>: move \<open>n\<close> cells from \<open>src\<close> to \<open>dst\<close> inside one buffer; the source is read
  before anything is written, so the ranges may overlap.
\<close>

definition memmove :: "'a list \<Rightarrow> nat \<Rightarrow> nat \<Rightarrow> nat \<Rightarrow> 'a list" where
  "memmove xs src dst n = take dst xs @ field xs src n @ drop (dst + n) xs"

lemma length_memmove [simp]:
  "src + n \<le> length xs \<Longrightarrow> dst + n \<le> length xs \<Longrightarrow> length (memmove xs src dst n) = length xs"
  by (simp add: memmove_def)

lemma nth_memmove:
  assumes "src + n \<le> length xs" "dst + n \<le> length xs" "i < length xs"
  shows "memmove xs src dst n ! i
    = (if dst \<le> i \<and> i < dst + n then xs ! (src + (i - dst)) else xs ! i)"
proof -
  have "length (field xs src n) = n" using assms(1) by simp
  with assms nth_overwrite[of dst "field xs src n" xs i] show ?thesis
    by (auto simp: memmove_def)
qed

section \<open>UTF-8\<close>

text \<open>The validity check behind \<open>std::str::from_utf8\<close> (Unicode 3.9, table 3-7).\<close>

definition utf8_cont :: "byte \<Rightarrow> bool" where
  "utf8_cont b \<longleftrightarrow> 0x80 \<le> b \<and> b \<le> 0xBF"

definition utf8_second :: "byte \<Rightarrow> byte \<Rightarrow> bool" where
  "utf8_second a b \<longleftrightarrow>
     (if a = 0xE0 then 0xA0 \<le> b \<and> b \<le> 0xBF
      else if a = 0xED then 0x80 \<le> b \<and> b \<le> 0x9F
      else if a = 0xF0 then 0x90 \<le> b \<and> b \<le> 0xBF
      else if a = 0xF4 then 0x80 \<le> b \<and> b \<le> 0x8F
      else utf8_cont b)"

fun utf8_valid :: "byte list \<Rightarrow> bool" where
  "utf8_valid [] \<longleftrightarrow> True"
| "utf8_valid (a # bs) \<longleftrightarrow>
     (if a < 0x80 then utf8_valid bs
      else if 0xC2 \<le> a \<and> a \<le> 0xDF then
        (case bs of b # cs \<Rightarrow> utf8_cont b \<and> utf8_valid cs | _ \<Rightarrow> False)
      else if 0xE0 \<le> a \<and> a \<le> 0xEF then
        (case bs of b # c # cs \<Rightarrow> utf8_second a b \<and> utf8_cont c \<and> utf8_valid cs | _ \<Rightarrow> False)
      else if 0xF0 \<le> a \<and> a \<le> 0xF4 then
        (case bs of b # c # d # cs \<Rightarrow> utf8_second a b \<and> utf8_cont c \<and> utf8_cont d \<and> utf8_valid cs
                  | _ \<Rightarrow> False)
      else False)"

text \<open>A string is the list of its UTF-8 bytes; a literal of the source is ASCII.\<close>

type_synonym str = "byte list"

definition ascii :: "string \<Rightarrow> str" where
  "ascii cs = map of_char cs"

section \<open>Lists\<close>

lemma take_drop_append_eq:
  "length xs = n \<Longrightarrow> take n (xs @ ys) = xs"
  "length xs = n \<Longrightarrow> drop n (xs @ ys) = ys"
  by auto

lemma field_append_skip:
  "length xs \<le> off \<Longrightarrow> field (xs @ ys) off n = field ys (off - length xs) n"
  by simp

lemma field_append_here: "length xs = n \<Longrightarrow> field (xs @ ys) 0 n = xs"
  by simp

lemma drop_field_split: "drop a bs = field bs a k @ drop (a + k) bs"
  by (metis add.commute append_take_drop_id drop_drop)

lemma strict_sorted_nth_mono:
  fixes xs :: "nat list"
  assumes "sorted_wrt (<) xs" and "i \<le> j" and "j < length xs"
  shows "xs ! i + (j - i) \<le> xs ! j"
  using assms
proof (induction "j - i" arbitrary: j)
  case 0
  then show ?case by simp
next
  case (Suc d)
  then obtain k where k: "j = Suc k" by (cases j) auto
  with Suc.hyps Suc.prems have "xs ! i + (k - i) \<le> xs ! k" by (intro Suc.hyps(1)) auto
  moreover have "xs ! k < xs ! j"
    using Suc.prems k by (intro sorted_wrt_nth_less[OF Suc.prems(1)]) auto
  ultimately show ?case using Suc.hyps(2) k by linarith
qed

lemma strict_sorted_nth_ge:
  fixes xs :: "nat list"
  assumes "sorted_wrt (<) xs" and "i < length xs"
  shows "i \<le> xs ! i"
  using strict_sorted_nth_mono[OF assms(1), of 0 i] assms(2) by simp

section \<open>Position lists\<close>

text \<open>A list of cache positions: strictly ascending, between a first and a last bound.\<close>

definition keep_in :: "nat \<Rightarrow> nat \<Rightarrow> nat list \<Rightarrow> bool" where
  "keep_in lo hi ks \<longleftrightarrow> sorted_wrt (<) ks \<and> (\<forall>k \<in> set ks. lo \<le> k \<and> k < hi)"

lemma keep_in_length: "keep_in lo n ks \<Longrightarrow> length ks \<le> n"
proof (cases "ks = []")
  case False
  assume a: "keep_in lo n ks"
  then have "length ks - 1 \<le> ks ! (length ks - 1)" using False strict_sorted_nth_ge[of ks "length ks - 1"]
    by (simp add: keep_in_def)
  moreover have "ks ! (length ks - 1) < n" using a False by (simp add: keep_in_def)
  ultimately show ?thesis by linarith
qed simp

end
