(* ===== verification/Codec.thy ===== *)
theory Codec
  imports Prelude
begin

text \<open>
  The interface of the fixed-width binary records of the AUF format (a 48-byte section entry, an
  8-byte dimension, a 24-byte variant tag): an encoder, a decoder and a width. The facts about a
  table of such records, written one after the other and read back in a loop, are proved once here
  and used through the interpretations in the theories that provide the records.
\<close>

section \<open>Tables of fixed-width records\<close>

text \<open>
  The loops \<open>for i in 0..count { entries.push(from_bytes(&bytes[i * w..(i + 1) * w])?) }\<close> of
  \<^verbatim>\<open>section.rs\<close> and \<^verbatim>\<open>tensor_index.rs\<close>: record \<open>i\<close> is decoded from its own window, and
  taking a window past the end of the bytes panics.
\<close>

fun read_table :: "nat \<Rightarrow> (byte list \<Rightarrow> ('e, 'a) result) \<Rightarrow> nat \<Rightarrow> byte list \<Rightarrow> ('e, 'a list) result" where
  "read_table w dec 0 bs = Ok []"
| "read_table w dec (Suc k) bs =
     and_then (slice bs 0 w) (\<lambda>b.
     and_then (dec b) (\<lambda>x.
     and_then (read_table w dec k (drop w bs)) (\<lambda>xs. Ok (x # xs))))"

definition write_table :: "('a \<Rightarrow> byte list) \<Rightarrow> 'a list \<Rightarrow> byte list" where
  "write_table enc xs = concat (map enc xs)"

lemma write_table_simps [simp]:
  "write_table enc [] = []"
  "write_table enc (x # xs) = enc x @ write_table enc xs"
  by (simp_all add: write_table_def)

lemma read_table_length: "read_table w dec k bs = Ok xs \<Longrightarrow> length xs = k"
  by (induction k arbitrary: bs xs) (auto simp: and_then_eq_Ok)

text \<open>A total decoder never fails and never panics, so neither does its table.\<close>

lemma read_table_total:
  assumes "\<And>bs. length bs = w \<Longrightarrow> \<exists>x. dec bs = Ok x" and "k * w \<le> length bs"
  shows "\<exists>xs. read_table w dec k bs = Ok xs"
  using assms(2)
proof (induction k arbitrary: bs)
  case 0
  show ?case by simp
next
  case (Suc k)
  then obtain x where x: "dec (take w bs) = Ok x" using assms(1)[of "take w bs"] by auto
  have "k * w \<le> length (drop w bs)" using Suc.prems by simp
  then obtain xs where "read_table w dec k (drop w bs) = Ok xs" using Suc.IH by blast
  with x Suc.prems show ?case by (simp add: slice_def)
qed

locale record_codec =
  fixes enc :: "'a \<Rightarrow> byte list"
    and dec :: "byte list \<Rightarrow> ('e, 'a) result"
    and width :: nat
    and wf :: "'a \<Rightarrow> bool"
  assumes enc_width: "wf x \<Longrightarrow> length (enc x) = width"
    and dec_enc: "wf x \<Longrightarrow> dec (enc x) = Ok x"
begin

lemma write_table_length:
  "\<forall>x \<in> set xs. wf x \<Longrightarrow> length (write_table enc xs) = length xs * width"
  by (induction xs) (simp_all add: enc_width)

lemma read_write_table:
  "\<forall>x \<in> set xs. wf x \<Longrightarrow>
     read_table width dec (length xs) (write_table enc xs @ rest) = Ok xs"
  by (induction xs) (simp_all add: enc_width dec_enc slice_def)

end

text \<open>A codec whose encoding is the only byte string that decodes to a value.\<close>

locale exact_codec = record_codec +
  assumes enc_dec: "length bs = width \<Longrightarrow> dec bs = Ok x \<Longrightarrow> enc x = bs \<and> wf x"
begin

lemma write_read_table:
  assumes "read_table width dec k bs = Ok xs" and "k * width \<le> length bs"
  shows "write_table enc xs = take (k * width) bs \<and> (\<forall>x \<in> set xs. wf x)"
  using assms
proof (induction k arbitrary: bs xs)
  case 0
  then show ?case by simp
next
  case (Suc k)
  then obtain y ys where y: "dec (take width bs) = Ok y"
    and ys: "read_table width dec k (drop width bs) = Ok ys" and xs: "xs = y # ys"
    by (auto simp: and_then_eq_Ok slice_eq_Ok)
  from Suc.prems have "length (take width bs) = width" by simp
  from enc_dec[OF this y] have e: "enc y = take width bs" "wf y" by auto
  moreover have "write_table enc ys = take (k * width) (drop width bs) \<and> (\<forall>x \<in> set ys. wf x)"
    using Suc.IH[OF ys] Suc.prems by simp
  ultimately show ?case by (simp add: xs take_add)
qed

end

section \<open>The primitive records\<close>

text \<open>\<open>u32::from_le_bytes(bytes[pos..pos + 4])\<close> and its 8-byte twin.\<close>

definition u32_at :: "byte list \<Rightarrow> nat \<Rightarrow> ('e, u32) result" where
  "u32_at bs pos = and_then (slice bs pos (pos + 4)) (\<lambda>b. Ok (u32_from_le b))"

definition u64_at :: "byte list \<Rightarrow> nat \<Rightarrow> ('e, u64) result" where
  "u64_at bs pos = and_then (slice bs pos (pos + 8)) (\<lambda>b. Ok (u64_from_le b))"

lemma word_at_in_range [simp]:
  "pos + 4 \<le> length bs \<Longrightarrow> u32_at bs pos = Ok (u32_from_le (field bs pos 4))"
  "pos + 8 \<le> length bs \<Longrightarrow> u64_at bs pos = Ok (u64_from_le (field bs pos 8))"
  by (simp_all add: u32_at_def u64_at_def slice_def)

lemma word_at_Panic [result_simps]:
  "u32_at bs pos = Panic \<longleftrightarrow> length bs < pos + 4"
  "u64_at bs pos = Panic \<longleftrightarrow> length bs < pos + 8"
  by (auto simp: u32_at_def u64_at_def slice_def)

definition u64_read :: "byte list \<Rightarrow> ('e, u64) result" where
  "u64_read bs = Ok (u64_from_le bs)"

interpretation u64_codec: exact_codec u64_to_le "u64_read :: byte list \<Rightarrow> ('e, u64) result" 8 "\<lambda>_. True"
proof unfold_locales
  fix bs :: "byte list" and x :: u64
  assume len: "length bs = 8" and "(u64_read bs :: ('e, u64) result) = Ok x"
  then have x: "x = word_of_nat (le_dec bs)" by (simp add: u64_read_def u64_from_le_def)
  have "le_dec bs < 2 ^ 64" using le_dec_less[of bs] len by simp
  then have "unat x = le_dec bs" by (simp add: x unat_of_nat)
  then have "u64_to_le x = le_enc (length bs) (le_dec bs)" by (simp add: u64_to_le_def len)
  then show "u64_to_le x = bs \<and> True" by (simp add: le_enc_dec)
qed (simp_all add: u64_read_def)

definition raw_read :: "byte list \<Rightarrow> ('e, byte list) result" where
  "raw_read bs = Ok bs"

interpretation tag_codec: exact_codec "\<lambda>bs. bs" "raw_read :: byte list \<Rightarrow> ('e, byte list) result" 24
  "\<lambda>bs. length bs = 24"
  by unfold_locales (simp_all add: raw_read_def)

end
