(* ===== verification/Auf_Header.thy ===== *)
theory Auf_Header
  imports Prelude
begin

text \<open>
  \<^verbatim>\<open>engine/src/auf/error.rs\<close> and \<^verbatim>\<open>engine/src/auf/header.rs\<close>: the error values of the AUF
  readers and writers, and the fixed 256-byte header. Message texts are not modelled; where the
  source puts one in a \<open>detail\<close> or \<open>Other\<close> field the model has one constructor per message.
\<close>

section \<open>Errors\<close>

datatype range_detail =
    OffsetBeforePayload u64 u64
  | OffsetSizeOverflow
  | EndPastFile u64 u64
  | StripCopyOutOfBounds

datatype blob_detail =
    LenPrefixOutOfBounds nat
  | DataOutOfBounds nat nat
  | InvalidUtf8

datatype tok_detail =
    TokPayloadTooSmall
  | TokMagicMismatch
  | TokUnsupportedSchema u32
  | TokUnsupportedKind u32
  | TokensBlob blob_detail
  | MergesBlob blob_detail
  | MergesNotUtf8
  | SpecialTokensOutOfBounds
  | ChatTemplateBlob blob_detail

datatype tidx_detail =
    EntryTruncated string nat nat nat
  | TidxPayloadTooSmall
  | TidxMagicMismatch
  | TidxUnsupportedSchema u32
  | VariantTagsOutOfBounds
  | TensorEntryOutOfBounds nat
  | TensorEntryFailed nat tidx_detail

datatype other_msg =
    TagTooLong str
  | DuplicateWeightsTag str
  | SectionTableOffsetOverflow
  | MetaJsonParse
  | MetaJsonSerialize
  | LmHeadNeedsBackend
  | LmHeadPayloadRange nat nat nat
  | UnknownWeightsTag str
  | NoSectionAtOffset
  | NotStrippable str

datatype auf_error =
    MagicMismatch
  | UnsupportedFormatMajor u16 u16
  | UnknownRequiredCapability nat
  | RequiredSectionMissing str
  | WeightsSectionMissing str
  | SectionRangeInvalid str range_detail
  | SectionOverlap str str
  | DuplicateSectionTag str
  | ContradictoryFlags str
  | CompressedSectionUnsupported str
  | SectionTableTruncated
  | FileTooSmall
  | TokenizerFormat tok_detail
  | TensorIndexFormat tidx_detail
  | LmHeadEntryMissing
  | LmHeadDtypeMismatch u32
  | LmHeadShapeMismatch nat nat "u64 list"
  | LmHeadVariantPayloadMissing str
  | DtypeNotAvailable u32 u32 u32
  | Other other_msg

type_synonym 'a auf_result = "(auf_error, 'a) result"

section \<open>The header\<close>

definition READER_MAX_FORMAT_MAJOR :: u16 where
  "READER_MAX_FORMAT_MAJOR = 0"

definition CAPABILITY_BIT_LM_HEAD_Q4_0 :: u64 where
  "CAPABILITY_BIT_LM_HEAD_Q4_0 = push_bit 2 1"

definition CAPABILITY_BIT_MULTI_DTYPE :: u64 where
  "CAPABILITY_BIT_MULTI_DTYPE = push_bit 3 1"

definition READER_KNOWN_CAPABILITIES :: u64 where
  "READER_KNOWN_CAPABILITIES = CAPABILITY_BIT_LM_HEAD_Q4_0 OR CAPABILITY_BIT_MULTI_DTYPE"

definition AUF_MAGIC :: "byte list" where
  "AUF_MAGIC = ascii ''ARGUS_W'' @ [0]"

definition HEADER_SIZE :: nat where
  "HEADER_SIZE = 256"

record auf_header =
  magic :: "byte list"
  format_major :: u16
  format_minor :: u16
  format_patch :: u16
  created_by :: "byte list"
  source_hash :: "byte list"
  source_size :: u64
  source_mtime :: u64
  capability_required :: u64
  capability_optional :: u64
  section_count :: u32
  section_table_offset :: u64
  payload_start_offset :: u64

text \<open>The array fields have their declared lengths: \<open>[u8; 8]\<close> and \<open>[u8; 32]\<close>.\<close>

definition header_wf :: "auf_header \<Rightarrow> bool" where
  "header_wf h \<longleftrightarrow> length (magic h) = 8 \<and> length (created_by h) = 32 \<and> length (source_hash h) = 32"

definition AufHeader_from_bytes :: "byte list \<Rightarrow> auf_header auf_result" where
  "AufHeader_from_bytes bytes =
     (if length bytes < HEADER_SIZE then Err FileTooSmall
      else let b = take HEADER_SIZE bytes in
        Ok \<lparr>magic = field b 0 8,
            format_major = u16_from_le (field b 8 2),
            format_minor = u16_from_le (field b 10 2),
            format_patch = u16_from_le (field b 12 2),
            created_by = field b 16 32,
            source_hash = field b 48 32,
            source_size = u64_from_le (field b 80 8),
            source_mtime = u64_from_le (field b 88 8),
            capability_required = u64_from_le (field b 96 8),
            capability_optional = u64_from_le (field b 104 8),
            section_count = u32_from_le (field b 112 4),
            section_table_offset = u64_from_le (field b 120 8),
            payload_start_offset = u64_from_le (field b 128 8)\<rparr>)"

text \<open>
  The source fills a zeroed 256-byte array field by field; the fields are adjacent and in
  increasing order, so the array is their concatenation with the zero padding in between.
\<close>

definition AufHeader_to_bytes :: "auf_header \<Rightarrow> byte list" where
  "AufHeader_to_bytes h =
     magic h @ u16_to_le (format_major h) @ u16_to_le (format_minor h) @ u16_to_le (format_patch h)
     @ replicate 2 0 @ created_by h @ source_hash h
     @ u64_to_le (source_size h) @ u64_to_le (source_mtime h)
     @ u64_to_le (capability_required h) @ u64_to_le (capability_optional h)
     @ u32_to_le (section_count h) @ replicate 4 0
     @ u64_to_le (section_table_offset h) @ u64_to_le (payload_start_offset h)
     @ replicate 120 0"

definition trailing_zeros :: "u64 \<Rightarrow> nat" where
  "trailing_zeros w = length (takeWhile (\<lambda>i. \<not> bit w i) [0..<64])"

definition AufHeader_validate :: "auf_header \<Rightarrow> unit auf_result" where
  "AufHeader_validate h =
     (if magic h \<noteq> AUF_MAGIC then Err MagicMismatch
      else if format_major h > READER_MAX_FORMAT_MAJOR
        then Err (UnsupportedFormatMajor (format_major h) READER_MAX_FORMAT_MAJOR)
      else let unknown_required = capability_required h AND NOT READER_KNOWN_CAPABILITIES in
        if unknown_required \<noteq> 0
        then Err (UnknownRequiredCapability (trailing_zeros unknown_required))
        else Ok ())"

definition has_lm_head_q4_0 :: "auf_header \<Rightarrow> bool" where
  "has_lm_head_q4_0 h \<longleftrightarrow> capability_optional h AND CAPABILITY_BIT_LM_HEAD_Q4_0 \<noteq> 0"

definition has_multi_dtype :: "auf_header \<Rightarrow> bool" where
  "has_multi_dtype h \<longleftrightarrow> capability_optional h AND CAPABILITY_BIT_MULTI_DTYPE \<noteq> 0"

definition set_lm_head_q4_0_capability :: "bool \<Rightarrow> auf_header \<Rightarrow> auf_header" where
  "set_lm_head_q4_0_capability enabled h =
     (if enabled
      then h\<lparr>capability_optional := capability_optional h OR CAPABILITY_BIT_LM_HEAD_Q4_0,
             format_patch := 1\<rparr>
      else h\<lparr>capability_optional := capability_optional h AND NOT CAPABILITY_BIT_LM_HEAD_Q4_0,
             format_patch := 0\<rparr>)"

definition set_multi_dtype_capability :: "bool \<Rightarrow> auf_header \<Rightarrow> auf_header" where
  "set_multi_dtype_capability enabled h =
     (if enabled
      then h\<lparr>capability_optional := capability_optional h OR CAPABILITY_BIT_MULTI_DTYPE,
             format_minor := 2\<rparr>
      else h\<lparr>capability_optional := capability_optional h AND NOT CAPABILITY_BIT_MULTI_DTYPE\<rparr>)"

text \<open>Copy at most \<open>n\<close> bytes of a string into a zeroed array of \<open>n\<close> bytes.\<close>

definition nul_pad :: "nat \<Rightarrow> byte list \<Rightarrow> byte list" where
  "nul_pad n bs = take n bs @ replicate (n - length bs) 0"

definition AufHeader_new_v01 ::
    "str \<Rightarrow> byte list \<Rightarrow> u64 \<Rightarrow> u64 \<Rightarrow> u32 \<Rightarrow> u64 \<Rightarrow> u64 \<Rightarrow> auf_header" where
  "AufHeader_new_v01 cb hash ssize smtime count table_off payload_off =
     \<lparr>magic = AUF_MAGIC, format_major = 0, format_minor = 1, format_patch = 0,
      created_by = nul_pad 32 cb, source_hash = hash, source_size = ssize, source_mtime = smtime,
      capability_required = 0, capability_optional = 0, section_count = count,
      section_table_offset = table_off, payload_start_offset = payload_off\<rparr>"

section \<open>Lemmas\<close>

lemma length_nul_pad [simp]: "length (nul_pad n bs) = n"
  by (simp add: nul_pad_def)

lemma length_AUF_MAGIC [simp]: "length AUF_MAGIC = 8"
  by (simp add: AUF_MAGIC_def ascii_def)

lemma length_header_to_bytes [simp]:
  "header_wf h \<Longrightarrow> length (AufHeader_to_bytes h) = 256"
  by (simp add: AufHeader_to_bytes_def header_wf_def)

text \<open>Reading a field of a concatenation, one prefix at a time.\<close>

lemma header_fields:
  assumes "header_wf h"
  shows "AufHeader_from_bytes (AufHeader_to_bytes h @ rest) = Ok h"
  using assms
  by (simp add: AufHeader_from_bytes_def AufHeader_to_bytes_def header_wf_def HEADER_SIZE_def)

lemma header_from_bytes_wf:
  "AufHeader_from_bytes bytes = Ok h \<Longrightarrow> header_wf h \<and> 256 \<le> length bytes"
  by (auto simp: AufHeader_from_bytes_def header_wf_def HEADER_SIZE_def Let_def split: if_splits)

lemma header_new_v01_wf [simp]:
  "length hash = 32 \<Longrightarrow> header_wf (AufHeader_new_v01 cb hash a b c d e)"
  by (simp add: header_wf_def AufHeader_new_v01_def)

lemma header_set_caps_wf [simp]:
  "header_wf (set_lm_head_q4_0_capability b h) = header_wf h"
  "header_wf (set_multi_dtype_capability b h) = header_wf h"
  by (simp_all add: header_wf_def set_lm_head_q4_0_capability_def set_multi_dtype_capability_def)

end
