(* ===== verification/Auf_Section.thy ===== *)
theory Auf_Section
  imports Codec Auf_Header
begin

text \<open>
  \<^verbatim>\<open>engine/src/auf/section.rs\<close>: the 48-byte section entries, the section table, and the four
  integrity checks the reader and the stripper run on it.
\<close>

section \<open>Section entries\<close>

definition SECTION_ENTRY_SIZE :: nat where "SECTION_ENTRY_SIZE = 48"
definition SECTION_TAG_SIZE :: nat where "SECTION_TAG_SIZE = 24"

definition SECTION_REQUIRED :: u32 where "SECTION_REQUIRED = push_bit 0 1"
definition SECTION_STRIPPABLE :: u32 where "SECTION_STRIPPABLE = push_bit 1 1"
definition SECTION_COMPRESSED :: u32 where "SECTION_COMPRESSED = push_bit 2 1"

definition TAG_META :: str where "TAG_META = ascii ''META''"
definition TAG_TOKENIZER :: str where "TAG_TOKENIZER = ascii ''TOKENIZER''"
definition TAG_TENSOR_INDEX :: str where "TAG_TENSOR_INDEX = ascii ''TENSOR_INDEX''"
definition TAG_WEIGHTS_ADRENO_SOA :: str where "TAG_WEIGHTS_ADRENO_SOA = ascii ''WEIGHTS_ADRENO_SOA''"
definition TAG_WEIGHTS_CUDA_AOS :: str where "TAG_WEIGHTS_CUDA_AOS = ascii ''WEIGHTS_CUDA_AOS''"
definition TAG_WEIGHTS_CPU_AOS :: str where "TAG_WEIGHTS_CPU_AOS = ascii ''WEIGHTS_CPU_AOS''"

lemmas tag_defs = TAG_META_def TAG_TOKENIZER_def TAG_TENSOR_INDEX_def
  TAG_WEIGHTS_ADRENO_SOA_def TAG_WEIGHTS_CUDA_AOS_def TAG_WEIGHTS_CPU_AOS_def

record section_entry =
  tag_raw :: "byte list"
  sec_offset :: u64
  sec_size :: u64
  flags :: u32
  version :: u32

definition entry_wf :: "section_entry \<Rightarrow> bool" where
  "entry_wf e \<longleftrightarrow> length (tag_raw e) = SECTION_TAG_SIZE"

definition SectionEntry_from_bytes :: "byte list \<Rightarrow> section_entry auf_result" where
  "SectionEntry_from_bytes b =
     (if length b < SECTION_ENTRY_SIZE then Err SectionTableTruncated
      else Ok \<lparr>tag_raw = field b 0 SECTION_TAG_SIZE,
               sec_offset = u64_from_le (field b 24 8),
               sec_size = u64_from_le (field b 32 8),
               flags = u32_from_le (field b 40 4),
               version = u32_from_le (field b 44 4)\<rparr>)"

definition SectionEntry_to_bytes :: "section_entry \<Rightarrow> byte list" where
  "SectionEntry_to_bytes e =
     tag_raw e @ u64_to_le (sec_offset e) @ u64_to_le (sec_size e)
     @ u32_to_le (flags e) @ u32_to_le (version e)"

text \<open>The bytes before the first NUL; a tag that is not UTF-8 reads as the empty string.\<close>

definition nul_trim :: "byte list \<Rightarrow> byte list" where
  "nul_trim bs = takeWhile (\<lambda>b. b \<noteq> 0) bs"

definition tag :: "section_entry \<Rightarrow> str" where
  "tag e = (let t = nul_trim (tag_raw e) in if utf8_valid t then t else [])"

definition is_required :: "section_entry \<Rightarrow> bool" where
  "is_required e \<longleftrightarrow> flags e AND SECTION_REQUIRED \<noteq> 0"

definition is_strippable :: "section_entry \<Rightarrow> bool" where
  "is_strippable e \<longleftrightarrow> flags e AND SECTION_STRIPPABLE \<noteq> 0"

definition is_compressed :: "section_entry \<Rightarrow> bool" where
  "is_compressed e \<longleftrightarrow> flags e AND SECTION_COMPRESSED \<noteq> 0"

definition SectionEntry_new :: "str \<Rightarrow> u64 \<Rightarrow> u64 \<Rightarrow> u32 \<Rightarrow> u32 \<Rightarrow> section_entry auf_result" where
  "SectionEntry_new t off sz fl ver =
     (if length t > SECTION_TAG_SIZE then Err (Other (TagTooLong t))
      else Ok \<lparr>tag_raw = nul_pad SECTION_TAG_SIZE t, sec_offset = off, sec_size = sz,
               flags = fl, version = ver\<rparr>)"

section \<open>The section table\<close>

type_synonym section_table = "section_entry list"

definition SectionTable_from_bytes :: "byte list \<Rightarrow> u32 \<Rightarrow> section_table auf_result" where
  "SectionTable_from_bytes bytes count =
     (let n = unat count in
      if length bytes < n * SECTION_ENTRY_SIZE then Err SectionTableTruncated
      else read_table SECTION_ENTRY_SIZE SectionEntry_from_bytes n bytes)"

definition SectionTable_to_bytes :: "section_table \<Rightarrow> byte list" where
  "SectionTable_to_bytes es = write_table SectionEntry_to_bytes es"

definition serialized_size :: "section_table \<Rightarrow> nat" where
  "serialized_size es = length es * SECTION_ENTRY_SIZE"

definition find_section :: "section_table \<Rightarrow> str \<Rightarrow> section_entry option" where
  "find_section es t = List.find (\<lambda>e. tag e = t) es"

fun validate_flags :: "section_table \<Rightarrow> unit auf_result" where
  "validate_flags [] = Ok ()"
| "validate_flags (e # es) =
     (if is_required e \<and> is_strippable e then Err (ContradictoryFlags (tag e))
      else validate_flags es)"

fun validate_no_compressed :: "section_table \<Rightarrow> unit auf_result" where
  "validate_no_compressed [] = Ok ()"
| "validate_no_compressed (e # es) =
     (if is_compressed e then Err (CompressedSectionUnsupported (tag e))
      else validate_no_compressed es)"

fun unique_tags_loop :: "str set \<Rightarrow> section_table \<Rightarrow> unit auf_result" where
  "unique_tags_loop seen [] = Ok ()"
| "unique_tags_loop seen (e # es) =
     (if tag e \<in> seen then Err (DuplicateSectionTag (tag e))
      else unique_tags_loop (insert (tag e) seen) es)"

definition validate_unique_tags :: "section_table \<Rightarrow> unit auf_result" where
  "validate_unique_tags es = unique_tags_loop {} es"

definition checked_add_u64 :: "u64 \<Rightarrow> u64 \<Rightarrow> u64 option" where
  "checked_add_u64 a b = (if unat a + unat b < 2 ^ 64 then Some (a + b) else None)"

definition validate_range :: "u64 \<Rightarrow> u64 \<Rightarrow> section_entry \<Rightarrow> unit auf_result" where
  "validate_range payload_start file_size e =
     (if sec_offset e < payload_start
      then Err (SectionRangeInvalid (tag e) (OffsetBeforePayload (sec_offset e) payload_start))
      else case checked_add_u64 (sec_offset e) (sec_size e) of
        None \<Rightarrow> Err (SectionRangeInvalid (tag e) OffsetSizeOverflow)
      | Some end_off \<Rightarrow>
          if end_off > file_size
          then Err (SectionRangeInvalid (tag e) (EndPastFile end_off file_size))
          else Ok ())"

fun range_loop :: "u64 \<Rightarrow> u64 \<Rightarrow> section_table \<Rightarrow> unit auf_result" where
  "range_loop ps fs [] = Ok ()"
| "range_loop ps fs (e # es) = and_then (validate_range ps fs e) (\<lambda>_. range_loop ps fs es)"

definition entries_overlap :: "section_entry \<Rightarrow> section_entry \<Rightarrow> bool" where
  "entries_overlap a b \<longleftrightarrow>
     sec_offset a < sec_offset b + sec_size b \<and> sec_offset b < sec_offset a + sec_size a"

fun overlap_inner :: "section_entry \<Rightarrow> section_table \<Rightarrow> unit auf_result" where
  "overlap_inner a [] = Ok ()"
| "overlap_inner a (b # es) =
     (if entries_overlap a b then Err (SectionOverlap (tag a) (tag b)) else overlap_inner a es)"

fun overlap_loop :: "section_table \<Rightarrow> unit auf_result" where
  "overlap_loop [] = Ok ()"
| "overlap_loop (a # es) = and_then (overlap_inner a es) (\<lambda>_. overlap_loop es)"

definition validate_ranges :: "section_table \<Rightarrow> u64 \<Rightarrow> u64 \<Rightarrow> unit auf_result" where
  "validate_ranges es payload_start file_size =
     and_then (range_loop payload_start file_size es) (\<lambda>_. overlap_loop es)"

section \<open>Lemmas\<close>

lemma length_entry_to_bytes [simp]: "entry_wf e \<Longrightarrow> length (SectionEntry_to_bytes e) = 48"
  by (simp add: SectionEntry_to_bytes_def entry_wf_def SECTION_TAG_SIZE_def)

lemma entry_from_to_bytes:
  "entry_wf e \<Longrightarrow> SectionEntry_from_bytes (SectionEntry_to_bytes e @ rest) = Ok e"
  by (simp add: SectionEntry_from_bytes_def SectionEntry_to_bytes_def entry_wf_def
      SECTION_TAG_SIZE_def SECTION_ENTRY_SIZE_def)

lemma u32_to_from_le: "length bs = 4 \<Longrightarrow> u32_to_le (u32_from_le bs) = bs"
proof -
  assume len: "length bs = 4"
  have "le_dec bs < 2 ^ 32" using le_dec_less[of bs] len by simp
  then have "unat (u32_from_le bs) = le_dec bs" by (simp add: u32_from_le_def unat_of_nat)
  with le_enc_dec[of bs] len show ?thesis by (simp add: u32_to_le_def)
qed

lemma u64_to_from_le: "length bs = 8 \<Longrightarrow> u64_to_le (u64_from_le bs) = bs"
  using u64_codec.enc_dec[of bs "u64_from_le bs"] by (simp add: u64_read_def)

lemma entry_to_from_bytes:
  assumes "length b = 48" and "SectionEntry_from_bytes b = Ok e"
  shows "SectionEntry_to_bytes e = b \<and> entry_wf e"
proof -
  have split: "b = field b 0 24 @ field b 24 8 @ field b 32 8 @ field b 40 4 @ field b 44 4"
    using drop_field_split[of 24 b 8] drop_field_split[of 32 b 8] drop_field_split[of 40 b 4] assms(1)
    by simp
  show ?thesis
    using assms split
    by (auto simp: SectionEntry_from_bytes_def SectionEntry_to_bytes_def entry_wf_def
        SECTION_TAG_SIZE_def SECTION_ENTRY_SIZE_def u32_to_from_le u64_to_from_le)
qed

interpretation section_codec:
  exact_codec SectionEntry_to_bytes SectionEntry_from_bytes SECTION_ENTRY_SIZE entry_wf
proof unfold_locales
  show "\<And>x. entry_wf x \<Longrightarrow> length (SectionEntry_to_bytes x) = SECTION_ENTRY_SIZE"
    by (simp add: SECTION_ENTRY_SIZE_def)
  show "\<And>x. entry_wf x \<Longrightarrow> SectionEntry_from_bytes (SectionEntry_to_bytes x) = Ok x"
    using entry_from_to_bytes[where rest = "[]"] by simp
  show "\<And>bs x. length bs = SECTION_ENTRY_SIZE \<Longrightarrow> SectionEntry_from_bytes bs = Ok x \<Longrightarrow>
      SectionEntry_to_bytes x = bs \<and> entry_wf x"
    using entry_to_from_bytes by (simp add: SECTION_ENTRY_SIZE_def)
qed

text \<open>A tag that fits the field and has no NUL is read back unchanged.\<close>

definition tag_ok :: "str \<Rightarrow> bool" where
  "tag_ok t \<longleftrightarrow> length t \<le> SECTION_TAG_SIZE \<and> 0 \<notin> set t \<and> utf8_valid t"

lemma nul_trim_pad: "length t \<le> n \<Longrightarrow> 0 \<notin> set t \<Longrightarrow> nul_trim (nul_pad n t) = t"
proof -
  assume a: "length t \<le> n" "0 \<notin> set t"
  have "takeWhile (\<lambda>b. b \<noteq> 0) (replicate k (0 :: byte)) = []" for k by (cases k) auto
  with a show ?thesis by (auto simp: nul_trim_def nul_pad_def takeWhile_append)
qed

lemma SectionEntry_new_ok:
  assumes "tag_ok t"
  obtains e where "SectionEntry_new t off sz fl ver = Ok e" "tag e = t" "entry_wf e"
    "sec_offset e = off" "sec_size e = sz" "flags e = fl" "version e = ver"
  using assms nul_trim_pad[of t SECTION_TAG_SIZE]
  by (auto simp: tag_ok_def SectionEntry_new_def tag_def entry_wf_def)

lemma SectionEntry_new_wf: "SectionEntry_new t off sz fl ver = Ok e \<Longrightarrow> entry_wf e"
  by (auto simp: SectionEntry_new_def entry_wf_def split: if_splits)

subsection \<open>What the validators accept\<close>

lemma unique_tags_loop_ok:
  "unique_tags_loop seen es = Ok u \<longleftrightarrow> distinct (map tag es) \<and> set (map tag es) \<inter> seen = {}"
  by (induction es arbitrary: seen) auto

lemma validate_flags_ok:
  "validate_flags es = Ok u \<longleftrightarrow> (\<forall>e \<in> set es. \<not> (is_required e \<and> is_strippable e))"
  by (induction es) auto

lemma validate_no_compressed_ok:
  "validate_no_compressed es = Ok u \<longleftrightarrow> (\<forall>e \<in> set es. \<not> is_compressed e)"
  by (induction es) auto

text \<open>The range of a section, in the unbounded integers.\<close>

definition sec_end :: "section_entry \<Rightarrow> nat" where
  "sec_end e = unat (sec_offset e) + unat (sec_size e)"

definition sec_inside :: "u64 \<Rightarrow> u64 \<Rightarrow> section_entry \<Rightarrow> bool" where
  "sec_inside ps fs e \<longleftrightarrow> unat ps \<le> unat (sec_offset e) \<and> sec_end e \<le> unat fs"

definition sec_apart :: "section_entry \<Rightarrow> section_entry \<Rightarrow> bool" where
  "sec_apart a b \<longleftrightarrow> sec_end a \<le> unat (sec_offset b) \<or> sec_end b \<le> unat (sec_offset a)"

lemma unat_u64_less: "unat (w :: u64) < 18446744073709551616"
  using unsigned_less[of w, where ?'a = nat] by simp

lemma validate_range_ok: "validate_range ps fs e = Ok u \<longleftrightarrow> sec_inside ps fs e"
proof -
  have "sec_end e \<le> unat fs \<Longrightarrow> sec_end e < 2 ^ 64"
    using unat_u64_less[of fs] by simp
  then show ?thesis
    by (auto simp: validate_range_def checked_add_u64_def sec_inside_def sec_end_def
        word_less_nat_alt unat_word_ariths not_less)
qed

lemma range_loop_ok: "range_loop ps fs es = Ok u \<longleftrightarrow> (\<forall>e \<in> set es. sec_inside ps fs e)"
  by (induction es) (auto simp: and_then_eq_Ok validate_range_ok)

lemma entries_overlap_iff:
  "sec_end a < 2 ^ 64 \<Longrightarrow> sec_end b < 2 ^ 64 \<Longrightarrow> entries_overlap a b \<longleftrightarrow> \<not> sec_apart a b"
  by (auto simp: entries_overlap_def sec_apart_def sec_end_def word_less_nat_alt unat_word_ariths)

lemma overlap_inner_ok:
  "sec_end a < 2 ^ 64 \<Longrightarrow> \<forall>b \<in> set es. sec_end b < 2 ^ 64 \<Longrightarrow>
     overlap_inner a es = Ok u \<longleftrightarrow> (\<forall>b \<in> set es. sec_apart a b)"
  by (induction es) (auto simp: entries_overlap_iff)

lemma overlap_loop_ok:
  "\<forall>b \<in> set es. sec_end b < 2 ^ 64 \<Longrightarrow> overlap_loop es = Ok u \<longleftrightarrow> sorted_wrt sec_apart es"
  by (induction es) (auto simp: and_then_eq_Ok overlap_inner_ok)

lemma sec_inside_end: "sec_inside ps fs e \<Longrightarrow> sec_end e < 2 ^ 64"
  using unat_u64_less[of fs] unfolding sec_inside_def by simp

lemma validate_ranges_ok:
  "validate_ranges es ps fs = Ok u \<longleftrightarrow>
     (\<forall>e \<in> set es. sec_inside ps fs e) \<and> sorted_wrt sec_apart es"
proof (cases "\<forall>e \<in> set es. sec_inside ps fs e")
  case True
  then have "\<forall>b \<in> set es. sec_end b < 2 ^ 64" using sec_inside_end by blast
  with overlap_loop_ok show ?thesis by (auto simp: validate_ranges_def and_then_eq_Ok range_loop_ok)
next
  case False
  then show ?thesis by (auto simp: validate_ranges_def and_then_eq_Ok range_loop_ok)
qed

lemma find_section_unique:
  assumes "distinct (map tag es)" and "e \<in> set es"
  shows "find_section es (tag e) = Some e"
  using assms by (induction es) (auto simp: find_section_def)

lemma find_section_Some: "find_section es t = Some e \<Longrightarrow> e \<in> set es \<and> tag e = t"
  by (auto simp: find_section_def find_Some_iff)

end
