(* ===== verification/Auf_Tensor_Index.thy ===== *)
theory Auf_Tensor_Index
  imports Auf_Section
begin

text \<open>
  \<^verbatim>\<open>engine/src/auf/tensor_index.rs\<close>: the TENSOR_INDEX section. Its entries have a variable length
  (the rank of the shape and the number of backend variants), so the parser carries a position;
  the arrays inside an entry are tables of 8-byte words.
\<close>

section \<open>Data\<close>

definition TENSOR_INDEX_MAGIC :: "byte list" where
  "TENSOR_INDEX_MAGIC = ascii ''ARGUS_TIDX'' @ replicate 6 0"

definition TENSOR_INDEX_FIXED_HEADER :: nat where "TENSOR_INDEX_FIXED_HEADER = 32"

definition LAYER_IDX_CROSS :: u32 where "LAYER_IDX_CROSS = u32_max"

datatype tensor_dtype = TD_F32 | TD_F16 | TD_BF16 | TD_Q4_0 | TD_Q4_1 | TD_Q8_0 | TD_U8

fun TensorDType_as_u32 :: "tensor_dtype \<Rightarrow> u32" where
  "TensorDType_as_u32 TD_F32 = 0"
| "TensorDType_as_u32 TD_F16 = 1"
| "TensorDType_as_u32 TD_BF16 = 2"
| "TensorDType_as_u32 TD_Q4_0 = 3"
| "TensorDType_as_u32 TD_Q4_1 = 4"
| "TensorDType_as_u32 TD_Q8_0 = 5"
| "TensorDType_as_u32 TD_U8 = 6"

definition TensorDType_from_u32 :: "u32 \<Rightarrow> tensor_dtype option" where
  "TensorDType_from_u32 v =
     (if v = 0 then Some TD_F32 else if v = 1 then Some TD_F16 else if v = 2 then Some TD_BF16
      else if v = 3 then Some TD_Q4_0 else if v = 4 then Some TD_Q4_1
      else if v = 5 then Some TD_Q8_0 else if v = 6 then Some TD_U8 else None)"

datatype tensor_kind =
    AttnQ | AttnK | AttnV | AttnO | FfnGate | FfnUp | FfnDown | AttnNorm | FfnNorm
  | Embedding | FinalNorm | LmHead | AttnQBias | AttnKBias | AttnVBias

fun TensorKind_as_u32 :: "tensor_kind \<Rightarrow> u32" where
  "TensorKind_as_u32 AttnQ = 0" | "TensorKind_as_u32 AttnK = 1" | "TensorKind_as_u32 AttnV = 2"
| "TensorKind_as_u32 AttnO = 3" | "TensorKind_as_u32 FfnGate = 4" | "TensorKind_as_u32 FfnUp = 5"
| "TensorKind_as_u32 FfnDown = 6" | "TensorKind_as_u32 AttnNorm = 7"
| "TensorKind_as_u32 FfnNorm = 8" | "TensorKind_as_u32 Embedding = 9"
| "TensorKind_as_u32 FinalNorm = 10" | "TensorKind_as_u32 LmHead = 11"
| "TensorKind_as_u32 AttnQBias = 12" | "TensorKind_as_u32 AttnKBias = 13"
| "TensorKind_as_u32 AttnVBias = 14"

definition TensorKind_from_u32 :: "u32 \<Rightarrow> tensor_kind option" where
  "TensorKind_from_u32 v =
     (if v = 0 then Some AttnQ else if v = 1 then Some AttnK else if v = 2 then Some AttnV
      else if v = 3 then Some AttnO else if v = 4 then Some FfnGate else if v = 5 then Some FfnUp
      else if v = 6 then Some FfnDown else if v = 7 then Some AttnNorm
      else if v = 8 then Some FfnNorm else if v = 9 then Some Embedding
      else if v = 10 then Some FinalNorm else if v = 11 then Some LmHead
      else if v = 12 then Some AttnQBias else if v = 13 then Some AttnKBias
      else if v = 14 then Some AttnVBias else None)"

record tensor_entry =
  te_layer_idx :: u32
  te_kind :: u32
  te_dtype :: u32
  te_shape :: "u64 list"
  te_alignment :: u64
  variant_offsets :: "u64 list"
  variant_sizes :: "u64 list"

record tensor_index =
  variant_tags :: "byte list list"
  tensor_entries :: "tensor_entry list"

section \<open>Entries\<close>

definition TensorEntry_serialized_size :: "nat \<Rightarrow> nat \<Rightarrow> nat" where
  "TensorEntry_serialized_size shape_rank variant_count = 16 + shape_rank * 8 + 8 + variant_count * 8 * 2"

definition require :: "byte list \<Rightarrow> nat \<Rightarrow> nat \<Rightarrow> string \<Rightarrow> unit auf_result" where
  "require bytes pos need ctx =
     ensure (\<not> length bytes < pos + need)
       (TensorIndexFormat (EntryTruncated ctx need pos (length bytes)))"

definition TensorEntry_from_bytes :: "byte list \<Rightarrow> nat \<Rightarrow> (tensor_entry \<times> nat) auf_result" where
  "TensorEntry_from_bytes bytes variant_count =
     and_then (require bytes 0 16 ''entry fixed header'') (\<lambda>_.
     and_then (u32_at bytes 0) (\<lambda>layer_idx.
     and_then (u32_at bytes 4) (\<lambda>kind.
     and_then (u32_at bytes 8) (\<lambda>dtype.
     and_then (u32_at bytes 12) (\<lambda>rank.
     let shape_rank = unat rank; pos = 16 in
     and_then (require bytes pos (shape_rank * 8) ''shape'') (\<lambda>_.
     and_then (read_table 8 u64_read shape_rank (drop pos bytes)) (\<lambda>shape.
     let pos = pos + shape_rank * 8 in
     and_then (require bytes pos 8 ''alignment'') (\<lambda>_.
     and_then (u64_at bytes pos) (\<lambda>alignment.
     let pos = pos + 8 in
     and_then (require bytes pos (variant_count * 8) ''variant_offsets'') (\<lambda>_.
     and_then (read_table 8 u64_read variant_count (drop pos bytes)) (\<lambda>offs.
     let pos = pos + variant_count * 8 in
     and_then (require bytes pos (variant_count * 8) ''variant_sizes'') (\<lambda>_.
     and_then (read_table 8 u64_read variant_count (drop pos bytes)) (\<lambda>szs.
     let pos = pos + variant_count * 8 in
     Ok (\<lparr>te_layer_idx = layer_idx, te_kind = kind, te_dtype = dtype, te_shape = shape,
          te_alignment = alignment, variant_offsets = offs, variant_sizes = szs\<rparr>, pos))))))))))))))"

definition TensorEntry_to_bytes :: "tensor_entry \<Rightarrow> byte list" where
  "TensorEntry_to_bytes e =
     u32_to_le (te_layer_idx e) @ u32_to_le (te_kind e) @ u32_to_le (te_dtype e)
     @ u32_to_le (word_of_nat (length (te_shape e)))
     @ write_table u64_to_le (te_shape e)
     @ u64_to_le (te_alignment e)
     @ write_table u64_to_le (variant_offsets e)
     @ write_table u64_to_le (variant_sizes e)"

section \<open>The index\<close>

fun entry_error :: "nat \<Rightarrow> auf_error \<Rightarrow> auf_error" where
  "entry_error i (TensorIndexFormat d) = TensorIndexFormat (TensorEntryFailed i d)"
| "entry_error i e = e"

fun read_entries :: "byte list \<Rightarrow> nat \<Rightarrow> nat \<Rightarrow> nat \<Rightarrow> nat \<Rightarrow> tensor_entry list auf_result" where
  "read_entries payload vc i 0 pos = Ok []"
| "read_entries payload vc i (Suc k) pos =
     (if pos \<ge> length payload then Err (TensorIndexFormat (TensorEntryOutOfBounds i))
      else and_then (map_err (entry_error i) (TensorEntry_from_bytes (drop pos payload) vc))
             (\<lambda>(e, consumed).
           and_then (read_entries payload vc (Suc i) k (pos + consumed)) (\<lambda>es. Ok (e # es))))"

definition TensorIndex_from_bytes :: "byte list \<Rightarrow> tensor_index auf_result" where
  "TensorIndex_from_bytes payload =
     (if length payload < TENSOR_INDEX_FIXED_HEADER then Err (TensorIndexFormat TidxPayloadTooSmall)
      else if field payload 0 16 \<noteq> TENSOR_INDEX_MAGIC then Err (TensorIndexFormat TidxMagicMismatch)
      else
        let schema_version = u32_from_le (field payload 16 4) in
        if schema_version \<noteq> 1 then Err (TensorIndexFormat (TidxUnsupportedSchema schema_version))
        else
          let variant_count = unat (u32_from_le (field payload 20 4));
              tensor_count = unat (u32_from_le (field payload 24 4)) in
          if length payload < 32 + variant_count * 24
          then Err (TensorIndexFormat VariantTagsOutOfBounds)
          else
            and_then (read_table 24 raw_read variant_count (drop 32 payload)) (\<lambda>tags.
            and_then (read_entries payload variant_count 0 tensor_count (32 + variant_count * 24)) (\<lambda>es.
            Ok \<lparr>variant_tags = tags, tensor_entries = es\<rparr>)))"

definition TensorIndex_to_bytes :: "tensor_index \<Rightarrow> byte list" where
  "TensorIndex_to_bytes idx =
     TENSOR_INDEX_MAGIC @ u32_to_le 1
     @ u32_to_le (word_of_nat (length (variant_tags idx)))
     @ u32_to_le (word_of_nat (length (tensor_entries idx)))
     @ u32_to_le 0
     @ write_table (\<lambda>t. t) (variant_tags idx)
     @ write_table TensorEntry_to_bytes (tensor_entries idx)"

definition find_lm_head_entry :: "tensor_index \<Rightarrow> tensor_entry option" where
  "find_lm_head_entry idx =
     List.find (\<lambda>e. te_kind e = TensorKind_as_u32 LmHead \<and> te_layer_idx e = LAYER_IDX_CROSS)
       (tensor_entries idx)"

fun position :: "('a \<Rightarrow> bool) \<Rightarrow> 'a list \<Rightarrow> nat option" where
  "position P [] = None"
| "position P (x # xs) = (if P x then Some 0 else map_option Suc (position P xs))"

definition variant_index_for_tag :: "tensor_index \<Rightarrow> str \<Rightarrow> nat option" where
  "variant_index_for_tag idx weights_tag =
     position (\<lambda>t. let s = nul_trim t in utf8_valid s \<and> s = weights_tag) (variant_tags idx)"

definition variant_tag_strings :: "tensor_index \<Rightarrow> str list" where
  "variant_tag_strings idx =
     map (\<lambda>t. let s = nul_trim t in if utf8_valid s then s else []) (variant_tags idx)"

definition entries_for :: "tensor_index \<Rightarrow> u32 \<Rightarrow> u32 \<Rightarrow> tensor_entry list" where
  "entries_for idx layer kind =
     filter (\<lambda>e. te_layer_idx e = layer \<and> te_kind e = kind) (tensor_entries idx)"

definition find_entry_by_dtype :: "tensor_index \<Rightarrow> u32 \<Rightarrow> u32 \<Rightarrow> u32 \<Rightarrow> tensor_entry option" where
  "find_entry_by_dtype idx layer kind dt =
     List.find (\<lambda>e. te_layer_idx e = layer \<and> te_kind e = kind \<and> te_dtype e = dt)
       (tensor_entries idx)"

section \<open>Lemmas\<close>

definition tensor_entry_wf :: "nat \<Rightarrow> tensor_entry \<Rightarrow> bool" where
  "tensor_entry_wf vc e \<longleftrightarrow>
     length (te_shape e) < 2 ^ 32 \<and> length (variant_offsets e) = vc \<and> length (variant_sizes e) = vc"

definition tensor_index_wf :: "tensor_index \<Rightarrow> bool" where
  "tensor_index_wf idx \<longleftrightarrow>
     length (variant_tags idx) < 2 ^ 32 \<and> length (tensor_entries idx) < 2 ^ 32
     \<and> (\<forall>t \<in> set (variant_tags idx). length t = 24)
     \<and> (\<forall>e \<in> set (tensor_entries idx). tensor_entry_wf (length (variant_tags idx)) e)"

lemma length_u64_table [simp]: "length (write_table u64_to_le xs) = length xs * 8"
  using u64_codec.write_table_length[of xs] by simp

lemma read_u64_table [simp]:
  "n = length xs \<Longrightarrow>
     (read_table 8 u64_read n (write_table u64_to_le xs @ rest) :: ('e, u64 list) result) = Ok xs"
  using u64_codec.read_write_table[of xs rest] by simp

lemma read_u64_table_nil [simp]:
  "n = length xs \<Longrightarrow>
     (read_table 8 u64_read n (write_table u64_to_le xs) :: ('e, u64 list) result) = Ok xs"
  using read_u64_table[of n xs "[]"] by simp

lemma unat_u32_of_nat [simp]: "n < 2 ^ 32 \<Longrightarrow> unat (word_of_nat n :: u32) = n"
  by (simp add: unat_of_nat)

lemma length_tensor_entry_to_bytes:
  "length (TensorEntry_to_bytes e) =
     24 + 8 * (length (te_shape e) + length (variant_offsets e) + length (variant_sizes e))"
  by (simp add: TensorEntry_to_bytes_def)

lemma tensor_entry_roundtrip:
  assumes "tensor_entry_wf vc e"
  shows "TensorEntry_from_bytes (TensorEntry_to_bytes e @ rest) vc
       = Ok (e, length (TensorEntry_to_bytes e))"
  using assms
  by (simp add: TensorEntry_from_bytes_def TensorEntry_to_bytes_def tensor_entry_wf_def require_def
      Let_def)

lemma read_entries_roundtrip:
  assumes "\<forall>e \<in> set es. tensor_entry_wf vc e" and "length pre = pos"
  shows "read_entries (pre @ write_table TensorEntry_to_bytes es) vc i (length es) pos = Ok es"
  using assms
proof (induction es arbitrary: pre pos i)
  case Nil
  then show ?case by simp
next
  case (Cons e es)
  let ?b = "TensorEntry_to_bytes e"
  have "read_entries ((pre @ ?b) @ write_table TensorEntry_to_bytes es) vc (Suc i) (length es)
      (pos + length ?b) = Ok es"
    using Cons.prems by (intro Cons.IH) auto
  moreover have "TensorEntry_from_bytes (?b @ write_table TensorEntry_to_bytes es) vc
      = Ok (e, length ?b)"
    using Cons.prems by (intro tensor_entry_roundtrip) auto
  ultimately show ?case
    using Cons.prems by (simp add: length_tensor_entry_to_bytes)
qed

lemma length_TENSOR_INDEX_MAGIC [simp]: "length TENSOR_INDEX_MAGIC = 16"
  by (simp add: TENSOR_INDEX_MAGIC_def ascii_def)

lemma tensor_index_roundtrip:
  assumes "tensor_index_wf idx"
  shows "TensorIndex_from_bytes (TensorIndex_to_bytes idx) = Ok idx"
proof -
  let ?vc = "length (variant_tags idx)"
  let ?tags = "write_table (\<lambda>t. t) (variant_tags idx)"
  let ?es = "write_table TensorEntry_to_bytes (tensor_entries idx)"
  let ?hdr = "TENSOR_INDEX_MAGIC @ u32_to_le 1 @ u32_to_le (word_of_nat ?vc)
     @ u32_to_le (word_of_nat (length (tensor_entries idx))) @ u32_to_le 0"
  have bytes: "TensorIndex_to_bytes idx = (?hdr @ ?tags) @ ?es"
    by (simp add: TensorIndex_to_bytes_def)
  have tags: "length ?tags = ?vc * 24"
    using assms tag_codec.write_table_length[of "variant_tags idx"] by (simp add: tensor_index_wf_def)
  have "read_entries ((?hdr @ ?tags) @ ?es) ?vc 0 (length (tensor_entries idx)) (32 + ?vc * 24)
      = Ok (tensor_entries idx)"
    using assms tags by (intro read_entries_roundtrip) (auto simp: tensor_index_wf_def)
  moreover have "(read_table 24 raw_read ?vc (?tags @ ?es) :: (auf_error, _) result)
      = Ok (variant_tags idx)"
    using assms tag_codec.read_write_table[of "variant_tags idx" ?es] by (simp add: tensor_index_wf_def)
  ultimately show ?thesis
    using assms tags unfolding bytes
    by (simp add: TensorIndex_from_bytes_def TENSOR_INDEX_FIXED_HEADER_def tensor_index_wf_def Let_def)
qed

text \<open>Whatever the bytes, the parser returns a value or an error: no slice is out of range.\<close>

lemma total_table_no_panic:
  assumes "\<And>b. length b = w \<Longrightarrow> \<exists>x. dec b = Ok x" and "k * w \<le> length bs"
  shows "read_table w dec k bs \<noteq> Panic"
  using read_table_total[of w dec k bs] assms by auto

lemma u64_table_no_panic:
  "k * 8 \<le> length bs \<Longrightarrow> (read_table 8 u64_read k bs :: ('e, u64 list) result) \<noteq> Panic"
  by (rule total_table_no_panic) (auto simp: u64_read_def)

lemma raw_table_no_panic:
  "k * w \<le> length bs \<Longrightarrow> (read_table w raw_read k bs :: ('e, byte list list) result) \<noteq> Panic"
  by (rule total_table_no_panic) (auto simp: raw_read_def)

lemma require_Ok [simp]: "require bytes pos need ctx = Ok u \<longleftrightarrow> pos + need \<le> length bytes"
  by (auto simp: require_def ensure_eq)

lemma require_no_panic [simp]: "require bytes pos need ctx \<noteq> Panic"
  by (simp add: require_def ensure_eq)

lemma tensor_entry_no_panic: "TensorEntry_from_bytes bytes vc \<noteq> Panic"
  by (auto simp: TensorEntry_from_bytes_def Let_def and_then_eq_Panic word_at_Panic
      u64_table_no_panic dest: u64_table_no_panic[rotated])

lemma read_entries_no_panic: "read_entries payload vc i k pos \<noteq> Panic"
  by (induction k arbitrary: i pos)
    (auto simp: and_then_eq_Panic map_err_eq tensor_entry_no_panic)

lemma tensor_index_no_panic: "TensorIndex_from_bytes payload \<noteq> Panic"
  by (auto simp: TensorIndex_from_bytes_def Let_def and_then_eq_Panic raw_table_no_panic
      read_entries_no_panic)

lemma position_Some:
  "position P xs = Some i \<Longrightarrow> i < length xs \<and> P (xs ! i) \<and> (\<forall>j < i. \<not> P (xs ! j))"
proof (induction xs arbitrary: i)
  case Nil
  then show ?case by simp
next
  case (Cons x xs)
  show ?case
  proof (cases "P x")
    case True
    with Cons.prems show ?thesis by simp
  next
    case False
    with Cons.prems obtain k where k: "position P xs = Some k" "i = Suc k" by auto
    from Cons.IH[OF k(1)] False k(2) show ?thesis by (auto simp: less_Suc_eq_0_disj)
  qed
qed

end
