(* ===== verification/Auf_Tokenizer.thy ===== *)
theory Auf_Tokenizer
  imports Auf_Section
begin

text \<open>
  \<^verbatim>\<open>engine/src/auf/tokenizer.rs\<close>: the TOKENIZER section, a 64-byte header with four section-local
  offsets followed by length-prefixed blobs. \<open>i32\<close> ids are 32-bit words (\<open>sint\<close> reads them).
\<close>

type_synonym i32 = "32 word"

definition TOKENIZER_MAGIC :: "byte list" where
  "TOKENIZER_MAGIC = ascii ''ARGUS_TOK'' @ replicate 7 0"

definition TOKENIZER_KIND_BPE :: u32 where "TOKENIZER_KIND_BPE = 0"
definition TOKENIZER_HEADER_SIZE :: nat where "TOKENIZER_HEADER_SIZE = 64"

record auf_tokenizer =
  tok_kind :: u32
  tokens :: "byte list list"
  merges :: "str list"
  bos_id :: i32
  eos_id :: i32
  pad_id :: i32
  unk_id :: i32
  chat_template :: "str option"

section \<open>Reading\<close>

fun read_length_prefixed_strings ::
    "byte list \<Rightarrow> nat \<Rightarrow> nat \<Rightarrow> nat \<Rightarrow> (blob_detail, byte list list) result" where
  "read_length_prefixed_strings payload pos i 0 = Ok []"
| "read_length_prefixed_strings payload pos i (Suc k) =
     and_then (usize_add pos 4) (\<lambda>p4.
     if p4 > length payload then Err (LenPrefixOutOfBounds i)
     else and_then (u32_at payload pos) (\<lambda>w.
       let len = unat w in
       and_then (usize_add p4 len) (\<lambda>e.
       if e > length payload then Err (DataOutOfBounds i len)
       else and_then (slice payload p4 e) (\<lambda>s.
         and_then (read_length_prefixed_strings payload e (Suc i) k) (\<lambda>ss. Ok (s # ss))))))"

definition read_length_prefixed_utf8 :: "byte list \<Rightarrow> nat \<Rightarrow> (blob_detail, str) result" where
  "read_length_prefixed_utf8 payload off =
     and_then (usize_add off 4) (\<lambda>p4.
     if p4 > length payload then Err (LenPrefixOutOfBounds 0)
     else and_then (u32_at payload off) (\<lambda>w.
       let len = unat w in
       and_then (usize_add p4 len) (\<lambda>e.
       if e > length payload then Err (DataOutOfBounds 0 len)
       else and_then (slice payload p4 e) (\<lambda>s.
         if utf8_valid s then Ok s else Err InvalidUtf8))))"

definition check_merges :: "byte list list \<Rightarrow> str list auf_result" where
  "check_merges raw =
     (if \<forall>b \<in> set raw. utf8_valid b then Ok raw else Err (TokenizerFormat MergesNotUtf8))"

definition AufTokenizer_from_bytes :: "byte list \<Rightarrow> auf_tokenizer auf_result" where
  "AufTokenizer_from_bytes payload =
     (if length payload < TOKENIZER_HEADER_SIZE then Err (TokenizerFormat TokPayloadTooSmall)
      else if field payload 0 16 \<noteq> TOKENIZER_MAGIC then Err (TokenizerFormat TokMagicMismatch)
      else
        let schema_version = u32_from_le (field payload 16 4) in
        if schema_version \<noteq> 1 then Err (TokenizerFormat (TokUnsupportedSchema schema_version))
        else
        let kind = u32_from_le (field payload 20 4) in
        if kind \<noteq> TOKENIZER_KIND_BPE then Err (TokenizerFormat (TokUnsupportedKind kind))
        else
        let vocab_size = unat (u32_from_le (field payload 24 4));
            merges_count = unat (u32_from_le (field payload 28 4));
            special_tokens_offset = unat (u64_from_le (field payload 32 8));
            chat_template_offset = unat (u64_from_le (field payload 40 8));
            tokens_blob_offset = unat (u64_from_le (field payload 48 8));
            merges_blob_offset = unat (u64_from_le (field payload 56 8)) in
        and_then (map_err (\<lambda>d. TokenizerFormat (TokensBlob d))
            (read_length_prefixed_strings payload tokens_blob_offset 0 vocab_size)) (\<lambda>toks.
        and_then (if merges_count > 0 \<and> merges_blob_offset > 0
            then and_then (map_err (\<lambda>d. TokenizerFormat (MergesBlob d))
                   (read_length_prefixed_strings payload merges_blob_offset 0 merges_count)) check_merges
            else Ok []) (\<lambda>mgs.
        and_then (usize_add special_tokens_offset 16) (\<lambda>send.
        if length payload < send then Err (TokenizerFormat SpecialTokensOutOfBounds)
        else
          and_then (u32_at payload special_tokens_offset) (\<lambda>bos.
          and_then (u32_at payload (special_tokens_offset + 4)) (\<lambda>eos.
          and_then (u32_at payload (special_tokens_offset + 8)) (\<lambda>pad.
          and_then (u32_at payload (special_tokens_offset + 12)) (\<lambda>unk.
          and_then (if chat_template_offset > 0
              then and_then (map_err (\<lambda>d. TokenizerFormat (ChatTemplateBlob d))
                     (read_length_prefixed_utf8 payload chat_template_offset)) (\<lambda>s. Ok (Some s))
              else Ok None) (\<lambda>tmpl.
          Ok \<lparr>tok_kind = kind, tokens = toks, merges = mgs, bos_id = bos, eos_id = eos,
              pad_id = pad, unk_id = unk, chat_template = tmpl\<rparr>)))))))))"

section \<open>Writing\<close>

definition length_prefixed :: "byte list \<Rightarrow> byte list" where
  "length_prefixed s = u32_to_le (word_of_nat (length s)) @ s"

definition build_length_prefixed_strings :: "byte list list \<Rightarrow> byte list" where
  "build_length_prefixed_strings ss = concat (map length_prefixed ss)"

definition AufTokenizer_to_bytes :: "auf_tokenizer \<Rightarrow> byte list" where
  "AufTokenizer_to_bytes t =
     (let tokens_blob = build_length_prefixed_strings (tokens t);
          merges_blob = (if merges t \<noteq> [] then build_length_prefixed_strings (merges t) else []);
          special = u32_to_le (bos_id t) @ u32_to_le (eos_id t) @ u32_to_le (pad_id t)
                    @ u32_to_le (unk_id t);
          chat_blob = (case chat_template t of Some ct \<Rightarrow> length_prefixed ct | None \<Rightarrow> []);
          tokens_blob_offset = word_of_nat TOKENIZER_HEADER_SIZE :: u64;
          merges_blob_offset = (if merges t \<noteq> []
            then tokens_blob_offset + word_of_nat (length tokens_blob) else 0);
          special_tokens_offset = tokens_blob_offset + word_of_nat (length tokens_blob)
            + word_of_nat (length merges_blob);
          chat_template_offset = (case chat_template t of
            Some _ \<Rightarrow> special_tokens_offset + 16 | None \<Rightarrow> 0);
          hdr = TOKENIZER_MAGIC @ u32_to_le 1 @ u32_to_le (tok_kind t)
            @ u32_to_le (word_of_nat (length (tokens t)))
            @ u32_to_le (word_of_nat (length (merges t)))
            @ u64_to_le special_tokens_offset @ u64_to_le chat_template_offset
            @ u64_to_le tokens_blob_offset @ u64_to_le merges_blob_offset in
      hdr @ tokens_blob @ merges_blob @ special @ chat_blob)"

section \<open>Lemmas\<close>

lemma length_length_prefixed [simp]: "length (length_prefixed s) = 4 + length s"
  by (simp add: length_prefixed_def)

lemma length_TOKENIZER_MAGIC [simp]: "length TOKENIZER_MAGIC = 16"
  by (simp add: TOKENIZER_MAGIC_def ascii_def)

definition blob_ok :: "byte list list \<Rightarrow> bool" where
  "blob_ok ss \<longleftrightarrow> length ss < 2 ^ 32 \<and> (\<forall>s \<in> set ss. length s < 2 ^ 32)"

lemma read_strings_roundtrip:
  assumes "\<forall>s \<in> set ss. length s < 2 ^ 32" and "length pre = pos"
    and "length (pre @ build_length_prefixed_strings ss @ rest) < 2 ^ 64"
  shows "read_length_prefixed_strings (pre @ build_length_prefixed_strings ss @ rest) pos i (length ss)
       = Ok ss"
  using assms
proof (induction ss arbitrary: pre pos i)
  case Nil
  then show ?case by simp
next
  case (Cons s ss)
  let ?tail = "build_length_prefixed_strings ss @ rest"
  have split: "pre @ build_length_prefixed_strings (s # ss) @ rest
      = pre @ u32_to_le (word_of_nat (length s)) @ s @ ?tail"
    by (simp add: build_length_prefixed_strings_def length_prefixed_def)
  have IH: "read_length_prefixed_strings ((pre @ u32_to_le (word_of_nat (length s)) @ s) @ ?tail)
      (pos + 4 + length s) (Suc i) (length ss) = Ok ss"
    using Cons.prems split by (intro Cons.IH) auto
  have len: "unat (word_of_nat (length s) :: u32) = length s"
    using Cons.prems(1) by (simp add: unat_of_nat)
  show ?case
    using Cons.prems IH unfolding split by (simp add: len slice_def)
qed

lemma read_utf8_roundtrip:
  assumes "length s < 2 ^ 32" and "utf8_valid s" and "length pre = pos"
    and "length (pre @ length_prefixed s @ rest) < 2 ^ 64"
  shows "read_length_prefixed_utf8 (pre @ length_prefixed s @ rest) pos = Ok s"
  using assms
  by (simp add: read_length_prefixed_utf8_def length_prefixed_def unat_of_nat slice_def)

text \<open>The tokenizers the format can hold.\<close>

definition tokenizer_wf :: "auf_tokenizer \<Rightarrow> bool" where
  "tokenizer_wf t \<longleftrightarrow>
     tok_kind t = TOKENIZER_KIND_BPE \<and> blob_ok (tokens t) \<and> blob_ok (merges t)
     \<and> (\<forall>m \<in> set (merges t). utf8_valid m)
     \<and> (\<forall>c. chat_template t = Some c \<longrightarrow> length c < 2 ^ 32 \<and> utf8_valid c)
     \<and> length (AufTokenizer_to_bytes t) < 2 ^ 64"

lemma tokenizer_header_fields:
  assumes "hdr = TOKENIZER_MAGIC @ u32_to_le 1 @ u32_to_le k @ u32_to_le n @ u32_to_le m
     @ u64_to_le so @ u64_to_le co @ u64_to_le tbo @ u64_to_le mo"
  shows "length hdr = 64"
    "field (hdr @ x) 0 16 = TOKENIZER_MAGIC" "u32_from_le (field (hdr @ x) 16 4) = 1"
    "u32_from_le (field (hdr @ x) 20 4) = k" "u32_from_le (field (hdr @ x) 24 4) = n"
    "u32_from_le (field (hdr @ x) 28 4) = m" "u64_from_le (field (hdr @ x) 32 8) = so"
    "u64_from_le (field (hdr @ x) 40 8) = co" "u64_from_le (field (hdr @ x) 48 8) = tbo"
    "u64_from_le (field (hdr @ x) 56 8) = mo"
  by (simp_all add: assms)

lemma special_tokens_at:
  assumes "length pre = so" and "so + 16 \<le> usize_limit"
  shows "(u32_at (pre @ u32_to_le a @ u32_to_le b @ u32_to_le c @ u32_to_le d @ y) so
           :: ('e, u32) result) = Ok a"
    "(u32_at (pre @ u32_to_le a @ u32_to_le b @ u32_to_le c @ u32_to_le d @ y) (so + 4)
           :: ('e, u32) result) = Ok b"
    "(u32_at (pre @ u32_to_le a @ u32_to_le b @ u32_to_le c @ u32_to_le d @ y) (so + 8)
           :: ('e, u32) result) = Ok c"
    "(u32_at (pre @ u32_to_le a @ u32_to_le b @ u32_to_le c @ u32_to_le d @ y) (so + 12)
           :: ('e, u32) result) = Ok d"
  using assms by simp_all

lemma tokenizer_roundtrip:
  assumes wf: "tokenizer_wf t"
  shows "AufTokenizer_from_bytes (AufTokenizer_to_bytes t) = Ok t"
proof -
  define tb where "tb = build_length_prefixed_strings (tokens t)"
  define mb where "mb = (if merges t \<noteq> [] then build_length_prefixed_strings (merges t) else [])"
  define sp where "sp = u32_to_le (bos_id t) @ u32_to_le (eos_id t) @ u32_to_le (pad_id t)
      @ u32_to_le (unk_id t)"
  define cb where "cb = (case chat_template t of Some ct \<Rightarrow> length_prefixed ct | None \<Rightarrow> [])"
  define so :: u64 where "so = 64 + word_of_nat (length tb) + word_of_nat (length mb)"
  define mo :: u64 where "mo = (if merges t \<noteq> [] then 64 + word_of_nat (length tb) else 0)"
  define co :: u64 where "co = (case chat_template t of Some _ \<Rightarrow> so + 16 | None \<Rightarrow> 0)"
  define hdr where "hdr = TOKENIZER_MAGIC @ u32_to_le 1 @ u32_to_le (tok_kind t)
      @ u32_to_le (word_of_nat (length (tokens t))) @ u32_to_le (word_of_nat (length (merges t)))
      @ u64_to_le so @ u64_to_le co @ u64_to_le 64 @ u64_to_le mo"
  note hdr = tokenizer_header_fields[OF hdr_def]
  define b where "b = hdr @ tb @ mb @ sp @ cb"
  have bytes: "AufTokenizer_to_bytes t = b"
    by (simp add: b_def AufTokenizer_to_bytes_def Let_def TOKENIZER_HEADER_SIZE_def tb_def mb_def
        sp_def cb_def so_def mo_def co_def hdr_def cong: option.case_cong)
  define S where "S = 64 + length tb + length mb"
  have "64 \<le> S" by (simp add: S_def)
  have lb: "length b = S + 16 + length cb"
    by (simp add: b_def hdr(1) sp_def S_def)
  have lim: "S + 16 + length cb < 2 ^ 64"
    using wf bytes lb by (simp add: tokenizer_wf_def)
  have so: "unat so = S" and mo: "merges t \<noteq> [] \<Longrightarrow> unat mo = 64 + length tb"
    and co: "\<And>c. chat_template t = Some c \<Longrightarrow> unat co = S + 16"
    using lim by (simp_all add: so_def mo_def co_def unat_word_ariths unat_of_nat S_def)
  have toks: "read_length_prefixed_strings b 64 0 (length (tokens t)) = Ok (tokens t)"
    using read_strings_roundtrip[of "tokens t" hdr 64 "mb @ sp @ cb" 0] wf hdr(1) lim
    by (simp add: b_def tb_def tokenizer_wf_def blob_ok_def sp_def S_def)
  have mgs: "merges t \<noteq> [] \<Longrightarrow>
      read_length_prefixed_strings b (64 + length tb) 0 (length (merges t)) = Ok (merges t)"
    using read_strings_roundtrip[of "merges t" "hdr @ tb" "64 + length tb" "sp @ cb" 0] wf hdr(1) lim
    by (simp add: b_def mb_def tokenizer_wf_def blob_ok_def sp_def S_def)
  have ids: "(u32_at b S :: (auf_error, u32) result) = Ok (bos_id t)"
     "(u32_at b (S + 4) :: (auf_error, u32) result) = Ok (eos_id t)"
     "(u32_at b (S + 8) :: (auf_error, u32) result) = Ok (pad_id t)"
     "(u32_at b (S + 12) :: (auf_error, u32) result) = Ok (unk_id t)"
    using special_tokens_at[of "hdr @ tb @ mb" S "bos_id t" "eos_id t" "pad_id t" "unk_id t" cb]
      hdr(1) lim
    by (simp_all add: b_def sp_def S_def)
  have tmpl: "\<And>c. chat_template t = Some c \<Longrightarrow>
      read_length_prefixed_utf8 b (S + 16) = Ok c"
    using read_utf8_roundtrip[of _ "hdr @ tb @ mb @ sp" "S + 16" "[]"] wf hdr(1) lim
    by (simp add: b_def cb_def tokenizer_wf_def sp_def S_def)
  have counts: "unat (word_of_nat (length (tokens t)) :: u32) = length (tokens t)"
     "unat (word_of_nat (length (merges t)) :: u32) = length (merges t)"
    using wf by (simp_all add: tokenizer_wf_def blob_ok_def unat_of_nat)
  have kind: "tok_kind t = TOKENIZER_KIND_BPE" and utf8: "\<forall>m \<in> set (merges t). utf8_valid m"
    using wf by (simp_all add: tokenizer_wf_def)
  note flds = hdr(2-)[where x = "tb @ mb @ sp @ cb", folded b_def]
  have mrg: "(if merges t \<noteq> [] \<and> unat mo > 0
            then and_then (map_err (\<lambda>d. TokenizerFormat (MergesBlob d))
                   (read_length_prefixed_strings b (unat mo) 0 (length (merges t)))) check_merges
            else Ok []) = Ok (merges t)"
    using mgs mo utf8 by (cases "merges t = []") (simp_all add: check_merges_def)
  have tmp: "(if unat co > 0
              then and_then (map_err (\<lambda>d. TokenizerFormat (ChatTemplateBlob d))
                     (read_length_prefixed_utf8 b (unat co))) (\<lambda>s. Ok (Some s))
              else Ok None) = Ok (chat_template t)"
    using tmpl co by (cases "chat_template t") (simp_all add: co_def)
  show ?thesis
    unfolding bytes AufTokenizer_from_bytes_def
    using lb lim flds(1) \<open>64 \<le> S\<close>
    by (simp add: flds counts toks mrg tmp so ids kind TOKENIZER_HEADER_SIZE_def Let_def
        del: word_at_in_range)
qed

text \<open>
  An offset close to \<open>2 ^ 64\<close> is not rejected: adding the 16 bytes of the special-token record
  leaves the 64-bit range, which is a panic and not one of the section's errors.
\<close>

lemma tokenizer_special_offset_panics:
  assumes "so = 2 ^ 64 - 8"
  shows "AufTokenizer_from_bytes (TOKENIZER_MAGIC @ u32_to_le 1 @ u32_to_le 0 @ u32_to_le 0
     @ u32_to_le 0 @ u64_to_le so @ u64_to_le 0 @ u64_to_le 64 @ u64_to_le 0 @ replicate 16 0) = Panic"
proof -
  have "unat so = 18446744073709551608" using assms by simp
  then show ?thesis
    by (simp add: AufTokenizer_from_bytes_def TOKENIZER_HEADER_SIZE_def TOKENIZER_KIND_BPE_def
        usize_add_def)
qed

end
