(* ===== verification/Auf_Writer.thy ===== *)
theory Auf_Writer
  imports Auf_Tensor_Index Auf_Tokenizer
begin

text \<open>
  \<^verbatim>\<open>engine/src/auf/meta.rs\<close> and \<^verbatim>\<open>engine/src/auf/writer.rs\<close>: the file builder. It lays the sections
  out with a cursor that only grows and copies every part into a zeroed file image.

  The META payload is JSON written and read by \<open>serde_json\<close>, which is not part of the repository:
  the serializer and the parser are parameters (\<open>to_json\<close>, \<open>from_json\<close>), and the only fact used of
  them is that what was serialized parses back. Floating-point fields are carried as bit patterns.
  Writing the finished image to disk (\<open>write_to_file\<close>: temporary file and rename) is not modelled.
\<close>

section \<open>META\<close>

record auf_meta =
  architecture :: str
  n_layers :: u32
  n_heads_q :: u32
  n_kv_heads :: u32
  meta_head_dim :: u32
  hidden_dim :: u32
  ffn_dim :: u32
  vocab_size :: u32
  meta_max_seq_len :: u32
  rope_theta :: u64
  rotary_dim :: u32
  rope_scaling :: u64
  rms_norm_epsilon :: u64
  default_dtype :: "str option"

type_synonym to_json = "auf_meta \<Rightarrow> byte list option"
type_synonym from_json = "byte list \<Rightarrow> auf_meta option"

definition AufMeta_to_json_bytes :: "to_json \<Rightarrow> auf_meta \<Rightarrow> byte list auf_result" where
  "AufMeta_to_json_bytes to_json m = ok_or (Other MetaJsonSerialize) (to_json m)"

definition AufMeta_from_json_bytes :: "from_json \<Rightarrow> byte list \<Rightarrow> auf_meta auf_result" where
  "AufMeta_from_json_bytes from_json bs = ok_or (Other MetaJsonParse) (from_json bs)"

section \<open>Placing parts in a file image\<close>

definition align_up :: "nat \<Rightarrow> nat \<Rightarrow> nat" where
  "align_up val align = (if align = 0 then val else div_ceil val align * align)"

text \<open>The quotient and remainder behind a round-up, as variables.\<close>

lemma align_up_cases:
  assumes "0 < align"
  obtains q r where "val = q * align + r" "r < align"
    "align_up val align = q * align + (if r = 0 then 0 else align)"
proof (rule that[of "val div align" "val mod align"])
  show "val = val div align * align + val mod align" by (rule div_mult_mod_eq[symmetric])
  show "val mod align < align" using assms by simp
  show "align_up val align = val div align * align + (if val mod align = 0 then 0 else align)"
    using assms by (simp add: align_up_def div_ceil_def add_mult_distrib)
qed

lemma align_up_ge: "val \<le> align_up val align"
proof (cases "align = 0")
  case False
  then obtain q r where "val = q * align + r" "r < align"
    "align_up val align = q * align + (if r = 0 then 0 else align)"
    by (metis align_up_cases gr0I)
  then show ?thesis by (cases "r = 0") simp_all
qed (simp add: align_up_def)

lemma align_up_dvd: "align dvd align_up val align \<or> align = 0"
  by (simp add: align_up_def)

lemma align_up_less:
  assumes "0 < align"
  shows "align_up val align < val + align"
proof -
  obtain q r where "val = q * align + r" "r < align"
    "align_up val align = q * align + (if r = 0 then 0 else align)"
    by (rule align_up_cases[OF assms])
  then show ?thesis by (cases "r = 0") simp_all
qed

text \<open>A copy plan: each part of the file with the offset it goes to.\<close>

type_synonym placement = "nat \<times> byte list"

fun place :: "placement \<Rightarrow> byte list \<Rightarrow> ('e, byte list) result" where
  "place (off, src) out = copy_into out off src"

definition p_end :: "placement \<Rightarrow> nat" where
  "p_end p = fst p + length (snd p)"

definition p_before :: "placement \<Rightarrow> placement \<Rightarrow> bool" where
  "p_before p q \<longleftrightarrow> p_end p \<le> fst q"

text \<open>
  Parts placed at increasing, non-overlapping offsets inside the image are all readable there
  afterwards, and a range no part touches keeps its content.
\<close>

lemma place_plan:
  assumes "sorted_wrt p_before ps" and "\<forall>p \<in> set ps. p_end p \<le> length out"
  shows "\<exists>out'. (try_fold place ps out :: ('e, byte list) result) = Ok out' \<and> length out' = length out
    \<and> (\<forall>p \<in> set ps. field out' (fst p) (length (snd p)) = snd p)
    \<and> (\<forall>a n. a + n \<le> length out \<longrightarrow> (\<forall>p \<in> set ps. a + n \<le> fst p \<or> p_end p \<le> a)
          \<longrightarrow> field out' a n = field out a n)"
  using assms
proof (induction ps arbitrary: out)
  case Nil
  then show ?case by simp
next
  case (Cons p ps)
  obtain off src where p: "p = (off, src)" by (cases p)
  define o' where "o' = take off out @ src @ drop (off + length src) out"
  have inb: "off + length src \<le> length out" using Cons.prems(2) p by (simp add: p_end_def)
  have step: "(place p out :: ('e, byte list) result) = Ok o'" using inb p by (simp add: copy_into_def o'_def)
  have len: "length o' = length out" unfolding o'_def by (rule length_overwrite[OF inb])
  have srt: "sorted_wrt p_before ps" using Cons.prems(1) by simp
  have "\<forall>p \<in> set ps. p_end p \<le> length o'" using Cons.prems(2) unfolding len by simp
  from Cons.IH[OF srt this] obtain out' where out': "(try_fold place ps o' :: ('e, byte list) result) = Ok out'"
    "length out' = length o'" "\<forall>p \<in> set ps. field out' (fst p) (length (snd p)) = snd p"
    "\<forall>a n. a + n \<le> length o' \<longrightarrow> (\<forall>p \<in> set ps. a + n \<le> fst p \<or> p_end p \<le> a)
          \<longrightarrow> field out' a n = field o' a n" by blast
  have apart: "\<forall>q \<in> set ps. off + length src \<le> fst q"
    using Cons.prems(1) p by (auto simp: p_before_def p_end_def)
  have "field out' off (length src) = field o' off (length src)"
    using out'(4) inb len apart by auto
  then have here: "field out' off (length src) = src"
    using field_overwrite_same[OF inb] by (simp add: o'_def)
  have frame: "field out' a n = field out a n"
    if "a + n \<le> length out" "\<forall>q \<in> set (p # ps). a + n \<le> fst q \<or> p_end q \<le> a" for a n
  proof -
    have "field out' a n = field o' a n" using out'(4) that len by auto
    also have "\<dots> = field out a n"
      using that p unfolding o'_def
      by (intro field_overwrite_other[OF inb]) (auto simp: p_end_def)
    finally show ?thesis .
  qed
  have "(try_fold place (p # ps) out :: ('e, byte list) result) = Ok out'" using step out'(1) by simp
  moreover have "\<forall>q \<in> set (p # ps). field out' (fst q) (length (snd q)) = snd q"
    using out'(3) here p by simp
  ultimately show ?case using out'(2) len frame by auto
qed

section \<open>The builder\<close>

definition WEIGHTS_ALIGNMENT :: nat where "WEIGHTS_ALIGNMENT = 65536"
definition META_ALIGNMENT :: nat where "META_ALIGNMENT = 8"

record auf_writer =
  w_meta :: auf_meta
  w_tokenizer :: auf_tokenizer
  w_source_hash :: "byte list"
  w_source_size :: u64
  w_source_mtime :: u64
  weights_sections :: "(str \<times> byte list) list"
  w_tensor_index :: "tensor_index option"
  w_created_by :: str
  lm_head_q4_0_present :: bool
  multi_dtype_enabled :: bool

definition AufWriter_new :: "auf_meta \<Rightarrow> auf_tokenizer \<Rightarrow> byte list \<Rightarrow> u64 \<Rightarrow> u64 \<Rightarrow> auf_writer" where
  "AufWriter_new m t hash ssize smtime =
     \<lparr>w_meta = m, w_tokenizer = t, w_source_hash = hash, w_source_size = ssize,
      w_source_mtime = smtime, weights_sections = [], w_tensor_index = None,
      w_created_by = ascii ''argus_engine v0.1.0'', lm_head_q4_0_present = False,
      multi_dtype_enabled = False\<rparr>"

definition with_multi_dtype :: "bool \<Rightarrow> auf_writer \<Rightarrow> auf_writer" where
  "with_multi_dtype b w = w\<lparr>multi_dtype_enabled := b\<rparr>"

definition with_lm_head_q4_0 :: "bool \<Rightarrow> auf_writer \<Rightarrow> auf_writer" where
  "with_lm_head_q4_0 b w = w\<lparr>lm_head_q4_0_present := b\<rparr>"

definition with_created_by :: "str \<Rightarrow> auf_writer \<Rightarrow> auf_writer" where
  "with_created_by s w = w\<lparr>w_created_by := s\<rparr>"

definition with_tensor_index :: "tensor_index \<Rightarrow> auf_writer \<Rightarrow> auf_writer" where
  "with_tensor_index idx w = w\<lparr>w_tensor_index := Some idx\<rparr>"

definition add_weights_section :: "str \<Rightarrow> byte list \<Rightarrow> auf_writer \<Rightarrow> auf_writer" where
  "add_weights_section t payload w = w\<lparr>weights_sections := weights_sections w @ [(t, payload)]\<rparr>"

fun duplicate_weights_check :: "str set \<Rightarrow> (str \<times> byte list) list \<Rightarrow> unit auf_result" where
  "duplicate_weights_check seen [] = Ok ()"
| "duplicate_weights_check seen ((t, p) # ws) =
     (if t \<in> seen then Err (Other (DuplicateWeightsTag t))
      else duplicate_weights_check (insert t seen) ws)"

text \<open>The loop over the WEIGHTS sections: the entries, the placements, and the cursor after it.\<close>

fun layout_weights ::
    "nat \<Rightarrow> (str \<times> byte list) list \<Rightarrow> (section_entry list \<times> placement list \<times> nat) auf_result" where
  "layout_weights cursor [] = Ok ([], [], cursor)"
| "layout_weights cursor ((t, payload) # ws) =
     and_then (SectionEntry_new t (word_of_nat cursor) (word_of_nat (length payload))
                 SECTION_STRIPPABLE 1) (\<lambda>e.
     and_then (layout_weights (align_up (cursor + length payload) WEIGHTS_ALIGNMENT) ws)
       (\<lambda>(es, ps, total). Ok (e # es, (cursor, payload) # ps, total)))"

definition writer_tidx_bytes :: "auf_writer \<Rightarrow> byte list" where
  "writer_tidx_bytes w = TensorIndex_to_bytes
     (case w_tensor_index w of Some idx \<Rightarrow> idx
      | None \<Rightarrow> \<lparr>variant_tags = [], tensor_entries = []\<rparr>)"

definition writer_header :: "auf_writer \<Rightarrow> nat \<Rightarrow> nat \<Rightarrow> auf_header" where
  "writer_header w count payload_off =
     set_multi_dtype_capability (multi_dtype_enabled w)
       (set_lm_head_q4_0_capability (lm_head_q4_0_present w)
         (AufHeader_new_v01 (w_created_by w) (w_source_hash w) (w_source_size w) (w_source_mtime w)
            (word_of_nat count) (word_of_nat HEADER_SIZE) (word_of_nat payload_off)))"

text \<open>
  \<open>build\<close>. Offsets are computed on unbounded numbers; a file of \<open>2 ^ 63\<close> bytes or more is a panic
  (\<open>vec![0u8; total]\<close> refuses the capacity, and below that no offset leaves 64 bits).
\<close>

definition AufWriter_build :: "to_json \<Rightarrow> auf_writer \<Rightarrow> byte list auf_result" where
  "AufWriter_build to_json w =
     and_then (AufMeta_to_json_bytes to_json (w_meta w)) (\<lambda>meta_bytes.
     let count = 3 + length (weights_sections w);
         tok_bytes = AufTokenizer_to_bytes (w_tokenizer w);
         tidx_bytes = writer_tidx_bytes w;
         payload_off = align_up (HEADER_SIZE + count * 48) WEIGHTS_ALIGNMENT;
         meta_off = payload_off in
     and_then (SectionEntry_new TAG_META (word_of_nat meta_off) (word_of_nat (length meta_bytes))
                 SECTION_REQUIRED 1) (\<lambda>e_meta.
     let tok_off = align_up (meta_off + length meta_bytes) META_ALIGNMENT in
     and_then (SectionEntry_new TAG_TOKENIZER (word_of_nat tok_off) (word_of_nat (length tok_bytes))
                 SECTION_REQUIRED 1) (\<lambda>e_tok.
     let tidx_off = align_up (tok_off + length tok_bytes) META_ALIGNMENT in
     and_then (SectionEntry_new TAG_TENSOR_INDEX (word_of_nat tidx_off)
                 (word_of_nat (length tidx_bytes)) SECTION_REQUIRED 1) (\<lambda>e_tidx.
     let weights_off = align_up (tidx_off + length tidx_bytes) WEIGHTS_ALIGNMENT in
     and_then (duplicate_weights_check {} (weights_sections w)) (\<lambda>_.
     and_then (layout_weights weights_off (weights_sections w)) (\<lambda>(w_entries, w_places, total).
     and_then (assert_that (total < 2 ^ 63)) (\<lambda>_.
     let table = [e_meta, e_tok, e_tidx] @ w_entries;
         header = writer_header w count payload_off in
     try_fold place
       ([(0, AufHeader_to_bytes header), (HEADER_SIZE, SectionTable_to_bytes table),
         (meta_off, meta_bytes), (tok_off, tok_bytes), (tidx_off, tidx_bytes)] @ w_places)
       (replicate total 0))))))))"

section \<open>Lemmas\<close>

lemma duplicate_weights_check_ok:
  "duplicate_weights_check seen ws = Ok u \<longleftrightarrow>
     distinct (map fst ws) \<and> set (map fst ws) \<inter> seen = {}"
  by (induction seen ws rule: duplicate_weights_check.induct) auto

text \<open>What the WEIGHTS loop produces, in terms of its input.\<close>

lemma layout_weights_spec:
  assumes "\<forall>(t, p) \<in> set ws. tag_ok t"
  shows "\<exists>es ps total. layout_weights cursor ws = Ok (es, ps, total)
    \<and> map tag es = map fst ws \<and> map snd ps = map snd ws
    \<and> map (\<lambda>e. (sec_offset e, sec_size e)) es
        = map (\<lambda>p. (word_of_nat (fst p), word_of_nat (length (snd p)))) ps
    \<and> (\<forall>e \<in> set es. entry_wf e \<and> flags e = SECTION_STRIPPABLE)
    \<and> sorted_wrt p_before ps \<and> (\<forall>p \<in> set ps. cursor \<le> fst p \<and> p_end p \<le> total)
    \<and> cursor \<le> total"
  using assms
proof (induction ws arbitrary: cursor)
  case Nil
  then show ?case by simp
next
  case (Cons w ws)
  obtain t p where w: "w = (t, p)" by (cases w)
  let ?c = "align_up (cursor + length p) WEIGHTS_ALIGNMENT"
  have ge: "cursor + length p \<le> ?c" by (rule align_up_ge)
  from Cons.prems w have "tag_ok t" by auto
  then obtain e where e: "SectionEntry_new t (word_of_nat cursor) (word_of_nat (length p))
      SECTION_STRIPPABLE 1 = Ok e" "tag e = t" "entry_wf e" "sec_offset e = word_of_nat cursor"
      "sec_size e = word_of_nat (length p)" "flags e = SECTION_STRIPPABLE"
    by (rule SectionEntry_new_ok)
  from Cons.IH[of ?c] Cons.prems obtain es ps total where ih:
    "layout_weights ?c ws = Ok (es, ps, total)" "map tag es = map fst ws"
    "map snd ps = map snd ws"
    "map (\<lambda>e. (sec_offset e, sec_size e)) es
        = map (\<lambda>p. (word_of_nat (fst p), word_of_nat (length (snd p)))) ps"
    "\<forall>e \<in> set es. entry_wf e \<and> flags e = SECTION_STRIPPABLE" "sorted_wrt p_before ps"
    "\<forall>p \<in> set ps. ?c \<le> fst p \<and> p_end p \<le> total" "?c \<le> total" by auto
  have "layout_weights cursor (w # ws) = Ok (e # es, (cursor, p) # ps, total)"
    using e(1) ih(1) w by simp
  moreover have "sorted_wrt p_before ((cursor, p) # ps)"
    using ih(6,7) ge by (auto simp: p_before_def p_end_def)
  moreover have "\<forall>q \<in> set ((cursor, p) # ps). cursor \<le> fst q \<and> p_end q \<le> total"
    using ih(7,8) ge by (auto simp: p_end_def)
  ultimately show ?case
    using e ih ge w by (intro exI[of _ "e # es"] exI[of _ "(cursor, p) # ps"] exI[of _ total]) auto
qed

section \<open>File images\<close>

text \<open>A section entry describes a placed part: it names the offset and the length of it.\<close>

definition describes :: "section_entry \<Rightarrow> placement \<Rightarrow> bool" where
  "describes e p \<longleftrightarrow> entry_wf e \<and> unat (sec_offset e) = fst p \<and> unat (sec_size e) = length (snd p)"

text \<open>
  The bytes of a complete AUF file with header \<open>h\<close>, section table \<open>es\<close> and section contents \<open>ps\<close>.
\<close>

definition auf_image :: "auf_header \<Rightarrow> section_table \<Rightarrow> placement list \<Rightarrow> byte list \<Rightarrow> bool" where
  "auf_image h es ps out \<longleftrightarrow>
     header_wf h \<and> field out 0 256 = AufHeader_to_bytes h
     \<and> field out 256 (length es * 48) = SectionTable_to_bytes es
     \<and> 256 + length es * 48 \<le> length out
     \<and> unat (section_table_offset h) = 256 \<and> unat (section_count h) = length es
     \<and> list_all2 describes es ps \<and> sorted_wrt p_before ps
     \<and> (\<forall>p \<in> set ps. unat (payload_start_offset h) \<le> fst p \<and> p_end p \<le> length out
          \<and> field out (fst p) (length (snd p)) = snd p)
     \<and> length out < 2 ^ 63"

lemma length_SectionTable_to_bytes:
  "\<forall>e \<in> set es. entry_wf e \<Longrightarrow> length (SectionTable_to_bytes es) = length es * 48"
  using section_codec.write_table_length[of es]
  by (simp add: SectionTable_to_bytes_def SECTION_ENTRY_SIZE_def)

lemma describes_wf: "list_all2 describes es ps \<Longrightarrow> \<forall>e \<in> set es. entry_wf e"
  by (auto simp: list_all2_conv_all_nth in_set_conv_nth describes_def)

text \<open>Copying a header, a table and the sections it describes gives a file image.\<close>

lemma image_built:
  assumes h: "header_wf h" "unat (section_table_offset h) = 256"
      "unat (section_count h) = length es"
    and d: "list_all2 describes es ps" and s: "sorted_wrt p_before ps"
    and b: "\<forall>p \<in> set ps. unat (payload_start_offset h) \<le> fst p \<and> p_end p \<le> tot"
    and pay: "256 + length es * 48 \<le> unat (payload_start_offset h)"
      "unat (payload_start_offset h) \<le> tot"
    and t: "tot < 2 ^ 63"
  shows "\<exists>out. (try_fold place
      ([(0, AufHeader_to_bytes h), (HEADER_SIZE, SectionTable_to_bytes es)] @ ps)
      (replicate tot 0) :: ('e, byte list) result) = Ok out \<and> auf_image h es ps out
      \<and> length out = tot"
proof -
  define qs where
    "qs = [(0, AufHeader_to_bytes h), (HEADER_SIZE, SectionTable_to_bytes es)] @ ps"
  have tl: "length (SectionTable_to_bytes es) = length es * 48"
    using length_SectionTable_to_bytes[OF describes_wf[OF d]] .
  have "\<forall>p \<in> set ps. 256 + length es * 48 \<le> fst p" using b pay(1) by fastforce
  then have srt: "sorted_wrt p_before qs"
    using s h(1) tl by (auto simp: qs_def p_before_def p_end_def HEADER_SIZE_def)
  have inb: "\<forall>p \<in> set qs. p_end p \<le> length (replicate tot (0 :: byte))"
    using b h(1) tl pay by (auto simp: qs_def p_end_def HEADER_SIZE_def)
  from place_plan[OF srt inb, where ?'e = 'e] obtain out where
    out: "(try_fold place qs (replicate tot 0) :: ('e, byte list) result) = Ok out"
      "length out = tot" "\<forall>p \<in> set qs. field out (fst p) (length (snd p)) = snd p"
    unfolding length_replicate by blast
  have "field out 0 256 = AufHeader_to_bytes h"
    using out(3) h(1) by (simp add: qs_def)
  moreover have "field out 256 (length es * 48) = SectionTable_to_bytes es"
    using out(3) tl by (simp add: qs_def HEADER_SIZE_def)
  moreover have "\<forall>p \<in> set ps. field out (fst p) (length (snd p)) = snd p"
    using out(3) by (simp add: qs_def)
  ultimately have "auf_image h es ps out"
    using h d s b pay t out(2) by (simp add: auf_image_def)
  with out show ?thesis unfolding qs_def by blast
qed

section \<open>What the builder produces\<close>

definition reserved_tags :: "str list" where
  "reserved_tags = [TAG_META, TAG_TOKENIZER, TAG_TENSOR_INDEX]"

text \<open>
  A builder whose parts fit the format: 32-byte hash, counts inside 32 bits, section tags that fit
  the tag field and are pairwise different and different from the three fixed tags.
\<close>

definition writer_index :: "auf_writer \<Rightarrow> tensor_index" where
  "writer_index w = (case w_tensor_index w of Some idx \<Rightarrow> idx
      | None \<Rightarrow> \<lparr>variant_tags = [], tensor_entries = []\<rparr>)"

definition writer_wf :: "auf_writer \<Rightarrow> bool" where
  "writer_wf w \<longleftrightarrow>
     length (w_source_hash w) = 32 \<and> tokenizer_wf (w_tokenizer w)
     \<and> tensor_index_wf (writer_index w)
     \<and> list_all (\<lambda>(t, _). tag_ok t) (weights_sections w)
     \<and> distinct (reserved_tags @ map fst (weights_sections w))
     \<and> 3 + length (weights_sections w) < 2 ^ 32"

definition writer_payloads :: "auf_writer \<Rightarrow> byte list \<Rightarrow> byte list list" where
  "writer_payloads w mb =
     [mb, AufTokenizer_to_bytes (w_tokenizer w), TensorIndex_to_bytes (writer_index w)]
     @ map snd (weights_sections w)"

text \<open>The size of the file, computed from the lengths of its parts.\<close>

fun weights_total :: "nat \<Rightarrow> nat list \<Rightarrow> nat" where
  "weights_total cursor [] = cursor"
| "weights_total cursor (n # ns) = weights_total (align_up (cursor + n) WEIGHTS_ALIGNMENT) ns"

definition writer_file_size :: "auf_writer \<Rightarrow> byte list \<Rightarrow> nat" where
  "writer_file_size w mb =
     (let payload_off = align_up (HEADER_SIZE + (3 + length (weights_sections w)) * 48) WEIGHTS_ALIGNMENT;
          tok_off = align_up (payload_off + length mb) META_ALIGNMENT;
          tidx_off = align_up (tok_off + length (AufTokenizer_to_bytes (w_tokenizer w))) META_ALIGNMENT in
      weights_total
        (align_up (tidx_off + length (TensorIndex_to_bytes (writer_index w))) WEIGHTS_ALIGNMENT)
        (map (\<lambda>(_, p). length p) (weights_sections w)))"

lemma layout_weights_total:
  "layout_weights cursor ws = Ok (es, ps, tot) \<Longrightarrow>
     tot = weights_total cursor (map (\<lambda>(_, p). length p) ws)"
  by (induction cursor ws arbitrary: es ps tot rule: layout_weights.induct)
    (auto simp: and_then_eq_Ok)

lemma describes_of_maps:
  assumes "map (\<lambda>e. (sec_offset e, sec_size e)) es
        = map (\<lambda>p. (word_of_nat (fst p), word_of_nat (length (snd p)))) ps"
    and "\<forall>e \<in> set es. entry_wf e" and "\<forall>p \<in> set ps. p_end p < 2 ^ 64"
  shows "list_all2 describes es ps"
proof (rule list_all2_all_nthI)
  show len: "length es = length ps" using assms(1) by (rule map_eq_imp_length_eq)
  fix i assume i: "i < length es"
  from arg_cong[OF assms(1), of "\<lambda>xs. xs ! i"] i len
  have "sec_offset (es ! i) = word_of_nat (fst (ps ! i))"
    "sec_size (es ! i) = word_of_nat (length (snd (ps ! i)))" by auto
  moreover have "p_end (ps ! i) < 2 ^ 64" "entry_wf (es ! i)" using assms(2,3) i len by auto
  ultimately show "describes (es ! i) (ps ! i)"
    by (simp add: describes_def p_end_def unat_of_nat)
qed

lemma fixed_tags_ok: "tag_ok TAG_META" "tag_ok TAG_TOKENIZER" "tag_ok TAG_TENSOR_INDEX"
  by (simp_all add: tag_ok_def tag_defs ascii_def SECTION_TAG_SIZE_def)

lemma writer_header_fields:
  "section_table_offset (writer_header w n po) = word_of_nat HEADER_SIZE"
  "section_count (writer_header w n po) = word_of_nat n"
  "payload_start_offset (writer_header w n po) = word_of_nat po"
  "magic (writer_header w n po) = AUF_MAGIC"
  "format_major (writer_header w n po) = 0"
  "capability_required (writer_header w n po) = 0"
  by (simp_all add: writer_header_def set_multi_dtype_capability_def AufHeader_new_v01_def
      set_lm_head_q4_0_capability_def)

definition writer_payload_off :: "auf_writer \<Rightarrow> nat" where
  "writer_payload_off w =
     align_up (HEADER_SIZE + (3 + length (weights_sections w)) * 48) WEIGHTS_ALIGNMENT"

text \<open>A section entry with its placement: tag, fields and part agree.\<close>

definition entry_for :: "section_entry \<Rightarrow> str \<Rightarrow> u32 \<Rightarrow> placement \<Rightarrow> bool" where
  "entry_for e t fl p \<longleftrightarrow> tag e = t \<and> entry_wf e \<and> flags e = fl
     \<and> sec_offset e = word_of_nat (fst p) \<and> sec_size e = word_of_nat (length (snd p))"

lemma fixed_entry:
  assumes "tag_ok t"
  obtains e where "SectionEntry_new t (word_of_nat off) (word_of_nat (length bs)) fl 1 = Ok e"
    "entry_for e t fl (off, bs)"
  using SectionEntry_new_ok[OF assms, of "word_of_nat off" "word_of_nat (length bs)" fl 1]
  by (auto simp: entry_for_def)

text \<open>The layout phase of \<open>build\<close> for a builder that fits the format.\<close>

lemma build_layout:
  assumes wf: "writer_wf w" and js: "to_json (w_meta w) = Some mb"
  shows "\<exists>es ps. AufWriter_build to_json w =
      and_then (assert_that (writer_file_size w mb < 2 ^ 63)) (\<lambda>_. try_fold place
        ([(0, AufHeader_to_bytes (writer_header w (length es) (writer_payload_off w))),
          (HEADER_SIZE, SectionTable_to_bytes es)] @ ps) (replicate (writer_file_size w mb) 0))
    \<and> map tag es = reserved_tags @ map fst (weights_sections w)
    \<and> map snd ps = writer_payloads w mb
    \<and> (\<forall>e \<in> set es. entry_wf e \<and> flags e \<in> {SECTION_REQUIRED, SECTION_STRIPPABLE})
    \<and> map (\<lambda>e. (sec_offset e, sec_size e)) es
        = map (\<lambda>p. (word_of_nat (fst p), word_of_nat (length (snd p)))) ps
    \<and> sorted_wrt p_before ps
    \<and> (\<forall>p \<in> set ps. writer_payload_off w \<le> fst p \<and> p_end p \<le> writer_file_size w mb)
    \<and> writer_payload_off w \<le> writer_file_size w mb"
proof -
  define ws where "ws = weights_sections w"
  define tok where "tok = AufTokenizer_to_bytes (w_tokenizer w)"
  define tidx where "tidx = TensorIndex_to_bytes (writer_index w)"
  define po where "po = writer_payload_off w"
  define o1 where "o1 = align_up (po + length mb) META_ALIGNMENT"
  define o2 where "o2 = align_up (o1 + length tok) META_ALIGNMENT"
  define o3 where "o3 = align_up (o2 + length tidx) WEIGHTS_ALIGNMENT"
  note defs = ws_def[symmetric] tok_def[symmetric] tidx_def[symmetric]
  have ge: "po + length mb \<le> o1" "o1 + length tok \<le> o2" "o2 + length tidx \<le> o3"
    unfolding o1_def o2_def o3_def by (rule align_up_ge)+
  obtain e1 where e1: "SectionEntry_new TAG_META (word_of_nat po) (word_of_nat (length mb))
      SECTION_REQUIRED 1 = Ok e1" "entry_for e1 TAG_META SECTION_REQUIRED (po, mb)"
    by (rule fixed_entry[OF fixed_tags_ok(1)])
  obtain e2 where e2: "SectionEntry_new TAG_TOKENIZER (word_of_nat o1) (word_of_nat (length tok))
      SECTION_REQUIRED 1 = Ok e2" "entry_for e2 TAG_TOKENIZER SECTION_REQUIRED (o1, tok)"
    by (rule fixed_entry[OF fixed_tags_ok(2)])
  obtain e3 where e3: "SectionEntry_new TAG_TENSOR_INDEX (word_of_nat o2) (word_of_nat (length tidx))
      SECTION_REQUIRED 1 = Ok e3" "entry_for e3 TAG_TENSOR_INDEX SECTION_REQUIRED (o2, tidx)"
    by (rule fixed_entry[OF fixed_tags_ok(3)])
  have "\<forall>(t, p) \<in> set ws. tag_ok t" using wf by (auto simp: writer_wf_def list_all_iff ws_def)
  from layout_weights_spec[OF this, of o3] obtain es ps tot where lw:
    "layout_weights o3 ws = Ok (es, ps, tot)" "map tag es = map fst ws" "map snd ps = map snd ws"
    "map (\<lambda>e. (sec_offset e, sec_size e)) es
        = map (\<lambda>p. (word_of_nat (fst p), word_of_nat (length (snd p)))) ps"
    "\<forall>e \<in> set es. entry_wf e \<and> flags e = SECTION_STRIPPABLE" "sorted_wrt p_before ps"
    "\<forall>p \<in> set ps. o3 \<le> fst p \<and> p_end p \<le> tot" "o3 \<le> tot" by blast
  have tot: "writer_file_size w mb = tot"
    using layout_weights_total[OF lw(1)]
    by (simp add: writer_file_size_def Let_def defs o1_def o2_def o3_def po_def writer_payload_off_def)
  have len: "length es = length ws" using arg_cong[OF lw(2), of length] by simp
  have "duplicate_weights_check {} ws = Ok ()"
    using wf by (simp add: duplicate_weights_check_ok writer_wf_def ws_def)
  then have build: "AufWriter_build to_json w =
      and_then (assert_that (tot < 2 ^ 63)) (\<lambda>_. try_fold place
        ([(0, AufHeader_to_bytes (writer_header w (length ([e1, e2, e3] @ es)) po)),
          (HEADER_SIZE, SectionTable_to_bytes ([e1, e2, e3] @ es))]
         @ [(po, mb), (o1, tok), (o2, tidx)] @ ps) (replicate tot 0))"
    using js e1(1) e2(1) e3(1) lw(1) len
    unfolding AufWriter_build_def AufMeta_to_json_bytes_def Let_def writer_tidx_bytes_def
      writer_index_def[symmetric] defs writer_payload_off_def[of w, folded ws_def, symmetric]
      po_def[symmetric]
    by (simp add: o1_def[symmetric] o2_def[symmetric] o3_def[symmetric] numeral_3_eq_3)
  show ?thesis unfolding tot po_def[symmetric]
    by (rule exI[of _ "[e1, e2, e3] @ es"], rule exI[of _ "[(po, mb), (o1, tok), (o2, tidx)] @ ps"],
        intro conjI, rule build)
      (use e1(2) e2(2) e3(2) lw(2-8) ge in \<open>auto simp: entry_for_def reserved_tags_def
        writer_payloads_def defs p_before_def p_end_def\<close>)
qed

text \<open>A builder that fits the format and a file below the allocation limit: \<open>build\<close> returns it.\<close>

lemma build_image:
  assumes wf: "writer_wf w" and js: "to_json (w_meta w) = Some mb"
    and sz: "writer_file_size w mb < 2 ^ 63"
  shows "\<exists>bytes es ps. AufWriter_build to_json w = Ok bytes
    \<and> auf_image (writer_header w (length es) (writer_payload_off w)) es ps bytes
    \<and> map tag es = reserved_tags @ map fst (weights_sections w)
    \<and> map snd ps = writer_payloads w mb
    \<and> (\<forall>e \<in> set es. flags e \<in> {SECTION_REQUIRED, SECTION_STRIPPABLE})
    \<and> length bytes = writer_file_size w mb"
proof -
  from build_layout[OF wf, of to_json mb, OF js] obtain es ps where l: "AufWriter_build to_json w =
      and_then (assert_that (writer_file_size w mb < 2 ^ 63)) (\<lambda>_. try_fold place
        ([(0, AufHeader_to_bytes (writer_header w (length es) (writer_payload_off w))),
          (HEADER_SIZE, SectionTable_to_bytes es)] @ ps) (replicate (writer_file_size w mb) 0))"
    "map tag es = reserved_tags @ map fst (weights_sections w)" "map snd ps = writer_payloads w mb"
    "\<forall>e \<in> set es. entry_wf e \<and> flags e \<in> {SECTION_REQUIRED, SECTION_STRIPPABLE}"
    "map (\<lambda>e. (sec_offset e, sec_size e)) es
        = map (\<lambda>p. (word_of_nat (fst p), word_of_nat (length (snd p)))) ps"
    "sorted_wrt p_before ps"
    "\<forall>p \<in> set ps. writer_payload_off w \<le> fst p \<and> p_end p \<le> writer_file_size w mb"
    "writer_payload_off w \<le> writer_file_size w mb" by blast
  define h where "h = writer_header w (length es) (writer_payload_off w)"
  have len: "length es = 3 + length (weights_sections w)"
    using arg_cong[OF l(2), of length] by (simp add: reserved_tags_def)
  have "\<forall>p \<in> set ps. p_end p < 2 ^ 64" using l(7) sz by fastforce
  then have d: "list_all2 describes es ps" using l(4,5) by (intro describes_of_maps) auto
  have "\<exists>out. (try_fold place
      ([(0, AufHeader_to_bytes h), (HEADER_SIZE, SectionTable_to_bytes es)] @ ps)
      (replicate (writer_file_size w mb) 0) :: byte list auf_result) = Ok out
      \<and> auf_image h es ps out \<and> length out = writer_file_size w mb"
  proof (rule image_built[OF _ _ _ d l(6)])
    show "header_wf h" using wf by (simp add: h_def writer_header_def writer_wf_def)
    have po: "unat (payload_start_offset h) = writer_payload_off w"
      using l(8) sz by (simp add: h_def writer_header_fields unat_of_nat)
    show "\<forall>p \<in> set ps. unat (payload_start_offset h) \<le> fst p \<and> p_end p \<le> writer_file_size w mb"
      "unat (payload_start_offset h) \<le> writer_file_size w mb"
      unfolding po using l(7,8) by auto
    show "256 + length es * 48 \<le> unat (payload_start_offset h)"
      unfolding po using len align_up_ge[of "HEADER_SIZE + (3 + length (weights_sections w)) * 48"]
      by (simp add: writer_payload_off_def HEADER_SIZE_def)
    show "unat (section_count h) = length es"
      using wf len unat_u32_of_nat[of "length es"]
      by (simp add: h_def writer_header_fields writer_wf_def del: of_nat_add)
  qed (use sz in \<open>simp_all add: h_def writer_header_fields HEADER_SIZE_def\<close>)
  with l sz show ?thesis unfolding h_def by auto
qed

end
