(* ===== verification/Auf_Reader.thy ===== *)
theory Auf_Reader
  imports Auf_Writer
begin

text \<open>
  \<^verbatim>\<open>engine/src/auf/reader.rs\<close>: opening an AUF file. The memory map is the byte list of the file;
  obtaining it (\<open>open\<close>, \<open>open_from_bytes\<close>) is I/O and not modelled. The theory then shows what the
  integrity checks establish, and that a file the builder produced opens to what was written.
\<close>

section \<open>The view\<close>

datatype backend_tag = AdrenoSoa | CudaAos | CpuAos | AnyBackend

fun weights_section_tag :: "backend_tag \<Rightarrow> str option" where
  "weights_section_tag AdrenoSoa = Some TAG_WEIGHTS_ADRENO_SOA"
| "weights_section_tag CudaAos = Some TAG_WEIGHTS_CUDA_AOS"
| "weights_section_tag CpuAos = Some TAG_WEIGHTS_CPU_AOS"
| "weights_section_tag AnyBackend = None"

record auf_view =
  v_bytes :: "byte list"
  v_header :: auf_header
  v_section_table :: section_table
  v_meta :: auf_meta
  v_tokenizer :: auf_tokenizer
  v_tensor_index :: tensor_index
  v_weights_range :: "(u64 \<times> u64) option"

record lm_head_payload =
  lm_bytes :: "byte list"
  lm_shape :: "nat \<times> nat"
  lm_dtype :: tensor_dtype
  lm_alignment :: nat
  lm_variant_tag :: str

definition dtype_str_to_tensor_dtype :: "str \<Rightarrow> tensor_dtype option" where
  "dtype_str_to_tensor_dtype s =
     (if s = ascii ''F32'' then Some TD_F32 else if s = ascii ''F16'' then Some TD_F16
      else if s = ascii ''BF16'' then Some TD_BF16 else if s = ascii ''Q4_0'' then Some TD_Q4_0
      else if s = ascii ''Q4_1'' then Some TD_Q4_1 else if s = ascii ''Q8_0'' then Some TD_Q8_0
      else if s = ascii ''U8'' then Some TD_U8 else None)"

text \<open>\<open>&bytes[offset..][..size]\<close>.\<close>

definition window :: "byte list \<Rightarrow> u64 \<Rightarrow> u64 \<Rightarrow> byte list auf_result" where
  "window bytes off sz = and_then (slice_from bytes (unat off)) (\<lambda>tl. slice tl 0 (unat sz))"

definition weights_bytes :: "auf_view \<Rightarrow> byte list option auf_result" where
  "weights_bytes v = (case v_weights_range v of
     None \<Rightarrow> Ok None
   | Some (off, sz) \<Rightarrow> and_then (window (v_bytes v) off sz) (\<lambda>b. Ok (Some b)))"

section \<open>Opening a file\<close>

definition required_section :: "section_table \<Rightarrow> str \<Rightarrow> section_entry auf_result" where
  "required_section es t = ok_or (RequiredSectionMissing t) (find_section es t)"

definition select_weights :: "section_table \<Rightarrow> backend_tag \<Rightarrow> (u64 \<times> u64) option auf_result" where
  "select_weights es backend = (case weights_section_tag backend of
     Some t \<Rightarrow> and_then (ok_or (WeightsSectionMissing t) (find_section es t))
                 (\<lambda>e. Ok (Some (sec_offset e, sec_size e)))
   | None \<Rightarrow> Ok None)"

definition validate_table :: "auf_header \<Rightarrow> u64 \<Rightarrow> section_table \<Rightarrow> unit auf_result" where
  "validate_table h file_size es =
     and_then (validate_unique_tags es) (\<lambda>_.
     and_then (validate_flags es) (\<lambda>_.
     and_then (validate_no_compressed es) (\<lambda>_.
     validate_ranges es (payload_start_offset h) file_size)))"

definition open_from_mmap :: "from_json \<Rightarrow> byte list \<Rightarrow> backend_tag \<Rightarrow> auf_view auf_result" where
  "open_from_mmap from_json bytes backend =
     (let file_size = word_of_nat (length bytes) :: u64 in
      and_then (AufHeader_from_bytes bytes) (\<lambda>h.
      and_then (AufHeader_validate h) (\<lambda>_.
      and_then (ok_or (Other SectionTableOffsetOverflow)
          (checked_add_u64 (section_table_offset h) (ucast (section_count h) * 48))) (\<lambda>table_end.
      and_then (ensure (\<not> table_end > file_size) SectionTableTruncated) (\<lambda>_.
      and_then (slice_from bytes (unat (section_table_offset h))) (\<lambda>tb.
      and_then (SectionTable_from_bytes tb (section_count h)) (\<lambda>es.
      and_then (validate_table h file_size es) (\<lambda>_.
      and_then (required_section es TAG_META) (\<lambda>me.
      and_then (required_section es TAG_TOKENIZER) (\<lambda>te.
      and_then (required_section es TAG_TENSOR_INDEX) (\<lambda>xe.
      and_then (select_weights es backend) (\<lambda>wr.
      and_then (window bytes (sec_offset me) (sec_size me)) (\<lambda>mb.
      and_then (AufMeta_from_json_bytes from_json mb) (\<lambda>m.
      and_then (window bytes (sec_offset te) (sec_size te)) (\<lambda>kb.
      and_then (AufTokenizer_from_bytes kb) (\<lambda>t.
      and_then (window bytes (sec_offset xe) (sec_size xe)) (\<lambda>xb.
      and_then (TensorIndex_from_bytes xb) (\<lambda>x.
      Ok \<lparr>v_bytes = bytes, v_header = h, v_section_table = es, v_meta = m, v_tokenizer = t,
          v_tensor_index = x, v_weights_range = wr\<rparr>))))))))))))))))))"

section \<open>Looking tensors up\<close>

fun resolve_variant_tag :: "section_table \<Rightarrow> u64 \<Rightarrow> str auf_result" where
  "resolve_variant_tag [] off = Err (Other NoSectionAtOffset)"
| "resolve_variant_tag (e # es) off =
     (if sec_offset e = off
      then (if tag e \<in> {TAG_WEIGHTS_ADRENO_SOA, TAG_WEIGHTS_CUDA_AOS, TAG_WEIGHTS_CPU_AOS}
            then Ok (tag e) else Err (Other (UnknownWeightsTag (tag e))))
      else resolve_variant_tag es off)"

text \<open>\<open>v.get(i).copied().unwrap_or(d)\<close>.\<close>

definition get_or :: "'a \<Rightarrow> 'a list \<Rightarrow> nat \<Rightarrow> 'a" where
  "get_or d xs i = (if i < length xs then xs ! i else d)"

definition lm_head_q4_0_payload ::
    "auf_view \<Rightarrow> nat \<Rightarrow> nat \<Rightarrow> lm_head_payload option auf_result" where
  "lm_head_q4_0_payload v vocab hidden =
     (if \<not> has_lm_head_q4_0 (v_header v) then Ok None
      else
      and_then (ok_or LmHeadEntryMissing (find_lm_head_entry (v_tensor_index v))) (\<lambda>entry.
      and_then (ensure (te_dtype entry = TensorDType_as_u32 TD_Q4_0)
                  (LmHeadDtypeMismatch (te_dtype entry))) (\<lambda>_.
      and_then (ensure (te_shape entry = [word_of_nat vocab, word_of_nat hidden])
                  (LmHeadShapeMismatch vocab hidden (te_shape entry))) (\<lambda>_.
      and_then (ok_or (Other LmHeadNeedsBackend) (v_weights_range v)) (\<lambda>(weights_offset, _).
      and_then (resolve_variant_tag (v_section_table v) weights_offset) (\<lambda>vtag.
      and_then (ok_or (LmHeadVariantPayloadMissing vtag)
                  (variant_index_for_tag (v_tensor_index v) vtag)) (\<lambda>vi.
      let var_offset = get_or u64_max (variant_offsets entry) vi;
          var_size = get_or 0 (variant_sizes entry) vi in
      and_then (ensure (\<not> (var_offset = u64_max \<or> var_size = 0))
                  (LmHeadVariantPayloadMissing vtag)) (\<lambda>_.
      and_then (weights_bytes v) (\<lambda>wb.
      case wb of None \<Rightarrow> Panic
      | Some ws \<Rightarrow>
        let start = unat var_offset in
        and_then (usize_add start (unat var_size)) (\<lambda>stop.
        and_then (ensure (\<not> stop > length ws)
                    (Other (LmHeadPayloadRange start stop (length ws)))) (\<lambda>_.
        and_then (slice ws start stop) (\<lambda>b.
        Ok (Some \<lparr>lm_bytes = b, lm_shape = (vocab, hidden), lm_dtype = TD_Q4_0,
                  lm_alignment = WEIGHTS_ALIGNMENT, lm_variant_tag = vtag\<rparr>)))))))))))))"

definition lookup_tensor ::
    "auf_view \<Rightarrow> u32 \<Rightarrow> u32 \<Rightarrow> tensor_dtype option \<Rightarrow> tensor_entry auf_result" where
  "lookup_tensor v layer kind requested = (case requested of
     Some d \<Rightarrow> ok_or (DtypeNotAvailable layer kind (TensorDType_as_u32 d))
       (find_entry_by_dtype (v_tensor_index v) layer kind (TensorDType_as_u32 d))
   | None \<Rightarrow>
     (case entries_for (v_tensor_index v) layer kind of
        [] \<Rightarrow> Err (DtypeNotAvailable layer kind u32_max)
      | first # _ \<Rightarrow>
        (case Option.bind (default_dtype (v_meta v)) dtype_str_to_tensor_dtype of
           None \<Rightarrow> Ok first
         | Some d \<Rightarrow>
           (case find_entry_by_dtype (v_tensor_index v) layer kind (TensorDType_as_u32 d) of
              Some e \<Rightarrow> Ok e
            | None \<Rightarrow> Ok first))))"

section \<open>What a successful open establishes\<close>

text \<open>The facts INV-132, INV-133 and INV-134 promise of every file that opens.\<close>

definition view_sound :: "backend_tag \<Rightarrow> auf_view \<Rightarrow> bool" where
  "view_sound backend v \<longleftrightarrow>
     (let es = v_section_table v; h = v_header v in
      magic h = AUF_MAGIC \<and> format_major h = 0
      \<and> capability_required h AND NOT READER_KNOWN_CAPABILITIES = 0
      \<and> length es = unat (section_count h)
      \<and> distinct (map tag es) \<and> sorted_wrt sec_apart es
      \<and> (\<forall>e \<in> set es. entry_wf e \<and> unat (payload_start_offset h) \<le> unat (sec_offset e)
           \<and> sec_end e \<le> length (v_bytes v)
           \<and> \<not> (is_required e \<and> is_strippable e) \<and> \<not> is_compressed e)
      \<and> {TAG_META, TAG_TOKENIZER, TAG_TENSOR_INDEX} \<subseteq> set (map tag es)
      \<and> (case weights_section_tag backend of
           None \<Rightarrow> v_weights_range v = None
         | Some t \<Rightarrow> \<exists>e \<in> set es. tag e = t \<and> v_weights_range v = Some (sec_offset e, sec_size e)))"

lemma window_ok:
  assumes "unat off + unat sz \<le> length bytes"
  shows "window bytes off sz = Ok (field bytes (unat off) (unat sz))"
  using assms by (simp add: window_def slice_from_def slice_def)

lemma validate_table_ok:
  "validate_table h fs es = Ok u \<longleftrightarrow>
     distinct (map tag es) \<and> sorted_wrt sec_apart es
     \<and> (\<forall>e \<in> set es. sec_inside (payload_start_offset h) fs e
          \<and> \<not> (is_required e \<and> is_strippable e) \<and> \<not> is_compressed e)"
  by (auto simp: validate_table_def validate_unique_tags_def and_then_eq_Ok unique_tags_loop_ok
      validate_flags_ok validate_no_compressed_ok validate_ranges_ok)

lemma header_validate_ok:
  "AufHeader_validate h = Ok u \<longleftrightarrow>
     magic h = AUF_MAGIC \<and> format_major h = 0
     \<and> capability_required h AND NOT READER_KNOWN_CAPABILITIES = 0"
  by (auto simp: AufHeader_validate_def READER_MAX_FORMAT_MAJOR_def Let_def word_neq_0_conv[symmetric])

lemma required_section_ok:
  "required_section es t = Ok e \<Longrightarrow> e \<in> set es \<and> tag e = t"
  by (auto simp: required_section_def ok_or_eq dest: find_section_Some)

lemma select_weights_ok:
  assumes "select_weights es backend = Ok wr"
  shows "case weights_section_tag backend of None \<Rightarrow> wr = None
    | Some t \<Rightarrow> \<exists>e \<in> set es. tag e = t \<and> wr = Some (sec_offset e, sec_size e)"
  using assms
  by (auto simp: select_weights_def and_then_eq_Ok ok_or_eq split: option.splits
      dest!: find_section_Some)

text \<open>The section table of a file with an in-range table offset is read without a panic.\<close>

lemma table_end_bound:
  assumes "checked_add_u64 off (ucast (n :: u32) * 48) = Some e" and "\<not> e > word_of_nat len"
    and "len < 2 ^ 64"
  shows "unat off + unat n * 48 \<le> len"
proof -
  have n: "unat n < 2 ^ 32" using unsigned_less[of n, where ?'a = nat] by simp
  then have "unat (ucast n :: u64) = unat n"
    by (simp add: unsigned_ucast_eq take_bit_nat_eq_self)
  with n have "unat (ucast n * 48 :: u64) = unat n * 48" by (simp add: unat_word_ariths)
  moreover have "unat (word_of_nat len :: u64) = len" using assms(3) by (simp add: unat_of_nat)
  ultimately show ?thesis using assms(1,2)
    by (auto simp: checked_add_u64_def word_less_nat_alt unat_word_ariths not_less split: if_splits)
qed

lemma table_no_panic: "SectionTable_from_bytes tb n \<noteq> Panic"
proof -
  have "\<exists>x. SectionEntry_from_bytes b = Ok x" if "length b = SECTION_ENTRY_SIZE" for b
    using that by (simp add: SectionEntry_from_bytes_def)
  from total_table_no_panic[OF this] show ?thesis
    by (auto simp: SectionTable_from_bytes_def Let_def)
qed

lemma table_from_bytes_ok:
  assumes "SectionTable_from_bytes tb n = Ok es"
  shows "length es = unat n \<and> (\<forall>e \<in> set es. entry_wf e)"
  using assms section_codec.write_read_table[of "unat n" tb es] read_table_length
  by (fastforce simp: SectionTable_from_bytes_def Let_def split: if_splits)

lemma sec_inside_window:
  assumes "sec_inside ps (word_of_nat (length bytes)) e" and "length bytes < 2 ^ 64"
  shows "sec_end e \<le> length bytes" "window bytes (sec_offset e) (sec_size e)
      = Ok (field bytes (unat (sec_offset e)) (unat (sec_size e)))"
  using assms window_ok[of "sec_offset e" "sec_size e" bytes]
  by (auto simp: sec_inside_def sec_end_def unat_of_nat)

lemma open_sound:
  assumes op: "open_from_mmap from_json bytes backend = Ok v" and len: "length bytes < 2 ^ 63"
  shows "v_bytes v = bytes \<and> view_sound backend v"
proof -
  from op obtain h e tb es me te xe where
    v: "AufHeader_validate h = Ok ()" "v_header v = h" "v_section_table v = es" "v_bytes v = bytes"
    and t: "SectionTable_from_bytes tb (section_count h) = Ok es"
      "validate_table h (word_of_nat (length bytes)) es = Ok ()"
    and r: "required_section es TAG_META = Ok me" "required_section es TAG_TOKENIZER = Ok te"
      "required_section es TAG_TENSOR_INDEX = Ok xe"
    and w: "select_weights es backend = Ok (v_weights_range v)"
    by (auto simp: open_from_mmap_def Let_def and_then_eq_Ok)
  have "{TAG_META, TAG_TOKENIZER, TAG_TENSOR_INDEX} \<subseteq> set (map tag es)"
    using r[THEN required_section_ok] by (force simp: image_iff)
  moreover have "\<forall>e \<in> set es. sec_end e \<le> length bytes
      \<and> unat (payload_start_offset h) \<le> unat (sec_offset e)"
    using t(2) sec_inside_window(1) len by (auto simp: validate_table_ok sec_inside_def)
  ultimately show ?thesis
    using v t table_from_bytes_ok[OF t(1)] select_weights_ok[OF w]
    by (auto simp: view_sound_def Let_def header_validate_ok validate_table_ok)
qed

text \<open>In a sound view every section, and the selected weights, can be sliced.\<close>

lemma view_sound_weights:
  assumes "view_sound backend v" "weights_section_tag backend = Some t"
  obtains e where "e \<in> set (v_section_table v)" "tag e = t"
    "find_section (v_section_table v) t = Some e"
    "weights_bytes v = Ok (Some (field (v_bytes v) (unat (sec_offset e)) (unat (sec_size e))))"
proof -
  from assms obtain e where e: "e \<in> set (v_section_table v)" "tag e = t"
      "v_weights_range v = Some (sec_offset e, sec_size e)"
      "distinct (map tag (v_section_table v))" "sec_end e \<le> length (v_bytes v)"
    by (auto simp: view_sound_def Let_def)
  then have "window (v_bytes v) (sec_offset e) (sec_size e)
      = Ok (field (v_bytes v) (unat (sec_offset e)) (unat (sec_size e)))"
    by (intro window_ok) (simp add: sec_end_def)
  with e show ?thesis
    by (intro that[of e]) (auto simp: weights_bytes_def dest: find_section_unique)
qed

lemma validate_table_no_panic: "validate_table h fs es \<noteq> Panic"
proof -
  have "unique_tags_loop s es \<noteq> Panic" for s by (induction es arbitrary: s) auto
  moreover have "validate_flags es \<noteq> Panic" by (induction es) auto
  moreover have "validate_no_compressed es \<noteq> Panic" by (induction es) auto
  moreover have "range_loop a b es \<noteq> Panic" for a b
    by (induction es) (auto simp: and_then_eq_Panic validate_range_def split: option.splits)
  moreover have "overlap_inner a es \<noteq> Panic" for a es by (induction es) auto
  then have "overlap_loop es \<noteq> Panic" by (induction es) (auto simp: and_then_eq_Panic)
  ultimately show ?thesis
    by (auto simp: validate_table_def validate_unique_tags_def validate_ranges_def and_then_eq_Panic)
qed

text \<open>The only source of a panic in \<open>open\<close> is the parser of the TOKENIZER section.\<close>

lemma open_panic:
  assumes op: "open_from_mmap from_json bytes backend = Panic" and len: "length bytes < 2 ^ 63"
  shows "\<exists>off n. off + n \<le> length bytes \<and> AufTokenizer_from_bytes (field bytes off n) = Panic"
proof -
  have hp: "AufHeader_from_bytes b \<noteq> Panic" for b by (simp add: AufHeader_from_bytes_def Let_def)
  have vp: "AufHeader_validate h \<noteq> Panic" for h by (simp add: AufHeader_validate_def Let_def)
  have sp: "select_weights es backend \<noteq> Panic" for es
    by (auto simp: select_weights_def and_then_eq_Panic ok_or_eq split: option.splits)
  have rp: "required_section es t \<noteq> Panic" for es t by (simp add: required_section_def ok_or_eq)
  have jp: "AufMeta_from_json_bytes from_json b \<noteq> Panic" for b
    by (simp add: AufMeta_from_json_bytes_def ok_or_eq)
  have inside: "window bytes (sec_offset e) (sec_size e)
        = Ok (field bytes (unat (sec_offset e)) (unat (sec_size e))) \<and> sec_end e \<le> length bytes"
    if "validate_table h (word_of_nat (length bytes)) es = Ok ()" "required_section es t = Ok e" for h es t e
    using that len sec_inside_window[of "payload_start_offset h" bytes e] required_section_ok[OF that(2)]
    by (auto simp: validate_table_ok)
  have tb: "slice_from bytes (unat off) \<noteq> (Panic :: byte list auf_result)"
    if "checked_add_u64 off (ucast (n :: u32) * 48) = Some e" "\<not> e > word_of_nat (length bytes)" for off n e
    using table_end_bound[OF that] len by (auto simp: slice_from_eq_Ok)
  from op obtain h es te kb where "validate_table h (word_of_nat (length bytes)) es = Ok ()"
      "required_section es TAG_TOKENIZER = Ok te" "window bytes (sec_offset te) (sec_size te) = Ok kb"
      "AufTokenizer_from_bytes kb = Panic"
    by (auto simp: open_from_mmap_def Let_def and_then_eq_Panic ok_or_eq ensure_eq hp vp sp rp jp
        table_no_panic validate_table_no_panic tensor_index_no_panic dest: tb inside)
  with inside[of h es TAG_TOKENIZER te] show ?thesis unfolding sec_end_def by auto
qed

section \<open>Opening a file image\<close>

text \<open>A file image whose header and entries pass the checks opens, and gives the parts it holds.\<close>

lemma image_sections:
  assumes im: "auf_image h es ps bytes" and i: "i < length es"
  shows "window bytes (sec_offset (es ! i)) (sec_size (es ! i)) = Ok (snd (ps ! i))"
    and "sec_inside (payload_start_offset h) (word_of_nat (length bytes)) (es ! i)"
proof -
  from im i have d: "describes (es ! i) (ps ! i)" "ps ! i \<in> set ps"
    by (auto simp: auf_image_def list_all2_conv_all_nth)
  with im have p: "p_end (ps ! i) \<le> length bytes" "unat (payload_start_offset h) \<le> fst (ps ! i)"
    "field bytes (fst (ps ! i)) (length (snd (ps ! i))) = snd (ps ! i)" "length bytes < 2 ^ 63"
    by (auto simp: auf_image_def)
  show "sec_inside (payload_start_offset h) (word_of_nat (length bytes)) (es ! i)"
    using d(1) p by (simp add: sec_inside_def describes_def sec_end_def p_end_def unat_of_nat)
  show "window bytes (sec_offset (es ! i)) (sec_size (es ! i)) = Ok (snd (ps ! i))"
    using d(1) p window_ok[of "sec_offset (es ! i)" "sec_size (es ! i)" bytes]
    by (simp add: describes_def p_end_def)
qed

lemma image_apart:
  assumes "auf_image h es ps bytes"
  shows "sorted_wrt sec_apart es"
proof -
  have d: "length es = length ps" "\<And>i. i < length es \<Longrightarrow> describes (es ! i) (ps ! i)"
    using assms by (auto simp: auf_image_def list_all2_conv_all_nth)
  have "sec_apart (es ! i) (es ! j)" if "i < j" "j < length es" for i j
  proof -
    have "p_before (ps ! i) (ps ! j)"
      using assms that d(1) by (intro sorted_wrt_nth_less) (auto simp: auf_image_def)
    with that d(2)[of i] d(2)[of j] show ?thesis
      by (simp add: sec_apart_def describes_def p_before_def p_end_def sec_end_def)
  qed
  then show ?thesis by (simp add: sorted_wrt_iff_nth_less)
qed

lemma image_header:
  assumes "auf_image h es ps bytes"
  shows "AufHeader_from_bytes bytes = Ok h"
proof -
  have "bytes = field bytes 0 256 @ drop 256 bytes" by simp
  with assms have "bytes = AufHeader_to_bytes h @ drop 256 bytes" "header_wf h"
    unfolding auf_image_def by auto
  with header_fields show ?thesis by metis
qed

lemma image_table:
  assumes "auf_image h es ps bytes"
  shows "SectionTable_from_bytes (drop 256 bytes) (section_count h) = Ok es"
proof -
  have t: "field bytes 256 (length es * 48) = write_table SectionEntry_to_bytes es"
    "unat (section_count h) = length es" "256 + length es * 48 \<le> length bytes"
    using assms by (auto simp: auf_image_def SectionTable_to_bytes_def)
  have "drop 256 bytes = write_table SectionEntry_to_bytes es @ drop (256 + length es * 48) bytes"
    using drop_field_split[of 256 bytes "length es * 48"] t(1) by simp
  moreover have wf: "\<forall>e \<in> set es. entry_wf e"
    using assms describes_wf by (auto simp: auf_image_def)
  moreover have "length (write_table SectionEntry_to_bytes es) = length es * 48"
    using length_SectionTable_to_bytes[OF wf] by (simp add: SectionTable_to_bytes_def)
  ultimately show ?thesis
    using t section_codec.read_write_table[of es "drop (256 + length es * 48) bytes"]
    by (simp add: SectionTable_from_bytes_def SECTION_ENTRY_SIZE_def Let_def)
qed

lemma image_open:
  assumes im: "auf_image h es ps bytes" and hv: "AufHeader_validate h = Ok ()"
    and dt: "distinct (map tag es)"
    and fl: "\<forall>e \<in> set es. \<not> (is_required e \<and> is_strippable e) \<and> \<not> is_compressed e"
    and m: "i < length es" "tag (es ! i) = TAG_META" "from_json (snd (ps ! i)) = Some m"
    and t: "j < length es" "tag (es ! j) = TAG_TOKENIZER" "AufTokenizer_from_bytes (snd (ps ! j)) = Ok t"
    and x: "k < length es" "tag (es ! k) = TAG_TENSOR_INDEX" "TensorIndex_from_bytes (snd (ps ! k)) = Ok x"
    and wr: "select_weights es backend = Ok wr"
  shows "open_from_mmap from_json bytes backend =
    Ok \<lparr>v_bytes = bytes, v_header = h, v_section_table = es, v_meta = m, v_tokenizer = t,
        v_tensor_index = x, v_weights_range = wr\<rparr>"
proof -
  have b: "unat (section_table_offset h) = 256" "unat (section_count h) = length es"
    "256 + length es * 48 \<le> length bytes" "length bytes < 2 ^ 63"
    using im by (auto simp: auf_image_def)
  have c: "unat (ucast (section_count h) * 48 :: u64) = length es * 48"
    using b by (simp add: unsigned_ucast_eq take_bit_nat_eq_self unat_word_ariths)
  have end_ok: "checked_add_u64 (section_table_offset h) (ucast (section_count h) * 48)
      = Some (section_table_offset h + ucast (section_count h) * 48)"
    "\<not> section_table_offset h + ucast (section_count h) * 48 > word_of_nat (length bytes)"
    using b c by (simp_all add: checked_add_u64_def word_less_nat_alt not_less unat_of_nat
        unat_word_ariths(1))
  have "validate_table h (word_of_nat (length bytes)) es = Ok ()"
    using dt fl image_apart[OF im] image_sections(2)[OF im]
    by (auto simp: validate_table_ok in_set_conv_nth)
  moreover have "slice_from bytes (unat (section_table_offset h)) = (Ok (drop 256 bytes) :: byte list auf_result)"
    using b by (simp add: slice_from_eq_Ok)
  moreover have "required_section es TAG_META = Ok (es ! i)"
    "required_section es TAG_TOKENIZER = Ok (es ! j)" "required_section es TAG_TENSOR_INDEX = Ok (es ! k)"
    using find_section_unique[OF dt] m t x by (metis nth_mem ok_or_simps(2) required_section_def)+
  ultimately show ?thesis
    using image_header[OF im] image_table[OF im] hv end_ok wr m t x
      image_sections(1)[OF im m(1)] image_sections(1)[OF im t(1)] image_sections(1)[OF im x(1)]
    by (simp add: open_from_mmap_def Let_def AufMeta_from_json_bytes_def)
qed

text \<open>The weights a view exposes are the content stored under the backend's tag.\<close>

lemma image_weights:
  assumes im: "auf_image h es ps bytes" and dt: "distinct (map tag es)"
    and i: "i < length es" and t: "weights_section_tag backend = Some (tag (es ! i))"
  shows "select_weights es backend = Ok (Some (sec_offset (es ! i), sec_size (es ! i)))"
    and "v_bytes v = bytes \<Longrightarrow> v_weights_range v = Some (sec_offset (es ! i), sec_size (es ! i)) \<Longrightarrow>
      weights_bytes v = Ok (Some (snd (ps ! i)))"
  using find_section_unique[OF dt, of "es ! i"] i t image_sections(1)[OF im i]
  by (simp_all add: select_weights_def weights_bytes_def)

section \<open>A built file opens\<close>

lemma build_open:
  assumes wf: "writer_wf w" and js: "to_json (w_meta w) = Some mb" "from_json mb = Some (w_meta w)"
    and sz: "writer_file_size w mb < 2 ^ 63"
    and tk: "weights_section_tag backend = Some t" "(t, payload) \<in> set (weights_sections w)"
  shows "\<exists>bytes v. AufWriter_build to_json w = Ok bytes
    \<and> open_from_mmap from_json bytes backend = Ok v
    \<and> v_meta v = w_meta w \<and> v_tokenizer v = w_tokenizer w \<and> v_tensor_index v = writer_index w
    \<and> weights_bytes v = Ok (Some payload)
    \<and> v_header v = writer_header w (3 + length (weights_sections w)) (writer_payload_off w)"
proof -
  from build_image[OF wf, of to_json mb, OF js(1) sz] obtain bytes es ps where
    b: "AufWriter_build to_json w = Ok bytes"
    and im: "auf_image (writer_header w (length es) (writer_payload_off w)) es ps bytes"
    and tags: "map tag es = reserved_tags @ map fst (weights_sections w)"
    and pay: "map snd ps = writer_payloads w mb"
    and fl: "\<forall>e \<in> set es. flags e \<in> {SECTION_REQUIRED, SECTION_STRIPPABLE}" by blast
  have len: "length es = 3 + length (weights_sections w)" "length ps = length es"
    using arg_cong[OF tags, of length] im
    by (auto simp: reserved_tags_def auf_image_def list_all2_conv_all_nth)
  have tag_nth: "tag (es ! n) = (reserved_tags @ map fst (weights_sections w)) ! n"
    and pay_nth: "snd (ps ! n) = writer_payloads w mb ! n" if "n < length es" for n
    using that len arg_cong[OF tags, of "\<lambda>xs. xs ! n"] arg_cong[OF pay, of "\<lambda>xs. xs ! n"] by auto
  have dt: "distinct (map tag es)" using wf by (simp add: tags writer_wf_def)
  have fl': "\<forall>e \<in> set es. \<not> (is_required e \<and> is_strippable e) \<and> \<not> is_compressed e"
    using fl by (auto simp: is_required_def is_strippable_def is_compressed_def SECTION_REQUIRED_def
        SECTION_STRIPPABLE_def SECTION_COMPRESSED_def)
  have hv: "AufHeader_validate (writer_header w (length es) (writer_payload_off w)) = Ok ()"
    by (simp add: header_validate_ok writer_header_fields)
  from tk(2) obtain n where n: "n < length (weights_sections w)" "weights_sections w ! n = (t, payload)"
    by (auto simp: in_set_conv_nth)
  then have en: "3 + n < length es" "weights_section_tag backend = Some (tag (es ! (3 + n)))"
    "snd (ps ! (3 + n)) = payload"
    using len tag_nth[of "3 + n"] pay_nth[of "3 + n"] tk(1)
    by (auto simp: reserved_tags_def writer_payloads_def nth_append)
  have parts: "tag (es ! 0) = TAG_META" "tag (es ! 1) = TAG_TOKENIZER" "tag (es ! 2) = TAG_TENSOR_INDEX"
    "snd (ps ! 0) = mb" "snd (ps ! 1) = AufTokenizer_to_bytes (w_tokenizer w)"
    "snd (ps ! 2) = TensorIndex_to_bytes (writer_index w)"
    using len tag_nth[of 0] tag_nth[of 1] tag_nth[of 2] pay_nth[of 0] pay_nth[of 1] pay_nth[of 2]
    by (auto simp: reserved_tags_def writer_payloads_def nth_append)
  have "open_from_mmap from_json bytes backend = Ok \<lparr>v_bytes = bytes,
      v_header = writer_header w (length es) (writer_payload_off w), v_section_table = es,
      v_meta = w_meta w, v_tokenizer = w_tokenizer w, v_tensor_index = writer_index w,
      v_weights_range = Some (sec_offset (es ! (3 + n)), sec_size (es ! (3 + n)))\<rparr>"
    by (rule image_open[OF im hv dt fl', where i = 0 and j = 1 and k = 2])
      (use parts len js wf tokenizer_roundtrip tensor_index_roundtrip
          image_weights(1)[OF im dt en(1,2)] in \<open>auto simp: writer_wf_def\<close>)
  with b len en(3) image_weights(2)[OF im dt en(1,2)] show ?thesis by simp
qed

text \<open>What of the builder stands in the header.\<close>

lemma writer_header_source:
  "source_hash (writer_header w n po) = w_source_hash w" "source_size (writer_header w n po) = w_source_size w"
  "source_mtime (writer_header w n po) = w_source_mtime w"
  "created_by (writer_header w n po) = take 32 (w_created_by w) @ replicate (32 - length (w_created_by w)) 0"
  "has_lm_head_q4_0 (writer_header w n po) = lm_head_q4_0_present w" "has_multi_dtype (writer_header w n po) = multi_dtype_enabled w"
  "capability_optional (writer_header w n po) AND NOT READER_KNOWN_CAPABILITIES = 0"
  by (simp_all add: writer_header_def AufHeader_new_v01_def set_multi_dtype_capability_def set_lm_head_q4_0_capability_def nul_pad_def
      has_lm_head_q4_0_def has_multi_dtype_def READER_KNOWN_CAPABILITIES_def CAPABILITY_BIT_LM_HEAD_Q4_0_def CAPABILITY_BIT_MULTI_DTYPE_def)

section \<open>Properties\<close>

text \<open>A small model file: one token, no tensors, the CPU weights.\<close>

definition sample_meta :: auf_meta where
  "sample_meta = \<lparr>architecture = ascii ''llama'', n_layers = 2, n_heads_q = 4, n_kv_heads = 2,
     meta_head_dim = 8, hidden_dim = 32, ffn_dim = 64, vocab_size = 1, meta_max_seq_len = 128,
     rope_theta = 0, rotary_dim = 8, rope_scaling = 0, rms_norm_epsilon = 0, default_dtype = None\<rparr>"

definition sample_tokenizer :: auf_tokenizer where
  "sample_tokenizer = \<lparr>tok_kind = 0, tokens = [ascii ''a''], merges = [], bos_id = 0, eos_id = 1,
     pad_id = - 1, unk_id = - 1, chat_template = None\<rparr>"

definition sample_writer :: auf_writer where
  "sample_writer = with_lm_head_q4_0 True (add_weights_section TAG_WEIGHTS_CPU_AOS [7, 8, 9]
     (AufWriter_new sample_meta sample_tokenizer (replicate 32 0) 0 0))"

definition sample_to_json :: to_json where
  "sample_to_json m = Some (architecture m)"

definition sample_from_json :: from_json where
  "sample_from_json bs = Some (sample_meta\<lparr>architecture := bs\<rparr>)"

lemma sample_fields:
  "w_meta sample_writer = sample_meta" "w_tokenizer sample_writer = sample_tokenizer"
  "weights_sections sample_writer = [(TAG_WEIGHTS_CPU_AOS, [7, 8, 9])]"
  "w_tensor_index sample_writer = None" "w_source_hash sample_writer = replicate 32 0"
  "lm_head_q4_0_present sample_writer" "\<not> multi_dtype_enabled sample_writer"
  by (simp_all add: sample_writer_def with_lm_head_q4_0_def add_weights_section_def AufWriter_new_def)

lemma sample_json:
  "sample_to_json (w_meta sample_writer) = Some (ascii ''llama'')"
  "sample_from_json (ascii ''llama'') = Some (w_meta sample_writer)"
  by (simp_all add: sample_to_json_def sample_from_json_def sample_fields sample_meta_def)

lemma sample_lengths:
  "length (AufTokenizer_to_bytes sample_tokenizer) = 85"
  "length (TensorIndex_to_bytes (writer_index sample_writer)) = 32"
  by (simp_all add: AufTokenizer_to_bytes_def sample_tokenizer_def Let_def ascii_def
      build_length_prefixed_strings_def TensorIndex_to_bytes_def writer_index_def sample_fields)

lemma sample_writer_wf: "writer_wf sample_writer"
proof -
  have "tokenizer_wf sample_tokenizer"
    using sample_lengths(1)
    by (simp add: sample_tokenizer_def tokenizer_wf_def blob_ok_def TOKENIZER_KIND_BPE_def ascii_def)
  then show ?thesis
    by (simp add: writer_wf_def sample_fields writer_index_def tensor_index_wf_def tag_ok_def
        reserved_tags_def tag_defs ascii_def SECTION_TAG_SIZE_def)
qed

lemma align_up_eq: "0 < a \<Longrightarrow> q * a < n + a \<Longrightarrow> n \<le> q * a \<Longrightarrow> align_up n a = q * a"
proof -
  assume a: "0 < a" "q * a < n + a" "n \<le> q * a"
  have "align_up n a < n + a" "n \<le> align_up n a" using a(1) by (simp_all add: align_up_less align_up_ge)
  moreover obtain k where k: "align_up n a = k * a" using a(1) by (auto simp: align_up_def)
  ultimately have "k * a < (q + 1) * a" "q * a < (k + 1) * a" using a by auto
  then have "k < q + 1" "q < k + 1" by (simp_all only: mult_less_cancel2)
  then have "k = q" by simp
  then show ?thesis using k by simp
qed

lemma sample_file_size: "writer_file_size sample_writer (ascii ''llama'') = 196608"
proof -
  have "align_up 448 65536 = 65536" "align_up 65541 8 = 65544" "align_up 65629 8 = 65632"
    "align_up 65664 65536 = 131072" "align_up 131075 65536 = 196608"
    using align_up_eq[of 65536 1 448] align_up_eq[of 8 8193 65541] align_up_eq[of 8 8204 65629]
      align_up_eq[of 65536 2 65664] align_up_eq[of 65536 3 131075] by simp_all
  then show ?thesis
    unfolding writer_file_size_def sample_lengths sample_fields
    by (simp add: Let_def HEADER_SIZE_def WEIGHTS_ALIGNMENT_def META_ALIGNMENT_def ascii_def)
qed

text \<open>
  C1: Building a file and opening it gives back what was written: for a builder whose parts fit the
  format and whose file stays below the allocation limit, \<open>build\<close> returns a file, \<open>open\<close> accepts it for
  the backend of any of its WEIGHTS sections, the META, TOKENIZER and TENSOR_INDEX parts are the
  builder's, and \<open>weights_bytes\<close> is exactly the payload added for that backend. The header has the
  builder's creator (cut or padded to 32 bytes), source hash, size and time, and of the optional capabilities exactly
  those the builder set. The JSON library is only assumed to parse what it printed.
\<close>

theorem build_open_roundtrip:
  assumes "writer_wf w" and "to_json (w_meta w) = Some mb" and "from_json mb = Some (w_meta w)"
    and "writer_file_size w mb < 2 ^ 63"
    and "weights_section_tag backend = Some t" and "(t, payload) \<in> set (weights_sections w)"
  shows "\<exists>bytes v. AufWriter_build to_json w = Ok bytes
    \<and> open_from_mmap from_json bytes backend = Ok v
    \<and> v_meta v = w_meta w \<and> v_tokenizer v = w_tokenizer w \<and> v_tensor_index v = writer_index w
    \<and> weights_bytes v = Ok (Some payload)
    \<and> source_hash (v_header v) = w_source_hash w \<and> source_size (v_header v) = w_source_size w \<and> source_mtime (v_header v) = w_source_mtime w
    \<and> created_by (v_header v) = take 32 (w_created_by w) @ replicate (32 - length (w_created_by w)) 0
    \<and> has_lm_head_q4_0 (v_header v) = lm_head_q4_0_present w \<and> has_multi_dtype (v_header v) = multi_dtype_enabled w
    \<and> capability_optional (v_header v) AND NOT READER_KNOWN_CAPABILITIES = 0"
  using build_open[where to_json = to_json and from_json = from_json, OF assms] writer_header_source[of w] by metis

theorem build_open_roundtrip_witness:
  "\<exists>bytes v. AufWriter_build sample_to_json sample_writer = Ok bytes
    \<and> open_from_mmap sample_from_json bytes CpuAos = Ok v
    \<and> v_meta v = sample_meta \<and> v_tokenizer v = sample_tokenizer
    \<and> weights_bytes v = Ok (Some [7, 8, 9]) \<and> source_hash (v_header v) = w_source_hash sample_writer"
  using build_open_roundtrip[of sample_writer sample_to_json "ascii ''llama''" sample_from_json CpuAos
      TAG_WEIGHTS_CPU_AOS "[7, 8, 9]"] sample_writer_wf sample_json sample_file_size
  by (auto simp: sample_fields)

text \<open>
  C4: A file that opens satisfies the format invariants: magic, version and required capabilities are
  known, tags are unique, no section is both required and strippable or compressed, every section lies
  between the payload start and the end of the file, no two sections overlap, the three fixed sections
  exist, and the weights range of the view is that of the backend's section. Slicing the weights
  cannot panic.
\<close>

theorem open_view_sound:
  assumes "open_from_mmap from_json bytes backend = Ok v" and "length bytes < 2 ^ 63"
  shows "v_bytes v = bytes \<and> view_sound backend v \<and> (\<exists>wb. weights_bytes v = Ok wb)"
proof -
  have s: "v_bytes v = bytes" "view_sound backend v" using open_sound[OF assms] by auto
  moreover have "\<exists>wb. weights_bytes v = Ok wb"
  proof (cases "weights_section_tag backend")
    case None
    with s(2) show ?thesis by (simp add: view_sound_def Let_def weights_bytes_def)
  next
    case (Some t)
    from view_sound_weights[OF s(2) this] show ?thesis by metis
  qed
  ultimately show ?thesis by blast
qed

theorem open_view_sound_witness:
  "\<exists>bytes v. open_from_mmap sample_from_json bytes CpuAos = Ok v \<and> view_sound CpuAos v"
proof -
  have "\<exists>bytes v. AufWriter_build sample_to_json sample_writer = Ok bytes
      \<and> open_from_mmap sample_from_json bytes CpuAos = Ok v \<and> length bytes < 2 ^ 63"
    using build_open[of sample_writer sample_to_json "ascii ''llama''" sample_from_json CpuAos
      TAG_WEIGHTS_CPU_AOS "[7, 8, 9]"] build_image[of sample_writer sample_to_json "ascii ''llama''"]
      sample_writer_wf sample_json sample_file_size
    by (auto simp: sample_fields)
  then show ?thesis using open_view_sound by blast
qed

text \<open>
  Whatever the bytes, opening a file ends in a view or an error value, never in a panic, unless
  the TOKENIZER parser itself panics on some window of the file: every slice, index and addition of
  the reader, the header, the table and the tensor index is guarded.
\<close>

theorem open_never_panics:
  assumes "length bytes < 2 ^ 63"
    and "\<forall>off n. off + n \<le> length bytes \<longrightarrow> AufTokenizer_from_bytes (field bytes off n) \<noteq> Panic"
  shows "open_from_mmap from_json bytes backend \<noteq> Panic"
  using open_panic[of from_json bytes backend] assms by blast

theorem open_never_panics_witness:
  "open_from_mmap sample_from_json (replicate 300 0) CpuAos \<noteq> Panic"
proof (rule open_never_panics)
  have "field (replicate 300 (0 :: byte)) off n = replicate n 0" if "off + n \<le> 300" for off n
    using that by (simp add: min_def)
  moreover have "AufTokenizer_from_bytes (replicate n 0) \<noteq> Panic" for n
  proof -
    have "take 16 (replicate n 0) \<noteq> TOKENIZER_MAGIC"
      by (cases n) (simp_all add: TOKENIZER_MAGIC_def ascii_def)
    then show ?thesis by (simp add: AufTokenizer_from_bytes_def)
  qed
  ultimately show "\<forall>off n. off + n \<le> length (replicate 300 (0 :: byte)) \<longrightarrow>
      AufTokenizer_from_bytes (field (replicate 300 0) off n) \<noteq> Panic"
    by simp
qed simp

text \<open>A view with a pre-converted \<open>lm_head\<close> in two dtypes.\<close>

definition sample_section :: "str \<Rightarrow> u64 \<Rightarrow> u64 \<Rightarrow> u32 \<Rightarrow> section_entry" where
  "sample_section t off sz fl = \<lparr>tag_raw = nul_pad 24 t, sec_offset = off, sec_size = sz, flags = fl, version = 1\<rparr>"

definition sample_lm_entry :: "u32 \<Rightarrow> tensor_entry" where
  "sample_lm_entry d = \<lparr>te_layer_idx = LAYER_IDX_CROSS, te_kind = TensorKind_as_u32 LmHead, te_dtype = d,
     te_shape = [1, 2], te_alignment = 65536, variant_offsets = [1], variant_sizes = [2]\<rparr>"

definition sample_view :: auf_view where
  "sample_view = \<lparr>v_bytes = [0, 1, 2, 10, 11, 12, 13],
     v_header = set_lm_head_q4_0_capability True (AufHeader_new_v01 [] (replicate 32 0) 0 0 4 0 0),
     v_section_table = [sample_section TAG_META 0 1 SECTION_REQUIRED,
       sample_section TAG_TOKENIZER 1 1 SECTION_REQUIRED, sample_section TAG_TENSOR_INDEX 2 1 SECTION_REQUIRED,
       sample_section TAG_WEIGHTS_CPU_AOS 3 4 SECTION_STRIPPABLE],
     v_meta = sample_meta\<lparr>default_dtype := Some (ascii ''F16'')\<rparr>, v_tokenizer = sample_tokenizer,
     v_tensor_index = \<lparr>variant_tags = [nul_pad 24 TAG_WEIGHTS_CPU_AOS],
       tensor_entries = [sample_lm_entry 3, sample_lm_entry 1]\<rparr>,
     v_weights_range = Some (3, 4)\<rparr>"

lemma sample_section_tag [simp]: "tag_ok t \<Longrightarrow> tag (sample_section t off sz fl) = t"
  using nul_trim_pad[of t 24] by (simp add: sample_section_def tag_def tag_ok_def SECTION_TAG_SIZE_def)

lemma sample_tags_ok: "tag_ok TAG_META" "tag_ok TAG_TOKENIZER" "tag_ok TAG_TENSOR_INDEX" "tag_ok TAG_WEIGHTS_CPU_AOS"
  by (simp_all add: tag_ok_def tag_defs ascii_def SECTION_TAG_SIZE_def)

lemma sample_view_sound: "view_sound CpuAos sample_view"
proof -
  have d: "distinct [TAG_META, TAG_TOKENIZER, TAG_TENSOR_INDEX, TAG_WEIGHTS_CPU_AOS]"
    by (simp add: tag_defs ascii_def)
  have s: "entry_wf (sample_section t off sz fl)" "sec_offset (sample_section t off sz fl) = off"
    "sec_size (sample_section t off sz fl) = sz" "flags (sample_section t off sz fl) = fl" for t off sz fl
    by (simp_all add: sample_section_def entry_wf_def SECTION_TAG_SIZE_def)
  show ?thesis using d
    by (simp add: view_sound_def sample_view_def Let_def s sample_tags_ok sec_apart_def sec_end_def
        set_lm_head_q4_0_capability_def AufHeader_new_v01_def is_required_def is_strippable_def
        is_compressed_def SECTION_REQUIRED_def SECTION_STRIPPABLE_def SECTION_COMPRESSED_def)
qed

lemma sample_view_lm_head:
  "\<exists>p. lm_head_q4_0_payload sample_view 1 2 = Ok (Some p) \<and> lm_bytes p = [11, 12]"
proof -
  have "nul_trim (nul_pad 24 TAG_WEIGHTS_CPU_AOS) = TAG_WEIGHTS_CPU_AOS"
    using nul_trim_pad[of TAG_WEIGHTS_CPU_AOS 24] sample_tags_ok(4) by (simp add: tag_ok_def SECTION_TAG_SIZE_def)
  moreover have "utf8_valid TAG_WEIGHTS_CPU_AOS" using sample_tags_ok(4) by (simp add: tag_ok_def)
  moreover have "sec_offset (sample_section t off sz fl) = off" for t off sz fl
    by (simp add: sample_section_def)
  ultimately show ?thesis
    by (simp add: lm_head_q4_0_payload_def sample_view_def has_lm_head_q4_0_def AufHeader_new_v01_def
        set_lm_head_q4_0_capability_def find_lm_head_entry_def sample_lm_entry_def sample_tags_ok
        CAPABILITY_BIT_LM_HEAD_Q4_0_def variant_index_for_tag_def get_or_def u64_max_def weights_bytes_def
        window_def slice_from_def slice_def usize_add_def)
qed

text \<open>
  The pre-converted \<open>lm_head\<close>: on a sound view the accessor answers \<open>None\<close> exactly when the
  capability bit is clear, and a payload it returns comes from the \<open>lm_head\<close> entry with dtype Q4_0 and
  the requested shape, is not empty, and is a part of the weights section of the view.
\<close>

theorem lm_head_payload_contract:
  assumes "view_sound backend v"
  shows "(lm_head_q4_0_payload v vocab hidden = Ok None \<longleftrightarrow> \<not> has_lm_head_q4_0 (v_header v))
    \<and> (\<forall>p. lm_head_q4_0_payload v vocab hidden = Ok (Some p) \<longrightarrow>
         (\<exists>e ws off. find_lm_head_entry (v_tensor_index v) = Some e
           \<and> te_dtype e = TensorDType_as_u32 TD_Q4_0
           \<and> te_shape e = [word_of_nat vocab, word_of_nat hidden]
           \<and> weights_bytes v = Ok (Some ws) \<and> off + length (lm_bytes p) \<le> length ws
           \<and> lm_bytes p = field ws off (length (lm_bytes p)) \<and> lm_bytes p \<noteq> []))"
proof (intro conjI allI impI)
  show "lm_head_q4_0_payload v vocab hidden = Ok None \<longleftrightarrow> \<not> has_lm_head_q4_0 (v_header v)"
    by (auto simp: lm_head_q4_0_payload_def and_then_eq_Ok Let_def split: option.splits)
next
  fix p assume p: "lm_head_q4_0_payload v vocab hidden = Ok (Some p)"
  then obtain e ws i where e: "find_lm_head_entry (v_tensor_index v) = Some e"
      "te_dtype e = TensorDType_as_u32 TD_Q4_0" "te_shape e = [word_of_nat vocab, word_of_nat hidden]"
      "weights_bytes v = Ok (Some ws)" "get_or 0 (variant_sizes e) i \<noteq> 0"
      "unat (get_or u64_max (variant_offsets e) i) + unat (get_or 0 (variant_sizes e) i) \<le> length ws"
      "lm_bytes p = field ws (unat (get_or u64_max (variant_offsets e) i))
        (unat (get_or 0 (variant_sizes e) i))"
    by (auto simp: lm_head_q4_0_payload_def and_then_eq_Ok ok_or_eq ensure_eq usize_add_eq
        slice_eq_Ok Let_def split: if_splits option.splits)
  define off where "off = get_or u64_max (variant_offsets e) i"
  define sz where "sz = get_or 0 (variant_sizes e) i"
  note o = e[folded off_def sz_def]
  then have "length (lm_bytes p) = unat sz" "unat sz \<noteq> 0" by (auto simp: unat_eq_0)
  with o show "\<exists>e ws off. find_lm_head_entry (v_tensor_index v) = Some e
           \<and> te_dtype e = TensorDType_as_u32 TD_Q4_0
           \<and> te_shape e = [word_of_nat vocab, word_of_nat hidden]
           \<and> weights_bytes v = Ok (Some ws) \<and> off + length (lm_bytes p) \<le> length ws
           \<and> lm_bytes p = field ws off (length (lm_bytes p)) \<and> lm_bytes p \<noteq> []"
    by (intro exI[of _ e] exI[of _ ws] exI[of _ "unat off"]) auto
qed

theorem lm_head_payload_contract_witness:
  "\<exists>p ws off. lm_head_q4_0_payload sample_view 1 2 = Ok (Some p) \<and> lm_bytes p = [11, 12]
     \<and> weights_bytes sample_view = Ok (Some ws) \<and> lm_bytes p = field ws off (length (lm_bytes p))"
  using lm_head_payload_contract[OF sample_view_sound, of 1 2] sample_view_lm_head by blast

text \<open>Some entry of the layer and kind satisfies \<open>P\<close>.\<close>

definition has_entry :: "auf_view \<Rightarrow> u32 \<Rightarrow> u32 \<Rightarrow> (tensor_entry \<Rightarrow> bool) \<Rightarrow> bool" where
  "has_entry v l k P \<longleftrightarrow> (\<exists>e \<in> set (tensor_entries (v_tensor_index v)).
      te_layer_idx e = l \<and> te_kind e = k \<and> P e)"

lemma entries_for_facts:
  "entries_for (v_tensor_index v) l k = f # r \<Longrightarrow> te_layer_idx f = l \<and> te_kind f = k"
  "entries_for (v_tensor_index v) l k = [] \<longleftrightarrow> \<not> has_entry v l k (\<lambda>e. True)"
  by (auto simp: entries_for_def filter_empty_conv has_entry_def dest!: filter_eq_ConsD)

lemma find_entry_facts:
  "find_entry_by_dtype (v_tensor_index v) l k t = Some e \<Longrightarrow>
      te_layer_idx e = l \<and> te_kind e = k \<and> te_dtype e = t"
  "find_entry_by_dtype (v_tensor_index v) l k t = None \<longleftrightarrow> \<not> has_entry v l k (\<lambda>e. te_dtype e = t)"
  by (auto simp: find_entry_by_dtype_def find_Some_iff find_None_iff has_entry_def)

text \<open>
  Looking a tensor up follows the precedence explicit dtype, then the default dtype of META, then
  the first match: an explicit request succeeds exactly when an entry of that dtype exists and returns
  one; without a request the lookup succeeds exactly when the layer and kind have an entry, returns one
  of them, and returns one of the default dtype whenever there is one.
\<close>

theorem lookup_tensor_precedence:
  "((\<exists>e. lookup_tensor v l k (Some d) = Ok e)
      \<longleftrightarrow> has_entry v l k (\<lambda>e. te_dtype e = TensorDType_as_u32 d))
   \<and> (\<forall>e. lookup_tensor v l k (Some d) = Ok e \<longrightarrow>
        te_layer_idx e = l \<and> te_kind e = k \<and> te_dtype e = TensorDType_as_u32 d)
   \<and> ((\<exists>e. lookup_tensor v l k None = Ok e) \<longleftrightarrow> has_entry v l k (\<lambda>e. True))
   \<and> (\<forall>e. lookup_tensor v l k None = Ok e \<longrightarrow> te_layer_idx e = l \<and> te_kind e = k
        \<and> (Option.bind (default_dtype (v_meta v)) dtype_str_to_tensor_dtype = Some d
            \<and> has_entry v l k (\<lambda>e. te_dtype e = TensorDType_as_u32 d)
            \<longrightarrow> te_dtype e = TensorDType_as_u32 d))"
proof (intro conjI)
  show "(\<exists>e. lookup_tensor v l k (Some d) = Ok e)
      \<longleftrightarrow> has_entry v l k (\<lambda>e. te_dtype e = TensorDType_as_u32 d)"
    using find_entry_facts(2)[of v l k "TensorDType_as_u32 d"] by (auto simp: lookup_tensor_def ok_or_eq)
  show "\<forall>e. lookup_tensor v l k (Some d) = Ok e \<longrightarrow>
        te_layer_idx e = l \<and> te_kind e = k \<and> te_dtype e = TensorDType_as_u32 d"
    using find_entry_facts(1) by (auto simp: lookup_tensor_def ok_or_eq)
  show "(\<exists>e. lookup_tensor v l k None = Ok e) \<longleftrightarrow> has_entry v l k (\<lambda>e. True)"
    using entries_for_facts(2)[of v l k]
    by (auto simp: lookup_tensor_def split: list.splits option.splits)
  show "\<forall>e. lookup_tensor v l k None = Ok e \<longrightarrow> te_layer_idx e = l \<and> te_kind e = k
        \<and> (Option.bind (default_dtype (v_meta v)) dtype_str_to_tensor_dtype = Some d
            \<and> has_entry v l k (\<lambda>e. te_dtype e = TensorDType_as_u32 d)
            \<longrightarrow> te_dtype e = TensorDType_as_u32 d)"
    using entries_for_facts(1) find_entry_facts
    by (auto simp: lookup_tensor_def split: list.splits option.splits)
qed

theorem lookup_tensor_precedence_witness:
  "\<exists>e. lookup_tensor sample_view LAYER_IDX_CROSS 11 None = Ok e \<and> te_dtype e = 1"
proof -
  have "has_entry sample_view LAYER_IDX_CROSS 11 (\<lambda>e. te_dtype e = TensorDType_as_u32 TD_F16)"
    "has_entry sample_view LAYER_IDX_CROSS 11 (\<lambda>e. True)"
    by (simp_all add: has_entry_def sample_view_def sample_lm_entry_def)
  moreover have "Option.bind (default_dtype (v_meta sample_view)) dtype_str_to_tensor_dtype = Some TD_F16"
    by (simp add: sample_view_def dtype_str_to_tensor_dtype_def ascii_def)
  ultimately show ?thesis
    using lookup_tensor_precedence[of sample_view LAYER_IDX_CROSS 11 TD_F16] by auto
qed

end
