(* ===== verification/Auf_Stripper.thy ===== *)
theory Auf_Stripper
  imports Auf_Reader
begin

text \<open>
  \<^verbatim>\<open>engine/src/auf/stripper.rs\<close>: rewriting a file with only some of its sections. \<open>strip_bytes\<close> is
  the in-memory entry point; \<open>strip\<close> is the same selection and rewrite on a file opened by the reader,
  with the backup, the temporary file and the rename (not modelled) around it.
\<close>

section \<open>Definitions\<close>

text \<open>The selection loop of \<open>strip_bytes\<close>; \<open>strip\<close> tests its two keep conditions in the other order.\<close>

fun strip_select :: "str set \<Rightarrow> section_table \<Rightarrow> section_table auf_result" where
  "strip_select keep [] = Ok []"
| "strip_select keep (e # es) =
     (if is_required e \<or> tag e \<in> keep
      then and_then (strip_select keep es) (\<lambda>ks. Ok (e # ks))
      else if \<not> is_strippable e then Err (Other (NotStrippable (tag e)))
      else strip_select keep es)"

definition starts_with :: "str \<Rightarrow> str \<Rightarrow> bool" where
  "starts_with s p \<longleftrightarrow> take (length p) s = p"

definition strip_alignment :: "section_entry \<Rightarrow> nat" where
  "strip_alignment e = (if starts_with (tag e) (ascii ''WEIGHTS_'') then WEIGHTS_ALIGNMENT else 8)"

text \<open>The layout loop: new entries, copy plan (new offset, old offset, size), final cursor.\<close>

fun strip_layout ::
    "nat \<Rightarrow> section_table \<Rightarrow> (section_table \<times> (nat \<times> u64 \<times> u64) list \<times> nat) auf_result" where
  "strip_layout cursor [] = Ok ([], [], cursor)"
| "strip_layout cursor (e # es) =
     and_then (SectionEntry_new (tag e) (word_of_nat cursor) (sec_size e) (flags e) (version e)) (\<lambda>ne.
     and_then (strip_layout (align_up (cursor + unat (sec_size e)) (strip_alignment e)) es)
       (\<lambda>(nes, plan, total). Ok (ne # nes, (cursor, sec_offset e, sec_size e) # plan, total)))"

fun strip_copy :: "byte list \<Rightarrow> nat \<times> u64 \<times> u64 \<Rightarrow> byte list \<Rightarrow> byte list auf_result" where
  "strip_copy original (new_off, old_off, sz) out =
     and_then (usize_add (unat old_off) (unat sz)) (\<lambda>src_end.
     and_then (usize_add new_off (unat sz)) (\<lambda>dst_end.
     if src_end > length original \<or> dst_end > length out
     then Err (SectionRangeInvalid (ascii ''strip copy'') StripCopyOutOfBounds)
     else and_then (slice original (unat old_off) src_end) (\<lambda>s. copy_into out new_off s)))"

definition nul_str :: "byte list \<Rightarrow> str" where
  "nul_str bs = (let s = nul_trim bs in if utf8_valid s then s else [])"

definition rewrite_sections_into_bytes ::
    "byte list \<Rightarrow> auf_header \<Rightarrow> section_table \<Rightarrow> byte list auf_result" where
  "rewrite_sections_into_bytes original h keep_entries =
     (let count = length keep_entries;
          payload_off = align_up (HEADER_SIZE + count * 48) WEIGHTS_ALIGNMENT in
      and_then (strip_layout payload_off keep_entries) (\<lambda>(new_entries, plan, total).
      and_then (assert_that (total < 2 ^ 63)) (\<lambda>_.
      let new_header = AufHeader_new_v01 (nul_str (created_by h)) (source_hash h) (source_size h)
            (source_mtime h) (word_of_nat count) (word_of_nat HEADER_SIZE) (word_of_nat payload_off) in
      and_then (copy_into (replicate total 0) 0 (AufHeader_to_bytes new_header)) (\<lambda>out.
      and_then (copy_into out HEADER_SIZE (SectionTable_to_bytes new_entries)) (\<lambda>out.
      try_fold (strip_copy original) plan out)))))"

definition strip_bytes :: "byte list \<Rightarrow> str set \<Rightarrow> byte list auf_result" where
  "strip_bytes original keep =
     (if length original < HEADER_SIZE then Err FileTooSmall
      else
      and_then (AufHeader_from_bytes original) (\<lambda>h.
      and_then (AufHeader_validate h) (\<lambda>_.
      and_then (usize_add (unat (section_table_offset h)) (unat (section_count h) * 48)) (\<lambda>table_end.
      and_then (ensure (\<not> table_end > length original) SectionTableTruncated) (\<lambda>_.
      and_then (slice_from original (unat (section_table_offset h))) (\<lambda>tb.
      and_then (SectionTable_from_bytes tb (section_count h)) (\<lambda>es.
      and_then (validate_unique_tags es) (\<lambda>_.
      and_then (validate_flags es) (\<lambda>_.
      and_then (validate_ranges es (payload_start_offset h) (word_of_nat (length original))) (\<lambda>_.
      and_then (strip_select keep es) (\<lambda>ks.
      rewrite_sections_into_bytes original h ks)))))))))))"

text \<open>The pure part of \<open>strip\<close>: the new content of the file.\<close>

definition strip_content :: "from_json \<Rightarrow> byte list \<Rightarrow> str set \<Rightarrow> byte list auf_result" where
  "strip_content from_json file keep =
     and_then (open_from_mmap from_json file AnyBackend) (\<lambda>v.
     and_then (strip_select keep (v_section_table v)) (\<lambda>ks.
     rewrite_sections_into_bytes (v_bytes v) (v_header v) ks))"

section \<open>Lemmas\<close>

definition kept :: "str set \<Rightarrow> section_entry \<Rightarrow> bool" where
  "kept keep e \<longleftrightarrow> is_required e \<or> tag e \<in> keep"

lemma strip_select_ok:
  "strip_select keep es = Ok ks \<longleftrightarrow>
     ks = filter (kept keep) es \<and> (\<forall>e \<in> set es. kept keep e \<or> is_strippable e)"
  by (induction es arbitrary: ks) (auto simp: and_then_eq_Ok kept_def)

text \<open>The content of a section in a file.\<close>

definition content :: "byte list \<Rightarrow> section_entry \<Rightarrow> byte list" where
  "content bytes e = field bytes (unat (sec_offset e)) (unat (sec_size e))"

fun plan_part :: "byte list \<Rightarrow> nat \<times> u64 \<times> u64 \<Rightarrow> placement" where
  "plan_part original (n, off, s) = (n, field original (unat off) (unat s))"

fun strip_total :: "nat \<Rightarrow> section_table \<Rightarrow> nat" where
  "strip_total cursor [] = cursor"
| "strip_total cursor (e # es) =
     strip_total (align_up (cursor + unat (sec_size e)) (strip_alignment e)) es"

definition strip_file_size :: "section_table \<Rightarrow> nat" where
  "strip_file_size ks = strip_total (align_up (HEADER_SIZE + length ks * 48) WEIGHTS_ALIGNMENT) ks"

lemma tag_is_ok: "entry_wf e \<Longrightarrow> tag_ok (tag e)"
  using length_takeWhile_le[of "\<lambda>b. b \<noteq> 0" "tag_raw e"]
  by (auto simp: tag_ok_def tag_def entry_wf_def nul_trim_def Let_def dest: set_takeWhileD)

lemma strip_layout_spec:
  assumes "\<forall>e \<in> set es. entry_wf e \<and> sec_end e \<le> length original"
  shows "\<exists>nes plan. strip_layout cursor es = Ok (nes, plan, strip_total cursor es)
    \<and> map tag nes = map tag es \<and> map flags nes = map flags es \<and> (\<forall>e \<in> set nes. entry_wf e)
    \<and> map snd (map (plan_part original) plan) = map (content original) es
    \<and> map (\<lambda>e. (sec_offset e, sec_size e)) nes
        = map (\<lambda>p. (word_of_nat (fst p), word_of_nat (length (snd p)))) (map (plan_part original) plan)
    \<and> sorted_wrt p_before (map (plan_part original) plan)
    \<and> (\<forall>p \<in> set (map (plan_part original) plan). cursor \<le> fst p \<and> p_end p \<le> strip_total cursor es)
    \<and> (\<forall>(n, off, s) \<in> set plan. unat off + unat s \<le> length original)
    \<and> cursor \<le> strip_total cursor es"
  using assms
proof (induction es arbitrary: cursor)
  case Nil
  then show ?case by simp
next
  case (Cons e es)
  define c where "c = align_up (cursor + unat (sec_size e)) (strip_alignment e)"
  have ge: "cursor + unat (sec_size e) \<le> c" unfolding c_def by (rule align_up_ge)
  from Cons.prems have e: "entry_wf e" "unat (sec_offset e) + unat (sec_size e) \<le> length original"
    by (auto simp: sec_end_def)
  obtain ne where ne: "SectionEntry_new (tag e) (word_of_nat cursor) (sec_size e) (flags e) (version e)
      = Ok ne" "tag ne = tag e" "entry_wf ne" "sec_offset ne = word_of_nat cursor"
      "sec_size ne = sec_size e" "flags ne = flags e" "version ne = version e"
    by (rule SectionEntry_new_ok[OF tag_is_ok[OF e(1)]])
  have "\<forall>e \<in> set es. entry_wf e \<and> sec_end e \<le> length original" using Cons.prems by simp
  from Cons.IH[OF this, of c] obtain nes plan where ih:
    "strip_layout c es = Ok (nes, plan, strip_total c es)" "map tag nes = map tag es"
    "map flags nes = map flags es" "\<forall>e \<in> set nes. entry_wf e"
    "map snd (map (plan_part original) plan) = map (content original) es"
    "map (\<lambda>e. (sec_offset e, sec_size e)) nes
        = map (\<lambda>p. (word_of_nat (fst p), word_of_nat (length (snd p)))) (map (plan_part original) plan)"
    "sorted_wrt p_before (map (plan_part original) plan)"
    "\<forall>p \<in> set (map (plan_part original) plan). c \<le> fst p \<and> p_end p \<le> strip_total c es"
    "\<forall>(n, off, s) \<in> set plan. unat off + unat s \<le> length original" "c \<le> strip_total c es"
    by blast
  have "strip_layout cursor (e # es)
      = Ok (ne # nes, (cursor, sec_offset e, sec_size e) # plan, strip_total cursor (e # es))"
    using ne(1) ih(1) by (simp add: c_def)
  moreover have pe: "p_end (cursor, field original (unat (sec_offset e)) (unat (sec_size e)))
      = cursor + unat (sec_size e)"
    using e(2) by (simp add: p_end_def)
  then have "sorted_wrt p_before (map (plan_part original) ((cursor, sec_offset e, sec_size e) # plan))"
    using ih(7,8) ge by (auto simp: p_before_def)
  moreover have "\<forall>p \<in> set (map (plan_part original) ((cursor, sec_offset e, sec_size e) # plan)).
      cursor \<le> fst p \<and> p_end p \<le> strip_total cursor (e # es)"
    using ih(8,10) ge pe by (auto simp: c_def[symmetric])
  ultimately show ?case
    using ne ih e ge by (intro exI[of _ "ne # nes"]
        exI[of _ "(cursor, sec_offset e, sec_size e) # plan"]) (auto simp: content_def c_def[symmetric])
qed

text \<open>With every range inside both files, the checked copy loop is the plain copy plan.\<close>

lemma strip_copies:
  assumes "\<forall>(n, off, s) \<in> set plan. unat off + unat s \<le> length original"
    and "\<forall>p \<in> set (map (plan_part original) plan). p_end p \<le> length out"
    and "length original < 2 ^ 63" and "length out < 2 ^ 63"
  shows "try_fold (strip_copy original) plan out = try_fold place (map (plan_part original) plan) out"
  using assms
proof (induction plan arbitrary: out)
  case Nil
  then show ?case by simp
next
  case (Cons x plan)
  obtain n off s where x: "x = (n, off, s)" by (cases x)
  from Cons.prems(1,2) have b: "unat off + unat s \<le> length original" "n + unat s \<le> length out"
    by (auto simp: x p_end_def)
  define out' where
    "out' = take n out @ field original (unat off) (unat s) @ drop (n + unat s) out"
  have "strip_copy original x out = Ok out'"
    using b Cons.prems(3,4) by (simp add: x slice_def copy_into_def out'_def)
  moreover have "(place (plan_part original x) out :: byte list auf_result) = Ok out'"
    using b by (simp add: x copy_into_def out'_def)
  moreover have "length out' = length out" using b by (simp add: out'_def)
  ultimately show ?case using Cons.IH[of out'] Cons.prems by simp
qed

definition strip_header :: "auf_header \<Rightarrow> nat \<Rightarrow> auf_header" where
  "strip_header h n = AufHeader_new_v01 (nul_str (created_by h)) (source_hash h) (source_size h)
     (source_mtime h) (word_of_nat n) (word_of_nat HEADER_SIZE)
     (word_of_nat (align_up (HEADER_SIZE + n * 48) WEIGHTS_ALIGNMENT))"

text \<open>The rewritten file is a file image that holds the kept sections with their old contents.\<close>

lemma rewrite_image:
  assumes ks: "\<forall>e \<in> set ks. entry_wf e \<and> sec_end e \<le> length original"
    and h: "header_wf h" and n: "length ks < 2 ^ 32"
    and len: "length original < 2 ^ 63" and sz: "strip_file_size ks < 2 ^ 63"
  shows "\<exists>out nes ps. rewrite_sections_into_bytes original h ks = Ok out
    \<and> auf_image (strip_header h (length ks)) nes ps out
    \<and> map tag nes = map tag ks \<and> map flags nes = map flags ks
    \<and> map snd ps = map (content original) ks"
proof -
  define po where "po = align_up (HEADER_SIZE + length ks * 48) WEIGHTS_ALIGNMENT"
  define tot where "tot = strip_total po ks"
  have tot: "tot < 2 ^ 63" using sz by (simp add: strip_file_size_def tot_def po_def)
  define nh where "nh = strip_header h (length ks)"
  from strip_layout_spec[OF ks, of po] obtain nes plan where l:
    "strip_layout po ks = Ok (nes, plan, tot)" "map tag nes = map tag ks" "map flags nes = map flags ks"
    "\<forall>e \<in> set nes. entry_wf e" "map snd (map (plan_part original) plan) = map (content original) ks"
    "map (\<lambda>e. (sec_offset e, sec_size e)) nes
        = map (\<lambda>p. (word_of_nat (fst p), word_of_nat (length (snd p)))) (map (plan_part original) plan)"
    "sorted_wrt p_before (map (plan_part original) plan)"
    "\<forall>p \<in> set (map (plan_part original) plan). po \<le> fst p \<and> p_end p \<le> tot"
    "\<forall>(n, off, s) \<in> set plan. unat off + unat s \<le> length original" "po \<le> tot"
    unfolding tot_def by blast
  define ps where "ps = map (plan_part original) plan"
  note l = l[folded ps_def]
  have nl: "length nes = length ks" using arg_cong[OF l(2), of length] by simp
  have pe: "\<forall>p \<in> set ps. p_end p < 2 ^ 64" using l(8) tot by fastforce
  have d: "list_all2 describes nes ps" by (rule describes_of_maps[OF l(6,4) pe])
  have po: "unat (payload_start_offset nh) = po"
    using l(10) tot by (simp add: nh_def strip_header_def AufHeader_new_v01_def po_def[symmetric] unat_of_nat)
  have table: "256 + length nes * 48 \<le> po"
    using align_up_ge[of "HEADER_SIZE + length ks * 48" WEIGHTS_ALIGNMENT]
    by (simp add: po_def nl HEADER_SIZE_def)
  have nw: "header_wf nh" using h by (simp add: nh_def strip_header_def header_wf_def AufHeader_new_v01_def)
  have nf: "unat (section_table_offset nh) = 256" "unat (section_count nh) = length nes"
    using n by (simp_all add: nh_def strip_header_def AufHeader_new_v01_def HEADER_SIZE_def nl)
  from image_built[OF nw nf d l(7), unfolded po, OF l(8) table l(10) tot, where ?'e = auf_error]
  obtain out where
    out: "try_fold place ([(0, AufHeader_to_bytes nh), (HEADER_SIZE, SectionTable_to_bytes nes)] @ ps)
      (replicate tot 0) = (Ok out :: byte list auf_result)" "auf_image nh nes ps out" by blast
  then obtain o1 o2 where o: "copy_into (replicate tot 0) 0 (AufHeader_to_bytes nh)
        = (Ok o1 :: byte list auf_result)"
      "copy_into o1 HEADER_SIZE (SectionTable_to_bytes nes) = (Ok o2 :: byte list auf_result)"
      "try_fold place ps o2 = (Ok out :: byte list auf_result)"
    by (auto simp: and_then_eq_Ok)
  have o2: "length o2 = tot" using o(1,2) by (auto simp: copy_into_eq_Ok)
  have "\<forall>p \<in> set ps. p_end p \<le> length o2" using l(8) o2 by blast
  then have "try_fold (strip_copy original) plan o2 = Ok out"
    using strip_copies[OF l(9) _ len] o2 tot o(3) by (simp add: ps_def)
  then have "rewrite_sections_into_bytes original h ks = Ok out"
    using l(1) tot o(1,2)
    by (simp add: rewrite_sections_into_bytes_def Let_def po_def[symmetric] nh_def strip_header_def)
  with out(2) l(2,3,5) show ?thesis unfolding nh_def by blast
qed

section \<open>A stripped file opens\<close>

text \<open>The intermediate results of a successful \<open>open\<close>.\<close>

lemma open_inv:
  assumes op: "open_from_mmap from_json bytes backend = Ok v" and len: "length bytes < 2 ^ 63"
  obtains me te xe where
    "AufHeader_from_bytes bytes = Ok (v_header v)" "AufHeader_validate (v_header v) = Ok ()"
    "unat (section_table_offset (v_header v)) + unat (section_count (v_header v)) * 48 \<le> length bytes"
    "SectionTable_from_bytes (drop (unat (section_table_offset (v_header v))) bytes)
       (section_count (v_header v)) = Ok (v_section_table v)"
    "validate_table (v_header v) (word_of_nat (length bytes)) (v_section_table v) = Ok ()"
    "find_section (v_section_table v) TAG_META = Some me"
    "find_section (v_section_table v) TAG_TOKENIZER = Some te"
    "find_section (v_section_table v) TAG_TENSOR_INDEX = Some xe"
    "from_json (content bytes me) = Some (v_meta v)"
    "AufTokenizer_from_bytes (content bytes te) = Ok (v_tokenizer v)"
    "TensorIndex_from_bytes (content bytes xe) = Ok (v_tensor_index v)"
    "select_weights (v_section_table v) backend = Ok (v_weights_range v)" "v_bytes v = bytes"
proof -
  from op obtain h te es me ke xe mb kb xb tb where o:
    "AufHeader_from_bytes bytes = Ok h" "AufHeader_validate h = Ok ()"
    "checked_add_u64 (section_table_offset h) (ucast (section_count h) * 48) = Some te"
    "\<not> te > word_of_nat (length bytes)"
    "(slice_from bytes (unat (section_table_offset h)) :: byte list auf_result) = Ok tb"
    "SectionTable_from_bytes tb (section_count h) = Ok es"
    "validate_table h (word_of_nat (length bytes)) es = Ok ()"
    "find_section es TAG_META = Some me" "find_section es TAG_TOKENIZER = Some ke"
    "find_section es TAG_TENSOR_INDEX = Some xe" "select_weights es backend = Ok (v_weights_range v)"
    "window bytes (sec_offset me) (sec_size me) = Ok mb" "from_json mb = Some (v_meta v)"
    "window bytes (sec_offset ke) (sec_size ke) = Ok kb" "AufTokenizer_from_bytes kb = Ok (v_tokenizer v)"
    "window bytes (sec_offset xe) (sec_size xe) = Ok xb" "TensorIndex_from_bytes xb = Ok (v_tensor_index v)"
    "v_header v = h" "v_section_table v = es" "v_bytes v = bytes"
    by (auto simp: open_from_mmap_def Let_def and_then_eq_Ok ok_or_eq ensure_eq required_section_def
        AufMeta_from_json_bytes_def)
  have w: "window bytes (sec_offset e) (sec_size e) = Ok (content bytes e)"
    if "find_section es t = Some e" for e t
    using find_section_Some[OF that] o(7) sec_inside_window(2)[of "payload_start_offset h" bytes e] len
    by (auto simp: validate_table_ok content_def)
  have tb: "tb = drop (unat (section_table_offset h)) bytes" using o(5) by (simp add: slice_from_eq_Ok)
  show ?thesis
    by (rule that[of me ke xe])
      (use o w[OF o(8)] w[OF o(9)] w[OF o(10)] tb table_end_bound[OF o(3,4)] len in auto)
qed

lemma find_kept:
  assumes "find_section es t = Some e" and "kept keep e" and "distinct (map tag es)"
  obtains i where "i < length (filter (kept keep) es)" "filter (kept keep) es ! i = e" "tag e = t"
proof -
  have "e \<in> set (filter (kept keep) es)" "tag e = t"
    using find_section_Some[OF assms(1)] assms(2) by auto
  then show ?thesis using that by (metis in_set_conv_nth)
qed

text \<open>
  What a rewritten file holds: if the contents found under the fixed tags and the weights tag of an
  opened file are kept, the new file opens to the same parts.
\<close>

lemma image_reopen:
  assumes op: "open_from_mmap from_json bytes backend = Ok v" and len: "length bytes < 2 ^ 63"
    and im: "auf_image nh nes ps out" and nh: "AufHeader_validate nh = Ok ()"
    and tg: "map tag nes = map tag ks" and fl: "map flags nes = map flags ks"
    and ct: "map snd ps = map (content bytes) ks"
    and ks: "ks = filter (kept keep) (v_section_table v)"
    and kp: "\<forall>t \<in> {TAG_META, TAG_TOKENIZER, TAG_TENSOR_INDEX} \<union> set_option (weights_section_tag backend).
        \<forall>e \<in> set (v_section_table v). tag e = t \<longrightarrow> kept keep e"
  shows "\<exists>v'. open_from_mmap from_json out backend = Ok v' \<and> v_header v' = nh \<and> v_section_table v' = nes
    \<and> v_meta v' = v_meta v \<and> v_tokenizer v' = v_tokenizer v \<and> v_tensor_index v' = v_tensor_index v
    \<and> weights_bytes v' = weights_bytes v"
proof -
  obtain me te xe where o: "validate_table (v_header v) (word_of_nat (length bytes)) (v_section_table v) = Ok ()"
    "find_section (v_section_table v) TAG_META = Some me"
    "find_section (v_section_table v) TAG_TOKENIZER = Some te"
    "find_section (v_section_table v) TAG_TENSOR_INDEX = Some xe"
    "from_json (content bytes me) = Some (v_meta v)"
    "AufTokenizer_from_bytes (content bytes te) = Ok (v_tokenizer v)"
    "TensorIndex_from_bytes (content bytes xe) = Ok (v_tensor_index v)"
    "select_weights (v_section_table v) backend = Ok (v_weights_range v)" "v_bytes v = bytes"
    by (rule open_inv[OF op len])
  from o(1) have dt: "distinct (map tag (v_section_table v))"
    and vf: "\<forall>e \<in> set (v_section_table v). \<not> (is_required e \<and> is_strippable e) \<and> \<not> is_compressed e"
    by (auto simp: validate_table_ok)
  have ln: "length nes = length ks" "length ps = length ks"
    using arg_cong[OF tg, of length] arg_cong[OF ct, of length] by auto
  have nth: "tag (nes ! i) = tag (ks ! i)" "flags (nes ! i) = flags (ks ! i)"
      "snd (ps ! i) = content bytes (ks ! i)" if "i < length ks" for i
    using that ln arg_cong[OF tg, of "\<lambda>xs. xs ! i"] arg_cong[OF fl, of "\<lambda>xs. xs ! i"]
      arg_cong[OF ct, of "\<lambda>xs. xs ! i"] by auto
  have nd: "distinct (map tag nes)" unfolding tg ks using dt by (simp add: distinct_map_filter)
  have nf: "\<forall>e \<in> set nes. \<not> (is_required e \<and> is_strippable e) \<and> \<not> is_compressed e"
  proof
    fix e assume "e \<in> set nes"
    then obtain i where i: "i < length ks" "nes ! i = e" using ln by (metis in_set_conv_nth)
    then have "ks ! i \<in> set (v_section_table v)" using nth_mem[OF i(1)] unfolding ks by simp
    with vf nth(2)[OF i(1)] i(2) show "\<not> (is_required e \<and> is_strippable e) \<and> \<not> is_compressed e"
      by (auto simp: is_required_def is_strippable_def is_compressed_def)
  qed
  have pos: "\<exists>i. i < length nes \<and> tag (nes ! i) = t \<and> snd (ps ! i) = content bytes e"
    if "find_section (v_section_table v) t = Some e"
      "t \<in> {TAG_META, TAG_TOKENIZER, TAG_TENSOR_INDEX} \<union> set_option (weights_section_tag backend)" for t e
  proof -
    have "kept keep e" using kp that find_section_Some[OF that(1)] by blast
    from find_kept[OF that(1) this dt] obtain i where "i < length ks" "ks ! i = e" "tag e = t"
      unfolding ks by blast
    with nth ln show ?thesis by (intro exI[of _ i]) auto
  qed
  obtain i where i: "i < length nes" "tag (nes ! i) = TAG_META" "snd (ps ! i) = content bytes me"
    using pos[OF o(2)] by blast
  obtain j where j: "j < length nes" "tag (nes ! j) = TAG_TOKENIZER" "snd (ps ! j) = content bytes te"
    using pos[OF o(3)] by blast
  obtain k where k: "k < length nes" "tag (nes ! k) = TAG_TENSOR_INDEX" "snd (ps ! k) = content bytes xe"
    using pos[OF o(4)] by blast
  note opens = image_open[OF im nh nd nf i(1,2) _ j(1,2) _ k(1,2), unfolded i(3) j(3) k(3),
      of from_json "v_meta v" "v_tokenizer v" "v_tensor_index v", OF o(5,6,7)]
  show ?thesis
  proof (cases "weights_section_tag backend")
    case None
    then have "select_weights nes backend = Ok None" "v_weights_range v = None"
      using o(8) by (auto simp: select_weights_def)
    with opens[of backend None] show ?thesis by (simp add: weights_bytes_def)
  next
    case (Some t)
    with o(8) obtain e where e: "find_section (v_section_table v) t = Some e"
      "v_weights_range v = Some (sec_offset e, sec_size e)"
      by (auto simp: select_weights_def and_then_eq_Ok ok_or_eq)
    have "t \<in> {TAG_META, TAG_TOKENIZER, TAG_TENSOR_INDEX} \<union> set_option (weights_section_tag backend)"
      using Some by simp
    from pos[OF e(1) this] obtain n where n: "n < length nes" "tag (nes ! n) = t" "snd (ps ! n) = content bytes e"
      by blast
    have wt: "weights_section_tag backend = Some (tag (nes ! n))" using Some n(2) by simp
    have "e \<in> set (v_section_table v)" using find_section_Some[OF e(1)] by simp
    then have "weights_bytes v = Ok (Some (content bytes e))"
      using o(1,9) e(2) sec_inside_window(2)[of _ bytes e] len
      by (auto simp: weights_bytes_def validate_table_ok content_def)
    with opens[OF image_weights(1)[OF im nd n(1) wt]] image_weights(2)[OF im nd n(1) wt] n(3)
    show ?thesis by simp
  qed
qed

lemma strip_open:
  assumes op: "open_from_mmap from_json bytes backend = Ok v" and len: "length bytes < 2 ^ 63"
    and kp: "\<forall>t \<in> {TAG_META, TAG_TOKENIZER, TAG_TENSOR_INDEX} \<union> set_option (weights_section_tag backend).
        \<forall>e \<in> set (v_section_table v). tag e = t \<longrightarrow> kept keep e"
    and dr: "\<forall>e \<in> set (v_section_table v). kept keep e \<or> is_strippable e"
    and sz: "strip_file_size (filter (kept keep) (v_section_table v)) < 2 ^ 63"
  shows "\<exists>out v'. strip_bytes bytes keep = Ok out \<and> open_from_mmap from_json out backend = Ok v'
    \<and> v_meta v' = v_meta v \<and> v_tokenizer v' = v_tokenizer v \<and> v_tensor_index v' = v_tensor_index v
    \<and> weights_bytes v' = weights_bytes v
    \<and> map tag (v_section_table v') = map tag (filter (kept keep) (v_section_table v))
    \<and> v_header v' = strip_header (v_header v) (length (filter (kept keep) (v_section_table v)))"
proof -
  define ks where "ks = filter (kept keep) (v_section_table v)"
  obtain me te xe where o:
    "AufHeader_from_bytes bytes = Ok (v_header v)" "AufHeader_validate (v_header v) = Ok ()"
    "unat (section_table_offset (v_header v)) + unat (section_count (v_header v)) * 48 \<le> length bytes"
    "SectionTable_from_bytes (drop (unat (section_table_offset (v_header v))) bytes)
       (section_count (v_header v)) = Ok (v_section_table v)"
    "validate_table (v_header v) (word_of_nat (length bytes)) (v_section_table v) = Ok ()"
    by (rule open_inv[OF op len])
  have hw: "header_wf (v_header v)" and big: "\<not> length bytes < HEADER_SIZE"
    using header_from_bytes_wf[OF o(1)] by (auto simp: HEADER_SIZE_def)
  have tw: "length (v_section_table v) = unat (section_count (v_header v))"
    "\<forall>e \<in> set (v_section_table v). entry_wf e"
    using table_from_bytes_ok[OF o(4)] by auto
  have "length ks \<le> length (v_section_table v)" by (simp add: ks_def)
  then have n: "length ks < 2 ^ 32"
    using tw(1) unsigned_less[of "section_count (v_header v)", where ?'a = nat] by simp
  have "\<forall>e \<in> set ks. entry_wf e \<and> sec_end e \<le> length bytes"
    using tw(2) o(5) len sec_inside_window(1)[of _ bytes] by (auto simp: ks_def validate_table_ok)
  from rewrite_image[OF this hw n len] sz obtain out nes ps where
    r: "rewrite_sections_into_bytes bytes (v_header v) ks = Ok out"
      "auf_image (strip_header (v_header v) (length ks)) nes ps out" "map tag nes = map tag ks"
      "map flags nes = map flags ks" "map snd ps = map (content bytes) ks"
    unfolding ks_def by blast
  have "validate_unique_tags (v_section_table v) = Ok ()" "validate_flags (v_section_table v) = Ok ()"
    "validate_ranges (v_section_table v) (payload_start_offset (v_header v)) (word_of_nat (length bytes)) = Ok ()"
    using o(5) by (auto simp: validate_table_def and_then_eq_Ok)
  then have "strip_bytes bytes keep = Ok out"
    using o(1-4) big len r(1) dr strip_select_ok[of keep "v_section_table v" ks]
    by (simp add: strip_bytes_def ks_def slice_from_def slice_def)
  moreover have "AufHeader_validate (strip_header (v_header v) (length ks)) = Ok ()"
    by (simp add: header_validate_ok strip_header_def AufHeader_new_v01_def)
  from image_reopen[OF op len r(2) this r(3-5) ks_def kp] obtain v' where
    "open_from_mmap from_json out backend = Ok v'" "v_header v' = strip_header (v_header v) (length ks)"
    "v_section_table v' = nes" "v_meta v' = v_meta v" "v_tokenizer v' = v_tokenizer v"
    "v_tensor_index v' = v_tensor_index v" "weights_bytes v' = weights_bytes v" by blast
  ultimately show ?thesis using r(3) unfolding ks_def by metis
qed

section \<open>Properties\<close>

text \<open>A size bound that is easy to check: every kept section costs at most its size and one alignment.\<close>

lemma strip_total_le:
  assumes "\<forall>e \<in> set es. unat (sec_size e) \<le> L"
  shows "strip_total c es \<le> c + length es * (L + 65536)"
  using assms
proof (induction es arbitrary: c)
  case Nil
  then show ?case by simp
next
  case (Cons e es)
  have "align_up (c + unat (sec_size e)) (strip_alignment e) \<le> c + unat (sec_size e) + 65536"
    using align_up_less[of "strip_alignment e" "c + unat (sec_size e)"]
    by (cases "starts_with (tag e) (ascii ''WEIGHTS_'')")
      (simp_all add: strip_alignment_def WEIGHTS_ALIGNMENT_def)
  with Cons show ?case by (fastforce intro: order_trans)
qed

text \<open>The sample file of the reader, with both capabilities of C4 and C5 checkable on it.\<close>

lemma sample_file_strippable:
  obtains bytes v where "open_from_mmap sample_from_json bytes CpuAos = Ok v" "length bytes < 2 ^ 63"
    "v_meta v = sample_meta" "weights_bytes v = Ok (Some [7, 8, 9])" "has_lm_head_q4_0 (v_header v)"
    "\<forall>e \<in> set (v_section_table v). kept UNIV e \<or> is_strippable e"
    "strip_file_size (filter (kept UNIV) (v_section_table v)) < 2 ^ 63"
proof -
  from build_open[of sample_writer sample_to_json "ascii ''llama''" sample_from_json CpuAos
      TAG_WEIGHTS_CPU_AOS "[7, 8, 9]"] sample_writer_wf sample_json sample_file_size
  obtain bytes v where o: "AufWriter_build sample_to_json sample_writer = Ok bytes"
    "open_from_mmap sample_from_json bytes CpuAos = Ok v" "v_meta v = sample_meta"
    "weights_bytes v = Ok (Some [7, 8, 9])"
    "v_header v = writer_header sample_writer 4 (writer_payload_off sample_writer)"
    by (auto simp: sample_fields)
  from build_image[of sample_writer sample_to_json "ascii ''llama''"] o(1) sample_writer_wf
    sample_json(1) sample_file_size
  have len: "length bytes = 196608" by auto
  have kept: "kept UNIV e" for e by (simp add: kept_def)
  from open_sound[OF o(2)] len have snd: "view_sound CpuAos v" "v_bytes v = bytes" by auto
  have "unat (section_count (v_header v)) = 4" by (simp add: o(5) writer_header_fields)
  with snd have n: "length (v_section_table v) = 4"
    and e: "\<forall>e \<in> set (v_section_table v). unat (sec_size e) \<le> 196608"
    using len by (auto simp: view_sound_def Let_def sec_end_def)
  define po where "po = align_up (HEADER_SIZE + length (v_section_table v) * 48) WEIGHTS_ALIGNMENT"
  have "strip_total po (v_section_table v) \<le> po + 4 * (196608 + 65536)"
    using strip_total_le[OF e, of po] by (simp add: n)
  moreover have "po < 131072"
    using align_up_less[of WEIGHTS_ALIGNMENT "HEADER_SIZE + 4 * 48"]
    by (simp add: po_def n WEIGHTS_ALIGNMENT_def HEADER_SIZE_def)
  ultimately have "strip_file_size (v_section_table v) < 2 ^ 63"
    unfolding strip_file_size_def po_def[symmetric] by simp
  moreover have "has_lm_head_q4_0 (v_header v)"
    unfolding o(5) by (simp add: writer_header_def sample_fields has_lm_head_q4_0_def AufHeader_new_v01_def
        set_multi_dtype_capability_def set_lm_head_q4_0_capability_def CAPABILITY_BIT_LM_HEAD_Q4_0_def
        CAPABILITY_BIT_MULTI_DTYPE_def)
  ultimately show ?thesis using that o(2-4) len kept by auto
qed

text \<open>
  C30: Stripping keeps the model: for a file that opens for a backend, if the three fixed sections and
  the backend's weights are kept (required, or named in \<open>keep_tags\<close>), every dropped section is
  strippable and the new file fits, then \<open>strip_bytes\<close> succeeds, its result opens for the same backend
  with the same META, TOKENIZER and TENSOR_INDEX and byte-identical weights, and holds exactly the
  kept sections, in their order.
\<close>

theorem strip_keeps_model:
  assumes "open_from_mmap from_json bytes backend = Ok v" and "length bytes < 2 ^ 63"
    and "\<forall>t \<in> {TAG_META, TAG_TOKENIZER, TAG_TENSOR_INDEX} \<union> set_option (weights_section_tag backend).
        \<forall>e \<in> set (v_section_table v). tag e = t \<longrightarrow> kept keep e"
    and "\<forall>e \<in> set (v_section_table v). kept keep e \<or> is_strippable e"
    and "strip_file_size (filter (kept keep) (v_section_table v)) < 2 ^ 63"
  shows "\<exists>out v'. strip_bytes bytes keep = Ok out \<and> open_from_mmap from_json out backend = Ok v'
    \<and> v_meta v' = v_meta v \<and> v_tokenizer v' = v_tokenizer v \<and> v_tensor_index v' = v_tensor_index v
    \<and> weights_bytes v' = weights_bytes v
    \<and> map tag (v_section_table v') = map tag (filter (kept keep) (v_section_table v))"
  using strip_open[OF assms] by blast

theorem strip_keeps_model_witness:
  "\<exists>bytes out v'. strip_bytes bytes UNIV = Ok out \<and> open_from_mmap sample_from_json out CpuAos = Ok v'
     \<and> v_meta v' = sample_meta \<and> weights_bytes v' = Ok (Some [7, 8, 9])"
proof -
  obtain bytes v where o: "open_from_mmap sample_from_json bytes CpuAos = Ok v" "length bytes < 2 ^ 63"
    "v_meta v = sample_meta" "weights_bytes v = Ok (Some [7, 8, 9])"
    "\<forall>e \<in> set (v_section_table v). kept UNIV e \<or> is_strippable e"
    "strip_file_size (filter (kept UNIV) (v_section_table v)) < 2 ^ 63"
    by (rule sample_file_strippable)
  from strip_keeps_model[OF o(1,2) _ o(5,6)] o(3,4) show ?thesis by (auto simp: kept_def)
qed

text \<open>
  Stripping forgets the optional capabilities. Under the same conditions the new file's header has
  neither the \<open>lm_head\<close> nor the multi-dtype bit, whatever the original had, so the accessor of the
  pre-converted \<open>lm_head\<close> answers \<open>None\<close> on it, although the tensor index still has its entry and the
  weights still hold its bytes.
\<close>

theorem strip_forgets_capabilities:
  assumes "open_from_mmap from_json bytes backend = Ok v" and "length bytes < 2 ^ 63"
    and "\<forall>t \<in> {TAG_META, TAG_TOKENIZER, TAG_TENSOR_INDEX} \<union> set_option (weights_section_tag backend).
        \<forall>e \<in> set (v_section_table v). tag e = t \<longrightarrow> kept keep e"
    and "\<forall>e \<in> set (v_section_table v). kept keep e \<or> is_strippable e"
    and "strip_file_size (filter (kept keep) (v_section_table v)) < 2 ^ 63"
  shows "\<exists>out v'. strip_bytes bytes keep = Ok out \<and> open_from_mmap from_json out backend = Ok v'
    \<and> v_tensor_index v' = v_tensor_index v \<and> weights_bytes v' = weights_bytes v
    \<and> \<not> has_multi_dtype (v_header v') \<and> lm_head_q4_0_payload v' vocab hidden = Ok None"
proof -
  from strip_open[OF assms] obtain out v' where o: "strip_bytes bytes keep = Ok out"
    "open_from_mmap from_json out backend = Ok v'" "v_tensor_index v' = v_tensor_index v"
    "weights_bytes v' = weights_bytes v"
    "v_header v' = strip_header (v_header v) (length (filter (kept keep) (v_section_table v)))" by blast
  have "capability_optional (v_header v') = 0"
    by (simp add: o(5) strip_header_def AufHeader_new_v01_def)
  then have "\<not> has_multi_dtype (v_header v')" "\<not> has_lm_head_q4_0 (v_header v')"
    by (simp_all add: has_multi_dtype_def has_lm_head_q4_0_def)
  with o show ?thesis by (auto simp: lm_head_q4_0_payload_def)
qed

theorem strip_forgets_capabilities_witness:
  "\<exists>bytes v out v'. open_from_mmap sample_from_json bytes CpuAos = Ok v \<and> has_lm_head_q4_0 (v_header v)
     \<and> strip_bytes bytes UNIV = Ok out \<and> open_from_mmap sample_from_json out CpuAos = Ok v'
     \<and> lm_head_q4_0_payload v' 1 2 = Ok None"
proof -
  obtain bytes v where o: "open_from_mmap sample_from_json bytes CpuAos = Ok v" "length bytes < 2 ^ 63"
    "has_lm_head_q4_0 (v_header v)" "\<forall>e \<in> set (v_section_table v). kept UNIV e \<or> is_strippable e"
    "strip_file_size (filter (kept UNIV) (v_section_table v)) < 2 ^ 63"
    by (rule sample_file_strippable)
  from strip_forgets_capabilities[OF o(1,2) _ o(4,5), of 1 2] o(1,3) show ?thesis
    by (auto simp: kept_def)
qed

text \<open>
  The builder puts every WEIGHTS section on a 64 KB boundary; the stripper does not. It rounds the
  cursor up after a section to the alignment of that section, not of the next one, so a WEIGHTS section
  that follows a small section starts at the next multiple of 8. The rewritten file of a META section of
  5 bytes and a WEIGHTS section has the latter at 65544.
\<close>

theorem strip_misaligns_weights:
  "\<exists>nes plan total. strip_layout 65536
      [sample_section TAG_META 0 5 SECTION_REQUIRED, sample_section TAG_WEIGHTS_CPU_AOS 65536 3 SECTION_STRIPPABLE]
      = Ok (nes, plan, total)
    \<and> map tag nes = [TAG_META, TAG_WEIGHTS_CPU_AOS] \<and> unat (sec_offset (nes ! 1)) mod WEIGHTS_ALIGNMENT = 8"
proof -
  have "\<not> starts_with TAG_META (ascii ''WEIGHTS_'')"
    by (simp add: starts_with_def tag_defs ascii_def)
  then have "strip_alignment (sample_section TAG_META 0 5 SECTION_REQUIRED) = 8"
    by (simp add: strip_alignment_def sample_tags_ok)
  moreover have "align_up 65541 8 = 65544" using align_up_eq[of 8 8193 65541] by simp
  moreover have "tag (sample_section t off sz fl\<lparr>sec_offset := off'\<rparr>) = tag (sample_section t off sz fl)" for t off sz fl off'
    by (simp add: tag_def)
  moreover have "SectionEntry_new t off sz fl 1 = Ok (sample_section t off sz fl)" if "tag_ok t" for t off sz fl
    using that by (simp add: SectionEntry_new_def sample_section_def tag_ok_def SECTION_TAG_SIZE_def)
  moreover have "sec_size (sample_section t off sz fl) = sz" "flags (sample_section t off sz fl) = fl"
    "version (sample_section t off sz fl) = 1" "sec_offset (sample_section t off sz fl) = off" for t off sz fl
    by (simp_all add: sample_section_def)
  ultimately show ?thesis
    by (simp add: sample_tags_ok WEIGHTS_ALIGNMENT_def)
qed

end
