(* ===== verification/Kv_Layout.thy ===== *)
theory Kv_Layout
  imports Prelude
begin

text \<open>
  Storage vocabulary of the KV cache: \<open>KVLayoutDesc\<close>
  (\<^verbatim>\<open>crates/argus-extension-api/src/lib.rs\<close>), \<open>DType\<close> (\<^verbatim>\<open>engine/src/buffer.rs\<close>), \<open>KVLayout\<close>
  (\<^verbatim>\<open>engine/src/kv_cache_ops.rs\<close>), the two default copy primitives of the backend
  (\<^verbatim>\<open>engine/src/backend.rs\<close>), and \<open>encode_via_descriptor\<close>
  (\<^verbatim>\<open>engine/src/format/dtype_layout.rs\<close>).

  A tensor buffer is the list of its \<^emph>\<open>units\<close>, the granularity of \<open>buffer_shift\<close> and \<open>copy_slice\<close>: an
  element of an F32 or F16 tensor, an 18-byte block of a Q4_0 tensor, a byte of a U8 tensor. Both
  primitives are raw pointer copies: a range outside the buffer is undefined behaviour, and the model
  makes it \<open>Panic\<close>, so that a theorem with a result excludes it.
\<close>

section \<open>Formats\<close>

datatype scale_layout = NoScale | PerBlockF16 | PerBlockF16WithMin

datatype packing = Dense | Nibble | Byte | Quad

record kv_layout_desc =
  block_elems :: nat
  bits :: nat
  scale_layout :: scale_layout
  packing :: packing

definition block_bytes :: "kv_layout_desc \<Rightarrow> nat option" where
  "block_bytes d =
     (let scale_bytes = (case scale_layout d of NoScale \<Rightarrow> 0 | PerBlockF16 \<Rightarrow> 2 | PerBlockF16WithMin \<Rightarrow> 4)
      in case packing d of
        Dense \<Rightarrow> None
      | Nibble \<Rightarrow> Some (scale_bytes + block_elems d div 2)
      | Byte \<Rightarrow> Some (scale_bytes + block_elems d)
      | Quad \<Rightarrow> Some (scale_bytes + block_elems d div 4))"

definition bytes_for_elems :: "kv_layout_desc \<Rightarrow> nat \<Rightarrow> nat option" where
  "bytes_for_elems d numel = (case block_bytes d of
     None \<Rightarrow> Some (numel * (bits d div 8))
   | Some bb \<Rightarrow> if block_elems d = 0 \<or> numel mod block_elems d \<noteq> 0 then None
               else Some (numel div block_elems d * bb))"

datatype dtype = D_Q4_0 | D_Q4_1 | D_Q8_0 | D_F16 | D_BF16 | D_F32 | D_U8

fun DType_size :: "dtype \<Rightarrow> nat" where
  "DType_size D_F16 = 2" | "DType_size D_BF16 = 2" | "DType_size D_F32 = 4"
| "DType_size D_U8 = 1" | "DType_size D_Q4_0 = 1" | "DType_size D_Q4_1 = 1" | "DType_size D_Q8_0 = 1"

datatype kv_layout = SeqMajor | HeadMajor

definition KVLayout_from_cli :: "string \<Rightarrow> kv_layout option" where
  "KVLayout_from_cli s = (if s = ''head'' then Some HeadMajor else if s = ''seq'' then Some SeqMajor else None)"

definition QK4_0 :: nat where "QK4_0 = 32"

text \<open>\<open>size_of::<BlockQ4_0>()\<close>: an \<open>f16\<close> and 16 bytes.\<close>

definition size_of_BlockQ4_0 :: nat where "size_of_BlockQ4_0 = 18"

section \<open>Errors\<close>

datatype kv_error =
    GrowNonDynamic
  | AllocFailed
  | KvOverflow
  | KvOverflowNeed nat nat
  | OpaqueSeqMajor string
  | OpaqueCapacityExceeded nat
  | CannotPrune nat nat
  | EncodeUnsupported
  | EncodeSrcLen nat nat
  | EncodeDstLen nat nat

type_synonym 'a kv_result = "(kv_error, 'a) result"

section \<open>Copies\<close>

text \<open>The size of a unit: the \<open>type_size\<close> match of \<open>buffer_shift\<close> and \<open>copy_slice\<close>.\<close>

fun type_size :: "dtype \<Rightarrow> nat" where
  "type_size D_F32 = 4" | "type_size D_F16 = 2" | "type_size D_U8 = 1"
| "type_size D_Q4_0 = size_of_BlockQ4_0"
| "type_size D_Q4_1 = 1" | "type_size D_Q8_0 = 1" | "type_size D_BF16 = 1"

definition buffer_shift :: "'u list \<Rightarrow> nat \<Rightarrow> nat \<Rightarrow> nat \<Rightarrow> 'u list kv_result" where
  "buffer_shift t src_offset dst_offset count =
     (if src_offset + count \<le> length t \<and> dst_offset + count \<le> length t
      then Ok (memmove t src_offset dst_offset count) else Panic)"

definition copy_slice :: "'u list \<Rightarrow> 'u list \<Rightarrow> nat \<Rightarrow> nat \<Rightarrow> nat \<Rightarrow> 'u list kv_result" where
  "copy_slice src dst src_offset dst_offset count =
     (if src_offset + count \<le> length src \<and> dst_offset + count \<le> length dst
      then Ok (take dst_offset dst @ field src src_offset count @ drop (dst_offset + count) dst)
      else Panic)"

section \<open>Block encoding\<close>

text \<open>
  \<open>encode_via_descriptor\<close>: its guards and its loop. The two block encoders are floating-point code; they
  are the parameter \<open>enc_block\<close>, which gets the kind (\<open>quad\<close>), the width, and one block of values.
\<close>

type_synonym ('f, 'u) enc_block = "bool \<Rightarrow> nat \<Rightarrow> 'f list \<Rightarrow> 'u list"

definition encode_via_descriptor ::
    "('f, 'u) enc_block \<Rightarrow> kv_layout_desc \<Rightarrow> 'f list \<Rightarrow> 'u list \<Rightarrow> 'u list kv_result" where
  "encode_via_descriptor enc_block d src dst =
     and_then (case (scale_layout d, packing d) of
        (PerBlockF16, Nibble) \<Rightarrow> Ok False
      | (PerBlockF16WithMin, Quad) \<Rightarrow> Ok True
      | _ \<Rightarrow> Err EncodeUnsupported) (\<lambda>quad.
     case block_bytes d of None \<Rightarrow> Panic
     | Some bb \<Rightarrow>
       if block_elems d = 0 \<or> length src mod block_elems d \<noteq> 0
       then Err (EncodeSrcLen (length src) (block_elems d))
       else
         let n_blocks = length src div block_elems d in
         if length dst < n_blocks * bb then Err (EncodeDstLen (length dst) (n_blocks * bb))
         else try_fold (\<lambda>bi out. copy_into out (bi * bb)
                (enc_block quad (bits d) (field src (bi * block_elems d) (block_elems d))))
              [0..<n_blocks] dst)"

end
