(* ===== verification/Kv_Cache.thy ===== *)
theory Kv_Cache
  imports Kv_Layout
begin

text \<open>
  \<^verbatim>\<open>engine/src/kv/kv_cache.rs\<close>, the data and the operations of \<open>KVCache\<close> on a host (CPU) backend:
  \<open>is_gpu\<close> is false, buffer pointers are not null, and device mirrors (\<open>host_snapshot\<close>,
  \<open>head_start_device\<close>) are not modelled. An operation returns the new cache; the state a failed
  operation leaves behind is not modelled, except where the caller continues
  (\<open>release_unused_pages\<close> ignores a failed shrink, which has not touched the cache).
\<close>

section \<open>State\<close>

text \<open>\<open>Memory::alloc_kv(size, dtype)\<close>: the units of a fresh buffer, or a failure.\<close>

type_synonym 'u allocator = "nat \<Rightarrow> dtype \<Rightarrow> 'u list option"

record 'u kvcache =
  k_buffer :: "'u list"
  v_buffer :: "'u list"
  kv_dtype :: dtype
  opaque :: "kv_layout_desc option"
  host_managed :: bool
  current_pos :: nat
  high_water_pos :: nat
  max_seq_len :: nat
  capacity :: nat
  kv_heads :: nat
  head_dim :: nat
  layout :: kv_layout
  head_starts_raw :: "nat list"
  head_start_dirty :: bool
  memory :: "'u allocator option"

definition KVCache_new_with_geometry ::
    "'u list \<Rightarrow> 'u list \<Rightarrow> dtype \<Rightarrow> nat \<Rightarrow> nat \<Rightarrow> nat \<Rightarrow> kv_layout \<Rightarrow> 'u kvcache" where
  "KVCache_new_with_geometry k v dt msl heads dim lay =
     \<lparr>k_buffer = k, v_buffer = v, kv_dtype = dt, opaque = None, host_managed = True, current_pos = 0,
      high_water_pos = 0, max_seq_len = msl, capacity = msl, kv_heads = heads, head_dim = dim,
      layout = lay, head_starts_raw = [], head_start_dirty = False, memory = None\<rparr>"

text \<open>\<open>new\<close> reads the head count and the head dimension off a sequence-major shape.\<close>

definition KVCache_new :: "'u list \<Rightarrow> 'u list \<Rightarrow> dtype \<Rightarrow> nat list \<Rightarrow> nat \<Rightarrow> 'u kvcache kv_result" where
  "KVCache_new k v dt dims msl =
     (if 3 < length dims then Ok (KVCache_new_with_geometry k v dt msl (dims ! 2) (dims ! 3) SeqMajor)
      else Panic)"

definition KVCache_new_dynamic ::
    "'u list \<Rightarrow> 'u list \<Rightarrow> dtype \<Rightarrow> nat \<Rightarrow> nat \<Rightarrow> nat \<Rightarrow> nat \<Rightarrow> 'u allocator \<Rightarrow> 'u kvcache" where
  "KVCache_new_dynamic k v dt init msl heads dim m =
     (KVCache_new_with_geometry k v dt msl heads dim SeqMajor)\<lparr>capacity := init, memory := Some m\<rparr>"

definition with_layout :: "kv_layout \<Rightarrow> 'u kvcache \<Rightarrow> 'u kvcache" where
  "with_layout lay c = c\<lparr>layout := lay\<rparr>"

definition is_opaque :: "'u kvcache \<Rightarrow> bool" where
  "is_opaque c \<longleftrightarrow> opaque c \<noteq> None"

definition opaque_desc :: "'u kvcache \<Rightarrow> kv_layout_desc kv_result" where
  "opaque_desc c = (case opaque c of Some d \<Rightarrow> Ok d | None \<Rightarrow> Panic)"

definition opaque_bytes_per_head :: "'u kvcache \<Rightarrow> nat kv_result" where
  "opaque_bytes_per_head c =
     and_then (opaque_desc c) (\<lambda>d.
     case block_bytes d of None \<Rightarrow> Panic
     | Some bb \<Rightarrow> if block_elems d = 0 then Panic else Ok (head_dim c div block_elems d * bb))"

definition is_q4 :: "'u kvcache \<Rightarrow> bool" where
  "is_q4 c \<longleftrightarrow> kv_dtype c = D_Q4_0"

section \<open>Addressing\<close>

definition offset :: "'u kvcache \<Rightarrow> nat \<Rightarrow> nat \<Rightarrow> nat" where
  "offset c pos h = (case layout c of
     SeqMajor \<Rightarrow> pos * kv_heads c * head_dim c + h * head_dim c
   | HeadMajor \<Rightarrow> h * capacity c * head_dim c + pos * head_dim c)"

definition pos_stride :: "'u kvcache \<Rightarrow> nat" where
  "pos_stride c = (case layout c of SeqMajor \<Rightarrow> kv_heads c * head_dim c | HeadMajor \<Rightarrow> head_dim c)"

definition q4_block_offset :: "'u kvcache \<Rightarrow> nat \<Rightarrow> nat \<Rightarrow> nat \<Rightarrow> nat" where
  "q4_block_offset c pos h blocks_per_pos = (case layout c of
     SeqMajor \<Rightarrow> (pos * kv_heads c + h) * blocks_per_pos
   | HeadMajor \<Rightarrow> (h * capacity c + pos) * blocks_per_pos)"

definition head_stride :: "'u kvcache \<Rightarrow> nat" where
  "head_stride c = (case layout c of SeqMajor \<Rightarrow> head_dim c | HeadMajor \<Rightarrow> capacity c * head_dim c)"

section \<open>Ragged geometry\<close>

definition head_start :: "'u kvcache \<Rightarrow> nat \<Rightarrow> nat" where
  "head_start c h = (if h < length (head_starts_raw c) then head_starts_raw c ! h else 0)"

definition head_starts :: "'u kvcache \<Rightarrow> nat list" where
  "head_starts c = map (head_start c) [0..<kv_heads c]"

definition is_ragged :: "'u kvcache \<Rightarrow> bool" where
  "is_ragged c \<longleftrightarrow> list_ex (\<lambda>s. s > 0) (head_starts_raw c)"

definition head_len :: "'u kvcache \<Rightarrow> nat \<Rightarrow> nat" where
  "head_len c h = current_pos c - head_start c h"

definition resident_positions :: "'u kvcache \<Rightarrow> nat" where
  "resident_positions c = sum_list (map (head_len c) [0..<kv_heads c])"

definition resident_tokens :: "'u kvcache \<Rightarrow> nat" where
  "resident_tokens c = (if kv_heads c = 0 then current_pos c
     else div_ceil (resident_positions c) (kv_heads c))"

definition supports_ragged :: "'u kvcache \<Rightarrow> bool" where
  "supports_ragged c \<longleftrightarrow> layout c = HeadMajor \<and> \<not> is_opaque c \<and> kv_dtype c \<in> {D_F32, D_F16}"

definition set_head_starts :: "nat list \<Rightarrow> 'u kvcache \<Rightarrow> 'u kvcache" where
  "set_head_starts starts c =
     c\<lparr>head_starts_raw := (if list_all (\<lambda>s. s = 0) starts then []
                           else map (\<lambda>s. min s (current_pos c)) starts),
       head_start_dirty := True\<rparr>"

definition clear_head_starts :: "'u kvcache \<Rightarrow> 'u kvcache" where
  "clear_head_starts c =
     c\<lparr>head_starts_raw := [], head_start_dirty := (head_starts_raw c \<noteq> [] \<or> head_start_dirty c)\<rparr>"

definition set_current_pos :: "nat \<Rightarrow> 'u kvcache \<Rightarrow> 'u kvcache" where
  "set_current_pos pos c =
     (if pos = 0 then c\<lparr>current_pos := 0, high_water_pos := 0, head_starts_raw := []\<rparr>
      else c\<lparr>current_pos := pos, head_starts_raw := map (\<lambda>s. min s pos) (head_starts_raw c)\<rparr>)"

definition advance_pos :: "nat \<Rightarrow> 'u kvcache \<Rightarrow> 'u kvcache" where
  "advance_pos n c = c\<lparr>current_pos := current_pos c + n,
     high_water_pos := max (high_water_pos c) (current_pos c + n)\<rparr>"

text \<open>Every operation does the same to the K buffer and then to the V buffer.\<close>

definition both :: "('u list \<Rightarrow> 'u list kv_result) \<Rightarrow> 'u kvcache \<Rightarrow> 'u kvcache kv_result" where
  "both f c = and_then (f (k_buffer c)) (\<lambda>k. and_then (f (v_buffer c)) (\<lambda>v.
     Ok (c\<lparr>k_buffer := k, v_buffer := v\<rparr>)))"

section \<open>Growing and shrinking\<close>

definition alloc_kv :: "'u allocator \<Rightarrow> nat \<Rightarrow> dtype \<Rightarrow> 'u list kv_result" where
  "alloc_kv m sz dt = ok_or AllocFailed (m sz dt)"

definition typed_buf_size :: "'u kvcache \<Rightarrow> nat \<Rightarrow> nat" where
  "typed_buf_size c n_values =
     (if kv_dtype c = D_Q4_0 then n_values div QK4_0 * size_of_BlockQ4_0
      else n_values * DType_size (kv_dtype c))"

definition grow_buf_size :: "'u kvcache \<Rightarrow> nat \<Rightarrow> nat kv_result" where
  "grow_buf_size c n_values =
     (if is_opaque c
      then and_then (opaque_desc c) (\<lambda>d. case bytes_for_elems d n_values of Some n \<Rightarrow> Ok n | None \<Rightarrow> Panic)
      else Ok (typed_buf_size c n_values))"

text \<open>The two copies of one head, K then V, into the new buffers.\<close>

definition copy_head ::
    "'u kvcache \<Rightarrow> nat \<Rightarrow> nat \<Rightarrow> nat \<Rightarrow> nat \<Rightarrow> 'u list \<times> 'u list \<Rightarrow> ('u list \<times> 'u list) kv_result" where
  "copy_head c old_hs new_hs cph h nkv =
     and_then (copy_slice (k_buffer c) (fst nkv) (h * old_hs) (h * new_hs) cph) (\<lambda>nk.
     and_then (copy_slice (v_buffer c) (snd nkv) (h * old_hs) (h * new_hs) cph) (\<lambda>nv. Ok (nk, nv)))"

text \<open>
  The copy part of \<open>grow\<close> and \<open>shrink_to_fit\<close>, shared: the typed arms are the same text in both, and
  the opaque arm of \<open>shrink_to_fit_opaque\<close> is that of \<open>grow\<close>.
\<close>

definition copy_resident ::
    "'u kvcache \<Rightarrow> nat \<Rightarrow> 'u list \<times> 'u list \<Rightarrow> ('u list \<times> 'u list) kv_result" where
  "copy_resident c new_cap nkv =
     (if current_pos c = 0 then Ok nkv
      else case layout c of
        SeqMajor \<Rightarrow>
          if is_opaque c then Err (OpaqueSeqMajor ''grow'')
          else
            let copy_count = (if kv_dtype c = D_Q4_0
                  then current_pos c * (kv_heads c * head_dim c div QK4_0)
                  else current_pos c * kv_heads c * head_dim c) in
            copy_head c 0 0 copy_count 0 nkv
      | HeadMajor \<Rightarrow>
          if is_opaque c
          then and_then (opaque_bytes_per_head c) (\<lambda>bph.
            try_fold (copy_head c (capacity c * bph) (new_cap * bph) (current_pos c * bph))
              [0..<kv_heads c] nkv)
          else
            let old_head_stride = capacity c * head_dim c;
                new_head_stride = new_cap * head_dim c;
                copy_per_head = current_pos c * head_dim c in
            if kv_dtype c = D_Q4_0
            then try_fold (copy_head c (old_head_stride div QK4_0) (new_head_stride div QK4_0)
                   (copy_per_head div QK4_0)) [0..<kv_heads c] nkv
            else try_fold (copy_head c old_head_stride new_head_stride copy_per_head) [0..<kv_heads c] nkv)"

definition grow :: "nat \<Rightarrow> 'u kvcache \<Rightarrow> 'u kvcache kv_result" where
  "grow min_capacity c =
     and_then (ok_or GrowNonDynamic (memory c)) (\<lambda>m.
     let new_cap = min (max (capacity c * 2) min_capacity) (max_seq_len c);
         n_values = new_cap * kv_heads c * head_dim c in
     and_then (grow_buf_size c n_values) (\<lambda>buf_size.
     and_then (alloc_kv m buf_size (kv_dtype c)) (\<lambda>nk.
     and_then (alloc_kv m buf_size (kv_dtype c)) (\<lambda>nv.
     and_then (copy_resident c new_cap (nk, nv)) (\<lambda>(nk, nv).
     Ok (c\<lparr>k_buffer := nk, v_buffer := nv, capacity := new_cap\<rparr>))))))"

definition ensure_capacity :: "nat \<Rightarrow> 'u kvcache \<Rightarrow> (bool \<times> 'u kvcache) kv_result" where
  "ensure_capacity min_tokens c =
     (if min_tokens \<le> capacity c then Ok (False, c)
      else if min_tokens > max_seq_len c then Err (KvOverflowNeed min_tokens (max_seq_len c))
      else and_then (grow min_tokens c) (\<lambda>c. Ok (True, c)))"

text \<open>\<open>((current_pos * 3 / 2) + 63) & !63\<close>, at least 64.\<close>

definition shrink_target :: "nat \<Rightarrow> nat" where
  "shrink_target cur = (let x = cur * 3 div 2 + 63 in max (x - x mod 64) 64)"

text \<open>Both shrink routines: bytes freed and the new cache.\<close>

definition shrink_to_fit :: "'u kvcache \<Rightarrow> (nat \<times> 'u kvcache) kv_result" where
  "shrink_to_fit c = (case memory c of
     None \<Rightarrow> Ok (0, c)
   | Some m \<Rightarrow>
     if is_opaque c \<and> layout c \<noteq> HeadMajor then Ok (0, c)
     else
       let new_cap = shrink_target (current_pos c) in
       if new_cap \<ge> capacity c then Ok (0, c)
       else
         and_then (grow_buf_size c (new_cap * kv_heads c * head_dim c)) (\<lambda>buf_size.
         and_then (grow_buf_size c (capacity c * kv_heads c * head_dim c)) (\<lambda>old_buf_size.
         let dt = (if is_opaque c then D_U8 else kv_dtype c) in
         and_then (alloc_kv m buf_size dt) (\<lambda>nk.
         and_then (alloc_kv m buf_size dt) (\<lambda>nv.
         and_then (copy_resident c new_cap (nk, nv)) (\<lambda>(nk, nv).
         Ok ((old_buf_size - buf_size) * 2,
             c\<lparr>k_buffer := nk, v_buffer := nv, capacity := new_cap,
               high_water_pos := current_pos c\<rparr>)))))))"

section \<open>Releasing pages\<close>

text \<open>
  What the operating system contributes to \<open>madvise\<close>: the page size, the addresses of the two buffers,
  whether the call succeeds, and what a unit reads as once some of its bytes are zero-filled. The mask
  arithmetic of \<open>round_up\<close> and \<open>round_down\<close> is written with \<open>mod\<close> (a page size is a power of two).
\<close>

record 'u kv_os =
  page_size :: nat
  k_addr :: nat
  v_addr :: nat
  madvise_ok :: bool
  zap :: "'u \<Rightarrow> 'u"

definition round_up :: "nat \<Rightarrow> nat \<Rightarrow> nat" where
  "round_up x a = (x + a - 1) - (x + a - 1) mod a"

definition round_down :: "nat \<Rightarrow> nat \<Rightarrow> nat" where
  "round_down x a = x - x mod a"

text \<open>The units some byte of which lies in the address range are lost.\<close>

definition zap_range :: "('u \<Rightarrow> 'u) \<Rightarrow> nat \<Rightarrow> nat \<Rightarrow> nat \<Rightarrow> nat \<Rightarrow> 'u list \<Rightarrow> 'u list" where
  "zap_range z ts addr lo hi buf =
     map (\<lambda>i. if addr + i * ts < hi \<and> lo < addr + (i + 1) * ts then z (buf ! i) else buf ! i)
       [0..<length buf]"

definition madvise_dontneed ::
    "'u kv_os \<Rightarrow> nat \<Rightarrow> nat \<Rightarrow> nat \<Rightarrow> nat \<Rightarrow> 'u list \<Rightarrow> nat \<times> 'u list" where
  "madvise_dontneed os ts addr from_offset to_offset buf =
     (if from_offset \<ge> to_offset then (0, buf)
      else
        let aligned_start = round_up (addr + from_offset) (page_size os);
            aligned_end = round_down (addr + to_offset) (page_size os) in
        if aligned_start \<ge> aligned_end \<or> \<not> madvise_ok os then (0, buf)
        else (aligned_end - aligned_start,
              zap_range (zap os) ts addr aligned_start aligned_end buf))"

text \<open>The K and the V advice of one range: bytes released so far and the cache.\<close>

definition advise ::
    "'u kv_os \<Rightarrow> nat \<Rightarrow> nat \<Rightarrow> nat \<Rightarrow> nat \<times> 'u kvcache \<Rightarrow> nat \<times> 'u kvcache" where
  "advise os ts from_offset to_offset rc =
     (let (nk, k) = madvise_dontneed os ts (k_addr os) from_offset to_offset (k_buffer (snd rc));
          (nv, v) = madvise_dontneed os ts (v_addr os) from_offset to_offset (v_buffer (snd rc)) in
      (fst rc + nk + nv, (snd rc)\<lparr>k_buffer := k, v_buffer := v\<rparr>))"

definition advise_head :: "'u kv_os \<Rightarrow> nat \<Rightarrow> nat \<Rightarrow> nat \<times> 'u kvcache \<Rightarrow> nat \<times> 'u kvcache" where
  "advise_head os ts h rc =
     (let c = snd rc;
          base = h * (capacity c * head_dim c * ts);
          rc = advise os ts (base + current_pos c * head_dim c * ts)
                 (base + high_water_pos c * head_dim c * ts) rc;
          hole_bytes = head_start c h * head_dim c * ts in
      if hole_bytes > 0 then advise os ts base (base + hole_bytes) rc else rc)"

definition release_pages :: "'u kv_os \<Rightarrow> nat \<Rightarrow> 'u kvcache \<Rightarrow> nat \<times> 'u kvcache" where
  "release_pages os ts c =
     (let rc = (case layout c of
            SeqMajor \<Rightarrow>
              (let row_bytes = kv_heads c * head_dim c * ts in
               advise os ts (current_pos c * row_bytes) (high_water_pos c * row_bytes) (0, c))
          | HeadMajor \<Rightarrow> fold (advise_head os ts) [0..<kv_heads c] (0, c)) in
      (fst rc, (snd rc)\<lparr>high_water_pos := current_pos c\<rparr>))"

definition release_unused_pages :: "'u kv_os \<Rightarrow> 'u kvcache \<Rightarrow> (nat \<times> 'u kvcache) kv_result" where
  "release_unused_pages os c =
     (if memory c \<noteq> None \<and> current_pos c * 4 < capacity c * 3
      then (case shrink_to_fit c of Ok r \<Rightarrow> Ok r | Err e \<Rightarrow> Ok (0, c) | Panic \<Rightarrow> Panic)
      else if \<not> host_managed c then Ok (0, c)
      else if kv_dtype c = D_F16 then Ok (release_pages os 2 c)
      else if kv_dtype c = D_F32 then Ok (release_pages os 4 c)
      else Ok (0, c))"

section \<open>Appending\<close>

text \<open>
  The input of \<open>update\<close>: raw units for a typed cache, floats for an opaque one. A tensor of the other
  kind is outside what the copies define.
\<close>

datatype ('u, 'f) tensor_in = Units "'u list" | Floats "'f list"

fun in_units :: "('u, 'f) tensor_in \<Rightarrow> 'u list kv_result" where
  "in_units (Units us) = Ok us"
| "in_units (Floats fs) = Panic"

fun in_floats :: "('u, 'f) tensor_in \<Rightarrow> 'f list kv_result" where
  "in_floats (Floats fs) = Ok fs"
| "in_floats (Units us) = Panic"

definition copy_in :: "'u list \<Rightarrow> 'u list \<Rightarrow> nat \<Rightarrow> nat \<Rightarrow> nat \<Rightarrow> 'u kvcache \<Rightarrow> 'u kvcache kv_result" where
  "copy_in nk nv src_off dst_off count c =
     and_then (copy_slice nk (k_buffer c) src_off dst_off count) (\<lambda>k.
     and_then (copy_slice nv (v_buffer c) src_off dst_off count) (\<lambda>v.
     Ok (c\<lparr>k_buffer := k, v_buffer := v\<rparr>)))"

text \<open>The nested loop \<open>for s in 0..seq_len { for h in 0..kv_heads { .. } }\<close>.\<close>

definition token_heads :: "nat \<Rightarrow> nat \<Rightarrow> (nat \<times> nat) list" where
  "token_heads seq_len heads = List.product [0..<seq_len] [0..<heads]"

definition scatter ::
    "'u list \<Rightarrow> 'u list \<Rightarrow> nat \<Rightarrow> nat \<Rightarrow> nat \<Rightarrow> nat \<Rightarrow> nat \<Rightarrow> 'u kvcache \<Rightarrow> 'u kvcache kv_result" where
  "scatter nk nv seq_len src_row dst_head_stride dst_pos width c =
     try_fold (\<lambda>(s, h). copy_in nk nv (s * src_row + h * width)
                 (h * dst_head_stride + dst_pos + s * width) width)
       (token_heads seq_len (kv_heads c)) c"

definition update_typed :: "'u list \<Rightarrow> 'u list \<Rightarrow> nat \<Rightarrow> 'u kvcache \<Rightarrow> 'u kvcache kv_result" where
  "update_typed nk nv seq_len c = (case layout c of
     SeqMajor \<Rightarrow>
       if is_q4 c
       then let bpp = kv_heads c * head_dim c div QK4_0 in
            copy_in nk nv 0 (current_pos c * bpp) (seq_len * bpp) c
       else let row = kv_heads c * head_dim c in
            copy_in nk nv 0 (current_pos c * row) (seq_len * row) c
   | HeadMajor \<Rightarrow>
       if is_q4 c
       then scatter nk nv seq_len (kv_heads c * head_dim c div QK4_0)
              (capacity c * head_dim c div QK4_0) (current_pos c * (head_dim c div QK4_0))
              (head_dim c div QK4_0) c
       else scatter nk nv seq_len (kv_heads c * head_dim c) (capacity c * head_dim c)
              (current_pos c * head_dim c) (head_dim c) c)"

text \<open>One buffer of \<open>update_opaque\<close>: quantize every (token, head) slice into its byte window.\<close>

definition encode_in ::
    "('f, 'u) enc_block \<Rightarrow> kv_layout_desc \<Rightarrow> nat \<Rightarrow> 'f list \<Rightarrow> nat \<Rightarrow> 'u kvcache \<Rightarrow> 'u list \<Rightarrow> 'u list kv_result" where
  "encode_in enc d bph src seq_len c buf =
     try_fold (\<lambda>(s, h) all.
         let pos = current_pos c + s;
             lo = s * (kv_heads c * head_dim c) + h * head_dim c;
             off = h * (capacity c * bph) + pos * bph in
         if pos \<ge> capacity c then Err (OpaqueCapacityExceeded (capacity c))
         else
           and_then (slice src lo (lo + head_dim c)) (\<lambda>sl.
           and_then (slice all off (off + bph)) (\<lambda>win.
           and_then (encode_via_descriptor enc d sl win) (\<lambda>out. copy_into all off out))))
       (token_heads seq_len (kv_heads c)) buf"

definition update_opaque ::
    "('f, 'u) enc_block \<Rightarrow> 'f list \<Rightarrow> 'f list \<Rightarrow> nat \<Rightarrow> 'u kvcache \<Rightarrow> 'u kvcache kv_result" where
  "update_opaque enc nk nv seq_len c =
     (if layout c \<noteq> HeadMajor then Err (OpaqueSeqMajor ''update'')
      else
        and_then (opaque_desc c) (\<lambda>d.
        and_then (opaque_bytes_per_head c) (\<lambda>bph.
        and_then (encode_in enc d bph nk seq_len c (k_buffer c)) (\<lambda>k.
        and_then (encode_in enc d bph nv seq_len c (v_buffer c)) (\<lambda>v.
        Ok (advance_pos seq_len (c\<lparr>k_buffer := k, v_buffer := v\<rparr>)))))))"

definition update ::
    "('f, 'u) enc_block \<Rightarrow> ('u, 'f) tensor_in \<Rightarrow> ('u, 'f) tensor_in \<Rightarrow> nat \<Rightarrow> 'u kvcache \<Rightarrow> 'u kvcache kv_result" where
  "update enc new_k new_v seq_len c =
     and_then
       (if current_pos c + seq_len > capacity c
        then (if current_pos c + seq_len > max_seq_len c then Err KvOverflow
              else grow (current_pos c + seq_len) c)
        else Ok c) (\<lambda>c.
     if is_opaque c
     then and_then (in_floats new_k) (\<lambda>nk. and_then (in_floats new_v) (\<lambda>nv.
            update_opaque enc nk nv seq_len c))
     else and_then (in_units new_k) (\<lambda>nk. and_then (in_units new_v) (\<lambda>nv.
            and_then (update_typed nk nv seq_len c) (\<lambda>c. Ok (advance_pos seq_len c)))))"

section \<open>Moving positions\<close>

text \<open>The per-head loop of the head-major arms, with the arm's stride and row width.\<close>

definition shift_heads :: "nat list \<Rightarrow> nat \<Rightarrow> nat \<Rightarrow> nat \<Rightarrow> nat \<Rightarrow> nat \<Rightarrow> 'u kvcache \<Rightarrow> 'u kvcache kv_result" where
  "shift_heads hs stride width src_pos dst_pos count =
     try_fold (\<lambda>h. both (\<lambda>b. buffer_shift b (h * stride + src_pos * width)
                 (h * stride + dst_pos * width) (count * width))) hs"

text \<open>The three head-major arms (opaque bytes, Q4_0 blocks, elements) for a list of heads.\<close>

definition shift_head_major :: "nat list \<Rightarrow> nat \<Rightarrow> nat \<Rightarrow> nat \<Rightarrow> 'u kvcache \<Rightarrow> 'u kvcache kv_result" where
  "shift_head_major hs src_pos dst_pos count c =
     (if is_opaque c
      then and_then (opaque_bytes_per_head c) (\<lambda>bph.
        shift_heads hs (capacity c * bph) bph src_pos dst_pos count c)
      else if is_q4 c
      then shift_heads hs (capacity c * head_dim c div QK4_0) (head_dim c div QK4_0) src_pos dst_pos count c
      else shift_heads hs (capacity c * head_dim c) (head_dim c) src_pos dst_pos count c)"

definition shift_seq_major :: "nat \<Rightarrow> nat \<Rightarrow> nat \<Rightarrow> 'u kvcache \<Rightarrow> 'u kvcache kv_result" where
  "shift_seq_major src_pos dst_pos count c =
     (let width = (if is_q4 c then kv_heads c * head_dim c div QK4_0 else kv_heads c * head_dim c) in
      both (\<lambda>b. buffer_shift b (src_pos * width) (dst_pos * width) (count * width)) c)"

definition shift_positions :: "nat \<Rightarrow> nat \<Rightarrow> nat \<Rightarrow> 'u kvcache \<Rightarrow> 'u kvcache kv_result" where
  "shift_positions src_pos dst_pos count c =
     (if count = 0 \<or> src_pos = dst_pos then Ok c
      else case layout c of
        SeqMajor \<Rightarrow> if is_opaque c then Err (OpaqueSeqMajor ''shift_positions'')
                   else shift_seq_major src_pos dst_pos count c
      | HeadMajor \<Rightarrow> shift_head_major [0..<kv_heads c] src_pos dst_pos count c)"

definition shift_positions_for_head :: "nat \<Rightarrow> nat \<Rightarrow> nat \<Rightarrow> nat \<Rightarrow> 'u kvcache \<Rightarrow> 'u kvcache kv_result" where
  "shift_positions_for_head h src_pos dst_pos count c =
     and_then (assert_that (layout c = HeadMajor)) (\<lambda>_.
     if count = 0 \<or> src_pos = dst_pos then Ok c
     else shift_head_major [h] src_pos dst_pos count c)"

definition prune_prefix :: "'u kv_os \<Rightarrow> nat \<Rightarrow> 'u kvcache \<Rightarrow> 'u kvcache kv_result" where
  "prune_prefix os count c =
     (if count = 0 then Ok c
      else if count > current_pos c then Err (CannotPrune count (current_pos c))
      else
        let remaining = current_pos c - count in
        if remaining = 0
        then Ok (c\<lparr>current_pos := 0, high_water_pos := 0, head_starts_raw := []\<rparr>)
        else
          let c = (if is_ragged c
                   then set_head_starts (map (\<lambda>s. s - count) (head_starts c)) c else c) in
          and_then (case layout c of
              SeqMajor \<Rightarrow> if is_opaque c then Err (OpaqueSeqMajor ''prune_prefix'')
                         else shift_seq_major count 0 remaining c
            | HeadMajor \<Rightarrow> shift_head_major [0..<kv_heads c] count 0 remaining c) (\<lambda>c.
          and_then (release_unused_pages os (c\<lparr>current_pos := remaining\<rparr>)) (\<lambda>(_, c). Ok c)))"

definition memory_usage_bytes :: "'u kvcache \<Rightarrow> nat" where
  "memory_usage_bytes c =
     (case opaque c of
        Some d \<Rightarrow> (case bytes_for_elems d (current_pos c * kv_heads c * head_dim c) of
                    Some n \<Rightarrow> n | None \<Rightarrow> 0) * 2
      | None \<Rightarrow>
        (if is_q4 c
         then current_pos c * (kv_heads c * head_dim c div QK4_0) * size_of_BlockQ4_0
         else resident_positions c * head_dim c * DType_size (kv_dtype c)) * 2)"

section \<open>Compaction\<close>

text \<open>
  The batching loop of \<open>compact_keep_positions\<close>: the open batch and the write position. The move it
  calls is an argument, \<open>self.shift_positions\<close> in the source.
\<close>

type_synonym 's mover = "nat \<Rightarrow> nat \<Rightarrow> nat \<Rightarrow> 's \<Rightarrow> 's kv_result"

fun compact_loop :: "'s mover \<Rightarrow> nat \<Rightarrow> nat \<Rightarrow> nat \<Rightarrow> nat \<Rightarrow> nat list \<Rightarrow> 's \<Rightarrow> 's kv_result" where
  "compact_loop move src dst n write_pos [] c =
     (if src \<noteq> dst then move src dst n c else Ok c)"
| "compact_loop move src dst n write_pos (p # ps) c =
     (if p = src + n then compact_loop move src dst (n + 1) (write_pos + 1) ps c
      else
        and_then (if src \<noteq> dst then move src dst n c else Ok c) (\<lambda>c.
        compact_loop move p write_pos 1 (write_pos + 1) ps c))"

definition compact_with :: "'s mover \<Rightarrow> nat list \<Rightarrow> nat \<Rightarrow> 's \<Rightarrow> 's kv_result" where
  "compact_with move keep write_start c = (case keep of
     [] \<Rightarrow> Ok c
   | p # ps \<Rightarrow> compact_loop move p write_start 1 (write_start + 1) ps c)"

definition compact_keep_positions :: "nat list \<Rightarrow> nat \<Rightarrow> 'u kvcache \<Rightarrow> 'u kvcache kv_result" where
  "compact_keep_positions = compact_with shift_positions"

text \<open>Runs of consecutive positions, as \<open>(src, dst, count)\<close>.\<close>

fun runs_loop :: "nat \<Rightarrow> nat \<Rightarrow> nat \<Rightarrow> nat \<Rightarrow> nat \<Rightarrow> nat list \<Rightarrow> (nat \<times> nat \<times> nat) list" where
  "runs_loop write_start src0 dst0 n i [] = [(src0, dst0, n)]"
| "runs_loop write_start src0 dst0 n i (p # ps) =
     (if p = src0 + n then runs_loop write_start src0 dst0 (n + 1) (i + 1) ps
      else (src0, dst0, n) # runs_loop write_start p (write_start + i) 1 (i + 1) ps)"

definition keep_runs :: "nat list \<Rightarrow> nat \<Rightarrow> (nat \<times> nat \<times> nat) list" where
  "keep_runs keep write_start = (case keep of [] \<Rightarrow> []
     | p # ps \<Rightarrow> runs_loop write_start p write_start 1 1 ps)"

text \<open>The up-movers, flushed last to first, then the rest, first to last.\<close>

definition compact_runs_with :: "'s mover \<Rightarrow> nat list \<Rightarrow> nat \<Rightarrow> 's \<Rightarrow> 's kv_result" where
  "compact_runs_with move keep write_start c =
     (if keep = [] then Ok c
      else
        let runs = keep_runs keep write_start;
            ups = takeWhile (\<lambda>(src, dst, n). \<not> dst \<le> src) runs;
            rest = dropWhile (\<lambda>(src, dst, n). \<not> dst \<le> src) runs in
        and_then (try_fold (\<lambda>(src, dst, n). move src dst n) (rev ups) c) (\<lambda>c.
        try_fold (\<lambda>(src, dst, n) c. if src \<noteq> dst then move src dst n c else Ok c) rest c))"

definition compact_keep_positions_for_head ::
    "nat \<Rightarrow> nat list \<Rightarrow> nat \<Rightarrow> 'u kvcache \<Rightarrow> 'u kvcache kv_result" where
  "compact_keep_positions_for_head h = compact_runs_with (shift_positions_for_head h)"

definition max_cache_pos :: "'u kvcache list \<Rightarrow> nat" where
  "max_cache_pos cs = foldr (\<lambda>c m. max (current_pos c) m) cs 0"

end
