(* ===== verification/Kv_Rows.thy ===== *)
theory Kv_Rows
  imports Kv_Cache
begin

text \<open>
  The KV cache as a table of rows. A buffer of \<open>N\<close> rows of \<open>w\<close> units is read row by row; block copies
  of whole rows rearrange rows and nothing else. On top of this, the \<^emph>\<open>cell\<close> of a head and a position is
  its K row and its V row, and the move operations of the cache are described by what they do to cells.
\<close>

section \<open>Rows of a buffer\<close>

definition rowat :: "'u list \<Rightarrow> nat \<Rightarrow> nat \<Rightarrow> 'u list" where
  "rowat b w i = field b (i * w) w"

lemma field_field: "j + m \<le> n \<Longrightarrow> field (field b s n) j m = field b (s + j) m"
  by (simp add: drop_take add.commute min_def)

lemma field_overwrite_in:
  assumes "off + length src \<le> length b" and "off \<le> a" and "a + n \<le> off + length src"
  shows "field (take off b @ src @ drop (off + length src) b) a n = field src (a - off) n"
proof -
  have "length (take off b) = off" using assms(1) by simp
  then have "drop a (take off b @ src @ drop (off + length src) b)
      = drop (a - off) src @ drop (off + length src) b"
    using assms by simp
  moreover have "n \<le> length (drop (a - off) src)" using assms by simp
  ultimately show ?thesis by simp
qed

lemma rowat_field: "j < n \<Longrightarrow> rowat (field b (s * w) (n * w)) w j = rowat b w (s + j)"
proof -
  assume "j < n"
  then have "j * w + w \<le> n * w" using mult_le_mono1[of "Suc j" n w] by simp
  then show ?thesis by (simp only: rowat_def field_field add_mult_distrib)
qed

lemma rowat_overwrite:
  assumes b: "length b = N * w" and src: "length src = n * w" and d: "d + n \<le> N" and i: "i < N"
  shows "rowat (take (d * w) b @ src @ drop (d * w + n * w) b) w i
    = (if d \<le> i \<and> i < d + n then rowat src w (i - d) else rowat b w i)"
proof -
  have fits: "d * w + length src \<le> length b"
    using mult_le_mono1[OF d, of w] by (simp add: b src add_mult_distrib)
  have iw: "i * w + w \<le> length b" using mult_le_mono1[of "Suc i" N w] i by (simp add: b)
  show ?thesis
  proof (cases "d \<le> i \<and> i < d + n")
    case True
    then have "d * w \<le> i * w" "i * w + w \<le> d * w + length src"
      using mult_le_mono1[of d i w] mult_le_mono1[of "Suc i" "d + n" w]
      by (simp_all add: src add_mult_distrib)
    from field_overwrite_in[OF fits this] True show ?thesis
      by (simp only: rowat_def src diff_mult_distrib if_True simp_thms)
  next
    case False
    then have "i * w + w \<le> d * w \<or> d * w + length src \<le> i * w"
      using mult_le_mono1[of "Suc i" d w] mult_le_mono1[of "d + n" i w]
      by (auto simp: src add_mult_distrib not_le not_less)
    from field_overwrite_other[OF fits iw this] False show ?thesis
      by (simp only: rowat_def src if_False simp_thms)
  qed
qed

lemma rows_fit: "length b = N * w \<Longrightarrow> s + n \<le> N \<Longrightarrow> s * w + n * w \<le> length b"
  using mult_le_mono1[of "s + n" N w] by (simp add: add_mult_distrib)

lemma buffer_shift_rows:
  assumes b: "length b = N * w" and s: "s + n \<le> N" and d: "d + n \<le> N"
  shows "\<exists>b'. buffer_shift b (s * w) (d * w) (n * w) = Ok b' \<and> length b' = length b
    \<and> (\<forall>i < N. rowat b' w i = (if d \<le> i \<and> i < d + n then rowat b w (s + (i - d)) else rowat b w i))"
proof -
  have src: "length (field b (s * w) (n * w)) = n * w" using rows_fit[OF b s] by simp
  have "buffer_shift b (s * w) (d * w) (n * w) = Ok (memmove b (s * w) (d * w) (n * w))"
    using rows_fit[OF b s] rows_fit[OF b d] by (simp add: buffer_shift_def)
  moreover have "length (memmove b (s * w) (d * w) (n * w)) = length b"
    using rows_fit[OF b s] rows_fit[OF b d] by simp
  moreover have "rowat (memmove b (s * w) (d * w) (n * w)) w i
      = (if d \<le> i \<and> i < d + n then rowat b w (s + (i - d)) else rowat b w i)" if "i < N" for i
    using rowat_overwrite[OF b src d that] rowat_field[of "i - d" n w s b]
    by (auto simp: memmove_def)
  ultimately show ?thesis by blast
qed

lemma copy_slice_rows:
  assumes a: "length src = M * w" and b: "length dst = N * w" and s: "s + n \<le> M" and d: "d + n \<le> N"
  shows "\<exists>b'. copy_slice src dst (s * w) (d * w) (n * w) = Ok b' \<and> length b' = length dst
    \<and> (\<forall>i < N. rowat b' w i = (if d \<le> i \<and> i < d + n then rowat src w (s + (i - d)) else rowat dst w i))"
proof -
  have f: "length (field src (s * w) (n * w)) = n * w" using rows_fit[OF a s] by simp
  define b' where "b' = take (d * w) dst @ field src (s * w) (n * w) @ drop (d * w + n * w) dst"
  have "copy_slice src dst (s * w) (d * w) (n * w) = Ok b'"
    using rows_fit[OF a s] rows_fit[OF b d] by (simp add: copy_slice_def b'_def)
  moreover have "length b' = length dst" using rows_fit[OF b d] f by (simp add: b'_def)
  moreover have "rowat b' w i = (if d \<le> i \<and> i < d + n then rowat src w (s + (i - d)) else rowat dst w i)"
    if "i < N" for i
    using rowat_overwrite[OF b f d that] rowat_field[of "i - d" n w s src] by (auto simp: b'_def)
  ultimately show ?thesis by blast
qed

section \<open>Well-formed caches\<close>

text \<open>Units per position and head.\<close>

definition row :: "'u kvcache \<Rightarrow> nat" where
  "row c = (case opaque c of
     Some d \<Rightarrow> (case block_bytes d of Some bb \<Rightarrow> head_dim c div block_elems d * bb | None \<Rightarrow> 0)
   | None \<Rightarrow> if is_q4 c then head_dim c div QK4_0 else head_dim c)"

text \<open>The index of the row of a position and a head.\<close>

definition row_ix :: "'u kvcache \<Rightarrow> nat \<Rightarrow> nat \<Rightarrow> nat" where
  "row_ix c h p = (case layout c of SeqMajor \<Rightarrow> p * kv_heads c + h | HeadMajor \<Rightarrow> h * capacity c + p)"

definition cell :: "'u kvcache \<Rightarrow> nat \<Rightarrow> nat \<Rightarrow> 'u list \<times> 'u list" where
  "cell c h p = (rowat (k_buffer c) (row c) (row_ix c h p), rowat (v_buffer c) (row c) (row_ix c h p))"

text \<open>The storage formats the cache is built with: F32, F16, Q4_0 or a head-major block format.\<close>

definition format_ok :: "'u kvcache \<Rightarrow> bool" where
  "format_ok c \<longleftrightarrow> (case opaque c of
     Some d \<Rightarrow> block_bytes d \<noteq> None \<and> block_elems d > 0 \<and> head_dim c mod block_elems d = 0
       \<and> layout c = HeadMajor \<and> kv_dtype c = D_U8
   | None \<Rightarrow> kv_dtype c \<in> {D_F32, D_F16} \<or> kv_dtype c = D_Q4_0 \<and> head_dim c mod QK4_0 = 0)"

text \<open>The allocator returns a buffer of the requested size.\<close>

definition alloc_law :: "'u allocator \<Rightarrow> bool" where
  "alloc_law m \<longleftrightarrow> (\<forall>n dt b. m n dt = Some b \<longrightarrow> length b = n div type_size dt)"

definition bufs_ok :: "'u kvcache \<Rightarrow> bool" where
  "bufs_ok c \<longleftrightarrow> length (k_buffer c) = kv_heads c * capacity c * row c
     \<and> length (v_buffer c) = kv_heads c * capacity c * row c"

definition kv_wf :: "'u kvcache \<Rightarrow> bool" where
  "kv_wf c \<longleftrightarrow> format_ok c \<and> bufs_ok c
     \<and> current_pos c \<le> high_water_pos c \<and> high_water_pos c \<le> capacity c \<and> capacity c \<le> max_seq_len c
     \<and> (head_starts_raw c = [] \<or>
        length (head_starts_raw c) = kv_heads c \<and> list_all (\<lambda>s. s \<le> current_pos c) (head_starts_raw c))
     \<and> (case memory c of None \<Rightarrow> True | Some m \<Rightarrow> alloc_law m)"

text \<open>Two caches that differ in buffer contents only.\<close>

definition same_geom :: "'u kvcache \<Rightarrow> 'u kvcache \<Rightarrow> bool" where
  "same_geom c c' \<longleftrightarrow> c' = c\<lparr>k_buffer := k_buffer c', v_buffer := v_buffer c'\<rparr>
     \<and> length (k_buffer c') = length (k_buffer c) \<and> length (v_buffer c') = length (v_buffer c)"

lemma same_geom_refl [simp]: "same_geom c c"
  by (simp add: same_geom_def)

lemma same_geomE:
  assumes "same_geom c c'"
  obtains k v where "c' = c\<lparr>k_buffer := k, v_buffer := v\<rparr>" "length k = length (k_buffer c)"
    "length v = length (v_buffer c)"
  using assms unfolding same_geom_def by blast

lemma same_geomI:
  "length k = length (k_buffer c) \<Longrightarrow> length v = length (v_buffer c) \<Longrightarrow>
     same_geom c (c\<lparr>k_buffer := k, v_buffer := v\<rparr>)"
  by (simp add: same_geom_def)

lemma same_geom_trans: "same_geom a b \<Longrightarrow> same_geom b c \<Longrightarrow> same_geom a c"
  by (elim same_geomE) (simp add: same_geom_def)

text \<open>The derived geometry does not read the buffers.\<close>

lemma bufs_upd [simp]:
  "row (c\<lparr>k_buffer := k, v_buffer := v\<rparr>) = row c"
  "row_ix (c\<lparr>k_buffer := k, v_buffer := v\<rparr>) = row_ix c"
  "is_opaque (c\<lparr>k_buffer := k, v_buffer := v\<rparr>) = is_opaque c"
  "is_q4 (c\<lparr>k_buffer := k, v_buffer := v\<rparr>) = is_q4 c"
  "head_start (c\<lparr>k_buffer := k, v_buffer := v\<rparr>) = head_start c"
  "opaque_bytes_per_head (c\<lparr>k_buffer := k, v_buffer := v\<rparr>) = opaque_bytes_per_head c"
  "format_ok (c\<lparr>k_buffer := k, v_buffer := v\<rparr>) = format_ok c"
  by (auto simp: row_def row_ix_def is_opaque_def is_q4_def head_start_def opaque_bytes_per_head_def
      opaque_desc_def format_ok_def fun_eq_iff split: option.splits kv_layout.splits)

lemma same_geom_fields:
  assumes "same_geom c c'"
  shows "kv_dtype c' = kv_dtype c" "opaque c' = opaque c" "host_managed c' = host_managed c"
    "current_pos c' = current_pos c" "high_water_pos c' = high_water_pos c" "max_seq_len c' = max_seq_len c"
    "capacity c' = capacity c" "kv_heads c' = kv_heads c" "head_dim c' = head_dim c" "layout c' = layout c"
    "head_starts_raw c' = head_starts_raw c" "head_start_dirty c' = head_start_dirty c" "memory c' = memory c"
    "row c' = row c" "row_ix c' = row_ix c" "is_opaque c' = is_opaque c" "is_q4 c' = is_q4 c"
    "head_start c' = head_start c" "opaque_bytes_per_head c' = opaque_bytes_per_head c"
  using assms by (elim same_geomE; simp)+

lemma same_geom_wf: "same_geom c c' \<Longrightarrow> kv_wf c' \<longleftrightarrow> kv_wf c"
  by (elim same_geomE) (simp add: kv_wf_def bufs_ok_def)

lemma row_opaque:
  assumes "format_ok c" "is_opaque c"
  shows "opaque_bytes_per_head c = Ok (row c)"
  using assms by (auto simp: format_ok_def is_opaque_def opaque_bytes_per_head_def opaque_desc_def row_def)

lemma row_q4:
  assumes "format_ok c" "\<not> is_opaque c" "is_q4 c"
  shows "row c = head_dim c div QK4_0" "k * head_dim c div QK4_0 = k * row c"
proof -
  from assms have d: "QK4_0 dvd head_dim c" by (auto simp: format_ok_def is_opaque_def is_q4_def)
  show r: "row c = head_dim c div QK4_0" using assms by (simp add: row_def is_opaque_def)
  show "k * head_dim c div QK4_0 = k * row c" unfolding r using d by (simp add: div_mult_swap)
qed

lemma row_elem: "\<not> is_opaque c \<Longrightarrow> \<not> is_q4 c \<Longrightarrow> row c = head_dim c"
  by (simp add: row_def is_opaque_def)

lemma row_ix_less:
  assumes "h < kv_heads c" "p < capacity c"
  shows "row_ix c h p < kv_heads c * capacity c"
proof (cases "layout c")
  case SeqMajor
  have "p * kv_heads c + h < Suc p * kv_heads c" using assms(1) by simp
  also have "\<dots> \<le> capacity c * kv_heads c" using assms(2) by (intro mult_le_mono1) simp
  finally show ?thesis using SeqMajor by (simp add: row_ix_def mult.commute)
next
  case HeadMajor
  have "h * capacity c + p < Suc h * capacity c" using assms(2) by simp
  also have "\<dots> \<le> kv_heads c * capacity c" using assms(1) by (intro mult_le_mono1) simp
  finally show ?thesis using HeadMajor by (simp add: row_ix_def)
qed

section \<open>Moves\<close>

text \<open>Positions \<open>s ..< s + n\<close> of the heads in \<open>hs\<close> are copied to \<open>d ..< d + n\<close>; nothing else changes.\<close>

definition cells_moved :: "nat set \<Rightarrow> nat \<Rightarrow> nat \<Rightarrow> nat \<Rightarrow> 'u kvcache \<Rightarrow> 'u kvcache \<Rightarrow> bool" where
  "cells_moved hs s d n c c' \<longleftrightarrow> same_geom c c'
     \<and> (\<forall>h < kv_heads c. \<forall>p < capacity c. cell c' h p =
          (if h \<in> hs \<and> d \<le> p \<and> p < d + n then cell c h (s + (p - d)) else cell c h p))"

lemma both_shift_rows:
  assumes b: "bufs_ok c" and N: "N = kv_heads c * capacity c" and s: "s + n \<le> N" and d: "d + n \<le> N"
    and w: "w = row c"
  shows "\<exists>c'. both (\<lambda>b. buffer_shift b (s * w) (d * w) (n * w)) c = Ok c' \<and> same_geom c c'
    \<and> (\<forall>i < N. (rowat (k_buffer c') w i, rowat (v_buffer c') w i) =
         (if d \<le> i \<and> i < d + n
          then (rowat (k_buffer c) w (s + (i - d)), rowat (v_buffer c) w (s + (i - d)))
          else (rowat (k_buffer c) w i, rowat (v_buffer c) w i)))"
proof -
  have k: "length (k_buffer c) = N * w" and v: "length (v_buffer c) = N * w"
    using b by (simp_all add: bufs_ok_def N w)
  from buffer_shift_rows[OF k s d] obtain k' where k': "buffer_shift (k_buffer c) (s * w) (d * w) (n * w) = Ok k'"
    "length k' = length (k_buffer c)"
    "\<forall>i < N. rowat k' w i = (if d \<le> i \<and> i < d + n then rowat (k_buffer c) w (s + (i - d)) else rowat (k_buffer c) w i)"
    by blast
  from buffer_shift_rows[OF v s d] obtain v' where v': "buffer_shift (v_buffer c) (s * w) (d * w) (n * w) = Ok v'"
    "length v' = length (v_buffer c)"
    "\<forall>i < N. rowat v' w i = (if d \<le> i \<and> i < d + n then rowat (v_buffer c) w (s + (i - d)) else rowat (v_buffer c) w i)"
    by blast
  show ?thesis
    by (rule exI[of _ "c\<lparr>k_buffer := k', v_buffer := v'\<rparr>"])
      (use k' v' in \<open>simp add: both_def same_geomI\<close>)
qed

text \<open>In head-major layout the rows of a head are one block.\<close>

lemma head_block:
  assumes "h < (H :: nat)" "p < C" "h' < H" "a + n \<le> C"
  shows "h' * C + a \<le> h * C + p \<and> h * C + p < h' * C + a + n \<longleftrightarrow> h = h' \<and> a \<le> p \<and> p < a + n"
proof (cases "h = h'")
  case False
  then consider "h < h'" | "h' < h" by linarith
  then show ?thesis
  proof cases
    case 1
    then have "h * C + C \<le> h' * C" using mult_le_mono1[of "Suc h" h' C] by simp
    with assms show ?thesis using False by auto
  next
    case 2
    then have "h' * C + C \<le> h * C" using mult_le_mono1[of "Suc h'" h C] by simp
    with assms show ?thesis using False by auto
  qed
qed auto

lemma shift_one_head:
  assumes wf: "bufs_ok c" and l: "layout c = HeadMajor" and h: "h < kv_heads c" and w: "w = row c"
    and s: "s + n \<le> capacity c" and d: "d + n \<le> capacity c"
  shows "\<exists>c'. both (\<lambda>b. buffer_shift b (h * (capacity c * w) + s * w) (h * (capacity c * w) + d * w) (n * w)) c
      = Ok c' \<and> cells_moved {h} s d n c c'"
proof -
  let ?C = "capacity c" and ?H = "kv_heads c"
  have blk: "h * ?C + ?C \<le> ?H * ?C" using mult_le_mono1[of "Suc h" ?H ?C] h by simp
  have off: "h * (?C * w) + a * w = (h * ?C + a) * w" for a by (simp add: add_mult_distrib)
  from both_shift_rows[OF wf refl, of "h * ?C + s" n "h * ?C + d" w] s d blk w obtain c' where
    c': "both (\<lambda>b. buffer_shift b ((h * ?C + s) * w) ((h * ?C + d) * w) (n * w)) c = Ok c'" "same_geom c c'"
    "\<forall>i < ?H * ?C. (rowat (k_buffer c') w i, rowat (v_buffer c') w i) =
         (if h * ?C + d \<le> i \<and> i < h * ?C + d + n
          then (rowat (k_buffer c) w (h * ?C + s + (i - (h * ?C + d))),
                rowat (v_buffer c) w (h * ?C + s + (i - (h * ?C + d))))
          else (rowat (k_buffer c) w i, rowat (v_buffer c) w i))"
    by auto
  have "cell c' h' p = (if h' \<in> {h} \<and> d \<le> p \<and> p < d + n then cell c h' (s + (p - d)) else cell c h' p)"
    if "h' < ?H" "p < ?C" for h' p
  proof -
    have i: "h' * ?C + p < ?H * ?C" using row_ix_less[OF that] l by (simp add: row_ix_def)
    have r: "row_ix c x y = x * ?C + y" for x y using l by (simp add: row_ix_def)
    have "cell c' h' p = (rowat (k_buffer c') w (h' * ?C + p), rowat (v_buffer c') w (h' * ?C + p))"
      by (simp add: cell_def same_geom_fields[OF c'(2)] r w)
    also have "\<dots> = (if h' = h \<and> d \<le> p \<and> p < d + n
          then (rowat (k_buffer c) w (h * ?C + s + (h' * ?C + p - (h * ?C + d))),
                rowat (v_buffer c) w (h * ?C + s + (h' * ?C + p - (h * ?C + d))))
          else (rowat (k_buffer c) w (h' * ?C + p), rowat (v_buffer c) w (h' * ?C + p)))"
      using c'(3)[rule_format, OF i] unfolding head_block[OF that h d] .
    also have "\<dots> = (if h' \<in> {h} \<and> d \<le> p \<and> p < d + n then cell c h' (s + (p - d)) else cell c h' p)"
      by (auto simp: cell_def r w add.assoc)
    finally show ?thesis .
  qed
  with c'(1,2) show ?thesis by (auto simp: off cells_moved_def)
qed

lemma cells_moved_geom: "cells_moved hs s d n c c' \<Longrightarrow> same_geom c c'"
  by (simp add: cells_moved_def)

lemma shift_heads_moves:
  assumes "bufs_ok c" "layout c = HeadMajor" "distinct hs" "\<forall>h \<in> set hs. h < kv_heads c" "w = row c"
    "s + n \<le> capacity c" "d + n \<le> capacity c"
  shows "\<exists>c'. shift_heads hs (capacity c * w) w s d n c = Ok c' \<and> cells_moved (set hs) s d n c c'"
  using assms
proof (induction hs arbitrary: c)
  case Nil
  then show ?case by (simp add: shift_heads_def cells_moved_def)
next
  case (Cons h hs)
  have h: "h < kv_heads c" using Cons.prems(4) by simp
  from shift_one_head[OF Cons.prems(1,2) h Cons.prems(5-7)] obtain c1 where
    c1: "both (\<lambda>b. buffer_shift b (h * (capacity c * w) + s * w) (h * (capacity c * w) + d * w) (n * w)) c = Ok c1"
      "cells_moved {h} s d n c c1" by blast
  note g = cells_moved_geom[OF c1(2)]
  note f = same_geom_fields[OF g]
  have "bufs_ok c1" using Cons.prems(1) g f unfolding bufs_ok_def by (simp add: same_geom_def)
  from Cons.IH[OF this] Cons.prems f obtain c2 where
    c2: "shift_heads hs (capacity c * w) w s d n c1 = Ok c2" "cells_moved (set hs) s d n c1 c2"
    by auto
  have "shift_heads (h # hs) (capacity c * w) w s d n c = Ok c2"
    using c1(1) c2(1) by (simp add: shift_heads_def)
  moreover have "cells_moved (set (h # hs)) s d n c c2"
    unfolding cells_moved_def
  proof (intro conjI allI impI)
    show "same_geom c c2" by (rule same_geom_trans[OF g cells_moved_geom[OF c2(2)]])
    fix h' p assume hp: "h' < kv_heads c" "p < capacity c"
    have 1: "cell c2 h' p = (if h' \<in> set hs \<and> d \<le> p \<and> p < d + n then cell c1 h' (s + (p - d)) else cell c1 h' p)"
      using c2(2) hp f by (simp add: cells_moved_def)
    have 2: "cell c1 h' q = (if h' = h \<and> d \<le> q \<and> q < d + n then cell c h' (s + (q - d)) else cell c h' q)"
      if "q < capacity c" for q
      using c1(2) hp that by (simp add: cells_moved_def)
    have "h \<notin> set hs" using Cons.prems(3) by simp
    moreover have "d \<le> p \<Longrightarrow> p < d + n \<Longrightarrow> s + (p - d) < capacity c" using Cons.prems(6) by linarith
    ultimately show "cell c2 h' p =
        (if h' \<in> set (h # hs) \<and> d \<le> p \<and> p < d + n then cell c h' (s + (p - d)) else cell c h' p)"
      unfolding 1 using 2 hp by auto
  qed
  ultimately show ?case by blast
qed

lemma shift_head_major_moves:
  assumes "format_ok c" "bufs_ok c" "layout c = HeadMajor" "distinct hs" "\<forall>h \<in> set hs. h < kv_heads c"
    "s + n \<le> capacity c" "d + n \<le> capacity c"
  shows "\<exists>c'. shift_head_major hs s d n c = Ok c' \<and> cells_moved (set hs) s d n c c'"
  using shift_heads_moves[OF assms(2-5) refl assms(6,7)] row_opaque[OF assms(1)]
    row_q4(1)[OF assms(1)] row_q4(2)[OF assms(1), of "capacity c"] row_elem[of c]
  by (cases "is_opaque c"; cases "is_q4 c") (simp_all add: shift_head_major_def)

text \<open>In sequence-major layout a position is a block of one row per head.\<close>

lemma seq_block:
  assumes "h < (H :: nat)"
  shows "a * H \<le> p * H + h \<and> p * H + h < (a + n) * H \<longleftrightarrow> a \<le> p \<and> p < a + n"
proof
  assume r: "a * H \<le> p * H + h \<and> p * H + h < (a + n) * H"
  with assms have "a * H < Suc p * H" by simp
  moreover from r have "p * H < (a + n) * H" by (rule_tac le_less_trans[of _ "p * H + h"]) simp_all
  ultimately have "a < Suc p" "p < a + n" by (simp_all only: mult_less_cancel2)
  then show "a \<le> p \<and> p < a + n" by simp
next
  assume "a \<le> p \<and> p < a + n"
  then have "a * H \<le> p * H" "Suc p * H \<le> (a + n) * H"
    using mult_le_mono1[of a p H] mult_le_mono1[of "Suc p" "a + n" H] by linarith+
  moreover have "p * H + h < Suc p * H" using assms by simp
  ultimately show "a * H \<le> p * H + h \<and> p * H + h < (a + n) * H"
    by (meson le_add1 le_trans less_le_trans)
qed

lemma shift_seq_major_moves:
  assumes wf: "format_ok c" "bufs_ok c" and l: "layout c = SeqMajor" and o: "\<not> is_opaque c"
    and s: "s + n \<le> capacity c" and d: "d + n \<le> capacity c"
  shows "\<exists>c'. shift_seq_major s d n c = Ok c' \<and> cells_moved {..<kv_heads c} s d n c c'"
proof -
  let ?C = "capacity c" and ?H = "kv_heads c"
  define w where "w = row c"
  have width: "(if is_q4 c then ?H * head_dim c div QK4_0 else ?H * head_dim c) = ?H * w"
    using row_q4(2)[OF wf(1) o, of ?H] row_elem[OF o] by (auto simp: w_def)
  have le: "a * ?H + n * ?H \<le> ?H * ?C" if "a + n \<le> ?C" for a
    using mult_le_mono1[OF that, of ?H] by (simp only: add_mult_distrib mult.commute[of ?H ?C])
  from both_shift_rows[OF wf(2) refl le[OF s] le[OF d] w_def] obtain c' where
    c': "both (\<lambda>b. buffer_shift b (s * ?H * w) (d * ?H * w) (n * ?H * w)) c = Ok c'" "same_geom c c'"
    "\<forall>i < ?H * ?C. (rowat (k_buffer c') w i, rowat (v_buffer c') w i) =
         (if d * ?H \<le> i \<and> i < d * ?H + n * ?H
          then (rowat (k_buffer c) w (s * ?H + (i - d * ?H)), rowat (v_buffer c) w (s * ?H + (i - d * ?H)))
          else (rowat (k_buffer c) w i, rowat (v_buffer c) w i))" by blast
  have "cell c' h p = (if h \<in> {..<?H} \<and> d \<le> p \<and> p < d + n then cell c h (s + (p - d)) else cell c h p)"
    if "h < ?H" "p < ?C" for h p
  proof -
    have i: "p * ?H + h < ?H * ?C" using row_ix_less[OF that] l by (simp add: row_ix_def)
    have r: "row_ix c x y = y * ?H + x" for x y using l by (simp add: row_ix_def)
    have "cell c' h p = (rowat (k_buffer c') w (p * ?H + h), rowat (v_buffer c') w (p * ?H + h))"
      by (simp add: cell_def same_geom_fields[OF c'(2)] r w_def)
    also have "\<dots> = (if d \<le> p \<and> p < d + n
          then (rowat (k_buffer c) w (s * ?H + (p * ?H + h - d * ?H)),
                rowat (v_buffer c) w (s * ?H + (p * ?H + h - d * ?H)))
          else (rowat (k_buffer c) w (p * ?H + h), rowat (v_buffer c) w (p * ?H + h)))"
      using c'(3)[rule_format, OF i] unfolding seq_block[OF that(1)] add_mult_distrib[symmetric] .
    also have "\<dots> = (if d \<le> p \<and> p < d + n then cell c h (s + (p - d)) else cell c h p)"
    proof -
      have "s * ?H + (p * ?H + h - d * ?H) = (s + (p - d)) * ?H + h" if "d \<le> p"
      proof -
        from that obtain j where "p = d + j" by (metis le_Suc_ex)
        then show ?thesis by (simp add: add_mult_distrib)
      qed
      then show ?thesis by (auto simp: cell_def r w_def)
    qed
    finally show ?thesis using that(1) by simp
  qed
  then have "cells_moved {..<?H} s d n c c'" using c'(2) by (simp add: cells_moved_def)
  moreover have "shift_seq_major s d n c = Ok c'"
    unfolding shift_seq_major_def width Let_def using c'(1) by (simp add: mult.assoc)
  ultimately show ?thesis by blast
qed

text \<open>The layer-wide and the per-head move, with their guards.\<close>

lemma cells_moved_id:
  "n = 0 \<or> s = d \<Longrightarrow> cells_moved hs s d n c c"
  by (auto simp: cells_moved_def)

lemma shift_positions_moves:
  assumes "format_ok c" "bufs_ok c" "s + n \<le> capacity c" "d + n \<le> capacity c"
  shows "\<exists>c'. shift_positions s d n c = Ok c' \<and> cells_moved {..<kv_heads c} s d n c c'"
proof (cases "n = 0 \<or> s = d")
  case True
  with cells_moved_id[of n s d "{..<kv_heads c}" c] show ?thesis by (auto simp: shift_positions_def)
next
  case False
  show ?thesis
  proof (cases "layout c")
    case SeqMajor
    then have "\<not> is_opaque c" using assms(1) by (auto simp: format_ok_def is_opaque_def split: option.splits)
    from shift_seq_major_moves[OF assms(1,2) SeqMajor this assms(3,4)] this SeqMajor False show ?thesis
      by (auto simp: shift_positions_def)
  next
    case HeadMajor
    have "set [0..<kv_heads c] = {..<kv_heads c}" by auto
    with shift_head_major_moves[OF assms(1,2) HeadMajor _ _ assms(3,4), of "[0..<kv_heads c]"] HeadMajor False
    show ?thesis by (auto simp: shift_positions_def)
  qed
qed

lemma shift_positions_for_head_moves:
  assumes "format_ok c" "bufs_ok c" "layout c = HeadMajor" "h < kv_heads c" "s + n \<le> capacity c" "d + n \<le> capacity c"
  shows "\<exists>c'. shift_positions_for_head h s d n c = Ok c' \<and> cells_moved {h} s d n c c'"
  using shift_head_major_moves[OF assms(1-3) _ _ assms(5,6), of "[h]"] cells_moved_id[of n s d "{h}" c] assms(3,4)
  by (auto simp: shift_positions_for_head_def)

end
