(* ===== verification/Kv_Compact.thy ===== *)
theory Kv_Compact
  imports Kv_Rows
begin

text \<open>
  Compaction, against the interface of a store of positions: a move of \<open>n\<close> consecutive positions, like
  \<open>memmove\<close>, and a view of what every head holds at every position. The two compaction routines of the
  cache are verified once against it, and the interpretations provide the layer-wide move
  (\<open>shift_positions\<close>) and the per-head move (\<open>shift_positions_for_head\<close>).
\<close>

section \<open>Runs of a keep list\<close>

type_synonym run = "nat \<times> nat \<times> nat"

text \<open>Successive runs: sources and destinations ascend, and the distance moved up does not grow.\<close>

fun run_before :: "run \<Rightarrow> run \<Rightarrow> bool" where
  "run_before (s, d, n) (s', d', n') \<longleftrightarrow> s + n \<le> s' \<and> d + n \<le> d' \<and> s + d' \<le> s' + d"

text \<open>A run carries position \<open>p\<close> to position \<open>q\<close>.\<close>

fun carries :: "run \<Rightarrow> nat \<Rightarrow> nat \<Rightarrow> bool" where
  "carries (s, d, n) p q \<longleftrightarrow> (\<exists>k < n. p = s + k \<and> q = d + k)"

fun covers :: "run \<Rightarrow> nat \<Rightarrow> bool" where
  "covers (s, d, n) q \<longleftrightarrow> d \<le> q \<and> q < d + n"

lemma runs_loop_head:
  "\<exists>m ms. runs_loop ws s0 d0 n i ps = (s0, d0, m) # ms \<and> n \<le> m"
  by (induction ws s0 d0 n i ps rule: runs_loop.induct) (auto intro: Suc_leD)

text \<open>
  The invariant of the run builder: the open run is \<open>n\<close> long and ends at list index \<open>i\<close>, the remaining
  positions ascend strictly above it.
\<close>

lemma runs_loop_sorted:
  assumes "sorted_wrt (<) ps" and "\<forall>p \<in> set ps. s0 + n \<le> p" and "d0 + n = ws + i" and "0 < n"
  shows "sorted_wrt run_before (runs_loop ws s0 d0 n i ps)
    \<and> (\<forall>(s, d, m) \<in> set (runs_loop ws s0 d0 n i ps). s0 \<le> s \<and> d0 \<le> d \<and> s0 + d \<le> s + d0 \<and> 0 < m)"
  using assms
proof (induction ws s0 d0 n i ps rule: runs_loop.induct)
  case (1 ws s0 d0 n i)
  then show ?case by simp
next
  case (2 ws s0 d0 n i p ps)
  show ?case
  proof (cases "p = s0 + n")
    case True
    have "\<forall>q \<in> set ps. s0 + (n + 1) \<le> q" using "2.prems"(1) True by auto
    with "2.IH"(1)[OF True] "2.prems" True show ?thesis by simp
  next
    case False
    with 2 have ih: "sorted_wrt run_before (runs_loop ws p (ws + i) 1 (i + 1) ps)"
      "\<forall>(s, d, m) \<in> set (runs_loop ws p (ws + i) 1 (i + 1) ps).
         p \<le> s \<and> ws + i \<le> d \<and> p + d \<le> s + (ws + i) \<and> 0 < m"
      by (auto simp: Suc_le_eq)
    have p: "s0 + n \<le> p" using "2.prems"(2) by simp
    have "run_before (s0, d0, n) (s, d, m) \<and> s0 \<le> s \<and> d0 \<le> d \<and> s0 + d \<le> s + d0 \<and> 0 < m"
      if "(s, d, m) \<in> set (runs_loop ws p (ws + i) 1 (i + 1) ps)" for s d m
    proof -
      from ih(2) that have "p \<le> s \<and> ws + i \<le> d \<and> p + d \<le> s + (ws + i) \<and> 0 < m" by blast
      with p "2.prems"(3) show ?thesis by simp
    qed
    with ih(1) False "2.prems"(4) show ?thesis by auto
  qed
qed

lemma runs_loop_carries:
  assumes "d0 + n = ws + i" and "0 < n"
  shows "(\<exists>r \<in> set (runs_loop ws s0 d0 n i ps). carries r p q) \<longleftrightarrow>
    carries (s0, d0, n) p q \<or> (\<exists>j < length ps. p = ps ! j \<and> q = ws + i + j)"
  using assms
proof (induction ws s0 d0 n i ps rule: runs_loop.induct)
  case (1 ws s0 d0 n i)
  then show ?case by simp
next
  case (2 ws s0 d0 n i x ps)
  have idx: "(\<exists>j < length (x # ps). p = (x # ps) ! j \<and> q = ws + i + j) \<longleftrightarrow>
      p = x \<and> q = ws + i \<or> (\<exists>j < length ps. p = ps ! j \<and> q = ws + (i + 1) + j)"
    by (auto simp: less_Suc_eq_0_disj)
  show ?case
  proof (cases "x = s0 + n")
    case True
    have "carries (s0, d0, n + 1) p q \<longleftrightarrow> carries (s0, d0, n) p q \<or> p = x \<and> q = ws + i"
      using True "2.prems"(1) by (auto simp: less_Suc_eq)
    with 2 True idx show ?thesis by simp
  next
    case False
    have "carries (x, ws + i, 1) p q \<longleftrightarrow> p = x \<and> q = ws + i" by auto
    with 2 False idx show ?thesis by simp
  qed
qed

lemma keep_runs_sorted:
  "sorted_wrt (<) keep \<Longrightarrow> sorted_wrt run_before (keep_runs keep ws)"
  using runs_loop_sorted[of "tl keep" "hd keep" 1 ws ws 1]
  by (cases keep) (auto simp: keep_runs_def Suc_le_eq)

lemma keep_runs_pos: "sorted_wrt (<) keep \<Longrightarrow> (s, d, n) \<in> set (keep_runs keep ws) \<Longrightarrow> 0 < n"
  using runs_loop_sorted[of "tl keep" "hd keep" 1 ws ws 1]
  by (cases keep) (auto simp: keep_runs_def Suc_le_eq)

lemma keep_runs_carries:
  "(\<exists>r \<in> set (keep_runs keep ws). carries r p q) \<longleftrightarrow> (\<exists>j < length keep. p = keep ! j \<and> q = ws + j)"
proof (cases keep)
  case (Cons x ps)
  have "(\<exists>j < length (x # ps). p = (x # ps) ! j \<and> q = ws + j) \<longleftrightarrow>
      p = x \<and> q = ws \<or> (\<exists>j < length ps. p = ps ! j \<and> q = ws + 1 + j)"
    by (auto simp: less_Suc_eq_0_disj)
  then show ?thesis using Cons runs_loop_carries[of ws 1 ws 1 x ps p q]
    by (simp add: keep_runs_def)
qed (simp add: keep_runs_def)

lemma covers_carries: "covers r q \<longleftrightarrow> (\<exists>p. carries r p q)"
proof (cases r)
  case (fields s d n)
  have "d \<le> q \<and> q < d + n \<longleftrightarrow> (\<exists>k < n. q = d + k)"
    by (metis add_less_cancel_left le_Suc_ex le_add1)
  then show ?thesis using fields by auto
qed

lemma keep_runs_covers: "(\<exists>r \<in> set (keep_runs keep ws). covers r q) \<longleftrightarrow> ws \<le> q \<and> q < ws + length keep"
proof -
  have "(\<exists>r \<in> set (keep_runs keep ws). covers r q) \<longleftrightarrow>
      (\<exists>p. \<exists>r \<in> set (keep_runs keep ws). carries r p q)"
    by (auto simp: covers_carries)
  also have "\<dots> \<longleftrightarrow> (\<exists>j < length keep. q = ws + j)" by (simp add: keep_runs_carries)
  also have "\<dots> \<longleftrightarrow> ws \<le> q \<and> q < ws + length keep" by (metis add_less_cancel_left le_Suc_ex le_add1)
  finally show ?thesis .
qed

section \<open>The batching loop is a fold over the runs\<close>

fun flush_run :: "'s mover \<Rightarrow> run \<Rightarrow> 's \<Rightarrow> 's kv_result" where
  "flush_run move (s, d, n) c = (if s \<noteq> d then move s d n c else Ok c)"

lemma compact_loop_runs:
  "compact_loop move s d n (ws + i) ps c = try_fold (flush_run move) (runs_loop ws s d n i ps) c"
proof (induction ps arbitrary: s d n i c)
  case Nil
  show ?case by (cases "move s d n c") simp_all
next
  case (Cons p ps)
  show ?case
  proof (cases "p = s + n")
    case True
    with Cons.IH[of s d "n + 1" "i + 1" c] show ?thesis by (simp add: add.assoc)
  next
    case False
    have "compact_loop move p (ws + i) 1 (ws + i + 1) ps
        = try_fold (flush_run move) (runs_loop ws p (ws + i) 1 (i + 1) ps)"
      using Cons.IH[of p "ws + i" 1 "i + 1"] by (intro ext) (simp add: add.assoc)
    with False show ?thesis by simp
  qed
qed

lemma compact_with_runs:
  "compact_with move keep ws c = try_fold (flush_run move) (keep_runs keep ws) c"
  using compact_loop_runs[of move _ ws 1 ws 1 "tl keep" c]
  by (cases keep) (simp_all add: compact_with_def keep_runs_def)

lemma compact_runs_with_fold:
  "compact_runs_with move keep ws c =
     (let ups = takeWhile (\<lambda>(s, d, n). \<not> d \<le> s) (keep_runs keep ws);
          rest = dropWhile (\<lambda>(s, d, n). \<not> d \<le> s) (keep_runs keep ws) in
      try_fold (flush_run move) (rev ups @ rest) c)"
proof -
  let ?up = "\<lambda>(s, d, n). \<not> d \<le> (s :: nat)"
  have "try_fold (\<lambda>(s, d, n). move s d n) (rev (takeWhile ?up runs)) c'
      = try_fold (flush_run move) (rev (takeWhile ?up runs)) c'" for runs c'
    by (intro try_fold_cong) (auto dest!: set_takeWhileD)
  moreover have "try_fold (\<lambda>(s, d, n) c. if s \<noteq> d then move s d n c else Ok c) rs
      = try_fold (flush_run move) rs" for rs
    by (intro ext try_fold_cong) auto
  ultimately show ?thesis
    by (cases keep) (simp_all add: compact_runs_with_def Let_def try_fold_append keep_runs_def)
qed

section \<open>The interface\<close>

text \<open>
  A store of positions: \<open>at s h p\<close> is what head \<open>h\<close> holds at position \<open>p\<close>; a move copies a range of
  positions of the heads in \<open>moved\<close> and leaves every other cell alone.
\<close>

locale position_store =
  fixes inv :: "'s \<Rightarrow> bool"
    and at :: "'s \<Rightarrow> 'h \<Rightarrow> nat \<Rightarrow> 'r"
    and heads :: "'h set"
    and moved :: "'h set"
    and cap :: nat
    and move :: "'s mover"
  assumes move_ok: "inv st \<Longrightarrow> s + n \<le> cap \<Longrightarrow> d + n \<le> cap \<Longrightarrow>
      \<exists>st'. move s d n st = Ok st' \<and> inv st'
        \<and> (\<forall>h \<in> heads. \<forall>p < cap. at st' h p =
             (if h \<in> moved \<and> d \<le> p \<and> p < d + n then at st h (s + (p - d)) else at st h p))"
begin

fun fits :: "run \<Rightarrow> bool" where
  "fits (s, d, n) \<longleftrightarrow> s + n \<le> cap \<and> d + n \<le> cap"

text \<open>An earlier run does not write where a later one reads or writes.\<close>

fun no_clobber :: "run \<Rightarrow> run \<Rightarrow> bool" where
  "no_clobber (s, d, n) (s', d', n') \<longleftrightarrow>
     (d + n \<le> s' \<or> s' + n' \<le> d) \<and> (d + n \<le> d' \<or> d' + n' \<le> d)"

lemma flush_run_ok:
  assumes "inv st" "fits (s, d, n)"
  shows "\<exists>st'. flush_run move (s, d, n) st = Ok st' \<and> inv st'
        \<and> (\<forall>h \<in> heads. \<forall>p < cap. at st' h p =
             (if h \<in> moved \<and> d \<le> p \<and> p < d + n then at st h (s + (p - d)) else at st h p))"
  using move_ok[OF assms(1), of s n d] assms by (cases "s = d") auto

lemma flush_all:
  assumes "inv st" "sorted_wrt no_clobber ms" "\<forall>m \<in> set ms. fits m"
  shows "\<exists>st'. try_fold (flush_run move) ms st = Ok st' \<and> inv st'
    \<and> (\<forall>h \<in> heads. h \<in> moved \<longrightarrow> (\<forall>r \<in> set ms. \<forall>p q. carries r p q \<longrightarrow> at st' h q = at st h p))
    \<and> (\<forall>h \<in> heads. \<forall>q < cap. h \<notin> moved \<or> (\<forall>r \<in> set ms. \<not> covers r q) \<longrightarrow> at st' h q = at st h q)"
  using assms
proof (induction ms arbitrary: st)
  case Nil
  then show ?case by simp
next
  case (Cons m ms)
  obtain s d n where m: "m = (s, d, n)" by (cases m)
  from Cons.prems m have ft: "fits (s, d, n)" by simp
  from flush_run_ok[OF Cons.prems(1) ft] obtain st1 where st1: "flush_run move m st = Ok st1" "inv st1"
    "\<forall>h \<in> heads. \<forall>p < cap. at st1 h p =
       (if h \<in> moved \<and> d \<le> p \<and> p < d + n then at st h (s + (p - d)) else at st h p)"
    unfolding m by blast
  have "sorted_wrt no_clobber ms" "\<forall>m \<in> set ms. fits m" using Cons.prems by auto
  from Cons.IH[OF st1(2) this] obtain st2 where st2: "try_fold (flush_run move) ms st1 = Ok st2" "inv st2"
    "\<forall>h \<in> heads. h \<in> moved \<longrightarrow> (\<forall>r \<in> set ms. \<forall>p q. carries r p q \<longrightarrow> at st2 h q = at st1 h p)"
    "\<forall>h \<in> heads. \<forall>q < cap. h \<notin> moved \<or> (\<forall>r \<in> set ms. \<not> covers r q) \<longrightarrow> at st2 h q = at st1 h q"
    by blast
  have clob: "no_clobber m r" if "r \<in> set ms" for r using Cons.prems(2) that by simp
  have later: "at st2 h q = at st h p" if "h \<in> heads" "h \<in> moved" "r \<in> set ms" "carries r p q" for h r p q
  proof -
    obtain s' d' n' where r: "r = (s', d', n')" by (cases r)
    from that(4) r obtain k where k: "k < n'" "p = s' + k" by auto
    have "p < cap" using Cons.prems(3) that(3) r k by fastforce
    moreover have "\<not> (d \<le> p \<and> p < d + n)" using clob[OF that(3)] r k by (auto simp: m)
    ultimately have "at st1 h p = at st h p" using st1(3) that(1) by auto
    with st2(3) that show ?thesis by metis
  qed
  have first: "at st2 h q = at st h p" if "h \<in> heads" "h \<in> moved" "carries m p q" for h p q
  proof -
    from that(3) m obtain k where k: "k < n" "p = s + k" "q = d + k" by auto
    then have q: "q < cap" using ft by simp
    have "\<not> covers r q" if "r \<in> set ms" for r
      using clob[OF that] k by (cases r) (auto simp: m)
    then have "at st2 h q = at st1 h q" using st2(4) q that(1) by blast
    moreover have "at st1 h q = at st h p" using st1(3) that(1,2) q k by auto
    ultimately show ?thesis by simp
  qed
  have frame: "at st2 h q = at st h q"
    if "h \<in> heads" "q < cap" "h \<notin> moved \<or> (\<forall>r \<in> set (m # ms). \<not> covers r q)" for h q
    using st2(4) st1(3) that by (auto simp: m)
  have "try_fold (flush_run move) (m # ms) st = Ok st2" using st1(1) st2(1) by simp
  moreover have "\<forall>h \<in> heads. h \<in> moved \<longrightarrow>
      (\<forall>r \<in> set (m # ms). \<forall>p q. carries r p q \<longrightarrow> at st2 h q = at st h p)"
    using later first by (simp del: carries.simps)
  ultimately show ?case using st2(2) frame by blast
qed

lemma keep_runs_fit:
  assumes "\<forall>p \<in> set keep. p < cap" and "ws + length keep \<le> cap" and "r \<in> set (keep_runs keep ws)"
    and "sorted_wrt (<) keep"
  shows "fits r"
proof -
  obtain s d n where r: "r = (s, d, n)" by (cases r)
  with keep_runs_pos[OF assms(4)] assms(3) obtain k where n: "n = Suc k" by (metis gr0_implies_Suc)
  then have "carries r (s + k) (d + k)" using r by auto
  with keep_runs_carries[of keep ws "s + k" "d + k"] assms(3)
  obtain j where "j < length keep" "s + k = keep ! j" "d + k = ws + j" by blast
  with assms(1,2) r n show ?thesis by (simp add: Suc_le_eq)
qed

text \<open>What a compaction promises: the kept positions, in order, from \<open>ws\<close> on; the rest untouched.\<close>

definition compacted :: "nat list \<Rightarrow> nat \<Rightarrow> 's \<Rightarrow> 's \<Rightarrow> bool" where
  "compacted keep ws st st' \<longleftrightarrow>
     (\<forall>h \<in> heads. (h \<in> moved \<longrightarrow> (\<forall>j < length keep. at st' h (ws + j) = at st h (keep ! j)))
       \<and> (\<forall>q < cap. h \<notin> moved \<or> q < ws \<or> ws + length keep \<le> q \<longrightarrow> at st' h q = at st h q))"

lemma flush_keep_runs:
  assumes "inv st" "set ms = set (keep_runs keep ws)" "sorted_wrt no_clobber ms"
    "sorted_wrt (<) keep" "\<forall>p \<in> set keep. p < cap" "ws + length keep \<le> cap"
  shows "\<exists>st'. try_fold (flush_run move) ms st = Ok st' \<and> inv st' \<and> compacted keep ws st st'"
proof -
  have "\<forall>m \<in> set ms. fits m" using keep_runs_fit[OF assms(5,6) _ assms(4)] assms(2) by blast
  from flush_all[OF assms(1,3) this] obtain st' where st': "try_fold (flush_run move) ms st = Ok st'" "inv st'"
    "\<forall>h \<in> heads. h \<in> moved \<longrightarrow> (\<forall>r \<in> set ms. \<forall>p q. carries r p q \<longrightarrow> at st' h q = at st h p)"
    "\<forall>h \<in> heads. \<forall>q < cap. h \<notin> moved \<or> (\<forall>r \<in> set ms. \<not> covers r q) \<longrightarrow> at st' h q = at st h q" by blast
  have "at st' h (ws + j) = at st h (keep ! j)" if "h \<in> heads" "h \<in> moved" "j < length keep" for h j
    using st'(3) that keep_runs_carries[of keep ws "keep ! j" "ws + j"] assms(2) by blast
  moreover have "at st' h q = at st h q"
    if "h \<in> heads" "q < cap" "h \<notin> moved \<or> q < ws \<or> ws + length keep \<le> q" for h q
    using st'(4) that keep_runs_covers[of keep ws q] assms(2) by (metis not_le)
  ultimately show ?thesis using st'(1,2) unfolding compacted_def by blast
qed

text \<open>Down-moving runs in order do not clobber each other.\<close>

lemma down_no_clobber:
  assumes "sorted_wrt run_before rs" "\<forall>(s, d, n) \<in> set rs. d \<le> s"
  shows "sorted_wrt no_clobber rs"
  using assms by (induction rs) fastforce+

lemma compact_with_ok:
  assumes "inv st" "sorted_wrt (<) keep" "\<forall>p \<in> set keep. p < cap" "keep = [] \<or> ws \<le> hd keep"
  shows "\<exists>st'. compact_with move keep ws st = Ok st' \<and> inv st' \<and> compacted keep ws st st'"
proof -
  have ge: "ws + j \<le> keep ! j" if "j < length keep" for j
    using strict_sorted_nth_mono[OF assms(2), of 0 j] that assms(4) by (cases keep) auto
  then have len: "ws + length keep \<le> cap \<or> keep = []"
    using assms(3) by (cases keep rule: rev_cases) (force simp: Suc_le_eq)+
  have "d \<le> s" if r: "(s, d, n) \<in> set (keep_runs keep ws)" for s d n
  proof -
    have "carries (s, d, n) s d" using keep_runs_pos[OF assms(2) r] by auto
    with r keep_runs_carries[of keep ws s d] obtain j where "j < length keep" "s = keep ! j" "d = ws + j" by blast
    with ge show ?thesis by simp
  qed
  then have "sorted_wrt no_clobber (keep_runs keep ws)"
    using keep_runs_sorted[OF assms(2), of ws] by (intro down_no_clobber) auto
  from flush_keep_runs[OF assms(1) refl this assms(2,3)] len show ?thesis
    using assms(1) by (cases "keep = []") (auto simp: compact_with_runs keep_runs_def compacted_def)
qed

text \<open>
  The general case: up-movers form a prefix, and flushing them last to first before the others, first
  to last, clobbers nothing. So the right-aligning compaction is correct for every write position.
\<close>

lemma ups_then_downs:
  assumes s: "sorted_wrt run_before rs"
  defines "ups \<equiv> takeWhile (\<lambda>(s, d, n). \<not> d \<le> s) rs"
  defines "rest \<equiv> dropWhile (\<lambda>(s, d, n). \<not> d \<le> s) rs"
  shows "sorted_wrt no_clobber (rev ups @ rest)"
proof -
  have split: "rs = ups @ rest" by (simp add: ups_def rest_def)
  with s have su: "sorted_wrt run_before ups" and sr: "sorted_wrt run_before rest"
    and ur: "\<forall>u \<in> set ups. \<forall>r \<in> set rest. run_before u r"
    by (simp_all add: sorted_wrt_append)
  have up: "\<forall>(s, d, n) \<in> set ups. s < d" unfolding ups_def by (auto dest: set_takeWhileD)
  have down: "\<forall>(s, d, n) \<in> set rest. d \<le> s"
  proof (cases rest)
    case (Cons r rs')
    obtain s0 d0 n0 where r: "r = (s0, d0, n0)" by (cases r)
    have "d0 \<le> s0" using Cons r by (simp add: rest_def dropWhile_eq_Cons_conv)
    then show ?thesis using sr Cons r by fastforce
  qed simp
  have "sorted_wrt no_clobber (rev ups)"
    unfolding sorted_wrt_rev using su up by (induction ups) fastforce+
  moreover have "sorted_wrt no_clobber rest" by (rule down_no_clobber[OF sr down])
  moreover have "no_clobber u r" if "u \<in> set ups" "r \<in> set rest" for u r
    using ur up down that by (cases u; cases r) fastforce
  ultimately show ?thesis by (simp add: sorted_wrt_append)
qed

lemma compact_runs_with_ok:
  assumes "inv st" "sorted_wrt (<) keep" "\<forall>p \<in> set keep. p < cap" "ws + length keep \<le> cap"
  shows "\<exists>st'. compact_runs_with move keep ws st = Ok st' \<and> inv st' \<and> compacted keep ws st st'"
proof -
  let ?up = "\<lambda>(s, d, n). \<not> d \<le> (s :: nat)"
  define ms where "ms = rev (takeWhile ?up (keep_runs keep ws)) @ dropWhile ?up (keep_runs keep ws)"
  have "set ms = set (takeWhile ?up (keep_runs keep ws) @ dropWhile ?up (keep_runs keep ws))"
    unfolding ms_def set_append set_rev by (rule refl)
  then have "set ms = set (keep_runs keep ws)" by simp
  moreover have "sorted_wrt no_clobber ms"
    unfolding ms_def by (rule ups_then_downs[OF keep_runs_sorted[OF assms(2)]])
  ultimately show ?thesis
    using flush_keep_runs[OF assms(1) _ _ assms(2-4)]
    by (simp add: compact_runs_with_fold Let_def ms_def)
qed

end

section \<open>The cache as a store of positions\<close>

lemma moves_as_store:
  assumes "format_ok g" "bufs_ok g" "same_geom g c" "cells_moved hs s d n c c'"
  shows "same_geom g c' \<and> (\<forall>h \<in> {..<kv_heads g}. \<forall>p < capacity g. cell c' h p =
      (if h \<in> hs \<and> d \<le> p \<and> p < d + n then cell c h (s + (p - d)) else cell c h p))"
  using assms same_geom_trans same_geom_fields[OF assms(3)] by (auto simp: cells_moved_def)

lemma geom_ok: "same_geom g c \<Longrightarrow> format_ok g \<Longrightarrow> bufs_ok g \<Longrightarrow> format_ok c \<and> bufs_ok c"
  by (elim same_geomE) (simp add: bufs_ok_def)

interpretation layer: position_store
  "\<lambda>c. same_geom g c \<and> format_ok g \<and> bufs_ok g" cell "{..<kv_heads g}" "{..<kv_heads g}" "capacity g"
  shift_positions for g :: "'u kvcache"
proof
  fix st :: "'u kvcache" and s n d
  assume i: "same_geom g st \<and> format_ok g \<and> bufs_ok g" and "s + n \<le> capacity g" "d + n \<le> capacity g"
  moreover from i have "format_ok st" "bufs_ok st" using geom_ok by blast+
  moreover note f = same_geom_fields[of g st]
  ultimately obtain c' where "shift_positions s d n st = Ok c'" "cells_moved {..<kv_heads g} s d n st c'"
    using shift_positions_moves[of st s n d] by auto
  with moves_as_store[of g st "{..<kv_heads g}" s d n c'] i
  show "\<exists>st'. shift_positions s d n st = Ok st' \<and> (same_geom g st' \<and> format_ok g \<and> bufs_ok g)
      \<and> (\<forall>h \<in> {..<kv_heads g}. \<forall>p < capacity g. cell st' h p =
           (if h \<in> {..<kv_heads g} \<and> d \<le> p \<and> p < d + n then cell st h (s + (p - d)) else cell st h p))"
    by blast
qed

interpretation one_head: position_store
  "\<lambda>c. same_geom g c \<and> format_ok g \<and> bufs_ok g \<and> layout g = HeadMajor \<and> hx < kv_heads g" cell
  "{..<kv_heads g}" "{hx}" "capacity g" "shift_positions_for_head hx" for g :: "'u kvcache" and hx
proof
  fix st :: "'u kvcache" and s n d
  assume i: "same_geom g st \<and> format_ok g \<and> bufs_ok g \<and> layout g = HeadMajor \<and> hx < kv_heads g"
    and "s + n \<le> capacity g" "d + n \<le> capacity g"
  moreover from i have "format_ok st" "bufs_ok st" using geom_ok by blast+
  moreover note f = same_geom_fields[of g st]
  ultimately obtain c' where "shift_positions_for_head hx s d n st = Ok c'" "cells_moved {hx} s d n st c'"
    using shift_positions_for_head_moves[of st hx s n d] by auto
  with moves_as_store[of g st "{hx}" s d n c'] i
  show "\<exists>st'. shift_positions_for_head hx s d n st = Ok st'
      \<and> (same_geom g st' \<and> format_ok g \<and> bufs_ok g \<and> layout g = HeadMajor \<and> hx < kv_heads g)
      \<and> (\<forall>h \<in> {..<kv_heads g}. \<forall>p < capacity g. cell st' h p =
           (if h \<in> {hx} \<and> d \<le> p \<and> p < d + n then cell st h (s + (p - d)) else cell st h p))"
    by blast
qed

text \<open>The two compactions of the cache, from the interpretations.\<close>

lemma compact_keep_positions_cells:
  assumes "format_ok c" "bufs_ok c" "sorted_wrt (<) keep" "\<forall>p \<in> set keep. p < capacity c"
    "keep = [] \<or> ws \<le> hd keep"
  shows "\<exists>c'. compact_keep_positions keep ws c = Ok c' \<and> same_geom c c'
    \<and> (\<forall>h < kv_heads c. (\<forall>j < length keep. cell c' h (ws + j) = cell c h (keep ! j))
        \<and> (\<forall>q < capacity c. q < ws \<or> ws + length keep \<le> q \<longrightarrow> cell c' h q = cell c h q))"
  using layer.compact_with_ok[of c c keep ws] assms
  by (auto simp: compact_keep_positions_def layer.compacted_def)

lemma compact_for_head_cells:
  assumes "format_ok c" "bufs_ok c" "layout c = HeadMajor" "hx < kv_heads c" "sorted_wrt (<) keep"
    "\<forall>p \<in> set keep. p < capacity c" "ws + length keep \<le> capacity c"
  shows "\<exists>c'. compact_keep_positions_for_head hx keep ws c = Ok c' \<and> same_geom c c'
    \<and> (\<forall>j < length keep. cell c' hx (ws + j) = cell c hx (keep ! j))
    \<and> (\<forall>q < capacity c. q < ws \<or> ws + length keep \<le> q \<longrightarrow> cell c' hx q = cell c hx q)
    \<and> (\<forall>h < kv_heads c. \<forall>q < capacity c. h \<noteq> hx \<longrightarrow> cell c' h q = cell c h q)"
  using one_head.compact_runs_with_ok[of c c hx keep ws] assms
  by (auto simp: compact_keep_positions_for_head_def one_head.compacted_def)

end
