(* ===== verification/Kv_Contents.thy ===== *)
theory Kv_Contents
  imports Kv_Compact
begin

text \<open>
  What the KV cache promises. The abstract state of a cache is, for every head, the list of the (K, V)
  rows resident for it; appending, pruning, growing, shrinking and releasing pages are shown to act on
  these lists as append, drop and identity, and to keep the cache well formed.
\<close>

definition contents :: "'u kvcache \<Rightarrow> nat \<Rightarrow> ('u list \<times> 'u list) list" where
  "contents c h = map (cell c h) [head_start c h..<current_pos c]"

lemma contents_eqI:
  assumes "head_start c' h = head_start c h" "current_pos c' = current_pos c"
    "\<And>p. head_start c h \<le> p \<Longrightarrow> p < current_pos c \<Longrightarrow> cell c' h p = cell c h p"
  shows "contents c' h = contents c h"
  using assms by (auto simp: contents_def)

text \<open>The high-water mark takes no part in what is resident.\<close>

lemma hw_upd [simp]:
  "row (c\<lparr>high_water_pos := x\<rparr>) = row c" "cell (c\<lparr>high_water_pos := x\<rparr>) = cell c"
  "head_start (c\<lparr>high_water_pos := x\<rparr>) = head_start c" "contents (c\<lparr>high_water_pos := x\<rparr>) = contents c"
proof -
  show r: "row (c\<lparr>high_water_pos := x\<rparr>) = row c" by (auto simp: row_def is_q4_def split: option.splits)
  show k: "cell (c\<lparr>high_water_pos := x\<rparr>) = cell c"
    by (auto simp: cell_def r row_ix_def fun_eq_iff split: kv_layout.splits)
  show h: "head_start (c\<lparr>high_water_pos := x\<rparr>) = head_start c" by (simp add: head_start_def fun_eq_iff)
  show "contents (c\<lparr>high_water_pos := x\<rparr>) = contents c" by (simp add: contents_def k h fun_eq_iff)
qed

lemma kv_wf_hw:
  "kv_wf c \<Longrightarrow> current_pos c \<le> x \<Longrightarrow> x \<le> capacity c \<Longrightarrow> kv_wf (c\<lparr>high_water_pos := x\<rparr>)"
  by (auto simp: kv_wf_def format_ok_def bufs_ok_def split: option.splits)

section \<open>Reallocation\<close>

text \<open>The size arithmetic of \<open>grow\<close> and \<open>shrink_to_fit\<close> gives a buffer of the right number of rows.\<close>

lemma buf_size_units:
  assumes "format_ok c"
  shows "\<exists>sz. grow_buf_size c (n * kv_heads c * head_dim c) = Ok sz
    \<and> sz div type_size (kv_dtype c) = kv_heads c * n * row c"
proof (cases "opaque c")
  case None
  show ?thesis
  proof (cases "kv_dtype c = D_Q4_0")
    case True
    have "n * kv_heads c * head_dim c div QK4_0 = n * kv_heads c * row c"
      using row_q4(2)[OF assms, of "n * kv_heads c"] None True by (simp add: is_opaque_def is_q4_def)
    with None True show ?thesis
      by (simp add: grow_buf_size_def is_opaque_def typed_buf_size_def size_of_BlockQ4_0_def mult.commute)
  next
    case False
    with assms None have "kv_dtype c \<in> {D_F32, D_F16}" by (simp add: format_ok_def)
    then have "n * kv_heads c * head_dim c * DType_size (kv_dtype c) div type_size (kv_dtype c)
        = n * kv_heads c * head_dim c" by auto
    also have "\<dots> = kv_heads c * n * row c"
      using None False by (simp add: row_def is_q4_def)
    finally show ?thesis using None False
      by (simp add: grow_buf_size_def is_opaque_def typed_buf_size_def)
  qed
next
  case (Some d)
  with assms obtain bb where bb: "block_bytes d = Some bb" "0 < block_elems d"
      "head_dim c mod block_elems d = 0" "kv_dtype c = D_U8"
    by (auto simp: format_ok_def)
  then have dv: "block_elems d dvd head_dim c" by (simp add: mod_eq_0_iff_dvd)
  then have "n * kv_heads c * head_dim c mod block_elems d = 0" by (simp add: mod_eq_0_iff_dvd)
  moreover have "n * kv_heads c * head_dim c div block_elems d = n * kv_heads c * (head_dim c div block_elems d)"
    using dv by (simp add: div_mult_swap)
  ultimately show ?thesis using Some bb
    by (simp add: grow_buf_size_def is_opaque_def opaque_desc_def bytes_for_elems_def row_def
        mult.commute mult.left_commute)
qed

lemma copy_heads_rows:
  assumes k: "length (k_buffer c) = H * C * w" "length (v_buffer c) = H * C * w"
    and n: "length nk = H * N * w" "length nv = H * N * w"
    and cur: "cur \<le> C" "cur \<le> N" and hs: "distinct hs" "\<forall>h \<in> set hs. h < H"
  shows "\<exists>nk' nv'. try_fold (copy_head c (C * w) (N * w) (cur * w)) hs (nk, nv) = Ok (nk', nv')
    \<and> length nk' = length nk \<and> length nv' = length nv
    \<and> (\<forall>h < H. \<forall>p < N. (rowat nk' w (h * N + p), rowat nv' w (h * N + p)) =
         (if h \<in> set hs \<and> p < cur then (rowat (k_buffer c) w (h * C + p), rowat (v_buffer c) w (h * C + p))
          else (rowat nk w (h * N + p), rowat nv w (h * N + p))))"
  using n hs
proof (induction hs arbitrary: nk nv)
  case Nil
  then show ?case by simp
next
  case (Cons h hs)
  have h: "h < H" using Cons.prems(4) by simp
  have fit: "h * M + cur \<le> H * M" if "cur \<le> M" for M
    using mult_le_mono1[of "Suc h" H M] h that by simp
  from copy_slice_rows[OF k(1) Cons.prems(1) fit[OF cur(1)] fit[OF cur(2)]] obtain nk1 where
    nk1: "copy_slice (k_buffer c) nk (h * C * w) (h * N * w) (cur * w) = Ok nk1" "length nk1 = length nk"
    "\<forall>i < H * N. rowat nk1 w i = (if h * N \<le> i \<and> i < h * N + cur then rowat (k_buffer c) w (h * C + (i - h * N))
        else rowat nk w i)" by blast
  from copy_slice_rows[OF k(2) Cons.prems(2) fit[OF cur(1)] fit[OF cur(2)]] obtain nv1 where
    nv1: "copy_slice (v_buffer c) nv (h * C * w) (h * N * w) (cur * w) = Ok nv1" "length nv1 = length nv"
    "\<forall>i < H * N. rowat nv1 w i = (if h * N \<le> i \<and> i < h * N + cur then rowat (v_buffer c) w (h * C + (i - h * N))
        else rowat nv w i)" by blast
  have step: "copy_head c (C * w) (N * w) (cur * w) h (nk, nv) = Ok (nk1, nv1)"
    using nk1(1) nv1(1) by (simp add: copy_head_def mult.assoc)
  from Cons.IH[of nk1 nv1] Cons.prems nk1(2) nv1(2) obtain nk2 nv2 where
    ih: "try_fold (copy_head c (C * w) (N * w) (cur * w)) hs (nk1, nv1) = Ok (nk2, nv2)"
    "length nk2 = length nk" "length nv2 = length nv"
    "\<forall>h < H. \<forall>p < N. (rowat nk2 w (h * N + p), rowat nv2 w (h * N + p)) =
         (if h \<in> set hs \<and> p < cur then (rowat (k_buffer c) w (h * C + p), rowat (v_buffer c) w (h * C + p))
          else (rowat nk1 w (h * N + p), rowat nv1 w (h * N + p)))" by auto
  have one: "(rowat nk1 w (h' * N + p), rowat nv1 w (h' * N + p)) =
      (if h' = h \<and> p < cur then (rowat (k_buffer c) w (h' * C + p), rowat (v_buffer c) w (h' * C + p))
       else (rowat nk w (h' * N + p), rowat nv w (h' * N + p)))" if "h' < H" "p < N" for h' p
  proof -
    have i: "h' * N + p < H * N" using mult_le_mono1[of "Suc h'" H N] that by simp
    have blk: "h * N \<le> h' * N + p \<and> h' * N + p < h * N + cur \<longleftrightarrow> h' = h \<and> p < cur"
      using head_block[of h' H p N h 0 cur] that h cur(2) by simp
    show ?thesis unfolding nk1(3)[rule_format, OF i] nv1(3)[rule_format, OF i] blk by auto
  qed
  have all: "(rowat nk2 w (h' * N + p), rowat nv2 w (h' * N + p)) =
      (if h' \<in> set (h # hs) \<and> p < cur then (rowat (k_buffer c) w (h' * C + p), rowat (v_buffer c) w (h' * C + p))
       else (rowat nk w (h' * N + p), rowat nv w (h' * N + p)))" if "h' < H" "p < N" for h' p
    unfolding ih(4)[rule_format, OF that] one[OF that] by simp
  have "try_fold (copy_head c (C * w) (N * w) (cur * w)) (h # hs) (nk, nv) = Ok (nk2, nv2)"
    using step ih(1) by simp
  then show ?case using ih(2,3) all by blast
qed

text \<open>Copying into new buffers keeps every resident cell, in both layouts and all formats.\<close>

lemma copy_resident_cells:
  assumes f: "format_ok c" "bufs_ok c" and cur: "current_pos c \<le> capacity c" "current_pos c \<le> N"
    and n: "length nk = kv_heads c * N * row c" "length nv = kv_heads c * N * row c"
  shows "\<exists>nk' nv'. copy_resident c N (nk, nv) = Ok (nk', nv') \<and> length nk' = length nk \<and> length nv' = length nv
    \<and> (\<forall>h < kv_heads c. \<forall>p < current_pos c.
         cell (c\<lparr>k_buffer := nk', v_buffer := nv', capacity := N\<rparr>) h p = cell c h p)"
proof (cases "current_pos c = 0")
  case True
  then show ?thesis by (simp add: copy_resident_def)
next
  case False
  let ?H = "kv_heads c" and ?C = "capacity c" and ?w = "row c" and ?cur = "current_pos c"
  have b: "length (k_buffer c) = ?H * ?C * ?w" "length (v_buffer c) = ?H * ?C * ?w"
    using f(2) by (simp_all add: bufs_ok_def)
  have rw: "row (c\<lparr>k_buffer := a, v_buffer := b, capacity := m\<rparr>) = ?w" for a b m
    by (auto simp: row_def is_q4_def split: option.splits)
  show ?thesis
  proof (cases "layout c")
    case HeadMajor
    have eq: "copy_resident c N (nk, nv) =
        try_fold (copy_head c (?C * ?w) (N * ?w) (?cur * ?w)) [0..<?H] (nk, nv)"
      using False HeadMajor row_opaque[OF f(1)] row_q4(2)[OF f(1)] row_elem[of c]
      by (cases "is_opaque c"; cases "is_q4 c") (simp_all add: copy_resident_def is_q4_def)
    from copy_heads_rows[OF b n cur, of "[0..<?H]"] obtain nk' nv' where
      c': "copy_resident c N (nk, nv) = Ok (nk', nv')" "length nk' = length nk" "length nv' = length nv"
      "\<forall>h < ?H. \<forall>p < N. (rowat nk' ?w (h * N + p), rowat nv' ?w (h * N + p)) =
         (if h \<in> set [0..<?H] \<and> p < ?cur
          then (rowat (k_buffer c) ?w (h * ?C + p), rowat (v_buffer c) ?w (h * ?C + p))
          else (rowat nk ?w (h * N + p), rowat nv ?w (h * N + p)))" unfolding eq by auto
    have "cell (c\<lparr>k_buffer := nk', v_buffer := nv', capacity := N\<rparr>) h p = cell c h p"
      if "h < ?H" "p < ?cur" for h p
      using c'(4)[rule_format, OF that(1), of p] that cur(2) HeadMajor
      by (simp add: cell_def rw row_ix_def)
    with c' show ?thesis by blast
  next
    case SeqMajor
    then have o: "\<not> is_opaque c" using f(1) by (auto simp: format_ok_def is_opaque_def split: option.splits)
    have "(if kv_dtype c = D_Q4_0 then ?cur * (?H * head_dim c div QK4_0) else ?cur * ?H * head_dim c)
        = ?cur * ?H * ?w"
      using row_q4(2)[OF f(1) o, of ?H] row_elem[OF o] by (auto simp: is_q4_def)
    then have eq: "copy_resident c N (nk, nv) = copy_head c 0 0 (?cur * ?H * ?w) 0 (nk, nv)"
      using False SeqMajor o by (simp add: copy_resident_def)
    have fit: "0 + ?cur * ?H \<le> ?H * M" if "?cur \<le> M" for M
      using mult_le_mono1[OF that, of ?H] by (simp add: mult.commute)
    from copy_slice_rows[OF b(1) n(1) fit[OF cur(1)] fit[OF cur(2)]] obtain nk' where
      nk': "copy_slice (k_buffer c) nk 0 0 (?cur * ?H * ?w) = Ok nk'" "length nk' = length nk"
      "\<forall>i < ?H * N. rowat nk' ?w i = (if i < ?cur * ?H then rowat (k_buffer c) ?w i else rowat nk ?w i)"
      by auto
    from copy_slice_rows[OF b(2) n(2) fit[OF cur(1)] fit[OF cur(2)]] obtain nv' where
      nv': "copy_slice (v_buffer c) nv 0 0 (?cur * ?H * ?w) = Ok nv'" "length nv' = length nv"
      "\<forall>i < ?H * N. rowat nv' ?w i = (if i < ?cur * ?H then rowat (v_buffer c) ?w i else rowat nv ?w i)"
      by auto
    have "copy_resident c N (nk, nv) = Ok (nk', nv')"
      unfolding eq using nk'(1) nv'(1) by (simp add: copy_head_def)
    moreover have "cell (c\<lparr>k_buffer := nk', v_buffer := nv', capacity := N\<rparr>) h p = cell c h p"
      if "h < ?H" "p < ?cur" for h p
    proof -
      have "p * ?H + h < Suc p * ?H" using that(1) by simp
      also have "\<dots> \<le> ?cur * ?H" using that(2) by (intro mult_le_mono1) simp
      finally have i: "p * ?H + h < ?cur * ?H" .
      also have "\<dots> \<le> ?H * N" using fit[OF cur(2)] by simp
      finally have "p * ?H + h < ?H * N" .
      with i nk'(3) nv'(3) SeqMajor show ?thesis by (simp add: cell_def rw row_ix_def)
    qed
    ultimately show ?thesis using nk'(2) nv'(2) by blast
  qed
qed

text \<open>A cache whose buffers were reallocated for \<open>N\<close> positions.\<close>

definition realloc_ok :: "nat \<Rightarrow> 'u kvcache \<Rightarrow> 'u kvcache \<Rightarrow> bool" where
  "realloc_ok N c c' \<longleftrightarrow> c' = c\<lparr>k_buffer := k_buffer c', v_buffer := v_buffer c', capacity := N\<rparr>
     \<and> length (k_buffer c') = kv_heads c * N * row c \<and> length (v_buffer c') = kv_heads c * N * row c
     \<and> (\<forall>h < kv_heads c. \<forall>p < current_pos c. cell c' h p = cell c h p)"

lemma cap_upd [simp]:
  "row (c\<lparr>k_buffer := k, v_buffer := v, capacity := N\<rparr>) = row c"
  "format_ok (c\<lparr>k_buffer := k, v_buffer := v, capacity := N\<rparr>) = format_ok c"
  "head_start (c\<lparr>k_buffer := k, v_buffer := v, capacity := N\<rparr>) = head_start c"
  "is_opaque (c\<lparr>k_buffer := k, v_buffer := v, capacity := N\<rparr>) = is_opaque c"
  "is_q4 (c\<lparr>k_buffer := k, v_buffer := v, capacity := N\<rparr>) = is_q4 c"
  by (auto simp: row_def is_q4_def is_opaque_def format_ok_def head_start_def fun_eq_iff split: option.splits)

text \<open>The allocator gives a buffer whenever it is asked for one of this size.\<close>

definition can_alloc :: "'u kvcache \<Rightarrow> nat \<Rightarrow> bool" where
  "can_alloc c N \<longleftrightarrow> (\<forall>m. memory c = Some m \<longrightarrow>
     (\<forall>sz. grow_buf_size c (N * kv_heads c * head_dim c) = Ok sz \<longrightarrow> m sz (kv_dtype c) \<noteq> None))"

lemma alloc_and_copy:
  assumes wf: "kv_wf c" and m: "memory c = Some m" and N: "current_pos c \<le> N" and al: "can_alloc c N"
  obtains sz nk nk' nv' where "grow_buf_size c (N * kv_heads c * head_dim c) = Ok sz"
    "alloc_kv m sz (kv_dtype c) = Ok nk" "copy_resident c N (nk, nk) = Ok (nk', nv')"
    "realloc_ok N c (c\<lparr>k_buffer := nk', v_buffer := nv', capacity := N\<rparr>)"
proof -
  have f: "format_ok c" "bufs_ok c" "current_pos c \<le> capacity c" "alloc_law m"
    using wf m by (auto simp: kv_wf_def)
  from buf_size_units[OF f(1), of N] obtain sz where
    sz: "grow_buf_size c (N * kv_heads c * head_dim c) = Ok sz"
      "sz div type_size (kv_dtype c) = kv_heads c * N * row c" by blast
  with al m obtain nk where nk: "m sz (kv_dtype c) = Some nk" unfolding can_alloc_def by blast
  then have len: "length nk = kv_heads c * N * row c" using f(4) sz(2) by (auto simp: alloc_law_def)
  from copy_resident_cells[OF f(1-3) N len len] obtain nk' nv' where
    c': "copy_resident c N (nk, nk) = Ok (nk', nv')" "length nk' = length nk" "length nv' = length nk"
      "\<forall>h < kv_heads c. \<forall>p < current_pos c.
         cell (c\<lparr>k_buffer := nk', v_buffer := nv', capacity := N\<rparr>) h p = cell c h p" by blast
  have "realloc_ok N c (c\<lparr>k_buffer := nk', v_buffer := nv', capacity := N\<rparr>)"
    unfolding realloc_ok_def using c' len by auto
  with that sz(1) nk c'(1) show ?thesis by (simp add: alloc_kv_def)
qed

lemma realloc_wf:
  assumes "kv_wf c" "realloc_ok N c c'" "high_water_pos c \<le> N" "N \<le> max_seq_len c"
  shows "kv_wf c' \<and> (\<forall>h < kv_heads c. contents c' h = contents c h)"
proof -
  from assms(2) obtain k v where c': "c' = c\<lparr>k_buffer := k, v_buffer := v, capacity := N\<rparr>"
    "length k = kv_heads c * N * row c" "length v = kv_heads c * N * row c"
    and cells: "\<forall>h < kv_heads c. \<forall>p < current_pos c. cell c' h p = cell c h p"
    unfolding realloc_ok_def by blast
  have "kv_wf c'" using assms(1,3,4) c'(2,3) unfolding c'(1) by (auto simp: kv_wf_def bufs_ok_def)
  moreover have "contents c' h = contents c h" if "h < kv_heads c" for h
    using cells that by (intro contents_eqI) (auto simp: c'(1))
  ultimately show ?thesis by blast
qed

text \<open>Growing never loses a row.\<close>

lemma grow_ok:
  assumes wf: "kv_wf c" and m: "memory c \<noteq> None" and n: "n \<le> max_seq_len c"
    and al: "\<forall>N. can_alloc c N"
  shows "\<exists>c'. grow n c = Ok c' \<and> kv_wf c' \<and> n \<le> capacity c' \<and> capacity c \<le> capacity c'
    \<and> same_geom (c\<lparr>k_buffer := k_buffer c', v_buffer := v_buffer c', capacity := capacity c'\<rparr>) c'
    \<and> (\<forall>h < kv_heads c. contents c' h = contents c h)
    \<and> (\<forall>h < kv_heads c. \<forall>p < current_pos c. cell c' h p = cell c h p)"
proof -
  obtain mm where mm: "memory c = Some mm" using m by blast
  define N where "N = min (max (capacity c * 2) n) (max_seq_len c)"
  have w: "current_pos c \<le> high_water_pos c" "high_water_pos c \<le> capacity c" "capacity c \<le> max_seq_len c"
    using wf by (auto simp: kv_wf_def)
  then have N: "capacity c \<le> N" "n \<le> N" "N \<le> max_seq_len c" using n by (auto simp: N_def)
  from N(1) w have "current_pos c \<le> N" by simp
  from alloc_and_copy[OF wf mm this al[rule_format]] obtain sz nk nk' nv' where
    g: "grow_buf_size c (N * kv_heads c * head_dim c) = Ok sz" "alloc_kv mm sz (kv_dtype c) = Ok nk"
      "copy_resident c N (nk, nk) = Ok (nk', nv')"
      "realloc_ok N c (c\<lparr>k_buffer := nk', v_buffer := nv', capacity := N\<rparr>)" by blast
  define c' where "c' = c\<lparr>k_buffer := nk', v_buffer := nv', capacity := N\<rparr>"
  have "grow n c = Ok c'" using g mm by (simp add: grow_def c'_def N_def[symmetric] Let_def)
  moreover have "kv_wf c' \<and> (\<forall>h < kv_heads c. contents c' h = contents c h)"
    using realloc_wf[OF wf g(4)] w N unfolding c'_def by simp
  moreover have "\<forall>h < kv_heads c. \<forall>p < current_pos c. cell c' h p = cell c h p"
    using g(4) unfolding c'_def realloc_ok_def by blast
  ultimately show ?thesis using N by (intro exI[of _ c']) (simp add: c'_def)
qed

lemma shrink_target_ge: "cur \<le> shrink_target cur"
proof -
  define x where "x = cur * 3 div 2 + 63"
  have "x - x mod 64 + 63 \<ge> x" using mod_less_divisor[of 64 x] by linarith
  moreover have "x \<ge> cur + 63" by (simp add: x_def)
  ultimately show ?thesis by (simp add: shrink_target_def Let_def x_def[symmetric])
qed

text \<open>Shrinking keeps every resident row and reports the bytes the two buffers lost.\<close>

lemma shrink_ok:
  assumes wf: "kv_wf c" and al: "can_alloc c (shrink_target (current_pos c))"
  shows "\<exists>n c'. shrink_to_fit c = Ok (n, c') \<and> kv_wf c' \<and> capacity c' \<le> capacity c
    \<and> current_pos c' = current_pos c \<and> kv_heads c' = kv_heads c
    \<and> (\<forall>h < kv_heads c. contents c' h = contents c h)"
proof (cases "memory c = None \<or> is_opaque c \<and> layout c \<noteq> HeadMajor \<or> shrink_target (current_pos c) \<ge> capacity c")
  case True
  then have "shrink_to_fit c = Ok (0, c)" by (auto simp: shrink_to_fit_def Let_def split: option.splits)
  with wf show ?thesis by auto
next
  case False
  then obtain m where m: "memory c = Some m" by auto
  define N where "N = shrink_target (current_pos c)"
  have w: "current_pos c \<le> high_water_pos c" "high_water_pos c \<le> capacity c" "capacity c \<le> max_seq_len c"
    "format_ok c" using wf by (auto simp: kv_wf_def)
  have N: "current_pos c \<le> N" "N < capacity c" using False shrink_target_ge by (auto simp: N_def)
  define c0 where "c0 = c\<lparr>high_water_pos := current_pos c\<rparr>"
  have wf0: "kv_wf c0" unfolding c0_def using wf w by (intro kv_wf_hw) auto
  from alloc_and_copy[OF wf m N(1) al[folded N_def]] obtain sz nk nk' nv' where
    g: "grow_buf_size c (N * kv_heads c * head_dim c) = Ok sz" "alloc_kv m sz (kv_dtype c) = Ok nk"
      "copy_resident c N (nk, nk) = Ok (nk', nv')"
      "realloc_ok N c (c\<lparr>k_buffer := nk', v_buffer := nv', capacity := N\<rparr>)" by blast
  from buf_size_units[OF w(4), of "capacity c"] obtain osz where
    osz: "grow_buf_size c (capacity c * kv_heads c * head_dim c) = Ok osz" by blast
  have dt: "(if is_opaque c then D_U8 else kv_dtype c) = kv_dtype c"
    using w(4) by (auto simp: format_ok_def is_opaque_def)
  define c' where "c' = c0\<lparr>k_buffer := nk', v_buffer := nv', capacity := N\<rparr>"
  have "shrink_to_fit c = Ok ((osz - sz) * 2, c')"
    using False m g osz N dt by (auto simp: shrink_to_fit_def N_def[symmetric] Let_def c'_def c0_def)
  moreover have c'': "c' = (c\<lparr>k_buffer := nk', v_buffer := nv', capacity := N\<rparr>)\<lparr>high_water_pos := current_pos c\<rparr>"
    by (simp add: c'_def c0_def)
  have "realloc_ok N c0 c'"
    using g(4) unfolding realloc_ok_def by (auto simp: c'' c0_def)
  from realloc_wf[OF wf0 this] w N have "kv_wf c'" "\<forall>h < kv_heads c. contents c' h = contents c h"
    by (auto simp: c0_def)
  ultimately show ?thesis using N by (auto simp: c'')
qed

section \<open>Releasing pages\<close>

lemma round_bounds:
  assumes "0 < a"
  shows "x \<le> round_up x a" "round_down x a \<le> x"
proof -
  have "(x + a - 1) mod a < a" using assms by simp
  then show "x \<le> round_up x a" unfolding round_up_def using assms by linarith
  show "round_down x a \<le> x" by (simp add: round_down_def)
qed

text \<open>The advice for a range of whole units touches no unit outside it, wherever the pages lie.\<close>

lemma madvise_units:
  assumes "madvise_dontneed os ts addr (A * ts) (B * ts) b = (n, b')" "0 < page_size os" "0 < ts"
  shows "length b' = length b \<and> (\<forall>j < length b. j < A \<or> B \<le> j \<longrightarrow> b' ! j = b ! j)"
proof -
  define lo where "lo = round_up (addr + A * ts) (page_size os)"
  define hi where "hi = round_down (addr + B * ts) (page_size os)"
  have b: "addr + A * ts \<le> lo" "hi \<le> addr + B * ts"
    using round_bounds[OF assms(2)] by (simp_all add: lo_def hi_def)
  have "\<not> (addr + j * ts < hi \<and> lo < addr + (j + 1) * ts)" if "j < A \<or> B \<le> j" for j
  proof
    assume z: "addr + j * ts < hi \<and> lo < addr + (j + 1) * ts"
    with b have "j * ts < B * ts" "A * ts < (j + 1) * ts" by linarith+
    then have "j < B" "A < j + 1" by (simp_all only: mult_less_cancel2)
    with that show False by linarith
  qed
  moreover have "b' = b \<or> b' = zap_range (zap os) ts addr lo hi b"
    using assms(1) by (auto simp: madvise_dontneed_def Let_def lo_def hi_def split: if_splits)
  ultimately show ?thesis by (auto simp: zap_range_def)
qed

lemma rowat_cong:
  assumes "length b' = length b" "\<And>j. i * w \<le> j \<Longrightarrow> j < i * w + w \<Longrightarrow> j < length b \<Longrightarrow> b' ! j = b ! j"
  shows "rowat b' w i = rowat b w i"
  using assms by (intro nth_equalityI) (auto simp: rowat_def)

lemma madvise_rows:
  assumes "madvise_dontneed os ts addr (ra * w * ts) (rb * w * ts) b = (n, b')" "0 < page_size os" "0 < ts"
    "i < ra \<or> rb \<le> i"
  shows "length b' = length b \<and> rowat b' w i = rowat b w i"
proof -
  note u = madvise_units[OF assms(1-3)]
  have "j < ra * w \<or> rb * w \<le> j" if "i * w \<le> j" "j < i * w + w" for j
    using assms(4)
  proof
    assume "i < ra"
    then show ?thesis using that mult_le_mono1[of "Suc i" ra w] by simp
  next
    assume "rb \<le> i"
    then show ?thesis using that mult_le_mono1[of rb i w] by linarith
  qed
  with u show ?thesis by (auto intro!: rowat_cong)
qed

lemma advise_rows:
  assumes "0 < page_size os" "0 < ts" "w = row (snd rc)"
  shows "same_geom (snd rc) (snd (advise os ts (ra * w * ts) (rb * w * ts) rc))"
    and "i < ra \<or> rb \<le> i \<Longrightarrow>
      rowat (k_buffer (snd (advise os ts (ra * w * ts) (rb * w * ts) rc))) w i = rowat (k_buffer (snd rc)) w i
      \<and> rowat (v_buffer (snd (advise os ts (ra * w * ts) (rb * w * ts) rc))) w i = rowat (v_buffer (snd rc)) w i"
proof -
  obtain nk k where k: "madvise_dontneed os ts (k_addr os) (ra * w * ts) (rb * w * ts) (k_buffer (snd rc)) = (nk, k)"
    by fastforce
  obtain nv v where v: "madvise_dontneed os ts (v_addr os) (ra * w * ts) (rb * w * ts) (v_buffer (snd rc)) = (nv, v)"
    by fastforce
  have s: "snd (advise os ts (ra * w * ts) (rb * w * ts) rc) = (snd rc)\<lparr>k_buffer := k, v_buffer := v\<rparr>"
    by (simp add: advise_def k v Let_def)
  show "same_geom (snd rc) (snd (advise os ts (ra * w * ts) (rb * w * ts) rc))"
    unfolding s using madvise_units[OF k assms(1,2)] madvise_units[OF v assms(1,2)] by (intro same_geomI) auto
  show "rowat (k_buffer (snd (advise os ts (ra * w * ts) (rb * w * ts) rc))) w i = rowat (k_buffer (snd rc)) w i
      \<and> rowat (v_buffer (snd (advise os ts (ra * w * ts) (rb * w * ts) rc))) w i = rowat (v_buffer (snd rc)) w i"
    if "i < ra \<or> rb \<le> i"
    unfolding s using madvise_rows[OF k assms(1,2) that] madvise_rows[OF v assms(1,2) that] by simp
qed

text \<open>Two caches with the same geometry and the same resident cells.\<close>

definition resident_eq :: "'u kvcache \<Rightarrow> 'u kvcache \<Rightarrow> bool" where
  "resident_eq c c' \<longleftrightarrow> same_geom c c' \<and> (\<forall>h < kv_heads c. \<forall>p. head_start c h \<le> p \<longrightarrow> p < current_pos c
     \<longrightarrow> cell c' h p = cell c h p)"

lemma advise_resident:
  assumes "0 < page_size os" "0 < ts" "resident_eq c (snd rc)"
    and "\<And>h p. h < kv_heads c \<Longrightarrow> head_start c h \<le> p \<Longrightarrow> p < current_pos c \<Longrightarrow>
      row_ix c h p < ra \<or> rb \<le> row_ix c h p"
  shows "resident_eq c (snd (advise os ts (ra * row c * ts) (rb * row c * ts) rc))"
proof -
  have g: "same_geom c (snd rc)" using assms(3) by (simp add: resident_eq_def)
  note f = same_geom_fields[OF g]
  have w: "row c = row (snd rc)" using f by simp
  note a = advise_rows[OF assms(1,2) w]
  note f2 = same_geom_fields[OF a(1)[of ra rb]]
  show ?thesis unfolding resident_eq_def
  proof (intro conjI allI impI)
    show "same_geom c (snd (advise os ts (ra * row c * ts) (rb * row c * ts) rc))"
      by (rule same_geom_trans[OF g a(1)])
    fix h p assume h: "h < kv_heads c" "head_start c h \<le> p" "p < current_pos c"
    have "cell (snd (advise os ts (ra * row c * ts) (rb * row c * ts) rc)) h p = cell (snd rc) h p"
      using a(2)[OF assms(4)[OF h]] f f2 by (simp add: cell_def)
    with assms(3) h show "cell (snd (advise os ts (ra * row c * ts) (rb * row c * ts) rc)) h p = cell c h p"
      by (simp add: resident_eq_def)
  qed
qed

lemma advise_head_resident:
  assumes os: "0 < page_size os" "0 < ts" and r: "resident_eq c (snd rc)" and w: "row c = head_dim c"
    and l: "layout c = HeadMajor" and wf: "kv_wf c" and h: "h < kv_heads c"
  shows "resident_eq c (snd (advise_head os ts h rc))"
proof -
  have g: "same_geom c (snd rc)" using r by (simp add: resident_eq_def)
  note f = same_geom_fields[OF g]
  let ?C = "capacity c" and ?cur = "current_pos c" and ?hw = "high_water_pos c"
  have b: "?cur \<le> ?hw" "?hw \<le> ?C" using wf by (auto simp: kv_wf_def)
  have hs: "head_start c h \<le> ?cur"
    using wf by (auto simp: kv_wf_def head_start_def list_all_length)
  define rc1 where "rc1 = advise os ts ((h * ?C + ?cur) * row c * ts) ((h * ?C + ?hw) * row c * ts) rc"
  have blk: "h * ?C + a \<le> h' * ?C + p \<and> h' * ?C + p < h * ?C + a + n \<longleftrightarrow> h' = h \<and> a \<le> p \<and> p < a + n"
    if "h' < kv_heads c" "p < ?cur" "a + n \<le> ?C" for h' p a n
    using head_block[of h' "kv_heads c" p ?C h a n] that h b by simp
  have r1: "resident_eq c (snd rc1)" unfolding rc1_def
  proof (rule advise_resident[OF os r])
    fix h' p assume hp: "h' < kv_heads c" "head_start c h' \<le> p" "p < ?cur"
    from blk[OF hp(1,3), of ?cur "?hw - ?cur"] b hp(3)
    show "row_ix c h' p < h * ?C + ?cur \<or> h * ?C + ?hw \<le> row_ix c h' p"
      using l by (auto simp: row_ix_def)
  qed
  have r2: "resident_eq c (snd (advise os ts ((h * ?C) * row c * ts) ((h * ?C + head_start c h) * row c * ts) rc1))"
  proof (rule advise_resident[OF os r1])
    fix h' p assume hp: "h' < kv_heads c" "head_start c h' \<le> p" "p < ?cur"
    from blk[OF hp(1,3), of 0 "head_start c h"] b hs hp(2)
    show "row_ix c h' p < h * ?C \<or> h * ?C + head_start c h \<le> row_ix c h' p"
      using l by (auto simp: row_ix_def)
  qed
  have "advise_head os ts h rc = (if head_start c h * head_dim c * ts > 0
      then advise os ts ((h * ?C) * row c * ts) ((h * ?C + head_start c h) * row c * ts) rc1 else rc1)"
    using f w by (simp add: advise_head_def Let_def rc1_def add_mult_distrib mult.assoc)
  with r1 r2 show ?thesis by simp
qed

lemma release_pages_ok:
  assumes wf: "kv_wf c" and os: "0 < page_size os" "0 < ts" and w: "row c = head_dim c"
    and rp: "release_pages os ts c = (n, c')"
  shows "kv_wf c' \<and> current_pos c' = current_pos c \<and> kv_heads c' = kv_heads c
    \<and> (\<forall>h < kv_heads c. contents c' h = contents c h)"
proof -
  define rc where "rc = (case layout c of
            SeqMajor \<Rightarrow>
              (let row_bytes = kv_heads c * head_dim c * ts in
               advise os ts (current_pos c * row_bytes) (high_water_pos c * row_bytes) (0, c))
          | HeadMajor \<Rightarrow> fold (advise_head os ts) [0..<kv_heads c] (0, c))"
  have base: "resident_eq c (snd (0 :: nat, c))" by (simp add: resident_eq_def)
  have "resident_eq c (snd rc)"
  proof (cases "layout c")
    case SeqMajor
    have "row_ix c h p < current_pos c * kv_heads c" if "h < kv_heads c" "p < current_pos c" for h p
    proof -
      have "p * kv_heads c + h < Suc p * kv_heads c" using that(1) by simp
      also have "\<dots> \<le> current_pos c * kv_heads c" using that(2) by (intro mult_le_mono1) simp
      finally show ?thesis using SeqMajor by (simp add: row_ix_def)
    qed
    then have "resident_eq c (snd (advise os ts (current_pos c * kv_heads c * row c * ts)
        (high_water_pos c * kv_heads c * row c * ts) (0, c)))"
      by (intro advise_resident[OF os base]) blast
    then show ?thesis using SeqMajor w by (simp add: rc_def Let_def mult.assoc)
  next
    case HeadMajor
    have "resident_eq c (snd (fold (advise_head os ts) [0..<kv_heads c] (0, c)))"
      by (rule fold_invariant[where Q = "\<lambda>h. h < kv_heads c"])
        (use base advise_head_resident[OF os _ w HeadMajor wf] in auto)
    then show ?thesis using HeadMajor by (simp add: rc_def)
  qed
  moreover have c': "c' = (snd rc)\<lparr>high_water_pos := current_pos c\<rparr>"
    using rp by (simp add: release_pages_def rc_def Let_def)
  ultimately have g: "same_geom c (snd rc)"
    and cells: "\<forall>h < kv_heads c. \<forall>p. head_start c h \<le> p \<longrightarrow> p < current_pos c \<longrightarrow> cell (snd rc) h p = cell c h p"
    by (auto simp: resident_eq_def)
  note f = same_geom_fields[OF g]
  have "kv_wf (snd rc)" using wf same_geom_wf[OF g] by simp
  then have "kv_wf c'" unfolding c' using f by (intro kv_wf_hw) (auto simp: kv_wf_def)
  moreover have "contents c' h = contents c h" if "h < kv_heads c" for h
    unfolding c' hw_upd using cells that by (intro contents_eqI) (auto simp: f)
  ultimately show ?thesis using f by (auto simp: c')
qed

text \<open>If the allocator refuses, shrinking reports it before it has touched the cache.\<close>

lemma shrink_refused:
  assumes wf: "kv_wf c" and al: "\<not> can_alloc c (shrink_target (current_pos c))"
  shows "shrink_to_fit c = Ok (0, c) \<or> shrink_to_fit c = Err AllocFailed"
proof -
  define N where "N = shrink_target (current_pos c)"
  from al obtain m sz where m: "memory c = Some m" "grow_buf_size c (N * kv_heads c * head_dim c) = Ok sz"
    "m sz (kv_dtype c) = None" by (auto simp: can_alloc_def N_def)
  have f: "format_ok c" using wf by (simp add: kv_wf_def)
  from buf_size_units[OF f, of "capacity c"] obtain osz where
    "grow_buf_size c (capacity c * kv_heads c * head_dim c) = Ok osz" by blast
  moreover have "(if is_opaque c then D_U8 else kv_dtype c) = kv_dtype c"
    using f by (auto simp: format_ok_def is_opaque_def)
  ultimately show ?thesis using m by (auto simp: shrink_to_fit_def N_def[symmetric] Let_def alloc_kv_def)
qed

lemma release_unused_pages_ok:
  assumes wf: "kv_wf c" and os: "0 < page_size os"
  shows "\<exists>n c'. release_unused_pages os c = Ok (n, c') \<and> kv_wf c' \<and> current_pos c' = current_pos c
    \<and> kv_heads c' = kv_heads c \<and> (\<forall>h < kv_heads c. contents c' h = contents c h)"
proof -
  have w: "kv_dtype c \<in> {D_F16, D_F32} \<Longrightarrow> row c = head_dim c"
    using wf by (auto simp: kv_wf_def format_ok_def row_def is_q4_def split: option.splits)
  have fin: "\<exists>n c'. Ok (release_pages os ts c) = Ok (n, c') \<and> kv_wf c' \<and> current_pos c' = current_pos c
    \<and> kv_heads c' = kv_heads c \<and> (\<forall>h < kv_heads c. contents c' h = contents c h)"
    if "row c = head_dim c" "0 < ts" for ts
  proof -
    obtain n c' where r: "release_pages os ts c = (n, c')" by fastforce
    from release_pages_ok[OF wf os that(2,1) r] r show ?thesis by blast
  qed
  show ?thesis
  proof (cases "memory c \<noteq> None \<and> current_pos c * 4 < capacity c * 3")
    case True
    with shrink_ok[OF wf] shrink_refused[OF wf] wf show ?thesis
      by (cases "can_alloc c (shrink_target (current_pos c))") (auto simp: release_unused_pages_def)
  next
    case False
    with fin[of 2] fin[of 4] w wf show ?thesis by (auto simp: release_unused_pages_def)
  qed
qed

section \<open>Pruning\<close>

lemma prune_contents_list:
  assumes "\<And>p. p < cur - n \<Longrightarrow> g p = f (n + p)" "n \<le> cur"
  shows "map g [hs - n..<cur - n] = drop (n - hs) (map f [hs..<cur :: nat])"
proof (rule nth_equalityI)
  show "length (map g [hs - n..<cur - n]) = length (drop (n - hs) (map f [hs..<cur]))" by auto
  fix i assume "i < length (map g [hs - n..<cur - n])"
  then have i: "hs - n + i < cur - n" by simp
  have eq: "n + (hs - n + i) = hs + (n - hs + i)" by simp
  show "map g [hs - n..<cur - n] ! i = drop (n - hs) (map f [hs..<cur]) ! i"
    using assms(1)[OF i] i unfolding eq by simp
qed

text \<open>The head starts after the prefix left: every hole shrinks by the same amount.\<close>

definition prune_starts :: "nat \<Rightarrow> 'u kvcache \<Rightarrow> 'u kvcache" where
  "prune_starts n c = (if is_ragged c then set_head_starts (map (\<lambda>s. s - n) (head_starts c)) c else c)"

lemma prune_starts_upd:
  obtains hs dirty where "prune_starts n c = c\<lparr>head_starts_raw := hs, head_start_dirty := dirty\<rparr>"
proof (cases "is_ragged c")
  case True
  then show ?thesis using that by (simp add: prune_starts_def set_head_starts_def)
next
  case False
  have "c = c\<lparr>head_starts_raw := head_starts_raw c, head_start_dirty := head_start_dirty c\<rparr>" by simp
  with False show ?thesis using that by (metis prune_starts_def)
qed

lemma starts_upd [simp]:
  "row (c\<lparr>head_starts_raw := hs, head_start_dirty := b\<rparr>) = row c"
  "cell (c\<lparr>head_starts_raw := hs, head_start_dirty := b\<rparr>) = cell c"
  "format_ok (c\<lparr>head_starts_raw := hs, head_start_dirty := b\<rparr>) = format_ok c"
  "bufs_ok (c\<lparr>head_starts_raw := hs, head_start_dirty := b\<rparr>) = bufs_ok c"
proof -
  show r: "row (c\<lparr>head_starts_raw := hs, head_start_dirty := b\<rparr>) = row c"
    by (auto simp: row_def is_q4_def split: option.splits)
  show "cell (c\<lparr>head_starts_raw := hs, head_start_dirty := b\<rparr>) = cell c"
    by (auto simp: cell_def r row_ix_def fun_eq_iff split: kv_layout.splits)
  show "format_ok (c\<lparr>head_starts_raw := hs, head_start_dirty := b\<rparr>) = format_ok c"
    by (auto simp: format_ok_def split: option.splits)
  show "bufs_ok (c\<lparr>head_starts_raw := hs, head_start_dirty := b\<rparr>) = bufs_ok c"
    by (simp add: bufs_ok_def r)
qed

lemma head_start_le: "kv_wf c \<Longrightarrow> head_start c h \<le> current_pos c"
  by (auto simp: kv_wf_def head_start_def list_all_length)

lemma prune_starts_head:
  assumes "kv_wf c" "h < kv_heads c"
  shows "head_start (prune_starts n c) h = head_start c h - n"
proof (cases "is_ragged c")
  case True
  have "head_start c h - n \<le> current_pos c" using head_start_le[OF assms(1), of h] by simp
  moreover have "list_all (\<lambda>s. s = 0) (map (\<lambda>s. s - n) (head_starts c)) \<Longrightarrow> head_start c h - n = 0"
    using assms(2) by (auto simp: list_all_length head_starts_def)
  ultimately show ?thesis
    using True assms(2) by (auto simp: prune_starts_def set_head_starts_def head_start_def[of "_\<lparr>head_starts_raw := _, head_start_dirty := _\<rparr>"] head_starts_def)
next
  case False
  then have "head_start c h = 0" by (auto simp: is_ragged_def head_start_def list_ex_iff)
  with False show ?thesis by (simp add: prune_starts_def)
qed

lemma pos_upd:
  "row (c\<lparr>current_pos := x\<rparr>) = row c" "cell (c\<lparr>current_pos := x\<rparr>) = cell c"
  "head_start (c\<lparr>current_pos := x\<rparr>) = head_start c" "format_ok (c\<lparr>current_pos := x\<rparr>) = format_ok c"
  "bufs_ok (c\<lparr>current_pos := x\<rparr>) = bufs_ok c"
proof -
  show r: "row (c\<lparr>current_pos := x\<rparr>) = row c" by (auto simp: row_def is_q4_def split: option.splits)
  show "cell (c\<lparr>current_pos := x\<rparr>) = cell c"
    by (auto simp: cell_def r row_ix_def fun_eq_iff split: kv_layout.splits)
  show "head_start (c\<lparr>current_pos := x\<rparr>) = head_start c" by (simp add: head_start_def fun_eq_iff)
  show "format_ok (c\<lparr>current_pos := x\<rparr>) = format_ok c" by (auto simp: format_ok_def split: option.splits)
  show "bufs_ok (c\<lparr>current_pos := x\<rparr>) = bufs_ok c" by (simp add: bufs_ok_def r)
qed

lemma head_starts_raw_prune:
  assumes "kv_wf c" "n < current_pos c"
  shows "head_starts_raw (prune_starts n c) = [] \<or>
    length (head_starts_raw (prune_starts n c)) = kv_heads c
    \<and> list_all (\<lambda>s. s \<le> current_pos c - n) (head_starts_raw (prune_starts n c))"
proof (cases "is_ragged c")
  case True
  have "min (head_start c h - n) (current_pos c) \<le> current_pos c - n" for h
    using head_start_le[OF assms(1), of h] by linarith
  with True show ?thesis
    by (auto simp: prune_starts_def set_head_starts_def head_starts_def list_all_iff)
next
  case False
  then have "list_all (\<lambda>s. s = 0) (head_starts_raw c)" by (auto simp: is_ragged_def list_ex_iff list_all_iff)
  then show ?thesis using False assms(1) by (auto simp: prune_starts_def kv_wf_def list_all_iff)
qed

text \<open>\<open>prune_prefix\<close> drops the pruned positions from every head and keeps the rest, in order.\<close>

lemma prune_prefix_ok:
  assumes wf: "kv_wf c" and os: "0 < page_size os" and n: "n \<le> current_pos c"
  shows "\<exists>c'. prune_prefix os n c = Ok c' \<and> kv_wf c' \<and> current_pos c' = current_pos c - n
    \<and> kv_heads c' = kv_heads c
    \<and> (\<forall>h < kv_heads c. contents c' h = drop (n - head_start c h) (contents c h))"
proof (cases "n = 0 \<or> n = current_pos c")
  case True
  show ?thesis
  proof (cases "n = 0")
    case True
    then show ?thesis using wf by (simp add: prune_prefix_def)
  next
    case False
    define c' where "c' = c\<lparr>current_pos := 0, high_water_pos := 0, head_starts_raw := []\<rparr>"
    have n: "n = current_pos c" using True False by simp
    have "prune_prefix os n c = Ok c'" using False n by (simp add: prune_prefix_def c'_def)
    moreover have "kv_wf c'" using wf
      by (auto simp: kv_wf_def c'_def format_ok_def bufs_ok_def row_def is_q4_def split: option.splits)
    moreover have "contents c' h = drop (n - head_start c h) (contents c h)" for h
      by (simp add: contents_def c'_def n)
    ultimately show ?thesis by (auto simp: c'_def n)
  qed
next
  case False
  define r where "r = current_pos c - n"
  have r: "n < current_pos c" "0 < r" "n + r = current_pos c" using False n by (auto simp: r_def)
  obtain hs b where c1: "prune_starts n c = c\<lparr>head_starts_raw := hs, head_start_dirty := b\<rparr>" (is "_ = ?c1")
    by (rule prune_starts_upd)
  have w: "format_ok c" "bufs_ok c" "current_pos c \<le> high_water_pos c" "high_water_pos c \<le> capacity c"
    "capacity c \<le> max_seq_len c" using wf by (auto simp: kv_wf_def)
  have "n + r \<le> capacity ?c1" "0 + r \<le> capacity ?c1" using r w by auto
  then obtain c2 where c2: "shift_positions n 0 r ?c1 = Ok c2" "cells_moved {..<kv_heads c} n 0 r ?c1 c2"
    using shift_positions_moves[of ?c1 n r 0] w by auto
  have sh: "shift_positions n 0 r ?c1 = (case layout c of
        SeqMajor \<Rightarrow> if is_opaque ?c1 then Err (OpaqueSeqMajor ''shift_positions'') else shift_seq_major n 0 r ?c1
      | HeadMajor \<Rightarrow> shift_head_major [0..<kv_heads c] n 0 r ?c1)"
    using r False by (simp add: shift_positions_def cong: kv_layout.case_cong)
  define c3 where "c3 = c2\<lparr>current_pos := r\<rparr>"
  note g = cells_moved_geom[OF c2(2)]
  note f = same_geom_fields[OF g]
  have hs: "head_start c2 h = head_start c h - n" if "h < kv_heads c" for h
    using prune_starts_head[OF wf that, of n] f(18) by (simp add: c1)
  have "hs = [] \<or> length hs = kv_heads c \<and> list_all (\<lambda>s. s \<le> r) hs"
    using head_starts_raw_prune[OF wf r(1)] by (simp add: c1 r_def)
  moreover have "format_ok c2" "bufs_ok c2" using geom_ok[OF g] w by simp_all
  ultimately have wf3: "kv_wf c3"
    using w r f wf by (auto simp: c3_def kv_wf_def pos_upd split: option.splits)
  have cells: "contents c3 h = drop (n - head_start c h) (contents c h)" if "h < kv_heads c" for h
  proof -
    have "cell c2 h p = cell c h (n + p)" if "p < r" for p
      using c2(2) \<open>h < kv_heads c\<close> that r w by (simp add: cells_moved_def)
    then have "map (cell c2 h) [head_start c h - n..<current_pos c - n]
        = drop (n - head_start c h) (map (cell c h) [head_start c h..<current_pos c])"
      by (intro prune_contents_list) (use r in \<open>auto simp: r_def\<close>)
    then show ?thesis using hs[OF that] by (simp add: contents_def c3_def pos_upd r_def)
  qed
  from release_unused_pages_ok[OF wf3 os] obtain k c4 where
    c4: "release_unused_pages os c3 = Ok (k, c4)" "kv_wf c4" "current_pos c4 = current_pos c3"
      "kv_heads c4 = kv_heads c3" "\<forall>h < kv_heads c3. contents c4 h = contents c3 h" by blast
  have "prune_prefix os n c = and_then (shift_positions n 0 r ?c1) (\<lambda>c.
      and_then (release_unused_pages os (c\<lparr>current_pos := r\<rparr>)) (\<lambda>(_, c). Ok c))"
  proof -
    have "\<not> (is_opaque ?c1 \<and> layout c = SeqMajor)"
      using w(1) by (auto simp: format_ok_def is_opaque_def split: option.splits)
    then show ?thesis using False n r unfolding sh
      by (auto simp: prune_prefix_def Let_def prune_starts_def[symmetric] c1 r_def[symmetric]
          split: kv_layout.splits)
  qed
  then have "prune_prefix os n c = Ok c4" using c2(1) c4(1) by (simp add: c3_def)
  moreover have "kv_heads c3 = kv_heads c" "current_pos c3 = r" using f by (simp_all add: c3_def)
  ultimately show ?thesis using c4 cells by (auto simp: r_def)
qed

section \<open>Appending\<close>

text \<open>The row of token \<open>s\<close> and head \<open>h\<close> in the sequence-major input.\<close>

definition in_row :: "nat \<Rightarrow> nat \<Rightarrow> 'u list \<Rightarrow> 'u list \<Rightarrow> nat \<Rightarrow> nat \<Rightarrow> 'u list \<times> 'u list" where
  "in_row H w nk nv h s = (rowat nk w (s * H + h), rowat nv w (s * H + h))"

lemma copy_in_rows:
  assumes b: "bufs_ok c" and n: "length nk = M * row c" "length nv = M * row c"
    and s: "s + n \<le> M" and d: "d + n \<le> kv_heads c * capacity c"
  shows "\<exists>c'. copy_in nk nv (s * row c) (d * row c) (n * row c) c = Ok c' \<and> same_geom c c'
    \<and> (\<forall>h < kv_heads c. \<forall>p < capacity c. cell c' h p =
        (if d \<le> row_ix c h p \<and> row_ix c h p < d + n
         then (rowat nk (row c) (s + (row_ix c h p - d)), rowat nv (row c) (s + (row_ix c h p - d)))
         else cell c h p))"
proof -
  let ?N = "kv_heads c * capacity c" and ?w = "row c"
  have bl: "length (k_buffer c) = ?N * ?w" "length (v_buffer c) = ?N * ?w" using b by (simp_all add: bufs_ok_def)
  from copy_slice_rows[OF n(1) bl(1) s d] obtain k where k: "copy_slice nk (k_buffer c) (s * ?w) (d * ?w) (n * ?w) = Ok k"
    "length k = length (k_buffer c)"
    "\<forall>i < ?N. rowat k ?w i = (if d \<le> i \<and> i < d + n then rowat nk ?w (s + (i - d)) else rowat (k_buffer c) ?w i)" by blast
  from copy_slice_rows[OF n(2) bl(2) s d] obtain v where v: "copy_slice nv (v_buffer c) (s * ?w) (d * ?w) (n * ?w) = Ok v"
    "length v = length (v_buffer c)"
    "\<forall>i < ?N. rowat v ?w i = (if d \<le> i \<and> i < d + n then rowat nv ?w (s + (i - d)) else rowat (v_buffer c) ?w i)" by blast
  show ?thesis
    by (rule exI[of _ "c\<lparr>k_buffer := k, v_buffer := v\<rparr>"])
      (use k v row_ix_less[of _ c] in \<open>auto simp: copy_in_def same_geomI cell_def\<close>)
qed

text \<open>Scattering tokens in head-major layout, one (token, head) row at a time.\<close>

lemma scatter_rows:
  assumes b: "bufs_ok c" and l: "layout c = HeadMajor" and cur: "cur + S \<le> capacity c"
    and n: "length nk = S * kv_heads c * row c" "length nv = S * kv_heads c * row c"
    and xs: "\<forall>(s, h) \<in> set xs. s < S \<and> h < kv_heads c"
  shows "\<exists>c'. try_fold (\<lambda>(s, h). copy_in nk nv ((s * kv_heads c + h) * row c)
        ((h * capacity c + cur + s) * row c) (1 * row c)) xs c = Ok c' \<and> same_geom c c'
    \<and> (\<forall>h < kv_heads c. \<forall>p < capacity c. cell c' h p =
        (if cur \<le> p \<and> (p - cur, h) \<in> set xs then in_row (kv_heads c) (row c) nk nv h (p - cur) else cell c h p))"
  using b l cur n xs
proof (induction xs arbitrary: c)
  case Nil
  then show ?case by simp
next
  case (Cons x xs)
  obtain s h where x: "x = (s, h)" by (cases x)
  let ?H = "kv_heads c" and ?C = "capacity c" and ?w = "row c"
  from Cons.prems(6) x have sh: "s < S" "h < ?H" by auto
  have src: "s * ?H + h + 1 \<le> S * ?H" using mult_le_mono1[of "Suc s" S ?H] sh by simp
  have dst: "h * ?C + cur + s + 1 \<le> ?H * ?C" using mult_le_mono1[of "Suc h" ?H ?C] sh Cons.prems(3) by simp
  from copy_in_rows[OF Cons.prems(1,4,5) src dst] obtain c1 where
    c1: "copy_in nk nv ((s * ?H + h) * ?w) ((h * ?C + cur + s) * ?w) (1 * ?w) c = Ok c1" "same_geom c c1"
    "\<forall>h' < ?H. \<forall>p < ?C. cell c1 h' p =
        (if h * ?C + cur + s \<le> row_ix c h' p \<and> row_ix c h' p < h * ?C + cur + s + 1
         then (rowat nk ?w (s * ?H + h + (row_ix c h' p - (h * ?C + cur + s))),
               rowat nv ?w (s * ?H + h + (row_ix c h' p - (h * ?C + cur + s))))
         else cell c h' p)" by blast
  note f = same_geom_fields[OF c1(2)]
  have one: "cell c1 h' p = (if h' = h \<and> p = cur + s then in_row ?H ?w nk nv h s else cell c h' p)"
    if "h' < ?H" "p < ?C" for h' p
  proof -
    have r: "row_ix c h' p = h' * ?C + p" using Cons.prems(2) by (simp add: row_ix_def)
    have "h * ?C + (cur + s) \<le> h' * ?C + p \<and> h' * ?C + p < h * ?C + (cur + s) + 1 \<longleftrightarrow> h' = h \<and> p = cur + s"
      using head_block[OF that sh(2), of "cur + s" 1] sh Cons.prems(3) by auto
    with c1(3)[rule_format, OF that] r show ?thesis by (auto simp: in_row_def add.assoc)
  qed
  have "bufs_ok c1" using Cons.prems(1) c1(2) f unfolding bufs_ok_def same_geom_def by simp
  from Cons.IH[OF this] Cons.prems f obtain c2 where
    c2: "try_fold (\<lambda>(s, h). copy_in nk nv ((s * ?H + h) * ?w) ((h * ?C + cur + s) * ?w) (1 * ?w)) xs c1 = Ok c2"
    "same_geom c1 c2"
    "\<forall>h < ?H. \<forall>p < ?C. cell c2 h p =
        (if cur \<le> p \<and> (p - cur, h) \<in> set xs then in_row ?H ?w nk nv h (p - cur) else cell c1 h p)"
    by auto
  have "cell c2 h' p = (if cur \<le> p \<and> (p - cur, h') \<in> set (x # xs)
      then in_row ?H ?w nk nv h' (p - cur) else cell c h' p)" if "h' < ?H" "p < ?C" for h' p
    unfolding c2(3)[rule_format, OF that] one[OF that] using x by auto
  moreover have "try_fold (\<lambda>(s, h). copy_in nk nv ((s * ?H + h) * ?w) ((h * ?C + cur + s) * ?w) (1 * ?w)) (x # xs) c = Ok c2"
    using c1(1) c2(1) x by simp
  ultimately show ?case using same_geom_trans[OF c1(2) c2(2)] by blast
qed

text \<open>A typed write puts the input rows behind the resident ones and changes no other cell.\<close>

lemma update_typed_cells:
  assumes wf: "format_ok c" "bufs_ok c" and o: "\<not> is_opaque c" and cur: "current_pos c + S \<le> capacity c"
    and n: "length nk = S * kv_heads c * row c" "length nv = S * kv_heads c * row c"
  shows "\<exists>c'. update_typed nk nv S c = Ok c' \<and> same_geom c c'
    \<and> (\<forall>h < kv_heads c. \<forall>p < capacity c. cell c' h p =
        (if current_pos c \<le> p \<and> p < current_pos c + S
         then in_row (kv_heads c) (row c) nk nv h (p - current_pos c) else cell c h p))"
proof (cases "layout c")
  case SeqMajor
  let ?H = "kv_heads c" and ?C = "capacity c" and ?w = "row c" and ?cur = "current_pos c"
  have eq: "update_typed nk nv S c = copy_in nk nv (0 * ?w) (?cur * ?H * ?w) (S * ?H * ?w) c"
    using SeqMajor row_q4(2)[OF wf(1) o, of ?H] row_elem[OF o]
    by (cases "is_q4 c") (simp_all add: update_typed_def Let_def mult.assoc)
  have fit: "0 + S * ?H \<le> S * ?H" "?cur * ?H + S * ?H \<le> ?H * ?C"
    using mult_le_mono1[OF cur, of ?H] by (simp_all only: add_mult_distrib mult.commute[of ?H ?C] add_0 order_refl)
  from copy_in_rows[OF wf(2) n fit] obtain c' where
    c': "update_typed nk nv S c = Ok c'" "same_geom c c'"
    "\<forall>h < ?H. \<forall>p < ?C. cell c' h p =
        (if ?cur * ?H \<le> row_ix c h p \<and> row_ix c h p < ?cur * ?H + S * ?H
         then (rowat nk ?w (0 + (row_ix c h p - ?cur * ?H)), rowat nv ?w (0 + (row_ix c h p - ?cur * ?H)))
         else cell c h p)" unfolding eq by blast
  have "cell c' h p = (if ?cur \<le> p \<and> p < ?cur + S then in_row ?H ?w nk nv h (p - ?cur) else cell c h p)"
    if "h < ?H" "p < ?C" for h p
  proof -
    have r: "row_ix c h p = p * ?H + h" using SeqMajor by (simp add: row_ix_def)
    have "p * ?H + h - ?cur * ?H = (p - ?cur) * ?H + h" if "?cur \<le> p"
      using mult_le_mono1[OF that, of ?H] by (simp add: diff_mult_distrib)
    then show ?thesis
      using c'(3)[rule_format, OF that] seq_block[OF that(1), of ?cur p S]
      unfolding r add_mult_distrib[symmetric] by (auto simp: in_row_def)
  qed
  with c'(1,2) show ?thesis by blast
next
  case HeadMajor
  let ?H = "kv_heads c" and ?C = "capacity c" and ?w = "row c" and ?cur = "current_pos c"
  have off: "s * (?H * ?w) + h * ?w = (s * ?H + h) * ?w" "h * (?C * ?w) + ?cur * ?w + s * ?w = (h * ?C + ?cur + s) * ?w"
    for s h by (simp_all add: add_mult_distrib)
  have "update_typed nk nv S c = scatter nk nv S (?H * ?w) (?C * ?w) (?cur * ?w) ?w c"
    using HeadMajor row_q4[OF wf(1) o] row_elem[OF o]
    by (cases "is_q4 c") (simp_all add: update_typed_def)
  then have eq: "update_typed nk nv S c = try_fold (\<lambda>(s, h). copy_in nk nv ((s * ?H + h) * ?w)
        ((h * ?C + ?cur + s) * ?w) (1 * ?w)) (token_heads S ?H) c"
    by (simp add: scatter_def off)
  have xs: "\<forall>(s, h) \<in> set (token_heads S ?H). s < S \<and> h < ?H" by (auto simp: token_heads_def)
  from scatter_rows[OF wf(2) HeadMajor cur n xs] obtain c' where
    c': "update_typed nk nv S c = Ok c'" "same_geom c c'"
    "\<forall>h < ?H. \<forall>p < ?C. cell c' h p = (if ?cur \<le> p \<and> (p - ?cur, h) \<in> set (token_heads S ?H)
        then in_row ?H ?w nk nv h (p - ?cur) else cell c h p)"
    unfolding eq by blast
  have "cell c' h p = (if ?cur \<le> p \<and> p < ?cur + S then in_row ?H ?w nk nv h (p - ?cur) else cell c h p)"
    if "h < ?H" "p < ?C" for h p
    using c'(3) that by (auto simp: token_heads_def)
  with c'(1,2) show ?thesis by blast
qed

lemma advance_pos_fields [simp]:
  "current_pos (advance_pos n c) = current_pos c + n" "head_start (advance_pos n c) = head_start c"
  "kv_heads (advance_pos n c) = kv_heads c" "cell (advance_pos n c) = cell c" "row (advance_pos n c) = row c"
proof -
  show r: "row (advance_pos n c) = row c" by (auto simp: advance_pos_def row_def is_q4_def split: option.splits)
  show "cell (advance_pos n c) = cell c"
    by (auto simp: cell_def r fun_eq_iff) (auto simp: advance_pos_def row_ix_def split: kv_layout.splits)
qed (auto simp: advance_pos_def head_start_def fun_eq_iff)

lemma advance_pos_wf:
  "kv_wf c \<Longrightarrow> current_pos c + n \<le> capacity c \<Longrightarrow> kv_wf (advance_pos n c)"
  unfolding kv_wf_def bufs_ok_def advance_pos_fields
  by (auto simp: advance_pos_def format_ok_def list_all_iff split: option.splits)

lemma update_typed_contents:
  assumes wf: "kv_wf c" and o: "\<not> is_opaque c" and cur: "current_pos c + S \<le> capacity c"
    and n: "length nk = S * kv_heads c * row c" "length nv = S * kv_heads c * row c"
  shows "\<exists>c'. update_typed nk nv S c = Ok c' \<and> kv_wf (advance_pos S c')
    \<and> (\<forall>h < kv_heads c. contents (advance_pos S c') h
         = contents c h @ map (in_row (kv_heads c) (row c) nk nv h) [0..<S])"
proof -
  have w: "format_ok c" "bufs_ok c" using wf by (auto simp: kv_wf_def)
  from update_typed_cells[OF w o cur n] obtain c' where
    c': "update_typed nk nv S c = Ok c'" "same_geom c c'"
    "\<forall>h < kv_heads c. \<forall>p < capacity c. cell c' h p =
        (if current_pos c \<le> p \<and> p < current_pos c + S
         then in_row (kv_heads c) (row c) nk nv h (p - current_pos c) else cell c h p)" by blast
  note f = same_geom_fields[OF c'(2)]
  have "kv_wf (advance_pos S c')" using wf same_geom_wf[OF c'(2)] f cur by (intro advance_pos_wf) auto
  moreover have "contents (advance_pos S c') h
      = contents c h @ map (in_row (kv_heads c) (row c) nk nv h) [0..<S]" if h: "h < kv_heads c" for h
  proof -
    have hs: "head_start c h \<le> current_pos c" by (rule head_start_le[OF wf])
    have "[head_start c h..<current_pos c + S] = [head_start c h..<current_pos c]
        @ map (\<lambda>s. s + current_pos c) [0..<S]"
      using upt_add_eq_append[OF hs, of S] by (simp add: map_add_upt add.commute)
    moreover have "map (cell c' h) [head_start c h..<current_pos c] = contents c h"
      using c'(3) h cur by (auto simp: contents_def)
    moreover have "map (cell c' h) (map (\<lambda>s. s + current_pos c) [0..<S])
        = map (in_row (kv_heads c) (row c) nk nv h) [0..<S]"
      using c'(3) h cur by auto
    ultimately show ?thesis by (simp add: contents_def f)
  qed
  ultimately show ?thesis using c'(1) by blast
qed

text \<open>\<open>update\<close> on a typed cache: grow if needed, write, advance.\<close>

lemma update_ok:
  assumes wf: "kv_wf c" and o: "\<not> is_opaque c" and fits: "current_pos c + S \<le> max_seq_len c"
    and room: "current_pos c + S \<le> capacity c \<or> memory c \<noteq> None \<and> (\<forall>N. can_alloc c N)"
    and n: "length nk = S * kv_heads c * row c" "length nv = S * kv_heads c * row c"
  shows "\<exists>c'. update enc (Units nk) (Units nv) S c = Ok c' \<and> kv_wf c'
    \<and> (\<forall>h < kv_heads c. contents c' h = contents c h @ map (in_row (kv_heads c) (row c) nk nv h) [0..<S])"
proof -
  have "\<exists>g. (if current_pos c + S > capacity c
        then (if current_pos c + S > max_seq_len c then Err KvOverflow else grow (current_pos c + S) c)
        else Ok c) = Ok g \<and> kv_wf g \<and> \<not> is_opaque g \<and> current_pos g + S \<le> capacity g
      \<and> kv_heads g = kv_heads c \<and> row g = row c \<and> (\<forall>h < kv_heads c. contents g h = contents c h)"
  proof (cases "current_pos c + S \<le> capacity c")
    case True
    then show ?thesis using wf o by auto
  next
    case False
    with room have "memory c \<noteq> None" "\<forall>N. can_alloc c N" by auto
    from grow_ok[OF wf this(1) fits this(2)] obtain g where g: "grow (current_pos c + S) c = Ok g" "kv_wf g"
      "current_pos c + S \<le> capacity g"
      "same_geom (c\<lparr>k_buffer := k_buffer g, v_buffer := v_buffer g, capacity := capacity g\<rparr>) g"
      "\<forall>h < kv_heads c. contents g h = contents c h" by blast
    note f = same_geom_fields[OF g(4)]
    with g o fits False show ?thesis by (intro exI[of _ g]) auto
  qed
  then obtain g where g: "(if current_pos c + S > capacity c
        then (if current_pos c + S > max_seq_len c then Err KvOverflow else grow (current_pos c + S) c)
        else Ok c) = Ok g" "kv_wf g" "\<not> is_opaque g" "current_pos g + S \<le> capacity g"
      "kv_heads g = kv_heads c" "row g = row c" "\<forall>h < kv_heads c. contents g h = contents c h" by blast
  from update_typed_contents[OF g(2-4), of nk nv] n g(5,6) obtain c' where
    "update_typed nk nv S g = Ok c'" "kv_wf (advance_pos S c')"
    "\<forall>h < kv_heads c. contents (advance_pos S c') h
       = contents g h @ map (in_row (kv_heads c) (row c) nk nv h) [0..<S]" by auto
  with g show ?thesis unfolding update_def by auto
qed

end
