(* ===== verification/Kv_Config.thy ===== *)
theory Kv_Config
  imports Kv_Contents
begin

text \<open>
  What the operations of the KV cache never change: the storage format, the number and width of the
  heads, the layout and the memory handle; a cache without a memory handle also keeps its capacity, and a
  uniform cache stays uniform.
\<close>

definition derived :: "'u kvcache \<Rightarrow> 'u kvcache \<Rightarrow> bool" where
  "derived c c' \<longleftrightarrow> kv_dtype c' = kv_dtype c \<and> opaque c' = opaque c \<and> host_managed c' = host_managed c
     \<and> max_seq_len c' = max_seq_len c \<and> kv_heads c' = kv_heads c \<and> head_dim c' = head_dim c
     \<and> layout c' = layout c \<and> memory c' = memory c \<and> (memory c = None \<longrightarrow> capacity c' = capacity c)
     \<and> (head_starts_raw c = [] \<longrightarrow> head_starts_raw c' = [])"

lemma derived_refl [simp]: "derived c c"
  by (simp add: derived_def)

lemma derived_trans: "derived a b \<Longrightarrow> derived b c \<Longrightarrow> derived a c"
  by (simp add: derived_def)

lemma derived_bufs: "derived c (c\<lparr>k_buffer := k, v_buffer := v\<rparr>)"
  by (simp add: derived_def)

lemma derived_geom: "same_geom c c' \<Longrightarrow> derived c c'"
  using same_geom_fields[of c c'] by (simp add: derived_def)

lemma derived_row: "derived c c' \<Longrightarrow> row c' = row c"
  by (auto simp: derived_def row_def is_q4_def split: option.splits)

lemma derived_can_alloc: "derived c c' \<Longrightarrow> can_alloc c' N = can_alloc c N"
  by (simp add: derived_def can_alloc_def grow_buf_size_def opaque_desc_def typed_buf_size_def is_opaque_def)

text \<open>The moves change the buffers only.\<close>

lemma both_derived: "both f c = Ok c' \<Longrightarrow> derived c c' \<and> current_pos c' = current_pos c"
  by (auto simp: both_def result_simps derived_def)

lemma shift_heads_derived:
  assumes "shift_heads hs st w s d n c = Ok c'"
  shows "derived c c' \<and> current_pos c' = current_pos c"
  using assms unfolding shift_heads_def
  by (rule try_fold_invariant) (use both_derived derived_trans in \<open>fastforce+\<close>)

lemma shift_head_major_derived:
  "shift_head_major hs s d n c = Ok c' \<Longrightarrow> derived c c' \<and> current_pos c' = current_pos c"
  by (auto simp: shift_head_major_def result_simps split: if_splits dest: shift_heads_derived)

lemma shift_seq_major_derived:
  "shift_seq_major s d n c = Ok c' \<Longrightarrow> derived c c' \<and> current_pos c' = current_pos c"
  by (auto simp: shift_seq_major_def Let_def dest: both_derived)

lemma advise_derived: "derived c (snd rc) \<Longrightarrow> derived c (snd (advise os ts a b rc))"
  by (auto simp: advise_def derived_def split: prod.splits)

lemma release_pages_derived: "derived c (snd (release_pages os ts c))"
proof -
  have h: "derived c (snd (fold (advise_head os ts) hs (0, c)))" for hs
    by (rule fold_invariant[where Q = "\<lambda>_. True"]) (auto simp: advise_head_def Let_def advise_derived)
  have u: "derived c d \<Longrightarrow> derived c (d\<lparr>high_water_pos := x\<rparr>)" for d x by (simp add: derived_def)
  show ?thesis
    by (auto simp: release_pages_def Let_def advise_derived h u split: kv_layout.splits)
qed

lemma shrink_derived: "shrink_to_fit c = Ok (n, c') \<Longrightarrow> derived c c'"
  by (auto simp: shrink_to_fit_def Let_def result_simps derived_def split: option.splits if_splits prod.splits)

lemma release_derived:
  assumes "release_unused_pages os c = Ok (n, c')"
  shows "derived c c'"
  using assms shrink_derived[of c n c'] release_pages_derived[of c os 2] release_pages_derived[of c os 4]
  by (auto simp: release_unused_pages_def split: if_splits result.splits)

lemma prune_prefix_derived:
  assumes "prune_prefix os n c = Ok c'"
  shows "derived c c'"
proof -
  define c1 where "c1 = (if is_ragged c then set_head_starts (map (\<lambda>s. s - n) (head_starts c)) c else c)"
  have 1: "derived c c1" by (auto simp: c1_def derived_def set_head_starts_def is_ragged_def)
  have p: "derived d (d\<lparr>current_pos := x\<rparr>)" for d :: "'a kvcache" and x by (simp add: derived_def)
  have z: "derived c (c\<lparr>current_pos := 0, high_water_pos := 0, head_starts_raw := []\<rparr>)" by (simp add: derived_def)
  have "derived c c'"
    if "and_then (case layout c1 of
              SeqMajor \<Rightarrow> if is_opaque c1 then Err (OpaqueSeqMajor ''prune_prefix'')
                         else shift_seq_major n 0 r c1
            | HeadMajor \<Rightarrow> shift_head_major [0..<kv_heads c1] n 0 r c1) (\<lambda>c.
          and_then (release_unused_pages os (c\<lparr>current_pos := r\<rparr>)) (\<lambda>(_, c). Ok c)) = Ok c'" for r
  proof -
    from that obtain c2 m where 2: "derived c1 c2" and
      3: "release_unused_pages os (c2\<lparr>current_pos := r\<rparr>) = Ok (m, c')"
      by (auto simp: and_then_eq_Ok split: kv_layout.splits if_splits
          dest: shift_seq_major_derived shift_head_major_derived)
    show ?thesis using 1 2 p[of c2 r] release_derived[OF 3] derived_trans by blast
  qed
  with assms z show ?thesis
    by (auto simp: prune_prefix_def Let_def c1_def[symmetric] split: if_splits)
qed

lemma ensure_capacity_derived: "ensure_capacity n c = Ok (b, c') \<Longrightarrow> derived c c'"
  by (auto simp: ensure_capacity_def grow_def Let_def result_simps derived_def split: if_splits prod.splits)

end
