(* ===== verification/Kv_Props.thy ===== *)
theory Kv_Props
  imports Kv_Config
begin

text \<open>
  The contract of the KV cache, stated on the operations of \<open>kv_cache.rs\<close>: addressing, appending, pruning,
  growing, releasing memory and compacting, each on every storage format the cache is built with, with a
  concrete cache on which it applies.
\<close>

section \<open>A concrete cache\<close>

text \<open>Two heads of width one, three positions of which two are resident, with a zero-filling allocator.\<close>

definition zero_alloc :: "nat allocator" where
  "zero_alloc n dt = Some (replicate (n div type_size dt) 0)"

definition demo_os :: "nat kv_os" where
  "demo_os = \<lparr>page_size = 4096, k_addr = 0, v_addr = 65536, madvise_ok = True, zap = (\<lambda>_. 0)\<rparr>"

definition demo_cache :: "nat kvcache" where
  "demo_cache = \<lparr>k_buffer = [10, 11, 12, 20, 21, 22], v_buffer = [30, 31, 32, 40, 41, 42],
     kv_dtype = D_F32, opaque = None, host_managed = True, current_pos = 2, high_water_pos = 3,
     max_seq_len = 8, capacity = 3, kv_heads = 2, head_dim = 1, layout = HeadMajor,
     head_starts_raw = [], head_start_dirty = False, memory = Some zero_alloc\<rparr>"

lemma zero_alloc_law: "alloc_law zero_alloc"
  by (simp add: alloc_law_def zero_alloc_def)

lemma demo_cache_fields [simp]:
  "k_buffer demo_cache = [10, 11, 12, 20, 21, 22]" "v_buffer demo_cache = [30, 31, 32, 40, 41, 42]"
  "kv_dtype demo_cache = D_F32" "opaque demo_cache = None" "current_pos demo_cache = 2"
  "max_seq_len demo_cache = 8" "capacity demo_cache = 3" "kv_heads demo_cache = 2" "head_dim demo_cache = 1"
  "layout demo_cache = HeadMajor" "memory demo_cache = Some zero_alloc" "row demo_cache = 1"
  "head_start demo_cache h = 0" "\<not> is_opaque demo_cache" "\<not> is_q4 demo_cache"
  by (simp_all add: demo_cache_def row_def is_q4_def head_start_def is_opaque_def)

lemma demo_cache_wf: "kv_wf demo_cache"
  by (simp add: kv_wf_def demo_cache_def format_ok_def bufs_ok_def row_def is_q4_def zero_alloc_law)

lemma demo_can_alloc: "can_alloc demo_cache N"
  by (simp add: can_alloc_def zero_alloc_def)

section \<open>Addressing\<close>

text \<open>Rows of different index do not meet.\<close>

lemma rows_apart: "i \<noteq> j \<Longrightarrow> i * w + w \<le> j * w \<or> j * w + w \<le> (i::nat) * w"
  using mult_le_mono1[of "Suc i" j w] mult_le_mono1[of "Suc j" i w] by (cases "i < j") auto

lemma div_unique_pair:
  assumes "a * n + x = b * n + y" "x < n" "y < (n::nat)"
  shows "a = b \<and> x = y"
proof -
  have "(a * n + x) div n = a" "(b * n + y) div n = b" using assms(2,3) by simp_all
  with assms(1) have "a = b" by simp
  with assms(1) show ?thesis by simp
qed

lemma row_ix_inj:
  assumes "row_ix c h p = row_ix c h' p'" "h < kv_heads c" "h' < kv_heads c" "p < capacity c" "p' < capacity c"
  shows "h = h' \<and> p = p'"
proof (cases "layout c")
  case SeqMajor
  with div_unique_pair[of p "kv_heads c" h p' h'] assms show ?thesis by (simp add: row_ix_def)
next
  case HeadMajor
  with div_unique_pair[of h "capacity c" p h' p'] assms show ?thesis by (simp add: row_ix_def)
qed

text \<open>The unit offset the cache computes for a position and a head, in the unit of its dtype.\<close>

abbreviation unit_offset :: "'u kvcache \<Rightarrow> nat \<Rightarrow> nat \<Rightarrow> nat" where
  "unit_offset c p h \<equiv> (if is_q4 c then q4_block_offset c p h (head_dim c div QK4_0) else offset c p h)"

lemma unit_offset_row:
  assumes "\<not> is_opaque c"
  shows "unit_offset c p h = row_ix c h p * row c"
  using assms by (cases "layout c")
    (auto simp: offset_def q4_block_offset_def row_ix_def row_def is_opaque_def algebra_simps)

text \<open>
  The addresses of \<open>offset\<close> (elements) and \<open>q4_block_offset\<close> (blocks) are right for both layouts: a row
  lies inside both buffers, is the cell of its position and head, and two different (position, head)
  pairs never share a unit.
\<close>

theorem addressing_sound:
  assumes "kv_wf c" "\<not> is_opaque c" "h < kv_heads c" "p < capacity c"
  shows "unit_offset c p h + row c \<le> length (k_buffer c) \<and> unit_offset c p h + row c \<le> length (v_buffer c)
    \<and> cell c h p = (field (k_buffer c) (unit_offset c p h) (row c), field (v_buffer c) (unit_offset c p h) (row c))
    \<and> (\<forall>h' p'. h' < kv_heads c \<and> p' < capacity c \<and> (h', p') \<noteq> (h, p) \<longrightarrow>
         unit_offset c p h + row c \<le> unit_offset c p' h' \<or> unit_offset c p' h' + row c \<le> unit_offset c p h)"
proof -
  have "row_ix c h p * row c + row c \<le> kv_heads c * capacity c * row c"
    using mult_le_mono1[of "Suc (row_ix c h p)" "kv_heads c * capacity c" "row c"] row_ix_less[OF assms(3,4)] by simp
  moreover have "bufs_ok c" using assms(1) by (simp add: kv_wf_def)
  moreover have "row_ix c h p \<noteq> row_ix c h' p'"
    if "h' < kv_heads c" "p' < capacity c" "(h', p') \<noteq> (h, p)" for h' p'
    using row_ix_inj[of c h p h' p'] that assms(3,4) by auto
  ultimately show ?thesis
    unfolding unit_offset_row[OF assms(2)] bufs_ok_def cell_def rowat_def using rows_apart by fastforce
qed

theorem addressing_sound_witness:
  "offset demo_cache 1 1 = 4 \<and> cell demo_cache 1 1 = ([21], [41])
    \<and> offset demo_cache 1 1 + 1 \<le> offset demo_cache 2 1 \<and> offset demo_cache 0 1 + 1 \<le> offset demo_cache 1 1"
  using addressing_sound[of demo_cache 1 1] demo_cache_wf by (simp add: offset_def)

section \<open>Appending and pruning\<close>

text \<open>
  C12: Appending. A well-formed typed cache with room for the new tokens, or a growable one whose allocator
  serves it, takes them: every head's contents are extended, in order, by the rows of the input tensor
  that belong to that head, and the cache stays well formed.
\<close>

theorem update_appends:
  assumes "kv_wf c" "\<not> is_opaque c" "current_pos c + S \<le> max_seq_len c"
    and "current_pos c + S \<le> capacity c \<or> memory c \<noteq> None \<and> (\<forall>N. can_alloc c N)"
    and "length nk = S * kv_heads c * row c" "length nv = S * kv_heads c * row c"
  shows "\<exists>c'. update enc (Units nk) (Units nv) S c = Ok c' \<and> kv_wf c'
    \<and> (\<forall>h < kv_heads c. contents c' h = contents c h @ map (in_row (kv_heads c) (row c) nk nv h) [0..<S])"
  by (rule update_ok[OF assms])

text \<open>Two tokens do not fit the three positions: the cache grows and then takes them.\<close>

theorem update_appends_witness:
  "\<exists>c'. update (\<lambda>_ _ (fs :: nat list). []) (Units [1, 2, 3, 4]) (Units [5, 6, 7, 8]) 2 demo_cache = Ok c' \<and> kv_wf c'
    \<and> contents c' 1 = [([20], [40]), ([21], [41]), ([2], [6]), ([4], [8])]"
proof -
  have "\<forall>N. can_alloc demo_cache N" using demo_can_alloc by simp
  with update_appends[of demo_cache 2 "[1, 2, 3, 4]" "[5, 6, 7, 8]" "\<lambda>_ _ fs. []"] demo_cache_wf
  obtain c' where "update (\<lambda>_ _ (fs :: nat list). []) (Units [1, 2, 3, 4]) (Units [5, 6, 7, 8]) 2 demo_cache = Ok c'"
    "kv_wf c'" "\<forall>h < 2. contents c' h = contents demo_cache h @ map (in_row 2 1 [1, 2, 3, 4] [5, 6, 7, 8] h) [0..<2]"
    by auto
  moreover have "contents demo_cache 1 = [([20], [40]), ([21], [41])]"
    by (simp add: contents_def cell_def rowat_def row_ix_def upt_rec)
  moreover have "map (in_row 2 1 [1::nat, 2, 3, 4] [5, 6, 7, 8] 1) [0..<2] = [([2], [6]), ([4], [8])]"
    by (simp add: in_row_def rowat_def upt_rec)
  ultimately show ?thesis by auto
qed

text \<open>
  Pruning. \<open>prune_prefix\<close> of at most the resident positions succeeds on every well-formed cache,
  ragged or not, whatever the operating system does with the advice and whether or not the allocator
  can serve the smaller buffers. Each head loses its oldest rows: those of its positions below the count.
\<close>

theorem prune_drops:
  assumes "kv_wf c" "0 < page_size os" "n \<le> current_pos c"
  shows "\<exists>c'. prune_prefix os n c = Ok c' \<and> kv_wf c' \<and> current_pos c' = current_pos c - n
    \<and> kv_heads c' = kv_heads c
    \<and> (\<forall>h < kv_heads c. contents c' h = drop (n - head_start c h) (contents c h))"
  by (rule prune_prefix_ok[OF assms])

theorem prune_drops_witness:
  "\<exists>c'. prune_prefix demo_os 1 demo_cache = Ok c' \<and> kv_wf c' \<and> current_pos c' = 1 \<and> contents c' 0 = [([11], [31])]"
proof -
  from prune_drops[of demo_cache demo_os 1] demo_cache_wf obtain c' where
    "prune_prefix demo_os 1 demo_cache = Ok c'" "kv_wf c'" "current_pos c' = 1"
    "contents c' 0 = drop 1 (contents demo_cache 0)" by (auto simp: demo_os_def)
  moreover have "drop 1 (contents demo_cache 0) = [([11], [31])]"
    by (simp add: contents_def cell_def rowat_def row_ix_def upt_rec)
  ultimately show ?thesis by auto
qed

section \<open>Memory\<close>

text \<open>
  \<open>release_unused_pages\<close> never fails and never loses a resident row: not when it shrinks the buffers,
  not when the allocator refuses, and not when the kernel zero-fills the advised pages of the tail and of
  the holes of ragged heads (whatever the page size and the buffer addresses).
\<close>

theorem release_keeps_contents:
  assumes "kv_wf c" "0 < page_size os"
  shows "\<exists>n c'. release_unused_pages os c = Ok (n, c') \<and> kv_wf c' \<and> current_pos c' = current_pos c
    \<and> kv_heads c' = kv_heads c \<and> (\<forall>h < kv_heads c. contents c' h = contents c h)"
  by (rule release_unused_pages_ok[OF assms])

theorem release_keeps_contents_witness:
  "\<exists>n c'. release_unused_pages demo_os demo_cache = Ok (n, c') \<and> contents c' 1 = [([20], [40]), ([21], [41])]"
proof -
  from release_keeps_contents[of demo_cache demo_os] demo_cache_wf obtain n c' where
    "release_unused_pages demo_os demo_cache = Ok (n, c')" "contents c' 1 = contents demo_cache 1"
    by (auto simp: demo_os_def)
  moreover have "contents demo_cache 1 = [([20], [40]), ([21], [41])]"
    by (simp add: contents_def cell_def rowat_def row_ix_def upt_rec)
  ultimately show ?thesis by auto
qed

text \<open>
  \<open>ensure_capacity\<close> on every branch: nothing happens when the request fits, a request above the
  model's maximum is an overflow error, a fixed cache refuses to grow, and a growable one with a serving
  allocator returns a larger well-formed cache with the same contents.
\<close>

theorem ensure_capacity_contract:
  assumes "kv_wf c"
  shows "(n \<le> capacity c \<longrightarrow> ensure_capacity n c = Ok (False, c))
    \<and> (max_seq_len c < n \<longrightarrow> ensure_capacity n c = Err (KvOverflowNeed n (max_seq_len c)))
    \<and> (capacity c < n \<and> n \<le> max_seq_len c \<and> memory c = None \<longrightarrow> ensure_capacity n c = Err GrowNonDynamic)
    \<and> (capacity c < n \<and> n \<le> max_seq_len c \<and> memory c \<noteq> None \<and> (\<forall>N. can_alloc c N) \<longrightarrow>
        (\<exists>c'. ensure_capacity n c = Ok (True, c') \<and> kv_wf c' \<and> n \<le> capacity c' \<and> capacity c' \<le> max_seq_len c
          \<and> current_pos c' = current_pos c \<and> (\<forall>h < kv_heads c. contents c' h = contents c h)))"
proof (intro conjI impI)
  assume a: "capacity c < n \<and> n \<le> max_seq_len c \<and> memory c \<noteq> None \<and> (\<forall>N. can_alloc c N)"
  from grow_ok[OF assms, of n] a obtain c' where g: "grow n c = Ok c'" "kv_wf c'" "n \<le> capacity c'"
    "same_geom (c\<lparr>k_buffer := k_buffer c', v_buffer := v_buffer c', capacity := capacity c'\<rparr>) c'"
    "\<forall>h < kv_heads c. contents c' h = contents c h" by blast
  from g(2) same_geom_fields[OF g(4)] a g(1,3,5) show
    "\<exists>c'. ensure_capacity n c = Ok (True, c') \<and> kv_wf c' \<and> n \<le> capacity c' \<and> capacity c' \<le> max_seq_len c
          \<and> current_pos c' = current_pos c \<and> (\<forall>h < kv_heads c. contents c' h = contents c h)"
    by (auto simp: ensure_capacity_def kv_wf_def)
qed (use assms in \<open>auto simp: ensure_capacity_def grow_def kv_wf_def\<close>)

theorem ensure_capacity_contract_witness:
  "ensure_capacity 9 demo_cache = Err (KvOverflowNeed 9 8)
    \<and> (\<exists>c'. ensure_capacity 5 demo_cache = Ok (True, c') \<and> kv_wf c' \<and> 5 \<le> capacity c')"
  using ensure_capacity_contract[of demo_cache 9] ensure_capacity_contract[of demo_cache 5]
    demo_cache_wf demo_can_alloc by auto

end
