(* ===== verification/Kv_Format.thy ===== *)
theory Kv_Format
  imports Kv_Props
begin

text \<open>
  The two position-preserving executors: \<open>kv/format_apply.rs\<close> (re-encoding a layer in another typed format)
  and \<open>apply_weighted_merges\<close> of \<open>kv/standard_format.rs\<close>. The arithmetic on one row (\<open>f32\<close> and \<open>f16\<close>
  conversions, block quantisation, weighted sums) is floating-point code and is given by a record of
  functions on rows; what is modelled is which row is read, which row is written, and when the executors
  refuse. The device staging of \<open>reencode_typed_device\<close> is not modelled: the caches here are host caches.
\<close>

section \<open>Plans\<close>

datatype keep_spec = LayerWide "nat list" | PerHead "nat list list"

datatype merge_axis = Both | KeyOnly | ValueOnly

record format_override =
  region :: keep_spec
  ov_format :: string
  ov_side :: merge_axis

record kv_format_plan =
  plan_base :: string
  overrides :: "format_override list"

definition side_matches :: "merge_axis \<Rightarrow> merge_axis \<Rightarrow> bool" where
  "side_matches ov queried \<longleftrightarrow> ov = Both \<or> ov = queried"

fun region_contains :: "keep_spec \<Rightarrow> nat \<Rightarrow> nat \<Rightarrow> bool" where
  "region_contains (LayerWide ps) h t \<longleftrightarrow> t \<in> set ps"
| "region_contains (PerHead pp) h t \<longleftrightarrow> h < length pp \<and> t \<in> set (pp ! h)"

definition format_of :: "kv_format_plan \<Rightarrow> nat \<Rightarrow> nat \<Rightarrow> merge_axis \<Rightarrow> string" where
  "format_of p h t side = (case find (\<lambda>ov. side_matches (ov_side ov) side \<and> region_contains (region ov) h t)
       (rev (overrides p)) of Some ov \<Rightarrow> ov_format ov | None \<Rightarrow> plan_base p)"

section \<open>Re-encoding\<close>

record ('u, 'w) numerics =
  recode_row :: "dtype \<Rightarrow> dtype \<Rightarrow> 'u list \<Rightarrow> 'u list"
  merge_row :: "dtype \<Rightarrow> kv_layout_desc option \<Rightarrow> 'w \<Rightarrow> 'u list \<Rightarrow> ('w \<times> 'u list) list \<Rightarrow> 'u list"
  zero_units :: "dtype \<Rightarrow> nat \<Rightarrow> 'u list"

datatype format_error =
    HeterogeneousUnsupported
  | UnsupportedFormat string
  | UniformReencodeNotWired

definition current_format_name :: "'u kvcache \<Rightarrow> string" where
  "current_format_name c = (case kv_dtype c of
     D_F32 \<Rightarrow> ''f32'' | D_F16 \<Rightarrow> ''f16'' | D_Q4_0 \<Rightarrow> ''q4_0'' | _ \<Rightarrow> ''unknown'')"

definition is_typed_floor :: "dtype \<Rightarrow> bool" where
  "is_typed_floor dt \<longleftrightarrow> dt \<in> {D_F32, D_F16, D_Q4_0}"

definition typed_floor_dtype :: "string \<Rightarrow> dtype option" where
  "typed_floor_dtype nm = (if nm = ''f32'' then Some D_F32 else if nm = ''f16'' then Some D_F16
     else if nm = ''q4_0'' then Some D_Q4_0 else None)"

definition typed_byte_size :: "nat \<Rightarrow> dtype \<Rightarrow> nat" where
  "typed_byte_size n dt = (if dt = D_Q4_0 then n div QK4_0 * size_of_BlockQ4_0 else n * DType_size dt)"

text \<open>Units of one row and the address of a row, in a typed format.\<close>

definition row_units :: "dtype \<Rightarrow> nat \<Rightarrow> nat" where
  "row_units dt d = (if dt = D_Q4_0 then d div QK4_0 else d)"

definition row_addr :: "dtype \<Rightarrow> 'u kvcache \<Rightarrow> nat \<Rightarrow> nat \<Rightarrow> nat" where
  "row_addr dt c p h = (if dt = D_Q4_0 then q4_block_offset c p h (head_dim c div QK4_0) else offset c p h)"

text \<open>\<open>dequantize_k\<close> or \<open>_v\<close> of one row, then \<open>write_typed_row\<close>.\<close>

definition recode_cell ::
    "('u, 'w) numerics \<Rightarrow> dtype \<Rightarrow> 'u kvcache \<Rightarrow> nat \<Rightarrow> nat \<Rightarrow> 'u list \<Rightarrow> 'u list \<Rightarrow> (format_error, 'u list) result" where
  "recode_cell nu target c p h src dst =
     and_then (slice src (row_addr (kv_dtype c) c p h)
                 (row_addr (kv_dtype c) c p h + row_units (kv_dtype c) (head_dim c))) (\<lambda>r.
     copy_into dst (row_addr target c p h) (recode_row nu (kv_dtype c) target r))"

definition reencode_typed :: "('u, 'w) numerics \<Rightarrow> dtype \<Rightarrow> 'u kvcache \<Rightarrow> (format_error, 'u kvcache) result" where
  "reencode_typed nu target c =
     (if target = D_Q4_0 \<and> head_dim c mod QK4_0 \<noteq> 0 then Err (UnsupportedFormat ''q4_0 head_dim'')
      else
        let bytes = typed_byte_size (capacity c * kv_heads c * head_dim c) target;
            fresh = zero_units nu target (bytes div type_size target) in
        and_then (try_fold (\<lambda>(p, h) kv.
            and_then (recode_cell nu target c p h (k_buffer c) (fst kv)) (\<lambda>k.
            and_then (recode_cell nu target c p h (v_buffer c) (snd kv)) (\<lambda>v. Ok (k, v))))
          (token_heads (current_pos c) (kv_heads c)) (fresh, fresh)) (\<lambda>(k, v).
        Ok (c\<lparr>k_buffer := k, v_buffer := v, kv_dtype := target, host_managed := True\<rparr>)))"

definition reencode_uniform :: "('u, 'w) numerics \<Rightarrow> string \<Rightarrow> 'u kvcache \<Rightarrow> (format_error, 'u kvcache) result" where
  "reencode_uniform nu target_name c =
     (if \<not> is_typed_floor (kv_dtype c) then Err (UnsupportedFormat (current_format_name c))
      else case typed_floor_dtype target_name of
        None \<Rightarrow> Err (UnsupportedFormat target_name)
      | Some target \<Rightarrow> if kv_dtype c = target then Ok c else reencode_typed nu target c)"

definition apply_format_plan :: "('u, 'w) numerics \<Rightarrow> kv_format_plan \<Rightarrow> 'u kvcache \<Rightarrow> (format_error, 'u kvcache) result" where
  "apply_format_plan nu plan c =
     (if overrides plan = [] \<and> plan_base plan = current_format_name c then Ok c
      else if list_ex (\<lambda>ov. case region ov of PerHead _ \<Rightarrow> True | LayerWide ps \<Rightarrow> length ps \<noteq> current_pos c) (overrides plan)
      then Err HeterogeneousUnsupported
      else if overrides plan = [] then reencode_uniform nu (plan_base plan) c
      else Err UniformReencodeNotWired)"

section \<open>Weighted merges\<close>

record 'w weighted_merge =
  merge_into :: nat
  into_weight :: 'w
  merge_from :: "(nat \<times> 'w) list"
  apply_to :: merge_axis

text \<open>
  The formats \<open>encode_via_descriptor\<close> can write. A merged row of another opaque format cannot be written back: the \<open>expect\<close> of
  \<open>merge_row_weighted_opaque\<close> panics.
\<close>

definition writable :: "kv_layout_desc option \<Rightarrow> bool" where
  "writable od \<longleftrightarrow> (case od of None \<Rightarrow> True | Some d \<Rightarrow> (scale_layout d, packing d) \<in> {(PerBlockF16, Nibble), (PerBlockF16WithMin, Quad)})"

definition merge_buf ::
    "('u, 'w) numerics \<Rightarrow> 'w weighted_merge \<Rightarrow> dtype \<Rightarrow> kv_layout_desc option \<Rightarrow> nat \<Rightarrow> (nat \<Rightarrow> nat) \<Rightarrow> 'u list \<Rightarrow> 'u list kv_result" where
  "merge_buf nu m dt od w addr buf =
     and_then (slice buf (addr (merge_into m)) (addr (merge_into m) + w)) (\<lambda>r.
     and_then (try_fold (\<lambda>(p, wt) fs. and_then (slice buf (addr p) (addr p + w)) (\<lambda>f. Ok (fs @ [(wt, f)])))
                 (merge_from m) []) (\<lambda>fs.
     and_then (assert_that (writable od)) (\<lambda>_.
     copy_into buf (addr (merge_into m)) (merge_row nu dt od (into_weight m) r fs))))"

definition merge_head ::
    "('u, 'w) numerics \<Rightarrow> 'w weighted_merge \<Rightarrow> nat \<Rightarrow> (nat \<Rightarrow> nat \<Rightarrow> nat) \<Rightarrow> nat \<Rightarrow> 'u kvcache \<Rightarrow> 'u kvcache kv_result" where
  "merge_head nu m w addr h c =
     and_then (if apply_to m \<noteq> ValueOnly then merge_buf nu m (kv_dtype c) (opaque c) w (addr h) (k_buffer c)
               else Ok (k_buffer c)) (\<lambda>k.
     and_then (if apply_to m \<noteq> KeyOnly then merge_buf nu m (kv_dtype c) (opaque c) w (addr h) (v_buffer c)
               else Ok (v_buffer c)) (\<lambda>v.
     Ok (c\<lparr>k_buffer := k, v_buffer := v\<rparr>)))"

definition apply_one_merge :: "('u, 'w) numerics \<Rightarrow> 'w weighted_merge \<Rightarrow> 'u kvcache \<Rightarrow> 'u kvcache kv_result" where
  "apply_one_merge nu m c =
     (if merge_from m = [] then Ok c
      else if is_opaque c
      then and_then (opaque_bytes_per_head c) (\<lambda>bph.
             try_fold (merge_head nu m bph (\<lambda>h p. (h * capacity c + p) * bph)) [0..<kv_heads c] c)
      else if is_typed_floor (kv_dtype c)
      then try_fold (merge_head nu m (row_units (kv_dtype c) (head_dim c)) (\<lambda>h p. row_addr (kv_dtype c) c p h))
             [0..<kv_heads c] c
      else Ok c)"

definition apply_weighted_merges :: "('u, 'w) numerics \<Rightarrow> 'w weighted_merge list \<Rightarrow> 'u kvcache \<Rightarrow> 'u kvcache kv_result" where
  "apply_weighted_merges nu = try_fold (apply_one_merge nu)"

section \<open>Lemmas\<close>

lemma writable_None [simp]: "writable None"
  by (simp add: writable_def)

text \<open>
  What the row functions are relied on for: a merged row keeps its length, a re-encoded row has the length
  of a row in the new format (for head widths that can be tiled, when blocks are involved), a fresh buffer
  has the size asked for.
\<close>

definition numerics_ok :: "('u, 'w) numerics \<Rightarrow> bool" where
  "numerics_ok nu \<longleftrightarrow> (\<forall>dt od w r fs. length (merge_row nu dt od w r fs) = length r)
     \<and> (\<forall>s t d r. length r = row_units s d \<and> (s = D_Q4_0 \<or> t = D_Q4_0 \<longrightarrow> d mod QK4_0 = 0)
          \<longrightarrow> length (recode_row nu s t r) = row_units t d)
     \<and> (\<forall>dt n. length (zero_units nu dt n) = n)"

lemma row_addr_row:
  assumes "\<not> is_opaque c"
  shows "row_addr (kv_dtype c) c p h = row_ix c h p * row c" "row_units (kv_dtype c) (head_dim c) = row c"
  using unit_offset_row[OF assms, of p h] assms
  by (auto simp: row_addr_def row_units_def is_q4_def row_def is_opaque_def)

lemma row_addr_target: "row_addr dt c p h = row_ix c h p * row_units dt (head_dim c)"
  by (cases "layout c") (auto simp: row_addr_def row_units_def offset_def q4_block_offset_def row_ix_def algebra_simps)

text \<open>Reading and writing one row.\<close>

lemma read_row:
  assumes "length b = N * w" "i < N"
  shows "slice b (i * w) (i * w + w) = Ok (rowat b w i)" "length (rowat b w i) = w"
proof -
  have "i * w + w \<le> length b" using mult_le_mono1[of "Suc i" N w] assms by simp
  then show "slice b (i * w) (i * w + w) = Ok (rowat b w i)" "length (rowat b w i) = w"
    by (simp_all add: slice_def rowat_def)
qed

lemma write_row:
  assumes "length b = N * w" "length r = w" "i < N"
  shows "\<exists>b'. copy_into b (i * w) r = Ok b' \<and> length b' = length b
    \<and> (\<forall>j < N. rowat b' w j = (if j = i then r else rowat b w j))"
proof -
  have fit: "i * w + w \<le> length b" using mult_le_mono1[of "Suc i" N w] assms by simp
  define b' where "b' = take (i * w) b @ r @ drop (i * w + w) b"
  have one: "length r = 1 * w" "i + 1 \<le> N" using assms by simp_all
  have "rowat b' w j = (if j = i then r else rowat b w j)" if "j < N" for j
  proof -
    have "rowat b' w j = (if i \<le> j \<and> j < i + 1 then rowat r w (j - i) else rowat b w j)"
      using rowat_overwrite[OF assms(1) one(1,2) that] by (simp add: b'_def)
    moreover have "rowat r w 0 = r" using assms(2) by (simp add: rowat_def)
    ultimately show ?thesis by (auto simp: less_Suc_eq)
  qed
  moreover have "copy_into b (i * w) r = Ok b'" "length b' = length b" using fit assms(2) by (auto simp: copy_into_def b'_def)
  ultimately show ?thesis by blast
qed

lemma read_rows_fold:
  assumes "length b = N * w" "\<forall>(p, wt) \<in> set ps. ix p < N"
  shows "try_fold (\<lambda>(p, wt) fs. and_then (slice b (ix p * w) (ix p * w + w)) (\<lambda>f. Ok (fs @ [(wt, f)]))) ps acc
    = Ok (acc @ map (\<lambda>(p, wt). (wt, rowat b w (ix p))) ps)"
  using assms(2)
proof (induction ps arbitrary: acc)
  case Nil
  then show ?case by simp
next
  case (Cons x ps)
  then show ?case by (cases x) (simp add: read_row(1)[OF assms(1)])
qed

lemma merge_buf_rows:
  assumes "length b = N * w" "ix (merge_into m) < N" "\<forall>(p, wt) \<in> set (merge_from m). ix p < N" "numerics_ok nu" "writable od"
  shows "\<exists>b'. merge_buf nu m dt od w (\<lambda>p. ix p * w) b = Ok b' \<and> length b' = length b
    \<and> (\<forall>j < N. rowat b' w j = (if j = ix (merge_into m)
        then merge_row nu dt od (into_weight m) (rowat b w j) (map (\<lambda>(p, wt). (wt, rowat b w (ix p))) (merge_from m))
        else rowat b w j))"
proof -
  have "length (merge_row nu dt od (into_weight m) (rowat b w (ix (merge_into m)))
      (map (\<lambda>(p, wt). (wt, rowat b w (ix p))) (merge_from m))) = w"
    using assms(4) read_row(2)[OF assms(1,2)] by (simp add: numerics_ok_def)
  from write_row[OF assms(1) this assms(2)] show ?thesis
    unfolding merge_buf_def read_row(1)[OF assms(1,2)] read_rows_fold[OF assms(1,3)] using assms(5) by auto
qed

text \<open>The merged cell of a head.\<close>

definition merged_row :: "('u, 'w) numerics \<Rightarrow> 'w weighted_merge \<Rightarrow> 'u kvcache \<Rightarrow> (nat \<Rightarrow> 'u list) \<Rightarrow> 'u list" where
  "merged_row nu m c f = merge_row nu (kv_dtype c) (opaque c) (into_weight m) (f (merge_into m))
     (map (\<lambda>(p, wt). (wt, f p)) (merge_from m))"

definition merged_cell :: "('u, 'w) numerics \<Rightarrow> 'w weighted_merge \<Rightarrow> 'u kvcache \<Rightarrow> nat \<Rightarrow> 'u list \<times> 'u list" where
  "merged_cell nu m c h =
     (if apply_to m = ValueOnly then fst (cell c h (merge_into m)) else merged_row nu m c (\<lambda>p. fst (cell c h p)),
      if apply_to m = KeyOnly then snd (cell c h (merge_into m)) else merged_row nu m c (\<lambda>p. snd (cell c h p)))"

definition merge_in_range :: "nat \<Rightarrow> 'w weighted_merge \<Rightarrow> bool" where
  "merge_in_range n m \<longleftrightarrow> merge_into m < n \<and> (\<forall>(p, wt) \<in> set (merge_from m). p < n)"

lemma merge_head_cells:
  assumes b: "bufs_ok c" and r: "merge_in_range (capacity c) m" and nu: "numerics_ok nu" and wr: "writable (opaque c)" and h: "h < kv_heads c"
  shows "\<exists>c'. merge_head nu m (row c) (\<lambda>h p. row_ix c h p * row c) h c = Ok c' \<and> same_geom c c'
    \<and> (\<forall>h' < kv_heads c. \<forall>p < capacity c. cell c' h' p =
        (if h' = h \<and> p = merge_into m then merged_cell nu m c h else cell c h' p))"
proof -
  let ?N = "kv_heads c * capacity c" and ?w = "row c"
  have len: "length (k_buffer c) = ?N * ?w" "length (v_buffer c) = ?N * ?w" using b by (simp_all add: bufs_ok_def)
  have ix: "row_ix c h (merge_into m) < ?N" "\<forall>(p, wt) \<in> set (merge_from m). row_ix c h p < ?N"
    using r row_ix_less[OF h] by (auto simp: merge_in_range_def)
  have side: "\<exists>b'. (if ax then merge_buf nu m (kv_dtype c) (opaque c) ?w (\<lambda>p. row_ix c h p * ?w) b else Ok b) = Ok b'
      \<and> length b' = length b \<and> (\<forall>j < ?N. rowat b' ?w j = (if j = row_ix c h (merge_into m) \<and> ax
          then merged_row nu m c (\<lambda>p. rowat b ?w (row_ix c h p)) else rowat b ?w j))"
    if "length b = ?N * ?w" for b ax
    using merge_buf_rows[OF that ix(1,2) nu wr, of "kv_dtype c"] by (cases ax) (auto simp: merged_row_def)
  from side[OF len(1), of "apply_to m \<noteq> ValueOnly"] obtain k where
    k: "(if apply_to m \<noteq> ValueOnly then merge_buf nu m (kv_dtype c) (opaque c) ?w (\<lambda>p. row_ix c h p * ?w) (k_buffer c)
        else Ok (k_buffer c)) = Ok k" "length k = length (k_buffer c)"
    "\<forall>j < ?N. rowat k ?w j = (if j = row_ix c h (merge_into m) \<and> apply_to m \<noteq> ValueOnly
        then merged_row nu m c (\<lambda>p. rowat (k_buffer c) ?w (row_ix c h p)) else rowat (k_buffer c) ?w j)" by blast
  from side[OF len(2), of "apply_to m \<noteq> KeyOnly"] obtain v where
    v: "(if apply_to m \<noteq> KeyOnly then merge_buf nu m (kv_dtype c) (opaque c) ?w (\<lambda>p. row_ix c h p * ?w) (v_buffer c)
        else Ok (v_buffer c)) = Ok v" "length v = length (v_buffer c)"
    "\<forall>j < ?N. rowat v ?w j = (if j = row_ix c h (merge_into m) \<and> apply_to m \<noteq> KeyOnly
        then merged_row nu m c (\<lambda>p. rowat (v_buffer c) ?w (row_ix c h p)) else rowat (v_buffer c) ?w j)" by blast
  have "cell (c\<lparr>k_buffer := k, v_buffer := v\<rparr>) h' p =
      (if h' = h \<and> p = merge_into m then merged_cell nu m c h else cell c h' p)" if "h' < kv_heads c" "p < capacity c" for h' p
  proof -
    have "row_ix c h' p = row_ix c h (merge_into m) \<longleftrightarrow> h' = h \<and> p = merge_into m"
      using row_ix_inj[of c h' p h "merge_into m"] that h r by (auto simp: merge_in_range_def)
    with k(3) v(3) row_ix_less[OF that] show ?thesis by (auto simp: cell_def merged_cell_def)
  qed
  moreover have "merge_head nu m ?w (\<lambda>h p. row_ix c h p * ?w) h c = Ok (c\<lparr>k_buffer := k, v_buffer := v\<rparr>)"
    using k(1) v(1) by (simp add: merge_head_def)
  ultimately show ?thesis using same_geomI[OF k(2) v(2)] by blast
qed

lemma merge_heads_cells:
  assumes "bufs_ok c" "merge_in_range (capacity c) m" "numerics_ok nu" "writable (opaque c)" "\<forall>h \<in> set hs. h < kv_heads c" "distinct hs"
    "w = row c" "ad = (\<lambda>h p. row_ix c h p * row c)"
  shows "\<exists>c'. try_fold (merge_head nu m w ad) hs c = Ok c' \<and> same_geom c c'
    \<and> (\<forall>h < kv_heads c. \<forall>p < capacity c. cell c' h p =
        (if h \<in> set hs \<and> p = merge_into m then merged_cell nu m c h else cell c h p))"
  using assms
proof (induction hs arbitrary: c)
  case Nil
  then show ?case by simp
next
  case (Cons h hs)
  from Cons.prems(5) have "h < kv_heads c" by simp
  from merge_head_cells[OF Cons.prems(1-4) this] obtain c1 where
    c1: "merge_head nu m w ad h c = Ok c1" "same_geom c c1"
    "\<forall>h' < kv_heads c. \<forall>p < capacity c. cell c1 h' p =
        (if h' = h \<and> p = merge_into m then merged_cell nu m c h else cell c h' p)"
    unfolding Cons.prems(7,8) by blast
  note f = same_geom_fields[OF c1(2)]
  have "bufs_ok c1" using Cons.prems(1) c1(2) f unfolding bufs_ok_def same_geom_def by simp
  from Cons.IH[OF this] Cons.prems f obtain c2 where
    c2: "try_fold (merge_head nu m w ad) hs c1 = Ok c2" "same_geom c1 c2"
    "\<forall>h < kv_heads c. \<forall>p < capacity c. cell c2 h p =
        (if h \<in> set hs \<and> p = merge_into m then merged_cell nu m c1 h else cell c1 h p)" by auto
  have same: "merged_cell nu m c1 h' = merged_cell nu m c h'" if "h' \<in> set hs" for h'
  proof -
    have ne: "h' \<noteq> h" "h' < kv_heads c" using that Cons.prems(5,6) by auto
    then have e: "p < capacity c \<Longrightarrow> cell c1 h' p = cell c h' p" for p using c1(3) by simp
    have g: "map (\<lambda>(p, wt). (wt, g (cell c1 h' p))) (merge_from m) = map (\<lambda>(p, wt). (wt, g (cell c h' p))) (merge_from m)"
      for g :: "'a list \<times> 'a list \<Rightarrow> 'a list" using Cons.prems(2) e by (auto simp: merge_in_range_def)
    have "merge_into m < capacity c" using Cons.prems(2) by (simp add: merge_in_range_def)
    from e[OF this] show ?thesis unfolding merged_cell_def merged_row_def f(1,2) g[of fst] g[of snd] by simp
  qed
  have "cell c2 h' p = (if h' \<in> set (h # hs) \<and> p = merge_into m then merged_cell nu m c h' else cell c h' p)"
    if "h' < kv_heads c" "p < capacity c" for h' p
    using c2(3)[rule_format, OF that] c1(3)[rule_format, OF that] same[of h'] Cons.prems(6) by auto
  moreover have "try_fold (merge_head nu m w ad) (h # hs) c = Ok c2" using c1(1) c2(1) by simp
  ultimately show ?case using same_geom_trans[OF c1(2) c2(2)] by blast
qed

lemma apply_one_merge_ok:
  assumes wf: "kv_wf c" and r: "merge_in_range (capacity c) m" and nu: "numerics_ok nu" and wr: "writable (opaque c)"
  shows "\<exists>c'. apply_one_merge nu m c = Ok c' \<and> same_geom c c'
    \<and> (\<forall>h < kv_heads c. \<forall>p < capacity c. cell c' h p =
        (if p = merge_into m \<and> merge_from m \<noteq> [] then merged_cell nu m c h else cell c h p))"
proof (cases "merge_from m = []")
  case True
  then show ?thesis by (simp add: apply_one_merge_def)
next
  case False
  have f: "format_ok c" "bufs_ok c" using wf by (auto simp: kv_wf_def)
  have "apply_one_merge nu m c = try_fold (merge_head nu m (row c) (\<lambda>h p. row_ix c h p * row c)) [0..<kv_heads c] c"
  proof (cases "is_opaque c")
    case True
    then have "layout c = HeadMajor" using f(1) by (auto simp: format_ok_def is_opaque_def split: option.splits)
    with True False row_opaque[OF f(1)] show ?thesis by (simp add: apply_one_merge_def row_ix_def)
  next
    case o: False
    then have "is_typed_floor (kv_dtype c)"
      using f(1) by (auto simp: format_ok_def is_opaque_def is_typed_floor_def split: option.splits)
    with o False row_addr_row[OF o] show ?thesis by (simp add: apply_one_merge_def)
  qed
  with merge_heads_cells[OF f(2) r nu wr, of "[0..<kv_heads c]" "row c"] False show ?thesis by auto
qed


lemma merge_in_range_mono: "merge_in_range n m \<Longrightarrow> n \<le> k \<Longrightarrow> merge_in_range k m"
  by (fastforce simp: merge_in_range_def)

lemma apply_weighted_merges_ok:
  assumes "kv_wf c" "\<forall>m \<in> set ms. merge_in_range (capacity c) m" "numerics_ok nu" "writable (opaque c)"
  shows "\<exists>c'. apply_weighted_merges nu ms c = Ok c' \<and> same_geom c c'
    \<and> (\<forall>h < kv_heads c. \<forall>p < capacity c. p \<notin> merge_into ` set ms \<longrightarrow> cell c' h p = cell c h p)"
  using assms(1,2,4)
proof (induction ms arbitrary: c)
  case Nil
  then show ?case by (simp add: apply_weighted_merges_def)
next
  case (Cons m ms)
  from apply_one_merge_ok[OF Cons.prems(1) _ assms(3) Cons.prems(3), of m] Cons.prems(2) obtain c1 where
    c1: "apply_one_merge nu m c = Ok c1" "same_geom c c1" "\<forall>h < kv_heads c. \<forall>p < capacity c. cell c1 h p =
        (if p = merge_into m \<and> merge_from m \<noteq> [] then merged_cell nu m c h else cell c h p)" by auto
  note f = same_geom_fields[OF c1(2)]
  have "kv_wf c1" using Cons.prems(1) same_geom_wf[OF c1(2)] by simp
  from Cons.IH[OF this] Cons.prems(2,3) f obtain c2 where
    c2: "apply_weighted_merges nu ms c1 = Ok c2" "same_geom c1 c2"
    "\<forall>h < kv_heads c. \<forall>p < capacity c. p \<notin> merge_into ` set ms \<longrightarrow> cell c2 h p = cell c1 h p" by auto
  have "apply_weighted_merges nu (m # ms) c = Ok c2" using c1(1) c2(1) by (simp add: apply_weighted_merges_def)
  with c1(3) c2(3) same_geom_trans[OF c1(2) c2(2)] show ?case by auto
qed

text \<open>Re-encoding: every resident row is read once and written once, at the same place.\<close>

lemma recode_cell_rows:
  assumes src: "length src = N * row c" and dst: "length dst = N * row_units t (head_dim c)"
    and h: "h < kv_heads c" "p < capacity c" and N: "N = kv_heads c * capacity c"
    and o: "\<not> is_opaque c" and nu: "numerics_ok nu"
    and q: "kv_dtype c = D_Q4_0 \<or> t = D_Q4_0 \<longrightarrow> head_dim c mod QK4_0 = 0"
  shows "\<exists>d'. recode_cell nu t c p h src dst = Ok d' \<and> length d' = length dst
    \<and> (\<forall>j < N. rowat d' (row_units t (head_dim c)) j = (if j = row_ix c h p
        then recode_row nu (kv_dtype c) t (rowat src (row c) j) else rowat dst (row_units t (head_dim c)) j))"
proof -
  have i: "row_ix c h p < N" using row_ix_less[OF h] N by simp
  have "length (recode_row nu (kv_dtype c) t (rowat src (row c) (row_ix c h p))) = row_units t (head_dim c)"
    using nu q read_row(2)[OF src i] row_addr_row(2)[OF o] by (simp add: numerics_ok_def)
  from write_row[OF dst this i] show ?thesis
    unfolding recode_cell_def row_addr_row[OF o] row_addr_target[of t] read_row(1)[OF src i] by auto
qed

lemma recode_fold:
  assumes b: "bufs_ok c" and o: "\<not> is_opaque c" and nu: "numerics_ok nu" and N: "N = kv_heads c * capacity c"
    and W: "W = row_units t (head_dim c)" and xs: "\<forall>(p, h) \<in> set xs. p < capacity c \<and> h < kv_heads c"
    and q: "kv_dtype c = D_Q4_0 \<or> t = D_Q4_0 \<longrightarrow> head_dim c mod QK4_0 = 0"
    and kv: "length k = N * W" "length v = N * W"
  shows "\<exists>k' v'. try_fold (\<lambda>(p, h) kv.
            and_then (recode_cell nu t c p h (k_buffer c) (fst kv)) (\<lambda>k.
            and_then (recode_cell nu t c p h (v_buffer c) (snd kv)) (\<lambda>v. Ok (k, v)))) xs (k, v) = Ok (k', v')
    \<and> length k' = N * W \<and> length v' = N * W
    \<and> (\<forall>h < kv_heads c. \<forall>p < capacity c. (rowat k' W (row_ix c h p), rowat v' W (row_ix c h p)) =
        (if (p, h) \<in> set xs then (recode_row nu (kv_dtype c) t (fst (cell c h p)), recode_row nu (kv_dtype c) t (snd (cell c h p)))
         else (rowat k W (row_ix c h p), rowat v W (row_ix c h p))))"
  using xs kv
proof (induction xs arbitrary: k v)
  case Nil
  then show ?case by simp
next
  case (Cons x xs)
  obtain p h where x: "x = (p, h)" by (cases x)
  with Cons.prems(1) have ph: "h < kv_heads c" "p < capacity c" by auto
  have len: "length (k_buffer c) = N * row c" "length (v_buffer c) = N * row c" using b N by (simp_all add: bufs_ok_def)
  from recode_cell_rows[OF len(1) Cons.prems(2)[unfolded W] ph N o nu q] obtain k1 where
    k1: "recode_cell nu t c p h (k_buffer c) k = Ok k1" "length k1 = N * W" "\<forall>j < N. rowat k1 W j = (if j = row_ix c h p
        then recode_row nu (kv_dtype c) t (rowat (k_buffer c) (row c) j) else rowat k W j)"
    using Cons.prems(2) unfolding W by auto
  from recode_cell_rows[OF len(2) Cons.prems(3)[unfolded W] ph N o nu q] obtain v1 where
    v1: "recode_cell nu t c p h (v_buffer c) v = Ok v1" "length v1 = N * W" "\<forall>j < N. rowat v1 W j = (if j = row_ix c h p
        then recode_row nu (kv_dtype c) t (rowat (v_buffer c) (row c) j) else rowat v W j)"
    using Cons.prems(3) unfolding W by auto
  have one: "(rowat k1 W (row_ix c h' q), rowat v1 W (row_ix c h' q)) =
      (if (q, h') = (p, h) then (recode_row nu (kv_dtype c) t (fst (cell c h' q)), recode_row nu (kv_dtype c) t (snd (cell c h' q)))
       else (rowat k W (row_ix c h' q), rowat v W (row_ix c h' q)))" if "h' < kv_heads c" "q < capacity c" for h' q
    using k1(3) v1(3) row_ix_less[OF that] row_ix_inj[of c h' q h p] that ph N by (auto simp: cell_def)
  from Cons.IH[OF _ k1(2) v1(2)] Cons.prems(1) obtain k2 v2 where
    c2: "try_fold (\<lambda>(p, h) kv.
            and_then (recode_cell nu t c p h (k_buffer c) (fst kv)) (\<lambda>k.
            and_then (recode_cell nu t c p h (v_buffer c) (snd kv)) (\<lambda>v. Ok (k, v)))) xs (k1, v1) = Ok (k2, v2)"
    "length k2 = N * W" "length v2 = N * W"
    "\<forall>h < kv_heads c. \<forall>p < capacity c. (rowat k2 W (row_ix c h p), rowat v2 W (row_ix c h p)) =
        (if (p, h) \<in> set xs then (recode_row nu (kv_dtype c) t (fst (cell c h p)), recode_row nu (kv_dtype c) t (snd (cell c h p)))
         else (rowat k1 W (row_ix c h p), rowat v1 W (row_ix c h p)))" by auto
  have all: "(rowat k2 W (row_ix c h' q), rowat v2 W (row_ix c h' q)) =
        (if (q, h') \<in> set (x # xs) then (recode_row nu (kv_dtype c) t (fst (cell c h' q)), recode_row nu (kv_dtype c) t (snd (cell c h' q)))
         else (rowat k W (row_ix c h' q), rowat v W (row_ix c h' q)))" if "h' < kv_heads c" "q < capacity c" for h' q
    unfolding c2(4)[rule_format, OF that] one[OF that] x by auto
  have "try_fold (\<lambda>(p, h) kv.
            and_then (recode_cell nu t c p h (k_buffer c) (fst kv)) (\<lambda>k.
            and_then (recode_cell nu t c p h (v_buffer c) (snd kv)) (\<lambda>v. Ok (k, v)))) (x # xs) (k, v) = Ok (k2, v2)"
    using k1(1) v1(1) c2(1) x by simp
  with c2(2,3) all show ?case by blast
qed

lemma typed_units:
  assumes "is_typed_floor t" "t = D_Q4_0 \<Longrightarrow> d mod QK4_0 = 0"
  shows "typed_byte_size (n * d) t div type_size t = n * row_units t d"
proof (cases "t = D_Q4_0")
  case True
  then have "QK4_0 dvd d" using assms(2) by (simp add: mod_eq_0_iff_dvd)
  with True show ?thesis by (simp add: typed_byte_size_def row_units_def size_of_BlockQ4_0_def div_mult_swap)
next
  case False
  with assms(1) show ?thesis by (auto simp: is_typed_floor_def typed_byte_size_def row_units_def)
qed

lemma reencode_typed_ok:
  assumes wf: "kv_wf c" and o: "\<not> is_opaque c" and nu: "numerics_ok nu"
    and t: "is_typed_floor t" "t = D_Q4_0 \<Longrightarrow> head_dim c mod QK4_0 = 0"
  shows "\<exists>c'. reencode_typed nu t c = Ok c' \<and> kv_wf c'
    \<and> c' = c\<lparr>k_buffer := k_buffer c', v_buffer := v_buffer c', kv_dtype := t, host_managed := True\<rparr>
    \<and> (\<forall>h < kv_heads c. \<forall>p < current_pos c. cell c' h p =
        (recode_row nu (kv_dtype c) t (fst (cell c h p)), recode_row nu (kv_dtype c) t (snd (cell c h p))))"
proof -
  define W where "W = row_units t (head_dim c)"
  define N where "N = kv_heads c * capacity c"
  define z where "z = zero_units nu t (typed_byte_size (capacity c * kv_heads c * head_dim c) t div type_size t)"
  have b: "bufs_ok c" "current_pos c \<le> capacity c" using wf by (auto simp: kv_wf_def)
  have z: "length z = N * W" using nu typed_units[OF t, of "capacity c * kv_heads c"]
    by (simp add: z_def numerics_ok_def W_def N_def mult.commute)
  have xs: "\<forall>(p, h) \<in> set (token_heads (current_pos c) (kv_heads c)). p < capacity c \<and> h < kv_heads c"
    using b(2) by (auto simp: token_heads_def)
  have q: "kv_dtype c = D_Q4_0 \<or> t = D_Q4_0 \<longrightarrow> head_dim c mod QK4_0 = 0"
    using wf o t(2) by (auto simp: kv_wf_def format_ok_def is_opaque_def)
  from recode_fold[OF b(1) o nu N_def W_def xs q z z] obtain k v where
    kv: "try_fold (\<lambda>(p, h) kv.
            and_then (recode_cell nu t c p h (k_buffer c) (fst kv)) (\<lambda>k.
            and_then (recode_cell nu t c p h (v_buffer c) (snd kv)) (\<lambda>v. Ok (k, v))))
          (token_heads (current_pos c) (kv_heads c)) (z, z) = Ok (k, v)" "length k = N * W" "length v = N * W"
    "\<forall>h < kv_heads c. \<forall>p < capacity c. (rowat k W (row_ix c h p), rowat v W (row_ix c h p)) =
        (if (p, h) \<in> set (token_heads (current_pos c) (kv_heads c))
         then (recode_row nu (kv_dtype c) t (fst (cell c h p)), recode_row nu (kv_dtype c) t (snd (cell c h p)))
         else (rowat z W (row_ix c h p), rowat z W (row_ix c h p)))" by blast
  define c' where "c' = c\<lparr>k_buffer := k, v_buffer := v, kv_dtype := t, host_managed := True\<rparr>"
  have "reencode_typed nu t c = Ok c'" using t(2) kv(1)
    by (auto simp: reencode_typed_def Let_def z_def[symmetric] c'_def)
  moreover have r: "row c' = W" "row_ix c' = row_ix c"
    using o by (auto simp: c'_def W_def row_def row_units_def is_q4_def is_opaque_def row_ix_def fun_eq_iff split: kv_layout.splits)
  have "cell c' h p = (recode_row nu (kv_dtype c) t (fst (cell c h p)), recode_row nu (kv_dtype c) t (snd (cell c h p)))"
    if "h < kv_heads c" "p < current_pos c" for h p
  proof -
    have "(p, h) \<in> set (token_heads (current_pos c) (kv_heads c))" using that by (simp add: token_heads_def)
    with kv(4)[rule_format, OF that(1), of p] that(2) b(2) show ?thesis
      by (simp add: cell_def[of c'] r) (simp add: c'_def)
  qed
  moreover have "kv_wf c'"
  proof -
    have "opaque c = None" using o by (simp add: is_opaque_def)
    with t have "format_ok c'" by (auto simp: format_ok_def c'_def is_typed_floor_def)
    moreover have "bufs_ok c'" using kv(2,3) r(1) by (simp add: bufs_ok_def N_def) (simp add: c'_def)
    ultimately show ?thesis using wf by (simp add: kv_wf_def c'_def)
  qed
  ultimately show ?thesis by (intro exI[of _ c']) (simp add: c'_def)
qed


section \<open>Properties\<close>

text \<open>A concrete arithmetic: rows are re-encoded unit by unit, a merge adds the weighted units.\<close>

definition demo_numerics :: "(nat, nat) numerics" where
  "demo_numerics = \<lparr>
     recode_row = (\<lambda>s t r. if s = D_Q4_0 then (if t = D_Q4_0 then r else concat (map (replicate QK4_0) r))
       else if t = D_Q4_0 then replicate (length r div QK4_0) (sum_list r) else map (\<lambda>x. x + 100) r),
     merge_row = (\<lambda>dt od w r fs. map (\<lambda>i. w * r ! i + sum_list (map (\<lambda>(wt, f). wt * f ! i) fs)) [0..<length r]),
     zero_units = (\<lambda>dt n. replicate n 0)\<rparr>"

text \<open>
  A batch of weighted merges whose positions are resident, in a format that can be written, never panics and only rewrites the \<open>into\<close> rows:
  every other row of every head is untouched, the cache stays well formed and uniform positions stay
  where they are. A single merge writes exactly the weighted combination of the old rows, on the side it
  names.
\<close>

theorem merges_touch_only_targets:
  assumes "kv_wf c" "numerics_ok nu" "\<forall>m \<in> set ms. merge_in_range (current_pos c) m" "writable (opaque c)"
  shows "\<exists>c'. apply_weighted_merges nu ms c = Ok c' \<and> kv_wf c' \<and> same_geom c c'
    \<and> (\<forall>h < kv_heads c. \<forall>p < capacity c. p \<notin> merge_into ` set ms \<longrightarrow> cell c' h p = cell c h p)
    \<and> (\<forall>m. ms = [m] \<and> merge_from m \<noteq> [] \<longrightarrow> (\<forall>h < kv_heads c. cell c' h (merge_into m) = merged_cell nu m c h))"
proof -
  have cap: "current_pos c \<le> capacity c" using assms(1) by (auto simp: kv_wf_def)
  then have r: "\<forall>m \<in> set ms. merge_in_range (capacity c) m" using assms(3) merge_in_range_mono by blast
  from apply_weighted_merges_ok[OF assms(1) r assms(2,4)] obtain c' where
    c': "apply_weighted_merges nu ms c = Ok c'" "same_geom c c'"
    "\<forall>h < kv_heads c. \<forall>p < capacity c. p \<notin> merge_into ` set ms \<longrightarrow> cell c' h p = cell c h p" by blast
  have "cell c' h (merge_into m) = merged_cell nu m c h" if "ms = [m]" "merge_from m \<noteq> []" "h < kv_heads c" for m h
  proof -
    from r that(1) have m: "merge_in_range (capacity c) m" by simp
    from apply_one_merge_ok[OF assms(1) m assms(2,4)] c'(1) that show ?thesis
      using m by (auto simp: apply_weighted_merges_def merge_in_range_def)
  qed
  with c' same_geom_wf[OF c'(2)] assms(1) show ?thesis by blast
qed


lemma concat_replicate_length: "length (concat (map (replicate n) xs)) = n * length xs"
  by (induction xs) simp_all

lemma demo_numerics_ok: "numerics_ok demo_numerics"
proof -
  have "length (recode_row demo_numerics s t r) = row_units t d"
    if "length r = row_units s d" "s = D_Q4_0 \<or> t = D_Q4_0 \<longrightarrow> d mod QK4_0 = 0" for s t d r
    using that by (auto simp: demo_numerics_def row_units_def concat_replicate_length mod_eq_0_iff_dvd)
  then show ?thesis unfolding numerics_ok_def by (auto simp: demo_numerics_def)
qed

theorem merges_touch_only_targets_witness:
  "\<exists>c'. apply_weighted_merges demo_numerics
      [\<lparr>merge_into = 0, into_weight = 1, merge_from = [(1, 2)], apply_to = ValueOnly\<rparr>] demo_cache = Ok c'
    \<and> cell c' 1 0 = ([20], [122]) \<and> cell c' 1 1 = ([21], [41])"
proof -
  let ?m = "\<lparr>merge_into = 0, into_weight = 1, merge_from = [(1, 2)], apply_to = ValueOnly\<rparr> :: nat weighted_merge"
  have "\<forall>m \<in> set [?m]. merge_in_range (current_pos demo_cache) m" by (simp add: merge_in_range_def)
  from merges_touch_only_targets[OF demo_cache_wf demo_numerics_ok this] obtain c' where
    c': "apply_weighted_merges demo_numerics [?m] demo_cache = Ok c'"
    "\<forall>h < kv_heads demo_cache. \<forall>p < capacity demo_cache. p \<notin> merge_into ` set [?m] \<longrightarrow> cell c' h p = cell demo_cache h p"
    "\<forall>h < kv_heads demo_cache. cell c' h (merge_into ?m) = merged_cell demo_numerics ?m demo_cache h" by auto
  have "cell c' 1 0 = merged_cell demo_numerics ?m demo_cache 1" "cell c' 1 1 = cell demo_cache 1 1" using c'(2,3) by auto
  moreover have "merged_cell demo_numerics ?m demo_cache 1 = ([20], [122])"
    by (simp add: merged_cell_def merged_row_def cell_def rowat_def row_ix_def demo_numerics_def)
  moreover have "cell demo_cache 1 1 = ([21], [41])" by (simp add: cell_def rowat_def row_ix_def)
  ultimately show ?thesis using c'(1) by auto
qed

text \<open>
  \<open>apply_format_plan\<close> on a typed cache, on every branch of a plan. The current format is a no-op; a plan
  that covers part of the layer is refused; an unknown format and a block format that does not tile the
  heads are refused; a change of base format re-encodes every resident row in place and changes nothing
  else: positions, head starts and geometry stay, and the cache is well formed in its new format.
\<close>

theorem format_plan_contract:
  assumes wf: "kv_wf c" and o: "\<not> is_opaque c" and nu: "numerics_ok nu"
  shows "(overrides plan = [] \<and> plan_base plan = current_format_name c \<longrightarrow> apply_format_plan nu plan c = Ok c)
    \<and> ((\<exists>ov \<in> set (overrides plan). \<exists>pp. region ov = PerHead pp) \<longrightarrow> apply_format_plan nu plan c = Err HeterogeneousUnsupported)
    \<and> (overrides plan = [] \<and> plan_base plan \<notin> {''f32'', ''f16'', ''q4_0''} \<longrightarrow>
         apply_format_plan nu plan c = Err (UnsupportedFormat (plan_base plan)))
    \<and> (\<forall>t. overrides plan = [] \<and> typed_floor_dtype (plan_base plan) = Some t \<and> kv_dtype c \<noteq> t
         \<and> (t = D_Q4_0 \<longrightarrow> head_dim c mod QK4_0 = 0) \<longrightarrow>
         (\<exists>c'. apply_format_plan nu plan c = Ok c' \<and> kv_wf c' \<and> kv_dtype c' = t
           \<and> current_pos c' = current_pos c \<and> head_starts c' = head_starts c \<and> layout c' = layout c
           \<and> (\<forall>h < kv_heads c. contents c' h = map (\<lambda>(k, v). (recode_row nu (kv_dtype c) t k, recode_row nu (kv_dtype c) t v))
                 (contents c h))))"
proof -
  have fl: "is_typed_floor (kv_dtype c)" using wf o by (auto simp: kv_wf_def format_ok_def is_opaque_def is_typed_floor_def)
  have cur: "current_format_name c \<in> {''f32'', ''f16'', ''q4_0''}"
    using fl by (auto simp: current_format_name_def is_typed_floor_def)
  have last: "\<exists>c'. apply_format_plan nu plan c = Ok c' \<and> kv_wf c' \<and> kv_dtype c' = t
           \<and> current_pos c' = current_pos c \<and> head_starts c' = head_starts c \<and> layout c' = layout c
           \<and> (\<forall>h < kv_heads c. contents c' h = map (\<lambda>(k, v). (recode_row nu (kv_dtype c) t k, recode_row nu (kv_dtype c) t v))
                 (contents c h))"
    if a: "overrides plan = []" "typed_floor_dtype (plan_base plan) = Some t" "kv_dtype c \<noteq> t"
      "t = D_Q4_0 \<longrightarrow> head_dim c mod QK4_0 = 0" for t
  proof -
    have t: "is_typed_floor t" "plan_base plan \<noteq> current_format_name c"
      using a(2,3) fl by (auto simp: typed_floor_dtype_def is_typed_floor_def current_format_name_def split: if_splits)
    from reencode_typed_ok[OF wf o nu t(1)] a(4) obtain c' where
      c': "reencode_typed nu t c = Ok c'" "kv_wf c'"
      "c' = c\<lparr>k_buffer := k_buffer c', v_buffer := v_buffer c', kv_dtype := t, host_managed := True\<rparr>"
      "\<forall>h < kv_heads c. \<forall>p < current_pos c. cell c' h p =
        (recode_row nu (kv_dtype c) t (fst (cell c h p)), recode_row nu (kv_dtype c) t (snd (cell c h p)))" by blast
    obtain k v where e: "c' = c\<lparr>k_buffer := k, v_buffer := v, kv_dtype := t, host_managed := True\<rparr>" using c'(3) by blast
    have "apply_format_plan nu plan c = Ok c'"
      using a t(2) fl c'(1) by (simp add: apply_format_plan_def reencode_uniform_def)
    moreover have "head_start c' = head_start c" by (simp add: e head_start_def fun_eq_iff)
    moreover have "current_pos c' = current_pos c" "layout c' = layout c" "kv_dtype c' = t" "kv_heads c' = kv_heads c"
      by (simp_all add: e)
    ultimately show ?thesis using c'(2,4) by (auto simp: contents_def head_starts_def split: prod.splits)
  qed
  have bad: "apply_format_plan nu plan c = Err (UnsupportedFormat (plan_base plan))"
    if "overrides plan = []" "plan_base plan \<notin> {''f32'', ''f16'', ''q4_0''}"
    using that cur fl by (auto simp: apply_format_plan_def reencode_uniform_def typed_floor_dtype_def)
  have het: "apply_format_plan nu plan c = Err HeterogeneousUnsupported"
    if "\<exists>ov \<in> set (overrides plan). \<exists>pp. region ov = PerHead pp"
  proof -
    from that have "overrides plan \<noteq> []" by auto
    moreover from that have "list_ex (\<lambda>ov. case region ov of PerHead _ \<Rightarrow> True | LayerWide ps \<Rightarrow> length ps \<noteq> current_pos c) (overrides plan)"
      by (auto simp: list_ex_iff intro!: bexI)
    ultimately show ?thesis by (simp add: apply_format_plan_def)
  qed
  show ?thesis using last bad het by (auto simp: apply_format_plan_def)
qed

theorem format_plan_contract_witness:
  "\<exists>c'. apply_format_plan demo_numerics \<lparr>plan_base = ''f16'', overrides = []\<rparr> demo_cache = Ok c' \<and> kv_wf c'
    \<and> kv_dtype c' = D_F16 \<and> contents c' 0 = [([110], [130]), ([111], [131])]"
proof -
  have "\<not> is_opaque demo_cache" by simp
  from format_plan_contract[OF demo_cache_wf this demo_numerics_ok, of "\<lparr>plan_base = ''f16'', overrides = []\<rparr>"]
  obtain c' where "apply_format_plan demo_numerics \<lparr>plan_base = ''f16'', overrides = []\<rparr> demo_cache = Ok c'" "kv_wf c'"
    "kv_dtype c' = D_F16" "contents c' 0 = map (\<lambda>(k, v). (recode_row demo_numerics D_F32 D_F16 k,
        recode_row demo_numerics D_F32 D_F16 v)) (contents demo_cache 0)"
    by (auto simp: typed_floor_dtype_def)
  moreover have "contents demo_cache 0 = [([10], [30]), ([11], [31])]"
    by (simp add: contents_def cell_def rowat_def row_ix_def upt_rec)
  ultimately show ?thesis by (simp add: demo_numerics_def)
qed

end
