(* ===== verification/Swap_Handler.thy ===== *)
theory Swap_Handler
  imports Kv_Props
begin

text \<open>
  \<^verbatim>\<open>engine/src/kv/swap_handler.rs\<close>: offloading the oldest positions of a cache to files and recalling
  them. A file holds the units of one buffer part; its name is the layer, the sequence number, the count
  and the side (K or V). The directory, the writes and the reads can fail; whether they do is given by
  the environment. The ratio-driven count of \<open>offload_one\<close> is floating point and is a function of the
  handler. The mutex around the ledger is not modelled: every access holds it for one step.
\<close>

section \<open>State\<close>

datatype side = KSide | VSide

type_synonym swap_path = "nat \<times> nat \<times> nat \<times> side"

record swap_record =
  layer_idx :: nat
  token_count :: nat
  k_path :: swap_path
  v_path :: swap_path
  rec_dtype :: dtype
  rec_head_stride :: nat
  rec_n_heads :: nat
  rec_head_dim :: nat

record 'u swap =
  ratio_count :: "nat \<Rightarrow> nat"
  swap_dir :: bool
  records :: "swap_record list"
  next_seq :: nat
  files :: "swap_path \<Rightarrow> 'u list option"

record fs_env =
  create_dir_ok :: bool
  write_ok :: "swap_path \<Rightarrow> bool"

datatype swap_error = RecallLayout | RecallHeads | RecallDtype | RecallRead | RecallFileSize | SwapKv kv_error

type_synonym 'a swap_result = "(swap_error, 'a) result"

definition SwapHandler_new :: "(nat \<Rightarrow> nat) \<Rightarrow> bool \<Rightarrow> 'u swap" where
  "SwapHandler_new ratio disk =
     \<lparr>ratio_count = ratio, swap_dir = disk, records = [], next_seq = 0, files = (\<lambda>_. None)\<rparr>"

section \<open>Offload\<close>

text \<open>The dump of one buffer: the first \<open>n\<close> positions of every head, one head after the other.\<close>

definition dump_prefix :: "nat \<Rightarrow> 'u kvcache \<Rightarrow> 'u list \<Rightarrow> 'u list swap_result" where
  "dump_prefix n c all =
     (let src_stride = capacity c * head_dim c; cp = n * head_dim c in
      try_fold (\<lambda>h out. and_then (slice all (h * src_stride) (h * src_stride + cp)) (\<lambda>s. Ok (out @ s)))
        [0..<kv_heads c] [])"

definition prune :: "'u kv_os \<Rightarrow> nat \<Rightarrow> 'u swap \<Rightarrow> 'u kvcache \<Rightarrow> (nat \<times> 'u swap \<times> 'u kvcache) swap_result" where
  "prune os n sw c = and_then (map_err SwapKv (prune_prefix os n c)) (\<lambda>c. Ok (n, sw, c))"

text \<open>
  \<open>offload_prefix\<close>. \<open>k_bytes\<close> is a zeroed vector filled head by head at increasing adjacent offsets, so it
  is the concatenation of the parts; a failed write of the V file removes the K file again.
\<close>

definition offload_prefix ::
    "'u kv_os \<Rightarrow> fs_env \<Rightarrow> nat \<Rightarrow> nat \<Rightarrow> 'u swap \<Rightarrow> 'u kvcache \<Rightarrow> (nat \<times> 'u swap \<times> 'u kvcache) swap_result" where
  "offload_prefix os env layer n sw c =
     (let tot = current_pos c in
      if tot = 0 \<or> n = 0 \<or> n \<ge> tot then Ok (0, sw, c)
      else if \<not> swap_dir sw then prune os n sw c
      else if kv_dtype c \<notin> {D_F32, D_F16} then prune os n sw c
      else if layout c \<noteq> HeadMajor then prune os n sw c
      else if \<not> create_dir_ok env then prune os n sw c
      else
        and_then (dump_prefix n c (k_buffer c)) (\<lambda>k_bytes.
        and_then (dump_prefix n c (v_buffer c)) (\<lambda>v_bytes.
        let seq = next_seq sw;
            sw = sw\<lparr>next_seq := seq + 1\<rparr>;
            kp = (layer, seq, n, KSide);
            vp = (layer, seq, n, VSide) in
        if \<not> write_ok env kp then prune os n sw c
        else if \<not> write_ok env vp then prune os n (sw\<lparr>files := (files sw)(kp := None)\<rparr>) c
        else
          let sw = sw\<lparr>files := (files sw)(kp := Some k_bytes, vp := Some v_bytes),
                records := records sw @ [\<lparr>layer_idx = layer, token_count = n, k_path = kp, v_path = vp,
                   rec_dtype = kv_dtype c, rec_head_stride = n * head_dim c, rec_n_heads = kv_heads c,
                   rec_head_dim = head_dim c\<rparr>]\<rparr> in
          prune os n sw c)))"

definition offload_one ::
    "'u kv_os \<Rightarrow> fs_env \<Rightarrow> nat \<Rightarrow> 'u swap \<Rightarrow> 'u kvcache \<Rightarrow> (nat \<times> 'u swap \<times> 'u kvcache) swap_result" where
  "offload_one os env layer sw c =
     (if current_pos c = 0 then Ok (0, sw, c)
      else offload_prefix os env layer (max (ratio_count sw (current_pos c)) 1) sw c)"

fun offload_caches_from ::
    "'u kv_os \<Rightarrow> fs_env \<Rightarrow> nat \<Rightarrow> 'u swap \<Rightarrow> 'u kvcache list \<Rightarrow> (nat \<times> 'u swap \<times> 'u kvcache list) swap_result" where
  "offload_caches_from os env layer sw [] = Ok (0, sw, [])"
| "offload_caches_from os env layer sw (c # cs) =
     and_then (offload_one os env layer sw c) (\<lambda>(n, sw, c).
     and_then (offload_caches_from os env (layer + 1) sw cs) (\<lambda>(m, sw, cs). Ok (n + m, sw, c # cs)))"

definition offload_caches ::
    "'u kv_os \<Rightarrow> fs_env \<Rightarrow> 'u swap \<Rightarrow> 'u kvcache list \<Rightarrow> (nat \<times> 'u swap \<times> 'u kvcache list) swap_result" where
  "offload_caches os env = offload_caches_from os env 0"

section \<open>Recall\<close>

text \<open>
  \<open>recall_one\<close> returns the cache together with the outcome: its callers go on with the cache after an
  error, and by then the resident positions may already have been moved up.
\<close>

definition write_heads :: "nat \<Rightarrow> 'u list \<Rightarrow> 'u list \<Rightarrow> 'u kvcache \<Rightarrow> 'u kvcache kv_result" where
  "write_heads per_head kb vb c =
     try_fold (\<lambda>h. copy_in kb vb (h * per_head) (h * (capacity c * head_dim c)) per_head) [0..<kv_heads c] c"

definition recall_write ::
    "(swap_path \<Rightarrow> 'u list option) \<Rightarrow> swap_record \<Rightarrow> nat \<Rightarrow> 'u kvcache \<Rightarrow> 'u kvcache \<times> nat swap_result" where
  "recall_write fs rec existing c = (case (fs (k_path rec), fs (v_path rec)) of
     (Some kb, Some vb) \<Rightarrow>
       (let count = token_count rec; per_head = count * rec_head_dim rec in
        if length kb \<noteq> per_head * rec_n_heads rec \<or> length vb \<noteq> per_head * rec_n_heads rec
        then (c, Err RecallFileSize)
        else (case write_heads per_head kb vb c of
            Ok c \<Rightarrow> (c\<lparr>current_pos := existing + count,
                      high_water_pos := max (high_water_pos c) (existing + count)\<rparr>, Ok count)
          | Err e \<Rightarrow> (c, Err (SwapKv e)) | Panic \<Rightarrow> (c, Panic)))
   | _ \<Rightarrow> (c, Err RecallRead))"

definition recall_one ::
    "(swap_path \<Rightarrow> 'u list option) \<Rightarrow> swap_record \<Rightarrow> 'u kvcache \<Rightarrow> 'u kvcache \<times> nat swap_result" where
  "recall_one fs rec c =
     (if layout c \<noteq> HeadMajor then (c, Err RecallLayout)
      else if head_dim c \<noteq> rec_head_dim rec \<or> kv_heads c \<noteq> rec_n_heads rec then (c, Err RecallHeads)
      else if kv_dtype c \<noteq> rec_dtype rec then (c, Err RecallDtype)
      else
        let count = token_count rec; existing = current_pos c in
        (case (if existing + count > capacity c then ensure_capacity (existing + count) c else Ok (False, c)) of
           Err e \<Rightarrow> (c, Ok 0)
         | Panic \<Rightarrow> (c, Panic)
         | Ok (_, c) \<Rightarrow>
             (case (if existing > 0 then shift_positions 0 count existing c else Ok c) of
                Err e \<Rightarrow> (c, Err (SwapKv e))
              | Panic \<Rightarrow> (c, Panic)
              | Ok c \<Rightarrow> recall_write fs rec existing c)))"

definition drop_files :: "swap_record \<Rightarrow> 'u swap \<Rightarrow> 'u swap" where
  "drop_files rec sw = sw\<lparr>files := (files sw)(k_path rec := None, v_path rec := None)\<rparr>"

text \<open>\<open>recall_layer\<close>: pop the first record of the layer, restore it, remove its files.\<close>

definition recall_layer :: "nat \<Rightarrow> 'u swap \<Rightarrow> 'u kvcache \<Rightarrow> 'u swap \<times> 'u kvcache \<times> nat swap_result" where
  "recall_layer layer sw c = (case List.extract (\<lambda>r. layer_idx r = layer) (records sw) of
     None \<Rightarrow> (sw, c, Ok 0)
   | Some (before, rec, after) \<Rightarrow>
       (let (c', r) = recall_one (files sw) rec c in
        (drop_files rec (sw\<lparr>records := before @ after\<rparr>), c', r)))"

text \<open>\<open>recall_caches\<close>: all records, oldest first; a failed one is skipped.\<close>

fun recall_all :: "swap_record list \<Rightarrow> 'u swap \<Rightarrow> 'u kvcache list \<Rightarrow> (nat \<times> 'u swap \<times> 'u kvcache list) swap_result" where
  "recall_all [] sw cs = Ok (0, sw, cs)"
| "recall_all (rec # recs) sw cs =
     (if layer_idx rec \<ge> length cs then recall_all recs sw cs
      else
        let (c', r) = recall_one (files sw) rec (cs ! layer_idx rec) in
        (case r of
           Panic \<Rightarrow> Panic
         | Err e \<Rightarrow> recall_all recs (drop_files rec sw) (cs[layer_idx rec := c'])
         | Ok n \<Rightarrow> and_then (recall_all recs (drop_files rec sw) (cs[layer_idx rec := c']))
                     (\<lambda>(m, sw, cs). Ok (n + m, sw, cs))))"

definition recall_caches :: "'u swap \<Rightarrow> 'u kvcache list \<Rightarrow> (nat \<times> 'u swap \<times> 'u kvcache list) swap_result" where
  "recall_caches sw cs = recall_all (records sw) (sw\<lparr>records := []\<rparr>) cs"

end
