(* ===== verification/Swap_Props.thy ===== *)
theory Swap_Props
  imports Swap_Handler
begin

text \<open>
  The swap handler as a queue. The abstract state of a layer is the queue of the row lists its outstanding
  records hold, oldest first; an offload appends the rows it takes from the cache, a recall takes the
  oldest record and puts its rows in front of the resident ones. The invariant of the ledger says that the
  files of every record are there, whole, and shared with no other record.
\<close>

section \<open>The ledger\<close>

definition seq_of :: "swap_record \<Rightarrow> nat" where
  "seq_of r = fst (snd (k_path r))"

definition rec_files_ok :: "(swap_path \<Rightarrow> 'u list option) \<Rightarrow> swap_record \<Rightarrow> bool" where
  "rec_files_ok fs r \<longleftrightarrow> (\<exists>kb vb. fs (k_path r) = Some kb \<and> fs (v_path r) = Some vb
     \<and> length kb = token_count r * rec_head_dim r * rec_n_heads r
     \<and> length vb = token_count r * rec_head_dim r * rec_n_heads r)"

definition rec_paths_ok :: "swap_record \<Rightarrow> bool" where
  "rec_paths_ok r \<longleftrightarrow> k_path r = (layer_idx r, seq_of r, token_count r, KSide)
     \<and> v_path r = (layer_idx r, seq_of r, token_count r, VSide)"

definition swap_wf :: "'u swap \<Rightarrow> bool" where
  "swap_wf sw \<longleftrightarrow> distinct (map seq_of (records sw))
     \<and> (\<forall>r \<in> set (records sw). seq_of r < next_seq sw \<and> rec_paths_ok r \<and> rec_files_ok (files sw) r)"

text \<open>The rows a record holds for a head, and the queue of a layer.\<close>

definition rec_rows :: "(swap_path \<Rightarrow> 'u list option) \<Rightarrow> nat \<Rightarrow> swap_record \<Rightarrow> ('u list \<times> 'u list) list" where
  "rec_rows fs h r = (case (fs (k_path r), fs (v_path r)) of
     (Some kb, Some vb) \<Rightarrow> map (\<lambda>j. (rowat kb (rec_head_dim r) (h * token_count r + j),
                                   rowat vb (rec_head_dim r) (h * token_count r + j))) [0..<token_count r]
   | _ \<Rightarrow> [])"

definition pending :: "'u swap \<Rightarrow> nat \<Rightarrow> nat \<Rightarrow> ('u list \<times> 'u list) list list" where
  "pending sw L h = map (rec_rows (files sw) h) (filter (\<lambda>r. layer_idx r = L) (records sw))"

lemma rec_frame:
  assumes "fs' (k_path r) = fs (k_path r)" "fs' (v_path r) = fs (v_path r)"
  shows "rec_rows fs' h r = rec_rows fs h r" "rec_files_ok fs' r = rec_files_ok fs r"
  using assms by (simp_all add: rec_rows_def rec_files_ok_def)

lemma new_swap_wf: "swap_wf (SwapHandler_new ratio disk)"
  by (simp add: swap_wf_def SwapHandler_new_def)

text \<open>Registering a record under a fresh sequence number.\<close>

lemma register_ok:
  assumes wf: "swap_wf sw" and r: "seq_of r = next_seq sw" "rec_paths_ok r"
    and sw': "sw' = sw\<lparr>next_seq := next_seq sw + 1, files := (files sw)(k_path r := Some kb, v_path r := Some vb),
        records := records sw @ [r]\<rparr>"
    and len: "length kb = token_count r * rec_head_dim r * rec_n_heads r"
      "length vb = token_count r * rec_head_dim r * rec_n_heads r"
  shows "swap_wf sw'"
    "pending sw' L h = pending sw L h @ (if layer_idx r = L then [rec_rows (files sw') h r] else [])"
proof -
  have old: "files sw' (k_path q) = files sw (k_path q)" "files sw' (v_path q) = files sw (v_path q)"
    if "q \<in> set (records sw)" for q
    using wf r that by (auto simp: sw' swap_wf_def rec_paths_ok_def)
  have "rec_files_ok (files sw') r" using r(2) len by (auto simp: sw' rec_files_ok_def rec_paths_ok_def)
  moreover have "seq_of q \<noteq> seq_of r" if "q \<in> set (records sw)" for q
    using wf that r(1) by (auto simp: swap_wf_def)
  moreover have fr: "rec_files_ok (files sw') q = rec_files_ok (files sw) q" if "q \<in> set (records sw)" for q
    using old[OF that] by (rule rec_frame)
  moreover have rs: "records sw' = records sw @ [r]" "next_seq sw' = Suc (next_seq sw)" by (simp_all add: sw')
  ultimately show "swap_wf sw'"
    using wf r unfolding swap_wf_def rs by (auto simp: less_Suc_eq)
  have "map (rec_rows (files sw') h) (filter (\<lambda>r. layer_idx r = L) (records sw))
      = map (rec_rows (files sw) h) (filter (\<lambda>r. layer_idx r = L) (records sw))"
    by (rule map_cong) (use old in \<open>auto intro: rec_frame\<close>)
  then show "pending sw' L h = pending sw L h @ (if layer_idx r = L then [rec_rows (files sw') h r] else [])"
    unfolding pending_def by (simp add: sw')
qed

text \<open>Popping the first record of a layer and removing its files.\<close>

lemma pop_ok:
  assumes wf: "swap_wf sw" and ex: "List.extract (\<lambda>r. layer_idx r = L) (records sw) = Some (before, r, after)"
    and sw': "sw' = drop_files r (sw\<lparr>records := before @ after\<rparr>)"
  shows "swap_wf sw'" "layer_idx r = L" "r \<in> set (records sw)"
    "pending sw L h = rec_rows (files sw) h r # pending sw' L h" "M \<noteq> L \<Longrightarrow> pending sw' M h = pending sw M h"
proof -
  have e: "records sw = before @ r # after" "layer_idx r = L" "\<forall>q \<in> set before. layer_idx q \<noteq> L"
    using ex by (auto simp: extract_Some_iff)
  then show "layer_idx r = L" "r \<in> set (records sw)" by simp_all
  have old: "files sw' (k_path q) = files sw (k_path q)" "files sw' (v_path q) = files sw (v_path q)"
    if "q \<in> set (before @ after)" for q
  proof -
    have "seq_of r \<notin> seq_of ` set (before @ after)" using wf e(1) by (auto simp: swap_wf_def)
    with that have "seq_of q \<noteq> seq_of r" by (metis imageI)
    then show "files sw' (k_path q) = files sw (k_path q)" "files sw' (v_path q) = files sw (v_path q)"
      using wf that e(1) by (auto simp: sw' drop_files_def swap_wf_def rec_paths_ok_def)
  qed
  have fr: "rec_files_ok (files sw') q = rec_files_ok (files sw) q" if "q \<in> set (before @ after)" for q
    using old[OF that] by (rule rec_frame)
  have rs: "records sw' = before @ after" "next_seq sw' = next_seq sw" by (simp_all add: sw' drop_files_def)
  show "swap_wf sw'" using wf e(1) fr unfolding swap_wf_def rs by auto
  have same: "map (rec_rows (files sw') h) (filter P (before @ after)) = map (rec_rows (files sw) h) (filter P (before @ after))" for P
    by (rule map_cong) (use old in \<open>auto intro: rec_frame\<close>)
  have "filter (\<lambda>q. layer_idx q = L) before = []" using e(3) by (simp add: filter_empty_conv)
  then show "pending sw L h = rec_rows (files sw) h r # pending sw' L h"
    using same[of "\<lambda>q. layer_idx q = L"] e(1,2) by (simp add: pending_def sw' drop_files_def)
  show "M \<noteq> L \<Longrightarrow> pending sw' M h = pending sw M h"
    using same[of "\<lambda>q. layer_idx q = M"] e(1,2) by (simp add: pending_def sw' drop_files_def)
qed

section \<open>Dumping and writing back\<close>

lemma concat_length: "\<forall>h < H. length (g h) = m \<Longrightarrow> length (concat (map g [0..<H])) = H * m"
  by (induction H) auto

lemma concat_block:
  assumes "\<forall>h < H. length (g h) = m" "h < H"
  shows "field (concat (map g [0..<H])) (h * m) m = g h"
  using assms
proof (induction H)
  case 0
  then show ?case by simp
next
  case (Suc H)
  have l: "length (concat (map g [0..<H])) = H * m" using Suc.prems(1) by (intro concat_length) simp
  show ?case
  proof (cases "h = H")
    case True
    with l Suc.prems(1) show ?thesis by simp
  next
    case False
    with Suc.prems(2) have h: "h < H" by simp
    then have "h * m + m \<le> H * m" using mult_le_mono1[of "Suc h" H m] by simp
    with l have "field (concat (map g [0..<Suc H])) (h * m) m = field (concat (map g [0..<H])) (h * m) m" by simp
    with Suc.IH Suc.prems(1) h show ?thesis by simp
  qed
qed

lemma dump_prefix_ok:
  assumes l: "length b = kv_heads c * capacity c * head_dim c" and n: "n \<le> capacity c"
  shows "\<exists>kb. dump_prefix n c b = Ok kb \<and> length kb = n * head_dim c * kv_heads c
    \<and> (\<forall>h < kv_heads c. \<forall>j < n. rowat kb (head_dim c) (h * n + j) = rowat b (head_dim c) (h * capacity c + j))"
proof -
  let ?C = "capacity c" and ?d = "head_dim c" and ?H = "kv_heads c"
  define g where "g h = field b (h * (?C * ?d)) (n * ?d)" for h
  have fit: "h * (?C * ?d) + n * ?d \<le> length b" if "h < ?H" for h
  proof -
    have "(h * ?C + n) * ?d \<le> (?H * ?C) * ?d"
      using mult_le_mono1[of "Suc h" ?H ?C] that n by (intro mult_le_mono1) simp
    then show ?thesis using l by (simp add: algebra_simps)
  qed
  have gl: "\<forall>h < ?H. length (g h) = n * ?d"
  proof (intro allI impI)
    fix h assume "h < ?H"
    from fit[OF this] show "length (g h) = n * ?d" by (simp add: g_def)
  qed
  have "try_fold (\<lambda>h out. and_then (slice b (h * (?C * ?d)) (h * (?C * ?d) + n * ?d)) (\<lambda>s. Ok (out @ s))) [0..<k] []
      = (Ok (concat (map g [0..<k])) :: 'a list swap_result)" if "k \<le> ?H" for k
    using that
  proof (induction k)
    case 0
    then show ?case by simp
  next
    case (Suc k)
    with fit[of k] show ?case by (simp add: try_fold_append slice_def g_def)
  qed
  then have "dump_prefix n c b = Ok (concat (map g [0..<?H]))" by (simp add: dump_prefix_def Let_def)
  moreover have "length (concat (map g [0..<?H])) = n * ?d * ?H" using concat_length[OF gl] by (simp add: mult.commute)
  moreover have "rowat (concat (map g [0..<?H])) ?d (h * n + j) = rowat b ?d (h * ?C + j)"
    if "h < ?H" "j < n" for h j
  proof -
    have "rowat (field (concat (map g [0..<?H])) (h * n * ?d) (n * ?d)) ?d j = rowat (concat (map g [0..<?H])) ?d (h * n + j)"
      using that(2) by (rule rowat_field)
    moreover have "rowat (field b (h * ?C * ?d) (n * ?d)) ?d j = rowat b ?d (h * ?C + j)"
      using that(2) by (rule rowat_field)
    ultimately show ?thesis using concat_block[OF gl that(1)] by (simp add: g_def mult.assoc)
  qed
  ultimately show ?thesis by blast
qed

lemma write_heads_fold:
  assumes "bufs_ok c" "layout c = HeadMajor" "row c = head_dim c" "n \<le> capacity c" "d = head_dim c" "C = capacity c"
    and "length kb = kv_heads c * n * d" "length vb = kv_heads c * n * d" "\<forall>h \<in> set hs. h < kv_heads c"
  shows "\<exists>c'. try_fold (\<lambda>h. copy_in kb vb (h * (n * d)) (h * (C * d)) (n * d)) hs c = Ok c'
    \<and> same_geom c c' \<and> (\<forall>h < kv_heads c. \<forall>p < capacity c. cell c' h p =
        (if h \<in> set hs \<and> p < n then (rowat kb d (h * n + p), rowat vb d (h * n + p)) else cell c h p))"
  using assms
proof (induction hs arbitrary: c)
  case Nil
  then show ?case by simp
next
  case (Cons h hs)
  let ?H = "kv_heads c" and ?C = "capacity c"
  have h: "h < ?H" using Cons.prems(9) by simp
  have len: "length kb = ?H * n * row c" "length vb = ?H * n * row c" using Cons.prems(3,5,7,8) by simp_all
  have src: "h * n + n \<le> ?H * n" using mult_le_mono1[of "Suc h" ?H n] h by simp
  have dst: "h * ?C + n \<le> ?H * ?C" using mult_le_mono1[of "Suc h" ?H ?C] h Cons.prems(4) by simp
  from copy_in_rows[OF Cons.prems(1) len src dst] obtain c1 where
    c1: "copy_in kb vb (h * n * row c) (h * ?C * row c) (n * row c) c = Ok c1" "same_geom c c1"
    "\<forall>h' < ?H. \<forall>p < ?C. cell c1 h' p =
        (if h * ?C \<le> row_ix c h' p \<and> row_ix c h' p < h * ?C + n
         then (rowat kb (row c) (h * n + (row_ix c h' p - h * ?C)), rowat vb (row c) (h * n + (row_ix c h' p - h * ?C)))
         else cell c h' p)" by blast
  note f = same_geom_fields[OF c1(2)]
  have one: "cell c1 h' p = (if h' = h \<and> p < n then (rowat kb d (h' * n + p), rowat vb d (h' * n + p)) else cell c h' p)"
    if "h' < ?H" "p < ?C" for h' p
  proof -
    have r: "row_ix c h' p = h' * ?C + p" using Cons.prems(2) by (simp add: row_ix_def)
    have "h * ?C \<le> h' * ?C + p \<and> h' * ?C + p < h * ?C + n \<longleftrightarrow> h' = h \<and> p < n"
      using head_block[OF that h, of 0 n] Cons.prems(4) by simp
    with c1(3)[rule_format, OF that] r Cons.prems(3,5) show ?thesis by auto
  qed
  have "bufs_ok c1" using Cons.prems(1) c1(2) f unfolding bufs_ok_def same_geom_def by simp
  from Cons.IH[OF this] Cons.prems f obtain c2 where
    c2: "try_fold (\<lambda>h. copy_in kb vb (h * (n * d)) (h * (C * d)) (n * d)) hs c1 = Ok c2" "same_geom c1 c2"
    "\<forall>h < ?H. \<forall>p < ?C. cell c2 h p =
        (if h \<in> set hs \<and> p < n then (rowat kb d (h * n + p), rowat vb d (h * n + p)) else cell c1 h p)" by auto
  have "cell c2 h' p = (if h' \<in> set (h # hs) \<and> p < n then (rowat kb d (h' * n + p), rowat vb d (h' * n + p)) else cell c h' p)"
    if "h' < ?H" "p < ?C" for h' p
    unfolding c2(3)[rule_format, OF that] one[OF that] by auto
  moreover have "try_fold (\<lambda>h. copy_in kb vb (h * (n * d)) (h * (C * d)) (n * d)) (h # hs) c = Ok c2"
    using c1(1) c2(1) Cons.prems(3,5,6) by (simp add: mult.assoc)
  ultimately show ?case using same_geom_trans[OF c1(2) c2(2)] by blast
qed


section \<open>Recall\<close>

text \<open>The record was taken from a cache of this geometry.\<close>

definition rec_fits :: "swap_record \<Rightarrow> 'u kvcache \<Rightarrow> bool" where
  "rec_fits r c \<longleftrightarrow> rec_n_heads r = kv_heads c \<and> rec_head_dim r = head_dim c \<and> rec_dtype r = kv_dtype c"

text \<open>The caches whose prefixes go to files: head-major F32 or F16.\<close>

definition swappable :: "'u kvcache \<Rightarrow> bool" where
  "swappable c \<longleftrightarrow> kv_wf c \<and> layout c = HeadMajor \<and> kv_dtype c \<in> {D_F32, D_F16}"

lemma swappable_row:
  assumes "swappable c"
  shows "row c = head_dim c" "\<not> is_opaque c"
proof -
  have "opaque c = None" using assms by (auto simp: swappable_def kv_wf_def format_ok_def split: option.splits)
  then show "row c = head_dim c" "\<not> is_opaque c"
    using assms by (auto simp: swappable_def row_def is_opaque_def is_q4_def)
qed

text \<open>There is room for \<open>n\<close> more positions, or the cache can grow to hold them.\<close>

definition room_for :: "nat \<Rightarrow> 'u kvcache \<Rightarrow> bool" where
  "room_for n c \<longleftrightarrow> current_pos c + n \<le> max_seq_len c
     \<and> (current_pos c + n \<le> capacity c \<or> memory c \<noteq> None \<and> (\<forall>N. can_alloc c N))"

lemma make_room:
  assumes wf: "kv_wf c" and room: "room_for n c"
  shows "\<exists>b g. (if current_pos c + n > capacity c then ensure_capacity (current_pos c + n) c else Ok (False, c)) = Ok (b, g)
    \<and> kv_wf g \<and> derived c g \<and> current_pos g = current_pos c \<and> head_starts_raw g = head_starts_raw c
    \<and> current_pos c + n \<le> capacity g \<and> (\<forall>h < kv_heads c. \<forall>p < current_pos c. cell g h p = cell c h p)"
proof (cases "current_pos c + n \<le> capacity c")
  case True
  with wf show ?thesis by auto
next
  case False
  with room have r: "memory c \<noteq> None" "current_pos c + n \<le> max_seq_len c" "\<forall>N. can_alloc c N"
    by (auto simp: room_for_def)
  from grow_ok[OF wf r] obtain g where g: "grow (current_pos c + n) c = Ok g" "kv_wf g" "current_pos c + n \<le> capacity g"
    "same_geom (c\<lparr>k_buffer := k_buffer g, v_buffer := v_buffer g, capacity := capacity g\<rparr>) g"
    "\<forall>h < kv_heads c. \<forall>p < current_pos c. cell g h p = cell c h p" by blast
  have e: "ensure_capacity (current_pos c + n) c = Ok (True, g)" using False r g(1) by (simp add: ensure_capacity_def)
  from ensure_capacity_derived[OF e] same_geom_fields[OF g(4)] g e False show ?thesis by auto
qed

lemma final_upd:
  "row (c\<lparr>current_pos := x, high_water_pos := y\<rparr>) = row c" "cell (c\<lparr>current_pos := x, high_water_pos := y\<rparr>) = cell c"
  "format_ok (c\<lparr>current_pos := x, high_water_pos := y\<rparr>) = format_ok c"
  "bufs_ok (c\<lparr>current_pos := x, high_water_pos := y\<rparr>) = bufs_ok c"
proof -
  have e: "c\<lparr>current_pos := x, high_water_pos := y\<rparr> = c\<lparr>high_water_pos := y\<rparr>\<lparr>current_pos := x\<rparr>" by simp
  have b: "bufs_ok (c\<lparr>high_water_pos := y\<rparr>) = bufs_ok c" "format_ok (c\<lparr>high_water_pos := y\<rparr>) = format_ok c"
    by (auto simp: bufs_ok_def format_ok_def split: option.splits)
  show "row (c\<lparr>current_pos := x, high_water_pos := y\<rparr>) = row c" "cell (c\<lparr>current_pos := x, high_water_pos := y\<rparr>) = cell c"
    "format_ok (c\<lparr>current_pos := x, high_water_pos := y\<rparr>) = format_ok c"
    "bufs_ok (c\<lparr>current_pos := x, high_water_pos := y\<rparr>) = bufs_ok c"
    unfolding e by (simp_all only: pos_upd hw_upd b)
qed

text \<open>
  A record that fits is restored: its rows take the first positions of every head and the resident rows
  follow. The head starts stay as they are, whatever was in the holes.
\<close>

lemma recall_one_ok:
  assumes sw: "swappable c" and fit: "rec_fits r c" and fs: "rec_files_ok fs r" and room: "room_for (token_count r) c"
  shows "\<exists>c'. recall_one fs r c = (c', Ok (token_count r)) \<and> swappable c' \<and> derived c c'
    \<and> current_pos c' = current_pos c + token_count r \<and> head_starts_raw c' = head_starts_raw c
    \<and> (\<forall>h < kv_heads c. map (cell c' h) [0..<token_count r] = rec_rows fs h r
        \<and> (\<forall>p < current_pos c. cell c' h (token_count r + p) = cell c h p))"
proof -
  let ?n = "token_count r" and ?cur = "current_pos c"
  have wf: "kv_wf c" using sw by (simp add: swappable_def)
  from fs obtain kb vb where b: "fs (k_path r) = Some kb" "fs (v_path r) = Some vb"
    "length kb = ?n * rec_head_dim r * rec_n_heads r" "length vb = ?n * rec_head_dim r * rec_n_heads r"
    by (auto simp: rec_files_ok_def)
  from make_room[OF wf room] obtain x g where
    g: "(if ?cur + ?n > capacity c then ensure_capacity (?cur + ?n) c else Ok (False, c)) = Ok (x, g)"
    "kv_wf g" "derived c g" "current_pos g = ?cur" "head_starts_raw g = head_starts_raw c" "?cur + ?n \<le> capacity g"
    "\<forall>h < kv_heads c. \<forall>p < ?cur. cell g h p = cell c h p" by blast
  have gw: "format_ok g" "bufs_ok g" using g(2) by (auto simp: kv_wf_def)
  have cfg: "layout g = HeadMajor" "kv_heads g = kv_heads c" "head_dim g = head_dim c" "kv_dtype g = kv_dtype c"
    "row g = head_dim g" using g(3) sw derived_row[OF g(3)] swappable_row(1)[OF sw]
    by (auto simp: derived_def swappable_def)
  from shift_positions_moves[OF gw, of 0 ?cur ?n] g(6) obtain s where
    s: "shift_positions 0 ?n ?cur g = Ok s" "cells_moved {..<kv_heads g} 0 ?n ?cur g s" by auto
  have s': "(if ?cur > 0 then shift_positions 0 ?n ?cur g else Ok g) = Ok s"
    using s(1) by (cases "?cur = 0") (simp_all add: shift_positions_def)
  note sg = cells_moved_geom[OF s(2)]
  note sf = same_geom_fields[OF sg]
  have sb: "bufs_ok s" using gw(2) sg sf unfolding bufs_ok_def same_geom_def by simp
  have pre: "layout s = HeadMajor" "row s = head_dim s" "?n \<le> capacity s" "length kb = kv_heads s * ?n * head_dim s"
    "length vb = kv_heads s * ?n * head_dim s" "\<forall>h \<in> set [0..<kv_heads s]. h < kv_heads s"
    using b(3,4) fit cfg sf g(6) by (auto simp: rec_fits_def)
  from write_heads_fold[OF sb pre(1-3) refl refl pre(4-6)] obtain w where
    w: "write_heads (?n * head_dim s) kb vb s = Ok w" "same_geom s w"
    "\<forall>h < kv_heads s. \<forall>p < capacity s. cell w h p = (if h \<in> set [0..<kv_heads s] \<and> p < ?n
        then (rowat kb (head_dim s) (h * ?n + p), rowat vb (head_dim s) (h * ?n + p)) else cell s h p)"
    unfolding write_heads_def by auto
  note wf' = same_geom_fields[OF w(2)]
  define c' where "c' = w\<lparr>current_pos := ?cur + ?n, high_water_pos := max (high_water_pos w) (?cur + ?n)\<rparr>"
  have cc: "cell c' = cell w" unfolding c'_def by (rule final_upd)
  have "recall_one fs r c = (c', Ok ?n)"
    using sw fit cfg g(1) s' b w(1) sf
    by (simp add: recall_one_def swappable_def rec_fits_def recall_write_def Let_def c'_def algebra_simps)
  moreover have "derived c c'"
    using derived_trans[OF g(3) derived_trans[OF derived_geom[OF sg] derived_geom[OF w(2)]]]
    by (simp add: derived_def c'_def)
  moreover have "swappable c'"
  proof -
    have "kv_wf w" using g(2) same_geom_wf[OF sg] same_geom_wf[OF w(2)] by simp
    then have "kv_wf c'" unfolding kv_wf_def c'_def final_upd
      using g(6) sf wf' by (auto simp: list_all_iff g(4))
    then show ?thesis using cfg sf wf' sw by (simp add: swappable_def c'_def)
  qed
  moreover have "map (cell c' h) [0..<?n] = rec_rows fs h r \<and> (\<forall>p < ?cur. cell c' h (?n + p) = cell c h p)"
    if h: "h < kv_heads c" for h
  proof -
    have "map (cell c' h) [0..<?n] = rec_rows fs h r"
      using w(3) h sf(7-9) cfg g(6) b(1,2) fit by (simp add: cc rec_rows_def rec_fits_def)
    moreover have "cell c' h (?n + p) = cell c h p" if "p < ?cur" for p
    proof -
      have "cell c' h (?n + p) = cell s h (?n + p)" using w(3) h sf(7-9) cfg g(6) that by (simp add: cc)
      also have "\<dots> = cell g h p" using s(2) h cfg(2) g(6) that by (simp add: cells_moved_def)
      finally show ?thesis using g(7) h that by simp
    qed
    ultimately show ?thesis by blast
  qed
  ultimately show ?thesis using g(5) sf wf' by (auto simp: c'_def)
qed

lemma recall_uniform_contents:
  assumes "head_starts_raw c = []" "head_starts_raw c' = []" "current_pos c' = current_pos c + n" "h < H"
    "\<forall>h < H. map (cell c' h) [0..<n] = R h \<and> (\<forall>p < current_pos c. cell c' h (n + p) = cell c h p)"
  shows "contents c' h = R h @ contents c h"
proof -
  have "[0..<n + current_pos c] = [0..<n] @ map (\<lambda>p. n + p) [0..<current_pos c]"
    using upt_add_eq_append[of 0 n "current_pos c"] by (simp add: map_add_upt add.commute)
  with assms show ?thesis by (auto simp: contents_def head_start_def add.commute)
qed


section \<open>Offload\<close>

text \<open>The handler keeps files and the file system takes them.\<close>

definition disk_ready :: "fs_env \<Rightarrow> 'u swap \<Rightarrow> bool" where
  "disk_ready env sw \<longleftrightarrow> swap_dir sw \<and> create_dir_ok env \<and> (\<forall>p. write_ok env p)"

lemma offload_prefix_ok:
  assumes sw: "swap_wf sw" "disk_ready env sw" and c: "swappable c" and os: "0 < page_size os"
    and n: "0 < n" "n < current_pos c"
  shows "\<exists>sw' c' r. offload_prefix os env L n sw c = Ok (n, sw', c') \<and> swap_wf sw' \<and> disk_ready env sw'
    \<and> records sw' = records sw @ [r] \<and> layer_idx r = L \<and> token_count r = n \<and> rec_fits r c
    \<and> swappable c' \<and> derived c c' \<and> current_pos c' = current_pos c - n \<and> prune_prefix os n c = Ok c'
    \<and> (\<forall>h < kv_heads c. contents c' h = drop (n - head_start c h) (contents c h)
        \<and> pending sw' L h = pending sw L h @ [map (cell c h) [0..<n]]
        \<and> (\<forall>M. M \<noteq> L \<longrightarrow> pending sw' M h = pending sw M h))"
proof -
  have wf: "kv_wf c" "n \<le> capacity c" "layout c = HeadMajor" "kv_dtype c \<in> {D_F32, D_F16}"
    using c n by (auto simp: swappable_def kv_wf_def)
  have "bufs_ok c" using wf(1) by (simp add: kv_wf_def)
  then have len: "length (k_buffer c) = kv_heads c * capacity c * head_dim c"
    "length (v_buffer c) = kv_heads c * capacity c * head_dim c"
    using swappable_row(1)[OF c] by (simp_all add: bufs_ok_def)
  from dump_prefix_ok[OF len(1) wf(2)] obtain kb where kb: "dump_prefix n c (k_buffer c) = Ok kb"
    "length kb = n * head_dim c * kv_heads c" "\<forall>h < kv_heads c. \<forall>j < n.
       rowat kb (head_dim c) (h * n + j) = rowat (k_buffer c) (head_dim c) (h * capacity c + j)" by blast
  from dump_prefix_ok[OF len(2) wf(2)] obtain vb where vb: "dump_prefix n c (v_buffer c) = Ok vb"
    "length vb = n * head_dim c * kv_heads c" "\<forall>h < kv_heads c. \<forall>j < n.
       rowat vb (head_dim c) (h * n + j) = rowat (v_buffer c) (head_dim c) (h * capacity c + j)" by blast
  define r where "r = \<lparr>layer_idx = L, token_count = n, k_path = (L, next_seq sw, n, KSide),
      v_path = (L, next_seq sw, n, VSide), rec_dtype = kv_dtype c, rec_head_stride = n * head_dim c,
      rec_n_heads = kv_heads c, rec_head_dim = head_dim c\<rparr>"
  define sw' where "sw' = sw\<lparr>next_seq := next_seq sw + 1,
      files := (files sw)(k_path r := Some kb, v_path r := Some vb), records := records sw @ [r]\<rparr>"
  from prune_prefix_ok[OF wf(1) os less_imp_le[OF n(2)]] obtain c' where
    p: "prune_prefix os n c = Ok c'" "kv_wf c'" "current_pos c' = current_pos c - n"
    "\<forall>h < kv_heads c. contents c' h = drop (n - head_start c h) (contents c h)" by blast
  note d = prune_prefix_derived[OF p(1)]
  have "offload_prefix os env L n sw c = Ok (n, sw', c')"
    using n wf(3,4) sw(2) kb(1) vb(1) p(1)
    by (auto simp: offload_prefix_def disk_ready_def Let_def prune_def sw'_def r_def)
  moreover have r: "seq_of r = next_seq sw" "rec_paths_ok r" by (simp_all add: r_def seq_of_def rec_paths_ok_def)
  have rl: "length kb = token_count r * rec_head_dim r * rec_n_heads r"
    "length vb = token_count r * rec_head_dim r * rec_n_heads r" using kb(2) vb(2) by (simp_all add: r_def)
  note reg = register_ok[OF sw(1) r sw'_def rl]
  have rows: "rec_rows (files sw') h r = map (cell c h) [0..<n]" if "h < kv_heads c" for h
  proof -
    have ix: "row_ix c h j = h * capacity c + j" for j using wf(3) by (simp add: row_ix_def)
    have "rec_rows (files sw') h r
        = map (\<lambda>j. (rowat kb (head_dim c) (h * n + j), rowat vb (head_dim c) (h * n + j))) [0..<n]"
      by (simp add: rec_rows_def sw'_def r_def)
    also have "\<dots> = map (cell c h) [0..<n]"
      using kb(3) vb(3) that by (simp add: cell_def swappable_row(1)[OF c] ix)
    finally show ?thesis .
  qed
  have "swappable c'" using d p(2) wf by (simp add: swappable_def derived_def)
  moreover have "rec_fits r c" "disk_ready env sw'" using sw(2) by (simp_all add: rec_fits_def r_def disk_ready_def sw'_def)
  moreover have "records sw' = records sw @ [r]" "layer_idx r = L" "token_count r = n" by (simp_all add: sw'_def r_def)
  moreover have "pending sw' L h = pending sw L h @ [map (cell c h) [0..<n]]" "M \<noteq> L \<Longrightarrow> pending sw' M h = pending sw M h"
    if "h < kv_heads c" for h M
    using reg(2) rows[OF that] by (simp_all add: r_def)
  ultimately show ?thesis using reg(1) d p by blast
qed

text \<open>The first record of a layer leaves the ledger; the rest of its queue stays.\<close>

lemma recall_layer_ok:
  assumes sw: "swap_wf sw" and c: "swappable c"
    and r: "filter (\<lambda>r. layer_idx r = L) (records sw) = r # rs" "rec_fits r c" "room_for (token_count r) c"
  shows "\<exists>sw' c'. recall_layer L sw c = (sw', c', Ok (token_count r)) \<and> swap_wf sw' \<and> swappable c' \<and> derived c c'
    \<and> filter (\<lambda>r. layer_idx r = L) (records sw') = rs
    \<and> current_pos c' = current_pos c + token_count r \<and> head_starts_raw c' = head_starts_raw c
    \<and> (\<forall>h < kv_heads c. pending sw L h = map (cell c' h) [0..<token_count r] # pending sw' L h
        \<and> (\<forall>p < current_pos c. cell c' h (token_count r + p) = cell c h p))"
proof -
  have "r \<in> set (filter (\<lambda>r. layer_idx r = L) (records sw))" unfolding r(1) by simp
  then have "List.extract (\<lambda>r. layer_idx r = L) (records sw) \<noteq> None" by (auto simp: extract_None_iff)
  then obtain before q after where ex: "List.extract (\<lambda>r. layer_idx r = L) (records sw) = Some (before, q, after)"
    by auto
  then have e: "records sw = before @ q # after" "layer_idx q = L" "\<forall>x \<in> set before. layer_idx x \<noteq> L"
    by (auto simp: extract_Some_iff)
  have fb: "filter (\<lambda>r. layer_idx r = L) before = []" using e(3) by (simp add: filter_empty_conv)
  with r(1) e have q: "q = r" "filter (\<lambda>r. layer_idx r = L) after = rs" by simp_all
  define sw' where "sw' = drop_files q (sw\<lparr>records := before @ after\<rparr>)"
  note pop = pop_ok[OF sw ex sw'_def]
  have "rec_files_ok (files sw) r" using sw pop(3) q(1) by (simp add: swap_wf_def)
  from recall_one_ok[OF c r(2) this r(3)] obtain c' where
    c': "recall_one (files sw) r c = (c', Ok (token_count r))" "swappable c'" "derived c c'"
    "current_pos c' = current_pos c + token_count r" "head_starts_raw c' = head_starts_raw c"
    "\<forall>h < kv_heads c. map (cell c' h) [0..<token_count r] = rec_rows (files sw) h r
        \<and> (\<forall>p < current_pos c. cell c' h (token_count r + p) = cell c h p)" by blast
  have "recall_layer L sw c = (sw', c', Ok (token_count r))" using ex c'(1) q by (simp add: recall_layer_def sw'_def)
  moreover have "filter (\<lambda>r. layer_idx r = L) (records sw') = rs" using fb q by (simp add: sw'_def drop_files_def)
  moreover have "pending sw L h = map (cell c' h) [0..<token_count r] # pending sw' L h" if "h < kv_heads c" for h
    using pop(4)[of h] c'(6) that q(1) by simp
  ultimately show ?thesis using pop(1) c'(2-6) by blast
qed

text \<open>What has been offloaded can come back: the positions are those the cache had.\<close>

lemma room_after_prune:
  assumes "kv_wf c" "derived c c'" "current_pos c' + n \<le> current_pos c" "memory c = None \<or> (\<forall>N. can_alloc c N)"
  shows "room_for n c'"
proof -
  have d: "max_seq_len c' = max_seq_len c" "memory c' = memory c" "memory c = None \<Longrightarrow> capacity c' = capacity c"
    using assms(2) by (simp_all add: derived_def)
  have w: "current_pos c \<le> capacity c" "capacity c \<le> max_seq_len c" using assms(1) by (auto simp: kv_wf_def)
  show ?thesis
  proof (cases "memory c = None")
    case True
    with d w assms(3) show ?thesis by (simp add: room_for_def)
  next
    case False
    with assms(4) derived_can_alloc[OF assms(2)] have "\<forall>N. can_alloc c' N" by simp
    with False d w assms(3) show ?thesis by (simp add: room_for_def)
  qed
qed


section \<open>Round trip and order\<close>

lemma uniform_contents: "head_starts_raw c = [] \<Longrightarrow> contents c h = map (cell c h) [0..<current_pos c]"
  by (simp add: contents_def head_start_def)

lemma uniform_prefix: "head_starts_raw c = [] \<Longrightarrow> n \<le> current_pos c \<Longrightarrow> map (cell c h) [0..<n] = take n (contents c h)"
  by (simp add: uniform_contents take_map)

text \<open>Offload and recall of a uniform cache, as operations on the queue and the contents.\<close>

lemma offload_uniform:
  assumes "swap_wf sw" "disk_ready env sw" "swappable c" "head_starts_raw c = []" "0 < page_size os" "0 < n" "n < current_pos c"
  shows "\<exists>sw' c' r. offload_prefix os env L n sw c = Ok (n, sw', c') \<and> swap_wf sw' \<and> disk_ready env sw'
    \<and> records sw' = records sw @ [r] \<and> layer_idx r = L \<and> token_count r = n \<and> rec_fits r c
    \<and> swappable c' \<and> derived c c' \<and> head_starts_raw c' = [] \<and> current_pos c' = current_pos c - n
    \<and> (\<forall>h < kv_heads c. contents c' h = drop n (contents c h)
        \<and> pending sw' L h = pending sw L h @ [take n (contents c h)])"
proof -
  from offload_prefix_ok[OF assms(1-3,5-7), of L] obtain sw' c' r where
    o: "offload_prefix os env L n sw c = Ok (n, sw', c')" "swap_wf sw'" "disk_ready env sw'"
    "records sw' = records sw @ [r]" "layer_idx r = L" "token_count r = n" "rec_fits r c" "swappable c'" "derived c c'"
    "current_pos c' = current_pos c - n"
    "\<forall>h < kv_heads c. contents c' h = drop (n - head_start c h) (contents c h)
        \<and> pending sw' L h = pending sw L h @ [map (cell c h) [0..<n]]" by blast
  have "head_starts_raw c' = []" using o(9) assms(4) by (simp add: derived_def)
  moreover have "head_start c h = 0" for h using assms(4) by (simp add: head_start_def)
  ultimately show ?thesis using o uniform_prefix[OF assms(4) less_imp_le[OF assms(7)]] by auto
qed

lemma recall_uniform:
  assumes "swap_wf sw" "swappable c" "head_starts_raw c = []" "filter (\<lambda>r. layer_idx r = L) (records sw) = r # rs"
    "rec_fits r c" "room_for (token_count r) c"
  shows "\<exists>sw' c'. recall_layer L sw c = (sw', c', Ok (token_count r)) \<and> swap_wf sw' \<and> swappable c' \<and> derived c c'
    \<and> filter (\<lambda>r. layer_idx r = L) (records sw') = rs \<and> head_starts_raw c' = []
    \<and> current_pos c' = current_pos c + token_count r
    \<and> (\<forall>h < kv_heads c. pending sw L h = hd (pending sw L h) # pending sw' L h
        \<and> contents c' h = hd (pending sw L h) @ contents c h)"
proof -
  from recall_layer_ok[OF assms(1,2,4-6)] obtain sw' c' where
    o: "recall_layer L sw c = (sw', c', Ok (token_count r))" "swap_wf sw'" "swappable c'" "derived c c'"
    "filter (\<lambda>r. layer_idx r = L) (records sw') = rs" "current_pos c' = current_pos c + token_count r"
    "head_starts_raw c' = head_starts_raw c"
    "\<forall>h < kv_heads c. pending sw L h = map (cell c' h) [0..<token_count r] # pending sw' L h
        \<and> (\<forall>p < current_pos c. cell c' h (token_count r + p) = cell c h p)" by blast
  have u: "head_starts_raw c' = []" using o(7) assms(3) by simp
  have hp: "\<forall>h < kv_heads c. map (cell c' h) [0..<token_count r] = hd (pending sw L h)
      \<and> (\<forall>p < current_pos c. cell c' h (token_count r + p) = cell c h p)" using o(8) by (metis list.sel(1))
  have "contents c' h = hd (pending sw L h) @ contents c h" if "h < kv_heads c" for h
    using recall_uniform_contents[OF assms(3) u o(6) that hp] .
  with o(1-6) u o(8) hp show ?thesis by auto
qed


text \<open>A concrete handler and file system.\<close>

definition demo_env :: fs_env where
  "demo_env = \<lparr>create_dir_ok = True, write_ok = (\<lambda>_. True)\<rparr>"

definition demo_swap :: "nat swap" where
  "demo_swap = SwapHandler_new (\<lambda>t. t div 2) True"

lemma demo_ready:
  "swap_wf demo_swap" "disk_ready demo_env demo_swap" "swappable demo_cache" "records demo_swap = []"
  "head_starts_raw demo_cache = []" "page_size demo_os = 4096"
  using new_swap_wf demo_cache_wf
  by (simp_all add: demo_swap_def disk_ready_def demo_env_def SwapHandler_new_def swappable_def demo_cache_def demo_os_def)

text \<open>
  C6: Offloading a prefix of a layer and recalling it gives back the contents. For a uniform (not ragged) head-major cache of
  F32 or F16 rows, of a layer that has no outstanding record, with a file system that performs every write, and an allocator
  that does not refuse to grow the buffers again: after the offload every head lacks exactly its oldest \<open>n\<close> rows, after the recall it has all of its rows
  again, in order, the layer has no outstanding record, and the ledger is intact.
\<close>

theorem offload_recall_roundtrip:
  assumes "swap_wf sw" "disk_ready env sw" "\<forall>r \<in> set (records sw). layer_idx r \<noteq> L"
    and "swappable c" "head_starts_raw c = []" "memory c = None \<or> (\<forall>N. can_alloc c N)"
    and "0 < page_size os" "0 < n" "n < current_pos c"
  shows "\<exists>sw1 c1 sw2 c2. offload_prefix os env L n sw c = Ok (n, sw1, c1)
    \<and> recall_layer L sw1 c1 = (sw2, c2, Ok n) \<and> swap_wf sw2 \<and> kv_wf c2 \<and> current_pos c2 = current_pos c
    \<and> (\<forall>h < kv_heads c. contents c1 h = drop n (contents c h) \<and> contents c2 h = contents c h
        \<and> pending sw2 L h = [])"
proof -
  from offload_uniform[OF assms(1,2,4,5,7-9), of L] obtain sw1 c1 r where
    o: "offload_prefix os env L n sw c = Ok (n, sw1, c1)" "swap_wf sw1" "records sw1 = records sw @ [r]"
    "layer_idx r = L" "token_count r = n" "rec_fits r c" "swappable c1" "derived c c1" "head_starts_raw c1 = []"
    "current_pos c1 = current_pos c - n"
    "\<forall>h < kv_heads c. contents c1 h = drop n (contents c h)
        \<and> pending sw1 L h = pending sw L h @ [take n (contents c h)]" by blast
  have none: "filter (\<lambda>r. layer_idx r = L) (records sw) = []" using assms(3) by (simp add: filter_empty_conv)
  then have rs: "filter (\<lambda>r. layer_idx r = L) (records sw1) = r # []" using o(3,4) by simp
  have hs: "kv_heads c1 = kv_heads c" "rec_fits r c1" using o(6,8) by (simp_all add: derived_def rec_fits_def)
  have "room_for (token_count r) c1" unfolding o(5)
    using room_after_prune[OF _ o(8) _ assms(6), of n] assms(4,9) o(10) by (simp add: swappable_def)
  from recall_uniform[OF o(2,7,9) rs hs(2) this] obtain sw2 c2 where
    q: "recall_layer L sw1 c1 = (sw2, c2, Ok n)" "swap_wf sw2" "swappable c2" "current_pos c2 = current_pos c1 + n"
    "\<forall>h < kv_heads c. pending sw1 L h = hd (pending sw1 L h) # pending sw2 L h
        \<and> contents c2 h = hd (pending sw1 L h) @ contents c1 h" unfolding o(5) hs(1) by blast
  have "pending sw L h = []" for h using none by (simp add: pending_def)
  then have "contents c2 h = contents c h \<and> pending sw2 L h = []" if "h < kv_heads c" for h
    using o(11) q(5) that by auto
  with o(1,10,11) q assms(9) show ?thesis by (auto simp: swappable_def)
qed

theorem offload_recall_roundtrip_witness:
  "\<exists>sw1 c1 sw2 c2. offload_prefix demo_os demo_env 3 1 demo_swap demo_cache = Ok (1, sw1, c1)
    \<and> recall_layer 3 sw1 c1 = (sw2, c2, Ok 1) \<and> contents c1 0 = drop 1 (contents demo_cache 0)
    \<and> contents c2 0 = contents demo_cache 0"
proof -
  have "\<forall>r \<in> set (records demo_swap). layer_idx r \<noteq> 3" "0 < page_size demo_os" "1 < current_pos demo_cache"
    "memory demo_cache = None \<or> (\<forall>N. can_alloc demo_cache N)" using demo_ready demo_can_alloc by simp_all
  from offload_recall_roundtrip[OF demo_ready(1,2) this(1) demo_ready(3,5) this(4,2) _ this(3)]
  show ?thesis by fastforce
qed

text \<open>Two offloads in a row leave two records; both can be recalled from what is then resident.\<close>

lemma two_offloads:
  assumes "swap_wf sw" "disk_ready env sw" "\<forall>r \<in> set (records sw). layer_idx r \<noteq> L"
    and "swappable c" "head_starts_raw c = []" and "0 < page_size os" "0 < n" "0 < m" "n + m < current_pos c"
  shows "\<exists>sw1 c1 sw2 c2 r t. offload_prefix os env L n sw c = Ok (n, sw1, c1)
    \<and> offload_prefix os env L m sw1 c1 = Ok (m, sw2, c2) \<and> swap_wf sw2 \<and> swappable c2 \<and> derived c c2
    \<and> head_starts_raw c2 = [] \<and> current_pos c2 = current_pos c - (n + m)
    \<and> filter (\<lambda>r. layer_idx r = L) (records sw2) = [r, t] \<and> token_count r = n \<and> token_count t = m
    \<and> rec_fits r c \<and> rec_fits t c
    \<and> (\<forall>h < kv_heads c. contents c2 h = drop (n + m) (contents c h)
        \<and> pending sw2 L h = [take n (contents c h), take m (drop n (contents c h))])"
proof -
  have nn: "n < current_pos c" using assms(9) by simp
  from offload_uniform[OF assms(1,2,4-7) nn, of L] obtain sw1 c1 r where
    o: "offload_prefix os env L n sw c = Ok (n, sw1, c1)" "swap_wf sw1" "disk_ready env sw1" "records sw1 = records sw @ [r]"
    "layer_idx r = L" "token_count r = n" "rec_fits r c" "swappable c1" "derived c c1" "head_starts_raw c1 = []"
    "current_pos c1 = current_pos c - n"
    "\<forall>h < kv_heads c. contents c1 h = drop n (contents c h)
        \<and> pending sw1 L h = pending sw L h @ [take n (contents c h)]" by blast
  have "m < current_pos c1" using o(11) assms(9) by simp
  from offload_uniform[OF o(2,3,8,10) assms(6,8) this, of L] obtain sw2 c2 t where
    p: "offload_prefix os env L m sw1 c1 = Ok (m, sw2, c2)" "swap_wf sw2" "records sw2 = records sw1 @ [t]"
    "layer_idx t = L" "token_count t = m" "rec_fits t c1" "swappable c2" "derived c1 c2" "head_starts_raw c2 = []"
    "current_pos c2 = current_pos c1 - m"
    "\<forall>h < kv_heads c1. contents c2 h = drop m (contents c1 h)
        \<and> pending sw2 L h = pending sw1 L h @ [take m (contents c1 h)]" by blast
  have none: "filter (\<lambda>r. layer_idx r = L) (records sw) = []" using assms(3) by (simp add: filter_empty_conv)
  then have rs: "filter (\<lambda>r. layer_idx r = L) (records sw2) = [r, t]" using o(4,5) p(3,4) by simp
  have c12: "derived c c2" using o(9) p(8) by (rule derived_trans)
  have hs: "kv_heads c1 = kv_heads c" "rec_fits t c" using p(6) o(9) by (simp_all add: derived_def rec_fits_def)
  have e: "pending sw L h = []" for h using none by (simp add: pending_def)
  have "contents c2 h = drop (n + m) (contents c h)
        \<and> pending sw2 L h = [take n (contents c h), take m (drop n (contents c h))]" if "h < kv_heads c" for h
    using o(12) p(11) e hs(1) that by (simp add: add.commute)
  with o p rs c12 hs(2) show ?thesis
    by (intro exI[of _ sw1] exI[of _ c1] exI[of _ sw2] exI[of _ c2] exI[of _ r] exI[of _ t]) auto
qed

text \<open>
  \<open>recall_layer\<close> takes the oldest outstanding record, not the most recent one. After two offloads of one
  layer, two recalls bring the two prefixes back in the wrong order: the second recall puts the younger
  prefix in front of the older one, so every head's rows are permuted.
\<close>

theorem recall_order_is_fifo:
  assumes "swap_wf sw" "disk_ready env sw" "\<forall>r \<in> set (records sw). layer_idx r \<noteq> L"
    and "swappable c" "head_starts_raw c = []" "memory c = None \<or> (\<forall>N. can_alloc c N)"
    and "0 < page_size os" "0 < n" "0 < m" "n + m < current_pos c"
  shows "\<exists>sw1 c1 sw2 c2 sw3 c3 sw4 c4. offload_prefix os env L n sw c = Ok (n, sw1, c1)
    \<and> offload_prefix os env L m sw1 c1 = Ok (m, sw2, c2)
    \<and> recall_layer L sw2 c2 = (sw3, c3, Ok n) \<and> recall_layer L sw3 c3 = (sw4, c4, Ok m)
    \<and> (\<forall>h < kv_heads c. contents c4 h =
         take m (drop n (contents c h)) @ take n (contents c h) @ drop (n + m) (contents c h))"
proof -
  from two_offloads[OF assms(1-5,7-10)] obtain sw1 c1 sw2 c2 r t where
    p: "offload_prefix os env L n sw c = Ok (n, sw1, c1)" "offload_prefix os env L m sw1 c1 = Ok (m, sw2, c2)"
    "swap_wf sw2" "swappable c2" "derived c c2" "head_starts_raw c2 = []" "current_pos c2 = current_pos c - (n + m)"
    "filter (\<lambda>r. layer_idx r = L) (records sw2) = [r, t]" "token_count r = n" "token_count t = m"
    "rec_fits r c" "rec_fits t c"
    "\<forall>h < kv_heads c. contents c2 h = drop (n + m) (contents c h)
        \<and> pending sw2 L h = [take n (contents c h), take m (drop n (contents c h))]" by blast
  have wfc: "kv_wf c" using assms(4) by (simp add: swappable_def)
  have h2: "kv_heads c2 = kv_heads c" "rec_fits r c2" using p(5,11) by (simp_all add: derived_def rec_fits_def)
  have "room_for (token_count r) c2" unfolding p(9)
    using room_after_prune[OF wfc p(5) _ assms(6), of n] p(7) assms(10) by simp
  from recall_uniform[OF p(3,4,6,8) h2(2) this] obtain sw3 c3 where
    q: "recall_layer L sw2 c2 = (sw3, c3, Ok n)" "swap_wf sw3" "swappable c3" "derived c2 c3"
    "filter (\<lambda>r. layer_idx r = L) (records sw3) = [t]" "head_starts_raw c3 = []" "current_pos c3 = current_pos c2 + n"
    "\<forall>h < kv_heads c. pending sw2 L h = hd (pending sw2 L h) # pending sw3 L h
        \<and> contents c3 h = hd (pending sw2 L h) @ contents c2 h" unfolding p(9) h2(1) by blast
  have c13: "derived c c3" using p(5) q(4) by (rule derived_trans)
  have h3: "kv_heads c3 = kv_heads c" "rec_fits t c3" using p(12) c13 by (simp_all add: derived_def rec_fits_def)
  have "room_for (token_count t) c3" unfolding p(10)
    using room_after_prune[OF wfc c13 _ assms(6), of m] p(7) q(7) assms(10) by simp
  from recall_uniform[OF q(2,3,6,5) h3(2) this] obtain sw4 c4 where
    z: "recall_layer L sw3 c3 = (sw4, c4, Ok m)" "\<forall>h < kv_heads c. contents c4 h = hd (pending sw3 L h) @ contents c3 h"
    unfolding p(10) h3(1) by blast
  have "contents c4 h = take m (drop n (contents c h)) @ take n (contents c h) @ drop (n + m) (contents c h)"
    if "h < kv_heads c" for h
  proof -
    have "pending sw3 L h = [take m (drop n (contents c h))]"
      using p(13)[rule_format, OF that] q(8)[rule_format, OF that] by simp
    then show ?thesis using p(13)[rule_format, OF that] q(8)[rule_format, OF that] z(2)[rule_format, OF that] by simp
  qed
  with p(1,2) q(1) z(1) show ?thesis by blast
qed

definition demo_full :: "nat kvcache" where
  "demo_full = demo_cache\<lparr>current_pos := 3\<rparr>"

lemma demo_full_ready: "swappable demo_full" "head_starts_raw demo_full = []" "\<forall>N. can_alloc demo_full N"
  by (simp_all add: demo_full_def swappable_def kv_wf_def demo_cache_def format_ok_def bufs_ok_def row_def is_q4_def
      zero_alloc_law can_alloc_def zero_alloc_def)

theorem recall_order_is_fifo_witness:
  "\<exists>sw1 c1 sw2 c2 sw3 c3 sw4 c4. offload_prefix demo_os demo_env 0 1 demo_swap demo_full = Ok (1, sw1, c1)
    \<and> offload_prefix demo_os demo_env 0 1 sw1 c1 = Ok (1, sw2, c2)
    \<and> recall_layer 0 sw2 c2 = (sw3, c3, Ok 1) \<and> recall_layer 0 sw3 c3 = (sw4, c4, Ok 1)
    \<and> contents demo_full 0 = [([10], [30]), ([11], [31]), ([12], [32])]
    \<and> contents c4 0 = [([11], [31]), ([10], [30]), ([12], [32])]"
proof -
  have a: "\<forall>r \<in> set (records demo_swap). layer_idx r \<noteq> 0" "0 < page_size demo_os" "1 + 1 < current_pos demo_full"
    "memory demo_full = None \<or> (\<forall>N. can_alloc demo_full N)"
    using demo_ready demo_full_ready by (simp_all add: demo_full_def)
  have h: "0 < kv_heads demo_full" by (simp add: demo_full_def)
  from recall_order_is_fifo[OF demo_ready(1,2) a(1) demo_full_ready(1,2) a(4,2) zero_less_one zero_less_one a(3)] h
  obtain sw1 c1 sw2 c2 sw3 c3 sw4 c4 where
    "offload_prefix demo_os demo_env 0 1 demo_swap demo_full = Ok (1, sw1, c1)"
    "offload_prefix demo_os demo_env 0 1 sw1 c1 = Ok (1, sw2, c2)"
    "recall_layer 0 sw2 c2 = (sw3, c3, Ok 1)" "recall_layer 0 sw3 c3 = (sw4, c4, Ok 1)"
    "contents c4 0 = take 1 (drop 1 (contents demo_full 0)) @ take 1 (contents demo_full 0) @ drop (1 + 1) (contents demo_full 0)"
    by blast
  moreover have "contents demo_full 0 = [([10], [30]), ([11], [31]), ([12], [32])]"
    by (simp add: demo_full_def pos_upd contents_def cell_def rowat_def row_ix_def upt_rec)
  ultimately show ?thesis by (metis One_nat_def add_Suc add_0 append_Cons append_Nil drop_0 drop_Suc_Cons take_0 take_Suc_Cons)
qed

section \<open>Ragged caches and failures\<close>

text \<open>
  A ragged cache does not survive the round trip: a recall does not give the head starts back (or clear
  them), so a head with a hole comes back longer than it was, with up to \<open>n\<close> positions of the hole counted
  as resident.
\<close>

theorem ragged_recall_exposes_hole:
  assumes "swap_wf sw" "disk_ready env sw" "\<forall>r \<in> set (records sw). layer_idx r \<noteq> L"
    and "swappable c" "memory c = None \<or> (\<forall>N. can_alloc c N)" "0 < page_size os" "0 < n" "n < current_pos c"
  shows "\<exists>sw1 c1 sw2 c2. offload_prefix os env L n sw c = Ok (n, sw1, c1) \<and> recall_layer L sw1 c1 = (sw2, c2, Ok n)
    \<and> current_pos c2 = current_pos c
    \<and> (\<forall>h < kv_heads c. head_len c2 h = head_len c h + min n (head_start c h))"
proof -
  from offload_prefix_ok[OF assms(1,2,4,6-8), of L] obtain sw1 c1 r where
    o: "offload_prefix os env L n sw c = Ok (n, sw1, c1)" "swap_wf sw1" "records sw1 = records sw @ [r]"
    "layer_idx r = L" "token_count r = n" "rec_fits r c" "swappable c1" "derived c c1" "current_pos c1 = current_pos c - n"
    "\<forall>h < kv_heads c. contents c1 h = drop (n - head_start c h) (contents c h)" by blast
  have rs: "filter (\<lambda>r. layer_idx r = L) (records sw1) = r # []"
    using o(3,4) assms(3) by (simp add: filter_empty_conv)
  have wf: "kv_wf c" "kv_wf c1" using assms(4) o(7) by (simp_all add: swappable_def)
  have hs: "kv_heads c1 = kv_heads c" "rec_fits r c1" using o(6,8) by (simp_all add: derived_def rec_fits_def)
  have "room_for (token_count r) c1" unfolding o(5)
    using room_after_prune[OF wf(1) o(8) _ assms(5), of n] assms(8) o(9) by simp
  from recall_layer_ok[OF o(2,7) rs hs(2) this] obtain sw2 c2 where
    q: "recall_layer L sw1 c1 = (sw2, c2, Ok n)" "current_pos c2 = current_pos c1 + n"
    "head_starts_raw c2 = head_starts_raw c1" unfolding o(5) by blast
  have "head_len c2 h = head_len c h + min n (head_start c h)" if "h < kv_heads c" for h
  proof -
    have "length (contents c1 h) = length (drop (n - head_start c h) (contents c h))" using o(10) that by simp
    then have "current_pos c - n - head_start c1 h = current_pos c - head_start c h - (n - head_start c h)"
      by (simp add: contents_def o(9))
    moreover have "head_start c1 h \<le> current_pos c - n" "head_start c h \<le> current_pos c"
      using head_start_le[OF wf(1), of h] head_start_le[OF wf(2), of h] o(9) by simp_all
    moreover have "head_start c2 h = head_start c1 h" using q(3) by (simp add: head_start_def)
    ultimately show ?thesis using q(2) o(9) assms(8) by (simp add: head_len_def)
  qed
  with o(1,9) q(1,2) assms(8) show ?thesis by auto
qed

definition demo_ragged :: "nat kvcache" where
  "demo_ragged = demo_full\<lparr>head_starts_raw := [2, 0]\<rparr>"

theorem ragged_recall_exposes_hole_witness:
  "\<exists>sw1 c1 sw2 c2. offload_prefix demo_os demo_env 0 1 demo_swap demo_ragged = Ok (1, sw1, c1)
    \<and> recall_layer 0 sw1 c1 = (sw2, c2, Ok 1) \<and> head_len demo_ragged 0 = 1 \<and> head_len c2 0 = 2"
proof -
  have a: "\<forall>r \<in> set (records demo_swap). layer_idx r \<noteq> 0" "0 < page_size demo_os" "1 < current_pos demo_ragged"
    "swappable demo_ragged" "memory demo_ragged = None \<or> (\<forall>N. can_alloc demo_ragged N)"
    "0 < kv_heads demo_ragged" "head_len demo_ragged 0 = 1" "head_start demo_ragged 0 = 2"
    using demo_ready
    by (simp_all add: demo_ragged_def demo_full_def swappable_def kv_wf_def demo_cache_def format_ok_def bufs_ok_def row_def
        is_q4_def zero_alloc_law can_alloc_def zero_alloc_def head_len_def head_start_def)
  from ragged_recall_exposes_hole[OF demo_ready(1,2) a(1,4,5,2) zero_less_one a(3)] a(6-8) show ?thesis by fastforce
qed


text \<open>A burnt sequence number, with or without the removal of the file written under it.\<close>

lemma burn_ok:
  assumes "swap_wf sw"
  shows "swap_wf (sw\<lparr>next_seq := Suc (next_seq sw)\<rparr>)"
    "swap_wf (sw\<lparr>next_seq := Suc (next_seq sw), files := (files sw)((L, next_seq sw, n, x) := None)\<rparr>)"
proof -
  show "swap_wf (sw\<lparr>next_seq := Suc (next_seq sw)\<rparr>)" using assms by (auto simp: swap_wf_def)
  let ?fs = "(files sw)((L, next_seq sw, n, x) := None)"
  have "rec_files_ok ?fs q = rec_files_ok (files sw) q" if "q \<in> set (records sw)" for q
  proof (rule rec_frame)
    have "seq_of q \<noteq> next_seq sw" "rec_paths_ok q" using assms that by (auto simp: swap_wf_def)
    then show "?fs (k_path q) = files sw (k_path q)" "?fs (v_path q) = files sw (v_path q)"
      by (auto simp: rec_paths_ok_def)
  qed
  with assms show "swap_wf (sw\<lparr>next_seq := Suc (next_seq sw), files := ?fs\<rparr>)" by (auto simp: swap_wf_def)
qed

text \<open>The outcomes of an offload in terms of the ledger it leaves; the cache is pruned in each of them.\<close>

lemma offload_cases:
  assumes c: "kv_wf c" and n: "0 < n" "n < current_pos c"
  obtains (lossy) "offload_prefix os env L n sw c = prune os n sw c"
  | (burnt) "offload_prefix os env L n sw c = prune os n (sw\<lparr>next_seq := Suc (next_seq sw)\<rparr>) c"
  | (half) "offload_prefix os env L n sw c
      = prune os n (sw\<lparr>next_seq := Suc (next_seq sw), files := (files sw)((L, next_seq sw, n, KSide) := None)\<rparr>) c"
  | (disk) env' where "swappable c" "disk_ready env' sw"
      "offload_prefix os env L n sw c = offload_prefix os env' L n sw c"
proof (cases "swap_dir sw \<and> kv_dtype c \<in> {D_F32, D_F16} \<and> layout c = HeadMajor \<and> create_dir_ok env")
  case False
  then show ?thesis using n by (intro lossy) (auto simp: offload_prefix_def Let_def)
next
  case True
  have sc: "swappable c" using True c by (simp add: swappable_def)
  have "bufs_ok c" "n \<le> capacity c" using c n by (auto simp: kv_wf_def)
  then obtain kb vb where d: "dump_prefix n c (k_buffer c) = Ok kb" "dump_prefix n c (v_buffer c) = Ok vb"
    using dump_prefix_ok[of "k_buffer c" c n] dump_prefix_ok[of "v_buffer c" c n] swappable_row(1)[OF sc]
    by (auto simp: bufs_ok_def)
  let ?kp = "(L, next_seq sw, n, KSide)" and ?vp = "(L, next_seq sw, n, VSide)"
  let ?env = "\<lparr>create_dir_ok = True, write_ok = (\<lambda>_. True)\<rparr>"
  show ?thesis
  proof (cases "write_ok env ?kp")
    case False
    then show ?thesis using True n d by (intro burnt) (auto simp: offload_prefix_def Let_def)
  next
    case k: True
    show ?thesis
    proof (cases "write_ok env ?vp")
      case False
      then show ?thesis using True n d k by (intro half) (auto simp: offload_prefix_def Let_def)
    next
      case v: True
      have "offload_prefix os env L n sw c = offload_prefix os ?env L n sw c"
        using True n d k v by (auto simp: offload_prefix_def Let_def)
      then show ?thesis using True sc by (intro disk[of ?env]) (auto simp: disk_ready_def)
    qed
  qed
qed

lemma offload_total:
  assumes "kv_wf c" "swap_wf sw" "0 < page_size os"
  shows "\<exists>k sw' c'. offload_prefix os env L n sw c = Ok (k, sw', c') \<and> kv_wf c' \<and> swap_wf sw'
    \<and> (if 0 < n \<and> n < current_pos c
       then k = n \<and> current_pos c' = current_pos c - n
         \<and> (\<forall>h < kv_heads c. contents c' h = drop (n - head_start c h) (contents c h))
       else k = 0 \<and> sw' = sw \<and> c' = c)"
proof (cases "0 < n \<and> n < current_pos c")
  case False
  then have "offload_prefix os env L n sw c = Ok (0, sw, c)" by (auto simp: offload_prefix_def Let_def)
  with assms False show ?thesis by auto
next
  case True
  then have n: "0 < n" "n < current_pos c" by simp_all
  from prune_prefix_ok[OF assms(1,3) less_imp_le[OF n(2)]] obtain c' where
    p: "prune_prefix os n c = Ok c'" "kv_wf c'" "current_pos c' = current_pos c - n"
    "\<forall>h < kv_heads c. contents c' h = drop (n - head_start c h) (contents c h)" by blast
  have pr: "prune os n s c = Ok (n, s, c')" for s using p(1) by (simp add: prune_def)
  have "\<exists>sw'. offload_prefix os env L n sw c = Ok (n, sw', c') \<and> swap_wf sw'"
  proof (rule offload_cases[OF assms(1) n, of os env L sw])
    fix env' assume d: "swappable c" "disk_ready env' sw" "offload_prefix os env L n sw c = offload_prefix os env' L n sw c"
    from offload_prefix_ok[OF assms(2) d(2,1) assms(3) n, of L] d(3) p(1) show ?thesis by auto
  qed (use pr assms(2) burn_ok[OF assms(2)] in auto)
  with True p show ?thesis by auto
qed

text \<open>
  Offloading never fails: with or without a swap directory, for every format and layout, and whichever
  write fails, exactly the requested prefix leaves the cache and is reported, and the ledger stays sound
  (a failed write registers nothing). Offloading nothing or everything is refused without effect.
\<close>

theorem offload_never_fails:
  assumes "kv_wf c" "swap_wf sw" "0 < page_size os"
  shows "\<exists>k sw' c'. offload_prefix os env L n sw c = Ok (k, sw', c') \<and> kv_wf c' \<and> swap_wf sw'
    \<and> (if 0 < n \<and> n < current_pos c
       then k = n \<and> current_pos c' = current_pos c - n
         \<and> (\<forall>h < kv_heads c. contents c' h = drop (n - head_start c h) (contents c h))
       else k = 0 \<and> sw' = sw \<and> c' = c)"
  by (rule offload_total[OF assms])

theorem offload_never_fails_witness:
  "\<exists>sw' c'. offload_prefix demo_os \<lparr>create_dir_ok = True, write_ok = (\<lambda>p. False)\<rparr> 0 1 demo_swap demo_cache
      = Ok (1, sw', c') \<and> current_pos c' = 1 \<and> swap_wf sw'"
  using offload_never_fails[OF demo_cache_wf demo_ready(1),
      of demo_os "\<lparr>create_dir_ok = True, write_ok = (\<lambda>p. False)\<rparr>" 0 1] demo_ready(6)
  by (auto simp: demo_cache_def)

end
