(* ===== verification/Cache_Handle.thy ===== *)
theory Cache_Handle
  imports Kv_Format Swap_Props
begin

text \<open>
  \<open>engine/src/kv/cache_handle.rs\<close>: the transaction layer through which a technique mutates a KV cache. A
  callback calls operations that are validated at once and only staged; \<open>commit\<close> applies them in the
  order re-encode, merges, compaction. An operation is a function from the handle to its outcome and the
  handle afterwards, so that what a rejected operation leaves behind is part of the model. The cache that
  a failed \<open>commit\<close> leaves behind is not described. The keep-set dump (a debug recorder) is not modelled.
\<close>

section \<open>State\<close>

datatype cache_op_error =
    MultipleCompactions
  | InvalidKeep
  | GeometryImmutable
  | WrongContainer
  | NotOnHost
  | OpUnsupportedFormat string
  | OpHeterogeneousUnsupported
  | InvalidMerge
  | MergeAlreadyStaged
  | NoResidencyBackend
  | NotResident

datatype compaction = CKeep "nat list" | CKeepPerHead "nat list list" | COffload nat | CRecall

record ('u, 'w) cache_handle =
  h_cache :: "'u kvcache"
  h_layer_idx :: nat
  h_n_layers :: nat
  h_on_device :: bool
  h_swap :: "'u swap option"
  entry_pos :: nat
  merges :: "'w weighted_merge list option"
  slot :: "compaction option"
  reencode_to :: "string option"
  mutated :: bool

definition handle_new :: "'u kvcache \<Rightarrow> bool \<Rightarrow> nat \<Rightarrow> nat \<Rightarrow> ('u, 'w) cache_handle" where
  "handle_new c on_device layer n_layers =
     \<lparr>h_cache = c, h_layer_idx = layer, h_n_layers = n_layers, h_on_device = on_device, h_swap = None,
      entry_pos = current_pos c, merges = None, slot = None, reencode_to = None, mutated = False\<rparr>"

definition handle_with_swap :: "'u kvcache \<Rightarrow> bool \<Rightarrow> nat \<Rightarrow> nat \<Rightarrow> 'u swap \<Rightarrow> ('u, 'w) cache_handle" where
  "handle_with_swap c on_device layer n_layers sw = (handle_new c on_device layer n_layers)\<lparr>h_swap := Some sw\<rparr>"

type_synonym 's op = "'s \<Rightarrow> (cache_op_error, unit) result \<times> 's"

section \<open>Staging\<close>

fun validate_keep_loop :: "nat \<Rightarrow> nat option \<Rightarrow> nat list \<Rightarrow> (cache_op_error, unit) result" where
  "validate_keep_loop entry prev [] = Ok ()"
| "validate_keep_loop entry prev (k # ks) =
     (if k \<ge> entry then Err InvalidKeep
      else case prev of
        Some p \<Rightarrow> if k \<le> p then Err InvalidKeep else validate_keep_loop entry (Some k) ks
      | None \<Rightarrow> validate_keep_loop entry (Some k) ks)"

definition validate_keep :: "nat \<Rightarrow> nat list \<Rightarrow> (cache_op_error, unit) result" where
  "validate_keep entry = validate_keep_loop entry None"

datatype staged_keep = StagedLayerWide "nat list" | StagedPerHead "nat list list"

definition read_staged_keep :: "('u, 'w) cache_handle \<Rightarrow> staged_keep option" where
  "read_staged_keep h = (case slot h of
     Some (CKeep k) \<Rightarrow> Some (StagedLayerWide k) | Some (CKeepPerHead hs) \<Rightarrow> Some (StagedPerHead hs) | _ \<Rightarrow> None)"

definition set_compaction :: "compaction \<Rightarrow> ('u, 'w) cache_handle op" where
  "set_compaction x h = (if slot h \<noteq> None then (Err MultipleCompactions, h) else (Ok (), h\<lparr>slot := Some x\<rparr>))"

text \<open>\<open>iter().max().unwrap_or(0)\<close>, and \<open>keep.first().is_some_and(|p| p < floor)\<close>.\<close>

definition max_list :: "nat list \<Rightarrow> nat" where
  "max_list xs = foldr max xs 0"

definition first_below :: "nat list \<Rightarrow> nat \<Rightarrow> bool" where
  "first_below keep floor = (case keep of [] \<Rightarrow> False | p # _ \<Rightarrow> p < floor)"

definition keep :: "nat list \<Rightarrow> ('u, 'w) cache_handle op" where
  "keep ks h = (case validate_keep (entry_pos h) ks of
     Ok _ \<Rightarrow>
       if is_ragged (h_cache h)
          \<and> first_below ks (max_list (map (head_start (h_cache h)) [0..<kv_heads (h_cache h)]))
       then (Err NotResident, h) else set_compaction (CKeep ks) h
   | r \<Rightarrow> (r, h))"

fun check_heads :: "nat \<Rightarrow> (nat \<Rightarrow> nat) \<Rightarrow> nat \<Rightarrow> nat list list \<Rightarrow> (cache_op_error, unit) result" where
  "check_heads entry start i [] = Ok ()"
| "check_heads entry start i (ks # kss) =
     and_then (validate_keep entry ks) (\<lambda>_.
     if first_below ks (start i) then Err NotResident else check_heads entry start (i + 1) kss)"

text \<open>\<open>windows(2).all(|w| w[0].len() == w[1].len())\<close>.\<close>

fun uniform_lens :: "'a list list \<Rightarrow> bool" where
  "uniform_lens (x # y # r) \<longleftrightarrow> length x = length y \<and> uniform_lens (y # r)"
| "uniform_lens _ \<longleftrightarrow> True"

definition keep_per_head :: "nat list list \<Rightarrow> ('u, 'w) cache_handle op" where
  "keep_per_head kss h =
     (if layout (h_cache h) \<noteq> HeadMajor then (Err WrongContainer, h)
      else if length kss \<noteq> kv_heads (h_cache h) then (Err InvalidKeep, h)
      else case check_heads (entry_pos h) (head_start (h_cache h)) 0 kss of
        Ok _ \<Rightarrow> if \<not> uniform_lens kss \<and> \<not> supports_ragged (h_cache h) then (Err WrongContainer, h)
               else set_compaction (CKeepPerHead kss) h
      | r \<Rightarrow> (r, h))"

definition merge :: "'w weighted_merge list \<Rightarrow> ('u, 'w) cache_handle op" where
  "merge ms h =
     (if h_on_device h then (Err NotOnHost, h)
      else if merges h \<noteq> None then (Err MergeAlreadyStaged, h)
      else if list_ex (\<lambda>m. merge_into m \<ge> entry_pos h \<or> list_ex (\<lambda>(p, _). p \<ge> entry_pos h) (merge_from m)) ms
      then (Err InvalidMerge, h)
      else (Ok (), h\<lparr>merges := Some ms\<rparr>))"

definition reencode :: "string \<Rightarrow> ('u, 'w) cache_handle op" where
  "reencode target h =
     (if h_on_device h then (Err NotOnHost, h)
      else if kv_dtype (h_cache h) \<notin> {D_F32, D_F16, D_Q4_0}
      then (Err (OpUnsupportedFormat (current_format_name (h_cache h))), h)
      else if target \<notin> {''f32'', ''f16'', ''q4_0''} then (Err (OpUnsupportedFormat target), h)
      else if target = current_format_name (h_cache h) then (Ok (), h\<lparr>reencode_to := None\<rparr>)
      else if target = ''q4_0'' \<and> head_dim (h_cache h) mod QK4_0 \<noteq> 0 then (Err (OpUnsupportedFormat target), h)
      else (Ok (), h\<lparr>reencode_to := Some target\<rparr>))"

definition transition_quant_bits :: "nat \<Rightarrow> ('u, 'w) cache_handle op" where
  "transition_quant_bits b h = (Err WrongContainer, h)"

definition offload :: "nat \<Rightarrow> ('u, 'w) cache_handle op" where
  "offload prefix_len h =
     (if h_swap h = None then (Err NoResidencyBackend, h) else set_compaction (COffload prefix_len) h)"

definition recall :: "('u, 'w) cache_handle op" where
  "recall h = (if h_swap h = None then (Err NoResidencyBackend, h) else set_compaction CRecall h)"

section \<open>Commit\<close>

datatype commit_error =
    ReencodeFailed format_error
  | CommitKv kv_error
  | CommitSwap swap_error
  | NoSwapHandler
  | CursorOutside nat nat nat
  | KeepRejected cache_op_error

definition commit_keep :: "nat list \<Rightarrow> 'u kvcache \<Rightarrow> (commit_error, 'u kvcache) result" where
  "commit_keep ks c = and_then (map_err CommitKv (compact_keep_positions ks 0 c)) (\<lambda>c.
     Ok (clear_head_starts (set_current_pos (length ks) c)))"

definition commit_per_head_keep_at ::
    "nat list list \<Rightarrow> nat option \<Rightarrow> 'u kvcache \<Rightarrow> (commit_error, 'u kvcache) result" where
  "commit_per_head_keep_at heads cursor c =
     (let longest = max_list (map length heads) in
      and_then (case cursor of
          Some x \<Rightarrow> if x \<ge> longest \<and> x \<le> current_pos c then Ok x
                   else Err (CursorOutside x longest (current_pos c))
        | None \<Rightarrow> Ok longest) (\<lambda>new_pos.
      let starts = map (\<lambda>h. new_pos - length h) heads in
      and_then (map_err CommitKv (try_fold (\<lambda>(kv_head, ks). compact_keep_positions_for_head kv_head ks (starts ! kv_head))
          (enumerate 0 heads) c)) (\<lambda>c.
      Ok (set_head_starts starts (set_current_pos new_pos c)))))"

definition commit_per_head_keep :: "nat list list \<Rightarrow> 'u kvcache \<Rightarrow> (commit_error, 'u kvcache) result" where
  "commit_per_head_keep heads = commit_per_head_keep_at heads None"

text \<open>The byte-preserving prefix of \<open>commit\<close>: re-encode, then merges; and whether it changed anything.\<close>

definition commit_bytes ::
    "('u, 'w) numerics \<Rightarrow> ('u, 'w) cache_handle \<Rightarrow> (commit_error, 'u kvcache \<times> bool) result" where
  "commit_bytes nu h =
     and_then (case reencode_to h of
         None \<Rightarrow> Ok (h_cache h, mutated h)
       | Some target \<Rightarrow>
           and_then (map_err ReencodeFailed
             (apply_format_plan nu \<lparr>plan_base = target, overrides = []\<rparr> (h_cache h))) (\<lambda>c. Ok (c, True))) (\<lambda>(c, m).
     case merges h of
       Some ms \<Rightarrow> if ms \<noteq> [] then and_then (map_err CommitKv (apply_weighted_merges nu ms c)) (\<lambda>c. Ok (c, True))
                  else Ok (c, m)
     | None \<Rightarrow> Ok (c, m))"

definition commit ::
    "('u, 'w) numerics \<Rightarrow> 'u kv_os \<Rightarrow> fs_env \<Rightarrow> ('u, 'w) cache_handle
       \<Rightarrow> (commit_error, bool \<times> 'u kvcache \<times> 'u swap option) result" where
  "commit nu os env h =
     and_then (commit_bytes nu h) (\<lambda>(c, m).
     case slot h of
       Some (CKeep ks) \<Rightarrow> and_then (commit_keep ks c) (\<lambda>c. Ok (True, c, h_swap h))
     | Some (CKeepPerHead heads) \<Rightarrow> and_then (commit_per_head_keep heads c) (\<lambda>c. Ok (True, c, h_swap h))
     | Some (COffload prefix) \<Rightarrow>
         (case h_swap h of None \<Rightarrow> Err NoSwapHandler
          | Some sw \<Rightarrow> and_then (map_err CommitSwap (offload_prefix os env (h_layer_idx h) prefix sw c)) (\<lambda>(n, sw, c).
              Ok (m \<or> n > 0, c, Some sw)))
     | Some CRecall \<Rightarrow>
         (case h_swap h of None \<Rightarrow> Err NoSwapHandler
          | Some sw \<Rightarrow> (let (sw, c, r) = recall_layer (h_layer_idx h) sw c in
              and_then (map_err CommitSwap r) (\<lambda>n. Ok (m \<or> n > 0, c, Some sw))))
     | None \<Rightarrow> Ok (m, c, h_swap h))"

definition apply_per_head_keep_at ::
    "bool \<Rightarrow> nat \<Rightarrow> nat \<Rightarrow> nat list list \<Rightarrow> nat \<Rightarrow> 'u kvcache \<Rightarrow> (commit_error, 'u kvcache) result" where
  "apply_per_head_keep_at on_device layer n_layers heads cursor c =
     (case fst (keep_per_head heads (handle_new c on_device layer n_layers :: ('u, unit) cache_handle)) of
        Ok _ \<Rightarrow> commit_per_head_keep_at heads (Some cursor) c
      | Err e \<Rightarrow> Err (KeepRejected e)
      | Panic \<Rightarrow> Panic)"

section \<open>The whole-model handle\<close>

record 'u model_handle =
  m_caches :: "'u kvcache list"
  m_entry_pos :: nat
  m_n_kv_heads :: nat
  m_head_dim :: nat
  m_on_device :: bool
  m_slot :: "compaction option"
  m_mutated :: bool

definition model_new :: "'u kvcache list \<Rightarrow> bool \<Rightarrow> (cache_op_error, 'u model_handle) result" where
  "model_new caches on_device = (case caches of [] \<Rightarrow> Panic
     | c0 # _ \<Rightarrow> Ok \<lparr>m_caches = caches, m_entry_pos = current_pos c0, m_n_kv_heads = kv_heads c0,
                   m_head_dim = head_dim c0, m_on_device = on_device, m_slot = None, m_mutated = False\<rparr>)"

definition resident_floor :: "'u model_handle \<Rightarrow> nat \<Rightarrow> nat" where
  "resident_floor h kv_head = max_list (map (\<lambda>c. head_start c kv_head) (m_caches h))"

definition model_set_compaction :: "compaction \<Rightarrow> 'u model_handle op" where
  "model_set_compaction x h = (if m_slot h \<noteq> None then (Err MultipleCompactions, h) else (Ok (), h\<lparr>m_slot := Some x\<rparr>))"

definition model_keep :: "nat list \<Rightarrow> 'u model_handle op" where
  "model_keep ks h = (case validate_keep (m_entry_pos h) ks of
     Ok _ \<Rightarrow> if first_below ks (max_list (map (resident_floor h) [0..<m_n_kv_heads h])) then (Err NotResident, h)
            else model_set_compaction (CKeep ks) h
   | r \<Rightarrow> (r, h))"

definition model_keep_per_head :: "nat list list \<Rightarrow> 'u model_handle op" where
  "model_keep_per_head kss h =
     (if length kss \<noteq> m_n_kv_heads h then (Err InvalidKeep, h)
      else case check_heads (m_entry_pos h) (resident_floor h) 0 kss of
        Ok _ \<Rightarrow> if list_ex (\<lambda>c. layout c \<noteq> HeadMajor) (m_caches h) then (Err WrongContainer, h)
               else if \<not> uniform_lens kss \<and> list_ex (\<lambda>c. \<not> supports_ragged c) (m_caches h) then (Err WrongContainer, h)
               else model_set_compaction (CKeepPerHead kss) h
      | r \<Rightarrow> (r, h))"

definition model_merge :: "'w weighted_merge list \<Rightarrow> 'u model_handle op" where
  "model_merge ms h = (Err WrongContainer, h)"

definition model_reencode :: "string \<Rightarrow> 'u model_handle op" where
  "model_reencode t h = (Err WrongContainer, h)"

definition model_transition_quant_bits :: "nat \<Rightarrow> 'u model_handle op" where
  "model_transition_quant_bits b h = (Err WrongContainer, h)"

definition model_offload :: "nat \<Rightarrow> 'u model_handle op" where
  "model_offload n h = (Err NoResidencyBackend, h)"

definition model_recall :: "'u model_handle op" where
  "model_recall h = (Err NoResidencyBackend, h)"

text \<open>The layers one after the other; the first error ends the loop.\<close>

fun commit_layers :: "('u kvcache \<Rightarrow> (commit_error, 'u kvcache) result) \<Rightarrow> 'u kvcache list \<Rightarrow> (commit_error, 'u kvcache list) result" where
  "commit_layers f [] = Ok []"
| "commit_layers f (c # cs) = and_then (f c) (\<lambda>c. and_then (commit_layers f cs) (\<lambda>cs. Ok (c # cs)))"

definition model_commit :: "'u model_handle \<Rightarrow> (commit_error, bool \<times> 'u kvcache list) result" where
  "model_commit h = (case m_slot h of
     Some (CKeep ks) \<Rightarrow> and_then (commit_layers (commit_keep ks) (m_caches h)) (\<lambda>cs. Ok (True, cs))
   | Some (CKeepPerHead heads) \<Rightarrow> and_then (commit_layers (commit_per_head_keep heads) (m_caches h)) (\<lambda>cs. Ok (True, cs))
   | _ \<Rightarrow> Ok (m_mutated h, m_caches h))"

end
