(* ===== verification/Handle_Props.thy ===== *)
theory Handle_Props
  imports Cache_Handle
begin

text \<open>
  The transaction contract of the cache handle: what the operations stage (T-2, T-8, T-10 of the module
  documentation), that a committed transaction does to the contents of the cache what it says, and that
  the whole-model handle is the per-layer handle applied to every layer.
\<close>

section \<open>Keep lists\<close>

lemma validate_keep_loop_ok:
  "validate_keep_loop n prev ks = Ok u \<longleftrightarrow>
     sorted_wrt (<) ks \<and> (\<forall>k \<in> set ks. k < n \<and> (\<forall>p. prev = Some p \<longrightarrow> p < k))"
proof (induction n prev ks rule: validate_keep_loop.induct)
  case (1 entry prev)
  then show ?case by simp
next
  case (2 entry prev k ks)
  then show ?case by (cases prev) auto
qed

lemma validate_keep_ok: "validate_keep n ks = Ok u \<longleftrightarrow> keep_in 0 n ks"
  by (simp add: validate_keep_def validate_keep_loop_ok keep_in_def)

lemma validate_keep_loop_bad: "validate_keep_loop n prev ks \<noteq> Ok () \<Longrightarrow> validate_keep_loop n prev ks = Err InvalidKeep"
  by (induction n prev ks rule: validate_keep_loop.induct) (auto split: if_splits option.splits)

lemma validate_keep_cases: "validate_keep n ks = Ok () \<or> validate_keep n ks = Err InvalidKeep"
  using validate_keep_loop_bad[of n None ks] by (auto simp: validate_keep_def)

lemma first_below_iff: "sorted_wrt (<) ks \<Longrightarrow> first_below ks lo \<longleftrightarrow> (\<exists>k \<in> set ks. k < lo)"
  by (cases ks) (auto simp: first_below_def dest: less_trans)

lemma keep_in_floor: "keep_in 0 n ks \<Longrightarrow> \<not> first_below ks lo \<Longrightarrow> keep_in lo n ks"
  by (auto simp: keep_in_def first_below_iff not_less)

lemma max_list_ge: "x \<in> set xs \<Longrightarrow> x \<le> max_list xs"
  by (induction xs) (auto simp: max_list_def)

lemma max_list_le: "(\<And>x. x \<in> set xs \<Longrightarrow> x \<le> b) \<Longrightarrow> max_list xs \<le> b"
  by (induction xs) (auto simp: max_list_def)

lemma check_heads_ok:
  "check_heads n start i kss = Ok u \<longleftrightarrow> (\<forall>j < length kss. keep_in (start (i + j)) n (kss ! j))"
proof (induction n start i kss rule: check_heads.induct)
  case (1 entry start i)
  then show ?case by simp
next
  case (2 entry start i ks kss)
  have "keep_in (start i) entry ks \<longleftrightarrow> keep_in 0 entry ks \<and> \<not> first_below ks (start i)"
    by (fastforce simp: keep_in_def first_below_iff not_less)
  with 2 show ?case
    by (auto simp: and_then_eq_Ok validate_keep_ok less_Suc_eq_0_disj nth_Cons split: nat.splits)
qed

lemma check_heads_bad: "check_heads n start i kss \<noteq> Ok () \<Longrightarrow> \<exists>e. check_heads n start i kss = Err e"
proof (induction n start i kss rule: check_heads.induct)
  case (1 entry start i)
  then show ?case by simp
next
  case (2 entry start i ks kss)
  then show ?case using validate_keep_cases[of entry ks] by (auto split: if_splits)
qed

section \<open>Callbacks\<close>

text \<open>A callback is a sequence of operations on the handle.\<close>

datatype 'w cache_op =
    OpKeep "nat list" | OpKeepPerHead "nat list list" | OpMerge "'w weighted_merge list" | OpReencode string
  | OpTransition nat | OpOffload nat | OpRecall

fun run_op :: "'w cache_op \<Rightarrow> ('u, 'w) cache_handle op" where
  "run_op (OpKeep ks) = keep ks"
| "run_op (OpKeepPerHead kss) = keep_per_head kss"
| "run_op (OpMerge ms) = merge ms"
| "run_op (OpReencode t) = reencode t"
| "run_op (OpTransition b) = transition_quant_bits b"
| "run_op (OpOffload n) = offload n"
| "run_op OpRecall = recall"

definition run_ops :: "'w cache_op list \<Rightarrow> ('u, 'w) cache_handle \<Rightarrow> ('u, 'w) cache_handle" where
  "run_ops ops h = fold (\<lambda>op h. snd (run_op op h)) ops h"

lemmas op_defs = keep_def keep_per_head_def merge_def reencode_def transition_quant_bits_def offload_def recall_def
  set_compaction_def

text \<open>What may be in the compaction slot.\<close>

fun slot_ok :: "'u kvcache \<Rightarrow> 'u swap option \<Rightarrow> compaction \<Rightarrow> bool" where
  "slot_ok c sw (CKeep ks) \<longleftrightarrow> keep_in 0 (current_pos c) ks \<and> (\<forall>h < kv_heads c. keep_in (head_start c h) (current_pos c) ks)"
| "slot_ok c sw (CKeepPerHead kss) \<longleftrightarrow> layout c = HeadMajor \<and> length kss = kv_heads c
     \<and> (\<forall>h < kv_heads c. keep_in (head_start c h) (current_pos c) (kss ! h)) \<and> (uniform_lens kss \<or> supports_ragged c)"
| "slot_ok c sw (COffload n) \<longleftrightarrow> sw \<noteq> None"
| "slot_ok c sw CRecall \<longleftrightarrow> sw \<noteq> None"

definition target_ok :: "'u kvcache \<Rightarrow> string \<Rightarrow> bool" where
  "target_ok c t \<longleftrightarrow> kv_dtype c \<in> {D_F32, D_F16, D_Q4_0} \<and> t \<noteq> current_format_name c
     \<and> (\<exists>d. typed_floor_dtype t = Some d \<and> (d = D_Q4_0 \<longrightarrow> head_dim c mod QK4_0 = 0))"

definition handle_ok :: "'u kvcache \<Rightarrow> 'u swap option \<Rightarrow> ('u, 'w) cache_handle \<Rightarrow> bool" where
  "handle_ok c sw h \<longleftrightarrow> h_cache h = c \<and> h_swap h = sw \<and> entry_pos h = current_pos c \<and> \<not> mutated h
     \<and> (\<forall>x. slot h = Some x \<longrightarrow> slot_ok c sw x)
     \<and> (\<forall>ms. merges h = Some ms \<longrightarrow> (\<forall>m \<in> set ms. merge_in_range (current_pos c) m))
     \<and> (\<forall>t. reencode_to h = Some t \<longrightarrow> target_ok c t)"

lemma handle_new_ok: "handle_ok c None (handle_new c dev l n)" "handle_ok c (Some sw) (handle_with_swap c dev l n sw)"
  by (simp_all add: handle_ok_def handle_new_def handle_with_swap_def)

lemma keep_slot_ok:
  assumes "validate_keep (current_pos c) ks = Ok u"
    "\<not> (is_ragged c \<and> first_below ks (max_list (map (head_start c) [0..<kv_heads c])))"
  shows "slot_ok c sw (CKeep ks)"
proof -
  have k: "keep_in 0 (current_pos c) ks" using assms(1) by (simp add: validate_keep_ok)
  have "keep_in (head_start c h) (current_pos c) ks" if h: "h < kv_heads c" for h
  proof (cases "is_ragged c")
    case True
    with assms(2) keep_in_floor[OF k] have "keep_in (max_list (map (head_start c) [0..<kv_heads c])) (current_pos c) ks" by simp
    moreover have "head_start c h \<le> max_list (map (head_start c) [0..<kv_heads c])" using h by (intro max_list_ge) simp
    ultimately show ?thesis by (auto simp: keep_in_def)
  next
    case False
    then have "head_start c h = 0" by (auto simp: is_ragged_def head_start_def list_ex_iff)
    with k show ?thesis by simp
  qed
  with k show ?thesis by simp
qed

lemma run_op_ok:
  assumes h: "handle_ok c sw h"
  shows "handle_ok c sw (snd (run_op op h))"
proof -
  note e = h[unfolded handle_ok_def]
  show ?thesis
  proof (cases op)
    case (OpKeep ks)
    show ?thesis using e validate_keep_cases[of "current_pos c" ks] keep_slot_ok[of c ks _ sw]
      by (auto simp: OpKeep op_defs handle_ok_def split: result.splits)
  next
    case (OpKeepPerHead kss)
    show ?thesis using e by (auto simp: OpKeepPerHead op_defs handle_ok_def check_heads_ok split: result.splits)
  next
    case (OpMerge ms)
    show ?thesis using e
      by (auto simp: OpMerge op_defs handle_ok_def list_ex_iff merge_in_range_def not_le split: prod.splits)
  next
    case (OpReencode t)
    show ?thesis using e by (auto simp: OpReencode op_defs handle_ok_def target_ok_def typed_floor_dtype_def)
  qed (use e in \<open>auto simp: op_defs handle_ok_def\<close>)
qed

lemma run_ops_ok: "handle_ok c sw h \<Longrightarrow> handle_ok c sw (run_ops ops h)"
  unfolding run_ops_def by (rule fold_invariant[where Q = "\<lambda>_. True"]) (auto intro: run_op_ok)


section \<open>Commit\<close>

lemma compaction_upd:
  assumes "bufs_ok c" "format_ok c" "n \<le> current_pos c" "current_pos c \<le> high_water_pos c"
    "high_water_pos c \<le> capacity c" "capacity c \<le> max_seq_len c" "case memory c of None \<Rightarrow> True | Some m \<Rightarrow> alloc_law m"
    and hs: "hs = [] \<or> length hs = kv_heads c \<and> list_all (\<lambda>s. s \<le> n) hs"
    and c': "c' = c\<lparr>current_pos := n, high_water_pos := x, head_starts_raw := hs, head_start_dirty := b\<rparr>"
    and x: "n \<le> x" "x \<le> high_water_pos c"
  shows "kv_wf c'" "cell c' = cell c" "row c' = row c"
proof -
  have e: "c' = c\<lparr>current_pos := n, high_water_pos := x\<rparr>\<lparr>head_starts_raw := hs, head_start_dirty := b\<rparr>" by (simp add: c')
  have f: "format_ok c'" "bufs_ok c'" unfolding e starts_upd final_upd using assms(1,2) by simp_all
  show "kv_wf c'" using f assms hs x unfolding kv_wf_def by (simp add: c')
  show "cell c' = cell c" "row c' = row c" unfolding e starts_upd final_upd by simp_all
qed

text \<open>The tail of both keeps: the cursor moves, and the head starts are installed.\<close>

lemma keep_tail:
  assumes wf: "kv_wf c" and n: "n \<le> current_pos c"
  shows "\<exists>x b. clear_head_starts (set_current_pos n c)
      = c\<lparr>current_pos := n, high_water_pos := x, head_starts_raw := [], head_start_dirty := b\<rparr> \<and> n \<le> x \<and> x \<le> high_water_pos c"
proof (cases "n = 0")
  case True
  then show ?thesis
    by (intro exI[of _ 0] exI[of _ "head_start_dirty c"]) (simp add: clear_head_starts_def set_current_pos_def)
next
  case False
  have "current_pos c \<le> high_water_pos c" using wf by (auto simp: kv_wf_def)
  with False n show ?thesis
    by (intro exI[of _ "high_water_pos c"] exI[of _ "head_starts_raw c \<noteq> [] \<or> head_start_dirty c"])
      (simp add: clear_head_starts_def set_current_pos_def)
qed

lemma commit_keep_ok:
  assumes wf: "kv_wf c" and ks: "keep_in 0 (current_pos c) ks"
  shows "\<exists>c'. commit_keep ks c = Ok c' \<and> kv_wf c' \<and> current_pos c' = length ks \<and> head_starts_raw c' = []
    \<and> kv_heads c' = kv_heads c \<and> (\<forall>h < kv_heads c. contents c' h = map (cell c h) ks) \<and> derived c c'"
proof -
  have w: "format_ok c" "bufs_ok c" "current_pos c \<le> high_water_pos c" "high_water_pos c \<le> capacity c" using wf by (auto simp: kv_wf_def)
  have k: "sorted_wrt (<) ks" "\<forall>p \<in> set ks. p < capacity c" "ks = [] \<or> 0 \<le> hd ks" using ks w by (auto simp: keep_in_def)
  from compact_keep_positions_cells[OF w(1,2) k] obtain c1 where
    c1: "compact_keep_positions ks 0 c = Ok c1" "same_geom c c1"
    "\<forall>h < kv_heads c. \<forall>j < length ks. cell c1 h j = cell c h (ks ! j)" by auto
  note f = same_geom_fields[OF c1(2)]
  have wf1: "kv_wf c1" using wf same_geom_wf[OF c1(2)] by simp
  then have w1: "format_ok c1" "bufs_ok c1" "current_pos c1 \<le> high_water_pos c1" "high_water_pos c1 \<le> capacity c1"
    "capacity c1 \<le> max_seq_len c1" "case memory c1 of None \<Rightarrow> True | Some m \<Rightarrow> alloc_law m" by (auto simp: kv_wf_def)
  have n: "length ks \<le> current_pos c1" using keep_in_length[OF ks] f by simp
  from keep_tail[OF wf1 n] obtain x b where
    t: "clear_head_starts (set_current_pos (length ks) c1)
      = c1\<lparr>current_pos := length ks, high_water_pos := x, head_starts_raw := [], head_start_dirty := b\<rparr>"
    "length ks \<le> x" "x \<le> high_water_pos c1" by blast
  define c' where "c' = c1\<lparr>current_pos := length ks, high_water_pos := x, head_starts_raw := [], head_start_dirty := b\<rparr>"
  have u: "kv_wf c'" "cell c' = cell c1"
    using compaction_upd[OF w1(2,1) n w1(3-6) _ c'_def t(2,3)] by simp_all
  have "contents c' h = map (cell c h) ks" if "h < kv_heads c" for h
  proof -
    have "contents c' h = map (cell c1 h) [0..<length ks]" by (simp add: contents_def u(2)) (simp add: c'_def head_start_def)
    also have "\<dots> = map (cell c h) ks" using c1(3) that by (intro nth_equalityI) auto
    finally show ?thesis .
  qed
  moreover have "commit_keep ks c = Ok c'" using c1(1) t(1) by (simp add: commit_keep_def c'_def)
  moreover have "derived c c'" using derived_geom[OF c1(2)] by (simp add: derived_def c'_def)
  ultimately show ?thesis using u(1) f by (auto simp: c'_def)
qed

text \<open>Compacting one head after the other.\<close>

lemma compact_heads_fold:
  assumes "format_ok c" "bufs_ok c" "layout c = HeadMajor" "distinct (map fst xs)"
    "\<forall>(h, ks) \<in> set xs. h < kv_heads c \<and> sorted_wrt (<) ks \<and> (\<forall>p \<in> set ks. p < capacity c) \<and> st ! h + length ks \<le> capacity c"
  shows "\<exists>c'. try_fold (\<lambda>(h, ks). compact_keep_positions_for_head h ks (st ! h)) xs c = Ok c' \<and> same_geom c c'
    \<and> (\<forall>(h, ks) \<in> set xs. \<forall>j < length ks. cell c' h (st ! h + j) = cell c h (ks ! j))
    \<and> (\<forall>h < kv_heads c. \<forall>q < capacity c. h \<notin> fst ` set xs \<longrightarrow> cell c' h q = cell c h q)"
  using assms
proof (induction xs arbitrary: c)
  case Nil
  then show ?case by simp
next
  case (Cons x xs)
  obtain h ks where x: "x = (h, ks)" by (cases x)
  with Cons.prems(5) have p: "h < kv_heads c" "sorted_wrt (<) ks" "\<forall>p \<in> set ks. p < capacity c" "st ! h + length ks \<le> capacity c"
    by auto
  from compact_for_head_cells[OF Cons.prems(1-3) p] obtain c1 where
    c1: "compact_keep_positions_for_head h ks (st ! h) c = Ok c1" "same_geom c c1"
    "\<forall>j < length ks. cell c1 h (st ! h + j) = cell c h (ks ! j)"
    "\<forall>h' < kv_heads c. \<forall>q < capacity c. h' \<noteq> h \<longrightarrow> cell c1 h' q = cell c h' q" by blast
  note f = same_geom_fields[OF c1(2)]
  have g: "format_ok c1" "bufs_ok c1" using geom_ok[OF c1(2) Cons.prems(1,2)] by simp_all
  have d: "distinct (map fst xs)" "h \<notin> fst ` set xs" using Cons.prems(4) x by auto
  have l: "layout c1 = HeadMajor" using f Cons.prems(3) by simp
  have r: "\<forall>(h, ks) \<in> set xs. h < kv_heads c1 \<and> sorted_wrt (<) ks \<and> (\<forall>p \<in> set ks. p < capacity c1) \<and> st ! h + length ks \<le> capacity c1"
    using Cons.prems(5) f by auto
  from Cons.IH[OF g l d(1) r] obtain c2 where
    c2: "try_fold (\<lambda>(h, ks). compact_keep_positions_for_head h ks (st ! h)) xs c1 = Ok c2" "same_geom c1 c2"
    "\<forall>(h, ks) \<in> set xs. \<forall>j < length ks. cell c2 h (st ! h + j) = cell c1 h (ks ! j)"
    "\<forall>h < kv_heads c1. \<forall>q < capacity c1. h \<notin> fst ` set xs \<longrightarrow> cell c2 h q = cell c1 h q" by blast
  have moved: "cell c2 h' (st ! h' + j) = cell c h' (ks' ! j)" if "(h', ks') \<in> set (x # xs)" "j < length ks'" for h' ks' j
  proof (cases "(h', ks') = x")
    case True
    with x that(2) have "cell c1 h' (st ! h' + j) = cell c h' (ks' ! j)" "st ! h' + j < capacity c" using c1(3) p(4) by auto
    moreover have "cell c2 h' (st ! h' + j) = cell c1 h' (st ! h' + j)"
      using c2(4) True x p(1) d(2) f \<open>st ! h' + j < capacity c\<close> by simp
    ultimately show ?thesis by simp
  next
    case False
    with that(1) have m: "(h', ks') \<in> set xs" by simp
    with d(2) have ne: "h' \<noteq> h" by (metis fst_conv imageI)
    have "h' < kv_heads c" "ks' ! j < capacity c" using Cons.prems(5) m that(2) by auto
    with c1(4) ne have "cell c1 h' (ks' ! j) = cell c h' (ks' ! j)" by simp
    with c2(3) m that(2) show ?thesis by fastforce
  qed
  have kept: "cell c2 h' q = cell c h' q" if "h' < kv_heads c" "q < capacity c" "h' \<notin> fst ` set (x # xs)" for h' q
    using c2(4) c1(4) that x f by simp
  have "try_fold (\<lambda>(h, ks). compact_keep_positions_for_head h ks (st ! h)) (x # xs) c = Ok c2" using c1(1) c2(1) x by simp
  with moved kept same_geom_trans[OF c1(2) c2(2)] show ?case by blast
qed


text \<open>The cursor and the starts of a right-aligned keep.\<close>

lemma ragged_tail:
  assumes wf: "kv_wf c" and n: "n \<le> current_pos c" and st: "\<forall>s \<in> set st. s \<le> n"
  shows "\<exists>x b. set_head_starts st (set_current_pos n c) = c\<lparr>current_pos := n, high_water_pos := x,
      head_starts_raw := (if list_all (\<lambda>s. s = 0) st then [] else st), head_start_dirty := b\<rparr>
    \<and> n \<le> x \<and> x \<le> high_water_pos c"
proof -
  have m: "map (\<lambda>s. min s n) st = st" using st by (intro map_idI) auto
  have w: "current_pos c \<le> high_water_pos c" using wf by (auto simp: kv_wf_def)
  show ?thesis
  proof (cases "n = 0")
    case True
    then show ?thesis using m
      by (intro exI[of _ 0] exI[of _ True]) (simp add: set_head_starts_def set_current_pos_def)
  next
    case False
    then show ?thesis using m n w
      by (intro exI[of _ "high_water_pos c"] exI[of _ True]) (simp add: set_head_starts_def set_current_pos_def)
  qed
qed

lemma commit_per_head_keep_at_ok:
  assumes wf: "kv_wf c" and l: "layout c = HeadMajor" and len: "length heads = kv_heads c"
    and ks: "\<forall>h < kv_heads c. keep_in 0 (current_pos c) (heads ! h)"
    and cu: "case cursor of None \<Rightarrow> n = max_list (map length heads)
      | Some x \<Rightarrow> n = x \<and> max_list (map length heads) \<le> x \<and> x \<le> current_pos c"
  shows "\<exists>c'. commit_per_head_keep_at heads cursor c = Ok c' \<and> kv_wf c' \<and> current_pos c' = n \<and> kv_heads c' = kv_heads c
    \<and> (\<forall>h < kv_heads c. head_start c' h = n - length (heads ! h) \<and> contents c' h = map (cell c h) (heads ! h))"
proof -
  have w: "format_ok c" "bufs_ok c" "current_pos c \<le> capacity c" using wf by (auto simp: kv_wf_def)
  have longest: "max_list (map length heads) \<le> current_pos c"
    using ks len keep_in_length by (intro max_list_le) (fastforce simp: in_set_conv_nth)
  have n: "n \<le> current_pos c" "max_list (map length heads) \<le> n" using cu longest by (auto split: option.splits)
  have hl: "length (heads ! h) \<le> n" if "h < kv_heads c" for h
    using max_list_ge[of "length (heads ! h)" "map length heads"] n(2) that len by fastforce
  define st where "st = map (\<lambda>h. n - length h) heads"
  have sth: "st ! h + length (heads ! h) = n" "st ! h = n - length (heads ! h)" if "h < kv_heads c" for h
    using hl[OF that] that len by (simp_all add: st_def)
  have xs: "\<forall>(h, ks) \<in> set (enumerate 0 heads). h < kv_heads c \<and> sorted_wrt (<) ks \<and> (\<forall>p \<in> set ks. p < capacity c)
      \<and> st ! h + length ks \<le> capacity c"
    using ks len sth n(1) w(3) by (fastforce simp: in_set_enumerate_eq keep_in_def)
  have d: "distinct (map fst (enumerate 0 heads))" by (simp add: distinct_enumerate)
  from compact_heads_fold[OF w(1,2) l d xs] obtain c1 where
    c1: "try_fold (\<lambda>(h, ks). compact_keep_positions_for_head h ks (st ! h)) (enumerate 0 heads) c = Ok c1" "same_geom c c1"
    "\<forall>(h, ks) \<in> set (enumerate 0 heads). \<forall>j < length ks. cell c1 h (st ! h + j) = cell c h (ks ! j)" by blast
  note f = same_geom_fields[OF c1(2)]
  have wf1: "kv_wf c1" using wf same_geom_wf[OF c1(2)] by simp
  then have w1: "format_ok c1" "bufs_ok c1" "current_pos c1 \<le> high_water_pos c1" "high_water_pos c1 \<le> capacity c1"
    "capacity c1 \<le> max_seq_len c1" "case memory c1 of None \<Rightarrow> True | Some m \<Rightarrow> alloc_law m" by (auto simp: kv_wf_def)
  have stn: "\<forall>s \<in> set st. s \<le> n" by (auto simp: st_def)
  have n1: "n \<le> current_pos c1" using n(1) f by simp
  from ragged_tail[OF wf1 n1 stn] obtain x b where
    t: "set_head_starts st (set_current_pos n c1) = c1\<lparr>current_pos := n, high_water_pos := x,
      head_starts_raw := (if list_all (\<lambda>s. s = 0) st then [] else st), head_start_dirty := b\<rparr>"
    "n \<le> x" "x \<le> high_water_pos c1" by blast
  define c' where "c' = c1\<lparr>current_pos := n, high_water_pos := x,
      head_starts_raw := (if list_all (\<lambda>s. s = 0) st then [] else st), head_start_dirty := b\<rparr>"
  have raw: "(if list_all (\<lambda>s. s = 0) st then [] else st) = [] \<or> length (if list_all (\<lambda>s. s = 0) st then [] else st) = kv_heads c1
      \<and> list_all (\<lambda>s. s \<le> n) (if list_all (\<lambda>s. s = 0) st then [] else st)"
    using stn len f by (auto simp: st_def list_all_iff)
  have u: "kv_wf c'" "cell c' = cell c1" using compaction_upd[OF w1(2,1) n1 w1(3-6) raw c'_def t(2,3)] by simp_all
  have hs: "head_start c' h = n - length (heads ! h)" if "h < kv_heads c" for h
    using sth(2)[OF that] that len by (auto simp: c'_def head_start_def st_def list_all_length)
  have "contents c' h = map (cell c h) (heads ! h)" if h: "h < kv_heads c" for h
  proof (rule nth_equalityI)
    show "length (contents c' h) = length (map (cell c h) (heads ! h))"
      using hl[OF h] by (simp add: contents_def hs[OF h]) (simp add: c'_def)
    fix j assume "j < length (contents c' h)"
    then have j: "j < length (heads ! h)" using hl[OF h] by (simp add: contents_def hs[OF h]) (simp add: c'_def)
    have "(h, heads ! h) \<in> set (enumerate 0 heads)" using h len by (simp add: in_set_enumerate_eq)
    with c1(3) j have "cell c1 h (st ! h + j) = cell c h (heads ! h ! j)" by fastforce
    then show "contents c' h ! j = map (cell c h) (heads ! h) ! j"
      using j hl[OF h] sth[OF h] by (simp add: contents_def hs[OF h] u(2)) (simp add: c'_def)
  qed
  moreover have "(case cursor of
          Some x \<Rightarrow> if x \<ge> max_list (map length heads) \<and> x \<le> current_pos c then Ok x
                   else Err (CursorOutside x (max_list (map length heads)) (current_pos c))
        | None \<Rightarrow> Ok (max_list (map length heads))) = Ok n" using cu by (auto split: option.splits)
  then have "commit_per_head_keep_at heads cursor c = Ok c'"
    using c1(1) t(1) by (simp add: commit_per_head_keep_at_def Let_def st_def[symmetric] c'_def)
  ultimately show ?thesis using u(1) hs f by (auto simp: c'_def)
qed

text \<open>The byte-preserving part of a commit keeps positions, geometry and head starts.\<close>

lemma target_floor:
  assumes "kv_wf c" "target_ok c t"
  shows "\<not> is_opaque c" "\<exists>d. typed_floor_dtype t = Some d \<and> kv_dtype c \<noteq> d \<and> (d = D_Q4_0 \<longrightarrow> head_dim c mod QK4_0 = 0)"
proof -
  show "\<not> is_opaque c" using assms by (auto simp: kv_wf_def format_ok_def is_opaque_def target_ok_def split: option.splits)
  show "\<exists>d. typed_floor_dtype t = Some d \<and> kv_dtype c \<noteq> d \<and> (d = D_Q4_0 \<longrightarrow> head_dim c mod QK4_0 = 0)"
    using assms(2) by (auto simp: target_ok_def typed_floor_dtype_def current_format_name_def split: if_splits)
qed

definition same_positions :: "'u kvcache \<Rightarrow> 'u kvcache \<Rightarrow> bool" where
  "same_positions c c' \<longleftrightarrow> current_pos c' = current_pos c \<and> kv_heads c' = kv_heads c \<and> layout c' = layout c
     \<and> head_starts_raw c' = head_starts_raw c \<and> capacity c' = capacity c \<and> memory c' = memory c \<and> opaque c' = opaque c"

lemma same_positions_geom: "same_geom c c' \<Longrightarrow> same_positions c c'"
  using same_geom_fields[of c c'] by (simp add: same_positions_def)

lemma reencode_step_ok:
  assumes wf: "kv_wf c" and nu: "numerics_ok nu" and t: "\<forall>t. to = Some t \<longrightarrow> target_ok c t"
  shows "\<exists>c1 m. (case to of None \<Rightarrow> Ok (c, m0)
       | Some target \<Rightarrow> and_then (map_err ReencodeFailed
             (apply_format_plan nu \<lparr>plan_base = target, overrides = []\<rparr> c)) (\<lambda>c. Ok (c, True))) = Ok (c1, m)
    \<and> kv_wf c1 \<and> same_positions c c1"
proof (cases to)
  case None
  then show ?thesis using wf by (simp add: same_positions_def)
next
  case (Some t)
  with t have ok: "target_ok c t" by simp
  from target_floor(2)[OF wf ok] obtain d where d: "typed_floor_dtype t = Some d" "kv_dtype c \<noteq> d"
    "d = D_Q4_0 \<Longrightarrow> head_dim c mod QK4_0 = 0" by auto
  have fl: "is_typed_floor d" using d(1) by (auto simp: typed_floor_dtype_def is_typed_floor_def split: if_splits)
  from reencode_typed_ok[OF wf target_floor(1)[OF wf ok] nu fl d(3)] obtain c' where
    c': "reencode_typed nu d c = Ok c'" "kv_wf c'"
    "c' = c\<lparr>k_buffer := k_buffer c', v_buffer := v_buffer c', kv_dtype := d, host_managed := True\<rparr>" by blast
  have "apply_format_plan nu \<lparr>plan_base = t, overrides = []\<rparr> c = Ok c'"
    using ok d(1,2) c'(1) by (auto simp: apply_format_plan_def reencode_uniform_def target_ok_def is_typed_floor_def)
  moreover obtain k v where "c' = c\<lparr>k_buffer := k, v_buffer := v, kv_dtype := d, host_managed := True\<rparr>" using c'(3) by blast
  ultimately show ?thesis using Some c'(2) by (auto simp: same_positions_def)
qed

lemma commit_bytes_ok:
  assumes wf: "kv_wf c" and nu: "numerics_ok nu" and h: "handle_ok c sw h" and wr: "merges h = None \<or> writable (opaque c)"
  shows "\<exists>c1 m. commit_bytes nu h = Ok (c1, m) \<and> kv_wf c1 \<and> same_positions c c1
    \<and> (reencode_to h = None \<and> merges h = None \<longrightarrow> c1 = c \<and> \<not> m)"
proof -
  note e = h[unfolded handle_ok_def]
  from reencode_step_ok[OF wf nu, of "reencode_to h" "mutated h"] e obtain c1 m where
    r: "(case reencode_to h of None \<Rightarrow> Ok (c, mutated h)
       | Some target \<Rightarrow> and_then (map_err ReencodeFailed
             (apply_format_plan nu \<lparr>plan_base = target, overrides = []\<rparr> c)) (\<lambda>c. Ok (c, True))) = Ok (c1, m)"
    "kv_wf c1" "same_positions c c1" by blast
  have fr: "reencode_to h = None \<Longrightarrow> c1 = c \<and> \<not> m" using r(1) e by simp
  show ?thesis
  proof (cases "merges h")
    case None
    with r e fr show ?thesis by (auto simp: commit_bytes_def)
  next
    case (Some ms)
    have cap: "current_pos c \<le> capacity c1" using wf r(3) by (auto simp: kv_wf_def same_positions_def)
    have "\<forall>x \<in> set ms. merge_in_range (current_pos c) x" using e Some by simp
    then have "\<forall>x \<in> set ms. merge_in_range (capacity c1) x" using merge_in_range_mono[OF _ cap] by blast
    moreover have "writable (opaque c1)" using wr Some r(3) by (simp add: same_positions_def)
    ultimately obtain c2 where
      c2: "apply_weighted_merges nu ms c1 = Ok c2" "same_geom c1 c2" using apply_weighted_merges_ok[OF r(2) _ nu] by blast
    have "kv_wf c2" "same_positions c c2"
      using r(2,3) same_geom_wf[OF c2(2)] same_positions_geom[OF c2(2)] by (auto simp: same_positions_def)
    with r e Some c2(1) show ?thesis by (cases "ms = []") (auto simp: commit_bytes_def)
  qed
qed


section \<open>The transaction contract\<close>

definition is_compaction_op :: "'w cache_op \<Rightarrow> bool" where
  "is_compaction_op op = (case op of OpKeep _ \<Rightarrow> True | OpKeepPerHead _ \<Rightarrow> True | OpOffload _ \<Rightarrow> True | OpRecall \<Rightarrow> True
     | _ \<Rightarrow> False)"

text \<open>
  C15: Staging (T-1, T-2, T-8). No operation touches the cache or panics; a rejected operation leaves the whole
  handle as it was; once a compaction is staged, every further compaction is rejected and the staged one
  stays.
\<close>

theorem staging_discipline:
  "h_cache (snd (run_op op h)) = h_cache h \<and> fst (run_op op h) \<noteq> Panic
    \<and> (\<forall>e. fst (run_op op h) = Err e \<longrightarrow> snd (run_op op h) = h)
    \<and> (slot h \<noteq> None \<longrightarrow> slot (snd (run_op op h)) = slot h
        \<and> (is_compaction_op op \<longrightarrow> (\<exists>e. fst (run_op op h) = Err e)))"
proof (cases op)
  case (OpKeep ks)
  then show ?thesis using validate_keep_cases[of "entry_pos h" ks] by (auto simp: op_defs split: if_splits)
next
  case (OpKeepPerHead kss)
  then show ?thesis using check_heads_bad[of "entry_pos h" "head_start (h_cache h)" 0 kss]
    by (auto simp: op_defs split: result.splits if_splits)
qed (auto simp: op_defs is_compaction_op_def split: if_splits)

theorem staging_discipline_witness:
  "\<exists>e. fst (run_op (OpKeep [1]) (snd (keep [0] (handle_new demo_cache False 0 1 :: (nat, nat) cache_handle)))) = Err e"
proof -
  let ?h = "snd (keep [0] (handle_new demo_cache False 0 1 :: (nat, nat) cache_handle))"
  have "slot ?h \<noteq> None"
    by (simp add: keep_def validate_keep_def handle_new_def is_ragged_def set_compaction_def demo_cache_def)
  with staging_discipline[of "OpKeep [1]" ?h] show ?thesis by (simp add: is_compaction_op_def)
qed

text \<open>Only a recall puts a recall into the slot.\<close>

lemma run_op_recall: "slot (snd (run_op op h)) = Some CRecall \<Longrightarrow> slot h = Some CRecall \<or> op = OpRecall"
  by (cases op) (auto simp: op_defs split: if_splits result.splits)

lemma run_ops_recall: "OpRecall \<notin> set ops \<Longrightarrow> slot h \<noteq> Some CRecall \<Longrightarrow> slot (run_ops ops h) \<noteq> Some CRecall"
proof (induction ops arbitrary: h)
  case Nil
  then show ?case by (simp add: run_ops_def)
next
  case (Cons op ops)
  then have "slot (snd (run_op op h)) \<noteq> Some CRecall" using run_op_recall[of op h] by auto
  with Cons show ?case by (simp add: run_ops_def)
qed

lemma run_op_merges: "merges (snd (run_op op h)) = merges h \<or> (\<exists>ms. op = OpMerge ms)"
  by (cases op) (auto simp: op_defs split: if_splits result.splits)

lemma run_ops_merges: "\<forall>ms. OpMerge ms \<notin> set ops \<Longrightarrow> merges (run_ops ops h) = merges h"
proof (induction ops arbitrary: h)
  case Nil
  then show ?case by (simp add: run_ops_def)
next
  case (Cons op ops)
  then have "merges (snd (run_op op h)) = merges h" using run_op_merges[of op h] by auto
  with Cons show ?case by (simp add: run_ops_def)
qed

lemma commit_ok:
  assumes wf: "kv_wf c" and nu: "numerics_ok nu" and os: "0 < page_size os" and h: "handle_ok c sw h"
    and s: "\<forall>w. sw = Some w \<longrightarrow> swap_wf w" and r: "slot h \<noteq> Some CRecall" and wr: "merges h = None \<or> writable (opaque c)"
  shows "\<exists>m c' sw'. commit nu os env h = Ok (m, c', sw') \<and> kv_wf c' \<and> (\<forall>w. sw' = Some w \<longrightarrow> swap_wf w)"
proof -
  from commit_bytes_ok[OF wf nu h wr] obtain c1 m where b: "commit_bytes nu h = Ok (c1, m)" "kv_wf c1" "same_positions c c1" by blast
  have e: "h_swap h = sw" "\<forall>x. slot h = Some x \<longrightarrow> slot_ok c sw x" using h by (auto simp: handle_ok_def)
  note p = b(3)[unfolded same_positions_def]
  show ?thesis
  proof (cases "slot h")
    case None
    with b e s show ?thesis by (auto simp: commit_def)
  next
    case (Some x)
    with e have so: "slot_ok c sw x" by simp
    show ?thesis
    proof (cases x)
      case (CKeep ks)
      with so p have "keep_in 0 (current_pos c1) ks" by simp
      from commit_keep_ok[OF b(2) this] b(1) Some CKeep e s show ?thesis by (auto simp: commit_def)
    next
      case (CKeepPerHead kss)
      with so p have k: "layout c1 = HeadMajor" "length kss = kv_heads c1" "\<forall>h < kv_heads c1. keep_in 0 (current_pos c1) (kss ! h)"
        by (auto simp: keep_in_def)
      from commit_per_head_keep_at_ok[OF b(2) k, where cursor = None and n = "max_list (map length kss)"] b(1) Some CKeepPerHead e s
      show ?thesis by (auto simp: commit_def commit_per_head_keep_def)
    next
      case (COffload n)
      with so obtain w where w: "sw = Some w" by auto
      with s have sw: "swap_wf w" by simp
      from offload_total[OF b(2) sw os, of env "h_layer_idx h" n] b(1) Some COffload e w show ?thesis
        by (auto simp: commit_def)
    next
      case CRecall
      with Some r show ?thesis by simp
    qed
  qed
qed


text \<open>
  C14: Eager validation. Whatever a callback asks for, and whatever of it was rejected, the commit of what was staged succeeds and leaves a
  well-formed cache and a sound swap ledger: no staged keep, re-encode or offload can fail at commit time, and no merge on a cache
  of a typed format or of an opaque one that can be written. Left out are recalls, whose files may be gone, and merges in the other opaque
  formats, which panic. An offload does not fail even where the files cannot be written: its rows are dropped.
\<close>

theorem commit_never_fails:
  assumes "kv_wf c" "numerics_ok nu" "0 < page_size os" "OpRecall \<notin> set ops" "writable (opaque c) \<or> (\<forall>ms. OpMerge ms \<notin> set ops)"
    and "h0 = handle_new c dev l n \<or> (\<exists>sw. swap_wf sw \<and> h0 = handle_with_swap c dev l n sw)"
  shows "\<exists>m c' sw'. commit nu os env (run_ops ops h0) = Ok (m, c', sw') \<and> kv_wf c' \<and> (\<forall>w. sw' = Some w \<longrightarrow> swap_wf w)"
proof -
  from assms(6) obtain sw where h: "handle_ok c sw h0" "\<forall>w. sw = Some w \<longrightarrow> swap_wf w" "slot h0 \<noteq> Some CRecall" "merges h0 = None"
    using handle_new_ok by (fastforce simp: handle_new_def handle_with_swap_def)
  have "merges (run_ops ops h0) = None \<or> writable (opaque c)" using assms(5) run_ops_merges[of ops h0] h(4) by auto
  from commit_ok[OF assms(1-3) run_ops_ok[OF h(1)] h(2) run_ops_recall[OF assms(4) h(3)] this] show ?thesis .
qed

theorem commit_never_fails_witness:
  "\<exists>m c' sw'. commit demo_numerics demo_os demo_env
      (run_ops [OpReencode ''f16'', OpKeep [1], OpOffload 1, OpKeep [7]] (handle_with_swap demo_cache False 0 1 demo_swap))
     = Ok (m, c', sw') \<and> kv_wf c'"
proof -
  have "0 < page_size demo_os" by (simp add: demo_os_def)
  moreover have "OpRecall \<notin> set [OpReencode ''f16'', OpKeep [1], OpOffload 1, OpKeep [7]]" by simp
  moreover have "\<exists>sw. swap_wf sw \<and> handle_with_swap demo_cache False 0 1 demo_swap = handle_with_swap demo_cache False 0 1 sw"
    using demo_ready(1) by blast
  moreover have "writable (opaque demo_cache)" by simp
  ultimately show ?thesis using commit_never_fails[OF demo_cache_wf demo_numerics_ok] by blast
qed

text \<open>
  C32: A merge that eager validation accepts and the commit cannot write. On an opaque cache whose format has no encoder, a merge of resident
  rows is staged without an objection, and the commit panics.
\<close>

theorem unwritable_merge_panics:
  assumes "kv_wf c" "\<not> writable (opaque c)" "0 < kv_heads c" "merge_in_range (current_pos c) m" "merge_from m \<noteq> []"
  shows "fst (merge [m] (handle_new c False l n)) = Ok () \<and> commit nu os env (snd (merge [m] (handle_new c False l n))) = Panic"
proof -
  have w: "format_ok c" "bufs_ok c" "current_pos c \<le> capacity c" using assms(1) by (auto simp: kv_wf_def)
  have o: "is_opaque c" using assms(2) by (cases "opaque c") (simp_all add: is_opaque_def)
  have ix: "row_ix c 0 (merge_into m) < kv_heads c * capacity c" "\<forall>(p, wt) \<in> set (merge_from m). row_ix c 0 p < kv_heads c * capacity c"
    using assms(3,4) w(3) row_ix_less[of 0 c] by (fastforce simp: merge_in_range_def)+
  have "merge_buf nu m (kv_dtype c) (opaque c) (row c) (\<lambda>p. row_ix c 0 p * row c) b = Panic" if "length b = kv_heads c * capacity c * row c" for b
    unfolding merge_buf_def read_row(1)[OF that ix(1)] read_rows_fold[OF that ix(2)] using assms(2) by simp
  then have h: "merge_head nu m (row c) (\<lambda>h p. row_ix c h p * row c) 0 c = Panic"
    using w(2) by (cases "apply_to m") (simp_all add: merge_head_def bufs_ok_def)
  have "[0..<kv_heads c] = 0 # [1..<kv_heads c]" using assms(3) by (simp add: upt_conv_Cons)
  moreover have "layout c = HeadMajor" using w(1) o by (auto simp: format_ok_def is_opaque_def split: option.splits)
  ultimately have "apply_one_merge nu m c = Panic"
    using h o assms(5) row_opaque[OF w(1)] by (simp add: apply_one_merge_def row_ix_def)
  moreover have "snd (merge [m] (handle_new c False l n)) = (handle_new c False l n)\<lparr>merges := Some [m]\<rparr>" "fst (merge [m] (handle_new c False l n)) = Ok ()"
    using assms(4) by (auto simp: merge_def handle_new_def merge_in_range_def list_ex_iff)
  ultimately show ?thesis by (simp add: commit_def commit_bytes_def handle_new_def apply_weighted_merges_def)
qed

text \<open>A cache of one head with eight values to a block at a byte each: the layout of \<open>q8_0\<close>, which is read and not written.\<close>

definition demo_q8 :: "nat kvcache" where
  "demo_q8 = demo_cache\<lparr>opaque := Some \<lparr>block_elems = 8, bits = 8, scale_layout = PerBlockF16, packing = Byte\<rparr>, kv_dtype := D_U8, head_dim := 8,
     k_buffer := replicate 60 0, v_buffer := replicate 60 0\<rparr>"

theorem unwritable_merge_panics_witness:
  "commit demo_numerics demo_os demo_env
     (snd (merge [\<lparr>merge_into = 0, into_weight = 1, merge_from = [(1, 2)], apply_to = Both\<rparr>] (handle_new demo_q8 False 0 1))) = Panic"
proof -
  have "kv_wf demo_q8" using demo_cache_wf
    by (simp add: demo_q8_def kv_wf_def format_ok_def bufs_ok_def row_def is_opaque_def block_bytes_def)
  moreover have "\<not> writable (opaque demo_q8)" by (simp add: demo_q8_def writable_def)
  ultimately show ?thesis
    using unwritable_merge_panics[of demo_q8 "\<lparr>merge_into = 0, into_weight = 1, merge_from = [(1, 2)], apply_to = Both\<rparr> :: nat weighted_merge"]
    by (simp add: demo_q8_def merge_in_range_def)
qed

lemma keep_new:
  assumes h0: "h0 = handle_new c dev l n"
  shows "fst (keep ks h0) = Ok () \<longleftrightarrow> keep_in 0 (current_pos c) ks \<and> (\<forall>h < kv_heads c. keep_in (head_start c h) (current_pos c) ks)"
    and "fst (keep ks h0) = Ok () \<Longrightarrow> commit nu os env (snd (keep ks h0)) = and_then (commit_keep ks c) (\<lambda>c. Ok (True, c, None))"
proof -
  have fl: "\<not> first_below ks (max_list (map (head_start c) [0..<kv_heads c]))"
    if "keep_in 0 (current_pos c) ks" "\<forall>h < kv_heads c. keep_in (head_start c h) (current_pos c) ks"
  proof
    assume "first_below ks (max_list (map (head_start c) [0..<kv_heads c]))"
    with that(1) obtain k where k: "k \<in> set ks" "k < max_list (map (head_start c) [0..<kv_heads c])"
      by (auto simp: keep_in_def first_below_iff)
    have "max_list (map (head_start c) [0..<kv_heads c]) \<le> k"
      using that(2) k(1) by (intro max_list_le) (auto simp: keep_in_def)
    with k(2) show False by simp
  qed
  have e: "entry_pos h0 = current_pos c" "h_cache h0 = c" "slot h0 = None" "reencode_to h0 = None" "merges h0 = None"
    "\<not> mutated h0" "h_swap h0 = None" by (simp_all add: h0 handle_new_def)
  show "fst (keep ks h0) = Ok () \<longleftrightarrow> keep_in 0 (current_pos c) ks \<and> (\<forall>h < kv_heads c. keep_in (head_start c h) (current_pos c) ks)"
    using validate_keep_cases[of "current_pos c" ks] validate_keep_ok[of "current_pos c" ks] fl keep_slot_ok[of c ks _ None]
    by (auto simp: keep_def e set_compaction_def)
  assume a: "fst (keep ks h0) = Ok ()"
  then have "snd (keep ks h0) = h0\<lparr>slot := Some (CKeep ks)\<rparr>"
    using validate_keep_cases[of "current_pos c" ks] by (auto simp: keep_def e set_compaction_def split: if_splits)
  then show "commit nu os env (snd (keep ks h0)) = and_then (commit_keep ks c) (\<lambda>c. Ok (True, c, None))"
    using e by (simp add: commit_def commit_bytes_def)
qed

text \<open>
  C2: A layer-wide keep. It is accepted exactly when the list is strictly ascending, inside the entry frame and
  inside every head's resident range (T-10); committing it makes every head hold exactly the kept rows, in
  order, with the cursor at their number and the geometry uniform again.
\<close>

theorem keep_commit_selects:
  assumes wf: "kv_wf c" and h0: "h0 = handle_new c dev l n"
  shows "(fst (keep ks h0) = Ok () \<longleftrightarrow>
      keep_in 0 (current_pos c) ks \<and> (\<forall>h < kv_heads c. keep_in (head_start c h) (current_pos c) ks))
    \<and> (fst (keep ks h0) = Ok () \<longrightarrow> (\<exists>c'. commit nu os env (snd (keep ks h0)) = Ok (True, c', None) \<and> kv_wf c'
        \<and> current_pos c' = length ks \<and> head_starts_raw c' = []
        \<and> (\<forall>h < kv_heads c. contents c' h = map (cell c h) ks)))"
proof (intro conjI impI)
  show acc: "fst (keep ks h0) = Ok () \<longleftrightarrow>
      keep_in 0 (current_pos c) ks \<and> (\<forall>h < kv_heads c. keep_in (head_start c h) (current_pos c) ks)"
    by (rule keep_new(1)[OF h0])
  assume a: "fst (keep ks h0) = Ok ()"
  with acc have "keep_in 0 (current_pos c) ks" by simp
  from commit_keep_ok[OF wf this] keep_new(2)[OF h0 a, of nu os env]
  show "\<exists>c'. commit nu os env (snd (keep ks h0)) = Ok (True, c', None) \<and> kv_wf c' \<and> current_pos c' = length ks
      \<and> head_starts_raw c' = [] \<and> (\<forall>h < kv_heads c. contents c' h = map (cell c h) ks)" by auto
qed

theorem keep_commit_selects_witness:
  "\<exists>c'. commit demo_numerics demo_os demo_env (snd (keep [0, 2] (handle_new demo_full False 0 1))) = Ok (True, c', None)
    \<and> kv_wf c' \<and> contents c' 1 = [([20], [40]), ([22], [42])]"
proof -
  have wf: "kv_wf demo_full" using demo_full_ready(1) by (simp add: swappable_def)
  have "fst (keep [0, 2] (handle_new demo_full False 0 1 :: (nat, nat) cache_handle)) = Ok ()"
    by (simp add: keep_def handle_new_def validate_keep_def demo_full_def demo_cache_def is_ragged_def set_compaction_def)
  with keep_commit_selects[OF wf refl, of "[0, 2]" False 0 1 demo_numerics demo_os demo_env] obtain c' where
    "commit demo_numerics demo_os demo_env (snd (keep [0, 2] (handle_new demo_full False 0 1))) = Ok (True, c', None)"
    "kv_wf c'" "\<forall>h < kv_heads demo_full. contents c' h = map (cell demo_full h) [0, 2]" by blast
  moreover have "map (cell demo_full 1) [0, 2] = [([20], [40]), ([22], [42])]" "kv_heads demo_full = 2"
    by (simp_all add: demo_full_def pos_upd cell_def rowat_def row_ix_def)
  ultimately show ?thesis by auto
qed


definition per_head_valid :: "'u kvcache \<Rightarrow> nat list list \<Rightarrow> bool" where
  "per_head_valid c kss \<longleftrightarrow> layout c = HeadMajor \<and> length kss = kv_heads c
     \<and> (\<forall>h < kv_heads c. keep_in (head_start c h) (current_pos c) (kss ! h)) \<and> (uniform_lens kss \<or> supports_ragged c)"

lemma keep_per_head_new:
  assumes h0: "h0 = handle_new c dev l n"
  shows "fst (keep_per_head kss h0) = Ok () \<longleftrightarrow> per_head_valid c kss"
    and "fst (keep_per_head kss h0) \<noteq> Panic"
    and "fst (keep_per_head kss h0) = Ok () \<Longrightarrow>
      commit nu os env (snd (keep_per_head kss h0)) = and_then (commit_per_head_keep kss c) (\<lambda>c. Ok (True, c, None))"
proof -
  have e: "entry_pos h0 = current_pos c" "h_cache h0 = c" "slot h0 = None" "reencode_to h0 = None" "merges h0 = None"
    "\<not> mutated h0" "h_swap h0 = None" by (simp_all add: h0 handle_new_def)
  note ch = check_heads_ok[of "current_pos c" "head_start c" 0 kss]
  have "check_heads (current_pos c) (head_start c) 0 kss \<noteq> Panic"
    using check_heads_bad[of "current_pos c" "head_start c" 0 kss] by force
  note ch = this ch
  show "fst (keep_per_head kss h0) = Ok () \<longleftrightarrow> per_head_valid c kss" "fst (keep_per_head kss h0) \<noteq> Panic"
    using ch by (auto simp: keep_per_head_def e set_compaction_def per_head_valid_def split: result.splits if_splits)
  assume "fst (keep_per_head kss h0) = Ok ()"
  then have "snd (keep_per_head kss h0) = h0\<lparr>slot := Some (CKeepPerHead kss)\<rparr>"
    by (auto simp: keep_per_head_def e set_compaction_def split: if_splits result.splits)
  then show "commit nu os env (snd (keep_per_head kss h0)) = and_then (commit_per_head_keep kss c) (\<lambda>c. Ok (True, c, None))"
    using e by (simp add: commit_def commit_bytes_def)
qed

lemma per_head_valid_in: "per_head_valid c kss \<Longrightarrow> \<forall>h < kv_heads c. keep_in 0 (current_pos c) (kss ! h)"
  by (auto simp: per_head_valid_def keep_in_def)

text \<open>
  C5: A per-head keep. It is accepted exactly on a head-major cache with one valid list per head, unequal
  lengths only where the container can be ragged. Committing it right-aligns the heads on the longest one:
  the cursor is the longest length, head \<open>h\<close> starts where its list leaves room, and it holds exactly its
  own kept rows, in order. No head overwrites another, and no row is read after it was overwritten.
\<close>

theorem per_head_commit_right_aligns:
  assumes wf: "kv_wf c" and h0: "h0 = handle_new c dev l n"
  shows "(fst (keep_per_head kss h0) = Ok () \<longleftrightarrow> per_head_valid c kss)
    \<and> (per_head_valid c kss \<longrightarrow> (\<exists>c'. commit nu os env (snd (keep_per_head kss h0)) = Ok (True, c', None) \<and> kv_wf c'
        \<and> current_pos c' = max_list (map length kss)
        \<and> (\<forall>h < kv_heads c. head_start c' h = current_pos c' - length (kss ! h)
            \<and> contents c' h = map (cell c h) (kss ! h))))"
proof (intro conjI impI)
  show acc: "fst (keep_per_head kss h0) = Ok () \<longleftrightarrow> per_head_valid c kss" by (rule keep_per_head_new(1)[OF h0])
  assume v: "per_head_valid c kss"
  then have l: "layout c = HeadMajor" "length kss = kv_heads c" by (simp_all add: per_head_valid_def)
  from commit_per_head_keep_at_ok[OF wf l per_head_valid_in[OF v], where cursor = None and n = "max_list (map length kss)"]
    keep_per_head_new(3)[OF h0, of kss nu os env] acc v
  show "\<exists>c'. commit nu os env (snd (keep_per_head kss h0)) = Ok (True, c', None) \<and> kv_wf c'
        \<and> current_pos c' = max_list (map length kss)
        \<and> (\<forall>h < kv_heads c. head_start c' h = current_pos c' - length (kss ! h)
            \<and> contents c' h = map (cell c h) (kss ! h))"
    by (auto simp: commit_per_head_keep_def)
qed

lemma demo_full_wf: "kv_wf demo_full"
  using demo_full_ready(1) by (simp add: swappable_def)

lemma all_below_2: "(\<forall>h < 2. P h) \<longleftrightarrow> P 0 \<and> P (1 :: nat)"
  by (auto simp: less_2_cases_iff)

lemma demo_per_head_valid: "per_head_valid demo_full [[0, 2], [1]]"
  by (simp add: per_head_valid_def demo_full_def pos_upd keep_in_def supports_ragged_def is_opaque_def all_below_2)

theorem per_head_commit_right_aligns_witness:
  "\<exists>c'. commit demo_numerics demo_os demo_env (snd (keep_per_head [[0, 2], [1]] (handle_new demo_full False 0 1)))
      = Ok (True, c', None) \<and> current_pos c' = 2 \<and> head_start c' 1 = 1
    \<and> contents c' 0 = [([10], [30]), ([12], [32])] \<and> contents c' 1 = [([21], [41])]"
proof -
  note t = per_head_commit_right_aligns[OF demo_full_wf refl, of "[[0, 2], [1]]" False 0 1 demo_numerics demo_os demo_env,
      THEN conjunct2, THEN mp, OF demo_per_head_valid]
  then obtain c' where r:
    "commit demo_numerics demo_os demo_env (snd (keep_per_head [[0, 2], [1]] (handle_new demo_full False 0 1))) = Ok (True, c', None)"
    "current_pos c' = max_list (map length [[0, 2 :: nat], [1]])"
    "\<forall>h < kv_heads demo_full. head_start c' h = current_pos c' - length ([[0, 2 :: nat], [1]] ! h)
            \<and> contents c' h = map (cell demo_full h) ([[0, 2], [1]] ! h)" by blast
  have k: "kv_heads demo_full = 2" by (simp add: demo_full_def)
  have p: "current_pos c' = 2" using r(2) by (simp add: max_list_def)
  have "contents c' 0 = map (cell demo_full 0) [0, 2]" "contents c' 1 = map (cell demo_full 1) [1]" "head_start c' 1 = 1"
    using r(3) p unfolding k all_below_2 by simp_all
  moreover have "map (cell demo_full 0) [0, 2] = [([10], [30]), ([12], [32])]" "map (cell demo_full 1) [1] = [([21], [41])]"
    by (simp_all add: demo_full_def pos_upd cell_def rowat_def row_ix_def)
  ultimately have "contents c' 0 = [([10], [30]), ([12], [32])]" "contents c' 1 = [([21], [41])]" "head_start c' 1 = 1"
    by (simp_all only:)
  with r(1) p show ?thesis by blast
qed

text \<open>
  \<open>apply_per_head_keep_at\<close> puts several layers on one cursor. An invalid keep is rejected as the handle
  would; a cursor below the longest head or beyond the resident positions is refused; otherwise every head
  holds its kept rows, right-aligned on the given cursor.
\<close>

theorem per_head_keep_at_contract:
  assumes "kv_wf c"
  shows "(\<not> per_head_valid c kss \<longrightarrow> (\<exists>e. apply_per_head_keep_at dev l n kss x c = Err (KeepRejected e)))
    \<and> (per_head_valid c kss \<and> \<not> (max_list (map length kss) \<le> x \<and> x \<le> current_pos c) \<longrightarrow>
        apply_per_head_keep_at dev l n kss x c = Err (CursorOutside x (max_list (map length kss)) (current_pos c)))
    \<and> (per_head_valid c kss \<and> max_list (map length kss) \<le> x \<and> x \<le> current_pos c \<longrightarrow>
        (\<exists>c'. apply_per_head_keep_at dev l n kss x c = Ok c' \<and> kv_wf c' \<and> current_pos c' = x
          \<and> (\<forall>h < kv_heads c. contents c' h = map (cell c h) (kss ! h))))"
proof -
  note k = keep_per_head_new[of "handle_new c dev l n :: ('a, unit) cache_handle", OF refl, of kss]
  have bad: "\<exists>e. apply_per_head_keep_at dev l n kss x c = Err (KeepRejected e)" if "\<not> per_head_valid c kss"
    using that k(1,2) by (auto simp: apply_per_head_keep_at_def split: result.splits)
  have go: "apply_per_head_keep_at dev l n kss x c = commit_per_head_keep_at kss (Some x) c" if "per_head_valid c kss"
    using that k(1) by (simp add: apply_per_head_keep_at_def)
  have ok: "\<exists>c'. apply_per_head_keep_at dev l n kss x c = Ok c' \<and> kv_wf c' \<and> current_pos c' = x
          \<and> (\<forall>h < kv_heads c. contents c' h = map (cell c h) (kss ! h))"
    if v: "per_head_valid c kss" and r: "max_list (map length kss) \<le> x \<and> x \<le> current_pos c"
  proof -
    have l: "layout c = HeadMajor" "length kss = kv_heads c" using v by (simp_all add: per_head_valid_def)
    from commit_per_head_keep_at_ok[OF assms l per_head_valid_in[OF v], where cursor = "Some x" and n = x] r go[OF v]
    show ?thesis by auto
  qed
  have out: "apply_per_head_keep_at dev l n kss x c = Err (CursorOutside x (max_list (map length kss)) (current_pos c))"
    if "per_head_valid c kss" "\<not> (max_list (map length kss) \<le> x \<and> x \<le> current_pos c)"
    using go[OF that(1)] that(2) by (auto simp: commit_per_head_keep_at_def Let_def)
  show ?thesis using bad ok out by blast
qed

theorem per_head_keep_at_contract_witness:
  "apply_per_head_keep_at False 0 1 [[0, 2], [1]] 1 demo_full = Err (CursorOutside 1 2 3)
    \<and> (\<exists>c'. apply_per_head_keep_at False 0 1 [[0, 2], [1]] 3 demo_full = Ok c' \<and> current_pos c' = 3)"
  using per_head_keep_at_contract[OF demo_full_wf, of "[[0, 2], [1]]" False 0 1 1]
    per_head_keep_at_contract[OF demo_full_wf, of "[[0, 2], [1]]" False 0 1 3] demo_per_head_valid
  by (auto simp: max_list_def demo_full_def)

section \<open>The whole-model handle\<close>

text \<open>The layers agree on the entry frame, as the caller of the whole-model handle asserts.\<close>

definition same_frame :: "'u kvcache list \<Rightarrow> bool" where
  "same_frame cs \<longleftrightarrow> (\<forall>c \<in> set cs. current_pos c = current_pos (hd cs) \<and> kv_heads c = kv_heads (hd cs))"

lemma commit_layers_nth:
  assumes "\<forall>c \<in> set cs. \<exists>c'. f c = Ok c'"
  shows "\<exists>cs'. commit_layers f cs = Ok cs' \<and> length cs' = length cs \<and> (\<forall>i < length cs. f (cs ! i) = Ok (cs' ! i))"
  using assms
proof (induction cs)
  case Nil
  then show ?case by simp
next
  case (Cons c cs)
  then obtain c' cs' where "f c = Ok c'" "commit_layers f cs = Ok cs'" "length cs' = length cs"
    "\<forall>i < length cs. f (cs ! i) = Ok (cs' ! i)" by auto
  then show ?case by (auto simp: less_Suc_eq_0_disj)
qed

lemma resident_floor_ge: "c \<in> set (m_caches h) \<Longrightarrow> head_start c i \<le> resident_floor h i"
  unfolding resident_floor_def by (rule max_list_ge) auto


lemma model_keep_ok:
  assumes m: "model_new cs dev = Ok m" and fr: "same_frame cs" and a: "fst (model_keep ks m) = Ok ()"
  shows "cs \<noteq> []" "m_caches m = cs" "m_slot (snd (model_keep ks m)) = Some (CKeep ks)" "m_caches (snd (model_keep ks m)) = cs"
    "c \<in> set cs \<Longrightarrow> keep_in 0 (current_pos c) ks \<and> (\<forall>h < kv_heads c. keep_in (head_start c h) (current_pos c) ks)"
proof -
  have e: "cs \<noteq> []" "m_caches m = cs" "m_entry_pos m = current_pos (hd cs)" "m_n_kv_heads m = kv_heads (hd cs)" "m_slot m = None"
    using m by (auto simp: model_new_def split: list.splits)
  then show "cs \<noteq> []" "m_caches m = cs" by simp_all
  have v: "validate_keep (current_pos (hd cs)) ks = Ok ()"
    and f: "\<not> first_below ks (max_list (map (resident_floor m) [0..<kv_heads (hd cs)]))"
    and s: "snd (model_keep ks m) = m\<lparr>m_slot := Some (CKeep ks)\<rparr>"
    using a e validate_keep_cases[of "current_pos (hd cs)" ks]
    by (auto simp: model_keep_def model_set_compaction_def split: if_splits)
  show "m_slot (snd (model_keep ks m)) = Some (CKeep ks)" "m_caches (snd (model_keep ks m)) = cs" using s e by simp_all
  assume c: "c \<in> set cs"
  with fr have g: "current_pos c = current_pos (hd cs)" "kv_heads c = kv_heads (hd cs)" by (auto simp: same_frame_def)
  from v have k: "keep_in 0 (current_pos c) ks" by (simp add: validate_keep_ok g)
  have "keep_in (head_start c h) (current_pos c) ks" if "h < kv_heads c" for h
  proof -
    have "resident_floor m h \<le> max_list (map (resident_floor m) [0..<kv_heads (hd cs)])"
      using that g by (intro max_list_ge) auto
    with resident_floor_ge[of c m h] c e(2) keep_in_floor[OF k f] show ?thesis by (fastforce simp: keep_in_def)
  qed
  with k show "keep_in 0 (current_pos c) ks \<and> (\<forall>h < kv_heads c. keep_in (head_start c h) (current_pos c) ks)" by blast
qed

text \<open>
  The whole-model handle is the per-layer handle applied to every layer. If the layers share the entry frame
  and the whole-model handle accepts a keep, then the handle of each layer accepts it too, the fan-out commit
  succeeds, and layer \<open>i\<close> ends as the commit of its own handle leaves it.
\<close>

theorem model_commit_is_per_layer:
  assumes wf: "\<forall>c \<in> set cs. kv_wf c" and fr: "same_frame cs" and m: "model_new cs dev = Ok m"
    and a: "fst (model_keep ks m) = Ok ()"
  shows "\<exists>cs'. model_commit (snd (model_keep ks m)) = Ok (True, cs') \<and> length cs' = length cs
    \<and> (\<forall>i < length cs. \<forall>h. h = (handle_new (cs ! i) dev i (length cs) :: ('u, 'w) cache_handle) \<longrightarrow>
        fst (keep ks h) = Ok () \<and> commit nu os env (snd (keep ks h)) = Ok (True, cs' ! i, None) \<and> kv_wf (cs' ! i))"
proof -
  note k = model_keep_ok[OF m fr a]
  have "\<forall>c \<in> set cs. \<exists>c'. commit_keep ks c = Ok c'" using wf k(5) commit_keep_ok by blast
  from commit_layers_nth[OF this] obtain cs' where
    cs': "commit_layers (commit_keep ks) cs = Ok cs'" "length cs' = length cs"
    "\<forall>i < length cs. commit_keep ks (cs ! i) = Ok (cs' ! i)" by blast
  have "model_commit (snd (model_keep ks m)) = Ok (True, cs')" using k(3,4) cs'(1) by (simp add: model_commit_def)
  moreover have "fst (keep ks h) = Ok () \<and> commit nu os env (snd (keep ks h)) = Ok (True, cs' ! i, None) \<and> kv_wf (cs' ! i)"
    if i: "i < length cs" and h: "h = (handle_new (cs ! i) dev i (length cs) :: ('u, 'w) cache_handle)" for i h
  proof -
    have v: "keep_in 0 (current_pos (cs ! i)) ks \<and> (\<forall>h < kv_heads (cs ! i). keep_in (head_start (cs ! i) h) (current_pos (cs ! i)) ks)"
      using k(5) i by simp
    have acc: "fst (keep ks h) = Ok ()" using keep_new(1)[OF h] v by simp
    have "kv_wf (cs' ! i)" using commit_keep_ok[of "cs ! i" ks] v wf i cs'(3) by auto
    with acc keep_new(2)[OF h acc, of nu os env] cs'(3) i show ?thesis by simp
  qed
  ultimately show ?thesis using cs'(2) by blast
qed

definition demo_model :: "nat model_handle" where
  "demo_model = \<lparr>m_caches = [demo_full, demo_ragged], m_entry_pos = 3, m_n_kv_heads = 2, m_head_dim = 1,
     m_on_device = False, m_slot = None, m_mutated = False\<rparr>"

text \<open>Position 2 is resident in every head of both layers, position 1 is a hole of the ragged one.\<close>

theorem model_commit_is_per_layer_witness:
  "fst (model_keep [1, 2] demo_model) = Err NotResident
    \<and> (\<exists>cs'. model_commit (snd (model_keep [2] demo_model)) = Ok (True, cs') \<and> length cs' = 2 \<and> kv_wf (cs' ! 1))"
proof -
  have wf: "\<forall>c \<in> set [demo_full, demo_ragged]. kv_wf c"
    by (simp add: demo_full_wf) (simp add: demo_ragged_def demo_full_def kv_wf_def demo_cache_def format_ok_def bufs_ok_def
        row_def is_q4_def zero_alloc_law)
  have fr: "same_frame [demo_full, demo_ragged]" by (simp add: same_frame_def demo_ragged_def demo_full_def)
  have m: "model_new [demo_full, demo_ragged] False = Ok demo_model" by (simp add: model_new_def demo_model_def demo_full_def)
  have floor: "max_list (map (resident_floor demo_model) [0..<2]) = 2"
    by (simp add: resident_floor_def demo_model_def max_list_def head_start_def demo_ragged_def demo_full_def demo_cache_def upt_rec)
  have rej: "fst (model_keep [1, 2] demo_model) = Err NotResident" and acc: "fst (model_keep [2] demo_model) = Ok ()"
    using floor by (simp_all add: model_keep_def demo_model_def validate_keep_def first_below_def model_set_compaction_def)
  from model_commit_is_per_layer[OF wf fr m acc, where nu = demo_numerics and os = demo_os and env = demo_env]
  obtain cs' where "model_commit (snd (model_keep [2] demo_model)) = Ok (True, cs')" "length cs' = 2" "kv_wf (cs' ! 1)" by auto
  with rej show ?thesis by blast
qed

text \<open>
  \<open>reencode\<close> does not look at the head starts. On a ragged cache (which is F32 or F16, the only formats
  that support it) a re-encode to \<open>q4_0\<close> is accepted and committed, and leaves a ragged cache in a format
  whose container cannot be ragged.
\<close>

theorem reencode_strands_ragged:
  assumes "kv_wf c" "numerics_ok nu" "is_ragged c" "supports_ragged c" "head_dim c mod QK4_0 = 0"
    and h0: "h0 = handle_new c False l n"
  shows "fst (reencode ''q4_0'' h0) = Ok () \<and> (\<exists>c'. commit nu os env (snd (reencode ''q4_0'' h0)) = Ok (True, c', None)
    \<and> kv_wf c' \<and> is_ragged c' \<and> \<not> supports_ragged c')"
proof -
  have d: "kv_dtype c \<in> {D_F32, D_F16}" "\<not> is_opaque c" using assms(4) by (auto simp: supports_ragged_def)
  have r: "reencode ''q4_0'' h0 = (Ok (), h0\<lparr>reencode_to := Some ''q4_0''\<rparr>)"
    using d assms(5) by (auto simp: reencode_def h0 handle_new_def current_format_name_def)
  have "is_typed_floor D_Q4_0" by (simp add: is_typed_floor_def)
  from reencode_typed_ok[OF assms(1) d(2) assms(2) this] assms(5) obtain c' where
    c': "reencode_typed nu D_Q4_0 c = Ok c'" "kv_wf c'"
    "c' = c\<lparr>k_buffer := k_buffer c', v_buffer := v_buffer c', kv_dtype := D_Q4_0, host_managed := True\<rparr>" by blast
  obtain k v where e: "c' = c\<lparr>k_buffer := k, v_buffer := v, kv_dtype := D_Q4_0, host_managed := True\<rparr>" using c'(3) by blast
  have "apply_format_plan nu \<lparr>plan_base = ''q4_0'', overrides = []\<rparr> c = Ok c'"
    using d c'(1) by (auto simp: apply_format_plan_def reencode_uniform_def typed_floor_dtype_def is_typed_floor_def current_format_name_def)
  then have "commit nu os env (snd (reencode ''q4_0'' h0)) = Ok (True, c', None)"
    unfolding r snd_conv by (simp add: commit_def commit_bytes_def h0 handle_new_def)
  moreover have "is_ragged c'" "\<not> supports_ragged c'" using assms(3) by (simp_all add: e is_ragged_def supports_ragged_def)
  ultimately show ?thesis using r c'(2) by simp
qed

definition demo_wide :: "nat kvcache" where
  "demo_wide = \<lparr>k_buffer = replicate 64 1, v_buffer = replicate 64 2,
     kv_dtype = D_F16, opaque = None, host_managed = True, current_pos = 2, high_water_pos = 2,
     max_seq_len = 2, capacity = 2, kv_heads = 1, head_dim = 32, layout = HeadMajor,
     head_starts_raw = [1], head_start_dirty = False, memory = None\<rparr>"

theorem reencode_strands_ragged_witness:
  "\<exists>c'. commit demo_numerics demo_os demo_env (snd (reencode ''q4_0'' (handle_new demo_wide False 0 1))) = Ok (True, c', None)
    \<and> is_ragged c' \<and> kv_dtype demo_wide = D_F16 \<and> supports_ragged demo_wide \<and> \<not> supports_ragged c'"
proof -
  have wf: "kv_wf demo_wide" by (simp add: demo_wide_def kv_wf_def format_ok_def bufs_ok_def row_def is_q4_def)
  have r: "is_ragged demo_wide" "supports_ragged demo_wide" "head_dim demo_wide mod QK4_0 = 0" "kv_dtype demo_wide = D_F16"
    by (simp_all add: demo_wide_def is_ragged_def supports_ragged_def is_opaque_def QK4_0_def)
  from reencode_strands_ragged[OF wf demo_numerics_ok r(1-3) refl] r show ?thesis by blast
qed

end
