(* ===== verification/Keep_Compiler.thy ===== *)
theory Keep_Compiler
  imports Prelude "HOL-Library.Multiset"
begin

text \<open>
  The keep-set compiler of \<^verbatim>\<open>crates/argus-extension-api/src/lib.rs\<close>: every score-based eviction technique
  reduces to the shape \<open>KeepTopK\<close> (a protected prefix, the best scorers of the middle, a recent window),
  which \<open>compile_keep_top_k\<close> turns into an ascending list of positions; \<open>keep_intersect\<close> and \<open>keep_union\<close>
  compose such lists.

  A score is an \<open>f32\<close>, kept as its bit pattern: \<open>partial_cmp\<close> is the IEEE comparison (NaN is unordered, the
  two zeros are equal). \<open>slice::sort_by\<close> is a stable sort; the standard library leaves its result open
  when the comparison is not a total order, so what is proved of it is proved for scores that are not NaN.
\<close>

section \<open>Scores\<close>

type_synonym f32 = "32 word"

datatype ordering = Less | Equal | Greater

definition f32_is_nan :: "f32 \<Rightarrow> bool" where
  "f32_is_nan x \<longleftrightarrow> uint x mod 2147483648 > 2139095040"

text \<open>The value order of the non-NaN bit patterns: sign and magnitude.\<close>

definition f32_rank :: "f32 \<Rightarrow> int" where
  "f32_rank x = (if uint x < 2147483648 then uint x else - (uint x - 2147483648))"

definition f32_partial_cmp :: "f32 \<Rightarrow> f32 \<Rightarrow> ordering option" where
  "f32_partial_cmp a b =
     (if f32_is_nan a \<or> f32_is_nan b then None
      else Some (if f32_rank a < f32_rank b then Less else if f32_rank a = f32_rank b then Equal else Greater))"

text \<open>\<open>|a, b| b.1.partial_cmp(&a.1).unwrap_or(Equal)\<close>.\<close>

definition score_desc :: "'a \<times> f32 \<Rightarrow> 'a \<times> f32 \<Rightarrow> ordering" where
  "score_desc a b = (case f32_partial_cmp (snd b) (snd a) of Some c \<Rightarrow> c | None \<Rightarrow> Equal)"

primrec insert_by :: "('a \<Rightarrow> 'a \<Rightarrow> ordering) \<Rightarrow> 'a \<Rightarrow> 'a list \<Rightarrow> 'a list" where
  "insert_by cmp x [] = [x]"
| "insert_by cmp x (y # ys) = (if cmp x y = Greater then y # insert_by cmp x ys else x # y # ys)"

definition sort_by :: "('a \<Rightarrow> 'a \<Rightarrow> ordering) \<Rightarrow> 'a list \<Rightarrow> 'a list" where
  "sort_by cmp xs = foldr (insert_by cmp) xs []"

section \<open>The compiler\<close>

record keep_top_k_spec =
  k_start :: nat
  k_current :: nat
  k_prefix :: nat
  k_recent :: nat
  k_heavy :: nat

definition heavy_of :: "nat \<Rightarrow> (nat \<Rightarrow> f32) \<Rightarrow> nat \<Rightarrow> nat \<Rightarrow> nat list" where
  "heavy_of n score lo hi = sort (map fst (take n (sort_by score_desc (map (\<lambda>pos. (pos, score pos)) [lo..<hi]))))"

definition compile_keep_top_k :: "keep_top_k_spec \<Rightarrow> (nat \<Rightarrow> f32) \<Rightarrow> nat list" where
  "compile_keep_top_k spec score =
     (let start = min (k_start spec) (k_current spec);
          prefix_end = min (start + k_prefix spec) (k_current spec);
          recent_start = max (k_current spec - k_recent spec) prefix_end in
      [start..<prefix_end] @ heavy_of (k_heavy spec) score prefix_end recent_start
        @ [recent_start..<k_current spec])"

text \<open>\<open>Vec::dedup\<close>: consecutive repetitions go.\<close>

fun dedup :: "'a list \<Rightarrow> 'a list" where
  "dedup (x # y # xs) = (if x = y then dedup (y # xs) else x # dedup (y # xs))"
| "dedup xs = xs"

definition keep_intersect :: "nat list list \<Rightarrow> nat list" where
  "keep_intersect sets = (case sets of [] \<Rightarrow> []
     | first # rest \<Rightarrow> filter (\<lambda>p. list_all (\<lambda>s. p \<in> set s) rest) (dedup (sort first)))"

definition keep_union :: "nat list list \<Rightarrow> nat list" where
  "keep_union sets = dedup (sort (concat sets))"

section \<open>Stable sorting\<close>

definition nan_free :: "(nat \<Rightarrow> f32) \<Rightarrow> bool" where
  "nan_free score \<longleftrightarrow> (\<forall>p. \<not> f32_is_nan (score p))"

lemma insert_by_insort:
  assumes "\<And>a b. a \<in> insert x (set ys) \<Longrightarrow> b \<in> set ys \<Longrightarrow> cmp a b = Greater \<longleftrightarrow> \<not> f a \<le> (f b :: 'k :: linorder)"
  shows "insert_by cmp x ys = insort_key f x ys"
  using assms by (induction ys) auto

lemma sort_by_sort_key:
  assumes "\<And>a b. a \<in> set xs \<Longrightarrow> b \<in> set xs \<Longrightarrow> cmp a b = Greater \<longleftrightarrow> \<not> f a \<le> (f b :: 'k :: linorder)"
  shows "sort_by cmp xs = sort_key f xs"
  using assms
proof (induction xs)
  case (Cons x xs)
  then have "sort_by cmp xs = sort_key f xs" by simp
  with insert_by_insort[of x "sort_key f xs" cmp f] Cons.prems show ?case by (simp add: sort_by_def)
qed (simp add: sort_by_def)

text \<open>Better scorers first, ties by position: the order in which the middle is ranked.\<close>

definition outranks :: "(nat \<Rightarrow> f32) \<Rightarrow> nat \<Rightarrow> nat \<Rightarrow> bool" where
  "outranks score p q \<longleftrightarrow> f32_rank (score q) < f32_rank (score p) \<or> f32_rank (score q) = f32_rank (score p) \<and> p < q"

lemma outranks_order:
  "\<not> outranks s p p" "outranks s p q \<Longrightarrow> outranks s q r \<Longrightarrow> outranks s p r" "p \<noteq> q \<Longrightarrow> outranks s p q \<or> outranks s q p"
  by (auto simp: outranks_def)

lemma insort_key_outranks:
  assumes "sorted_wrt (outranks s) ys" "\<forall>y \<in> set ys. x < y"
  shows "sorted_wrt (outranks s) (insort_key (\<lambda>p. - f32_rank (s p)) x ys)"
  using assms
proof (induction ys)
  case (Cons y ys)
  then show ?case
    using outranks_order(2)[of s x y] by (auto simp: set_insort_key outranks_def)
qed simp

lemma sort_key_outranks: "sorted_wrt (<) xs \<Longrightarrow> sorted_wrt (outranks s) (sort_key (\<lambda>p. - f32_rank (s p)) xs)"
  by (induction xs) (simp_all add: insort_key_outranks)

lemma sort_by_map:
  "sort_by cmp (map g xs) = map g (sort_by (\<lambda>a b. cmp (g a) (g b)) xs)"
proof -
  have i: "insert_by cmp (g x) (map g ys) = map g (insert_by (\<lambda>a b. cmp (g a) (g b)) x ys)" for x ys
    by (induction ys) auto
  show ?thesis unfolding sort_by_def by (induction xs) (simp_all add: i)
qed

lemma rank_middle:
  assumes "nan_free s"
  shows "map fst (sort_by score_desc (map (\<lambda>pos. (pos, s pos)) xs)) = sort_key (\<lambda>p. - f32_rank (s p)) xs"
proof -
  have "sort_by (\<lambda>a b. score_desc (a, s a) (b, s b)) xs = sort_key (\<lambda>p. - f32_rank (s p)) xs"
    using assms by (intro sort_by_sort_key) (auto simp: score_desc_def f32_partial_cmp_def nan_free_def)
  then show ?thesis by (simp add: sort_by_map comp_def)
qed

section \<open>The best of a list\<close>

lemma take_best:
  assumes "sorted_wrt R xs" "\<And>x. \<not> R x x" "\<And>x y. R x y \<Longrightarrow> \<not> R y x"
  shows "set (take n xs) = {x \<in> set xs. card {y \<in> set xs. R y x} < n}"
proof -
  have d: "distinct xs" using assms(1,2) by (metis sorted_wrt_iff_nth_less distinct_conv_nth linorder_neqE_nat)
  have below: "{y \<in> set xs. R y (xs ! i)} = set (take i xs)" if "i < length xs" for i
  proof (intro equalityI subsetI)
    fix y assume "y \<in> {y \<in> set xs. R y (xs ! i)}"
    then obtain j where j: "j < length xs" "y = xs ! j" "R (xs ! j) (xs ! i)" by (auto simp: in_set_conv_nth)
    then have "j < i" using assms sorted_wrt_nth_less[OF assms(1), of i j] by (metis linorder_neqE_nat)
    then show "y \<in> set (take i xs)" using j by (auto simp: in_set_conv_nth)
  next
    fix y assume "y \<in> set (take i xs)"
    then obtain j where "j < i" "y = xs ! j" by (auto simp: in_set_conv_nth)
    then show "y \<in> {y \<in> set xs. R y (xs ! i)}" using that sorted_wrt_nth_less[OF assms(1), of j i] by auto
  qed
  have c: "card {y \<in> set xs. R y (xs ! i)} = i" if "i < length xs" for i
    using below[OF that] d that by (simp add: distinct_card)
  show ?thesis
  proof (intro equalityI subsetI)
    fix x assume "x \<in> set (take n xs)"
    then obtain i where "i < length xs" "i < n" "x = xs ! i" by (auto simp: in_set_conv_nth)
    then show "x \<in> {x \<in> set xs. card {y \<in> set xs. R y x} < n}" using c[of i] by simp
  next
    fix x assume "x \<in> {x \<in> set xs. card {y \<in> set xs. R y x} < n}"
    then obtain i where i: "i < length xs" "x = xs ! i" "card {y \<in> set xs. R y x} < n" by (auto simp: in_set_conv_nth)
    then have "i < n" using c[of i] by simp
    with i(1) show "x \<in> set (take n xs)" unfolding i(2) by (auto simp: in_set_conv_nth)
  qed
qed

section \<open>What the compiler keeps\<close>

text \<open>The reference: of the positions between two bounds, the best \<open>n\<close> scorers.\<close>

definition best_scorers :: "nat \<Rightarrow> (nat \<Rightarrow> f32) \<Rightarrow> nat \<Rightarrow> nat \<Rightarrow> nat set" where
  "best_scorers n score lo hi = {p \<in> {lo..<hi}. card {q \<in> {lo..<hi}. outranks score q p} < n}"

lemma heavy_of_sort:
  assumes "nan_free s"
  shows "heavy_of n s lo hi = sort (take n (sort_key (\<lambda>p. - f32_rank (s p)) [lo..<hi]))"
  unfolding heavy_of_def take_map[symmetric] rank_middle[OF assms] ..

lemma set_heavy_of:
  assumes "nan_free s"
  shows "set (heavy_of n s lo hi) = best_scorers n s lo hi"
proof -
  let ?xs = "sort_key (\<lambda>p. - f32_rank (s p)) [lo..<hi]"
  have "set (heavy_of n s lo hi) = set (take n ?xs)" unfolding heavy_of_sort[OF assms] set_sort ..
  also have "\<dots> = best_scorers n s lo hi"
    using take_best[OF sort_key_outranks[where s = s and xs = "[lo..<hi]", OF sorted_wrt_upt], of n] outranks_order(1)[of s] outranks_order(2)[of s]
    unfolding best_scorers_def set_sort set_upt by blast
  finally show ?thesis .
qed

lemma heavy_of_middle:
  assumes "nan_free s"
  shows "keep_in lo hi (heavy_of n s lo hi)" "length (heavy_of n s lo hi) = min n (hi - lo)"
proof -
  let ?xs = "sort_key (\<lambda>p. - f32_rank (s p)) [lo..<hi]"
  note e = heavy_of_sort[OF assms]
  have "distinct (sort (take n ?xs))" unfolding distinct_sort by (rule distinct_take) (simp only: distinct_sort distinct_upt)
  then have "sorted_wrt (<) (heavy_of n s lo hi)" unfolding e using sorted_sort strict_sorted_iff by blast
  moreover have "set (heavy_of n s lo hi) \<subseteq> {lo..<hi}" unfolding set_heavy_of[OF assms] best_scorers_def by blast
  ultimately show "keep_in lo hi (heavy_of n s lo hi)" by (auto simp: keep_in_def)
  show "length (heavy_of n s lo hi) = min n (hi - lo)"
    unfolding e by (simp only: length_sort length_take length_upt min.commute)
qed

lemma keep_in_append: "keep_in a b xs \<Longrightarrow> keep_in b c ys \<Longrightarrow> a \<le> b \<Longrightarrow> b \<le> c \<Longrightarrow> keep_in a c (xs @ ys)"
  by (fastforce simp: keep_in_def sorted_wrt_append)

lemma keep_in_upt [simp]: "keep_in a b [a..<b]"
  by (simp add: keep_in_def)

lemma keep_in_mono: "keep_in a b xs \<Longrightarrow> a' \<le> a \<Longrightarrow> b \<le> b' \<Longrightarrow> keep_in a' b' xs"
  by (fastforce simp: keep_in_def)

lemma compile_keep_in:
  assumes "nan_free s"
  shows "keep_in (min (k_start spec) (k_current spec)) (k_current spec) (compile_keep_top_k spec s)"
  unfolding compile_keep_top_k_def Let_def
  by (intro keep_in_append[OF keep_in_upt keep_in_append[OF heavy_of_middle(1)[OF assms] keep_in_upt]]) auto

lemma compile_length:
  assumes "nan_free s"
  shows "length (compile_keep_top_k spec s) =
    min (k_current spec - k_start spec) (k_prefix spec + k_recent spec + k_heavy spec)"
proof -
  have three: "(pe - a) + (min h (rs - pe) + (c - rs)) = min (c - a) (p + r + h)"
    if "a \<le> c" "pe = min (a + p) c" "rs = max (c - r) pe" for a c p r h pe rs :: nat
  proof (cases "c \<le> a + p")
    case False
    then obtain e where e: "c = a + p + e" using less_imp_add_positive[of "a + p" c] by auto
    show ?thesis
    proof (cases "e \<le> r")
      case False
      then obtain f where "e = r + f" using less_imp_add_positive[of r e] by auto
      with that e show ?thesis by (simp add: min_def)
    qed (use that e in simp)
  qed (use that in simp)
  have "k_current spec - min (k_start spec) (k_current spec) = k_current spec - k_start spec" by linarith
  then show ?thesis
    unfolding compile_keep_top_k_def Let_def length_append length_upt heavy_of_middle(2)[OF assms]
      three[OF min.cobounded2 refl refl] by (rule arg_cong)
qed

lemma compile_set:
  assumes "nan_free score" "start \<le> current"
  shows "set (compile_keep_top_k \<lparr>k_start = start, k_current = current, k_prefix = p, k_recent = r, k_heavy = h\<rparr> score)
    = (let pe = min (start + p) current; rs = max (current - r) pe in {start..<pe} \<union> best_scorers h score pe rs \<union> {rs..<current})"
  using assms(2) by (auto simp: compile_keep_top_k_def Let_def set_heavy_of[OF assms(1)] min_def)

text \<open>
  C27: The keep-set compiler does what its shape promises. For scores that are not NaN the compiled list is
  strictly ascending and inside the head's resident range, so the handle's validation accepts it; its length
  is the sum of the three budgets, cut off at the range; and it consists of the protected prefix, the recent
  window and exactly the best scorers of the positions in between, ties broken by the lower position. No
  budget makes the parts overlap.
\<close>

theorem compile_keeps_top_k:
  assumes "nan_free score" "start \<le> current" "pe = min (start + prefix_len) current" "rs = max (current - recent) pe"
    and "ks = compile_keep_top_k \<lparr>k_start = start, k_current = current, k_prefix = prefix_len, k_recent = recent, k_heavy = heavy\<rparr> score"
  shows "keep_in start current ks
    \<and> length ks = min (current - start) (prefix_len + recent + heavy)
    \<and> set ks = {start..<pe} \<union> best_scorers heavy score pe rs \<union> {rs..<current}"
proof -
  let ?spec = "\<lparr>k_start = start, k_current = current, k_prefix = prefix_len, k_recent = recent, k_heavy = heavy\<rparr>"
  have "set ks = {start..<pe} \<union> best_scorers heavy score pe rs \<union> {rs..<current}"
    using compile_set[OF assms(1,2)] assms(3-) by (simp add: Let_def)
  then show ?thesis
    using compile_keep_in[OF assms(1), of ?spec] compile_length[OF assms(1), of ?spec] assms(2,5) by (simp add: min_absorb1)
qed

text \<open>Scores 1.0, 3.0, 2.0, 3.0, -1.0 and 0.5 from position 1 on: one of the two threes survives, the lower one.\<close>

definition demo_score :: "nat \<Rightarrow> f32" where
  "demo_score p = [0x3f800000, 0x3f800000, 0x40400000, 0x40000000, 0x40400000, 0xbf800000, 0x3f000000] ! (p mod 7)"

lemma demo_nan_free: "nan_free demo_score"
proof -
  have "\<not> f32_is_nan (demo_score p)" for p
  proof -
    have "p mod 7 < 7" by simp
    then consider "p mod 7 = 0" | "p mod 7 = 1" | "p mod 7 = 2" | "p mod 7 = 3" | "p mod 7 = 4" | "p mod 7 = 5" | "p mod 7 = 6"
      by linarith
    then show ?thesis by cases (simp_all add: demo_score_def f32_is_nan_def)
  qed
  then show ?thesis by (simp add: nan_free_def)
qed

theorem compile_keeps_top_k_witness:
  "keep_in 0 7 (compile_keep_top_k \<lparr>k_start = 0, k_current = 7, k_prefix = 1, k_recent = 1, k_heavy = 1\<rparr> demo_score)
    \<and> compile_keep_top_k \<lparr>k_start = 0, k_current = 7, k_prefix = 1, k_recent = 1, k_heavy = 1\<rparr> demo_score = [0, 2, 6]"
proof -
  let ?ks = "compile_keep_top_k \<lparr>k_start = 0, k_current = 7, k_prefix = 1, k_recent = 1, k_heavy = 1\<rparr> demo_score"
  from compile_keeps_top_k[OF demo_nan_free le0 refl refl refl, of 7 1 1 1] have "keep_in 0 7 ?ks" by simp
  moreover have "?ks = [0, 2, 6]"
    by code_simp
  ultimately show ?thesis by simp
qed

section \<open>Composition\<close>

lemma dedup_sorted:
  fixes xs :: "nat list"
  shows "sorted xs \<Longrightarrow> sorted_wrt (<) (dedup xs) \<and> set (dedup xs) = set xs"
proof (induction xs rule: dedup.induct)
  case (1 x y xs)
  then show ?case by (cases "x = y") (auto simp: le_less)
qed simp_all

lemma dedup_sort: "sorted_wrt (<) (dedup (sort xs))" "set (dedup (sort xs)) = set xs" for xs :: "nat list"
  using dedup_sorted[of "sort xs"] by simp_all

lemma keep_sets_in:
  assumes "\<forall>s \<in> set sets. \<forall>p \<in> set s. p < n"
  shows "keep_in 0 n (keep_intersect sets)" "keep_in 0 n (keep_union sets)"
proof -
  show "keep_in 0 n (keep_union sets)"
    using assms dedup_sort[of "concat sets"] by (auto simp: keep_union_def keep_in_def)
  show "keep_in 0 n (keep_intersect sets)"
    using assms dedup_sort by (cases sets) (auto simp: keep_intersect_def keep_in_def intro: sorted_wrt_filter)
qed

text \<open>
  Composing keep-sets. The intersection and the union of keep lists, in whatever order and with whatever
  repetitions the lists come, are the ascending lists of the positions that all of them, or one of them, keep:
  of lists inside the cache they are valid keep lists again.
\<close>

theorem keep_sets_compose:
  assumes "\<forall>s \<in> set sets. \<forall>p \<in> set s. p < n"
  shows "keep_in 0 n (keep_intersect sets) \<and> keep_in 0 n (keep_union sets)
    \<and> set (keep_union sets) = (\<Union>s \<in> set sets. set s)
    \<and> set (keep_intersect sets) = (if sets = [] then {} else \<Inter>s \<in> set sets. set s)"
proof -
  have "set (keep_union sets) = (\<Union>s \<in> set sets. set s)" using dedup_sort[of "concat sets"] by (auto simp: keep_union_def)
  moreover have "set (keep_intersect sets) = (if sets = [] then {} else \<Inter>s \<in> set sets. set s)"
    using dedup_sort by (cases sets) (auto simp: keep_intersect_def list_all_iff)
  ultimately show ?thesis using keep_sets_in[OF assms] by blast
qed

theorem keep_sets_compose_witness:
  "keep_intersect [[4, 1, 1, 2], [2, 4 :: nat]] = [2, 4] \<and> keep_union [[4, 1, 1, 2], [2, 3]] = [1, 2, 3, 4]
    \<and> keep_in 0 5 (keep_union [[4, 1, 1, 2], [2, 3]])"
  using keep_sets_compose[of "[[4, 1, 1, 2], [2, 3]]" 5] by (simp add: keep_intersect_def keep_union_def)

end
