(* ===== verification/Stage_Driver.thy ===== *)
theory Stage_Driver
  imports Handle_Props Keep_Compiler
begin

text \<open>
  The seam between a technique and the engine. \<^verbatim>\<open>crates/argus-extension-api/src/lib.rs\<close> gives a technique a read
  view (\<open>StageCtx\<close>) and a transactional handle (\<open>CacheHandle\<close>) with verbs built on \<open>keep\<close>;
  \<^verbatim>\<open>engine/src/stages/kv/mutation.rs\<close> builds both from a cache, runs the technique's callback and either
  commits what it staged (\<open>drive_mutation_layer\<close>) or reads it out and drops it (\<open>plan_mutation_layer\<close>).

  The handle a technique gets is a trait object; the verbs take its \<open>keep\<close> as an argument, so that they apply
  to the per-layer and to the whole-model handle. The dequantised K and V snapshots are floating point and a
  parameter. The panic barrier around the callback (\<open>catch_unwind\<close>) does nothing in the release profile,
  which aborts on panic, so a panic stays a panic.
\<close>

section \<open>The read view\<close>

datatype tensor_kind = Key | Value | AttnWeights | Scores | QueryStats | PrefillAttention | Query

record stage_caps =
  caps_reads :: "tensor_kind list"
  caps_reads_signals :: "string list"
  caps_default_protected_prefix :: nat
  caps_produces_merge_plan :: bool
  caps_whole_model :: bool
  caps_prefill_attn_window :: "nat option"

definition SCORE_FREE :: stage_caps where
  "SCORE_FREE = \<lparr>caps_reads = [], caps_reads_signals = [], caps_default_protected_prefix = 0,
     caps_produces_merge_plan = False, caps_whole_model = False, caps_prefill_attn_window = None\<rparr>"

record scalar_snap =
  sc_data :: "f32 list"
  sc_max_seq :: nat

record kv_snap =
  kv_data :: "f32 list"
  kv_rows :: nat
  kv_hd :: nat

record pfa_snap =
  pfa_data :: "f32 list"
  pfa_rows :: nat
  pfa_cols :: nat

record stage_ctx =
  s_current_pos :: nat
  s_head_starts :: "nat list"
  s_target_len :: nat
  s_layer_idx :: nat
  s_n_layers :: nat
  s_n_kv_heads :: nat
  s_head_dim :: nat
  s_on_device :: bool
  s_protected_prefix :: nat
  s_importance :: "f32 list option"
  s_scores :: "scalar_snap option"
  s_attn :: "scalar_snap option"
  s_key :: "kv_snap option"
  s_value :: "kv_snap option"
  s_pfa :: "pfa_snap option"

text \<open>\<open>slice.get(i).copied().unwrap_or(d)\<close>.\<close>

definition get_or :: "'a \<Rightarrow> 'a list \<Rightarrow> nat \<Rightarrow> 'a" where
  "get_or d xs i = (if i < length xs then xs ! i else d)"

definition ctx_head_start :: "stage_ctx \<Rightarrow> nat \<Rightarrow> nat" where
  "ctx_head_start ctx kv_head = min (get_or 0 (s_head_starts ctx) kv_head) (s_current_pos ctx)"

definition scalar_read :: "scalar_snap \<Rightarrow> nat \<Rightarrow> nat \<Rightarrow> f32" where
  "scalar_read sn pos kv_head = get_or 0 (sc_data sn) (kv_head * sc_max_seq sn + pos)"

definition head_score :: "stage_ctx \<Rightarrow> nat \<Rightarrow> nat \<Rightarrow> f32" where
  "head_score ctx kv_head pos = (case s_scores ctx of Some sn \<Rightarrow> scalar_read sn pos kv_head | None \<Rightarrow> 0)"

definition has_head_scores :: "stage_ctx \<Rightarrow> bool" where
  "has_head_scores ctx \<longleftrightarrow> s_scores ctx \<noteq> None"

definition attn_weight :: "stage_ctx \<Rightarrow> nat \<Rightarrow> nat \<Rightarrow> f32" where
  "attn_weight ctx kv_head pos = (case s_attn ctx of Some sn \<Rightarrow> scalar_read sn pos kv_head | None \<Rightarrow> 0)"

definition has_attn_weights :: "stage_ctx \<Rightarrow> bool" where
  "has_attn_weights ctx \<longleftrightarrow> s_attn ctx \<noteq> None"

text \<open>A row of the prefill attention, zero-filled when the data is short.\<close>

definition pfa_read :: "pfa_snap \<Rightarrow> nat \<Rightarrow> f32 list" where
  "pfa_read sn qh =
     (let base = qh * pfa_cols sn in
      if base + pfa_cols sn \<le> length (pfa_data sn) then field (pfa_data sn) base (pfa_cols sn)
      else replicate (pfa_cols sn) 0)"

definition from_cache :: "'u kvcache \<Rightarrow> bool \<Rightarrow> nat \<Rightarrow> nat \<Rightarrow> nat \<Rightarrow> stage_ctx" where
  "from_cache c on_device target_len layer n_layers =
     \<lparr>s_current_pos = current_pos c, s_head_starts = head_starts c, s_target_len = target_len, s_layer_idx = layer,
      s_n_layers = n_layers, s_n_kv_heads = kv_heads c, s_head_dim = head_dim c, s_on_device = on_device,
      s_protected_prefix = 0, s_importance = None, s_scores = None, s_attn = None, s_key = None, s_value = None,
      s_pfa = None\<rparr>"

definition for_prefill_attn ::
    "'u kvcache \<Rightarrow> bool \<Rightarrow> nat \<Rightarrow> nat \<Rightarrow> nat \<Rightarrow> f32 list \<Rightarrow> nat \<Rightarrow> nat \<Rightarrow> nat \<Rightarrow> stage_ctx" where
  "for_prefill_attn c on_device target_len layer n_layers pfa n_heads_q protected prefix_len =
     (from_cache c on_device target_len layer n_layers)\<lparr>s_pfa := Some \<lparr>pfa_data = pfa, pfa_rows = n_heads_q, pfa_cols = prefix_len\<rparr>,
        s_protected_prefix := protected, s_current_pos := prefix_len\<rparr>"

section \<open>The verbs of a handle\<close>

definition evict :: "('h \<Rightarrow> nat) \<Rightarrow> (nat list \<Rightarrow> 'h op) \<Rightarrow> nat list \<Rightarrow> 'h op" where
  "evict pos kp dropped h = kp (filter (\<lambda>p. p \<notin> set dropped) [0..<pos h]) h"

definition keep_top_k :: "(nat list \<Rightarrow> 'h op) \<Rightarrow> keep_top_k_spec \<Rightarrow> (nat \<Rightarrow> f32) \<Rightarrow> 'h op" where
  "keep_top_k kp spec score = kp (compile_keep_top_k spec score)"

definition keep_intersect_of :: "(nat list \<Rightarrow> 'h op) \<Rightarrow> nat list list \<Rightarrow> 'h op" where
  "keep_intersect_of kp sets = kp (keep_intersect sets)"

definition keep_union_of :: "(nat list \<Rightarrow> 'h op) \<Rightarrow> nat list list \<Rightarrow> 'h op" where
  "keep_union_of kp sets = kp (keep_union sets)"

section \<open>Driving one layer\<close>

type_synonym 'h stage = "stage_ctx \<Rightarrow> 'h op"

datatype drive_error = StageFailed cache_op_error | CommitFailed commit_error

definition layer_ctx ::
    "('u kvcache \<Rightarrow> tensor_kind \<Rightarrow> f32 list) \<Rightarrow> bool \<Rightarrow> stage_caps \<Rightarrow> nat \<Rightarrow> nat \<Rightarrow> nat
       \<Rightarrow> f32 list option \<Rightarrow> f32 list option \<Rightarrow> f32 list option \<Rightarrow> 'u kvcache \<Rightarrow> stage_ctx" where
  "layer_ctx snap on_device caps layer n_layers target_len importance head_scores last_attn c =
     (let kv = (\<lambda>kind. if \<not> on_device \<and> kind \<in> set (caps_reads caps)
                  then Some \<lparr>kv_data = snap c kind, kv_rows = current_pos c, kv_hd = head_dim c\<rparr> else None);
          sc = map_option (\<lambda>data. \<lparr>sc_data = data, sc_max_seq = max_seq_len c\<rparr>) in
      (from_cache c on_device target_len layer n_layers)\<lparr>s_importance := importance, s_scores := sc head_scores,
         s_attn := sc last_attn, s_key := kv Key, s_value := kv Value\<rparr>)"

definition run_stage ::
    "('u, 'w) cache_handle stage \<Rightarrow> (('u, 'w) cache_handle \<Rightarrow> (drive_error, 'a) result)
       \<Rightarrow> stage_ctx \<Rightarrow> ('u, 'w) cache_handle \<Rightarrow> (drive_error, 'a) result" where
  "run_stage stage finish ctx h = (case stage ctx h of (r, h') \<Rightarrow> and_then (map_err StageFailed r) (\<lambda>_. finish h'))"

definition run_mutation_layer ::
    "('u kvcache \<Rightarrow> tensor_kind \<Rightarrow> f32 list) \<Rightarrow> bool \<Rightarrow> ('u, 'w) cache_handle stage \<Rightarrow> stage_caps \<Rightarrow> nat \<Rightarrow> nat \<Rightarrow> nat
       \<Rightarrow> f32 list option \<Rightarrow> f32 list option \<Rightarrow> f32 list option
       \<Rightarrow> (('u, 'w) cache_handle \<Rightarrow> (drive_error, 'a) result) \<Rightarrow> 'u kvcache \<Rightarrow> (drive_error, 'a option) result" where
  "run_mutation_layer snap on_device stage caps layer n_layers target_len importance head_scores last_attn finish c =
     (if current_pos c = 0 then Ok None
      else and_then (run_stage stage finish
          (layer_ctx snap on_device caps layer n_layers target_len importance head_scores last_attn c)
          (handle_new c on_device layer n_layers)) (\<lambda>x. Ok (Some x)))"

text \<open>The outcome of a drive: whether bytes were mutated, and the cache afterwards.\<close>

definition drive_mutation_layer ::
    "('u, 'w) numerics \<Rightarrow> 'u kv_os \<Rightarrow> fs_env
       \<Rightarrow> ('u kvcache \<Rightarrow> tensor_kind \<Rightarrow> f32 list) \<Rightarrow> bool \<Rightarrow> ('u, 'w) cache_handle stage \<Rightarrow> stage_caps \<Rightarrow> nat \<Rightarrow> nat \<Rightarrow> nat
       \<Rightarrow> f32 list option \<Rightarrow> f32 list option \<Rightarrow> f32 list option \<Rightarrow> 'u kvcache \<Rightarrow> (drive_error, bool \<times> 'u kvcache) result" where
  "drive_mutation_layer nu os env snap on_device stage caps layer n_layers target_len importance head_scores last_attn c =
     and_then (run_mutation_layer snap on_device stage caps layer n_layers target_len importance head_scores last_attn
         (\<lambda>h. map_err CommitFailed (commit nu os env h)) c) (\<lambda>r.
     Ok (case r of Some (m, c', _) \<Rightarrow> (m, c') | None \<Rightarrow> (False, c)))"

definition plan_mutation_layer ::
    "('u kvcache \<Rightarrow> tensor_kind \<Rightarrow> f32 list) \<Rightarrow> bool \<Rightarrow> ('u, 'w) cache_handle stage \<Rightarrow> stage_caps \<Rightarrow> nat \<Rightarrow> nat \<Rightarrow> nat
       \<Rightarrow> f32 list option \<Rightarrow> f32 list option \<Rightarrow> f32 list option \<Rightarrow> 'u kvcache \<Rightarrow> (drive_error, staged_keep option) result" where
  "plan_mutation_layer snap on_device stage caps layer n_layers target_len importance head_scores last_attn c =
     and_then (run_mutation_layer snap on_device stage caps layer n_layers target_len importance head_scores last_attn
         (\<lambda>h. Ok (read_staged_keep h)) c) (\<lambda>r. Ok (Option.bind r id))"

definition plan_prefill_keepset_layer ::
    "bool \<Rightarrow> ('u, 'w) cache_handle stage \<Rightarrow> nat \<Rightarrow> nat \<Rightarrow> nat \<Rightarrow> f32 list \<Rightarrow> nat \<Rightarrow> nat \<Rightarrow> nat \<Rightarrow> 'u kvcache
       \<Rightarrow> (drive_error, staged_keep option) result" where
  "plan_prefill_keepset_layer on_device stage layer n_layers target_len pfa n_heads_q protected prefix_len c =
     (if prefix_len = 0 \<or> current_pos c = 0 then Ok None
      else run_stage stage (\<lambda>h. Ok (read_staged_keep h))
        (for_prefill_attn c on_device target_len layer n_layers pfa n_heads_q protected prefix_len)
        (handle_new c on_device layer n_layers))"

definition planned_head :: "staged_keep \<Rightarrow> nat \<Rightarrow> nat list option" where
  "planned_head p kv_head = (case p of StagedLayerWide k \<Rightarrow> Some k
     | StagedPerHead hs \<Rightarrow> if kv_head < length hs then Some (hs ! kv_head) else None)"

section \<open>Stages that only drop\<close>

text \<open>A callback of a drop-only technique stages nothing, one layer-wide keep, or one per-head keep.\<close>

definition keep_stage :: "('u, 'w) cache_handle stage \<Rightarrow> bool" where
  "keep_stage stage \<longleftrightarrow> (\<forall>ctx h. stage ctx h = (Ok (), h) \<or> (\<exists>ks. stage ctx h = keep ks h) \<or> (\<exists>kss. stage ctx h = keep_per_head kss h))"

text \<open>Head \<open>h\<close> of the cache holds what the plan says, and nothing else.\<close>

definition executes :: "staged_keep \<Rightarrow> 'u kvcache \<Rightarrow> 'u kvcache \<Rightarrow> bool" where
  "executes p c c' \<longleftrightarrow> kv_wf c' \<and> kv_heads c' = kv_heads c
     \<and> current_pos c' = (case p of StagedLayerWide ks \<Rightarrow> length ks | StagedPerHead kss \<Rightarrow> max_list (map length kss))
     \<and> (\<forall>kss. p = StagedPerHead kss \<longrightarrow> length kss = kv_heads c)
     \<and> (\<forall>h < kv_heads c. \<exists>ks. planned_head p h = Some ks \<and> keep_in (head_start c h) (current_pos c) ks
          \<and> contents c' h = map (cell c h) ks)"

lemma keep_executes:
  assumes wf: "kv_wf c" and h0: "h0 = handle_new c dev l n"
  shows "fst (keep ks h0) \<noteq> Panic"
    and "fst (keep ks h0) = Ok () \<Longrightarrow> read_staged_keep (snd (keep ks h0)) = Some (StagedLayerWide ks)"
    and "fst (keep ks h0) = Ok () \<Longrightarrow>
      \<exists>c'. commit nu os env (snd (keep ks h0)) = Ok (True, c', None) \<and> executes (StagedLayerWide ks) c c'"
proof -
  show "fst (keep ks h0) \<noteq> Panic"
    using validate_keep_cases[of "entry_pos h0" ks] by (auto simp: keep_def set_compaction_def split: if_splits)
  assume a: "fst (keep ks h0) = Ok ()"
  then show "read_staged_keep (snd (keep ks h0)) = Some (StagedLayerWide ks)"
    using validate_keep_cases[of "entry_pos h0" ks]
    by (auto simp: keep_def set_compaction_def read_staged_keep_def split: if_splits)
  from a keep_new(1)[OF h0] have k: "keep_in 0 (current_pos c) ks" "\<forall>h < kv_heads c. keep_in (head_start c h) (current_pos c) ks"
    by simp_all
  from commit_keep_ok[OF wf k(1)] keep_new(2)[OF h0 a] k(2)
  show "\<exists>c'. commit nu os env (snd (keep ks h0)) = Ok (True, c', None) \<and> executes (StagedLayerWide ks) c c'"
    by (auto simp: executes_def planned_head_def)
qed

lemma keep_per_head_executes:
  assumes wf: "kv_wf c" and h0: "h0 = handle_new c dev l n"
  shows "fst (keep_per_head kss h0) \<noteq> Panic"
    and "fst (keep_per_head kss h0) = Ok () \<Longrightarrow> read_staged_keep (snd (keep_per_head kss h0)) = Some (StagedPerHead kss)"
    and "fst (keep_per_head kss h0) = Ok () \<Longrightarrow>
      \<exists>c'. commit nu os env (snd (keep_per_head kss h0)) = Ok (True, c', None) \<and> executes (StagedPerHead kss) c c'"
proof -
  show "fst (keep_per_head kss h0) \<noteq> Panic" by (rule keep_per_head_new(2)[OF h0])
  assume a: "fst (keep_per_head kss h0) = Ok ()"
  then show "read_staged_keep (snd (keep_per_head kss h0)) = Some (StagedPerHead kss)"
    by (auto simp: keep_per_head_def set_compaction_def read_staged_keep_def split: if_splits result.splits)
  from a keep_per_head_new(1)[OF h0] have v: "per_head_valid c kss" by simp
  then have l: "layout c = HeadMajor" "length kss = kv_heads c" "\<forall>h < kv_heads c. keep_in (head_start c h) (current_pos c) (kss ! h)"
    by (simp_all add: per_head_valid_def)
  from commit_per_head_keep_at_ok[OF wf l(1,2) per_head_valid_in[OF v], where cursor = None and n = "max_list (map length kss)"]
    keep_per_head_new(3)[OF h0 a] l
  show "\<exists>c'. commit nu os env (snd (keep_per_head kss h0)) = Ok (True, c', None) \<and> executes (StagedPerHead kss) c c'"
    by (auto simp: commit_per_head_keep_def executes_def planned_head_def)
qed

lemma stage_outcome:
  assumes wf: "kv_wf c" and st: "keep_stage stage" and h0: "h0 = handle_new c dev l n"
  shows "(stage ctx h0 = (Ok (), h0) \<and> read_staged_keep h0 = None \<and> commit nu os env h0 = Ok (False, c, None))
    \<or> (\<exists>e h. stage ctx h0 = (Err e, h))
    \<or> (\<exists>p h c'. stage ctx h0 = (Ok (), h) \<and> read_staged_keep h = Some p \<and> commit nu os env h = Ok (True, c', None) \<and> executes p c c')"
proof -
  consider (none) "stage ctx h0 = (Ok (), h0)" | (keep) ks where "stage ctx h0 = keep ks h0"
    | (heads) kss where "stage ctx h0 = keep_per_head kss h0" using st unfolding keep_stage_def by blast
  then show ?thesis
  proof cases
    case none
    then show ?thesis by (simp add: h0 handle_new_def read_staged_keep_def commit_def commit_bytes_def)
  next
    case keep
    with keep_executes(1,2)[OF wf h0, of ks] keep_executes(3)[OF wf h0, of ks nu os env] show ?thesis by (cases "keep ks h0"; cases "fst (keep ks h0)") auto
  next
    case heads
    with keep_per_head_executes(1,2)[OF wf h0, of kss] keep_per_head_executes(3)[OF wf h0, of kss nu os env] show ?thesis
      by (cases "keep_per_head kss h0"; cases "fst (keep_per_head kss h0)") auto
  qed
qed

text \<open>
  A plan is what a drive does. For every drop-only technique, on every well-formed cache, whatever scores it
  is given: asking what it would keep and letting it act agree. If the plan is a keep, the drive succeeds,
  every head then holds exactly the rows the plan names for it, in order, and the positions named were
  resident; if there is no plan, the drive leaves the cache as it was; and a refusal of one is the refusal of
  the other. Neither panics.
\<close>

theorem plan_predicts_drive:
  assumes "kv_wf c" "keep_stage stage"
  shows "(plan_mutation_layer snap dev stage caps l n t imp hs at c = Ok None
        \<and> drive_mutation_layer nu os env snap dev stage caps l n t imp hs at c = Ok (False, c))
    \<or> (\<exists>p c'. plan_mutation_layer snap dev stage caps l n t imp hs at c = Ok (Some p)
        \<and> drive_mutation_layer nu os env snap dev stage caps l n t imp hs at c = Ok (True, c') \<and> executes p c c')
    \<or> (\<exists>e. plan_mutation_layer snap dev stage caps l n t imp hs at c = Err (StageFailed e)
        \<and> drive_mutation_layer nu os env snap dev stage caps l n t imp hs at c = Err (StageFailed e))"
proof -
  let ?ctx = "layer_ctx snap dev caps l n t imp hs at c"
  from stage_outcome[OF assms refl, where ctx = ?ctx and nu = nu and os = os and env = env and dev = dev and l = l and n = n]
  show ?thesis
    by (cases "current_pos c = 0")
      (auto simp: plan_mutation_layer_def drive_mutation_layer_def run_mutation_layer_def run_stage_def)
qed

text \<open>A callback that evicts position one of three.\<close>

theorem plan_predicts_drive_witness:
  "\<exists>p c'. plan_mutation_layer (\<lambda>c k. []) False (\<lambda>ctx. evict entry_pos keep [1] :: (nat, nat) cache_handle op) SCORE_FREE 0 1 0 None None None demo_full = Ok (Some p)
    \<and> drive_mutation_layer demo_numerics demo_os demo_env (\<lambda>c k. []) False (\<lambda>ctx. evict entry_pos keep [1]) SCORE_FREE 0 1 0
        None None None demo_full = Ok (True, c')
    \<and> p = StagedLayerWide [0, 2] \<and> executes p demo_full c'"
proof -
  let ?st = "\<lambda>ctx. evict entry_pos keep [1] :: (nat, nat) cache_handle op"
  have st: "keep_stage ?st" by (auto simp: keep_stage_def evict_def)
  have p: "plan_mutation_layer (\<lambda>c k. []) False ?st SCORE_FREE 0 1 0 None None None demo_full = Ok (Some (StagedLayerWide [0, 2]))"
    by (simp add: plan_mutation_layer_def run_mutation_layer_def run_stage_def evict_def keep_def handle_new_def validate_keep_def
        demo_full_def demo_cache_def is_ragged_def set_compaction_def read_staged_keep_def upt_rec)
  from plan_predicts_drive[OF demo_full_wf st, where snap = "\<lambda>c k. []" and dev = False and caps = "SCORE_FREE" and l = 0 and n = 1
      and t = 0 and imp = None and hs = None and at = None and nu = demo_numerics and os = demo_os and env = demo_env]
  show ?thesis using p by auto
qed

end
