(* ===== verification/Techniques.thy ===== *)
theory Techniques
  imports Stage_Driver
begin

text \<open>
  The eviction techniques of \<^verbatim>\<open>crates/techniques\<close>: for each of them its parameters, the keep-set it computes
  from the read view, and its callback on a handle (\<open>kp\<close> is the handle's \<open>keep\<close>, \<open>kph\<close> its \<open>keep_per_head\<close>).
  Budgets that the code derives in \<open>f64\<close> (\<open>snapkv_budget\<close>, \<open>get_layer_budget\<close>, \<open>adakv_head_caps\<close>) are functions of
  the parameters; the \<open>f32\<close> arithmetic of the score pipelines is a record of operations. The logging and
  registration of the stages are not modelled.
\<close>

section \<open>No eviction, sliding window, StreamingLLM\<close>

definition no_eviction_on_phase :: "'h stage" where
  "no_eviction_on_phase ctx h = (Ok (), h)"

record sliding_window =
  sw_window_size :: nat
  sw_protected_prefix :: nat

definition SlidingWindow_new :: "nat \<Rightarrow> nat \<Rightarrow> sliding_window" where
  "SlidingWindow_new window protected = \<lparr>sw_window_size = window, sw_protected_prefix = max protected 4\<rparr>"

definition no_score :: "nat \<Rightarrow> f32" where
  "no_score p = 0"

definition sliding_keep_list :: "sliding_window \<Rightarrow> nat \<Rightarrow> nat \<Rightarrow> nat list" where
  "sliding_keep_list w current target =
     (let max_keep = sw_window_size w + sw_protected_prefix w;
          min_keep = min (sw_protected_prefix w + 16) max_keep;
          kept = max min_keep (min target max_keep) in
      if current \<le> kept then [0..<current]
      else
        let removable_count = current - sw_protected_prefix w;
            tokens_to_keep_after_prefix = kept - sw_protected_prefix w in
        if tokens_to_keep_after_prefix \<ge> removable_count then [0..<current]
        else compile_keep_top_k \<lparr>k_start = 0, k_current = current, k_prefix = sw_protected_prefix w,
               k_recent = tokens_to_keep_after_prefix, k_heavy = 0\<rparr> no_score)"

definition sliding_on_phase :: "sliding_window \<Rightarrow> (nat list \<Rightarrow> 'h op) \<Rightarrow> 'h stage" where
  "sliding_on_phase w kp ctx = kp (sliding_keep_list w (s_current_pos ctx) (s_target_len ctx))"

record streaming_llm =
  st_sink_size :: nat
  st_window_size :: nat

definition StreamingLlm_new :: "nat \<Rightarrow> nat \<Rightarrow> streaming_llm" where
  "StreamingLlm_new sink window = \<lparr>st_sink_size = max sink 1, st_window_size = max window 1\<rparr>"

definition streaming_keep_spec :: "streaming_llm \<Rightarrow> nat \<Rightarrow> nat \<Rightarrow> keep_top_k_spec option" where
  "streaming_keep_spec s current target =
     (let kept = st_sink_size s + st_window_size s;
          effective_window = (if target > 0 \<and> target < kept then max (target - st_sink_size s) 1 else st_window_size s) in
      if current \<le> st_sink_size s + effective_window then None
      else Some \<lparr>k_start = 0, k_current = current, k_prefix = st_sink_size s, k_recent = effective_window, k_heavy = 0\<rparr>)"

definition streaming_on_phase :: "streaming_llm \<Rightarrow> (nat list \<Rightarrow> 'h op) \<Rightarrow> 'h stage" where
  "streaming_on_phase s kp ctx h = (case streaming_keep_spec s (s_current_pos ctx) (s_target_len ctx) of
     Some spec \<Rightarrow> keep_top_k kp spec no_score h | None \<Rightarrow> (Ok (), h))"

section \<open>The example stages\<close>

definition recent_keep_list :: "nat \<Rightarrow> nat \<Rightarrow> nat list option" where
  "recent_keep_list current target = (if current \<le> target then None else Some [current - target..<current])"

definition keep_recent_on_phase :: "(nat list \<Rightarrow> 'h op) \<Rightarrow> 'h stage" where
  "keep_recent_on_phase kp ctx h = (case recent_keep_list (s_current_pos ctx) (s_target_len ctx) of
     Some ks \<Rightarrow> kp ks h | None \<Rightarrow> (Ok (), h))"

definition bundle_per_head_keep :: "nat \<Rightarrow> nat \<Rightarrow> nat \<Rightarrow> nat list list option" where
  "bundle_per_head_keep current target n_kv_heads =
     (if current \<le> target then None else Some (replicate (max n_kv_heads 1) [current - target..<current]))"

definition bundle_per_head_on_phase :: "(nat list list \<Rightarrow> 'h op) \<Rightarrow> 'h stage" where
  "bundle_per_head_on_phase kph ctx h =
     (case bundle_per_head_keep (s_current_pos ctx) (s_target_len ctx) (s_n_kv_heads ctx) of
        Some kss \<Rightarrow> kph kss h | None \<Rightarrow> (Ok (), h))"

section \<open>H2O and TOVA\<close>

text \<open>The \<open>match\<close> that ends every score-based callback.\<close>

definition apply_keep_spec ::
    "(nat list \<Rightarrow> 'h op) \<Rightarrow> (nat list list \<Rightarrow> 'h op) \<Rightarrow> (cache_op_error, keep_spec option) result \<Rightarrow> 'h op" where
  "apply_keep_spec kp kph r h = (case r of
     Ok None \<Rightarrow> (Ok (), h)
   | Ok (Some (LayerWide ks)) \<Rightarrow> kp ks h
   | Ok (Some (PerHead kss)) \<Rightarrow> kph kss h
   | Err e \<Rightarrow> (Err e, h)
   | Panic \<Rightarrow> (Panic, h))"

definition ctx_head_starts :: "stage_ctx \<Rightarrow> nat list" where
  "ctx_head_starts ctx = map (ctx_head_start ctx) [0..<max (s_n_kv_heads ctx) 1]"

datatype h2o_budget = Absolute nat nat | FromTarget

record h2o =
  h2o_budget_of :: h2o_budget
  h2o_protected_prefix :: nat

record h2o_partition =
  hp_prefix :: nat
  hp_hh_budget :: nat
  hp_recent :: nat
  hp_current :: nat

definition keep_list_from :: "h2o_partition \<Rightarrow> nat \<Rightarrow> (nat \<Rightarrow> f32) \<Rightarrow> nat list" where
  "keep_list_from p start score = compile_keep_top_k \<lparr>k_start = start, k_current = hp_current p, k_prefix = hp_prefix p,
     k_recent = hp_recent p, k_heavy = hp_hh_budget p\<rparr> score"

definition keep_list_recency_from :: "h2o_partition \<Rightarrow> nat \<Rightarrow> nat list" where
  "keep_list_recency_from p start = compile_keep_top_k \<lparr>k_start = start, k_current = hp_current p, k_prefix = hp_prefix p,
     k_recent = hp_hh_budget p + hp_recent p, k_heavy = 0\<rparr> no_score"

definition h2o_partition_of :: "h2o \<Rightarrow> nat \<Rightarrow> nat \<Rightarrow> h2o_partition option" where
  "h2o_partition_of s current target_len =
     (let pre = min (h2o_protected_prefix s) current in
      case (case h2o_budget_of s of
          Absolute hh recent \<Rightarrow> Some (hh, recent)
        | FromTarget \<Rightarrow> if target_len = 0 then None
            else let evictable = min target_len current - pre in Some (evictable div 2, evictable - evictable div 2)) of
        None \<Rightarrow> None
      | Some (hh, recent) \<Rightarrow>
          if current \<le> pre + hh + recent then None
          else Some \<lparr>hp_prefix = pre, hp_hh_budget = hh, hp_recent = recent, hp_current = current\<rparr>)"

definition h2o_keep_spec :: "h2o \<Rightarrow> stage_ctx \<Rightarrow> keep_spec option" where
  "h2o_keep_spec s ctx = (case h2o_partition_of s (s_current_pos ctx) (s_target_len ctx) of
     None \<Rightarrow> None
   | Some p \<Rightarrow>
       let starts = ctx_head_starts ctx; ragged = list_ex (\<lambda>s. s > 0) starts in
       if has_head_scores ctx then
         Some (PerHead (map (\<lambda>kv_h. keep_list_from p (starts ! kv_h) (head_score ctx kv_h)) [0..<max (s_n_kv_heads ctx) 1]))
       else
         let lst = (\<lambda>start. case s_importance ctx of
             Some imp \<Rightarrow> keep_list_from p start (get_or 0 imp)
           | None \<Rightarrow> keep_list_recency_from p start) in
         Some (if ragged then PerHead (map lst starts) else LayerWide (lst 0)))"

definition h2o_on_phase :: "h2o \<Rightarrow> (nat list \<Rightarrow> 'h op) \<Rightarrow> (nat list list \<Rightarrow> 'h op) \<Rightarrow> 'h stage" where
  "h2o_on_phase s kp kph ctx = apply_keep_spec kp kph (Ok (h2o_keep_spec s ctx))"

record tova =
  tv_cache_size :: nat
  tv_protected_prefix :: nat

definition tova_keep_spec :: "tova \<Rightarrow> stage_ctx \<Rightarrow> keep_spec option" where
  "tova_keep_spec s ctx =
     (let current = s_current_pos ctx; pre = min (tv_protected_prefix s) current in
      if tv_cache_size s = 0 \<or> current \<le> pre + tv_cache_size s then None
      else
        let spec = \<lparr>k_start = 0, k_current = current, k_prefix = pre, k_recent = 0, k_heavy = tv_cache_size s\<rparr> in
        if has_attn_weights ctx then
          Some (PerHead (map (\<lambda>kv_h. compile_keep_top_k spec (attn_weight ctx kv_h)) [0..<max (s_n_kv_heads ctx) 1]))
        else Some (LayerWide (case s_importance ctx of
            Some imp \<Rightarrow> compile_keep_top_k spec (get_or 0 imp)
          | None \<Rightarrow> compile_keep_top_k (spec\<lparr>k_recent := tv_cache_size s, k_heavy := 0\<rparr>) no_score)))"

definition tova_on_phase :: "tova \<Rightarrow> (nat list \<Rightarrow> 'h op) \<Rightarrow> (nat list list \<Rightarrow> 'h op) \<Rightarrow> 'h stage" where
  "tova_on_phase s kp kph ctx = apply_keep_spec kp kph (Ok (tova_keep_spec s ctx))"

section \<open>The SnapKV family\<close>

record f32_ops =
  f_add :: "f32 \<Rightarrow> f32 \<Rightarrow> f32"
  f_mul :: "f32 \<Rightarrow> f32 \<Rightarrow> f32"
  f_div :: "f32 \<Rightarrow> f32 \<Rightarrow> f32"
  f_max :: "f32 \<Rightarrow> f32 \<Rightarrow> f32"
  f_of_nat :: "nat \<Rightarrow> f32"

definition NEG_INFINITY :: f32 where
  "NEG_INFINITY = 0xff800000"

definition max_pool1d :: "f32_ops \<Rightarrow> f32 list \<Rightarrow> nat \<Rightarrow> f32 list" where
  "max_pool1d fo input ksize =
     (let n = length input; pad = ksize div 2 in
      map (\<lambda>i. let lo = i - pad; hi = min (i + pad + 1) n in
             foldl (\<lambda>m x. f_max fo m x) NEG_INFINITY (field input lo (hi - lo))) [0..<n])"

definition avg_pool1d :: "f32_ops \<Rightarrow> f32 list \<Rightarrow> nat \<Rightarrow> f32 list" where
  "avg_pool1d fo input ksize =
     (let n = length input; pad = ksize div 2 in
      map (\<lambda>i. f_div fo (foldl (\<lambda>s j. let idx = int i - int pad + int j in
               if idx \<ge> 0 \<and> nat idx < n then f_add fo s (input ! nat idx) else s) 0 [0..<ksize])
             (f_of_nat fo ksize)) [0..<n])"

record snapkv_select =
  ss_n_q_heads :: nat
  ss_n_kv_heads :: nat
  ss_cols :: nat
  ss_current :: nat
  ss_window :: nat
  ss_kernel :: nat
  ss_heavy :: nat
  ss_protected :: nat

definition snapkv_pooled :: "f32_ops \<Rightarrow> snapkv_select \<Rightarrow> (nat \<Rightarrow> f32 list) \<Rightarrow> f32 list list" where
  "snapkv_pooled fo spec read_qhead =
     (let heavy_len = ss_current spec - ss_window spec; inv_window = f_div fo (f_of_nat fo 1) (f_of_nat fo (ss_window spec)) in
      map (\<lambda>qh. avg_pool1d fo (map (\<lambda>v. f_mul fo v inv_window) (take heavy_len (read_qhead qh))) (ss_kernel spec))
        [0..<ss_n_q_heads spec])"

definition snapkv_scores :: "f32_ops \<Rightarrow> snapkv_select \<Rightarrow> f32 list list \<Rightarrow> nat \<Rightarrow> f32 list" where
  "snapkv_scores fo spec pooled kvh =
     (let groups = max (ss_n_q_heads spec div max (ss_n_kv_heads spec) 1) 1;
          inv_groups = f_div fo (f_of_nat fo 1) (f_of_nat fo groups) in
      map (\<lambda>pos. f_mul fo (foldl (\<lambda>s g. f_add fo s (pooled ! (kvh * groups + g) ! pos)) 0 [0..<groups]) inv_groups)
        [0..<ss_current spec - ss_window spec])"

text \<open>A row shorter than the scored region, or a group of query heads that does not exist, is an index panic.\<close>

definition snapkv_per_head_keep_from ::
    "f32_ops \<Rightarrow> snapkv_select \<Rightarrow> (nat \<Rightarrow> f32 list) \<Rightarrow> nat list \<Rightarrow> (cache_op_error, nat list list) result" where
  "snapkv_per_head_keep_from fo spec read_qhead hstart =
     (let heavy_len = ss_current spec - ss_window spec in
      if ss_n_q_heads spec > 0 \<and> heavy_len > ss_cols spec then Panic
      else if heavy_len > 0 \<and> ss_n_q_heads spec < ss_n_kv_heads spec then Panic
      else let pooled = snapkv_pooled fo spec read_qhead in
        Ok (map (\<lambda>kvh. compile_keep_top_k
              \<lparr>k_start = get_or 0 hstart kvh, k_current = ss_current spec, k_prefix = ss_protected spec,
               k_recent = ss_window spec, k_heavy = ss_heavy spec\<rparr>
              (get_or 0 (snapkv_scores fo spec pooled kvh))) [0..<ss_n_kv_heads spec]))"

definition snapkv_per_head_keep ::
    "f32_ops \<Rightarrow> snapkv_select \<Rightarrow> (nat \<Rightarrow> f32 list) \<Rightarrow> (cache_op_error, nat list list) result" where
  "snapkv_per_head_keep fo spec read_qhead = snapkv_per_head_keep_from fo spec read_qhead []"

text \<open>
  The kept count is at or below the observation window: the most recent positions and the protected prefix.
\<close>

definition window_keep :: "nat list \<Rightarrow> nat \<Rightarrow> nat \<Rightarrow> nat \<Rightarrow> keep_spec" where
  "window_keep hstart current protected n_kept =
     (if list_all (\<lambda>s. s = 0) hstart
      then LayerWide ([0..<protected] @ filter (\<lambda>p. p \<ge> protected) [current - n_kept..<current])
      else PerHead (map (\<lambda>start. compile_keep_top_k \<lparr>k_start = start, k_current = current, k_prefix = protected,
             k_recent = n_kept, k_heavy = 0\<rparr> no_score) hstart))"

text \<open>No usable prefill attention: the same budget by importance, or by recency.\<close>

definition fallback_keep :: "f32 list option \<Rightarrow> nat list \<Rightarrow> nat \<Rightarrow> nat \<Rightarrow> nat \<Rightarrow> nat \<Rightarrow> nat \<Rightarrow> keep_spec" where
  "fallback_keep importance hstart current protected window heavy n_kept =
     (let lst = (\<lambda>start. case importance of
          Some imp \<Rightarrow> compile_keep_top_k \<lparr>k_start = start, k_current = current, k_prefix = protected,
             k_recent = window, k_heavy = heavy\<rparr> (get_or 0 imp)
        | None \<Rightarrow> compile_keep_top_k \<lparr>k_start = start, k_current = current, k_prefix = protected,
             k_recent = n_kept, k_heavy = 0\<rparr> no_score) in
      if list_all (\<lambda>s. s = 0) hstart then LayerWide (lst 0) else PerHead (map lst hstart))"

record snapkv_config =
  sk_ratio_budget :: "(nat \<Rightarrow> nat) option"
  sk_window_size :: nat
  sk_kernel_size :: nat

definition snapkv_config_budget :: "snapkv_config \<Rightarrow> nat \<Rightarrow> nat \<Rightarrow> nat option" where
  "snapkv_config_budget cfg current target_len = (case sk_ratio_budget cfg of
     Some budget \<Rightarrow> Some (budget current)
   | None \<Rightarrow> if target_len > 0 \<and> target_len < current then Some target_len else None)"

text \<open>
  The body the three prefill-end techniques share: the early returns, the window-only case, the per-head
  selection when the prefill attention is usable, and the fallback. \<open>select\<close> is the per-head selection.
\<close>

definition prefill_keep_spec ::
    "nat \<Rightarrow> nat option \<Rightarrow> (pfa_snap \<Rightarrow> snapkv_select \<Rightarrow> nat list \<Rightarrow> (cache_op_error, nat list list) result)
       \<Rightarrow> nat \<Rightarrow> stage_ctx \<Rightarrow> (cache_op_error, keep_spec option) result" where
  "prefill_keep_spec window_size budget select ksize ctx =
     (let current = s_current_pos ctx in
      if current = 0 then Ok None
      else case budget of
        None \<Rightarrow> Ok None
      | Some raw_budget \<Rightarrow>
          let window = min window_size current; n_kept = max 1 (min raw_budget current) in
          if n_kept \<ge> current then Ok None
          else
            let protected = min (s_protected_prefix ctx) current; hstart = ctx_head_starts ctx in
            if n_kept \<le> window then Ok (Some (window_keep hstart current protected n_kept))
            else
              let heavy = n_kept - window; n_kv = max (s_n_kv_heads ctx) 1;
                  fallback = Ok (Some (fallback_keep (s_importance ctx) hstart current protected window heavy n_kept)) in
              case s_pfa ctx of
                None \<Rightarrow> fallback
              | Some pfa \<Rightarrow>
                  if pfa_rows pfa \<ge> n_kv \<and> pfa_rows pfa mod n_kv = 0 \<and> pfa_cols pfa \<ge> current - window
                  then and_then (select pfa \<lparr>ss_n_q_heads = pfa_rows pfa, ss_n_kv_heads = n_kv, ss_cols = pfa_cols pfa,
                      ss_current = current, ss_window = window, ss_kernel = ksize, ss_heavy = heavy, ss_protected = protected\<rparr>
                      hstart) (\<lambda>heads. Ok (Some (PerHead heads)))
                  else fallback)"

definition snapkv_select_heads :: "f32_ops \<Rightarrow> pfa_snap \<Rightarrow> snapkv_select \<Rightarrow> nat list \<Rightarrow> (cache_op_error, nat list list) result" where
  "snapkv_select_heads fo pfa spec = snapkv_per_head_keep_from fo spec (pfa_read pfa)"

definition snapkv_keep_spec :: "f32_ops \<Rightarrow> snapkv_config \<Rightarrow> stage_ctx \<Rightarrow> (cache_op_error, keep_spec option) result" where
  "snapkv_keep_spec fo cfg ctx = prefill_keep_spec (sk_window_size cfg)
     (snapkv_config_budget cfg (s_current_pos ctx) (s_target_len ctx)) (snapkv_select_heads fo) (sk_kernel_size cfg) ctx"

definition snapkv_on_phase ::
    "f32_ops \<Rightarrow> snapkv_config \<Rightarrow> (nat list \<Rightarrow> 'h op) \<Rightarrow> (nat list list \<Rightarrow> 'h op) \<Rightarrow> 'h stage" where
  "snapkv_on_phase fo cfg kp kph ctx = apply_keep_spec kp kph (snapkv_keep_spec fo cfg ctx)"

text \<open>
  PyramidKV differs in its per-layer budget: \<open>pk_layer_budget current target n_layers layer\<close> is the kept count, \<open>None\<close>
  when the effective compression ratio is not positive.
\<close>

record pyramidkv_config =
  pk_layer_budget :: "nat \<Rightarrow> nat \<Rightarrow> nat \<Rightarrow> nat \<Rightarrow> nat option"
  pk_window_size :: nat
  pk_kernel_size :: nat

definition pyramidkv_keep_spec :: "f32_ops \<Rightarrow> pyramidkv_config \<Rightarrow> stage_ctx \<Rightarrow> (cache_op_error, keep_spec option) result" where
  "pyramidkv_keep_spec fo cfg ctx = prefill_keep_spec (pk_window_size cfg)
     (pk_layer_budget cfg (s_current_pos ctx) (s_target_len ctx) (s_n_layers ctx) (s_layer_idx ctx))
     (snapkv_select_heads fo) (pk_kernel_size cfg) ctx"

definition pyramidkv_on_phase ::
    "f32_ops \<Rightarrow> pyramidkv_config \<Rightarrow> (nat list \<Rightarrow> 'h op) \<Rightarrow> (nat list list \<Rightarrow> 'h op) \<Rightarrow> 'h stage" where
  "pyramidkv_on_phase fo cfg kp kph ctx = apply_keep_spec kp kph (pyramidkv_keep_spec fo cfg ctx)"

datatype pooling = MaxPool | AvgPool

record adakv_config =
  ak_ratio_budget :: "(nat \<Rightarrow> nat) option"
  ak_window_size :: nat
  ak_kernel_size :: nat
  ak_pooling :: pooling
  ak_head_caps :: "nat list \<Rightarrow> nat \<Rightarrow> nat list"

definition adakv_pooled :: "f32_ops \<Rightarrow> pooling \<Rightarrow> snapkv_select \<Rightarrow> (nat \<Rightarrow> f32 list) \<Rightarrow> f32 list list" where
  "adakv_pooled fo pool spec read_qhead =
     (let n_kv = max (ss_n_kv_heads spec) 1; groups = max (ss_n_q_heads spec div n_kv) 1;
          heavy_len = ss_current spec - ss_window spec;
          inv_window = f_div fo (f_of_nat fo 1) (f_of_nat fo (max (ss_window spec) 1));
          inv_groups = f_div fo (f_of_nat fo 1) (f_of_nat fo groups) in
      map (\<lambda>kvh.
        let m = foldl (\<lambda>acc g. map2 (\<lambda>a x. f_add fo a (f_mul fo x inv_window)) acc (take heavy_len (read_qhead (kvh * groups + g))))
                  (replicate heavy_len 0) [0..<groups];
            m = map (\<lambda>x. f_mul fo x inv_groups) m in
        case pool of MaxPool \<Rightarrow> max_pool1d fo m (ss_kernel spec) | AvgPool \<Rightarrow> avg_pool1d fo m (ss_kernel spec)) [0..<n_kv])"

text \<open>The flattened competition: how many of the best \<open>n_kv * base\<close> places each head wins.\<close>

definition adakv_counts :: "snapkv_select \<Rightarrow> f32 list list \<Rightarrow> nat list \<Rightarrow> nat list" where
  "adakv_counts spec pooled hstart =
     (let n_kv = max (ss_n_kv_heads spec) 1; heavy_len = ss_current spec - ss_window spec;
          region_start = (\<lambda>h. min (get_or 0 hstart h + ss_protected spec) heavy_len);
          flat = concat (map (\<lambda>h. map (\<lambda>pos. (h, pos)) [region_start h..<heavy_len]) [0..<n_kv]);
          score = (\<lambda>(h, pos). pooled ! h ! pos);
          ranked = sort_by (\<lambda>a b. score_desc (a, score a) (b, score b)) flat;
          n_win = min (n_kv * ss_heavy spec) (length flat) in
      map (\<lambda>h. length (filter (\<lambda>(h', _). h' = h) (take n_win ranked))) [0..<n_kv])"

definition adakv_per_head_keep ::
    "f32_ops \<Rightarrow> adakv_config \<Rightarrow> snapkv_select \<Rightarrow> (nat \<Rightarrow> f32 list) \<Rightarrow> nat list \<Rightarrow> (cache_op_error, nat list list) result" where
  "adakv_per_head_keep fo cfg spec read_qhead hstart =
     (if ss_current spec - ss_window spec > ss_cols spec then Panic
      else
        let n_kv = max (ss_n_kv_heads spec) 1; pooled = adakv_pooled fo (ak_pooling cfg) spec read_qhead;
            caps = ak_head_caps cfg (adakv_counts spec pooled hstart) (ss_heavy spec) in
        Ok (map (\<lambda>h. compile_keep_top_k
              \<lparr>k_start = min (get_or 0 hstart h) (ss_current spec), k_current = ss_current spec, k_prefix = ss_protected spec,
               k_recent = ss_window spec, k_heavy = caps ! h\<rparr>
              (get_or 0 (pooled ! h))) [0..<n_kv]))"

definition adakv_config_budget :: "adakv_config \<Rightarrow> nat \<Rightarrow> nat \<Rightarrow> nat option" where
  "adakv_config_budget cfg current target_len = (case ak_ratio_budget cfg of
     Some budget \<Rightarrow> Some (budget current)
   | None \<Rightarrow> if target_len > 0 \<and> target_len < current then Some target_len else None)"

definition adakv_keep_spec :: "f32_ops \<Rightarrow> adakv_config \<Rightarrow> stage_ctx \<Rightarrow> (cache_op_error, keep_spec option) result" where
  "adakv_keep_spec fo cfg ctx = prefill_keep_spec (ak_window_size cfg)
     (adakv_config_budget cfg (s_current_pos ctx) (s_target_len ctx))
     (\<lambda>pfa spec. adakv_per_head_keep fo cfg spec (pfa_read pfa)) (ak_kernel_size cfg) ctx"

definition adakv_on_phase ::
    "f32_ops \<Rightarrow> adakv_config \<Rightarrow> (nat list \<Rightarrow> 'h op) \<Rightarrow> (nat list list \<Rightarrow> 'h op) \<Rightarrow> 'h stage" where
  "adakv_on_phase fo cfg kp kph ctx = apply_keep_spec kp kph (adakv_keep_spec fo cfg ctx)"

end
