(* ===== verification/Technique_Props.thy ===== *)
theory Technique_Props
  imports Techniques
begin

text \<open>
  What the eviction techniques do to a cache. The verbs and the layer-wide techniques are proved once against
  the contract of a handle's \<open>keep\<close>, which both engine handles meet; the techniques are then followed through
  the driver and the commit to the rows that are left in the cache.
\<close>

section \<open>The contract of keep\<close>

text \<open>
  A handle takes a valid layer-wide keep when it is free: \<open>frame\<close> is its entry frame, \<open>staged\<close> the handle
  afterwards.
\<close>

locale keep_target =
  fixes kp :: "nat list \<Rightarrow> 'h op" and frame :: "'h \<Rightarrow> nat" and free :: "'h \<Rightarrow> bool" and staged :: "nat list \<Rightarrow> 'h \<Rightarrow> 'h"
  assumes accepts: "free h \<Longrightarrow> keep_in 0 (frame h) ks \<Longrightarrow> kp ks h = (Ok (), staged ks h)"
begin

lemma evict_accepts:
  assumes "free h"
  shows "evict frame kp dropped h = (Ok (), staged (filter (\<lambda>p. p \<notin> set dropped) [0..<frame h]) h)"
  unfolding evict_def using assms by (intro accepts) (auto simp: keep_in_def intro: sorted_wrt_filter)

lemma keep_top_k_accepts:
  assumes "free h" "k_current spec \<le> frame h" "nan_free score"
  shows "keep_top_k kp spec score h = (Ok (), staged (compile_keep_top_k spec score) h)"
  unfolding keep_top_k_def
  using assms(1,2) keep_in_mono[OF compile_keep_in[OF assms(3), of spec], of 0 "frame h"] by (intro accepts) auto

lemma keep_sets_accepts:
  assumes "free h" "\<forall>s \<in> set sets. \<forall>p \<in> set s. p < frame h"
  shows "keep_intersect_of kp sets h = (Ok (), staged (keep_intersect sets) h)"
    "keep_union_of kp sets h = (Ok (), staged (keep_union sets) h)"
  unfolding keep_intersect_of_def keep_union_of_def using assms keep_sets_in[OF assms(2)] by (auto intro!: accepts)

end

definition layer_free :: "('u, 'w) cache_handle \<Rightarrow> bool" where
  "layer_free h \<longleftrightarrow> slot h = None \<and> \<not> is_ragged (h_cache h)"

definition model_free :: "'u model_handle \<Rightarrow> bool" where
  "model_free h \<longleftrightarrow> m_slot h = None \<and> (\<forall>c \<in> set (m_caches h). \<not> is_ragged c)"

lemma not_ragged_start: "\<not> is_ragged c \<Longrightarrow> head_start c h = 0"
  by (auto simp: is_ragged_def head_start_def list_ex_iff)

lemma validate_keep_in: "keep_in 0 n ks \<Longrightarrow> validate_keep n ks = Ok ()"
  using validate_keep_ok[of n ks "()"] by simp

interpretation layer_keep: keep_target keep entry_pos layer_free "\<lambda>ks h. h\<lparr>slot := Some (CKeep ks)\<rparr>"
  by unfold_locales (simp add: keep_def layer_free_def set_compaction_def validate_keep_in)

lemma max_list_zero: "(\<And>x. x \<in> set xs \<Longrightarrow> x = 0) \<Longrightarrow> max_list xs = 0"
  using max_list_le[of xs 0] by auto

lemma model_free_floor:
  assumes "model_free h"
  shows "max_list (map (resident_floor h) [0..<m_n_kv_heads h]) = 0"
proof (rule max_list_zero)
  fix x assume "x \<in> set (map (resident_floor h) [0..<m_n_kv_heads h])"
  then obtain i where x: "x = max_list (map (\<lambda>c. head_start c i) (m_caches h))" by (auto simp: resident_floor_def)
  show "x = 0" unfolding x
    by (rule max_list_zero) (use assms not_ragged_start in \<open>fastforce simp: model_free_def\<close>)
qed

interpretation whole_keep: keep_target model_keep m_entry_pos model_free "\<lambda>ks h. h\<lparr>m_slot := Some (CKeep ks)\<rparr>"
proof
  fix h :: "'a model_handle" and ks
  assume a: "model_free h" "keep_in 0 (m_entry_pos h) ks"
  have "\<not> first_below ks 0" by (cases ks) (simp_all add: first_below_def)
  then show "model_keep ks h = (Ok (), h\<lparr>m_slot := Some (CKeep ks)\<rparr>)"
    using a validate_keep_in[OF a(2)] model_free_floor[OF a(1)]
    by (simp only: model_keep_def model_set_compaction_def model_free_def result.case if_False not_not) simp
qed

section \<open>Through the driver\<close>

lemma layer_ctx_fields [simp]:
  "s_current_pos (layer_ctx snap dev caps l n t imp hs at c) = current_pos c"
  "s_head_starts (layer_ctx snap dev caps l n t imp hs at c) = head_starts c"
  "s_target_len (layer_ctx snap dev caps l n t imp hs at c) = t"
  "s_n_kv_heads (layer_ctx snap dev caps l n t imp hs at c) = kv_heads c"
  "s_importance (layer_ctx snap dev caps l n t imp hs at c) = imp"
  "s_scores (layer_ctx snap dev caps l n t imp hs at c) = map_option (\<lambda>d. \<lparr>sc_data = d, sc_max_seq = max_seq_len c\<rparr>) hs"
  "s_attn (layer_ctx snap dev caps l n t imp hs at c) = map_option (\<lambda>d. \<lparr>sc_data = d, sc_max_seq = max_seq_len c\<rparr>) at"
  "s_protected_prefix (layer_ctx snap dev caps l n t imp hs at c) = 0"
  "s_pfa (layer_ctx snap dev caps l n t imp hs at c) = None"
  by (simp_all add: layer_ctx_def from_cache_def Let_def)

lemma drive_idle:
  assumes "stage (layer_ctx snap dev caps l n t imp hs at c) (handle_new c dev l n) = (Ok (), handle_new c dev l n)"
  shows "drive_mutation_layer nu os env snap dev stage caps l n t imp hs at c = Ok (False, c)"
proof -
  have "commit nu os env (handle_new c dev l n) = Ok (False, c, None)"
    by (simp add: handle_new_def commit_def commit_bytes_def)
  with assms show ?thesis by (simp add: drive_mutation_layer_def run_mutation_layer_def run_stage_def)
qed

lemma drive_refused:
  assumes "stage (layer_ctx snap dev caps l n t imp hs at c) (handle_new c dev l n) = (Err e, h)" "0 < current_pos c"
  shows "drive_mutation_layer nu os env snap dev stage caps l n t imp hs at c = Err (StageFailed e)"
  using assms by (simp add: drive_mutation_layer_def run_mutation_layer_def run_stage_def)

lemma drive_keep:
  fixes stage :: "('u, 'w) cache_handle stage"
  assumes wf: "kv_wf c" "\<not> is_ragged c" "0 < current_pos c" and ks: "keep_in 0 (current_pos c) ks"
    and st: "stage (layer_ctx snap dev caps l n t imp hs at c) (handle_new c dev l n) = keep ks (handle_new c dev l n)"
  shows "\<exists>c'. drive_mutation_layer nu os env snap dev stage caps l n t imp hs at c = Ok (True, c') \<and> kv_wf c' \<and> kv_heads c' = kv_heads c
    \<and> current_pos c' = length ks \<and> \<not> is_ragged c' \<and> (\<forall>h < kv_heads c. contents c' h = map (cell c h) ks) \<and> derived c c'"
proof -
  let ?h = "handle_new c dev l n :: ('u, 'w) cache_handle"
  have acc: "fst (keep ks ?h) = Ok ()" using keep_new(1)[of ?h, OF refl, of ks] ks not_ragged_start[OF wf(2)] by simp
  from commit_keep_ok[OF wf(1) ks] obtain c' where c': "commit_keep ks c = Ok c'" "kv_wf c'" "current_pos c' = length ks"
    "head_starts_raw c' = []" "kv_heads c' = kv_heads c" "\<forall>h < kv_heads c. contents c' h = map (cell c h) ks" "derived c c'" by blast
  have "commit nu os env (snd (keep ks ?h)) = Ok (True, c', None)" using keep_new(2)[OF refl acc] c'(1) by simp
  then have "drive_mutation_layer nu os env snap dev stage caps l n t imp hs at c = Ok (True, c')"
    using st acc wf(3) by (cases "keep ks ?h") (simp add: drive_mutation_layer_def run_mutation_layer_def run_stage_def)
  moreover have "\<not> is_ragged c'" using c'(4) by (simp add: is_ragged_def)
  ultimately show ?thesis using c' by blast
qed

lemma uniform_rows: "\<not> is_ragged c \<Longrightarrow> contents c h = map (cell c h) [0..<current_pos c]"
  by (simp add: contents_def not_ragged_start)

lemma rows_prefix_recent:
  assumes "\<not> is_ragged c" "p \<le> r" "r \<le> current_pos c"
  shows "map (cell c h) ([0..<p] @ [r..<current_pos c]) = take p (contents c h) @ drop r (contents c h)"
  using assms by (simp add: uniform_rows take_map drop_map min_def)

section \<open>The sliding window\<close>

text \<open>How many tokens the window keeps for a target.\<close>

definition sliding_budget :: "sliding_window \<Rightarrow> nat \<Rightarrow> nat" where
  "sliding_budget w target = max (min (sw_protected_prefix w + 16) (sw_window_size w + sw_protected_prefix w))
     (min target (sw_window_size w + sw_protected_prefix w))"

lemma heavy_of_0 [simp]: "heavy_of 0 s lo hi = []"
  by (simp add: heavy_of_def)

lemma sliding_keep_list_cases:
  "sliding_keep_list w current target = (if current \<le> sliding_budget w target then [0..<current]
     else [0..<sw_protected_prefix w] @ [current - (sliding_budget w target - sw_protected_prefix w)..<current])"
proof -
  define k where "k = sliding_budget w target"
  have p: "sw_protected_prefix w \<le> k" by (simp add: k_def sliding_budget_def)
  have e: "max (min (sw_protected_prefix w + 16) (sw_window_size w + sw_protected_prefix w))
      (min target (sw_window_size w + sw_protected_prefix w)) = k" by (simp add: k_def sliding_budget_def)
  have "sliding_keep_list w current target = [0..<sw_protected_prefix w] @ [current - (k - sw_protected_prefix w)..<current]"
    if "k < current"
  proof -
    have "\<not> k - sw_protected_prefix w \<ge> current - sw_protected_prefix w" "min (sw_protected_prefix w) current = sw_protected_prefix w"
      "max (current - (k - sw_protected_prefix w)) (sw_protected_prefix w) = current - (k - sw_protected_prefix w)"
      using p that by auto
    with that show ?thesis unfolding sliding_keep_list_def Let_def e by (simp add: compile_keep_top_k_def Let_def)
  qed
  then show ?thesis unfolding k_def[symmetric] by (simp add: sliding_keep_list_def e Let_def)
qed

lemma sliding_keep_list_in: "keep_in 0 current (sliding_keep_list w current target)"
proof -
  have "sw_protected_prefix w \<le> sliding_budget w target" by (simp add: sliding_budget_def)
  then show ?thesis unfolding sliding_keep_list_cases by (auto simp: keep_in_def sorted_wrt_append)
qed

text \<open>
  C29: The sliding window, from the callback to the rows. On a uniform well-formed cache the stage always
  succeeds. Within its budget (the target, clamped between prefix + 16 and prefix + window) the rows stay as
  they are; above it, every head keeps its protected prefix (at least four rows) and its most recent rows, and
  nothing else, and the cache is exactly as long as the budget.
\<close>

theorem sliding_window_keeps:
  assumes "kv_wf c" "\<not> is_ragged c" "0 < current_pos c" "w = SlidingWindow_new window protected"
    and "k = sliding_budget w target" "p = sw_protected_prefix w"
  shows "4 \<le> p \<and> p \<le> k \<and> k \<le> p + window
    \<and> (\<exists>c'. drive_mutation_layer nu os env snap dev (sliding_on_phase w keep) caps l n target imp hs at c = Ok (True, c')
        \<and> kv_wf c' \<and> \<not> is_ragged c' \<and> current_pos c' = min (current_pos c) k
        \<and> (\<forall>h < kv_heads c. contents c' h = (if current_pos c \<le> k then contents c h
             else take p (contents c h) @ drop (current_pos c - (k - p)) (contents c h))))"
proof -
  have kp: "p = max protected 4" "k = max (min (p + 16) (window + p)) (min target (window + p))"
    using assms(4-6) by (simp_all add: SlidingWindow_new_def sliding_budget_def)
  then have b: "4 \<le> p" "p \<le> k" "k \<le> p + window" by linarith+
  let ?ks = "sliding_keep_list w (current_pos c) target"
  from drive_keep[OF assms(1-3) sliding_keep_list_in[of "current_pos c" w target], where stage = "sliding_on_phase w keep" and t = target and snap = snap and dev = dev and caps = caps
      and l = l and n = n and imp = imp and hs = hs and at = at and nu = nu and os = os and env = env]
  obtain c' where c': "drive_mutation_layer nu os env snap dev (sliding_on_phase w keep) caps l n target imp hs at c = Ok (True, c')"
    "kv_wf c'" "current_pos c' = length ?ks" "\<not> is_ragged c'" "\<forall>h < kv_heads c. contents c' h = map (cell c h) ?ks"
    by (auto simp: sliding_on_phase_def)
  note ks = sliding_keep_list_cases[of w "current_pos c" target, folded assms(5,6)]
  have "length ?ks = min (current_pos c) k" using b unfolding ks by auto
  moreover have "map (cell c h) ?ks = (if current_pos c \<le> k then contents c h
      else take p (contents c h) @ drop (current_pos c - (k - p)) (contents c h))" for h
    using b rows_prefix_recent[OF assms(2), of p "current_pos c - (k - p)" h] unfolding ks by (auto simp: uniform_rows[OF assms(2)])
  ultimately show ?thesis using b c' by auto
qed

definition demo_long :: "nat kvcache" where
  "demo_long = \<lparr>k_buffer = [10, 11, 12, 13, 14, 15, 16, 0], v_buffer = [20, 21, 22, 23, 24, 25, 26, 0],
     kv_dtype = D_F32, opaque = None, host_managed = True, current_pos = 7, high_water_pos = 7,
     max_seq_len = 8, capacity = 8, kv_heads = 1, head_dim = 1, layout = HeadMajor,
     head_starts_raw = [], head_start_dirty = False, memory = None\<rparr>"

lemma demo_long_ok: "kv_wf demo_long" "\<not> is_ragged demo_long" "current_pos demo_long = 7" "kv_heads demo_long = 1"
  "layout demo_long = HeadMajor" "max_seq_len demo_long = 8"
  by (simp_all add: demo_long_def kv_wf_def format_ok_def bufs_ok_def row_def is_q4_def is_ragged_def)

lemma demo_long_rows: "contents demo_long 0 = map (\<lambda>i. ([10 + i], [20 + i])) [0..<7]"
  by (simp add: contents_def head_start_def cell_def rowat_def row_ix_def demo_long_def row_def is_q4_def is_opaque_def upt_rec)

definition no_snap :: "nat kvcache \<Rightarrow> tensor_kind \<Rightarrow> f32 list" where
  "no_snap c k = []"

text \<open>Window one, the minimal prefix: five of seven rows stay.\<close>

theorem sliding_window_keeps_witness:
  "\<exists>c'. drive_mutation_layer demo_numerics demo_os demo_env no_snap False (sliding_on_phase (SlidingWindow_new 1 0) keep)
      SCORE_FREE 0 1 3 None None None demo_long = Ok (True, c') \<and> kv_wf c' \<and> current_pos c' = 5
    \<and> contents c' 0 = [([10], [20]), ([11], [21]), ([12], [22]), ([13], [23]), ([16], [26])]"
proof -
  let ?w = "SlidingWindow_new 1 0"
  have k: "sliding_budget ?w 3 = 5" "sw_protected_prefix ?w = 4" by (simp_all add: SlidingWindow_new_def sliding_budget_def)
  have "0 < current_pos demo_long" using demo_long_ok by simp
  from sliding_window_keeps[OF demo_long_ok(1,2) this refl refl refl, where nu = demo_numerics and os = demo_os and env = demo_env and snap = no_snap and dev = False
      and caps = "SCORE_FREE" and l = 0 and n = 1 and imp = None and hs = None and at = None and window = 1 and protected = 0 and target = 3] k
  obtain c' where c': "drive_mutation_layer demo_numerics demo_os demo_env no_snap False (sliding_on_phase ?w keep)
      SCORE_FREE 0 1 3 None None None demo_long = Ok (True, c')" "kv_wf c'" "current_pos c' = 5"
    "contents c' 0 = take 4 (contents demo_long 0) @ drop 6 (contents demo_long 0)"
    using demo_long_ok by auto
  have "take 4 (contents demo_long 0) @ drop 6 (contents demo_long 0)
      = [([10], [20]), ([11], [21]), ([12], [22]), ([13], [23]), ([16], [26])]"
    unfolding demo_long_rows by (simp add: upt_rec)
  with c' show ?thesis by metis
qed

section \<open>StreamingLLM\<close>

definition streaming_budget :: "streaming_llm \<Rightarrow> nat \<Rightarrow> nat" where
  "streaming_budget s target = st_sink_size s
     + (if target > 0 \<and> target < st_sink_size s + st_window_size s then max (target - st_sink_size s) 1 else st_window_size s)"

lemma streaming_compiled:
  "streaming_keep_spec s current target = (if current \<le> streaming_budget s target then None
     else Some \<lparr>k_start = 0, k_current = current, k_prefix = st_sink_size s,
            k_recent = streaming_budget s target - st_sink_size s, k_heavy = 0\<rparr>)"
  by (simp add: streaming_keep_spec_def streaming_budget_def Let_def)

lemma prefix_recent_list:
  assumes "p + r \<le> current"
  shows "compile_keep_top_k \<lparr>k_start = 0, k_current = current, k_prefix = p, k_recent = r, k_heavy = 0\<rparr> s
    = [0..<p] @ [current - r..<current]"
proof -
  have "min p current = p" "max (current - r) p = current - r" using assms by auto
  then show ?thesis by (simp add: compile_keep_top_k_def Let_def)
qed

lemma no_score_nan_free [simp]: "nan_free no_score"
  by (simp add: nan_free_def no_score_def f32_is_nan_def)

text \<open>
  StreamingLLM. On a uniform well-formed cache the stage always succeeds; afterwards the cache has at most
  sink + window rows (and at most the target, if it leaves room for the sinks and one recent row), namely
  the sinks and the most recent rows of every head; and running it again with the same target changes nothing.
\<close>

theorem streaming_keeps:
  assumes "kv_wf c" "\<not> is_ragged c" "0 < current_pos c" "s = StreamingLlm_new sink window" "k = streaming_budget s target"
  shows "\<exists>m c'. drive_mutation_layer nu os env snap dev (streaming_on_phase s keep) caps l n target imp hs at c = Ok (m, c')
    \<and> (m \<longleftrightarrow> k < current_pos c) \<and> kv_wf c' \<and> current_pos c' = min (current_pos c) k
    \<and> k \<le> st_sink_size s + st_window_size s \<and> (0 < target \<longrightarrow> k \<le> max target (st_sink_size s + 1))
    \<and> (\<forall>h < kv_heads c. contents c' h = (if current_pos c \<le> k then contents c h
         else take (st_sink_size s) (contents c h) @ drop (current_pos c - (k - st_sink_size s)) (contents c h)))
    \<and> drive_mutation_layer nu os env snap dev (streaming_on_phase s keep) caps l n target imp hs at c' = Ok (False, c')"
proof -
  have "1 \<le> st_window_size s" using assms(4) by (simp add: StreamingLlm_new_def)
  then have b: "st_sink_size s \<le> k" "k \<le> st_sink_size s + st_window_size s" "0 < target \<longrightarrow> k \<le> max target (st_sink_size s + 1)"
    unfolding assms(5) streaming_budget_def by auto
  have idle: "drive_mutation_layer nu os env snap dev (streaming_on_phase s keep) caps l n target imp hs at x = Ok (False, x)"
    if "current_pos x \<le> k" for x
    using that by (intro drive_idle) (simp add: streaming_on_phase_def streaming_compiled assms(5))
  show ?thesis
  proof (cases "current_pos c \<le> k")
    case True
    with idle[of c] b assms(1) show ?thesis by (intro exI[of _ False] exI[of _ c]) auto
  next
    case False
    let ?ks = "[0..<st_sink_size s] @ [current_pos c - (k - st_sink_size s)..<current_pos c]"
    have "keep_in 0 (current_pos c) ?ks" using b(1) False by (auto simp: keep_in_def sorted_wrt_append)
    from drive_keep[OF assms(1-3) this, where stage = "streaming_on_phase s keep" and t = target and snap = snap and dev = dev and caps = caps
      and l = l and n = n and imp = imp and hs = hs and at = at and nu = nu and os = os and env = env] False b(1)
    obtain c' where c': "drive_mutation_layer nu os env snap dev (streaming_on_phase s keep) caps l n target imp hs at c = Ok (True, c')"
      "kv_wf c'" "current_pos c' = length ?ks" "\<forall>h < kv_heads c. contents c' h = map (cell c h) ?ks"
      by (auto simp: streaming_on_phase_def streaming_compiled assms(5)[symmetric] keep_top_k_def prefix_recent_list)
    have "length ?ks = k" using b(1) False by auto
    with c'(3) have "current_pos c' = k" by simp
    moreover have "map (cell c h) ?ks = take (st_sink_size s) (contents c h) @ drop (current_pos c - (k - st_sink_size s)) (contents c h)" for h
      using b(1) False by (intro rows_prefix_recent[OF assms(2)]) auto
    ultimately show ?thesis using c' b False idle[of c'] by (intro exI[of _ True] exI[of _ c']) auto
  qed
qed

theorem streaming_keeps_witness:
  "\<exists>c'. drive_mutation_layer demo_numerics demo_os demo_env no_snap False (streaming_on_phase (StreamingLlm_new 1 2) keep)
      SCORE_FREE 0 1 0 None None None demo_long = Ok (True, c') \<and> kv_wf c'
    \<and> contents c' 0 = [([10], [20]), ([15], [25]), ([16], [26])]"
proof -
  let ?s = "StreamingLlm_new 1 2"
  have k: "streaming_budget ?s 0 = 3" "st_sink_size ?s = 1" by (simp_all add: StreamingLlm_new_def streaming_budget_def)
  have "0 < current_pos demo_long" using demo_long_ok by simp
  from streaming_keeps[OF demo_long_ok(1,2) this refl refl, where nu = demo_numerics and os = demo_os and env = demo_env and snap = no_snap and dev = False
      and caps = "SCORE_FREE" and l = 0 and n = 1 and imp = None and hs = None and at = None and sink = 1 and window = 2 and target = 0] k
  obtain m c' where c': "drive_mutation_layer demo_numerics demo_os demo_env no_snap False (streaming_on_phase ?s keep)
      SCORE_FREE 0 1 0 None None None demo_long = Ok (m, c')" "m" "kv_wf c'"
    "contents c' 0 = take 1 (contents demo_long 0) @ drop 5 (contents demo_long 0)"
    using demo_long_ok by auto
  have "take 1 (contents demo_long 0) @ drop 5 (contents demo_long 0) = [([10], [20]), ([15], [25]), ([16], [26])]"
    unfolding demo_long_rows by (simp add: upt_rec)
  with c' show ?thesis by (metis (full_types))
qed

section \<open>H2O\<close>

lemma drive_per_head:
  fixes stage :: "('u, 'w) cache_handle stage"
  assumes wf: "kv_wf c" "0 < current_pos c" and v: "per_head_valid c kss"
    and st: "stage (layer_ctx snap dev caps l n t imp hs at c) (handle_new c dev l n) = keep_per_head kss (handle_new c dev l n)"
  shows "\<exists>c'. drive_mutation_layer nu os env snap dev stage caps l n t imp hs at c = Ok (True, c') \<and> kv_wf c'
    \<and> (\<forall>h < kv_heads c. contents c' h = map (cell c h) (kss ! h))"
proof -
  let ?h = "handle_new c dev l n :: ('u, 'w) cache_handle"
  have acc: "fst (keep_per_head kss ?h) = Ok ()" using keep_per_head_new(1)[of ?h, OF refl] v by simp
  from keep_per_head_executes(3)[of c ?h, OF wf(1) refl acc] obtain c' where
    c': "commit nu os env (snd (keep_per_head kss ?h)) = Ok (True, c', None)" "executes (StagedPerHead kss) c c'" by blast
  have "drive_mutation_layer nu os env snap dev stage caps l n t imp hs at c = Ok (True, c')"
    using st acc wf(2) c'(1)
    by (cases "keep_per_head kss ?h") (simp add: drive_mutation_layer_def run_mutation_layer_def run_stage_def)
  then show ?thesis using c'(2) by (auto simp: executes_def planned_head_def split: if_splits)
qed

definition no_nan :: "f32 list option \<Rightarrow> bool" where
  "no_nan d \<longleftrightarrow> (\<forall>xs. d = Some xs \<longrightarrow> (\<forall>x \<in> set xs. \<not> f32_is_nan x))"

lemma get_or_nan_free: "no_nan (Some d) \<Longrightarrow> nan_free (\<lambda>p. get_or 0 d (f p))"
  by (simp add: nan_free_def no_nan_def get_or_def f32_is_nan_def)

text \<open>The list H2O gives head \<open>h\<close>: by its own scores, by the shared importance, or by recency.\<close>

definition h2o_head_list :: "h2o_partition \<Rightarrow> f32 list option \<Rightarrow> f32 list option \<Rightarrow> 'u kvcache \<Rightarrow> nat \<Rightarrow> nat list" where
  "h2o_head_list p hs imp c h = (case hs of
     Some d \<Rightarrow> keep_list_from p (head_start c h) (\<lambda>pos. get_or 0 d (h * max_seq_len c + pos))
   | None \<Rightarrow> (case imp of Some d \<Rightarrow> keep_list_from p (head_start c h) (get_or 0 d)
                          | None \<Rightarrow> keep_list_recency_from p (head_start c h)))"

lemma h2o_head_list_in:
  assumes "no_nan hs" "no_nan imp" "hp_current p = current_pos c" "head_start c h \<le> current_pos c"
  shows "keep_in (head_start c h) (current_pos c) (h2o_head_list p hs imp c h)"
    "length (h2o_head_list p hs imp c h) = min (head_len c h) (hp_prefix p + hp_hh_budget p + hp_recent p)"
proof -
  have nf: "nan_free (\<lambda>pos. get_or 0 d (h * max_seq_len c + pos))" if "hs = Some d" for d using get_or_nan_free assms(1) that by blast
  have ni: "nan_free (get_or 0 d)" if "imp = Some d" for d using get_or_nan_free[where f = "\<lambda>x. x"] assms(2) that by simp
  show "keep_in (head_start c h) (current_pos c) (h2o_head_list p hs imp c h)"
    using compile_keep_in[OF nf, of _ "\<lparr>k_start = head_start c h, k_current = current_pos c, k_prefix = hp_prefix p, k_recent = hp_recent p, k_heavy = hp_hh_budget p\<rparr>"]
      compile_keep_in[OF ni, of _ "\<lparr>k_start = head_start c h, k_current = current_pos c, k_prefix = hp_prefix p, k_recent = hp_recent p, k_heavy = hp_hh_budget p\<rparr>"]
      compile_keep_in[OF no_score_nan_free, of "\<lparr>k_start = head_start c h, k_current = current_pos c, k_prefix = hp_prefix p, k_recent = hp_hh_budget p + hp_recent p, k_heavy = 0\<rparr>"]
      assms(3,4)
    by (auto simp: h2o_head_list_def keep_list_from_def keep_list_recency_from_def min_absorb1 split: option.splits)
  show "length (h2o_head_list p hs imp c h) = min (head_len c h) (hp_prefix p + hp_hh_budget p + hp_recent p)"
    using assms(3) by (auto simp: h2o_head_list_def keep_list_from_def keep_list_recency_from_def compile_length nf ni head_len_def
        add.assoc add.commute[of "hp_hh_budget p" "hp_recent p"] split: option.splits)
qed

lemma uniform_lens_same: "\<forall>x \<in> set kss. length x = m \<Longrightarrow> uniform_lens kss"
  by (induction kss rule: uniform_lens.induct) auto

lemma ctx_head_start_layer:
  assumes "kv_wf c" "h < kv_heads c"
  shows "ctx_head_start (layer_ctx snap dev caps l n t imp hs at c) h = head_start c h"
  using assms head_start_le[OF assms(1), of h] by (simp add: ctx_head_start_def get_or_def head_starts_def)

text \<open>
  What H2O means to keep of the positions from \<open>start\<close> to \<open>current\<close>: the first \<open>pre\<close>, the last \<open>recent\<close> and, of those in between, the best \<open>hh\<close> scorers; without
  scores the budget of the scorers goes to the recent ones.
\<close>

definition heavy_hitter_set :: "nat \<Rightarrow> nat \<Rightarrow> nat \<Rightarrow> nat \<Rightarrow> nat \<Rightarrow> (nat \<Rightarrow> f32) option \<Rightarrow> nat set" where
  "heavy_hitter_set start current pre hh recent score =
     (let pe = min (start + pre) current in {start..<pe} \<union> (case score of
        Some sc \<Rightarrow> best_scorers hh sc pe (max (current - recent) pe) \<union> {max (current - recent) pe..<current}
      | None \<Rightarrow> {max (current - (hh + recent)) pe..<current}))"

text \<open>The scores a head is ranked by: its own, else those of the layer.\<close>

definition scores_of :: "f32 list option \<Rightarrow> f32 list option \<Rightarrow> 'u kvcache \<Rightarrow> nat \<Rightarrow> (nat \<Rightarrow> f32) option" where
  "scores_of hs imp c h = (case hs of Some d \<Rightarrow> Some (\<lambda>pos. get_or 0 d (h * max_seq_len c + pos)) | None \<Rightarrow> map_option (get_or 0) imp)"

lemma sorted_keep: "keep_in a b ks \<Longrightarrow> set ks = A \<Longrightarrow> ks = sorted_list_of_set A"
  by (auto simp: keep_in_def strict_sorted_iff intro: sorted_list_of_set.idem_if_sorted_distinct[symmetric])

lemma h2o_head_list_set:
  assumes "no_nan hs" "no_nan imp" "hp_current p = current_pos c" "head_start c h \<le> current_pos c"
  shows "h2o_head_list p hs imp c h
    = sorted_list_of_set (heavy_hitter_set (head_start c h) (current_pos c) (hp_prefix p) (hp_hh_budget p) (hp_recent p) (scores_of hs imp c h))"
proof (rule sorted_keep[OF h2o_head_list_in(1)[OF assms]])
  have nf: "nan_free (\<lambda>pos. get_or 0 d (h * max_seq_len c + pos))" if "hs = Some d" for d using get_or_nan_free assms(1) that by blast
  have ni: "nan_free (get_or 0 d)" if "imp = Some d" for d using get_or_nan_free[where f = "\<lambda>x. x"] assms(2) that by simp
  show "set (h2o_head_list p hs imp c h)
    = heavy_hitter_set (head_start c h) (current_pos c) (hp_prefix p) (hp_hh_budget p) (hp_recent p) (scores_of hs imp c h)"
    using compile_set[OF nf assms(4)] compile_set[OF ni assms(4)] compile_set[OF no_score_nan_free assms(4)] assms(3)
    by (auto simp: h2o_head_list_def keep_list_from_def keep_list_recency_from_def heavy_hitter_set_def scores_of_def best_scorers_def Let_def split: option.splits)
qed

lemma h2o_lists_valid:
  assumes "kv_wf c" "layout c = HeadMajor" "is_ragged c \<longrightarrow> supports_ragged c" "no_nan hs" "no_nan imp" "hp_current p = current_pos c"
  shows "per_head_valid c (map (h2o_head_list p hs imp c) [0..<kv_heads c])"
proof -
  note l = h2o_head_list_in[OF assms(4-6) head_start_le[OF assms(1)]]
  have "uniform_lens (map (h2o_head_list p hs imp c) [0..<kv_heads c])" if "\<not> is_ragged c"
    using l(2) that
    by (intro uniform_lens_same[where m = "min (current_pos c) (hp_prefix p + hp_hh_budget p + hp_recent p)"])
      (auto simp: head_len_def not_ragged_start)
  with assms(2,3) l(1) show ?thesis by (auto simp: per_head_valid_def)
qed

lemma head_score_layer:
  "head_score (layer_ctx snap dev caps l n t imp (Some d) at c) h = (\<lambda>pos. get_or 0 d (h * max_seq_len c + pos))"
  by (rule ext) (simp add: head_score_def scalar_read_def)

text \<open>The drive by the partition of the code.\<close>

lemma h2o_drive:
  assumes "kv_wf c" "0 < current_pos c" "0 < kv_heads c" "layout c = HeadMajor" "is_ragged c \<longrightarrow> supports_ragged c"
    and "no_nan hs" "no_nan imp"
  shows "case h2o_partition_of s (current_pos c) t of
      None \<Rightarrow> drive_mutation_layer nu os env snap dev (h2o_on_phase s keep keep_per_head) caps l n t imp hs at c = Ok (False, c)
    | Some p \<Rightarrow> (\<exists>c'. drive_mutation_layer nu os env snap dev (h2o_on_phase s keep keep_per_head) caps l n t imp hs at c = Ok (True, c')
        \<and> kv_wf c'
        \<and> (\<forall>h < kv_heads c. contents c' h = map (cell c h) (h2o_head_list p hs imp c h)
            \<and> length (contents c' h) = min (head_len c h) (hp_prefix p + hp_hh_budget p + hp_recent p)))"
proof (cases "h2o_partition_of s (current_pos c) t")
  case None
  then show ?thesis by (auto simp: h2o_on_phase_def h2o_keep_spec_def apply_keep_spec_def intro!: drive_idle)
next
  case (Some p)
  have p: "hp_current p = current_pos c" using Some by (auto simp: h2o_partition_of_def Let_def split: if_splits option.splits h2o_budget.splits)
  let ?ctx = "layer_ctx snap dev caps l n t imp hs at c"
  let ?kss = "map (h2o_head_list p hs imp c) [0..<kv_heads c]"
  have st: "ctx_head_starts ?ctx = map (head_start c) [0..<kv_heads c]"
    using assms(1,3) ctx_head_start_layer[OF assms(1)] by (simp add: ctx_head_starts_def max_absorb1)
  have rag: "is_ragged c \<longleftrightarrow> list_ex (\<lambda>s. s > 0) (map (head_start c) [0..<kv_heads c])"
    using assms(1) by (fastforce simp: is_ragged_def head_start_def list_ex_iff in_set_conv_nth kv_wf_def)
  have v: "per_head_valid c ?kss" by (rule h2o_lists_valid[OF assms(1,4-7) p])
  have len: "length (h2o_head_list p hs imp c h) = min (head_len c h) (hp_prefix p + hp_hh_budget p + hp_recent p)" for h
    by (rule h2o_head_list_in(2)[OF assms(6,7) p head_start_le[OF assms(1)]])
  have "\<exists>c'. drive_mutation_layer nu os env snap dev (h2o_on_phase s keep keep_per_head) caps l n t imp hs at c = Ok (True, c')
      \<and> kv_wf c' \<and> (\<forall>h < kv_heads c. contents c' h = map (cell c h) (h2o_head_list p hs imp c h))"
  proof (cases "hs = None \<and> \<not> is_ragged c")
    case False
    then have "h2o_keep_spec s ?ctx = Some (PerHead ?kss)"
      using Some assms(3) rag st
      by (auto simp: h2o_keep_spec_def Let_def h2o_head_list_def has_head_scores_def head_score_layer
          max_absorb1 split: option.splits)
    then show ?thesis
      using drive_per_head[OF assms(1,2) v, where stage = "h2o_on_phase s keep keep_per_head" and t = t and snap = snap and dev = dev
          and caps = caps and l = l and n = n and imp = imp and hs = hs and at = at and nu = nu and os = os and env = env]
      by (auto simp: h2o_on_phase_def apply_keep_spec_def)
  next
    case True
    let ?ks = "h2o_head_list p hs imp c 0"
    have same: "h2o_head_list p hs imp c h = ?ks" for h
      by (simp only: h2o_head_list_def not_ragged_start[OF conjunct2[OF True]] conjunct1[OF True] option.case)
    have "h2o_keep_spec s ?ctx = Some (LayerWide ?ks)"
      using Some True rag st
      by (auto simp: h2o_keep_spec_def Let_def h2o_head_list_def has_head_scores_def not_ragged_start split: option.splits)
    moreover have "keep_in 0 (current_pos c) ?ks"
      using h2o_head_list_in(1)[OF assms(6,7) p head_start_le[OF assms(1)], of 0] True by (simp add: not_ragged_start)
    ultimately obtain c' where
      c': "drive_mutation_layer nu os env snap dev (h2o_on_phase s keep keep_per_head) caps l n t imp hs at c = Ok (True, c')"
      "kv_wf c'" "\<forall>h < kv_heads c. contents c' h = map (cell c h) ?ks"
      using drive_keep[OF assms(1) _ assms(2), where ks = ?ks and stage = "h2o_on_phase s keep keep_per_head" and t = t and snap = snap
          and dev = dev and caps = caps and l = l and n = n and imp = imp and hs = hs and at = at and nu = nu and os = os and env = env]
        True by (auto simp: h2o_on_phase_def apply_keep_spec_def)
    then show ?thesis using same by metis
  qed
  then show ?thesis using Some len by auto
qed

text \<open>
  C28: H2O. With scores that are not NaN, on a head-major well-formed cache, ragged or not. The budgets of heavy hitters and recent rows are the two
  configured numbers, or, from a target, two halves of what the target leaves beside the protected prefix, the odd one recent. A cache within prefix
  and budgets is left alone. Otherwise the stage succeeds and every head keeps, in order, exactly these of its resident rows: the first ones
  up to the protected prefix, the most recent ones up to their budget, and of the rows in between those that are outranked by
  fewer than the budget of heavy hitters, by the scores of the head or else of the layer; without scores that budget goes to the recent rows.
\<close>

theorem h2o_keeps_heavy_hitters:
  assumes "kv_wf c" "0 < current_pos c" "0 < kv_heads c" "layout c = HeadMajor" "is_ragged c \<longrightarrow> supports_ragged c" "no_nan hs" "no_nan imp"
    and "pre = min (h2o_protected_prefix s) (current_pos c)"
    and "h2o_budget_of s = Absolute hh recent
      \<or> h2o_budget_of s = FromTarget \<and> 0 < t \<and> hh + recent = min t (current_pos c) - pre \<and> hh \<le> recent \<and> recent \<le> hh + 1"
  shows "if current_pos c \<le> pre + hh + recent
    then drive_mutation_layer nu os env snap dev (h2o_on_phase s keep keep_per_head) caps l n t imp hs at c = Ok (False, c)
    else \<exists>c'. drive_mutation_layer nu os env snap dev (h2o_on_phase s keep keep_per_head) caps l n t imp hs at c = Ok (True, c') \<and> kv_wf c'
      \<and> (\<forall>h < kv_heads c. contents c' h
            = map (cell c h) (sorted_list_of_set (heavy_hitter_set (head_start c h) (current_pos c) pre hh recent (scores_of hs imp c h))))"
proof -
  have p: "h2o_partition_of s (current_pos c) t = (if current_pos c \<le> pre + hh + recent then None
      else Some \<lparr>hp_prefix = pre, hp_hh_budget = hh, hp_recent = recent, hp_current = current_pos c\<rparr>)"
    using assms(9)
  proof (elim disjE conjE)
    define e where "e = min t (current_pos c) - pre"
    assume "h2o_budget_of s = FromTarget" "0 < t" and b: "hh + recent = min t (current_pos c) - pre" "hh \<le> recent" "recent \<le> hh + 1"
    then have "h2o_partition_of s (current_pos c) t = (if current_pos c \<le> pre + e div 2 + (e - e div 2) then None
        else Some \<lparr>hp_prefix = pre, hp_hh_budget = e div 2, hp_recent = e - e div 2, hp_current = current_pos c\<rparr>)"
      unfolding h2o_partition_of_def assms(8)[symmetric] Let_def e_def[symmetric] by simp
    moreover have "e div 2 = hh" using b unfolding e_def[symmetric] by linarith
    moreover have "e - hh = recent" using b(1) unfolding e_def[symmetric] by linarith
    ultimately show ?thesis by metis
  qed (simp add: h2o_partition_of_def assms(8)[symmetric])
  note drive = h2o_drive[OF assms(1-7), where s = s and t = t and nu = nu and os = os and env = env and snap = snap and dev = dev and caps = caps
      and l = l and n = n and at = at, unfolded p]
  show ?thesis
  proof (cases "current_pos c \<le> pre + hh + recent")
    case True
    with drive show ?thesis by simp
  next
    case False
    let ?p = "\<lparr>hp_prefix = pre, hp_hh_budget = hh, hp_recent = recent, hp_current = current_pos c\<rparr>"
    have "h2o_head_list ?p hs imp c h
        = sorted_list_of_set (heavy_hitter_set (head_start c h) (current_pos c) pre hh recent (scores_of hs imp c h))" for h
      using h2o_head_list_set[OF assms(6,7) _ head_start_le[OF assms(1)], of ?p] by simp
    with drive False show ?thesis by simp blast
  qed
qed

text \<open>One protected row, one heavy hitter (row 3 by score) and one recent row of seven.\<close>

theorem h2o_keeps_heavy_hitters_witness:
  "\<exists>c'. drive_mutation_layer demo_numerics demo_os demo_env no_snap False
      (h2o_on_phase \<lparr>h2o_budget_of = Absolute 1 1, h2o_protected_prefix = 1\<rparr> keep keep_per_head)
      SCORE_FREE 0 1 0 None (Some [0, 1, 2, 0x40400000, 0, 0, 0, 0]) None demo_long = Ok (True, c')
    \<and> contents c' 0 = [([10], [20]), ([13], [23]), ([16], [26])]"
proof -
  let ?s = "\<lparr>h2o_budget_of = Absolute 1 1, h2o_protected_prefix = 1\<rparr>"
  let ?hs = "Some [0, 1, 2, 0x40400000, 0, 0, 0, 0 :: f32]"
  let ?p = "\<lparr>hp_prefix = 1, hp_hh_budget = 1, hp_recent = 1, hp_current = 7\<rparr>"
  have q: "0 < current_pos demo_long" "0 < kv_heads demo_long" "is_ragged demo_long \<longrightarrow> supports_ragged demo_long"
    "no_nan ?hs" "no_nan None" "1 = min (h2o_protected_prefix ?s) (current_pos demo_long)"
    "h2o_budget_of ?s = Absolute 1 1 \<or> h2o_budget_of ?s = FromTarget \<and> 0 < 0 \<and> 1 + 1 = min 0 (current_pos demo_long) - 1 \<and> 1 \<le> (1 :: nat) \<and> 1 \<le> 1 + (1 :: nat)"
    using demo_long_ok by (simp_all add: no_nan_def f32_is_nan_def)
  obtain c' where c': "drive_mutation_layer demo_numerics demo_os demo_env no_snap False (h2o_on_phase ?s keep keep_per_head)
      SCORE_FREE 0 1 0 None ?hs None demo_long = Ok (True, c')"
    "contents c' 0 = map (cell demo_long 0) (sorted_list_of_set (heavy_hitter_set (head_start demo_long 0) (current_pos demo_long) 1 1 1 (scores_of ?hs None demo_long 0)))"
    using h2o_keeps_heavy_hitters[OF demo_long_ok(1) q(1,2) demo_long_ok(5) q(3-7), where nu = demo_numerics and os = demo_os and env = demo_env
      and snap = no_snap and dev = False and caps = "SCORE_FREE" and l = 0 and n = 1 and at = None] q(2)
    by (simp add: demo_long_ok(3) split: if_splits) blast
  have "sorted_list_of_set (heavy_hitter_set (head_start demo_long 0) (current_pos demo_long) 1 1 1 (scores_of ?hs None demo_long 0)) = h2o_head_list ?p ?hs None demo_long 0"
    using h2o_head_list_set[OF q(4,5), of ?p demo_long 0] head_start_le[OF demo_long_ok(1)] demo_long_ok by simp
  also have "\<dots> = keep_list_from ?p 0 (\<lambda>pos. get_or 0 [0, 1, 2, 0x40400000, 0, 0, 0, 0 :: f32] pos)"
    using demo_long_ok by (simp add: h2o_head_list_def not_ragged_start)
  also have "\<dots> = [0, 3, 6]" by code_simp
  finally have "contents c' 0 = map (cell demo_long 0) [0, 3, 6]" using c'(2) by metis
  moreover have "map (cell demo_long 0) [0, 3, 6] = [([10], [20]), ([13], [23]), ([16], [26])]"
    by (simp add: cell_def rowat_def row_ix_def demo_long_def row_def is_q4_def is_opaque_def)
  ultimately show ?thesis using c'(1) by metis
qed

section \<open>Ragged caches\<close>

lemma first_below_zero: "keep_in 0 n ks \<Longrightarrow> 0 \<in> set ks \<Longrightarrow> 0 < f \<Longrightarrow> first_below ks f"
  using first_below_iff[of ks f] by (auto simp: keep_in_def)

lemma ragged_head:
  assumes "kv_wf c" "is_ragged c"
  obtains h where "h < kv_heads c" "0 < head_start c h"
proof -
  from assms(2) obtain h where "h < length (head_starts_raw c)" "0 < head_starts_raw c ! h"
    by (auto simp: is_ragged_def list_ex_iff in_set_conv_nth)
  moreover from this assms(1) have "h < kv_heads c" by (auto simp: kv_wf_def)
  ultimately show thesis using that[of h] by (simp add: head_start_def)
qed

lemma keep_not_resident:
  assumes "kv_wf c" "is_ragged c" "keep_in 0 (current_pos c) ks" "0 \<in> set ks"
  shows "keep ks (handle_new c dev l n) = (Err NotResident, handle_new c dev l n)"
proof -
  from ragged_head[OF assms(1,2)] obtain h where "h < kv_heads c" "0 < head_start c h" .
  then have "0 < max_list (map (head_start c) [0..<kv_heads c])"
    using max_list_ge[of "head_start c h" "map (head_start c) [0..<kv_heads c]"] by auto
  from first_below_zero[OF assms(3,4) this] assms(2) validate_keep_in[OF assms(3)] show ?thesis
    by (simp add: keep_def handle_new_def)
qed

lemma check_heads_not_resident:
  assumes "\<forall>ks \<in> set kss. keep_in 0 n ks \<and> 0 \<in> set ks" "j < length kss" "0 < start (i + j)"
  shows "check_heads n start i kss = Err NotResident"
  using assms
proof (induction kss arbitrary: i j)
  case (Cons ks kss)
  have v: "validate_keep n ks = Ok ()" using Cons.prems(1) validate_keep_in by simp
  show ?case
  proof (cases "0 < start i")
    case True
    with first_below_zero[of n ks "start i"] Cons.prems(1) v show ?thesis by simp
  next
    case False
    then obtain m where "j = Suc m" using Cons.prems(3) by (cases j) auto
    with Cons.IH[of m "Suc i"] Cons.prems False v show ?thesis by (auto simp: first_below_def split: list.splits)
  qed
qed simp

lemma keep_per_head_not_resident:
  assumes "kv_wf c" "is_ragged c" "supports_ragged c" "length kss = kv_heads c"
    and "\<forall>ks \<in> set kss. keep_in 0 (current_pos c) ks \<and> 0 \<in> set ks"
  shows "keep_per_head kss (handle_new c dev l n) = (Err NotResident, handle_new c dev l n)"
proof -
  from ragged_head[OF assms(1,2)] obtain h where "h < kv_heads c" "0 < head_start c h" .
  then have "check_heads (current_pos c) (head_start c) 0 kss = Err NotResident"
    using check_heads_not_resident[OF assms(5), of h "head_start c" 0] assms(4) by simp
  then show ?thesis using assms(3,4) by (simp add: keep_per_head_def handle_new_def supports_ragged_def)
qed

lemma compile_has_zero: "k_start spec = 0 \<Longrightarrow> 0 < k_prefix spec \<Longrightarrow> 0 < k_current spec \<Longrightarrow> 0 \<in> set (compile_keep_top_k spec s)"
  by (simp add: compile_keep_top_k_def Let_def)

lemma sliding_has_zero: "0 < current \<Longrightarrow> 0 \<in> set (sliding_keep_list (SlidingWindow_new window protected) current t)"
  unfolding sliding_keep_list_cases by (simp add: SlidingWindow_new_def less_max_iff_disj)

lemma tova_lists:
  assumes "no_nan at" "no_nan imp" "0 < pre" "0 < current_pos c"
    and "spec = \<lparr>k_start = 0, k_current = current_pos c, k_prefix = pre, k_recent = r, k_heavy = m\<rparr>"
    and "(\<exists>h. at \<noteq> None \<and> s = attn_weight (layer_ctx snap dev caps l n t imp hs at c) h) \<or> (\<exists>d. imp = Some d \<and> s = get_or 0 d) \<or> s = no_score"
  shows "keep_in 0 (current_pos c) (compile_keep_top_k spec s) \<and> 0 \<in> set (compile_keep_top_k spec s)"
proof -
  have "attn_weight (layer_ctx snap dev caps l n t imp hs (Some d) c) h = (\<lambda>pos. get_or 0 d (h * max_seq_len c + pos))" for d h
    by (rule ext) (simp add: attn_weight_def scalar_read_def)
  with assms(1,2,6) get_or_nan_free get_or_nan_free[where f = "\<lambda>x. x"] have "nan_free s" by fastforce
  with compile_keep_in[of s spec] compile_has_zero[of spec s] assms(3-5) show ?thesis by simp
qed

lemma tova_refused:
  fixes h0 :: "('u, 'w) cache_handle"
  assumes "kv_wf c" "supports_ragged c" "is_ragged c" "no_nan at" "no_nan imp"
    and m: "0 < m" "0 < pre" "pre + m < current_pos c" and h0: "h0 = handle_new c dev l n"
  shows "tova_on_phase \<lparr>tv_cache_size = m, tv_protected_prefix = pre\<rparr> keep keep_per_head
      (layer_ctx snap dev caps l n t imp hs at c) h0 = (Err NotResident, h0)"
proof -
  let ?ctx = "layer_ctx snap dev caps l n t imp hs at c"
  let ?spec = "\<lparr>k_start = 0, k_current = current_pos c, k_prefix = pre, k_recent = 0, k_heavy = m\<rparr>"
  have pos: "0 < current_pos c" using m by simp
  note li = tova_lists[OF assms(4,5) m(2) pos]
  have hd: "0 < kv_heads c" using ragged_head[OF assms(1,3)] by (metis gr_zeroI not_less0)
  have b: "\<not> (m = 0 \<or> current_pos c \<le> min pre (current_pos c) + m)" "min pre (current_pos c) = pre" using m by auto
  show ?thesis
  proof (cases "at = None")
    case False
    have "keep_in 0 (current_pos c) (compile_keep_top_k ?spec (attn_weight ?ctx h)) \<and> 0 \<in> set (compile_keep_top_k ?spec (attn_weight ?ctx h))"
      for h by (rule li[OF refl]) (use False in blast)
    then have "keep_per_head (map (\<lambda>kv_h. compile_keep_top_k ?spec (attn_weight ?ctx kv_h)) [0..<max (kv_heads c) 1]) h0 = (Err NotResident, h0)"
      unfolding h0 using hd by (intro keep_per_head_not_resident[OF assms(1,3,2)]) simp_all
    moreover have "tova_keep_spec \<lparr>tv_cache_size = m, tv_protected_prefix = pre\<rparr> ?ctx
        = Some (PerHead (map (\<lambda>kv_h. compile_keep_top_k ?spec (attn_weight ?ctx kv_h)) [0..<max (kv_heads c) 1]))"
      using b False by (simp add: tova_keep_spec_def Let_def has_attn_weights_def)
    ultimately show ?thesis by (simp only: tova_on_phase_def apply_keep_spec_def result.case option.case keep_spec.case)
  next
    case True
    obtain spec s where sp: "tova_keep_spec \<lparr>tv_cache_size = m, tv_protected_prefix = pre\<rparr> ?ctx = Some (LayerWide (compile_keep_top_k spec s))"
      "\<exists>r m. spec = \<lparr>k_start = 0, k_current = current_pos c, k_prefix = pre, k_recent = r, k_heavy = m\<rparr>"
      "(\<exists>d. imp = Some d \<and> s = get_or 0 d) \<or> s = no_score"
      using b True by (cases imp) (auto simp: tova_keep_spec_def Let_def has_attn_weights_def)
    then have "keep (compile_keep_top_k spec s) h0 = (Err NotResident, h0)"
      unfolding h0 using li keep_not_resident[OF assms(1,3)] by metis
    with sp(1) show ?thesis by (simp only: tova_on_phase_def apply_keep_spec_def result.case option.case keep_spec.case)
  qed
qed

text \<open>
  Techniques that name positions from zero fail on a ragged cache. Where some head does not hold position
  zero any more, the sliding window (even within its budget), StreamingLLM above its budget, and TOVA with a
  protected prefix above its budget are refused by the handle: the drive ends with the error \<open>NotResident\<close>
  and evicts nothing.
\<close>

theorem zero_based_stages_fail_on_ragged:
  assumes "kv_wf c" "supports_ragged c" "is_ragged c" "0 < current_pos c" "no_nan at" "no_nan imp"
  shows "drive_mutation_layer nu os env snap dev (sliding_on_phase (SlidingWindow_new window protected) keep) caps l n t imp hs at c
      = Err (StageFailed NotResident)
    \<and> (streaming_budget (StreamingLlm_new sink window) t < current_pos c \<longrightarrow>
      drive_mutation_layer nu os env snap dev (streaming_on_phase (StreamingLlm_new sink window) keep) caps l n t imp hs at c
      = Err (StageFailed NotResident))
    \<and> (0 < m \<and> 0 < pre \<and> pre + m < current_pos c \<longrightarrow>
      drive_mutation_layer nu os env snap dev
        (tova_on_phase \<lparr>tv_cache_size = m, tv_protected_prefix = pre\<rparr> keep keep_per_head) caps l n t imp hs at c
      = Err (StageFailed NotResident))"
proof (intro conjI impI)
  show "drive_mutation_layer nu os env snap dev (sliding_on_phase (SlidingWindow_new window protected) keep) caps l n t imp hs at c
      = Err (StageFailed NotResident)"
    by (rule drive_refused[OF _ assms(4)])
      (simp add: sliding_on_phase_def keep_not_resident[OF assms(1,3) sliding_keep_list_in sliding_has_zero[OF assms(4)]])
next
  assume a: "streaming_budget (StreamingLlm_new sink window) t < current_pos c"
  let ?spec = "\<lparr>k_start = 0, k_current = current_pos c, k_prefix = max sink 1,
    k_recent = streaming_budget (StreamingLlm_new sink window) t - max sink 1, k_heavy = 0\<rparr>"
  have "keep_in 0 (current_pos c) (compile_keep_top_k ?spec no_score)" "0 \<in> set (compile_keep_top_k ?spec no_score)"
    using compile_keep_in[OF no_score_nan_free, of ?spec] compile_has_zero[of ?spec no_score] assms(4) by simp_all
  note k = keep_not_resident[OF assms(1,3) this]
  have "streaming_keep_spec (StreamingLlm_new sink window) (current_pos c) t = Some ?spec"
    using a by (simp add: streaming_compiled) (simp add: StreamingLlm_new_def)
  then show "drive_mutation_layer nu os env snap dev (streaming_on_phase (StreamingLlm_new sink window) keep) caps l n t imp hs at c
      = Err (StageFailed NotResident)"
    by (intro drive_refused[OF _ assms(4)]) (simp add: streaming_on_phase_def keep_top_k_def k[simplified])
next
  assume a: "0 < m \<and> 0 < pre \<and> pre + m < current_pos c"
  then show "drive_mutation_layer nu os env snap dev
        (tova_on_phase \<lparr>tv_cache_size = m, tv_protected_prefix = pre\<rparr> keep keep_per_head) caps l n t imp hs at c
      = Err (StageFailed NotResident)"
    using tova_refused[OF assms(1-3,5,6) _ _ _ refl] by (intro drive_refused[OF _ assms(4)]) blast
qed

theorem zero_based_stages_fail_on_ragged_witness:
  "drive_mutation_layer demo_numerics demo_os demo_env no_snap False (sliding_on_phase (SlidingWindow_new 100 4) keep)
      SCORE_FREE 0 1 3 None None None demo_ragged = Err (StageFailed NotResident)"
proof -
  have "kv_wf demo_ragged" "supports_ragged demo_ragged" "is_ragged demo_ragged" "0 < current_pos demo_ragged"
    by (simp_all add: demo_ragged_def demo_full_def kv_wf_def demo_cache_def format_ok_def bufs_ok_def row_def is_q4_def
        zero_alloc_law supports_ragged_def is_opaque_def is_ragged_def)
  moreover have "no_nan None" by (simp add: no_nan_def)
  ultimately show ?thesis using zero_based_stages_fail_on_ragged by blast
qed

section \<open>The prefill-end techniques\<close>

text \<open>A list of a head that starts at \<open>start\<close>: valid, of the given budget, and with the recent window in it.\<close>

definition head_list_ok :: "nat \<Rightarrow> nat \<Rightarrow> nat \<Rightarrow> nat \<Rightarrow> nat list \<Rightarrow> bool" where
  "head_list_ok current start budget recent ks \<longleftrightarrow> keep_in start current ks \<and> length ks = min (current - start) budget
     \<and> {max start (current - recent)..<current} \<subseteq> set ks"

fun spec_ok :: "nat \<Rightarrow> nat list \<Rightarrow> nat \<Rightarrow> nat \<Rightarrow> keep_spec \<Rightarrow> bool" where
  "spec_ok current starts budget recent (LayerWide ks) \<longleftrightarrow> list_all (\<lambda>s. s = 0) starts \<and> head_list_ok current 0 budget recent ks"
| "spec_ok current starts budget recent (PerHead kss) \<longleftrightarrow> length kss = length starts
     \<and> (\<forall>h < length starts. head_list_ok current (starts ! h) budget recent (kss ! h))"

lemma compiled_ok:
  assumes "nan_free s" "start \<le> current" "budget = pre + recent + heavy" "r \<le> recent"
  shows "head_list_ok current start budget r
    (compile_keep_top_k \<lparr>k_start = start, k_current = current, k_prefix = pre, k_recent = recent, k_heavy = heavy\<rparr> s)"
proof -
  let ?spec = "\<lparr>k_start = start, k_current = current, k_prefix = pre, k_recent = recent, k_heavy = heavy\<rparr>"
  have "{max start (current - r)..<current} \<subseteq> set (compile_keep_top_k ?spec s)"
    using assms(2,4) by (auto simp: compile_keep_top_k_def Let_def min_def max_def)
  then show ?thesis
    using compile_keep_in[OF assms(1), of ?spec] compile_length[OF assms(1), of ?spec] assms(2,3)
    by (simp add: head_list_ok_def min_absorb1)
qed

lemma window_list_ok:
  assumes "n_kept \<le> current" "protected \<le> current"
  shows "head_list_ok current 0 (protected + n_kept) n_kept ([0..<protected] @ filter (\<lambda>p. p \<ge> protected) [current - n_kept..<current])"
proof -
  have f: "filter (\<lambda>p. p \<ge> protected) [lo..<hi] = [max protected lo..<hi]" for lo hi
    by (induction hi) (auto simp: max_def)
  have "length ([0..<protected] @ [max protected (current - n_kept)..<current]) = min current (protected + n_kept)"
    using assms by auto
  moreover have "keep_in 0 current ([0..<protected] @ [max protected (current - n_kept)..<current])"
    using assms by (auto simp: keep_in_def sorted_wrt_append)
  ultimately show ?thesis unfolding f head_list_ok_def by auto
qed

lemma window_keep_ok:
  assumes "n_kept \<le> current" "protected \<le> current" "\<forall>s \<in> set starts. s \<le> current"
  shows "spec_ok current starts (protected + n_kept) n_kept (window_keep starts current protected n_kept)"
  using assms window_list_ok[OF assms(1,2)] compiled_ok[OF no_score_nan_free, of _ current "protected + n_kept" protected n_kept 0 n_kept]
  by (auto simp: window_keep_def)

lemma fallback_keep_ok:
  assumes "no_nan importance" "\<forall>s \<in> set starts. s \<le> current" "n_kept = window + heavy"
  shows "spec_ok current starts (protected + n_kept) window (fallback_keep importance starts current protected window heavy n_kept)"
proof -
  have nf: "nan_free (get_or 0 d)" if "importance = Some d" for d using get_or_nan_free[where f = "\<lambda>x. x"] assms(1) that by simp
  have "head_list_ok current s (protected + n_kept) window (case importance of
          Some imp \<Rightarrow> compile_keep_top_k \<lparr>k_start = s, k_current = current, k_prefix = protected, k_recent = window, k_heavy = heavy\<rparr> (get_or 0 imp)
        | None \<Rightarrow> compile_keep_top_k \<lparr>k_start = s, k_current = current, k_prefix = protected, k_recent = n_kept, k_heavy = 0\<rparr> no_score)"
    if "s \<le> current" for s
    using that nf assms(3) by (cases importance) (auto intro!: compiled_ok)
  then show ?thesis using assms(2) by (auto simp: fallback_keep_def Let_def)
qed

lemma ctx_starts_le: "\<forall>s \<in> set (ctx_head_starts ctx). s \<le> s_current_pos ctx"
  by (auto simp: ctx_head_starts_def ctx_head_start_def)

lemma prefill_keep_spec_ok:
  assumes imp: "no_nan (s_importance ctx)"
    and sel: "\<And>pfa spec starts. s_pfa ctx = Some pfa \<Longrightarrow> ss_n_kv_heads spec \<le> ss_n_q_heads spec \<Longrightarrow>
      ss_current spec - ss_window spec \<le> ss_cols spec \<Longrightarrow> length starts = ss_n_kv_heads spec \<Longrightarrow> \<forall>s \<in> set starts. s \<le> ss_current spec \<Longrightarrow>
      \<exists>kss. select pfa spec starts = Ok kss
        \<and> spec_ok (ss_current spec) starts (ss_protected spec + (ss_window spec + ss_heavy spec)) (ss_window spec) (PerHead kss)"
    and cur: "cur = s_current_pos ctx"
  shows "\<exists>r. prefill_keep_spec window_size budget select ksize ctx = Ok r
    \<and> (r = None \<longleftrightarrow> cur = 0 \<or> budget = None \<or> cur \<le> the budget \<or> cur = 1)
    \<and> (\<forall>spec. r = Some spec \<longrightarrow> spec_ok cur (ctx_head_starts ctx)
         (min (s_protected_prefix ctx) cur + max 1 (the budget)) (min window_size (max 1 (the budget))) spec)"
proof (cases "cur = 0 \<or> budget = None \<or> cur \<le> the budget \<or> cur = 1")
  case True
  then have "budget = None \<or> (\<exists>raw. budget = Some raw \<and> (cur = 0 \<or> max 1 (min raw cur) \<ge> cur))" by (cases budget) auto
  then have "prefill_keep_spec window_size budget select ksize ctx = Ok None"
    unfolding prefill_keep_spec_def Let_def by (auto simp: cur)
  with True show ?thesis by auto
next
  case False
  then obtain raw where b: "budget = Some raw" "raw < cur" "1 < cur" by (cases budget) auto
  let ?n = "max 1 raw"
  let ?w = "min window_size cur"
  let ?p = "min (s_protected_prefix ctx) cur"
  have n: "max 1 (min raw cur) = ?n" "\<not> ?n \<ge> cur" "?n \<le> cur" using b by auto
  show ?thesis
  proof (cases "?n \<le> ?w")
    case True
    then have "prefill_keep_spec window_size budget select ksize ctx = Ok (Some (window_keep (ctx_head_starts ctx) cur ?p ?n))"
      unfolding prefill_keep_spec_def Let_def using b n by (simp add: cur)
    moreover have "min window_size ?n = ?n" using True by simp
    ultimately show ?thesis
      using window_keep_ok[OF n(3), of ?p "ctx_head_starts ctx"] ctx_starts_le[of ctx] b by (auto simp: cur)
  next
    case w: False
    have mw: "min window_size ?n = ?w" and nw: "?w + (?n - ?w) = ?n" using w n by auto
    let ?fb = "fallback_keep (s_importance ctx) (ctx_head_starts ctx) cur ?p ?w (?n - ?w) ?n"
    have fb: "spec_ok cur (ctx_head_starts ctx) (?p + ?n) ?w ?fb"
      using fallback_keep_ok[OF imp _ nw[symmetric], of "ctx_head_starts ctx" cur ?p] ctx_starts_le[of ctx] by (simp add: cur)
    let ?spec = "\<lambda>pfa. \<lparr>ss_n_q_heads = pfa_rows pfa, ss_n_kv_heads = max (s_n_kv_heads ctx) 1, ss_cols = pfa_cols pfa,
                      ss_current = cur, ss_window = ?w, ss_kernel = ksize, ss_heavy = ?n - ?w, ss_protected = ?p\<rparr>"
    have e: "prefill_keep_spec window_size budget select ksize ctx = (case s_pfa ctx of None \<Rightarrow> Ok (Some ?fb)
        | Some pfa \<Rightarrow> if pfa_rows pfa \<ge> max (s_n_kv_heads ctx) 1 \<and> pfa_rows pfa mod max (s_n_kv_heads ctx) 1 = 0 \<and> pfa_cols pfa \<ge> cur - ?w
            then and_then (select pfa (?spec pfa) (ctx_head_starts ctx)) (\<lambda>heads. Ok (Some (PerHead heads))) else Ok (Some ?fb))"
    proof -
      have "cur \<noteq> 0" using b by simp
      then show ?thesis
        by (simp only: prefill_keep_spec_def Let_def cur[symmetric] b(1) option.case n(1) if_not_P[OF n(2)] if_not_P[OF w] if_False)
    qed
    have "\<exists>spec. prefill_keep_spec window_size budget select ksize ctx = Ok (Some spec) \<and> spec_ok cur (ctx_head_starts ctx) (?p + ?n) ?w spec"
    proof (cases "\<exists>pfa. s_pfa ctx = Some pfa \<and> pfa_rows pfa \<ge> max (s_n_kv_heads ctx) 1 \<and> pfa_rows pfa mod max (s_n_kv_heads ctx) 1 = 0
        \<and> pfa_cols pfa \<ge> cur - ?w")
      case True
      then obtain pfa where pfa: "s_pfa ctx = Some pfa" "pfa_rows pfa \<ge> max (s_n_kv_heads ctx) 1" "pfa_rows pfa mod max (s_n_kv_heads ctx) 1 = 0"
        "pfa_cols pfa \<ge> cur - ?w" by (elim exE conjE)
      have len: "length (ctx_head_starts ctx) = max (s_n_kv_heads ctx) 1" by (simp add: ctx_head_starts_def)
      have "ss_n_kv_heads (?spec pfa) \<le> ss_n_q_heads (?spec pfa)"
        "ss_current (?spec pfa) - ss_window (?spec pfa) \<le> ss_cols (?spec pfa)" "length (ctx_head_starts ctx) = ss_n_kv_heads (?spec pfa)"
        "\<forall>s \<in> set (ctx_head_starts ctx). s \<le> ss_current (?spec pfa)"
        using pfa(2,4) len ctx_starts_le[of ctx, folded cur] by (simp_all only: snapkv_select.select_convs)
      from sel[OF pfa(1) this] obtain kss where
        k: "select pfa (?spec pfa) (ctx_head_starts ctx) = Ok kss" "spec_ok cur (ctx_head_starts ctx) (?p + ?n) ?w (PerHead kss)"
        unfolding snapkv_select.select_convs nw by blast
      have "prefill_keep_spec window_size budget select ksize ctx = Ok (Some (PerHead kss))"
        using pfa(2-4) by (simp only: e pfa(1) option.case k(1) and_then.simps simp_thms if_True)
      with k(2) show ?thesis by blast
    next
      case False
      then have "prefill_keep_spec window_size budget select ksize ctx = Ok (Some ?fb)"
        unfolding e by (cases "s_pfa ctx") (simp, simp only: option.case option.inject if_False simp_thms)
      with fb show ?thesis by blast
    qed
    moreover have "\<not> cur \<le> raw" "cur \<noteq> 0" "cur \<noteq> 1" using b by simp_all
    ultimately show ?thesis unfolding b(1) option.sel mw by (metis option.distinct(1) option.inject)
  qed
qed

lemma snapkv_select_ok:
  assumes "\<And>spec kvh. nan_free (get_or 0 (snapkv_scores fo spec (snapkv_pooled fo spec (pfa_read pfa)) kvh))"
    and "ss_n_kv_heads spec \<le> ss_n_q_heads spec" "ss_current spec - ss_window spec \<le> ss_cols spec"
    and "length starts = ss_n_kv_heads spec" "\<forall>s \<in> set starts. s \<le> ss_current spec"
  shows "\<exists>kss. snapkv_select_heads fo pfa spec starts = Ok kss
    \<and> spec_ok (ss_current spec) starts (ss_protected spec + (ss_window spec + ss_heavy spec)) (ss_window spec) (PerHead kss)"
proof -
  have "starts ! h \<le> ss_current spec" if "h < ss_n_kv_heads spec" for h using that assms(4,5) by simp
  with assms(2-4) show ?thesis
    by (auto simp: snapkv_select_heads_def snapkv_per_head_keep_from_def Let_def get_or_def[of 0 starts]
        intro!: compiled_ok assms(1))
qed

text \<open>What a prefill-end technique with the budget \<open>b\<close> and the window \<open>w\<close> may answer.\<close>

definition prefill_outcome :: "stage_ctx \<Rightarrow> nat option \<Rightarrow> nat \<Rightarrow> (cache_op_error, keep_spec option) result \<Rightarrow> bool" where
  "prefill_outcome ctx b w res \<longleftrightarrow> (\<exists>r. res = Ok r
     \<and> (r = None \<longleftrightarrow> s_current_pos ctx = 0 \<or> b = None \<or> s_current_pos ctx \<le> the b \<or> s_current_pos ctx = 1)
     \<and> (\<forall>spec. r = Some spec \<longrightarrow> spec_ok (s_current_pos ctx) (ctx_head_starts ctx)
          (min (s_protected_prefix ctx) (s_current_pos ctx) + max 1 (the b)) (min w (max 1 (the b))) spec))"

text \<open>
  SnapKV and PyramidKV. Whatever the prefill attention, its geometry and the budget, computing the keep-set
  never panics (the index panics of the shared selection are guarded by the stage). It keeps everything exactly
  when there is no budget, the budget covers the cache, or one token is left; otherwise every head keeps
  its protected prefix plus the budget, cut off at what it holds, of its own resident positions, and
  always its recent window (as far as the budget goes). All heads of a uniform cache keep the same number.
\<close>

theorem snapkv_keeps_budget:
  assumes "no_nan (s_importance ctx)"
    and "\<And>pfa spec kvh. s_pfa ctx = Some pfa \<Longrightarrow> nan_free (get_or 0 (snapkv_scores fo spec (snapkv_pooled fo spec (pfa_read pfa)) kvh))"
  shows "prefill_outcome ctx (snapkv_config_budget cfg (s_current_pos ctx) (s_target_len ctx)) (sk_window_size cfg) (snapkv_keep_spec fo cfg ctx)
    \<and> prefill_outcome ctx (pk_layer_budget pcfg (s_current_pos ctx) (s_target_len ctx) (s_n_layers ctx) (s_layer_idx ctx))
        (pk_window_size pcfg) (pyramidkv_keep_spec fo pcfg ctx)"
proof -
  note sel = snapkv_select_ok[OF assms(2)]
  show ?thesis
    unfolding prefill_outcome_def snapkv_keep_spec_def pyramidkv_keep_spec_def
    by (intro conjI prefill_keep_spec_ok[OF assms(1) sel refl])
qed

text \<open>Seven positions, a budget of three, a window of one; no prefill attention, so the importance decides.\<close>

theorem snapkv_keeps_budget_witness:
  "prefill_outcome (layer_ctx no_snap False SCORE_FREE 0 1 3 (Some [0, 9, 0, 7, 0, 0]) None None demo_long) (Some 3) 1
      (snapkv_keep_spec \<lparr>f_add = (\<lambda>x y. x), f_mul = (\<lambda>x y. x), f_div = (\<lambda>x y. x), f_max = (\<lambda>x y. x), f_of_nat = (\<lambda>n. 0)\<rparr>
        \<lparr>sk_ratio_budget = None, sk_window_size = 1, sk_kernel_size = 1\<rparr>
        (layer_ctx no_snap False SCORE_FREE 0 1 3 (Some [0, 9, 0, 7, 0, 0]) None None demo_long))"
proof -
  let ?fo = "\<lparr>f_add = (\<lambda>x y. x), f_mul = (\<lambda>x y. x), f_div = (\<lambda>x y. x), f_max = (\<lambda>x y. x), f_of_nat = (\<lambda>n. 0)\<rparr> :: f32_ops"
  let ?cfg = "\<lparr>sk_ratio_budget = None, sk_window_size = 1, sk_kernel_size = 1\<rparr> :: snapkv_config"
  let ?pcfg = "\<lparr>pk_layer_budget = (\<lambda>_ _ _ _. None), pk_window_size = 1, pk_kernel_size = 1\<rparr>"
  let ?ctx = "layer_ctx no_snap False SCORE_FREE 0 1 3 (Some [0, 9, 0, 7, 0, 0]) None None demo_long"
  have a: "no_nan (s_importance ?ctx)" "s_pfa ?ctx = None" by (simp_all add: no_nan_def f32_is_nan_def)
  have b: "snapkv_config_budget ?cfg (s_current_pos ?ctx) (s_target_len ?ctx) = Some 3" "sk_window_size ?cfg = 1"
    using demo_long_ok by (simp_all add: snapkv_config_budget_def)
  have n: "nan_free (get_or 0 (snapkv_scores ?fo spec (snapkv_pooled ?fo spec (pfa_read pfa)) kvh))"
    if "s_pfa ?ctx = Some pfa" for pfa spec kvh using that a(2) by simp
  from snapkv_keeps_budget[of ?ctx ?fo ?cfg ?pcfg, OF a(1) n] show ?thesis unfolding b by (rule conjunct1)
qed

text \<open>Every technique of this development is drop-only, so what it plans is what it does.\<close>

lemma techniques_drop_only:
  "keep_stage no_eviction_on_phase" "keep_stage (sliding_on_phase w keep)" "keep_stage (streaming_on_phase st keep)"
  "keep_stage (keep_recent_on_phase keep)" "keep_stage (bundle_per_head_on_phase keep_per_head)"
  "keep_stage (h2o_on_phase h keep keep_per_head)" "keep_stage (tova_on_phase tv keep keep_per_head)"
  by (auto simp: keep_stage_def no_eviction_on_phase_def sliding_on_phase_def streaming_on_phase_def keep_top_k_def
      keep_recent_on_phase_def bundle_per_head_on_phase_def h2o_on_phase_def tova_on_phase_def apply_keep_spec_def
      split: option.splits keep_spec.splits)

end
