(* ===== verification/Pipeline.thy ===== *)
theory Pipeline
  imports Prelude "HOL-Library.Sublist"
begin

text \<open>
  The stage pipeline of the decode loop: \<^verbatim>\<open>engine/src/pipeline.rs\<close> (pressure, phases, outcomes), the pressure
  level of \<^verbatim>\<open>engine/src/kv.rs\<close>, and the registry of \<^verbatim>\<open>engine/src/session/pipeline_registry.rs\<close>.

  A stage is a trait object with interior state. Here it is its callback on a world \<open>'s\<close>, which holds whatever
  the stages share (caches, cells, profiler) and the private cells of each. The mutex of the registry is not
  modelled: inference is single-threaded and a stage cannot reach the registry it is run from. A stage that
  returns an error makes the dispatcher panic; the \<open>debug_assert\<close> on a persistent stage that returns
  \<open>Consumed\<close> is not in the release build.
\<close>

section \<open>Pressure\<close>

datatype pressure_level = Normal | Warning | Critical | Emergency

primrec level_rank :: "pressure_level \<Rightarrow> nat" where
  "level_rank Normal = 0"
| "level_rank Warning = 1"
| "level_rank Critical = 2"
| "level_rank Emergency = 3"

lemma level_rank_inj [simp]: "level_rank a = level_rank b \<longleftrightarrow> a = b"
  by (cases a; cases b) simp_all

text \<open>The derived order of the enumeration.\<close>

instantiation pressure_level :: linorder
begin

definition less_eq_pressure_level :: "pressure_level \<Rightarrow> pressure_level \<Rightarrow> bool" where
  "less_eq_pressure_level a b \<longleftrightarrow> level_rank a \<le> level_rank b"

definition less_pressure_level :: "pressure_level \<Rightarrow> pressure_level \<Rightarrow> bool" where
  "less_pressure_level a b \<longleftrightarrow> level_rank a < level_rank b"

instance
  by standard (auto simp: less_eq_pressure_level_def less_pressure_level_def)

end

type_synonym pressure = "8 word"

definition Pressure_new :: "8 word \<Rightarrow> pressure" where
  "Pressure_new raw = min raw 100"

definition band :: "pressure \<Rightarrow> pressure_level" where
  "band p = (if p \<le> 49 then Normal else if 50 \<le> p \<and> p \<le> 74 then Warning
     else if 75 \<le> p \<and> p \<le> 89 then Critical else Emergency)"

definition from_mem_available :: "nat \<Rightarrow> nat \<Rightarrow> pressure" where
  "from_mem_available mem threshold =
     (if mem \<ge> threshold then 0
      else if mem \<ge> threshold div 2 then 50
      else if mem \<ge> threshold div 4 then 75
      else 90)"

lemma band_of_mem:
  "band (from_mem_available mem t) = (if t \<le> mem then Normal else if t div 2 \<le> mem then Warning
     else if t div 4 \<le> mem then Critical else Emergency)"
  by (simp add: from_mem_available_def band_def)

text \<open>Less memory never lowers the level.\<close>

lemma band_antimono:
  assumes "mem' \<le> mem"
  shows "band (from_mem_available mem t) \<le> band (from_mem_available mem' t)"
  using assms by (simp add: band_of_mem less_eq_pressure_level_def)

section \<open>Phases, outcomes, stages\<close>

datatype lifecycle_phase = SessionStart | SessionEnd | TurnStart | TurnEnd
  | PrefillStart | PrefillChunkBoundary | PrefillEnd
  | DecodeStart | PreForward | PostForward | PreSample | PostSample | DecodeEnd
  | KvMutate | WeightMutate | PreLayer | PostLayer | Fine string | Finalize

datatype stage_lifecycle = Persistent | OneShot

datatype stage_stop = EosToken | BudgetExhausted | StopConditionMet | CommandRequested

datatype stage_outcome = Continue | Consumed | Stop stage_stop

type_synonym token = "32 word"

record step_info =
  si_pos :: nat
  si_decode_step :: nat
  si_pressure :: pressure
  si_prev_token :: token

record 's pipeline_stage =
  ps_lifecycle :: stage_lifecycle
  ps_on_phase :: "lifecycle_phase \<Rightarrow> step_info \<Rightarrow> 's \<Rightarrow> (string, stage_outcome \<times> 's) result"

section \<open>The registry\<close>

record 's registry =
  r_stages :: "'s pipeline_stage list"
  r_len :: nat

definition registry_new :: "'s registry" where
  "registry_new = \<lparr>r_stages = [], r_len = 0\<rparr>"

definition submit :: "'s pipeline_stage \<Rightarrow> 's registry \<Rightarrow> 's registry" where
  "submit st reg = \<lparr>r_stages = r_stages reg @ [st], r_len = r_len reg + 1\<rparr>"

text \<open>The loop over the stages: the stop reason, the indices to collect, the world.\<close>

fun run_stages :: "lifecycle_phase \<Rightarrow> step_info \<Rightarrow> nat \<Rightarrow> 's pipeline_stage list \<Rightarrow> 's \<Rightarrow> nat list
    \<Rightarrow> ('e, stage_stop option \<times> nat list \<times> 's) result" where
  "run_stages phase ctx i [] s gc = Ok (None, gc, s)"
| "run_stages phase ctx i (st # sts) s gc = (case ps_on_phase st phase ctx s of
     Ok (Continue, s') \<Rightarrow> run_stages phase ctx (i + 1) sts s' gc
   | Ok (Consumed, s') \<Rightarrow> run_stages phase ctx (i + 1) sts s' (gc @ [i])
   | Ok (Stop r, s') \<Rightarrow> Ok (Some r, gc, s')
   | Err e \<Rightarrow> Panic
   | Panic \<Rightarrow> Panic)"

definition gc_stage :: "nat \<Rightarrow> 's registry \<Rightarrow> ('e, 's registry) result" where
  "gc_stage i reg = (if i < length (r_stages reg)
     then Ok \<lparr>r_stages = take i (r_stages reg) @ drop (Suc i) (r_stages reg), r_len = r_len reg - 1\<rparr> else Panic)"

definition dispatch :: "lifecycle_phase \<Rightarrow> step_info \<Rightarrow> 's registry \<Rightarrow> 's
    \<Rightarrow> ('e, stage_stop option \<times> 's registry \<times> 's) result" where
  "dispatch phase ctx reg s =
     (if r_len reg = 0 then Ok (None, reg, s)
      else and_then (run_stages phase ctx 0 (r_stages reg) s []) (\<lambda>(stop, gc, s').
        and_then (try_fold gc_stage (rev gc) reg) (\<lambda>reg'. Ok (stop, reg', s'))))"

section \<open>What a dispatch is\<close>

text \<open>
  The contract: the stages run in the order they were submitted, each on the world its predecessor left; a
  consumed stage leaves the registry; the first stop ends the round, with the stages behind it untouched.
\<close>

fun dispatch_spec :: "lifecycle_phase \<Rightarrow> step_info \<Rightarrow> 's pipeline_stage list \<Rightarrow> 's
    \<Rightarrow> ('e, stage_stop option \<times> 's pipeline_stage list \<times> 's) result" where
  "dispatch_spec phase ctx [] s = Ok (None, [], s)"
| "dispatch_spec phase ctx (st # sts) s = (case ps_on_phase st phase ctx s of
     Ok (Stop r, s') \<Rightarrow> Ok (Some r, st # sts, s')
   | Ok (out, s') \<Rightarrow> and_then (dispatch_spec phase ctx sts s') (\<lambda>(stop, kept, s'').
       Ok (stop, if out = Consumed then kept else st # kept, s''))
   | _ \<Rightarrow> Panic)"

definition registry_of :: "'s pipeline_stage list \<Rightarrow> 's registry" where
  "registry_of sts = \<lparr>r_stages = sts, r_len = length sts\<rparr>"

definition registry_wf :: "'s registry \<Rightarrow> bool" where
  "registry_wf reg \<longleftrightarrow> reg = registry_of (r_stages reg)"

lemma dispatch_spec_not_err: "dispatch_spec phase ctx sts s \<noteq> Err e"
  by (induction sts arbitrary: s) (auto simp: result_simps split: result.splits prod.splits stage_outcome.splits)

text \<open>Collecting the indices from the back removes exactly the consumed stages.\<close>

lemma run_stages_spec:
  "case (dispatch_spec phase ctx sts s :: ('e, stage_stop option \<times> 's pipeline_stage list \<times> 's) result) of
     Ok (stop, kept, s') \<Rightarrow> \<exists>js. run_stages phase ctx i sts s gc = (Ok (stop, gc @ js, s') :: ('e, _) result)
       \<and> (\<forall>pre. length pre = i \<longrightarrow> try_fold gc_stage (rev js) (registry_of (pre @ sts)) = (Ok (registry_of (pre @ kept)) :: ('e, _) result))
   | Err e \<Rightarrow> False
   | Panic \<Rightarrow> run_stages phase ctx i sts s gc = (Panic :: ('e, _) result)"
proof (induction sts arbitrary: i s gc)
  case Nil
  show ?case by simp
next
  case (Cons st sts)
  show ?case
  proof (cases "ps_on_phase st phase ctx s")
    case (Ok os)
    obtain out s' where os: "os = (out, s')" by fastforce
    note step = Ok[unfolded os]
    show ?thesis
    proof (cases out)
      case Continue
      note IH = Cons.IH[where s = s' and i = "i + 1" and gc = gc]
      show ?thesis
      proof (cases "dispatch_spec phase ctx sts s' :: ('e, _) result")
        case (Ok x)
        obtain stop kept s'' where x: "x = (stop, kept, s'')" by (cases x) auto
        from IH obtain js where js: "run_stages phase ctx (i + 1) sts s' gc = (Ok (stop, gc @ js, s'') :: ('e, _) result)"
          "\<forall>pre. length pre = i + 1 \<longrightarrow> try_fold gc_stage (rev js) (registry_of (pre @ sts)) = (Ok (registry_of (pre @ kept)) :: ('e, _) result)"
          unfolding Ok x by auto
        have "try_fold gc_stage (rev js) (registry_of (pre @ st # sts)) = (Ok (registry_of (pre @ st # kept)) :: ('e, _) result)" if "length pre = i" for pre
          using js(2)[rule_format, of "pre @ [st]"] that by simp
        with js(1) Ok x step Continue show ?thesis by auto
      qed (use IH step Continue in auto)
    next
      case Consumed
      note IH = Cons.IH[where s = s' and i = "i + 1" and gc = "gc @ [i]"]
      show ?thesis
      proof (cases "dispatch_spec phase ctx sts s' :: ('e, _) result")
        case (Ok x)
        obtain stop kept s'' where x: "x = (stop, kept, s'')" by (cases x) auto
        from IH obtain js where js: "run_stages phase ctx (i + 1) sts s' (gc @ [i]) = (Ok (stop, (gc @ [i]) @ js, s'') :: ('e, _) result)"
          "\<forall>pre. length pre = i + 1 \<longrightarrow> try_fold gc_stage (rev js) (registry_of (pre @ sts)) = (Ok (registry_of (pre @ kept)) :: ('e, _) result)"
          unfolding Ok x by auto
        have "try_fold gc_stage (rev (i # js)) (registry_of (pre @ st # sts)) = (Ok (registry_of (pre @ kept)) :: ('e, _) result)" if "length pre = i" for pre
          using js(2)[rule_format, of "pre @ [st]"] that
          by (simp add: try_fold_append gc_stage_def registry_of_def)
        with js(1) Ok x step Consumed show ?thesis by (auto intro!: exI[of _ "i # js"])
      qed (use IH step Consumed in auto)
    next
      case (Stop r)
      then show ?thesis using step by (auto intro!: exI[of _ "[]"])
    qed
  qed simp_all
qed

lemma dispatch_is_spec:
  assumes "registry_wf reg"
  shows "(dispatch phase ctx reg s :: ('e, _) result) = and_then (dispatch_spec phase ctx (r_stages reg) s) (\<lambda>(stop, kept, s'). Ok (stop, registry_of kept, s'))"
proof (cases "r_stages reg = []")
  case True
  with assms have "r_len reg = 0" "reg = registry_of []" by (auto simp: registry_wf_def registry_of_def)
  with True show ?thesis by (simp add: dispatch_def)
next
  case False
  have l: "r_len reg \<noteq> 0" "reg = registry_of (r_stages reg)"
    using False assms by (cases reg; simp add: registry_wf_def registry_of_def)+
  note sp = run_stages_spec[where phase = phase and ctx = ctx and sts = "r_stages reg" and s = s and i = 0 and gc = "[]" and 'e = 'e]
  show ?thesis
  proof (cases "dispatch_spec phase ctx (r_stages reg) s :: ('e, _) result")
    case (Ok x)
    obtain stop kept s'' where x: "x = (stop, kept, s'')" by (cases x) auto
    from sp show ?thesis unfolding Ok x using l by (auto simp: dispatch_def)
  qed (use sp l in \<open>auto simp: dispatch_def\<close>)
qed

lemma registry_wf_simps [simp]: "registry_wf registry_new" "registry_wf (registry_of sts)" "r_stages (registry_of sts) = sts"
  by (simp_all add: registry_wf_def registry_of_def registry_new_def)

lemma submit_wf: "registry_wf reg \<Longrightarrow> submit st reg = registry_of (r_stages reg @ [st])"
  unfolding registry_wf_def submit_def registry_of_def by (cases reg) simp

lemma dispatch_spec_subseq:
  assumes "(dispatch_spec phase ctx sts s :: ('e, _) result) = Ok (stop, kept, s')"
  shows "subseq kept sts"
  using assms
proof (induction sts arbitrary: s kept)
  case (Cons st sts)
  from Cons.prems obtain out w where step: "ps_on_phase st phase ctx s = Ok (out, w)"
    by (auto split: result.splits prod.splits)
  with Cons.prems consider r where "out = Stop r" "kept = st # sts"
    | ks where "(dispatch_spec phase ctx sts w :: ('e, _) result) = Ok (stop, ks, s')" "kept = (if out = Consumed then ks else st # ks)"
    by (auto simp: result_simps split: stage_outcome.splits)
  then show ?case by cases (auto dest: Cons.IH)
qed simp

text \<open>
  C26: Dispatching a phase. On a registry whose counter agrees with its list, a dispatch runs the stages in the
  order they were submitted, each on the world its predecessor left, removes exactly those that reported
  themselves consumed, and ends at the first stop with the later stages not run and still registered; it panics
  exactly when a stage that is reached fails. The counter agrees again afterwards, so the lock-free test for an
  empty registry never skips a stage, and submitting appends.
\<close>

theorem dispatch_runs_in_order:
  assumes "registry_wf reg"
  shows "(dispatch phase ctx reg s :: ('e, _) result)
      = and_then (dispatch_spec phase ctx (r_stages reg) s) (\<lambda>(stop, kept, s'). Ok (stop, registry_of kept, s'))
    \<and> (\<forall>stop reg' s'. dispatch phase ctx reg s = (Ok (stop, reg', s') :: ('e, _) result)
         \<longrightarrow> registry_wf reg' \<and> subseq (r_stages reg') (r_stages reg))
    \<and> registry_wf (submit st reg) \<and> r_stages (submit st reg) = r_stages reg @ [st]"
  unfolding dispatch_is_spec[OF assms] submit_wf[OF assms]
  by (auto simp: result_simps dest: dispatch_spec_subseq)

text \<open>Three stages that log themselves: the first is consumed, the second stops, the third is not run.\<close>

definition log_stage :: "nat \<Rightarrow> stage_outcome \<Rightarrow> nat list pipeline_stage" where
  "log_stage n out = \<lparr>ps_lifecycle = OneShot, ps_on_phase = (\<lambda>phase ctx s. Ok (out, s @ [n]))\<rparr>"

definition demo_step :: step_info where
  "demo_step = \<lparr>si_pos = 0, si_decode_step = 0, si_pressure = 0, si_prev_token = 0\<rparr>"

theorem dispatch_runs_in_order_witness:
  "(dispatch KvMutate demo_step (registry_of [log_stage 1 Consumed, log_stage 2 (Stop EosToken), log_stage 3 Continue]) [] :: (unit, _) result)
    = Ok (Some EosToken, registry_of [log_stage 2 (Stop EosToken), log_stage 3 Continue], [1, 2])"
proof -
  let ?reg = "registry_of [log_stage 1 Consumed, log_stage 2 (Stop EosToken), log_stage 3 Continue]"
  have "registry_wf ?reg" by simp
  from dispatch_runs_in_order[OF this, where phase = KvMutate and ctx = demo_step and s = "[]" and 'e = unit]
  show ?thesis by (simp add: log_stage_def)
qed

end
