(* ===== verification/Mutation_Driver.thy ===== *)
theory Mutation_Driver
  imports Technique_Props Pipeline
begin

text \<open>
  The pipeline stage that runs a technique in the decode loop: \<open>KVMutationDriverStage\<close> of
  \<^verbatim>\<open>engine/src/stages/kv/mutation.rs\<close>. It waits for a rising edge of memory pressure, checks that the eviction is
  worth it, drives the technique over every layer, hands unused pages back and tells the decode loop that
  the fused plan is stale.

  The world of the stage holds the caches it has handles to and its cells. The score accumulator is a parameter
  (what it shows when it is active, and how it is reset); the budget \<open>(current_pos as f32 * ratio) as usize\<close> is a
  function. Logging is not modelled. When a layer fails the stage returns an error, on which the dispatcher panics,
  so the world it leaves behind is never seen.
\<close>

section \<open>The stage\<close>

datatype mutation_phase = MutatePrefillEnd | MutateKv

definition lifecycle_of :: "mutation_phase \<Rightarrow> lifecycle_phase" where
  "lifecycle_of p = (case p of MutatePrefillEnd \<Rightarrow> PrefillEnd | MutateKv \<Rightarrow> KvMutate)"

definition MIN_EVICT_TOKENS :: nat where
  "MIN_EVICT_TOKENS = 64"

record ('u, 'g) kv_world =
  kw_caches :: "'u kvcache list"
  kw_armed :: bool
  kw_scores :: "'g option"
  kw_mutation_fired :: bool

text \<open>What the stages need of the engine around them.\<close>

record ('u, 'w, 'g) engine =
  en_numerics :: "('u, 'w) numerics"
  en_os :: "'u kv_os"
  en_fs :: fs_env
  en_snap :: "'u kvcache \<Rightarrow> tensor_kind \<Rightarrow> f32 list"
  en_on_device :: bool
  en_scores :: "'g \<Rightarrow> (f32 list \<times> f32 list option \<times> f32 list option) option"
  en_reset_host_only :: "'g \<Rightarrow> 'g"

record ('u, 'w) mutation_driver =
  md_stage :: "('u, 'w) cache_handle stage"
  md_phase :: mutation_phase
  md_ratio_budget :: "nat \<Rightarrow> nat"
  md_caps :: stage_caps
  md_min_band :: "pressure_level option"
  md_has_fired_cell :: bool

definition mutation_driver_new :: "('u, 'w) cache_handle stage \<Rightarrow> mutation_phase \<Rightarrow> (nat \<Rightarrow> nat) \<Rightarrow> ('u, 'w) mutation_driver" where
  "mutation_driver_new stage phase ratio_budget = \<lparr>md_stage = stage, md_phase = phase, md_ratio_budget = ratio_budget,
     md_caps = SCORE_FREE, md_min_band = None, md_has_fired_cell = False\<rparr>"

definition with_pressure_gate :: "pressure_level \<Rightarrow> ('u, 'w) mutation_driver \<Rightarrow> ('u, 'w) mutation_driver" where
  "with_pressure_gate m drv = drv\<lparr>md_min_band := Some m\<rparr>"

definition with_caps :: "stage_caps \<Rightarrow> ('u, 'w) mutation_driver \<Rightarrow> ('u, 'w) mutation_driver" where
  "with_caps caps drv = drv\<lparr>md_caps := caps\<rparr>"

definition with_mutation_fired :: "('u, 'w) mutation_driver \<Rightarrow> ('u, 'w) mutation_driver" where
  "with_mutation_fired drv = drv\<lparr>md_has_fired_cell := True\<rparr>"

definition extract_scores :: "('u, 'w, 'g) engine \<Rightarrow> ('u, 'g) kv_world \<Rightarrow> f32 list option \<times> f32 list option \<times> f32 list option" where
  "extract_scores en w = (case kw_scores w of
     None \<Rightarrow> (None, None, None)
   | Some g \<Rightarrow> (case en_scores en g of Some (imp, hs, at) \<Rightarrow> (Some imp, hs, at) | None \<Rightarrow> (None, None, None)))"

definition reset_scores :: "('u, 'w, 'g) engine \<Rightarrow> ('u, 'g) kv_world \<Rightarrow> ('u, 'g) kv_world" where
  "reset_scores en w = w\<lparr>kw_scores := map_option (en_reset_host_only en) (kw_scores w)\<rparr>"

definition budget_for :: "('u, 'w) mutation_driver \<Rightarrow> nat \<Rightarrow> nat" where
  "budget_for drv pos = max (md_ratio_budget drv pos) 1"

text \<open>The loop over the layers: layer \<open>l\<close> of \<open>n\<close>, whether anything was mutated, the caches.\<close>

fun drive_layers :: "('u, 'w, 'g) engine \<Rightarrow> ('u, 'w) mutation_driver \<Rightarrow> f32 list option \<times> f32 list option \<times> f32 list option
    \<Rightarrow> nat \<Rightarrow> nat \<Rightarrow> 'u kvcache list \<Rightarrow> (drive_error, bool \<times> 'u kvcache list) result" where
  "drive_layers en drv scores n l [] = Ok (False, [])"
| "drive_layers en drv (imp, hs, at) n l (c # cs) =
     and_then (drive_mutation_layer (en_numerics en) (en_os en) (en_fs en) (en_snap en) (en_on_device en) (md_stage drv) (md_caps drv)
         l n (budget_for drv (current_pos c)) imp hs at c) (\<lambda>(m, c').
     and_then (drive_layers en drv (imp, hs, at) n (l + 1) cs) (\<lambda>(m', cs'). Ok (m \<or> m', c' # cs')))"

fun release_all :: "'u kv_os \<Rightarrow> 'u kvcache list \<Rightarrow> 'u kvcache list kv_result" where
  "release_all os [] = Ok []"
| "release_all os (c # cs) = and_then (release_unused_pages os c) (\<lambda>(_, c'). and_then (release_all os cs) (\<lambda>cs'. Ok (c' # cs')))"

text \<open>A fire: everything after the gate and the guard.\<close>

definition fire :: "('u, 'w, 'g) engine \<Rightarrow> ('u, 'w) mutation_driver \<Rightarrow> ('u, 'g) kv_world \<Rightarrow> (string, ('u, 'g) kv_world) result" where
  "fire en drv w =
     and_then (map_err (\<lambda>_. ''mutation stage failed'') (drive_layers en drv (extract_scores en w) (length (kw_caches w)) 0 (kw_caches w))) (\<lambda>(m, cs).
     let w1 = reset_scores en (w\<lparr>kw_caches := cs\<rparr>) in
     and_then (if md_min_band drv \<noteq> None \<and> m then map_err (\<lambda>_. ''release failed'') (release_all (en_os en) cs) else Ok cs) (\<lambda>cs'.
     Ok (w1\<lparr>kw_caches := cs', kw_mutation_fired := (if m \<and> md_has_fired_cell drv then True else kw_mutation_fired w1)\<rparr>)))"

text \<open>The budget guard in front of a gated fire.\<close>

definition worth_it :: "('u, 'w) mutation_driver \<Rightarrow> ('u, 'g) kv_world \<Rightarrow> bool" where
  "worth_it drv w = (let pos = max_list (map current_pos (kw_caches w)); t = budget_for drv pos in
     \<not> (pos \<le> t \<or> pos - t < MIN_EVICT_TOKENS))"

definition driver_on_phase :: "('u, 'w, 'g) engine \<Rightarrow> ('u, 'w) mutation_driver \<Rightarrow> lifecycle_phase \<Rightarrow> step_info \<Rightarrow> ('u, 'g) kv_world
    \<Rightarrow> (string, stage_outcome \<times> ('u, 'g) kv_world) result" where
  "driver_on_phase en drv phase ctx w =
     (if phase \<noteq> lifecycle_of (md_phase drv) then Ok (Continue, w)
      else case md_min_band drv of
        None \<Rightarrow> and_then (fire en drv w) (\<lambda>w'. Ok (Continue, w'))
      | Some m \<Rightarrow>
          if band (si_pressure ctx) < m then Ok (Continue, w\<lparr>kw_armed := True\<rparr>)
          else if \<not> kw_armed w then Ok (Continue, w\<lparr>kw_armed := False\<rparr>)
          else if \<not> worth_it drv w then Ok (Continue, w\<lparr>kw_armed := False\<rparr>)
          else and_then (fire en drv (w\<lparr>kw_armed := False\<rparr>)) (\<lambda>w'. Ok (Continue, w')))"

definition driver_stage :: "('u, 'w, 'g) engine \<Rightarrow> ('u, 'w) mutation_driver \<Rightarrow> ('u, 'g) kv_world pipeline_stage" where
  "driver_stage en drv = \<lparr>ps_lifecycle = Persistent, ps_on_phase = driver_on_phase en drv\<rparr>"

section \<open>One fire per episode\<close>

text \<open>The stage over a sequence of decode steps.\<close>

fun driver_run :: "('u, 'w, 'g) engine \<Rightarrow> ('u, 'w) mutation_driver \<Rightarrow> step_info list \<Rightarrow> ('u, 'g) kv_world \<Rightarrow> (string, ('u, 'g) kv_world) result" where
  "driver_run en drv [] w = Ok w"
| "driver_run en drv (ctx # ctxs) w = and_then (driver_on_phase en drv KvMutate ctx w) (\<lambda>(_, w'). driver_run en drv ctxs w')"

text \<open>The steps at which the pressure rises to the band, given whether it was below it before.\<close>

fun rising :: "pressure_level \<Rightarrow> bool \<Rightarrow> step_info list \<Rightarrow> step_info list" where
  "rising m low [] = []"
| "rising m low (ctx # ctxs) =
     (if m \<le> band (si_pressure ctx) \<and> low then ctx # rising m False ctxs else rising m (band (si_pressure ctx) < m) ctxs)"

fun low_after :: "pressure_level \<Rightarrow> bool \<Rightarrow> step_info list \<Rightarrow> bool" where
  "low_after m low [] = low"
| "low_after m low (ctx # ctxs) = low_after m (band (si_pressure ctx) < m) ctxs"

definition attempt :: "('u, 'w, 'g) engine \<Rightarrow> ('u, 'w) mutation_driver \<Rightarrow> ('u, 'g) kv_world \<Rightarrow> (string, ('u, 'g) kv_world) result" where
  "attempt en drv w = (if worth_it drv w then fire en drv w else Ok w)"

lemma fire_armed: "fire en drv (w\<lparr>kw_armed := b\<rparr>) = and_then (fire en drv w) (\<lambda>w'. Ok (w'\<lparr>kw_armed := b\<rparr>))"
proof -
  have e: "extract_scores en (w\<lparr>kw_armed := b\<rparr>) = extract_scores en w" by (simp add: extract_scores_def)
  show ?thesis
    by (cases "drive_layers en drv (extract_scores en w) (length (kw_caches w)) 0 (kw_caches w)";
        cases "release_all (en_os en) (snd (case drive_layers en drv (extract_scores en w) (length (kw_caches w)) 0 (kw_caches w) of Ok x \<Rightarrow> x | _ \<Rightarrow> (False, [])))")
      (auto simp: fire_def e Let_def reset_scores_def split: prod.split)
qed

lemma attempt_armed: "attempt en drv (w\<lparr>kw_armed := b\<rparr>) = and_then (attempt en drv w) (\<lambda>w'. Ok (w'\<lparr>kw_armed := b\<rparr>))"
  by (simp add: attempt_def fire_armed worth_it_def)

lemma attempts_armed:
  "try_fold (\<lambda>_. attempt en drv) xs (w\<lparr>kw_armed := b\<rparr>) = and_then (try_fold (\<lambda>_. attempt en drv) xs w) (\<lambda>w'. Ok (w'\<lparr>kw_armed := b\<rparr>))"
proof (induction xs arbitrary: w)
  case (Cons x xs)
  then show ?case by (cases "attempt en drv w") (simp_all add: attempt_armed)
qed simp

lemma gated_step:
  assumes "md_phase drv = MutateKv" "md_min_band drv = Some m"
  shows "driver_on_phase en drv KvMutate ctx w =
    and_then (if m \<le> band (si_pressure ctx) \<and> kw_armed w then attempt en drv w else Ok w)
      (\<lambda>w'. Ok (Continue, w'\<lparr>kw_armed := band (si_pressure ctx) < m\<rparr>))"
proof -
  have [simp]: "band p < m \<longleftrightarrow> \<not> m \<le> band p" for p by (auto simp: not_le)
  show ?thesis using assms
    by (cases "fire en drv w") (auto simp: driver_on_phase_def lifecycle_of_def attempt_def fire_armed)
qed

text \<open>
  C16: One eviction per pressure episode. Over any sequence of decode steps, the gated stage does nothing but
  attempt one eviction at each step where the pressure rises to its band, on the world the previous attempt
  left: however long the pressure stays high, the cache is not shrunk again, and as soon as the pressure has
  fallen and rises again there is another attempt. An attempt below the minimal gain changes nothing. The stage
  is armed afterwards exactly when the last pressure was below the band.
\<close>

theorem one_fire_per_episode:
  assumes "md_phase drv = MutateKv" "md_min_band drv = Some m"
  shows "driver_run en drv ctxs w =
    and_then (try_fold (\<lambda>_. attempt en drv) (rising m (kw_armed w) ctxs) w) (\<lambda>w'. Ok (w'\<lparr>kw_armed := low_after m (kw_armed w) ctxs\<rparr>))"
proof (induction ctxs arbitrary: w)
  case Nil
  show ?case by simp
next
  case (Cons ctx ctxs)
  let ?b = "band (si_pressure ctx) < m"
  have n: "\<not> ?b \<longleftrightarrow> m \<le> band (si_pressure ctx)" by auto
  show ?case
  proof (cases "m \<le> band (si_pressure ctx) \<and> kw_armed w")
    case True
    then have "\<not> ?b" by auto
    with True show ?thesis
      by (cases "attempt en drv w") (simp_all add: gated_step[OF assms] Cons.IH attempts_armed, simp add: and_then_assoc)
  next
    case False
    show ?thesis
      by (simp only: driver_run.simps rising.simps low_after.simps gated_step[OF assms] False if_False)
        (simp add: Cons.IH attempts_armed and_then_assoc)
  qed
qed

section \<open>A gated eviction over all layers\<close>

lemma drive_layers_all:
  assumes "\<And>l c. c \<in> set cs \<Longrightarrow> \<exists>c'. drive_mutation_layer (en_numerics en) (en_os en) (en_fs en) (en_snap en) (en_on_device en) (md_stage drv)
      (md_caps drv) l n (budget_for drv (current_pos c)) imp hs at c = Ok (True, c') \<and> P c c'"
  shows "\<exists>cs'. drive_layers en drv (imp, hs, at) n l cs = Ok (cs \<noteq> [], cs') \<and> list_all2 P cs cs'"
  using assms
proof (induction cs arbitrary: l)
  case (Cons c cs)
  from Cons.prems[of c l] obtain c' where c': "drive_mutation_layer (en_numerics en) (en_os en) (en_fs en) (en_snap en) (en_on_device en) (md_stage drv)
      (md_caps drv) l n (budget_for drv (current_pos c)) imp hs at c = Ok (True, c')" "P c c'" by auto
  from Cons.IH[of "l + 1"] Cons.prems obtain cs' where "drive_layers en drv (imp, hs, at) n (l + 1) cs = Ok (cs \<noteq> [], cs')" "list_all2 P cs cs'"
    by auto
  with c' show ?case by auto
qed simp

lemma release_all_ok:
  assumes "\<forall>c \<in> set cs. kv_wf c" "0 < page_size os"
  shows "\<exists>cs'. release_all os cs = Ok cs' \<and> list_all2 (\<lambda>c c'. kv_wf c' \<and> current_pos c' = current_pos c \<and> kv_heads c' = kv_heads c
    \<and> (\<forall>h < kv_heads c. contents c' h = contents c h) \<and> derived c c') cs cs'"
  using assms(1)
proof (induction cs)
  case (Cons c cs)
  from release_unused_pages_ok[of c os] assms(2) Cons.prems obtain m c' where "release_unused_pages os c = Ok (m, c')" "kv_wf c'"
    "current_pos c' = current_pos c" "kv_heads c' = kv_heads c" "\<forall>h < kv_heads c. contents c' h = contents c h" by auto
  moreover from this(1) have "derived c c'" by (rule release_derived)
  moreover from Cons obtain cs' where "release_all os cs = Ok cs'" "list_all2 (\<lambda>c c'. kv_wf c' \<and> current_pos c' = current_pos c
    \<and> kv_heads c' = kv_heads c \<and> (\<forall>h < kv_heads c. contents c' h = contents c h) \<and> derived c c') cs cs'" by auto
  ultimately show ?case by auto
qed simp

text \<open>The layer has been evicted: what the sliding window leaves of a cache for the driver's budget.\<close>

definition slid :: "('u, 'w) mutation_driver \<Rightarrow> sliding_window \<Rightarrow> 'u kvcache \<Rightarrow> 'u kvcache \<Rightarrow> bool" where
  "slid drv win c c' \<longleftrightarrow> (let k = sliding_budget win (budget_for drv (current_pos c)); p = sw_protected_prefix win in
     kv_wf c' \<and> kv_heads c' = kv_heads c \<and> current_pos c' = min (current_pos c) k
     \<and> (\<forall>h < kv_heads c. contents c' h = (if current_pos c \<le> k then contents c h
          else take p (contents c h) @ drop (current_pos c - (k - p)) (contents c h))))"

lemma sliding_drive:
  fixes drv :: "('u, 'w) mutation_driver"
  assumes "kv_wf c" "\<not> is_ragged c" "0 < current_pos c"
  shows "\<exists>c'. drive_mutation_layer nu os env snap dev (sliding_on_phase win keep :: ('u, 'w) cache_handle stage) caps l n (budget_for drv (current_pos c)) imp hs at c
    = Ok (True, c') \<and> slid drv win c c' \<and> derived c c'"
proof -
  let ?t = "budget_for drv (current_pos c)"
  let ?ks = "sliding_keep_list win (current_pos c) ?t"
  let ?k = "sliding_budget win ?t"
  from drive_keep[OF assms sliding_keep_list_in[of "current_pos c" win ?t], where stage = "sliding_on_phase win keep" and t = ?t and snap = snap and dev = dev
      and caps = caps and l = l and n = n and imp = imp and hs = hs and at = at and nu = nu and os = os and env = env]
  obtain c' where c': "drive_mutation_layer nu os env snap dev (sliding_on_phase win keep :: ('u, 'w) cache_handle stage) caps l n ?t imp hs at c = Ok (True, c')"
    "kv_wf c'" "kv_heads c' = kv_heads c" "current_pos c' = length ?ks" "\<forall>h < kv_heads c. contents c' h = map (cell c h) ?ks" "derived c c'"
    by (auto simp: sliding_on_phase_def)
  have p: "sw_protected_prefix win \<le> ?k" by (simp add: sliding_budget_def)
  have "length ?ks = min (current_pos c) ?k" using p by (simp add: sliding_keep_list_cases)
  moreover have "map (cell c h) ?ks = (if current_pos c \<le> ?k then contents c h
      else take (sw_protected_prefix win) (contents c h) @ drop (current_pos c - (?k - sw_protected_prefix win)) (contents c h))" for h
    using p rows_prefix_recent[OF assms(2), of "sw_protected_prefix win" "current_pos c - (?k - sw_protected_prefix win)" h]
    by (auto simp: sliding_keep_list_cases uniform_rows[OF assms(2)])
  ultimately show ?thesis using c' by (auto simp: slid_def Let_def)
qed

text \<open>A fire of a gated driver over the sliding window.\<close>

lemma slide_fire:
  fixes w :: "('u, 'g) kv_world" and en :: "('u, 'w, 'g) engine"
  assumes "\<forall>c \<in> set (kw_caches w). kv_wf c \<and> \<not> is_ragged c \<and> 0 < current_pos c" "0 < page_size (en_os en)" "kw_caches w \<noteq> []"
    and drv: "md_min_band drv \<noteq> None" "md_stage drv = sliding_on_phase win keep"
  shows "\<exists>cs. fire en drv w = Ok (reset_scores en (w\<lparr>kw_caches := cs, kw_mutation_fired := (md_has_fired_cell drv \<or> kw_mutation_fired w)\<rparr>))
    \<and> list_all2 (\<lambda>c c'. slid drv win c c' \<and> derived c c') (kw_caches w) cs"
proof -
  obtain imp hs at where sc: "extract_scores en w = (imp, hs, at)" by (metis prod_cases3)
  let ?P = "\<lambda>c c'. slid drv win c c' \<and> derived c c'"
  have "\<exists>c'. drive_mutation_layer (en_numerics en) (en_os en) (en_fs en) (en_snap en) (en_on_device en) (md_stage drv)
      (md_caps drv) l n (budget_for drv (current_pos c)) imp hs at c = Ok (True, c') \<and> ?P c c'" if "c \<in> set (kw_caches w)" for c l n
    unfolding drv(2) using that assms(1) by (intro sliding_drive) auto
  from drive_layers_all[of "kw_caches w" en drv "length (kw_caches w)" imp hs at ?P 0, OF this]
  obtain cs where cs: "drive_layers en drv (imp, hs, at) (length (kw_caches w)) 0 (kw_caches w) = Ok (kw_caches w \<noteq> [], cs)"
    "list_all2 ?P (kw_caches w) cs" by blast
  have "\<forall>c \<in> set cs. kv_wf c" using cs(2) by (auto simp: list_all2_conv_all_nth in_set_conv_nth slid_def Let_def)
  from release_all_ok[OF this assms(2)] obtain cs' where cs': "release_all (en_os en) cs = Ok cs'"
    "list_all2 (\<lambda>c c'. kv_wf c' \<and> current_pos c' = current_pos c \<and> kv_heads c' = kv_heads c
      \<and> (\<forall>h < kv_heads c. contents c' h = contents c h) \<and> derived c c') cs cs'" by blast
  have "list_all2 ?P (kw_caches w) cs'"
    by (rule list_all2_trans[OF _ cs(2) cs'(2)]) (auto simp: slid_def Let_def intro: derived_trans)
  moreover have "fire en drv w = Ok (reset_scores en (w\<lparr>kw_caches := cs', kw_mutation_fired := (md_has_fired_cell drv \<or> kw_mutation_fired w)\<rparr>))"
    using cs(1) cs'(1) drv assms(3) by (simp add: fire_def sc Let_def reset_scores_def)
  ultimately show ?thesis by blast
qed

text \<open>
  Eviction under pressure, from the pressure reading to the rows. With the sliding window behind a pressure
  gate, on well-formed uniform layers, a step whose pressure reaches the band while the stage is armed, and for
  which at least 64 tokens can go, never fails. Afterwards every layer holds exactly its protected prefix and its
  most recent rows for its own budget, the unused pages are returned without losing a row, the decode loop is
  told that its plan is stale, the scores are reset, and the stage is disarmed.
\<close>

theorem pressure_evicts_all_layers:
  fixes w :: "('u, 'g) kv_world" and en :: "('u, 'w, 'g) engine"
  assumes "\<forall>c \<in> set (kw_caches w). kv_wf c \<and> \<not> is_ragged c \<and> 0 < current_pos c" "0 < page_size (en_os en)"
    and "drv = with_mutation_fired (with_pressure_gate m (mutation_driver_new (sliding_on_phase win keep) MutateKv ratio))"
    and "m \<le> band (si_pressure ctx)" "kw_armed w" "worth_it drv w"
  shows "\<exists>w'. driver_on_phase en drv KvMutate ctx w = Ok (Continue, w') \<and> list_all2 (slid drv win) (kw_caches w) (kw_caches w')
    \<and> kw_mutation_fired w' \<and> \<not> kw_armed w' \<and> kw_scores w' = map_option (en_reset_host_only en) (kw_scores w)"
proof -
  have drv: "md_phase drv = MutateKv" "md_min_band drv = Some m" "md_stage drv = sliding_on_phase win keep" "md_has_fired_cell drv"
    unfolding assms(3) by (simp_all add: with_mutation_fired_def with_pressure_gate_def mutation_driver_new_def)
  have ne: "kw_caches w \<noteq> []" using assms(6) by (auto simp: worth_it_def Let_def max_list_def)
  from slide_fire[OF assms(1,2) ne _ drv(3)] drv obtain cs where cs:
    "fire en drv w = Ok (reset_scores en (w\<lparr>kw_caches := cs, kw_mutation_fired := True\<rparr>))"
    "list_all2 (\<lambda>c c'. slid drv win c c' \<and> derived c c') (kw_caches w) cs" by auto
  from cs(2) have "list_all2 (slid drv win) (kw_caches w) cs" by (rule list_all2_mono) simp
  with cs(1) show ?thesis unfolding gated_step[OF drv(1,2)] attempt_def using assms(4-6) by (auto simp: reset_scores_def not_less[symmetric])
qed

text \<open>One layer of ninety rows, a fifth of them as budget, a window of sixteen.\<close>

definition demo_wide :: "nat kvcache" where
  "demo_wide = \<lparr>k_buffer = [0..<100], v_buffer = [100..<200], kv_dtype = D_F32, opaque = None, host_managed = True,
     current_pos = 90, high_water_pos = 90, max_seq_len = 100, capacity = 100, kv_heads = 1, head_dim = 1,
     layout = HeadMajor, head_starts_raw = [], head_start_dirty = False, memory = None\<rparr>"

definition demo_engine :: "(nat, nat, unit) engine" where
  "demo_engine = \<lparr>en_numerics = demo_numerics, en_os = demo_os, en_fs = demo_env, en_snap = no_snap, en_on_device = False,
     en_scores = (\<lambda>_. None), en_reset_host_only = id\<rparr>"

definition demo_driver :: "(nat, nat) mutation_driver" where
  "demo_driver = with_mutation_fired (with_pressure_gate Critical
     (mutation_driver_new (sliding_on_phase (SlidingWindow_new 16 0) keep) MutateKv (\<lambda>p. p div 5)))"

definition demo_world :: "(nat, unit) kv_world" where
  "demo_world = \<lparr>kw_caches = [demo_wide], kw_armed = True, kw_scores = None, kw_mutation_fired = False\<rparr>"

lemma demo_wide_ok: "kv_wf demo_wide" "\<not> is_ragged demo_wide" "current_pos demo_wide = 90" "kv_heads demo_wide = 1"
  by (simp_all add: demo_wide_def kv_wf_def format_ok_def bufs_ok_def row_def is_q4_def is_ragged_def)

lemma demo_driver_fields: "md_phase demo_driver = MutateKv" "md_min_band demo_driver = Some Critical" "budget_for demo_driver 90 = 18"
  by (simp_all add: demo_driver_def with_mutation_fired_def with_pressure_gate_def mutation_driver_new_def budget_for_def)

lemma demo_worth_it: "worth_it demo_driver demo_world"
  by (simp add: worth_it_def demo_world_def demo_wide_ok demo_driver_fields MIN_EVICT_TOKENS_def max_list_def)

theorem pressure_evicts_all_layers_witness:
  "\<exists>w' c'. driver_on_phase demo_engine demo_driver KvMutate (demo_step\<lparr>si_pressure := 80\<rparr>) demo_world = Ok (Continue, w')
    \<and> kw_caches w' = [c'] \<and> current_pos c' = 20
    \<and> contents c' 0 = take 4 (contents demo_wide 0) @ drop 74 (contents demo_wide 0) \<and> kw_mutation_fired w' \<and> \<not> kw_armed w'"
proof -
  have c: "\<forall>c \<in> set (kw_caches demo_world). kv_wf c \<and> \<not> is_ragged c \<and> 0 < current_pos c"
    using demo_wide_ok by (simp add: demo_world_def)
  have p: "0 < page_size (en_os demo_engine)" by (simp add: demo_engine_def demo_os_def)
  have b: "Critical \<le> band (si_pressure (demo_step\<lparr>si_pressure := 80\<rparr>))" by (simp add: band_def less_eq_pressure_level_def)
  have a: "kw_armed demo_world" by (simp add: demo_world_def)
  from pressure_evicts_all_layers[OF c p demo_driver_def b a demo_worth_it] obtain w' where
    w': "driver_on_phase demo_engine demo_driver KvMutate (demo_step\<lparr>si_pressure := 80\<rparr>) demo_world = Ok (Continue, w')"
    "list_all2 (slid demo_driver (SlidingWindow_new 16 0)) (kw_caches demo_world) (kw_caches w')" "kw_mutation_fired w'" "\<not> kw_armed w'" by blast
  from w'(2) obtain c' where c': "kw_caches w' = [c']" "slid demo_driver (SlidingWindow_new 16 0) demo_wide c'"
    by (auto simp: demo_world_def list_all2_Cons1)
  have "sliding_budget (SlidingWindow_new 16 0) 18 = 20" by (simp add: sliding_budget_def SlidingWindow_new_def)
  with c'(2) have "current_pos c' = 20" "contents c' 0 = take 4 (contents demo_wide 0) @ drop 74 (contents demo_wide 0)"
    by (simp_all add: slid_def Let_def demo_wide_ok demo_driver_fields SlidingWindow_new_def)
  with w' c'(1) show ?thesis by blast
qed

theorem one_fire_per_episode_witness:
  "driver_run demo_engine demo_driver (map (\<lambda>p. demo_step\<lparr>si_pressure := p\<rparr>) [0, 80, 95, 90, 10, 75, 76]) demo_world
    = and_then (attempt demo_engine demo_driver demo_world) (\<lambda>w. and_then (attempt demo_engine demo_driver w)
        (\<lambda>w'. Ok (w'\<lparr>kw_armed := False\<rparr>)))"
  unfolding one_fire_per_episode[OF demo_driver_fields(1,2)]
  by (simp add: band_def less_eq_pressure_level_def less_pressure_level_def demo_world_def and_then_assoc)

end
