(* ===== verification/Cache_Manager.thy ===== *)
theory Cache_Manager
  imports Mutation_Driver
begin

text \<open>
  The cache manager: \<^verbatim>\<open>engine/src/kv/cache_manager.rs\<close> with the policy adapter of
  \<^verbatim>\<open>engine/src/kv/eviction/stage_registry.rs\<close>, the pressure handlers of \<^verbatim>\<open>eviction_handler.rs\<close> and \<^verbatim>\<open>swap_handler.rs\<close>, the
  handler pipeline of \<^verbatim>\<open>engine/src/kv.rs\<close>, the routing of \<^verbatim>\<open>score_fed.rs\<close> and the pipeline stage
  \<^verbatim>\<open>engine/src/stages/kv/eviction.rs\<close>.

  A handler acts on the caches and on a state \<open>'x\<close> of its own. The reading of the memory monitor is an argument
  (\<open>None\<close> for a failed read), \<open>(n as f32 * ratio) as usize\<close> a function of both. Log lines, the undershoot warning
  and the names of the policies are not modelled, nor the read-back of device-resident keys.
\<close>

section \<open>The policy adapter\<close>

record cross_ctx =
  cl_n_layers :: nat
  cl_current_pos :: nat
  cl_target_len :: nat
  cl_n_kv_heads :: nat
  cl_head_dim :: nat
  cl_positions :: "nat list"
  cl_keys :: "kv_snap list"

record ('u, 'w) stage_policy =
  pl_stage :: "('u, 'w) cache_handle stage"
  pl_on_whole_model :: "cross_ctx \<Rightarrow> 'u model_handle op"
  pl_caps :: stage_caps

datatype evict_error = EvDrive drive_error | EvMixedPositions | EvSwap swap_error

definition policy_drive :: "('u, 'w, 'g) engine \<Rightarrow> ('u, 'w) stage_policy \<Rightarrow> nat \<Rightarrow> f32 list option \<Rightarrow> f32 list option \<Rightarrow> f32 list option
    \<Rightarrow> nat \<Rightarrow> nat \<Rightarrow> 'u kvcache \<Rightarrow> (evict_error, 'u kvcache) result" where
  "policy_drive en pol target_len importance head_scores last_attn layer n_layers c =
     and_then (map_err EvDrive (drive_mutation_layer (en_numerics en) (en_os en) (en_fs en) (en_snap en) (en_on_device en)
         (pl_stage pol) (pl_caps pol) layer n_layers target_len importance head_scores last_attn c)) (\<lambda>(_, c'). Ok c')"

definition evict_layer :: "('u, 'w, 'g) engine \<Rightarrow> ('u, 'w) stage_policy \<Rightarrow> nat \<Rightarrow> f32 list option \<Rightarrow> f32 list option
    \<Rightarrow> nat \<Rightarrow> nat \<Rightarrow> 'u kvcache \<Rightarrow> (evict_error, 'u kvcache) result" where
  "evict_layer en pol target_len importance last_attn = policy_drive en pol target_len importance None last_attn"

definition evict_with_head_scores :: "('u, 'w, 'g) engine \<Rightarrow> ('u, 'w) stage_policy \<Rightarrow> nat \<Rightarrow> f32 list \<Rightarrow> f32 list
    \<Rightarrow> nat \<Rightarrow> nat \<Rightarrow> 'u kvcache \<Rightarrow> (evict_error, 'u kvcache) result" where
  "evict_with_head_scores en pol target_len flat head = policy_drive en pol target_len (Some flat) (Some head) None"

section \<open>Eviction over the layers\<close>

datatype score_context = NoScores
  | FlatScores "f32 list" "f32 list option"
  | PerHeadScores "f32 list" "f32 list" nat
  | PerLayerFlat "f32 list" nat "f32 list option"

record eviction_result =
  er_evicted :: bool
  er_tokens_removed :: nat
  er_new_pos :: nat

text \<open>\<open>a - b\<close> on \<open>usize\<close> in the release build.\<close>

definition usize_sub :: "nat \<Rightarrow> nat \<Rightarrow> nat" where
  "usize_sub a b = (if b \<le> a then a - b else a + 2 ^ 64 - b)"

definition cross_ctx_of :: "('u, 'w, 'g) engine \<Rightarrow> nat \<Rightarrow> nat list \<Rightarrow> 'u kvcache list \<Rightarrow> 'u kvcache \<Rightarrow> cross_ctx" where
  "cross_ctx_of en target_len positions cs c0 = \<lparr>cl_n_layers = length cs, cl_current_pos = current_pos c0, cl_target_len = target_len,
     cl_n_kv_heads = kv_heads c0, cl_head_dim = head_dim c0, cl_positions = positions,
     cl_keys = map (\<lambda>c. \<lparr>kv_data = en_snap en c Key, kv_rows = current_pos c0, kv_hd = head_dim c0\<rparr>) cs\<rparr>"

definition abs_position :: "cross_ctx \<Rightarrow> nat \<Rightarrow> nat" where
  "abs_position ctx i = get_or i (cl_positions ctx) i"

definition drive_cross_layer :: "('u, 'w, 'g) engine \<Rightarrow> (cross_ctx \<Rightarrow> 'u model_handle op) \<Rightarrow> 'u kvcache list \<Rightarrow> nat \<Rightarrow> nat list
    \<Rightarrow> (drive_error, bool \<times> 'u kvcache list) result" where
  "drive_cross_layer en on_whole_model cs target_len positions = (case cs of
     [] \<Rightarrow> Ok (False, cs)
   | c0 # _ \<Rightarrow>
       if current_pos c0 = 0 then Ok (False, cs)
       else and_then (map_err StageFailed (model_new cs (en_on_device en))) (\<lambda>h.
         case on_whole_model (cross_ctx_of en target_len positions cs c0) h of (r, h') \<Rightarrow>
         and_then (map_err StageFailed r) (\<lambda>_. map_err CommitFailed (model_commit h'))))"

definition run_cross_layer_keepset_eviction :: "('u, 'w, 'g) engine \<Rightarrow> (cross_ctx \<Rightarrow> 'u model_handle op) \<Rightarrow> 'u kvcache list \<Rightarrow> nat \<Rightarrow> nat list
    \<Rightarrow> (evict_error, eviction_result \<times> 'u kvcache list) result" where
  "run_cross_layer_keepset_eviction en stage cs target_len positions = (case cs of
     [] \<Rightarrow> Ok (\<lparr>er_evicted = False, er_tokens_removed = 0, er_new_pos = 0\<rparr>, cs)
   | c0 # _ \<Rightarrow>
       let pos = current_pos c0 in
       if \<not> list_all (\<lambda>c. current_pos c = pos) cs then Err EvMixedPositions
       else if target_len > 0 \<and> pos \<le> target_len then Ok (\<lparr>er_evicted = False, er_tokens_removed = 0, er_new_pos = pos\<rparr>, cs)
       else and_then (map_err EvDrive (drive_cross_layer en stage cs target_len positions)) (\<lambda>(mutated, cs').
         let new_pos = max_cache_pos cs' in
         Ok (\<lparr>er_evicted = mutated \<and> new_pos < pos, er_tokens_removed = pos - new_pos, er_new_pos = new_pos\<rparr>, cs')))"

text \<open>One layer of the loop: its target, its own guard, and the route its scores take.\<close>

definition evict_one_layer :: "('u, 'w, 'g) engine \<Rightarrow> ('u, 'w) stage_policy \<Rightarrow> nat \<Rightarrow> score_context \<Rightarrow> nat list option \<Rightarrow> nat \<Rightarrow> nat
    \<Rightarrow> 'u kvcache \<Rightarrow> (evict_error, 'u kvcache) result" where
  "evict_one_layer en pol target_len scores per_layer n l c =
     (let t = (case per_layer of Some v \<Rightarrow> get_or target_len v l | None \<Rightarrow> target_len) in
      if per_layer \<noteq> None \<and> t > 0 \<and> (current_pos c \<le> t \<or> current_pos c - t < MIN_EVICT_TOKENS) then Ok c
      else case scores of
        PerLayerFlat lf max_seq last_attn \<Rightarrow>
          evict_layer en pol t (if l * max_seq + max_seq \<le> length lf then Some (field lf (l * max_seq) max_seq) else None) last_attn l n c
      | PerHeadScores flat head n_kv_heads \<Rightarrow>
          if n_kv_heads > 0 then evict_with_head_scores en pol t flat head l n c else evict_layer en pol t (Some flat) None l n c
      | FlatScores importance last_attn \<Rightarrow> evict_layer en pol t (Some importance) last_attn l n c
      | NoScores \<Rightarrow> evict_layer en pol t None None l n c)"

fun evict_layers :: "('u, 'w, 'g) engine \<Rightarrow> ('u, 'w) stage_policy \<Rightarrow> nat \<Rightarrow> score_context \<Rightarrow> nat list option \<Rightarrow> nat \<Rightarrow> nat
    \<Rightarrow> 'u kvcache list \<Rightarrow> (evict_error, 'u kvcache list) result" where
  "evict_layers en pol target_len scores per_layer n l [] = Ok []"
| "evict_layers en pol target_len scores per_layer n l (c # cs) =
     and_then (evict_one_layer en pol target_len scores per_layer n l c) (\<lambda>c'.
     and_then (evict_layers en pol target_len scores per_layer n (l + 1) cs) (\<lambda>cs'. Ok (c' # cs')))"

definition run_policy_eviction :: "('u, 'w, 'g) engine \<Rightarrow> ('u, 'w) stage_policy \<Rightarrow> 'u kvcache list \<Rightarrow> nat \<Rightarrow> score_context \<Rightarrow> nat list option
    \<Rightarrow> nat list option \<Rightarrow> (evict_error, eviction_result \<times> 'u kvcache list) result" where
  "run_policy_eviction en pol cs target_len scores per_layer positions =
     (if cs = [] then Ok (\<lparr>er_evicted = False, er_tokens_removed = 0, er_new_pos = 0\<rparr>, cs)
      else if caps_whole_model (pl_caps pol) then
        run_cross_layer_keepset_eviction en (pl_on_whole_model pol) cs target_len
          (case positions of Some ps \<Rightarrow> ps | None \<Rightarrow> [0..<max_cache_pos cs])
      else
        let pos = max_cache_pos cs in
        if per_layer = None \<and> target_len > 0 \<and> (pos \<le> target_len \<or> pos - target_len < MIN_EVICT_TOKENS)
        then Ok (\<lparr>er_evicted = False, er_tokens_removed = 0, er_new_pos = pos\<rparr>, cs)
        else and_then (evict_layers en pol target_len scores per_layer (length cs) 0 cs) (\<lambda>cs'.
          let new_pos = max_cache_pos cs' in
          Ok (\<lparr>er_evicted = True, er_tokens_removed = usize_sub pos new_pos, er_new_pos = new_pos\<rparr>, cs')))"

section \<open>Pressure handlers and their pipeline\<close>

datatype action_result = NoOp | Evicted nat nat | Swapped nat | WeightSwapped nat nat

definition is_action :: "action_result \<Rightarrow> bool" where
  "is_action r \<longleftrightarrow> r \<noteq> NoOp"

record handler_context =
  hc_importance :: "f32 list option"
  hc_head_importance :: "f32 list option"
  hc_n_kv_heads :: nat
  hc_last_attn :: "f32 list option"
  hc_per_layer_flat :: "(f32 list \<times> nat) option"
  hc_pressure_level :: pressure_level
  hc_mem_available :: nat
  hc_target_ratio :: "f32 option"

type_synonym ('u, 'x) pressure_handler =
  "handler_context \<Rightarrow> 'u kvcache list \<times> 'x \<Rightarrow> (evict_error, action_result \<times> 'u kvcache list \<times> 'x) result"

definition f32_clamp :: "f32 \<Rightarrow> f32 \<Rightarrow> f32 \<Rightarrow> f32" where
  "f32_clamp lo hi x = (if f32_partial_cmp x lo = Some Less then lo else if f32_partial_cmp x hi = Some Greater then hi else x)"





definition swap_handle :: "'u kv_os \<Rightarrow> fs_env \<Rightarrow> ('u, 'u swap) pressure_handler" where
  "swap_handle os env ctx = (\<lambda>(cs, sw).
     if hc_pressure_level ctx < Warning then Ok (NoOp, cs, sw)
     else and_then (map_err EvSwap (offload_caches os env sw cs)) (\<lambda>(n, sw', cs').
       Ok (if n > 0 then Swapped n else NoOp, cs', sw')))"

text \<open>The stages of a pipeline are kept in ascending order of the level that arms them.\<close>

type_synonym ('u, 'x) pressure_pipeline = "(pressure_level \<times> ('u, 'x) pressure_handler) list"


fun execute :: "('u, 'x) pressure_pipeline \<Rightarrow> handler_context \<Rightarrow> 'u kvcache list \<times> 'x
    \<Rightarrow> (evict_error, action_result list \<times> 'u kvcache list \<times> 'x) result" where
  "execute [] ctx w = Ok ([], w)"
| "execute ((lvl, h) # stages) ctx w =
     (if hc_pressure_level ctx \<ge> lvl
      then and_then (h ctx w) (\<lambda>(r, w'). and_then (execute stages ctx w') (\<lambda>(rs, w''). Ok (r # rs, w'')))
      else execute stages ctx w)"

section \<open>The manager\<close>

record ('u, 'x) cache_manager =
  cm_pipeline :: "('u, 'x) pressure_pipeline"
  cm_threshold_bytes :: nat
  cm_swap_handler :: "'u swap option"


definition with_pipeline :: "('u, 'x) pressure_pipeline \<Rightarrow> nat \<Rightarrow> ('u, 'x) cache_manager" where
  "with_pipeline p threshold = \<lparr>cm_pipeline = p, cm_threshold_bytes = threshold, cm_swap_handler = None\<rparr>"

text \<open>
  The swap handler of the manager is outside its pipeline. \<open>set_ratio\<close> clamps to \<open>[0.0, 1.0]\<close>; the branch of \<open>offload\<close>
  for a handler that is shared builds a new one with the same directory and the same shared state.
\<close>

definition set_ratio :: "(nat \<Rightarrow> f32 \<Rightarrow> nat) \<Rightarrow> f32 \<Rightarrow> 'u swap \<Rightarrow> 'u swap" where
  "set_ratio scale ratio sw = sw\<lparr>ratio_count := (\<lambda>n. scale n (f32_clamp 0 0x3f800000 ratio))\<rparr>"

definition enable_swap :: "(nat \<Rightarrow> f32 \<Rightarrow> nat) \<Rightarrow> ('u, 'x) cache_manager \<Rightarrow> ('u, 'x) cache_manager" where
  "enable_swap scale cm = cm\<lparr>cm_swap_handler := Some (SwapHandler_new (\<lambda>n. scale n 0x3f000000) True)\<rparr>"

definition manager_offload :: "'u kv_os \<Rightarrow> fs_env \<Rightarrow> (nat \<Rightarrow> f32 \<Rightarrow> nat) \<Rightarrow> f32 \<Rightarrow> ('u, 'x) cache_manager \<Rightarrow> 'u kvcache list
    \<Rightarrow> (nat \<times> ('u, 'x) cache_manager \<times> 'u kvcache list) swap_result" where
  "manager_offload os env scale ratio cm cs = (case cm_swap_handler cm of
     None \<Rightarrow> Ok (0, cm, cs)
   | Some sw \<Rightarrow> and_then (offload_caches os env (set_ratio scale ratio sw) cs) (\<lambda>(n, sw', cs').
       Ok (n, cm\<lparr>cm_swap_handler := Some sw'\<rparr>, cs')))"

definition manager_recall :: "('u, 'x) cache_manager \<Rightarrow> 'u kvcache list \<Rightarrow> (nat \<times> ('u, 'x) cache_manager \<times> 'u kvcache list) swap_result" where
  "manager_recall cm cs = (case cm_swap_handler cm of
     None \<Rightarrow> Ok (0, cm, cs)
   | Some sw \<Rightarrow> and_then (recall_caches sw cs) (\<lambda>(n, sw', cs'). Ok (n, cm\<lparr>cm_swap_handler := Some sw'\<rparr>, cs')))"

definition determine_pressure_level :: "('u, 'x) cache_manager \<Rightarrow> nat \<Rightarrow> pressure_level" where
  "determine_pressure_level cm mem = band (from_mem_available mem (cm_threshold_bytes cm))"

fun fold_results :: "action_result list \<Rightarrow> eviction_result \<Rightarrow> eviction_result" where
  "fold_results [] e = e"
| "fold_results (r # rs) e = fold_results rs (case r of
     Evicted n p \<Rightarrow> \<lparr>er_evicted = True, er_tokens_removed = er_tokens_removed e + n, er_new_pos = p\<rparr>
   | NoOp \<Rightarrow> e
   | _ \<Rightarrow> e\<lparr>er_evicted := True\<rparr>)"

definition pipeline_results_to_eviction_result :: "action_result list \<Rightarrow> 'u kvcache list \<Rightarrow> eviction_result" where
  "pipeline_results_to_eviction_result rs cs = fold_results rs \<lparr>er_evicted = False, er_tokens_removed = 0, er_new_pos = max_cache_pos cs\<rparr>"

definition handler_context_of :: "score_context \<Rightarrow> pressure_level \<Rightarrow> nat \<Rightarrow> f32 option \<Rightarrow> handler_context" where
  "handler_context_of scores level mem ratio = (case (case scores of
       NoScores \<Rightarrow> (None, None, 0, None, None)
     | FlatScores imp la \<Rightarrow> (Some imp, None, 0, la, None)
     | PerHeadScores flat head n \<Rightarrow> (Some flat, Some head, n, None, None)
     | PerLayerFlat lf ms la \<Rightarrow> (None, None, 0, la, Some (lf, ms))) of (imp, head, n, la, plf) \<Rightarrow>
     \<lparr>hc_importance = imp, hc_head_importance = head, hc_n_kv_heads = n, hc_last_attn = la, hc_per_layer_flat = plf,
      hc_pressure_level = level, hc_mem_available = mem, hc_target_ratio = ratio\<rparr>)"

definition execute_dispatch :: "'u kv_os \<Rightarrow> nat option \<Rightarrow> ('u, 'x) cache_manager \<Rightarrow> score_context \<Rightarrow> bool \<Rightarrow> f32 option \<Rightarrow> 'u kvcache list \<times> 'x
    \<Rightarrow> (evict_error, eviction_result \<times> 'u kvcache list \<times> 'x) result" where
  "execute_dispatch os mem_stats cm scores force ratio = (\<lambda>(cs, x).
     if cs = [] then Ok (\<lparr>er_evicted = False, er_tokens_removed = 0, er_new_pos = 0\<rparr>, cs, x)
     else
       let idle = Ok (\<lparr>er_evicted = False, er_tokens_removed = 0, er_new_pos = max_cache_pos cs\<rparr>, cs, x);
           level = (if force then Some (Emergency, case mem_stats of Some m \<Rightarrow> m | None \<Rightarrow> 2 ^ 64 - 1)
                    else case mem_stats of None \<Rightarrow> None
                      | Some m \<Rightarrow> if determine_pressure_level cm m = Normal then None else Some (determine_pressure_level cm m, m)) in
       case level of None \<Rightarrow> idle
       | Some (lvl, mem) \<Rightarrow>
           and_then (execute (cm_pipeline cm) (handler_context_of scores lvl mem ratio) (cs, x)) (\<lambda>(rs, cs', x').
           let res = pipeline_results_to_eviction_result rs cs' in
           if er_evicted res then and_then (case release_all os cs' of Ok c \<Rightarrow> Ok c | _ \<Rightarrow> Panic) (\<lambda>cs''. Ok (res, cs'', x'))
           else Ok (res, cs', x')))"



definition maybe_evict_with_head_scores where
  "maybe_evict_with_head_scores os mem cm flat head n = execute_dispatch os mem cm (PerHeadScores flat head n) False None"




definition force_evict_with_head_scores where
  "force_evict_with_head_scores os mem cm ratio flat head n = execute_dispatch os mem cm (PerHeadScores flat head n) True (Some ratio)"



section \<open>The eviction stage\<close>

record ('u, 'x, 'g) eviction_stage =
  es_lifecycle :: stage_lifecycle
  es_manager :: "('u, 'x) cache_manager"
  es_target_ratio :: f32
  es_min_band :: "pressure_level option"
  es_extract :: "'g \<Rightarrow> (f32 list \<times> f32 list option \<times> (f32 list \<times> nat) option) option"
  es_sync :: "'g \<Rightarrow> 'g"
  es_reset :: "'g \<Rightarrow> 'g"

definition eviction_one_shot :: "('u, 'x) cache_manager \<Rightarrow> f32 \<Rightarrow> ('u, 'x, 'g) eviction_stage" where
  "eviction_one_shot cm ratio = \<lparr>es_lifecycle = OneShot, es_manager = cm, es_target_ratio = ratio, es_min_band = None,
     es_extract = (\<lambda>_. None), es_sync = id, es_reset = id\<rparr>"




section \<open>The driver replaces the eviction stage\<close>





text \<open>On layers of one length both loops drive the technique alike.\<close>

lemma evict_layers_drive:
  assumes "pl_stage pol = md_stage drv" "pl_caps pol = md_caps drv" "\<And>c. c \<in> set cs \<Longrightarrow> budget_for drv (current_pos c) = t"
  shows "evict_layers en pol t NoScores None n l cs
    = and_then (map_err EvDrive (drive_layers en drv (None, None, None) n l cs)) (\<lambda>(_, cs'). Ok cs')"
  using assms(3)
proof (induction cs arbitrary: l)
  case (Cons c cs)
  let ?d = "drive_mutation_layer (en_numerics en) (en_os en) (en_fs en) (en_snap en) (en_on_device en) (md_stage drv) (md_caps drv) l n t None None None c"
  have IH: "evict_layers en pol t NoScores None n (l + 1) cs
      = and_then (map_err EvDrive (drive_layers en drv (None, None, None) n (l + 1) cs)) (\<lambda>(_, cs'). Ok cs')"
    by (rule Cons.IH) (use Cons.prems in simp)
  have t: "budget_for drv (current_pos c) = t" using Cons.prems by simp
  show ?case
    by (cases ?d; cases "drive_layers en drv (None, None, None) n (l + 1) cs")
      (auto simp: IH[simplified] t evict_one_layer_def evict_layer_def policy_drive_def assms(1,2))
qed simp


text \<open>The sliding window on the one layer of ninety rows.\<close>

definition demo_policy :: "(nat, nat) stage_policy" where
  "demo_policy = \<lparr>pl_stage = md_stage demo_driver, pl_on_whole_model = (\<lambda>ctx h. (Ok (), h)), pl_caps = md_caps demo_driver\<rparr>"

lemma demo_driver_acts: "\<exists>c'. drive_layers demo_engine demo_driver (imp, hs, at) n l [demo_wide] = Ok (True, [c']) \<and> current_pos c' = 20"
proof -
  have st: "md_stage demo_driver = sliding_on_phase (SlidingWindow_new 16 0) keep"
    by (simp add: demo_driver_def with_mutation_fired_def with_pressure_gate_def mutation_driver_new_def)
  have "sliding_budget (SlidingWindow_new 16 0) 18 = 20" by (simp add: sliding_budget_def SlidingWindow_new_def)
  moreover obtain c' where "drive_mutation_layer (en_numerics demo_engine) (en_os demo_engine) (en_fs demo_engine) (en_snap demo_engine) (en_on_device demo_engine)
    (md_stage demo_driver) (md_caps demo_driver) l n (budget_for demo_driver (current_pos demo_wide)) imp hs at demo_wide = Ok (True, c')"
    "slid demo_driver (SlidingWindow_new 16 0) demo_wide c'"
    using sliding_drive[of demo_wide] demo_wide_ok unfolding st by force
  ultimately show ?thesis by (auto simp: slid_def Let_def demo_wide_ok demo_driver_fields)
qed


section \<open>What an eviction can do\<close>

definition shrunk :: "'u kvcache \<Rightarrow> 'u kvcache \<Rightarrow> bool" where
  "shrunk c c' \<longleftrightarrow> kv_wf c' \<and> kv_heads c' = kv_heads c \<and> current_pos c' \<le> current_pos c"

lemma executes_shrunk:
  assumes "executes p c c'" "0 < kv_heads c"
  shows "shrunk c c'"
proof -
  from assms obtain ks where ks: "planned_head p 0 = Some ks" "keep_in (head_start c 0) (current_pos c) ks" by (auto simp: executes_def)
  have len: "length ls \<le> current_pos c" if "keep_in a (current_pos c) ls" for a ls using keep_in_length[OF that] by simp
  have "current_pos c' \<le> current_pos c"
  proof (cases p)
    case (StagedLayerWide ls)
    with ks have "keep_in (head_start c 0) (current_pos c) ls" by (simp add: planned_head_def)
    with StagedLayerWide assms(1) show ?thesis by (simp add: executes_def len)
  next
    case (StagedPerHead kss)
    have "length ls \<le> current_pos c" if ls: "ls \<in> set kss" "length kss = kv_heads c" for ls
    proof -
      from ls obtain h where h: "h < kv_heads c" "ls = kss ! h" by (metis in_set_conv_nth)
      with assms(1) StagedPerHead obtain qs where "planned_head p h = Some qs" "keep_in (head_start c h) (current_pos c) qs" by (auto simp: executes_def)
      then show ?thesis using StagedPerHead h ls(2) by (auto simp: planned_head_def intro: len)
    qed
    moreover have "length kss = kv_heads c" using assms(1) StagedPerHead by (simp add: executes_def)
    ultimately show ?thesis using StagedPerHead assms(1) by (auto simp: executes_def intro!: max_list_le)
  qed
  with assms(1) show ?thesis by (simp add: shrunk_def executes_def)
qed

lemma drive_shrinks:
  fixes stage :: "('u, 'w) cache_handle stage"
  assumes "kv_wf c" "0 < kv_heads c" "keep_stage stage"
  shows "(\<exists>m c'. drive_mutation_layer nu os env snap dev stage caps l n t imp hs at c = Ok (m, c') \<and> shrunk c c')
    \<or> (\<exists>e. drive_mutation_layer nu os env snap dev stage caps l n t imp hs at c = Err (StageFailed e))"
proof -
  have same: "shrunk c c" using assms(1) by (simp add: shrunk_def)
  show ?thesis
  proof (cases "current_pos c = 0")
    case True
    then have "drive_mutation_layer nu os env snap dev stage caps l n t imp hs at c = Ok (False, c)" by (simp add: drive_mutation_layer_def run_mutation_layer_def)
    with same show ?thesis by blast
  next
    case False
    let ?ctx = "layer_ctx snap dev caps l n t imp hs at c"
    let ?h = "handle_new c dev l n :: ('u, 'w) cache_handle"
    from stage_outcome[OF assms(1,3) refl, where ctx = ?ctx and dev = dev and l = l and n = n and nu = nu and os = os and env = env]
    consider "stage ?ctx ?h = (Ok (), ?h)" "commit nu os env ?h = Ok (False, c, None)"
      | e h where "stage ?ctx ?h = (Err e, h)"
      | p h c' where "stage ?ctx ?h = (Ok (), h)" "commit nu os env h = Ok (True, c', None)" "executes p c c'" by metis
    then show ?thesis
    proof cases
      case 1
      then have "drive_mutation_layer nu os env snap dev stage caps l n t imp hs at c = Ok (False, c)"
        using False by (simp add: drive_mutation_layer_def run_mutation_layer_def run_stage_def)
      with same show ?thesis by blast
    next
      case 2
      then show ?thesis using False by (simp add: drive_mutation_layer_def run_mutation_layer_def run_stage_def)
    next
      case 3
      with executes_shrunk[OF 3(3) assms(2)] show ?thesis using False by (auto simp: drive_mutation_layer_def run_mutation_layer_def run_stage_def)
    qed
  qed
qed

text \<open>What one layer of the loop can come to.\<close>

definition layer_result :: "'u kvcache \<Rightarrow> (evict_error, 'u kvcache) result \<Rightarrow> bool" where
  "layer_result c r \<longleftrightarrow> (\<exists>c'. r = Ok c' \<and> shrunk c c') \<or> (\<exists>e. r = Err (EvDrive (StageFailed e)))"

lemma policy_drive_shrinks:
  assumes "kv_wf c" "0 < kv_heads c" "keep_stage (pl_stage pol)"
  shows "layer_result c (policy_drive en pol t imp hs at l n c)"
  using drive_shrinks[OF assms, where nu = "en_numerics en" and os = "en_os en" and env = "en_fs en" and snap = "en_snap en" and dev = "en_on_device en"
      and caps = "pl_caps pol" and l = l and n = n and t = t and imp = imp and hs = hs and at = at]
  by (auto simp: policy_drive_def layer_result_def)

lemma evict_one_layer_shrinks:
  assumes "kv_wf c" "0 < kv_heads c" "keep_stage (pl_stage pol)"
  shows "layer_result c (evict_one_layer en pol t scores per_layer n l c)"
proof -
  have "layer_result c (Ok c)" using assms(1) by (simp add: layer_result_def shrunk_def)
  then show ?thesis using policy_drive_shrinks[OF assms, of en]
    by (simp add: evict_one_layer_def Let_def evict_layer_def evict_with_head_scores_def split: score_context.split option.split)
qed

lemma evict_layers_shrinks:
  assumes "\<forall>c \<in> set cs. kv_wf c \<and> 0 < kv_heads c" "keep_stage (pl_stage pol)"
  shows "(\<exists>cs'. evict_layers en pol t scores per_layer n l cs = Ok cs' \<and> list_all2 shrunk cs cs')
    \<or> (\<exists>e. evict_layers en pol t scores per_layer n l cs = Err (EvDrive (StageFailed e)))"
  using assms(1)
proof (induction cs arbitrary: l)
  case (Cons c cs)
  have "layer_result c (evict_one_layer en pol t scores per_layer n l c)" by (rule evict_one_layer_shrinks) (use Cons.prems assms(2) in auto)
  with Cons.IH[of "l + 1"] Cons.prems show ?case by (auto simp: layer_result_def)
qed simp

lemma shrunk_max: "list_all2 shrunk cs cs' \<Longrightarrow> max_cache_pos cs' \<le> max_cache_pos cs"
proof (induction cs cs' rule: list_all2_induct)
  case (Cons c cs c' cs')
  then show ?case by (auto simp: max_cache_pos_def shrunk_def)
qed simp

text \<open>
  C24: The manager never grows or breaks a cache. For a drop-only technique that works layer by layer (whole-model techniques take another path), whatever
  scores, per-layer budgets and positions it is given, an eviction over well-formed layers never panics and can fail only by the technique's
  own refusal; otherwise every layer is well formed with the same heads and no longer than before, the
  reported position is that of the longest layer, and the reported removal is by how much the longest layer became
  shorter (the unchecked subtraction does not wrap); what shorter layers lost is not reported. A result that reports no eviction left every layer as it was.
\<close>

theorem manager_eviction_safe:
  assumes "\<forall>c \<in> set cs. kv_wf c \<and> 0 < kv_heads c" "keep_stage (pl_stage pol)" "\<not> caps_whole_model (pl_caps pol)"
  shows "case run_policy_eviction en pol cs target_len scores per_layer positions of
      Ok (res, cs') \<Rightarrow> list_all2 shrunk cs cs' \<and> er_new_pos res = max_cache_pos cs'
        \<and> er_tokens_removed res + er_new_pos res = max_cache_pos cs \<and> (\<not> er_evicted res \<longrightarrow> cs' = cs)
    | Err e \<Rightarrow> \<exists>e'. e = EvDrive (StageFailed e')
    | Panic \<Rightarrow> False"
proof -
  have refl: "list_all2 shrunk cs cs" using assms(1) by (auto simp: list_all2_same shrunk_def)
  let ?r = "evict_layers en pol target_len scores per_layer (length cs) 0 cs"
  show ?thesis
  proof (cases "cs = [] \<or> per_layer = None \<and> target_len > 0 \<and> (max_cache_pos cs \<le> target_len \<or> max_cache_pos cs - target_len < MIN_EVICT_TOKENS)")
    case True
    then show ?thesis using assms(3) refl by (auto simp: run_policy_eviction_def Let_def max_cache_pos_def)
  next
    case False
    then have "run_policy_eviction en pol cs target_len scores per_layer positions = and_then ?r (\<lambda>cs'.
        Ok (\<lparr>er_evicted = True, er_tokens_removed = usize_sub (max_cache_pos cs) (max_cache_pos cs'), er_new_pos = max_cache_pos cs'\<rparr>, cs'))"
      using assms(3) by (auto simp: run_policy_eviction_def Let_def)
    with evict_layers_shrinks[OF assms(1,2), of en target_len scores per_layer "length cs" 0] show ?thesis
      by (auto simp: usize_sub_def dest: shrunk_max)
  qed
qed

theorem manager_eviction_safe_witness:
  "\<exists>res cs'. run_policy_eviction demo_engine demo_policy [demo_wide] 18 NoScores None None = Ok (res, cs')
    \<and> er_tokens_removed res = 70 \<and> er_new_pos res = 20 \<and> list_all2 shrunk [demo_wide] cs'"
proof -
  have st: "md_stage demo_driver = sliding_on_phase (SlidingWindow_new 16 0) keep"
    by (simp add: demo_driver_def with_mutation_fired_def with_pressure_gate_def mutation_driver_new_def)
  have p: "\<forall>c \<in> set [demo_wide]. kv_wf c \<and> 0 < kv_heads c" "keep_stage (pl_stage demo_policy)" "\<not> caps_whole_model (pl_caps demo_policy)"
    by (auto simp: demo_wide_ok demo_policy_def st keep_stage_def sliding_on_phase_def demo_driver_def with_mutation_fired_def with_pressure_gate_def
        mutation_driver_new_def SCORE_FREE_def)
  have e: "evict_layers demo_engine demo_policy 18 NoScores None 1 0 [demo_wide]
      = and_then (map_err EvDrive (drive_layers demo_engine demo_driver (None, None, None) 1 0 [demo_wide])) (\<lambda>(_, cs'). Ok cs')"
    by (rule evict_layers_drive) (simp_all add: demo_policy_def demo_wide_ok demo_driver_fields)
  obtain c' where c': "evict_layers demo_engine demo_policy 18 NoScores None 1 0 [demo_wide] = Ok [c']" "current_pos c' = 20"
    using demo_driver_acts[of None None None 1 0] e by auto
  have m: "max_cache_pos [demo_wide] = 90" "max_cache_pos [c'] = 20" using c' by (simp_all add: max_cache_pos_def demo_wide_ok)
  have r: "run_policy_eviction demo_engine demo_policy [demo_wide] 18 NoScores None None
      = Ok (\<lparr>er_evicted = True, er_tokens_removed = 70, er_new_pos = 20\<rparr>, [c'])"
    using p(3) c'(1) by (simp add: run_policy_eviction_def Let_def m MIN_EVICT_TOKENS_def usize_sub_def del: evict_layers.simps)
  from manager_eviction_safe[OF p, where en = demo_engine and target_len = 18 and scores = NoScores and per_layer = None and positions = None]
  show ?thesis unfolding r by simp
qed

text \<open>
  The \<open>evicted\<close> flag is set although nothing was evicted. A technique that never drops anything, asked for a
  target that is worth evicting for, leaves every layer as it is, and the manager reports an eviction of no
  token; callers that reset the accumulated scores after an eviction do so although the cache is unchanged.
\<close>

theorem evicted_flag_overstates:
  assumes "cs \<noteq> []" "0 < target_len" "target_len + MIN_EVICT_TOKENS \<le> max_cache_pos cs"
    and "pl_stage pol = no_eviction_on_phase" "\<not> caps_whole_model (pl_caps pol)"
  shows "run_policy_eviction en pol cs target_len scores None positions
    = Ok (\<lparr>er_evicted = True, er_tokens_removed = 0, er_new_pos = max_cache_pos cs\<rparr>, cs)"
proof -
  have d: "policy_drive en pol t imp hs at l n c = Ok c" for t imp hs at l n c
    by (simp add: policy_drive_def assms(4) drive_idle no_eviction_on_phase_def)
  then have one: "evict_one_layer en pol t scores None n l c = Ok c" for t n l c
    by (simp add: evict_one_layer_def evict_layer_def evict_with_head_scores_def split: score_context.split)
  have all: "evict_layers en pol t scores None n l xs = Ok xs" for t n l xs
    by (induction xs arbitrary: l) (simp_all add: one)
  show ?thesis using assms(1-3,5) by (auto simp: run_policy_eviction_def Let_def all usize_sub_def MIN_EVICT_TOKENS_def)
qed

theorem evicted_flag_overstates_witness:
  "run_policy_eviction demo_engine (demo_policy\<lparr>pl_stage := no_eviction_on_phase\<rparr>) [demo_wide] 18 NoScores None None
    = Ok (\<lparr>er_evicted = True, er_tokens_removed = 0, er_new_pos = 90\<rparr>, [demo_wide])"
proof -
  have m: "max_cache_pos [demo_wide] = 90" by (simp add: max_cache_pos_def demo_wide_ok)
  have w: "\<not> caps_whole_model (pl_caps (demo_policy\<lparr>pl_stage := no_eviction_on_phase\<rparr>))"
    by (simp add: demo_policy_def demo_driver_def with_mutation_fired_def with_pressure_gate_def mutation_driver_new_def SCORE_FREE_def)
  show ?thesis
    using evicted_flag_overstates[of "[demo_wide]" 18 "demo_policy\<lparr>pl_stage := no_eviction_on_phase\<rparr>", OF _ _ _ _ w] m by (simp add: MIN_EVICT_TOKENS_def)
qed

end
