(* ===== verification/Gguf_File.thy ===== *)
theory Gguf_File
  imports Codec Kv_Layout
begin

text \<open>
  The GGUF parser of \<^verbatim>\<open>engine/src/models/loader/gguf.rs\<close>: cursor, metadata values, tensor infos, the data of a tensor and the metadata
  accessors. The arithmetic is that of the release profile, where \<open>usize\<close> additions and \<open>u64\<close> products wrap around. What the parser needs of
  its run-time system is a record: whether a reservation of so many elements is served, what \<open>from_utf8_lossy\<close> makes of invalid text, and how
  deep the recursion over nested arrays may go.
\<close>

section \<open>Types\<close>

datatype gguf_error =
    UnexpectedEof nat nat nat
  | InvalidMagicNumber u32
  | UnsupportedVersion u32
  | UnknownValueType u32
  | MissingMetadata str
  | UnsupportedArchitecture str
  | TensorNotFound str
  | UnsupportedType u32
  | F32Size nat nat
  | NoDequant u32
  | UnsupportedTarget dtype

definition GGUF_MAGIC :: u32 where "GGUF_MAGIC = 0x46554747"
definition GGUF_VERSION_3 :: u32 where "GGUF_VERSION_3 = 3"
definition GGUF_DEFAULT_ALIGNMENT :: nat where "GGUF_DEFAULT_ALIGNMENT = 32"

text \<open>Signed and floating-point numbers are kept as their bits.\<close>

datatype gguf_value =
    VU8 byte | VI8 byte | VU16 u16 | VI16 u16 | VU32 u32 | VI32 u32 | VU64 u64 | VI64 u64 | VF32 u32 | VF64 u64
  | VBool bool | VString str | VArray "gguf_value list"

record gguf_tensor_info =
  ti_name :: str
  ti_dims :: "u64 list"
  ti_ggml_type :: u32
  ti_offset :: u64

datatype reservation = ResValues | ResMetadata | ResTensors | ResIndex | ResDims

record gguf_rt =
  rt_reserve :: "reservation \<Rightarrow> nat \<Rightarrow> bool"
  rt_lossy :: "byte list \<Rightarrow> str"
  rt_stack :: nat

record gguf_file =
  gf_mmap :: "byte list"
  gf_version :: u32
  gf_metadata :: "str \<Rightarrow> gguf_value option"
  gf_tensors :: "gguf_tensor_info list"
  gf_tensor_index :: "str \<Rightarrow> nat option"
  gf_tensor_data_offset :: nat

section \<open>The cursor\<close>

text \<open>An operation of the cursor: on the data and the position, a value and the new position.\<close>

type_synonym 'a reader = "byte list \<Rightarrow> nat \<Rightarrow> (gguf_error, 'a \<times> nat) result"

definition rd_then :: "'a reader \<Rightarrow> ('a \<Rightarrow> 'b reader) \<Rightarrow> 'b reader" where
  "rd_then r f = (\<lambda>data pos. and_then (r data pos) (\<lambda>(x, pos'). f x data pos'))"

definition rd_ok :: "'a \<Rightarrow> 'a reader" where
  "rd_ok x = (\<lambda>data pos. Ok (x, pos))"

definition rd_lift :: "(gguf_error, 'a) result \<Rightarrow> 'a reader" where
  "rd_lift r = (\<lambda>data pos. and_then r (\<lambda>x. Ok (x, pos)))"

definition usize_wrap :: "nat \<Rightarrow> nat" where
  "usize_wrap n = n mod usize_limit"

definition Cursor_read_bytes :: "nat \<Rightarrow> byte list reader" where
  "Cursor_read_bytes n = (\<lambda>data pos.
     if usize_wrap (pos + n) \<le> length data
     then and_then (slice data pos (usize_wrap (pos + n))) (\<lambda>b. Ok (b, usize_wrap (pos + n)))
     else Err (UnexpectedEof pos n (length data - pos)))"

definition Cursor_read_u8 :: "byte reader" where
  "Cursor_read_u8 = rd_then (Cursor_read_bytes 1) (\<lambda>b. rd_ok (b ! 0))"

definition Cursor_read_u16 :: "u16 reader" where
  "Cursor_read_u16 = rd_then (Cursor_read_bytes 2) (\<lambda>b. rd_ok (u16_from_le b))"

definition Cursor_read_u32 :: "u32 reader" where
  "Cursor_read_u32 = rd_then (Cursor_read_bytes 4) (\<lambda>b. rd_ok (u32_from_le b))"

definition Cursor_read_u64 :: "u64 reader" where
  "Cursor_read_u64 = rd_then (Cursor_read_bytes 8) (\<lambda>b. rd_ok (u64_from_le b))"

definition from_utf8_lossy :: "gguf_rt \<Rightarrow> byte list \<Rightarrow> str" where
  "from_utf8_lossy rt b = (if utf8_valid b then b else rt_lossy rt b)"

definition Cursor_read_string :: "gguf_rt \<Rightarrow> str reader" where
  "Cursor_read_string rt = rd_then Cursor_read_u64 (\<lambda>len. rd_then (Cursor_read_bytes (unat len)) (\<lambda>b. rd_ok (from_utf8_lossy rt b)))"

definition with_capacity :: "gguf_rt \<Rightarrow> reservation \<Rightarrow> nat \<Rightarrow> unit reader" where
  "with_capacity rt k n = rd_lift (assert_that (rt_reserve rt k n))"

text \<open>\<open>for _ in 0..count { arr.push(read()?) }\<close>.\<close>

fun read_many :: "'a reader \<Rightarrow> nat \<Rightarrow> 'a list reader" where
  "read_many r 0 = rd_ok []"
| "read_many r (Suc n) = rd_then r (\<lambda>x. rd_then (read_many r n) (\<lambda>xs. rd_ok (x # xs)))"

text \<open>The first argument is the stack that is left; running out of it ends the process.\<close>

fun Cursor_read_value :: "nat \<Rightarrow> gguf_rt \<Rightarrow> u32 \<Rightarrow> gguf_value reader" where
  "Cursor_read_value 0 rt tag = (\<lambda>data pos. Panic)"
| "Cursor_read_value (Suc stack) rt tag =
     (if tag = 0 then rd_then Cursor_read_u8 (\<lambda>x. rd_ok (VU8 x))
      else if tag = 1 then rd_then Cursor_read_u8 (\<lambda>x. rd_ok (VI8 x))
      else if tag = 2 then rd_then Cursor_read_u16 (\<lambda>x. rd_ok (VU16 x))
      else if tag = 3 then rd_then Cursor_read_u16 (\<lambda>x. rd_ok (VI16 x))
      else if tag = 4 then rd_then Cursor_read_u32 (\<lambda>x. rd_ok (VU32 x))
      else if tag = 5 then rd_then Cursor_read_u32 (\<lambda>x. rd_ok (VI32 x))
      else if tag = 6 then rd_then Cursor_read_u32 (\<lambda>x. rd_ok (VF32 x))
      else if tag = 7 then rd_then Cursor_read_u8 (\<lambda>x. rd_ok (VBool (x \<noteq> 0)))
      else if tag = 8 then rd_then (Cursor_read_string rt) (\<lambda>x. rd_ok (VString x))
      else if tag = 9 then
        rd_then Cursor_read_u32 (\<lambda>elem_type.
        rd_then Cursor_read_u64 (\<lambda>count.
        rd_then (with_capacity rt ResValues (unat count)) (\<lambda>_.
        rd_then (read_many (Cursor_read_value stack rt elem_type) (unat count)) (\<lambda>arr. rd_ok (VArray arr)))))
      else if tag = 10 then rd_then Cursor_read_u64 (\<lambda>x. rd_ok (VU64 x))
      else if tag = 11 then rd_then Cursor_read_u64 (\<lambda>x. rd_ok (VI64 x))
      else if tag = 12 then rd_then Cursor_read_u64 (\<lambda>x. rd_ok (VF64 x))
      else rd_lift (Err (UnknownValueType tag)))"

definition Cursor_align_to :: "nat \<Rightarrow> unit reader" where
  "Cursor_align_to alignment = (\<lambda>data pos.
     if alignment = 0 then Panic
     else Ok ((), if pos mod alignment \<noteq> 0 then pos + (alignment - pos mod alignment) else pos))"

section \<open>Parsing\<close>

fun kv_loop :: "gguf_rt \<Rightarrow> nat \<Rightarrow> (str \<Rightarrow> gguf_value option) \<Rightarrow> (str \<Rightarrow> gguf_value option) reader" where
  "kv_loop rt 0 metadata = rd_ok metadata"
| "kv_loop rt (Suc n) metadata =
     rd_then (Cursor_read_string rt) (\<lambda>key.
     rd_then Cursor_read_u32 (\<lambda>type_tag.
     rd_then (Cursor_read_value (rt_stack rt) rt type_tag) (\<lambda>value.
     kv_loop rt n (metadata(key \<mapsto> value)))))"

definition alignment_of :: "(str \<Rightarrow> gguf_value option) \<Rightarrow> nat" where
  "alignment_of metadata = (case metadata (ascii ''general.alignment'') of
     Some (VU32 a) \<Rightarrow> unat a | Some (VU64 a) \<Rightarrow> unat a | _ \<Rightarrow> GGUF_DEFAULT_ALIGNMENT)"

definition read_tensor_info :: "gguf_rt \<Rightarrow> gguf_tensor_info reader" where
  "read_tensor_info rt =
     rd_then (Cursor_read_string rt) (\<lambda>name.
     rd_then Cursor_read_u32 (\<lambda>n_dims.
     rd_then (with_capacity rt ResDims (unat n_dims)) (\<lambda>_.
     rd_then (read_many Cursor_read_u64 (unat n_dims)) (\<lambda>dims.
     rd_then Cursor_read_u32 (\<lambda>ggml_type.
     rd_then Cursor_read_u64 (\<lambda>offset.
     rd_ok \<lparr>ti_name = name, ti_dims = dims, ti_ggml_type = ggml_type, ti_offset = offset\<rparr>))))))"

fun tensor_loop :: "gguf_rt \<Rightarrow> nat \<Rightarrow> nat \<Rightarrow> gguf_tensor_info list \<times> (str \<Rightarrow> nat option) \<Rightarrow> (gguf_tensor_info list \<times> (str \<Rightarrow> nat option)) reader" where
  "tensor_loop rt i 0 s = rd_ok s"
| "tensor_loop rt i (Suc n) s = rd_then (read_tensor_info rt) (\<lambda>info.
     tensor_loop rt (i + 1) n (fst s @ [info], (snd s)(ti_name info \<mapsto> i)))"

definition parse_header :: "gguf_rt \<Rightarrow> (nat \<times> nat) reader" where
  "parse_header rt =
     rd_then Cursor_read_u32 (\<lambda>magic.
     rd_then (rd_lift (ensure (magic = GGUF_MAGIC) (InvalidMagicNumber magic))) (\<lambda>_.
     rd_then Cursor_read_u32 (\<lambda>version.
     rd_then (rd_lift (ensure (version = GGUF_VERSION_3) (UnsupportedVersion version))) (\<lambda>_.
     rd_then Cursor_read_u64 (\<lambda>tensor_count.
     rd_then Cursor_read_u64 (\<lambda>kv_count. rd_ok (unat tensor_count, unat kv_count)))))))"

text \<open>Everything up to the alignment.\<close>

definition parse_infos :: "gguf_rt \<Rightarrow> ((str \<Rightarrow> gguf_value option) \<times> gguf_tensor_info list \<times> (str \<Rightarrow> nat option)) reader" where
  "parse_infos rt =
     rd_then (parse_header rt) (\<lambda>(tensor_count, kv_count).
     rd_then (with_capacity rt ResMetadata kv_count) (\<lambda>_.
     rd_then (kv_loop rt kv_count Map.empty) (\<lambda>metadata.
     rd_then (with_capacity rt ResTensors tensor_count) (\<lambda>_.
     rd_then (with_capacity rt ResIndex tensor_count) (\<lambda>_.
     rd_then (tensor_loop rt 0 tensor_count ([], Map.empty)) (\<lambda>(tensors, index). rd_ok (metadata, tensors, index)))))))"

definition parse_bytes :: "gguf_rt \<Rightarrow> byte list \<Rightarrow> (gguf_error, gguf_file) result" where
  "parse_bytes rt data =
     and_then (rd_then (parse_infos rt) (\<lambda>(metadata, tensors, index).
         rd_then (Cursor_align_to (alignment_of metadata)) (\<lambda>_. rd_ok (metadata, tensors, index))) data 0)
       (\<lambda>((metadata, tensors, index), pos).
     Ok \<lparr>gf_mmap = data, gf_version = GGUF_VERSION_3, gf_metadata = metadata, gf_tensors = tensors, gf_tensor_index = index,
         gf_tensor_data_offset = pos\<rparr>)"

section \<open>Tensors\<close>

definition find_tensor :: "gguf_file \<Rightarrow> str \<Rightarrow> (gguf_error, gguf_tensor_info option) result" where
  "find_tensor g name = (case gf_tensor_index g name of
     None \<Rightarrow> Ok None
   | Some i \<Rightarrow> if i < length (gf_tensors g) then Ok (Some (gf_tensors g ! i)) else Panic)"

text \<open>Bytes of a block and elements per block, by type; other types have no size.\<close>

definition tensor_byte_size :: "gguf_tensor_info \<Rightarrow> nat" where
  "tensor_byte_size info = (let num_elements = prod_list (ti_dims info); t = ti_ggml_type info in
     unat (if t = 0 then num_elements * 4
       else if t = 1 then num_elements * 2
       else if t = 2 then num_elements div 32 * 18
       else if t = 3 then num_elements div 32 * 20
       else if t = 8 then num_elements div 32 * 34
       else if t = 12 then num_elements div 256 * 144
       else 0))"

definition tensor_data :: "gguf_file \<Rightarrow> gguf_tensor_info \<Rightarrow> (gguf_error, byte list) result" where
  "tensor_data g info = (let start = usize_wrap (gf_tensor_data_offset g + unat (ti_offset info)) in
     slice (gf_mmap g) start (usize_wrap (start + tensor_byte_size info)))"

section \<open>Metadata\<close>

definition get_str :: "gguf_file \<Rightarrow> str \<Rightarrow> str option" where
  "get_str g key = (case gf_metadata g key of Some (VString s) \<Rightarrow> Some s | _ \<Rightarrow> None)"

definition get_u32 :: "gguf_file \<Rightarrow> str \<Rightarrow> u32 option" where
  "get_u32 g key = (case gf_metadata g key of
     Some (VU32 v) \<Rightarrow> Some v | Some (VU64 v) \<Rightarrow> Some (ucast v) | Some (VI32 v) \<Rightarrow> Some v | _ \<Rightarrow> None)"

definition get_u64 :: "gguf_file \<Rightarrow> str \<Rightarrow> u64 option" where
  "get_u64 g key = (case gf_metadata g key of Some (VU64 v) \<Rightarrow> Some v | Some (VU32 v) \<Rightarrow> Some (ucast v) | _ \<Rightarrow> None)"

end
