(* ===== verification/Gguf_Props.thy ===== *)
theory Gguf_Props
  imports Gguf_File
begin

text \<open>
  What the GGUF parser accepts: the encoding of a file as the format describes it is read back, whole and in every tensor; a file
  that was cut off before its tensor data is never accepted; and which headers end the process.
\<close>

section \<open>Readers on the text they read\<close>

text \<open>In any data of at most \<open>B\<close> bytes the reader takes exactly the given bytes, wherever they stand.\<close>

definition reads :: "nat \<Rightarrow> 'a reader \<Rightarrow> byte list \<Rightarrow> 'a \<Rightarrow> bool" where
  "reads B r bs x \<longleftrightarrow> (\<forall>pre post. length (pre @ bs @ post) \<le> B \<longrightarrow> r (pre @ bs @ post) (length pre) = Ok (x, length pre + length bs))"

lemma reads_then:
  assumes "reads B r bs x" "reads B (f x) bs' y"
  shows "reads B (rd_then r f) (bs @ bs') y"
  unfolding reads_def
proof (intro allI impI)
  fix pre post :: "byte list"
  assume l: "length (pre @ (bs @ bs') @ post) \<le> B"
  then have "r (pre @ bs @ (bs' @ post)) (length pre) = Ok (x, length pre + length bs)"
    using assms(1)[unfolded reads_def, rule_format, of pre "bs' @ post"] by simp
  moreover have "f x ((pre @ bs) @ bs' @ post) (length (pre @ bs)) = Ok (y, length (pre @ bs) + length bs')"
    using assms(2)[unfolded reads_def, rule_format, of "pre @ bs" post] l by simp
  ultimately show "rd_then r f (pre @ (bs @ bs') @ post) (length pre) = Ok (y, length pre + length (bs @ bs'))"
    by (simp add: rd_then_def add.assoc)
qed

lemma reads_ok [intro]: "y = x \<Longrightarrow> reads B (rd_ok x) [] y"
  by (simp add: reads_def rd_ok_def)

lemma reads_ensure: "b \<Longrightarrow> reads B (rd_lift (ensure b e)) [] ()"
  by (simp add: reads_def rd_lift_def)

lemma reads_capacity: "rt_reserve rt k n \<Longrightarrow> reads B (with_capacity rt k n) [] ()"
  by (simp add: reads_def with_capacity_def rd_lift_def)

lemma reads_bytes: "B < usize_limit \<Longrightarrow> length bs = n \<Longrightarrow> reads B (Cursor_read_bytes n) bs bs"
  by (auto simp: reads_def Cursor_read_bytes_def usize_wrap_def slice_def)

lemma reads_map: "reads B r bs x \<Longrightarrow> reads B (rd_then r (\<lambda>x. rd_ok (g x))) bs (g x)"
  using reads_then[of B r bs x "\<lambda>x. rd_ok (g x)" "[]" "g x"] by auto

lemma reads_words:
  assumes "B < usize_limit"
  shows "reads B Cursor_read_u8 [b] b" "reads B Cursor_read_u16 (u16_to_le w) w" "reads B Cursor_read_u32 (u32_to_le x) x"
    "reads B Cursor_read_u64 (u64_to_le y) y"
  using reads_map[OF reads_bytes[OF assms, of "[b]" 1], of "\<lambda>b. b ! 0"] reads_map[OF reads_bytes[OF assms, of "u16_to_le w" 2], of u16_from_le]
    reads_map[OF reads_bytes[OF assms, of "u32_to_le x" 4], of u32_from_le] reads_map[OF reads_bytes[OF assms, of "u64_to_le y" 8], of u64_from_le]
  by (simp_all add: Cursor_read_u8_def Cursor_read_u16_def Cursor_read_u32_def Cursor_read_u64_def)

text \<open>A loop of reads.\<close>

lemma reads_many:
  assumes "\<forall>x \<in> set xs. reads B r (enc x) x"
  shows "reads B (read_many r (length xs)) (concat (map enc xs)) xs"
  using assms
proof (induction xs)
  case (Cons x xs)
  have "reads B (rd_then (read_many r (length xs)) (\<lambda>ys. rd_ok (x # ys))) (concat (map enc xs)) (x # xs)"
    using reads_map[of B "read_many r (length xs)" "concat (map enc xs)" xs "Cons x"] Cons by simp
  then show ?case using reads_then[of B r "enc x" x] Cons.prems by simp
qed auto

section \<open>The encoding\<close>

definition enc_string :: "str \<Rightarrow> byte list" where
  "enc_string s = u64_to_le (word_of_nat (length s)) @ s"

fun tag_of :: "gguf_value \<Rightarrow> u32" where
  "tag_of (VU8 _) = 0" | "tag_of (VI8 _) = 1" | "tag_of (VU16 _) = 2" | "tag_of (VI16 _) = 3" | "tag_of (VU32 _) = 4" | "tag_of (VI32 _) = 5"
| "tag_of (VF32 _) = 6" | "tag_of (VBool _) = 7" | "tag_of (VString _) = 8" | "tag_of (VArray _) = 9" | "tag_of (VU64 _) = 10"
| "tag_of (VI64 _) = 11" | "tag_of (VF64 _) = 12"

definition elem_tag :: "gguf_value list \<Rightarrow> u32" where
  "elem_tag xs = (case xs of [] \<Rightarrow> 0 | x # _ \<Rightarrow> tag_of x)"

fun enc_value :: "gguf_value \<Rightarrow> byte list" where
  "enc_value (VU8 x) = [x]" | "enc_value (VI8 x) = [x]" | "enc_value (VU16 x) = u16_to_le x" | "enc_value (VI16 x) = u16_to_le x"
| "enc_value (VU32 x) = u32_to_le x" | "enc_value (VI32 x) = u32_to_le x" | "enc_value (VF32 x) = u32_to_le x" | "enc_value (VBool b) = [of_bool b]"
| "enc_value (VString s) = enc_string s" | "enc_value (VU64 x) = u64_to_le x" | "enc_value (VI64 x) = u64_to_le x" | "enc_value (VF64 x) = u64_to_le x"
| "enc_value (VArray xs) = u32_to_le (elem_tag xs) @ u64_to_le (word_of_nat (length xs)) @ concat (map enc_value xs)"

fun nesting :: "gguf_value \<Rightarrow> nat" where
  "nesting (VArray xs) = Suc (fold (\<lambda>x. max (nesting x)) xs 0)"
| "nesting _ = 1"

text \<open>Text is valid UTF-8, an array has elements of one type.\<close>

fun value_ok :: "gguf_value \<Rightarrow> bool" where
  "value_ok (VString s) \<longleftrightarrow> utf8_valid s \<and> length s < usize_limit"
| "value_ok (VArray xs) \<longleftrightarrow> list_all (\<lambda>x. value_ok x \<and> tag_of x = elem_tag xs) xs \<and> length xs < usize_limit"
| "value_ok _ \<longleftrightarrow> True"

lemma unat_len: "n < usize_limit \<Longrightarrow> unat (word_of_nat n :: u64) = n"
  by (simp add: unat_of_nat)

lemma reads_string:
  assumes "B < usize_limit" "utf8_valid s" "length s < usize_limit"
  shows "reads B (Cursor_read_string rt) (enc_string s) s"
  unfolding Cursor_read_string_def enc_string_def
  using reads_map[OF reads_bytes[OF assms(1), of s "length s"], of "from_utf8_lossy rt"] assms(2,3)
  by (intro reads_then[OF reads_words(4)[OF assms(1)]]) (simp add: unat_len from_utf8_lossy_def)

lemma enc_value_nonempty: "enc_value v \<noteq> []"
  by (cases v) (auto simp: enc_string_def dest: arg_cong[where f = length])

lemma items_le_bytes:
  assumes "\<And>x. f x \<noteq> []"
  shows "length xs \<le> length (concat (map f xs))"
proof (induction xs)
  case (Cons x xs)
  then show ?case using assms[of x] by (cases "f x") simp_all
qed simp

lemmas count_le_bytes = items_le_bytes[of enc_value, OF enc_value_nonempty]

lemma member_bytes: "x \<in> set xs \<Longrightarrow> length (enc_value x) \<le> length (concat (map enc_value xs))"
  by (induction xs) auto

lemma nesting_pos: "0 < nesting v"
  by (cases v) simp_all

lemma fold_max_ge: "x \<in> set xs \<Longrightarrow> f x \<le> fold (\<lambda>x. max (f x)) xs (b :: nat)" "b \<le> fold (\<lambda>x. max (f x)) xs b"
proof (induction xs arbitrary: b)
  case (Cons a xs)
  { case 1 then show ?case using Cons.IH(1)[of "max (f a) b"] Cons.IH(2)[of "max (f a) b"] by auto }
  { case 2 then show ?case using Cons.IH(2)[of "max (f a) b"] by simp }
qed simp_all

lemma reads_value:
  assumes B: "B < usize_limit" and res: "\<And>k n. n \<le> B \<Longrightarrow> rt_reserve rt k n"
  shows "value_ok v \<Longrightarrow> nesting v \<le> stack \<Longrightarrow> length (enc_value v) \<le> B \<Longrightarrow> reads B (Cursor_read_value stack rt (tag_of v)) (enc_value v) v"
proof (induction stack arbitrary: v)
  case 0
  then show ?case using nesting_pos[of v] by simp
next
  case (Suc stack)
  note w = reads_map[OF reads_words(1)[OF B]] reads_map[OF reads_words(2)[OF B]] reads_map[OF reads_words(3)[OF B]] reads_map[OF reads_words(4)[OF B]]
  show ?case
  proof (cases v)
    case (VString s)
    then show ?thesis using reads_map[OF reads_string[OF B, of s rt], of VString] Suc.prems(1) by simp
  next
    case (VBool b)
    then show ?thesis using w(1)[of "\<lambda>x. VBool (x \<noteq> 0)" "of_bool b"] by simp
  next
    case (VArray xs)
    have l: "length xs < usize_limit" "length xs \<le> B" using Suc.prems VArray count_le_bytes[of xs] by auto
    have e: "\<forall>x \<in> set xs. reads B (Cursor_read_value stack rt (elem_tag xs)) (enc_value x) x"
    proof
      fix x
      assume x: "x \<in> set xs"
      then have "value_ok x" "tag_of x = elem_tag xs" "nesting x \<le> stack" "length (enc_value x) \<le> B"
        using Suc.prems VArray fold_max_ge(1)[OF x, of nesting 0] member_bytes[OF x] by (auto simp: list_all_iff)
      with Suc.IH[of x] show "reads B (Cursor_read_value stack rt (elem_tag xs)) (enc_value x) x" by simp
    qed
    have "reads B (rd_then (with_capacity rt ResValues (length xs)) (\<lambda>_.
        rd_then (read_many (Cursor_read_value stack rt (elem_tag xs)) (length xs)) (\<lambda>arr. rd_ok (VArray arr)))) ([] @ concat (map enc_value xs)) (VArray xs)"
      by (rule reads_then[OF reads_capacity[OF res[OF l(2)]] reads_map[OF reads_many[OF e], of VArray]])
    then have "reads B (rd_then Cursor_read_u32 (\<lambda>elem_type. rd_then Cursor_read_u64 (\<lambda>count. rd_then (with_capacity rt ResValues (unat count)) (\<lambda>_.
        rd_then (read_many (Cursor_read_value stack rt elem_type) (unat count)) (\<lambda>arr. rd_ok (VArray arr)))))) (enc_value v) v"
      unfolding VArray enc_value.simps
      by (intro reads_then[OF reads_words(3)[OF B]] reads_then[OF reads_words(4)[OF B]]) (simp add: unat_len[OF l(1)])
    then show ?thesis using VArray by simp
  qed (use w in simp_all)
qed

text \<open>The header, the metadata and the tensor infos.\<close>

definition enc_kv :: "str \<times> gguf_value \<Rightarrow> byte list" where
  "enc_kv = (\<lambda>(k, v). enc_string k @ u32_to_le (tag_of v) @ enc_value v)"

definition enc_info :: "gguf_tensor_info \<Rightarrow> byte list" where
  "enc_info i = enc_string (ti_name i) @ u32_to_le (word_of_nat (length (ti_dims i))) @ concat (map u64_to_le (ti_dims i))
     @ u32_to_le (ti_ggml_type i) @ u64_to_le (ti_offset i)"

definition enc_header :: "(str \<times> gguf_value) list \<Rightarrow> gguf_tensor_info list \<Rightarrow> byte list" where
  "enc_header kvs infos = u32_to_le GGUF_MAGIC @ u32_to_le GGUF_VERSION_3 @ u64_to_le (word_of_nat (length infos)) @ u64_to_le (word_of_nat (length kvs))
     @ concat (map enc_kv kvs) @ concat (map enc_info infos)"

definition meta_of :: "(str \<times> gguf_value) list \<Rightarrow> str \<Rightarrow> gguf_value option" where
  "meta_of kvs = map_of (rev kvs)"

definition kv_ok :: "gguf_rt \<Rightarrow> str \<times> gguf_value \<Rightarrow> bool" where
  "kv_ok rt = (\<lambda>(k, v). utf8_valid k \<and> length k < usize_limit \<and> value_ok v \<and> nesting v \<le> rt_stack rt)"

definition info_ok :: "gguf_tensor_info \<Rightarrow> bool" where
  "info_ok i \<longleftrightarrow> utf8_valid (ti_name i) \<and> length (ti_name i) < usize_limit \<and> length (ti_dims i) < 2 ^ 32"

lemma reads_kvs:
  assumes B: "B < usize_limit" and res: "\<And>k n. n \<le> B \<Longrightarrow> rt_reserve rt k n"
  shows "\<forall>kv \<in> set kvs. kv_ok rt kv \<Longrightarrow> length (concat (map enc_kv kvs)) \<le> B \<Longrightarrow>
    reads B (kv_loop rt (length kvs) m) (concat (map enc_kv kvs)) (m ++ map_of (rev kvs))"
proof (induction kvs arbitrary: m)
  case (Cons kv kvs)
  obtain k v where kv: "kv = (k, v)" by fastforce
  have h: "utf8_valid k" "length k < usize_limit" "value_ok v" "nesting v \<le> rt_stack rt" "length (enc_value v) \<le> B"
    using Cons.prems kv by (auto simp: kv_ok_def enc_kv_def)
  have "reads B (kv_loop rt (length kvs) (m(k \<mapsto> v))) (concat (map enc_kv kvs)) (m(k \<mapsto> v) ++ map_of (rev kvs))" using Cons by simp
  moreover have "m ++ map_of (rev (kv # kvs)) = m(k \<mapsto> v) ++ map_of (rev kvs)" by (simp add: kv map_add_def fun_eq_iff split: option.split)
  ultimately show ?case unfolding kv
    by (simp add: enc_kv_def)
      (intro reads_then[OF reads_string[OF B h(1,2)]] reads_then[OF reads_words(3)[OF B]] reads_then[OF reads_value[OF B res h(3-5)]])
qed auto

lemma reads_info:
  assumes B: "B < usize_limit" and res: "\<And>k n. n \<le> B \<Longrightarrow> rt_reserve rt k n" and i: "info_ok i" "length (enc_info i) \<le> B"
  shows "reads B (read_tensor_info rt) (enc_info i) i"
proof -
  have n: "unat (word_of_nat (length (ti_dims i)) :: u32) = length (ti_dims i)" using i(1) by (simp add: info_ok_def unat_of_nat)
  have "length (concat (map u64_to_le ds)) = 8 * length ds" for ds by (induction ds) simp_all
  then have l: "length (ti_dims i) \<le> B" using i(2) by (simp add: enc_info_def)
  have "reads B (rd_then (with_capacity rt ResDims (length (ti_dims i))) (\<lambda>_. rd_then (read_many Cursor_read_u64 (length (ti_dims i))) (\<lambda>dims.
     rd_then Cursor_read_u32 (\<lambda>ggml_type. rd_then Cursor_read_u64 (\<lambda>offset.
     rd_ok \<lparr>ti_name = ti_name i, ti_dims = dims, ti_ggml_type = ggml_type, ti_offset = offset\<rparr>)))))
     ([] @ concat (map u64_to_le (ti_dims i)) @ u32_to_le (ti_ggml_type i) @ u64_to_le (ti_offset i) @ []) i"
    by (intro reads_then[OF reads_capacity[OF res[OF l]]] reads_then[OF reads_many] reads_then[OF reads_words(3)[OF B]] reads_then[OF reads_words(4)[OF B]])
      (auto intro: reads_words[OF B])
  then have "reads B (rd_then (with_capacity rt ResDims (unat (word_of_nat (length (ti_dims i)) :: u32))) (\<lambda>_. rd_then (read_many Cursor_read_u64 (unat (word_of_nat (length (ti_dims i)) :: u32))) (\<lambda>dims.
     rd_then Cursor_read_u32 (\<lambda>ggml_type. rd_then Cursor_read_u64 (\<lambda>offset.
     rd_ok \<lparr>ti_name = ti_name i, ti_dims = dims, ti_ggml_type = ggml_type, ti_offset = offset\<rparr>)))))
     (concat (map u64_to_le (ti_dims i)) @ u32_to_le (ti_ggml_type i) @ u64_to_le (ti_offset i)) i" by (simp add: n)
  then show ?thesis unfolding read_tensor_info_def enc_info_def
    using i(1) by (intro reads_then[OF reads_string[OF B]] reads_then[OF reads_words(3)[OF B]]) (auto simp: info_ok_def)
qed

fun index_from :: "nat \<Rightarrow> gguf_tensor_info list \<Rightarrow> (str \<Rightarrow> nat option) \<Rightarrow> str \<Rightarrow> nat option" where
  "index_from i [] m = m"
| "index_from i (x # xs) m = index_from (i + 1) xs (m(ti_name x \<mapsto> i))"

lemma index_from_other: "s \<notin> ti_name ` set xs \<Longrightarrow> index_from i xs m s = m s"
  by (induction i xs m rule: index_from.induct) auto

lemma index_from_nth: "distinct (map ti_name xs) \<Longrightarrow> j < length xs \<Longrightarrow> index_from i xs m (ti_name (xs ! j)) = Some (i + j)"
proof (induction i xs m arbitrary: j rule: index_from.induct)
  case (2 i x xs m)
  show ?case
  proof (cases j)
    case (Suc k)
    then show ?thesis using "2.IH"[of k] "2.prems" by (simp add: fun_upd_def)
  qed (use "2.prems" in \<open>simp add: index_from_other\<close>)
qed simp

lemma reads_tensors:
  assumes B: "B < usize_limit" and res: "\<And>k n. n \<le> B \<Longrightarrow> rt_reserve rt k n"
  shows "\<forall>x \<in> set infos. info_ok x \<Longrightarrow> length (concat (map enc_info infos)) \<le> B \<Longrightarrow>
    reads B (tensor_loop rt i (length infos) s) (concat (map enc_info infos)) (fst s @ infos, index_from i infos (snd s))"
proof (induction infos arbitrary: i s)
  case (Cons x infos)
  have x: "info_ok x" "length (enc_info x) \<le> B" using Cons.prems by auto
  have "reads B (tensor_loop rt (i + 1) (length infos) (fst s @ [x], (snd s)(ti_name x \<mapsto> i))) (concat (map enc_info infos))
    (fst s @ x # infos, index_from (i + 1) infos ((snd s)(ti_name x \<mapsto> i)))"
    using Cons.IH[of "i + 1" "(fst s @ [x], (snd s)(ti_name x \<mapsto> i))"] Cons.prems by (simp add: fun_upd_def)
  then show ?case by simp (rule reads_then[OF reads_info[OF B res x]])
qed auto

lemma reads_infos:
  assumes B: "B < usize_limit" and res: "\<And>k n. n \<le> B \<Longrightarrow> rt_reserve rt k n"
    and kvs: "\<forall>kv \<in> set kvs. kv_ok rt kv" and infos: "\<forall>x \<in> set infos. info_ok x" and l: "length (enc_header kvs infos) \<le> B"
  shows "reads B (parse_infos rt) (enc_header kvs infos) (meta_of kvs, infos, index_from 0 infos Map.empty)"
proof -
  have n: "length kvs \<le> length (concat (map enc_kv kvs))" "length infos \<le> length (concat (map enc_info infos))"
    by (rule items_le_bytes, auto simp: enc_kv_def enc_info_def enc_string_def split: prod.split dest: arg_cong[where f = length])+
  have len: "length kvs \<le> B" "length infos \<le> B" "length (concat (map enc_kv kvs)) \<le> B" "length (concat (map enc_info infos)) \<le> B"
    using n l by (auto simp: enc_header_def)
  have u: "unat (word_of_nat (length kvs) :: u64) = length kvs" "unat (word_of_nat (length infos) :: u64) = length infos"
    using len(1,2) B by (auto intro!: unat_len)
  have k: "reads B (kv_loop rt (length kvs) Map.empty) (concat (map enc_kv kvs)) (meta_of kvs)"
    using reads_kvs[OF B res kvs len(3), of Map.empty] by (simp add: meta_of_def)
  have t: "reads B (tensor_loop rt 0 (length infos) ([], Map.empty)) (concat (map enc_info infos)) (infos, index_from 0 infos Map.empty)"
    using reads_tensors[OF B res infos len(4), of 0 "([], Map.empty)"] by simp
  have h: "reads B (parse_header rt) (u32_to_le GGUF_MAGIC @ [] @ u32_to_le GGUF_VERSION_3 @ [] @ u64_to_le (word_of_nat (length infos))
      @ u64_to_le (word_of_nat (length kvs)) @ []) (length infos, length kvs)"
    unfolding parse_header_def
    by (intro reads_then[OF reads_words(3)[OF B]] reads_then[OF reads_ensure] reads_then[OF reads_words(4)[OF B]] reads_ok) (simp_all add: u)
  have "reads B (parse_infos rt) ((u32_to_le GGUF_MAGIC @ [] @ u32_to_le GGUF_VERSION_3 @ [] @ u64_to_le (word_of_nat (length infos))
      @ u64_to_le (word_of_nat (length kvs)) @ []) @ [] @ concat (map enc_kv kvs) @ [] @ [] @ concat (map enc_info infos) @ [])
      (meta_of kvs, infos, index_from 0 infos Map.empty)"
    unfolding parse_infos_def
    by (rule reads_then[OF h], unfold prod.case, intro reads_then[OF reads_capacity[OF res]] reads_then[OF k] len(1,2), rule reads_then[OF t]) auto
  then show ?thesis by (simp add: enc_header_def)
qed

section \<open>A whole file\<close>

definition padding :: "nat \<Rightarrow> nat \<Rightarrow> nat" where
  "padding a n = (if n mod a \<noteq> 0 then a - n mod a else 0)"

definition gguf_bytes :: "(str \<times> gguf_value) list \<Rightarrow> gguf_tensor_info list \<Rightarrow> byte list \<Rightarrow> byte list" where
  "gguf_bytes kvs infos payload =
     (let h = enc_header kvs infos in h @ replicate (padding (alignment_of (meta_of kvs)) (length h)) 0 @ payload)"

text \<open>A file the format describes, on a system that can hold it.\<close>

definition encodable :: "gguf_rt \<Rightarrow> (str \<times> gguf_value) list \<Rightarrow> gguf_tensor_info list \<Rightarrow> byte list \<Rightarrow> bool" where
  "encodable rt kvs infos payload \<longleftrightarrow> length (gguf_bytes kvs infos payload) < usize_limit
     \<and> (\<forall>k n. n \<le> length (gguf_bytes kvs infos payload) \<longrightarrow> rt_reserve rt k n)
     \<and> (\<forall>kv \<in> set kvs. kv_ok rt kv) \<and> (\<forall>x \<in> set infos. info_ok x)"

lemma parse_infos_file:
  assumes "encodable rt kvs infos payload"
  shows "parse_infos rt (gguf_bytes kvs infos payload) 0 = Ok ((meta_of kvs, infos, index_from 0 infos Map.empty), length (enc_header kvs infos))"
proof -
  let ?B = "length (gguf_bytes kvs infos payload)"
  have "length (enc_header kvs infos) \<le> ?B" by (simp add: gguf_bytes_def Let_def)
  with assms have "reads ?B (parse_infos rt) (enc_header kvs infos) (meta_of kvs, infos, index_from 0 infos Map.empty)"
    unfolding encodable_def by (intro reads_infos) blast+
  from this[unfolded reads_def, rule_format, of "[]" "drop (length (enc_header kvs infos)) (gguf_bytes kvs infos payload)"] show ?thesis
    by (simp add: gguf_bytes_def Let_def)
qed

lemma parse_file:
  assumes "encodable rt kvs infos payload"
  shows "parse_bytes rt (gguf_bytes kvs infos payload) = (let a = alignment_of (meta_of kvs) in if a = 0 then Panic
    else Ok \<lparr>gf_mmap = gguf_bytes kvs infos payload, gf_version = GGUF_VERSION_3, gf_metadata = meta_of kvs, gf_tensors = infos,
      gf_tensor_index = index_from 0 infos Map.empty, gf_tensor_data_offset = length (enc_header kvs infos) + padding a (length (enc_header kvs infos))\<rparr>)"
  by (simp add: parse_bytes_def rd_then_def parse_infos_file[OF assms] Cursor_align_to_def rd_ok_def Let_def padding_def)

lemma parsed_file:
  assumes "encodable rt kvs infos payload" "0 < alignment_of (meta_of kvs)" "distinct (map ti_name infos)"
  shows "\<exists>g. parse_bytes rt (gguf_bytes kvs infos payload) = Ok g \<and> gf_metadata g = meta_of kvs \<and> gf_tensors g = infos
    \<and> (\<forall>i < length infos. find_tensor g (ti_name (infos ! i)) = Ok (Some (infos ! i))
        \<and> (unat (ti_offset (infos ! i)) + tensor_byte_size (infos ! i) \<le> length payload \<longrightarrow>
            tensor_data g (infos ! i) = Ok (take (tensor_byte_size (infos ! i)) (drop (unat (ti_offset (infos ! i))) payload))))"
proof -
  let ?h = "length (enc_header kvs infos)" and ?pad = "padding (alignment_of (meta_of kvs)) (length (enc_header kvs infos))"
  define g where "g = \<lparr>gf_mmap = gguf_bytes kvs infos payload, gf_version = GGUF_VERSION_3, gf_metadata = meta_of kvs, gf_tensors = infos,
      gf_tensor_index = index_from 0 infos Map.empty, gf_tensor_data_offset = ?h + ?pad\<rparr>"
  have g: "parse_bytes rt (gguf_bytes kvs infos payload) = Ok g" using parse_file[OF assms(1)] assms(2) by (simp add: g_def Let_def)
  have l: "length (gguf_bytes kvs infos payload) = ?h + ?pad + length payload" by (simp add: gguf_bytes_def Let_def)
  have d: "tensor_data g x = Ok (take (tensor_byte_size x) (drop (unat (ti_offset x)) payload))"
    if "unat (ti_offset x) + tensor_byte_size x \<le> length payload" for x
  proof -
    have "?h + ?pad + unat (ti_offset x) + tensor_byte_size x < usize_limit" using that assms(1) l by (simp add: encodable_def)
    then show ?thesis using that l
      by (simp add: tensor_data_def g_def usize_wrap_def slice_def) (simp add: gguf_bytes_def Let_def)
  qed
  have f: "find_tensor g (ti_name (infos ! i)) = Ok (Some (infos ! i))" if "i < length infos" for i
    using that index_from_nth[OF assms(3) that, of 0 Map.empty] by (simp add: find_tensor_def g_def)
  from g d f show ?thesis by (intro exI[of _ g]) (simp add: g_def)
qed

text \<open>
  C8: Reading back a GGUF file. Every file the format describes, with any metadata (arrays nested to the depth of the stack included) and any
  tensors of distinct names, is parsed to exactly its metadata and tensor infos; each tensor is found by its name, and its data are the
  bytes of the payload at its offset, whenever they lie inside it.
\<close>

theorem gguf_roundtrip:
  assumes "encodable rt kvs infos payload" "0 < alignment_of (meta_of kvs)" "distinct (map ti_name infos)"
  shows "\<exists>g. parse_bytes rt (gguf_bytes kvs infos payload) = Ok g \<and> gf_metadata g = meta_of kvs \<and> gf_tensors g = infos
    \<and> (\<forall>i < length infos. find_tensor g (ti_name (infos ! i)) = Ok (Some (infos ! i))
        \<and> (unat (ti_offset (infos ! i)) + tensor_byte_size (infos ! i) \<le> length payload \<longrightarrow>
            tensor_data g (infos ! i) = Ok (take (tensor_byte_size (infos ! i)) (drop (unat (ti_offset (infos ! i))) payload))))"
  by (rule parsed_file[OF assms])

section \<open>Files that are cut off\<close>

text \<open>What a reader accepts it accepts in any longer data, at the same place.\<close>

definition stable :: "'a reader \<Rightarrow> bool" where
  "stable r \<longleftrightarrow> (\<forall>d p x p'. r d p = Ok (x, p') \<longrightarrow> p \<le> length d \<longrightarrow> p' \<le> length d \<and> (\<forall>e. r (d @ e) p = Ok (x, p')))"

lemma stable_then: "stable r \<Longrightarrow> (\<And>x. stable (f x)) \<Longrightarrow> stable (rd_then r f)"
  unfolding stable_def by (simp add: rd_then_def and_then_eq_Ok) blast

lemma stable_basic: "stable (rd_ok x)" "stable (rd_lift y)" "stable (Cursor_read_bytes n)"
  by (auto simp: stable_def rd_ok_def rd_lift_def with_capacity_def Cursor_read_bytes_def result_simps slice_def split: if_splits)

lemma stable_words: "stable Cursor_read_u8" "stable Cursor_read_u16" "stable Cursor_read_u32" "stable Cursor_read_u64" "stable (Cursor_read_string rt)"
    "stable (with_capacity rt k n)"
  by (simp_all add: Cursor_read_u8_def Cursor_read_u16_def Cursor_read_u32_def Cursor_read_u64_def Cursor_read_string_def with_capacity_def stable_then stable_basic)

lemma stable_many: "stable r \<Longrightarrow> stable (read_many r n)"
  by (induction n) (simp_all add: stable_then stable_basic)

lemma stable_value: "stable (Cursor_read_value stack rt tag)"
proof (induction stack arbitrary: tag)
  case 0
  show ?case by (simp add: stable_def)
qed (simp add: stable_then stable_basic stable_words stable_many)

lemma stable_kvs: "stable (kv_loop rt n m)"
  by (induction n arbitrary: m) (simp_all add: stable_then stable_basic stable_words stable_value)

lemma stable_tensors: "stable (tensor_loop rt i n s)"
  by (induction n arbitrary: i s) (simp_all add: read_tensor_info_def stable_then stable_basic stable_words stable_many)

lemma stable_infos: "stable (parse_infos rt)"
  by (simp add: parse_infos_def parse_header_def stable_then stable_basic stable_words stable_kvs stable_tensors split: prod.split)

text \<open>
  C9: A file that is cut off is not accepted. When any number of bytes is missing from the end of a file, so that its header, metadata and tensor infos are no
  longer whole, the parser does not return a file: no prefix is taken for a smaller model.
\<close>

theorem truncated_gguf_rejected:
  assumes "encodable rt kvs infos payload" "n < length (enc_header kvs infos)"
  shows "\<not> is_ok (parse_bytes rt (take n (gguf_bytes kvs infos payload)))"
proof
  let ?f = "gguf_bytes kvs infos payload"
  assume "is_ok (parse_bytes rt (take n ?f))"
  then obtain x p where "parse_infos rt (take n ?f) 0 = Ok (x, p)"
    by (auto simp: is_ok_def parse_bytes_def rd_then_def and_then_eq_Ok)
  with stable_infos[of rt] have "p \<le> length (take n ?f)" "parse_infos rt (take n ?f @ drop n ?f) 0 = Ok (x, p)"
    unfolding stable_def by (metis le0)+
  with parse_infos_file[OF assms(1)] assms(2) show False by simp
qed

section \<open>Headers that end the process\<close>

lemma word_in: "length a + 8 < usize_limit \<Longrightarrow> Cursor_read_u32 (a @ u32_to_le x @ c) (length a) = Ok (x, length a + 4)"
    "length a + 8 < usize_limit \<Longrightarrow> Cursor_read_u64 (a @ u64_to_le y @ c) (length a) = Ok (y, length a + 8)"
  by (simp_all add: Cursor_read_u32_def Cursor_read_u64_def rd_then_def rd_ok_def Cursor_read_bytes_def usize_wrap_def slice_def)

lemma wraps_low: "N \<le> x \<Longrightarrow> x < N + m \<Longrightarrow> x mod N < (m :: nat)"
  by (rule le_less_trans[of _ "x - N"]) (simp_all add: le_mod_geq)

text \<open>
  C34: Numbers of the file that the parser does not check. A first key whose announced length wraps the position around the address space passes
  the test for the end of the file and panics in the slice; and a file whose alignment is zero, otherwise in order, panics in the
  remainder. Both are files, not programming errors, for which every other defect is reported as an error.
\<close>

theorem unchecked_lengths_panic:
  "(rt_reserve rt ResMetadata (unat kc) \<and> 0 < unat kc \<and> usize_limit \<le> 32 + unat len \<longrightarrow>
      parse_bytes rt (u32_to_le GGUF_MAGIC @ u32_to_le GGUF_VERSION_3 @ u64_to_le tc @ u64_to_le kc @ u64_to_le len @ rest) = Panic)
    \<and> (encodable rt kvs infos payload \<and> alignment_of (meta_of kvs) = 0 \<longrightarrow> parse_bytes rt (gguf_bytes kvs infos payload) = Panic)"
proof (intro conjI impI)
  let ?d = "u32_to_le GGUF_MAGIC @ u32_to_le GGUF_VERSION_3 @ u64_to_le tc @ u64_to_le kc @ u64_to_le len @ rest"
  assume h: "rt_reserve rt ResMetadata (unat kc) \<and> 0 < unat kc \<and> usize_limit \<le> 32 + unat len"
  have r: "Cursor_read_u32 ?d 0 = Ok (GGUF_MAGIC, 4)" "Cursor_read_u32 ?d 4 = Ok (GGUF_VERSION_3, 8)" "Cursor_read_u64 ?d 8 = Ok (tc, 16)"
    "Cursor_read_u64 ?d 16 = Ok (kc, 24)" "Cursor_read_u64 ?d 24 = Ok (len, 32)"
    using word_in(1)[of "[]"] word_in(1)[of "u32_to_le GGUF_MAGIC"] word_in(2)[of "u32_to_le GGUF_MAGIC @ u32_to_le GGUF_VERSION_3"]
      word_in(2)[of "u32_to_le GGUF_MAGIC @ u32_to_le GGUF_VERSION_3 @ u64_to_le tc"]
      word_in(2)[of "u32_to_le GGUF_MAGIC @ u32_to_le GGUF_VERSION_3 @ u64_to_le tc @ u64_to_le kc"] by simp_all
  have "unat len < usize_limit" using unsigned_less[of len] by simp
  then have w: "usize_wrap (32 + unat len) < 32" unfolding usize_wrap_def using h by (intro wraps_low) auto
  then have s: "Cursor_read_bytes (unat len) ?d 32 = Panic" by (simp add: Cursor_read_bytes_def slice_def)
  obtain n where "unat kc = Suc n" using h by (cases "unat kc") auto
  then show "parse_bytes rt ?d = Panic" using h
    by (simp only: parse_bytes_def parse_infos_def parse_header_def rd_then_def r and_then.simps prod.case rd_lift_def rd_ok_def ensure_simps simp_thms
        with_capacity_def assert_that_simps kv_loop.simps Cursor_read_string_def s)
qed (simp add: parse_file)

section \<open>Small files\<close>

definition demo_rt :: gguf_rt where
  "demo_rt = \<lparr>rt_reserve = (\<lambda>_ _. True), rt_lossy = id, rt_stack = 2\<rparr>"

definition demo_kvs :: "u32 \<Rightarrow> (str \<times> gguf_value) list" where
  "demo_kvs a = [(ascii ''general.alignment'', VU32 a), (ascii ''ids'', VArray [VU8 3, VU8 5])]"

definition demo_infos :: "gguf_tensor_info list" where
  "demo_infos = [\<lparr>ti_name = ascii ''w'', ti_dims = [2], ti_ggml_type = 1, ti_offset = 0\<rparr>, \<lparr>ti_name = ascii ''b'', ti_dims = [1], ti_ggml_type = 0, ti_offset = 8\<rparr>]"

lemma demo_alignment: "alignment_of (meta_of (demo_kvs a)) = unat a"
  by (simp add: alignment_of_def meta_of_def demo_kvs_def ascii_def)

lemma demo_valid: "utf8_valid (ascii ''general.alignment'')" "utf8_valid (ascii ''ids'')" "utf8_valid (ascii ''w'')" "utf8_valid (ascii ''b'')"
    "length (ascii s) = length s"
  by (simp_all add: ascii_def)

lemma demo_encodable: "unat a \<le> 8 \<Longrightarrow> encodable demo_rt (demo_kvs a) demo_infos (replicate 12 7)"
proof -
  assume a: "unat a \<le> 8"
  have h: "length (enc_header (demo_kvs a) demo_infos) = 152"
    by (simp add: enc_header_def enc_kv_def enc_info_def enc_string_def demo_kvs_def demo_infos_def demo_valid)
  have "padding (unat a) n \<le> 8" for n using a le_trans[OF diff_le_self a] by (simp add: padding_def)
  then have "length (gguf_bytes (demo_kvs a) demo_infos (replicate 12 7)) \<le> 172" by (simp add: gguf_bytes_def Let_def h demo_alignment)
  then show ?thesis
    by (simp add: encodable_def) (simp add: demo_rt_def kv_ok_def info_ok_def demo_kvs_def demo_infos_def demo_valid elem_tag_def)
qed

theorem gguf_roundtrip_witness:
  "\<exists>g. parse_bytes demo_rt (gguf_bytes (demo_kvs 8) demo_infos (replicate 12 7)) = Ok g \<and> find_tensor g (ascii ''b'') = Ok (Some (demo_infos ! 1))
    \<and> tensor_data g (demo_infos ! 1) = Ok [7, 7, 7, 7]"
proof -
  have d: "distinct (map ti_name demo_infos)" by (simp add: demo_infos_def ascii_def)
  have a: "0 < alignment_of (meta_of (demo_kvs 8))" by (simp add: demo_alignment)
  obtain g where g: "parse_bytes demo_rt (gguf_bytes (demo_kvs 8) demo_infos (replicate 12 7)) = Ok g"
    "\<forall>i < length demo_infos. find_tensor g (ti_name (demo_infos ! i)) = Ok (Some (demo_infos ! i))
        \<and> (unat (ti_offset (demo_infos ! i)) + tensor_byte_size (demo_infos ! i) \<le> length (replicate 12 (7 :: byte)) \<longrightarrow>
            tensor_data g (demo_infos ! i) = Ok (take (tensor_byte_size (demo_infos ! i)) (drop (unat (ti_offset (demo_infos ! i))) (replicate 12 7))))"
    using gguf_roundtrip[OF demo_encodable a d] by (auto simp del: length_replicate)
  have s: "tensor_byte_size (demo_infos ! 1) = 4" "unat (ti_offset (demo_infos ! 1)) = 8" "ti_name (demo_infos ! 1) = ascii ''b''" "length demo_infos = 2"
    by (simp_all add: demo_infos_def tensor_byte_size_def)
  have "replicate 4 7 = [7, 7, 7, 7 :: byte]" by (simp add: numeral_eq_Suc)
  with g(2)[rule_format, of 1] g(1) s show ?thesis by simp
qed

theorem truncated_gguf_rejected_witness: "\<not> is_ok (parse_bytes demo_rt (take 100 (gguf_bytes (demo_kvs 8) demo_infos (replicate 12 7))))"
proof (rule truncated_gguf_rejected[OF demo_encodable])
  show "100 < length (enc_header (demo_kvs 8) demo_infos)"
    by (simp add: enc_header_def enc_kv_def enc_info_def enc_string_def demo_kvs_def demo_infos_def demo_valid)
qed simp

theorem unchecked_lengths_panic_witness:
  "parse_bytes demo_rt (u32_to_le GGUF_MAGIC @ u32_to_le GGUF_VERSION_3 @ u64_to_le 0 @ u64_to_le 1 @ u64_to_le (- 1) @ [65, 66]) = Panic
    \<and> parse_bytes demo_rt (gguf_bytes (demo_kvs 0) demo_infos (replicate 12 7)) = Panic"
  using unchecked_lengths_panic[of demo_rt 1 "- 1" 0 "[65, 66]" "demo_kvs 0" demo_infos "replicate 12 7"] demo_encodable[of 0]
  by (simp add: demo_alignment) (simp add: demo_rt_def unsigned_minus_1_eq_mask mask_eq_exp_minus_1)

end
