(* ===== verification/Kv_Codec.thy ===== *)
theory Kv_Codec
  imports Prelude
begin

text \<open>
  The block codecs of \<^verbatim>\<open>crates/argus-kv-codec/src/lib.rs\<close>: 32 floats as a scale, a minimum and 32 levels of 2, 4 or 8
  bits. The float operations are a parameter (\<open>float_ops\<close>); the packing of the levels is on bytes as in the code.
\<close>

unbundle bit_operations_syntax

section \<open>Floats\<close>

text \<open>\<open>'f\<close> stands for \<open>f32\<close>, \<open>'h\<close> for \<open>f16\<close>. \<open>fo_of_nat\<close> gives the literals and the cast from \<open>u8\<close>.\<close>

record ('f, 'h) float_ops =
  fo_zero :: 'f
  fo_infinity :: 'f
  fo_neg_infinity :: 'f
  fo_of_nat :: "nat \<Rightarrow> 'f"
  fo_min :: "'f \<Rightarrow> 'f \<Rightarrow> 'f"
  fo_max :: "'f \<Rightarrow> 'f \<Rightarrow> 'f"
  fo_add :: "'f \<Rightarrow> 'f \<Rightarrow> 'f"
  fo_sub :: "'f \<Rightarrow> 'f \<Rightarrow> 'f"
  fo_mul :: "'f \<Rightarrow> 'f \<Rightarrow> 'f"
  fo_div :: "'f \<Rightarrow> 'f \<Rightarrow> 'f"
  fo_eq :: "'f \<Rightarrow> 'f \<Rightarrow> bool"
  fo_round :: "'f \<Rightarrow> 'f"
  fo_clamp :: "'f \<Rightarrow> 'f \<Rightarrow> 'f \<Rightarrow> 'f"
  fo_to_u8 :: "'f \<Rightarrow> byte"
  fo_to_f16 :: "'f \<Rightarrow> 'h"
  fo_from_f16 :: "'h \<Rightarrow> 'f"

text \<open>What the packing relies on: a value clamped between 0 and a literal is cast to at most that literal.\<close>

definition clamp_law :: "('f, 'h) float_ops \<Rightarrow> bool" where
  "clamp_law fo \<longleftrightarrow> (\<forall>x n. n \<le> 255 \<longrightarrow> unat (fo_to_u8 fo (fo_clamp fo (fo_zero fo) (fo_of_nat fo n) x)) \<le> n)"

section \<open>Blocks\<close>

definition QK2_0 :: nat where
  "QK2_0 = 32"

definition QKKV :: nat where
  "QKKV = 32"

text \<open>The three block types differ in the number of bytes of levels.\<close>

record 'h kv_block =
  bl_d :: 'h
  bl_m :: 'h
  bl_qs :: "byte list"

definition size_of_block :: "nat \<Rightarrow> nat" where
  "size_of_block bits = (if bits = 2 then 12 else if bits = 4 then 20 else 36)"

text \<open>Minimum, scale, and inverse scale with a given number of steps; the level of a value.\<close>

definition min_of :: "('f, 'h) float_ops \<Rightarrow> 'f list \<Rightarrow> 'f" where
  "min_of fo src = foldl (fo_min fo) (fo_infinity fo) src"

definition scale_of :: "('f, 'h) float_ops \<Rightarrow> nat \<Rightarrow> 'f list \<Rightarrow> 'f" where
  "scale_of fo steps src = fo_div fo (fo_sub fo (foldl (fo_max fo) (fo_neg_infinity fo) src) (min_of fo src)) (fo_of_nat fo steps)"

definition level :: "('f, 'h) float_ops \<Rightarrow> nat \<Rightarrow> 'f list \<Rightarrow> 'f \<Rightarrow> byte" where
  "level fo steps src x =
     (let d = scale_of fo steps src; inv_d = (if fo_eq fo d (fo_zero fo) then fo_zero fo else fo_div fo (fo_of_nat fo 1) d) in
      fo_to_u8 fo (fo_clamp fo (fo_zero fo) (fo_of_nat fo steps) (fo_round fo (fo_mul fo (fo_sub fo x (min_of fo src)) inv_d))))"

definition block_of :: "('f, 'h) float_ops \<Rightarrow> nat \<Rightarrow> 'f list \<Rightarrow> byte list \<Rightarrow> 'h kv_block" where
  "block_of fo steps src qs = \<lparr>bl_d = fo_to_f16 fo (scale_of fo steps src), bl_m = fo_to_f16 fo (min_of fo src), bl_qs = qs\<rparr>"

definition value_of :: "('f, 'h) float_ops \<Rightarrow> 'h kv_block \<Rightarrow> byte \<Rightarrow> 'f" where
  "value_of fo b q = fo_add fo (fo_mul fo (fo_of_nat fo (unat q)) (fo_from_f16 fo (bl_d b))) (fo_from_f16 fo (bl_m b))"

definition BlockQ2_0_quantize :: "('f, 'h) float_ops \<Rightarrow> 'f list \<Rightarrow> 'h kv_block" where
  "BlockQ2_0_quantize fo src = block_of fo 3 src
     (map (\<lambda>i. foldl (\<lambda>b j. b OR push_bit (j * 2) (level fo 3 src (src ! (i * 4 + j)))) 0 [0..<4]) [0..<QK2_0 div 4])"

definition BlockQ2_0_dequantize :: "('f, 'h) float_ops \<Rightarrow> 'h kv_block \<Rightarrow> 'f list" where
  "BlockQ2_0_dequantize fo b =
     concat (map (\<lambda>i. map (\<lambda>j. value_of fo b (drop_bit (j * 2) (bl_qs b ! i) AND 3)) [0..<4]) [0..<QK2_0 div 4])"

definition BlockKVQ4_quantize :: "('f, 'h) float_ops \<Rightarrow> 'f list \<Rightarrow> 'h kv_block" where
  "BlockKVQ4_quantize fo src = block_of fo 15 src
     (map (\<lambda>i. level fo 15 src (src ! (i * 2)) OR push_bit 4 (level fo 15 src (src ! (i * 2 + 1)))) [0..<QKKV div 2])"

definition BlockKVQ4_dequantize :: "('f, 'h) float_ops \<Rightarrow> 'h kv_block \<Rightarrow> 'f list" where
  "BlockKVQ4_dequantize fo b = concat (map (\<lambda>q. [value_of fo b (q AND 15), value_of fo b (drop_bit 4 q)]) (bl_qs b))"

definition BlockKVQ8_quantize :: "('f, 'h) float_ops \<Rightarrow> 'f list \<Rightarrow> 'h kv_block" where
  "BlockKVQ8_quantize fo src = block_of fo 255 src (map (level fo 255 src) src)"

definition BlockKVQ8_dequantize :: "('f, 'h) float_ops \<Rightarrow> 'h kv_block \<Rightarrow> 'f list" where
  "BlockKVQ8_dequantize fo b = map (value_of fo b) (bl_qs b)"

definition quantize_slice_q2 :: "('f, 'h) float_ops \<Rightarrow> 'f list \<Rightarrow> ('e, 'h kv_block list) result" where
  "quantize_slice_q2 fo src =
     (if length src mod QK2_0 \<noteq> 0 then Panic
      else Ok (map (\<lambda>i. BlockQ2_0_quantize fo (field src (i * QK2_0) QK2_0)) [0..<length src div QK2_0]))"

definition dequantize_slice_q2 :: "('f, 'h) float_ops \<Rightarrow> 'h kv_block list \<Rightarrow> 'f list \<Rightarrow> ('e, 'f list) result" where
  "dequantize_slice_q2 fo blocks out =
     (if length blocks * QK2_0 \<noteq> length out then Panic
      else try_fold (\<lambda>(i, b) out. copy_into out (i * QK2_0) (BlockQ2_0_dequantize fo b)) (enumerate 0 blocks) out)"

section \<open>The packing loses nothing\<close>

text \<open>A value after quantising and dequantising: its level on the rounded grid of the block.\<close>

definition on_grid :: "('f, 'h) float_ops \<Rightarrow> nat \<Rightarrow> 'f list \<Rightarrow> 'f \<Rightarrow> 'f" where
  "on_grid fo steps src x = fo_add fo (fo_mul fo (fo_of_nat fo (unat (level fo steps src x))) (fo_from_f16 fo (fo_to_f16 fo (scale_of fo steps src))))
     (fo_from_f16 fo (fo_to_f16 fo (min_of fo src)))"

lemma level_value: "value_of fo (block_of fo steps src qs) (level fo steps src x) = on_grid fo steps src x"
  by (simp add: value_of_def block_of_def on_grid_def)

lemma bl_qs_block_of [simp]: "bl_qs (block_of fo steps src qs) = qs"
  by (simp add: block_of_def)

lemma level_take_bit:
  assumes "clamp_law fo" "2 ^ k - 1 \<le> (255 :: nat)"
  shows "take_bit k (level fo (2 ^ k - 1) src x) = level fo (2 ^ k - 1) src x"
proof -
  have "unat (level fo (2 ^ k - 1) src x) \<le> 2 ^ k - 1" using assms by (simp add: clamp_law_def level_def Let_def)
  then have "take_bit k (unat (level fo (2 ^ k - 1) src x)) = unat (level fo (2 ^ k - 1) src x)"
    by (simp add: take_bit_nat_eq_self_iff le_less_trans[OF _ diff_less])
  then show ?thesis by (metis unsigned_take_bit_eq word_unat_eq_iff)
qed

text \<open>A value of \<open>k\<close> bits below another one.\<close>

definition beside :: "nat \<Rightarrow> byte \<Rightarrow> byte \<Rightarrow> byte" where
  "beside k q r = q OR push_bit k r"

lemma high_bit: "take_bit k q = q \<Longrightarrow> k \<le> n \<Longrightarrow> bit q n = False" for q :: byte
  using bit_take_bit_iff[of k q n] by simp

lemma beside_low:
  assumes "take_bit k q = q"
  shows "take_bit k (beside k q r) = q"
proof (rule bit_eqI)
  fix n
  show "bit (take_bit k (beside k q r)) n = bit q n"
    by (cases "n < k") (simp_all add: beside_def bit_simps high_bit[OF assms])
qed

lemma beside_high:
  assumes "take_bit k q = q" "take_bit m r = r" "k + m \<le> 8"
  shows "drop_bit k (beside k q r) = r"
proof (rule bit_eqI)
  fix n
  show "bit (drop_bit k (beside k q r)) n = bit r n"
    using high_bit[OF assms(2), of n] assms(3) by (cases "k + n < 8") (auto simp: beside_def bit_simps high_bit[OF assms(1)])
qed

lemma beside_width:
  assumes "take_bit k q = q" "take_bit m r = r"
  shows "take_bit (k + m) (beside k q r) = beside k q r"
proof (rule bit_eqI)
  fix n
  show "bit (take_bit (k + m) (beside k q r)) n = bit (beside k q r) n"
    using high_bit[OF assms(1), of n] high_bit[OF assms(2), of "n - k"] by (cases "n < k + m") (auto simp: beside_def bit_simps)
qed

lemma and_take_bit: "(q :: byte) AND 3 = take_bit 2 q" "(q :: byte) AND 15 = take_bit 4 q"
  by (simp_all add: take_bit_eq_mask mask_eq_exp_minus_1)

lemma pack2: "foldl (\<lambda>b j. b OR push_bit (j * 2) (q j)) 0 [0..<4] = beside 2 (q 0) (beside 2 (q 1) (beside 2 (q 2) (q 3)))"
  by (simp add: numeral_eq_Suc push_bit_or or.assoc beside_def)

lemma unpack2:
  assumes q: "\<And>i. take_bit 2 (q i) = q i" and "j < 4"
  shows "drop_bit (j * 2) (beside 2 (q 0) (beside 2 (q 1) (beside 2 (q 2) (q 3)))) AND 3 = q j"
proof -
  let ?r2 = "beside 2 (q 2) (q 3)" let ?r1 = "beside 2 (q 1) ?r2" let ?r0 = "beside 2 (q 0) ?r1"
  have w2: "take_bit 4 ?r2 = ?r2" using beside_width[OF q[of 2] q[of 3]] by simp
  have w1: "take_bit 6 ?r1 = ?r1" using beside_width[OF q[of 1] w2] by simp
  have d: "drop_bit 2 ?r0 = ?r1" "drop_bit 2 ?r1 = ?r2" "drop_bit 2 ?r2 = q 3"
    by (rule beside_high[OF q w1] beside_high[OF q w2] beside_high[OF q q], simp)+
  have "drop_bit (2 + 2) ?r0 = ?r2" "drop_bit (2 + (2 + 2)) ?r0 = q 3" by (simp_all only: drop_bit_drop_bit[symmetric] d)
  then have d': "drop_bit 4 ?r0 = ?r2" "drop_bit 6 ?r0 = q 3" by simp_all
  from \<open>j < 4\<close> consider "j = 0" | "j = 1" | "j = 2" | "j = 3" by linarith
  then show ?thesis by cases (simp_all add: and_take_bit d d' q beside_low del: One_nat_def)
qed

text \<open>A list of 32 elements in groups.\<close>

lemma map_take_upt: "k \<le> length xs \<Longrightarrow> map (\<lambda>j. f (xs ! j)) [0..<k] = map f (take k xs)"
  by (simp add: list_eq_iff_nth_eq)

lemma groups_of: "length xs = m * k \<Longrightarrow> concat (map (\<lambda>i. map (\<lambda>j. f (xs ! (i * k + j))) [0..<k]) [0..<m]) = map f xs"
proof (induction m arbitrary: xs)
  case (Suc m)
  have "map (\<lambda>i. map (\<lambda>j. f (xs ! (i * k + j))) [0..<k]) [0..<Suc m]
      = map f (take k xs) # map (\<lambda>i. map (\<lambda>j. f (drop k xs ! (i * k + j))) [0..<k]) [0..<m]"
    using Suc.prems by (simp add: upt_conv_Cons map_Suc_upt[symmetric] map_take_upt algebra_simps del: upt_Suc)
  with Suc.IH[of "drop k xs"] Suc.prems show ?case by (simp flip: map_append)
qed simp

text \<open>
  C39: Packing is exact. With a clamp that respects its bounds, a block of 32 floats comes back from each of the three codecs as
  the values of their levels on the grid of the block: no level is lost, truncated or moved to another
  position by the packing into bytes.
\<close>

theorem codec_packing_exact:
  assumes "clamp_law fo" "length src = QKKV"
  shows "BlockQ2_0_dequantize fo (BlockQ2_0_quantize fo src) = map (on_grid fo 3 src) src
    \<and> BlockKVQ4_dequantize fo (BlockKVQ4_quantize fo src) = map (on_grid fo 15 src) src
    \<and> BlockKVQ8_dequantize fo (BlockKVQ8_quantize fo src) = map (on_grid fo 255 src) src"
proof (intro conjI)
  let ?l2 = "level fo 3 src" let ?l4 = "level fo 15 src"
  have l2: "take_bit 2 (?l2 x) = ?l2 x" for x using level_take_bit[OF assms(1), of 2] by simp
  have l4: "take_bit 4 (?l4 x) = ?l4 x" for x using level_take_bit[OF assms(1), of 4] by simp
  have len: "length src = 8 * 4" "length src = 16 * 2" using assms(2) by (simp_all add: QKKV_def)
  have u2: "drop_bit (j * 2) (foldl (\<lambda>b j. b OR push_bit (j * 2) (?l2 (src ! (i * 4 + j)))) 0 [0..<4]) AND 3 = ?l2 (src ! (i * 4 + j))" if "j < 4" for i j
    unfolding pack2 by (rule unpack2[OF l2 that])
  show "BlockQ2_0_dequantize fo (BlockQ2_0_quantize fo src) = map (on_grid fo 3 src) src"
    unfolding groups_of[OF len(1), symmetric] BlockQ2_0_dequantize_def BlockQ2_0_quantize_def QK2_0_def
    by (intro arg_cong[where f = concat] map_cong refl) (simp_all add: u2 level_value)
  have u4: "(?l4 a OR push_bit 4 (?l4 b)) AND 15 = ?l4 a" "drop_bit 4 (?l4 a OR push_bit 4 (?l4 b)) = ?l4 b" for a b
    using beside_low[OF l4] beside_high[OF l4 l4] by (simp_all add: and_take_bit beside_def)
  have two: "map f [0..<2] = [f 0, f 1]" for f :: "nat \<Rightarrow> 'a" by (simp add: numeral_eq_Suc)
  show "BlockKVQ4_dequantize fo (BlockKVQ4_quantize fo src) = map (on_grid fo 15 src) src"
    unfolding groups_of[OF len(2), symmetric] BlockKVQ4_dequantize_def BlockKVQ4_quantize_def bl_qs_block_of map_map QKKV_def two
    by (intro arg_cong[where f = concat] map_cong) (simp_all add: u4[unfolded One_nat_def] level_value del: drop_bit_or)
  show "BlockKVQ8_dequantize fo (BlockKVQ8_quantize fo src) = map (on_grid fo 255 src) src"
    by (simp add: BlockKVQ8_dequantize_def BlockKVQ8_quantize_def level_value)
qed

text \<open>An instance on integers, exact for values that lie on the grid.\<close>

definition int_ops :: "(int, int) float_ops" where
  "int_ops = \<lparr>fo_zero = 0, fo_infinity = 1000, fo_neg_infinity = - 1000, fo_of_nat = int, fo_min = min, fo_max = max, fo_add = (+), fo_sub = (-), fo_mul = (*),
     fo_div = (div), fo_eq = (=), fo_round = (\<lambda>x. x), fo_clamp = (\<lambda>lo hi x. max lo (min hi x)), fo_to_u8 = word_of_int,
     fo_to_f16 = (\<lambda>x. x), fo_from_f16 = (\<lambda>x. x)\<rparr>"

lemma int_ops_clamp: "clamp_law int_ops"
proof -
  have "unat (word_of_int (max 0 (min (int n) x)) :: byte) \<le> n" if "n \<le> 255" for n x
    using that by (simp add: unsigned_of_int take_bit_int_eq_self nat_le_iff max_def min_def)
  then show ?thesis by (simp add: clamp_law_def int_ops_def)
qed

definition demo_group :: "int list" where
  "demo_group = concat (replicate 8 [3, 1, 0, 2])"

theorem codec_packing_exact_witness:
  "BlockQ2_0_dequantize int_ops (BlockQ2_0_quantize int_ops demo_group) = demo_group"
proof -
  have l: "length demo_group = QKKV" by (simp add: demo_group_def QKKV_def numeral_eq_Suc)
  have g: "set demo_group = {0, 1, 2, 3}" by (auto simp: demo_group_def)
  have "foldl min 1000 demo_group = 0" "foldl max (- 1000) demo_group = 3" by (simp_all add: demo_group_def numeral_eq_Suc)
  then have "on_grid int_ops 3 demo_group x = x" if "x \<in> {0, 1, 2, 3}" for x
    using that by (auto simp: on_grid_def level_def scale_of_def min_of_def int_ops_def Let_def)
  then have "map (on_grid int_ops 3 demo_group) demo_group = demo_group" using g by (intro map_idI) simp
  with codec_packing_exact[OF int_ops_clamp l] show ?thesis by simp
qed

end
