(* ===== verification/Gguf_Load.thy ===== *)
theory Gguf_Load
  imports Gguf_File Kv_Codec
begin

text \<open>
  Loading a model from a parsed GGUF file: the configuration, tensor names, types, and the CPU path of \<^verbatim>\<open>GgufSource\<close> in
  \<^verbatim>\<open>engine/src/models/loader/gguf.rs\<close>, with the row permutation it undoes for Llama and the dequantisation of \<^verbatim>\<open>loader/convert.rs\<close>. A float is its
  bits; the arithmetic on floats is a record. Uploads to a device are not modelled.
\<close>

section \<open>Configuration\<close>

datatype model_arch = Llama | Qwen2 | Gemma3

record rope_freq_scaling =
  rs_factor :: u32
  rs_low_freq_factor :: u32
  rs_high_freq_factor :: u32
  rs_original_max_position_embeddings :: u32

text \<open>The bits of 1, 1, 4 and 8192.\<close>

definition RopeFreqScaling_NONE :: rope_freq_scaling where
  "RopeFreqScaling_NONE = \<lparr>rs_factor = 0x3F800000, rs_low_freq_factor = 0x3F800000, rs_high_freq_factor = 0x40800000,
     rs_original_max_position_embeddings = 0x46000000\<rparr>"

record model_config =
  mc_arch :: model_arch
  mc_hidden_size :: nat
  mc_num_hidden_layers :: nat
  mc_num_attention_heads :: nat
  mc_num_key_value_heads :: nat
  mc_head_dim :: nat
  mc_intermediate_size :: nat
  mc_vocab_size :: nat
  mc_rms_norm_eps :: u64
  mc_rope_theta :: u64
  mc_rope_freq_scaling :: rope_freq_scaling
  mc_has_qkv_bias :: bool
  mc_tie_word_embeddings :: bool
  mc_eos_token_ids :: "u32 list"
  mc_weight_prefix :: str
  mc_rope_local_theta :: "u64 option"
  mc_sliding_window :: "nat option"
  mc_sliding_window_pattern :: "nat option"
  mc_query_pre_attn_scalar :: "nat option"
  mc_embed_scale :: "u32 option"

text \<open>The two default constants are those of the source as \<open>f32\<close>.\<close>

record load_ops =
  lo_f32_of_f64 :: "u64 \<Rightarrow> u32"
  lo_f64_of_f32 :: "u32 \<Rightarrow> u64"
  lo_sqrt_of :: "nat \<Rightarrow> u32"
  lo_eps :: u32
  lo_theta :: u32
  lo_fo :: "(u32, u16) float_ops"

definition get_f32 :: "load_ops \<Rightarrow> gguf_file \<Rightarrow> str \<Rightarrow> u32 option" where
  "get_f32 lo g key = (case gf_metadata g key of Some (VF32 v) \<Rightarrow> Some v | Some (VF64 v) \<Rightarrow> Some (lo_f32_of_f64 lo v) | _ \<Rightarrow> None)"

definition arch_of :: "str \<Rightarrow> (gguf_error, model_arch) result" where
  "arch_of s = (if s = ascii ''llama'' then Ok Llama else if s = ascii ''qwen2'' then Ok Qwen2
     else if s \<in> {ascii ''gemma'', ascii ''gemma2'', ascii ''gemma3''} then Ok Gemma3 else Err (UnsupportedArchitecture s))"

definition required_u32 :: "gguf_file \<Rightarrow> str \<Rightarrow> (gguf_error, nat) result" where
  "required_u32 g key = and_then (ok_or (MissingMetadata key) (get_u32 g key)) (\<lambda>v. Ok (unat v))"

definition unwrap_or :: "'a \<Rightarrow> 'a option \<Rightarrow> 'a" where
  "unwrap_or d x = (case x of None \<Rightarrow> d | Some v \<Rightarrow> v)"

text \<open>The default of \<open>head_dim\<close> is computed whether it is needed or not: no heads is a division by zero.\<close>

definition parse_model_config :: "load_ops \<Rightarrow> gguf_file \<Rightarrow> (gguf_error, model_config) result" where
  "parse_model_config lo g =
     and_then (ok_or (MissingMetadata (ascii ''general.architecture'')) (get_str g (ascii ''general.architecture''))) (\<lambda>prefix.
     and_then (arch_of prefix) (\<lambda>arch.
     let key = (\<lambda>s. prefix @ ascii s) in
     and_then (required_u32 g (key ''.embedding_length'')) (\<lambda>hidden_size.
     and_then (required_u32 g (key ''.block_count'')) (\<lambda>num_hidden_layers.
     and_then (required_u32 g (key ''.attention.head_count'')) (\<lambda>num_attention_heads.
     and_then (required_u32 g (key ''.feed_forward_length'')) (\<lambda>intermediate_size.
     and_then (assert_that (num_attention_heads \<noteq> 0)) (\<lambda>_.
     and_then (find_tensor g (ascii ''output.weight'')) (\<lambda>lm_head.
     let vocab_size = (case get_u32 g (key ''.vocab_size'') of Some v \<Rightarrow> unat v
           | None \<Rightarrow> (case gf_metadata g (ascii ''tokenizer.ggml.tokens'') of Some (VArray arr) \<Rightarrow> length arr | _ \<Rightarrow> 32000));
         dim = (case get_u32 g (key ''.attention.head_dim'') of Some v \<Rightarrow> unat v
           | None \<Rightarrow> (case get_u32 g (key ''.attention.key_length'') of Some v \<Rightarrow> unat v | None \<Rightarrow> hidden_size div num_attention_heads));
         opt = (\<lambda>s. if arch = Gemma3 then map_option unat (get_u32 g (key s)) else None) in
     Ok \<lparr>mc_arch = arch, mc_hidden_size = hidden_size, mc_num_hidden_layers = num_hidden_layers, mc_num_attention_heads = num_attention_heads,
       mc_num_key_value_heads = unwrap_or num_attention_heads (map_option unat (get_u32 g (key ''.attention.head_count_kv''))),
       mc_head_dim = dim, mc_intermediate_size = intermediate_size, mc_vocab_size = vocab_size,
       mc_rms_norm_eps = lo_f64_of_f32 lo (unwrap_or (lo_eps lo) (get_f32 lo g (key ''.attention.layer_norm_rms_epsilon''))),
       mc_rope_theta = lo_f64_of_f32 lo (unwrap_or (lo_theta lo) (get_f32 lo g (key ''.rope.freq_base''))),
       mc_rope_freq_scaling = RopeFreqScaling_NONE, mc_has_qkv_bias = (arch = Qwen2), mc_tie_word_embeddings = (lm_head = None),
       mc_eos_token_ids = [unwrap_or (- 1) (get_u32 g (ascii ''tokenizer.ggml.eos_token_id''))],
       mc_weight_prefix = [],
       mc_rope_local_theta = (if arch = Gemma3 then Some (lo_f64_of_f32 lo (unwrap_or (lo_theta lo) (get_f32 lo g (key ''.rope.local.freq_base'')))) else None),
       mc_sliding_window = opt ''.attention.sliding_window'', mc_sliding_window_pattern = opt ''.attention.sliding_window_pattern'',
       mc_query_pre_attn_scalar = opt ''.attention.query_pre_attn_scalar'', mc_embed_scale = (if arch = Gemma3 then Some (lo_sqrt_of lo hidden_size) else None)\<rparr>))))))))"

section \<open>Names and types\<close>

datatype layer_weight_kind = Wq | Wk | Wv | Wo | WGate | WUp | WDown | AttentionNorm | FfnNorm | PreFfnNorm | PostFfnNorm | QNorm | KNorm
datatype layer_bias_kind = Bq | Bk | Bv
datatype tensor_id = Embed | FinalNorm | LmHead | LayerWeight nat layer_weight_kind | LayerBias nat layer_bias_kind

fun weight_suffix :: "layer_weight_kind \<Rightarrow> string" where
  "weight_suffix Wq = ''attn_q.weight''" | "weight_suffix Wk = ''attn_k.weight''" | "weight_suffix Wv = ''attn_v.weight''"
| "weight_suffix Wo = ''attn_output.weight''" | "weight_suffix WGate = ''ffn_gate.weight''" | "weight_suffix WUp = ''ffn_up.weight''"
| "weight_suffix WDown = ''ffn_down.weight''" | "weight_suffix AttentionNorm = ''attn_norm.weight''" | "weight_suffix FfnNorm = ''ffn_norm.weight''"
| "weight_suffix PreFfnNorm = ''pre_ffn_norm.weight''" | "weight_suffix PostFfnNorm = ''post_ffn_norm.weight''"
| "weight_suffix QNorm = ''attn_q_norm.weight''" | "weight_suffix KNorm = ''attn_k_norm.weight''"

fun bias_suffix :: "layer_bias_kind \<Rightarrow> string" where
  "bias_suffix Bq = ''attn_q.bias''" | "bias_suffix Bk = ''attn_k.bias''" | "bias_suffix Bv = ''attn_v.bias''"

fun decimal :: "nat \<Rightarrow> str" where
  "decimal n = (if n < 10 then [word_of_nat (48 + n)] else decimal (n div 10) @ [word_of_nat (48 + n mod 10)])"

definition layer_name :: "nat \<Rightarrow> string \<Rightarrow> str" where
  "layer_name layer suffix = ascii ''blk.'' @ decimal layer @ ascii ''.'' @ ascii suffix"

fun resolve_name :: "tensor_id \<Rightarrow> str" where
  "resolve_name Embed = ascii ''token_embd.weight''"
| "resolve_name FinalNorm = ascii ''output_norm.weight''"
| "resolve_name LmHead = ascii ''output.weight''"
| "resolve_name (LayerWeight layer kind) = layer_name layer (weight_suffix kind)"
| "resolve_name (LayerBias layer kind) = layer_name layer (bias_suffix kind)"

definition is_embed_or_lm_head :: "str \<Rightarrow> bool" where
  "is_embed_or_lm_head name \<longleftrightarrow> name = ascii ''token_embd.weight'' \<or> name = ascii ''output.weight''"

definition needs_dequant_fallback :: "u32 \<Rightarrow> bool" where
  "needs_dequant_fallback t \<longleftrightarrow> t = 12"

definition ggml_type_to_dtype :: "u32 \<Rightarrow> (gguf_error, dtype) result" where
  "ggml_type_to_dtype t = (if t = 0 then Ok D_F32 else if t = 1 then Ok D_F16 else if t = 2 then Ok D_Q4_0 else if t = 3 then Ok D_Q4_1
     else if t = 8 then Ok D_Q8_0 else Err (UnsupportedType t))"

text \<open>\<open>strip_prefix("blk.")\<close> and \<open>split_once('.')\<close>.\<close>

definition qk_permute_shape :: "str \<Rightarrow> model_config \<Rightarrow> (nat \<times> nat) option" where
  "qk_permute_shape name config =
     (if mc_arch config \<noteq> Llama then None
      else if take 4 name \<noteq> ascii ''blk.'' then None
      else (case dropWhile (\<lambda>b. b \<noteq> 46) (drop 4 name) of
         [] \<Rightarrow> None
       | _ # rest \<Rightarrow> if rest = ascii ''attn_q.weight'' then Some (mc_num_attention_heads config, mc_head_dim config)
           else if rest = ascii ''attn_k.weight'' then Some (mc_num_key_value_heads config, mc_head_dim config) else None))"

text \<open>One row of one head.\<close>

definition unpermute_row :: "byte list \<Rightarrow> nat \<Rightarrow> nat \<Rightarrow> nat \<times> nat \<Rightarrow> byte list \<Rightarrow> (gguf_error, byte list) result" where
  "unpermute_row src dim row_size = (\<lambda>(h, j) dst.
     let half = dim div 2; head_base = h * dim;
         src_in_head = (if j < half then 2 * j else 2 * (j - half) + 1);
         src_off = (head_base + src_in_head) * row_size; dst_off = (head_base + j) * row_size in
     and_then (slice src src_off (src_off + row_size)) (\<lambda>b. copy_into dst dst_off b))"

definition unpermute_qk_rows :: "byte list \<Rightarrow> nat \<Rightarrow> nat \<Rightarrow> nat \<Rightarrow> (gguf_error, byte list) result" where
  "unpermute_qk_rows src n_head dim row_size =
     try_fold (unpermute_row src dim row_size) (List.product [0..<n_head] [0..<dim]) (replicate (length src) 0)"

text \<open>
  The type most weights have. The counts are in a hash map: \<open>order\<close> is the order it is iterated in, and among equal counts the last one wins.
\<close>

fun contains_str :: "str \<Rightarrow> str \<Rightarrow> bool" where
  "contains_str [] p \<longleftrightarrow> p = []"
| "contains_str (c # s) p \<longleftrightarrow> take (length p) (c # s) = p \<or> contains_str s p"

definition counted_tensor :: "gguf_tensor_info \<Rightarrow> bool" where
  "counted_tensor t \<longleftrightarrow> \<not> (contains_str (ti_name t) (ascii ''norm'') \<or> contains_str (ti_name t) (ascii ''bias'') \<or> ti_name t = ascii ''token_embd.weight'')"

definition max_by_count :: "(u32 \<times> nat) list \<Rightarrow> (u32 \<times> nat) option" where
  "max_by_count xs = fold (\<lambda>x best. case best of None \<Rightarrow> Some x | Some b \<Rightarrow> if snd b \<le> snd x then Some x else Some b) xs None"

definition detect_weight_dtype :: "((u32 \<times> nat) list \<Rightarrow> (u32 \<times> nat) list) \<Rightarrow> gguf_file \<Rightarrow> dtype" where
  "detect_weight_dtype order g =
     (let ts = map ti_ggml_type (filter counted_tensor (gf_tensors g)); counts = map (\<lambda>t. (t, count_list ts t)) (remdups ts) in
      case max_by_count (order counts) of
        None \<Rightarrow> D_F16
      | Some (t, _) \<Rightarrow> (case ggml_type_to_dtype t of Ok d \<Rightarrow> d | _ \<Rightarrow> D_F16))"

record gguf_source =
  gs_gguf :: gguf_file
  gs_config :: model_config
  gs_weight_dtype :: dtype

definition GgufSource_open :: "gguf_rt \<Rightarrow> load_ops \<Rightarrow> ((u32 \<times> nat) list \<Rightarrow> (u32 \<times> nat) list) \<Rightarrow> byte list \<Rightarrow> (gguf_error, gguf_source) result" where
  "GgufSource_open rt lo order data =
     and_then (parse_bytes rt data) (\<lambda>g.
     and_then (parse_model_config lo g) (\<lambda>config.
     Ok \<lparr>gs_gguf = g, gs_config = config, gs_weight_dtype = detect_weight_dtype order g\<rparr>))"

section \<open>Loading\<close>

record cpu_tensor =
  ct_shape :: "nat list"
  ct_bytes :: "byte list"
  ct_dtype :: dtype

definition f16_bytes :: "load_ops \<Rightarrow> u32 list \<Rightarrow> byte list" where
  "f16_bytes lo xs = concat (map (\<lambda>x. u16_to_le (fo_to_f16 (lo_fo lo) x)) xs)"

fun f32_chunks :: "byte list \<Rightarrow> u32 list" where
  "f32_chunks (a # b # c # d # rest) = u32_from_le [a, b, c, d] # f32_chunks rest"
| "f32_chunks _ = []"

text \<open>The buffer is reserved ahead: more than the largest allocation panics (the element count of a malformed shape may wrap around).\<close>

definition load_f32_as_f16 :: "load_ops \<Rightarrow> byte list \<Rightarrow> nat \<Rightarrow> nat list \<Rightarrow> (gguf_error, cpu_tensor) result" where
  "load_f32_as_f16 lo data num_elements shape =
     and_then (ensure (length data = usize_wrap (num_elements * 4)) (F32Size (length data) num_elements)) (\<lambda>_.
     and_then (assert_that (usize_wrap (num_elements * 2) < 2 ^ 63)) (\<lambda>_.
     Ok \<lparr>ct_shape = shape, ct_bytes = f16_bytes lo (f32_chunks data), ct_dtype = D_F16\<rparr>))"

text \<open>
  The dequantisers assert whole blocks. A block of \<open>Q4_1\<close> is a scale, a minimum and 32 nibbles; one of \<open>Q4_K\<close> has eight sub-blocks of 32
  nibbles, with a scale and a minimum of 6 bits each in 12 bytes.
\<close>

definition q4_1_block :: "(u32, u16) float_ops \<Rightarrow> byte list \<Rightarrow> u32 list" where
  "q4_1_block fo block =
     (let d = fo_from_f16 fo (u16_from_le (take 2 block)); m = fo_from_f16 fo (u16_from_le (take 2 (drop 2 block))); qs = take 16 (drop 4 block) in
      map (\<lambda>b. fo_add fo (fo_mul fo (fo_of_nat fo (unat (b AND 15))) d) m) qs
      @ map (\<lambda>b. fo_add fo (fo_mul fo (fo_of_nat fo (unat (drop_bit 4 b))) d) m) qs)"

definition dequant_q4_1 :: "(u32, u16) float_ops \<Rightarrow> byte list \<Rightarrow> nat \<Rightarrow> (gguf_error, u32 list) result" where
  "dequant_q4_1 fo data n = and_then (assert_that (n mod 32 = 0 \<and> length data \<ge> n div 32 * 20)) (\<lambda>_.
     Ok (concat (map (\<lambda>bi. q4_1_block fo (take 20 (drop (bi * 20) data))) [0..<n div 32])))"

definition q4_k_scale_min :: "byte list \<Rightarrow> nat \<Rightarrow> byte \<times> byte" where
  "q4_k_scale_min s j =
     (if j < 4 then (s ! j AND 63, s ! (j + 4) AND 63)
      else (push_bit 2 (s ! (j + 4) AND 15) OR drop_bit 6 (s ! (j - 4)), push_bit 2 (drop_bit 4 (s ! (j + 4))) OR drop_bit 6 (s ! j)))"

definition q4_k_block :: "(u32, u16) float_ops \<Rightarrow> byte list \<Rightarrow> u32 list" where
  "q4_k_block fo block =
     (let d = fo_from_f16 fo (u16_from_le (take 2 block)); dmin = fo_from_f16 fo (u16_from_le (take 2 (drop 2 block)));
          scales_raw = take 12 (drop 4 block); qs = take 128 (drop 16 block) in
      concat (map (\<lambda>j.
        let (sc, mn) = q4_k_scale_min scales_raw j;
            d_sc = fo_mul fo d (fo_of_nat fo (unat sc)); d_mn = fo_mul fo dmin (fo_of_nat fo (unat mn)); sub = take 16 (drop (j * 16) qs) in
        map (\<lambda>b. fo_sub fo (fo_mul fo (fo_of_nat fo (unat (b AND 15))) d_sc) d_mn) sub
        @ map (\<lambda>b. fo_sub fo (fo_mul fo (fo_of_nat fo (unat (drop_bit 4 b))) d_sc) d_mn) sub) [0..<8]))"

definition dequant_q4_k :: "(u32, u16) float_ops \<Rightarrow> byte list \<Rightarrow> nat \<Rightarrow> (gguf_error, u32 list) result" where
  "dequant_q4_k fo data n = and_then (assert_that (n mod 256 = 0 \<and> length data \<ge> n div 256 * 144)) (\<lambda>_.
     Ok (concat (map (\<lambda>bi. q4_k_block fo (take 144 (drop (bi * 144) data))) [0..<n div 256])))"

definition load_with_dequant_as :: "load_ops \<Rightarrow> u32 \<Rightarrow> byte list \<Rightarrow> nat \<Rightarrow> nat list \<Rightarrow> dtype \<Rightarrow> (gguf_error, cpu_tensor) result" where
  "load_with_dequant_as lo t data num_elements shape target =
     and_then (if t = 12 then dequant_q4_k (lo_fo lo) data num_elements else if t = 3 then dequant_q4_1 (lo_fo lo) data num_elements else Err (NoDequant t)) (\<lambda>xs.
     case target of
       D_F32 \<Rightarrow> Ok \<lparr>ct_shape = shape, ct_bytes = concat (map u32_to_le xs), ct_dtype = D_F32\<rparr>
     | D_F16 \<Rightarrow> Ok \<lparr>ct_shape = shape, ct_bytes = f16_bytes lo xs, ct_dtype = D_F16\<rparr>
     | other \<Rightarrow> Err (UnsupportedTarget other))"

definition load_raw_cpu :: "load_ops \<Rightarrow> gguf_file \<Rightarrow> model_config \<Rightarrow> str \<Rightarrow> (gguf_error, cpu_tensor) result" where
  "load_raw_cpu lo g config name =
     and_then (find_tensor g name) (\<lambda>found.
     and_then (ok_or (TensorNotFound name) found) (\<lambda>info.
     and_then (tensor_data g info) (\<lambda>data.
     let shape = map unat (rev (ti_dims info)); num_elements = unat (prod_list (ti_dims info)) in
     if needs_dequant_fallback (ti_ggml_type info)
     then load_with_dequant_as lo (ti_ggml_type info) data num_elements shape (if is_embed_or_lm_head name then D_F16 else D_F32)
     else
       and_then (ggml_type_to_dtype (ti_ggml_type info)) (\<lambda>dtype.
       if ti_ggml_type info = 0 \<and> is_embed_or_lm_head name then load_f32_as_f16 lo data num_elements shape
       else (case qk_permute_shape name config of
         Some (n_head, dim) \<Rightarrow>
           and_then (assert_that (shape \<noteq> [])) (\<lambda>_.
           and_then (assert_that (shape ! 0 \<noteq> 0)) (\<lambda>_.
           and_then (unpermute_qk_rows data n_head dim (length data div (shape ! 0))) (\<lambda>permuted.
           Ok \<lparr>ct_shape = shape, ct_bytes = permuted, ct_dtype = dtype\<rparr>)))
       | None \<Rightarrow> Ok \<lparr>ct_shape = shape, ct_bytes = data, ct_dtype = dtype\<rparr>)))))"

definition load_tensor_cpu :: "load_ops \<Rightarrow> gguf_source \<Rightarrow> tensor_id \<Rightarrow> (gguf_error, cpu_tensor) result" where
  "load_tensor_cpu lo src tid = load_raw_cpu lo (gs_gguf src) (gs_config src) (resolve_name tid)"

definition has_tensor :: "gguf_source \<Rightarrow> tensor_id \<Rightarrow> (gguf_error, bool) result" where
  "has_tensor src tid = and_then (find_tensor (gs_gguf src) (resolve_name tid)) (\<lambda>x. Ok (x \<noteq> None))"

end
