(* ===== verification/Gguf_Weights.thy ===== *)
theory Gguf_Weights
  imports Gguf_Props Gguf_Load Kv_Format Swap_Props
begin

text \<open>
  The weights a GGUF file gives: the permutation of the query and key rows that the loader undoes for a Llama, from the bytes of the file to the
  tensor, and the type for which it does not.
\<close>

section \<open>The permutation of the rows\<close>

text \<open>
  The converter that writes the file stores row \<open>k * half + i\<close> of a head (\<open>k\<close> is 0 or 1) at \<open>2 * i + k\<close>: the halves of a head are interleaved.
\<close>

definition hf_row :: "nat \<Rightarrow> nat \<Rightarrow> nat" where
  "hf_row dim r = r div dim * dim + (r mod dim mod 2) * (dim div 2) + r mod dim div 2"

definition converted :: "byte list \<Rightarrow> nat \<Rightarrow> nat \<Rightarrow> nat \<Rightarrow> byte list" where
  "converted w n dim rs = concat (map (\<lambda>r. rowat w rs (hf_row dim r)) [0..<n * dim])"

lemma pair_less: "h < n \<Longrightarrow> j < d \<Longrightarrow> h * d + j < n * (d :: nat)"
  using mult_le_mono1[of "Suc h" n d] by simp

text \<open>Where the loader takes row \<open>r\<close> from; the two are inverse on an even head.\<close>

definition gguf_row :: "nat \<Rightarrow> nat \<Rightarrow> nat" where
  "gguf_row dim r = (let j = r mod dim in r div dim * dim + (if j < dim div 2 then 2 * j else 2 * (j - dim div 2) + 1))"

lemma gguf_row_less: "even dim \<Longrightarrow> r < n * dim \<Longrightarrow> gguf_row dim r < n * dim"
proof -
  assume "even dim" "r < n * dim"
  then have "0 < dim" "r div dim < n" by (auto simp: less_mult_imp_div_less intro: gr0I)
  moreover from this(1) have "r mod dim < dim" by simp
  moreover from calculation(1,3) \<open>even dim\<close> have "(if r mod dim < dim div 2 then 2 * (r mod dim) else 2 * (r mod dim - dim div 2) + 1) < dim" by (auto elim!: evenE)
  ultimately show ?thesis unfolding gguf_row_def Let_def by (intro pair_less)
qed

lemma hf_gguf_row: "even dim \<Longrightarrow> 0 < dim \<Longrightarrow> hf_row dim (gguf_row dim r) = r"
proof -
  assume e: "even dim" "0 < dim"
  define j where "j = r mod dim"
  define s where "s = (if j < dim div 2 then 2 * j else 2 * (j - dim div 2) + 1)"
  have j: "j < dim" using e(2) by (simp add: j_def)
  have s: "s < dim" using e j by (auto simp: s_def elim!: evenE)
  have g: "gguf_row dim r = r div dim * dim + s" by (simp add: gguf_row_def Let_def s_def j_def)
  have d: "(r div dim * dim + s) div dim = r div dim" "(r div dim * dim + s) mod dim = s" using s by simp_all
  have "s mod 2 * (dim div 2) + s div 2 = j" using e(1) j by (auto simp: s_def elim!: evenE)
  then show ?thesis unfolding g hf_row_def d using div_mult_mod_eq[of r dim] unfolding j_def by linarith
qed

lemma rows_eqI:
  assumes "length a = N * w" "length b = N * w" "\<And>i. i < N \<Longrightarrow> rowat a w i = rowat b w i"
  shows "a = b"
proof (cases "w = 0")
  case False
  show ?thesis
  proof (rule nth_equalityI)
    fix k
    assume k: "k < length a"
    then have i: "k div w < N" using assms(1) by (simp add: less_mult_imp_div_less)
    have "k mod w < w" using False by simp
    have e: "x ! k = rowat x w (k div w) ! (k mod w)" if "length x = N * w" for x :: "'a list"
    proof -
      have "k div w * w + w \<le> length x" using that mult_le_mono1[of "Suc (k div w)" N w] i by simp
      then show ?thesis using \<open>k mod w < w\<close> by (simp add: rowat_def)
    qed
    show "a ! k = b ! k" using e[OF assms(1)] e[OF assms(2)] assms(3)[OF i] by simp
  qed (use assms in simp)
qed (use assms in simp)

lemma hf_row_less: "even dim \<Longrightarrow> r < n * dim \<Longrightarrow> hf_row dim r < n * dim"
proof -
  assume "even dim" "r < n * dim"
  then have "0 < dim" "r div dim < n" by (auto simp: less_mult_imp_div_less intro: gr0I)
  moreover from this(1) have "r mod dim < dim" by simp
  moreover from this \<open>even dim\<close> have "r mod dim mod 2 * (dim div 2) + r mod dim div 2 < dim" by (auto elim!: evenE simp: mod2_eq_if)
  ultimately show ?thesis unfolding hf_row_def add.assoc by (intro pair_less)
qed

lemma converted_rows:
  assumes "length w = n * dim * rs" "even dim"
  shows "length (converted w n dim rs) = n * dim * rs" "r < n * dim \<Longrightarrow> rowat (converted w n dim rs) rs r = rowat w rs (hf_row dim r)"
proof -
  note hf = hf_row_less[OF assms(2)]
  have l: "\<forall>r < n * dim. length (rowat w rs (hf_row dim r)) = rs"
  proof (intro allI impI)
    fix r
    assume "r < n * dim"
    then have "hf_row dim r * rs + rs \<le> n * dim * rs" using mult_le_mono1[of "Suc (hf_row dim r)" "n * dim" rs] hf[of r n] by simp
    then show "length (rowat w rs (hf_row dim r)) = rs" using assms(1) by (simp add: rowat_def)
  qed
  show "length (converted w n dim rs) = n * dim * rs" using concat_length[OF l] by (simp add: converted_def)
  show "r < n * dim \<Longrightarrow> rowat (converted w n dim rs) rs r = rowat w rs (hf_row dim r)"
    using concat_block[OF l, of r] by (simp add: converted_def rowat_def)
qed

lemma unpermute_fold:
  assumes "length src = n * dim * rs" "even dim" "\<forall>(h, j) \<in> set xs. h < n \<and> j < dim" "length dst = n * dim * rs"
  shows "\<exists>dst'. try_fold (unpermute_row src dim rs) xs dst = Ok dst'
    \<and> length dst' = n * dim * rs \<and> (\<forall>r < n * dim. rowat dst' rs r = (if r \<in> (\<lambda>(h, j). h * dim + j) ` set xs then rowat src rs (gguf_row dim r) else rowat dst rs r))"
  using assms(3,4)
proof (induction xs arbitrary: dst)
  case (Cons x xs)
  obtain h j where x: "x = (h, j)" by fastforce
  have hj: "h < n" "j < dim" using Cons.prems(1) x by auto
  let ?r = "h * dim + j"
  have r: "?r < n * dim" using hj by (rule pair_less)
  have q: "(h * dim + j) div dim = h" "(h * dim + j) mod dim = j" using hj(2) by simp_all
  have g: "gguf_row dim ?r = h * dim + (if j < dim div 2 then 2 * j else 2 * (j - dim div 2) + 1)" unfolding gguf_row_def q Let_def ..
  have s: "gguf_row dim ?r * rs + rs \<le> length src" using gguf_row_less[OF assms(2) r] mult_le_mono1[of "Suc (gguf_row dim ?r)" "n * dim" rs] assms(1) by simp
  then have row: "slice src (gguf_row dim ?r * rs) (gguf_row dim ?r * rs + rs) = (Ok (rowat src rs (gguf_row dim ?r)) :: (gguf_error, byte list) result)"
    "length (rowat src rs (gguf_row dim ?r)) = rs" by (simp_all add: slice_def rowat_def)
  from write_row[OF Cons.prems(2) row(2) r] obtain d1 where d1: "copy_into dst (?r * rs) (rowat src rs (gguf_row dim ?r)) = (Ok d1 :: (gguf_error, byte list) result)"
    "length d1 = length dst" "\<forall>k < n * dim. rowat d1 rs k = (if k = ?r then rowat src rs (gguf_row dim ?r) else rowat dst rs k)" by blast
  have "\<forall>(h, j) \<in> set xs. h < n \<and> j < dim" "length d1 = n * dim * rs" using Cons.prems d1(2) by auto
  from Cons.IH[OF this] obtain d2 where d2: "try_fold (unpermute_row src dim rs) xs d1 = Ok d2" "length d2 = n * dim * rs"
    "\<forall>r < n * dim. rowat d2 rs r = (if r \<in> (\<lambda>(h, j). h * dim + j) ` set xs then rowat src rs (gguf_row dim r) else rowat d1 rs r)" by blast
  have "\<forall>r < n * dim. rowat d2 rs r = (if r \<in> (\<lambda>(h, j). h * dim + j) ` set (x # xs) then rowat src rs (gguf_row dim r) else rowat dst rs r)"
    using d2(3) d1(3) unfolding x by auto
  moreover have "unpermute_row src dim rs x dst = Ok d1"
    using row(1) d1(1) unfolding x unpermute_row_def prod.case Let_def by (simp only: g and_then.simps)
  ultimately show ?case using d2(1,2) by (simp only: try_fold.simps and_then.simps) blast
qed simp

lemma unpermute_inverse:
  assumes "length w = n * dim * rs" "even dim" "0 < dim"
  shows "unpermute_qk_rows (converted w n dim rs) n dim rs = Ok w"
proof -
  let ?c = "converted w n dim rs"
  note c = converted_rows[OF assms(1,2)]
  have "\<forall>(h, j) \<in> set (List.product [0..<n] [0..<dim]). h < n \<and> j < dim" by auto
  from unpermute_fold[OF c(1) assms(2) this, of "replicate (length ?c) 0"] c(1) obtain d where d: "unpermute_qk_rows ?c n dim rs = Ok d" "length d = n * dim * rs"
    "\<forall>r < n * dim. rowat d rs r = (if r \<in> (\<lambda>(h, j). h * dim + j) ` set (List.product [0..<n] [0..<dim]) then rowat ?c rs (gguf_row dim r) else rowat (replicate (length ?c) 0) rs r)"
    by (auto simp: unpermute_qk_rows_def)
  have "d = w"
  proof (rule rows_eqI[OF d(2) assms(1)])
    fix r
    assume r: "r < n * dim"
    then have "(r div dim, r mod dim) \<in> set (List.product [0..<n] [0..<dim])" using assms(3) by (simp add: less_mult_imp_div_less)
    then have "r \<in> (\<lambda>(h, j). h * dim + j) ` set (List.product [0..<n] [0..<dim])" by (rule rev_image_eqI) simp
    then show "rowat d rs r = rowat w rs r" using d(3) r c(2)[OF gguf_row_less[OF assms(2) r]] hf_gguf_row[OF assms(2,3)] by simp
  qed
  with d(1) show ?thesis by simp
qed

section \<open>The weights of a Llama\<close>

lemma decimal_no_dot: "46 \<notin> set (decimal n)"
proof (induction n rule: decimal.induct)
  case (1 n)
  have d: "(46 :: byte) \<noteq> word_of_nat (48 + k)" if "k < 10" for k :: nat
  proof
    assume "(46 :: byte) = word_of_nat (48 + k)"
    then have "unat (46 :: byte) = unat (word_of_nat (48 + k) :: byte)" by (rule arg_cong)
    then show False using that by (simp add: unat_of_nat del: of_nat_add)
  qed
  show ?case using 1 d[of n] d[of "n mod 10"] by (cases "n < 10") (auto simp del: decimal.simps of_nat_add simp: decimal.simps[of n])
qed

lemma layer_name_stem: "take 4 (layer_name l s) = ascii ''blk.''" "dropWhile (\<lambda>b. b \<noteq> 46) (drop 4 (layer_name l s)) = 46 # ascii s"
proof -
  have b: "length (ascii ''blk.'') = 4" "ascii ''.'' = [46]" by (simp_all add: ascii_def)
  then show "take 4 (layer_name l s) = ascii ''blk.''" by (simp add: layer_name_def)
  have "drop 4 (layer_name l s) = decimal l @ 46 # ascii s" using b by (simp add: layer_name_def)
  moreover have "\<forall>x \<in> set (decimal l). x \<noteq> 46" using decimal_no_dot[of l] by blast
  ultimately show "dropWhile (\<lambda>b. b \<noteq> 46) (drop 4 (layer_name l s)) = 46 # ascii s" by (simp add: dropWhile_append2 del: decimal.simps)
qed

lemma layer_name_plain: "\<not> is_embed_or_lm_head (layer_name l s)"
proof
  assume "is_embed_or_lm_head (layer_name l s)"
  then have "ascii ''blk.'' \<in> {take 4 (ascii ''token_embd.weight''), take 4 (ascii ''output.weight'')}"
    using layer_name_stem(1)[of l s] by (auto simp: is_embed_or_lm_head_def)
  then show False by (simp add: ascii_def)
qed

lemma qk_shape:
  assumes "mc_arch cfg = Llama" "k \<in> {Wq, Wk}"
  shows "qk_permute_shape (resolve_name (LayerWeight l k)) cfg
    = Some (if k = Wq then mc_num_attention_heads cfg else mc_num_key_value_heads cfg, mc_head_dim cfg)"
proof -
  have "ascii ''attn_k.weight'' \<noteq> ascii ''attn_q.weight''" by (simp add: ascii_def)
  then show ?thesis using assms by (auto simp: qk_permute_shape_def layer_name_stem)
qed

text \<open>The file holds the tensor with the given bytes.\<close>

definition stores :: "gguf_rt \<Rightarrow> (str \<times> gguf_value) list \<Rightarrow> gguf_tensor_info list \<Rightarrow> byte list \<Rightarrow> gguf_tensor_info \<Rightarrow> byte list \<Rightarrow> bool" where
  "stores rt kvs infos payload x data \<longleftrightarrow> encodable rt kvs infos payload \<and> 0 < alignment_of (meta_of kvs) \<and> distinct (map ti_name infos) \<and> x \<in> set infos
     \<and> tensor_byte_size x = length data \<and> unat (ti_offset x) + length data \<le> length payload \<and> take (length data) (drop (unat (ti_offset x)) payload) = data"

lemma stored_tensor:
  assumes "stores rt kvs infos payload x data" "GgufSource_open rt lo order (gguf_bytes kvs infos payload) = Ok src"
  shows "find_tensor (gs_gguf src) (ti_name x) = Ok (Some x)" "tensor_data (gs_gguf src) x = Ok data"
proof -
  obtain i where i: "i < length infos" "x = infos ! i" using assms(1) by (auto simp: stores_def in_set_conv_nth)
  from assms(2) have "parse_bytes rt (gguf_bytes kvs infos payload) = Ok (gs_gguf src)" by (auto simp: GgufSource_open_def and_then_eq_Ok)
  with parsed_file[of rt kvs infos payload] assms(1) i
  show "find_tensor (gs_gguf src) (ti_name x) = Ok (Some x)" "tensor_data (gs_gguf src) x = Ok data" unfolding stores_def by auto
qed

text \<open>
  C7: The query and key weights of a Llama load as they were trained. From the bytes of a file to the tensor: when the converter has stored the
  rows of a query or key matrix with the halves of every head interleaved, in any type the engine computes with, loading the layer by its
  identifier gives the original rows in the original order, with the outer dimension first.
\<close>

theorem llama_weights_as_trained:
  assumes "stores rt kvs infos payload x (converted w n dim rs)" "GgufSource_open rt lo order (gguf_bytes kvs infos payload) = Ok src"
    and "mc_arch (gs_config src) = Llama" "k \<in> {Wq, Wk}" "n = (if k = Wq then mc_num_attention_heads (gs_config src) else mc_num_key_value_heads (gs_config src))"
    and "dim = mc_head_dim (gs_config src)" "even dim" "0 < n * dim" "n * dim < usize_limit"
    and "ti_name x = resolve_name (LayerWeight l k)" "ti_dims x = [cols, word_of_nat (n * dim)]" "ggml_type_to_dtype (ti_ggml_type x) = Ok t" "length w = n * dim * rs"
  shows "load_tensor_cpu lo src (LayerWeight l k) = Ok \<lparr>ct_shape = [n * dim, unat cols], ct_bytes = w, ct_dtype = t\<rparr>"
proof -
  note f = stored_tensor[OF assms(1,2), unfolded assms(10)]
  have ty: "ti_ggml_type x \<noteq> 12" using assms(12) by (auto simp: ggml_type_to_dtype_def)
  have dim: "0 < dim" using assms(8) by (cases dim) auto
  have u: "unat (word_of_nat (n * dim) :: u64) = n * dim" using assms(9) by (rule unat_len)
  have len: "length (converted w n dim rs) div (n * dim) = rs" using converted_rows(1)[OF assms(13,7)] assms(8) by simp
  show ?thesis using f ty qk_shape[OF assms(3,4), of l] assms(8,12) unpermute_inverse[OF assms(13,7) dim] layer_name_plain[of l "weight_suffix k"]
    by (simp add: load_tensor_cpu_def load_raw_cpu_def needs_dequant_fallback_def assms(11) u len assms(5,6)[symmetric] Let_def del: of_nat_mult)
qed

section \<open>Weights in blocks of \<open>Q4_K\<close>\<close>

text \<open>A function that works block by block: it maps appended blocks to appended results, so rows of whole blocks to rows.\<close>

definition blockwise :: "nat \<Rightarrow> (byte list \<Rightarrow> 'a list) \<Rightarrow> byte list \<Rightarrow> 'a list" where
  "blockwise a g bs = concat (map (\<lambda>i. g (rowat bs a i)) [0..<length bs div a])"

lemma blockwise_append:
  assumes "0 < a" "a dvd length x"
  shows "blockwise a g (x @ y) = blockwise a g x @ blockwise a g y"
proof -
  obtain k where k: "length x = k * a" using assms(2) by (auto simp: dvd_def mult.commute)
  have i: "rowat (x @ y) a i = (if i < k then rowat x a i else rowat y a (i - k))" for i
  proof (cases "i < k")
    case True
    then have "i * a + a \<le> length x" using mult_le_mono1[of "Suc i" k a] k by simp
    then show ?thesis using True by (simp add: rowat_def)
  next
    case False
    then have "k * a \<le> i * a" by simp
    then show ?thesis using False k by (simp add: rowat_def diff_mult_distrib)
  qed
  have "[0..<length (x @ y) div a] = [0..<k] @ map (\<lambda>i. i + k) [0..<length y div a]"
    using assms(1) k upt_add_eq_append[of 0 k "length y div a"] by (simp add: map_add_upt add.commute)
  moreover have "map (\<lambda>j. g (rowat (x @ y) a j)) [0..<k] = map (\<lambda>j. g (rowat x a j)) [0..<k]" by (simp add: i)
  moreover have "rowat (x @ y) a (j + k) = rowat y a j" for j by (simp add: i)
  ultimately show ?thesis using assms(1) k by (simp add: blockwise_def comp_def del: map_eq_conv)
qed

lemma blockwise_concat: "0 < a \<Longrightarrow> \<forall>x \<in> set xs. a dvd length x \<Longrightarrow> blockwise a g (concat xs) = concat (map (blockwise a g) xs)"
  by (induction xs) (simp_all add: blockwise_append, simp add: blockwise_def)

lemma blockwise_length: "0 < a \<Longrightarrow> (\<And>x. length x = a \<Longrightarrow> length (g x) = b) \<Longrightarrow> length bs = k * a \<Longrightarrow> length (blockwise a g bs) = k * b"
proof -
  assume h: "0 < a" "\<And>x. length x = a \<Longrightarrow> length (g x) = b" "length bs = k * a"
  have "length (rowat bs a i) = a" if "i < k" for i using mult_le_mono1[of "Suc i" k a] that h(3) by (simp add: rowat_def)
  then have "\<forall>i < k. length (g (rowat bs a i)) = b" using h(2) by blast
  from concat_length[OF this] show ?thesis using h(1,3) by (simp add: blockwise_def)
qed

lemma rowat_middle: "length p = r * w \<Longrightarrow> length q = w \<Longrightarrow> rowat (p @ q @ s) w r = q"
  by (simp add: rowat_def)

lemma blockwise_row:
  assumes "0 < a" "\<And>x. length x = a \<Longrightarrow> length (g x) = b" "length w = N * (m * a)" "r < N"
  shows "rowat (blockwise a g w) (m * b) r = blockwise a g (rowat w (m * a) r)"
proof -
  let ?f = "blockwise a g" and ?p = "take (r * (m * a)) w" and ?q = "rowat w (m * a) r" and ?s = "drop (r * (m * a) + m * a) w"
  have le: "r * (m * a) + m * a \<le> length w" using mult_le_mono1[of "Suc r" N "m * a"] assms(3,4) by simp
  then have l: "length ?p = r * m * a" "length ?q = m * a" by (simp_all add: rowat_def mult.assoc)
  have "?p @ ?q @ ?s = ?p @ drop (r * (m * a)) w" unfolding rowat_def by (metis add.commute append_take_drop_id drop_drop)
  then have "?f w = ?f (?p @ ?q @ ?s)" by simp
  also have "\<dots> = ?f ?p @ ?f ?q @ ?f ?s" using l by (simp add: blockwise_append[OF assms(1)])
  finally show ?thesis using blockwise_length[where a = a and g = g, OF assms(1,2) l(1)] blockwise_length[where a = a and g = g, OF assms(1,2) l(2)]
    by (simp add: rowat_middle mult.assoc)
qed

lemma converted_blockwise:
  assumes "0 < a" "\<And>x. length x = a \<Longrightarrow> length (g x) = b" "length w = n * dim * (m * a)" "even dim"
  shows "blockwise a g (converted w n dim (m * a)) = converted (blockwise a g w) n dim (m * b)"
proof -
  have r: "length (rowat w (m * a) (hf_row dim r)) = m * a \<and> hf_row dim r < n * dim" if "r < n * dim" for r
    using hf_row_less[OF assms(4) that] mult_le_mono1[of "Suc (hf_row dim r)" "n * dim" "m * a"] assms(3) by (simp add: rowat_def)
  have "blockwise a g (converted w n dim (m * a)) = concat (map (\<lambda>r. blockwise a g (rowat w (m * a) (hf_row dim r))) [0..<n * dim])"
    unfolding converted_def by (subst blockwise_concat[OF assms(1)]) (use r in \<open>auto simp: comp_def\<close>)
  also have "\<dots> = converted (blockwise a g w) n dim (m * b)" unfolding converted_def
    using r blockwise_row[where a = a and g = g and b = b, OF assms(1-3)] by (intro arg_cong[where f = concat] map_cong) auto
  finally show ?thesis .
qed


lemma q4_k_block_length: "length x = 144 \<Longrightarrow> length (q4_k_block fo x) = 256"
  unfolding q4_k_block_def Let_def by (rule trans[OF concat_length[where m = 32]]) (auto simp: case_prod_beta)

definition f32_bytes :: "u32 list \<Rightarrow> byte list" where
  "f32_bytes xs = concat (map u32_to_le xs)"

lemma f32_bytes_length: "length (f32_bytes xs) = 4 * length xs"
  by (induction xs) (simp_all add: f32_bytes_def)

lemma dequant_blockwise:
  assumes "length data = k * 144"
  shows "\<exists>xs. dequant_q4_k fo data (k * 256) = Ok xs \<and> f32_bytes xs = blockwise 144 (\<lambda>b. f32_bytes (q4_k_block fo b)) data"
proof -
  have "f32_bytes (concat (map h js)) = concat (map (\<lambda>i. f32_bytes (h i)) js)" for h :: "nat \<Rightarrow> u32 list" and js
    by (induction js) (simp_all add: f32_bytes_def)
  then show ?thesis using assms by (simp add: dequant_q4_k_def blockwise_def rowat_def)
qed

text \<open>
  C33: Query and key weights in \<open>Q4_K\<close> stay permuted. For this type the loader dequantises and returns before it comes to the permutation, so a
  Llama whose file holds its query and key rows in the converter's order, with whole blocks to a row, gets the right numbers in the
  converter's order: the loaded matrix is not the trained one but its rows interleaved.
\<close>

theorem q4_k_weights_stay_permuted:
  assumes "stores rt kvs infos payload x (converted w n dim (m * 144))" "GgufSource_open rt lo order (gguf_bytes kvs infos payload) = Ok src"
    and "mc_arch (gs_config src) = Llama" "k \<in> {Wq, Wk}" "even dim" "n * dim * m * 256 < usize_limit"
    and "ti_name x = resolve_name (LayerWeight l k)" "ti_dims x = [word_of_nat (m * 256), word_of_nat (n * dim)]" "ti_ggml_type x = 12"
    and "length w = n * dim * (m * 144)" "dequant_q4_k (lo_fo lo) w (n * dim * m * 256) = Ok xs" "0 < n * dim" "0 < m"
  shows "load_tensor_cpu lo src (LayerWeight l k)
    = Ok \<lparr>ct_shape = [n * dim, m * 256], ct_bytes = converted (concat (map u32_to_le xs)) n dim (m * 1024), ct_dtype = D_F32\<rparr>"
proof -
  let ?g = "\<lambda>b. f32_bytes (q4_k_block (lo_fo lo) b)" and ?c = "converted w n dim (m * 144)"
  note f = stored_tensor[OF assms(1,2), unfolded assms(7)]
  have g: "length b = 144 \<Longrightarrow> length (?g b) = 1024" for b by (simp add: f32_bytes_length q4_k_block_length)
  have lc: "length ?c = n * dim * m * 144" "length w = n * dim * m * 144" using converted_rows(1)[OF assms(10,5)] assms(10) by simp_all
  have "f32_bytes xs = blockwise 144 ?g w" using dequant_blockwise[OF lc(2), of "lo_fo lo"] assms(11) by auto
  moreover obtain ys where ys: "dequant_q4_k (lo_fo lo) ?c (n * dim * m * 256) = Ok ys" "f32_bytes ys = blockwise 144 ?g ?c"
    using dequant_blockwise[OF lc(1)] by blast
  moreover have "blockwise 144 ?g ?c = converted (blockwise 144 ?g w) n dim (m * 1024)" by (rule converted_blockwise[OF _ g assms(10,5)]) simp
  ultimately have b: "f32_bytes ys = converted (f32_bytes xs) n dim (m * 1024)" by simp
  have "n * dim * 1 \<le> n * dim * (m * 256)" "1 * (m * 256) \<le> n * dim * (m * 256)" using assms(12,13) by (intro mult_le_mono; simp)+
  then have lt: "n * dim < usize_limit" "m * 256 < usize_limit" using assms(6) unfolding mult.assoc[of "n * dim" m 256] by linarith+
  have u: "unat (word_of_nat (n * dim) :: u64) = n * dim" "unat (word_of_nat (m * 256) :: u64) = m * 256" using lt by (rule_tac [!] unat_len)
  have "word_of_nat (m * 256) * word_of_nat (n * dim) = (word_of_nat (n * dim * m * 256) :: u64)" by (simp add: mult_ac)
  with unat_len[OF assms(6)] have p: "unat (prod_list (ti_dims x)) = n * dim * m * 256" unfolding assms(8) by (simp del: of_nat_mult)
  show ?thesis using f ys(1) layer_name_plain[of l "weight_suffix k"] b
    by (simp add: load_tensor_cpu_def load_raw_cpu_def needs_dequant_fallback_def assms(9) p Let_def load_with_dequant_as_def)
      (simp add: assms(8) u f32_bytes_def del: of_nat_mult)
qed

section \<open>Small files\<close>

text \<open>A Llama of one layer with one head of four rows. The arithmetic is on the bits.\<close>

definition demo_lo :: load_ops where
  "demo_lo = \<lparr>lo_f32_of_f64 = (\<lambda>_. 0), lo_f64_of_f32 = (\<lambda>_. 0), lo_sqrt_of = (\<lambda>_. 0), lo_eps = 0, lo_theta = 0,
     lo_fo = \<lparr>fo_zero = 0, fo_infinity = - 1, fo_neg_infinity = 0, fo_of_nat = word_of_nat, fo_min = min, fo_max = max, fo_add = (+), fo_sub = (-), fo_mul = (*),
       fo_div = (div), fo_eq = (=), fo_round = id, fo_clamp = (\<lambda>lo hi x. max lo (min hi x)), fo_to_u8 = ucast, fo_to_f16 = ucast, fo_from_f16 = ucast\<rparr>\<rparr>"

definition demo_llama :: "(str \<times> gguf_value) list" where
  "demo_llama = [(ascii ''general.architecture'', VString (ascii ''llama'')), (ascii ''llama.embedding_length'', VU32 4), (ascii ''llama.block_count'', VU32 1),
     (ascii ''llama.attention.head_count'', VU32 1), (ascii ''llama.feed_forward_length'', VU32 4)]"

definition demo_wq :: "u64 \<Rightarrow> u32 \<Rightarrow> gguf_tensor_info" where
  "demo_wq cols t = \<lparr>ti_name = resolve_name (LayerWeight 0 Wq), ti_dims = [cols, 4], ti_ggml_type = t, ti_offset = 0\<rparr>"

text \<open>Rows of equal bytes.\<close>

definition demo_rows :: "nat \<Rightarrow> nat list \<Rightarrow> byte list" where
  "demo_rows rs xs = concat (map (\<lambda>r. replicate rs (word_of_nat r)) xs)"

lemma demo_rows_length: "length (demo_rows rs xs) = length xs * rs"
  by (induction xs) (simp_all add: demo_rows_def)

lemma demo_converted: "converted (demo_rows rs [0, 1, 2, 3]) 1 4 rs = demo_rows rs [0, 2, 1, 3]"
proof -
  have "[0..<1 * 4] = [0, 1, 2, 3 :: nat]" by code_simp
  moreover have "rowat (demo_rows rs [a, b, c, d]) rs i = replicate rs (word_of_nat ([a, b, c, d] ! i))" if "i \<in> {0, 1, 2, 3}" for a b c d i
    using that by (auto simp: demo_rows_def rowat_def numeral_eq_Suc)
  ultimately show ?thesis by (simp add: converted_def hf_row_def) (simp add: demo_rows_def)
qed

lemma demo_meta: "meta_of demo_llama (ascii ''general.architecture'') = Some (VString (ascii ''llama''))" "meta_of demo_llama (ascii ''llama.embedding_length'') = Some (VU32 4)"
    "meta_of demo_llama (ascii ''llama.block_count'') = Some (VU32 1)" "meta_of demo_llama (ascii ''llama.attention.head_count'') = Some (VU32 1)"
    "meta_of demo_llama (ascii ''llama.feed_forward_length'') = Some (VU32 4)" "meta_of demo_llama (ascii ''llama.attention.head_dim'') = None"
    "meta_of demo_llama (ascii ''llama.attention.key_length'') = None" "meta_of demo_llama (ascii ''general.alignment'') = None"
  by (simp_all add: meta_of_def demo_llama_def ascii_def)

lemma demo_keys: "ascii ''llama'' @ ascii s = ascii (''llama'' @ s)"
  by (simp add: ascii_def)

lemma demo_stores:
  assumes "tensor_byte_size (demo_wq cols t) = 4 * rs" "rs < 1000"
  shows "stores demo_rt demo_llama [demo_wq cols t] (demo_rows rs [0, 2, 1, 3]) (demo_wq cols t) (converted (demo_rows rs [0, 1, 2, 3]) 1 4 rs)"
proof -
  let ?n = "ti_name (demo_wq cols t)"
  have n: "length ?n = 19" "utf8_valid ?n" by (simp_all add: demo_wq_def layer_name_def ascii_def)
  have h: "length (enc_header demo_llama [demo_wq cols t]) < 1000"
    by (simp add: enc_header_def enc_kv_def enc_info_def enc_string_def demo_llama_def demo_valid n) (simp add: demo_wq_def)
  have a: "alignment_of (meta_of demo_llama) = 32" by (simp add: alignment_of_def demo_meta GGUF_DEFAULT_ALIGNMENT_def)
  have "padding 32 (length (enc_header demo_llama [demo_wq cols t])) \<le> 32" by (simp add: padding_def)
  then have "length (gguf_bytes demo_llama [demo_wq cols t] (demo_rows rs [0, 2, 1, 3])) < 6000"
    using h assms(2) by (simp add: gguf_bytes_def Let_def a demo_rows_length)
  moreover have "\<forall>kv \<in> set demo_llama. kv_ok demo_rt kv" by (simp add: demo_llama_def kv_ok_def demo_rt_def demo_valid) (simp add: ascii_def)
  moreover have "info_ok (demo_wq cols t)" using n by (simp add: info_ok_def) (simp add: demo_wq_def)
  ultimately have "encodable demo_rt demo_llama [demo_wq cols t] (demo_rows rs [0, 2, 1, 3])" by (simp add: encodable_def) (simp add: demo_rt_def)
  moreover have "ti_offset (demo_wq cols t) = 0" "length (demo_rows rs [0, 2, 1, 3]) = 4 * rs" by (simp_all add: demo_wq_def demo_rows_length)
  ultimately show ?thesis unfolding stores_def demo_converted using a assms(1) by simp
qed

lemma demo_source:
  assumes "stores demo_rt demo_llama [x] payload y data"
  shows "\<exists>src. GgufSource_open demo_rt demo_lo id (gguf_bytes demo_llama [x] payload) = Ok src \<and> mc_arch (gs_config src) = Llama
    \<and> mc_num_attention_heads (gs_config src) = 1 \<and> mc_head_dim (gs_config src) = 4"
proof -
  from assms obtain g where g: "parse_bytes demo_rt (gguf_bytes demo_llama [x] payload) = Ok g" "gf_metadata g = meta_of demo_llama"
    "find_tensor g (ascii ''output.weight'') = Ok (if ti_name x = ascii ''output.weight'' then Some x else None)"
    using parse_file[of demo_rt demo_llama "[x]" payload] unfolding stores_def by (auto simp: Let_def find_tensor_def)
  have "arch_of (ascii ''llama'') = Ok Llama" by (simp add: arch_of_def)
  then show ?thesis using g
    by (simp add: GgufSource_open_def parse_model_config_def get_str_def required_u32_def get_u32_def Let_def demo_keys demo_meta)
qed

theorem llama_weights_as_trained_witness:
  "\<exists>src. GgufSource_open demo_rt demo_lo id (gguf_bytes demo_llama [demo_wq 1 0] (demo_rows 4 [0, 2, 1, 3])) = Ok src
    \<and> load_tensor_cpu demo_lo src (LayerWeight 0 Wq) = Ok \<lparr>ct_shape = [4, 1], ct_bytes = demo_rows 4 [0, 1, 2, 3], ct_dtype = D_F32\<rparr>"
proof -
  have "tensor_byte_size (demo_wq 1 0) = 4 * 4" by (simp add: demo_wq_def tensor_byte_size_def)
  from demo_stores[OF this] have st: "stores demo_rt demo_llama [demo_wq 1 0] (demo_rows 4 [0, 2, 1, 3]) (demo_wq 1 0) (converted (demo_rows 4 [0, 1, 2, 3]) 1 4 4)" by simp
  obtain src where src: "GgufSource_open demo_rt demo_lo id (gguf_bytes demo_llama [demo_wq 1 0] (demo_rows 4 [0, 2, 1, 3])) = Ok src" "mc_arch (gs_config src) = Llama"
    "mc_num_attention_heads (gs_config src) = 1" "mc_head_dim (gs_config src) = 4" using demo_source[OF st] by blast
  have "load_tensor_cpu demo_lo src (LayerWeight 0 Wq) = Ok \<lparr>ct_shape = [1 * 4, unat (1 :: u64)], ct_bytes = demo_rows 4 [0, 1, 2, 3], ct_dtype = D_F32\<rparr>"
    using st src(1,2) by (rule llama_weights_as_trained) (simp_all add: src demo_wq_def ggml_type_to_dtype_def demo_rows_length)
  with src(1) show ?thesis by auto
qed

theorem q4_k_weights_stay_permuted_witness:
  "\<exists>src xs. GgufSource_open demo_rt demo_lo id (gguf_bytes demo_llama [demo_wq 256 12] (demo_rows 144 [0, 2, 1, 3])) = Ok src
    \<and> dequant_q4_k (lo_fo demo_lo) (demo_rows 144 [0, 1, 2, 3]) 1024 = Ok xs
    \<and> load_tensor_cpu demo_lo src (LayerWeight 0 Wq) = Ok \<lparr>ct_shape = [4, 256], ct_bytes = converted (concat (map u32_to_le xs)) 1 4 1024, ct_dtype = D_F32\<rparr>"
proof -
  have "tensor_byte_size (demo_wq 256 12) = 4 * 144" by (simp add: demo_wq_def tensor_byte_size_def)
  from demo_stores[OF this] have st: "stores demo_rt demo_llama [demo_wq 256 12] (demo_rows 144 [0, 2, 1, 3]) (demo_wq 256 12) (converted (demo_rows 144 [0, 1, 2, 3]) 1 4 (1 * 144))" by simp
  obtain src where src: "GgufSource_open demo_rt demo_lo id (gguf_bytes demo_llama [demo_wq 256 12] (demo_rows 144 [0, 2, 1, 3])) = Ok src"
    "mc_arch (gs_config src) = Llama" using demo_source[OF st] by blast
  obtain xs where xs: "dequant_q4_k (lo_fo demo_lo) (demo_rows 144 [0, 1, 2, 3]) (1 * 4 * 1 * 256) = Ok xs"
    using dequant_blockwise[of "demo_rows 144 [0, 1, 2, 3]" 4] by (auto simp: demo_rows_length)
  have "load_tensor_cpu demo_lo src (LayerWeight 0 Wq)
    = Ok \<lparr>ct_shape = [1 * 4, 1 * 256], ct_bytes = converted (concat (map u32_to_le xs)) 1 4 (1 * 1024), ct_dtype = D_F32\<rparr>"
    by (rule q4_k_weights_stay_permuted[OF st src _ _ _ _ _ _ _ xs]) (simp_all add: demo_wq_def demo_rows_length)
  with src(1) xs show ?thesis by auto
qed

end
