(* ===== verification/Decode_Loop.thy ===== *)
theory Decode_Loop
  imports Pipeline
begin

text \<open>
  The decode loop of \<^verbatim>\<open>engine/src/session/decode_loop.rs\<close>: prefill, the shared core \<open>run_steps\<close> with the phases it
  dispatches, and its two drivers. The forward pass, the sampler, the command source, the pressure source, the
  position handle and the stop flag are trait objects or shared cells; they act on a world \<open>'s\<close> and are the fields
  of an environment. The stop flag can be set by another thread at any time, so loading it is an operation on
  the world as well. What is not modelled: the wall-clock times of the steps, and the builder.
\<close>

section \<open>The loop's environment and state\<close>

datatype stop_reason = BudgetExhaustedStop | StopFlag | EosTokenStop | CommandRequestedStop | StopConditionMetStop

text \<open>\<open>'l\<close> are the logits, \<open>'c\<close> the commands.\<close>

record step_ctx =
  x_pos :: nat
  x_prev_token :: token
  x_kv_capacity :: nat
  x_decode_step :: nat

record ('s, 'c, 'l) loop_env =
  e_load_stop :: "'s \<Rightarrow> bool \<times> 's"
  e_pressure :: "('s \<Rightarrow> pressure \<times> 's) option"
  e_poll :: "'s \<Rightarrow> (string, 'c list \<times> 's) result"
  e_dispatcher :: "('c list \<Rightarrow> 's registry \<times> 's \<Rightarrow> bool \<times> 's registry \<times> 's) option"
  e_report_results :: "nat \<Rightarrow> 's \<Rightarrow> 's"
  e_occupancy :: "('s \<Rightarrow> nat) option"
  e_on_kv_prune :: "nat \<Rightarrow> 's \<Rightarrow> 's"
  e_on_renumber :: "nat \<Rightarrow> nat \<Rightarrow> 's \<Rightarrow> 's"
  e_on_kv_reencode :: "'s \<Rightarrow> 's"
  e_take_reencode_fired :: "('s \<Rightarrow> bool \<times> 's) option"
  e_reencode_armed :: bool
  e_kv_capacity :: nat
  e_prefill :: "token list \<Rightarrow> nat \<Rightarrow> 's \<Rightarrow> (string, 'l \<times> 's) result"
  e_step :: "step_ctx \<Rightarrow> token \<Rightarrow> 's \<Rightarrow> (string, 'l \<times> 's) result"
  e_sample :: "step_ctx \<Rightarrow> 'l \<Rightarrow> 's \<Rightarrow> token \<times> 's"
  e_observe_token :: "token \<Rightarrow> 's \<Rightarrow> 's"
  e_finalize :: "'s \<Rightarrow> (string, 's) result"

record 's decode_loop =
  d_world :: 's
  d_pipeline :: "'s registry"
  d_cached_pressure :: pressure
  d_pos :: nat
  d_kv_occupancy :: nat
  d_decode_step :: nat
  d_prev_token :: token

definition decode_loop_new :: "'s registry \<Rightarrow> 's \<Rightarrow> 's decode_loop" where
  "decode_loop_new reg w = \<lparr>d_world = w, d_pipeline = reg, d_cached_pressure = 0, d_pos = 0, d_kv_occupancy = 0,
     d_decode_step = 0, d_prev_token = 0\<rparr>"

record decode_result =
  tokens_generated :: "token list"
  final_pos :: nat
  final_cache_pos :: nat
  stopped_by :: stop_reason
  step_cache_pos :: "32 word list"

section \<open>Its operations\<close>

definition PRESSURE_QUERY_INTERVAL :: nat where
  "PRESSURE_QUERY_INTERVAL = 8"

definition refresh_pressure_if_due :: "('s, 'c, 'l) loop_env \<Rightarrow> 's decode_loop \<Rightarrow> 's decode_loop" where
  "refresh_pressure_if_due env d = (case e_pressure env of
     None \<Rightarrow> d
   | Some src \<Rightarrow> if d_decode_step d mod PRESSURE_QUERY_INTERVAL = 0
       then (case src (d_world d) of (p, w) \<Rightarrow> d\<lparr>d_cached_pressure := p, d_world := w\<rparr>) else d)"

definition step_info_of :: "'s decode_loop \<Rightarrow> step_info" where
  "step_info_of d = \<lparr>si_pos = d_pos d, si_decode_step = d_decode_step d, si_pressure = d_cached_pressure d,
     si_prev_token = d_prev_token d\<rparr>"

definition dispatch_phase :: "('s, 'c, 'l) loop_env \<Rightarrow> lifecycle_phase \<Rightarrow> 's decode_loop
    \<Rightarrow> (string, stage_stop option \<times> 's decode_loop) result" where
  "dispatch_phase env phase d0 =
     (let d = refresh_pressure_if_due env d0 in
      and_then (dispatch phase (step_info_of d) (d_pipeline d) (d_world d)) (\<lambda>(r, reg, w).
      Ok (r, d\<lparr>d_pipeline := reg, d_world := w\<rparr>)))"

definition occupancy :: "('s, 'c, 'l) loop_env \<Rightarrow> 's decode_loop \<Rightarrow> nat" where
  "occupancy env d = (case e_occupancy env of Some f \<Rightarrow> f (d_world d) | None \<Rightarrow> d_pos d)"

definition invalidate_plan_on_kv_shrink :: "('s, 'c, 'l) loop_env \<Rightarrow> 's decode_loop \<Rightarrow> 's decode_loop" where
  "invalidate_plan_on_kv_shrink env d = (case e_occupancy env of
     None \<Rightarrow> d
   | Some f \<Rightarrow>
       let occ = f (d_world d) in
       (if occ < d_kv_occupancy d
        then d\<lparr>d_world := e_on_renumber env (d_pos d) occ (e_on_kv_prune env occ (d_world d))\<rparr> else d)\<lparr>d_kv_occupancy := occ\<rparr>)"

definition report_command_results :: "('s, 'c, 'l) loop_env \<Rightarrow> nat \<Rightarrow> 's decode_loop \<Rightarrow> 's decode_loop" where
  "report_command_results env n d = d\<lparr>d_world := e_report_results env n (d_world d)\<rparr>"

primrec map_stage_stop :: "stage_stop \<Rightarrow> stop_reason" where
  "map_stage_stop EosToken = EosTokenStop"
| "map_stage_stop BudgetExhausted = BudgetExhaustedStop"
| "map_stage_stop StopConditionMet = StopConditionMetStop"
| "map_stage_stop CommandRequested = CommandRequestedStop"

definition prefill :: "('s, 'c, 'l) loop_env \<Rightarrow> token list \<Rightarrow> 's decode_loop \<Rightarrow> (string, 'l \<times> 's decode_loop) result" where
  "prefill env tokens d0 =
     and_then (dispatch_phase env PrefillStart d0) (\<lambda>(_, d1).
     and_then (e_prefill env tokens (d_pos d1) (d_world d1)) (\<lambda>(logits, w).
     let d2 = d1\<lparr>d_pos := d_pos d1 + length tokens, d_prev_token := (if tokens = [] then 0 else last tokens),
                 d_world := fold (e_observe_token env) tokens w\<rparr>;
         d3 = d2\<lparr>d_kv_occupancy := occupancy env d2\<rparr> in
     and_then (dispatch_phase env PrefillEnd d3) (\<lambda>(_, d4).
     let d5 = invalidate_plan_on_kv_shrink env d4;
         d6 = (if e_reencode_armed env then d5\<lparr>d_world := e_on_kv_reencode env (d_world d5)\<rparr> else d5) in
     Ok (logits, d6))))"

section \<open>One step\<close>

datatype 's iter = Break stop_reason "'s decode_loop" | Next token "'s decode_loop"

text \<open>Dispatch a phase; a stop leaves the loop.\<close>

definition phase_or_break :: "('s, 'c, 'l) loop_env \<Rightarrow> lifecycle_phase \<Rightarrow> ('s decode_loop \<Rightarrow> (string, 's iter) result)
    \<Rightarrow> 's decode_loop \<Rightarrow> (string, 's iter) result" where
  "phase_or_break env phase k d = and_then (dispatch_phase env phase d) (\<lambda>(r, d').
     case r of Some why \<Rightarrow> Ok (Break (map_stage_stop why) d') | None \<Rightarrow> k d')"

definition step_ctx_of :: "('s, 'c, 'l) loop_env \<Rightarrow> 's decode_loop \<Rightarrow> step_ctx" where
  "step_ctx_of env d = \<lparr>x_pos = d_pos d, x_prev_token = d_prev_token d, x_kv_capacity = e_kv_capacity env,
     x_decode_step = d_decode_step d\<rparr>"

definition run_dispatcher :: "('s, 'c, 'l) loop_env \<Rightarrow> 'c list \<Rightarrow> 's decode_loop \<Rightarrow> bool \<times> 's decode_loop" where
  "run_dispatcher env cmds d = (case e_dispatcher env of
     None \<Rightarrow> (False, d)
   | Some f \<Rightarrow> (case f cmds (d_pipeline d, d_world d) of (suspended, reg, w) \<Rightarrow>
       (suspended, d\<lparr>d_pipeline := reg, d_world := w\<rparr>)))"

definition reencode_check :: "('s, 'c, 'l) loop_env \<Rightarrow> 's decode_loop \<Rightarrow> 's decode_loop" where
  "reencode_check env d = (case e_take_reencode_fired env of
     None \<Rightarrow> d
   | Some f \<Rightarrow> (case f (d_world d) of (fired, w) \<Rightarrow> d\<lparr>d_world := if fired then e_on_kv_reencode env w else w\<rparr>))"

definition commit_token :: "token \<Rightarrow> 's decode_loop \<Rightarrow> 's decode_loop" where
  "commit_token t d = d\<lparr>d_prev_token := t, d_pos := d_pos d + 1, d_decode_step := d_decode_step d + 1\<rparr>"

text \<open>From sampling to the end of the step.\<close>

definition sample_part :: "('s, 'c, 'l) loop_env \<Rightarrow> 'l \<Rightarrow> 's decode_loop \<Rightarrow> (string, 's iter) result" where
  "sample_part env logits d = (case e_sample env (step_ctx_of env d) logits (d_world d) of (sampled, w) \<Rightarrow>
     phase_or_break env PostSample (\<lambda>d1.
     phase_or_break env DecodeEnd (\<lambda>d2. Ok (Next sampled d2)) (commit_token sampled d1))
       (d\<lparr>d_world := e_observe_token env sampled w\<rparr>))"

text \<open>From the weight mutation to sampling.\<close>

definition forward_part :: "('s, 'c, 'l) loop_env \<Rightarrow> 's decode_loop \<Rightarrow> (string, 's iter) result" where
  "forward_part env = phase_or_break env WeightMutate (\<lambda>d1.
     phase_or_break env PreForward (\<lambda>d2.
       and_then (e_step env (step_ctx_of env d2) (d_prev_token d2) (d_world d2)) (\<lambda>(logits, w).
       phase_or_break env PostForward (phase_or_break env PreSample (sample_part env logits)) (d2\<lparr>d_world := w\<rparr>)))
     (invalidate_plan_on_kv_shrink env d1))"

definition mutate_part :: "('s, 'c, 'l) loop_env \<Rightarrow> nat \<Rightarrow> 's decode_loop \<Rightarrow> (string, 's iter) result" where
  "mutate_part env n_cmds d = and_then (dispatch_phase env KvMutate d) (\<lambda>(r, d1).
     let d2 = report_command_results env n_cmds d1 in
     case r of Some why \<Rightarrow> Ok (Break (map_stage_stop why) d2)
     | None \<Rightarrow> forward_part env (reencode_check env (invalidate_plan_on_kv_shrink env d2)))"

definition decode_iter :: "('s, 'c, 'l) loop_env \<Rightarrow> 's decode_loop \<Rightarrow> (string, 's iter) result" where
  "decode_iter env d = (case e_load_stop env (d_world d) of (stop, w) \<Rightarrow>
     let d0 = d\<lparr>d_world := w\<rparr> in
     if stop then Ok (Break StopFlag d0)
     else phase_or_break env DecodeStart (\<lambda>d1.
       and_then (e_poll env (d_world d1)) (\<lambda>(cmds, w').
       case run_dispatcher env cmds (d1\<lparr>d_world := w'\<rparr>) of (suspended, d2) \<Rightarrow>
       if suspended then Ok (Break CommandRequestedStop (report_command_results env (length cmds) d2))
       else mutate_part env (length cmds) d2)) d0)"

section \<open>The loop\<close>

fun step_loop :: "('s, 'c, 'l) loop_env \<Rightarrow> nat \<Rightarrow> token list \<Rightarrow> 32 word list \<Rightarrow> 's decode_loop
    \<Rightarrow> (string, token list \<times> 32 word list \<times> stop_reason \<times> 's decode_loop) result" where
  "step_loop env 0 gen cps d = Ok (gen, cps, BudgetExhaustedStop, d)"
| "step_loop env (Suc n) gen cps d = and_then (decode_iter env d) (\<lambda>r. case r of
     Break why d' \<Rightarrow> Ok (gen, cps, why, d')
   | Next t d' \<Rightarrow> step_loop env n (gen @ [t]) (cps @ [of_nat (occupancy env d')]) d')"

definition run_steps :: "('s, 'c, 'l) loop_env \<Rightarrow> nat \<Rightarrow> token \<Rightarrow> 's decode_loop
    \<Rightarrow> (string, decode_result \<times> 's decode_loop) result" where
  "run_steps env budget first_token d =
     and_then (step_loop env budget [] [] (d\<lparr>d_prev_token := first_token, d_world := e_observe_token env first_token (d_world d)\<rparr>))
       (\<lambda>(gen, cps, why, d'). Ok (\<lparr>tokens_generated = gen, final_pos = d_pos d', final_cache_pos = occupancy env d',
          stopped_by = why, step_cache_pos = cps\<rparr>, d'))"

definition run :: "('s, 'c, 'l) loop_env \<Rightarrow> nat \<Rightarrow> token \<Rightarrow> 's decode_loop \<Rightarrow> (string, decode_result \<times> 's decode_loop) result" where
  "run env budget first_token d = and_then (run_steps env budget first_token d) (\<lambda>(res, d1).
     and_then (e_finalize env (d_world d1)) (\<lambda>w.
     and_then (dispatch_phase env Finalize (d1\<lparr>d_world := w\<rparr>)) (\<lambda>(_, d2). Ok (res, d2))))"

definition USIZE_MAX :: nat where
  "USIZE_MAX = 2 ^ 64 - 1"

definition run_until_stop :: "('s, 'c, 'l) loop_env \<Rightarrow> token \<Rightarrow> 's decode_loop \<Rightarrow> (string, decode_result \<times> 's decode_loop) result" where
  "run_until_stop env first_token d = and_then (dispatch_phase env TurnStart d) (\<lambda>(_, d1).
     and_then (run_steps env USIZE_MAX first_token d1) (\<lambda>(res, d2).
     and_then (dispatch_phase env TurnEnd d2) (\<lambda>(_, d3). Ok (res, d3))))"

definition reset_pos :: "'s decode_loop \<Rightarrow> 's decode_loop" where
  "reset_pos d = d\<lparr>d_pos := 0, d_decode_step := 0, d_prev_token := 0\<rparr>"

section \<open>Position accounting\<close>

text \<open>Nothing but the end of a step moves the position, the step counter or the last token.\<close>

definition same_clock :: "'s decode_loop \<Rightarrow> 's decode_loop \<Rightarrow> bool" where
  "same_clock d d' \<longleftrightarrow> d_pos d' = d_pos d \<and> d_decode_step d' = d_decode_step d \<and> d_prev_token d' = d_prev_token d"

definition advanced :: "token \<Rightarrow> 's decode_loop \<Rightarrow> 's decode_loop \<Rightarrow> bool" where
  "advanced t d d' \<longleftrightarrow> d_pos d' = Suc (d_pos d) \<and> d_decode_step d' = Suc (d_decode_step d) \<and> d_prev_token d' = t"

lemma clock_trans [trans]: "same_clock a b \<Longrightarrow> same_clock b c \<Longrightarrow> same_clock a c" "same_clock a b \<Longrightarrow> advanced t b c \<Longrightarrow> advanced t a c"
  "advanced t a b \<Longrightarrow> same_clock b c \<Longrightarrow> advanced t a c"
  by (simp_all add: same_clock_def advanced_def)

lemma same_clock_world [simp]: "same_clock d (d\<lparr>d_world := w\<rparr>)" "same_clock d (d\<lparr>d_pipeline := reg, d_world := w\<rparr>)" "same_clock d d"
  by (simp_all add: same_clock_def)

lemma same_clock_invalidate: "same_clock d (invalidate_plan_on_kv_shrink env d)"
  by (simp add: invalidate_plan_on_kv_shrink_def same_clock_def Let_def split: option.split)

lemma same_clock_small: "same_clock d (reencode_check env d)" "same_clock d (report_command_results env n d)"
  "same_clock d (refresh_pressure_if_due env d)" "run_dispatcher env cmds d = (b, d') \<Longrightarrow> same_clock d d'"
  by (auto simp: reencode_check_def report_command_results_def refresh_pressure_if_due_def run_dispatcher_def same_clock_def
      split: option.splits prod.splits)

lemma dispatch_phase_clock:
  assumes "dispatch_phase env phase d = Ok (r, d')"
  shows "same_clock d d'"
proof -
  from assms have "same_clock (refresh_pressure_if_due env d) d'"
    by (auto simp: dispatch_phase_def result_simps Let_def)
  with same_clock_small(3) show ?thesis by (rule clock_trans(1))
qed

text \<open>How a step can end, seen from the loop state \<open>d\<close> it started in.\<close>

fun iter_clock :: "'s decode_loop \<Rightarrow> 's iter \<Rightarrow> bool" where
  "iter_clock d (Break why d') \<longleftrightarrow> same_clock d d' \<or> (\<exists>t. advanced t d d')"
| "iter_clock d (Next t d') \<longleftrightarrow> advanced t d d'"

lemma iter_clock_mono: "same_clock d d' \<Longrightarrow> iter_clock d' r \<Longrightarrow> iter_clock d r"
  by (cases r) (auto intro: clock_trans)

lemma phase_or_break_clock:
  assumes "phase_or_break env phase k d = Ok r" and "\<And>d'. k d' = Ok r \<Longrightarrow> iter_clock d' r"
  shows "iter_clock d r"
proof -
  from assms(1) obtain o1 d' where d': "dispatch_phase env phase d = Ok (o1, d')"
    and r: "(case o1 of Some why \<Rightarrow> Ok (Break (map_stage_stop why) d') | None \<Rightarrow> k d') = Ok r"
    by (auto simp: phase_or_break_def result_simps)
  from d' have "same_clock d d'" by (rule dispatch_phase_clock)
  with r assms(2)[of d'] show ?thesis by (auto split: option.splits intro: iter_clock_mono)
qed

lemma decode_end_clock:
  assumes "phase_or_break env DecodeEnd (\<lambda>d2. Ok (Next t d2)) (commit_token t d) = Ok r"
  shows "iter_clock d r"
proof -
  from assms obtain o1 d' where d': "dispatch_phase env DecodeEnd (commit_token t d) = Ok (o1, d')"
    and r: "r = (case o1 of Some why \<Rightarrow> Break (map_stage_stop why) d' | None \<Rightarrow> Next t d')"
    by (auto simp: phase_or_break_def result_simps split: option.splits)
  from dispatch_phase_clock[OF d'] have "advanced t d d'" by (simp add: commit_token_def same_clock_def advanced_def)
  with r show ?thesis by (auto split: option.splits)
qed

lemma sample_part_clock: "sample_part env logits d = Ok r \<Longrightarrow> iter_clock d r"
  unfolding sample_part_def case_prod_beta
  by (rule iter_clock_mono[OF same_clock_world(1)], erule phase_or_break_clock, erule decode_end_clock)

lemma after_step_clock:
  assumes "and_then x (\<lambda>(logits, w). phase_or_break env PostForward (phase_or_break env PreSample (sample_part env logits)) (d\<lparr>d_world := w\<rparr>)) = Ok r"
  shows "iter_clock d r"
proof -
  from assms obtain logits w where "phase_or_break env PostForward (phase_or_break env PreSample (sample_part env logits)) (d\<lparr>d_world := w\<rparr>) = Ok r"
    by (auto simp: result_simps)
  then have "iter_clock (d\<lparr>d_world := w\<rparr>) r" by (rule phase_or_break_clock) (erule phase_or_break_clock, rule sample_part_clock)
  then show ?thesis by (rule iter_clock_mono[OF same_clock_world(1)])
qed

lemma forward_part_clock: "forward_part env d = Ok r \<Longrightarrow> iter_clock d r"
  unfolding forward_part_def
  by (erule phase_or_break_clock) (rule iter_clock_mono[OF same_clock_invalidate], erule phase_or_break_clock, rule after_step_clock)

lemma mutate_part_clock:
  assumes "mutate_part env n d = Ok r"
  shows "iter_clock d r"
proof -
  from assms obtain o1 d1 where d1: "dispatch_phase env KvMutate d = Ok (o1, d1)"
    and r: "(case o1 of Some why \<Rightarrow> Ok (Break (map_stage_stop why) (report_command_results env n d1))
      | None \<Rightarrow> forward_part env (reencode_check env (invalidate_plan_on_kv_shrink env (report_command_results env n d1)))) = Ok r"
    by (auto simp: mutate_part_def result_simps Let_def)
  have c: "same_clock d (report_command_results env n d1)" by (rule clock_trans(1)[OF dispatch_phase_clock[OF d1] same_clock_small(2)])
  show ?thesis
  proof (cases o1)
    case None
    with r have "iter_clock (reencode_check env (invalidate_plan_on_kv_shrink env (report_command_results env n d1))) r"
      by (auto intro: forward_part_clock)
    then show ?thesis by (metis c iter_clock_mono same_clock_small(1) same_clock_invalidate)
  qed (use r c in auto)
qed

lemma decode_iter_clock:
  assumes "decode_iter env d = Ok r"
  shows "iter_clock d r"
proof -
  obtain stop w where ld: "e_load_stop env (d_world d) = (stop, w)" by fastforce
  let ?k = "\<lambda>d1. and_then (e_poll env (d_world d1)) (\<lambda>(cmds, w'). case run_dispatcher env cmds (d1\<lparr>d_world := w'\<rparr>) of (suspended, d2) \<Rightarrow>
       if suspended then Ok (Break CommandRequestedStop (report_command_results env (length cmds) d2)) else mutate_part env (length cmds) d2)"
  have k: "iter_clock d1 r" if "?k d1 = Ok r" for d1
  proof -
    from that obtain cmds w' s d2 where p: "run_dispatcher env cmds (d1\<lparr>d_world := w'\<rparr>) = (s, d2)"
      and q: "(if s then Ok (Break CommandRequestedStop (report_command_results env (length cmds) d2)) else mutate_part env (length cmds) d2) = Ok r"
      by (auto simp: result_simps split: prod.splits) (metis surj_pair)
    have c: "same_clock d1 d2" by (rule clock_trans(1)[OF same_clock_world(1) same_clock_small(4)[OF p]])
    then have "same_clock d1 (report_command_results env n d2)" for n by (rule clock_trans(1)[OF _ same_clock_small(2)])
    with q c show ?thesis by (auto split: if_splits dest: mutate_part_clock intro: iter_clock_mono)
  qed
  have "iter_clock (d\<lparr>d_world := w\<rparr>) r"
  proof (cases stop)
    case False
    with assms ld have "phase_or_break env DecodeStart ?k (d\<lparr>d_world := w\<rparr>) = Ok r" by (simp add: decode_iter_def)
    then show ?thesis by (rule phase_or_break_clock) (rule k)
  qed (use assms ld in \<open>auto simp: decode_iter_def\<close>)
  then show ?thesis by (rule iter_clock_mono[OF same_clock_world(1)])
qed

lemma step_loop_clock:
  assumes "step_loop env n gen cps d = Ok (gen', cps', why, d')"
  shows "\<exists>ts ps b. gen' = gen @ ts \<and> cps' = cps @ ps \<and> length ps = length ts \<and> length ts \<le> n
    \<and> d_pos d' = d_pos d + length ts + of_bool b \<and> d_decode_step d' = d_decode_step d + length ts + of_bool b
    \<and> (b \<longrightarrow> length ts < n) \<and> (\<not> b \<longrightarrow> d_prev_token d' = last (d_prev_token d # ts))
    \<and> (length ts = n \<longrightarrow> why = BudgetExhaustedStop)"
  using assms
proof (induction n arbitrary: gen cps d)
  case 0
  then show ?case by (auto intro!: exI[of _ "[]"] exI[of _ False])
next
  case (Suc n)
  from Suc.prems obtain r where r: "decode_iter env d = Ok r"
    "(case r of Break why d' \<Rightarrow> Ok (gen, cps, why, d') | Next t d' \<Rightarrow> step_loop env n (gen @ [t]) (cps @ [of_nat (occupancy env d')]) d')
      = Ok (gen', cps', why, d')" by (auto simp: result_simps)
  note c = decode_iter_clock[OF r(1)]
  show ?case
  proof (cases r)
    case (Break why0 d0)
    with c have "\<exists>b. d_pos d' = d_pos d + of_bool b \<and> d_decode_step d' = d_decode_step d + of_bool b \<and> (\<not> b \<longrightarrow> d_prev_token d' = d_prev_token d)"
      using r(2) by (auto simp: same_clock_def advanced_def intro: exI[of _ False] exI[of _ True])
    with Break r(2) show ?thesis by (auto intro!: exI[of _ "[]"])
  next
    case (Next t d0)
    with r(2) have l: "step_loop env n (gen @ [t]) (cps @ [of_nat (occupancy env d0)]) d0 = Ok (gen', cps', why, d')" by simp
    from c Next have a: "advanced t d d0" by simp
    from Suc.IH[OF l] obtain ts ps b where "gen' = (gen @ [t]) @ ts" "cps' = (cps @ [of_nat (occupancy env d0)]) @ ps" "length ps = length ts"
      "length ts \<le> n" "d_pos d' = d_pos d0 + length ts + of_bool b" "d_decode_step d' = d_decode_step d0 + length ts + of_bool b"
      "b \<longrightarrow> length ts < n" "\<not> b \<longrightarrow> d_prev_token d' = last (d_prev_token d0 # ts)" "length ts = n \<longrightarrow> why = BudgetExhaustedStop" by blast
    with a show ?thesis by (intro exI[of _ "t # ts"] exI[of _ "of_nat (occupancy env d0) # ps"] exI[of _ b]) (auto simp: advanced_def)
  qed
qed

text \<open>
  C17: The accounting of a decode run. Whatever the stages, the commands, the forward pass and the sampler do, a
  run that returns has generated at most \<open>budget\<close> tokens, with one recorded occupancy for each; the position and
  the step counter have advanced together, by the number of tokens generated, plus one if the run
  was stopped at the end of a step (the stop token is counted but not returned); and the last token of the
  loop is the last one generated. No eviction can move the position back: it is the RoPE position of the
  sequence, not the occupancy of the cache.
\<close>

theorem decode_run_accounting:
  assumes "run_steps env budget first_token d = Ok (res, d')"
  shows "\<exists>b. length (tokens_generated res) + of_bool b \<le> budget
    \<and> length (step_cache_pos res) = length (tokens_generated res)
    \<and> final_pos res = d_pos d + length (tokens_generated res) + of_bool b
    \<and> d_pos d' = final_pos res
    \<and> d_decode_step d' = d_decode_step d + length (tokens_generated res) + of_bool b
    \<and> (\<not> b \<longrightarrow> d_prev_token d' = last (first_token # tokens_generated res))
    \<and> (length (tokens_generated res) = budget \<longrightarrow> stopped_by res = BudgetExhaustedStop)"
proof -
  let ?d = "d\<lparr>d_prev_token := first_token, d_world := e_observe_token env first_token (d_world d)\<rparr>"
  from assms obtain gen cps why where l: "step_loop env budget [] [] ?d = Ok (gen, cps, why, d')"
    and r: "res = \<lparr>tokens_generated = gen, final_pos = d_pos d', final_cache_pos = occupancy env d', stopped_by = why, step_cache_pos = cps\<rparr>"
    by (auto simp: run_steps_def result_simps)
  from step_loop_clock[OF l] show ?thesis unfolding r by (elim exE conjE) (rule exI, auto)
qed

section \<open>The loop returns\<close>

text \<open>
  A clock \<open>clk\<close> on worlds that no component turns back and that runs down with every look at a stop flag that
  is not set: a flag that is set at some time. Components are total: they return a value, and the
  dispatcher submits only such stages.
\<close>

definition stage_ok :: "('s \<Rightarrow> nat) \<Rightarrow> 's pipeline_stage \<Rightarrow> bool" where
  "stage_ok clk st \<longleftrightarrow> (\<forall>phase ctx s. \<exists>out s'. ps_on_phase st phase ctx s = Ok (out, s') \<and> clk s' \<le> clk s)"

definition registry_ok :: "('s \<Rightarrow> nat) \<Rightarrow> 's registry \<Rightarrow> bool" where
  "registry_ok clk reg \<longleftrightarrow> registry_wf reg \<and> (\<forall>st \<in> set (r_stages reg). stage_ok clk st)"

definition cells_ok :: "('s \<Rightarrow> nat) \<Rightarrow> ('s, 'c, 'l) loop_env \<Rightarrow> bool" where
  "cells_ok clk env \<longleftrightarrow>
     (\<forall>w. clk (snd (e_load_stop env w)) \<le> clk w \<and> (\<not> fst (e_load_stop env w) \<longrightarrow> clk (snd (e_load_stop env w)) < clk w))
   \<and> (\<forall>src w. e_pressure env = Some src \<longrightarrow> clk (snd (src w)) \<le> clk w)
   \<and> (\<forall>n w. clk (e_report_results env n w) \<le> clk w)
   \<and> (\<forall>n w. clk (e_on_kv_prune env n w) \<le> clk w)
   \<and> (\<forall>m n w. clk (e_on_renumber env m n w) \<le> clk w)
   \<and> (\<forall>w. clk (e_on_kv_reencode env w) \<le> clk w)
   \<and> (\<forall>f w. e_take_reencode_fired env = Some f \<longrightarrow> clk (snd (f w)) \<le> clk w)
   \<and> (\<forall>x l w. clk (snd (e_sample env x l w)) \<le> clk w)
   \<and> (\<forall>t w. clk (e_observe_token env t w) \<le> clk w)"

definition parts_ok :: "('s \<Rightarrow> nat) \<Rightarrow> ('s, 'c, 'l) loop_env \<Rightarrow> bool" where
  "parts_ok clk env \<longleftrightarrow>
     (\<forall>w. \<exists>cmds w'. e_poll env w = Ok (cmds, w') \<and> clk w' \<le> clk w)
   \<and> (\<forall>f cmds reg w. e_dispatcher env = Some f \<longrightarrow> registry_ok clk reg
        \<longrightarrow> registry_ok clk (fst (snd (f cmds (reg, w)))) \<and> clk (snd (snd (f cmds (reg, w)))) \<le> clk w)
   \<and> (\<forall>x t w. \<exists>l w'. e_step env x t w = Ok (l, w') \<and> clk w' \<le> clk w)"

definition within :: "('s \<Rightarrow> nat) \<Rightarrow> nat \<Rightarrow> 's decode_loop \<Rightarrow> bool" where
  "within clk n d \<longleftrightarrow> registry_ok clk (d_pipeline d) \<and> clk (d_world d) \<le> n"

fun iter_loop :: "'s iter \<Rightarrow> 's decode_loop" where
  "iter_loop (Break why d) = d"
| "iter_loop (Next t d) = d"

definition iter_total :: "('s \<Rightarrow> nat) \<Rightarrow> nat \<Rightarrow> (string, 's iter) result \<Rightarrow> bool" where
  "iter_total clk n x \<longleftrightarrow> (\<exists>r. x = Ok r \<and> within clk n (iter_loop r))"

lemma dispatch_spec_total:
  assumes "\<forall>st \<in> set sts. stage_ok clk st"
  shows "\<exists>stop kept s'. (dispatch_spec phase ctx sts s :: ('e, _) result) = Ok (stop, kept, s') \<and> set kept \<subseteq> set sts \<and> clk s' \<le> clk s"
  using assms
proof (induction sts arbitrary: s)
  case (Cons st sts)
  from Cons.prems obtain out w where step: "ps_on_phase st phase ctx s = Ok (out, w)" "clk w \<le> clk s"
    unfolding stage_ok_def by (metis list.set_intros(1))
  from Cons.IH[of w] Cons.prems obtain stop kept s' where
    "(dispatch_spec phase ctx sts w :: ('e, _) result) = Ok (stop, kept, s')" "set kept \<subseteq> set sts" "clk s' \<le> clk w" by auto
  with step show ?case by (cases out) auto
qed simp

lemma refresh_within: "cells_ok clk env \<Longrightarrow> within clk n d \<Longrightarrow> within clk n (refresh_pressure_if_due env d)"
  by (auto simp: refresh_pressure_if_due_def within_def cells_ok_def split: option.split prod.split)
    (metis le_trans snd_conv)

lemma dispatch_phase_total:
  assumes "cells_ok clk env" "within clk n d"
  shows "\<exists>r d'. dispatch_phase env phase d = Ok (r, d') \<and> within clk n d'"
proof -
  let ?d = "refresh_pressure_if_due env d"
  have w: "within clk n ?d" by (rule refresh_within[OF assms])
  then have wf: "registry_wf (d_pipeline ?d)" "\<forall>st \<in> set (r_stages (d_pipeline ?d)). stage_ok clk st"
    by (auto simp: within_def registry_ok_def)
  from dispatch_spec_total[OF wf(2), where phase = phase and ctx = "step_info_of ?d" and s = "d_world ?d" and 'e = string]
  obtain stop kept s' where "dispatch_spec phase (step_info_of ?d) (r_stages (d_pipeline ?d)) (d_world ?d) = (Ok (stop, kept, s') :: (string, _) result)"
    "set kept \<subseteq> set (r_stages (d_pipeline ?d))" "clk s' \<le> clk (d_world ?d)" by blast
  moreover from this(2) wf(2) have "registry_ok clk (registry_of kept)" by (auto simp: registry_ok_def)
  ultimately show ?thesis using w by (auto simp: dispatch_phase_def dispatch_is_spec[OF wf(1)] within_def)
qed

lemma phase_or_break_total:
  assumes "cells_ok clk env" "within clk n d" "\<And>d'. within clk n d' \<Longrightarrow> iter_total clk n (k d')"
  shows "iter_total clk n (phase_or_break env phase k d)"
  using dispatch_phase_total[OF assms(1,2), of phase] assms(3)
  by (auto simp: phase_or_break_def iter_total_def split: option.split)

lemma invalidate_within:
  assumes "cells_ok clk env" "within clk n d"
  shows "within clk n (invalidate_plan_on_kv_shrink env d)"
proof -
  have "clk (e_on_renumber env (d_pos d) m (e_on_kv_prune env m (d_world d))) \<le> clk (d_world d)" for m
    using assms(1) unfolding cells_ok_def by (meson le_trans)
  then show ?thesis using assms(2) by (auto simp: invalidate_plan_on_kv_shrink_def within_def Let_def split: option.split intro: le_trans)
qed

lemma reencode_within: "cells_ok clk env \<Longrightarrow> within clk n d \<Longrightarrow> within clk n (reencode_check env d)"
  by (auto simp: reencode_check_def within_def cells_ok_def split: option.split prod.split) (metis le_trans snd_conv)+

lemma report_within: "cells_ok clk env \<Longrightarrow> within clk n d \<Longrightarrow> within clk n (report_command_results env m d)"
  by (simp add: report_command_results_def within_def cells_ok_def) (meson le_trans)

lemma world_within: "within clk n d \<Longrightarrow> clk w \<le> clk (d_world d) \<Longrightarrow> within clk n (d\<lparr>d_world := w\<rparr>)"
  by (simp add: within_def)

lemma sample_part_total:
  assumes "cells_ok clk env" "within clk n d"
  shows "iter_total clk n (sample_part env logits d)"
proof -
  obtain t w where s: "e_sample env (step_ctx_of env d) logits (d_world d) = (t, w)" by fastforce
  have "clk (e_observe_token env t w) \<le> clk w" "clk w \<le> clk (d_world d)"
    using assms(1) s unfolding cells_ok_def by (auto, metis snd_conv)
  then have o: "within clk n (d\<lparr>d_world := e_observe_token env t w\<rparr>)" using assms(2) by (intro world_within) auto
  have e: "iter_total clk n (phase_or_break env DecodeEnd (\<lambda>d2. Ok (Next t d2)) (commit_token t d1))" if "within clk n d1" for d1
    by (rule phase_or_break_total[OF assms(1)]) (use that in \<open>auto simp: within_def commit_token_def iter_total_def\<close>)
  show ?thesis unfolding sample_part_def s prod.case by (rule phase_or_break_total[OF assms(1) o e])
qed

lemma forward_part_total:
  assumes "cells_ok clk env" "parts_ok clk env" "within clk n d"
  shows "iter_total clk n (forward_part env d)"
  unfolding forward_part_def
proof (intro phase_or_break_total[OF assms(1)] assms(3) invalidate_within[OF assms(1)])
  fix d2
  assume d2: "within clk n d2"
  obtain l w where s: "e_step env (step_ctx_of env d2) (d_prev_token d2) (d_world d2) = Ok (l, w)" "clk w \<le> clk (d_world d2)"
    using assms(2) unfolding parts_ok_def by metis
  show "iter_total clk n (and_then (e_step env (step_ctx_of env d2) (d_prev_token d2) (d_world d2))
      (\<lambda>(logits, w). phase_or_break env PostForward (phase_or_break env PreSample (sample_part env logits)) (d2\<lparr>d_world := w\<rparr>)))"
    unfolding s(1) and_then.simps prod.case
    by (intro phase_or_break_total[OF assms(1)] sample_part_total[OF assms(1)] world_within[OF d2 s(2)])
qed

lemma mutate_part_total:
  assumes "cells_ok clk env" "parts_ok clk env" "within clk n d"
  shows "iter_total clk n (mutate_part env m d)"
proof -
  from dispatch_phase_total[OF assms(1,3)] obtain r d1 where d1: "dispatch_phase env KvMutate d = Ok (r, d1)" "within clk n d1" by blast
  have w: "within clk n (report_command_results env m d1)" by (rule report_within[OF assms(1) d1(2)])
  have "iter_total clk n (forward_part env (reencode_check env (invalidate_plan_on_kv_shrink env (report_command_results env m d1))))"
    by (intro forward_part_total[OF assms(1,2)] reencode_within[OF assms(1)] invalidate_within[OF assms(1)] w)
  with d1(1) w show ?thesis by (auto simp: mutate_part_def Let_def iter_total_def split: option.split)
qed

lemma decode_iter_total:
  assumes "cells_ok clk env" "parts_ok clk env" "within clk n d"
  shows "\<exists>why d'. decode_iter env d = Ok (Break why d') \<and> within clk n d'
    \<or> (\<exists>r. decode_iter env d = Ok r \<and> 0 < n \<and> within clk (n - 1) (iter_loop r))"
proof -
  obtain stop w where ld: "e_load_stop env (d_world d) = (stop, w)" by fastforce
  have c: "clk w \<le> clk (d_world d)" "\<not> stop \<Longrightarrow> clk w < clk (d_world d)"
    using assms(1) ld unfolding cells_ok_def by (metis fst_conv snd_conv)+
  show ?thesis
  proof (cases stop)
    case True
    with ld c(1) assms(3) show ?thesis by (auto simp: decode_iter_def within_def)
  next
    case False
    then have n: "0 < n" "within clk (n - 1) (d\<lparr>d_world := w\<rparr>)" using c assms(3) by (auto simp: within_def)
    have "iter_total clk (n - 1) (phase_or_break env DecodeStart (\<lambda>d1.
       and_then (e_poll env (d_world d1)) (\<lambda>(cmds, w').
       case run_dispatcher env cmds (d1\<lparr>d_world := w'\<rparr>) of (suspended, d2) \<Rightarrow>
       if suspended then Ok (Break CommandRequestedStop (report_command_results env (length cmds) d2))
       else mutate_part env (length cmds) d2)) (d\<lparr>d_world := w\<rparr>))"
    proof (rule phase_or_break_total[OF assms(1) n(2)])
      fix d1
      assume d1: "within clk (n - 1) d1"
      obtain cmds w' where p: "e_poll env (d_world d1) = Ok (cmds, w')" "clk w' \<le> clk (d_world d1)"
        using assms(2) unfolding parts_ok_def by metis
      obtain s d2 where r: "run_dispatcher env cmds (d1\<lparr>d_world := w'\<rparr>) = (s, d2)" by fastforce
      have "within clk (n - 1) d2"
      proof (cases "e_dispatcher env")
        case (Some f)
        then have "registry_ok clk reg \<Longrightarrow> registry_ok clk (fst (snd (f cmds (reg, w')))) \<and> clk (snd (snd (f cmds (reg, w')))) \<le> clk w'" for reg
          using assms(2) unfolding parts_ok_def by blast
        with Some r d1 p(2) show ?thesis by (fastforce simp: run_dispatcher_def within_def split: prod.splits)
      qed (use r d1 p(2) in \<open>auto simp: run_dispatcher_def within_def\<close>)
      then show "iter_total clk (n - 1) (and_then (e_poll env (d_world d1)) (\<lambda>(cmds, w').
       case run_dispatcher env cmds (d1\<lparr>d_world := w'\<rparr>) of (suspended, d2) \<Rightarrow>
       if suspended then Ok (Break CommandRequestedStop (report_command_results env (length cmds) d2))
       else mutate_part env (length cmds) d2))"
        using p(1) r mutate_part_total[OF assms(1,2)] report_within[OF assms(1)] by (auto simp: iter_total_def)
    qed
    with False ld n(1) show ?thesis by (auto simp: decode_iter_def Let_def iter_total_def)
  qed
qed

lemma step_loop_total:
  assumes "cells_ok clk env" "parts_ok clk env" "within clk n d"
  shows "\<exists>gen' cps' why d'. step_loop env b gen cps d = Ok (gen', cps', why, d') \<and> within clk n d' \<and> length gen' \<le> length gen + n"
  using assms(3)
proof (induction b arbitrary: gen cps d n)
  case 0
  then show ?case by simp
next
  case (Suc b)
  from decode_iter_total[OF assms(1,2) Suc.prems] consider why d' where "decode_iter env d = Ok (Break why d')" "within clk n d'"
    | r where "decode_iter env d = Ok r" "0 < n" "within clk (n - 1) (iter_loop r)" by blast
  then show ?case
  proof cases
    case 2
    have mono: "within clk (n - 1) x \<Longrightarrow> within clk n x" for x by (auto simp: within_def)
    show ?thesis
    proof (cases r)
      case (Next t d0)
      from Suc.IH[of "n - 1" d0 "gen @ [t]" "cps @ [of_nat (occupancy env d0)]"] 2(3) Next obtain gen' cps' why d' where
        "step_loop env b (gen @ [t]) (cps @ [of_nat (occupancy env d0)]) d0 = Ok (gen', cps', why, d')" "within clk (n - 1) d'"
        "length gen' \<le> length (gen @ [t]) + (n - 1)" by auto
      with 2(1,2) Next mono show ?thesis by auto
    qed (use 2 mono in auto)
  qed simp
qed

lemma run_steps_total:
  assumes "cells_ok clk env" "parts_ok clk env" "within clk n d"
  shows "\<exists>res d'. run_steps env b t d = Ok (res, d') \<and> within clk n d' \<and> length (tokens_generated res) \<le> n"
proof -
  have "clk (e_observe_token env t (d_world d)) \<le> clk (d_world d)" using assms(1) unfolding cells_ok_def by blast
  with assms(3) have "within clk n (d\<lparr>d_prev_token := t, d_world := e_observe_token env t (d_world d)\<rparr>)" by (simp add: within_def)
  from step_loop_total[OF assms(1,2) this, of b "[]" "[]"] show ?thesis by (auto simp: run_steps_def)
qed

text \<open>
  C22: A decode run returns. If every component returns a value and the stop flag is set at some time, every
  run returns: with a budget, after at most that many tokens, and without one (a chat turn) after at most as
  many tokens as the flag was seen clear. No stage, command or eviction can keep the loop running.
\<close>

theorem decode_run_returns:
  assumes "cells_ok clk env" "parts_ok clk env" "registry_ok clk (d_pipeline d)"
  shows "(\<exists>res d'. run_steps env budget first_token d = Ok (res, d')
        \<and> length (tokens_generated res) \<le> min budget (clk (d_world d)))
    \<and> (\<exists>res d'. run_until_stop env first_token d = Ok (res, d') \<and> length (tokens_generated res) \<le> clk (d_world d))"
proof (intro conjI)
  have w: "within clk (clk (d_world d)) d" using assms(3) by (simp add: within_def)
  from run_steps_total[OF assms(1,2) w] obtain res d' where r: "run_steps env budget first_token d = Ok (res, d')"
    "length (tokens_generated res) \<le> clk (d_world d)" by blast
  moreover have "length (tokens_generated res) \<le> budget"
    using r(1) by (auto simp: run_steps_def result_simps dest!: step_loop_clock)
  ultimately show "\<exists>res d'. run_steps env budget first_token d = Ok (res, d')
    \<and> length (tokens_generated res) \<le> min budget (clk (d_world d))" by auto
  from dispatch_phase_total[OF assms(1) w] obtain o1 d1 where d1: "dispatch_phase env TurnStart d = Ok (o1, d1)" "within clk (clk (d_world d)) d1" by blast
  from run_steps_total[OF assms(1,2) d1(2)] obtain res d2 where d2: "run_steps env USIZE_MAX first_token d1 = Ok (res, d2)"
    "within clk (clk (d_world d)) d2" "length (tokens_generated res) \<le> clk (d_world d)" by blast
  from dispatch_phase_total[OF assms(1) d2(2)] obtain o3 d3 where "dispatch_phase env TurnEnd d2 = Ok (o3, d3)" by blast
  with d1(1) d2 show "\<exists>res d'. run_until_stop env first_token d = Ok (res, d') \<and> length (tokens_generated res) \<le> clk (d_world d)"
    by (auto simp: run_until_stop_def)
qed

section \<open>The bare loop\<close>

text \<open>The defaults of the builder: nothing polled, no stages, no handles, and a stop flag that stays clear.\<close>

definition bare_env :: "('s, 'c, 'l) loop_env \<Rightarrow> bool" where
  "bare_env env \<longleftrightarrow> (\<forall>w. e_load_stop env w = (False, w)) \<and> e_pressure env = None \<and> (\<forall>w. e_poll env w = Ok ([], w))
     \<and> e_dispatcher env = None \<and> (\<forall>n w. e_report_results env n w = w) \<and> e_occupancy env = None \<and> e_take_reencode_fired env = None"

text \<open>Autoregressive decoding: feed the last token, sample the next one.\<close>

fun autoregress :: "('s, 'c, 'l) loop_env \<Rightarrow> nat \<Rightarrow> nat \<Rightarrow> nat \<Rightarrow> token \<Rightarrow> 's \<Rightarrow> (string, token list \<times> 's) result" where
  "autoregress env 0 p k t w = Ok ([], w)"
| "autoregress env (Suc n) p k t w =
     (let x = \<lparr>x_pos = p, x_prev_token = t, x_kv_capacity = e_kv_capacity env, x_decode_step = k\<rparr> in
      and_then (e_step env x t w) (\<lambda>(l, w1). case e_sample env x l w1 of (t', w2) \<Rightarrow>
      and_then (autoregress env n (p + 1) (k + 1) t' (e_observe_token env t' w2)) (\<lambda>(ts, w'). Ok (t' # ts, w'))))"

lemma bare_dispatch:
  assumes "bare_env env" "d_pipeline d = registry_new"
  shows "dispatch_phase env phase d = Ok (None, d)" "invalidate_plan_on_kv_shrink env d = d" "reencode_check env d = d"
    "report_command_results env n d = d" "run_dispatcher env cmds d = (False, d)"
  using assms by (simp_all add: bare_env_def dispatch_phase_def refresh_pressure_if_due_def dispatch_def registry_new_def Let_def
      invalidate_plan_on_kv_shrink_def reencode_check_def report_command_results_def run_dispatcher_def)

lemma bare_iter:
  assumes "bare_env env" "d_pipeline d = registry_new"
  shows "decode_iter env d = and_then (e_step env (step_ctx_of env d) (d_prev_token d) (d_world d)) (\<lambda>(l, w).
    case e_sample env (step_ctx_of env d) l w of (t, w') \<Rightarrow> Ok (Next t (commit_token t (d\<lparr>d_world := e_observe_token env t w'\<rparr>))))"
proof -
  have p: "phase_or_break env phase k x = k x" if "d_pipeline x = registry_new" for phase k x
    using bare_dispatch(1)[OF assms(1) that] by (simp add: phase_or_break_def)
  have s: "sample_part env l (d\<lparr>d_world := w\<rparr>)
      = (case e_sample env (step_ctx_of env d) l w of (t, w') \<Rightarrow> Ok (Next t (commit_token t (d\<lparr>d_world := e_observe_token env t w'\<rparr>))))" for l w
    by (simp add: sample_part_def p assms(2) commit_token_def step_ctx_of_def split: prod.split)
  have "decode_iter env d = forward_part env d"
    using assms by (simp add: decode_iter_def bare_env_def p mutate_part_def bare_dispatch[OF assms])
  also have "\<dots> = and_then (e_step env (step_ctx_of env d) (d_prev_token d) (d_world d)) (\<lambda>(l, w). sample_part env l (d\<lparr>d_world := w\<rparr>))"
    by (simp add: forward_part_def p assms(2) bare_dispatch[OF assms])
  finally show ?thesis by (simp add: s)
qed

lemma bare_loop:
  assumes "bare_env env" "d_pipeline d = registry_new"
  shows "step_loop env n gen cps d = and_then (autoregress env n (d_pos d) (d_decode_step d) (d_prev_token d) (d_world d)) (\<lambda>(ts, w).
    Ok (gen @ ts, cps @ map of_nat [Suc (d_pos d)..<Suc (d_pos d + n)], BudgetExhaustedStop,
      d\<lparr>d_world := w, d_pos := d_pos d + n, d_decode_step := d_decode_step d + n, d_prev_token := last (d_prev_token d # ts)\<rparr>))"
  using assms(2)
proof (induction n arbitrary: gen cps d)
  case 0
  show ?case by simp
next
  case (Suc n)
  have o: "occupancy env x = d_pos x" for x using assms(1) by (simp add: occupancy_def bare_env_def)
  have u: "[Suc p..<Suc (Suc (p + n))] = Suc p # [Suc (Suc p)..<Suc (Suc (p + n))]" for p by (simp add: upt_conv_Cons)
  show ?case
  proof (cases "e_step env (step_ctx_of env d) (d_prev_token d) (d_world d)")
    case (Ok lw)
    obtain l w where lw: "lw = (l, w)" by fastforce
    obtain t w' where s: "e_sample env (step_ctx_of env d) l w = (t, w')" by fastforce
    let ?d = "commit_token t (d\<lparr>d_world := e_observe_token env t w'\<rparr>)"
    have "step_loop env (Suc n) gen cps d = step_loop env n (gen @ [t]) (cps @ [of_nat (Suc (d_pos d))]) ?d"
      using Ok lw s by (simp add: bare_iter[OF assms(1) Suc.prems] o commit_token_def)
    also have "\<dots> = and_then (autoregress env n (d_pos ?d) (d_decode_step ?d) (d_prev_token ?d) (d_world ?d)) (\<lambda>(ts, w).
      Ok ((gen @ [t]) @ ts, (cps @ [of_nat (Suc (d_pos d))]) @ map of_nat [Suc (d_pos ?d)..<Suc (d_pos ?d + n)], BudgetExhaustedStop,
      ?d\<lparr>d_world := w, d_pos := d_pos ?d + n, d_decode_step := d_decode_step ?d + n, d_prev_token := last (d_prev_token ?d # ts)\<rparr>))"
      by (rule Suc.IH) (simp add: commit_token_def Suc.prems)
    finally show ?thesis using Ok lw s
      by (cases "autoregress env n (d_pos ?d) (d_decode_step ?d) (d_prev_token ?d) (d_world ?d)")
        (auto simp: commit_token_def step_ctx_of_def u simp del: upt_Suc)
  qed (simp_all add: bare_iter[OF assms(1) Suc.prems] step_ctx_of_def)
qed

text \<open>
  C23: The bare loop is autoregressive decoding. With the defaults (no stages, no commands, no handles, a clear stop
  flag) a run of \<open>budget\<close> steps is the textbook loop, error for error: every token is fed at its own position, the
  next one is sampled from its logits and observed once, and the run returns exactly \<open>budget\<close> tokens.
\<close>

theorem bare_loop_is_autoregressive:
  assumes "bare_env env" "d_pipeline d = registry_new"
  shows "run_steps env budget first_token d =
    and_then (autoregress env budget (d_pos d) (d_decode_step d) first_token (e_observe_token env first_token (d_world d))) (\<lambda>(ts, w).
    Ok (\<lparr>tokens_generated = ts, final_pos = d_pos d + budget, final_cache_pos = d_pos d + budget, stopped_by = BudgetExhaustedStop,
         step_cache_pos = map of_nat [Suc (d_pos d)..<Suc (d_pos d + budget)]\<rparr>,
      d\<lparr>d_world := w, d_pos := d_pos d + budget, d_decode_step := d_decode_step d + budget, d_prev_token := last (first_token # ts)\<rparr>))"
proof -
  let ?d = "d\<lparr>d_prev_token := first_token, d_world := e_observe_token env first_token (d_world d)\<rparr>"
  have o: "occupancy env x = d_pos x" for x using assms(1) by (simp add: occupancy_def bare_env_def)
  have p: "d_pipeline ?d = registry_new" using assms(2) by simp
  show ?thesis unfolding run_steps_def bare_loop[OF assms(1) p]
    by (cases "autoregress env budget (d_pos d) (d_decode_step d) first_token (e_observe_token env first_token (d_world d))")
      (auto simp: o simp del: upt_Suc)
qed

section \<open>A small run\<close>

text \<open>
  A world with a countdown for the stop flag and the tokens seen so far; the model answers with the token fed
  plus one. One resident stage ends the run when it sees token \<open>5\<close> at the end of a step.
\<close>

definition demo_loop_env :: "(nat \<times> token list, unit, token) loop_env" where
  "demo_loop_env = \<lparr>e_load_stop = (\<lambda>(n, ts). (n = 0, (n - 1, ts))), e_pressure = None, e_poll = (\<lambda>w. Ok ([], w)),
     e_dispatcher = None, e_report_results = (\<lambda>n w. w), e_occupancy = None, e_on_kv_prune = (\<lambda>n w. w),
     e_on_renumber = (\<lambda>m n w. w), e_on_kv_reencode = (\<lambda>w. w), e_take_reencode_fired = None, e_reencode_armed = False,
     e_kv_capacity = 16, e_prefill = (\<lambda>ts p w. Ok (0, w)), e_step = (\<lambda>x t w. Ok (t + 1, w)),
     e_sample = (\<lambda>x l w. (l, w)), e_observe_token = (\<lambda>t (n, ts). (n, ts @ [t])), e_finalize = Ok\<rparr>"

definition stop_at_five :: "(nat \<times> token list) pipeline_stage" where
  "stop_at_five = \<lparr>ps_lifecycle = Persistent, ps_on_phase = (\<lambda>phase ctx w.
     Ok (if phase = DecodeEnd \<and> si_prev_token ctx = 5 then Stop StopConditionMet else Continue, w))\<rparr>"

lemma demo_loop_ok: "cells_ok fst demo_loop_env" "parts_ok fst demo_loop_env" "registry_ok fst (registry_of [stop_at_five])"
  by (auto simp: cells_ok_def parts_ok_def demo_loop_env_def registry_ok_def stage_ok_def stop_at_five_def)

lemma demo_run:
  "run_steps demo_loop_env 4 2 (decode_loop_new (registry_of [stop_at_five]) (9, [])) =
     Ok (\<lparr>tokens_generated = [3, 4], final_pos = 3, final_cache_pos = 3, stopped_by = StopConditionMetStop, step_cache_pos = [1, 2]\<rparr>,
       \<lparr>d_world = (6, [2, 3, 4, 5]), d_pipeline = registry_of [stop_at_five], d_cached_pressure = 0, d_pos = 3, d_kv_occupancy = 0,
        d_decode_step = 3, d_prev_token = 5\<rparr>)"
  by (simp add: eval_nat_numeral run_steps_def decode_loop_new_def decode_iter_def demo_loop_env_def phase_or_break_def dispatch_phase_def
      refresh_pressure_if_due_def dispatch_is_spec stop_at_five_def step_info_of_def run_dispatcher_def mutate_part_def
      report_command_results_def forward_part_def invalidate_plan_on_kv_shrink_def reencode_check_def sample_part_def step_ctx_of_def
      commit_token_def occupancy_def Let_def)

theorem decode_run_accounting_witness:
  "\<exists>res d'. run_steps demo_loop_env 4 2 (decode_loop_new (registry_of [stop_at_five]) (9, [])) = Ok (res, d')
    \<and> tokens_generated res = [3, 4] \<and> length (step_cache_pos res) = 2 \<and> final_pos res = d_pos d'"
  using decode_run_accounting[OF demo_run] by (auto simp: demo_run)

theorem decode_run_returns_witness:
  "(\<exists>res d'. run_steps demo_loop_env 4 2 (decode_loop_new (registry_of [stop_at_five]) (9, [])) = Ok (res, d') \<and> length (tokens_generated res) \<le> 4)
    \<and> (\<exists>res d'. run_until_stop demo_loop_env 2 (decode_loop_new (registry_of [stop_at_five]) (9, [])) = Ok (res, d') \<and> length (tokens_generated res) \<le> 9)"
proof -
  have "registry_ok fst (d_pipeline (decode_loop_new (registry_of [stop_at_five]) (9, [])))"
    using demo_loop_ok(3) by (simp add: decode_loop_new_def)
  from decode_run_returns[OF demo_loop_ok(1,2) this, where budget = 4 and first_token = 2] show ?thesis
    by (auto simp: decode_loop_new_def)
qed

text \<open>The same model without the stage and with a flag that stays clear.\<close>

definition demo_bare_env :: "(nat \<times> token list, unit, token) loop_env" where
  "demo_bare_env = demo_loop_env\<lparr>e_load_stop := \<lambda>w. (False, w)\<rparr>"

theorem bare_loop_is_autoregressive_witness:
  "\<exists>res d'. run_steps demo_bare_env 3 7 (decode_loop_new registry_new (0, [])) = Ok (res, d') \<and> tokens_generated res = [8, 9, 10]
    \<and> d_world d' = (0, [7, 8, 9, 10])"
proof -
  have b: "bare_env demo_bare_env" by (simp add: bare_env_def demo_bare_env_def demo_loop_env_def)
  have r: "d_pipeline (decode_loop_new registry_new (0, [])) = registry_new" by (simp add: decode_loop_new_def)
  show ?thesis unfolding bare_loop_is_autoregressive[OF b r]
    by (simp add: eval_nat_numeral demo_bare_env_def demo_loop_env_def decode_loop_new_def)
qed

end
