(* ===== verification/Kv_Fill.thy ===== *)
theory Kv_Fill
  imports Decode_Loop
begin

text \<open>
  The sources of pressure of \<^verbatim>\<open>engine/src/session/local_pressure.rs\<close>, and the decode loop under the one that measures how full the KV
  cache is. The loop samples it every eighth step only, and the stage that evicts fires once per
  episode, so what keeps a cache bounded is an argument on the loop, the source and the stage together. The stage is an interface
  here (\<open>evicting_stage\<close>); \<open>Kv_Bound\<close> provides it.
\<close>

section \<open>Pressure sources\<close>

text \<open>The available memory; a monitor that fails counts as no pressure.\<close>

definition local_pressure :: "('s \<Rightarrow> ('e, nat) result) \<Rightarrow> nat \<Rightarrow> 's \<Rightarrow> ('e, pressure) result" where
  "local_pressure mem_stats threshold_bytes w = (case mem_stats w of
     Ok available \<Rightarrow> Ok (from_mem_available available threshold_bytes)
   | Err _ \<Rightarrow> Ok 0
   | Panic \<Rightarrow> Panic)"

definition KV_FILL_WARNING_SCALAR :: "8 word" where
  "KV_FILL_WARNING_SCALAR = 50"

definition at_high_water :: "nat \<Rightarrow> nat \<Rightarrow> nat \<Rightarrow> bool" where
  "at_high_water pos max_len high_water_pct \<longleftrightarrow> max_len > 0 \<and> pos * 100 \<ge> high_water_pct * max_len"

record kv_fill_source =
  kf_max_seq_len :: nat
  kf_high_water_pct :: nat

definition kv_fill_source_new :: "nat \<Rightarrow> nat \<Rightarrow> kv_fill_source" where
  "kv_fill_source_new max_len pct = \<lparr>kf_max_seq_len = max_len, kf_high_water_pct = min pct 100\<rparr>"

text \<open>The position is that of the handle of the first layer.\<close>

definition kv_fill_pressure :: "kv_fill_source \<Rightarrow> nat \<Rightarrow> pressure" where
  "kv_fill_pressure src pos =
     (if at_high_water pos (kf_max_seq_len src) (kf_high_water_pct src) then Pressure_new KV_FILL_WARNING_SCALAR else 0)"

definition KV_FILL_HIGH_WATER_PCT :: nat where
  "KV_FILL_HIGH_WATER_PCT = 85"

text \<open>The first position at which the source of the session reports pressure.\<close>

definition high_water :: "nat \<Rightarrow> nat" where
  "high_water max_len = (KV_FILL_HIGH_WATER_PCT * max_len + 99) div 100"

definition session_pressure :: "nat \<Rightarrow> nat \<Rightarrow> pressure" where
  "session_pressure max_len = kv_fill_pressure (kv_fill_source_new max_len KV_FILL_HIGH_WATER_PCT)"

lemma session_pressure_eq: "0 < M \<Longrightarrow> session_pressure M p = (if high_water M \<le> p then 50 else 0)"
  by (auto simp: session_pressure_def kv_fill_pressure_def kv_fill_source_new_def at_high_water_def high_water_def KV_FILL_HIGH_WATER_PCT_def
      KV_FILL_WARNING_SCALAR_def Pressure_new_def min_def word_le_nat_alt)

lemma fill_bands [simp]: "band 50 = Warning" "band 0 = Normal"
  by (simp_all add: band_def)

lemma high_water_le: "high_water M \<le> M"
  by (simp add: high_water_def KV_FILL_HIGH_WATER_PCT_def)

section \<open>The loop under the source\<close>

text \<open>
  The components besides the stage: the forward pass adds a position, the others leave the caches and the cell of the stage
  alone. \<open>ok\<close> is the invariant of the world, \<open>pos\<close> the position in the caches, \<open>armed\<close> the cell.
\<close>

definition keeps :: "('s \<Rightarrow> bool) \<Rightarrow> ('s \<Rightarrow> nat) \<Rightarrow> ('s \<Rightarrow> bool) \<Rightarrow> 's \<Rightarrow> 's \<Rightarrow> bool" where
  "keeps ok pos armed w w' \<longleftrightarrow> (ok w \<longrightarrow> ok w' \<and> pos w' = pos w \<and> armed w' = armed w)"

definition quiet_env :: "('s \<Rightarrow> 's \<Rightarrow> bool) \<Rightarrow> ('s, 'c, 'l) loop_env \<Rightarrow> bool" where
  "quiet_env R env \<longleftrightarrow> e_dispatcher env = None
     \<and> (\<forall>w. R w (snd (e_load_stop env w)) \<and> R w (e_on_kv_reencode env w) \<and> (\<forall>n. R w (e_report_results env n w) \<and> R w (e_on_kv_prune env n w))
         \<and> (\<forall>n m. R w (e_on_renumber env n m w)) \<and> (\<forall>t. R w (e_observe_token env t w)) \<and> (\<forall>x l. R w (snd (e_sample env x l w)))
         \<and> (\<forall>f. e_take_reencode_fired env = Some f \<longrightarrow> R w (snd (f w)))
         \<and> (\<exists>cmds w'. e_poll env w = Ok (cmds, w') \<and> R w w'))"

definition fill_env :: "('s \<Rightarrow> bool) \<Rightarrow> ('s \<Rightarrow> nat) \<Rightarrow> ('s \<Rightarrow> bool) \<Rightarrow> nat \<Rightarrow> ('s, 'c, 'l) loop_env \<Rightarrow> bool" where
  "fill_env ok pos armed M env \<longleftrightarrow> e_pressure env = Some (\<lambda>w. (session_pressure M (pos w), w)) \<and> quiet_env (keeps ok pos armed) env"

text \<open>An armed stage that sees pressure brings the caches far enough below the mark; the forward pass adds one position while there is room.\<close>

definition fires :: "'s pipeline_stage \<Rightarrow> ('s \<Rightarrow> bool) \<Rightarrow> ('s \<Rightarrow> nat) \<Rightarrow> ('s \<Rightarrow> bool) \<Rightarrow> nat \<Rightarrow> bool" where
  "fires stage ok pos armed M \<longleftrightarrow> (\<forall>w ctx. ok w \<and> Warning \<le> band (si_pressure ctx) \<and> armed w \<and> high_water M \<le> pos w \<and> pos w \<le> M \<longrightarrow>
     (\<exists>w'. ps_on_phase stage KvMutate ctx w = Ok (Continue, w') \<and> ok w' \<and> pos w' + 8 \<le> high_water M \<and> \<not> armed w'))"

definition appends_row :: "('s \<Rightarrow> bool) \<Rightarrow> ('s \<Rightarrow> nat) \<Rightarrow> ('s \<Rightarrow> bool) \<Rightarrow> nat \<Rightarrow> ('s, 'c, 'l) loop_env \<Rightarrow> bool" where
  "appends_row ok pos armed M env \<longleftrightarrow> (\<forall>x t w. ok w \<and> pos w < M \<longrightarrow>
     (\<exists>l w'. e_step env x t w = Ok (l, w') \<and> ok w' \<and> pos w' = Suc (pos w) \<and> armed w' = armed w))"

text \<open>
  A stage that evicts nothing at the mark, nor up to one sample later: it is disarmed all the same. What it would do further on is left open.
\<close>

definition refuses :: "'s pipeline_stage \<Rightarrow> ('s \<Rightarrow> bool) \<Rightarrow> ('s \<Rightarrow> nat) \<Rightarrow> ('s \<Rightarrow> bool) \<Rightarrow> nat \<Rightarrow> bool" where
  "refuses stage ok pos armed M \<longleftrightarrow> (\<forall>w ctx. ok w \<and> Warning \<le> band (si_pressure ctx) \<and> armed w \<and> high_water M \<le> pos w \<and> pos w < high_water M + 8 \<longrightarrow>
     (\<exists>w'. ps_on_phase stage KvMutate ctx w = Ok (Continue, w') \<and> ok w' \<and> pos w' = pos w \<and> \<not> armed w'))"

text \<open>The contract of the stage towards the loop: its phase, and its cell.\<close>

locale evicting_stage =
  fixes stage :: "'s pipeline_stage" and ok :: "'s \<Rightarrow> bool" and pos :: "'s \<Rightarrow> nat" and armed :: "'s \<Rightarrow> bool" and M :: nat
  assumes elsewhere: "ph \<noteq> KvMutate \<Longrightarrow> ps_on_phase stage ph ctx w = Ok (Continue, w)"
    and low: "ok w \<Longrightarrow> band (si_pressure ctx) < Warning \<Longrightarrow>
      \<exists>w'. ps_on_phase stage KvMutate ctx w = Ok (Continue, w') \<and> ok w' \<and> pos w' = pos w \<and> armed w'"
    and spent: "ok w \<Longrightarrow> Warning \<le> band (si_pressure ctx) \<Longrightarrow> \<not> armed w \<Longrightarrow>
      \<exists>w'. ps_on_phase stage KvMutate ctx w = Ok (Continue, w') \<and> ok w' \<and> pos w' = pos w \<and> \<not> armed w'"
begin

text \<open>What a decode step sees: the counter, the position, the cell of the stage, the cached pressure.\<close>

definition seen :: "nat \<Rightarrow> nat \<Rightarrow> bool \<Rightarrow> pressure \<Rightarrow> 's decode_loop \<Rightarrow> bool" where
  "seen s p a q d \<longleftrightarrow> d_pipeline d = registry_of [stage] \<and> ok (d_world d) \<and> d_decode_step d = s \<and> pos (d_world d) = p
     \<and> armed (d_world d) = a \<and> d_cached_pressure d = q"

definition sampled :: "nat \<Rightarrow> nat \<Rightarrow> pressure \<Rightarrow> pressure" where
  "sampled s p q = (if s mod 8 = 0 then session_pressure M p else q)"

lemma sampled_idem [simp]: "sampled s p (sampled s p q) = sampled s p q"
  by (simp add: sampled_def)

lemma seen_keeps: "seen s p a q d \<Longrightarrow> keeps ok pos armed (d_world d) w \<Longrightarrow> seen s p a q (d\<lparr>d_world := w\<rparr>)"
  by (simp add: seen_def keeps_def)

lemma refresh_seen: "fill_env ok pos armed M env \<Longrightarrow> seen s p a q d \<Longrightarrow> seen s p a (sampled s p q) (refresh_pressure_if_due env d)"
  by (auto simp: seen_def refresh_pressure_if_due_def fill_env_def sampled_def PRESSURE_QUERY_INTERVAL_def)

lemma other_phase:
  assumes E: "fill_env ok pos armed M env" and "ph \<noteq> KvMutate" "seen s p a q d"
  shows "dispatch_phase env ph d = Ok (None, refresh_pressure_if_due env d)"
proof -
  have reg: "d_pipeline (refresh_pressure_if_due env d) = registry_of [stage]" using refresh_seen[OF E assms(3)] by (simp add: seen_def)
  show ?thesis
    by (simp add: dispatch_phase_def Let_def reg dispatch_is_spec registry_wf_def registry_of_def elsewhere[OF assms(2)])
qed

lemma other_break:
  assumes "fill_env ok pos armed M env" "ph \<noteq> KvMutate" "seen s p a q d"
  shows "phase_or_break env ph k d = k (refresh_pressure_if_due env d)"
  by (simp add: phase_or_break_def other_phase[OF assms])

lemma cell_seen:
  assumes E: "fill_env ok pos armed M env" and d: "seen s p a q d"
  shows "seen s p a q (invalidate_plan_on_kv_shrink env d)" "seen s p a q (reencode_check env d)" "seen s p a q (report_command_results env n d)"
    "seen s p a q (d\<lparr>d_world := snd (e_load_stop env (d_world d))\<rparr>)"
proof -
  have k: "keeps ok pos armed w (snd (e_load_stop env w))" "keeps ok pos armed w (e_report_results env n w)" "keeps ok pos armed w (e_on_kv_reencode env w)"
    "keeps ok pos armed w (e_on_kv_prune env m w)" "keeps ok pos armed w (e_on_renumber env i m w)"
    "e_take_reencode_fired env = Some f \<Longrightarrow> keeps ok pos armed w (snd (f w))" for w m i f
    using E unfolding fill_env_def quiet_env_def by blast+
  have t: "keeps ok pos armed a b \<Longrightarrow> keeps ok pos armed b c \<Longrightarrow> keeps ok pos armed a c" for a b c by (simp add: keeps_def)
  show "seen s p a q (d\<lparr>d_world := snd (e_load_stop env (d_world d))\<rparr>)" "seen s p a q (report_command_results env n d)"
    using seen_keeps[OF d] k(1,2) by (simp_all add: report_command_results_def)
  show "seen s p a q (reencode_check env d)"
    using d k(6)[of _ "d_world d"] seen_keeps[OF d] t[OF _ k(3)] by (fastforce simp: reencode_check_def split: option.split prod.split)
  show "seen s p a q (invalidate_plan_on_kv_shrink env d)"
    using d seen_keeps[OF d t[OF k(4) k(5)]]
    by (auto simp: invalidate_plan_on_kv_shrink_def Let_def seen_def split: option.split)
qed

text \<open>The end of a step: one position more, and the pressure of the last sample.\<close>

lemma sample_seen:
  assumes E: "fill_env ok pos armed M env" and d: "seen s p a q d"
  shows "\<exists>t d'. sample_part env l d = Ok (Next t d') \<and> seen (Suc s) p a (sampled (Suc s) p (sampled s p q)) d'"
proof -
  obtain t w where e: "e_sample env (step_ctx_of env d) l (d_world d) = (t, w)" by fastforce
  have "keeps ok pos armed (d_world d) w" "keeps ok pos armed w (e_observe_token env t w)"
    using E e unfolding fill_env_def quiet_env_def by (metis snd_conv, blast)
  then have "keeps ok pos armed (d_world d) (e_observe_token env t w)" by (simp add: keeps_def)
  note d0 = seen_keeps[OF d this]
  let ?d1 = "refresh_pressure_if_due env (d\<lparr>d_world := e_observe_token env t w\<rparr>)"
  have d2: "seen (Suc s) p a (sampled s p q) (commit_token t ?d1)" using refresh_seen[OF E d0] by (simp add: seen_def commit_token_def)
  show ?thesis using refresh_seen[OF E d2] by (simp add: sample_part_def e other_break[OF E _ d0] other_break[OF E _ d2])
qed

text \<open>The forward pass, where it succeeds and where it does not.\<close>

lemma forward_seen:
  assumes E: "fill_env ok pos armed M env" and d: "seen s p a q d"
    and step: "\<And>x t w. ok w \<Longrightarrow> pos w = p \<Longrightarrow> \<exists>l w'. e_step env x t w = Ok (l, w') \<and> ok w' \<and> pos w' = Suc p \<and> armed w' = armed w"
  shows "\<exists>t d'. forward_part env d = Ok (Next t d') \<and> seen (Suc s) (Suc p) a (sampled (Suc s) (Suc p) (sampled s (Suc p) q)) d'"
proof -
  define d1 where "d1 = refresh_pressure_if_due env (invalidate_plan_on_kv_shrink env (refresh_pressure_if_due env d))"
  note i = cell_seen(1)[OF E refresh_seen[OF E d]]
  have d1: "seen s p a (sampled s p q) d1" using refresh_seen[OF E i] by (simp add: d1_def)
  then obtain l w where e: "e_step env (step_ctx_of env d1) (d_prev_token d1) (d_world d1) = Ok (l, w)" "ok w" "pos w = Suc p" "armed w = a"
    using step by (metis seen_def)
  have d2: "seen s (Suc p) a (sampled s p q) (d1\<lparr>d_world := w\<rparr>)" using d1 e by (simp add: seen_def)
  note d3 = refresh_seen[OF E d2] and d4 = refresh_seen[OF E refresh_seen[OF E d2]]
  have "forward_part env d = sample_part env l (refresh_pressure_if_due env (refresh_pressure_if_due env (d1\<lparr>d_world := w\<rparr>)))"
    by (simp add: forward_part_def other_break[OF E _ d] other_break[OF E _ i] d1_def[symmetric] e other_break[OF E _ d2] other_break[OF E _ d3])
  moreover have "sampled s (Suc p) (sampled s p q) = sampled s (Suc p) q" by (simp add: sampled_def)
  ultimately show ?thesis using sample_seen[OF E d4, of l] by simp
qed

lemma forward_fails:
  assumes E: "fill_env ok pos armed M env" and d: "seen s p a q d" and step: "\<And>x t w. ok w \<Longrightarrow> pos w = p \<Longrightarrow> e_step env x t w = Err e"
  shows "forward_part env d = Err e"
proof -
  note i = cell_seen(1)[OF E refresh_seen[OF E d]]
  from refresh_seen[OF E i] step show ?thesis
    by (simp add: forward_part_def other_break[OF E _ d] other_break[OF E _ i] seen_def)
qed

text \<open>A step up to the forward pass: the stage sees the pressure that is sampled or cached.\<close>

lemma iter_seen:
  assumes E: "fill_env ok pos armed M env" and d: "seen s p a q d"
  shows "fst (e_load_stop env (d_world d)) \<and> (\<exists>d'. decode_iter env d = Ok (Break StopFlag d') \<and> seen s p a q d')
    \<or> (\<exists>d1 ctx w n. seen s p a (sampled s p q) d1 \<and> w = d_world d1 \<and> si_pressure ctx = sampled s p q
        \<and> (\<forall>w'. ps_on_phase stage KvMutate ctx w = Ok (Continue, w') \<longrightarrow> decode_iter env d
            = forward_part env (reencode_check env (invalidate_plan_on_kv_shrink env (report_command_results env n (d1\<lparr>d_world := w'\<rparr>))))))"
proof -
  obtain stop w0 where ld: "e_load_stop env (d_world d) = (stop, w0)" by fastforce
  have d0: "seen s p a q (d\<lparr>d_world := w0\<rparr>)" using cell_seen(4)[OF E d] ld by simp
  show ?thesis
  proof (cases stop)
    case True
    then show ?thesis using ld d0 by (auto simp: decode_iter_def)
  next
    case False
    let ?d1 = "refresh_pressure_if_due env (d\<lparr>d_world := w0\<rparr>)"
    obtain cmds w1 where p: "e_poll env (d_world ?d1) = Ok (cmds, w1)" "keeps ok pos armed (d_world ?d1) w1"
      using E unfolding fill_env_def quiet_env_def by metis
    have d2: "seen s p a (sampled s p q) (?d1\<lparr>d_world := w1\<rparr>)" by (rule seen_keeps[OF refresh_seen[OF E d0] p(2)])
    let ?d3 = "refresh_pressure_if_due env (?d1\<lparr>d_world := w1\<rparr>)"
    have d3: "seen s p a (sampled s p q) ?d3" using refresh_seen[OF E d2] by simp
    have it: "decode_iter env d = mutate_part env (length cmds) (?d1\<lparr>d_world := w1\<rparr>)"
      using ld False p(1) E by (simp add: decode_iter_def other_break[OF E _ d0] run_dispatcher_def fill_env_def quiet_env_def)
    have reg: "d_pipeline ?d3 = registry_of [stage]" using d3 by (simp add: seen_def)
    have "decode_iter env d
        = forward_part env (reencode_check env (invalidate_plan_on_kv_shrink env (report_command_results env (length cmds) (?d3\<lparr>d_world := w'\<rparr>))))"
      if "ps_on_phase stage KvMutate (step_info_of ?d3) (d_world ?d3) = Ok (Continue, w')" for w'
    proof -
      have "?d3\<lparr>d_pipeline := registry_of [stage], d_world := w'\<rparr> = ?d3\<lparr>d_world := w'\<rparr>" using reg by simp
      then show ?thesis unfolding it mutate_part_def dispatch_phase_def Let_def reg
        by (simp add: dispatch_is_spec registry_wf_def registry_of_def that)
    qed
    moreover have "si_pressure (step_info_of ?d3) = sampled s p q" using d3 by (simp add: seen_def step_info_of_def)
    ultimately show ?thesis using d3 by blast
  qed
qed

lemma after_stage:
  assumes E: "fill_env ok pos armed M env" and "seen s p a q d" "ok w'" "pos w' = p'" "armed w' = a'"
  shows "seen s p' a' q (reencode_check env (invalidate_plan_on_kv_shrink env (report_command_results env n (d\<lparr>d_world := w'\<rparr>))))"
proof -
  have "seen s p' a' q (d\<lparr>d_world := w'\<rparr>)" using assms by (simp add: seen_def)
  then show ?thesis by (intro cell_seen(1,2,3)[OF E])
qed

text \<open>
  The invariant of the loop. At a sample the stage is armed unless the position is below the mark. Between two samples
  either the cached pressure is low and there is room up to the next one, or it is high and the stage is about to fire, or it has
  fired and the next sample will be below the mark.
\<close>

definition calm :: "nat \<Rightarrow> nat \<Rightarrow> bool \<Rightarrow> pressure \<Rightarrow> bool" where
  "calm s p a q \<longleftrightarrow> (if s mod 8 = 0 then p \<le> M \<and> (high_water M \<le> p \<longrightarrow> a)
     else q = 0 \<and> p + (8 - s mod 8) \<le> M \<or> q = 50 \<and> a \<and> high_water M \<le> p \<and> p \<le> M \<or> q = 50 \<and> \<not> a \<and> p + (8 - s mod 8) < high_water M)"

lemma calm_le: "calm s p a q \<Longrightarrow> p \<le> M"
  using high_water_le[of M] by (auto simp: calm_def split: if_splits)

text \<open>What one step does to the four numbers.\<close>

lemma calm_step:
  assumes c: "calm s p a q" and room: "high_water M + 6 \<le> M" and q1: "q1 = sampled s p q"
    and st: "q1 = 0 \<and> p' = p \<and> a' \<or> q1 = 50 \<and> a \<and> p' + 8 \<le> high_water M \<and> \<not> a' \<or> q1 = 50 \<and> \<not> a \<and> p' = p \<and> \<not> a'"
  shows "p' < M" "calm (Suc s) (Suc p') a' (sampled (Suc s) (Suc p') (sampled s (Suc p') q1))"
proof -
  have S: "session_pressure M n = (if high_water M \<le> n then 50 else 0)" for n using room by (intro session_pressure_eq) simp
  have r: "s mod 8 < 8" by simp
  have "p' < M \<and> calm (Suc s) (Suc p') a' (sampled (Suc s) (Suc p') (sampled s (Suc p') q1))"
  proof (cases "s mod 8 = 0")
    case True
    then have "Suc s mod 8 = 1" by (simp add: mod_Suc)
    with True c st q1 room show ?thesis by (auto simp: calm_def sampled_def S split: if_splits)
  next
    case False
    show ?thesis
    proof (cases "s mod 8 = 7")
      case True
      then have "Suc s mod 8 = 0" by (simp add: mod_Suc)
      with True False c st q1 room show ?thesis by (auto simp: calm_def sampled_def S)
    next
      case no: False
      then have n: "Suc s mod 8 = Suc (s mod 8)" by (simp add: mod_Suc)
      with no r False c st q1 room show ?thesis by (auto simp: calm_def sampled_def)
    qed
  qed
  then show "p' < M" "calm (Suc s) (Suc p') a' (sampled (Suc s) (Suc p') (sampled s (Suc p') q1))" by simp_all
qed

lemma calm_pressure:
  assumes "calm s p a q" "0 < M"
  shows "sampled s p q = 0 \<or> sampled s p q = 50 \<and> (a \<longrightarrow> high_water M \<le> p)"
  using assms by (auto simp: calm_def sampled_def session_pressure_eq split: if_splits)

lemma bounded_iter:
  assumes E: "fill_env ok pos armed M env" and room: "high_water M + 6 \<le> M"
    and fires: "fires stage ok pos armed M"
    and appends: "appends_row ok pos armed M env"
    and d: "seen s p a q d" "calm s p a q"
  shows "(\<exists>d'. decode_iter env d = Ok (Break StopFlag d') \<and> seen s p a q d')
    \<or> (\<exists>t d' s' p' a' q'. decode_iter env d = Ok (Next t d') \<and> seen s' p' a' q' d' \<and> calm s' p' a' q')"
proof -
  from iter_seen[OF E d(1)] consider (stop) "\<exists>d'. decode_iter env d = Ok (Break StopFlag d') \<and> seen s p a q d'"
    | (go) d1 ctx n where "seen s p a (sampled s p q) d1" "si_pressure ctx = sampled s p q"
        "\<And>w'. ps_on_phase stage KvMutate ctx (d_world d1) = Ok (Continue, w') \<Longrightarrow> decode_iter env d
            = forward_part env (reencode_check env (invalidate_plan_on_kv_shrink env (report_command_results env n (d1\<lparr>d_world := w'\<rparr>))))" by blast
  then show ?thesis
  proof cases
    case go
    let ?q = "sampled s p q"
    have w: "ok (d_world d1)" "pos (d_world d1) = p" "armed (d_world d1) = a" using go(1) by (simp_all add: seen_def)
    have M: "0 < M" using room by simp
    obtain w' p' a' where st: "ps_on_phase stage KvMutate ctx (d_world d1) = Ok (Continue, w')" "ok w'" "pos w' = p'" "armed w' = a'"
      "?q = 0 \<and> p' = p \<and> a' \<or> ?q = 50 \<and> a \<and> p' + 8 \<le> high_water M \<and> \<not> a' \<or> ?q = 50 \<and> \<not> a \<and> p' = p \<and> \<not> a'"
      using calm_pressure[OF d(2) M] low[OF w(1), of ctx] spent[OF w(1), of ctx] fires[unfolded fires_def, rule_format, of "d_world d1" ctx] go(2) w(1) w(2,3) calm_le[OF d(2)]
      by (cases a) (auto simp: less_pressure_level_def)
    note step = calm_step[OF d(2) room refl st(5)]
    have f: "seen s p' a' ?q (reencode_check env (invalidate_plan_on_kv_shrink env (report_command_results env n (d1\<lparr>d_world := w'\<rparr>))))"
      by (rule after_stage[OF E go(1) st(2-4)])
    from forward_seen[OF E f] appends[unfolded appends_row_def] step(1) obtain t d' where
      "decode_iter env d = Ok (Next t d')" "seen (Suc s) (Suc p') a' (sampled (Suc s) (Suc p') (sampled s (Suc p') ?q)) d'"
      unfolding go(3)[OF st(1)] by blast
    with step(2) show ?thesis by blast
  qed simp
qed

lemma bounded_loop:
  assumes "fill_env ok pos armed M env" "high_water M + 6 \<le> M"
    and "fires stage ok pos armed M"
    and "appends_row ok pos armed M env"
    and "seen s p a q d" "calm s p a q"
  shows "\<exists>gen' cps' why d'. step_loop env n gen cps d = Ok (gen', cps', why, d') \<and> ok (d_world d') \<and> pos (d_world d') \<le> M
    \<and> why \<in> {BudgetExhaustedStop, StopFlag}"
  using assms(5,6)
proof (induction n arbitrary: gen cps d s p a q)
  case 0
  then show ?case using calm_le by (auto simp: seen_def)
next
  case (Suc n)
  from bounded_iter[OF assms(1-4) Suc.prems] show ?case
  proof (elim disjE exE conjE)
    fix d'
    assume "decode_iter env d = Ok (Break StopFlag d')" "seen s p a q d'"
    then show ?thesis using calm_le[OF Suc.prems(2)] by (auto simp: seen_def)
  next
    fix t d' s' p' a' q'
    assume "decode_iter env d = Ok (Next t d')" "seen s' p' a' q' d'" "calm s' p' a' q'"
    then show ?thesis using Suc.IH[of s' p' a' q' d'] by simp
  qed
qed

text \<open>
  The other invariant: the attempt at the mark has been refused. Between two samples either the cached pressure is low, and the
  position of the last sample was below the mark, or it is high, and the stage is armed at most on its first attempt.
\<close>

definition stuck :: "nat \<Rightarrow> nat \<Rightarrow> bool \<Rightarrow> pressure \<Rightarrow> bool" where
  "stuck s p a q \<longleftrightarrow> (if s mod 8 = 0 then a \<longrightarrow> p < high_water M + 8
     else q = 0 \<and> p < high_water M + s mod 8 \<or> q = 50 \<and> (a \<longrightarrow> high_water M \<le> p \<and> p < high_water M + 8))"

lemma stuck_spent: "stuck s p a q \<Longrightarrow> high_water M + 8 \<le> p \<Longrightarrow> \<not> a"
  using mod_less_divisor[of 8 s] by (auto simp: stuck_def split: if_splits)

lemma stuck_pressure:
  assumes "stuck s p a q" "0 < M"
  shows "sampled s p q = 0 \<or> sampled s p q = 50 \<and> (a \<longrightarrow> high_water M \<le> p \<and> p < high_water M + 8)"
  using assms by (auto simp: stuck_def sampled_def session_pressure_eq split: if_splits)

lemma stuck_step:
  assumes c: "stuck s p a q" and M: "0 < M" and st: "sampled s p q = 0 \<and> a' \<or> sampled s p q = 50 \<and> \<not> a'"
  shows "stuck (Suc s) (Suc p) a' (sampled (Suc s) (Suc p) (sampled s (Suc p) (sampled s p q)))"
proof -
  note S = session_pressure_eq[OF M]
  consider "s mod 8 = 0" "Suc s mod 8 = 1" | "s mod 8 = 7" "Suc s mod 8 = 0" | "s mod 8 \<noteq> 0" "Suc s mod 8 = Suc (s mod 8)"
    by (cases "s mod 8 = 7"; cases "s mod 8 = 0") (auto simp: mod_Suc)
  then show ?thesis
  proof cases
    case 1
    with st c show ?thesis by (auto simp: stuck_def sampled_def S split: if_splits)
  next
    case 2
    with st c show ?thesis by (auto simp: stuck_def sampled_def)
  next
    case 3
    with st c show ?thesis by (auto simp: stuck_def sampled_def)
  qed
qed

lemma overflow_iter:
  assumes E: "fill_env ok pos armed M env" and refuses: "refuses stage ok pos armed M" and appends: "appends_row ok pos armed M env"
    and run: "\<And>w. \<not> fst (e_load_stop env w)" and full: "\<And>x t w. ok w \<Longrightarrow> pos w = M \<Longrightarrow> e_step env x t w = Err e"
    and M: "0 < M" and d: "seen s p a q d" "stuck s p a q" "p \<le> M"
  shows "if p = M then decode_iter env d = Err e
    else \<exists>t d' a' q'. decode_iter env d = Ok (Next t d') \<and> seen (Suc s) (Suc p) a' q' d' \<and> stuck (Suc s) (Suc p) a' q'"
proof -
  let ?q = "sampled s p q"
  from iter_seen[OF E d(1)] run obtain d1 ctx n where go: "seen s p a ?q d1" "si_pressure ctx = ?q"
        "\<And>w'. ps_on_phase stage KvMutate ctx (d_world d1) = Ok (Continue, w') \<Longrightarrow> decode_iter env d
            = forward_part env (reencode_check env (invalidate_plan_on_kv_shrink env (report_command_results env n (d1\<lparr>d_world := w'\<rparr>))))" by blast
  have w: "ok (d_world d1)" "pos (d_world d1) = p" "armed (d_world d1) = a" using go(1) by (simp_all add: seen_def)
  obtain w' where st: "ps_on_phase stage KvMutate ctx (d_world d1) = Ok (Continue, w')" "ok w'" "pos w' = p"
    "?q = 0 \<and> armed w' \<or> ?q = 50 \<and> \<not> armed w'"
    using stuck_pressure[OF d(2) M] low[OF w(1), of ctx] spent[OF w(1), of ctx] refuses[unfolded refuses_def, rule_format, of "d_world d1" ctx] go(2) w
    by (cases a) (auto simp: less_pressure_level_def)
  note f = after_stage[OF E go(1) st(2,3) refl, of n]
  show ?thesis
  proof (cases "p = M")
    case True
    then show ?thesis using forward_fails[OF E f] full unfolding go(3)[OF st(1)] by auto
  next
    case False
    then have "p < M" using d(3) by simp
    with False forward_seen[OF E f] appends stuck_step[OF d(2) M st(4)] show ?thesis unfolding go(3)[OF st(1)] appends_row_def by fastforce
  qed
qed

lemma overflow_loop:
  assumes "fill_env ok pos armed M env" "refuses stage ok pos armed M" "appends_row ok pos armed M env" "\<And>w. \<not> fst (e_load_stop env w)"
    and "\<And>x t w. ok w \<Longrightarrow> pos w = M \<Longrightarrow> e_step env x t w = Err e" and "0 < M" and "seen s p a q d" "stuck s p a q" "p \<le> M"
  shows "if M - p < n then step_loop env n gen cps d = Err e
    else \<exists>gen' cps' d'. step_loop env n gen cps d = Ok (gen', cps', BudgetExhaustedStop, d') \<and> ok (d_world d') \<and> pos (d_world d') = p + n
      \<and> (high_water M + 8 \<le> p + n \<longrightarrow> \<not> armed (d_world d'))"
  using assms(7-9)
proof (induction n arbitrary: gen cps d s p a q)
  case 0
  then show ?case using stuck_spent[of s p a q] by (auto simp: seen_def)
next
  case (Suc n)
  note step = overflow_iter[where e = e, OF assms(1-3) assms(4) assms(5,6) Suc.prems]
  show ?case
  proof (cases "p = M")
    case False
    with step obtain t d' a' q' where "decode_iter env d = Ok (Next t d')" "seen (Suc s) (Suc p) a' q' d'" "stuck (Suc s) (Suc p) a' q'" by auto
    moreover from this(1) have "step_loop env (Suc n) gen cps d = step_loop env n (gen @ [t]) (cps @ [of_nat (occupancy env d')]) d'" by simp
    moreover have "Suc p \<le> M" "M - p < Suc n \<longleftrightarrow> M - Suc p < n" "p + Suc n = Suc p + n" using False Suc.prems(3) by auto
    ultimately show ?thesis using Suc.IH[of "Suc s" "Suc p" a' q' d'] by presburger
  qed (use step in simp)
qed

text \<open>The two for a run from its start.\<close>

lemma bounded_run:
  assumes E: "fill_env ok pos armed M env" and "high_water M + 6 \<le> M" "fires stage ok pos armed M" "appends_row ok pos armed M env"
    and d: "d_pipeline d = submit stage registry_new" "ok (d_world d)" "pos (d_world d) \<le> M" "armed (d_world d)" "d_decode_step d = 0"
  shows "\<exists>res d'. run_steps env budget t d = Ok (res, d') \<and> stopped_by res \<in> {BudgetExhaustedStop, StopFlag} \<and> ok (d_world d') \<and> pos (d_world d') \<le> M"
proof -
  let ?d = "d\<lparr>d_prev_token := t, d_world := e_observe_token env t (d_world d)\<rparr>"
  have "keeps ok pos armed (d_world d) (e_observe_token env t (d_world d))" using E unfolding fill_env_def quiet_env_def by blast
  then have "seen 0 (pos (d_world d)) True (d_cached_pressure d) ?d" using d by (simp add: seen_def keeps_def submit_def registry_new_def registry_of_def)
  from bounded_loop[OF assms(1-4) this, of budget "[]" "[]"] d(3) show ?thesis by (auto simp: calm_def run_steps_def)
qed

lemma overflow_run:
  assumes E: "fill_env ok pos armed M env" and "refuses stage ok pos armed M" "appends_row ok pos armed M env" "\<And>w. \<not> fst (e_load_stop env w)"
    and "\<And>x t w. ok w \<Longrightarrow> pos w = M \<Longrightarrow> e_step env x t w = Err e" and M: "0 < M"
    and d: "d_pipeline d = submit stage registry_new" "ok (d_world d)" "pos (d_world d) \<le> M" "pos (d_world d) < high_water M + 8" "d_decode_step d = 0"
  shows "if M - pos (d_world d) < budget then run_steps env budget t d = Err e
    else \<exists>res d'. run_steps env budget t d = Ok (res, d') \<and> stopped_by res = BudgetExhaustedStop \<and> ok (d_world d')
      \<and> pos (d_world d') = pos (d_world d) + budget \<and> (high_water M + 8 \<le> pos (d_world d) + budget \<longrightarrow> \<not> armed (d_world d'))"
proof -
  let ?d = "d\<lparr>d_prev_token := t, d_world := e_observe_token env t (d_world d)\<rparr>"
  have "keeps ok pos armed (d_world d) (e_observe_token env t (d_world d))" using E unfolding fill_env_def quiet_env_def by blast
  then have s: "seen 0 (pos (d_world d)) (armed (d_world d)) (d_cached_pressure d) ?d"
    using d by (simp add: seen_def keeps_def submit_def registry_new_def registry_of_def)
  have "stuck 0 (pos (d_world d)) (armed (d_world d)) (d_cached_pressure d)" using d(4) by (simp add: stuck_def)
  from overflow_loop[where e = e, OF assms(1-3) assms(4) assms(5) M s this d(3), where n = budget and gen = "[]" and cps = "[]"] show ?thesis
    by (auto simp: run_steps_def split: if_splits)
qed

end

end
