(* ===== verification/Kv_Bound.thy ===== *)
theory Kv_Bound
  imports Kv_Fill Mutation_Driver
begin

text \<open>
  Why a single prompt can run for ever in a cache of fixed size, and when it cannot: the decode loop, the KV-fill pressure, the
  gated driver with a sliding window (as \<^verbatim>\<open>engine/src/session/assembly/build_standard_loop.rs\<close> puts them together) and the caches themselves. A step
  of the model appends one row to every layer by \<open>update\<close>; which rows and logits is left open.
\<close>

section \<open>The assembly\<close>

text \<open>The driver of a native technique: gated by the pressure only where it mutates during decoding.\<close>

definition standard_driver :: "('u, 'w) cache_handle stage \<Rightarrow> mutation_phase \<Rightarrow> stage_caps \<Rightarrow> (nat \<Rightarrow> nat) \<Rightarrow> ('u, 'w) mutation_driver" where
  "standard_driver stage phase caps ratio_budget =
     (let driver = with_caps caps (mutation_driver_new stage phase ratio_budget) in
      if phase = MutateKv then with_pressure_gate Warning driver else driver)"

text \<open>The handle of the first layer.\<close>

definition kv_pos :: "('u, 'g) kv_world \<Rightarrow> nat" where
  "kv_pos w = (case kw_caches w of [] \<Rightarrow> 0 | c # _ \<Rightarrow> current_pos c)"

text \<open>One row for K and one for V in every layer.\<close>

fun append_rows :: "('f, 'u) enc_block \<Rightarrow> ('u list \<times> 'u list) list \<Rightarrow> 'u kvcache list \<Rightarrow> 'u kvcache list kv_result" where
  "append_rows enc ((k, v) # rows) (c # cs) =
     and_then (update enc (Units k) (Units v) 1 c) (\<lambda>c'. and_then (append_rows enc rows cs) (\<lambda>cs'. Ok (c' # cs')))"
| "append_rows enc rows cs = Ok cs"

definition kv_forward :: "('f, 'u) enc_block \<Rightarrow> (step_ctx \<Rightarrow> token \<Rightarrow> ('u, 'g) kv_world \<Rightarrow> ('u list \<times> 'u list) list)
    \<Rightarrow> (('u, 'g) kv_world \<Rightarrow> 'l) \<Rightarrow> step_ctx \<Rightarrow> token \<Rightarrow> ('u, 'g) kv_world \<Rightarrow> (string, 'l \<times> ('u, 'g) kv_world) result" where
  "kv_forward enc rows logits x t w =
     and_then (map_err (\<lambda>_. ''KV Cache overflow'') (append_rows enc (rows x t w) (kw_caches w))) (\<lambda>cs.
     let w' = w\<lparr>kw_caches := cs\<rparr> in Ok (logits w', w'))"

definition rows_fit :: "(step_ctx \<Rightarrow> token \<Rightarrow> ('u, 'g) kv_world \<Rightarrow> ('u list \<times> 'u list) list) \<Rightarrow> bool" where
  "rows_fit rows \<longleftrightarrow> (\<forall>x t w. list_all2 (\<lambda>(k, v) c. length k = kv_heads c * row c \<and> length v = kv_heads c * row c) (rows x t w) (kw_caches w))"

section \<open>The caches of the session\<close>

text \<open>A cache that can hold \<open>M\<close> rows: it has them, or it can grow to them.\<close>

definition growable :: "nat \<Rightarrow> 'u kvcache \<Rightarrow> bool" where
  "growable M c \<longleftrightarrow> \<not> is_opaque c \<and> max_seq_len c = M \<and> (if memory c = None then M \<le> capacity c else \<forall>N. can_alloc c N)"

definition layers_ok :: "nat \<Rightarrow> ('u, 'g) kv_world \<Rightarrow> bool" where
  "layers_ok M w \<longleftrightarrow> kw_caches w \<noteq> [] \<and> (\<forall>c \<in> set (kw_caches w). kv_wf c \<and> head_starts_raw c = [] \<and> growable M c
     \<and> 0 < current_pos c \<and> current_pos c = kv_pos w)"

lemma related_from: "list_all2 P xs ys \<Longrightarrow> y \<in> set ys \<Longrightarrow> \<exists>x \<in> set xs. P x y"
  by (induction rule: list_all2_induct) auto

lemma derived_growable: "derived c c' \<Longrightarrow> growable M c \<Longrightarrow> growable M c'"
  using derived_can_alloc[of c c'] by (auto simp: growable_def derived_def is_opaque_def split: if_splits)

lemma copy_in_derived: "copy_in nk nv a b n c = Ok c' \<Longrightarrow> derived c c' \<and> current_pos c' = current_pos c"
  by (auto simp: copy_in_def result_simps derived_def)

lemma update_typed_derived:
  assumes "update_typed nk nv S c = Ok c'"
  shows "derived c c' \<and> current_pos c' = current_pos c"
proof -
  have "scatter nk nv S a b e f c = Ok c' \<Longrightarrow> derived c c' \<and> current_pos c' = current_pos c" for a b e f
    unfolding scatter_def
    by (erule try_fold_invariant) (use copy_in_derived derived_trans in \<open>fastforce split: prod.splits\<close>)+
  then show ?thesis using assms by (auto simp: update_typed_def Let_def split: kv_layout.splits if_splits dest: copy_in_derived)
qed

lemma grow_derived: "grow n c = Ok c' \<Longrightarrow> derived c c' \<and> current_pos c' = current_pos c"
  by (auto simp: grow_def Let_def result_simps derived_def split: prod.splits)

lemma update_derived:
  assumes "update enc (Units nk) (Units nv) S c = Ok c'" "\<not> is_opaque c"
  shows "derived c c' \<and> current_pos c' = current_pos c + S"
proof -
  have a: "derived d (advance_pos S d) \<and> current_pos (advance_pos S d) = current_pos d + S" for d :: "'a kvcache"
    by (simp add: derived_def advance_pos_def)
  from assms(1) obtain g where g: "(if current_pos c + S > capacity c then (if current_pos c + S > max_seq_len c then Err KvOverflow else grow (current_pos c + S) c) else Ok c) = Ok g"
    and r: "and_then (update_typed nk nv S g) (\<lambda>c. Ok (advance_pos S c)) = Ok c' \<or> is_opaque g"
    by (auto simp: update_def result_simps split: if_splits)
  have d: "derived c g" "current_pos g = current_pos c" using g by (auto split: if_splits dest: grow_derived)
  then have "\<not> is_opaque g" using assms(2) by (simp add: derived_def is_opaque_def)
  with r obtain c1 where "update_typed nk nv S g = Ok c1" "c' = advance_pos S c1" by (auto simp: result_simps)
  with d show ?thesis using update_typed_derived[of nk nv S g c1] a[of c1] by (auto intro: derived_trans)
qed

text \<open>Appending: every layer gets its row while there is room, and the first one refuses when there is none.\<close>

lemma append_rows_ok:
  assumes "\<forall>c \<in> set cs. kv_wf c \<and> growable M c \<and> current_pos c < M"
    and "list_all2 (\<lambda>(k, v) c. length k = kv_heads c * row c \<and> length v = kv_heads c * row c) rows cs"
  shows "\<exists>cs'. append_rows enc rows cs = Ok cs' \<and> list_all2 (\<lambda>c c'. kv_wf c' \<and> derived c c' \<and> current_pos c' = Suc (current_pos c)) cs cs'"
  using assms
proof (induction enc rows cs rule: append_rows.induct)
  case (1 enc k v rows c cs)
  have c: "kv_wf c" "\<not> is_opaque c" "current_pos c + 1 \<le> max_seq_len c" "current_pos c + 1 \<le> capacity c \<or> memory c \<noteq> None \<and> (\<forall>N. can_alloc c N)"
    using "1.prems"(1) by (auto simp: growable_def split: if_splits)
  from update_ok[OF c, of k v enc] "1.prems"(2) obtain c' where u: "update enc (Units k) (Units v) 1 c = Ok c'" "kv_wf c'" by auto
  from "1.IH" "1.prems" update_derived[OF u(1) c(2)] u show ?case by fastforce
qed simp_all

lemma append_full:
  assumes "cs \<noteq> []" "rows \<noteq> []" "current_pos (hd cs) = M" "max_seq_len (hd cs) = M" "kv_wf (hd cs)"
  shows "append_rows enc rows cs = Err KvOverflow"
  using assms by (cases rows; cases cs) (auto simp: update_def kv_wf_def split: prod.split)

section \<open>The driver as an evicting stage\<close>

lemma standard_driver_fields:
  "md_phase (standard_driver stage MutateKv caps ratio) = MutateKv" "md_min_band (standard_driver stage MutateKv caps ratio) = Some Warning"
  "md_stage (standard_driver stage MutateKv caps ratio) = stage" "budget_for (standard_driver stage MutateKv caps ratio) p = max (ratio p) 1"
  by (simp_all add: standard_driver_def with_caps_def with_pressure_gate_def mutation_driver_new_def budget_for_def)

lemma layers_armed [simp]: "layers_ok M (w\<lparr>kw_armed := b\<rparr>) = layers_ok M w" "kv_pos (w\<lparr>kw_armed := b\<rparr>) = kv_pos w"
  by (simp_all add: layers_ok_def kv_pos_def)

interpretation fill: evicting_stage "driver_stage en (standard_driver (sliding_on_phase win keep) MutateKv caps ratio)" "layers_ok M" kv_pos kw_armed M
  for en win caps ratio M
  by unfold_locales (auto simp: driver_stage_def driver_on_phase_def lifecycle_of_def standard_driver_fields)

text \<open>
  What the settings have to satisfy: from the mark on there are at least 64 tokens to evict, and what the window keeps
  is below the mark by more than the loop can add before it looks at the pressure again.
\<close>

definition evicts_enough :: "nat \<Rightarrow> sliding_window \<Rightarrow> (nat \<Rightarrow> nat) \<Rightarrow> bool" where
  "evicts_enough M win ratio \<longleftrightarrow> (\<forall>p. high_water M \<le> p \<and> p \<le> M \<longrightarrow>
     max (ratio p) 1 + MIN_EVICT_TOKENS \<le> p \<and> sliding_budget win (max (ratio p) 1) + PRESSURE_QUERY_INTERVAL \<le> high_water M)"

lemma evicts_enough_room: "evicts_enough M win ratio \<Longrightarrow> high_water M + 6 \<le> M"
  using high_water_le[of M]
  by (auto simp: evicts_enough_def MIN_EVICT_TOKENS_def dest!: spec[of _ "high_water M"]) (simp add: high_water_def KV_FILL_HIGH_WATER_PCT_def)

lemma worth_it_at:
  assumes "layers_ok M w"
  shows "worth_it (standard_driver stage MutateKv caps ratio) w \<longleftrightarrow> max (ratio (kv_pos w)) 1 + MIN_EVICT_TOKENS \<le> kv_pos w"
proof -
  have "\<forall>c \<in> set (kw_caches w). current_pos c = kv_pos w" "kw_caches w \<noteq> []" using assms by (auto simp: layers_ok_def)
  then have "max_list (map current_pos (kw_caches w)) = kv_pos w"
    by (intro antisym max_list_le max_list_ge) (auto simp: image_iff neq_Nil_conv)
  then show ?thesis by (auto simp: worth_it_def standard_driver_fields Let_def MIN_EVICT_TOKENS_def)
qed

lemma slide_fires:
  fixes en :: "('u, 'w, 'g) engine"
  assumes os: "0 < page_size (en_os en)" and set: "evicts_enough M win ratio" and win: "0 < sw_protected_prefix win"
  shows "fires (driver_stage en (standard_driver (sliding_on_phase win keep) MutateKv caps ratio)) (layers_ok M) kv_pos kw_armed M"
  unfolding fires_def
proof (intro allI impI)
  fix w :: "('u, 'g) kv_world" and ctx :: step_info
  let ?drv = "standard_driver (sliding_on_phase win keep) MutateKv caps ratio :: ('u, 'w) mutation_driver"
  assume a: "layers_ok M w \<and> Warning \<le> band (si_pressure ctx) \<and> kw_armed w \<and> high_water M \<le> kv_pos w \<and> kv_pos w \<le> M"
  define k where "k = sliding_budget win (max (ratio (kv_pos w)) 1)"
  have k: "0 < k" "k + 8 \<le> high_water M" "worth_it ?drv w" "k < kv_pos w" using a set win
    by (auto simp: k_def worth_it_at evicts_enough_def sliding_budget_def PRESSURE_QUERY_INTERVAL_def)
  have ne: "kw_caches w \<noteq> []" and l: "\<forall>c \<in> set (kw_caches w). kv_wf c \<and> \<not> is_ragged c \<and> 0 < current_pos c"
    using a by (auto simp: layers_ok_def is_ragged_def)
  from slide_fire[OF l os ne, of ?drv win] obtain cs b where f: "fire en ?drv w = Ok (reset_scores en (w\<lparr>kw_caches := cs, kw_mutation_fired := b\<rparr>))"
    "list_all2 (\<lambda>c c'. slid ?drv win c c' \<and> derived c c') (kw_caches w) cs" by (auto simp: standard_driver_fields)
  have cs: "\<forall>c \<in> set cs. kv_wf c \<and> head_starts_raw c = [] \<and> growable M c \<and> current_pos c = k"
  proof
    fix c'
    assume "c' \<in> set cs"
    then obtain c where "c \<in> set (kw_caches w)" "slid ?drv win c c'" "derived c c'"
      using related_from[OF f(2)] by blast
    then show "kv_wf c' \<and> head_starts_raw c' = [] \<and> growable M c' \<and> current_pos c' = k"
      using a k(4) derived_growable[of c c' M] by (auto simp: layers_ok_def slid_def Let_def standard_driver_fields k_def derived_def)
  qed
  let ?w = "(reset_scores en (w\<lparr>kw_caches := cs, kw_mutation_fired := b\<rparr>))\<lparr>kw_armed := False\<rparr>"
  have "cs \<noteq> []" using f(2) ne by auto
  with cs k(1) have "kv_pos ?w = k" "layers_ok M ?w" by (auto simp: kv_pos_def layers_ok_def reset_scores_def split: list.split)
  moreover have "ps_on_phase (driver_stage en ?drv) KvMutate ctx w = Ok (Continue, ?w)"
    using a k(3) f(1) by (simp add: driver_stage_def gated_step[OF standard_driver_fields(1,2)] attempt_def not_less[symmetric] leD)
  ultimately show "\<exists>w'. ps_on_phase (driver_stage en ?drv) KvMutate ctx w = Ok (Continue, w') \<and> layers_ok M w'
    \<and> kv_pos w' + 8 \<le> high_water M \<and> \<not> kw_armed w'" using k(2) by (intro exI[of _ ?w]) simp
qed

lemma slide_refuses:
  fixes en :: "('u, 'w, 'g) engine"
  assumes "\<forall>p. high_water M \<le> p \<and> p < high_water M + PRESSURE_QUERY_INTERVAL \<longrightarrow> p < max (ratio p) 1 + MIN_EVICT_TOKENS"
  shows "refuses (driver_stage en (standard_driver (sliding_on_phase win keep) MutateKv caps ratio)) (layers_ok M) kv_pos kw_armed M"
  unfolding refuses_def
proof (intro allI impI)
  fix w :: "('u, 'g) kv_world" and ctx :: step_info
  let ?drv = "standard_driver (sliding_on_phase win keep) MutateKv caps ratio :: ('u, 'w) mutation_driver"
  assume a: "layers_ok M w \<and> Warning \<le> band (si_pressure ctx) \<and> kw_armed w \<and> high_water M \<le> kv_pos w \<and> kv_pos w < high_water M + 8"
  then have "\<not> worth_it ?drv w" using assms[rule_format, of "kv_pos w"] worth_it_at[of M w "sliding_on_phase win keep" caps ratio]
    by (simp add: not_le PRESSURE_QUERY_INTERVAL_def)
  with a show "\<exists>w'. ps_on_phase (driver_stage en ?drv) KvMutate ctx w = Ok (Continue, w') \<and> layers_ok M w' \<and> kv_pos w' = kv_pos w \<and> \<not> kw_armed w'"
    by (simp add: driver_stage_def gated_step[OF standard_driver_fields(1,2)] attempt_def not_less)
qed

lemma forward_appends:
  assumes "e_step env = kv_forward enc rows logits" "rows_fit rows"
  shows "appends_row (layers_ok M) kv_pos kw_armed M env"
  unfolding appends_row_def assms(1)
proof (intro allI impI)
  fix x t and w :: "('a, 'b) kv_world"
  assume a: "layers_ok M w \<and> kv_pos w < M"
  then have "\<forall>c \<in> set (kw_caches w). kv_wf c \<and> growable M c \<and> current_pos c < M" by (auto simp: layers_ok_def)
  from append_rows_ok[OF this] assms(2) obtain cs where cs: "append_rows enc (rows x t w) (kw_caches w) = Ok cs"
    "list_all2 (\<lambda>c c'. kv_wf c' \<and> derived c c' \<and> current_pos c' = Suc (current_pos c)) (kw_caches w) cs" unfolding rows_fit_def by blast
  have "\<forall>c \<in> set cs. kv_wf c \<and> head_starts_raw c = [] \<and> growable M c \<and> current_pos c = Suc (kv_pos w)"
  proof
    fix c'
    assume "c' \<in> set cs"
    then obtain c where "c \<in> set (kw_caches w)" "kv_wf c'" "derived c c'" "current_pos c' = Suc (current_pos c)"
      using related_from[OF cs(2)] by blast
    then show "kv_wf c' \<and> head_starts_raw c' = [] \<and> growable M c' \<and> current_pos c' = Suc (kv_pos w)"
      using a derived_growable[of c c' M] by (auto simp: layers_ok_def derived_def)
  qed
  moreover have "cs \<noteq> []" using cs(2) a by (auto simp: layers_ok_def)
  ultimately have "layers_ok M (w\<lparr>kw_caches := cs\<rparr>)" "kv_pos (w\<lparr>kw_caches := cs\<rparr>) = Suc (kv_pos w)"
    by (auto simp: layers_ok_def kv_pos_def split: list.split)
  then show "\<exists>l w'. kv_forward enc rows logits x t w = Ok (l, w') \<and> layers_ok M w' \<and> kv_pos w' = Suc (kv_pos w) \<and> kw_armed w' = kw_armed w"
    using cs(1) by (simp add: kv_forward_def Let_def)
qed

lemma forward_full:
  assumes "e_step env = kv_forward enc rows logits" "rows_fit rows" "layers_ok M w" "kv_pos w = M"
  shows "e_step env x t w = Err ''KV Cache overflow''"
proof -
  obtain c cs where c: "kw_caches w = c # cs" "kv_wf c" "max_seq_len c = M" "current_pos c = M"
    using assms(3,4) by (cases "kw_caches w") (auto simp: layers_ok_def growable_def kv_pos_def)
  moreover have "length (rows x t w) = length (kw_caches w)" using assms(2) unfolding rows_fit_def by (blast intro: list_all2_lengthD)
  then have "rows x t w \<noteq> []" using c(1) by auto
  ultimately have "append_rows enc (rows x t w) (kw_caches w) = Err KvOverflow" by (intro append_full[of _ _ M]) auto
  then show ?thesis by (simp add: assms(1) kv_forward_def)
qed

section \<open>Bounded decoding\<close>

text \<open>The other components leave the layers and the cell of the driver alone.\<close>

definition same_layers :: "('u, 'g) kv_world \<Rightarrow> ('u, 'g) kv_world \<Rightarrow> bool" where
  "same_layers w w' \<longleftrightarrow> kw_caches w' = kw_caches w \<and> kw_armed w' = kw_armed w"

lemma quiet_fill_env:
  assumes "quiet_env same_layers env" "e_pressure env = Some (\<lambda>w. (session_pressure M (kv_pos w), w))"
  shows "fill_env (layers_ok M) kv_pos kw_armed M env"
proof -
  have "same_layers w w' \<Longrightarrow> keeps (layers_ok M) kv_pos kw_armed w w'" for w w' :: "('a, 'b) kv_world"
    by (auto simp: same_layers_def keeps_def layers_ok_def kv_pos_def)
  then show ?thesis using assms unfolding fill_env_def quiet_env_def by blast
qed

text \<open>
  C3: A single prompt decodes for ever in a fixed cache, if the settings evict enough: from the mark of 85 percent on there are always 64 tokens
  above the budget, and what the window keeps is at least eight tokens below the mark (\<open>evicts_enough\<close>; the pressure is sampled every eighth step,
  and the driver fires again only after a sample below the mark). For a loop whose only stage is the sliding window behind the KV-fill pressure, with no
  command dispatcher, over uniform layers that can hold the maximal length: whatever the rows and the sampled tokens are, and from
  any full or partly full cache, a decode run of any length ends only through its budget or the stop flag, so no update overflows, and every
  layer stays well-formed, uniform and within the maximal length.
\<close>

theorem kv_fill_bounds_cache:
  assumes "quiet_env same_layers env" "e_pressure env = Some (\<lambda>w. (session_pressure M (kv_pos w), w))"
    and "e_step env = kv_forward enc rows logits" "rows_fit rows" "0 < page_size (en_os en)"
    and "evicts_enough M (SlidingWindow_new window protected) ratio"
    and "d_pipeline d = submit (driver_stage en (standard_driver (sliding_on_phase (SlidingWindow_new window protected) keep) MutateKv caps ratio)) registry_new"
    and "layers_ok M (d_world d)" "kv_pos (d_world d) \<le> M" "kw_armed (d_world d)" "d_decode_step d = 0"
  shows "\<exists>res d'. run_steps env budget t d = Ok (res, d') \<and> stopped_by res \<in> {BudgetExhaustedStop, StopFlag}
    \<and> layers_ok M (d_world d') \<and> kv_pos (d_world d') \<le> M"
proof -
  have w: "0 < sw_protected_prefix (SlidingWindow_new window protected)" by (simp add: SlidingWindow_new_def)
  show ?thesis
    by (rule fill.bounded_run[OF quiet_fill_env[OF assms(1,2)] evicts_enough_room[OF assms(6)] slide_fires[OF assms(5,6) w]
          forward_appends[OF assms(3,4)] assms(7-11)])
qed

text \<open>
  C38: The guard of 64 tokens defeats the mark. Suppose that there are fewer than 64 tokens to evict at the positions between the mark
  and the next sample of the pressure; further on there may be enough. In the same loop, started below the mark, the first attempt then disarms the driver
  without evicting, and since the pressure does not fall it is never armed again. A run within the room of the cache evicts nothing:
  it leaves every layer longer by as many rows as tokens were generated, and the driver disarmed once the first sample
  after the mark is past. A longer run ends with an overflow, however much could have been evicted before.
\<close>

theorem small_window_overflows:
  assumes "quiet_env same_layers env" "e_pressure env = Some (\<lambda>w. (session_pressure M (kv_pos w), w))"
    and "e_step env = kv_forward enc rows logits" "rows_fit rows" "\<And>w. \<not> fst (e_load_stop env w)"
    and "\<forall>p. high_water M \<le> p \<and> p < high_water M + PRESSURE_QUERY_INTERVAL \<longrightarrow> p < max (ratio p) 1 + MIN_EVICT_TOKENS"
    and "d_pipeline d = submit (driver_stage en (standard_driver (sliding_on_phase win keep) MutateKv caps ratio)) registry_new"
    and "layers_ok M (d_world d)" "kv_pos (d_world d) \<le> high_water M" "d_decode_step d = 0"
  shows "if M - kv_pos (d_world d) < budget then run_steps env budget t d = Err ''KV Cache overflow''
    else \<exists>res d'. run_steps env budget t d = Ok (res, d') \<and> stopped_by res = BudgetExhaustedStop
      \<and> layers_ok M (d_world d') \<and> kv_pos (d_world d') = kv_pos (d_world d) + budget
      \<and> (high_water M + PRESSURE_QUERY_INTERVAL \<le> kv_pos (d_world d') \<longrightarrow> \<not> kw_armed (d_world d'))"
proof -
  have p: "kv_pos (d_world d) \<le> M" "kv_pos (d_world d) < high_water M + 8" using assms(9) high_water_le[of M] by linarith+
  have M: "0 < M" using assms(8) p(1) by (cases "kw_caches (d_world d)") (auto simp: layers_ok_def kv_pos_def)
  show ?thesis
    using fill.overflow_run[where e = "''KV Cache overflow''", OF quiet_fill_env[OF assms(1,2)] slide_refuses[OF assms(6)] forward_appends[OF assms(3,4)] assms(5)
        forward_full[where M = M, OF assms(3,4)] M assms(7,8) p assms(10), where budget = budget and t = t]
    by (auto simp: PRESSURE_QUERY_INTERVAL_def split: if_splits)
qed

text \<open>A session of one layer of one head, filled up to some row, whose model appends zeros.\<close>

definition demo_filled :: "nat \<Rightarrow> nat \<Rightarrow> (nat, unit) kv_world" where
  "demo_filled M n = \<lparr>kw_caches = [\<lparr>k_buffer = replicate M 0, v_buffer = replicate M 0, kv_dtype = D_F32, opaque = None, host_managed = True,
     current_pos = n, high_water_pos = n, max_seq_len = M, capacity = M, kv_heads = 1, head_dim = 1, layout = HeadMajor,
     head_starts_raw = [], head_start_dirty = False, memory = None\<rparr>], kw_armed = True, kw_scores = None, kw_mutation_fired = False\<rparr>"

definition demo_rows :: "step_ctx \<Rightarrow> token \<Rightarrow> (nat, unit) kv_world \<Rightarrow> (nat list \<times> nat list) list" where
  "demo_rows x t w = map (\<lambda>c. (replicate (kv_heads c * row c) 0, replicate (kv_heads c * row c) 0)) (kw_caches w)"

definition demo_fill_env :: "nat \<Rightarrow> ((nat, unit) kv_world, unit, unit) loop_env" where
  "demo_fill_env M = \<lparr>e_load_stop = (\<lambda>w. (False, w)), e_pressure = Some (\<lambda>w. (session_pressure M (kv_pos w), w)), e_poll = (\<lambda>w. Ok ([], w)),
     e_dispatcher = None, e_report_results = (\<lambda>n w. w), e_occupancy = Some kv_pos, e_on_kv_prune = (\<lambda>n w. w), e_on_renumber = (\<lambda>p n w. w),
     e_on_kv_reencode = (\<lambda>w. w), e_take_reencode_fired = None, e_reencode_armed = False, e_kv_capacity = M,
     e_prefill = (\<lambda>ts p w. Ok ((), w)), e_step = kv_forward (\<lambda>_ _ xs. xs) demo_rows (\<lambda>w. ()), e_sample = (\<lambda>x l w. (7, w)),
     e_observe_token = (\<lambda>t w. w), e_finalize = (\<lambda>w. Ok w)\<rparr>"

definition demo_fill_loop :: "nat \<Rightarrow> nat \<Rightarrow> (nat \<Rightarrow> nat) \<Rightarrow> (nat, unit) kv_world decode_loop" where
  "demo_fill_loop M n ratio = decode_loop_new (submit (driver_stage demo_engine
     (standard_driver (sliding_on_phase (SlidingWindow_new 128 0) keep) MutateKv SCORE_FREE ratio)) registry_new) (demo_filled M n)"

lemma demo_fill_ok:
  "quiet_env same_layers (demo_fill_env M)" "e_pressure (demo_fill_env M) = Some (\<lambda>w. (session_pressure M (kv_pos w), w))"
  "e_step (demo_fill_env M) = kv_forward (\<lambda>_ _ xs. xs) demo_rows (\<lambda>w. ())" "rows_fit demo_rows" "\<not> fst (e_load_stop (demo_fill_env M) w)"
  by (simp_all add: quiet_env_def same_layers_def demo_fill_env_def rows_fit_def demo_rows_def list_all2_map1 list_all2_same)

lemma demo_filled_ok: "0 < n \<Longrightarrow> n \<le> M \<Longrightarrow> layers_ok M (demo_filled M n)" "kv_pos (demo_filled M n) = n" "kw_armed (demo_filled M n)"
  by (simp_all add: layers_ok_def demo_filled_def kv_pos_def kv_wf_def format_ok_def bufs_ok_def row_def is_q4_def growable_def is_opaque_def)

lemma demo_fill_loop_fields: "d_world (demo_fill_loop M n ratio) = demo_filled M n" "d_decode_step (demo_fill_loop M n ratio) = 0"
  "d_pipeline (demo_fill_loop M n ratio) = submit (driver_stage demo_engine
     (standard_driver (sliding_on_phase (SlidingWindow_new 128 0) keep) MutateKv SCORE_FREE ratio)) registry_new"
  by (simp_all add: demo_fill_loop_def decode_loop_new_def)

theorem kv_fill_bounds_cache_witness:
  "\<exists>res d'. run_steps (demo_fill_env 512) 1000000 7 (demo_fill_loop 512 512 (\<lambda>p. p * 3 div 4)) = Ok (res, d')
    \<and> stopped_by res \<in> {BudgetExhaustedStop, StopFlag} \<and> layers_ok 512 (d_world d') \<and> kv_pos (d_world d') \<le> 512"
proof -
  have e: "evicts_enough 512 (SlidingWindow_new 128 0) (\<lambda>p. p * 3 div 4)"
    by (auto simp: evicts_enough_def high_water_def KV_FILL_HIGH_WATER_PCT_def MIN_EVICT_TOKENS_def PRESSURE_QUERY_INTERVAL_def sliding_budget_def SlidingWindow_new_def)
  have p: "0 < page_size (en_os demo_engine)" by (simp add: demo_engine_def demo_os_def)
  show ?thesis
    by (rule kv_fill_bounds_cache[OF demo_fill_ok(1-4) p e demo_fill_loop_fields(3)]) (simp_all add: demo_fill_loop_fields demo_filled_ok)
qed

text \<open>
  Of four hundred rows the mark is at 340, where a ratio of 83 percent leaves 58 tokens to evict. At 380 there are 65, the guard
  accepts and the driver would evict, but it is disarmed by then; the run overflows.
\<close>

theorem small_window_overflows_witness:
  "worth_it (standard_driver (sliding_on_phase (SlidingWindow_new 128 0) keep) MutateKv SCORE_FREE (\<lambda>p. p * 83 div 100)) (demo_filled 400 380)
    \<and> run_steps (demo_fill_env 400) 101 7 (demo_fill_loop 400 300 (\<lambda>p. p * 83 div 100)) = Err ''KV Cache overflow''
    \<and> (\<exists>res d'. run_steps (demo_fill_env 400) 80 7 (demo_fill_loop 400 300 (\<lambda>p. p * 83 div 100)) = Ok (res, d')
        \<and> kv_pos (d_world d') = 380 \<and> \<not> kw_armed (d_world d'))"
proof -
  have r: "\<forall>p. high_water 400 \<le> p \<and> p < high_water 400 + PRESSURE_QUERY_INTERVAL \<longrightarrow> p < max (p * 83 div 100) 1 + MIN_EVICT_TOKENS"
    by (auto simp: high_water_def KV_FILL_HIGH_WATER_PCT_def MIN_EVICT_TOKENS_def PRESSURE_QUERY_INTERVAL_def)
  have g: "\<not> fst (e_load_stop (demo_fill_env 400) w)" for w by (rule demo_fill_ok(5))
  have k: "layers_ok 400 (d_world (demo_fill_loop 400 300 (\<lambda>p. p * 83 div 100)))"
    "kv_pos (d_world (demo_fill_loop 400 300 (\<lambda>p. p * 83 div 100))) \<le> high_water 400" "d_decode_step (demo_fill_loop 400 300 (\<lambda>p. p * 83 div 100)) = 0"
    by (simp_all add: demo_fill_loop_fields demo_filled_ok high_water_def KV_FILL_HIGH_WATER_PCT_def)
  note w = small_window_overflows[OF demo_fill_ok(1-4) g r demo_fill_loop_fields(3) k, where t = 7]
  show ?thesis using w[of 101] w[of 80]
    by (auto simp: demo_fill_loop_fields demo_filled_ok high_water_def KV_FILL_HIGH_WATER_PCT_def PRESSURE_QUERY_INTERVAL_def
        worth_it_at[OF demo_filled_ok(1)] MIN_EVICT_TOKENS_def)
qed

end
