(* ===== verification/Kv_Life.thy ===== *)
theory Kv_Life
  imports Handle_Props
begin

text \<open>
  The life of a cache: the calls the engine makes on one, in any order, as a step relation. A call is typed when its
  arguments have the shape the cache asks for; nothing is assumed of the number of tokens, of the allocator or of the
  file system. The theory is the type system of the cache: its invariant is kept by every typed call and a typed call never goes wrong.
\<close>

section \<open>Calls\<close>

datatype ('u, 'w) kv_call =
    CallUpdate "'u list" "'u list" nat
  | CallEnsure nat
  | CallShrink
  | CallRelease
  | CallPrune nat
  | CallRewind nat
  | CallClear
  | CallTransact bool nat nat "'w cache_op list"

type_synonym 'u kv_state = "'u kvcache \<times> 'u swap option"

text \<open>What the calls need from outside: the block encoder, the float arithmetic, the pages and the file system.\<close>

record ('f, 'u, 'w) cache_env =
  ce_enc :: "('f, 'u) enc_block"
  ce_numerics :: "('u, 'w) numerics"
  ce_os :: "'u kv_os"
  ce_fs :: fs_env

definition open_handle :: "bool \<Rightarrow> nat \<Rightarrow> nat \<Rightarrow> 'u kv_state \<Rightarrow> ('u, 'w) cache_handle" where
  "open_handle dev l n = (\<lambda>(c, sw). case sw of None \<Rightarrow> handle_new c dev l n | Some s \<Rightarrow> handle_with_swap c dev l n s)"

fun exec :: "('f, 'u, 'w) cache_env \<Rightarrow> ('u, 'w) kv_call \<Rightarrow> 'u kv_state \<Rightarrow> (commit_error, 'u kv_state) result" where
  "exec W (CallUpdate nk nv S) (c, sw) = and_then (map_err CommitKv (update (ce_enc W) (Units nk) (Units nv) S c)) (\<lambda>c'. Ok (c', sw))"
| "exec W (CallEnsure n) (c, sw) = and_then (map_err CommitKv (ensure_capacity n c)) (\<lambda>(_, c'). Ok (c', sw))"
| "exec W CallShrink (c, sw) = and_then (map_err CommitKv (shrink_to_fit c)) (\<lambda>(_, c'). Ok (c', sw))"
| "exec W CallRelease (c, sw) = and_then (map_err CommitKv (release_unused_pages (ce_os W) c)) (\<lambda>(_, c'). Ok (c', sw))"
| "exec W (CallPrune n) (c, sw) = and_then (map_err CommitKv (prune_prefix (ce_os W) n c)) (\<lambda>c'. Ok (c', sw))"
| "exec W (CallRewind n) (c, sw) = Ok (set_current_pos n c, sw)"
| "exec W CallClear (c, sw) = Ok (clear_head_starts c, sw)"
| "exec W (CallTransact dev l n ops) (c, sw) =
     and_then (commit (ce_numerics W) (ce_os W) (ce_fs W) (run_ops ops (open_handle dev l n (c, sw)))) (\<lambda>(_, c', sw'). Ok (c', sw'))"

text \<open>
  The typing of a call, and of a state. A recall is left to the swap handler, where its preconditions are; an update of an opaque cache to the
  block encoder; and merges need a format that can be written.
\<close>

fun typed :: "('u, 'w) kv_call \<Rightarrow> 'u kv_state \<Rightarrow> bool" where
  "typed (CallUpdate nk nv S) (c, sw) \<longleftrightarrow> \<not> is_opaque c \<and> length nk = S * kv_heads c * row c \<and> length nv = S * kv_heads c * row c"
| "typed (CallRewind n) (c, sw) \<longleftrightarrow> n \<le> high_water_pos c"
| "typed (CallTransact dev l n ops) (c, sw) \<longleftrightarrow> OpRecall \<notin> set ops \<and> (writable (opaque c) \<or> (\<forall>ms. OpMerge ms \<notin> set ops))"
| "typed _ _ \<longleftrightarrow> True"

definition state_ok :: "'u kv_state \<Rightarrow> bool" where
  "state_ok = (\<lambda>(c, sw). kv_wf c \<and> (\<forall>s. sw = Some s \<longrightarrow> swap_wf s))"

definition env_ok :: "('f, 'u, 'w) cache_env \<Rightarrow> bool" where
  "env_ok W \<longleftrightarrow> numerics_ok (ce_numerics W) \<and> 0 < page_size (ce_os W)"

text \<open>A call that is refused leaves the cache as it was.\<close>

inductive kv_step :: "('f, 'u, 'w) cache_env \<Rightarrow> 'u kv_state \<Rightarrow> 'u kv_state \<Rightarrow> bool" for W :: "('f, 'u, 'w) cache_env" where
  served: "typed call s \<Longrightarrow> exec W call s = Ok s' \<Longrightarrow> kv_step W s s'"
| refused: "typed call s \<Longrightarrow> exec W call s = Err e \<Longrightarrow> kv_step W s s"

inductive_cases kv_stepE: "kv_step W s s'"

section \<open>No call goes wrong\<close>

lemma grow_total:
  assumes wf: "kv_wf c" and n: "capacity c < n" "n \<le> max_seq_len c"
  shows "(\<exists>e. grow n c = Err e) \<or> (\<exists>c'. grow n c = Ok c' \<and> kv_wf c' \<and> n \<le> capacity c' \<and> (is_opaque c' \<longleftrightarrow> is_opaque c)
    \<and> current_pos c' = current_pos c \<and> kv_heads c' = kv_heads c \<and> row c' = row c)"
proof (cases "memory c")
  case None
  then show ?thesis by (simp add: grow_def)
next
  case (Some m)
  define N where "N = min (max (capacity c * 2) n) (max_seq_len c)"
  have w: "current_pos c \<le> high_water_pos c" "high_water_pos c \<le> capacity c" "format_ok c" using wf by (auto simp: kv_wf_def)
  then have N: "n \<le> N" "N \<le> max_seq_len c" "current_pos c \<le> N" "high_water_pos c \<le> N" using n by (auto simp: N_def)
  from buf_size_units[OF w(3), of N] obtain sz where sz: "grow_buf_size c (N * kv_heads c * head_dim c) = Ok sz" by blast
  show ?thesis
  proof (cases "can_alloc c N")
    case True
    from alloc_and_copy[OF wf Some N(3) True] obtain nk nk' nv' where
      g: "alloc_kv m sz (kv_dtype c) = Ok nk" "copy_resident c N (nk, nk) = Ok (nk', nv')"
        "realloc_ok N c (c\<lparr>k_buffer := nk', v_buffer := nv', capacity := N\<rparr>)" using sz by (metis result.inject(1))
    then have "grow n c = Ok (c\<lparr>k_buffer := nk', v_buffer := nv', capacity := N\<rparr>)"
      using Some sz by (simp add: grow_def N_def[symmetric] Let_def)
    with realloc_wf[OF wf g(3) N(4,2)] N(1) show ?thesis by auto
  next
    case False
    then have "alloc_kv m sz (kv_dtype c) = Err AllocFailed" using Some sz by (auto simp: can_alloc_def alloc_kv_def)
    then show ?thesis using Some sz by (simp add: grow_def N_def[symmetric] Let_def)
  qed
qed

lemma update_total:
  assumes wf: "kv_wf c" and o: "\<not> is_opaque c" and n: "length nk = S * kv_heads c * row c" "length nv = S * kv_heads c * row c"
  shows "(\<exists>e. update enc (Units nk) (Units nv) S c = Err e) \<or> (\<exists>c'. update enc (Units nk) (Units nv) S c = Ok c' \<and> kv_wf c')"
proof (cases "current_pos c + S \<le> capacity c")
  case True
  moreover from True wf have "current_pos c + S \<le> max_seq_len c" by (simp add: kv_wf_def)
  ultimately show ?thesis using update_ok[OF wf o _ _ n] by blast
next
  case False
  show ?thesis
  proof (cases "current_pos c + S \<le> max_seq_len c")
    case True
    from grow_total[OF wf _ True] False consider e where "grow (current_pos c + S) c = Err e"
      | g where "grow (current_pos c + S) c = Ok g" "kv_wf g" "current_pos c + S \<le> capacity g" "\<not> is_opaque g"
        "current_pos g = current_pos c" "kv_heads g = kv_heads c" "row g = row c" using o by auto
    then show ?thesis
    proof cases
      case 2
      then have "update enc (Units nk) (Units nv) S c = update enc (Units nk) (Units nv) S g" using False True by (simp add: update_def)
      moreover have "current_pos g + S \<le> max_seq_len g" using 2 by (simp add: kv_wf_def)
      ultimately show ?thesis using update_ok[OF 2(2,4), of S nk nv enc] 2 n by auto
    qed (use False True in \<open>simp add: update_def\<close>)
  qed (use False in \<open>simp add: update_def\<close>)
qed

lemma ensure_total:
  assumes "kv_wf c"
  shows "(\<exists>e. ensure_capacity n c = Err e) \<or> (\<exists>b c'. ensure_capacity n c = Ok (b, c') \<and> kv_wf c')"
proof (cases "capacity c < n \<and> n \<le> max_seq_len c")
  case True
  with grow_total[OF assms, of n] show ?thesis by (auto simp: ensure_capacity_def)
qed (use assms in \<open>auto simp: ensure_capacity_def\<close>)

lemma shrink_total:
  assumes wf: "kv_wf c"
  shows "(\<exists>e. shrink_to_fit c = Err e) \<or> (\<exists>n c'. shrink_to_fit c = Ok (n, c') \<and> kv_wf c')"
proof (cases "can_alloc c (shrink_target (current_pos c))")
  case True
  then show ?thesis using shrink_ok[OF wf] by blast
next
  case False
  then obtain m sz where m: "memory c = Some m" "grow_buf_size c (shrink_target (current_pos c) * kv_heads c * head_dim c) = Ok sz" "m sz (kv_dtype c) = None"
    by (auto simp: can_alloc_def)
  have f: "format_ok c" using wf by (simp add: kv_wf_def)
  from buf_size_units[OF f, of "capacity c"] obtain osz where "grow_buf_size c (capacity c * kv_heads c * head_dim c) = Ok osz" by blast
  moreover have "(if is_opaque c then D_U8 else kv_dtype c) = kv_dtype c" using f by (auto simp: format_ok_def is_opaque_def)
  ultimately show ?thesis using m wf by (auto simp: shrink_to_fit_def Let_def alloc_kv_def)
qed

lemma prune_total:
  assumes "kv_wf c" "0 < page_size os"
  shows "(\<exists>e. prune_prefix os n c = Err e) \<or> (\<exists>c'. prune_prefix os n c = Ok c' \<and> kv_wf c')"
proof (cases "n \<le> current_pos c")
  case True
  then show ?thesis using prune_prefix_ok[OF assms] by blast
qed (simp add: prune_prefix_def)

text \<open>Rewinding to a position that was written: the rows in between count again, whatever the head starts were.\<close>

lemma rewind_wf: "kv_wf c \<Longrightarrow> n \<le> high_water_pos c \<Longrightarrow> kv_wf (set_current_pos n c)"
  by (auto simp: set_current_pos_def kv_wf_def format_ok_def bufs_ok_def row_def is_q4_def is_opaque_def list_all_iff
      cong: option.case_cong)

lemma clear_wf: "kv_wf c \<Longrightarrow> kv_wf (clear_head_starts c)"
  by (auto simp: clear_head_starts_def kv_wf_def format_ok_def bufs_ok_def row_def is_q4_def is_opaque_def cong: option.case_cong)

lemma transact_total:
  assumes "kv_wf c" "\<forall>s. sw = Some s \<longrightarrow> swap_wf s" "env_ok W" "OpRecall \<notin> set ops" "writable (opaque c) \<or> (\<forall>ms. OpMerge ms \<notin> set ops)"
  shows "\<exists>m c' sw'. commit (ce_numerics W) (ce_os W) (ce_fs W) (run_ops ops (open_handle dev l n (c, sw))) = Ok (m, c', sw')
    \<and> kv_wf c' \<and> (\<forall>s. sw' = Some s \<longrightarrow> swap_wf s)"
proof -
  let ?h = "open_handle dev l n (c, sw)"
  have "handle_ok c sw ?h" using handle_new_ok by (auto simp: open_handle_def split: option.split)
  moreover have "merges (run_ops ops ?h) = None \<or> writable (opaque c)"
    using assms(5) run_ops_merges[of ops ?h] by (auto simp: open_handle_def handle_new_def handle_with_swap_def split: option.split)
  moreover have "slot ?h \<noteq> Some CRecall" by (simp add: open_handle_def handle_new_def handle_with_swap_def split: option.split)
  ultimately show ?thesis using assms by (intro commit_ok[OF assms(1)] run_ops_ok run_ops_recall) (auto simp: env_ok_def)
qed

text \<open>Progress and preservation of one call.\<close>

lemma exec_total:
  assumes "state_ok s" "env_ok W" "typed call s"
  shows "(\<exists>e. exec W call s = Err e) \<or> (\<exists>s'. exec W call s = Ok s' \<and> state_ok s')"
proof -
  obtain c sw where s: "s = (c, sw)" "kv_wf c" "\<forall>x. sw = Some x \<longrightarrow> swap_wf x" using assms(1) by (cases s) (auto simp: state_ok_def)
  have os: "0 < page_size (ce_os W)" using assms(2) by (simp add: env_ok_def)
  show ?thesis
  proof (cases call)
    case (CallUpdate nk nv S)
    then show ?thesis using update_total[OF s(2), of nk S nv "ce_enc W"] assms(3) s by (auto simp: state_ok_def)
  next
    case (CallEnsure n)
    then show ?thesis using ensure_total[OF s(2), of n] s by (auto simp: state_ok_def)
  next
    case CallShrink
    then show ?thesis using shrink_total[OF s(2)] s by (auto simp: state_ok_def)
  next
    case CallRelease
    then show ?thesis using release_unused_pages_ok[OF s(2) os] s by (auto simp: state_ok_def)
  next
    case (CallPrune n)
    then show ?thesis using prune_total[OF s(2) os, of n] s by (auto simp: state_ok_def)
  next
    case (CallTransact dev l n ops)
    then show ?thesis using transact_total[OF s(2,3) assms(2), of ops dev l n] assms(3) s by (auto simp: state_ok_def)
  qed (use s assms(3) rewind_wf clear_wf in \<open>auto simp: state_ok_def\<close>)
qed

lemma step_preserves: "kv_step W s s' \<Longrightarrow> state_ok s \<Longrightarrow> env_ok W \<Longrightarrow> state_ok s'"
  by (erule kv_stepE) (use exec_total in \<open>fastforce+\<close>)

lemma run_preserves: "(kv_step W)\<^sup>*\<^sup>* s s' \<Longrightarrow> state_ok s \<Longrightarrow> env_ok W \<Longrightarrow> state_ok s'"
  by (induction rule: rtranclp_induct) (auto dest: step_preserves)

section \<open>Type safety\<close>

text \<open>
  C13: Typed calls do not go wrong. The typed calls are updates of any length of a cache in a typed format with rows of its shape, growth, shrinking,
  releases, pruning, rewinding to a written position, and transactions of any technique without recalls, with merges only in formats that can be
  written. Through every sequence of them on a well-formed cache, whatever the allocator and the file system refuse,
  the cache stays well-formed, and in every state it reaches each typed call either succeeds or is refused with an error: none panics.
\<close>

theorem typed_calls_never_panic:
  assumes "state_ok s" "env_ok W" "(kv_step W)\<^sup>*\<^sup>* s s'" "typed call s'"
  shows "state_ok s' \<and> exec W call s' \<noteq> Panic \<and> (\<exists>s''. kv_step W s' s'' \<and> state_ok s'')"
proof -
  have ok: "state_ok s'" by (rule run_preserves[OF assms(3,1,2)])
  from exec_total[OF this assms(2,4)] show ?thesis
  proof
    assume "\<exists>e. exec W call s' = Err e"
    then show ?thesis using ok kv_step.refused[OF assms(4)] by fastforce
  next
    assume "\<exists>s''. exec W call s' = Ok s'' \<and> state_ok s''"
    then show ?thesis using ok kv_step.served[OF assms(4)] by fastforce
  qed
qed

definition demo_cache_env :: "(nat, nat, nat) cache_env" where
  "demo_cache_env = \<lparr>ce_enc = (\<lambda>_ _ xs. xs), ce_numerics = demo_numerics, ce_os = demo_os, ce_fs = demo_env\<rparr>"

theorem typed_calls_never_panic_witness:
  "\<exists>s1 s2. exec demo_cache_env (CallTransact False 0 1 [OpOffload 1]) (demo_cache, Some demo_swap) = Ok s1
    \<and> kv_step demo_cache_env s1 s2 \<and> state_ok s2 \<and> exec demo_cache_env (CallPrune 99) s2 \<noteq> Panic"
proof -
  let ?s = "(demo_cache, Some demo_swap)" and ?call = "CallTransact False 0 1 [OpOffload 1]"
  have s: "state_ok ?s" "env_ok demo_cache_env" "typed ?call ?s"
    using demo_cache_wf demo_ready(1) demo_numerics_ok by (simp_all add: state_ok_def env_ok_def demo_cache_env_def demo_os_def)
  obtain s1 where s1: "exec demo_cache_env ?call ?s = Ok s1"
    using transact_total[of demo_cache "Some demo_swap" demo_cache_env "[OpOffload 1]" False 0 1] s by (auto simp: state_ok_def)
  then have r1: "(kv_step demo_cache_env)\<^sup>*\<^sup>* ?s s1" using s(3) by (blast intro: kv_step.served)
  obtain s2 where s2: "kv_step demo_cache_env s1 s2" "state_ok s2"
    using typed_calls_never_panic[OF s(1,2) r1, of CallShrink] by (cases s1) auto
  from r1 s2(1) have "(kv_step demo_cache_env)\<^sup>*\<^sup>* ?s s2" by simp
  from typed_calls_never_panic[OF s(1,2) this, of "CallPrune 99"] s1 s2 show ?thesis by (cases s2) auto
qed

end
