(* ===== verification/Offload_Store.thy ===== *)
theory Offload_Store
  imports Prelude
begin

text \<open>
  The stores of \<^verbatim>\<open>engine/src/kv/offload\<close>: the interface \<open>OffloadStore\<close> of \<^verbatim>\<open>store.rs\<close> as a record of operations with a
  locale for its contract, \<open>RawStore\<close> of \<^verbatim>\<open>raw_store.rs\<close> and \<open>DiskStore\<close> of \<^verbatim>\<open>disk_store.rs\<close>, and the interpretation of
  the contract on both. A store holds the K and V bytes of one layer, token after token.

  A file of the disk store is its list of bytes. How a write or a read ends is a parameter of each call: a
  failed \<open>write_all\<close> has written a prefix of its data, the rest of the call is not reached.
\<close>

section \<open>The interface\<close>

datatype offload_error = KSizeMismatch | VSizeMismatch | BufferTooSmall | StoreIo | OffloadOverflow | FlushWithoutBuffers

record 's offload_store =
  so_store :: "byte list \<Rightarrow> byte list \<Rightarrow> nat \<Rightarrow> 's \<Rightarrow> (offload_error, unit) result \<times> 's"
  so_load_into :: "'s \<Rightarrow> byte list \<Rightarrow> byte list \<Rightarrow> (offload_error, nat \<times> byte list \<times> byte list) result"
  so_append_token :: "byte list \<Rightarrow> byte list \<Rightarrow> 's \<Rightarrow> (offload_error, unit) result \<times> 's"
  so_storage_size :: "'s \<Rightarrow> nat"
  so_stored_tokens :: "'s \<Rightarrow> nat"
  so_clear :: "'s \<Rightarrow> 's"

text \<open>
  The contract: \<open>k_of\<close> and \<open>v_of\<close> are what the store holds, \<open>tb\<close> is the size of a token. Operations may be called on
  any state the invariant admits; a load fills the front of the two buffers.
\<close>

locale offload_contract =
  fixes ops :: "'s offload_store" and tb :: nat and inv :: "'s \<Rightarrow> bool" and k_of :: "'s \<Rightarrow> byte list" and v_of :: "'s \<Rightarrow> byte list"
  assumes sizes: "inv s \<Longrightarrow> length (k_of s) = so_stored_tokens ops s * tb \<and> length (v_of s) = so_stored_tokens ops s * tb"
    and store: "\<lbrakk>inv s; length k = n * tb; length v = n * tb\<rbrakk> \<Longrightarrow>
      \<exists>s'. so_store ops k v n s = (Ok (), s') \<and> inv s' \<and> k_of s' = k \<and> v_of s' = v \<and> so_stored_tokens ops s' = n"
    and append: "\<lbrakk>inv s; length k = tb; length v = tb\<rbrakk> \<Longrightarrow>
      \<exists>s'. so_append_token ops k v s = (Ok (), s') \<and> inv s' \<and> k_of s' = k_of s @ k \<and> v_of s' = v_of s @ v
        \<and> so_stored_tokens ops s' = so_stored_tokens ops s + 1"
    and load: "\<lbrakk>inv s; length kb \<ge> length (k_of s); length vb \<ge> length (v_of s)\<rbrakk> \<Longrightarrow>
      so_load_into ops s kb vb = Ok (so_stored_tokens ops s, k_of s @ drop (length (k_of s)) kb, v_of s @ drop (length (v_of s)) vb)"
    and clear: "inv s \<Longrightarrow> inv (so_clear ops s) \<and> k_of (so_clear ops s) = [] \<and> v_of (so_clear ops s) = [] \<and> so_stored_tokens ops (so_clear ops s) = 0"

section \<open>The store in memory\<close>

record raw_store =
  rs_k_data :: "byte list"
  rs_v_data :: "byte list"
  rs_num_tokens :: nat
  rs_token_bytes :: nat

definition RawStore_new :: "nat \<Rightarrow> raw_store" where
  "RawStore_new token_bytes = \<lparr>rs_k_data = [], rs_v_data = [], rs_num_tokens = 0, rs_token_bytes = token_bytes\<rparr>"

definition RawStore_store :: "byte list \<Rightarrow> byte list \<Rightarrow> nat \<Rightarrow> raw_store \<Rightarrow> (offload_error, unit) result \<times> raw_store" where
  "RawStore_store k v n s =
     (if length k \<noteq> n * rs_token_bytes s then (Err KSizeMismatch, s)
      else if length v \<noteq> n * rs_token_bytes s then (Err VSizeMismatch, s)
      else (Ok (), s\<lparr>rs_k_data := k, rs_v_data := v, rs_num_tokens := n\<rparr>))"

definition raw_load_into :: "raw_store \<Rightarrow> byte list \<Rightarrow> byte list \<Rightarrow> (offload_error, nat \<times> byte list \<times> byte list) result" where
  "raw_load_into s kb vb =
     (if rs_num_tokens s = 0 then Ok (0, kb, vb)
      else let n = rs_num_tokens s * rs_token_bytes s in
        and_then (slice (rs_k_data s) 0 n) (\<lambda>k. and_then (copy_into kb 0 k) (\<lambda>kb'.
        and_then (slice (rs_v_data s) 0 n) (\<lambda>v. and_then (copy_into vb 0 v) (\<lambda>vb'.
        Ok (rs_num_tokens s, kb', vb'))))))"

definition raw_append_token :: "byte list \<Rightarrow> byte list \<Rightarrow> raw_store \<Rightarrow> (offload_error, unit) result \<times> raw_store" where
  "raw_append_token k v s =
     (if length k \<noteq> rs_token_bytes s then (Err KSizeMismatch, s)
      else if length v \<noteq> rs_token_bytes s then (Err VSizeMismatch, s)
      else (Ok (), s\<lparr>rs_k_data := rs_k_data s @ k, rs_v_data := rs_v_data s @ v, rs_num_tokens := rs_num_tokens s + 1\<rparr>))"

definition raw_storage_size :: "raw_store \<Rightarrow> nat" where
  "raw_storage_size s = length (rs_k_data s) + length (rs_v_data s)"

definition raw_clear :: "raw_store \<Rightarrow> raw_store" where
  "raw_clear s = s\<lparr>rs_k_data := [], rs_v_data := [], rs_num_tokens := 0\<rparr>"

definition raw_ops :: "raw_store offload_store" where
  "raw_ops = \<lparr>so_store = RawStore_store, so_load_into = raw_load_into, so_append_token = raw_append_token,
     so_storage_size = raw_storage_size, so_stored_tokens = rs_num_tokens, so_clear = raw_clear\<rparr>"

definition raw_inv :: "nat \<Rightarrow> raw_store \<Rightarrow> bool" where
  "raw_inv tb s \<longleftrightarrow> rs_token_bytes s = tb \<and> length (rs_k_data s) = rs_num_tokens s * tb \<and> length (rs_v_data s) = rs_num_tokens s * tb"

section \<open>The store on disk\<close>

text \<open>\<open>None\<close>: the write succeeds; \<open>Some n\<close>: it fails after \<open>n\<close> bytes.\<close>

record disk_io =
  io_write_k :: "nat option"
  io_write_v :: "nat option"
  io_read :: bool

definition io_ok :: disk_io where
  "io_ok = \<lparr>io_write_k = None, io_write_v = None, io_read = True\<rparr>"

record disk_store =
  ds_k_file :: "byte list"
  ds_v_file :: "byte list"
  ds_stored_tokens :: nat
  ds_bytes_per_token :: nat

definition DiskStore_new :: "nat \<Rightarrow> disk_store" where
  "DiskStore_new bytes_per_token = \<lparr>ds_k_file = [], ds_v_file = [], ds_stored_tokens = 0, ds_bytes_per_token = bytes_per_token\<rparr>"

text \<open>\<open>write_all\<close> at the end of a file.\<close>

definition write_all :: "nat option \<Rightarrow> byte list \<Rightarrow> byte list \<Rightarrow> bool \<times> byte list" where
  "write_all fault data file = (case fault of None \<Rightarrow> (True, file @ data) | Some n \<Rightarrow> (False, file @ take n data))"

text \<open>The two files in turn; the second is only reached when the first write succeeds.\<close>

definition write_files :: "disk_io \<Rightarrow> byte list \<Rightarrow> byte list \<Rightarrow> byte list \<Rightarrow> byte list \<Rightarrow> disk_store \<Rightarrow> (offload_error, unit) result \<times> disk_store" where
  "write_files io k v k_file v_file s = (case write_all (io_write_k io) k k_file of
       (False, kf) \<Rightarrow> (Err StoreIo, s\<lparr>ds_k_file := kf\<rparr>)
     | (True, kf) \<Rightarrow> (case write_all (io_write_v io) v v_file of
         (ok, vf) \<Rightarrow> (if ok then Ok () else Err StoreIo, s\<lparr>ds_k_file := kf, ds_v_file := vf\<rparr>)))"

definition DiskStore_store :: "disk_io \<Rightarrow> byte list \<Rightarrow> byte list \<Rightarrow> nat \<Rightarrow> disk_store \<Rightarrow> (offload_error, unit) result \<times> disk_store" where
  "DiskStore_store io k v n s = (case write_files io k v [] [] s of
       (Ok u, s') \<Rightarrow> (Ok u, s'\<lparr>ds_stored_tokens := n\<rparr>)
     | (r, s') \<Rightarrow> (r, s'))"

text \<open>\<open>read_exact\<close> into the front of a buffer.\<close>

definition read_exact :: "bool \<Rightarrow> byte list \<Rightarrow> nat \<Rightarrow> byte list \<Rightarrow> (offload_error, byte list) result" where
  "read_exact ok file n buf = (if \<not> ok \<or> length file < n then Err StoreIo else Ok (take n file @ drop n buf))"

definition disk_load_into :: "disk_io \<Rightarrow> disk_store \<Rightarrow> byte list \<Rightarrow> byte list \<Rightarrow> (offload_error, nat \<times> byte list \<times> byte list) result" where
  "disk_load_into io s kb vb =
     (let n = ds_stored_tokens s * ds_bytes_per_token s in
      if length kb < n \<or> length vb < n then Err BufferTooSmall
      else and_then (read_exact (io_read io) (ds_k_file s) n kb) (\<lambda>kb'.
           and_then (read_exact (io_read io) (ds_v_file s) n vb) (\<lambda>vb'.
           Ok (ds_stored_tokens s, kb', vb'))))"

definition disk_append_token :: "disk_io \<Rightarrow> byte list \<Rightarrow> byte list \<Rightarrow> disk_store \<Rightarrow> (offload_error, unit) result \<times> disk_store" where
  "disk_append_token io k v s = (case write_files io k v (ds_k_file s) (ds_v_file s) s of
       (Ok u, s') \<Rightarrow> (Ok u, s'\<lparr>ds_stored_tokens := ds_stored_tokens s' + 1\<rparr>)
     | (r, s') \<Rightarrow> (r, s'))"

definition disk_storage_size :: "disk_store \<Rightarrow> nat" where
  "disk_storage_size s = ds_stored_tokens s * ds_bytes_per_token s * 2"

definition disk_clear :: "disk_store \<Rightarrow> disk_store" where
  "disk_clear s = s\<lparr>ds_k_file := [], ds_v_file := [], ds_stored_tokens := 0\<rparr>"

definition disk_ops :: "disk_io \<Rightarrow> disk_store offload_store" where
  "disk_ops io = \<lparr>so_store = DiskStore_store io, so_load_into = disk_load_into io, so_append_token = disk_append_token io,
     so_storage_size = disk_storage_size, so_stored_tokens = ds_stored_tokens, so_clear = disk_clear\<rparr>"

definition disk_inv :: "nat \<Rightarrow> disk_store \<Rightarrow> bool" where
  "disk_inv tb s \<longleftrightarrow> ds_bytes_per_token s = tb \<and> length (ds_k_file s) = ds_stored_tokens s * tb \<and> length (ds_v_file s) = ds_stored_tokens s * tb"

section \<open>Both stores keep the contract\<close>

lemmas raw_defs = raw_ops_def raw_inv_def RawStore_store_def raw_load_into_def raw_append_token_def raw_clear_def slice_def copy_into_def
lemmas disk_defs = disk_ops_def disk_inv_def DiskStore_store_def disk_load_into_def disk_append_token_def disk_clear_def
  write_files_def write_all_def read_exact_def io_ok_def

interpretation raw: offload_contract raw_ops tb "raw_inv tb" rs_k_data rs_v_data for tb
  by unfold_locales (auto simp: raw_defs Let_def)

interpretation disk: offload_contract "disk_ops io_ok" tb "disk_inv tb" ds_k_file ds_v_file for tb
  by unfold_locales (auto simp: disk_defs Let_def)

lemma raw_new_inv [simp]: "raw_inv tb (RawStore_new tb)"
  by (simp add: raw_inv_def RawStore_new_def)

lemma disk_new_inv [simp]: "disk_inv tb (DiskStore_new tb)"
  by (simp add: disk_inv_def DiskStore_new_def)

end
