(* ===== verification/Offload_Cache.thy ===== *)
theory Offload_Cache
  imports Offload_Store Kv_Layout
begin

text \<open>
  The offloaded KV cache of a layer, \<open>OffloadKVCache\<close> of \<^verbatim>\<open>engine/src/kv/offload.rs\<close>, on any store. The attention reads
  from host buffers that are allocated lazily and filled from the store; a decode step on a preloaded layer
  writes to the buffers only and the store catches up when they are released.

  The upload of a view to a device, the reusable output buffers and the cast scratch of \<open>OffloadFormat\<close> are copies
  and not modelled: a view is the bytes that are copied out. The bytes of an input tensor are an argument.
\<close>

section \<open>State\<close>

record 's offload_cache =
  oc_kv_heads :: nat
  oc_head_dim :: nat
  oc_dtype :: dtype
  oc_current_pos :: nat
  oc_max_seq_len :: nat
  oc_token_bytes :: nat
  oc_store :: 's
  oc_attn_k :: "byte list option"
  oc_attn_v :: "byte list option"
  oc_preloaded :: bool
  oc_store_behind :: nat

definition OffloadKVCache_new :: "nat \<Rightarrow> nat \<Rightarrow> dtype \<Rightarrow> nat \<Rightarrow> 's \<Rightarrow> 's offload_cache" where
  "OffloadKVCache_new heads dim dt max_seq s =
     \<lparr>oc_kv_heads = heads, oc_head_dim = dim, oc_dtype = dt, oc_current_pos = 0, oc_max_seq_len = max_seq,
      oc_token_bytes = heads * dim * DType_size dt, oc_store = s, oc_attn_k = None, oc_attn_v = None,
      oc_preloaded = False, oc_store_behind = 0\<rparr>"

section \<open>Operations\<close>

text \<open>An operation that can fail leaves a state behind, also when it fails.\<close>

type_synonym ('s, 'a) cache_op = "'s offload_cache \<Rightarrow> (offload_error, 'a) result \<times> 's offload_cache"

definition migrate_from_raw :: "'s offload_store \<Rightarrow> byte list \<Rightarrow> byte list \<Rightarrow> nat \<Rightarrow> ('s, unit) cache_op" where
  "migrate_from_raw ops k v n c = (case so_store ops k v n (oc_store c) of
       (Ok u, s) \<Rightarrow> (Ok u, c\<lparr>oc_store := s, oc_current_pos := n\<rparr>)
     | (r, s) \<Rightarrow> (r, c\<lparr>oc_store := s\<rparr>))"

text \<open>
  \<open>for i in (start..end).step_by(token_bytes)\<close> appends one token per round; the loop is on the number of tokens
  left. A step of zero panics.
\<close>

fun append_range :: "'s offload_store \<Rightarrow> nat \<Rightarrow> byte list \<Rightarrow> byte list \<Rightarrow> nat \<Rightarrow> nat \<Rightarrow> 's \<Rightarrow> (offload_error, unit) result \<times> 's" where
  "append_range ops tb kb vb off 0 s = (Ok (), s)"
| "append_range ops tb kb vb off (Suc n) s = (case (slice kb off (off + tb) :: (offload_error, byte list) result) of
       Ok k \<Rightarrow> (case (slice vb off (off + tb) :: (offload_error, byte list) result) of
         Ok v \<Rightarrow> (case so_append_token ops k v s of
             (Ok u, s') \<Rightarrow> append_range ops tb kb vb (off + tb) n s'
           | (r, s') \<Rightarrow> (r, s'))
       | r \<Rightarrow> (Panic, s))
     | r \<Rightarrow> (Panic, s))"

definition flush_deferred :: "'s offload_store \<Rightarrow> ('s, unit) cache_op" where
  "flush_deferred ops c =
     (if oc_store_behind c = 0 then (Ok (), c)
      else case (oc_attn_k c, oc_attn_v c) of
        (Some kb, Some vb) \<Rightarrow>
          if oc_token_bytes c = 0 then (Panic, c)
          else (case append_range ops (oc_token_bytes c) kb vb ((oc_current_pos c - oc_store_behind c) * oc_token_bytes c) (oc_store_behind c) (oc_store c) of
              (Ok u, s) \<Rightarrow> (Ok u, c\<lparr>oc_store := s, oc_store_behind := 0\<rparr>)
            | (r, s) \<Rightarrow> (r, c\<lparr>oc_store := s\<rparr>))
      | _ \<Rightarrow> (Err FlushWithoutBuffers, c))"

text \<open>\<open>get_or_insert_with(|| vec![0u8; max_bytes])\<close>.\<close>

definition lazy_buf :: "'s offload_cache \<Rightarrow> byte list option \<Rightarrow> byte list" where
  "lazy_buf c b = (case b of Some xs \<Rightarrow> xs | None \<Rightarrow> replicate (oc_max_seq_len c * oc_token_bytes c) 0)"

text \<open>The load into the first \<open>n\<close> bytes of both buffers; on an error the buffers stay allocated.\<close>

definition load_front :: "'s offload_store \<Rightarrow> 's \<Rightarrow> nat \<Rightarrow> byte list \<Rightarrow> byte list \<Rightarrow> (offload_error, byte list \<times> byte list) result" where
  "load_front ops s n kb vb =
     and_then (slice kb 0 n) (\<lambda>k. and_then (slice vb 0 n) (\<lambda>v.
     and_then (so_load_into ops s k v) (\<lambda>(_, k', v'). Ok (k' @ drop n kb, v' @ drop n vb))))"

definition preload :: "'s offload_store \<Rightarrow> ('s, unit) cache_op" where
  "preload ops c =
     (if oc_preloaded c then (Ok (), c)
      else case flush_deferred ops c of
        (Ok u, c) \<Rightarrow>
          (let n = oc_current_pos c * oc_token_bytes c in
           if n = 0 then (Ok (), c\<lparr>oc_preloaded := True\<rparr>)
           else let kb = lazy_buf c (oc_attn_k c); vb = lazy_buf c (oc_attn_v c) in
             (case load_front ops (oc_store c) n kb vb of
                Ok (kb', vb') \<Rightarrow> (Ok (), c\<lparr>oc_attn_k := Some kb', oc_attn_v := Some vb', oc_preloaded := True\<rparr>)
              | Err e \<Rightarrow> (Err e, c\<lparr>oc_attn_k := Some kb, oc_attn_v := Some vb\<rparr>)
              | Panic \<Rightarrow> (Panic, c)))
      | (r, c) \<Rightarrow> (r, c))"

text \<open>A failed flush is logged and the buffers are dropped all the same; a panic goes on.\<close>

definition release_buffers :: "'s offload_store \<Rightarrow> ('s, unit) cache_op" where
  "release_buffers ops c = (case flush_deferred ops c of
       (Panic, c) \<Rightarrow> (Panic, c)
     | (_, c) \<Rightarrow> (Ok (), c\<lparr>oc_attn_k := None, oc_attn_v := None, oc_preloaded := False\<rparr>))"

definition reset_preload :: "'s offload_cache \<Rightarrow> 's offload_cache" where
  "reset_preload c = c\<lparr>oc_preloaded := False\<rparr>"

definition reset_session :: "'s offload_store \<Rightarrow> 's offload_cache \<Rightarrow> 's offload_cache" where
  "reset_session ops c = c\<lparr>oc_store := so_clear ops (oc_store c), oc_current_pos := 0, oc_store_behind := 0, oc_preloaded := False,
     oc_attn_k := None, oc_attn_v := None\<rparr>"

definition retain_preload :: "'s offload_cache \<Rightarrow> 's offload_cache" where
  "retain_preload c = (if oc_attn_k c \<noteq> None \<and> oc_attn_v c \<noteq> None then c\<lparr>oc_preloaded := True\<rparr> else c)"

definition advance :: "nat \<Rightarrow> (offload_error, unit) result \<times> 's \<Rightarrow> 's offload_cache \<Rightarrow> (offload_error, unit) result \<times> 's offload_cache" where
  "advance total_after = (\<lambda>(r, s) c. (r, case r of Ok _ \<Rightarrow> c\<lparr>oc_store := s, oc_current_pos := total_after\<rparr> | _ \<Rightarrow> c\<lparr>oc_store := s\<rparr>))"

definition update_offload :: "'s offload_store \<Rightarrow> nat \<Rightarrow> byte list \<Rightarrow> byte list \<Rightarrow> ('s, unit) cache_op" where
  "update_offload ops seq_len k_data v_data c =
     (let total_after = oc_current_pos c + seq_len; tb = oc_token_bytes c in
      if total_after > oc_max_seq_len c then (Err OffloadOverflow, c)
      else if seq_len = 1 then
        (case (oc_preloaded c, oc_attn_k c, oc_attn_v c) of
           (True, Some kb, Some vb) \<Rightarrow>
             (case (and_then (copy_into kb (oc_current_pos c * tb) k_data) (\<lambda>kb'. and_then (copy_into vb (oc_current_pos c * tb) v_data) (\<lambda>vb'. Ok (kb', vb'))) :: (offload_error, _) result) of
                Ok (kb', vb') \<Rightarrow> (Ok (), c\<lparr>oc_attn_k := Some kb', oc_attn_v := Some vb', oc_store_behind := oc_store_behind c + 1,
                    oc_current_pos := total_after\<rparr>)
              | r \<Rightarrow> (Panic, c))
         | _ \<Rightarrow> advance total_after (so_append_token ops k_data v_data (oc_store c)) c)
      else if oc_current_pos c = 0 then advance total_after (so_store ops k_data v_data seq_len (oc_store c)) c
      else advance total_after (append_range ops tb k_data v_data 0 seq_len (oc_store c)) c)"

text \<open>
  The view is the number of tokens and the bytes of K and V; it is empty when the load fails. A failed flush is
  only logged.
\<close>

definition get_view :: "'s offload_store \<Rightarrow> ('s, nat \<times> byte list \<times> byte list) cache_op" where
  "get_view ops c =
     (let tot = oc_current_pos c in
      if tot = 0 then (Ok (0, [], []), c)
      else
        let n = tot * oc_token_bytes c;
            attn_buf_valid = (\<not> oc_preloaded c \<and> oc_store_behind c > 0) in
        case (if attn_buf_valid then flush_deferred ops c else (Ok (), c)) of
          (Panic, c) \<Rightarrow> (Panic, c)
        | (_, c) \<Rightarrow>
            let kb = lazy_buf c (oc_attn_k c); vb = lazy_buf c (oc_attn_v c);
                c = c\<lparr>oc_attn_k := Some kb, oc_attn_v := Some vb\<rparr> in
            (case (if \<not> oc_preloaded c \<and> \<not> attn_buf_valid then load_front ops (oc_store c) n kb vb else Ok (kb, vb)) of
               Panic \<Rightarrow> (Panic, c)
             | Err e \<Rightarrow> (Ok (0, [], []), c)
             | Ok (kb', vb') \<Rightarrow>
                 (case (and_then (slice kb' 0 n) (\<lambda>k. and_then (slice vb' 0 n) (\<lambda>v. Ok (tot, k, v))) :: (offload_error, _) result) of
                    Ok view \<Rightarrow> (Ok view, c\<lparr>oc_attn_k := Some kb', oc_attn_v := Some vb', oc_preloaded := False\<rparr>)
                  | r \<Rightarrow> (Panic, c))))"

section \<open>What the cache holds\<close>

text \<open>
  \<open>holds\<close>: the tokens of the cache are \<open>K\<close> and \<open>V\<close>, of which the store has all but the last \<open>store_behind\<close>; when some are
  missing there, the buffers have them all. \<open>fresh\<close>: the buffers exist and have all tokens.
\<close>

definition fresh :: "'s offload_cache \<Rightarrow> byte list \<Rightarrow> byte list \<Rightarrow> bool" where
  "fresh c K V \<longleftrightarrow> (\<exists>kb vb. oc_attn_k c = Some kb \<and> oc_attn_v c = Some vb \<and> take (length K) kb = K \<and> take (length V) vb = V)"

definition holds :: "'s offload_store \<Rightarrow> nat \<Rightarrow> ('s \<Rightarrow> bool) \<Rightarrow> ('s \<Rightarrow> byte list) \<Rightarrow> ('s \<Rightarrow> byte list) \<Rightarrow> 's offload_cache \<Rightarrow> byte list \<Rightarrow> byte list \<Rightarrow> bool" where
  "holds ops tb store_inv k_of v_of c K V \<longleftrightarrow> oc_token_bytes c = tb \<and> oc_current_pos c \<le> oc_max_seq_len c \<and> oc_store_behind c \<le> oc_current_pos c
     \<and> length K = oc_current_pos c * tb \<and> length V = oc_current_pos c * tb
     \<and> store_inv (oc_store c) \<and> so_stored_tokens ops (oc_store c) = oc_current_pos c - oc_store_behind c
     \<and> k_of (oc_store c) = take ((oc_current_pos c - oc_store_behind c) * tb) K
     \<and> v_of (oc_store c) = take ((oc_current_pos c - oc_store_behind c) * tb) V
     \<and> (\<forall>b. oc_attn_k c = Some b \<or> oc_attn_v c = Some b \<longrightarrow> length b = oc_max_seq_len c * tb)
     \<and> (oc_store_behind c > 0 \<longrightarrow> fresh c K V)"

text \<open>What may be read: buffers that are marked as loaded are fresh.\<close>

definition readable :: "'s offload_cache \<Rightarrow> byte list \<Rightarrow> byte list \<Rightarrow> bool" where
  "readable c K V \<longleftrightarrow> (oc_preloaded c \<and> 0 < oc_current_pos c \<longrightarrow> fresh c K V)"

locale offload_client = offload_contract +
  assumes tb_pos: "0 < tb"
begin

abbreviation "hold \<equiv> holds ops tb inv k_of v_of"

lemma append_range_ok:
  assumes "inv s" "off + n * tb \<le> length kb" "off + n * tb \<le> length vb"
  shows "\<exists>s'. append_range ops tb kb vb off n s = (Ok (), s') \<and> inv s' \<and> k_of s' = k_of s @ field kb off (n * tb)
    \<and> v_of s' = v_of s @ field vb off (n * tb) \<and> so_stored_tokens ops s' = so_stored_tokens ops s + n"
  using assms
proof (induction n arbitrary: off s)
  case (Suc n)
  have sl: "slice kb off (off + tb) = (Ok (field kb off tb) :: (offload_error, _) result)"
      "slice vb off (off + tb) = (Ok (field vb off tb) :: (offload_error, _) result)"
    using Suc.prems by (simp_all add: slice_def)
  have len: "length (field kb off tb) = tb" "length (field vb off tb) = tb" using Suc.prems by simp_all
  obtain s1 where s1: "so_append_token ops (field kb off tb) (field vb off tb) s = (Ok (), s1)" "inv s1"
      "k_of s1 = k_of s @ field kb off tb" "v_of s1 = v_of s @ field vb off tb" "so_stored_tokens ops s1 = so_stored_tokens ops s + 1"
    using append[OF Suc.prems(1) len] by blast
  have part: "field b off (Suc n * tb) = field b off tb @ field b (off + tb) (n * tb)" for b :: "byte list"
    by (simp add: take_add add.commute)
  from Suc.IH[OF s1(2), of "off + tb"] Suc.prems obtain s2 where "append_range ops tb kb vb (off + tb) n s1 = (Ok (), s2)" "inv s2"
      "k_of s2 = k_of s1 @ field kb (off + tb) (n * tb)" "v_of s2 = v_of s1 @ field vb (off + tb) (n * tb)"
      "so_stored_tokens ops s2 = so_stored_tokens ops s1 + n"
    by (auto simp: ac_simps)
  with s1 sl show ?case by (simp add: part del: mult_Suc)
qed simp

lemma flush_ok:
  assumes "hold c K V"
  shows "\<exists>s. flush_deferred ops c = (Ok (), c\<lparr>oc_store := s, oc_store_behind := 0\<rparr>) \<and> hold (c\<lparr>oc_store := s, oc_store_behind := 0\<rparr>) K V"
proof (cases "oc_store_behind c = 0")
  case True
  then have "c\<lparr>oc_store := oc_store c, oc_store_behind := 0\<rparr> = c" by simp
  with assms True show ?thesis by (metis flush_deferred_def)
next
  case False
  let ?p = "oc_current_pos c" let ?b = "oc_store_behind c"
  from False assms obtain kb vb where bufs: "oc_attn_k c = Some kb" "oc_attn_v c = Some vb" "take (length K) kb = K" "take (length V) vb = V"
    by (auto simp: holds_def fresh_def)
  have c: "oc_token_bytes c = tb" "?p \<le> oc_max_seq_len c" "?b \<le> ?p" "length K = ?p * tb" "length V = ?p * tb" "inv (oc_store c)"
      "so_stored_tokens ops (oc_store c) = ?p - ?b" "k_of (oc_store c) = take ((?p - ?b) * tb) K" "v_of (oc_store c) = take ((?p - ?b) * tb) V"
      "length kb = oc_max_seq_len c * tb" "length vb = oc_max_seq_len c * tb"
    using assms bufs by (auto simp: holds_def)
  have le: "(?p - ?b) * tb + ?b * tb = ?p * tb" using c(3) by (metis add_mult_distrib le_add_diff_inverse2)
  have "?p * tb \<le> oc_max_seq_len c * tb" using c(2) by simp
  with append_range_ok[OF c(6), of "(?p - ?b) * tb" "?b" kb vb] le c obtain s where
    s: "append_range ops tb kb vb ((?p - ?b) * tb) ?b (oc_store c) = (Ok (), s)" "inv s"
      "k_of s = take ((?p - ?b) * tb) K @ field kb ((?p - ?b) * tb) (?b * tb)"
      "v_of s = take ((?p - ?b) * tb) V @ field vb ((?p - ?b) * tb) (?b * tb)" "so_stored_tokens ops s = ?p" by auto
  have join: "take m X @ field B m n = X" if "take (length X) B = X" "length X = m + n" for m n and X B :: "byte list"
    using that by (metis append_take_drop_id drop_take add_diff_cancel_left')
  have "k_of s = K" "v_of s = V" using s(3,4) join[OF bufs(3), of "(?p - ?b) * tb" "?b * tb"] join[OF bufs(4), of "(?p - ?b) * tb" "?b * tb"] c le by simp_all
  with s c bufs have "hold (c\<lparr>oc_store := s, oc_store_behind := 0\<rparr>) K V" by (auto simp: holds_def)
  moreover have "flush_deferred ops c = (Ok (), c\<lparr>oc_store := s, oc_store_behind := 0\<rparr>)"
    using False bufs c(1) s(1) tb_pos by (simp add: flush_deferred_def)
  ultimately show ?thesis by blast
qed

lemma length_lazy_buf:
  assumes "hold c K V"
  shows "length (lazy_buf c (oc_attn_k c)) = oc_max_seq_len c * tb" "length (lazy_buf c (oc_attn_v c)) = oc_max_seq_len c * tb"
  using assms by (auto simp: holds_def lazy_buf_def split: option.split)

lemma load_front_ok:
  assumes "hold c K V" "oc_store_behind c = 0" "length kb = oc_max_seq_len c * tb" "length vb = oc_max_seq_len c * tb"
  shows "load_front ops (oc_store c) (oc_current_pos c * tb) kb vb = Ok (K @ drop (length K) kb, V @ drop (length V) vb)"
proof -
  have le: "oc_current_pos c * tb \<le> oc_max_seq_len c * tb" using assms(1) by (simp add: holds_def)
  have eq: "k_of (oc_store c) = K" "v_of (oc_store c) = V" "length K = oc_current_pos c * tb" "length V = oc_current_pos c * tb" "inv (oc_store c)"
    using assms(1,2) by (simp_all add: holds_def)
  have "so_load_into ops (oc_store c) (take (oc_current_pos c * tb) kb) (take (oc_current_pos c * tb) vb) = Ok (so_stored_tokens ops (oc_store c), K, V)"
    using load[OF eq(5), of "take (oc_current_pos c * tb) kb" "take (oc_current_pos c * tb) vb"] le assms(3,4) eq by simp
  with le assms(3,4) eq show ?thesis by (simp add: load_front_def slice_def)
qed

lemma preload_ok:
  assumes "hold c K V" "readable c K V"
  shows "\<exists>c'. preload ops c = (Ok (), c') \<and> hold c' K V \<and> readable c' K V \<and> oc_preloaded c' \<and> oc_current_pos c' = oc_current_pos c
    \<and> oc_max_seq_len c' = oc_max_seq_len c \<and> oc_dtype c' = oc_dtype c"
proof (cases "oc_preloaded c")
  case True
  then show ?thesis using assms by (simp add: preload_def)
next
  case False
  obtain s where s: "flush_deferred ops c = (Ok (), c\<lparr>oc_store := s, oc_store_behind := 0\<rparr>)" "hold (c\<lparr>oc_store := s, oc_store_behind := 0\<rparr>) K V"
    using flush_ok[OF assms(1)] by blast
  let ?c = "c\<lparr>oc_store := s, oc_store_behind := 0\<rparr>"
  have tb: "oc_token_bytes c = tb" using assms(1) by (simp add: holds_def)
  show ?thesis
  proof (cases "oc_current_pos c = 0")
    case True
    then show ?thesis using False s tb by (simp add: preload_def readable_def holds_def fresh_def)
  next
    case pos: False
    define kb vb where kb_vb: "kb = lazy_buf ?c (oc_attn_k ?c)" "vb = lazy_buf ?c (oc_attn_v ?c)"
    have bl: "length kb = oc_max_seq_len c * tb" "length vb = oc_max_seq_len c * tb" using length_lazy_buf[OF s(2)] kb_vb by simp_all
    define kb' vb' where new: "kb' = K @ drop (length K) kb" "vb' = V @ drop (length V) vb"
    have l: "load_front ops s (oc_current_pos c * tb) kb vb = Ok (kb', vb')" using load_front_ok[OF s(2), of kb vb] bl new by simp
    have len: "length kb' = oc_max_seq_len c * tb" "length vb' = oc_max_seq_len c * tb" "take (length K) kb' = K" "take (length V) vb' = V"
      using bl new s(2) mult_le_mono1[of "oc_current_pos c" "oc_max_seq_len c" tb] by (simp_all add: holds_def)
    have "preload ops c = (Ok (), ?c\<lparr>oc_attn_k := Some kb', oc_attn_v := Some vb', oc_preloaded := True\<rparr>)"
      using False pos s(1) l tb tb_pos kb_vb by (simp add: preload_def Let_def)
    then show ?thesis using s(2) len by (auto simp: readable_def holds_def fresh_def)
  qed
qed

lemma release_ok:
  assumes "hold c K V"
  shows "\<exists>c'. release_buffers ops c = (Ok (), c') \<and> hold c' K V \<and> readable c' K V \<and> oc_current_pos c' = oc_current_pos c
    \<and> oc_max_seq_len c' = oc_max_seq_len c \<and> oc_dtype c' = oc_dtype c"
proof -
  obtain s where "flush_deferred ops c = (Ok (), c\<lparr>oc_store := s, oc_store_behind := 0\<rparr>)" "hold (c\<lparr>oc_store := s, oc_store_behind := 0\<rparr>) K V"
    using flush_ok[OF assms] by blast
  then show ?thesis by (auto simp: release_buffers_def holds_def readable_def)
qed

lemma retain_ok:
  assumes "hold c K V" "fresh c K V"
  shows "hold (retain_preload c) K V \<and> readable (retain_preload c) K V \<and> oc_current_pos (retain_preload c) = oc_current_pos c
    \<and> oc_max_seq_len (retain_preload c) = oc_max_seq_len c \<and> oc_dtype (retain_preload c) = oc_dtype c"
  using assms by (auto simp: retain_preload_def holds_def readable_def fresh_def)

lemma update_deferred_ok:
  assumes "hold c K V" "fresh c K V" "oc_preloaded c" "oc_current_pos c < oc_max_seq_len c" "length k = tb" "length v = tb"
  shows "\<exists>c'. update_offload ops 1 k v c = (Ok (), c') \<and> hold c' (K @ k) (V @ v) \<and> fresh c' (K @ k) (V @ v)
    \<and> oc_preloaded c' \<and> oc_current_pos c' = oc_current_pos c + 1 \<and> oc_max_seq_len c' = oc_max_seq_len c \<and> oc_dtype c' = oc_dtype c"
proof -
  let ?p = "oc_current_pos c"
  from assms(1,2) obtain kb vb where b: "oc_attn_k c = Some kb" "oc_attn_v c = Some vb" "take (length K) kb = K" "take (length V) vb = V"
    "length kb = oc_max_seq_len c * tb" "length vb = oc_max_seq_len c * tb" by (auto simp: holds_def fresh_def)
  have c: "oc_token_bytes c = tb" "length K = ?p * tb" "length V = ?p * tb" "oc_store_behind c \<le> ?p" using assms(1) by (simp_all add: holds_def)
  have le: "?p * tb + tb \<le> oc_max_seq_len c * tb" using mult_le_mono1[of "?p + 1" "oc_max_seq_len c" tb] assms(4) by simp
  define kb' where kb': "kb' = take (?p * tb) kb @ k @ drop (?p * tb + tb) kb"
  define vb' where vb': "vb' = take (?p * tb) vb @ v @ drop (?p * tb + tb) vb"
  have u: "update_offload ops 1 k v c = (Ok (), c\<lparr>oc_attn_k := Some kb', oc_attn_v := Some vb', oc_store_behind := oc_store_behind c + 1, oc_current_pos := ?p + 1\<rparr>)"
    using assms(3-6) b c(1) le by (simp add: update_offload_def copy_into_def kb' vb')
  have bufs: "length kb' = oc_max_seq_len c * tb" "length vb' = oc_max_seq_len c * tb" "take (length (K @ k)) kb' = K @ k" "take (length (V @ v)) vb' = V @ v"
    using b c(2,3) le assms(5,6) by (simp_all add: kb' vb')
  have st: "take ((?p - oc_store_behind c) * tb) (K @ k) = take ((?p - oc_store_behind c) * tb) K"
      "take ((?p - oc_store_behind c) * tb) (V @ v) = take ((?p - oc_store_behind c) * tb) V"
    using c(2,3) by (simp_all add: diff_mult_distrib)
  show ?thesis unfolding u using assms(1,3-6) bufs st by (auto simp: holds_def fresh_def algebra_simps)
qed

lemma update_direct_ok:
  assumes "hold c K V" "\<not> oc_preloaded c" "oc_store_behind c = 0" "oc_current_pos c + n \<le> oc_max_seq_len c" "length k = n * tb" "length v = n * tb"
  shows "\<exists>s. update_offload ops n k v c = (Ok (), c\<lparr>oc_store := s, oc_current_pos := oc_current_pos c + n\<rparr>)
    \<and> hold (c\<lparr>oc_store := s, oc_current_pos := oc_current_pos c + n\<rparr>) (K @ k) (V @ v)"
proof -
  let ?p = "oc_current_pos c"
  have c: "oc_token_bytes c = tb" "length K = ?p * tb" "length V = ?p * tb" "inv (oc_store c)" "k_of (oc_store c) = K" "v_of (oc_store c) = V"
      "so_stored_tokens ops (oc_store c) = ?p"
    using assms(1,3) by (simp_all add: holds_def)
  have "\<exists>s. update_offload ops n k v c = (Ok (), c\<lparr>oc_store := s, oc_current_pos := ?p + n\<rparr>) \<and> inv s \<and> k_of s = K @ k \<and> v_of s = V @ v
      \<and> so_stored_tokens ops s = ?p + n"
  proof (cases "n = 1")
    case True
    with append[OF c(4), of k v] assms(5,6) obtain s where "so_append_token ops k v (oc_store c) = (Ok (), s)" "inv s" "k_of s = K @ k" "v_of s = V @ v"
        "so_stored_tokens ops s = ?p + 1" by (auto simp: c)
    with True assms(2,4) show ?thesis by (auto simp: update_offload_def advance_def)
  next
    case False
    show ?thesis
    proof (cases "?p = 0")
      case True
      with store[OF c(4), of k n v] assms(5,6) obtain s where "so_store ops k v n (oc_store c) = (Ok (), s)" "inv s" "k_of s = k" "v_of s = v"
          "so_stored_tokens ops s = n" by auto
      with True False assms(4) c show ?thesis by (auto simp: update_offload_def advance_def)
    next
      case pos: False
      with append_range_ok[OF c(4), of 0 n k v] assms(5,6) obtain s where "append_range ops tb k v 0 n (oc_store c) = (Ok (), s)" "inv s"
          "k_of s = K @ k" "v_of s = V @ v" "so_stored_tokens ops s = ?p + n" by (auto simp: c)
      with pos False assms(4) c(1) show ?thesis by (auto simp: update_offload_def advance_def)
    qed
  qed
  then obtain s where "update_offload ops n k v c = (Ok (), c\<lparr>oc_store := s, oc_current_pos := ?p + n\<rparr>)" "inv s" "k_of s = K @ k" "v_of s = V @ v"
      "so_stored_tokens ops s = ?p + n" by blast
  moreover from this have "hold (c\<lparr>oc_store := s, oc_current_pos := ?p + n\<rparr>) (K @ k) (V @ v)"
    using assms(1,3-6) c by (simp add: holds_def add_mult_distrib)
  ultimately show ?thesis by blast
qed

lemma get_view_ok:
  assumes "hold c K V" "readable c K V"
  shows "\<exists>c'. get_view ops c = (Ok (oc_current_pos c, K, V), c') \<and> hold c' K V \<and> readable c' K V \<and> oc_current_pos c' = oc_current_pos c
    \<and> oc_max_seq_len c' = oc_max_seq_len c \<and> oc_dtype c' = oc_dtype c \<and> (0 < oc_current_pos c \<longrightarrow> fresh c' K V)"
proof (cases "oc_current_pos c = 0")
  case True
  then show ?thesis using assms by (simp add: get_view_def holds_def)
next
  case pos: False
  let ?n = "oc_current_pos c * tb"
  have c: "oc_token_bytes c = tb" "length K = ?n" "length V = ?n" "?n \<le> oc_max_seq_len c * tb" using assms(1) by (simp_all add: holds_def)
  show ?thesis
  proof (cases "oc_preloaded c \<or> 0 < oc_store_behind c")
    case True
    then have "fresh c K V" using assms pos by (auto simp: readable_def holds_def)
    then obtain kb vb where b: "oc_attn_k c = Some kb" "oc_attn_v c = Some vb" "take ?n kb = K" "take ?n vb = V"
        "length kb = oc_max_seq_len c * tb" "length vb = oc_max_seq_len c * tb" using assms(1) c by (auto simp: holds_def fresh_def)
    obtain s where s: "flush_deferred ops c = (Ok (), c\<lparr>oc_store := s, oc_store_behind := 0\<rparr>)" "hold (c\<lparr>oc_store := s, oc_store_behind := 0\<rparr>) K V"
      using flush_ok[OF assms(1)] by blast
    show ?thesis
    proof (cases "oc_preloaded c")
      case True
      with pos b c have "get_view ops c = (Ok (oc_current_pos c, K, V), c\<lparr>oc_preloaded := False\<rparr>)"
        by (simp add: get_view_def Let_def lazy_buf_def slice_def)
      moreover have "hold (c\<lparr>oc_preloaded := False\<rparr>) K V" "fresh (c\<lparr>oc_preloaded := False\<rparr>) K V"
        using assms(1) b c by (auto simp: holds_def fresh_def)
      ultimately show ?thesis by (simp add: readable_def)
    next
      case np: False
      with True pos b c s(1) have "get_view ops c = (Ok (oc_current_pos c, K, V), c\<lparr>oc_store := s, oc_store_behind := 0\<rparr>)"
        by (simp add: get_view_def Let_def lazy_buf_def slice_def)
      with s(2) b c np show ?thesis by (auto simp: readable_def fresh_def)
    qed
  next
    case False
    then have f: "\<not> oc_preloaded c" "oc_store_behind c = 0" by auto
    define kb vb where kb_vb: "kb = lazy_buf c (oc_attn_k c)" "vb = lazy_buf c (oc_attn_v c)"
    have bl: "length kb = oc_max_seq_len c * tb" "length vb = oc_max_seq_len c * tb" using length_lazy_buf[OF assms(1)] kb_vb by simp_all
    define kb' vb' where new: "kb' = K @ drop (length K) kb" "vb' = V @ drop (length V) vb"
    have l: "load_front ops (oc_store c) ?n kb vb = Ok (kb', vb')" using load_front_ok[OF assms(1) f(2) bl] new by simp
    have len: "length kb' = oc_max_seq_len c * tb" "length vb' = oc_max_seq_len c * tb" "take ?n kb' = K" "take ?n vb' = V"
      using bl new c by simp_all
    have "get_view ops c = (Ok (oc_current_pos c, K, V), c\<lparr>oc_attn_k := Some kb', oc_attn_v := Some vb', oc_preloaded := False\<rparr>)"
      using pos f l len c kb_vb by (simp add: get_view_def Let_def slice_def)
    moreover have "hold (c\<lparr>oc_attn_k := Some kb', oc_attn_v := Some vb', oc_preloaded := False\<rparr>) K V"
      using assms(1) f len by (auto simp: holds_def)
    moreover have "fresh (c\<lparr>oc_attn_k := Some kb', oc_attn_v := Some vb', oc_preloaded := False\<rparr>) K V" using len c by (auto simp: fresh_def)
    ultimately show ?thesis by (simp add: readable_def)
  qed
qed

end

text \<open>The client on both stores; a token has at least one byte.\<close>

interpretation raw_client: offload_client raw_ops "Suc t" "raw_inv (Suc t)" rs_k_data rs_v_data for t
  by unfold_locales simp

interpretation disk_client: offload_client "disk_ops io_ok" "Suc t" "disk_inv (Suc t)" ds_k_file ds_v_file for t
  by unfold_locales simp

end
