(* ===== verification/Offload_Forward.thy ===== *)
theory Offload_Forward
  imports Offload_Cache
begin

text \<open>
  One forward pass over offloaded layers: \<open>forward_into_offload\<close> of \<^verbatim>\<open>engine/src/models/offload_forward.rs\<close> with the layer
  access of \<^verbatim>\<open>engine/src/kv/offload_format.rs\<close> and the depth controller of \<^verbatim>\<open>engine/src/kv/offload/prefetch.rs\<close>.

  The arithmetic of a layer is a parameter: the K and V bytes it computes from the hidden state, the cast to the
  type of the cache, and what it makes of the view. A background preload runs on another thread at any time
  between its submission and its collection; which of the waiting tasks run before an iteration is a parameter
  of the loop, and a task that has not run by then runs when it is collected. Each task takes the lock of
  its own layer, so tasks do not overlap on one cache. The preload hints, the timings, embedding and output head
  are not modelled, nor are the caches an error leaves behind.
\<close>

section \<open>The depth controller\<close>

text \<open>
  The moving averages are numbers \<open>'f\<close>; what is read off them is whether preloading stalls the pipeline. \<open>TooFast\<close> is
  the guard against a forward average below one microsecond; an undefined ratio compares as \<open>Balanced\<close>.
\<close>

datatype slack = TooFast | Stall | Ample | Balanced

record 'f ema_ops =
  ema_mix :: "'f \<Rightarrow> 'f \<Rightarrow> 'f"
  ema_slack :: "'f \<Rightarrow> 'f \<Rightarrow> slack"

record 'f prefetch =
  pc_depth :: nat
  pc_max_depth :: nat
  pc_preload_ema :: 'f
  pc_forward_ema :: 'f
  pc_samples :: nat
  pc_warmup_samples :: nat
  pc_slack_streak :: nat
  pc_decrease_patience :: nat
  pc_adjust_step :: nat
  pc_priority_hint :: "(nat \<times> nat list) option"

definition DEFAULT_INITIAL_DEPTH :: nat where "DEFAULT_INITIAL_DEPTH = 16"

definition DEFAULT_ADJUST_STEP :: nat where "DEFAULT_ADJUST_STEP = 16"

definition with_tuning :: "'f \<Rightarrow> nat \<Rightarrow> nat \<Rightarrow> nat \<Rightarrow> nat \<Rightarrow> 'f prefetch" where
  "with_tuning zero max_depth initial_depth adjust_step num_layers =
     (let max_depth = max max_depth 1 in
      \<lparr>pc_depth = min (max initial_depth 1) max_depth, pc_max_depth = max_depth, pc_preload_ema = zero, pc_forward_ema = zero,
       pc_samples = 0, pc_warmup_samples = num_layers, pc_slack_streak = 0, pc_decrease_patience = 3,
       pc_adjust_step = max adjust_step 1, pc_priority_hint = None\<rparr>)"

definition with_initial_depth :: "'f \<Rightarrow> nat \<Rightarrow> nat \<Rightarrow> nat \<Rightarrow> 'f prefetch" where
  "with_initial_depth zero max_depth initial_depth num_layers = with_tuning zero max_depth initial_depth DEFAULT_ADJUST_STEP num_layers"

definition PrefetchController_new :: "'f \<Rightarrow> nat \<Rightarrow> nat \<Rightarrow> 'f prefetch" where
  "PrefetchController_new zero max_depth num_layers = with_tuning zero max_depth DEFAULT_INITIAL_DEPTH DEFAULT_ADJUST_STEP num_layers"

definition record_both :: "'f ema_ops \<Rightarrow> 'f \<Rightarrow> 'f \<Rightarrow> 'f prefetch \<Rightarrow> 'f prefetch" where
  "record_both em preload_us forward_us p =
     (if pc_samples p = 0 then p\<lparr>pc_preload_ema := preload_us, pc_forward_ema := forward_us, pc_samples := 1\<rparr>
      else p\<lparr>pc_preload_ema := ema_mix em preload_us (pc_preload_ema p), pc_forward_ema := ema_mix em forward_us (pc_forward_ema p),
             pc_samples := pc_samples p + 1\<rparr>)"

definition record_preload :: "'f ema_ops \<Rightarrow> 'f \<Rightarrow> 'f prefetch \<Rightarrow> 'f prefetch" where
  "record_preload em preload_us p =
     p\<lparr>pc_preload_ema := (if pc_samples p = 0 then preload_us else ema_mix em preload_us (pc_preload_ema p))\<rparr>"

definition record_forward :: "'f ema_ops \<Rightarrow> 'f \<Rightarrow> 'f prefetch \<Rightarrow> 'f prefetch" where
  "record_forward em forward_us p =
     p\<lparr>pc_forward_ema := (if pc_samples p = 0 then forward_us else ema_mix em forward_us (pc_forward_ema p)), pc_samples := pc_samples p + 1\<rparr>"

definition set_priority_hint :: "nat \<Rightarrow> nat list \<Rightarrow> 'f prefetch \<Rightarrow> 'f prefetch" where
  "set_priority_hint layer select p = p\<lparr>pc_priority_hint := Some (layer, select)\<rparr>"

definition take_priority_hint :: "'f prefetch \<Rightarrow> (nat \<times> nat list) option \<times> 'f prefetch" where
  "take_priority_hint p = (pc_priority_hint p, p\<lparr>pc_priority_hint := None\<rparr>)"

definition adjust :: "'f ema_ops \<Rightarrow> 'f prefetch \<Rightarrow> 'f prefetch" where
  "adjust em p =
     (if pc_samples p < pc_warmup_samples p then p
      else case ema_slack em (pc_preload_ema p) (pc_forward_ema p) of
        TooFast \<Rightarrow> p
      | Stall \<Rightarrow> p\<lparr>pc_depth := min (pc_depth p + pc_adjust_step p) (pc_max_depth p), pc_slack_streak := 0\<rparr>
      | Ample \<Rightarrow>
          (let p = p\<lparr>pc_slack_streak := pc_slack_streak p + 1\<rparr> in
           if pc_slack_streak p \<ge> pc_decrease_patience p \<and> pc_depth p > pc_adjust_step p
           then p\<lparr>pc_depth := max (pc_depth p - pc_adjust_step p) (pc_adjust_step p), pc_slack_streak := 0\<rparr>
           else p)
      | Balanced \<Rightarrow> p\<lparr>pc_slack_streak := 0\<rparr>)"

text \<open>The operations of the controller as events.\<close>

datatype 'f prefetch_event = RecordBoth 'f 'f | RecordPreload 'f | RecordForward 'f | SetHint nat "nat list" | TakeHint | Adjust

fun prefetch_step :: "'f ema_ops \<Rightarrow> 'f prefetch_event \<Rightarrow> 'f prefetch \<Rightarrow> 'f prefetch" where
  "prefetch_step em (RecordBoth a b) p = record_both em a b p"
| "prefetch_step em (RecordPreload a) p = record_preload em a p"
| "prefetch_step em (RecordForward b) p = record_forward em b p"
| "prefetch_step em (SetHint l xs) p = set_priority_hint l xs p"
| "prefetch_step em TakeHint p = snd (take_priority_hint p)"
| "prefetch_step em Adjust p = adjust em p"

lemmas prefetch_defs = record_both_def record_preload_def record_forward_def set_priority_hint_def take_priority_hint_def adjust_def

definition prefetch_inv :: "'f prefetch \<Rightarrow> bool" where
  "prefetch_inv p \<longleftrightarrow> 1 \<le> pc_depth p \<and> pc_depth p \<le> pc_max_depth p \<and> 1 \<le> pc_adjust_step p"

lemma prefetch_step_inv:
  "prefetch_inv p \<Longrightarrow> prefetch_inv (prefetch_step em e p) \<and> pc_max_depth (prefetch_step em e p) = pc_max_depth p
     \<and> pc_adjust_step (prefetch_step em e p) = pc_adjust_step p
     \<and> min (pc_depth p) (pc_adjust_step p) \<le> pc_depth (prefetch_step em e p)"
  by (cases e) (auto simp: prefetch_defs prefetch_inv_def Let_def split: slack.split)

lemma prefetch_run_inv:
  "prefetch_inv p \<Longrightarrow> prefetch_inv (fold (prefetch_step em) es p) \<and> pc_max_depth (fold (prefetch_step em) es p) = pc_max_depth p
     \<and> min (pc_depth p) (pc_adjust_step p) \<le> pc_depth (fold (prefetch_step em) es p)"
proof (induction es arbitrary: p)
  case (Cons e es)
  from prefetch_step_inv[OF Cons.prems, of em e] Cons.IH[of "prefetch_step em e p"] show ?case by auto
qed (simp add: prefetch_inv_def)

text \<open>
  The prefetch depth stays in range. Whatever a controller records and however often it adjusts, its depth is at
  least one and at most the maximum it was built with, and it never falls below the smaller of its first depth
  and the adjustment step.
\<close>

theorem prefetch_depth_bounds:
  "let p0 = with_tuning zero max_depth initial step layers; p = fold (prefetch_step em) es p0
   in 1 \<le> pc_depth p \<and> pc_depth p \<le> max max_depth 1 \<and> min (pc_depth p0) (max step 1) \<le> pc_depth p"
proof -
  let ?p0 = "with_tuning zero max_depth initial step layers"
  have "prefetch_inv ?p0" by (simp add: with_tuning_def prefetch_inv_def Let_def)
  from prefetch_run_inv[OF this, of em es] show ?thesis by (simp add: prefetch_inv_def with_tuning_def Let_def)
qed

section \<open>Access to a layer\<close>

text \<open>The hidden state of the layers is \<open>'x\<close>.\<close>

record 'x offload_model =
  om_kv :: "nat \<Rightarrow> 'x \<Rightarrow> byte list \<times> byte list"
  om_cast :: "dtype \<Rightarrow> byte list \<Rightarrow> byte list"
  om_attend :: "nat \<Rightarrow> 'x \<Rightarrow> nat \<times> byte list \<times> byte list \<Rightarrow> 'x"

definition write_inner :: "'s offload_store \<Rightarrow> 'x offload_model \<Rightarrow> nat \<Rightarrow> byte list \<Rightarrow> byte list \<Rightarrow> ('s, unit) cache_op" where
  "write_inner ops m seq_len k v c =
     (if oc_dtype c \<noteq> D_F32 then update_offload ops seq_len (om_cast m (oc_dtype c) k) (om_cast m (oc_dtype c) v) c
      else update_offload ops seq_len k v c)"

definition attention_into :: "'s offload_store \<Rightarrow> 'x offload_model \<Rightarrow> nat \<Rightarrow> 'x \<Rightarrow> ('s, 'x) cache_op" where
  "attention_into ops m i x c = (case get_view ops c of
       (Ok view, c) \<Rightarrow> (Ok (om_attend m i x view), c)
     | (Err e, c) \<Rightarrow> (Err e, c)
     | (Panic, c) \<Rightarrow> (Panic, c))"

definition layer_forward :: "'s offload_store \<Rightarrow> 'x offload_model \<Rightarrow> nat \<Rightarrow> nat \<Rightarrow> 'x \<Rightarrow> ('s, 'x) cache_op" where
  "layer_forward ops m seq_len i x c = (case om_kv m i x of (k, v) \<Rightarrow> (case write_inner ops m seq_len k v c of
       (Ok u, c) \<Rightarrow> attention_into ops m i x c
     | (Err e, c) \<Rightarrow> (Err e, c)
     | (Panic, c) \<Rightarrow> (Panic, c)))"

section \<open>The layer loop\<close>

text \<open>A failed background preload is only logged.\<close>

fun run_tasks :: "'s offload_store \<Rightarrow> nat list \<Rightarrow> 's offload_cache list \<Rightarrow> (offload_error, 's offload_cache list) result" where
  "run_tasks ops [] cs = Ok cs"
| "run_tasks ops (j # js) cs = (case preload ops (cs ! j) of
       (Panic, _) \<Rightarrow> Panic
     | (_, c) \<Rightarrow> run_tasks ops js (cs[j := c]))"

fun initial_preload :: "'s offload_store \<Rightarrow> nat list \<Rightarrow> 's offload_cache list \<Rightarrow> (offload_error, 's offload_cache list) result" where
  "initial_preload ops [] cs = Ok cs"
| "initial_preload ops (j # js) cs = (case preload ops (cs ! j) of
       (Ok _, c) \<Rightarrow> initial_preload ops js (cs[j := c])
     | (Err e, _) \<Rightarrow> Err e
     | (Panic, _) \<Rightarrow> Panic)"

definition release_layer :: "'s offload_store \<Rightarrow> nat \<Rightarrow> 's offload_cache list \<Rightarrow> (offload_error, 's offload_cache list) result" where
  "release_layer ops j cs = (case release_buffers ops (cs ! j) of (Ok _, c) \<Rightarrow> Ok (cs[j := c]) | _ \<Rightarrow> Panic)"

text \<open>\<open>lp_pending\<close>: submitted and not collected. \<open>lp_waiting\<close>: those of them that have not run yet.\<close>

record ('s, 'x) loop_state =
  lp_x :: 'x
  lp_caches :: "'s offload_cache list"
  lp_pending :: "nat list"
  lp_waiting :: "nat list"

definition run_background :: "'s offload_store \<Rightarrow> (nat \<Rightarrow> bool) \<Rightarrow> ('s, 'x) loop_state \<Rightarrow> (offload_error, ('s, 'x) loop_state) result" where
  "run_background ops bg st = and_then (run_tasks ops (filter bg (lp_waiting st)) (lp_caches st)) (\<lambda>cs.
     Ok (st\<lparr>lp_caches := cs, lp_waiting := filter (\<lambda>j. \<not> bg j) (lp_waiting st)\<rparr>))"

definition collect :: "'s offload_store \<Rightarrow> nat \<Rightarrow> ('s, 'x) loop_state \<Rightarrow> (offload_error, ('s, 'x) loop_state) result" where
  "collect ops i st = and_then (run_tasks ops (filter (\<lambda>j. j = i) (lp_waiting st)) (lp_caches st)) (\<lambda>cs.
     Ok (st\<lparr>lp_caches := cs, lp_pending := removeAll i (lp_pending st), lp_waiting := removeAll i (lp_waiting st)\<rparr>))"

definition submit_far :: "nat \<Rightarrow> ('s, 'x) loop_state \<Rightarrow> ('s, 'x) loop_state" where
  "submit_far far st =
     (if far < length (lp_caches st) \<and> far \<notin> set (lp_pending st)
      then st\<lparr>lp_pending := lp_pending st @ [far], lp_waiting := lp_waiting st @ [far]\<rparr> else st)"

definition forward_layer :: "'s offload_store \<Rightarrow> 'x offload_model \<Rightarrow> nat \<Rightarrow> nat \<Rightarrow> nat \<Rightarrow> ('s, 'x) loop_state
    \<Rightarrow> (offload_error, ('s, 'x) loop_state) result" where
  "forward_layer ops m seq_len depth i st = (case layer_forward ops m seq_len i (lp_x st) (lp_caches st ! i) of
       (Ok x, c) \<Rightarrow>
         let cs = (lp_caches st)[i := if i < depth then retain_preload c else c] in
         and_then (if i > 0 \<and> i - 1 \<ge> depth then release_layer ops (i - 1) cs else Ok cs) (\<lambda>cs.
         Ok (st\<lparr>lp_x := x, lp_caches := cs\<rparr>))
     | (Err e, _) \<Rightarrow> Err e
     | (Panic, _) \<Rightarrow> Panic)"

definition loop_body :: "'s offload_store \<Rightarrow> 'x offload_model \<Rightarrow> nat \<Rightarrow> nat \<Rightarrow> (nat \<Rightarrow> nat \<Rightarrow> bool) \<Rightarrow> nat \<Rightarrow> ('s, 'x) loop_state
    \<Rightarrow> (offload_error, ('s, 'x) loop_state) result" where
  "loop_body ops m seq_len depth bg i st =
     and_then (run_background ops (bg i) st) (\<lambda>st.
     and_then (collect ops i st) (\<lambda>st.
     forward_layer ops m seq_len depth i (submit_far (i + depth) st)))"

definition forward_into_offload :: "'s offload_store \<Rightarrow> 'x offload_model \<Rightarrow> nat \<Rightarrow> nat \<Rightarrow> (nat \<Rightarrow> nat \<Rightarrow> bool) \<Rightarrow> 'x \<Rightarrow> 's offload_cache list
    \<Rightarrow> (offload_error, 'x \<times> 's offload_cache list) result" where
  "forward_into_offload ops m seq_len depth bg x cs =
     (let num_layers = length cs in
      and_then (initial_preload ops [0..<min depth num_layers] cs) (\<lambda>cs.
      let jobs = [depth..<min (2 * depth) num_layers] in
      and_then (try_fold (loop_body ops m seq_len depth bg) [0..<num_layers]
          \<lparr>lp_x = x, lp_caches = cs, lp_pending = jobs, lp_waiting = jobs\<rparr>) (\<lambda>st.
      and_then (if num_layers \<ge> 1 \<and> num_layers - 1 \<ge> depth then release_layer ops (num_layers - 1) (lp_caches st) else Ok (lp_caches st)) (\<lambda>cs.
      Ok (lp_x st, cs)))))"

section \<open>The pipelined pass is a pass over plain caches\<close>

text \<open>The reference: a layer appends its K and V to the tokens it has and attends to all of them.\<close>

definition cast_to :: "'x offload_model \<Rightarrow> dtype \<Rightarrow> byte list \<Rightarrow> byte list" where
  "cast_to m dt bs = (if dt \<noteq> D_F32 then om_cast m dt bs else bs)"

definition ref_layer :: "nat \<Rightarrow> dtype \<Rightarrow> 'x offload_model \<Rightarrow> nat \<Rightarrow> 'x \<times> (byte list \<times> byte list) list \<Rightarrow> 'x \<times> (byte list \<times> byte list) list" where
  "ref_layer tb dt m i = (\<lambda>(x, kvs). case (om_kv m i x, kvs ! i) of ((k, v), (K, V)) \<Rightarrow>
     let K' = K @ cast_to m dt k; V' = V @ cast_to m dt v in
     (om_attend m i x (length K' div tb, K', V'), kvs[i := (K', V')]))"

definition ref_forward :: "nat \<Rightarrow> dtype \<Rightarrow> 'x offload_model \<Rightarrow> 'x \<Rightarrow> (byte list \<times> byte list) list \<Rightarrow> 'x \<times> (byte list \<times> byte list) list" where
  "ref_forward tb dt m x kvs = fold (ref_layer tb dt m) [0..<length kvs] (x, kvs)"

text \<open>Decode steps one after the other: each has its prefetch depth, its interleaving and its embedded token.\<close>

fun decode_steps :: "'s offload_store \<Rightarrow> 'x offload_model \<Rightarrow> (nat \<times> (nat \<Rightarrow> nat \<Rightarrow> bool) \<times> 'x) list \<Rightarrow> 's offload_cache list
    \<Rightarrow> (offload_error, 'x list \<times> 's offload_cache list) result" where
  "decode_steps ops m [] cs = Ok ([], cs)"
| "decode_steps ops m ((depth, bg, x) # ss) cs = and_then (forward_into_offload ops m 1 depth bg x cs) (\<lambda>(y, cs).
     and_then (decode_steps ops m ss cs) (\<lambda>(ys, cs). Ok (y # ys, cs)))"

fun ref_steps :: "nat \<Rightarrow> dtype \<Rightarrow> 'x offload_model \<Rightarrow> 'x list \<Rightarrow> (byte list \<times> byte list) list \<Rightarrow> 'x list" where
  "ref_steps tb dt m [] kvs = []"
| "ref_steps tb dt m (x # xs) kvs = (case ref_forward tb dt m x kvs of (y, kvs') \<Rightarrow> y # ref_steps tb dt m xs kvs')"

text \<open>The numerics produce one token of the right size.\<close>

definition one_token :: "nat \<Rightarrow> dtype \<Rightarrow> 'x offload_model \<Rightarrow> bool" where
  "one_token tb dt m \<longleftrightarrow> (\<forall>i x. length (cast_to m dt (fst (om_kv m i x))) = tb \<and> length (cast_to m dt (snd (om_kv m i x))) = tb)"

text \<open>
  What the loop knows of its background tasks when the layers before \<open>lo\<close> are done: those from \<open>depth\<close> to \<open>hi\<close> are
  submitted, and a layer is preloaded, or is still to be.
\<close>

definition sched :: "nat \<Rightarrow> nat \<Rightarrow> nat \<Rightarrow> 's offload_cache list \<Rightarrow> nat list \<Rightarrow> nat list \<Rightarrow> bool" where
  "sched depth lo hi cs P W \<longleftrightarrow> set W \<subseteq> set P \<and> (\<forall>j \<in> set P. lo \<le> j \<and> depth \<le> j \<and> j < length cs)
     \<and> (\<forall>j < length cs. lo \<le> j \<longrightarrow> (j < depth \<longrightarrow> oc_preloaded (cs ! j)) \<and> (depth \<le> j \<and> j < hi \<longrightarrow> j \<in> set P)
          \<and> (j \<in> set P \<longrightarrow> j \<in> set W \<or> oc_preloaded (cs ! j)))"

lemma schedD:
  assumes "sched depth lo hi cs P W"
  shows "set W \<subseteq> set P" "j \<in> set P \<Longrightarrow> lo \<le> j \<and> depth \<le> j \<and> j < length cs"
    "j < length cs \<Longrightarrow> lo \<le> j \<Longrightarrow> j < depth \<Longrightarrow> oc_preloaded (cs ! j)"
    "j < length cs \<Longrightarrow> lo \<le> j \<Longrightarrow> depth \<le> j \<Longrightarrow> j < hi \<Longrightarrow> j \<in> set P"
    "j \<in> set P \<Longrightarrow> j \<in> set W \<or> oc_preloaded (cs ! j)"
  using assms unfolding sched_def by blast+

lemma sched_run:
  assumes "sched depth i (i + depth) cs P W" "length cs' = length cs" "i < length cs" "1 \<le> depth"
    and "\<forall>j < length cs. oc_preloaded (cs ! j) \<or> j \<in> set W \<and> (bg j \<or> j = i) \<longrightarrow> oc_preloaded (cs' ! j)"
  shows "sched depth (i + 1) (i + depth) cs' (removeAll i P) (removeAll i (filter (\<lambda>j. \<not> bg j) W)) \<and> oc_preloaded (cs' ! i)"
proof
  have "oc_preloaded (cs ! i) \<or> i \<in> set W"
    using schedD(3-5)[OF assms(1), of i] assms(3,4) by (cases "i < depth") auto
  with assms(3,5) show "oc_preloaded (cs' ! i)" by blast
  show "sched depth (i + 1) (i + depth) cs' (removeAll i P) (removeAll i (filter (\<lambda>j. \<not> bg j) W))"
    unfolding sched_def
  proof (intro conjI ballI allI impI)
    fix j assume j: "j \<in> set (removeAll i P)"
    then show "i + 1 \<le> j" "depth \<le> j" "j < length cs'" using schedD(2)[OF assms(1), of j] assms(2) by simp_all
  next
    fix j assume j: "j < length cs'" "i + 1 \<le> j"
    then show "j < depth \<Longrightarrow> oc_preloaded (cs' ! j)" using schedD(3)[OF assms(1), of j] assms(2,5) by simp
    show "depth \<le> j \<and> j < i + depth \<Longrightarrow> j \<in> set (removeAll i P)" using schedD(4)[OF assms(1), of j] assms(2) j by simp
    show "j \<in> set (removeAll i P) \<Longrightarrow> j \<in> set (removeAll i (filter (\<lambda>j. \<not> bg j) W)) \<or> oc_preloaded (cs' ! j)"
      using schedD(5)[OF assms(1), of j] assms(2,5) j by auto
  qed (use schedD(1)[OF assms(1)] in auto)
qed

lemma sched_submit:
  assumes "sched depth (i + 1) (i + depth) (lp_caches st) (lp_pending st) (lp_waiting st)" "1 \<le> depth"
  shows "sched depth (i + 1) (i + 1 + depth) (lp_caches st) (lp_pending (submit_far (i + depth) st)) (lp_waiting (submit_far (i + depth) st))"
proof -
  let ?P = "lp_pending (submit_far (i + depth) st)" let ?W = "lp_waiting (submit_far (i + depth) st)"
  have P: "j \<in> set ?P \<longleftrightarrow> j \<in> set (lp_pending st) \<or> j = i + depth \<and> j < length (lp_caches st)" for j
    by (auto simp: submit_far_def)
  have W: "j \<in> set ?W \<longleftrightarrow> j \<in> set (lp_waiting st) \<or> j = i + depth \<and> j < length (lp_caches st) \<and> j \<notin> set (lp_pending st)" for j
    by (auto simp: submit_far_def)
  show ?thesis unfolding sched_def
  proof (intro conjI ballI allI impI)
    show "set ?W \<subseteq> set ?P" using schedD(1)[OF assms(1)] by (auto simp: P W)
  next
    fix j assume "j \<in> set ?P"
    then show "i + 1 \<le> j" "depth \<le> j" "j < length (lp_caches st)" using schedD(2)[OF assms(1), of j] assms(2) by (auto simp: P)
  next
    fix j assume j: "j < length (lp_caches st)" "i + 1 \<le> j"
    show "j < depth \<Longrightarrow> oc_preloaded (lp_caches st ! j)" using schedD(3)[OF assms(1)] j by blast
    show "depth \<le> j \<and> j < i + 1 + depth \<Longrightarrow> j \<in> set ?P" using schedD(4)[OF assms(1), of j] j by (cases "j = i + depth") (simp_all add: P)
    show "j \<in> set ?P \<Longrightarrow> j \<in> set ?W \<or> oc_preloaded (lp_caches st ! j)" using schedD(5)[OF assms(1), of j] by (auto simp: P W)
  qed
qed

lemma sched_update:
  assumes "sched depth lo hi cs P W" "length cs' = length cs" "\<forall>j < length cs. lo \<le> j \<longrightarrow> cs' ! j = cs ! j"
  shows "sched depth lo hi cs' P W"
  using assms by (simp add: sched_def)

definition layer_ok :: "'s offload_store \<Rightarrow> nat \<Rightarrow> ('s \<Rightarrow> bool) \<Rightarrow> ('s \<Rightarrow> byte list) \<Rightarrow> ('s \<Rightarrow> byte list) \<Rightarrow> nat \<Rightarrow> dtype
    \<Rightarrow> 's offload_cache \<Rightarrow> byte list \<times> byte list \<Rightarrow> bool" where
  "layer_ok ops tb store_inv k_of v_of mx dt c kv \<longleftrightarrow> holds ops tb store_inv k_of v_of c (fst kv) (snd kv) \<and> readable c (fst kv) (snd kv)
     \<and> oc_max_seq_len c = mx \<and> oc_dtype c = dt"

context offload_client
begin

abbreviation "good \<equiv> layer_ok ops tb inv k_of v_of"

lemmas good_def = layer_ok_def

lemma good_pos: "good mx dt c kv \<Longrightarrow> length (fst kv) = oc_current_pos c * tb"
  by (simp add: good_def holds_def)

lemma preload_layer:
  assumes "list_all2 (good mx dt) cs kvs" "j < length cs"
  shows "\<exists>c. preload ops (cs ! j) = (Ok (), c) \<and> list_all2 (good mx dt) (cs[j := c]) kvs \<and> oc_preloaded c"
proof -
  have g: "good mx dt (cs ! j) (kvs ! j)" using assms by (simp add: list_all2_conv_all_nth)
  with preload_ok[of "cs ! j" "fst (kvs ! j)" "snd (kvs ! j)"] obtain c where c: "preload ops (cs ! j) = (Ok (), c)" "good mx dt c (kvs ! j)" "oc_preloaded c"
    by (auto simp: good_def)
  then have "list_all2 (good mx dt) (cs[j := c]) (kvs[j := kvs ! j])" by (intro list_all2_update_cong assms)
  with c show ?thesis by auto
qed

text \<open>What a batch of preloads does, in the background or at the start.\<close>

definition preloads :: "nat \<Rightarrow> dtype \<Rightarrow> nat list \<Rightarrow> 'a offload_cache list \<Rightarrow> (byte list \<times> byte list) list \<Rightarrow> 'a offload_cache list \<Rightarrow> bool" where
  "preloads mx dt js cs kvs cs' \<longleftrightarrow> list_all2 (good mx dt) cs' kvs \<and> length cs' = length cs \<and> (\<forall>j \<in> set js. oc_preloaded (cs' ! j))
     \<and> (\<forall>j < length cs. oc_preloaded (cs ! j) \<longrightarrow> oc_preloaded (cs' ! j))"

lemma preloads_Cons:
  assumes "preloads mx dt js (cs[j := c]) kvs cs'" "oc_preloaded c" "j < length cs"
  shows "preloads mx dt (j # js) cs kvs cs'"
  using assms by (auto simp: preloads_def nth_list_update)

lemma run_tasks_ok:
  assumes "list_all2 (good mx dt) cs kvs" "\<forall>j \<in> set js. j < length cs"
  shows "\<exists>cs'. run_tasks ops js cs = Ok cs' \<and> preloads mx dt js cs kvs cs'"
  using assms
proof (induction js arbitrary: cs)
  case (Cons j js)
  then obtain c where c: "preload ops (cs ! j) = (Ok (), c)" "list_all2 (good mx dt) (cs[j := c]) kvs" "oc_preloaded c"
    using preload_layer[OF Cons.prems(1), of j] by auto
  with Cons.IH[OF c(2)] Cons.prems(2) obtain cs' where "run_tasks ops js (cs[j := c]) = Ok cs'" "preloads mx dt js (cs[j := c]) kvs cs'" by auto
  with c Cons.prems(2) show ?case by (auto intro: preloads_Cons)
qed (simp add: preloads_def)

lemma initial_preload_ok:
  assumes "list_all2 (good mx dt) cs kvs" "\<forall>j \<in> set js. j < length cs"
  shows "\<exists>cs'. initial_preload ops js cs = Ok cs' \<and> preloads mx dt js cs kvs cs'"
  using assms
proof (induction js arbitrary: cs)
  case (Cons j js)
  then obtain c where c: "preload ops (cs ! j) = (Ok (), c)" "list_all2 (good mx dt) (cs[j := c]) kvs" "oc_preloaded c"
    using preload_layer[OF Cons.prems(1), of j] by auto
  with Cons.IH[OF c(2)] Cons.prems(2) obtain cs' where "initial_preload ops js (cs[j := c]) = Ok cs'" "preloads mx dt js (cs[j := c]) kvs cs'" by auto
  with c Cons.prems(2) show ?case by (auto intro: preloads_Cons)
qed (simp add: preloads_def)

lemma release_layer_ok:
  assumes "list_all2 (good mx dt) cs kvs" "j < length cs"
  shows "\<exists>c. release_layer ops j cs = Ok (cs[j := c]) \<and> list_all2 (good mx dt) (cs[j := c]) kvs"
proof -
  have g: "good mx dt (cs ! j) (kvs ! j)" using assms by (simp add: list_all2_conv_all_nth)
  with release_ok[of "cs ! j" "fst (kvs ! j)" "snd (kvs ! j)"] obtain c where c: "release_buffers ops (cs ! j) = (Ok (), c)" "good mx dt c (kvs ! j)"
    by (auto simp: good_def)
  then have "list_all2 (good mx dt) (cs[j := c]) (kvs[j := kvs ! j])" by (intro list_all2_update_cong assms)
  with c show ?thesis by (auto simp: release_layer_def)
qed

lemma maybe_release:
  assumes "list_all2 (good mx dt) cs kvs" "b \<Longrightarrow> j < length cs"
  shows "\<exists>cs'. (if b then release_layer ops j cs else Ok cs) = Ok cs' \<and> list_all2 (good mx dt) cs' kvs \<and> (\<forall>h. h \<noteq> j \<longrightarrow> cs' ! h = cs ! h)"
proof (cases b)
  case True
  then obtain c where "release_layer ops j cs = Ok (cs[j := c])" "list_all2 (good mx dt) (cs[j := c]) kvs"
    using release_layer_ok[OF assms(1)] assms(2) by blast
  with True show ?thesis by simp
qed (use assms(1) in simp)

lemma layer_forward_ok:
  assumes "good mx dt c (K, V)" "oc_preloaded c" "0 < oc_current_pos c" "oc_current_pos c < mx" "one_token tb dt m" "om_kv m i x = (k, v)"
  shows "\<exists>c'. layer_forward ops m 1 i x c = (Ok (om_attend m i x (oc_current_pos c + 1, K @ cast_to m dt k, V @ cast_to m dt v)), c')
    \<and> good mx dt c' (K @ cast_to m dt k, V @ cast_to m dt v) \<and> fresh c' (K @ cast_to m dt k) (V @ cast_to m dt v)"
proof -
  have h: "hold c K V" "fresh c K V" "oc_max_seq_len c = mx" "oc_dtype c = dt" using assms(1-3) by (auto simp: good_def readable_def)
  have len: "length (cast_to m dt k) = tb" "length (cast_to m dt v) = tb" using assms(5)[unfolded one_token_def] assms(6) by (metis fst_conv snd_conv)+
  obtain c1 where c1: "update_offload ops 1 (cast_to m dt k) (cast_to m dt v) c = (Ok (), c1)" "hold c1 (K @ cast_to m dt k) (V @ cast_to m dt v)"
      "fresh c1 (K @ cast_to m dt k) (V @ cast_to m dt v)" "oc_current_pos c1 = oc_current_pos c + 1" "oc_max_seq_len c1 = mx" "oc_dtype c1 = dt"
    using update_deferred_ok[OF h(1,2) assms(2) _ len] assms(4) h(3,4) by auto
  obtain c2 where "get_view ops c1 = (Ok (oc_current_pos c + 1, K @ cast_to m dt k, V @ cast_to m dt v), c2)"
      "good mx dt c2 (K @ cast_to m dt k, V @ cast_to m dt v)" "fresh c2 (K @ cast_to m dt k) (V @ cast_to m dt v)"
    using get_view_ok[OF c1(2)] c1 by (auto simp: readable_def good_def)
  moreover have "write_inner ops m 1 k v c = (Ok (), c1)" using c1(1) h(4) by (cases "dt = D_F32") (simp_all add: write_inner_def cast_to_def)
  ultimately show ?thesis using assms(6) by (simp add: layer_forward_def attention_into_def)
qed

lemma collected:
  assumes "list_all2 (good mx dt) (lp_caches st) kvs" "sched depth i (i + depth) (lp_caches st) (lp_pending st) (lp_waiting st)" "i < length kvs" "1 \<le> depth"
  shows "\<exists>st'. and_then (run_background ops bg st) (collect ops i) = Ok st' \<and> lp_x st' = lp_x st
    \<and> list_all2 (good mx dt) (lp_caches st') kvs \<and> sched depth (i + 1) (i + depth) (lp_caches st') (lp_pending st') (lp_waiting st')
    \<and> oc_preloaded (lp_caches st' ! i)"
proof -
  have L: "length (lp_caches st) = length kvs" using assms(1) by (rule list_all2_lengthD)
  let ?W = "lp_waiting st" let ?P = "lp_pending st"
  have w: "\<forall>j \<in> set ?W. j < length kvs" using assms(2) L by (auto simp: sched_def)
  obtain cs1 where cs1: "run_tasks ops (filter bg ?W) (lp_caches st) = Ok cs1" "preloads mx dt (filter bg ?W) (lp_caches st) kvs cs1"
    using run_tasks_ok[OF assms(1), of "filter bg ?W"] w L by auto
  let ?W1 = "filter (\<lambda>j. \<not> bg j) ?W"
  obtain cs2 where cs2: "run_tasks ops (filter (\<lambda>j. j = i) ?W1) cs1 = Ok cs2" "preloads mx dt (filter (\<lambda>j. j = i) ?W1) cs1 kvs cs2"
    using run_tasks_ok[of mx dt cs1 kvs "filter (\<lambda>j. j = i) ?W1"] w L cs1(2) by (auto simp: preloads_def)
  let ?st = "st\<lparr>lp_caches := cs2, lp_pending := removeAll i ?P, lp_waiting := removeAll i ?W1\<rparr>"
  have "sched depth (i + 1) (i + depth) cs2 (removeAll i ?P) (removeAll i ?W1) \<and> oc_preloaded (cs2 ! i)"
    by (rule sched_run[OF assms(2)]) (use L assms(3,4) cs1(2) cs2(2) in \<open>auto simp: preloads_def\<close>)
  moreover have "and_then (run_background ops bg st) (collect ops i) = Ok ?st" using cs1(1) cs2(1) by (simp add: run_background_def collect_def)
  ultimately show ?thesis using cs2(2) by (auto simp: preloads_def)
qed

lemma forward_layer_ok:
  assumes "list_all2 (good mx dt) (lp_caches st) kvs" "sched depth (i + 1) hi (lp_caches st) (lp_pending st) (lp_waiting st)" "i < length kvs"
    and "oc_preloaded (lp_caches st ! i)" "0 < length (fst (kvs ! i))" "length (fst (kvs ! i)) < mx * tb" "one_token tb dt m"
  shows "\<exists>st'. forward_layer ops m 1 depth i st = Ok st' \<and> lp_x st' = fst (ref_layer tb dt m i (lp_x st, kvs))
    \<and> list_all2 (good mx dt) (lp_caches st') (snd (ref_layer tb dt m i (lp_x st, kvs)))
    \<and> sched depth (i + 1) hi (lp_caches st') (lp_pending st') (lp_waiting st')"
proof -
  let ?cs = "lp_caches st" let ?c = "?cs ! i"
  have L: "length ?cs = length kvs" using assms(1) by (rule list_all2_lengthD)
  obtain K V where kv: "kvs ! i = (K, V)" by fastforce
  obtain k v where mk: "om_kv m i (lp_x st) = (k, v)" by fastforce
  define K' V' where new: "K' = K @ cast_to m dt k" "V' = V @ cast_to m dt v"
  have g: "good mx dt ?c (K, V)" using assms(1,3) L kv by (metis list_all2_conv_all_nth)
  have p: "length K = oc_current_pos ?c * tb" "0 < oc_current_pos ?c" "oc_current_pos ?c < mx" using good_pos[OF g] assms(5,6) kv by auto
  obtain c' where c': "layer_forward ops m 1 i (lp_x st) ?c = (Ok (om_attend m i (lp_x st) (oc_current_pos ?c + 1, K', V')), c')" "good mx dt c' (K', V')" "fresh c' K' V'"
    using layer_forward_ok[OF g assms(4) p(2,3) assms(7) mk] new by blast
  have "length K' = (oc_current_pos ?c + 1) * tb" using assms(7) mk p(1) new(1) by (auto simp: one_token_def) (metis fst_conv)
  then have n: "length K' div tb = oc_current_pos ?c + 1" using tb_pos by simp
  have ref: "ref_layer tb dt m i (lp_x st, kvs) = (om_attend m i (lp_x st) (oc_current_pos ?c + 1, K', V'), kvs[i := (K', V')])"
    using n unfolding new by (simp add: ref_layer_def mk kv Let_def)
  define c1 where c1: "c1 = (if i < depth then retain_preload c' else c')"
  have "good mx dt c1 (K', V')" using retain_ok[of c' K' V'] c'(2,3) c1 by (auto simp: good_def)
  then have g1: "list_all2 (good mx dt) (?cs[i := c1]) (kvs[i := (K', V')])" by (intro list_all2_update_cong assms(1))
  have "i - 1 < length (?cs[i := c1])" if "i > 0 \<and> i - 1 \<ge> depth" using L assms(3) by simp
  from maybe_release[OF g1 this] obtain cs2 where cs2: "(if i > 0 \<and> i - 1 \<ge> depth then release_layer ops (i - 1) (?cs[i := c1]) else Ok (?cs[i := c1])) = Ok cs2"
      "list_all2 (good mx dt) cs2 (kvs[i := (K', V')])" "\<forall>h. h \<noteq> i - 1 \<longrightarrow> cs2 ! h = ?cs[i := c1] ! h" by blast
  then have other: "\<forall>j < length ?cs. i + 1 \<le> j \<longrightarrow> cs2 ! j = ?cs ! j" by simp
  have "forward_layer ops m 1 depth i st = Ok (st\<lparr>lp_x := om_attend m i (lp_x st) (oc_current_pos ?c + 1, K', V'), lp_caches := cs2\<rparr>)"
    unfolding forward_layer_def c'(1) Let_def prod.case result.case c1[symmetric] cs2(1) by simp
  moreover have "sched depth (i + 1) hi cs2 (lp_pending st) (lp_waiting st)"
    using sched_update[OF assms(2) _ other] cs2(2) L by (simp add: list_all2_lengthD)
  ultimately show ?thesis using ref cs2(2) by simp
qed

lemma loop_body_ok:
  assumes "list_all2 (good mx dt) (lp_caches st) kvs" "sched depth i (i + depth) (lp_caches st) (lp_pending st) (lp_waiting st)" "i < length kvs" "1 \<le> depth"
    and "0 < length (fst (kvs ! i))" "length (fst (kvs ! i)) < mx * tb" "one_token tb dt m"
  shows "\<exists>st'. loop_body ops m 1 depth bg i st = Ok st' \<and> lp_x st' = fst (ref_layer tb dt m i (lp_x st, kvs))
    \<and> list_all2 (good mx dt) (lp_caches st') (snd (ref_layer tb dt m i (lp_x st, kvs)))
    \<and> sched depth (i + 1) (i + 1 + depth) (lp_caches st') (lp_pending st') (lp_waiting st')"
proof -
  obtain s1 where s1: "and_then (run_background ops (bg i) st) (collect ops i) = Ok s1" "lp_x s1 = lp_x st" "list_all2 (good mx dt) (lp_caches s1) kvs"
      "sched depth (i + 1) (i + depth) (lp_caches s1) (lp_pending s1) (lp_waiting s1)" "oc_preloaded (lp_caches s1 ! i)"
    using collected[OF assms(1-4)] by blast
  let ?s2 = "submit_far (i + depth) s1"
  have s2: "lp_caches ?s2 = lp_caches s1" "lp_x ?s2 = lp_x st" using s1(2) by (simp_all add: submit_far_def)
  from forward_layer_ok[of mx dt ?s2 kvs depth i "i + 1 + depth" m] sched_submit[OF s1(4) assms(4)] s1 s2 assms(3,5-7)
  show ?thesis by (auto simp: loop_body_def and_then_assoc[symmetric])
qed

text \<open>The layers that are still to come keep their tokens.\<close>

lemma ref_layer_other: "j \<noteq> i \<Longrightarrow> snd (ref_layer tb' dt m i (x, kvs)) ! j = kvs ! j"
  by (simp add: ref_layer_def Let_def split: prod.split)

lemma ref_layer_length [simp]: "length (snd (ref_layer tb' dt m i (x, kvs))) = length kvs"
  by (simp add: ref_layer_def Let_def split: prod.split)

lemma ref_fold_length [simp]: "length (snd (fold (ref_layer tb' dt m) is s)) = length (snd s)"
proof (induction "is" arbitrary: s)
  case (Cons i "is")
  then show ?case by (cases s) simp
qed simp

lemma loop_ok:
  assumes "list_all2 (good mx dt) (lp_caches st) kvs" "sched depth i (i + depth) (lp_caches st) (lp_pending st) (lp_waiting st)" "i + n = length kvs" "1 \<le> depth"
    and "\<forall>j. i \<le> j \<and> j < length kvs \<longrightarrow> 0 < length (fst (kvs ! j)) \<and> length (fst (kvs ! j)) < mx * tb" "one_token tb dt m"
  shows "\<exists>st'. try_fold (loop_body ops m 1 depth bg) [i..<i + n] st = Ok st' \<and> lp_x st' = fst (fold (ref_layer tb dt m) [i..<i + n] (lp_x st, kvs))
    \<and> list_all2 (good mx dt) (lp_caches st') (snd (fold (ref_layer tb dt m) [i..<i + n] (lp_x st, kvs)))"
  using assms(1,2,3,5)
proof (induction n arbitrary: i st kvs)
  case (Suc n)
  have i: "i < length kvs" using Suc.prems(3) by simp
  obtain s1 where s1: "loop_body ops m 1 depth bg i st = Ok s1" "lp_x s1 = fst (ref_layer tb dt m i (lp_x st, kvs))"
      "list_all2 (good mx dt) (lp_caches s1) (snd (ref_layer tb dt m i (lp_x st, kvs)))" "sched depth (i + 1) (i + 1 + depth) (lp_caches s1) (lp_pending s1) (lp_waiting s1)"
    using loop_body_ok[OF Suc.prems(1,2) i assms(4) _ _ assms(6)] Suc.prems(4) i by blast
  obtain x1 kvs1 where r: "ref_layer tb dt m i (lp_x st, kvs) = (x1, kvs1)" by fastforce
  have k1: "length kvs1 = length kvs" "\<And>j. j \<noteq> i \<Longrightarrow> kvs1 ! j = kvs ! j"
    using ref_layer_length[of tb dt m i "lp_x st" kvs] ref_layer_other[of _ i tb dt m "lp_x st" kvs] by (simp_all add: r)
  have "[i..<i + Suc n] = i # [i + 1..<i + 1 + n]" by (simp add: upt_conv_Cons)
  moreover from Suc.IH[of s1 kvs1 "i + 1"] s1(2-4) r k1 Suc.prems(3,4) obtain s2 where "try_fold (loop_body ops m 1 depth bg) [i + 1..<i + 1 + n] s1 = Ok s2"
      "lp_x s2 = fst (fold (ref_layer tb dt m) [i + 1..<i + 1 + n] (x1, kvs1))" "list_all2 (good mx dt) (lp_caches s2) (snd (fold (ref_layer tb dt m) [i + 1..<i + 1 + n] (x1, kvs1)))"
    by auto
  ultimately show ?case using s1(1) r by (simp del: upt_Suc)
qed simp

lemma forward_ok:
  assumes "list_all2 (good mx dt) cs kvs" "1 \<le> depth" "\<forall>kv \<in> set kvs. 0 < length (fst kv) \<and> length (fst kv) < mx * tb" "one_token tb dt m"
  shows "\<exists>cs'. forward_into_offload ops m 1 depth bg x cs = Ok (fst (ref_forward tb dt m x kvs), cs')
    \<and> list_all2 (good mx dt) cs' (snd (ref_forward tb dt m x kvs))"
proof -
  let ?L = "length cs"
  have L: "?L = length kvs" using assms(1) by (rule list_all2_lengthD)
  obtain cs1 where cs1: "initial_preload ops [0..<min depth ?L] cs = Ok cs1" "preloads mx dt [0..<min depth ?L] cs kvs cs1"
    using initial_preload_ok[OF assms(1), of "[0..<min depth ?L]"] by auto
  let ?jobs = "[depth..<min (2 * depth) ?L]"
  let ?st = "\<lparr>lp_x = x, lp_caches = cs1, lp_pending = ?jobs, lp_waiting = ?jobs\<rparr>"
  have "sched depth 0 (0 + depth) cs1 ?jobs ?jobs" using cs1(2) by (auto simp: sched_def preloads_def)
  with loop_ok[of mx dt ?st kvs depth 0 ?L m bg] cs1(2) L assms(2-4) obtain st where st: "try_fold (loop_body ops m 1 depth bg) [0..<?L] ?st = Ok st"
      "lp_x st = fst (ref_forward tb dt m x kvs)" "list_all2 (good mx dt) (lp_caches st) (snd (ref_forward tb dt m x kvs))"
    by (auto simp: preloads_def ref_forward_def)
  have "length (lp_caches st) = ?L" using list_all2_lengthD[OF st(3)] L by (simp add: ref_forward_def)
  then have "?L - 1 < length (lp_caches st)" if "?L \<ge> 1 \<and> ?L - 1 \<ge> depth" using that by linarith
  from maybe_release[OF st(3) this] obtain cs2 where "(if ?L \<ge> 1 \<and> ?L - 1 \<ge> depth then release_layer ops (?L - 1) (lp_caches st) else Ok (lp_caches st)) = Ok cs2"
      "list_all2 (good mx dt) cs2 (snd (ref_forward tb dt m x kvs))"
    by blast
  with cs1(1) st show ?thesis by (auto simp: forward_into_offload_def Let_def)
qed

lemma ref_fold_grows:
  assumes "one_token tb dt m" "distinct is" "set is \<subseteq> {..<length kvs}" "j < length kvs"
  shows "length (fst (snd (fold (ref_layer tb dt m) is (x, kvs)) ! j)) = length (fst (kvs ! j)) + (if j \<in> set is then tb else 0)"
  using assms(2-4)
proof (induction "is" arbitrary: x kvs)
  case (Cons i "is")
  obtain x1 kvs1 where r: "ref_layer tb dt m i (x, kvs) = (x1, kvs1)" by fastforce
  have len: "length kvs1 = length kvs" using ref_layer_length[of tb dt m i x kvs] by (simp add: r)
  have "length (fst (kvs1 ! j)) = length (fst (kvs ! j)) + (if j = i then tb else 0)"
    using r Cons.prems assms(1) by (auto simp: ref_layer_def Let_def one_token_def nth_list_update split: prod.splits) (metis fst_conv)
  with Cons.IH[of kvs1 x1] Cons.prems len show ?case by (auto simp: r)
qed simp

lemma ref_forward_grows:
  assumes "one_token tb dt m" "kv \<in> set (snd (ref_forward tb dt m x kvs))"
  shows "\<exists>kv0 \<in> set kvs. length (fst kv) = length (fst kv0) + tb"
proof -
  from assms(2) obtain j where j: "j < length kvs" "kv = snd (ref_forward tb dt m x kvs) ! j" by (auto simp: in_set_conv_nth ref_forward_def)
  with ref_fold_grows[OF assms(1), of "[0..<length kvs]" kvs j x] show ?thesis
    by (auto simp: ref_forward_def atLeast0LessThan intro!: bexI[of _ "kvs ! j"])
qed

lemma decode_ok:
  assumes "list_all2 (good mx dt) cs kvs" "\<forall>s \<in> set ss. 1 \<le> fst s" "one_token tb dt m"
    and "\<forall>kv \<in> set kvs. 0 < length (fst kv) \<and> length (fst kv) + length ss * tb \<le> mx * tb"
  shows "\<exists>cs'. decode_steps ops m ss cs = Ok (ref_steps tb dt m (map (\<lambda>s. snd (snd s)) ss) kvs, cs')"
  using assms(1,2,4)
proof (induction ss arbitrary: cs kvs)
  case (Cons s ss)
  obtain depth bg x where s: "s = (depth, bg, x)" by (metis prod_cases3)
  obtain y kvs1 where r: "ref_forward tb dt m x kvs = (y, kvs1)" by fastforce
  have "0 < length (fst kv) \<and> length (fst kv) < mx * tb" if "kv \<in> set kvs" for kv using Cons.prems(3) that tb_pos by fastforce
  then obtain cs1 where cs1: "forward_into_offload ops m 1 depth bg x cs = Ok (y, cs1)" "list_all2 (good mx dt) cs1 kvs1"
    using forward_ok[OF Cons.prems(1), of depth m bg x] Cons.prems(2) s assms(3) r by auto
  have "0 < length (fst kv) \<and> length (fst kv) + length ss * tb \<le> mx * tb" if "kv \<in> set kvs1" for kv
    using ref_forward_grows[OF assms(3), of kv x kvs] Cons.prems(3) that r by fastforce
  with Cons.IH[OF cs1(2)] Cons.prems(2) obtain cs2 where "decode_steps ops m ss cs1 = Ok (ref_steps tb dt m (map (\<lambda>s. snd (snd s)) ss) kvs1, cs2)" by auto
  with s r cs1(1) show ?case by simp
qed simp

lemma lazy_buf_updates [simp]:
  "lazy_buf (c\<lparr>oc_preloaded := p\<rparr>) b = lazy_buf c b" "lazy_buf (c\<lparr>oc_store := s\<rparr>) b = lazy_buf c b" "lazy_buf (c\<lparr>oc_current_pos := n\<rparr>) b = lazy_buf c b"
  by (simp_all add: lazy_buf_def split: option.split)

text \<open>A write of several tokens does not reach buffers that are marked as loaded.\<close>

lemma write_behind_view:
  assumes "hold c K V" "oc_preloaded c \<or> oc_current_pos c = 0" "n \<noteq> 1" "0 < n" "oc_current_pos c + n \<le> oc_max_seq_len c" "1 \<le> depth"
    and "om_kv m 0 x = (k, v)" "length (cast_to m (oc_dtype c) k) = n * tb" "length (cast_to m (oc_dtype c) v) = n * tb"
  shows "\<exists>c'. forward_into_offload ops m n depth bg x [c]
    = Ok (om_attend m 0 x (oc_current_pos c + n, take ((oc_current_pos c + n) * tb) (lazy_buf c (oc_attn_k c)), take ((oc_current_pos c + n) * tb) (lazy_buf c (oc_attn_v c))), [c'])"
proof -
  let ?p = "oc_current_pos c" let ?k = "cast_to m (oc_dtype c) k" let ?v = "cast_to m (oc_dtype c) v"
  have tb: "oc_token_bytes c = tb" "inv (oc_store c)" "oc_store_behind c \<le> ?p" using assms(1) by (simp_all add: holds_def)
  have "\<exists>s. update_offload ops n ?k ?v (c\<lparr>oc_preloaded := True\<rparr>) = (Ok (), c\<lparr>oc_preloaded := True, oc_store := s, oc_current_pos := ?p + n\<rparr>)"
    using append_range_ok[OF tb(2), of 0 n ?k ?v] store[OF tb(2), of ?k n ?v] assms(3,5,8,9) tb(1)
    by (cases "?p = 0") (auto simp: update_offload_def advance_def)
  then obtain s where s: "update_offload ops n ?k ?v (c\<lparr>oc_preloaded := True\<rparr>) = (Ok (), c\<lparr>oc_preloaded := True, oc_store := s, oc_current_pos := ?p + n\<rparr>)" by blast
  have w: "write_inner ops m n k v (c\<lparr>oc_preloaded := True\<rparr>) = (Ok (), c\<lparr>oc_preloaded := True, oc_store := s, oc_current_pos := ?p + n\<rparr>)"
    using s by (cases "oc_dtype c = D_F32") (simp_all add: write_inner_def cast_to_def)
  have pl: "preload ops c = (Ok (), c\<lparr>oc_preloaded := True\<rparr>)" using assms(2) tb by (auto simp: preload_def flush_deferred_def)
  have le: "(?p + n) * tb \<le> oc_max_seq_len c * tb" using assms(5) by (rule mult_le_mono1)
  have v: "get_view ops (c\<lparr>oc_preloaded := True, oc_store := s, oc_current_pos := ?p + n\<rparr>)
      = (Ok (?p + n, take ((?p + n) * tb) (lazy_buf c (oc_attn_k c)), take ((?p + n) * tb) (lazy_buf c (oc_attn_v c))),
         c\<lparr>oc_store := s, oc_current_pos := ?p + n, oc_attn_k := Some (lazy_buf c (oc_attn_k c)), oc_attn_v := Some (lazy_buf c (oc_attn_v c)), oc_preloaded := False\<rparr>)"
    using le length_lazy_buf[OF assms(1)] assms(4) tb(1) by (simp add: get_view_def Let_def slice_def)
  have d: "[0..<min depth (length [c])] = [0]" "[depth..<min (2 * depth) (length [c])] = []" using assms(6) by (simp_all add: min_def)
  show ?thesis using pl w v assms(6,7)
    by (simp add: forward_into_offload_def d loop_body_def run_background_def collect_def submit_far_def forward_layer_def layer_forward_def attention_into_def Let_def)
qed

end

section \<open>What the offloaded decode computes\<close>

text \<open>A new cache holds nothing, and a migration fills it.\<close>

lemma disk_migrated:
  assumes "0 < tb" "tb = heads * dim * DType_size dt" "length k = n * tb" "length v = n * tb" "n \<le> mx"
  shows "\<exists>c. migrate_from_raw (disk_ops io_ok) k v n (OffloadKVCache_new heads dim dt mx (DiskStore_new tb)) = (Ok (), c)
    \<and> layer_ok (disk_ops io_ok) tb (disk_inv tb) ds_k_file ds_v_file mx dt c (k, v)"
proof -
  obtain s where "so_store (disk_ops io_ok) k v n (DiskStore_new tb) = (Ok (), s)" "disk_inv tb s" "ds_k_file s = k" "ds_v_file s = v"
      "so_stored_tokens (disk_ops io_ok) s = n"
    using disk.store[OF disk_new_inv assms(3,4)] by blast
  then show ?thesis using assms by (simp add: migrate_from_raw_def OffloadKVCache_new_def layer_ok_def holds_def readable_def)
qed

text \<open>
  The pipelining itself is transparent. Take layers in a store whose reads and writes succeed, each with some tokens, whose buffers, where they are marked
  as loaded, show these tokens (\<open>layer_ok\<close>): layers filled by \<open>migrate_from_raw\<close> are such. However deep the prefetch, whenever its background tasks happen to
  run, and whichever layers keep their buffers from one step to the next, every decode step computes what the same model computes over
  caches in memory that only append. The first pass over an empty layer does not leave such a layer: its buffers are
  marked as loaded and hold zeros (\<open>prefill_reads_stale_buffers\<close>).
\<close>

theorem offloaded_decode_is_plain:
  assumes "0 < tb" "list_all2 (layer_ok (disk_ops io_ok) tb (disk_inv tb) ds_k_file ds_v_file mx dt) cs kvs"
    and "\<forall>s \<in> set ss. 1 \<le> fst s" "one_token tb dt m" "\<forall>kv \<in> set kvs. 0 < length (fst kv) \<and> length (fst kv) + length ss * tb \<le> mx * tb"
  shows "\<exists>cs'. decode_steps (disk_ops io_ok) m ss cs = Ok (ref_steps tb dt m (map (\<lambda>s. snd (snd s)) ss) kvs, cs')"
proof -
  obtain t where t: "tb = Suc t" using assms(1) gr0_implies_Suc by blast
  show ?thesis using disk_client.decode_ok[of t mx dt cs kvs ss m] assms(2-5) unfolding t by blast
qed

definition demo_model :: "byte list offload_model" where
  "demo_model = \<lparr>om_kv = (\<lambda>i x. ([word_of_nat i + sum_list x], [sum_list x])), om_cast = (\<lambda>_ b. b), om_attend = (\<lambda>i x (n, K, V). [sum_list x + sum_list K, sum_list V])\<rparr>"

theorem offloaded_decode_is_plain_witness:
  "\<exists>c cs'. migrate_from_raw (disk_ops io_ok) [5] [6] 1 (OffloadKVCache_new 1 1 D_U8 9 (DiskStore_new 1)) = (Ok (), c)
     \<and> decode_steps (disk_ops io_ok) demo_model [(1, \<lambda>i j. True, [1]), (16, \<lambda>i j. False, [2])] [c, c]
       = Ok (ref_steps 1 D_U8 demo_model [[1], [2]] [([5], [6]), ([5], [6])], cs')"
proof -
  obtain c where c: "migrate_from_raw (disk_ops io_ok) [5] [6] 1 (OffloadKVCache_new 1 1 D_U8 9 (DiskStore_new 1)) = (Ok (), c)"
      "layer_ok (disk_ops io_ok) 1 (disk_inv 1) ds_k_file ds_v_file 9 D_U8 c ([5], [6])"
    using disk_migrated[of 1 1 1 D_U8 "[5]" 1 "[6]" 9] by auto
  have m: "one_token 1 D_U8 demo_model" by (simp add: one_token_def demo_model_def cast_to_def)
  from offloaded_decode_is_plain[of 1 9 D_U8 "[c, c]" "[([5], [6]), ([5], [6])]" "[(1, \<lambda>i j. True, [1]), (16, \<lambda>i j. False, [2])]", OF _ _ _ m] c
  show ?thesis by auto
qed

text \<open>
  C31: The first prefill attends to nothing. The pass preloads a layer before it writes to it; the preload of an empty
  cache, like a preload that was kept from an earlier turn, marks the buffers as loaded, and a write of several tokens goes to
  the store alone. The attention of that pass reads the buffers as they were: on a new cache, zeros in place of
  every token of the prompt.
\<close>

theorem prefill_reads_stale_buffers:
  assumes "0 < tb" "holds raw_ops tb (raw_inv tb) rs_k_data rs_v_data c K V" "oc_preloaded c \<or> oc_current_pos c = 0"
    and "n \<noteq> 1" "0 < n" "oc_current_pos c + n \<le> oc_max_seq_len c" "1 \<le> depth" "om_kv m 0 x = (k, v)"
    and "length (cast_to m (oc_dtype c) k) = n * tb" "length (cast_to m (oc_dtype c) v) = n * tb"
  shows "\<exists>c'. forward_into_offload raw_ops m n depth bg x [c]
    = Ok (om_attend m 0 x (oc_current_pos c + n, take ((oc_current_pos c + n) * tb) (lazy_buf c (oc_attn_k c)), take ((oc_current_pos c + n) * tb) (lazy_buf c (oc_attn_v c))), [c'])"
proof -
  obtain t where t: "tb = Suc t" using assms(1) gr0_implies_Suc by blast
  show ?thesis using raw_client.write_behind_view[of t c K V n depth m x k v bg] assms(2-10) unfolding t by blast
qed

theorem prefill_reads_stale_buffers_witness:
  "\<exists>c'. forward_into_offload raw_ops (demo_model\<lparr>om_kv := \<lambda>i x. ([7, 8], [9, 10])\<rparr>) 2 16 (\<lambda>i j. False) [1]
      [OffloadKVCache_new 1 1 D_U8 9 (RawStore_new 1)] = Ok ([1, 0], [c'])"
proof -
  have "holds raw_ops 1 (raw_inv 1) rs_k_data rs_v_data (OffloadKVCache_new 1 1 D_U8 9 (RawStore_new 1)) [] []"
    by (simp add: holds_def OffloadKVCache_new_def RawStore_new_def raw_inv_def raw_ops_def)
  from prefill_reads_stale_buffers[OF _ this, where n = 2 and depth = 16 and m = "demo_model\<lparr>om_kv := \<lambda>i x. ([7, 8], [9, 10])\<rparr>" and x = "[1]"
      and k = "[7, 8]" and v = "[9, 10]" and bg = "\<lambda>i j. False"]
  show ?thesis by (simp add: OffloadKVCache_new_def cast_to_def demo_model_def lazy_buf_def numeral_eq_Suc)
qed

end
