(* ===== verification/Prefix_Cache.thy ===== *)
theory Prefix_Cache
  imports Swap_Props "HOL-Library.Monad_Syntax"
begin

text \<open>
  The prefix cache of \<^verbatim>\<open>engine/src/session/prefix_cache.rs\<close>: after the prefill of a prompt the KV caches of all layers
  are written to a file, and a later session whose prompt starts with the same tokens reads them back. With it
  the two operations of \<open>SnapshotRestore\<close> that \<open>StandardFormat\<close> implements (\<^verbatim>\<open>engine/src/kv/standard_format.rs\<close>), and
  the decision of \<^verbatim>\<open>engine/src/session/standard_happy.rs\<close> what to do with the answer.

  A buffer is read and written as bytes here. How a unit (an \<open>f32\<close>, an \<open>f16\<close>, a block) lies in memory is a parameter, a
  pair of inverse functions. Logits are \<open>f32\<close> bit patterns. The atomic rename is one write; a failed one leaves
  no file.
\<close>

section \<open>Buffers as bytes\<close>

record 'u unit_repr =
  ur_bytes :: "'u \<Rightarrow> byte list"
  ur_unit :: "byte list \<Rightarrow> 'u"

definition buffer_bytes :: "'u unit_repr \<Rightarrow> 'u list \<Rightarrow> byte list" where
  "buffer_bytes ur b = concat (map (ur_bytes ur) b)"

definition buffer_units :: "'u unit_repr \<Rightarrow> nat \<Rightarrow> nat \<Rightarrow> byte list \<Rightarrow> 'u list" where
  "buffer_units ur sz n raw = map (\<lambda>i. ur_unit ur (field raw (i * sz) sz)) [0..<n]"

text \<open>Bytes per unit, and bytes per head and position; only three element types are supported.\<close>

definition unit_size :: "dtype \<Rightarrow> nat" where
  "unit_size dt = (case dt of D_F32 \<Rightarrow> 4 | D_F16 \<Rightarrow> 2 | D_Q4_0 \<Rightarrow> size_of_BlockQ4_0 | _ \<Rightarrow> 1)"

definition pos_bytes :: "dtype \<Rightarrow> nat \<Rightarrow> nat option" where
  "pos_bytes dt dim = (case dt of D_F32 \<Rightarrow> Some (dim * 4) | D_F16 \<Rightarrow> Some (dim * 2) | D_Q4_0 \<Rightarrow> Some (dim div QK4_0 * size_of_BlockQ4_0) | _ \<Rightarrow> None)"

section \<open>Snapshot and restore of a layer\<close>

datatype prefix_error = SnapshotPos | RestoreNotEmpty | UnsupportedDtype | PrefixKv kv_error | PrefixIo

text \<open>The zeroed vector is filled head by head at adjacent offsets, so it is the concatenation of the parts.\<close>

definition extract_packed_bytes :: "'u unit_repr \<Rightarrow> 'u kvcache \<Rightarrow> nat \<Rightarrow> 'u list \<Rightarrow> (prefix_error, byte list) result" where
  "extract_packed_bytes ur c n b = (case pos_bytes (kv_dtype c) (head_dim c) of
     None \<Rightarrow> Err UnsupportedDtype
   | Some pb \<Rightarrow>
       let raw = buffer_bytes ur b; head_stride_bytes = capacity c * pb; row_bytes = n * pb in
       try_fold (\<lambda>h out. and_then (slice raw (h * head_stride_bytes) (h * head_stride_bytes + row_bytes)) (\<lambda>s. Ok (out @ s)))
         [0..<kv_heads c] [])"

definition scatter_packed_bytes :: "'u unit_repr \<Rightarrow> 'u kvcache \<Rightarrow> nat \<Rightarrow> byte list \<Rightarrow> 'u list \<Rightarrow> (prefix_error, 'u list) result" where
  "scatter_packed_bytes ur c n packed b = (case pos_bytes (kv_dtype c) (head_dim c) of
     None \<Rightarrow> Err UnsupportedDtype
   | Some pb \<Rightarrow>
       let head_stride_bytes = capacity c * pb; row_bytes = n * pb in
       and_then (try_fold (\<lambda>h raw. and_then (slice packed (h * row_bytes) (h * row_bytes + row_bytes)) (copy_into raw (h * head_stride_bytes)))
         [0..<kv_heads c] (replicate (length (buffer_bytes ur b)) 0)) (\<lambda>raw.
       Ok (buffer_units ur (unit_size (kv_dtype c)) (length b) raw)))"

definition snapshot_prefix :: "'u unit_repr \<Rightarrow> nat \<Rightarrow> 'u kvcache \<Rightarrow> (prefix_error, byte list) result" where
  "snapshot_prefix ur n c =
     (if current_pos c \<noteq> n then Err SnapshotPos
      else and_then (extract_packed_bytes ur c n (k_buffer c)) (\<lambda>k.
           and_then (extract_packed_bytes ur c n (v_buffer c)) (\<lambda>v. Ok (k @ v))))"

text \<open>The outcome and the cache it leaves: callers go on with the cache after an error.\<close>

definition restore_prefix :: "'u unit_repr \<Rightarrow> byte list \<Rightarrow> nat \<Rightarrow> 'u kvcache \<Rightarrow> (prefix_error, unit) result \<times> 'u kvcache" where
  "restore_prefix ur bs n c =
     (if current_pos c \<noteq> 0 then (Err RestoreNotEmpty, c)
      else case ensure_capacity n c of
        Err e \<Rightarrow> (Err (PrefixKv e), c)
      | Panic \<Rightarrow> (Panic, c)
      | Ok (_, c) \<Rightarrow>
          (let half = length bs div 2 in
           case scatter_packed_bytes ur c n (take half bs) (k_buffer c) of
             Err e \<Rightarrow> (Err e, c)
           | Panic \<Rightarrow> (Panic, c)
           | Ok kb \<Rightarrow>
               (case scatter_packed_bytes ur c n (drop half bs) (v_buffer c) of
                  Err e \<Rightarrow> (Err e, c\<lparr>k_buffer := kb\<rparr>)
                | Panic \<Rightarrow> (Panic, c\<lparr>k_buffer := kb\<rparr>)
                | Ok vb \<Rightarrow>
                    let c = set_current_pos n (c\<lparr>k_buffer := kb, v_buffer := vb\<rparr>) in
                    (Ok (), c\<lparr>high_water_pos := max (high_water_pos c) n\<rparr>))))"

definition snapshot_format_id :: "'u kvcache \<Rightarrow> u32" where
  "snapshot_format_id c = (case kv_dtype c of D_F32 \<Rightarrow> 1 | D_F16 \<Rightarrow> 2 | D_Q4_0 \<Rightarrow> 3 | _ \<Rightarrow> 0)"

section \<open>The file\<close>

definition MAGIC :: "byte list" where
  "MAGIC = ascii ''ARGUSKV1''"

definition VERSION :: u32 where
  "VERSION = 2"

definition FIXED_HEADER_BYTES :: nat where
  "FIXED_HEADER_BYTES = 100"

text \<open>What a file is bound to: the hashes of the model and the tokenizer, the format and the geometry.\<close>

record prefix_key =
  pk_model_hash :: "byte list"
  pk_tokenizer_hash :: "byte list"
  pk_format_id :: u32
  pk_kv_heads :: u32
  pk_head_dim :: u32

definition write_u32s :: "u32 list \<Rightarrow> byte list" where
  "write_u32s ws = concat (map u32_to_le ws)"

fun snapshot_layers :: "'u unit_repr \<Rightarrow> nat \<Rightarrow> 'u kvcache list \<Rightarrow> (prefix_error, byte list) result" where
  "snapshot_layers ur n [] = Ok []"
| "snapshot_layers ur n (c # cs) = and_then (snapshot_prefix ur n c) (\<lambda>bs. and_then (snapshot_layers ur n cs) (\<lambda>rest. Ok (bs @ rest)))"

definition prefix_header :: "prefix_key \<Rightarrow> nat \<Rightarrow> u32 list \<Rightarrow> u32 list \<Rightarrow> byte list" where
  "prefix_header key n_layers ids logits =
     MAGIC @ u32_to_le VERSION @ u32_to_le (word_of_nat (FIXED_HEADER_BYTES - 8 - 4 - 4) + word_of_nat (length ids) * 4)
     @ pk_model_hash key @ u32_to_le (pk_format_id key) @ pk_tokenizer_hash key @ u32_to_le (pk_kv_heads key) @ u32_to_le (pk_head_dim key)
     @ u32_to_le (word_of_nat n_layers) @ u32_to_le (word_of_nat (length ids)) @ write_u32s ids
     @ u32_to_le (word_of_nat (length logits)) @ write_u32s logits"

definition save_prefix :: "'u unit_repr \<Rightarrow> bool \<Rightarrow> prefix_key \<Rightarrow> u32 list \<Rightarrow> u32 list \<Rightarrow> 'u kvcache list \<Rightarrow> (prefix_error, byte list) result" where
  "save_prefix ur io key ids logits cs =
     and_then (snapshot_layers ur (length ids) cs) (\<lambda>payload.
     if io then Ok (prefix_header key (length cs) ids logits @ payload) else Err PrefixIo)"

definition read_u32 :: "byte list \<Rightarrow> nat \<Rightarrow> (u32 \<times> nat) option" where
  "read_u32 src off = (if off + 4 > length src then None else Some (u32_from_le (field src off 4), off + 4))"

definition read_bytes :: "nat \<Rightarrow> byte list \<Rightarrow> nat \<Rightarrow> (byte list \<times> nat) option" where
  "read_bytes n src off = (if off + n > length src then None else Some (field src off n, off + n))"

definition read_u32s :: "nat \<Rightarrow> byte list \<Rightarrow> nat \<Rightarrow> (u32 list \<times> nat) option" where
  "read_u32s n src off = (if off + n * 4 > length src then None
     else Some (map (\<lambda>i. u32_from_le (field src (off + i * 4) 4)) [0..<n], off + n * 4))"

definition check_hit :: "bool \<Rightarrow> unit option" where
  "check_hit b = (if b then Some () else None)"

text \<open>
  Every check that fails is a miss. A hit is the number of tokens, the logits and the payload.
\<close>

definition read_prefix :: "prefix_key \<Rightarrow> nat \<Rightarrow> u32 list \<Rightarrow> byte list \<Rightarrow> (nat \<times> u32 list \<times> byte list) option" where
  "read_prefix key n_layers prompt raw = do {
     (magic, off) \<leftarrow> read_bytes 8 raw 0;
     check_hit (magic = MAGIC);
     (version, off) \<leftarrow> read_u32 raw off;
     check_hit (version = VERSION);
     (header_len, off) \<leftarrow> read_u32 raw off;
     (model_hash, off) \<leftarrow> read_bytes 32 raw off;
     (format_id, off) \<leftarrow> read_u32 raw off;
     (tokenizer_hash, off) \<leftarrow> read_bytes 32 raw off;
     (heads, off) \<leftarrow> read_u32 raw off;
     (dim, off) \<leftarrow> read_u32 raw off;
     (layers, off) \<leftarrow> read_u32 raw off;
     (token_count, off) \<leftarrow> read_u32 raw off;
     check_hit (heads = pk_kv_heads key \<and> dim = pk_head_dim key \<and> layers = word_of_nat n_layers);
     check_hit (model_hash = pk_model_hash key);
     check_hit (format_id = pk_format_id key);
     check_hit (tokenizer_hash = pk_tokenizer_hash key);
     (ids, off) \<leftarrow> read_u32s (unat token_count) raw off;
     check_hit (unat token_count \<le> length prompt);
     check_hit (ids = take (unat token_count) prompt);
     (logits_len, off) \<leftarrow> read_u32 raw off;
     (logits, off) \<leftarrow> read_u32s (unat logits_len) raw off;
     Some (unat token_count, logits, drop off raw) }"

fun restore_layers :: "'u unit_repr \<Rightarrow> nat \<Rightarrow> nat \<Rightarrow> byte list \<Rightarrow> 'u kvcache list \<Rightarrow> (prefix_error, unit) result \<times> 'u kvcache list" where
  "restore_layers ur n per_layer payload [] = (Ok (), [])"
| "restore_layers ur n per_layer payload (c # cs) = (case restore_prefix ur (take per_layer payload) n c of
       (Ok u, c) \<Rightarrow> (case restore_layers ur n per_layer (drop per_layer payload) cs of (r, cs) \<Rightarrow> (r, c # cs))
     | (r, c) \<Rightarrow> (r, c # cs))"

datatype file_read = NotFound | ReadError | Contents "byte list"

record restored_prefix =
  rp_token_count :: nat
  rp_last_logits :: "u32 list"

definition try_restore_prefix :: "'u unit_repr \<Rightarrow> file_read \<Rightarrow> prefix_key \<Rightarrow> u32 list \<Rightarrow> 'u kvcache list
    \<Rightarrow> (prefix_error, restored_prefix option) result \<times> 'u kvcache list" where
  "try_restore_prefix ur file key prompt cs = (case file of
     NotFound \<Rightarrow> (Ok None, cs)
   | ReadError \<Rightarrow> (Err PrefixIo, cs)
   | Contents raw \<Rightarrow> (case read_prefix key (length cs) prompt raw of
       None \<Rightarrow> (Ok None, cs)
     | Some (n, logits, payload) \<Rightarrow>
         let hit = Ok (Some \<lparr>rp_token_count = n, rp_last_logits = if n < length prompt then [] else logits\<rparr>) in
         if cs = [] then (hit, cs)
         else
           let per_layer = length payload div length cs in
           if per_layer * length cs \<noteq> length payload then (Ok None, cs)
           else (case restore_layers ur n per_layer payload cs of
               (Ok _, cs) \<Rightarrow> (hit, cs)
             | (Err e, cs) \<Rightarrow> (Err e, cs)
             | (Panic, cs) \<Rightarrow> (Panic, cs))))"

section \<open>What the session does with the answer\<close>

text \<open>
  A hit for the whole prompt whose logits do not have the size of the vocabulary is given up, as is an error; the
  session then prefills the whole prompt.
\<close>

definition restore_decision :: "'u unit_repr \<Rightarrow> file_read \<Rightarrow> prefix_key \<Rightarrow> u32 list \<Rightarrow> nat \<Rightarrow> 'u kvcache list
    \<Rightarrow> (prefix_error, restored_prefix option) result \<times> 'u kvcache list" where
  "restore_decision ur file key prompt vocab cs =
     (if (\<exists>c \<in> set (take 1 cs). is_opaque c \<or> (\<exists>d \<in> set cs. kv_dtype d \<noteq> kv_dtype c)) then (Ok None, cs)
      else case try_restore_prefix ur file (key\<lparr>pk_format_id := (case cs of [] \<Rightarrow> 0 | c # _ \<Rightarrow> snapshot_format_id c)\<rparr>) prompt cs of
        (Ok (Some r), cs) \<Rightarrow>
          if rp_token_count r = length prompt \<and> rp_last_logits r \<noteq> [] \<and> length (rp_last_logits r) \<noteq> vocab then (Ok None, cs)
          else (Ok (Some r), cs)
      | (Ok None, cs) \<Rightarrow> (Ok None, cs)
      | (Err e, cs) \<Rightarrow> (Ok None, cs)
      | (Panic, cs) \<Rightarrow> (Panic, cs))"

section \<open>Bytes and rows\<close>

text \<open>Every unit has the size of its type and comes back from its bytes.\<close>

definition repr_ok :: "'u unit_repr \<Rightarrow> nat \<Rightarrow> bool" where
  "repr_ok ur sz \<longleftrightarrow> (\<forall>u. length (ur_bytes ur u) = sz \<and> ur_unit ur (ur_bytes ur u) = u)"

lemma length_buffer_bytes: "repr_ok ur sz \<Longrightarrow> length (buffer_bytes ur b) = length b * sz"
  by (induction b) (simp_all add: buffer_bytes_def repr_ok_def)

lemma drop_buffer_bytes: "repr_ok ur sz \<Longrightarrow> drop (i * sz) (buffer_bytes ur b) = buffer_bytes ur (drop i b)"
proof (induction b arbitrary: i)
  case (Cons u b)
  then show ?case by (cases i) (simp_all add: buffer_bytes_def repr_ok_def)
qed (simp add: buffer_bytes_def)

lemma take_buffer_bytes: "repr_ok ur sz \<Longrightarrow> take (i * sz) (buffer_bytes ur b) = buffer_bytes ur (take i b)"
proof (induction b arbitrary: i)
  case (Cons u b)
  then show ?case by (cases i) (simp_all add: buffer_bytes_def repr_ok_def)
qed (simp add: buffer_bytes_def)

lemma unit_of_bytes:
  assumes "repr_ok ur sz" "i < length b"
  shows "ur_unit ur (field (buffer_bytes ur b) (i * sz) sz) = b ! i"
proof -
  have "field (buffer_bytes ur b) (i * sz) (1 * sz) = buffer_bytes ur (take 1 (drop i b))"
    by (simp only: drop_buffer_bytes[OF assms(1)] take_buffer_bytes[OF assms(1)])
  also have "take 1 (drop i b) = [b ! i]" using assms(2) by (simp add: take_Suc_conv_app_nth)
  finally show ?thesis using assms(1) by (simp add: buffer_bytes_def repr_ok_def)
qed

text \<open>Copying the blocks of a packed list to wider strides.\<close>

lemma scatter_blocks:
  fixes raw :: "byte list"
  assumes "length raw = H * S" "m \<le> S" "k \<le> H" "k * m \<le> length packed"
  shows "\<exists>raw'. try_fold (\<lambda>h raw. and_then (slice packed (h * m) (h * m + m)) (copy_into raw (h * S))) [0..<k] raw = (Ok raw' :: (prefix_error, _) result)
    \<and> length raw' = H * S \<and> (\<forall>h < k. field raw' (h * S) m = field packed (h * m) m)"
  using assms(3,4)
proof (induction k)
  case (Suc k)
  then obtain r where r: "try_fold (\<lambda>h raw. and_then (slice packed (h * m) (h * m + m)) (copy_into raw (h * S))) [0..<k] raw = (Ok r :: (prefix_error, _) result)"
      "length r = H * S" "\<forall>h < k. field r (h * S) m = field packed (h * m) m" by auto
  have k: "Suc k \<le> H" using Suc.prems(1) .
  have fit: "k * S + m \<le> H * S" "k * m + m \<le> length packed" using mult_le_mono1[OF k, of S] assms(2) Suc.prems(2) by simp_all
  let ?s = "field packed (k * m) m"
  have s: "length ?s = m" using fit by simp
  let ?r = "take (k * S) r @ ?s @ drop (k * S + m) r"
  have step: "and_then (slice packed (k * m) (k * m + m)) (copy_into r (k * S)) = (Ok ?r :: (prefix_error, _) result)"
    using fit r(2) by (simp add: slice_def copy_into_def)
  have old: "field ?r (h * S) m = field packed (h * m) m" if "h < k" for h
  proof -
    have "h * S + m \<le> k * S" using mult_le_mono1[of "Suc h" k S] that assms(2) by simp
    then have "field ?r (h * S) m = field r (h * S) m" using field_overwrite_other[of "k * S" ?s r "h * S" m] s fit(1) r(2) by simp
    with r(3) that show ?thesis by simp
  qed
  have new: "field ?r (k * S) m = ?s" using field_overwrite_same[of "k * S" ?s r] s fit(1) r(2) by simp
  have "length ?r = H * S" using fit r(2) s by simp
  with old new show ?case using r(1) step by (simp add: try_fold_append less_Suc_eq)
qed (use assms(1) in simp)

text \<open>A packed list that is too short ends in a slice out of range.\<close>

lemma scatter_blocks_short:
  fixes raw :: "byte list"
  assumes "length raw = H * S" "m \<le> S" "k \<le> H" "length packed < k * m"
  shows "try_fold (\<lambda>h raw. and_then (slice packed (h * m) (h * m + m)) (copy_into raw (h * S))) [0..<k] raw = (Panic :: (prefix_error, _) result)"
  using assms(3,4)
proof (induction k)
  case (Suc k)
  show ?case
  proof (cases "length packed < k * m")
    case True
    with Suc show ?thesis by (simp add: try_fold_append)
  next
    case False
    with scatter_blocks[OF assms(1,2), of k packed] Suc.prems show ?thesis by (auto simp: try_fold_append slice_def)
  qed
qed simp

lemma extract_blocks:
  fixes raw :: "byte list"
  assumes "length raw = H * S" "m \<le> S"
  shows "k \<le> H \<Longrightarrow> try_fold (\<lambda>h out. and_then (slice raw (h * S) (h * S + m)) (\<lambda>s. Ok (out @ s))) [0..<k] [] = (Ok (concat (map (\<lambda>h. field raw (h * S) m) [0..<k])) :: (prefix_error, _) result)"
proof (induction k)
  case (Suc k)
  then have "k * S + m \<le> length raw" using mult_le_mono1[of "Suc k" H S] assms by simp
  with Suc show ?case by (simp add: try_fold_append slice_def)
qed simp

section \<open>One layer there and back\<close>

definition snap_layer :: "'u unit_repr \<Rightarrow> nat \<Rightarrow> 'u kvcache \<Rightarrow> bool" where
  "snap_layer ur n c \<longleftrightarrow> kv_wf c \<and> opaque c = None \<and> layout c = HeadMajor \<and> head_starts_raw c = [] \<and> current_pos c = n
     \<and> repr_ok ur (unit_size (kv_dtype c))"

text \<open>An empty cache of the same type and geometry that has, or can get, room for the tokens.\<close>

definition takes_layer :: "nat \<Rightarrow> 'u kvcache \<Rightarrow> 'u kvcache \<Rightarrow> bool" where
  "takes_layer n c t \<longleftrightarrow> kv_wf t \<and> opaque t = None \<and> layout t = HeadMajor \<and> head_starts_raw t = [] \<and> current_pos t = 0
     \<and> kv_dtype t = kv_dtype c \<and> kv_heads t = kv_heads c \<and> head_dim t = head_dim c \<and> n \<le> max_seq_len t
     \<and> (n \<le> capacity t \<or> memory t \<noteq> None \<and> (\<forall>N. can_alloc t N))"

lemma pos_bytes_row:
  assumes "kv_wf c" "opaque c = None"
  shows "pos_bytes (kv_dtype c) (head_dim c) = Some (row c * unit_size (kv_dtype c))" "0 < unit_size (kv_dtype c)"
  using assms by (auto simp: kv_wf_def format_ok_def pos_bytes_def unit_size_def row_def is_q4_def is_opaque_def size_of_BlockQ4_0_def)

lemma block_fits:
  assumes "h < H" "m \<le> S"
  shows "h * S + m \<le> H * (S :: nat)"
  using mult_le_mono1[OF Suc_leI[OF assms(1)], of S] assms(2) by simp

text \<open>The bytes of a head, and the packed bytes of a buffer.\<close>

definition head_bytes :: "'u unit_repr \<Rightarrow> 'u kvcache \<Rightarrow> nat \<Rightarrow> 'u list \<Rightarrow> nat \<Rightarrow> byte list" where
  "head_bytes ur c n b h = field (buffer_bytes ur b) (h * (capacity c * (row c * unit_size (kv_dtype c)))) (n * (row c * unit_size (kv_dtype c)))"

definition packed :: "'u unit_repr \<Rightarrow> 'u kvcache \<Rightarrow> nat \<Rightarrow> 'u list \<Rightarrow> byte list" where
  "packed ur c n b = concat (map (head_bytes ur c n b) [0..<kv_heads c])"

lemma buf_bytes:
  assumes "repr_ok ur (unit_size (kv_dtype c))" "length b = kv_heads c * capacity c * row c"
  shows "length (buffer_bytes ur b) = kv_heads c * (capacity c * (row c * unit_size (kv_dtype c)))"
  using assms by (simp add: length_buffer_bytes mult.assoc)

lemma head_bytes_length:
  assumes "repr_ok ur (unit_size (kv_dtype c))" "length b = kv_heads c * capacity c * row c" "n \<le> capacity c" "h < kv_heads c"
  shows "length (head_bytes ur c n b h) = n * (row c * unit_size (kv_dtype c))"
proof -
  let ?p = "row c * unit_size (kv_dtype c)"
  have "h * (capacity c * ?p) + n * ?p \<le> kv_heads c * (capacity c * ?p)"
    using block_fits[OF assms(4), of "n * ?p" "capacity c * ?p"] mult_le_mono1[OF assms(3), of ?p] by blast
  then show ?thesis using buf_bytes[OF assms(1,2)] by (simp add: head_bytes_def)
qed

lemma packed_length:
  assumes "repr_ok ur (unit_size (kv_dtype c))" "length b = kv_heads c * capacity c * row c" "n \<le> capacity c"
  shows "length (packed ur c n b) = kv_heads c * (n * (row c * unit_size (kv_dtype c)))"
  unfolding packed_def by (rule concat_length) (simp add: head_bytes_length[OF assms])

lemma extract_ok:
  assumes "kv_wf c" "opaque c = None" "repr_ok ur (unit_size (kv_dtype c))" "length b = kv_heads c * capacity c * row c" "n \<le> capacity c"
  shows "extract_packed_bytes ur c n b = Ok (packed ur c n b)"
  using extract_blocks[OF buf_bytes[OF assms(3,4)], of "n * (row c * unit_size (kv_dtype c))" "kv_heads c"] assms(5) pos_bytes_row[OF assms(1,2)]
  by (simp add: extract_packed_bytes_def packed_def head_bytes_def[abs_def])

lemma scatter_ok:
  assumes "kv_wf t" "opaque t = None" "repr_ok ur (unit_size (kv_dtype c))" "length b = kv_heads t * capacity t * row t" "n \<le> capacity t"
    and "length b0 = kv_heads c * capacity c * row c" "n \<le> capacity c" "kv_dtype t = kv_dtype c" "kv_heads t = kv_heads c" "row t = row c"
  shows "\<exists>b'. scatter_packed_bytes ur t n (packed ur c n b0) b = Ok b' \<and> length b' = length b
    \<and> (\<forall>h < kv_heads c. \<forall>q < n * row c. b' ! (h * capacity t * row c + q) = b0 ! (h * capacity c * row c + q))"
proof -
  let ?sz = "unit_size (kv_dtype c)" let ?pb = "row c * ?sz"
  let ?S = "capacity t * ?pb" let ?m = "n * ?pb" let ?H = "kv_heads c"
  have rb: "length (replicate (length (buffer_bytes ur b)) (0 :: byte)) = ?H * ?S"
    using buf_bytes[of ur t b] assms(3,4,8-10) by simp
  have pl: "length (packed ur c n b0) = ?H * ?m" by (rule packed_length[OF assms(3,6,7)])
  have le: "?m \<le> ?S" using assms(5) by simp
  obtain raw where raw: "try_fold (\<lambda>h raw. and_then (slice (packed ur c n b0) (h * ?m) (h * ?m + ?m)) (copy_into raw (h * ?S))) [0..<?H]
        (replicate (length (buffer_bytes ur b)) 0) = (Ok raw :: (prefix_error, _) result)"
      "length raw = ?H * ?S" "\<forall>h < ?H. field raw (h * ?S) ?m = field (packed ur c n b0) (h * ?m) ?m"
    using scatter_blocks[OF rb le le_refl, of "packed ur c n b0"] pl by auto
  have blk: "field raw (h * ?S) ?m = head_bytes ur c n b0 h" if "h < ?H" for h
    using raw(3) that concat_block[of ?H "head_bytes ur c n b0" ?m h] head_bytes_length[OF assms(3,6,7)] by (simp add: packed_def)
  let ?b = "buffer_units ur ?sz (length b) raw"
  have "?b ! (h * capacity t * row c + q) = b0 ! (h * capacity c * row c + q)" if h: "h < ?H" and q: "q < n * row c" for h q
  proof -
    have i: "h * capacity t * row c + q < length b" and j: "h * capacity c * row c + q < length b0"
      using block_fits[OF h, of "Suc q" "capacity t * row c"] block_fits[OF h, of "Suc q" "capacity c * row c"]
        less_le_trans[OF q mult_le_mono1[OF assms(5)]] less_le_trans[OF q mult_le_mono1[OF assms(7)]] assms(4,6,9,10)
      by (simp_all add: mult.assoc Suc_le_eq)
    have qm: "q * ?sz + ?sz \<le> ?m" using mult_le_mono1[OF Suc_leI[OF q], of ?sz] by (simp add: mult.assoc)
    have "field raw ((h * capacity t * row c + q) * ?sz) ?sz = field (field raw (h * ?S) ?m) (q * ?sz) ?sz"
      using field_field[OF qm, where b = raw and s = "h * ?S"] by (simp add: algebra_simps)
    also have "\<dots> = field (buffer_bytes ur b0) ((h * capacity c * row c + q) * ?sz) ?sz"
      using field_field[OF qm, where b = "buffer_bytes ur b0" and s = "h * (capacity c * ?pb)"] unfolding blk[OF h] head_bytes_def by (simp add: algebra_simps)
    finally have "ur_unit ur (field raw ((h * capacity t * row c + q) * ?sz) ?sz) = b0 ! (h * capacity c * row c + q)"
      using unit_of_bytes[OF assms(3) j] by simp
    with i show ?thesis by (simp add: buffer_units_def)
  qed
  moreover have "scatter_packed_bytes ur t n (packed ur c n b0) b = Ok ?b"
    using raw(1) pos_bytes_row[OF assms(1,2)] assms(8-10) by (simp add: scatter_packed_bytes_def Let_def)
  ultimately show ?thesis by (auto simp: buffer_units_def)
qed

lemma rowat_eqI:
  assumes "length b = N * w" "length b' = N' * w" "i < N" "i' < N'" "\<And>j. j < w \<Longrightarrow> b' ! (i' * w + j) = b ! (i * w + j)"
  shows "rowat b' w i' = rowat b w i"
proof (rule nth_equalityI)
  have le: "i * w + w \<le> length b" "i' * w + w \<le> length b'" using block_fits[OF assms(3), of w w] block_fits[OF assms(4), of w w] assms(1,2) by simp_all
  then show "length (rowat b' w i') = length (rowat b w i)" by (simp add: rowat_def)
  fix j assume "j < length (rowat b' w i')"
  then have "j < w" using le by (simp add: rowat_def)
  with le assms(5) show "rowat b' w i' ! j = rowat b w i ! j" by (simp add: rowat_def)
qed

lemma restore_room:
  assumes "takes_layer n c t"
  shows "\<exists>g t'. ensure_capacity n t = Ok (g, t') \<and> kv_wf t' \<and> n \<le> capacity t' \<and> opaque t' = None \<and> layout t' = HeadMajor \<and> head_starts_raw t' = []
    \<and> current_pos t' = 0 \<and> kv_dtype t' = kv_dtype c \<and> kv_heads t' = kv_heads c \<and> head_dim t' = head_dim c"
proof (cases "n \<le> capacity t")
  case True
  then show ?thesis using assms by (auto simp: takes_layer_def ensure_capacity_def)
next
  case False
  with assms obtain t' where g: "grow n t = Ok t'" "kv_wf t'" "n \<le> capacity t'"
      "same_geom (t\<lparr>k_buffer := k_buffer t', v_buffer := v_buffer t', capacity := capacity t'\<rparr>) t'"
    using grow_ok[of t n] by (auto simp: takes_layer_def)
  with same_geom_fields[OF g(4)] assms False show ?thesis by (auto simp: takes_layer_def ensure_capacity_def)
qed

lemma same_row: "kv_dtype t = kv_dtype c \<Longrightarrow> head_dim t = head_dim c \<Longrightarrow> opaque t = None \<Longrightarrow> opaque c = None \<Longrightarrow> row t = row c"
  by (simp add: row_def is_q4_def)

lemma restored_wf:
  assumes "kv_wf t" "n \<le> capacity t" "head_starts_raw t = []" "length kb = length (k_buffer t)" "length vb = length (v_buffer t)"
    and c': "c' = (let c = set_current_pos n (t\<lparr>k_buffer := kb, v_buffer := vb\<rparr>) in c\<lparr>high_water_pos := max (high_water_pos c) n\<rparr>)"
  shows "kv_wf c'" "current_pos c' = n" "head_starts_raw c' = []" "k_buffer c' = kb" "v_buffer c' = vb" "row c' = row t" "capacity c' = capacity t"
    "layout c' = layout t" "kv_heads c' = kv_heads t" "kv_dtype c' = kv_dtype t"
proof -
  show f: "current_pos c' = n" "head_starts_raw c' = []" "k_buffer c' = kb" "v_buffer c' = vb" "row c' = row t" "capacity c' = capacity t"
      "layout c' = layout t" "kv_heads c' = kv_heads t" "kv_dtype c' = kv_dtype t"
    using assms(3) by (simp_all add: c' set_current_pos_def row_def is_q4_def Let_def split: option.split)
  have "format_ok c' = format_ok t" "max_seq_len c' = max_seq_len t" "memory c' = memory t" "n \<le> high_water_pos c'" "high_water_pos c' \<le> capacity t"
    using assms(1,2) by (auto simp: c' set_current_pos_def format_ok_def Let_def kv_wf_def split: option.splits)
  with f assms(1,4,5) show "kv_wf c'" by (simp add: kv_wf_def bufs_ok_def)
qed

lemma layer_roundtrip:
  assumes "snap_layer ur n c" "takes_layer n c t"
  shows "\<exists>bs t'. snapshot_prefix ur n c = Ok bs \<and> length bs = 2 * (kv_heads c * (n * (row c * unit_size (kv_dtype c))))
    \<and> restore_prefix ur bs n t = (Ok (), t') \<and> kv_wf t' \<and> current_pos t' = n \<and> (\<forall>h < kv_heads c. contents t' h = contents c h)"
proof -
  have c: "kv_wf c" "opaque c = None" "layout c = HeadMajor" "head_starts_raw c = []" "current_pos c = n" "repr_ok ur (unit_size (kv_dtype c))" "n \<le> capacity c"
      "length (k_buffer c) = kv_heads c * capacity c * row c" "length (v_buffer c) = kv_heads c * capacity c * row c"
    using assms(1) by (auto simp: snap_layer_def kv_wf_def bufs_ok_def)
  obtain g t1 where t1: "ensure_capacity n t = Ok (g, t1)" "kv_wf t1" "n \<le> capacity t1" "opaque t1 = None" "layout t1 = HeadMajor" "head_starts_raw t1 = []"
      "kv_dtype t1 = kv_dtype c" "kv_heads t1 = kv_heads c" "head_dim t1 = head_dim c"
    using restore_room[OF assms(2)] by blast
  have r: "row t1 = row c" by (rule same_row) (use t1 c in simp_all)
  have b1: "length (k_buffer t1) = kv_heads t1 * capacity t1 * row t1" "length (v_buffer t1) = kv_heads t1 * capacity t1 * row t1"
    using t1(2) by (simp_all add: kv_wf_def bufs_ok_def)
  let ?k = "packed ur c n (k_buffer c)" let ?v = "packed ur c n (v_buffer c)"
  have pl: "length ?k = kv_heads c * (n * (row c * unit_size (kv_dtype c)))" "length ?v = length ?k"
    using packed_length[OF c(6,8,7)] packed_length[OF c(6,9,7)] by simp_all
  have snap: "snapshot_prefix ur n c = Ok (?k @ ?v)"
    using extract_ok[OF c(1,2,6,8,7)] extract_ok[OF c(1,2,6,9,7)] c(5) by (simp add: snapshot_prefix_def)
  obtain kb where kb: "scatter_packed_bytes ur t1 n ?k (k_buffer t1) = Ok kb" "length kb = length (k_buffer t1)"
      "\<forall>h < kv_heads c. \<forall>q < n * row c. kb ! (h * capacity t1 * row c + q) = k_buffer c ! (h * capacity c * row c + q)"
    using scatter_ok[OF t1(2,4) c(6) b1(1) t1(3) c(8,7) t1(7,8) r] by blast
  obtain vb where vb: "scatter_packed_bytes ur t1 n ?v (v_buffer t1) = Ok vb" "length vb = length (v_buffer t1)"
      "\<forall>h < kv_heads c. \<forall>q < n * row c. vb ! (h * capacity t1 * row c + q) = v_buffer c ! (h * capacity c * row c + q)"
    using scatter_ok[OF t1(2,4) c(6) b1(2) t1(3) c(9,7) t1(7,8) r] by blast
  define t' where t': "t' = (let c = set_current_pos n (t1\<lparr>k_buffer := kb, v_buffer := vb\<rparr>) in c\<lparr>high_water_pos := max (high_water_pos c) n\<rparr>)"
  note w = restored_wf[OF t1(2,3,6) kb(2) vb(2) t']
  have res: "restore_prefix ur (?k @ ?v) n t = (Ok (), t')"
    using t1(1) kb(1) vb(1) pl assms(2) by (simp add: restore_prefix_def takes_layer_def t' Let_def)
  have cellrow: "rowat b' (row c) (h * capacity t1 + p) = rowat b (row c) (h * capacity c + p)"
    if "\<forall>h < kv_heads c. \<forall>q < n * row c. b' ! (h * capacity t1 * row c + q) = b ! (h * capacity c * row c + q)"
      "length b = kv_heads c * capacity c * row c" "length b' = kv_heads c * capacity t1 * row c" "h < kv_heads c" "p < n" for b b' :: "'a list" and h p
  proof (rule rowat_eqI[OF that(2,3)])
    show "h * capacity c + p < kv_heads c * capacity c" "h * capacity t1 + p < kv_heads c * capacity t1"
      using block_fits[OF that(4), of "Suc p" "capacity c"] block_fits[OF that(4), of "Suc p" "capacity t1"] that(5) c(7) t1(3) by simp_all
    fix j assume "j < row c"
    then have q: "p * row c + j < n * row c" using block_fits[OF that(5), of "Suc j" "row c"] by simp
    with that(1,4) have "b' ! (h * capacity t1 * row c + (p * row c + j)) = b ! (h * capacity c * row c + (p * row c + j))" by blast
    then show "b' ! ((h * capacity t1 + p) * row c + j) = b ! ((h * capacity c + p) * row c + j)" by (simp add: algebra_simps)
  qed
  have "contents t' h = contents c h" if h: "h < kv_heads c" for h
  proof -
    have "cell t' h p = cell c h p" if "p < n" for p
      using cellrow[OF kb(3) c(8) _ h that] cellrow[OF vb(3) c(9) _ h that] kb(2) vb(2) b1 w r t1(5,8) c(3)
      by (simp add: cell_def row_ix_def)
    then show ?thesis using w(2,3) c(4,5) by (simp add: uniform_contents)
  qed
  with snap pl res w(1,2) show ?thesis by auto
qed

end
