(* ===== verification/Prefix_Props.thy ===== *)
theory Prefix_Props
  imports Prefix_Cache
begin

text \<open>
  The file of the prefix cache: what a hit is, that a saved prefix comes back, and what a truncated file does.
\<close>

section \<open>The header\<close>

lemma length_MAGIC: "length MAGIC = 8"
  by (simp add: MAGIC_def ascii_def)

lemma length_write_u32s [simp]: "length (write_u32s ws) = length ws * 4"
  by (induction ws) (simp_all add: write_u32s_def)

lemma drop_write_u32s: "drop (i * 4) (write_u32s ws) = write_u32s (drop i ws)"
proof (induction ws arbitrary: i)
  case (Cons w ws)
  then show ?case by (cases i) (simp_all add: write_u32s_def)
qed (simp add: write_u32s_def)

lemma u32_le_from: "length b = 4 \<Longrightarrow> u32_to_le (u32_from_le b) = b"
  using le_dec_less[of b] le_enc_dec[of b] by (simp add: u32_to_le_def u32_from_le_def unat_of_nat)

lemma nth_u32s: "i < length ws \<Longrightarrow> u32_from_le (field (write_u32s ws @ rest) (i * 4) 4) = ws ! i"
  by (simp add: drop_write_u32s Cons_nth_drop_Suc[symmetric]) (simp add: write_u32s_def)

text \<open>The bytes \<open>b\<close> stand between two offsets.\<close>

definition spans :: "byte list \<Rightarrow> nat \<Rightarrow> byte list \<Rightarrow> nat \<Rightarrow> bool" where
  "spans raw off b off' \<longleftrightarrow> off' = off + length b \<and> off' \<le> length raw \<and> field raw off (length b) = b"

lemma spans_append: "spans raw off (a @ b) off'' \<longleftrightarrow> (\<exists>off'. spans raw off a off' \<and> spans raw off' b off'')"
  by (auto simp: spans_def take_add add.commute append_eq_append_conv)

lemma spans_whole: "(\<exists>off. spans raw 0 h off \<and> pl = drop off raw) \<longleftrightarrow> raw = h @ pl"
  by (auto simp: spans_def) (metis append_take_drop_id)

lemma read_u32_iff: "read_u32 raw off = Some (w, off') \<longleftrightarrow> spans raw off (u32_to_le w) off'"
  by (auto simp: read_u32_def spans_def u32_le_from)

lemma read_bytes_iff: "read_bytes n raw off = Some (b, off') \<longleftrightarrow> length b = n \<and> spans raw off b off'"
  by (auto simp: read_bytes_def spans_def)

lemma u32s_of_bytes: "length b = n * 4 \<Longrightarrow> write_u32s (map (\<lambda>i. u32_from_le (field b (i * 4) 4)) [0..<n]) = b"
proof (induction n arbitrary: b)
  case (Suc n)
  have "map (\<lambda>i. u32_from_le (field b (i * 4) 4)) [0..<Suc n] = u32_from_le (take 4 b) # map (\<lambda>i. u32_from_le (field (drop 4 b) (i * 4) 4)) [0..<n]"
    by (simp add: upt_conv_Cons map_Suc_upt[symmetric] add.commute del: upt_Suc)
  with Suc.IH[of "drop 4 b"] Suc.prems u32_le_from[of "take 4 b"] show ?case by (simp add: write_u32s_def)
qed (simp add: write_u32s_def)

lemma read_u32s_iff: "read_u32s n raw off = Some (ws, off') \<longleftrightarrow> length ws = n \<and> spans raw off (write_u32s ws) off'"
proof -
  have "field raw (off + i * 4) 4 = field (field raw off (n * 4)) (i * 4) 4" if "i < n" for i
    by (rule field_field[symmetric]) (use that in simp)
  then have m: "map (\<lambda>i. u32_from_le (field raw (off + i * 4) 4)) [0..<n] = map (\<lambda>i. u32_from_le (field (field raw off (n * 4)) (i * 4) 4)) [0..<n]" by simp
  have w: "map (\<lambda>i. u32_from_le (field (write_u32s ws) (i * 4) 4)) [0..<length ws] = ws"
    using nth_u32s[where rest = "[]"] by (intro nth_equalityI) simp_all
  show ?thesis
  proof (cases "off + n * 4 \<le> length raw")
    case True
    then have "length (field raw off (n * 4)) = n * 4" by simp
    from u32s_of_bytes[OF this] w True show ?thesis unfolding read_u32s_def m spans_def by auto
  qed (auto simp: read_u32s_def spans_def)
qed

lemma check_hit_iff: "check_hit b = Some u \<longleftrightarrow> b"
  by (simp add: check_hit_def)


definition prefix_file :: "prefix_key \<Rightarrow> u32 \<Rightarrow> nat \<Rightarrow> u32 list \<Rightarrow> u32 list \<Rightarrow> byte list \<Rightarrow> byte list" where
  "prefix_file key hl n_layers ids logits payload =
     (MAGIC @ u32_to_le VERSION @ u32_to_le hl @ pk_model_hash key @ u32_to_le (pk_format_id key) @ pk_tokenizer_hash key
      @ u32_to_le (pk_kv_heads key) @ u32_to_le (pk_head_dim key) @ u32_to_le (word_of_nat n_layers)
      @ u32_to_le (word_of_nat (length ids)) @ write_u32s ids @ u32_to_le (word_of_nat (length logits)) @ write_u32s logits) @ payload"

lemma spans_reads:
  "spans raw off MAGIC off' \<longleftrightarrow> read_bytes 8 raw off = Some (MAGIC, off')"
  "spans raw off (u32_to_le w) off' \<longleftrightarrow> read_u32 raw off = Some (w, off')"
  "spans raw off (write_u32s ws) off' \<longleftrightarrow> read_u32s (length ws) raw off = Some (ws, off')"
  by (simp_all add: read_bytes_iff read_u32_iff read_u32s_iff length_MAGIC)

lemma read_prefix_file:
  assumes "length (pk_model_hash key) = 32" "length (pk_tokenizer_hash key) = 32" "length ids < 2 ^ 32" "length lg < 2 ^ 32"
    and "take (length ids) prompt = ids"
  shows "read_prefix key n_layers prompt (prefix_file key hl n_layers ids lg pl) = Some (length ids, lg, pl)"
proof -
  define raw where "raw = prefix_file key hl n_layers ids lg pl"
  have hash: "spans raw off (pk_model_hash key) off' \<longleftrightarrow> read_bytes 32 raw off = Some (pk_model_hash key, off')"
    "spans raw off (pk_tokenizer_hash key) off' \<longleftrightarrow> read_bytes 32 raw off = Some (pk_tokenizer_hash key, off')" for off off'
    using assms(1,2) by (simp_all add: read_bytes_iff)
  have le: "length ids \<le> length prompt" using assms(5) by (metis length_take min.cobounded1)
  have un: "unat (word_of_nat (length ids) :: u32) = length ids" "unat (word_of_nat (length lg) :: u32) = length lg"
    using assms(3,4) by (simp_all add: unat_of_nat)
  have "\<exists>off. spans raw 0 (MAGIC @ u32_to_le VERSION @ u32_to_le hl @ pk_model_hash key @ u32_to_le (pk_format_id key)
      @ pk_tokenizer_hash key @ u32_to_le (pk_kv_heads key) @ u32_to_le (pk_head_dim key) @ u32_to_le (word_of_nat n_layers)
      @ u32_to_le (word_of_nat (length ids)) @ write_u32s ids @ u32_to_le (word_of_nat (length lg)) @ write_u32s lg) off \<and> pl = drop off raw"
    unfolding spans_whole raw_def prefix_file_def by (rule refl)
  then have "read_prefix key n_layers prompt raw = Some (length ids, lg, pl)"
    unfolding spans_append spans_reads hash by (elim exE conjE) (simp add: read_prefix_def check_hit_def un le assms(5))
  then show ?thesis by (simp add: raw_def)
qed

lemma read_prefix_hit:
  assumes "read_prefix key n_layers prompt raw = Some (n, lg, pl)"
  shows "n \<le> length prompt \<and> n < 2 ^ 32 \<and> length lg < 2 ^ 32 \<and> (\<exists>hl. raw = prefix_file key hl n_layers (take n prompt) lg pl)"
proof -
  obtain tc ll :: u32 and hl mh fi th kh hdim nl ids o1 o2 o3 o4 o5 o6 o7 o8 o9 o10 o11 o12 o13 where
    r: "read_bytes 8 raw 0 = Some (MAGIC, o1)" "read_u32 raw o1 = Some (VERSION, o2)" "read_u32 raw o2 = Some (hl, o3)"
      "read_bytes 32 raw o3 = Some (pk_model_hash key, o4)" "read_u32 raw o4 = Some (pk_format_id key, o5)"
      "read_bytes 32 raw o5 = Some (pk_tokenizer_hash key, o6)" "read_u32 raw o6 = Some (pk_kv_heads key, o7)" "read_u32 raw o7 = Some (pk_head_dim key, o8)"
      "read_u32 raw o8 = Some (word_of_nat n_layers, o9)" "read_u32 raw o9 = Some (tc, o10)" "read_u32s (unat tc) raw o10 = Some (take (unat tc) prompt, o11)"
      "unat tc \<le> length prompt" "read_u32 raw o11 = Some (ll, o12)" "read_u32s (unat ll) raw o12 = Some (lg, o13)"
    and n: "n = unat tc" "pl = drop o13 raw"
    using assms unfolding read_prefix_def bind_eq_Some_conv check_hit_iff split_paired_Ex prod.case option.inject prod.inject by blast
  then have l: "length (take n prompt) = n" "length lg = unat ll" by (simp_all add: read_u32s_iff)
  have w: "word_of_nat (length (take n prompt)) = tc" "word_of_nat (length lg) = ll" by (subst l(1), simp add: n(1), simp add: l(2))
  from r n(1) have "\<exists>off. spans raw 0 (MAGIC @ u32_to_le VERSION @ u32_to_le hl @ pk_model_hash key @ u32_to_le (pk_format_id key)
      @ pk_tokenizer_hash key @ u32_to_le (pk_kv_heads key) @ u32_to_le (pk_head_dim key) @ u32_to_le (word_of_nat n_layers)
      @ u32_to_le tc @ write_u32s (take n prompt) @ u32_to_le ll @ write_u32s lg) off \<and> pl = drop off raw"
    unfolding spans_append n read_bytes_iff read_u32_iff read_u32s_iff by blast
  then have "raw = prefix_file key hl n_layers (take n prompt) lg pl" unfolding spans_whole prefix_file_def w .
  with r(12) n(1) l(2) unsigned_less[of tc, where ?'a = nat] unsigned_less[of ll, where ?'a = nat] show ?thesis by auto
qed

section \<open>All layers\<close>

text \<open>The layers of a model have one type and geometry; the bytes of a layer in the file.\<close>

definition same_layers :: "'u kvcache list \<Rightarrow> bool" where
  "same_layers cs \<longleftrightarrow> (\<forall>c \<in> set cs. \<forall>d \<in> set cs. kv_dtype c = kv_dtype d \<and> kv_heads c = kv_heads d \<and> head_dim c = head_dim d)"

definition layer_bytes :: "nat \<Rightarrow> 'u kvcache \<Rightarrow> nat" where
  "layer_bytes n c = 2 * (kv_heads c * (n * (row c * unit_size (kv_dtype c))))"

definition restored_from :: "nat \<Rightarrow> 'u kvcache \<Rightarrow> 'u kvcache \<Rightarrow> bool" where
  "restored_from n c t \<longleftrightarrow> kv_wf t \<and> current_pos t = n \<and> (\<forall>h < kv_heads c. contents t h = contents c h)"

lemma layers_roundtrip:
  assumes "list_all2 (takes_layer n) cs ts" "\<forall>c \<in> set cs. snap_layer ur n c \<and> layer_bytes n c = P"
  shows "\<exists>pl ts'. snapshot_layers ur n cs = Ok pl \<and> length pl = P * length cs \<and> restore_layers ur n P pl ts = (Ok (), ts') \<and> list_all2 (restored_from n) cs ts'"
  using assms
proof (induction rule: list_all2_induct)
  case (Cons c cs t ts)
  then obtain pl ts' where rest: "snapshot_layers ur n cs = Ok pl" "length pl = P * length cs" "restore_layers ur n P pl ts = (Ok (), ts')"
      "list_all2 (restored_from n) cs ts'" by auto
  from Cons.prems have c: "snap_layer ur n c" "layer_bytes n c = P" by simp_all
  obtain bs t' where "snapshot_prefix ur n c = Ok bs" "length bs = P" "restore_prefix ur bs n t = (Ok (), t')" "restored_from n c t'"
    using layer_roundtrip[OF c(1) Cons.hyps(1)] c(2) unfolding layer_bytes_def restored_from_def by auto
  with rest show ?case by simp
qed simp

lemma same_layer_bytes:
  assumes "same_layers cs" "\<forall>c \<in> set cs. snap_layer ur n c" "c \<in> set cs" "d \<in> set cs"
  shows "layer_bytes n c = layer_bytes n d"
proof -
  have "kv_dtype c = kv_dtype d" "kv_heads c = kv_heads d" "head_dim c = head_dim d" using assms(1,3,4) unfolding same_layers_def by blast+
  moreover have "opaque c = None" "opaque d = None" using assms(2-4) by (simp_all add: snap_layer_def)
  ultimately show ?thesis using same_row[of c d] by (simp add: layer_bytes_def)
qed

lemma saved_file:
  "save_prefix ur True key ids lg cs = Ok f \<longleftrightarrow> (\<exists>pl. snapshot_layers ur (length ids) cs = Ok pl
     \<and> f = prefix_file key (word_of_nat (FIXED_HEADER_BYTES - 8 - 4 - 4) + word_of_nat (length ids) * 4) (length cs) ids lg pl)"
  by (auto simp: save_prefix_def prefix_file_def prefix_header_def result_simps)

text \<open>What can be saved: hashes of 32 bytes, counts that fit their fields, layers of one geometry.\<close>

definition savable :: "'u unit_repr \<Rightarrow> prefix_key \<Rightarrow> u32 list \<Rightarrow> u32 list \<Rightarrow> 'u kvcache list \<Rightarrow> bool" where
  "savable ur key ids lg cs \<longleftrightarrow> length (pk_model_hash key) = 32 \<and> length (pk_tokenizer_hash key) = 32 \<and> length ids < 2 ^ 32 \<and> length lg < 2 ^ 32
     \<and> same_layers cs \<and> (\<forall>c \<in> set cs. snap_layer ur (length ids) c)"

lemma savable_layers:
  assumes "savable ur key ids lg cs" "c \<in> set cs"
  shows "snap_layer ur (length ids) c" "layer_bytes (length ids) c = layer_bytes (length ids) (hd cs)"
proof -
  have "hd cs \<in> set cs" using assms(2) by (cases cs) simp_all
  with assms same_layer_bytes[of cs ur "length ids" c "hd cs"]
  show "snap_layer ur (length ids) c" "layer_bytes (length ids) c = layer_bytes (length ids) (hd cs)" by (simp_all add: savable_def)
qed

text \<open>A save succeeds; the file is its header and a payload of equal parts that restore the layers.\<close>

lemma save_restore:
  assumes "savable ur key ids lg cs" "list_all2 (takes_layer (length ids)) cs ts"
  obtains hl pl ts' where "save_prefix ur True key ids lg cs = Ok (prefix_file key hl (length cs) ids lg pl)"
    and "length pl = layer_bytes (length ids) (hd cs) * length cs"
    and "restore_layers ur (length ids) (layer_bytes (length ids) (hd cs)) pl ts = (Ok (), ts')" "list_all2 (restored_from (length ids)) cs ts'"
proof -
  have "\<forall>c \<in> set cs. snap_layer ur (length ids) c \<and> layer_bytes (length ids) c = layer_bytes (length ids) (hd cs)"
    using savable_layers[OF assms(1)] by blast
  from layers_roundtrip[OF assms(2) this] saved_file[of ur key ids lg cs] that show ?thesis by blast
qed

lemma read_saved:
  assumes "savable ur key ids lg cs"
  shows "read_prefix key (length cs) (ids @ suffix) (prefix_file key hl (length cs) ids lg pl) = Some (length ids, lg, pl)"
  by (rule read_prefix_file) (use assms in \<open>simp_all add: savable_def\<close>)

lemma restore_short:
  assumes "snap_layer ur n c" "takes_layer n c t" "length bs < layer_bytes n c"
  shows "\<exists>t'. restore_prefix ur bs n t = (Panic, t')"
proof -
  obtain g t1 where t1: "ensure_capacity n t = Ok (g, t1)" "kv_wf t1" "n \<le> capacity t1" "opaque t1 = None" "kv_dtype t1 = kv_dtype c"
      "kv_heads t1 = kv_heads c" "head_dim t1 = head_dim c"
    using restore_room[OF assms(2)] by blast
  have u: "repr_ok ur (unit_size (kv_dtype t1))" "opaque c = None" using assms(1) t1(5) by (simp_all add: snap_layer_def)
  have r: "row t1 = row c" by (rule same_row) (use t1 u in simp_all)
  let ?m = "n * (row t1 * unit_size (kv_dtype t1))" let ?S = "capacity t1 * (row t1 * unit_size (kv_dtype t1))"
  have "length (replicate (length (buffer_bytes ur (k_buffer t1))) (0 :: byte)) = kv_heads t1 * ?S"
    using buf_bytes[OF u(1), of "k_buffer t1"] t1(2) by (simp add: kv_wf_def bufs_ok_def)
  moreover have "length (take (length bs div 2) bs) < kv_heads t1 * ?m" using assms(3) t1(5,6) r by (simp add: layer_bytes_def)
  moreover have "?m \<le> ?S" using t1(3) by simp
  ultimately have "scatter_packed_bytes ur t1 n (take (length bs div 2) bs) (k_buffer t1) = Panic"
    using scatter_blocks_short[of _ "kv_heads t1" ?S ?m "kv_heads t1" "take (length bs div 2) bs"] pos_bytes_row[OF t1(2,4)]
    by (simp add: scatter_packed_bytes_def Let_def)
  then show ?thesis using t1(1) assms(2) by (simp add: restore_prefix_def takes_layer_def Let_def)
qed

text \<open>A small model: words in little-endian order, a saved layer of two heads and two tokens, and a new one with more room.\<close>

definition demo_repr :: "u32 unit_repr" where
  "demo_repr = \<lparr>ur_bytes = u32_to_le, ur_unit = u32_from_le\<rparr>"

definition demo_key :: prefix_key where
  "demo_key = \<lparr>pk_model_hash = replicate 32 1, pk_tokenizer_hash = replicate 32 2, pk_format_id = 1, pk_kv_heads = 2, pk_head_dim = 1\<rparr>"

definition demo_saved :: "u32 kvcache" where
  "demo_saved = (KVCache_new_with_geometry [10, 11, 20, 21] [30, 31, 40, 41] D_F32 2 2 1 HeadMajor)\<lparr>current_pos := 2, high_water_pos := 2\<rparr>"

definition demo_empty :: "u32 kvcache" where
  "demo_empty = KVCache_new_with_geometry (replicate 6 0) (replicate 6 0) D_F32 3 2 1 HeadMajor"

lemma demo_savable: "savable demo_repr demo_key [7, 8] [5] [demo_saved, demo_saved]"
  by (simp add: savable_def same_layers_def snap_layer_def demo_key_def demo_saved_def KVCache_new_with_geometry_def repr_ok_def demo_repr_def
      unit_size_def kv_wf_def format_ok_def bufs_ok_def row_def is_q4_def)

lemma demo_takes: "takes_layer 2 demo_saved demo_empty"
  by (simp add: takes_layer_def demo_saved_def demo_empty_def KVCache_new_with_geometry_def kv_wf_def format_ok_def bufs_ok_def row_def is_q4_def)

text \<open>
  C10: A saved prefix comes back. Save the caches after a prefill, and restore the file into empty caches of the
  same type that have, or can get, room: for every prompt that starts with the saved tokens it is a hit, with the saved logits when the
  prompt is exactly the saved one and none otherwise, and every head of every layer holds the rows it held when it
  was saved, even if the new buffers have another capacity.
\<close>

theorem prefix_cache_roundtrip:
  assumes "savable ur key ids lg cs" "list_all2 (takes_layer (length ids)) cs ts"
  shows "\<exists>f ts'. save_prefix ur True key ids lg cs = Ok f
    \<and> try_restore_prefix ur (Contents f) key (ids @ suffix) ts
        = (Ok (Some \<lparr>rp_token_count = length ids, rp_last_logits = if suffix = [] then lg else []\<rparr>), ts')
    \<and> list_all2 (restored_from (length ids)) cs ts'"
proof -
  have len: "length ts = length cs" using assms(2) by (simp add: list_all2_lengthD)
  from save_restore[OF assms] obtain hl pl ts' where s: "save_prefix ur True key ids lg cs = Ok (prefix_file key hl (length cs) ids lg pl)"
      "length pl = layer_bytes (length ids) (hd cs) * length cs" "restore_layers ur (length ids) (layer_bytes (length ids) (hd cs)) pl ts = (Ok (), ts')"
      "list_all2 (restored_from (length ids)) cs ts'" by blast
  with read_saved[OF assms(1), of suffix hl pl] len show ?thesis by (cases "ts = []") (auto simp: try_restore_prefix_def Let_def)
qed

theorem prefix_cache_roundtrip_witness:
  "\<exists>f t1 t2. save_prefix demo_repr True demo_key [7, 8] [5] [demo_saved, demo_saved] = Ok f
    \<and> try_restore_prefix demo_repr (Contents f) demo_key [7, 8, 9] [demo_empty, demo_empty]
        = (Ok (Some \<lparr>rp_token_count = 2, rp_last_logits = []\<rparr>), [t1, t2])
    \<and> contents t1 1 = [([20], [40]), ([21], [41])] \<and> contents t2 0 = [([10], [30]), ([11], [31])]"
proof -
  have rows: "contents demo_saved 0 = [([10], [30]), ([11], [31])]" "contents demo_saved 1 = [([20], [40]), ([21], [41])]" "kv_heads demo_saved = 2"
    by (simp_all add: contents_def cell_def row_ix_def rowat_def demo_saved_def KVCache_new_with_geometry_def row_def is_q4_def head_start_def upt_rec numeral_eq_Suc)
  from prefix_cache_roundtrip[OF demo_savable, of "[demo_empty, demo_empty]" "[9]"] demo_takes
  obtain f ts where "save_prefix demo_repr True demo_key [7, 8] [5] [demo_saved, demo_saved] = Ok f"
      "try_restore_prefix demo_repr (Contents f) demo_key [7, 8, 9] [demo_empty, demo_empty] = (Ok (Some \<lparr>rp_token_count = 2, rp_last_logits = []\<rparr>), ts)"
      "list_all2 (restored_from 2) [demo_saved, demo_saved] ts" by (auto simp: numeral_eq_Suc)
  moreover from this(3) obtain t1 t2 where "ts = [t1, t2]" "restored_from 2 demo_saved t1" "restored_from 2 demo_saved t2"
    by (auto simp: list_all2_Cons1)
  ultimately show ?thesis using rows unfolding restored_from_def by auto
qed

text \<open>
  A hit is never a mistake. The reader accepts a file exactly when it consists of the magic, the version, the
  hashes, format and geometry of the session, tokens that the prompt starts with, and logits, in the order and width of
  the format, followed by the payload; every other file is a miss.
\<close>

theorem prefix_hit_exact:
  assumes "length (pk_model_hash key) = 32" "length (pk_tokenizer_hash key) = 32"
  shows "read_prefix key n_layers prompt raw = Some (n, lg, pl)
    \<longleftrightarrow> n \<le> length prompt \<and> n < 2 ^ 32 \<and> length lg < 2 ^ 32 \<and> (\<exists>hl. raw = prefix_file key hl n_layers (take n prompt) lg pl)"
proof
  assume "n \<le> length prompt \<and> n < 2 ^ 32 \<and> length lg < 2 ^ 32 \<and> (\<exists>hl. raw = prefix_file key hl n_layers (take n prompt) lg pl)"
  then show "read_prefix key n_layers prompt raw = Some (n, lg, pl)"
    using read_prefix_file[OF assms, of "take n prompt" lg prompt n_layers] by auto
qed (rule read_prefix_hit)

theorem prefix_hit_exact_witness:
  "read_prefix demo_key 2 [7, 8, 9] (prefix_file demo_key 0 2 [7, 8] [5] [1, 2, 3]) = Some (2, [5], [1, 2, 3])
   \<and> read_prefix demo_key 2 [7, 8, 9] (prefix_file demo_key 0 2 [7, 8] [5] [1, 2, 3] @ [4]) = Some (2, [5], [1, 2, 3, 4])"
  using prefix_hit_exact[of demo_key 2 "[7, 8, 9]" "prefix_file demo_key 0 2 [7, 8] [5] [1, 2, 3]" 2 "[5]" "[1, 2, 3]"]
    prefix_hit_exact[of demo_key 2 "[7, 8, 9]" "prefix_file demo_key 0 2 [7, 8] [5] [1, 2, 3] @ [4]" 2 "[5]" "[1, 2, 3, 4]"]
  by (auto simp: demo_key_def prefix_file_def)

text \<open>
  C35: A truncated file crashes the session. The payload is only checked to be divisible by the number of layers.
  When a saved file has lost bytes at its end, and as many for every layer, a restore that should be a miss cuts the payload into parts
  that are too short, and the copy of the first layer panics with a slice out of range.
\<close>

theorem truncated_prefix_panics:
  assumes "savable ur key ids lg cs" "list_all2 (takes_layer (length ids)) cs ts" "cs \<noteq> []"
    and "save_prefix ur True key ids lg cs = Ok f" "0 < lost" "lost \<le> layer_bytes (length ids) (hd cs)"
  shows "\<exists>ts'. try_restore_prefix ur (Contents (take (length f - lost * length cs) f)) key (ids @ suffix) ts = (Panic, ts')"
proof -
  let ?P = "layer_bytes (length ids) (hd cs)" let ?L = "length cs"
  have len: "length ts = ?L" using assms(2) by (simp add: list_all2_lengthD)
  from save_restore[OF assms(1,2)] assms(4) obtain hl pl where f: "f = prefix_file key hl ?L ids lg pl" "length pl = ?P * ?L"
    by (metis result.inject(1))
  have le: "lost * ?L \<le> length pl" using assms(6) f(2) by simp
  define pl' where "pl' = take (length pl - lost * ?L) pl"
  have "take (length f - lost * ?L) f = prefix_file key hl ?L ids lg pl'" using le by (simp add: f(1) prefix_file_def pl'_def)
  then have r: "read_prefix key ?L (ids @ suffix) (take (length f - lost * ?L) f) = Some (length ids, lg, pl')" using read_saved[OF assms(1)] by simp
  have l: "length pl' = (?P - lost) * ?L" using f(2) by (simp add: pl'_def diff_mult_distrib)
  obtain c cs' t ts' where c: "cs = c # cs'" "ts = t # ts'" "takes_layer (length ids) c t" using assms(2,3) by (cases cs) (auto simp: list_all2_Cons1)
  have "length (take (?P - lost) pl') < layer_bytes (length ids) c" using l assms(5,6) c(1) by simp
  from restore_short[OF savable_layers(1)[OF assms(1)] c(3) this] c(1)
  obtain t' where "restore_prefix ur (take (?P - lost) pl') (length ids) t = (Panic, t')" by auto
  then have "restore_layers ur (length ids) (?P - lost) pl' ts = (Panic, t' # ts')" by (simp add: c(2))
  with r l len assms(3) show ?thesis by (cases "ts = []") (auto simp: try_restore_prefix_def Let_def)
qed

theorem truncated_prefix_panics_witness:
  "\<exists>f ts'. save_prefix demo_repr True demo_key [7, 8] [5] [demo_saved, demo_saved] = Ok f
    \<and> try_restore_prefix demo_repr (Contents (take (length f - 6) f)) demo_key [7, 8] [demo_empty, demo_empty] = (Panic, ts')"
proof -
  have ts: "list_all2 (takes_layer (length [7 :: u32, 8])) [demo_saved, demo_saved] [demo_empty, demo_empty]" using demo_takes by (simp add: numeral_eq_Suc)
  obtain f where f: "save_prefix demo_repr True demo_key [7, 8] [5] [demo_saved, demo_saved] = Ok f" using save_restore[OF demo_savable ts] by blast
  have "3 \<le> layer_bytes (length [7 :: u32, 8]) (hd [demo_saved, demo_saved])"
    by (simp add: layer_bytes_def demo_saved_def KVCache_new_with_geometry_def row_def is_q4_def unit_size_def)
  from truncated_prefix_panics[OF demo_savable ts _ f _ this, of "[]"] f show ?thesis by simp
qed

end
