(* ===== verification/Quant_Window.thy ===== *)
theory Quant_Window
  imports Kv_Codec
begin

text \<open>
  The KV cache with a quantised store and a recent window in full precision
  (\<^verbatim>\<open>engine/src/kv/quant_window_cache.rs\<close>, without its GPU mode). The newest tokens are in the residual buffers; when the
  residual is full it is quantised, the keys per channel over 32 tokens and the values per token over 32
  channels. A view for the attention is assembled in buffers that are kept, and only what was quantised since
  the last view is dequantised again. The assertions of debug builds are left out.
\<close>

section \<open>Block stores\<close>

datatype 'h quantized_blocks = Unquantized | Q2 "'h kv_block list" | Q4 "'h kv_block list" | Q8 "'h kv_block list"

text \<open>\<open>new\<close>, \<open>with_capacity\<close> and \<open>empty\<close> differ in the reserved memory only.\<close>

definition blocks_new :: "nat \<Rightarrow> ('e, 'h quantized_blocks) result" where
  "blocks_new bits = (if bits = 16 then Ok Unquantized else if bits = 2 then Ok (Q2 []) else if bits = 4 then Ok (Q4 [])
     else if bits = 8 then Ok (Q8 []) else Panic)"

fun blocks_clear :: "'h quantized_blocks \<Rightarrow> 'h quantized_blocks" where
  "blocks_clear Unquantized = Unquantized"
| "blocks_clear (Q2 v) = Q2 []"
| "blocks_clear (Q4 v) = Q4 []"
| "blocks_clear (Q8 v) = Q8 []"

fun blocks_memory_bytes :: "'h quantized_blocks \<Rightarrow> nat" where
  "blocks_memory_bytes Unquantized = 0"
| "blocks_memory_bytes (Q2 v) = length v * size_of_block 2"
| "blocks_memory_bytes (Q4 v) = length v * size_of_block 4"
| "blocks_memory_bytes (Q8 v) = length v * size_of_block 8"

fun push_quantized :: "('f, 'h) float_ops \<Rightarrow> 'f list \<Rightarrow> 'h quantized_blocks \<Rightarrow> ('e, 'h quantized_blocks) result" where
  "push_quantized fo src Unquantized = Panic"
| "push_quantized fo src (Q2 v) = Ok (Q2 (v @ [BlockQ2_0_quantize fo src]))"
| "push_quantized fo src (Q4 v) = Ok (Q4 (v @ [BlockKVQ4_quantize fo src]))"
| "push_quantized fo src (Q8 v) = Ok (Q8 (v @ [BlockKVQ8_quantize fo src]))"

definition block_at :: "'b list \<Rightarrow> nat \<Rightarrow> ('b \<Rightarrow> 'a) \<Rightarrow> ('e, 'a) result" where
  "block_at v i f = (if i < length v then Ok (f (v ! i)) else Panic)"

fun dequantize_block :: "('f, 'h) float_ops \<Rightarrow> 'h quantized_blocks \<Rightarrow> nat \<Rightarrow> ('e, 'f list) result" where
  "dequantize_block fo Unquantized i = Panic"
| "dequantize_block fo (Q2 v) i = block_at v i (BlockQ2_0_dequantize fo)"
| "dequantize_block fo (Q4 v) i = block_at v i (BlockKVQ4_dequantize fo)"
| "dequantize_block fo (Q8 v) i = block_at v i (BlockKVQ8_dequantize fo)"

section \<open>The cache\<close>

record 'f scores_snapshot =
  sn_scores :: "'f list"
  sn_n_heads_q :: nat
  sn_stride :: nat
  sn_valid_len :: nat

record ('f, 'h) quant_window =
  qw_bits :: nat
  qw_qk :: "'h quantized_blocks"
  qw_qv :: "'h quantized_blocks"
  qw_q2_tokens :: nat
  qw_res_k :: "'f list"
  qw_res_v :: "'f list"
  qw_res_pos :: nat
  qw_res_cap :: nat
  qw_attn_k :: "'f list"
  qw_attn_v :: "'f list"
  qw_q2_deq_tokens :: nat
  qw_heads :: nat
  qw_dim :: nat
  qw_max_seq_len :: nat
  qw_awqe_enabled :: bool
  qw_last_attn_scores :: "'f scores_snapshot option"

datatype qw_error = QwOverflow nat nat nat

type_synonym 'a qw_result = "(qw_error, 'a) result"

definition qw_new_with_bits :: "('f, 'h) float_ops \<Rightarrow> nat \<Rightarrow> nat \<Rightarrow> nat \<Rightarrow> nat \<Rightarrow> nat \<Rightarrow> ('f, 'h) quant_window qw_result" where
  "qw_new_with_bits fo heads dim max_len residual_size bits =
     (if residual_size mod QKKV \<noteq> 0 \<or> residual_size = 0 then Panic
      else if dim mod QKKV \<noteq> 0 then Panic
      else if bits \<notin> {2, 4, 8, 16} then Panic
      else
        let res_cap = (if bits = 16 then max_len else residual_size); res = replicate (heads * res_cap * dim) (fo_zero fo);
            attn = replicate (max_len * heads * dim) (fo_zero fo) in
        and_then (blocks_new bits) (\<lambda>qk. and_then (blocks_new bits) (\<lambda>qv.
        Ok \<lparr>qw_bits = bits, qw_qk = qk, qw_qv = qv, qw_q2_tokens = 0, qw_res_k = res, qw_res_v = res, qw_res_pos = 0, qw_res_cap = res_cap,
            qw_attn_k = attn, qw_attn_v = attn, qw_q2_deq_tokens = 0, qw_heads = heads, qw_dim = dim, qw_max_seq_len = max_len,
            qw_awqe_enabled = False, qw_last_attn_scores = None\<rparr>)))"

definition qw_set_awqe_enabled :: "bool \<Rightarrow> ('f, 'h) quant_window \<Rightarrow> ('f, 'h) quant_window" where
  "qw_set_awqe_enabled b c = c\<lparr>qw_awqe_enabled := b\<rparr>"

definition total_tokens :: "('f, 'h) quant_window \<Rightarrow> nat" where
  "total_tokens c = qw_q2_tokens c + qw_res_pos c"

definition qw_reset :: "('f, 'h) float_ops \<Rightarrow> ('f, 'h) quant_window \<Rightarrow> ('f, 'h) quant_window" where
  "qw_reset fo c = c\<lparr>qw_qk := blocks_clear (qw_qk c), qw_qv := blocks_clear (qw_qv c),
     qw_attn_k := map (\<lambda>_. fo_zero fo) (qw_attn_k c), qw_attn_v := map (\<lambda>_. fo_zero fo) (qw_attn_v c), qw_q2_tokens := 0,
     qw_res_k := map (\<lambda>_. fo_zero fo) (qw_res_k c), qw_res_v := map (\<lambda>_. fo_zero fo) (qw_res_v c), qw_res_pos := 0, qw_q2_deq_tokens := 0\<rparr>"

definition set_attn_scores :: "'f list \<Rightarrow> nat \<Rightarrow> nat \<Rightarrow> nat \<Rightarrow> ('f, 'h) quant_window \<Rightarrow> ('f, 'h) quant_window" where
  "set_attn_scores scores n_heads_q stride valid_len c =
     (if \<not> qw_awqe_enabled c then c
      else c\<lparr>qw_last_attn_scores := Some \<lparr>sn_scores = scores, sn_n_heads_q = n_heads_q, sn_stride = stride, sn_valid_len = valid_len\<rparr>\<rparr>)"

definition qw_memory_usage_bytes :: "('f, 'h) quant_window \<Rightarrow> nat" where
  "qw_memory_usage_bytes c = blocks_memory_bytes (qw_qk c) + blocks_memory_bytes (qw_qv c) + qw_res_pos c * qw_heads c * qw_dim c * 4 * 2"

section \<open>Flush\<close>

text \<open>Reads and writes of single elements, and \<open>copy_within\<close>, with their bounds checks.\<close>

definition gather :: "'f list \<Rightarrow> nat list \<Rightarrow> ('e, 'f list) result" where
  "gather xs is = (if \<forall>i \<in> set is. i < length xs then Ok (map ((!) xs) is) else Panic)"

definition put :: "'f list \<Rightarrow> nat \<Rightarrow> 'f \<Rightarrow> ('e, 'f list) result" where
  "put xs i x = (if i < length xs then Ok (xs[i := x]) else Panic)"

definition copy_within :: "'f list \<Rightarrow> nat \<Rightarrow> nat \<Rightarrow> nat \<Rightarrow> ('e, 'f list) result" where
  "copy_within xs src dst n = (if src + n \<le> length xs \<and> dst + n \<le> length xs then Ok (memmove xs src dst n) else Panic)"

definition flush_keys :: "('f, 'h) float_ops \<Rightarrow> nat \<Rightarrow> ('f, 'h) quant_window \<Rightarrow> 'h quantized_blocks qw_result" where
  "flush_keys fo n_groups c =
     try_fold (\<lambda>(h, g, ch) qk.
         and_then (gather (qw_res_k c) (map (\<lambda>t. h * qw_res_cap c * qw_dim c + (g * QKKV + t) * qw_dim c + ch) [0..<QKKV])) (\<lambda>vals.
         push_quantized fo vals qk))
       [(h, g, ch). h \<leftarrow> [0..<qw_heads c], g \<leftarrow> [0..<n_groups], ch \<leftarrow> [0..<qw_dim c]] (qw_qk c)"

definition flush_values :: "('f, 'h) float_ops \<Rightarrow> nat \<Rightarrow> ('f, 'h) quant_window \<Rightarrow> 'h quantized_blocks qw_result" where
  "flush_values fo flush_tokens c =
     try_fold (\<lambda>(h, t, b) qv.
         let start = h * qw_res_cap c * qw_dim c + t * qw_dim c + b * QKKV in
         and_then (slice (qw_res_v c) start (start + QKKV)) (\<lambda>chunk. push_quantized fo chunk qv))
       [(h, t, b). h \<leftarrow> [0..<qw_heads c], t \<leftarrow> [0..<flush_tokens], b \<leftarrow> [0..<qw_dim c div QKKV]] (qw_qv c)"

definition shift_residual :: "nat \<Rightarrow> nat \<Rightarrow> ('f, 'h) quant_window \<Rightarrow> ('f, 'h) quant_window qw_result" where
  "shift_residual flush_tokens remaining c =
     try_fold (\<lambda>h c.
         let head_base = h * qw_res_cap c * qw_dim c; src = head_base + flush_tokens * qw_dim c; count = remaining * qw_dim c in
         and_then (copy_within (qw_res_k c) src head_base count) (\<lambda>k.
         and_then (copy_within (qw_res_v c) src head_base count) (\<lambda>v. Ok (c\<lparr>qw_res_k := k, qw_res_v := v\<rparr>))))
       [0..<qw_heads c] c"

definition flush_residual :: "('f, 'h) float_ops \<Rightarrow> ('f, 'h) quant_window \<Rightarrow> ('f, 'h) quant_window qw_result" where
  "flush_residual fo c =
     (if qw_bits c = 16 then Ok c
      else if qw_res_pos c < QKKV then Panic
      else
        let n_groups = qw_res_pos c div QKKV; flush_tokens = n_groups * QKKV; remaining = qw_res_pos c - flush_tokens in
        and_then (flush_keys fo n_groups c) (\<lambda>qk.
        and_then (flush_values fo flush_tokens c) (\<lambda>qv.
        and_then (if remaining > 0 then shift_residual flush_tokens remaining c else Ok c) (\<lambda>c.
        Ok (c\<lparr>qw_qk := qk, qw_qv := qv, qw_q2_tokens := qw_q2_tokens c + flush_tokens, qw_res_pos := remaining\<rparr>)))))"

section \<open>Update\<close>

definition append_token :: "'f list \<Rightarrow> 'f list \<Rightarrow> nat \<Rightarrow> ('f, 'h) quant_window \<Rightarrow> ('f, 'h) quant_window qw_result" where
  "append_token k_data v_data s c =
     and_then (try_fold (\<lambda>h c.
         let src = s * qw_heads c * qw_dim c + h * qw_dim c; dst = h * qw_res_cap c * qw_dim c + qw_res_pos c * qw_dim c in
         and_then (slice k_data src (src + qw_dim c)) (\<lambda>k. and_then (copy_into (qw_res_k c) dst k) (\<lambda>rk.
         and_then (slice v_data src (src + qw_dim c)) (\<lambda>v. and_then (copy_into (qw_res_v c) dst v) (\<lambda>rv.
         Ok (c\<lparr>qw_res_k := rk, qw_res_v := rv\<rparr>))))))
       [0..<qw_heads c] c) (\<lambda>c.
     Ok (c\<lparr>qw_res_pos := qw_res_pos c + 1\<rparr>))"

definition qw_update :: "('f, 'h) float_ops \<Rightarrow> 'f list \<Rightarrow> 'f list \<Rightarrow> nat \<Rightarrow> ('f, 'h) quant_window \<Rightarrow> ('f, 'h) quant_window qw_result" where
  "qw_update fo k_data v_data seq_len c =
     (if total_tokens c + seq_len > qw_max_seq_len c then Err (QwOverflow (total_tokens c) seq_len (qw_max_seq_len c))
      else try_fold (\<lambda>s c.
          and_then (if qw_res_pos c \<ge> qw_res_cap c then flush_residual fo c else Ok c) (append_token k_data v_data s))
        [0..<seq_len] c)"

section \<open>Views\<close>

definition deq_keys :: "('f, 'h) float_ops \<Rightarrow> ('f, 'h) quant_window \<Rightarrow> nat \<Rightarrow> nat \<times> 'f list \<Rightarrow> (nat \<times> 'f list) qw_result" where
  "deq_keys fo c tok_base =
     try_fold (\<lambda>(h, g, ch) (idx, attn_k).
         and_then (dequantize_block fo (qw_qk c) idx) (\<lambda>channel.
         and_then (try_fold (\<lambda>t attn_k. put attn_k ((tok_base + g * QKKV + t) * qw_heads c * qw_dim c + h * qw_dim c + ch) (channel ! t)) [0..<QKKV] attn_k) (\<lambda>attn_k.
         Ok (idx + 1, attn_k))))
       [(h, g, ch). h \<leftarrow> [0..<qw_heads c], g \<leftarrow> [0..<qw_res_cap c div QKKV], ch \<leftarrow> [0..<qw_dim c]]"

definition deq_values :: "('f, 'h) float_ops \<Rightarrow> ('f, 'h) quant_window \<Rightarrow> nat \<Rightarrow> nat \<times> 'f list \<Rightarrow> (nat \<times> 'f list) qw_result" where
  "deq_values fo c tok_base =
     try_fold (\<lambda>(h, t, b) (idx, attn_v).
         and_then (dequantize_block fo (qw_qv c) idx) (\<lambda>deq.
         and_then (copy_into attn_v ((tok_base + t) * qw_heads c * qw_dim c + h * qw_dim c + b * QKKV) deq) (\<lambda>attn_v.
         Ok (idx + 1, attn_v))))
       [(h, t, b). h \<leftarrow> [0..<qw_heads c], t \<leftarrow> [0..<qw_res_cap c], b \<leftarrow> [0..<qw_dim c div QKKV]]"

definition copy_residual :: "('f, 'h) quant_window \<Rightarrow> 'f list \<times> 'f list \<Rightarrow> ('f list \<times> 'f list) qw_result" where
  "copy_residual c =
     try_fold (\<lambda>(h, t) (attn_k, attn_v).
         let out = (qw_q2_tokens c + t) * qw_heads c * qw_dim c + h * qw_dim c; start = h * qw_res_cap c * qw_dim c + t * qw_dim c in
         and_then (slice (qw_res_k c) start (start + qw_dim c)) (\<lambda>k. and_then (copy_into attn_k out k) (\<lambda>attn_k.
         and_then (slice (qw_res_v c) start (start + qw_dim c)) (\<lambda>v. and_then (copy_into attn_v out v) (\<lambda>attn_v.
         Ok (attn_k, attn_v))))))
       [(h, t). h \<leftarrow> [0..<qw_heads c], t \<leftarrow> [0..<qw_res_pos c]]"

definition assemble_flushes :: "('f, 'h) float_ops \<Rightarrow> ('f, 'h) quant_window \<Rightarrow> ('f list \<times> 'f list) qw_result" where
  "assemble_flushes fo c =
     (let old = qw_q2_deq_tokens c div qw_res_cap c; new = qw_q2_tokens c div qw_res_cap c;
          k_blocks = qw_res_cap c div QKKV * qw_heads c * qw_dim c; v_blocks = qw_heads c * qw_res_cap c * (qw_dim c div QKKV) in
      and_then (try_fold (\<lambda>flush (ki, vi, attn_k, attn_v).
          and_then (deq_keys fo c (flush * qw_res_cap c) (ki, attn_k)) (\<lambda>(ki, attn_k).
          and_then (deq_values fo c (flush * qw_res_cap c) (vi, attn_v)) (\<lambda>(vi, attn_v). Ok (ki, vi, attn_k, attn_v))))
        [old..<new] (old * k_blocks, old * v_blocks, qw_attn_k c, qw_attn_v c)) (\<lambda>(_, _, attn_k, attn_v). Ok (attn_k, attn_v)))"

text \<open>The divisions by the size of the residual panic when it is zero; \<open>res_pos\<close> is zero then, and nothing is copied.\<close>

definition assemble_view :: "('f, 'h) float_ops \<Rightarrow> ('f, 'h) quant_window \<Rightarrow> ('f, 'h) quant_window qw_result" where
  "assemble_view fo c =
     and_then (if qw_q2_tokens c > qw_q2_deq_tokens c then (if qw_res_cap c = 0 then Panic else assemble_flushes fo c) else Ok (qw_attn_k c, qw_attn_v c)) (\<lambda>bufs.
     and_then (copy_residual c bufs) (\<lambda>(attn_k, attn_v).
     Ok (c\<lparr>qw_attn_k := attn_k, qw_attn_v := attn_v, qw_q2_deq_tokens := max (qw_q2_deq_tokens c) (qw_q2_tokens c)\<rparr>)))"

definition qw_get_view :: "('f, 'h) float_ops \<Rightarrow> ('f, 'h) quant_window \<Rightarrow> ((nat \<times> 'f list \<times> 'f list) \<times> ('f, 'h) quant_window) qw_result" where
  "qw_get_view fo c =
     (let total = total_tokens c in
      if total = 0 then Ok ((0, [], []), c)
      else and_then (assemble_view fo c) (\<lambda>c.
        let n = total * qw_heads c * qw_dim c in Ok ((total, take n (qw_attn_k c), take n (qw_attn_v c)), c)))"

section \<open>Changing the width\<close>

definition resize :: "'f list \<Rightarrow> nat \<Rightarrow> 'f \<Rightarrow> 'f list" where
  "resize xs n x = take n xs @ replicate (n - length xs) x"

definition restore_rows :: "nat \<Rightarrow> nat \<Rightarrow> ('f, 'h) quant_window \<Rightarrow> 'f list \<times> 'f list \<Rightarrow> ('f list \<times> 'f list) qw_result" where
  "restore_rows n_tokens new_cap c =
     try_fold (\<lambda>(h, t) (res_k, res_v).
         let attn = t * qw_heads c * qw_dim c + h * qw_dim c; res = h * new_cap * qw_dim c + t * qw_dim c in
         and_then (slice (qw_attn_k c) attn (attn + qw_dim c)) (\<lambda>k. and_then (copy_into res_k res k) (\<lambda>res_k.
         and_then (slice (qw_attn_v c) attn (attn + qw_dim c)) (\<lambda>v. and_then (copy_into res_v res v) (\<lambda>res_v.
         Ok (res_k, res_v))))))
       [(h, t). h \<leftarrow> [0..<qw_heads c], t \<leftarrow> [0..<n_tokens]]"

definition to_unquantized :: "('f, 'h) float_ops \<Rightarrow> ('f, 'h) quant_window \<Rightarrow> ('f, 'h) quant_window qw_result" where
  "to_unquantized fo c =
     (let total = total_tokens c; new_cap = qw_max_seq_len c; n = qw_heads c * new_cap * qw_dim c in
      and_then (assemble_view fo c) (\<lambda>c.
      and_then (restore_rows total new_cap c (resize (qw_res_k c) n (fo_zero fo), resize (qw_res_v c) n (fo_zero fo))) (\<lambda>(res_k, res_v).
      Ok (c\<lparr>qw_res_k := res_k, qw_res_v := res_v, qw_res_pos := total, qw_res_cap := new_cap, qw_q2_tokens := 0, qw_q2_deq_tokens := 0,
           qw_bits := 16, qw_qk := Unquantized, qw_qv := Unquantized\<rparr>))))"

definition compact_residual :: "('f, 'h) quant_window \<Rightarrow> ('f, 'h) quant_window qw_result" where
  "compact_residual c =
     (if qw_res_cap c \<le> QKKV then Ok c
      else
        let remaining = qw_res_pos c; n = qw_heads c * QKKV * qw_dim c in
        and_then (if remaining > 0 \<and> qw_heads c > 1
            then try_fold (\<lambda>h c.
                let src = h * qw_res_cap c * qw_dim c; dst = h * (QKKV * qw_dim c); count = remaining * qw_dim c in
                and_then (copy_within (qw_res_k c) src dst count) (\<lambda>k.
                and_then (copy_within (qw_res_v c) src dst count) (\<lambda>v. Ok (c\<lparr>qw_res_k := k, qw_res_v := v\<rparr>))))
              [1..<qw_heads c] c
            else Ok c) (\<lambda>c.
        Ok (c\<lparr>qw_res_k := take n (qw_res_k c), qw_res_v := take n (qw_res_v c), qw_res_cap := QKKV\<rparr>)))"

definition from_unquantized :: "('f, 'h) float_ops \<Rightarrow> nat \<Rightarrow> ('f, 'h) quant_window \<Rightarrow> ('f, 'h) quant_window qw_result" where
  "from_unquantized fo new_bits c =
     and_then (blocks_new new_bits) (\<lambda>qk. and_then (blocks_new new_bits) (\<lambda>qv.
     let c = c\<lparr>qw_bits := new_bits, qw_qk := qk, qw_qv := qv\<rparr> in
     and_then (if qw_res_pos c \<ge> QKKV then flush_residual fo c else Ok c) (\<lambda>c.
     and_then (compact_residual c) (\<lambda>c. Ok (c\<lparr>qw_q2_deq_tokens := 0\<rparr>)))))"

definition requantize :: "('f, 'h) float_ops \<Rightarrow> nat \<Rightarrow> 'h quantized_blocks \<Rightarrow> nat \<Rightarrow> 'h quantized_blocks qw_result" where
  "requantize fo new_bits old count =
     and_then (blocks_new new_bits) (try_fold (\<lambda>i new. and_then (dequantize_block fo old i) (\<lambda>buf. push_quantized fo buf new)) [0..<count])"

definition between_widths :: "('f, 'h) float_ops \<Rightarrow> nat \<Rightarrow> ('f, 'h) quant_window \<Rightarrow> ('f, 'h) quant_window qw_result" where
  "between_widths fo new_bits c =
     (if qw_q2_tokens c = 0 then
        and_then (blocks_new new_bits) (\<lambda>qk. and_then (blocks_new new_bits) (\<lambda>qv. Ok (c\<lparr>qw_qk := qk, qw_qv := qv, qw_bits := new_bits\<rparr>)))
      else
        and_then (requantize fo new_bits (qw_qk c) (qw_q2_tokens c div QKKV * qw_heads c * qw_dim c)) (\<lambda>qk.
        and_then (requantize fo new_bits (qw_qv c) (qw_q2_tokens c * qw_heads c * (qw_dim c div QKKV))) (\<lambda>qv.
        Ok (c\<lparr>qw_qk := qk, qw_qv := qv, qw_bits := new_bits, qw_q2_deq_tokens := 0\<rparr>))))"

definition transition_bits :: "('f, 'h) float_ops \<Rightarrow> nat \<Rightarrow> ('f, 'h) quant_window \<Rightarrow> ('f, 'h) quant_window qw_result" where
  "transition_bits fo new_bits c =
     (if new_bits \<notin> {2, 4, 8, 16} then Panic
      else if qw_bits c \<notin> {2, 4, 8, 16} then Panic
      else if new_bits = qw_bits c then Ok c
      else if new_bits = 16 then to_unquantized fo c
      else if qw_bits c = 16 then from_unquantized fo new_bits c
      else between_widths fo new_bits c)"

end
