(* ===== verification/Quant_Rows.thy ===== *)
theory Quant_Rows
  imports Quant_Window
begin

text \<open>
  What a quantised window cache holds: one row of keys and one of values per token, over all heads. The
  specification works on these rows; the cache is related to them by \<open>holds\<close>.
\<close>

section \<open>Loops over indices\<close>

lemma try_fold_nth:
  assumes "I 0 s" "\<And>k u. k < length xs \<Longrightarrow> I k u \<Longrightarrow> \<exists>v. f (xs ! k) u = Ok v \<and> I (Suc k) v"
  shows "\<exists>t. try_fold f xs s = Ok t \<and> I (length xs) t"
  using assms
proof (induction xs arbitrary: I s)
  case (Cons x xs)
  from Cons.prems(2)[of 0 s] Cons.prems(1) obtain u where u: "f x s = Ok u" "I 1 u" by auto
  have "\<exists>t. try_fold f xs u = Ok t \<and> I (Suc (length xs)) t"
  proof (rule Cons.IH[where I = "\<lambda>k. I (Suc k)"])
    show "I (Suc 0) u" using u(2) by simp
    show "\<exists>w. f (xs ! k) v = Ok w \<and> I (Suc (Suc k)) w" if "k < length xs" "I (Suc k) v" for k v
      using Cons.prems(2)[of "Suc k" v] that by simp
  qed
  with u(1) show ?case by simp
qed simp

lemma concat_upt: "concat (map (\<lambda>h. map (f h) [0..<m]) [0..<n]) = map (\<lambda>k. f (k div m) (k mod m)) [0..<n * m]"
proof (induction n)
  case (Suc n)
  have "[0..<Suc n * m] = [0..<n * m] @ map (\<lambda>j. n * m + j) [0..<m]"
    using upt_add_eq_append[of 0 "n * m" m] map_add_upt[of "n * m" m] by (simp add: add.commute)
  moreover have "map (f n) [0..<m] = map (\<lambda>k. f (k div m) (k mod m)) (map (\<lambda>j. n * m + j) [0..<m])" by simp
  ultimately show ?case using Suc by simp
qed simp

lemma keys2: "[(a, b). a \<leftarrow> [0..<n], b \<leftarrow> [0..<m]] = map (\<lambda>k. (k div m, k mod m)) [0..<n * m]"
  by (simp add: concat_upt)

lemma keys3: "[(a, b, d). a \<leftarrow> [0..<n], b \<leftarrow> [0..<m], d \<leftarrow> [0..<l]] = map (\<lambda>k. (k div (m * l), k mod (m * l) div l, k mod (m * l) mod l)) [0..<n * (m * l)]"
  by (simp add: concat_upt)

section \<open>Buffers that agree with a function\<close>

definition agrees :: "(nat \<Rightarrow> 'f) \<Rightarrow> nat \<Rightarrow> nat set \<Rightarrow> 'f list \<Rightarrow> bool" where
  "agrees F n G xs \<longleftrightarrow> length xs = n \<and> (\<forall>i \<in> G. i < n \<longrightarrow> xs ! i = F i)"

lemma agrees_put:
  assumes "agrees F n G xs" "i < n" "x = F i"
  shows "\<exists>ys. put xs i x = Ok ys \<and> agrees F n (insert i G) ys"
  using assms by (auto simp: put_def agrees_def nth_list_update)

lemma agrees_copy:
  assumes "agrees F n G xs" "off + length src \<le> n" "\<And>j. j < length src \<Longrightarrow> src ! j = F (off + j)"
  shows "\<exists>ys. copy_into xs off src = Ok ys \<and> agrees F n (G \<union> {off..<off + length src}) ys"
proof -
  have l: "length xs = n" using assms(1) by (simp add: agrees_def)
  let ?ys = "take off xs @ src @ drop (off + length src) xs"
  have "?ys ! i = (if off \<le> i \<and> i < off + length src then src ! (i - off) else xs ! i)" if "i < n" for i
    using that l assms(2) by (auto simp: nth_append)
  then have "agrees F n (G \<union> {off..<off + length src}) ?ys" using assms l by (auto simp: agrees_def)
  with l assms(2) show ?thesis by (simp add: copy_into_def)
qed

lemma agrees_mono: "agrees F n G xs \<Longrightarrow> (\<And>i. i < n \<Longrightarrow> i \<in> G' \<Longrightarrow> i \<in> G \<and> F' i = F i) \<Longrightarrow> agrees F' n G' xs"
  by (auto simp: agrees_def)

text \<open>A loop of puts.\<close>

lemma agrees_puts:
  assumes "agrees F n G xs" "\<And>t. t < m \<Longrightarrow> ix t < n \<and> x t = F (ix t)"
  shows "\<exists>ys. try_fold (\<lambda>t xs. put xs (ix t) (x t)) [0..<m] xs = Ok ys \<and> agrees F n (G \<union> ix ` {..<m}) ys"
proof -
  have "\<exists>ys. try_fold (\<lambda>t xs. put xs (ix t) (x t)) [0..<m] xs = Ok ys \<and> agrees F n (G \<union> ix ` {..<length [0..<m]}) ys"
  proof (rule try_fold_nth[where I = "\<lambda>k. agrees F n (G \<union> ix ` {..<k})"])
    fix k ys assume "k < length [0..<m]" "agrees F n (G \<union> ix ` {..<k}) ys"
    with agrees_put[of F n "G \<union> ix ` {..<k}" ys "ix k" "x k"] assms(2)[of k]
    show "\<exists>zs. put ys (ix ([0..<m] ! k)) (x ([0..<m] ! k)) = Ok zs \<and> agrees F n (G \<union> ix ` {..<Suc k}) zs" by (simp add: lessThan_Suc)
  qed (use assms(1) in simp)
  then show ?thesis by simp
qed

section \<open>Codecs by width\<close>

definition quant :: "('f, 'h) float_ops \<Rightarrow> nat \<Rightarrow> 'f list \<Rightarrow> 'h kv_block" where
  "quant fo bits = (if bits = 2 then BlockQ2_0_quantize fo else if bits = 4 then BlockKVQ4_quantize fo else BlockKVQ8_quantize fo)"

definition dequant :: "('f, 'h) float_ops \<Rightarrow> nat \<Rightarrow> 'h kv_block \<Rightarrow> 'f list" where
  "dequant fo bits = (if bits = 2 then BlockQ2_0_dequantize fo else if bits = 4 then BlockKVQ4_dequantize fo else BlockKVQ8_dequantize fo)"

text \<open>What 32 values become.\<close>

definition through :: "('f, 'h) float_ops \<Rightarrow> nat \<Rightarrow> 'f list \<Rightarrow> 'f list" where
  "through fo bits src = dequant fo bits (quant fo bits src)"

definition stored :: "nat \<Rightarrow> 'h kv_block list \<Rightarrow> 'h quantized_blocks" where
  "stored bits bs = (if bits = 2 then Q2 bs else if bits = 4 then Q4 bs else Q8 bs)"

lemma concat_const_length: "(\<And>x. x \<in> set xs \<Longrightarrow> length (f x) = k) \<Longrightarrow> length (concat (map f xs)) = length xs * k"
  by (induction xs) simp_all

lemma through_length: "length src = QKKV \<Longrightarrow> length (through fo bits src) = QKKV"
  by (simp add: through_def quant_def dequant_def BlockQ2_0_dequantize_def BlockKVQ4_dequantize_def BlockKVQ8_dequantize_def BlockKVQ4_quantize_def
      BlockKVQ8_quantize_def QK2_0_def QKKV_def concat_const_length[where k = 4] concat_const_length[where k = 2])

lemma stored_ops:
  assumes "bits \<in> {2, 4, 8}"
  shows "push_quantized fo src (stored bits bs) = Ok (stored bits (bs @ [quant fo bits src]))"
    and "dequantize_block fo (stored bits bs) i = (if i < length bs then Ok (dequant fo bits (bs ! i)) else Panic)"
    and "blocks_new bits = Ok (stored bits [])"
  using assms by (auto simp: stored_def quant_def dequant_def block_at_def blocks_new_def)

text \<open>A loop that pushes one block per step.\<close>

lemma push_loop:
  assumes "bits \<in> {2, 4, 8}" "\<And>k. k < n \<Longrightarrow> vals k = Ok (src k)"
  shows "try_fold (\<lambda>k q. and_then (vals k) (\<lambda>v. push_quantized fo v q)) [0..<n] (stored bits bs)
    = (Ok (stored bits (bs @ map (\<lambda>k. quant fo bits (src k)) [0..<n])) :: _ qw_result)"
  using assms(2) by (induction n) (simp_all add: try_fold_append stored_ops[OF assms(1)])

section \<open>The rows of a cache\<close>

text \<open>The width, the size of the window, the number of quantised tokens, and a row of keys and of values per token.\<close>

record 'f row_state =
  rs_bits :: nat
  rs_cap :: nat
  rs_q :: nat
  rs_k :: "'f list list"
  rs_v :: "'f list list"

definition rows_ok :: "nat \<Rightarrow> nat \<Rightarrow> nat \<Rightarrow> 'f row_state \<Rightarrow> bool" where
  "rows_ok H D M a \<longleftrightarrow> 0 < D \<and> D mod QKKV = 0 \<and> rs_q a \<le> length (rs_k a) \<and> length (rs_v a) = length (rs_k a) \<and> length (rs_k a) \<le> M
     \<and> length (rs_k a) \<le> rs_q a + rs_cap a \<and> (\<forall>r \<in> set (rs_k a) \<union> set (rs_v a). length r = H * D)
     \<and> (rs_bits a = 16 \<and> rs_q a = 0 \<and> rs_cap a = M \<or> rs_bits a \<in> {2, 4, 8} \<and> 0 < rs_cap a \<and> rs_cap a mod QKKV = 0 \<and> rs_q a mod rs_cap a = 0)"

text \<open>The residual buffer is head-major with \<open>R\<close> rows per head, the buffers for the attention hold whole rows.\<close>

definition res_fun :: "nat \<Rightarrow> nat \<Rightarrow> nat \<Rightarrow> 'f list list \<Rightarrow> nat \<Rightarrow> 'f" where
  "res_fun D R q K i = K ! (q + i div D mod R) ! (i div (R * D) * D + i mod D)"

definition flat_fun :: "nat \<Rightarrow> 'f list list \<Rightarrow> nat \<Rightarrow> 'f" where
  "flat_fun W K i = K ! (i div W) ! (i mod W)"

definition res_ok :: "nat \<Rightarrow> nat \<Rightarrow> nat \<Rightarrow> nat \<Rightarrow> 'f list list \<Rightarrow> 'f list \<Rightarrow> bool" where
  "res_ok H D R q K res \<longleftrightarrow> agrees (res_fun D R q K) (H * R * D) {i. q + i div D mod R < length K} res"

definition attn_ok :: "nat \<Rightarrow> nat \<Rightarrow> nat \<Rightarrow> 'f list list \<Rightarrow> 'f list \<Rightarrow> bool" where
  "attn_ok W M dq K attn \<longleftrightarrow> agrees (flat_fun W K) (M * W) {..<dq * W} attn"

text \<open>The 32 values of a block: of one channel over 32 tokens, of one token over 32 channels.\<close>

definition key_block :: "nat \<Rightarrow> nat \<Rightarrow> 'f list list \<Rightarrow> nat \<Rightarrow> nat \<Rightarrow> 'f list" where
  "key_block G D K b k = map (\<lambda>t. K ! (b + k mod (G * D) div D * QKKV + t) ! (k div (G * D) * D + k mod (G * D) mod D)) [0..<QKKV]"

definition value_block :: "nat \<Rightarrow> nat \<Rightarrow> 'f list list \<Rightarrow> nat \<Rightarrow> nat \<Rightarrow> 'f list" where
  "value_block R D V b k = field (V ! (b + k mod (R * (D div QKKV)) div (D div QKKV)))
     (k div (R * (D div QKKV)) * D + k mod (R * (D div QKKV)) mod (D div QKKV) * QKKV) QKKV"

definition blocks_ok :: "('f, 'h) float_ops \<Rightarrow> nat \<Rightarrow> nat \<Rightarrow> 'f row_state \<Rightarrow> 'h quantized_blocks \<Rightarrow> 'h quantized_blocks \<Rightarrow> bool" where
  "blocks_ok fo H D a qk qv \<longleftrightarrow>
     (if rs_bits a = 16 then qk = Unquantized \<and> qv = Unquantized
      else let R = rs_cap a; n = rs_q a div R; kn = H * (R div QKKV * D); vn = H * (R * (D div QKKV)) in
        \<exists>kb vb. qk = stored (rs_bits a) kb \<and> qv = stored (rs_bits a) vb \<and> length kb = n * kn \<and> length vb = n * vn
          \<and> (\<forall>f < n. \<forall>k < kn. dequant fo (rs_bits a) (kb ! (f * kn + k)) = key_block (R div QKKV) D (rs_k a) (f * R) k)
          \<and> (\<forall>f < n. \<forall>k < vn. dequant fo (rs_bits a) (vb ! (f * vn + k)) = value_block R D (rs_v a) (f * R) k))"

definition holds :: "('f, 'h) float_ops \<Rightarrow> nat \<Rightarrow> nat \<Rightarrow> nat \<Rightarrow> ('f, 'h) quant_window \<Rightarrow> 'f row_state \<Rightarrow> bool" where
  "holds fo H D M c a \<longleftrightarrow> rows_ok H D M a \<and> qw_heads c = H \<and> qw_dim c = D \<and> qw_max_seq_len c = M \<and> qw_bits c = rs_bits a
     \<and> qw_res_cap c = rs_cap a \<and> qw_q2_tokens c = rs_q a \<and> qw_res_pos c = length (rs_k a) - rs_q a
     \<and> res_ok H D (rs_cap a) (rs_q a) (rs_k a) (qw_res_k c) \<and> res_ok H D (rs_cap a) (rs_q a) (rs_v a) (qw_res_v c)
     \<and> qw_q2_deq_tokens c \<le> rs_q a \<and> (rs_bits a = 16 \<or> qw_q2_deq_tokens c mod rs_cap a = 0)
     \<and> attn_ok (H * D) M (qw_q2_deq_tokens c) (rs_k a) (qw_attn_k c) \<and> attn_ok (H * D) M (qw_q2_deq_tokens c) (rs_v a) (qw_attn_v c)
     \<and> blocks_ok fo H D a (qw_qk c) (qw_qv c)"

section \<open>The specification\<close>

text \<open>
  Rows through the codec: keys in columns of 32 tokens, values in chunks of 32 channels. The order of the
  blocks is the one of the residual: \<open>shuffle H D n\<close> is what 32-token groups \<open>0..<n\<close> of \<open>H\<close> heads become when they are written head by
  head and read group by group.
\<close>

definition quant_keys :: "('f, 'h) float_ops \<Rightarrow> nat \<Rightarrow> 'f list list \<Rightarrow> 'f list list" where
  "quant_keys fo bits rows = map (\<lambda>i. map (\<lambda>j. through fo bits (map (\<lambda>t. rows ! (i div QKKV * QKKV + t) ! j) [0..<QKKV]) ! (i mod QKKV))
     [0..<length (rows ! i)]) [0..<length rows]"

definition quant_values :: "('f, 'h) float_ops \<Rightarrow> nat \<Rightarrow> 'f list list \<Rightarrow> 'f list list" where
  "quant_values fo bits rows = map (\<lambda>r. map (\<lambda>j. through fo bits (field r (j div QKKV * QKKV) QKKV) ! (j mod QKKV)) [0..<length r]) rows"

definition shuffle :: "nat \<Rightarrow> nat \<Rightarrow> 'f list list \<Rightarrow> 'f list list" where
  "shuffle H D rows = (let n = length rows div QKKV in
     map (\<lambda>i. map (\<lambda>j. let m = i div QKKV * H + j div D in rows ! (m mod n * QKKV + i mod QKKV) ! (m div n * D + j mod D)) [0..<H * D]) [0..<length rows])"

definition quantize_rest :: "('f, 'h) float_ops \<Rightarrow> 'f row_state \<Rightarrow> 'f row_state" where
  "quantize_rest fo a = a\<lparr>rs_k := take (rs_q a) (rs_k a) @ quant_keys fo (rs_bits a) (drop (rs_q a) (rs_k a)),
     rs_v := take (rs_q a) (rs_v a) @ quant_values fo (rs_bits a) (drop (rs_q a) (rs_v a)), rs_q := length (rs_k a)\<rparr>"

definition row_append :: "('f, 'h) float_ops \<Rightarrow> 'f list \<Rightarrow> 'f list \<Rightarrow> 'f row_state \<Rightarrow> 'f row_state" where
  "row_append fo k v a = (let a = (if rs_bits a \<noteq> 16 \<and> length (rs_k a) = rs_q a + rs_cap a then quantize_rest fo a else a) in
     a\<lparr>rs_k := rs_k a @ [k], rs_v := rs_v a @ [v]\<rparr>)"

text \<open>Only the rows below the number of quantised tokens matter to the blocks, and those below \<open>dq\<close> to the buffers.\<close>

lemma flat_take: "i < q * W \<Longrightarrow> flat_fun W (take q K) i = flat_fun W K i"
  by (simp add: flat_fun_def less_mult_imp_div_less)

lemma attn_ok_take:
  assumes "dq \<le> q"
  shows "attn_ok W M dq (take q K) xs \<longleftrightarrow> attn_ok W M dq K xs"
proof -
  have "flat_fun W (take q K) i = flat_fun W K i" if "i < dq * W" for i
    using that mult_le_mono1[OF assms, of W] by (intro flat_take) linarith
  then show ?thesis by (auto simp: attn_ok_def agrees_def)
qed

lemma attn_ok_cong: "take q K' = take q K \<Longrightarrow> dq \<le> q \<Longrightarrow> attn_ok W M dq K' xs \<longleftrightarrow> attn_ok W M dq K xs"
  using attn_ok_take[of dq q W M K' xs] attn_ok_take[of dq q W M K xs] by simp

lemma mod_div_less: "k < n * (m * l) \<Longrightarrow> k mod (m * l) div l < (m :: nat)"
  by (metis less_nat_zero_code mod_less_divisor mult_0_right less_mult_imp_div_less neq0_conv)

lemma key_block_take:
  assumes "b + G * QKKV \<le> q" "k < n * (G * D)"
  shows "key_block G D (take q K) b k = key_block G D K b k"
proof -
  have "b + k mod (G * D) div D * QKKV + t < q" if "t < QKKV" for t
    using mult_le_mono1[OF Suc_leI[OF mod_div_less[OF assms(2)]], of QKKV] that assms(1) by simp
  then show ?thesis by (simp add: key_block_def)
qed

lemma value_block_take:
  assumes "b + R \<le> q" "k < n * (R * (D div QKKV))"
  shows "value_block R D (take q V) b k = value_block R D V b k"
  using mod_div_less[OF assms(2)] assms(1) by (simp add: value_block_def)

lemma flush_fits: "f < q div R \<Longrightarrow> f * R + R \<le> (q :: nat)"
  by (metis add.commute div_times_less_eq_dividend dual_order.trans less_eq_Suc_le mult_Suc mult_le_mono1)

lemma blocks_ok_cong:
  assumes "rs_bits a' = rs_bits a" "rs_cap a' = rs_cap a" "rs_q a' = rs_q a" "rs_cap a mod QKKV = 0 \<or> rs_bits a = 16"
    and "take (rs_q a) (rs_k a') = take (rs_q a) (rs_k a)" "take (rs_q a) (rs_v a') = take (rs_q a) (rs_v a)"
  shows "blocks_ok fo H D a' qk qv \<longleftrightarrow> blocks_ok fo H D a qk qv"
proof (cases "rs_bits a = 16")
  case False
  let ?R = "rs_cap a" let ?q = "rs_q a"
  have R: "?R div QKKV * QKKV = ?R" using False assms(4) by auto
  have "key_block (?R div QKKV) D (rs_k a') (f * ?R) k = key_block (?R div QKKV) D (rs_k a) (f * ?R) k"
    if "f < ?q div ?R" "k < H * (?R div QKKV * D)" for f k
    using key_block_take[OF _ that(2), of "f * ?R" ?q] flush_fits[OF that(1)] assms(5) R by metis
  moreover have "value_block ?R D (rs_v a') (f * ?R) k = value_block ?R D (rs_v a) (f * ?R) k"
    if "f < ?q div ?R" "k < H * (?R * (D div QKKV))" for f k
    using value_block_take[OF flush_fits[OF that(1)] that(2)] assms(6) by metis
  ultimately show ?thesis using False assms(1-3) by (simp add: blocks_ok_def Let_def)
qed (use assms(1) in \<open>simp add: blocks_ok_def\<close>)

section \<open>Appending\<close>

lemma block_index:
  fixes D R p h i :: nat
  assumes "0 < D" "p < R"
  shows "i div D mod R = p \<and> i div (R * D) = h \<longleftrightarrow> h * R * D + p * D \<le> i \<and> i < h * R * D + p * D + D"
proof
  assume a: "i div D mod R = p \<and> i div (R * D) = h"
  have "i div D = h * R + p" using a div_mult_mod_eq[of "i div D" R] by (simp add: div_mult2_eq[symmetric] mult.commute)
  then have "i = (h * R + p) * D + i mod D" by (metis div_mult_mod_eq)
  moreover have "i mod D < D" using assms(1) by simp
  ultimately show "h * R * D + p * D \<le> i \<and> i < h * R * D + p * D + D" by (simp add: algebra_simps)
next
  assume "h * R * D + p * D \<le> i \<and> i < h * R * D + p * D + D"
  then obtain j where i: "i = (h * R + p) * D + j" "j < D" by (metis add.assoc add_diff_inverse_nat add_less_cancel_left add_mult_distrib not_less)
  then have "i div D = h * R + p" using assms(1) by simp
  then show "i div D mod R = p \<and> i div (R * D) = h" using assms(2) by (simp add: mult.commute[of R] div_mult2_eq)
qed

lemma res_fun_at:
  assumes "0 < D" "p < R" "j < D"
  shows "res_fun D R q K (h * R * D + p * D + j) = K ! (q + p) ! (h * D + j)"
proof -
  let ?i = "h * R * D + p * D + j"
  have "?i div D mod R = p \<and> ?i div (R * D) = h" using block_index[OF assms(1,2), of ?i h] assms(3) by simp
  moreover have "?i mod D = j" using assms(3) mod_mult_self3[of "h * R + p" D j] by (simp add: algebra_simps)
  ultimately show ?thesis by (simp add: res_fun_def)
qed

lemma head_slice:
  assumes "h < H" "(s + 1) * (H * D) \<le> length xs" "j < D"
  shows "(s :: nat) * H * D + h * D + D \<le> length xs" "field xs (s * H * D + h * D) D ! j = field xs (s * (H * D)) (H * D) ! (h * D + j)"
proof -
  have h: "h * D + D \<le> H * D" using mult_le_mono1[OF Suc_leI[OF assms(1)], of D] by simp
  then show "s * H * D + h * D + D \<le> length xs" using assms(2) by (simp add: algebra_simps)
  then show "field xs (s * H * D + h * D) D ! j = field xs (s * (H * D)) (H * D) ! (h * D + j)"
    using assms h by (simp add: algebra_simps)
qed

text \<open>The rows of a token are written head by head.\<close>

lemma write_heads_rows:
  fixes xs :: "'f list"
  assumes "res_ok H D R q K res" "p < R" "length K = q + p" "(s + 1) * (H * D) \<le> length xs" "h \<le> H" "0 < D"
  defines "K' \<equiv> K @ [field xs (s * (H * D)) (H * D)]"
  shows "agrees (res_fun D R q K') (H * R * D) {i. q + i div D mod R < length K} res"
proof -
  have "res_fun D R q K' i = res_fun D R q K i" if "q + i div D mod R < length K" for i
    using that by (simp add: res_fun_def K'_def nth_append)
  with assms(1) show ?thesis unfolding res_ok_def by (elim agrees_mono) auto
qed

lemma write_head_row:
  fixes xs :: "'f list"
  assumes "agrees (res_fun D R q K') (H * R * D) (A \<union> {i. q + i div D mod R = length K \<and> i div (R * D) < h}) res"
    and "p < R" "length K = q + p" "(s + 1) * (H * D) \<le> length xs" "h < H" "0 < D" "K' = K @ [field xs (s * (H * D)) (H * D)]"
  shows "\<exists>k res'. slice xs (s * H * D + h * D) (s * H * D + h * D + D) = (Ok k :: _ qw_result) \<and> copy_into res (h * R * D + p * D) k = (Ok res' :: _ qw_result)
    \<and> agrees (res_fun D R q K') (H * R * D) (A \<union> {i. q + i div D mod R = length K \<and> i div (R * D) < Suc h}) res'"
proof -
  let ?k = "field xs (s * H * D + h * D) D"
  note hs = head_slice[OF assms(5,4)]
  have k: "length ?k = D" using hs(1)[OF assms(6)] by simp
  have "h * R * D + p * D + D \<le> H * R * D"
  proof -
    have "(h * R + p + 1) * D \<le> (H * R) * D" using mult_le_mono1[OF Suc_leI[OF assms(5)], of R] assms(2) by (intro mult_le_mono1) simp
    then show ?thesis by (simp add: algebra_simps)
  qed
  moreover have "?k ! j = res_fun D R q K' (h * R * D + p * D + j)" if "j < D" for j
    unfolding assms(7) res_fun_at[OF assms(6,2) that] hs(2)[OF that] using assms(3) by (simp add: nth_append)
  ultimately obtain res' where r: "copy_into res (h * R * D + p * D) ?k = (Ok res' :: _ qw_result)"
      "agrees (res_fun D R q K') (H * R * D) (A \<union> {i. q + i div D mod R = length K \<and> i div (R * D) < h} \<union> {h * R * D + p * D..<h * R * D + p * D + D}) res'"
    using agrees_copy[OF assms(1), of "h * R * D + p * D" ?k] k by auto
  have "agrees (res_fun D R q K') (H * R * D) (A \<union> {i. q + i div D mod R = length K \<and> i div (R * D) < Suc h}) res'"
    using r(2)
  proof (rule agrees_mono)
    fix i assume "i \<in> A \<union> {i. q + i div D mod R = length K \<and> i div (R * D) < Suc h}"
    then show "i \<in> A \<union> {i. q + i div D mod R = length K \<and> i div (R * D) < h} \<union> {h * R * D + p * D..<h * R * D + p * D + D}
        \<and> res_fun D R q K' i = res_fun D R q K' i"
      using block_index[OF assms(6,2), of i h] assms(3) by (auto simp: less_Suc_eq)
  qed
  with r(1) hs(1)[OF assms(6)] show ?thesis by (simp add: slice_def)
qed

lemma append_token_holds:
  assumes c: "holds fo H D M c a" and fit: "length (rs_k a) < rs_q a + rs_cap a" "length (rs_k a) < M"
    and len: "(s + 1) * (H * D) \<le> length k" "(s + 1) * (H * D) \<le> length v"
  shows "\<exists>c'. append_token k v s c = Ok c' \<and> holds fo H D M c' (a\<lparr>rs_k := rs_k a @ [field k (s * (H * D)) (H * D)], rs_v := rs_v a @ [field v (s * (H * D)) (H * D)]\<rparr>)"
proof -
  let ?R = "rs_cap a" let ?q = "rs_q a" let ?p = "length (rs_k a) - rs_q a"
  let ?K = "rs_k a @ [field k (s * (H * D)) (H * D)]" let ?V = "rs_v a @ [field v (s * (H * D)) (H * D)]"
  let ?a = "a\<lparr>rs_k := ?K, rs_v := ?V\<rparr>"
  have f: "qw_heads c = H" "qw_dim c = D" "qw_max_seq_len c = M" "qw_res_cap c = ?R" "qw_res_pos c = ?p" "0 < D" "?q \<le> length (rs_k a)" "length (rs_v a) = length (rs_k a)"
      "res_ok H D ?R ?q (rs_k a) (qw_res_k c)" "res_ok H D ?R ?q (rs_v a) (qw_res_v c)"
    using c by (simp_all add: holds_def rows_ok_def)
  have p: "?p < ?R" "length (rs_k a) = ?q + ?p" "length (rs_v a) = ?q + ?p" using fit f by simp_all
  let ?A = "{i. ?q + i div D mod ?R < length (rs_k a)}" let ?G = "\<lambda>h. ?A \<union> {i. ?q + i div D mod ?R = length (rs_k a) \<and> i div (?R * D) < h}"
  let ?I = "\<lambda>h c'. \<exists>rk rv. c' = c\<lparr>qw_res_k := rk, qw_res_v := rv\<rparr> \<and> agrees (res_fun D ?R ?q ?K) (H * ?R * D) (?G h) rk \<and> agrees (res_fun D ?R ?q ?V) (H * ?R * D) (?G h) rv"
  let ?f = "\<lambda>h c. let src = s * qw_heads c * qw_dim c + h * qw_dim c; dst = h * qw_res_cap c * qw_dim c + qw_res_pos c * qw_dim c in
         and_then (slice k src (src + qw_dim c)) (\<lambda>k. and_then (copy_into (qw_res_k c) dst k) (\<lambda>rk.
         and_then (slice v src (src + qw_dim c)) (\<lambda>v. and_then (copy_into (qw_res_v c) dst v) (\<lambda>rv.
         (Ok (c\<lparr>qw_res_k := rk, qw_res_v := rv\<rparr>) :: _ qw_result)))))"
  have "\<exists>c'. try_fold ?f [0..<qw_heads c] c = Ok c' \<and> ?I (length [0..<qw_heads c]) c'"
  proof (rule try_fold_nth[where I = ?I])
    have "agrees (res_fun D ?R ?q ?K) (H * ?R * D) ?A (qw_res_k c)" "agrees (res_fun D ?R ?q ?V) (H * ?R * D) ?A (qw_res_v c)"
      using write_heads_rows[OF f(9) p(1,2) len(1) le_refl f(6)] write_heads_rows[OF f(10) p(1,3) len(2) le_refl f(6)] f(8) by simp_all
    then show "?I 0 c" by (intro exI[of _ "qw_res_k c"] exI[of _ "qw_res_v c"]) simp
    fix h c' assume "h < length [0..<qw_heads c]" "?I h c'"
    then obtain rk rv where h: "h < H" "c' = c\<lparr>qw_res_k := rk, qw_res_v := rv\<rparr>" "agrees (res_fun D ?R ?q ?K) (H * ?R * D) (?G h) rk" "agrees (res_fun D ?R ?q ?V) (H * ?R * D) (?G h) rv"
      using f by auto
    from write_head_row[OF h(3) p(1,2) len(1) h(1) f(6) refl] obtain k0 rk' where rk: "slice k (s * H * D + h * D) (s * H * D + h * D + D) = (Ok k0 :: _ qw_result)"
        "copy_into rk (h * ?R * D + ?p * D) k0 = (Ok rk' :: _ qw_result)" "agrees (res_fun D ?R ?q ?K) (H * ?R * D) (?G (Suc h)) rk'" by blast
    from write_head_row[OF h(4)[folded f(8)] p(1,3) len(2) h(1) f(6) refl] f(8) obtain v0 rv' where rv: "slice v (s * H * D + h * D) (s * H * D + h * D + D) = (Ok v0 :: _ qw_result)"
        "copy_into rv (h * ?R * D + ?p * D) v0 = (Ok rv' :: _ qw_result)" "agrees (res_fun D ?R ?q ?V) (H * ?R * D) (?G (Suc h)) rv'" by auto
    have "?f h c' = Ok (c\<lparr>qw_res_k := rk', qw_res_v := rv'\<rparr>)" using rk(1,2) rv(1,2) f by (simp add: h(2) Let_def)
    moreover have "[0..<qw_heads c] ! h = h" using h(1) f by simp
    ultimately show "\<exists>c''. ?f ([0..<qw_heads c] ! h) c' = Ok c'' \<and> ?I (Suc h) c''" using rk(3) rv(3) by auto
  qed
  then obtain rk rv where w: "try_fold ?f [0..<qw_heads c] c = Ok (c\<lparr>qw_res_k := rk, qw_res_v := rv\<rparr>)"
      "agrees (res_fun D ?R ?q ?K) (H * ?R * D) (?G H) rk" "agrees (res_fun D ?R ?q ?V) (H * ?R * D) (?G H) rv" using f(1) by auto
  let ?c = "c\<lparr>qw_res_k := rk, qw_res_v := rv, qw_res_pos := qw_res_pos c + 1\<rparr>"
  have G: "i \<in> ?G H" if "i < H * ?R * D" "?q + i div D mod ?R < length ?K" for i
    using that div_less_iff_less_mult[of "?R * D" i H] f(6) p(1) by (auto simp: mult.assoc)
  have "res_ok H D ?R ?q ?K rk" "res_ok H D ?R ?q ?V rv" unfolding res_ok_def
    by (rule agrees_mono[OF w(2)]; use G f(8) in simp) (rule agrees_mono[OF w(3)]; use G f(8) in simp)
  moreover have "rows_ok H D M ?a" using c fit len by (auto simp: holds_def rows_ok_def)
  moreover have "blocks_ok fo H D ?a (qw_qk c) (qw_qv c)"
    by (rule blocks_ok_cong[THEN iffD2]) (use c f(7,8) in \<open>auto simp: holds_def rows_ok_def\<close>)
  ultimately have "holds fo H D M ?c ?a" using c f(7,8) attn_ok_cong[of "rs_q a" ?K "rs_k a"] attn_ok_cong[of "rs_q a" ?V "rs_v a"]
    by (auto simp: holds_def)
  with w(1) show ?thesis by (simp add: append_token_def)
qed

end
