(* ===== verification/Quant_Flush.thy ===== *)
theory Quant_Flush
  imports Quant_Rows
begin

text \<open>The flush of the residual: blocks are pushed head by head, and the rows become what the codec makes of them.\<close>

lemma try_fold_map: "try_fold f (map g xs) s = try_fold (\<lambda>x. f (g x)) xs s"
proof (induction xs arbitrary: s)
  case (Cons x xs)
  then show ?case by (cases "f (g x) s") simp_all
qed simp

lemma key_bounds:
  assumes "k < H * (n * (l :: nat))"
  shows "k div (n * l) < H" "k mod (n * l) div l < n" "k mod (n * l) mod l < l"
proof -
  show "k div (n * l) < H" by (rule less_mult_imp_div_less[OF assms])
  show "k mod (n * l) div l < n" by (rule mod_div_less[OF assms])
  have "0 < l" using assms by (cases l) simp_all
  then show "k mod (n * l) mod l < l" by simp
qed

section \<open>Blocks of the residual\<close>

lemma row_fits: "h < H \<Longrightarrow> p < R \<Longrightarrow> h * R * D + p * D + D \<le> H * R * (D :: nat)"
proof -
  assume "h < H" "p < R"
  then have "(h * R + p + 1) * D \<le> (H * R) * D" using mult_le_mono1[of "Suc h" H R] by (intro mult_le_mono1) simp
  then show ?thesis by (simp add: algebra_simps)
qed

lemma res_at:
  assumes "res_ok H D R q K res" "h < H" "p < R" "q + p < length K" "j < D"
  shows "h * R * D + p * D + j < length res" "res ! (h * R * D + p * D + j) = K ! (q + p) ! (h * D + j)"
proof -
  let ?i = "h * R * D + p * D + j"
  have D: "0 < D" using assms(5) by simp
  have i: "?i < H * R * D" using row_fits[OF assms(2,3), of D] assms(5) by linarith
  moreover have "?i div D mod R = p" using block_index[OF D assms(3), of ?i h] assms(5) by simp
  ultimately show "?i < length res" "res ! ?i = K ! (q + p) ! (h * D + j)"
    using assms(1,4) res_fun_at[OF D assms(3,5)] by (simp_all add: res_ok_def agrees_def)
qed

lemma flush_keys_ok:
  assumes "res_ok H D R q K (qw_res_k c)" "qw_heads c = H" "qw_dim c = D" "qw_res_cap c = R" "qw_qk c = stored bits kb" "bits \<in> {2, 4, 8}"
    and "n * QKKV \<le> R" "q + n * QKKV \<le> length K"
  shows "flush_keys fo n c = Ok (stored bits (kb @ map (\<lambda>k. quant fo bits (key_block n D K q k)) [0..<H * (n * D)]))"
proof -
  let ?h = "\<lambda>k. k div (n * D)" let ?g = "\<lambda>k. k mod (n * D) div D" let ?c = "\<lambda>k. k mod (n * D) mod D"
  let ?vals = "\<lambda>k. gather (qw_res_k c) (map (\<lambda>t. ?h k * R * D + (?g k * QKKV + t) * D + ?c k) [0..<QKKV])"
  have v: "?vals k = (Ok (key_block n D K q k) :: _ qw_result)" if k: "k < H * (n * D)" for k
  proof -
    note b = key_bounds[OF k]
    have "?g k * QKKV + t < n * QKKV" if "t < QKKV" for t
      using mult_le_mono1[OF Suc_leI[OF b(2)], of QKKV] that by simp
    then have p: "?g k * QKKV + t < R" "q + (?g k * QKKV + t) < length K" if "t < QKKV" for t
      using that assms(7,8) by (meson less_le_trans, meson less_le_trans nat_add_left_cancel_less)
    note r = res_at[OF assms(1) b(1) p b(3)]
    show ?thesis using r by (auto simp: gather_def key_block_def add.assoc)
  qed
  show ?thesis unfolding flush_keys_def keys3 try_fold_map assms(2-5)
    using push_loop[OF assms(6), of "H * (n * D)" ?vals "key_block n D K q" fo kb] v by simp
qed

lemma flush_values_ok:
  assumes "res_ok H D R q V (qw_res_v c)" "qw_heads c = H" "qw_dim c = D" "qw_res_cap c = R" "qw_qv c = stored bits vb" "bits \<in> {2, 4, 8}"
    and "n \<le> R" "q + n \<le> length V" "\<forall>r \<in> set V. length r = H * D" "D mod QKKV = 0"
  shows "flush_values fo n c = Ok (stored bits (vb @ map (\<lambda>k. quant fo bits (value_block n D V q k)) [0..<H * (n * (D div QKKV))]))"
proof -
  let ?B = "D div QKKV"
  let ?h = "\<lambda>k. k div (n * ?B)" let ?t = "\<lambda>k. k mod (n * ?B) div ?B" let ?b = "\<lambda>k. k mod (n * ?B) mod ?B"
  let ?start = "\<lambda>k. ?h k * R * D + ?t k * D + ?b k * QKKV"
  have v: "slice (qw_res_v c) (?start k) (?start k + QKKV) = (Ok (value_block n D V q k) :: _ qw_result)" if k: "k < H * (n * ?B)" for k
  proof -
    note b = key_bounds[OF k]
    have B: "?B * QKKV = D" using assms(10) by auto
    have bd: "?b k * QKKV + QKKV \<le> D" using mult_le_mono1[OF Suc_leI[OF b(3)], of QKKV] B by simp
    have p: "?t k < R" "q + ?t k < length V" using b(2) assms(7,8) by linarith+
    note r = res_at[OF assms(1) b(1) p]
    have len: "?start k + QKKV \<le> length (qw_res_v c)"
      using row_fits[OF b(1) p(1), of D] bd assms(1) by (simp add: res_ok_def agrees_def)
    have row: "length (V ! (q + ?t k)) = H * D" using assms(9) p(2) by simp
    have hd: "?h k * D + D \<le> H * D" using mult_le_mono1[OF Suc_leI[OF b(1)], of D] by simp
    have "field (qw_res_v c) (?start k) QKKV = value_block n D V q k"
    proof (rule nth_equalityI)
      show "length (field (qw_res_v c) (?start k) QKKV) = length (value_block n D V q k)" using len row hd bd by (simp add: value_block_def)
      fix j assume "j < length (field (qw_res_v c) (?start k) QKKV)"
      then have j: "j < QKKV" by simp
      with r(2)[of "?b k * QKKV + j"] bd len row hd show "field (qw_res_v c) (?start k) QKKV ! j = value_block n D V q k ! j"
        by (simp add: value_block_def add.assoc)
    qed
    with len show ?thesis by (simp add: slice_def)
  qed
  show ?thesis unfolding flush_values_def keys3 try_fold_map assms(2-5) Let_def
    using push_loop[OF assms(6), of "H * (n * ?B)" "\<lambda>k. slice (qw_res_v c) (?start k) (?start k + QKKV)" "value_block n D V q" fo vb] v by simp
qed

section \<open>Rows through the codec\<close>

lemma map_nth_upt: "length xs = n \<Longrightarrow> map ((!) xs) [0..<n] = xs"
  using map_nth[of xs] by simp

lemma field_map_upt: "s + m \<le> n \<Longrightarrow> field (map f [0..<n]) s m = map (\<lambda>j. f (s + j)) [0..<m]"
  by (intro nth_equalityI) simp_all

lemma key_block_length [simp]: "length (key_block G D K b k) = QKKV"
  by (simp add: key_block_def)

lemma quant_keys_block:
  assumes "length K = q + G * QKKV" "\<forall>r \<in> set K. length r = H * D" "k < H * (G * D)"
  shows "key_block G D (take q K @ quant_keys fo bits (drop q K)) q k = through fo bits (key_block G D K q k)"
proof -
  let ?g = "k mod (G * D) div D" let ?j = "k div (G * D) * D + k mod (G * D) mod D"
  note b = key_bounds[OF assms(3)]
  have j: "?j < H * D" using mult_le_mono1[OF Suc_leI[OF b(1)], of D] b(3) by simp
  have i: "?g * QKKV + t < G * QKKV" if "t < QKKV" for t using mult_le_mono1[OF Suc_leI[OF b(2)], of QKKV] that by simp
  have "(take q K @ quant_keys fo bits (drop q K)) ! (q + ?g * QKKV + t) ! ?j = through fo bits (key_block G D K q k) ! t" if t: "t < QKKV" for t
  proof -
    have 1: "(take q K @ quant_keys fo bits (drop q K)) ! (q + ?g * QKKV + t) = quant_keys fo bits (drop q K) ! (?g * QKKV + t)"
      using assms(1) by (simp add: nth_append)
    have 2: "quant_keys fo bits (drop q K) ! (?g * QKKV + t) ! ?j = through fo bits (map (\<lambda>s. drop q K ! ((?g * QKKV + t) div QKKV * QKKV + s) ! ?j) [0..<QKKV]) ! ((?g * QKKV + t) mod QKKV)"
      using i[OF t] j assms(1,2) by (simp add: quant_keys_def)
    have 3: "map (\<lambda>s. drop q K ! ((?g * QKKV + t) div QKKV * QKKV + s) ! ?j) [0..<QKKV] = key_block G D K q k"
      using t assms(1) by (simp add: key_block_def add.assoc)
    show ?thesis unfolding 1 2 3 using t by simp
  qed
  then have "key_block G D (take q K @ quant_keys fo bits (drop q K)) q k = map ((!) (through fo bits (key_block G D K q k))) [0..<QKKV]"
    by (simp add: key_block_def)
  then show ?thesis using map_nth_upt[OF through_length[of "key_block G D K q k" fo bits]] by simp
qed

lemma value_block_length:
  assumes "k < H * (R * (D div QKKV))" "b + R \<le> length V" "\<forall>r \<in> set V. length r = H * D" "D mod QKKV = 0"
  shows "length (value_block R D V b k) = QKKV"
    "k div (R * (D div QKKV)) * D + k mod (R * (D div QKKV)) mod (D div QKKV) * QKKV + QKKV \<le> H * D"
proof -
  note kb = key_bounds[OF assms(1)]
  have "k mod (R * (D div QKKV)) mod (D div QKKV) * QKKV + QKKV \<le> D"
    using mult_le_mono1[OF Suc_leI[OF kb(3)], of QKKV] assms(4) by auto
  moreover have "k div (R * (D div QKKV)) * D + D \<le> H * D" using mult_le_mono1[OF Suc_leI[OF kb(1)], of D] by simp
  ultimately show le: "k div (R * (D div QKKV)) * D + k mod (R * (D div QKKV)) mod (D div QKKV) * QKKV + QKKV \<le> H * D" by linarith
  have "length (V ! (b + k mod (R * (D div QKKV)) div (D div QKKV))) = H * D" using kb(2) assms(2,3) by simp
  with le show "length (value_block R D V b k) = QKKV" by (simp add: value_block_def)
qed

lemma quant_values_block:
  assumes "length V = q + R" "\<forall>r \<in> set V. length r = H * D" "D mod QKKV = 0" "k < H * (R * (D div QKKV))"
  shows "value_block R D (take q V @ quant_values fo bits (drop q V)) q k = through fo bits (value_block R D V q k)"
proof -
  let ?B = "D div QKKV" let ?t = "k mod (R * ?B) div ?B" let ?o = "k div (R * ?B) * D + k mod (R * ?B) mod ?B * QKKV"
  have qR: "q + R \<le> length V" using assms(1) by simp
  note b = key_bounds[OF assms(4)] and l = value_block_length[OF assms(4) qR assms(2,3)]
  have o: "?o = (k div (R * ?B) * ?B + k mod (R * ?B) mod ?B) * QKKV" using assms(3) by (simp add: add_mult_distrib mult.assoc) auto
  have row: "length (V ! (q + ?t)) = H * D" using b(2) assms(1,2) by simp
  have r: "(take q V @ quant_values fo bits (drop q V)) ! (q + ?t) = map (\<lambda>j. through fo bits (field (V ! (q + ?t)) (j div QKKV * QKKV) QKKV) ! (j mod QKKV)) [0..<H * D]"
    using b(2) assms(1) row by (simp add: nth_append quant_values_def)
  have "value_block R D (take q V @ quant_values fo bits (drop q V)) q k
      = map (\<lambda>j. through fo bits (field (V ! (q + ?t)) ((?o + j) div QKKV * QKKV) QKKV) ! ((?o + j) mod QKKV)) [0..<QKKV]"
    unfolding value_block_def r by (rule field_map_upt[OF l(2)])
  also have "\<dots> = map ((!) (through fo bits (value_block R D V q k))) [0..<QKKV]"
    unfolding o by (simp add: value_block_def o)
  finally show ?thesis using map_nth_upt[OF through_length[OF l(1)]] by simp
qed

lemma length_quant_rows [simp]: "length (quant_keys fo bits rows) = length rows" "length (quant_values fo bits rows) = length rows"
  by (simp_all add: quant_keys_def quant_values_def)

lemma width_quant_rows:
  assumes "\<forall>r \<in> set rows. length r = W"
  shows "r \<in> set (quant_keys fo bits rows) \<Longrightarrow> length r = W" "r \<in> set (quant_values fo bits rows) \<Longrightarrow> length r = W"
  using assms by (auto simp: quant_keys_def quant_values_def)

lemma quantize_rest_fields:
  assumes "rs_q a \<le> length (rs_k a)" "length (rs_v a) = length (rs_k a)" "\<forall>r \<in> set (rs_k a) \<union> set (rs_v a). length r = W"
  shows "rs_bits (quantize_rest fo a) = rs_bits a" "rs_cap (quantize_rest fo a) = rs_cap a" "rs_q (quantize_rest fo a) = length (rs_k a)"
    "length (rs_k (quantize_rest fo a)) = length (rs_k a)" "length (rs_v (quantize_rest fo a)) = length (rs_k a)"
    "take (rs_q a) (rs_k (quantize_rest fo a)) = take (rs_q a) (rs_k a)" "take (rs_q a) (rs_v (quantize_rest fo a)) = take (rs_q a) (rs_v a)"
    "\<forall>r \<in> set (rs_k (quantize_rest fo a)) \<union> set (rs_v (quantize_rest fo a)). length r = W"
proof -
  have d: "\<forall>r \<in> set (drop (rs_q a) (rs_k a)). length r = W" "\<forall>r \<in> set (drop (rs_q a) (rs_v a)). length r = W"
    using assms(3) by (auto dest: in_set_dropD)
  show "\<forall>r \<in> set (rs_k (quantize_rest fo a)) \<union> set (rs_v (quantize_rest fo a)). length r = W"
    using assms(3) width_quant_rows[OF d(1)] width_quant_rows[OF d(2)] by (auto simp: quantize_rest_def dest: in_set_takeD)
qed (use assms in \<open>simp_all add: quantize_rest_def\<close>)

section \<open>A full window is flushed\<close>

text \<open>One more run of blocks behind those that are there.\<close>

lemma blocks_grow:
  fixes blk :: "nat \<Rightarrow> nat \<Rightarrow> 'f list"
  assumes "length bs = n * m" "\<forall>f < n. \<forall>k < m. dequant fo bits (bs ! (f * m + k)) = blk f k" "\<forall>k < m. through fo bits (src k) = blk n k"
  shows "\<forall>f < Suc n. \<forall>k < m. dequant fo bits ((bs @ map (\<lambda>k. quant fo bits (src k)) [0..<m]) ! (f * m + k)) = blk f k"
proof (intro allI impI)
  fix f k assume fk: "f < Suc n" "k < m"
  show "dequant fo bits ((bs @ map (\<lambda>k. quant fo bits (src k)) [0..<m]) ! (f * m + k)) = blk f k"
  proof (cases "f < n")
    case True
    then have "f * m + k < length bs" using fk(2) assms(1) mult_le_mono1[of "Suc f" n m] by simp
    with True fk(2) assms(2) show ?thesis by (simp add: nth_append)
  next
    case False
    then show ?thesis using fk assms(1,3) by (simp add: nth_append through_def less_Suc_eq)
  qed
qed

lemma flush_blocks_ok:
  assumes "rows_ok H D M a" "rs_bits a \<noteq> 16" "length (rs_k a) = rs_q a + rs_cap a" "blocks_ok fo H D a (stored (rs_bits a) kb) (stored (rs_bits a) vb)"
  defines "R \<equiv> rs_cap a" and "q \<equiv> rs_q a"
  shows "blocks_ok fo H D (quantize_rest fo a)
    (stored (rs_bits a) (kb @ map (\<lambda>k. quant fo (rs_bits a) (key_block (R div QKKV) D (rs_k a) q k)) [0..<H * (R div QKKV * D)]))
    (stored (rs_bits a) (vb @ map (\<lambda>k. quant fo (rs_bits a) (value_block R D (rs_v a) q k)) [0..<H * (R * (D div QKKV))]))"
proof -
  let ?G = "R div QKKV" let ?n = "q div R" let ?K = "rs_k (quantize_rest fo a)" let ?V = "rs_v (quantize_rest fo a)"
  let ?kn = "H * (?G * D)" let ?vn = "H * (R * (D div QKKV))"
  have r: "0 < R" "?G * QKKV = R" "q mod R = 0" "D mod QKKV = 0" "length (rs_k a) = q + R" "length (rs_v a) = q + R"
      "\<forall>r \<in> set (rs_k a). length r = H * D" "\<forall>r \<in> set (rs_v a). length r = H * D"
    using assms(1-3) by (auto simp: rows_ok_def R_def q_def)
  have KV: "?K = take q (rs_k a) @ quant_keys fo (rs_bits a) (drop q (rs_k a))" "?V = take q (rs_v a) @ quant_values fo (rs_bits a) (drop q (rs_v a))"
      "rs_q (quantize_rest fo a) = q + R" "rs_cap (quantize_rest fo a) = R" "rs_bits (quantize_rest fo a) = rs_bits a"
    using r(5) by (simp_all add: quantize_rest_def q_def R_def)
  have inj: "stored b xs = stored b ys \<Longrightarrow> xs = ys" for b and xs ys :: "'b kv_block list" by (auto simp: stored_def split: if_splits)
  from assms(2,4) obtain B: "length kb = ?n * ?kn" "length vb = ?n * ?vn"
      "\<forall>f < ?n. \<forall>k < ?kn. dequant fo (rs_bits a) (kb ! (f * ?kn + k)) = key_block ?G D (rs_k a) (f * R) k"
      "\<forall>f < ?n. \<forall>k < ?vn. dequant fo (rs_bits a) (vb ! (f * ?vn + k)) = value_block R D (rs_v a) (f * R) k"
    unfolding blocks_ok_def Let_def R_def[symmetric] q_def[symmetric] by (auto dest!: inj)
  have k1: "key_block ?G D ?K (f * R) k = key_block ?G D (rs_k a) (f * R) k" if "f < ?n" "k < ?kn" for f k
    using key_block_take[of "f * R" ?G q k H D ?K] key_block_take[of "f * R" ?G q k H D "rs_k a"] flush_fits[OF that(1)] that(2) r(2,5) KV(1) by simp
  have v1: "value_block R D ?V (f * R) k = value_block R D (rs_v a) (f * R) k" if "f < ?n" "k < ?vn" for f k
    using value_block_take[OF flush_fits[OF that(1)] that(2), of ?V] value_block_take[OF flush_fits[OF that(1)] that(2), of "rs_v a"] r(6) KV(2) by simp
  have nR: "?n * R = q" using r(3) by auto
  have k2: "through fo (rs_bits a) (key_block ?G D (rs_k a) q k) = key_block ?G D ?K (?n * R) k" if "k < ?kn" for k
    unfolding KV(1) nR by (rule quant_keys_block[symmetric]) (use r that in auto)
  have v2: "through fo (rs_bits a) (value_block R D (rs_v a) q k) = value_block R D ?V (?n * R) k" if "k < ?vn" for k
    unfolding KV(2) nR by (rule quant_values_block[symmetric]) (use r that in auto)
  have n: "(q + R) div R = Suc ?n" using r(1) div_add_self2[of R q] by linarith
  have "\<forall>f < Suc ?n. \<forall>k < ?kn. dequant fo (rs_bits a) ((kb @ map (\<lambda>k. quant fo (rs_bits a) (key_block ?G D (rs_k a) q k)) [0..<?kn]) ! (f * ?kn + k)) = key_block ?G D ?K (f * R) k"
    by (rule blocks_grow[OF B(1)]) (use B(3) k1 k2 in simp_all)
  moreover have "\<forall>f < Suc ?n. \<forall>k < ?vn. dequant fo (rs_bits a) ((vb @ map (\<lambda>k. quant fo (rs_bits a) (value_block R D (rs_v a) q k)) [0..<?vn]) ! (f * ?vn + k)) = value_block R D ?V (f * R) k"
    by (rule blocks_grow[OF B(2)]) (use B(4) v1 v2 in simp_all)
  moreover have "length (kb @ map (\<lambda>k. quant fo (rs_bits a) (key_block ?G D (rs_k a) q k)) [0..<?kn]) = Suc ?n * ?kn"
      "length (vb @ map (\<lambda>k. quant fo (rs_bits a) (value_block R D (rs_v a) q k)) [0..<?vn]) = Suc ?n * ?vn" using B(1,2) by simp_all
  ultimately show ?thesis unfolding blocks_ok_def Let_def KV(3-5) n if_not_P[OF assms(2)] by blast
qed

lemma flush_residual_holds:
  assumes "holds fo H D M c a" "rs_bits a \<noteq> 16" "length (rs_k a) = rs_q a + rs_cap a"
  shows "\<exists>c'. flush_residual fo c = Ok c' \<and> holds fo H D M c' (quantize_rest fo a)"
proof -
  let ?R = "rs_cap a" let ?q = "rs_q a" let ?G = "?R div QKKV" let ?b = "rs_bits a"
  have r: "rows_ok H D M a" "?b \<in> {2, 4, 8}" "?G * QKKV = ?R" "QKKV \<le> ?R" "D mod QKKV = 0" "length (rs_v a) = ?q + ?R" "length (rs_k a) \<le> M"
      "\<forall>r \<in> set (rs_k a). length r = H * D" "\<forall>r \<in> set (rs_v a). length r = H * D" "?q mod ?R = 0" "0 < D"
    using assms by (auto simp: holds_def rows_ok_def dvd_imp_le)
  have f: "qw_heads c = H" "qw_dim c = D" "qw_bits c = ?b" "qw_res_cap c = ?R" "qw_q2_tokens c = ?q" "qw_res_pos c = ?R"
      "res_ok H D ?R ?q (rs_k a) (qw_res_k c)" "res_ok H D ?R ?q (rs_v a) (qw_res_v c)" "blocks_ok fo H D a (qw_qk c) (qw_qv c)"
    using assms(1,3) by (simp_all add: holds_def)
  obtain kb vb where b: "qw_qk c = stored ?b kb" "qw_qv c = stored ?b vb" using f(9) assms(2) unfolding blocks_ok_def Let_def by auto
  define qk where "qk = stored ?b (kb @ map (\<lambda>k. quant fo ?b (key_block ?G D (rs_k a) ?q k)) [0..<H * (?G * D)])"
  define qv where "qv = stored ?b (vb @ map (\<lambda>k. quant fo ?b (value_block ?R D (rs_v a) ?q k)) [0..<H * (?R * (D div QKKV))])"
  have k: "flush_keys fo ?G c = Ok qk" unfolding qk_def by (rule flush_keys_ok[OF f(7,1,2,4) b(1) r(2)]) (use r assms(3) in simp_all)
  have v: "flush_values fo ?R c = Ok qv" unfolding qv_def by (rule flush_values_ok[OF f(8,1,2,4) b(2) r(2)]) (use r in simp_all)
  let ?c = "c\<lparr>qw_qk := qk, qw_qv := qv, qw_q2_tokens := ?q + ?R, qw_res_pos := 0\<rparr>" let ?a = "quantize_rest fo a"
  have fl: "flush_residual fo c = Ok ?c" using k v f r(3,4) assms(2) by (simp add: flush_residual_def Let_def)
  have "blocks_ok fo H D ?a qk qv" unfolding qk_def qv_def by (rule flush_blocks_ok[OF r(1) assms(2,3)]) (use f(9) b in simp)
  moreover have "rs_q a \<le> length (rs_k a)" "length (rs_v a) = length (rs_k a)" "\<forall>r \<in> set (rs_k a) \<union> set (rs_v a). length r = H * D"
    using assms(3) r by auto
  note a = quantize_rest_fields[OF this, of fo, unfolded assms(3)]
  moreover have "res_ok H D ?R (?q + ?R) (rs_k ?a) (qw_res_k c)" "res_ok H D ?R (?q + ?R) (rs_v ?a) (qw_res_v c)"
    using f(7,8) a(4,5) r(6) by (simp_all add: res_ok_def agrees_def)
  moreover have "attn_ok (H * D) M (qw_q2_deq_tokens c) (rs_k ?a) (qw_attn_k c)" "attn_ok (H * D) M (qw_q2_deq_tokens c) (rs_v ?a) (qw_attn_v c)"
    using assms(1) attn_ok_cong[OF a(6)] attn_ok_cong[OF a(7)] by (simp_all add: holds_def)
  ultimately have "holds fo H D M ?c ?a" using assms(1) r a f(1,2,3,4) assms(2,3) by (simp add: holds_def rows_ok_def)
  with fl show ?thesis by blast
qed

lemma take_token_holds:
  assumes "holds fo H D M c a" "length (rs_k a) < M" "(s + 1) * (H * D) \<le> length k" "(s + 1) * (H * D) \<le> length v"
  shows "\<exists>c'. and_then (if qw_res_pos c \<ge> qw_res_cap c then flush_residual fo c else Ok c) (append_token k v s) = Ok c'
    \<and> holds fo H D M c' (row_append fo (field k (s * (H * D)) (H * D)) (field v (s * (H * D)) (H * D)) a)"
proof -
  have r: "length (rs_k a) \<le> rs_q a + rs_cap a" "rs_q a \<le> length (rs_k a)" "qw_res_pos c = length (rs_k a) - rs_q a" "qw_res_cap c = rs_cap a"
      "rs_bits a = 16 \<longrightarrow> length (rs_k a) < rs_q a + rs_cap a"
    using assms(1,2) by (auto simp: holds_def rows_ok_def)
  have w: "length (rs_v a) = length (rs_k a)" "\<forall>r \<in> set (rs_k a) \<union> set (rs_v a). length r = H * D" using assms(1) by (auto simp: holds_def rows_ok_def)
  show ?thesis
  proof (cases "rs_bits a \<noteq> 16 \<and> length (rs_k a) = rs_q a + rs_cap a")
    case True
    then obtain c1 where c1: "flush_residual fo c = Ok c1" "holds fo H D M c1 (quantize_rest fo a)" using flush_residual_holds[OF assms(1)] by blast
    have "length (rs_k (quantize_rest fo a)) < rs_q (quantize_rest fo a) + rs_cap (quantize_rest fo a)" "length (rs_k (quantize_rest fo a)) < M"
      using assms(1,2) True quantize_rest_fields[OF r(2) w, of fo] by (auto simp: holds_def rows_ok_def)
    from append_token_holds[OF c1(2) this assms(3,4)] c1(1) True r show ?thesis by (auto simp: row_append_def Let_def)
  next
    case False
    then have "length (rs_k a) < rs_q a + rs_cap a" using r by auto
    from append_token_holds[OF assms(1) this assms(2-4)] this r(2-4) False show ?thesis by (auto simp: row_append_def Let_def)
  qed
qed

end
