(* ===== verification/Quant_View.thy ===== *)
theory Quant_View
  imports Quant_Flush
begin

text \<open>Updates and views: the view is the concatenation of the rows, whatever was dequantised for an earlier view.\<close>

section \<open>Update\<close>

definition rows_append :: "('f, 'h) float_ops \<Rightarrow> nat \<Rightarrow> 'f list \<Rightarrow> 'f list \<Rightarrow> nat \<Rightarrow> 'f row_state \<Rightarrow> 'f row_state" where
  "rows_append fo W k v n a = foldl (\<lambda>a s. row_append fo (field k (s * W) W) (field v (s * W) W) a) a [0..<n]"

lemma row_append_length: "rs_q a \<le> length (rs_k a) \<Longrightarrow> length (rs_k (row_append fo k v a)) = length (rs_k a) + 1"
  by (simp add: row_append_def Let_def quantize_rest_def)

lemma qw_update_holds:
  assumes "holds fo H D M c a" "length (rs_k a) + n \<le> M" "n * (H * D) \<le> length k" "n * (H * D) \<le> length v"
  shows "\<exists>c'. qw_update fo k v n c = Ok c' \<and> holds fo H D M c' (rows_append fo (H * D) k v n a) \<and> length (rs_k (rows_append fo (H * D) k v n a)) = length (rs_k a) + n"
proof -
  let ?A = "\<lambda>j. rows_append fo (H * D) k v j a"
  have "\<exists>c'. try_fold (\<lambda>s c. and_then (if qw_res_pos c \<ge> qw_res_cap c then flush_residual fo c else Ok c) (append_token k v s)) [0..<n] c = Ok c'
      \<and> (holds fo H D M c' (?A (length [0..<n])) \<and> length (rs_k (?A (length [0..<n]))) = length (rs_k a) + length [0..<n])"
  proof (rule try_fold_nth[where I = "\<lambda>j c'. holds fo H D M c' (?A j) \<and> length (rs_k (?A j)) = length (rs_k a) + j"])
    fix j c' assume j: "j < length [0..<n]" "holds fo H D M c' (?A j) \<and> length (rs_k (?A j)) = length (rs_k a) + j"
    then have s: "(j + 1) * (H * D) \<le> length k" "(j + 1) * (H * D) \<le> length v" using assms(3,4) mult_le_mono1[of "j + 1" n "H * D"] by simp_all
    have "rs_q (?A j) \<le> length (rs_k (?A j))" using j(2) by (simp add: holds_def rows_ok_def)
    moreover have "?A (Suc j) = row_append fo (field k (j * (H * D)) (H * D)) (field v (j * (H * D)) (H * D)) (?A j)" by (simp add: rows_append_def)
    ultimately have "length (rs_k (?A (Suc j))) = length (rs_k a) + Suc j" using j(2) by (simp add: row_append_length)
    with take_token_holds[OF conjunct1[OF j(2)] _ s] j assms(2)
    show "\<exists>c''. and_then (if qw_res_pos c' \<ge> qw_res_cap c' then flush_residual fo c' else Ok c') (append_token k v ([0..<n] ! j)) = Ok c''
        \<and> holds fo H D M c'' (?A (Suc j)) \<and> length (rs_k (?A (Suc j))) = length (rs_k a) + Suc j" by (simp add: rows_append_def)
  qed (use assms(1) in \<open>simp add: rows_append_def\<close>)
  moreover have "total_tokens c = length (rs_k a)" "qw_max_seq_len c = M" using assms(1) by (simp_all add: holds_def rows_ok_def total_tokens_def)
  ultimately show ?thesis using assms(2) by (auto simp: qw_update_def)
qed

section \<open>Dequantising\<close>

lemma decode3:
  fixes x y z m l :: nat
  assumes "y < m" "z < l"
  shows "(x * (m * l) + y * l + z) div (m * l) = x" "(x * (m * l) + y * l + z) mod (m * l) div l = y"
    "(x * (m * l) + y * l + z) mod (m * l) mod l = z" "x < n \<Longrightarrow> x * (m * l) + y * l + z < n * (m * l)"
proof -
  have yz: "y * l + z < m * l" using mult_le_mono1[OF Suc_leI[OF assms(1)], of l] assms(2) by simp
  then show "(x * (m * l) + y * l + z) div (m * l) = x" by (intro div_nat_eqI) (simp_all add: algebra_simps)
  have "(x * (m * l) + y * l + z) mod (m * l) = y * l + z" using yz by (simp add: add.assoc)
  then show "(x * (m * l) + y * l + z) mod (m * l) div l = y" "(x * (m * l) + y * l + z) mod (m * l) mod l = z" using assms(2) by simp_all
  assume "x < n"
  then show "x * (m * l) + y * l + z < n * (m * l)" using mult_le_mono1[of "Suc x" n "m * l"] yz by simp
qed

lemma flat_at: "w < W \<Longrightarrow> flat_fun W K (p * W + w) = K ! p ! w"
  by (simp add: flat_fun_def)

lemma pos_fits: "p < M \<Longrightarrow> w < W \<Longrightarrow> p * W + w < M * (W :: nat)"
  using mult_le_mono1[of "Suc p" M W] by simp

lemma chan_fits: "h < H \<Longrightarrow> ch < D \<Longrightarrow> h * D + ch < H * (D :: nat)"
  using mult_le_mono1[of "Suc h" H D] by simp

lemma deq_keys_ok:
  assumes st: "qw_qk c = stored bits kb" "bits \<in> {2, 4, 8}" "qw_heads c = H" "qw_dim c = D" "qw_res_cap c = R" "R div QKKV * QKKV = R"
    and blk: "\<forall>k < H * (R div QKKV * D). i0 + k < length kb \<and> dequant fo bits (kb ! (i0 + k)) = key_block (R div QKKV) D K b k"
    and fit: "b + R \<le> M" "agrees (flat_fun (H * D) K) (M * (H * D)) {..<b * (H * D)} attn"
  shows "\<exists>attn'. deq_keys fo c b (i0, attn) = Ok (i0 + H * (R div QKKV * D), attn') \<and> agrees (flat_fun (H * D) K) (M * (H * D)) {..<(b + R) * (H * D)} attn'"
proof -
  let ?G = "R div QKKV" let ?W = "H * D" let ?F = "flat_fun ?W K" let ?n = "H * (?G * D)"
  let ?ix = "\<lambda>k t. (b + k mod (?G * D) div D * QKKV + t) * H * D + k div (?G * D) * D + k mod (?G * D) mod D"
  let ?S = "\<lambda>k. {..<b * ?W} \<union> (\<Union>k' < k. ?ix k' ` {..<QKKV})"
  let ?f = "\<lambda>k (idx, attn). and_then (dequantize_block fo (qw_qk c) idx) (\<lambda>channel.
         and_then (try_fold (\<lambda>t attn. put attn (?ix k t) (channel ! t)) [0..<QKKV] attn) (\<lambda>attn. (Ok (idx + 1, attn) :: _ qw_result)))"
  have "\<exists>s. try_fold ?f [0..<?n] (i0, attn) = Ok s \<and> (fst s = i0 + length [0..<?n] \<and> agrees ?F (M * ?W) (?S (length [0..<?n])) (snd s))"
  proof (rule try_fold_nth[where I = "\<lambda>k s. fst s = i0 + k \<and> agrees ?F (M * ?W) (?S k) (snd s)"])
    fix k s assume "k < length [0..<?n]" and s: "fst s = i0 + k \<and> agrees ?F (M * ?W) (?S k) (snd s)"
    then have k: "k < ?n" by simp
    note kb = key_bounds[OF k]
    have ix: "?ix k t < M * ?W \<and> key_block ?G D K b k ! t = ?F (?ix k t)" if "t < QKKV" for t
    proof -
      have "k mod (?G * D) div D * QKKV + t < R" using mult_le_mono1[OF Suc_leI[OF kb(2)], of QKKV] that st(6) by simp
      then have p: "b + k mod (?G * D) div D * QKKV + t < M" using fit(1) by simp
      have e: "?ix k t = (b + k mod (?G * D) div D * QKKV + t) * ?W + (k div (?G * D) * D + k mod (?G * D) mod D)" by (simp add: algebra_simps)
      show ?thesis unfolding e flat_at[OF chan_fits[OF kb(1,3)]] using pos_fits[OF p chan_fits[OF kb(1,3)]] that by (simp add: key_block_def)
    qed
    from agrees_puts[OF conjunct2[OF s], of QKKV "?ix k" "(!) (key_block ?G D K b k)"] ix obtain at where
      "try_fold (\<lambda>t attn. put attn (?ix k t) (key_block ?G D K b k ! t)) [0..<QKKV] (snd s) = (Ok at :: _ qw_result)"
      "agrees ?F (M * ?W) (?S k \<union> ?ix k ` {..<QKKV}) at" by blast
    with s blk k st(1,2) show "\<exists>s'. ?f ([0..<?n] ! k) s = Ok s' \<and> fst s' = i0 + Suc k \<and> agrees ?F (M * ?W) (?S (Suc k)) (snd s')"
      by (simp add: stored_ops(2) lessThan_Suc Un_ac case_prod_beta)
  qed (use fit(2) in simp)
  then obtain attn' where at: "try_fold ?f [0..<?n] (i0, attn) = Ok (i0 + ?n, attn')" "agrees ?F (M * ?W) (?S ?n) attn'" by auto
  have "i \<in> ?S ?n" if i: "i < (b + R) * ?W" for i
  proof (cases "i < b * ?W")
    case False
    have W: "0 < ?W" using i by (auto intro: gr0I)
    have D: "0 < D" using W by simp
    let ?p = "i div ?W" let ?w = "i mod ?W" let ?r = "?p - b"
    have p: "b \<le> ?p" "?p < b + R" using False i W by (simp_all add: less_eq_div_iff_mult_less_eq div_less_iff_less_mult)
    let ?k = "?w div D * (?G * D) + ?r div QKKV * D + ?w mod D"
    have h: "?w div D < H" using W by (simp add: less_mult_imp_div_less)
    have g: "?r div QKKV < ?G" using p st(6) by (intro less_mult_imp_div_less) linarith
    have ch: "?w mod D < D" using D by simp
    note d = decode3[OF g ch, of "?w div D"]
    have k: "?k < ?n" by (rule d(4)[OF h])
    have Q: "?r mod QKKV < QKKV" by (simp add: QKKV_def)
    have "?ix ?k (?r mod QKKV) = (b + ?r) * ?W + ?w" unfolding d(1-3) by (simp add: algebra_simps)
    also have "\<dots> = i" unfolding le_add_diff_inverse[OF p(1)] by (rule div_mult_mod_eq)
    finally show ?thesis using k Q by (auto intro!: bexI[of _ ?k] image_eqI[of _ _ "?r mod QKKV"])
  qed simp
  then have "agrees ?F (M * ?W) {..<(b + R) * ?W} attn'" using at(2) by (rule_tac agrees_mono) auto
  with at(1) show ?thesis unfolding deq_keys_def keys3 try_fold_map st(3-5) by (auto simp: case_prod_beta)
qed

text \<open>A loop that copies \<open>m\<close> values to the place \<open>ix k\<close> in step \<open>k\<close>.\<close>

lemma agrees_copies:
  fixes src :: "nat \<Rightarrow> 'f list"
  assumes "agrees F N A xs" "\<And>k. k < n \<Longrightarrow> length (src k) = m \<and> ix k + m \<le> N" "\<And>k j. k < n \<Longrightarrow> j < m \<Longrightarrow> src k ! j = F (ix k + j)"
  shows "\<exists>ys. try_fold (\<lambda>k xs. copy_into xs (ix k) (src k)) [0..<n] xs = (Ok ys :: _ qw_result) \<and> agrees F N (A \<union> (\<Union>k < n. {ix k..<ix k + m})) ys"
proof -
  have "\<exists>ys. try_fold (\<lambda>k xs. copy_into xs (ix k) (src k)) [0..<n] xs = (Ok ys :: _ qw_result) \<and> agrees F N (A \<union> (\<Union>k < length [0..<n]. {ix k..<ix k + m})) ys"
  proof (rule try_fold_nth[where I = "\<lambda>k. agrees F N (A \<union> (\<Union>k' < k. {ix k'..<ix k' + m}))"])
    fix k ys assume k: "k < length [0..<n]" and ys: "agrees F N (A \<union> (\<Union>k' < k. {ix k'..<ix k' + m})) ys"
    from k agrees_copy[OF ys, of "ix k" "src k"] assms(2,3)[of k]
    show "\<exists>zs. copy_into ys (ix ([0..<n] ! k)) (src ([0..<n] ! k)) = (Ok zs :: _ qw_result) \<and> agrees F N (A \<union> (\<Union>k' < Suc k. {ix k'..<ix k' + m})) zs"
      by (simp add: lessThan_Suc Un_ac)
  qed (use assms(1) in simp)
  then show ?thesis by simp
qed

text \<open>A loop with a counter beside it.\<close>

lemma try_fold_counter:
  assumes "\<And>k s. k < n \<Longrightarrow> f k (i0 + k, s) = and_then (g k s) (\<lambda>s'. Ok (i0 + k + 1, s'))"
  shows "try_fold f [0..<n] (i0, s) = and_then (try_fold g [0..<n] s) (\<lambda>s'. Ok (i0 + n, s'))"
  using assms
proof (induction n)
  case (Suc n)
  then show ?case by (cases "try_fold g [0..<n] s") (simp_all add: try_fold_append and_then_assoc)
qed simp

text \<open>The places of chunks cover a range of rows.\<close>

lemma chunk_of:
  fixes i H D :: nat
  assumes "i < (b + R) * (H * D)" "b * (H * D) \<le> i" "D mod QKKV = 0"
  defines "B \<equiv> D div QKKV"
  shows "\<exists>k < H * (R * B). (let off = (b + k mod (R * B) div B) * (H * D) + k div (R * B) * D + k mod (R * B) mod B * QKKV in off \<le> i \<and> i < off + QKKV)"
proof -
  have W: "0 < H * D" using assms(1) by (auto intro: gr0I)
  have Q: "0 < QKKV" by (simp add: QKKV_def)
  let ?p = "i div (H * D)" let ?w = "i mod (H * D)" let ?r = "?p - b"
  have p: "b \<le> ?p" "?p < b + R" using assms(1,2) W by (simp_all add: less_eq_div_iff_mult_less_eq div_less_iff_less_mult)
  have h: "?w div D < H" using W by (simp add: less_mult_imp_div_less)
  have D: "B * QKKV = D" "0 < D" using assms(3) W by (auto simp: B_def)
  have b: "?w mod D div QKKV < B" using D by (intro less_mult_imp_div_less) simp
  have r: "?r < R" using p by simp
  note d = decode3[OF r b, of "?w div D"]
  have "(b + ?r) * (H * D) + ?w div D * D + ?w mod D div QKKV * QKKV + ?w mod D mod QKKV = ?p * (H * D) + ?w"
    unfolding le_add_diff_inverse[OF p(1)] by (metis add.assoc div_mult_mod_eq)
  also have "\<dots> = i" by (rule div_mult_mod_eq)
  finally have "i = (b + ?r) * (H * D) + ?w div D * D + ?w mod D div QKKV * QKKV + ?w mod D mod QKKV" by simp
  moreover have "?w mod D mod QKKV < QKKV" using Q by simp
  ultimately show ?thesis
    by (intro exI[of _ "?w div D * (R * B) + ?r * B + ?w mod D div QKKV"] conjI d(4)[OF h]) (unfold d(1-3) Let_def, linarith)
qed

lemma deq_values_ok:
  assumes st: "qw_qv c = stored bits vb" "bits \<in> {2, 4, 8}" "qw_heads c = H" "qw_dim c = D" "qw_res_cap c = R" "D mod QKKV = 0"
    and blk: "\<forall>k < H * (R * (D div QKKV)). i0 + k < length vb \<and> dequant fo bits (vb ! (i0 + k)) = value_block R D V b k"
    and fit: "b + R \<le> length V" "length V \<le> M" "\<forall>r \<in> set V. length r = H * D" "agrees (flat_fun (H * D) V) (M * (H * D)) {..<b * (H * D)} attn"
  shows "\<exists>attn'. deq_values fo c b (i0, attn) = Ok (i0 + H * (R * (D div QKKV)), attn') \<and> agrees (flat_fun (H * D) V) (M * (H * D)) {..<(b + R) * (H * D)} attn'"
proof -
  let ?B = "D div QKKV" let ?W = "H * D" let ?F = "flat_fun ?W V" let ?n = "H * (R * ?B)"
  let ?t = "\<lambda>k. k mod (R * ?B) div ?B" let ?o = "\<lambda>k. k div (R * ?B) * D + k mod (R * ?B) mod ?B * QKKV" let ?ix = "\<lambda>k. (b + ?t k) * H * D + k div (R * ?B) * D + k mod (R * ?B) mod ?B * QKKV"
  have e: "?ix k = (b + ?t k) * ?W + ?o k" for k by (simp add: algebra_simps)
  note l = value_block_length[OF _ fit(1,3) st(6)]
  have 1: "length (value_block R D V b k) = QKKV \<and> ?ix k + QKKV \<le> M * ?W" if "k < ?n" for k
    using l[OF that] mult_le_mono1[of "Suc (b + ?t k)" M ?W] key_bounds(2)[OF that] fit(1,2) unfolding e by simp
  have 2: "value_block R D V b k ! j = ?F (?ix k + j)" if "k < ?n" "j < QKKV" for k j
  proof -
    have "?o k + j < ?W" using l(2)[OF that(1)] that(2) by linarith
    moreover have "length (V ! (b + ?t k)) = ?W" using fit(1,3) key_bounds(2)[OF that(1)] by simp
    ultimately show ?thesis unfolding e using flat_at[of "?o k + j" ?W V "b + ?t k"] that(2) by (simp add: value_block_def add.assoc)
  qed
  obtain attn' where at: "try_fold (\<lambda>k xs. copy_into xs (?ix k) (value_block R D V b k)) [0..<?n] attn = (Ok attn' :: _ qw_result)"
      "agrees ?F (M * ?W) ({..<b * ?W} \<union> (\<Union>k < ?n. {?ix k..<?ix k + QKKV})) attn'"
    using agrees_copies[OF fit(4), of ?n "value_block R D V b" QKKV ?ix] 1 2 by blast
  have "agrees ?F (M * ?W) {..<(b + R) * ?W} attn'"
  proof (rule agrees_mono[OF at(2)])
    fix i assume "i \<in> {..<(b + R) * ?W}"
    then have i: "i < (b + R) * ?W" by simp
    have "i \<in> (\<Union>k < ?n. {?ix k..<?ix k + QKKV})" if "\<not> i < b * ?W"
      using chunk_of[OF i leI[OF that] st(6)] unfolding Let_def mult.assoc[symmetric] by fastforce
    then show "i \<in> {..<b * ?W} \<union> (\<Union>k < ?n. {?ix k..<?ix k + QKKV}) \<and> ?F i = ?F i" by blast
  qed
  moreover have "deq_values fo c b (i0, attn) = and_then (try_fold (\<lambda>k xs. copy_into xs (?ix k) (value_block R D V b k)) [0..<?n] attn) (\<lambda>xs. Ok (i0 + ?n, xs))"
    unfolding deq_values_def keys3 try_fold_map st(3-5)
    by (rule try_fold_counter) (use blk st(1,2) in \<open>simp add: stored_ops(2)\<close>)
  ultimately show ?thesis using at(1) by simp
qed

section \<open>Copying rows\<close>

text \<open>The loops that move rows do the same to the keys and the values.\<close>

lemma try_fold_pair:
  assumes "try_fold f xs a = Ok a'" "try_fold g xs b = Ok b'" "\<And>x a b. x \<in> set xs \<Longrightarrow> F x (a, b) = and_then (f x a) (\<lambda>a'. and_then (g x b) (\<lambda>b'. Ok (a', b')))"
  shows "try_fold F xs (a, b) = Ok (a', b')"
  using assms
proof (induction xs arbitrary: a b)
  case (Cons x xs)
  from Cons.prems(1,2) obtain a1 b1 where "f x a = Ok a1" "g x b = Ok b1" "try_fold f xs a1 = Ok a'" "try_fold g xs b1 = Ok b'"
    by (auto simp: and_then_eq_Ok)
  with Cons.IH[of a1 b1] Cons.prems(3) show ?case by simp
qed simp

lemma copy_rows_pair:
  assumes "\<And>k. k < n \<Longrightarrow> org k + D \<le> length rk \<and> org k + D \<le> length rv \<and> ix k + D \<le> N"
    and "\<And>k j. k < n \<Longrightarrow> j < D \<Longrightarrow> rk ! (org k + j) = F (ix k + j) \<and> rv ! (org k + j) = F' (ix k + j)"
    and "agrees F N A ak" "agrees F' N A av"
  shows "\<exists>ak' av'. try_fold (\<lambda>k (ak, av).
         and_then (slice rk (org k) (org k + D)) (\<lambda>k0. and_then (copy_into ak (ix k) k0) (\<lambda>ak.
         and_then (slice rv (org k) (org k + D)) (\<lambda>v0. and_then (copy_into av (ix k) v0) (\<lambda>av. (Ok (ak, av) :: _ qw_result)))))) [0..<n] (ak, av) = Ok (ak', av')
     \<and> agrees F N (A \<union> (\<Union>k < n. {ix k..<ix k + D})) ak' \<and> agrees F' N (A \<union> (\<Union>k < n. {ix k..<ix k + D})) av'"
proof -
  have b: "length (field rk (org k) D) = D \<and> ix k + D \<le> N" "length (field rv (org k) D) = D \<and> ix k + D \<le> N" if "k < n" for k using assms(1)[OF that] by (auto simp: min_def)
  have e: "field rk (org k) D ! j = F (ix k + j)" "field rv (org k) D ! j = F' (ix k + j)" if "k < n" "j < D" for k j
    using assms(1)[OF that(1)] assms(2)[OF that] that(2) by auto
  obtain ak' where k: "try_fold (\<lambda>k xs. copy_into xs (ix k) (field rk (org k) D)) [0..<n] ak = (Ok ak' :: _ qw_result)" "agrees F N (A \<union> (\<Union>k < n. {ix k..<ix k + D})) ak'"
    using agrees_copies[OF assms(3), of n "\<lambda>k. field rk (org k) D" D ix] b(1) e(1) by blast
  obtain av' where v: "try_fold (\<lambda>k xs. copy_into xs (ix k) (field rv (org k) D)) [0..<n] av = (Ok av' :: _ qw_result)" "agrees F' N (A \<union> (\<Union>k < n. {ix k..<ix k + D})) av'"
    using agrees_copies[OF assms(4), of n "\<lambda>k. field rv (org k) D" D ix] b(2) e(2) by blast
  have "try_fold (\<lambda>k (ak, av).
         and_then (slice rk (org k) (org k + D)) (\<lambda>k0. and_then (copy_into ak (ix k) k0) (\<lambda>ak.
         and_then (slice rv (org k) (org k + D)) (\<lambda>v0. and_then (copy_into av (ix k) v0) (\<lambda>av. (Ok (ak, av) :: _ qw_result)))))) [0..<n] (ak, av) = Ok (ak', av')"
    by (rule try_fold_pair[OF k(1) v(1)]) (use assms(1) in \<open>simp add: slice_def\<close>)
  with k(2) v(2) show ?thesis by blast
qed

text \<open>The places of the rows of a head cover a range of tokens, in both layouts.\<close>

lemma row_of:
  fixes i H D :: nat
  assumes "i < (b + p) * (H * D)" "b * (H * D) \<le> i"
  shows "\<exists>k < H * p. (b + k mod p) * H * D + k div p * D \<le> i \<and> i < (b + k mod p) * H * D + k div p * D + D"
proof -
  have W: "0 < H * D" using assms(1) by (auto intro: gr0I)
  let ?p = "i div (H * D)" let ?w = "i mod (H * D)" let ?r = "?p - b"
  have q: "b \<le> ?p" "?p < b + p" using assms(1,2) W by (simp_all add: less_eq_div_iff_mult_less_eq div_less_iff_less_mult)
  have h: "?w div D < H" using W by (simp add: less_mult_imp_div_less)
  have r: "?r < p" using q by simp
  have k: "(?w div D * p + ?r) mod p = ?r" "(?w div D * p + ?r) div p = ?w div D" using r by simp_all
  have "(b + ?r) * H * D + ?w div D * D + ?w mod D = ?p * (H * D) + ?w" unfolding le_add_diff_inverse[OF q(1)] by (simp add: mult.assoc)
  also have "\<dots> = i" by (rule div_mult_mod_eq)
  finally have "i = (b + ?r) * H * D + ?w div D * D + ?w mod D" by simp
  moreover have "?w mod D < D" using W by simp
  ultimately show ?thesis using pos_fits[OF h r] by (intro exI[of _ "?w div D * p + ?r"] conjI) (simp, unfold k, linarith+)
qed

lemma res_row_of:
  fixes i H D :: nat
  assumes "i < H * R * D" "i div D mod R < p"
  shows "\<exists>k < H * p. k div p * R * D + k mod p * D \<le> i \<and> i < k div p * R * D + k mod p * D + D"
proof -
  have pos: "0 < D" "0 < R" using assms(1) by (auto intro: gr0I)
  let ?t = "i div D mod R" let ?h = "i div (R * D)"
  have t: "?t < R" using pos by simp
  have h: "?h < H" using assms(1) by (simp add: less_mult_imp_div_less mult.assoc)
  have "(?h * p + ?t) mod p = ?t" "(?h * p + ?t) div p = ?h" using assms(2) by simp_all
  with block_index[OF pos(1) t, of i ?h] pos_fits[OF h assms(2)] show ?thesis by (intro exI[of _ "?h * p + ?t"]) simp
qed

lemma copy_residual_ok:
  assumes st: "qw_heads c = H" "qw_dim c = D" "qw_res_cap c = R" "qw_q2_tokens c = q" "qw_res_pos c = p"
    and "res_ok H D R q K (qw_res_k c)" "res_ok H D R q V (qw_res_v c)" "length K = q + p" "length V = q + p" "q + p \<le> M" "p \<le> R"
    and "agrees (flat_fun (H * D) K) (M * (H * D)) {..<q * (H * D)} ak" "agrees (flat_fun (H * D) V) (M * (H * D)) {..<q * (H * D)} av"
  shows "\<exists>ak' av'. copy_residual c (ak, av) = Ok (ak', av') \<and> agrees (flat_fun (H * D) K) (M * (H * D)) {..<(q + p) * (H * D)} ak'
    \<and> agrees (flat_fun (H * D) V) (M * (H * D)) {..<(q + p) * (H * D)} av'"
proof -
  let ?W = "H * D" let ?org = "\<lambda>k. k div p * R * D + k mod p * D" let ?ix = "\<lambda>k. (q + k mod p) * H * D + k div p * D"
  have b: "k div p < H" "k mod p < p" "k mod p < R" if "k < H * p" for k
    using key_bounds[of k H p 1] that assms(11) by simp_all
  have 1: "?org k + D \<le> length (qw_res_k c) \<and> ?org k + D \<le> length (qw_res_v c) \<and> ?ix k + D \<le> M * ?W" if k: "k < H * p" for k
    using row_fits[OF b(1,3)[OF k], of D] row_fits[of "k div p" H 0 1 D] mult_le_mono1[of "Suc (q + k mod p)" M ?W] b[OF k] assms(6,7,10)
    by (simp add: res_ok_def agrees_def algebra_simps)
  have 2: "qw_res_k c ! (?org k + j) = flat_fun ?W K (?ix k + j) \<and> qw_res_v c ! (?org k + j) = flat_fun ?W V (?ix k + j)" if k: "k < H * p" and j: "j < D" for k j
  proof -
    have e: "?ix k + j = (q + k mod p) * ?W + (k div p * D + j)" by (simp add: algebra_simps)
    show ?thesis unfolding e flat_at[OF chan_fits[OF b(1)[OF k] j]]
      using res_at(2)[OF assms(6) b(1,3)[OF k] _ j] res_at(2)[OF assms(7) b(1,3)[OF k] _ j] b(2)[OF k] assms(8,9) by simp
  qed
  from copy_rows_pair[where n = "H * p" and org = ?org and ix = ?ix, OF 1 2 assms(12,13)] obtain ak' av' where
    w: "copy_residual c (ak, av) = Ok (ak', av')" "agrees (flat_fun ?W K) (M * ?W) ({..<q * ?W} \<union> (\<Union>k < H * p. {?ix k..<?ix k + D})) ak'"
       "agrees (flat_fun ?W V) (M * ?W) ({..<q * ?W} \<union> (\<Union>k < H * p. {?ix k..<?ix k + D})) av'"
    unfolding copy_residual_def keys2 try_fold_map st Let_def by auto
  have c: "i \<in> {..<q * ?W} \<union> (\<Union>k < H * p. {?ix k..<?ix k + D})" if "i \<in> {..<(q + p) * ?W}" for i
    using row_of[of i q p H D] that by (cases "i < q * ?W") auto
  have "agrees (flat_fun ?W K) (M * ?W) {..<(q + p) * ?W} ak'" by (rule agrees_mono[OF w(2)]) (use c in blast)
  moreover have "agrees (flat_fun ?W V) (M * ?W) {..<(q + p) * ?W} av'" by (rule agrees_mono[OF w(3)]) (use c in blast)
  ultimately show ?thesis using w(1) by blast
qed

section \<open>The view\<close>

lemma assemble_flushes_ok:
  assumes h: "holds fo H D M c a" and b: "rs_bits a \<noteq> 16"
  shows "\<exists>ak av. assemble_flushes fo c = Ok (ak, av) \<and> agrees (flat_fun (H * D) (rs_k a)) (M * (H * D)) {..<rs_q a * (H * D)} ak
    \<and> agrees (flat_fun (H * D) (rs_v a)) (M * (H * D)) {..<rs_q a * (H * D)} av"
proof -
  let ?R = "rs_cap a" let ?q = "rs_q a" let ?W = "H * D" let ?G = "?R div QKKV" let ?kn = "H * (?G * D)" let ?vn = "H * (?R * (D div QKKV))"
  let ?old = "qw_q2_deq_tokens c div ?R" let ?new = "?q div ?R"
  have r: "rs_bits a \<in> {2, 4, 8}" "?G * QKKV = ?R" "0 < ?R" "?q mod ?R = 0" "?q \<le> length (rs_k a)" "length (rs_k a) \<le> M" "length (rs_v a) = length (rs_k a)"
      "\<forall>r \<in> set (rs_v a). length r = ?W" "D mod QKKV = 0" and c: "qw_heads c = H" "qw_dim c = D" "qw_res_cap c = ?R" "qw_q2_tokens c = ?q"
      "qw_q2_deq_tokens c mod ?R = 0" "qw_q2_deq_tokens c \<le> ?q" "blocks_ok fo H D a (qw_qk c) (qw_qv c)"
      "agrees (flat_fun ?W (rs_k a)) (M * ?W) {..<qw_q2_deq_tokens c * ?W} (qw_attn_k c)" "agrees (flat_fun ?W (rs_v a)) (M * ?W) {..<qw_q2_deq_tokens c * ?W} (qw_attn_v c)"
    using h b by (auto simp: holds_def rows_ok_def attn_ok_def)
  obtain kb vb where B: "qw_qk c = stored (rs_bits a) kb" "qw_qv c = stored (rs_bits a) vb" "length kb = ?new * ?kn" "length vb = ?new * ?vn"
      "\<forall>f < ?new. \<forall>k < ?kn. dequant fo (rs_bits a) (kb ! (f * ?kn + k)) = key_block ?G D (rs_k a) (f * ?R) k"
      "\<forall>f < ?new. \<forall>k < ?vn. dequant fo (rs_bits a) (vb ! (f * ?vn + k)) = value_block ?R D (rs_v a) (f * ?R) k"
    using c(7) b unfolding blocks_ok_def Let_def by auto
  let ?I = "\<lambda>j s. case s of (ki, vi, ak, av) \<Rightarrow> ki = (?old + j) * ?kn \<and> vi = (?old + j) * ?vn
      \<and> agrees (flat_fun ?W (rs_k a)) (M * ?W) {..<(?old + j) * ?R * ?W} ak \<and> agrees (flat_fun ?W (rs_v a)) (M * ?W) {..<(?old + j) * ?R * ?W} av"
  let ?f = "\<lambda>flush (ki, vi, ak, av). and_then (deq_keys fo c (flush * ?R) (ki, ak)) (\<lambda>(ki, ak).
          and_then (deq_values fo c (flush * ?R) (vi, av)) (\<lambda>(vi, av). (Ok (ki, vi, ak, av) :: _ qw_result)))"
  have le: "?old \<le> ?new" using c(6) by (rule div_le_mono)
  have "\<exists>s. try_fold ?f [?old..<?new] (?old * ?kn, ?old * ?vn, qw_attn_k c, qw_attn_v c) = Ok s \<and> ?I (length [?old..<?new]) s"
  proof (rule try_fold_nth[where I = ?I])
    have "?old * ?R = qw_q2_deq_tokens c" using c(5) by auto
    with c(8,9) show "?I 0 (?old * ?kn, ?old * ?vn, qw_attn_k c, qw_attn_v c)" by simp
    fix j s assume "j < length [?old..<?new]" and s: "?I j s"
    then have f: "?old + j < ?new" by simp
    obtain ak av where s': "s = ((?old + j) * ?kn, (?old + j) * ?vn, ak, av)" "agrees (flat_fun ?W (rs_k a)) (M * ?W) {..<(?old + j) * ?R * ?W} ak"
        "agrees (flat_fun ?W (rs_v a)) (M * ?W) {..<(?old + j) * ?R * ?W} av" using s by (cases s) auto
    have fit: "(?old + j) * ?R + ?R \<le> M" "(?old + j) * ?R + ?R \<le> length (rs_v a)" using flush_fits[OF f] r(5-7) by linarith+
    have kb: "\<forall>k < ?kn. (?old + j) * ?kn + k < length kb \<and> dequant fo (rs_bits a) (kb ! ((?old + j) * ?kn + k)) = key_block ?G D (rs_k a) ((?old + j) * ?R) k"
      using B(3,5) f pos_fits[OF f] by simp
    have vb: "\<forall>k < ?vn. (?old + j) * ?vn + k < length vb \<and> dequant fo (rs_bits a) (vb ! ((?old + j) * ?vn + k)) = value_block ?R D (rs_v a) ((?old + j) * ?R) k"
      using B(4,6) f pos_fits[OF f] by simp
    from deq_keys_ok[OF B(1) r(1) c(1-3) r(2) kb fit(1) s'(2)] deq_values_ok[OF B(2) r(1) c(1-3) r(9) vb fit(2) _ r(8) s'(3)] r(6,7)
    show "\<exists>s'. ?f ([?old..<?new] ! j) s = Ok s' \<and> ?I (Suc j) s'" using f unfolding s'(1) by (auto simp: algebra_simps)
  qed
  then obtain ki vi ak av where w: "try_fold ?f [?old..<?new] (?old * ?kn, ?old * ?vn, qw_attn_k c, qw_attn_v c) = Ok (ki, vi, ak, av)" "?I (?new - ?old) (ki, vi, ak, av)"
    by auto
  have q: "(?old + (?new - ?old)) * ?R = ?q" using le r(4) by auto
  have "assemble_flushes fo c = Ok (ak, av)" using w(1) unfolding assemble_flushes_def c(1-4) Let_def by (simp add: ac_simps)
  with w(2) show ?thesis unfolding q by auto
qed

lemma assemble_view_holds:
  assumes "holds fo H D M c a"
  shows "\<exists>c'. assemble_view fo c = Ok c' \<and> holds fo H D M c' a \<and> qw_heads c' = qw_heads c \<and> qw_dim c' = qw_dim c
    \<and> agrees (flat_fun (H * D) (rs_k a)) (M * (H * D)) {..<length (rs_k a) * (H * D)} (qw_attn_k c')
    \<and> agrees (flat_fun (H * D) (rs_v a)) (M * (H * D)) {..<length (rs_k a) * (H * D)} (qw_attn_v c')"
proof -
  let ?W = "H * D" let ?q = "rs_q a" let ?p = "length (rs_k a) - ?q"
  let ?agr = "\<lambda>K n xs. agrees (flat_fun ?W K) (M * ?W) {..<n * ?W} xs"
  have r: "?q \<le> length (rs_k a)" "length (rs_v a) = length (rs_k a)" "length (rs_k a) \<le> M" "?p \<le> rs_cap a" "rs_bits a = 16 \<longrightarrow> ?q = 0" "rs_bits a \<noteq> 16 \<longrightarrow> 0 < rs_cap a" "rs_bits a \<noteq> 16 \<longrightarrow> ?q mod rs_cap a = 0"
    and c: "qw_heads c = H" "qw_dim c = D" "qw_res_cap c = rs_cap a" "qw_q2_tokens c = ?q" "qw_res_pos c = ?p"
      "res_ok H D (rs_cap a) ?q (rs_k a) (qw_res_k c)" "res_ok H D (rs_cap a) ?q (rs_v a) (qw_res_v c)" "qw_q2_deq_tokens c \<le> ?q"
      "?agr (rs_k a) (qw_q2_deq_tokens c) (qw_attn_k c)" "?agr (rs_v a) (qw_q2_deq_tokens c) (qw_attn_v c)"
    using assms by (auto simp: holds_def rows_ok_def attn_ok_def)
  have "\<exists>ak av. (if qw_q2_tokens c > qw_q2_deq_tokens c then (if qw_res_cap c = 0 then Panic else assemble_flushes fo c) else Ok (qw_attn_k c, qw_attn_v c)) = Ok (ak, av)
      \<and> ?agr (rs_k a) ?q ak \<and> ?agr (rs_v a) ?q av"
  proof (cases "qw_q2_tokens c > qw_q2_deq_tokens c")
    case True
    then have "rs_bits a \<noteq> 16" using c(4) r(5) by auto
    with assemble_flushes_ok[OF assms this] True r(6) c(3) show ?thesis by auto
  next
    case False
    then have "qw_q2_deq_tokens c = ?q" using c(4,8) by simp
    with False c(9,10) show ?thesis by simp
  qed
  then obtain ak av where fl: "(if qw_q2_tokens c > qw_q2_deq_tokens c then (if qw_res_cap c = 0 then Panic else assemble_flushes fo c) else Ok (qw_attn_k c, qw_attn_v c)) = Ok (ak, av)"
      "?agr (rs_k a) ?q ak" "?agr (rs_v a) ?q av" by blast
  obtain ak' av' where w: "copy_residual c (ak, av) = Ok (ak', av')" "?agr (rs_k a) (length (rs_k a)) ak'" "?agr (rs_v a) (length (rs_k a)) av'"
    using copy_residual_ok[OF c(1-7) _ _ _ r(4) fl(2,3)] r by auto
  let ?c = "c\<lparr>qw_attn_k := ak', qw_attn_v := av', qw_q2_deq_tokens := ?q\<rparr>"
  have sub: "?agr K ?q xs" if "?agr K (length (rs_k a)) xs" for K xs
    by (rule agrees_mono[OF that]) (use less_le_trans[OF _ mult_le_mono1[OF r(1), of ?W]] in blast)
  have "holds fo H D M ?c a" using assms sub[OF w(2)] sub[OF w(3)] r(7) by (auto simp: holds_def attn_ok_def)
  moreover have "assemble_view fo c = Ok ?c" unfolding assemble_view_def fl(1) using w(1) c(4,8) by (simp add: max_def)
  ultimately show ?thesis using w(2,3) by auto
qed

lemma concat_row: "\<forall>r \<in> set K. length r = W \<Longrightarrow> i < length K \<Longrightarrow> field (concat K) (i * W) W = K ! i"
proof (induction K arbitrary: i)
  case (Cons r K)
  then show ?case by (cases i) simp_all
qed simp

lemma concat_flat:
  assumes "\<forall>r \<in> set K. length r = W" "agrees (flat_fun W K) N {..<length K * W} xs" "length K * W \<le> N"
  shows "take (length K * W) xs = concat K"
proof (rule nth_equalityI)
  have l: "length (concat K) = length K * W" using concat_const_length[of K "\<lambda>r. r" W] assms(1) by simp
  then show "length (take (length K * W) xs) = length (concat K)" using assms(2,3) by (simp add: agrees_def)
  fix i assume "i < length (take (length K * W) xs)"
  then have i: "i < length K * W" by simp
  have f: "field (concat K) (i div W * W) W = K ! (i div W)" by (rule concat_row[OF assms(1) less_mult_imp_div_less[OF i]])
  have "0 < W" using i by (auto intro: gr0I)
  moreover have "i div W * W \<le> length (concat K)" unfolding l by (rule le_trans[OF div_times_less_eq_dividend less_imp_le[OF i]])
  ultimately have "field (concat K) (i div W * W) W ! (i mod W) = concat K ! i" by (simp add: nth_drop)
  then have "concat K ! i = K ! (i div W) ! (i mod W)" unfolding f by simp
  then show "take (length K * W) xs ! i = concat K ! i" using i assms(2,3) by (simp add: agrees_def flat_fun_def)
qed

lemma qw_get_view_holds:
  assumes "holds fo H D M c a"
  shows "\<exists>c'. qw_get_view fo c = Ok ((length (rs_k a), concat (rs_k a), concat (rs_v a)), c') \<and> holds fo H D M c' a"
proof (cases "length (rs_k a) = 0")
  case True
  then show ?thesis using assms by (auto simp: qw_get_view_def total_tokens_def holds_def rows_ok_def)
next
  case False
  have r: "length (rs_v a) = length (rs_k a)" "length (rs_k a) * (H * D) \<le> M * (H * D)" "\<forall>r \<in> set (rs_k a). length r = H * D" "\<forall>r \<in> set (rs_v a). length r = H * D"
      "total_tokens c = length (rs_k a)" "qw_heads c = H" "qw_dim c = D"
    using assms by (auto simp: holds_def rows_ok_def total_tokens_def)
  obtain c' where c': "assemble_view fo c = Ok c'" "holds fo H D M c' a" "qw_heads c' = H" "qw_dim c' = D"
      "agrees (flat_fun (H * D) (rs_k a)) (M * (H * D)) {..<length (rs_k a) * (H * D)} (qw_attn_k c')"
      "agrees (flat_fun (H * D) (rs_v a)) (M * (H * D)) {..<length (rs_k a) * (H * D)} (qw_attn_v c')"
    using assemble_view_holds[OF assms] r by auto
  have "take (length (rs_k a) * H * D) (qw_attn_k c') = concat (rs_k a)" "take (length (rs_k a) * H * D) (qw_attn_v c') = concat (rs_v a)"
    using concat_flat[OF r(3) c'(5) r(2)] concat_flat[OF r(4)] c'(6) r(1,2) by (simp_all add: mult.assoc)
  with c' False r show ?thesis by (simp add: qw_get_view_def Let_def)
qed

end
