(* ===== verification/Quant_Transition.thy ===== *)
theory Quant_Transition
  imports Quant_View
begin

text \<open>
  Changes of the width at run time. From a quantised width to 16 bits the rows stay as they are; between quantised
  widths the quantised rows go through the new codec; from 16 bits to a quantised width the blocks are written in
  an order in which they are not read when there are several heads and groups.
\<close>

section \<open>To 16 bits\<close>

definition to_full :: "nat \<Rightarrow> 'f row_state \<Rightarrow> 'f row_state" where
  "to_full M a = a\<lparr>rs_bits := 16, rs_cap := M, rs_q := 0\<rparr>"

lemma restore_rows_ok:
  assumes st: "qw_heads c = H" "qw_dim c = D" and p: "length K = p" "length V = p" "p \<le> M"
    and at: "agrees (flat_fun (H * D) K) (M * (H * D)) {..<p * (H * D)} (qw_attn_k c)" "agrees (flat_fun (H * D) V) (M * (H * D)) {..<p * (H * D)} (qw_attn_v c)"
    and res: "length rk = H * M * D" "length rv = H * M * D"
  shows "\<exists>rk' rv'. restore_rows p M c (rk, rv) = Ok (rk', rv') \<and> res_ok H D M 0 K rk' \<and> res_ok H D M 0 V rv'"
proof -
  let ?W = "H * D" let ?ix = "\<lambda>k. k div p * M * D + k mod p * D" let ?org = "\<lambda>k. k mod p * H * D + k div p * D"
  have b: "k div p < H" "k mod p < p" "k mod p < M" if "k < H * p" for k using key_bounds[of k H p 1] that p(3) by simp_all
  have e: "?org k + j = k mod p * ?W + (k div p * D + j)" for k j by (simp add: algebra_simps)
  have l: "?org k + D \<le> p * ?W" if "k < H * p" for k
  proof -
    have "?org k + D = k mod p * ?W + (k div p * D + D)" by (simp add: algebra_simps)
    also have "\<dots> \<le> k mod p * ?W + ?W" using mult_le_mono1[of "Suc (k div p)" H D] b(1)[OF that] by simp
    also have "\<dots> \<le> p * ?W" using mult_le_mono1[of "Suc (k mod p)" p ?W] b(2)[OF that] by simp
    finally show ?thesis .
  qed
  have pM: "p * ?W \<le> M * ?W" using p(3) by (rule mult_le_mono1)
  have 1: "?org k + D \<le> length (qw_attn_k c) \<and> ?org k + D \<le> length (qw_attn_v c) \<and> ?ix k + D \<le> H * M * D" if "k < H * p" for k
    using le_trans[OF l[OF that] pM] row_fits[OF b(1,3)[OF that]] at by (simp add: agrees_def)
  have 2: "qw_attn_k c ! (?org k + j) = res_fun D M 0 K (?ix k + j) \<and> qw_attn_v c ! (?org k + j) = res_fun D M 0 V (?ix k + j)" if k: "k < H * p" "j < D" for k j
  proof -
    have i: "?org k + j < p * ?W" "?org k + j < M * ?W" using l[OF k(1)] k(2) pM by linarith+
    then have "qw_attn_k c ! (?org k + j) = flat_fun ?W K (?org k + j)" "qw_attn_v c ! (?org k + j) = flat_fun ?W V (?org k + j)"
      using at by (simp_all add: agrees_def)
    then show ?thesis using res_fun_at[OF _ b(3)[OF k(1)] k(2), of 0 K] res_fun_at[OF _ b(3)[OF k(1)] k(2), of 0 V] k(2)
      unfolding e flat_at[OF chan_fits[OF b(1)[OF k(1)] k(2)]] by (simp add: le_less_trans)
  qed
  have 3: "agrees (res_fun D M 0 K) (H * M * D) {} rk" "agrees (res_fun D M 0 V) (H * M * D) {} rv" using res by (simp_all add: agrees_def)
  from copy_rows_pair[where n = "H * p" and org = ?org and ix = ?ix, OF 1 2 3] obtain rk' rv' where
    w: "restore_rows p M c (rk, rv) = Ok (rk', rv')" "agrees (res_fun D M 0 K) (H * M * D) (\<Union>k < H * p. {?ix k..<?ix k + D}) rk'"
       "agrees (res_fun D M 0 V) (H * M * D) (\<Union>k < H * p. {?ix k..<?ix k + D}) rv'"
    unfolding restore_rows_def keys2 try_fold_map st Let_def by auto
  have c: "i \<in> (\<Union>k < H * p. {?ix k..<?ix k + D})" if "i < H * M * D" "0 + i div D mod M < p" for i
    using res_row_of[of i H M D p] that by auto
  have "res_ok H D M 0 K rk'" unfolding res_ok_def p(1) by (rule agrees_mono[OF w(2)]) (use c in blast)
  moreover have "res_ok H D M 0 V rv'" unfolding res_ok_def p(2) by (rule agrees_mono[OF w(3)]) (use c in blast)
  ultimately show ?thesis using w(1) by blast
qed

lemma to_unquantized_holds:
  assumes "holds fo H D M c a"
  shows "\<exists>c'. to_unquantized fo c = Ok c' \<and> holds fo H D M c' (to_full M a)"
proof -
  obtain c1 where c1: "assemble_view fo c = Ok c1" "holds fo H D M c1 a" "agrees (flat_fun (H * D) (rs_k a)) (M * (H * D)) {..<length (rs_k a) * (H * D)} (qw_attn_k c1)"
      "agrees (flat_fun (H * D) (rs_v a)) (M * (H * D)) {..<length (rs_k a) * (H * D)} (qw_attn_v c1)"
    using assemble_view_holds[OF assms] by blast
  have r: "qw_heads c1 = H" "qw_dim c1 = D" "length (rs_v a) = length (rs_k a)" "length (rs_k a) \<le> M" "total_tokens c = length (rs_k a)" "qw_heads c = H" "qw_dim c = D" "qw_max_seq_len c = M"
    using assms c1(2) by (auto simp: holds_def rows_ok_def total_tokens_def)
  have n: "length (resize xs (H * M * D) (fo_zero fo)) = H * M * D" for xs :: "'a list" by (simp add: resize_def)
  obtain rk rv where w: "restore_rows (length (rs_k a)) M c1 (resize (qw_res_k c1) (H * M * D) (fo_zero fo), resize (qw_res_v c1) (H * M * D) (fo_zero fo)) = Ok (rk, rv)"
      "res_ok H D M 0 (rs_k a) rk" "res_ok H D M 0 (rs_v a) rv"
    using restore_rows_ok[OF r(1,2) refl r(3,4) c1(3,4) n n] by blast
  let ?c = "c1\<lparr>qw_res_k := rk, qw_res_v := rv, qw_res_pos := length (rs_k a), qw_res_cap := M, qw_q2_tokens := 0, qw_q2_deq_tokens := 0,
      qw_bits := 16, qw_qk := Unquantized, qw_qv := Unquantized\<rparr>"
  have "to_unquantized fo c = Ok ?c" using c1(1) w(1) r by (simp add: to_unquantized_def Let_def)
  moreover have "holds fo H D M ?c (to_full M a)" using c1(2) w(2,3) r
    by (auto simp: holds_def to_full_def rows_ok_def blocks_ok_def attn_ok_def agrees_def)
  ultimately show ?thesis by blast
qed

section \<open>Between quantised widths\<close>

definition to_width :: "('f, 'h) float_ops \<Rightarrow> nat \<Rightarrow> 'f row_state \<Rightarrow> 'f row_state" where
  "to_width fo b a = a\<lparr>rs_bits := b, rs_k := quant_keys fo b (take (rs_q a) (rs_k a)) @ drop (rs_q a) (rs_k a),
     rs_v := quant_values fo b (take (rs_q a) (rs_v a)) @ drop (rs_q a) (rs_v a)\<rparr>"

lemma key_block_quant:
  assumes "\<forall>r \<in> set rows. length r = H * D" "k < H * (G * D)" "b mod QKKV = 0" "b + G * QKKV \<le> length rows"
  shows "key_block G D (quant_keys fo bits rows @ rest) b k = through fo bits (key_block G D rows b k)"
proof -
  let ?g = "k mod (G * D) div D" let ?j = "k div (G * D) * D + k mod (G * D) mod D"
  note kb = key_bounds[OF assms(2)]
  have j: "?j < H * D" by (rule chan_fits[OF kb(1,3)])
  have "(quant_keys fo bits rows @ rest) ! (b + ?g * QKKV + t) ! ?j = through fo bits (key_block G D rows b k) ! t" if t: "t < QKKV" for t
  proof -
    obtain b' where b': "b = b' * QKKV" using assms(3) by (metis dvd_imp_mod_0 dvd_mult_div_cancel mod_0_imp_dvd mult.commute)
    have e: "b + ?g * QKKV + t = (b' + ?g) * QKKV + t" using b' by (simp add: algebra_simps)
    have i: "b + ?g * QKKV + t < length rows" using mult_le_mono1[OF Suc_leI[OF kb(2)], of QKKV] t assms(4) by simp
    have d: "(b + ?g * QKKV + t) div QKKV = b' + ?g" "(b + ?g * QKKV + t) mod QKKV = t" unfolding e using t by simp_all
    have "(b' + ?g) * QKKV = b + ?g * QKKV" using b' by (simp add: algebra_simps)
    with i j assms(1) show ?thesis by (simp add: nth_append quant_keys_def d key_block_def)
  qed
  then have "key_block G D (quant_keys fo bits rows @ rest) b k = map ((!) (through fo bits (key_block G D rows b k))) [0..<QKKV]"
    by (simp add: key_block_def)
  then show ?thesis using map_nth_upt[OF through_length[of "key_block G D rows b k" fo bits]] by simp
qed

lemma value_block_quant:
  assumes "\<forall>r \<in> set rows. length r = H * D" "k < H * (R * (D div QKKV))" "b + R \<le> length rows" "D mod QKKV = 0"
  shows "value_block R D (quant_values fo bits rows @ rest) b k = through fo bits (value_block R D rows b k)"
proof -
  let ?B = "D div QKKV" let ?t = "k mod (R * ?B) div ?B" let ?o = "k div (R * ?B) * D + k mod (R * ?B) mod ?B * QKKV"
  note kb = key_bounds[OF assms(2)] and l = value_block_length[OF assms(2,3,1,4)]
  have o: "?o = (k div (R * ?B) * ?B + k mod (R * ?B) mod ?B) * QKKV" using assms(4) by (simp add: add_mult_distrib mult.assoc) auto
  have row: "length (rows ! (b + ?t)) = H * D" using kb(2) assms(1,3) by simp
  have r: "(quant_values fo bits rows @ rest) ! (b + ?t) = map (\<lambda>j. through fo bits (field (rows ! (b + ?t)) (j div QKKV * QKKV) QKKV) ! (j mod QKKV)) [0..<H * D]"
    using kb(2) assms(3) row by (simp add: nth_append quant_values_def)
  have "value_block R D (quant_values fo bits rows @ rest) b k
      = map (\<lambda>j. through fo bits (field (rows ! (b + ?t)) ((?o + j) div QKKV * QKKV) QKKV) ! ((?o + j) mod QKKV)) [0..<QKKV]"
    unfolding value_block_def r by (rule field_map_upt[OF l(2)])
  also have "\<dots> = map ((!) (through fo bits (value_block R D rows b k))) [0..<QKKV]"
    unfolding o by (simp add: value_block_def o)
  finally show ?thesis using map_nth_upt[OF through_length[OF l(1)]] by simp
qed

lemma blocks_okI:
  assumes "rs_bits a \<noteq> 16" "length kb = rs_q a div rs_cap a * (H * (rs_cap a div QKKV * D))" "length vb = rs_q a div rs_cap a * (H * (rs_cap a * (D div QKKV)))"
    and "\<And>f k. f < rs_q a div rs_cap a \<Longrightarrow> k < H * (rs_cap a div QKKV * D) \<Longrightarrow>
      dequant fo (rs_bits a) (kb ! (f * (H * (rs_cap a div QKKV * D)) + k)) = key_block (rs_cap a div QKKV) D (rs_k a) (f * rs_cap a) k"
    and "\<And>f k. f < rs_q a div rs_cap a \<Longrightarrow> k < H * (rs_cap a * (D div QKKV)) \<Longrightarrow>
      dequant fo (rs_bits a) (vb ! (f * (H * (rs_cap a * (D div QKKV))) + k)) = value_block (rs_cap a) D (rs_v a) (f * rs_cap a) k"
  shows "blocks_ok fo H D a (stored (rs_bits a) kb) (stored (rs_bits a) vb)"
  unfolding blocks_ok_def Let_def if_not_P[OF assms(1)] using assms(2-5) by blast

lemma requantize_ok:
  assumes "b \<in> {2, 4, 8}" "b' \<in> {2, 4, 8}"
  shows "requantize fo b' (stored b bs) (length bs) = Ok (stored b' (map (\<lambda>i. quant fo b' (dequant fo b (bs ! i))) [0..<length bs]))"
  using push_loop[OF assms(2), of "length bs" "\<lambda>i. dequantize_block fo (stored b bs) i" "\<lambda>i. dequant fo b (bs ! i)" fo "[]"]
  by (simp add: requantize_def stored_ops(2)[OF assms(1)] stored_ops(3)[OF assms(2)])

lemma to_width_fields:
  assumes "rs_q a \<le> length (rs_k a)" "length (rs_v a) = length (rs_k a)" "\<forall>r \<in> set (rs_k a) \<union> set (rs_v a). length r = W"
  shows "rs_bits (to_width fo b a) = b" "rs_cap (to_width fo b a) = rs_cap a" "rs_q (to_width fo b a) = rs_q a"
    "length (rs_k (to_width fo b a)) = length (rs_k a)" "length (rs_v (to_width fo b a)) = length (rs_k a)"
    "drop (rs_q a) (rs_k (to_width fo b a)) = drop (rs_q a) (rs_k a)" "drop (rs_q a) (rs_v (to_width fo b a)) = drop (rs_q a) (rs_v a)"
    "\<forall>r \<in> set (rs_k (to_width fo b a)) \<union> set (rs_v (to_width fo b a)). length r = W"
proof -
  have d: "\<forall>r \<in> set (take (rs_q a) (rs_k a)). length r = W" "\<forall>r \<in> set (take (rs_q a) (rs_v a)). length r = W"
    using assms(3) by (auto dest: in_set_takeD)
  show "\<forall>r \<in> set (rs_k (to_width fo b a)) \<union> set (rs_v (to_width fo b a)). length r = W"
    using assms(3) width_quant_rows[OF d(1)] width_quant_rows[OF d(2)] by (auto simp: to_width_def dest: in_set_dropD)
qed (use assms in \<open>simp_all add: to_width_def\<close>)

lemma res_ok_drop:
  assumes "drop q K' = drop q K" "length K' = length K" "q \<le> length K"
  shows "res_ok H D R q K' res \<longleftrightarrow> res_ok H D R q K res"
proof -
  have "K' ! (q + i) = K ! (q + i)" if "q + i < length K" for i
    using assms that nth_drop[of q K i] nth_drop[of q K' i] by simp
  then show ?thesis using assms(2) by (auto simp: res_ok_def agrees_def res_fun_def)
qed

lemma between_widths_holds:
  assumes h: "holds fo H D M c a" and b: "rs_bits a \<noteq> 16" "b \<in> {2, 4, 8}"
  shows "\<exists>c'. between_widths fo b c = Ok c' \<and> holds fo H D M c' (to_width fo b a)"
proof -
  let ?R = "rs_cap a" let ?q = "rs_q a" let ?G = "?R div QKKV" let ?kn = "H * (?G * D)" let ?vn = "H * (?R * (D div QKKV))" let ?n = "?q div ?R"
  have r: "rs_bits a \<in> {2, 4, 8}" "?G * QKKV = ?R" "0 < ?R" "?n * ?R = ?q" "?q \<le> length (rs_k a)" "length (rs_v a) = length (rs_k a)" "D mod QKKV = 0"
      "\<forall>r \<in> set (rs_k a) \<union> set (rs_v a). length r = H * D" and c: "qw_heads c = H" "qw_dim c = D" "qw_q2_tokens c = ?q" "blocks_ok fo H D a (qw_qk c) (qw_qv c)"
    using h b(1) by (auto simp: holds_def rows_ok_def)
  obtain kb vb where B: "qw_qk c = stored (rs_bits a) kb" "qw_qv c = stored (rs_bits a) vb" "length kb = ?n * ?kn" "length vb = ?n * ?vn"
      "\<forall>f < ?n. \<forall>k < ?kn. dequant fo (rs_bits a) (kb ! (f * ?kn + k)) = key_block ?G D (rs_k a) (f * ?R) k"
      "\<forall>f < ?n. \<forall>k < ?vn. dequant fo (rs_bits a) (vb ! (f * ?vn + k)) = value_block ?R D (rs_v a) (f * ?R) k"
    using c(4) b(1) unfolding blocks_ok_def Let_def by auto
  let ?kb = "map (\<lambda>i. quant fo b (dequant fo (rs_bits a) (kb ! i))) [0..<length kb]" let ?vb = "map (\<lambda>i. quant fo b (dequant fo (rs_bits a) (vb ! i))) [0..<length vb]"
  let ?a = "to_width fo b a" note f = to_width_fields[OF r(5,6,8), of fo b]
  let ?c = "c\<lparr>qw_qk := stored b ?kb, qw_qv := stored b ?vb, qw_bits := b, qw_q2_deq_tokens := 0\<rparr>"
  have "?q div QKKV = ?n * ?G" using r(2,4) by (metis QKKV_def div_mult_self_is_m mult.assoc zero_less_numeral)
  then have cnt: "?q div QKKV * H * D = length kb" "?q * H * (D div QKKV) = length vb" using B(3,4) r(4) by (simp_all add: algebra_simps)
  have same: "x\<lparr>qw_q2_deq_tokens := 0\<rparr> = x" if "qw_q2_deq_tokens x = 0" for x :: "('a, 'b) quant_window" using that by (cases x) simp
  have ok: "between_widths fo b c = Ok ?c"
  proof (cases "?q = 0")
    case True
    then have "kb = []" "vb = []" using B(3,4) by simp_all
    moreover have "qw_q2_deq_tokens c = 0" using h True by (simp add: holds_def)
    ultimately show ?thesis using True same[of "c\<lparr>qw_qk := stored b [], qw_qv := stored b [], qw_bits := b\<rparr>"]
      by (simp add: between_widths_def c(3) stored_ops(3)[OF b(2)])
  next
    case False
    then show ?thesis unfolding between_widths_def c(1-3) cnt B(1,2) requantize_ok[OF r(1) b(2)] by simp
  qed
  have kd: "dequant fo b (?kb ! (i * ?kn + k)) = key_block ?G D (rs_k ?a) (i * ?R) k" if i: "i < ?n" "k < ?kn" for i k
  proof -
    have d: "\<forall>r \<in> set (take ?q (rs_k a)). length r = H * D" using r(8) by (auto dest: in_set_takeD)
    have "i * ?R mod QKKV = 0" "i * ?R + ?G * QKKV \<le> length (take ?q (rs_k a))" using r(2,5) flush_fits[OF i(1)] by (auto simp: mod_mult_eq dest: dvd_imp_mod_0) (metis mod_mult_self2_is_0 mult.assoc r(2))
    from key_block_quant[OF d i(2) this] key_block_take[OF _ i(2), of "i * ?R" ?q "rs_k a"] flush_fits[OF i(1)] r(2)
    have "key_block ?G D (rs_k ?a) (i * ?R) k = through fo b (key_block ?G D (rs_k a) (i * ?R) k)" by (simp add: to_width_def)
    then show ?thesis using B(3,5) i pos_fits[OF i] by (simp add: through_def)
  qed
  have vd: "dequant fo b (?vb ! (i * ?vn + k)) = value_block ?R D (rs_v ?a) (i * ?R) k" if i: "i < ?n" "k < ?vn" for i k
  proof -
    have d: "\<forall>r \<in> set (take ?q (rs_v a)). length r = H * D" using r(8) by (auto dest: in_set_takeD)
    have "i * ?R + ?R \<le> length (take ?q (rs_v a))" using r(5,6) flush_fits[OF i(1)] by simp
    from value_block_quant[OF d i(2) this r(7)] value_block_take[OF flush_fits[OF i(1)] i(2), of "rs_v a"]
    have "value_block ?R D (rs_v ?a) (i * ?R) k = through fo b (value_block ?R D (rs_v a) (i * ?R) k)" by (simp add: to_width_def)
    then show ?thesis using B(4,6) i pos_fits[OF i] by (simp add: through_def)
  qed
  have len: "b \<noteq> 16" "length ?kb = ?n * ?kn" "length ?vb = ?n * ?vn" using b(2) B(3,4) by auto
  have "blocks_ok fo H D ?a (stored b ?kb) (stored b ?vb)"
    by (rule blocks_okI[where a = ?a and H = H and D = D and fo = fo, unfolded f(1-3), OF len kd vd])
  then have "holds fo H D M ?c ?a" using h r f b(2) res_ok_drop[OF f(6)] res_ok_drop[OF f(7)]
    by (auto simp: holds_def rows_ok_def attn_ok_def agrees_def)
  with ok show ?thesis by blast
qed

section \<open>From 16 bits\<close>

text \<open>
  What is meant: the full groups of 32 tokens go through the codec, the rows stay in their order. And what the code
  does: it writes the blocks head by head and reads them group by group (\<open>shuffle\<close>).
\<close>

definition from_full :: "('f, 'h) float_ops \<Rightarrow> nat \<Rightarrow> 'f row_state \<Rightarrow> 'f row_state" where
  "from_full fo b a = (let q = length (rs_k a) div QKKV * QKKV in
     a\<lparr>rs_bits := b, rs_cap := QKKV, rs_q := q, rs_k := quant_keys fo b (take q (rs_k a)) @ drop q (rs_k a),
       rs_v := quant_values fo b (take q (rs_v a)) @ drop q (rs_v a)\<rparr>)"

definition mixed_from_full :: "('f, 'h) float_ops \<Rightarrow> nat \<Rightarrow> nat \<Rightarrow> nat \<Rightarrow> 'f row_state \<Rightarrow> 'f row_state" where
  "mixed_from_full fo H D b a = (let q = length (rs_k a) div QKKV * QKKV in
     a\<lparr>rs_bits := b, rs_cap := QKKV, rs_q := q, rs_k := quant_keys fo b (shuffle H D (take q (rs_k a))) @ drop q (rs_k a),
       rs_v := quant_values fo b (shuffle H D (take q (rs_v a))) @ drop q (rs_v a)\<rparr>)"

text \<open>The rows of a head are moved to another place of the same buffer, head after head.\<close>

lemma move_rows:
  fixes xs :: "'f list"
  assumes "\<And>h. h < n \<Longrightarrow> src h + m \<le> length xs \<and> dst h + m \<le> length xs"
    and "\<And>h h'. h < h' \<Longrightarrow> h' < n \<Longrightarrow> dst h + m \<le> src h' \<and> dst h + m \<le> dst h'"
  shows "\<exists>ys. try_fold (\<lambda>h xs. copy_within xs (src h) (dst h) m) [0..<n] xs = (Ok ys :: _ qw_result) \<and> length ys = length xs
    \<and> (\<forall>h < n. \<forall>j < m. ys ! (dst h + j) = xs ! (src h + j))"
proof -
  let ?I = "\<lambda>k ys. length ys = length xs \<and> (\<forall>h < k. \<forall>j < m. ys ! (dst h + j) = xs ! (src h + j)) \<and> (\<forall>h < n. k \<le> h \<longrightarrow> (\<forall>j < m. ys ! (src h + j) = xs ! (src h + j)))"
  have "\<exists>ys. try_fold (\<lambda>h xs. copy_within xs (src h) (dst h) m) [0..<n] xs = (Ok ys :: _ qw_result) \<and> ?I (length [0..<n]) ys"
  proof (rule try_fold_nth[where I = ?I])
    fix k ys assume "k < length [0..<n]" and ys: "?I k ys"
    then have k: "k < n" by simp
    have b: "src k + m \<le> length ys" "dst k + m \<le> length ys" using assms(1)[OF k] ys by simp_all
    have e: "memmove ys (src k) (dst k) m ! i = (if dst k \<le> i \<and> i < dst k + m then ys ! (src k + (i - dst k)) else ys ! i)" if "i < length ys" for i
      using b that by (auto simp: memmove_def nth_append)
    have "memmove ys (src k) (dst k) m ! (dst h + j) = xs ! (src h + j)" if "h < Suc k" "j < m" for h j
    proof (cases "h = k")
      case True
      then show ?thesis using e[of "dst k + j"] that(2) b ys k by simp
    next
      case False
      then have "h < k" using that(1) by simp
      with assms(2)[OF this k] e[of "dst h + j"] that(2) b ys show ?thesis by auto
    qed
    moreover have "memmove ys (src k) (dst k) m ! (src h + j) = xs ! (src h + j)" if "h < n" "Suc k \<le> h" "j < m" for h j
      using assms(2)[of k h] e[of "src h + j"] assms(1)[OF that(1)] that ys by auto
    ultimately show "\<exists>zs. copy_within ys (src ([0..<n] ! k)) (dst ([0..<n] ! k)) m = (Ok zs :: _ qw_result) \<and> ?I (Suc k) zs"
      using k b ys by (simp add: copy_within_def)
  qed simp
  then show ?thesis by auto
qed

lemma try_fold_both:
  assumes "try_fold f hs (qw_res_k c) = Ok k'" "try_fold f hs (qw_res_v c) = Ok v'"
    and "\<And>h k v. h \<in> set hs \<Longrightarrow> F h (c\<lparr>qw_res_k := k, qw_res_v := v\<rparr>) = and_then (f h k) (\<lambda>k. and_then (f h v) (\<lambda>v. Ok (c\<lparr>qw_res_k := k, qw_res_v := v\<rparr>)))"
  shows "try_fold F hs c = Ok (c\<lparr>qw_res_k := k', qw_res_v := v'\<rparr>)"
proof -
  have "try_fold f hs k = Ok k' \<Longrightarrow> try_fold f hs v = Ok v' \<Longrightarrow> try_fold F hs (c\<lparr>qw_res_k := k, qw_res_v := v\<rparr>) = Ok (c\<lparr>qw_res_k := k', qw_res_v := v'\<rparr>)" for k v
    using assms(3)
  proof (induction hs arbitrary: k v)
    case (Cons h hs)
    from Cons.prems(1,2) obtain k1 v1 where "f h k = Ok k1" "f h v = Ok v1" "try_fold f hs k1 = Ok k'" "try_fold f hs v1 = Ok v'"
      by (auto simp: and_then_eq_Ok)
    with Cons.IH[of k1 v1] Cons.prems(3) show ?case by simp
  qed simp
  from this[OF assms(1,2)] show ?thesis by simp
qed

text \<open>After the shift the remaining rows are at the front of their heads, after the compaction with a smaller stride.\<close>

lemma moved_rows:
  assumes "res_ok H D R q K xs" "length K = q + s + p" "s + p \<le> R" "p \<le> R'" "0 < D" "length ys = H * R' * D"
    and "\<forall>h < H. \<forall>j < p * D. ys ! (h * R' * D + j) = xs ! (h * R * D + s * D + j)"
  shows "res_ok H D R' (q + s) K ys"
  unfolding res_ok_def agrees_def
proof (intro conjI ballI impI assms(6))
  fix i assume i: "i \<in> {i. q + s + i div D mod R' < length K}" "i < H * R' * D"
  let ?h = "i div (R' * D)" let ?t = "i div D mod R'"
  have t: "?t < p" "?t < R'" using i assms(2,4) by auto
  have h: "?h < H" using i(2) by (simp add: less_mult_imp_div_less mult.assoc)
  define j where "j = i - (?h * R' * D + ?t * D)"
  have j: "i = ?h * R' * D + ?t * D + j" "j < D" unfolding j_def using block_index[OF assms(5) t(2), of i ?h] by linarith+
  have "?t * D + j < p * D" by (rule pos_fits[OF t(1) j(2)])
  then have "ys ! i = xs ! (?h * R * D + (s + ?t) * D + j)" using assms(7) h j(1) by (metis add.assoc add_mult_distrib)
  also have "\<dots> = K ! (q + (s + ?t)) ! (?h * D + j)" by (rule res_at(2)[OF assms(1) h _ _ j(2)]) (use t assms(2,3) in simp_all)
  also have "\<dots> = res_fun D R' (q + s) K i" using res_fun_at[OF assms(5) t(2) j(2), of "q + s" K ?h] j(1) by (simp add: add.assoc)
  finally show "ys ! i = res_fun D R' (q + s) K i" .
qed

lemma head_gap: "h < h' \<Longrightarrow> h * R * D + R * D \<le> h' * R * (D :: nat)"
  using mult_le_mono1[of "Suc h" h' "R * D"] by (simp add: algebra_simps)

lemma shift_residual_ok:
  assumes "qw_heads c = H" "qw_dim c = D" "qw_res_cap c = R" "res_ok H D R 0 K (qw_res_k c)" "res_ok H D R 0 V (qw_res_v c)"
    and "length K = q + p" "length V = q + p" "q + p \<le> R" "0 < D"
  shows "\<exists>k v. shift_residual q p c = Ok (c\<lparr>qw_res_k := k, qw_res_v := v\<rparr>) \<and> res_ok H D R q K k \<and> res_ok H D R q V v"
proof -
  let ?src = "\<lambda>h. h * R * D + q * D" let ?dst = "\<lambda>h. h * R * D" let ?m = "p * D"
  have len: "length (qw_res_k c) = H * R * D" "length (qw_res_v c) = H * R * D" using assms(4,5) by (simp_all add: res_ok_def agrees_def)
  have qp: "q * D + ?m \<le> R * D" using mult_le_mono1[OF assms(8), of D] by (simp add: add_mult_distrib)
  have 1: "?src h + ?m \<le> H * R * D \<and> ?dst h + ?m \<le> H * R * D" if "h < H" for h using head_gap[OF that, of R D] qp by linarith
  have 2: "?dst h + ?m \<le> ?src h' \<and> ?dst h + ?m \<le> ?dst h'" if "h < h'" for h h' using head_gap[OF that, of R D] qp by linarith
  obtain k where k: "try_fold (\<lambda>h xs. copy_within xs (?src h) (?dst h) ?m) [0..<H] (qw_res_k c) = (Ok k :: _ qw_result)" "length k = H * R * D"
      "\<forall>h < H. \<forall>j < ?m. k ! (?dst h + j) = qw_res_k c ! (?src h + j)"
    using move_rows[of H ?src ?m "qw_res_k c" ?dst] 1 2 len by auto
  obtain v where v: "try_fold (\<lambda>h xs. copy_within xs (?src h) (?dst h) ?m) [0..<H] (qw_res_v c) = (Ok v :: _ qw_result)" "length v = H * R * D"
      "\<forall>h < H. \<forall>j < ?m. v ! (?dst h + j) = qw_res_v c ! (?src h + j)"
    using move_rows[of H ?src ?m "qw_res_v c" ?dst] 1 2 len by auto
  have "shift_residual q p c = Ok (c\<lparr>qw_res_k := k, qw_res_v := v\<rparr>)" unfolding shift_residual_def assms(1)
    by (rule try_fold_both[OF k(1) v(1)]) (simp add: assms(2,3) Let_def)
  moreover have "res_ok H D R q K k" "res_ok H D R q V v"
    using moved_rows[of H D R 0 K "qw_res_k c" q p R k] moved_rows[of H D R 0 V "qw_res_v c" q p R v] k(2,3) v(2,3) assms(4-9) by simp_all
  ultimately show ?thesis by blast
qed

lemma compact_residual_ok:
  assumes c: "qw_heads c = H" "qw_dim c = D" "qw_res_cap c = R" "qw_res_pos c = p" "res_ok H D R q K (qw_res_k c)" "res_ok H D R q V (qw_res_v c)"
    and "length K = q + p" "length V = q + p" "p \<le> QKKV" "QKKV \<le> R" "0 < D"
  shows "\<exists>k v. compact_residual c = Ok (c\<lparr>qw_res_k := k, qw_res_v := v, qw_res_cap := QKKV\<rparr>) \<and> res_ok H D QKKV q K k \<and> res_ok H D QKKV q V v"
proof (cases "R = QKKV")
  case True
  have "c\<lparr>qw_res_k := qw_res_k c, qw_res_v := qw_res_v c, qw_res_cap := QKKV\<rparr> = c" using c(3) True by (cases c) simp
  with True c show ?thesis by (intro exI[of _ "qw_res_k c"] exI[of _ "qw_res_v c"]) (simp add: compact_residual_def)
next
  case False
  let ?src = "\<lambda>h. h * R * D" let ?dst = "\<lambda>h. h * (QKKV * D)" let ?m = "p * D" let ?n = "H * QKKV * D"
  have len: "length (qw_res_k c) = H * R * D" "length (qw_res_v c) = H * R * D" using c(5,6) by (simp_all add: res_ok_def agrees_def)
  have ds: "?dst h \<le> ?src h" for h using mult_le_mono2[OF mult_le_mono1[OF assms(10), of D], of h] by (simp add: mult.assoc)
  have gap: "?dst h + ?m \<le> ?dst h'" if "h < h'" for h h'
    using head_gap[OF that, of QKKV D] mult_le_mono1[OF assms(9), of D] unfolding mult.assoc by linarith
  have "?m \<le> R * D" using assms(9,10) by (intro mult_le_mono1) simp
  then have 1: "?src h + ?m \<le> H * R * D \<and> ?dst h + ?m \<le> H * R * D" if "h < H" for h using head_gap[OF that, of R D] ds[of h] by linarith
  have 2: "?dst h + ?m \<le> ?src h' \<and> ?dst h + ?m \<le> ?dst h'" if "h < h'" for h h' using gap[OF that] ds[of h'] by linarith
  have mv: "\<exists>ys. try_fold (\<lambda>h xs. copy_within xs (?src h) (?dst h) ?m) [1..<H] xs = (Ok ys :: _ qw_result) \<and> length ys = length xs
      \<and> (\<forall>h < H. \<forall>j < ?m. ys ! (?dst h + j) = xs ! (?src h + j))" if "length xs = H * R * D" for xs :: "'a list"
  proof (cases "H = 0")
    case False
    then have "[0..<H] = 0 # [1..<H]" by (simp add: upt_rec)
    moreover have "copy_within xs (?src 0) (?dst 0) ?m = (Ok xs :: _ qw_result)" using 1[of 0] False that by (simp add: copy_within_def memmove_def)
    ultimately show ?thesis using move_rows[of H ?src ?m xs ?dst] 1 2 that by simp
  qed simp
  let ?moved = "\<lambda>xs ys. length ys = H * R * D \<and> (\<forall>h < H. \<forall>j < ?m. ys ! (?dst h + j) = xs ! (?src h + j))"
  let ?loop = "if p > 0 \<and> H > 1 then try_fold (\<lambda>h c. let src = h * qw_res_cap c * qw_dim c; dst = h * (QKKV * qw_dim c); count = p * qw_dim c in
                and_then (copy_within (qw_res_k c) src dst count) (\<lambda>k.
                and_then (copy_within (qw_res_v c) src dst count) (\<lambda>v. (Ok (c\<lparr>qw_res_k := k, qw_res_v := v\<rparr>) :: _ qw_result)))) [1..<H] c else Ok c"
  have "\<exists>k v. ?loop = Ok (c\<lparr>qw_res_k := k, qw_res_v := v\<rparr>) \<and> ?moved (qw_res_k c) k \<and> ?moved (qw_res_v c) v"
  proof (cases "p > 0 \<and> H > 1")
    case True
    obtain k where k: "try_fold (\<lambda>h xs. copy_within xs (?src h) (?dst h) ?m) [1..<H] (qw_res_k c) = (Ok k :: _ qw_result)" "?moved (qw_res_k c) k"
      using mv[OF len(1)] len by auto
    obtain v where v: "try_fold (\<lambda>h xs. copy_within xs (?src h) (?dst h) ?m) [1..<H] (qw_res_v c) = (Ok v :: _ qw_result)" "?moved (qw_res_v c) v"
      using mv[OF len(2)] len by auto
    have "?loop = Ok (c\<lparr>qw_res_k := k, qw_res_v := v\<rparr>)" unfolding if_P[OF True] by (rule try_fold_both[OF k(1) v(1)]) (simp add: c(2,3) Let_def)
    with k(2) v(2) show ?thesis by blast
  next
    case False
    then have "p = 0 \<or> H \<le> 1" by auto
    then have "?moved xs xs" if "length xs = H * R * D" for xs :: "'a list" using that by (auto simp: le_Suc_eq)
    with len False show ?thesis by (intro exI[of _ "qw_res_k c"] exI[of _ "qw_res_v c"]) auto
  qed
  then obtain k v where kv: "?loop = Ok (c\<lparr>qw_res_k := k, qw_res_v := v\<rparr>)" "?moved (qw_res_k c) k" "?moved (qw_res_v c) v" by blast
  have ro: "res_ok H D QKKV q K (take ?n ys)" if "res_ok H D R q K xs" "length K = q + p" "length ys = H * R * D" "\<forall>h < H. \<forall>j < ?m. ys ! (?dst h + j) = xs ! (?src h + j)"
    for K :: "'a list list" and xs ys
  proof -
    have "?n \<le> H * R * D" using ds[of H] by (simp add: mult.assoc)
    moreover have "?dst h + j < ?n" if "h < H" "j < ?m" for h j using gap[OF that(1)] that(2) by (simp add: mult.assoc)
    ultimately show ?thesis using moved_rows[of H D R q K xs 0 p QKKV "take ?n ys"] that assms(9-11) by (simp add: mult.assoc)
  qed
  have "compact_residual c = Ok (c\<lparr>qw_res_k := take ?n k, qw_res_v := take ?n v, qw_res_cap := QKKV\<rparr>)"
    using False assms(10) unfolding compact_residual_def c(1,3,4) Let_def kv(1)[unfolded Let_def] by (simp add: c(2))
  with ro[OF c(5) assms(7)] ro[OF c(6) assms(8)] kv(2,3) show ?thesis by auto
qed

text \<open>The order of the blocks: written head by head, read group by group.\<close>

lemma shuffle_rows [simp]: "length (shuffle H D rows) = length rows"
  by (simp add: shuffle_def Let_def)

lemma shuffle_width: "r \<in> set (shuffle H D rows) \<Longrightarrow> length r = H * D"
  by (auto simp: shuffle_def Let_def)

lemma shuffle_at:
  assumes "length rows = n * QKKV" "f < n" "t < QKKV" "h < H" "j < D"
  shows "shuffle H D rows ! (f * QKKV + t) ! (h * D + j) = rows ! ((f * H + h) mod n * QKKV + t) ! ((f * H + h) div n * D + j)"
proof -
  have n: "length rows div QKKV = n" using assms(1) by (simp add: QKKV_def)
  have i: "f * QKKV + t < length rows" using pos_fits[OF assms(2,3)] assms(1) by simp
  have j: "h * D + j < H * D" by (rule chan_fits[OF assms(4,5)])
  show ?thesis using i j assms(3,5) by (simp add: shuffle_def Let_def n)
qed

lemma key_block_shuffle:
  assumes "length rows = n * QKKV" "f < n" "k < H * (1 * D)"
  shows "key_block 1 D (shuffle H D rows) (f * QKKV) k = key_block n D rows 0 (f * (H * (1 * D)) + k)"
proof -
  have D: "0 < D" and n: "0 < n" using assms(2,3) by (auto intro: gr0I)
  have h: "k div D < H" using assms(3) by (simp add: less_mult_imp_div_less)
  let ?m = "f * H + k div D"
  have e: "f * (H * (1 * D)) + k = ?m div n * (n * D) + ?m mod n * D + k mod D"
  proof -
    have "?m div n * (n * D) + ?m mod n * D + k mod D = (?m div n * n + ?m mod n) * D + k mod D" by (simp only: add_mult_distrib mult.assoc)
    also have "\<dots> = f * H * D + (k div D * D + k mod D)" by (simp add: add_mult_distrib)
    finally show ?thesis by (simp add: mult.assoc)
  qed
  have "?m mod n < n" using n by simp
  note d = decode3[OF this mod_less_divisor[OF D], of "?m div n" k]
  have "shuffle H D rows ! (f * QKKV + t) ! (k div D * D + k mod D) = rows ! (?m mod n * QKKV + t) ! (?m div n * D + k mod D)" if "t < QKKV" for t
    by (rule shuffle_at[OF assms(1,2) that h]) (use D in simp)
  then show ?thesis unfolding e key_block_def d by simp
qed

lemma value_block_shuffle:
  assumes "length rows = n * QKKV" "f < n" "k < H * (QKKV * (D div QKKV))" "D mod QKKV = 0" "\<forall>r \<in> set rows. length r = H * D"
  shows "value_block QKKV D (shuffle H D rows) (f * QKKV) k = value_block (n * QKKV) D rows 0 (f * (H * (QKKV * (D div QKKV))) + k)"
proof -
  let ?B = "D div QKKV" let ?h = "k div (QKKV * ?B)" let ?t = "k mod (QKKV * ?B) div ?B" let ?b = "k mod (QKKV * ?B) mod ?B" let ?m = "f * H + ?h"
  note kb = key_bounds[OF assms(3)]
  have n: "0 < n" using assms(2) by simp
  have r: "?m mod n * QKKV + ?t < n * QKKV" by (rule pos_fits) (use n kb(2) in simp_all)
  have "f * (H * (QKKV * ?B)) + k = ?m * (QKKV * ?B) + ?t * ?B + ?b"
    using div_mult_mod_eq[of k "QKKV * ?B"] div_mult_mod_eq[of "k mod (QKKV * ?B)" ?B] by (simp add: algebra_simps)
  also have "?m * (QKKV * ?B) = ?m div n * (n * QKKV * ?B) + ?m mod n * QKKV * ?B"
    using div_mult_mod_eq[of ?m n] by (metis add_mult_distrib mult.assoc)
  finally have e: "f * (H * (QKKV * ?B)) + k = ?m div n * (n * QKKV * ?B) + (?m mod n * QKKV + ?t) * ?B + ?b" by (simp add: add_mult_distrib)
  note d = decode3[OF r kb(3), of "?m div n"]
  have bd: "?b * QKKV + QKKV \<le> D" using mult_le_mono1[OF Suc_leI[OF kb(3)], of QKKV] assms(4) by auto
  have mn: "?m div n < H"
  proof -
    have "?m < H * n" using mult_le_mono1[OF Suc_leI[OF assms(2)], of H] kb(1) by (simp add: mult.commute)
    then show ?thesis by (rule less_mult_imp_div_less)
  qed
  have i: "f * QKKV + ?t < length rows" using pos_fits[OF assms(2) kb(2)] assms(1) by simp
  have w: "length (shuffle H D rows ! (f * QKKV + ?t)) = H * D" "length (rows ! (?m mod n * QKKV + ?t)) = H * D"
    using i r assms(1,5) shuffle_width[of _ H D rows] by simp_all
  have hD: "?h * D + D \<le> H * D" "?m div n * D + D \<le> H * D" using mult_le_mono1[of "Suc ?h" H D] mult_le_mono1[of "Suc (?m div n)" H D] kb(1) mn by simp_all
  show ?thesis unfolding e value_block_def d add_0
  proof (rule nth_equalityI)
    fix j assume "j < length (field (shuffle H D rows ! (f * QKKV + ?t)) (?h * D + ?b * QKKV) QKKV)"
    then have j: "j < QKKV" by simp
    then have "?b * QKKV + j < D" using bd by linarith
    from shuffle_at[OF assms(1,2) kb(2,1) this] j w hD bd
    show "field (shuffle H D rows ! (f * QKKV + ?t)) (?h * D + ?b * QKKV) QKKV ! j = field (rows ! (?m mod n * QKKV + ?t)) (?m div n * D + ?b * QKKV) QKKV ! j"
      by (simp add: add.assoc)
  qed (use w hD bd in simp)
qed

lemma flush_full:
  assumes c: "qw_heads c = H" "qw_dim c = D" "qw_res_cap c = R" "qw_res_pos c = length K" "qw_bits c = b" "b \<in> {2, 4, 8}" "qw_qk c = stored b []" "qw_qv c = stored b []" "qw_q2_tokens c = 0"
    and "res_ok H D R 0 K (qw_res_k c)" "res_ok H D R 0 V (qw_res_v c)" "length V = length K" "length K \<le> R" "0 < D" "D mod QKKV = 0" "\<forall>r \<in> set V. length r = H * D"
  defines "n \<equiv> length K div QKKV"
  shows "\<exists>k v. (if qw_res_pos c \<ge> QKKV then flush_residual fo c else Ok c)
      = Ok (c\<lparr>qw_res_k := k, qw_res_v := v, qw_qk := stored b (map (\<lambda>k. quant fo b (key_block n D K 0 k)) [0..<H * (n * D)]),
          qw_qv := stored b (map (\<lambda>k. quant fo b (value_block (n * QKKV) D V 0 k)) [0..<H * (n * QKKV * (D div QKKV))]),
          qw_q2_tokens := n * QKKV, qw_res_pos := length K - n * QKKV\<rparr>)
    \<and> res_ok H D R (n * QKKV) K k \<and> res_ok H D R (n * QKKV) V v"
proof (cases "QKKV \<le> length K")
  case False
  have same: "c\<lparr>qw_res_k := qw_res_k c, qw_res_v := qw_res_v c, qw_qk := stored b [], qw_qv := stored b [], qw_q2_tokens := 0, qw_res_pos := length K\<rparr> = c"
    using c(4,7-9) by (cases c) simp
  have "n = 0" using False by (simp add: n_def)
  with False c(4) same assms(10,11) show ?thesis by (intro exI[of _ "qw_res_k c"] exI[of _ "qw_res_v c"]) simp
next
  case True
  let ?q = "n * QKKV" let ?p = "length K - ?q"
  have q: "?q \<le> length K" "?q \<le> R" using assms(13) div_times_less_eq_dividend[of "length K" QKKV] unfolding n_def by linarith+
  have k: "flush_keys fo n c = Ok (stored b (map (\<lambda>k. quant fo b (key_block n D K 0 k)) [0..<H * (n * D)]))"
    using flush_keys_ok[OF assms(10) c(1-3,7,6), of n fo] q by simp
  have v: "flush_values fo ?q c = Ok (stored b (map (\<lambda>k. quant fo b (value_block ?q D V 0 k)) [0..<H * (?q * (D div QKKV))]))"
    using flush_values_ok[OF assms(11) c(1-3,8,6), of ?q fo] q assms(12,15,16) by simp
  have "\<exists>rk rv. (if ?p > 0 then shift_residual ?q ?p c else Ok c) = Ok (c\<lparr>qw_res_k := rk, qw_res_v := rv\<rparr>) \<and> res_ok H D R ?q K rk \<and> res_ok H D R ?q V rv"
  proof (cases "?p > 0")
    case True
    with shift_residual_ok[OF c(1-3) assms(10,11), of ?q ?p] q assms(12-14) show ?thesis by simp
  next
    case False
    then have "res_ok H D R ?q K (qw_res_k c)" "res_ok H D R ?q V (qw_res_v c)" using assms(10-12) q by (simp_all add: res_ok_def agrees_def)
    with False show ?thesis by (intro exI[of _ "qw_res_k c"] exI[of _ "qw_res_v c"]) simp
  qed
  then obtain rk rv where s: "(if ?p > 0 then shift_residual ?q ?p c else Ok c) = Ok (c\<lparr>qw_res_k := rk, qw_res_v := rv\<rparr>)" "res_ok H D R ?q K rk" "res_ok H D R ?q V rv" by blast
  have b: "b \<noteq> 16" using c(6) by auto
  have "flush_residual fo c = Ok (c\<lparr>qw_res_k := rk, qw_res_v := rv, qw_qk := stored b (map (\<lambda>k. quant fo b (key_block n D K 0 k)) [0..<H * (n * D)]),
          qw_qv := stored b (map (\<lambda>k. quant fo b (value_block ?q D V 0 k)) [0..<H * (?q * (D div QKKV))]), qw_q2_tokens := ?q, qw_res_pos := ?p\<rparr>)"
    unfolding flush_residual_def c(4,5) Let_def n_def[symmetric] k v and_then.simps s(1) using b True c(9) by simp
  with True c(4) s(2,3) show ?thesis by auto
qed

lemma full_groups: "n div QKKV * QKKV \<le> n" "n \<le> n div QKKV * QKKV + QKKV"
  using div_mult_mod_eq[of n QKKV] mod_less_divisor[of QKKV n] by (simp_all add: QKKV_def)

text \<open>With one head, or one group of 32 tokens, nothing is moved.\<close>

lemma shuffle_single:
  assumes "\<forall>r \<in> set rows. length r = H * D" "length rows mod QKKV = 0" "H \<le> 1 \<or> length rows \<le> QKKV"
  shows "shuffle H D rows = rows"
proof (rule nth_equalityI)
  fix i assume "i < length (shuffle H D rows)"
  then have i: "i < length rows" by simp
  let ?n = "length rows div QKKV"
  have n: "?n * QKKV = length rows" using assms(2) by auto
  have f: "i div QKKV < ?n" using i n by (metis less_mult_imp_div_less)
  have "shuffle H D rows ! i ! j = rows ! i ! j" if j: "j < H * D" for j
  proof -
    have D: "0 < D" "j div D < H" using j by (auto intro: gr0I simp: less_mult_imp_div_less)
    have "?n = 1 \<or> H = 1" using assms(3) D(2) f n by (auto simp: le_Suc_eq QKKV_def)
    then have m: "(i div QKKV * H + j div D) mod ?n = i div QKKV \<and> (i div QKKV * H + j div D) div ?n = j div D" using f D(2) by auto
    have "shuffle H D rows ! (i div QKKV * QKKV + i mod QKKV) ! (j div D * D + j mod D)
        = rows ! ((i div QKKV * H + j div D) mod ?n * QKKV + i mod QKKV) ! ((i div QKKV * H + j div D) div ?n * D + j mod D)"
      by (rule shuffle_at) (use n f D in \<open>simp_all add: QKKV_def\<close>)
    then show ?thesis unfolding conjunct1[OF m] conjunct2[OF m] by simp
  qed
  moreover have "length (shuffle H D rows ! i) = H * D" using i shuffle_width[of _ H D rows] by simp
  ultimately show "shuffle H D rows ! i = rows ! i" using assms(1) i by (intro nth_equalityI) simp_all
qed simp

lemma mixed_from_full_single:
  assumes "rows_ok H D M a" "H \<le> 1 \<or> length (rs_k a) < 2 * QKKV"
  shows "mixed_from_full fo H D b a = from_full fo b a"
proof -
  let ?q = "length (rs_k a) div QKKV * QKKV"
  have l: "length (take ?q (rs_k a)) = ?q" "length (take ?q (rs_v a)) = ?q" "\<forall>r \<in> set (rs_k a) \<union> set (rs_v a). length r = H * D"
    using assms(1) full_groups(1)[of "length (rs_k a)"] by (auto simp: rows_ok_def)
  have "H \<le> 1 \<or> ?q \<le> QKKV" using assms(2) by (auto simp: QKKV_def)
  then have "shuffle H D (take ?q (rs_k a)) = take ?q (rs_k a)" "shuffle H D (take ?q (rs_v a)) = take ?q (rs_v a)"
    using l by (auto intro!: shuffle_single dest: in_set_takeD)
  then show ?thesis by (simp add: mixed_from_full_def from_full_def Let_def)
qed

lemma mixed_from_full_fields:
  assumes "length (rs_v a) = length (rs_k a)" "\<forall>r \<in> set (rs_k a) \<union> set (rs_v a). length r = H * D"
  defines "q \<equiv> length (rs_k a) div QKKV * QKKV"
  shows "rs_bits (mixed_from_full fo H D b a) = b" "rs_cap (mixed_from_full fo H D b a) = QKKV" "rs_q (mixed_from_full fo H D b a) = q"
    "length (rs_k (mixed_from_full fo H D b a)) = length (rs_k a)" "length (rs_v (mixed_from_full fo H D b a)) = length (rs_k a)"
    "drop q (rs_k (mixed_from_full fo H D b a)) = drop q (rs_k a)" "drop q (rs_v (mixed_from_full fo H D b a)) = drop q (rs_v a)"
    "\<forall>r \<in> set (rs_k (mixed_from_full fo H D b a)) \<union> set (rs_v (mixed_from_full fo H D b a)). length r = H * D"
proof -
  have w: "\<forall>r \<in> set (shuffle H D (take q (rs_k a))). length r = H * D" "\<forall>r \<in> set (shuffle H D (take q (rs_v a))). length r = H * D"
    using shuffle_width by blast+
  show "\<forall>r \<in> set (rs_k (mixed_from_full fo H D b a)) \<union> set (rs_v (mixed_from_full fo H D b a)). length r = H * D"
    using assms(2) width_quant_rows[OF w(1)] width_quant_rows[OF w(2)] unfolding mixed_from_full_def Let_def q_def[symmetric] by (auto dest: in_set_dropD)
  have q: "q \<le> length (rs_k a)" unfolding q_def by (rule full_groups(1))
  show "drop q (rs_k (mixed_from_full fo H D b a)) = drop q (rs_k a)" "drop q (rs_v (mixed_from_full fo H D b a)) = drop q (rs_v a)"
      "length (rs_k (mixed_from_full fo H D b a)) = length (rs_k a)" "length (rs_v (mixed_from_full fo H D b a)) = length (rs_k a)"
    using q assms(1) unfolding mixed_from_full_def Let_def q_def[symmetric] by simp_all
qed (simp_all add: mixed_from_full_def Let_def q_def)

lemma mixed_from_full_blocks:
  assumes "length (rs_v a) = length (rs_k a)" "\<forall>r \<in> set (rs_k a) \<union> set (rs_v a). length r = H * D" "b \<in> {2, 4, 8}" "D mod QKKV = 0"
  defines "n \<equiv> length (rs_k a) div QKKV"
  shows "blocks_ok fo H D (mixed_from_full fo H D b a) (stored b (map (\<lambda>k. quant fo b (key_block n D (rs_k a) 0 k)) [0..<H * (n * D)]))
    (stored b (map (\<lambda>k. quant fo b (value_block (n * QKKV) D (rs_v a) 0 k)) [0..<H * (n * QKKV * (D div QKKV))]))"
proof -
  let ?q = "n * QKKV" let ?a = "mixed_from_full fo H D b a" let ?K = "shuffle H D (take ?q (rs_k a))" let ?V = "shuffle H D (take ?q (rs_v a))"
  note f = mixed_from_full_fields[OF assms(1,2), of fo b, folded n_def]
  have Q: "QKKV div QKKV = 1" "0 < QKKV" "?q div QKKV = n" by (simp_all add: QKKV_def)
  have lq: "length (take ?q (rs_k a)) = n * QKKV" "length (take ?q (rs_v a)) = n * QKKV" using full_groups(1)[of "length (rs_k a)"] assms(1) by (simp_all add: n_def)
  have w: "\<forall>r \<in> set ?K. length r = H * D" "\<forall>r \<in> set ?V. length r = H * D" "\<forall>r \<in> set (take ?q (rs_v a)). length r = H * D"
    using shuffle_width assms(2) by (blast, blast, auto dest: in_set_takeD)
  have KV: "rs_k ?a = quant_keys fo b ?K @ drop ?q (rs_k a)" "rs_v ?a = quant_values fo b ?V @ drop ?q (rs_v a)" by (simp_all add: mixed_from_full_def Let_def n_def)
  have k: "dequant fo b (map (\<lambda>k. quant fo b (key_block n D (rs_k a) 0 k)) [0..<H * (n * D)] ! (i * (H * (1 * D)) + k)) = key_block 1 D (rs_k ?a) (i * QKKV) k"
    if i: "i < n" "k < H * (1 * D)" for i k
  proof -
    have s: "i * (H * (1 * D)) + k < H * (n * D)" using pos_fits[OF i] by (simp add: algebra_simps)
    have "key_block 1 D (rs_k ?a) (i * QKKV) k = through fo b (key_block 1 D ?K (i * QKKV) k)"
      unfolding KV by (rule key_block_quant[OF w(1) i(2)]) (use mult_le_mono1[OF Suc_leI[OF i(1)], of QKKV] lq in simp_all)
    also have "key_block 1 D ?K (i * QKKV) k = key_block n D (rs_k a) 0 (i * (H * (1 * D)) + k)"
      using key_block_shuffle[OF lq(1) i] key_block_take[OF _ s, of 0 ?q "rs_k a"] by simp
    finally show ?thesis using s by (simp add: through_def)
  qed
  have v: "dequant fo b (map (\<lambda>k. quant fo b (value_block ?q D (rs_v a) 0 k)) [0..<H * (?q * (D div QKKV))] ! (i * (H * (QKKV * (D div QKKV))) + k)) = value_block QKKV D (rs_v ?a) (i * QKKV) k"
    if i: "i < n" "k < H * (QKKV * (D div QKKV))" for i k
  proof -
    have s: "i * (H * (QKKV * (D div QKKV))) + k < H * (?q * (D div QKKV))" using pos_fits[OF i] by (simp add: algebra_simps)
    have "value_block QKKV D (rs_v ?a) (i * QKKV) k = through fo b (value_block QKKV D ?V (i * QKKV) k)"
      unfolding KV by (rule value_block_quant[OF w(2) i(2) _ assms(4)]) (use mult_le_mono1[OF Suc_leI[OF i(1)], of QKKV] lq in simp)
    also have "value_block QKKV D ?V (i * QKKV) k = value_block ?q D (rs_v a) 0 (i * (H * (QKKV * (D div QKKV))) + k)"
      using value_block_shuffle[OF lq(2) i assms(4) w(3)] value_block_take[OF _ s, of 0 ?q "rs_v a"] by simp
    finally show ?thesis using s by (simp add: through_def)
  qed
  have len: "b \<noteq> 16" "length (map (\<lambda>k. quant fo b (key_block n D (rs_k a) 0 k)) [0..<H * (n * D)]) = n * (H * (1 * D))"
      "length (map (\<lambda>k. quant fo b (value_block ?q D (rs_v a) 0 k)) [0..<H * (?q * (D div QKKV))]) = n * (H * (QKKV * (D div QKKV)))"
    using assms(3) by (auto simp: algebra_simps)
  show ?thesis by (rule blocks_okI[where a = ?a and H = H and D = D and fo = fo, unfolded f(1-3) Q, OF len k v])
qed

lemma from_unquantized_holds:
  assumes h: "holds fo H D M c a" "rs_bits a = 16" and b: "b \<in> {2, 4, 8}" and M: "QKKV \<le> M"
  shows "\<exists>c'. from_unquantized fo b c = Ok c' \<and> holds fo H D M c' (mixed_from_full fo H D b a)"
proof -
  let ?n = "length (rs_k a) div QKKV" let ?q = "?n * QKKV" let ?a = "mixed_from_full fo H D b a"
  have r: "rs_q a = 0" "rs_cap a = M" "length (rs_v a) = length (rs_k a)" "length (rs_k a) \<le> M" "0 < D" "D mod QKKV = 0"
      "\<forall>r \<in> set (rs_k a) \<union> set (rs_v a). length r = H * D" using h by (auto simp: holds_def rows_ok_def)
  note f = mixed_from_full_fields[OF r(3,7), of fo b]
  let ?c = "c\<lparr>qw_bits := b, qw_qk := stored b [], qw_qv := stored b []\<rparr>"
  have c: "qw_heads ?c = H" "qw_dim ?c = D" "qw_res_cap ?c = M" "qw_res_pos ?c = length (rs_k a)" "qw_q2_tokens ?c = 0"
      "res_ok H D M 0 (rs_k a) (qw_res_k ?c)" "res_ok H D M 0 (rs_v a) (qw_res_v ?c)" "qw_q2_deq_tokens ?c = 0"
    using h(1) r by (simp_all add: holds_def)
  obtain k v where fl: "(if qw_res_pos ?c \<ge> QKKV then flush_residual fo ?c else Ok ?c)
      = Ok (?c\<lparr>qw_res_k := k, qw_res_v := v, qw_qk := stored b (map (\<lambda>k. quant fo b (key_block ?n D (rs_k a) 0 k)) [0..<H * (?n * D)]),
          qw_qv := stored b (map (\<lambda>k. quant fo b (value_block ?q D (rs_v a) 0 k)) [0..<H * (?q * (D div QKKV))]),
          qw_q2_tokens := ?q, qw_res_pos := length (rs_k a) - ?q\<rparr>)" "res_ok H D M ?q (rs_k a) k" "res_ok H D M ?q (rs_v a) v"
    using flush_full[OF c(1-4) _ b _ _ c(5,6,7) r(3,4,5,6), of fo] r(7) by auto
  let ?c2 = "?c\<lparr>qw_res_k := k, qw_res_v := v, qw_qk := stored b (map (\<lambda>k. quant fo b (key_block ?n D (rs_k a) 0 k)) [0..<H * (?n * D)]),
          qw_qv := stored b (map (\<lambda>k. quant fo b (value_block ?q D (rs_v a) 0 k)) [0..<H * (?q * (D div QKKV))]),
          qw_q2_tokens := ?q, qw_res_pos := length (rs_k a) - ?q\<rparr>"
  have c2: "qw_heads ?c2 = H" "qw_dim ?c2 = D" "qw_res_cap ?c2 = M" "qw_res_pos ?c2 = length (rs_k a) - ?q" "res_ok H D M ?q (rs_k a) (qw_res_k ?c2)" "res_ok H D M ?q (rs_v a) (qw_res_v ?c2)"
    using c fl(2,3) by simp_all
  have c2len: "length (rs_k a) = ?q + (length (rs_k a) - ?q)" "length (rs_v a) = ?q + (length (rs_k a) - ?q)" "length (rs_k a) - ?q \<le> QKKV"
    using full_groups[of "length (rs_k a)"] r(3) by simp_all
  obtain k' v' where co: "compact_residual ?c2 = Ok (?c2\<lparr>qw_res_k := k', qw_res_v := v', qw_res_cap := QKKV\<rparr>)" "res_ok H D QKKV ?q (rs_k a) k'" "res_ok H D QKKV ?q (rs_v a) v'"
    using compact_residual_ok[OF c2 c2len] M r(5) by blast
  let ?c3 = "?c2\<lparr>qw_res_k := k', qw_res_v := v', qw_res_cap := QKKV, qw_q2_deq_tokens := 0\<rparr>"
  have "from_unquantized fo b c = Ok ?c3" unfolding from_unquantized_def stored_ops(3)[OF b] and_then.simps Let_def fl(1) co(1) by simp
  moreover have "res_ok H D QKKV ?q (rs_k ?a) k'" "res_ok H D QKKV ?q (rs_v ?a) v'"
    using res_ok_drop[OF f(6)] res_ok_drop[OF f(7)] co(2,3) f(4,5) full_groups(1)[of "length (rs_k a)"] r(3) by simp_all
  then have "holds fo H D M ?c3 ?a" using h(1) f b r full_groups[of "length (rs_k a)"] mixed_from_full_blocks[OF r(3,7) b r(6), of fo]
    by (auto simp: holds_def rows_ok_def attn_ok_def agrees_def QKKV_def)
  ultimately show ?thesis by blast
qed

lemma transition_holds:
  assumes "holds fo H D M c a" "b \<in> {2, 4, 8, 16}" "QKKV \<le> M"
  shows "\<exists>c'. transition_bits fo b c = Ok c' \<and> holds fo H D M c'
    (if b = rs_bits a then a else if b = 16 then to_full M a else if rs_bits a = 16 then mixed_from_full fo H D b a else to_width fo b a)"
proof -
  have "rs_bits a \<in> {2, 4, 8, 16}" "qw_bits c = rs_bits a" using assms(1) by (auto simp: holds_def rows_ok_def)
  then show ?thesis using assms to_unquantized_holds[OF assms(1)] from_unquantized_holds[OF assms(1) _ _ assms(3), of b] between_widths_holds[OF assms(1), of b]
    by (auto simp: transition_bits_def)
qed

end
