(* ===== verification/Quant_Props.thy ===== *)
theory Quant_Props
  imports Quant_Transition Pipeline
begin

text \<open>
  Sequences of operations on a quantised window cache against the specification on rows, and the one-shot stage
  of \<^verbatim>\<open>engine/src/stages/kv/quant_window_stage.rs\<close> that changes the width of every layer.
\<close>

section \<open>The stage\<close>

text \<open>A failed transition is logged and the next layer follows; a panic goes on.\<close>

fun run_bit_transition :: "('f, 'h) float_ops \<Rightarrow> nat \<Rightarrow> ('f, 'h) quant_window list \<Rightarrow> ('e, ('f, 'h) quant_window list) result" where
  "run_bit_transition fo b [] = Ok []"
| "run_bit_transition fo b (c # cs) = (case transition_bits fo b c of
     Panic \<Rightarrow> Panic
   | Err e \<Rightarrow> and_then (run_bit_transition fo b cs) (\<lambda>cs. Ok (c # cs))
   | Ok c' \<Rightarrow> and_then (run_bit_transition fo b cs) (\<lambda>cs. Ok (c' # cs)))"

definition transition_on_phase :: "('f, 'h) float_ops \<Rightarrow> nat \<Rightarrow> lifecycle_phase \<Rightarrow> step_info \<Rightarrow> ('f, 'h) quant_window list
    \<Rightarrow> (string, stage_outcome \<times> ('f, 'h) quant_window list) result" where
  "transition_on_phase fo b phase ctx cs =
     (if phase \<noteq> KvMutate then Ok (Continue, cs) else and_then (run_bit_transition fo b cs) (\<lambda>cs. Ok (Consumed, cs)))"

definition transition_stage :: "('f, 'h) float_ops \<Rightarrow> nat \<Rightarrow> ('f, 'h) quant_window list pipeline_stage" where
  "transition_stage fo b = \<lparr>ps_lifecycle = OneShot, ps_on_phase = transition_on_phase fo b\<rparr>"

section \<open>Sequences of operations\<close>

datatype 'f qw_event = Update "'f list" "'f list" nat | View | Bits nat | Reset

fun qw_step :: "('f, 'h) float_ops \<Rightarrow> 'f qw_event \<Rightarrow> ('f, 'h) quant_window \<Rightarrow> ((nat \<times> 'f list \<times> 'f list) list \<times> ('f, 'h) quant_window) qw_result" where
  "qw_step fo (Update k v n) c = and_then (qw_update fo k v n c) (\<lambda>c. Ok ([], c))"
| "qw_step fo View c = and_then (qw_get_view fo c) (\<lambda>(v, c). Ok ([v], c))"
| "qw_step fo (Bits b) c = and_then (transition_bits fo b c) (\<lambda>c. Ok ([], c))"
| "qw_step fo Reset c = Ok ([], qw_reset fo c)"

text \<open>The views of a run, and the cache after it.\<close>

fun qw_run :: "('f, 'h) float_ops \<Rightarrow> 'f qw_event list \<Rightarrow> ('f, 'h) quant_window \<Rightarrow> ((nat \<times> 'f list \<times> 'f list) list \<times> ('f, 'h) quant_window) qw_result" where
  "qw_run fo [] c = Ok ([], c)"
| "qw_run fo (e # es) c = and_then (qw_step fo e c) (\<lambda>(vs, c). and_then (qw_run fo es c) (\<lambda>(vs', c). Ok (vs @ vs', c)))"

definition rows_new :: "nat \<Rightarrow> nat \<Rightarrow> nat \<Rightarrow> 'f row_state" where
  "rows_new M R b = \<lparr>rs_bits = b, rs_cap = (if b = 16 then M else R), rs_q = 0, rs_k = [], rs_v = []\<rparr>"

definition rows_transition :: "('f, 'h) float_ops \<Rightarrow> nat \<Rightarrow> nat \<Rightarrow> 'f row_state \<Rightarrow> 'f row_state" where
  "rows_transition fo M b a = (if b = rs_bits a then a else if b = 16 then to_full M a else if rs_bits a = 16 then from_full fo b a else to_width fo b a)"

fun rows_step :: "('f, 'h) float_ops \<Rightarrow> nat \<Rightarrow> nat \<Rightarrow> 'f qw_event \<Rightarrow> 'f row_state \<Rightarrow> (nat \<times> 'f list \<times> 'f list) list \<times> 'f row_state" where
  "rows_step fo W M (Update k v n) a = ([], rows_append fo W k v n a)"
| "rows_step fo W M View a = ([(length (rs_k a), concat (rs_k a), concat (rs_v a))], a)"
| "rows_step fo W M (Bits b) a = ([], rows_transition fo M b a)"
| "rows_step fo W M Reset a = ([], a\<lparr>rs_q := 0, rs_k := [], rs_v := []\<rparr>)"

fun rows_run :: "('f, 'h) float_ops \<Rightarrow> nat \<Rightarrow> nat \<Rightarrow> 'f qw_event list \<Rightarrow> 'f row_state \<Rightarrow> (nat \<times> 'f list \<times> 'f list) list" where
  "rows_run fo W M [] a = []"
| "rows_run fo W M (e # es) a = fst (rows_step fo W M e a) @ rows_run fo W M es (snd (rows_step fo W M e a))"

text \<open>
  Inputs are long enough, the tokens since the last reset fit, widths are supported, and the width changes from 16 bits to a
  quantised one only with one head or with fewer than 64 tokens in the cache. The second and third number are the
  maximal length and the width, the fourth the tokens in the cache.
\<close>

fun fits :: "nat \<Rightarrow> nat \<Rightarrow> nat \<Rightarrow> nat \<Rightarrow> nat \<Rightarrow> 'f qw_event list \<Rightarrow> bool" where
  "fits H D M w used [] = True"
| "fits H D M w used (Update k v n # es) = (n * (H * D) \<le> length k \<and> n * (H * D) \<le> length v \<and> used + n \<le> M \<and> fits H D M w (used + n) es)"
| "fits H D M w used (View # es) = fits H D M w used es"
| "fits H D M w used (Bits b # es) = (b \<in> {2, 4, 8, 16} \<and> (w = 16 \<and> b \<noteq> 16 \<longrightarrow> H \<le> 1 \<or> used < 2 * QKKV) \<and> fits H D M b used es)"
| "fits H D M w used (Reset # es) = fits H D M w 0 es"

lemma new_holds:
  assumes "qw_new_with_bits fo H D M R b = Ok c" "0 < D"
  shows "holds fo H D M c (rows_new M R b)"
proof -
  have b: "b \<in> {2, 4, 8, 16}" "R mod QKKV = 0" "0 < R" "D mod QKKV = 0" using assms(1) by (auto simp: qw_new_with_bits_def split: if_splits)
  then have n: "blocks_new b = (Ok (if b = 16 then Unquantized else stored b []) :: (qw_error, 'b quantized_blocks) result)"
    using stored_ops(3)[of b] by (auto simp: blocks_new_def)
  let ?R = "if b = 16 then M else R" let ?res = "replicate (H * ?R * D) (fo_zero fo)" let ?attn = "replicate (M * H * D) (fo_zero fo)" let ?q = "if b = 16 then Unquantized else stored b []"
  have c: "c = \<lparr>qw_bits = b, qw_qk = ?q, qw_qv = ?q, qw_q2_tokens = 0, qw_res_k = ?res, qw_res_v = ?res, qw_res_pos = 0, qw_res_cap = ?R, qw_attn_k = ?attn, qw_attn_v = ?attn,
      qw_q2_deq_tokens = 0, qw_heads = H, qw_dim = D, qw_max_seq_len = M, qw_awqe_enabled = False, qw_last_attn_scores = None\<rparr>"
    using assms(1) b unfolding qw_new_with_bits_def n Let_def by (simp split: if_splits)
  have "rows_ok H D M (rows_new M R b)" using b assms(2) by (auto simp: rows_ok_def rows_new_def)
  then show ?thesis unfolding c holds_def by (cases "b = 16") (simp_all add: rows_new_def res_ok_def attn_ok_def agrees_def blocks_ok_def mult.assoc)
qed

lemma reset_holds:
  assumes "holds fo H D M c a"
  shows "holds fo H D M (qw_reset fo c) (a\<lparr>rs_q := 0, rs_k := [], rs_v := []\<rparr>)"
proof -
  have "blocks_clear (stored b bs) = stored b []" for b and bs :: "'b kv_block list" by (simp add: stored_def)
  then show ?thesis using assms
    by (auto simp: holds_def rows_ok_def qw_reset_def res_ok_def attn_ok_def agrees_def blocks_ok_def Let_def)
qed

lemma transition_fields:
  assumes "rows_ok H D M a"
  shows "length (rs_k (rows_transition fo M b a)) = length (rs_k a)" "rs_bits (rows_transition fo M b a) = b"
  using assms full_groups(1)[of "length (rs_k a)"] by (auto simp: rows_transition_def to_full_def to_width_def from_full_def rows_ok_def Let_def)

lemma append_bits: "rs_bits (rows_append fo W k v n a) = rs_bits a"
  by (induction n) (simp_all add: rows_append_def row_append_def quantize_rest_def Let_def)

lemma run_holds:
  assumes "holds fo H D M c a" "QKKV \<le> M" "fits H D M (rs_bits a) (length (rs_k a)) es"
  shows "\<exists>c'. qw_run fo es c = Ok (rows_run fo (H * D) M es a, c')"
  using assms(1,3)
proof (induction es arbitrary: c a)
  case (Cons e es)
  have "\<exists>c' a'. qw_step fo e c = Ok (fst (rows_step fo (H * D) M e a), c') \<and> snd (rows_step fo (H * D) M e a) = a' \<and> holds fo H D M c' a'
    \<and> fits H D M (rs_bits a') (length (rs_k a')) es"
  proof (cases e)
    case (Update k v n)
    then show ?thesis using qw_update_holds[OF Cons.prems(1), of n k v] Cons.prems(2) by (auto simp: append_bits)
  next
    case View
    then show ?thesis using qw_get_view_holds[OF Cons.prems(1)] Cons.prems(2) by auto
  next
    case (Bits b)
    have "rows_ok H D M a" using Cons.prems(1) by (simp add: holds_def)
    note r = transition_fields[OF this, of fo b] mixed_from_full_single[OF this, of fo b]
    show ?thesis using Bits transition_holds[OF Cons.prems(1) _ assms(2), of b] Cons.prems(2) r
      by (auto simp: rows_transition_def split: if_splits)
  next
    case Reset
    then show ?thesis using reset_holds[OF Cons.prems(1)] Cons.prems(2) by auto
  qed
  then obtain c' where s: "qw_step fo e c = Ok (fst (rows_step fo (H * D) M e a), c')" "holds fo H D M c' (snd (rows_step fo (H * D) M e a))"
      "fits H D M (rs_bits (snd (rows_step fo (H * D) M e a))) (length (rs_k (snd (rows_step fo (H * D) M e a)))) es" by blast
  from Cons.IH[OF s(2,3)] s(1) show ?case by auto
qed simp

text \<open>
  C11: The quantised window cache is its specification on rows. Over every sequence of updates, views, changes of the
  width and resets that fits, in which the width goes from 16 bits to a quantised one only with one head or with fewer than 64 tokens in the cache, no
  operation fails, and every view is the concatenation of the rows of the specification, in the order of the tokens: the tokens of the window as they came,
  the older ones through the codec of their width, keys in columns of 32 tokens, values in chunks of 32 channels, and a change to 16 bits
  leaves every row as it is. Residual strides, block indices and the incremental dequantisation do not show.
\<close>

theorem quant_window_refines:
  assumes "qw_new_with_bits fo H D M R b = Ok c" "0 < D" "QKKV \<le> M" "fits H D M b 0 es"
  shows "\<exists>c'. qw_run fo es c = Ok (rows_run fo (H * D) M es (rows_new M R b), c')"
  using run_holds[OF new_holds[OF assms(1,2)] assms(3), of es] assms(4) by (simp add: rows_new_def)

definition demo_events :: "int qw_event list" where
  "demo_events = [Update (replicate (40 * 64) 3) (replicate (40 * 64) 2) 40, Bits 4, View, Bits 16, View, Bits 2, View, Reset, Update (replicate 64 1) (replicate 64 0) 1, View]"

theorem quant_window_refines_witness:
  "\<exists>c c'. qw_new_with_bits int_ops 2 32 64 32 2 = Ok c \<and> qw_run int_ops demo_events c = Ok (rows_run int_ops 64 64 demo_events (rows_new 64 32 2), c')
    \<and> length (rows_run int_ops 64 64 demo_events (rows_new 64 32 2 :: int row_state)) = 4"
proof -
  obtain c where c: "qw_new_with_bits int_ops 2 32 64 32 2 = Ok c" by (simp add: qw_new_with_bits_def QKKV_def blocks_new_def Let_def)
  have "fits 2 32 64 2 0 demo_events" by (simp add: demo_events_def QKKV_def)
  from quant_window_refines[OF c _ _ this] c show ?thesis by (auto simp: QKKV_def demo_events_def)
qed

section \<open>The order of blocks after a change from 16 bits\<close>

lemma concat_nth: "\<forall>r \<in> set K. length r = W \<Longrightarrow> i < length K \<Longrightarrow> j < W \<Longrightarrow> concat K ! (i * W + j) = K ! i ! j"
proof (induction K arbitrary: i)
  case (Cons r K)
  then show ?case by (cases i) (simp_all add: nth_append add.assoc)
qed simp

lemma rows_append_full:
  assumes "rs_bits a = 16"
  shows "rows_append fo W k v n a = a\<lparr>rs_k := rs_k a @ map (\<lambda>s. field k (s * W) W) [0..<n], rs_v := rs_v a @ map (\<lambda>s. field v (s * W) W) [0..<n]\<rparr>"
  using assms by (induction n) (simp_all add: rows_append_def row_append_def Let_def)

text \<open>
  C40: Quantising at run time mixes the heads. A cache that starts at 16 bits, takes at least 64 tokens and is then changed to a
  quantised width writes its blocks head by head over all groups, and reads them group by group. With two heads or more the view
  of the first 32 tokens shows, as their keys of head 1, the keys of head 0 of the tokens 32 to 63.
\<close>

theorem transition_mixes_heads:
  assumes "qw_new_with_bits fo H D M R 16 = Ok c" "0 < D" "2 \<le> H" "2 * QKKV \<le> n" "n \<le> M" "n * (H * D) \<le> length k" "n * (H * D) \<le> length v" "b \<in> {2, 4, 8}"
    and "t < QKKV" "j < D"
  shows "\<exists>ka va c'. qw_run fo [Update k v n, Bits b, View] c = Ok ([(n, ka, va)], c')
    \<and> ka ! (t * (H * D) + 1 * D + j) = through fo b (map (\<lambda>s. k ! ((QKKV + s) * (H * D) + 0 * D + j)) [0..<QKKV]) ! t"
proof -
  let ?W = "H * D" let ?es = "[Update k v n, Bits b, View]"
  have M: "QKKV \<le> M" using assms(4,5) by simp
  have b: "b \<noteq> 16" using assms(8) by auto
  define K where "K = map (\<lambda>s. field k (s * ?W) ?W) [0..<n]"
  let ?r = "(rows_new M R 16)\<lparr>rs_k := K, rs_v := map (\<lambda>s. field v (s * ?W) ?W) [0..<n]\<rparr>"
  let ?a = "mixed_from_full fo H D b ?r"
  have "rows_append fo ?W k v n (rows_new M R 16) = ?r" using rows_append_full[of "rows_new M R 16" fo ?W k v n] by (simp add: K_def rows_new_def)
  with qw_update_holds[OF new_holds[OF assms(1,2)], of n k v] assms(5-7) obtain c1 where c1: "qw_update fo k v n c = Ok c1" "holds fo H D M c1 ?r"
    by (auto simp: rows_new_def)
  from transition_holds[OF c1(2) _ M, of b] assms(8) b obtain c2 where c2: "transition_bits fo b c1 = Ok c2" "holds fo H D M c2 ?a"
    by (auto simp: rows_new_def)
  from qw_get_view_holds[OF c2(2)] obtain c' where run: "qw_run fo ?es c = Ok ([(length (rs_k ?a), concat (rs_k ?a), concat (rs_v ?a))], c')"
    using c1(1) c2(1) by auto
  let ?q = "n div QKKV * QKKV" let ?m = "n div QKKV"
  have q: "?q \<le> n" "2 \<le> ?m" using full_groups(1)[of n] assms(4) by (simp_all add: QKKV_def)
  have K: "length K = n" "length (take ?q K) = ?m * QKKV" "\<And>s. s < n \<Longrightarrow> length (K ! s) = ?W" "\<And>s. s < n \<Longrightarrow> K ! s = field k (s * ?W) ?W"
  proof -
    show "length (K ! s) = ?W" if "s < n" for s
    proof -
      have "s * ?W + ?W \<le> length k" using that assms(6) mult_le_mono1[of "Suc s" n ?W] by simp
      then show ?thesis using that by (simp add: K_def)
    qed
  qed (use q in \<open>simp_all add: K_def\<close>)
  let ?S = "shuffle H D (take ?q K)"
  have ka: "rs_k ?a = quant_keys fo b ?S @ drop ?q K" using K(1) by (simp add: mixed_from_full_def Let_def)
  have len: "length (rs_k ?a) = n" unfolding ka using q K(1) by simp
  have w: "\<forall>r \<in> set (rs_k ?a). length r = ?W" unfolding ka using width_quant_rows(1)[of ?S ?W _ fo b] shuffle_width[of _ H D "take ?q K"] K(1,3)
    by (auto simp: in_set_conv_nth)
  have tq: "t < ?q" "t < n" using assms(4,9) q by (simp_all add: QKKV_def)
  have j: "D + j < ?W" using mult_le_mono1[OF assms(3), of D] assms(10) by linarith
  have s: "?S ! s' ! (D + j) = k ! ((QKKV + s') * ?W + j)" if "s' < QKKV" for s'
  proof -
    have "?S ! (0 * QKKV + s') ! (1 * D + j) = take ?q K ! ((0 * H + 1) mod ?m * QKKV + s') ! ((0 * H + 1) div ?m * D + j)"
      by (rule shuffle_at[OF K(2)]) (use q that assms(3,10) in simp_all)
    moreover have "QKKV + s' < ?q" "QKKV + s' < n" using that q(1) mult_le_mono1[OF q(2), of QKKV] by linarith+
    moreover have "(QKKV + s') * ?W \<le> length k" using mult_le_mono1[of "QKKV + s'" n ?W] \<open>QKKV + s' < n\<close> assms(6) by linarith
    ultimately show ?thesis using q(2) j K(4)[of "QKKV + s'"] by simp
  qed
  have col: "map (\<lambda>x. ?S ! x ! (D + j)) [0..<QKKV] = map (\<lambda>s. k ! ((QKKV + s) * ?W + j)) [0..<QKKV]" using s by simp
  have "concat (rs_k ?a) ! (t * ?W + (D + j)) = rs_k ?a ! t ! (D + j)"
    by (rule concat_nth[OF w]) (use tq(2) len j in simp_all)
  also have "\<dots> = through fo b (map (\<lambda>x. ?S ! x ! (D + j)) [0..<QKKV]) ! t"
    unfolding ka using tq q K(1,2) j assms(9) shuffle_width[of "?S ! t" H D "take ?q K"] by (simp add: nth_append quant_keys_def)
  also have "\<dots> = through fo b (map (\<lambda>s. k ! ((QKKV + s) * ?W + j)) [0..<QKKV]) ! t" unfolding col ..
  finally show ?thesis using run unfolding len by (auto simp: add.assoc)
qed

text \<open>Keys that are 0 for the tokens 0 to 31 and 1 for the tokens 32 to 63: the view shows a 1 at token 0.\<close>

definition demo_keys :: "int list" where
  "demo_keys = replicate (32 * 64) 0 @ replicate (32 * 64) 1"

theorem transition_mixes_heads_witness:
  "\<exists>c ka va c'. qw_new_with_bits int_ops 2 32 64 32 16 = Ok c \<and> qw_run int_ops [Update demo_keys demo_keys 64, Bits 2, View] c = Ok ([(64, ka, va)], c')
    \<and> ka ! 32 = 1 \<and> demo_keys ! 32 = 0"
proof -
  obtain c where c: "qw_new_with_bits int_ops 2 32 64 32 16 = Ok c" by (simp add: qw_new_with_bits_def QKKV_def blocks_new_def Let_def)
  have l: "64 * (2 * 32) \<le> length demo_keys" by (simp add: demo_keys_def)
  have "map (\<lambda>s. demo_keys ! ((QKKV + s) * (2 * 32) + 0 * 32 + 0)) [0..<QKKV] = replicate QKKV 1"
    by (intro nth_equalityI) (simp_all add: demo_keys_def nth_append QKKV_def)
  moreover have "through int_ops 2 (replicate QKKV 1) ! 0 = 1"
    by code_simp
  ultimately show ?thesis
    using c transition_mixes_heads[OF c _ _ _ _ l l, of 2 0 0] by (auto simp: QKKV_def demo_keys_def nth_append)
qed

end
