(* ===== verification/Commands.thy ===== *)
theory Commands
  imports Keep_Compiler Kv_Cache
begin

text \<open>
  The messages exchanged with the manager process, the executor that queues and answers them
  (\<^verbatim>\<open>engine/src/resilience/executor.rs\<close>), and the adapter through which the decode loop polls it
  (\<^verbatim>\<open>engine/src/session/resilience_adapter.rs\<close>). The message types are those of the shared crate, with the variants and fields
  the engine matches on and builds. Text in a rejection is a value of \<open>reason\<close>. One reading of the clock stands for the
  readings of one operation; the smoothing of the time between tokens takes its float operations as arguments.
\<close>

section \<open>Messages\<close>

datatype engine_command = KvCompress f32 | Suspend | Resume | RestoreDefaults | GpuYield nat | GpuOffload bool

datatype reason = NoHandles | NoManager | BelowFloor nat nat | Declined | StoppedShort | NoPartition | PartitionFailed string | NotApplied | NoDispatcher

datatype command_result = Done | Partial f32 reason | Rejected reason

record directive =
  dv_seq_id :: u64
  dv_commands :: "engine_command list"

datatype engine_phase = PhaseIdle | PhasePrefill | PhaseDecode

datatype engine_state = StateIdle | StateRunning

record engine_status =
  st_cache_bytes :: nat
  st_budget_bytes :: nat
  st_tokens :: nat
  st_tbt_ms :: f32
  st_phase :: engine_phase
  st_state :: engine_state

datatype engine_message = Response u64 "command_result list" | Heartbeat engine_status

record kv_snapshot =
  sn_total_bytes :: nat
  sn_budget_bytes :: nat
  sn_total_tokens :: nat

section \<open>The executor\<close>

text \<open>\<open>ex_inbox\<close> is what \<open>try_recv\<close> will still find, \<open>ex_outbox\<close> everything sent, in order.\<close>

record executor =
  ex_inbox :: "directive list"
  ex_outbox :: "engine_message list"
  ex_engine_state :: engine_state
  ex_phase :: engine_phase
  ex_tbt_ms_ema :: f32
  ex_last_token_time :: "nat option"
  ex_last_heartbeat :: nat
  ex_heartbeat_interval :: nat
  ex_pending_responses :: "(u64 \<times> nat) list"

definition executor_new :: "nat \<Rightarrow> nat \<Rightarrow> executor" where
  "executor_new now interval = \<lparr>ex_inbox = [], ex_outbox = [], ex_engine_state = StateIdle, ex_phase = PhaseIdle, ex_tbt_ms_ema = 0,
     ex_last_token_time = None, ex_last_heartbeat = now, ex_heartbeat_interval = interval, ex_pending_responses = []\<rparr>"

definition on_token_generated :: "(nat \<Rightarrow> f32) \<Rightarrow> (f32 \<Rightarrow> f32 \<Rightarrow> f32) \<Rightarrow> nat \<Rightarrow> executor \<Rightarrow> executor" where
  "on_token_generated millis mix now ex =
     (let ex' = (case ex_last_token_time ex of
          None \<Rightarrow> ex
        | Some before \<Rightarrow>
            let elapsed_ms = millis (now - before) in
            if f32_partial_cmp elapsed_ms 0 = Some Greater
            then ex\<lparr>ex_tbt_ms_ema := (if f32_partial_cmp (ex_tbt_ms_ema ex) 0 = Some Equal then elapsed_ms else mix elapsed_ms (ex_tbt_ms_ema ex))\<rparr>
            else ex) in
      ex'\<lparr>ex_last_token_time := Some now\<rparr>)"

definition set_phase :: "engine_phase \<Rightarrow> engine_state \<Rightarrow> executor \<Rightarrow> executor" where
  "set_phase ph st ex = ex\<lparr>ex_phase := ph, ex_engine_state := st\<rparr>"

definition send_heartbeat :: "kv_snapshot \<Rightarrow> executor \<Rightarrow> executor" where
  "send_heartbeat snap ex = ex\<lparr>ex_outbox := ex_outbox ex @ [Heartbeat \<lparr>st_cache_bytes = sn_total_bytes snap, st_budget_bytes = sn_budget_bytes snap,
     st_tokens = sn_total_tokens snap, st_tbt_ms = ex_tbt_ms_ema ex, st_phase = ex_phase ex, st_state = ex_engine_state ex\<rparr>]\<rparr>"

definition send_heartbeat_now :: "nat \<Rightarrow> kv_snapshot \<Rightarrow> executor \<Rightarrow> executor" where
  "send_heartbeat_now now snap ex = (send_heartbeat snap ex)\<lparr>ex_last_heartbeat := now\<rparr>"

definition send_heartbeat_if_due :: "nat \<Rightarrow> kv_snapshot \<Rightarrow> executor \<Rightarrow> executor" where
  "send_heartbeat_if_due now snap ex =
     (if ex_heartbeat_interval ex \<le> now - ex_last_heartbeat ex then (send_heartbeat snap ex)\<lparr>ex_last_heartbeat := now\<rparr> else ex)"

fun drain_loop :: "directive list \<Rightarrow> engine_command list \<Rightarrow> (u64 \<times> nat) list \<Rightarrow> engine_command list \<times> (u64 \<times> nat) list" where
  "drain_loop [] commands pending = (commands, pending)"
| "drain_loop (d # ds) commands pending = drain_loop ds (commands @ dv_commands d) (pending @ [(dv_seq_id d, length (dv_commands d))])"

definition drain_commands :: "executor \<Rightarrow> engine_command list \<times> executor" where
  "drain_commands ex = (case drain_loop (ex_inbox ex) [] (ex_pending_responses ex) of (commands, pending) \<Rightarrow>
     (commands, ex\<lparr>ex_inbox := [], ex_pending_responses := pending\<rparr>))"

text \<open>\<open>it.next()\<close> for every command of the directive; a missing result is a rejection.\<close>

fun take_results :: "nat \<Rightarrow> command_result list \<Rightarrow> command_result list \<times> command_result list" where
  "take_results 0 it = ([], it)"
| "take_results (Suc n) it =
     (let (r, it') = (case it of [] \<Rightarrow> (Rejected NotApplied, []) | r # rs \<Rightarrow> (r, rs)); (batch, it'') = take_results n it' in (r # batch, it''))"

fun report_loop :: "(u64 \<times> nat) list \<Rightarrow> command_result list \<Rightarrow> engine_message list \<Rightarrow> engine_message list" where
  "report_loop [] it out = out"
| "report_loop ((seq, n) # pending) it out = (case take_results n it of (batch, it') \<Rightarrow> report_loop pending it' (out @ [Response seq batch]))"

definition report_results :: "command_result list \<Rightarrow> executor \<Rightarrow> executor" where
  "report_results results ex = ex\<lparr>ex_outbox := report_loop (ex_pending_responses ex) results (ex_outbox ex), ex_pending_responses := []\<rparr>"

section \<open>The adapter\<close>

definition layer_mean_resident :: "nat list \<Rightarrow> nat" where
  "layer_mean_resident per_layer = (if per_layer = [] then 0 else div_ceil (sum_list per_layer) (length per_layer))"

text \<open>A handle is the number of a layer; a read of a layer that is not there does not happen (handles are made from the caches).\<close>

record adapter =
  ad_executor :: executor
  ad_kv_handle :: "nat option"
  ad_kv_byte_handles :: "nat list"
  ad_kv_token_handles :: "nat list"
  ad_uncompressed_bytes_per_token :: nat

definition adapter_new :: "executor \<Rightarrow> adapter" where
  "adapter_new ex = \<lparr>ad_executor = ex, ad_kv_handle = None, ad_kv_byte_handles = [], ad_kv_token_handles = [], ad_uncompressed_bytes_per_token = 0\<rparr>"

definition set_handles :: "nat \<Rightarrow> nat \<Rightarrow> adapter \<Rightarrow> adapter" where
  "set_handles layers bytes_per_token ad = ad\<lparr>ad_kv_handle := Some 0, ad_kv_byte_handles := [0..<layers], ad_kv_token_handles := [0..<layers],
     ad_uncompressed_bytes_per_token := bytes_per_token\<rparr>"

definition u64_saturating_mul :: "nat \<Rightarrow> nat \<Rightarrow> nat" where
  "u64_saturating_mul a b = min (a * b) (2 ^ 64 - 1)"

definition resident_kv_bytes :: "'u kvcache list \<Rightarrow> adapter \<Rightarrow> nat" where
  "resident_kv_bytes cs ad = sum_list (map (\<lambda>i. memory_usage_bytes (cs ! i)) (ad_kv_byte_handles ad))"

definition build_kv_snapshot :: "'u kvcache list \<Rightarrow> adapter \<Rightarrow> kv_snapshot" where
  "build_kv_snapshot cs ad = (case ad_kv_handle ad of
     Some h \<Rightarrow> \<lparr>sn_total_bytes = resident_kv_bytes cs ad,
       sn_budget_bytes = u64_saturating_mul (capacity (cs ! h)) (ad_uncompressed_bytes_per_token ad),
       sn_total_tokens = (if ad_kv_token_handles ad = [] then resident_tokens (cs ! h)
         else layer_mean_resident (map (\<lambda>i. resident_tokens (cs ! i)) (ad_kv_token_handles ad)))\<rparr>
   | None \<Rightarrow> \<lparr>sn_total_bytes = 0, sn_budget_bytes = 0, sn_total_tokens = 0\<rparr>)"

definition with_executor :: "(executor \<Rightarrow> executor) \<Rightarrow> adapter \<Rightarrow> adapter" where
  "with_executor f ad = ad\<lparr>ad_executor := f (ad_executor ad)\<rparr>"

definition tick :: "(nat \<Rightarrow> f32) \<Rightarrow> (f32 \<Rightarrow> f32 \<Rightarrow> f32) \<Rightarrow> nat \<Rightarrow> adapter \<Rightarrow> adapter" where
  "tick millis mix now = with_executor (on_token_generated millis mix now)"

definition enter_prefill :: "nat \<Rightarrow> 'u kvcache list \<Rightarrow> adapter \<Rightarrow> adapter" where
  "enter_prefill now cs ad = with_executor (\<lambda>ex. send_heartbeat_now now (build_kv_snapshot cs ad) (set_phase PhasePrefill StateRunning ex)) ad"

definition prefill_chunk :: "nat \<Rightarrow> 'u kvcache list \<Rightarrow> adapter \<Rightarrow> adapter" where
  "prefill_chunk now cs ad = with_executor (send_heartbeat_if_due now (build_kv_snapshot cs ad)) ad"

definition leave_prefill :: "nat \<Rightarrow> 'u kvcache list \<Rightarrow> adapter \<Rightarrow> adapter" where
  "leave_prefill now cs ad = with_executor (send_heartbeat_now now (build_kv_snapshot cs ad)) ad"

definition adapter_poll :: "nat \<Rightarrow> 'u kvcache list \<Rightarrow> adapter \<Rightarrow> engine_command list \<times> adapter" where
  "adapter_poll now cs ad =
     (let ex = send_heartbeat_if_due now (build_kv_snapshot cs ad) (set_phase PhaseDecode StateRunning (ad_executor ad));
          (cmds, ex') = drain_commands ex in (cmds, ad\<lparr>ad_executor := ex'\<rparr>))"

definition adapter_report_results :: "command_result list \<Rightarrow> adapter \<Rightarrow> adapter" where
  "adapter_report_results results = with_executor (report_results results)"

section \<open>One response for every directive\<close>

text \<open>What a run of the adapter can see: a directive arrives, the loop polls or reports, a prefill passes, a token is sampled.\<close>

datatype 'u adapter_event = Arrive directive | Poll nat "'u kvcache list" | Report "command_result list"
  | EnterPrefill nat "'u kvcache list" | PrefillChunk nat "'u kvcache list" | LeavePrefill nat "'u kvcache list" | Tick nat

fun adapter_step :: "(nat \<Rightarrow> f32) \<Rightarrow> (f32 \<Rightarrow> f32 \<Rightarrow> f32) \<Rightarrow> 'u adapter_event \<Rightarrow> adapter \<Rightarrow> adapter" where
  "adapter_step millis mix (Arrive d) ad = with_executor (\<lambda>ex. ex\<lparr>ex_inbox := ex_inbox ex @ [d]\<rparr>) ad"
| "adapter_step millis mix (Poll now cs) ad = snd (adapter_poll now cs ad)"
| "adapter_step millis mix (Report rs) ad = adapter_report_results rs ad"
| "adapter_step millis mix (EnterPrefill now cs) ad = enter_prefill now cs ad"
| "adapter_step millis mix (PrefillChunk now cs) ad = prefill_chunk now cs ad"
| "adapter_step millis mix (LeavePrefill now cs) ad = leave_prefill now cs ad"
| "adapter_step millis mix (Tick now) ad = tick millis mix now ad"

fun arrivals :: "'u adapter_event list \<Rightarrow> directive list" where
  "arrivals [] = []"
| "arrivals (Arrive d # es) = d # arrivals es"
| "arrivals (_ # es) = arrivals es"

fun responses :: "engine_message list \<Rightarrow> (u64 \<times> command_result list) list" where
  "responses [] = []"
| "responses (Response s rs # ms) = (s, rs) # responses ms"
| "responses (Heartbeat st # ms) = responses ms"

definition owed :: "directive \<Rightarrow> u64 \<times> nat" where
  "owed d = (dv_seq_id d, length (dv_commands d))"

definition ledger :: "adapter \<Rightarrow> (u64 \<times> nat) list" where
  "ledger ad = (let ex = ad_executor ad in map (\<lambda>(s, rs). (s, length rs)) (responses (ex_outbox ex)) @ ex_pending_responses ex @ map owed (ex_inbox ex))"

lemma responses_append [simp]: "responses (a @ b) = responses a @ responses b"
  by (induction a rule: responses.induct) simp_all

lemma drain_loop_eq: "drain_loop ds cmds pending = (cmds @ concat (map dv_commands ds), pending @ map owed ds)"
  by (induction ds arbitrary: cmds pending) (simp_all add: owed_def)

lemma take_results_eq: "take_results n it = (take n it @ replicate (n - length it) (Rejected NotApplied), drop n it)"
proof (induction n arbitrary: it)
  case (Suc n)
  then show ?case by (cases it) (simp_all add: Suc.IH)
qed simp

lemma report_loop_responses: "map (\<lambda>(s, rs). (s, length rs)) (responses (report_loop pending it out)) = map (\<lambda>(s, rs). (s, length rs)) (responses out) @ pending"
proof (induction pending arbitrary: it out)
  case (Cons p pending)
  obtain s n where p: "p = (s, n)" by fastforce
  show ?case by (simp add: p take_results_eq Cons.IH)
qed simp

lemma send_heartbeat_ledger [simp]:
  "ledger (ad\<lparr>ad_executor := send_heartbeat snap ex\<rparr>) = ledger (ad\<lparr>ad_executor := ex\<rparr>)"
  by (simp add: ledger_def send_heartbeat_def)

lemma adapter_step_ledger: "ledger (adapter_step millis mix e ad) = ledger ad @ map owed (arrivals [e])"
  by (cases e) (auto simp: ledger_def with_executor_def adapter_poll_def drain_commands_def drain_loop_eq send_heartbeat_if_due_def send_heartbeat_now_def
      send_heartbeat_def set_phase_def adapter_report_results_def report_results_def report_loop_responses enter_prefill_def prefill_chunk_def
      leave_prefill_def tick_def on_token_generated_def Let_def split: option.split)

lemma arrivals_Cons: "arrivals (e # es) = arrivals [e] @ arrivals es"
  by (cases e) simp_all

text \<open>
  Every directive gets exactly one response. However arrivals, polls, reports, heartbeats and ticks interleave, and whatever the
  reported results are (too few, too many), the responses sent, the directives drained and not yet answered, and the ones still in the
  channel are together the directives that arrived, each once, in order, and every response has one result for each command.
\<close>

theorem one_response_per_directive:
  "ledger (fold (adapter_step millis mix) es (adapter_new (executor_new now interval))) = map owed (arrivals es)"
proof -
  have "ledger (fold (adapter_step millis mix) es ad) = ledger ad @ map owed (arrivals es)" for ad
  proof (induction es arbitrary: ad)
    case (Cons e es)
    show ?case using arrivals_Cons[of e es] by (simp add: Cons.IH adapter_step_ledger)
  qed simp
  moreover have "ledger (adapter_new (executor_new now interval)) = []" by (simp add: ledger_def adapter_new_def executor_new_def)
  ultimately show ?thesis by simp
qed

text \<open>A report with a result for every drained command hands the results out in order.\<close>

lemma report_loop_split:
  "sum_list (map snd pending) = length rs \<Longrightarrow> concat (map snd (responses (report_loop pending rs out))) = concat (map snd (responses out)) @ rs"
proof (induction pending arbitrary: rs out)
  case (Cons p pending)
  obtain s n where p: "p = (s, n)" by fastforce
  have "n \<le> length rs" using Cons.prems p by simp
  then show ?case using Cons.prems Cons.IH[of "drop n rs"] by (simp add: p take_results_eq)
qed simp

end
