(* ===== verification/Dispatcher.thy ===== *)
theory Dispatcher
  imports Commands Pipeline
begin

text \<open>
  The command dispatcher of the decode loop: \<^verbatim>\<open>engine/src/session/command_dispatcher.rs\<close>. It turns the commands of a
  step into one-shot stages and loop control, measures the uncompressed length of the context, and answers every command
  after the stages have run. The KV handles are read from the world; the stages it submits (a candidate
  pool, or the eviction stage of the cache manager) are given by their constructors; the \<open>f32\<close> arithmetic of the budget is the record
  \<open>compress_ops\<close>. The interval of the cooperative yield (\<^verbatim>\<open>engine/src/yield_policy.rs\<close>) is a cell of the process and kept here.
\<close>

section \<open>State\<close>

record compress_ops =
  co_scale :: "nat \<Rightarrow> f32 \<Rightarrow> nat"
  co_floor :: "nat \<Rightarrow> nat"
  co_ratio :: "nat \<Rightarrow> nat \<Rightarrow> f32"
  co_slack :: "f32 \<Rightarrow> nat \<Rightarrow> f32"

text \<open>\<open>total_cmp\<close>: the bits as a signed number, with the magnitude of negative ones inverted.\<close>

definition f32_total_key :: "f32 \<Rightarrow> int" where
  "f32_total_key x = (if uint x < 2147483648 then uint x else - (uint x - 2147483648) - 1)"

definition f32_le :: "f32 \<Rightarrow> f32 \<Rightarrow> bool" where
  "f32_le a b \<longleftrightarrow> f32_partial_cmp a b \<in> {Some Less, Some Equal}"

record loop_control =
  lc_suspended :: bool
  lc_resumed :: bool
  lc_restore_defaults :: bool

record pending_compress =
  pc_result_idx :: nat
  pc_budget :: f32
  pc_logical_len :: nat
  pc_tokens_before :: nat

text \<open>The switch of the tensor partition: the state the engine started in and the state last applied.\<close>

record tp_switch =
  tp_start_on :: bool
  tp_on :: bool

definition TpSwitch_new :: "bool \<Rightarrow> tp_switch" where
  "TpSwitch_new start_on = \<lparr>tp_start_on = start_on, tp_on = start_on\<rparr>"

text \<open>
  What the dispatcher is built with and never changes: its view of the KV handles, the constructors of the stages it submits,
  and the closure of the switch, which returns its error, if any, and what it did to the world.
\<close>

record ('s, 'u) dispatcher_config =
  cc_ops :: compress_ops
  cc_kv_handles :: "'s \<Rightarrow> 'u kvcache list"
  cc_cache_manager :: "(f32 \<Rightarrow> 's pipeline_stage) option"
  cc_aperturb :: "(nat \<Rightarrow> 's pipeline_stage) option"
  cc_tp_apply :: "bool \<Rightarrow> 's \<Rightarrow> string option \<times> 's"
  cc_yield_seed :: nat

record dispatcher =
  cd_control :: loop_control
  cd_last_evict_ratio :: "f32 option"
  cd_logical_len :: nat
  cd_last_seen_pos :: nat
  cd_last_results :: "command_result list"
  cd_pending_compress :: "pending_compress option"
  cd_result_idx :: nat
  cd_tp_switch :: "tp_switch option"
  cd_tp_target :: "(bool \<times> nat option) option"
  cd_yield_every :: nat

definition LoopControl_default :: loop_control where
  "LoopControl_default = \<lparr>lc_suspended = False, lc_resumed = False, lc_restore_defaults = False\<rparr>"

definition dispatcher_new :: "('s, 'u) dispatcher_config \<Rightarrow> dispatcher" where
  "dispatcher_new cc = \<lparr>cd_control = LoopControl_default, cd_last_evict_ratio = None, cd_logical_len = 0,
     cd_last_seen_pos = 0, cd_last_results = [], cd_pending_compress = None, cd_result_idx = 0, cd_tp_switch = None, cd_tp_target = None,
     cd_yield_every = cc_yield_seed cc\<rparr>"

definition with_tp_switch :: "tp_switch \<Rightarrow> dispatcher \<Rightarrow> dispatcher" where
  "with_tp_switch sw d = d\<lparr>cd_tp_switch := Some sw\<rparr>"

section \<open>The length of the context\<close>

definition observe_context :: "('s, 'u) dispatcher_config \<Rightarrow> 's \<Rightarrow> dispatcher \<Rightarrow> dispatcher" where
  "observe_context cc w d = (case cc_kv_handles cc w of
     [] \<Rightarrow> d
   | h # _ \<Rightarrow> d\<lparr>cd_logical_len := (if current_pos h = 0 then 0 else cd_logical_len d + (current_pos h - cd_last_seen_pos d)), cd_last_seen_pos := current_pos h\<rparr>)"

definition resident_of :: "('s, 'u) dispatcher_config \<Rightarrow> 's \<Rightarrow> nat" where
  "resident_of cc w = layer_mean_resident (map resident_tokens (cc_kv_handles cc w))"

section \<open>Compression\<close>

definition KV_COMPRESS_MIN_TOKENS :: nat where
  "KV_COMPRESS_MIN_TOKENS = 128"

definition compress_target_len :: "compress_ops \<Rightarrow> nat \<Rightarrow> f32 \<Rightarrow> nat" where
  "compress_target_len co logical_len budget = max (max (co_scale co logical_len budget) (min KV_COMPRESS_MIN_TOKENS logical_len)) 1"

definition can_compress :: "('s, 'u) dispatcher_config \<Rightarrow> 's \<Rightarrow> bool" where
  "can_compress cc w \<longleftrightarrow> cc_kv_handles cc w \<noteq> [] \<and> (cc_aperturb cc \<noteq> None \<or> cc_cache_manager cc \<noteq> None)"

definition submit_compress :: "('s, 'u) dispatcher_config \<Rightarrow> f32 \<Rightarrow> 's \<Rightarrow> dispatcher \<times> 's registry \<Rightarrow> command_result \<times> dispatcher \<times> 's registry" where
  "submit_compress cc budget w = (\<lambda>(d, reg).
     if cc_kv_handles cc w = [] then (Rejected NoHandles, d, reg)
     else
       let resident = resident_of cc w; target_len = compress_target_len (cc_ops cc) (cd_logical_len d) budget in
       if target_len \<ge> resident then (Done, d\<lparr>cd_last_evict_ratio := Some budget\<rparr>, reg)
       else if resident - target_len < co_floor (cc_ops cc) resident
       then (Partial (if cd_logical_len d = 0 then 0 else co_ratio (cc_ops cc) resident (cd_logical_len d)) (BelowFloor target_len resident), d, reg)
       else
         let stage = (case cc_aperturb cc of
               Some sel \<Rightarrow> Some (sel target_len)
             | None \<Rightarrow> (case cc_cache_manager cc of None \<Rightarrow> None | Some cm \<Rightarrow> Some (cm (co_ratio (cc_ops cc) target_len resident)))) in
         case stage of
           None \<Rightarrow> (Rejected NoManager, d, reg)
         | Some st \<Rightarrow> (Done, d\<lparr>cd_last_evict_ratio := Some budget, cd_pending_compress := Some \<lparr>pc_result_idx = cd_result_idx d, pc_budget = budget,
               pc_logical_len = cd_logical_len d, pc_tokens_before = resident\<rparr>\<rparr>, submit st reg))"

definition apply_command :: "('s, 'u) dispatcher_config \<Rightarrow> engine_command \<Rightarrow> 's \<Rightarrow> dispatcher \<times> 's registry \<Rightarrow> command_result \<times> dispatcher \<times> 's registry" where
  "apply_command cc cmd w = (\<lambda>(d, reg). case cmd of
     KvCompress budget \<Rightarrow> submit_compress cc budget w (d, reg)
   | Suspend \<Rightarrow> (Done, d\<lparr>cd_control := (cd_control d)\<lparr>lc_suspended := True\<rparr>\<rparr>, reg)
   | Resume \<Rightarrow> (Done, d\<lparr>cd_control := (cd_control d)\<lparr>lc_resumed := True\<rparr>\<rparr>, reg)
   | RestoreDefaults \<Rightarrow>
       let d1 = d\<lparr>cd_control := (cd_control d)\<lparr>lc_restore_defaults := True\<rparr>, cd_last_evict_ratio := None, cd_yield_every := cc_yield_seed cc\<rparr> in
       (Done, (case cd_tp_switch d of Some sw \<Rightarrow> d1\<lparr>cd_tp_target := Some (tp_start_on sw, None)\<rparr> | None \<Rightarrow> d1), reg)
   | GpuYield every \<Rightarrow> (Done, d\<lparr>cd_yield_every := every\<rparr>, reg)
   | GpuOffload on \<Rightarrow>
       if cd_tp_switch d = None then (Rejected NoPartition, d, reg)
       else (Done, d\<lparr>cd_tp_target := Some (on, Some (cd_result_idx d))\<rparr>, reg))"

section \<open>Folding the compressions of a step\<close>

fun choose_tightest :: "(nat \<times> f32) list \<Rightarrow> nat \<times> f32 \<Rightarrow> nat \<times> f32" where
  "choose_tightest [] best = best"
| "choose_tightest ((idx, budget) # rest) best = choose_tightest rest (if f32_total_key budget \<le> f32_total_key (snd best) then (idx, budget) else best)"

definition compress_indices :: "engine_command list \<Rightarrow> nat list \<Rightarrow> (nat \<times> f32) list" where
  "compress_indices cmds seg = List.map_filter (\<lambda>idx. case cmds ! idx of KvCompress budget \<Rightarrow> Some (idx, budget) | _ \<Rightarrow> None) seg"

definition fold_segment :: "engine_command list \<Rightarrow> nat list \<Rightarrow> bool list \<Rightarrow> bool list" where
  "fold_segment cmds seg is_folded =
     (case compress_indices cmds seg of
        first # second # rest \<Rightarrow>
          let chosen = fst (choose_tightest (second # rest) first) in
          fold (\<lambda>(idx, _) fl. if idx \<noteq> chosen then fl[idx := True] else fl) (first # second # rest) is_folded
      | _ \<Rightarrow> is_folded)"

definition folded_flags :: "engine_command list \<Rightarrow> bool list" where
  "folded_flags cmds = snd (fold (\<lambda>i (seg_start, fl).
       if i = length cmds \<or> cmds ! i = RestoreDefaults then (i + 1, fold_segment cmds [seg_start..<i] fl) else (seg_start, fl))
     [0..<length cmds + 1] (0, replicate (length cmds) False))"

section \<open>A step\<close>

definition set_result :: "nat \<Rightarrow> command_result \<Rightarrow> dispatcher \<Rightarrow> ('e, dispatcher) result" where
  "set_result i r d = (if i < length (cd_last_results d) then Ok (d\<lparr>cd_last_results := (cd_last_results d)[i := r]\<rparr>) else Panic)"

definition apply_tp_target :: "('s, 'u) dispatcher_config \<Rightarrow> dispatcher \<times> 's \<Rightarrow> ('e, dispatcher \<times> 's) result" where
  "apply_tp_target cc = (\<lambda>(d, w). case (cd_tp_target d, cd_tp_switch d) of
     (Some (want, idx), Some sw) \<Rightarrow>
       let d = d\<lparr>cd_tp_target := None\<rparr> in
       if want = tp_on sw then Ok (d, w)
       else (case cc_tp_apply cc want w of
           (None, w') \<Rightarrow> Ok (d\<lparr>cd_tp_switch := Some (sw\<lparr>tp_on := want\<rparr>)\<rparr>, w')
         | (Some e, w') \<Rightarrow>
             let d = d\<lparr>cd_tp_switch := Some (sw\<lparr>tp_on := False\<rparr>)\<rparr> in
             (case idx of None \<Rightarrow> Ok (d, w') | Some i \<Rightarrow> and_then (set_result i (Rejected (PartitionFailed e)) d) (\<lambda>d. Ok (d, w'))))
   | _ \<Rightarrow> Ok (d\<lparr>cd_tp_target := None\<rparr>, w))"

fun apply_all :: "('s, 'u) dispatcher_config \<Rightarrow> (bool \<times> engine_command) list \<Rightarrow> 's \<Rightarrow> dispatcher \<times> 's registry \<Rightarrow> dispatcher \<times> 's registry" where
  "apply_all cc [] w s = s"
| "apply_all cc ((folded, cmd) # rest) w (d, reg) =
     (let d0 = d\<lparr>cd_result_idx := length (cd_last_results d)\<rparr>;
          (r, d1, reg1) = (if folded then (Done, d0, reg) else apply_command cc cmd w (d0, reg)) in
      apply_all cc rest w (d1\<lparr>cd_last_results := cd_last_results d1 @ [r]\<rparr>, reg1))"

definition cd_dispatch :: "('s, 'u) dispatcher_config \<Rightarrow> engine_command list \<Rightarrow> dispatcher \<times> 's registry \<times> 's
    \<Rightarrow> ('e, dispatcher \<times> 's registry \<times> 's) result" where
  "cd_dispatch cc cmds = (\<lambda>(d, reg, w).
     let d1 = (observe_context cc w d)\<lparr>cd_control := LoopControl_default\<rparr>;
         is_folded = (if can_compress cc w then folded_flags cmds else replicate (length cmds) False);
         d2 = d1\<lparr>cd_last_results := [], cd_pending_compress := None, cd_tp_target := None\<rparr>;
         (d3, reg') = apply_all cc (zip is_folded cmds) w (d2, reg) in
     and_then (apply_tp_target cc (d3, w)) (\<lambda>(d4, w'). Ok (d4, reg', w')))"

definition compress_outcome :: "('s, 'u) dispatcher_config \<Rightarrow> 's \<Rightarrow> pending_compress \<Rightarrow> command_result option" where
  "compress_outcome cc w p =
     (if cc_kv_handles cc w = [] then None
      else if pc_logical_len p = 0 then None
      else
        let after = resident_of cc w; achieved = co_ratio (cc_ops cc) after (pc_logical_len p) in
        if f32_le achieved (co_slack (cc_ops cc) (pc_budget p) (pc_logical_len p)) then Some Done
        else Some (Partial achieved (if after = pc_tokens_before p then Declined else StoppedShort)))"

definition finalize_results :: "('s, 'u) dispatcher_config \<Rightarrow> 's \<Rightarrow> dispatcher \<Rightarrow> ('e, command_result list \<times> dispatcher) result" where
  "finalize_results cc w d =
     and_then (case cd_pending_compress d of
         None \<Rightarrow> Ok d
       | Some p \<Rightarrow> (case compress_outcome cc w p of
           None \<Rightarrow> Ok (d\<lparr>cd_pending_compress := None\<rparr>)
         | Some r \<Rightarrow> set_result (pc_result_idx p) r (d\<lparr>cd_pending_compress := None\<rparr>))) (\<lambda>d1.
     let d2 = observe_context cc w d1 in Ok (cd_last_results d2, d2\<lparr>cd_last_results := []\<rparr>))"

end
