(* ===== verification/Dispatcher_Props.thy ===== *)
theory Dispatcher_Props
  imports Dispatcher
begin

text \<open>
  What the dispatcher promises: which compressions of a step are folded, what it submits, one answer for each
  command, and a context length that compactions do not change.
\<close>

section \<open>The tightest budget of a window\<close>

text \<open>The order in which one compression of a window supersedes another: the smaller budget, and of equal ones the later.\<close>

definition beats :: "nat \<times> f32 \<Rightarrow> nat \<times> f32 \<Rightarrow> bool" where
  "beats a b \<longleftrightarrow> f32_total_key (snd a) < f32_total_key (snd b) \<or> f32_total_key (snd a) = f32_total_key (snd b) \<and> fst b < fst a"

definition same_window :: "engine_command list \<Rightarrow> nat \<Rightarrow> nat \<Rightarrow> bool" where
  "same_window cmds i j \<longleftrightarrow> RestoreDefaults \<notin> set (drop (min i j) (take (max i j) cmds))"

definition superseded :: "engine_command list \<Rightarrow> nat \<Rightarrow> bool" where
  "superseded cmds i \<longleftrightarrow> (\<exists>b j c. cmds ! i = KvCompress b \<and> j < length cmds \<and> cmds ! j = KvCompress c \<and> same_window cmds i j \<and> beats (j, c) (i, b))"

lemma same_window_iff: "max i j \<le> length cmds \<Longrightarrow> same_window cmds i j \<longleftrightarrow> (\<forall>m. min i j \<le> m \<longrightarrow> m < max i j \<longrightarrow> cmds ! m \<noteq> RestoreDefaults)"
  by (auto simp: same_window_def in_set_conv_nth) (metis add_diff_inverse_nat diff_less_mono leD le_add1 min_def)

lemma beats_trans: "beats a b \<Longrightarrow> beats b c \<Longrightarrow> beats a c"
  by (auto simp: beats_def)

lemma choose_tightest_mem: "choose_tightest xs best \<in> insert best (set xs)"
  by (induction xs best rule: choose_tightest.induct) auto

lemma choose_tightest_best:
  assumes "sorted_wrt (\<lambda>a b. fst a < fst b) (best # xs)"
  shows "\<forall>y \<in> insert best (set xs). y = choose_tightest xs best \<or> beats (choose_tightest xs best) y"
  using assms
proof (induction xs best rule: choose_tightest.induct)
  case (2 idx budget rest best)
  let ?n = "if f32_total_key budget \<le> f32_total_key (snd best) then (idx, budget) else best"
  have "sorted_wrt (\<lambda>a b. fst a < fst b) (?n # rest)" using "2.prems" by auto
  note IH = "2.IH"[OF this]
  have lt: "fst best < idx" using "2.prems" by simp
  have "beats ?n best \<or> ?n = best" "beats ?n (idx, budget) \<or> ?n = (idx, budget)" using lt by (auto simp: beats_def)
  moreover have "?n = choose_tightest rest ?n \<or> beats (choose_tightest rest ?n) ?n" using IH by blast
  ultimately have "best = choose_tightest rest ?n \<or> beats (choose_tightest rest ?n) best"
      "(idx, budget) = choose_tightest rest ?n \<or> beats (choose_tightest rest ?n) (idx, budget)"
    using beats_trans[of "choose_tightest rest ?n" ?n best] beats_trans[of "choose_tightest rest ?n" ?n "(idx, budget)"] by auto
  with IH show ?case unfolding choose_tightest.simps by auto
qed auto

definition tightest :: "(nat \<times> f32) list \<Rightarrow> nat" where
  "tightest cs = fst (choose_tightest (tl cs) (hd cs))"

lemma fold_marks:
  "length (fold (\<lambda>(idx, _) fl. if idx \<noteq> ch then fl[idx := True] else fl) cs fl) = length fl"
  "i < length fl \<Longrightarrow> fold (\<lambda>(idx, _) fl. if idx \<noteq> ch then fl[idx := True] else fl) cs fl ! i \<longleftrightarrow> fl ! i \<or> i \<in> fst ` set cs \<and> i \<noteq> ch"
proof (induction cs arbitrary: fl)
  case (Cons c cs)
  obtain idx b where c: "c = (idx, b)" by fastforce
  { case 1 show ?case by (simp add: c Cons.IH(1)) }
  { case 2 then show ?case using Cons.IH(2)[of "fl[idx := True]"] Cons.IH(2)[of fl] by (cases "idx = ch"; cases "i = idx") (auto simp: c nth_list_update) }
qed simp_all

lemma fold_segment_marks:
  "fold_segment cmds seg fl = fold (\<lambda>(idx, _) fl. if idx \<noteq> tightest (compress_indices cmds seg) then fl[idx := True] else fl) (compress_indices cmds seg) fl"
  by (auto simp: fold_segment_def tightest_def Let_def split: list.split)

lemma fold_segment_nth:
  "length (fold_segment cmds seg fl) = length fl"
  "i < length fl \<Longrightarrow> fold_segment cmds seg fl ! i \<longleftrightarrow> fl ! i \<or> i \<in> fst ` set (compress_indices cmds seg) \<and> i \<noteq> tightest (compress_indices cmds seg)"
  by (simp_all only: fold_segment_marks fold_marks)

lemma compress_indices_mem: "(i, b) \<in> set (compress_indices cmds seg) \<longleftrightarrow> i \<in> set seg \<and> cmds ! i = KvCompress b"
  by (auto simp: compress_indices_def List.map_filter_def split: engine_command.splits) force

lemma compress_indices_sorted: "sorted_wrt (<) seg \<Longrightarrow> sorted_wrt (\<lambda>a b. fst a < fst b) (compress_indices cmds seg)"
proof (induction seg)
  case (Cons i seg)
  have "\<forall>y \<in> set (compress_indices cmds seg). i < fst y" using Cons.prems by (auto simp: compress_indices_mem)
  with Cons show ?case by (auto simp: compress_indices_def List.map_filter_simps split: engine_command.split)
qed (simp add: compress_indices_def List.map_filter_simps)

text \<open>Within one segment, a compression is not the chosen one exactly when another one beats it.\<close>

lemma not_tightest:
  assumes "sorted_wrt (<) seg" "(i, b) \<in> set (compress_indices cmds seg)"
  shows "i \<noteq> tightest (compress_indices cmds seg) \<longleftrightarrow> (\<exists>j c. (j, c) \<in> set (compress_indices cmds seg) \<and> beats (j, c) (i, b))"
proof -
  let ?cs = "compress_indices cmds seg" let ?t = "choose_tightest (tl ?cs) (hd ?cs)"
  have ne: "?cs = hd ?cs # tl ?cs" using assms(2) by (cases ?cs) auto
  have all: "\<forall>y \<in> set ?cs. y = ?t \<or> beats ?t y"
    using choose_tightest_best[of "hd ?cs" "tl ?cs"] compress_indices_sorted[OF assms(1), of cmds] ne by (metis list.simps(15))
  have mem: "?t \<in> set ?cs" using choose_tightest_mem[of "tl ?cs" "hd ?cs"] ne by (metis list.simps(15))
  have asym: "beats x y \<Longrightarrow> \<not> beats y x" for x y by (auto simp: beats_def)
  have uniq: "fst ?t = i \<Longrightarrow> ?t = (i, b)" using mem assms(2) compress_indices_mem[of _ _ cmds seg] by (metis engine_command.inject(1) prod.collapse)
  show ?thesis
  proof
    assume "i \<noteq> tightest ?cs"
    then have "(i, b) \<noteq> ?t" by (metis fst_conv tightest_def)
    then have "beats ?t (i, b)" using all assms(2) by blast
    then show "\<exists>j c. (j, c) \<in> set ?cs \<and> beats (j, c) (i, b)" using mem by (metis prod.collapse)
  next
    assume "\<exists>j c. (j, c) \<in> set ?cs \<and> beats (j, c) (i, b)"
    then obtain y where "y \<in> set ?cs" "beats y (i, b)" by blast
    then have "?t \<noteq> (i, b)" using all asym[of y "(i, b)"] by metis
    then show "i \<noteq> tightest ?cs" using uniq by (auto simp: tightest_def)
  qed
qed

lemma folded_flags_loop:
  assumes "k \<le> length cmds + 1"
  shows "case fold (\<lambda>i (seg_start, fl). if i = length cmds \<or> cmds ! i = RestoreDefaults then (i + 1, fold_segment cmds [seg_start..<i] fl) else (seg_start, fl))
       [0..<k] (0, replicate (length cmds) False) of (s, fl) \<Rightarrow>
     length fl = length cmds \<and> s \<le> k \<and> (s = 0 \<or> s = length cmds + 1 \<or> cmds ! (s - 1) = RestoreDefaults)
     \<and> (\<forall>m. s \<le> m \<longrightarrow> m < k \<longrightarrow> m < length cmds \<and> cmds ! m \<noteq> RestoreDefaults) \<and> (\<forall>i < length cmds. fl ! i \<longleftrightarrow> i < s \<and> superseded cmds i)"
  using assms
proof (induction k)
  case (Suc k)
  let ?n = "length cmds"
  obtain s fl where st: "fold (\<lambda>i (seg_start, fl). if i = length cmds \<or> cmds ! i = RestoreDefaults then (i + 1, fold_segment cmds [seg_start..<i] fl) else (seg_start, fl))
       [0..<k] (0, replicate (length cmds) False) = (s, fl)" by fastforce
  have I: "length fl = ?n" "s \<le> k" "s = 0 \<or> s = ?n + 1 \<or> cmds ! (s - 1) = RestoreDefaults"
      "\<And>m. s \<le> m \<Longrightarrow> m < k \<Longrightarrow> m < ?n \<and> cmds ! m \<noteq> RestoreDefaults" "\<And>i. i < ?n \<Longrightarrow> fl ! i \<longleftrightarrow> i < s \<and> superseded cmds i"
    using Suc.IH Suc.prems unfolding st by auto
  have k: "k \<le> ?n" using Suc.prems by simp
  show ?case
  proof (cases "k = ?n \<or> cmds ! k = RestoreDefaults")
    case bound: True
    have seg: "fold_segment cmds [s..<k] fl ! i \<longleftrightarrow> i < k + 1 \<and> superseded cmds i" if i: "i < ?n" for i
    proof (cases "s \<le> i \<and> i < k")
      case False
      have "\<not> superseded cmds i" if "i = k" using that bound i by (auto simp: superseded_def)
      moreover have "i \<notin> fst ` set (compress_indices cmds [s..<k])" using False by (auto simp: compress_indices_mem)
      ultimately show ?thesis using False i I(1,2,5) by (auto simp: fold_segment_nth less_Suc_eq)
    next
      case inside: True
      show ?thesis
      proof (cases "\<exists>b. cmds ! i = KvCompress b")
        case False
        then show ?thesis using i inside I by (auto simp: fold_segment_nth compress_indices_mem superseded_def)
      next
        case True
        then obtain b where b: "cmds ! i = KvCompress b" by blast
        have win: "same_window cmds i j \<longleftrightarrow> s \<le> j \<and> j < k" if "j < ?n" "cmds ! j = KvCompress c" for j c
        proof
          assume w: "same_window cmds i j"
          have w: "min i j \<le> m \<Longrightarrow> m < max i j \<Longrightarrow> cmds ! m \<noteq> RestoreDefaults" for m
            using w same_window_iff[of i j cmds] i that(1) by auto
          have "s \<le> j"
          proof (rule ccontr)
            assume "\<not> s \<le> j"
            then have "cmds ! (s - 1) = RestoreDefaults" "j \<le> s - 1" "s - 1 < i" using I(3) inside k by auto
            then show False using w[of "s - 1"] by auto
          qed
          moreover have "j < k"
          proof (rule ccontr)
            assume "\<not> j < k"
            then have "cmds ! k = RestoreDefaults" "k \<noteq> j" using bound that k by auto
            then show False using w[of k] \<open>\<not> j < k\<close> inside by auto
          qed
          ultimately show "s \<le> j \<and> j < k" by simp
        next
          assume "s \<le> j \<and> j < k"
          then show "same_window cmds i j" using I(4) inside that k by (subst same_window_iff) auto
        qed
        have "i \<noteq> tightest (compress_indices cmds [s..<k]) \<longleftrightarrow> superseded cmds i"
          using not_tightest[of "[s..<k]" i b cmds] inside b win k unfolding superseded_def compress_indices_mem
          by (auto simp: strict_sorted_iff) (metis order_less_le_trans)+
        moreover have "i \<in> fst ` set (compress_indices cmds [s..<k])" using inside b compress_indices_mem[of i b cmds "[s..<k]"] by force
        ultimately show ?thesis using i inside I(1,5) by (simp add: fold_segment_nth)
      qed
    qed
    then show ?thesis using bound I st k by (auto simp: fold_segment_nth)
  next
    case False
    then show ?thesis using I st k by (auto simp: less_Suc_eq)
  qed
qed simp

lemma folded_flags_spec: "length (folded_flags cmds) = length cmds" "i < length cmds \<Longrightarrow> folded_flags cmds ! i \<longleftrightarrow> superseded cmds i"
  using folded_flags_loop[of "length cmds + 1" cmds] unfolding folded_flags_def by (auto split: prod.splits)

lemma folded_flags_eq: "folded_flags cmds = map (superseded cmds) [0..<length cmds]"
  by (intro nth_equalityI) (simp_all add: folded_flags_spec)

section \<open>What a step submits\<close>

text \<open>The stage a budget leads to, if the cache is outside it by enough and there is something to compress with.\<close>

definition stage_for :: "('s, 'u) dispatcher_config \<Rightarrow> 's \<Rightarrow> nat \<Rightarrow> f32 \<Rightarrow> 's pipeline_stage option" where
  "stage_for cc w len b =
     (let resident = resident_of cc w; target = compress_target_len (cc_ops cc) len b in
      if cc_kv_handles cc w = [] \<or> resident \<le> target \<or> resident - target < co_floor (cc_ops cc) resident then None
      else (case cc_aperturb cc of Some sel \<Rightarrow> Some (sel target) | None \<Rightarrow> map_option (\<lambda>cm. cm (co_ratio (cc_ops cc) target resident)) (cc_cache_manager cc)))"

definition budgets :: "(bool \<times> engine_command) list \<Rightarrow> f32 list" where
  "budgets zs = List.map_filter (\<lambda>(folded, c). case c of KvCompress b \<Rightarrow> if folded then None else Some b | _ \<Rightarrow> None) zs"

definition acting :: "engine_command list \<Rightarrow> f32 list" where
  "acting cmds = budgets (zip (map (superseded cmds) [0..<length cmds]) cmds)"

lemma stage_for_can: "stage_for cc w len b = Some st \<Longrightarrow> can_compress cc w"
  by (auto simp: stage_for_def can_compress_def Let_def split: if_splits option.splits)

text \<open>The answers that a later part of the step may still replace are answers of this step.\<close>

definition answers_ok :: "nat \<Rightarrow> dispatcher \<Rightarrow> bool" where
  "answers_ok n d \<longleftrightarrow> (\<forall>p. cd_pending_compress d = Some p \<longrightarrow> pc_result_idx p < n) \<and> (\<forall>t i. cd_tp_target d = Some (t, Some i) \<longrightarrow> i < n)"

lemma answers_ok_mono: "answers_ok n d \<Longrightarrow> n \<le> m \<Longrightarrow> answers_ok m d"
  by (fastforce simp: answers_ok_def)

lemma submit_compress_effect:
  assumes "submit_compress cc b w (d, reg) = (r, d', reg')"
  shows "reg' = (case stage_for cc w (cd_logical_len d) b of None \<Rightarrow> reg | Some st \<Rightarrow> submit st reg)"
    and "cd_logical_len d' = cd_logical_len d" "cd_last_seen_pos d' = cd_last_seen_pos d" "cd_last_results d' = cd_last_results d"
    and "answers_ok n d \<Longrightarrow> cd_result_idx d < n \<Longrightarrow> answers_ok n d'"
  using assms by (auto simp: submit_compress_def stage_for_def answers_ok_def Let_def split: if_splits option.splits)

lemma submit_compress_stage:
  assumes "stage_for cc w len b = Some st" "cd_logical_len d = len"
  shows "submit_compress cc b w (d, reg) = (Done, d\<lparr>cd_last_evict_ratio := Some b, cd_pending_compress := Some \<lparr>pc_result_idx = cd_result_idx d,
    pc_budget = b, pc_logical_len = len, pc_tokens_before = resident_of cc w\<rparr>\<rparr>, submit st reg)"
  using assms by (auto simp: stage_for_def submit_compress_def Let_def split: if_splits option.splits)

lemma apply_command_effect:
  assumes "apply_command cc cmd w (d, reg) = (r, d', reg')"
  shows "reg' = fold submit (List.map_filter (stage_for cc w (cd_logical_len d)) (budgets [(False, cmd)])) reg"
    and "cd_logical_len d' = cd_logical_len d" "cd_last_seen_pos d' = cd_last_seen_pos d" "cd_last_results d' = cd_last_results d"
    and "answers_ok n d \<Longrightarrow> cd_result_idx d < n \<Longrightarrow> answers_ok n d'"
proof -
  have "reg' = fold submit (List.map_filter (stage_for cc w (cd_logical_len d)) (budgets [(False, cmd)])) reg
    \<and> cd_logical_len d' = cd_logical_len d \<and> cd_last_seen_pos d' = cd_last_seen_pos d \<and> cd_last_results d' = cd_last_results d
    \<and> (\<forall>n. answers_ok n d \<longrightarrow> cd_result_idx d < n \<longrightarrow> answers_ok n d')"
  proof (cases cmd)
    case (KvCompress b)
    then show ?thesis using assms submit_compress_effect[of cc b w d reg r d' reg']
      by (auto simp: apply_command_def budgets_def List.map_filter_simps split: option.split)
  qed (use assms in \<open>auto simp: apply_command_def budgets_def List.map_filter_simps answers_ok_def Let_def split: if_splits option.splits\<close>)
  then show "reg' = fold submit (List.map_filter (stage_for cc w (cd_logical_len d)) (budgets [(False, cmd)])) reg"
    "cd_logical_len d' = cd_logical_len d" "cd_last_seen_pos d' = cd_last_seen_pos d" "cd_last_results d' = cd_last_results d"
    "answers_ok n d \<Longrightarrow> cd_result_idx d < n \<Longrightarrow> answers_ok n d'" by blast+
qed

lemma budgets_Cons: "budgets (z # zs) = budgets [z] @ budgets zs"
  by (cases z; cases "snd z") (auto simp: budgets_def List.map_filter_simps)

lemma map_filter_append: "List.map_filter f (xs @ ys) = List.map_filter f xs @ List.map_filter f ys"
  by (simp add: List.map_filter_def)

lemma apply_all_effect:
  assumes "answers_ok (length (cd_last_results d)) d"
  shows "case apply_all cc zs w (d, reg) of (d', reg') \<Rightarrow>
    reg' = fold submit (List.map_filter (stage_for cc w (cd_logical_len d)) (budgets zs)) reg \<and> cd_logical_len d' = cd_logical_len d
    \<and> cd_last_seen_pos d' = cd_last_seen_pos d \<and> length (cd_last_results d') = length (cd_last_results d) + length zs \<and> answers_ok (length (cd_last_results d')) d'"
  using assms
proof (induction zs arbitrary: d reg)
  case Nil
  then show ?case by (simp add: budgets_def List.map_filter_simps)
next
  case (Cons z zs)
  obtain f c where z: "z = (f, c)" by fastforce
  let ?d = "d\<lparr>cd_result_idx := length (cd_last_results d)\<rparr>"
  obtain r d1 reg1 where s: "(if f then (Done, ?d, reg) else apply_command cc c w (?d, reg)) = (r, d1, reg1)" by (metis prod_cases3)
  have e: "reg1 = fold submit (List.map_filter (stage_for cc w (cd_logical_len d)) (budgets [z])) reg \<and> cd_logical_len d1 = cd_logical_len d
      \<and> cd_last_seen_pos d1 = cd_last_seen_pos d \<and> cd_last_results d1 = cd_last_results d \<and> answers_ok (length (cd_last_results d) + 1) d1"
  proof (cases f)
    case True
    then show ?thesis using s z Cons.prems by (auto simp: budgets_def List.map_filter_simps answers_ok_def less_Suc_eq split: engine_command.split)
  next
    case False
    have "answers_ok (length (cd_last_results d) + 1) ?d" using Cons.prems by (auto simp: answers_ok_def less_Suc_eq)
    then show ?thesis using s z False apply_command_effect[of cc c w ?d reg r d1 reg1] by auto
  qed
  let ?d1 = "d1\<lparr>cd_last_results := cd_last_results d1 @ [r]\<rparr>"
  have "answers_ok (length (cd_last_results ?d1)) ?d1" using e by (simp add: answers_ok_def)
  note IH = Cons.IH[OF this, of reg1]
  have "apply_all cc (z # zs) w (d, reg) = apply_all cc zs w (?d1, reg1)" using s z by (simp add: Let_def)
  then show ?case using IH e unfolding budgets_Cons[of z zs] map_filter_append by (auto simp: Let_def)
qed

lemma observe_context_keeps [simp]:
  "cd_last_results (observe_context cc w d) = cd_last_results d" "cd_pending_compress (observe_context cc w d) = cd_pending_compress d"
  by (simp_all add: observe_context_def split: list.split)

lemma apply_tp_target_ok:
  assumes "answers_ok (length (cd_last_results d)) d"
  shows "\<exists>d' w'. apply_tp_target cc (d, w) = Ok (d', w') \<and> cd_logical_len d' = cd_logical_len d \<and> cd_last_seen_pos d' = cd_last_seen_pos d
    \<and> length (cd_last_results d') = length (cd_last_results d) \<and> cd_pending_compress d' = cd_pending_compress d"
  using assms by (auto simp: apply_tp_target_def answers_ok_def set_result_def Let_def split: option.split prod.split)

lemma cd_dispatch_effect:
  "\<exists>d' w'. cd_dispatch cc cmds (d, reg, w)
      = (Ok (d', fold submit (List.map_filter (stage_for cc w (cd_logical_len (observe_context cc w d))) (acting cmds)) reg, w') :: ('e, _) result)
    \<and> cd_logical_len d' = cd_logical_len (observe_context cc w d) \<and> cd_last_seen_pos d' = cd_last_seen_pos (observe_context cc w d)
    \<and> length (cd_last_results d') = length cmds \<and> (\<forall>p. cd_pending_compress d' = Some p \<longrightarrow> pc_result_idx p < length cmds)"
proof -
  let ?d1 = "(observe_context cc w d)\<lparr>cd_control := LoopControl_default\<rparr>"
  let ?fl = "if can_compress cc w then folded_flags cmds else replicate (length cmds) False"
  let ?d2 = "?d1\<lparr>cd_last_results := [], cd_pending_compress := None, cd_tp_target := None\<rparr>"
  have none: "List.map_filter (stage_for cc w len) bs = []" if "\<not> can_compress cc w" for len bs
  proof -
    have "stage_for cc w len b = None" for b using that stage_for_can[of cc w len b] by (cases "stage_for cc w len b") auto
    then show ?thesis by (simp add: List.map_filter_def)
  qed
  have st: "List.map_filter (stage_for cc w len) (budgets (zip ?fl cmds)) = List.map_filter (stage_for cc w len) (acting cmds)" for len
    using none by (simp add: acting_def folded_flags_eq)
  obtain d3 reg3 where a: "apply_all cc (zip ?fl cmds) w (?d2, reg) = (d3, reg3)" by fastforce
  have "answers_ok (length (cd_last_results ?d2)) ?d2" by (simp add: answers_ok_def)
  note e = apply_all_effect[OF this, where cc = cc and zs = "zip ?fl cmds" and w = w and reg = reg, unfolded a prod.case st]
  have l: "length (zip ?fl cmds) = length cmds" by (simp add: folded_flags_eq)
  obtain d4 w4 where t: "apply_tp_target cc (d3, w) = (Ok (d4, w4) :: ('e, _) result)" "cd_logical_len d4 = cd_logical_len d3" "cd_last_seen_pos d4 = cd_last_seen_pos d3"
      "length (cd_last_results d4) = length (cd_last_results d3)" "cd_pending_compress d4 = cd_pending_compress d3"
    using apply_tp_target_ok[of d3 cc w] e by auto
  have "cd_dispatch cc cmds (d, reg, w) = (Ok (d4, reg3, w4) :: ('e, _) result)"
    unfolding cd_dispatch_def prod.case Let_def a t(1) by (simp add: a t(1))
  then show ?thesis using e t l by (auto simp: answers_ok_def)
qed

lemma finalize_ok:
  assumes "\<forall>p. cd_pending_compress d = Some p \<longrightarrow> pc_result_idx p < length (cd_last_results d)"
  shows "\<exists>rs d'. finalize_results cc w d = Ok (rs, d') \<and> length rs = length (cd_last_results d) \<and> cd_logical_len d' = cd_logical_len (observe_context cc w d)
    \<and> cd_last_seen_pos d' = cd_last_seen_pos (observe_context cc w d)"
  using assms by (auto simp: finalize_results_def set_result_def observe_context_def Let_def split: option.split list.split)

text \<open>
  C19: A step of commands. Whatever commands a step brings, in whatever state, the dispatcher never panics and answers every
  command, and it submits exactly the stages of the tightest budgets: of the compressions between two restores of the defaults only the
  one with the smallest budget acts (the last, of equal ones), and it leads to a stage exactly when the cache is outside
  the budget, by at least the floor, and there is a pool or a manager to compress with. No two that act are in one window.
\<close>

theorem dispatch_submits_tightest:
  "(\<exists>d' w'. cd_dispatch cc cmds (d, reg, w)
      = (Ok (d', fold submit (List.map_filter (stage_for cc w (cd_logical_len (observe_context cc w d))) (acting cmds)) reg, w') :: ('e, _) result)
    \<and> (\<forall>w2. \<exists>rs d2. finalize_results cc w2 d' = (Ok (rs, d2) :: ('f, _) result) \<and> length rs = length cmds))
  \<and> (\<forall>i j b c. i < j \<longrightarrow> j < length cmds \<longrightarrow> cmds ! i = KvCompress b \<longrightarrow> cmds ! j = KvCompress c \<longrightarrow> same_window cmds i j
      \<longrightarrow> superseded cmds i \<or> superseded cmds j)"
proof -
  have "superseded cmds i \<or> superseded cmds j"
    if "i < j" "j < length cmds" "cmds ! i = KvCompress b" "cmds ! j = KvCompress c" "same_window cmds i j" for i j b c
  proof -
    have "same_window cmds j i" using that(5) by (simp add: same_window_def min.commute max.commute)
    moreover have "beats (j, c) (i, b) \<or> beats (i, b) (j, c)" using that(1) by (auto simp: beats_def)
    ultimately show ?thesis using that unfolding superseded_def by (metis order_less_trans)
  qed
  then have windows: "\<forall>i j b c. i < j \<longrightarrow> j < length cmds \<longrightarrow> cmds ! i = KvCompress b \<longrightarrow> cmds ! j = KvCompress c \<longrightarrow> same_window cmds i j
      \<longrightarrow> superseded cmds i \<or> superseded cmds j" by blast
  obtain d' w' where d': "cd_dispatch cc cmds (d, reg, w)
      = (Ok (d', fold submit (List.map_filter (stage_for cc w (cd_logical_len (observe_context cc w d))) (acting cmds)) reg, w') :: ('e, _) result)"
      "length (cd_last_results d') = length cmds" "\<forall>p. cd_pending_compress d' = Some p \<longrightarrow> pc_result_idx p < length cmds"
    using cd_dispatch_effect[of cc cmds d reg w] by blast
  have "\<exists>rs d2. finalize_results cc w2 d' = (Ok (rs, d2) :: ('f, _) result) \<and> length rs = length cmds" for w2
    using finalize_ok[of d' cc w2] d'(2,3) by auto
  then show ?thesis using d'(1) windows by (intro conjI[OF exI[of _ d', OF exI[of _ w', OF conjI]]]) simp_all
qed

definition pos_in :: "('s, 'u) dispatcher_config \<Rightarrow> 's \<Rightarrow> nat" where
  "pos_in cc w = current_pos (cc_kv_handles cc w ! 0)"

text \<open>A world that is a number of tokens in one cache of one head, with budgets in percent.\<close>

definition demo_at :: "nat \<Rightarrow> nat kvcache" where
  "demo_at n = (KVCache_new_with_geometry [] [] D_F32 2000 1 1 SeqMajor)\<lparr>current_pos := n\<rparr>"

definition demo_ops :: compress_ops where
  "demo_ops = \<lparr>co_scale = (\<lambda>n b. n * unat b div 100), co_floor = (\<lambda>n. n div 5), co_ratio = (\<lambda>a b. word_of_nat (a * 100 div b)), co_slack = (\<lambda>b n. b)\<rparr>"

definition demo_evict :: "f32 \<Rightarrow> nat pipeline_stage" where
  "demo_evict r = \<lparr>ps_lifecycle = OneShot, ps_on_phase = (\<lambda>ph ctx n. Ok (Consumed, n * unat r div 100))\<rparr>"

definition demo_cc :: "(nat, nat) dispatcher_config" where
  "demo_cc = \<lparr>cc_ops = demo_ops, cc_kv_handles = (\<lambda>n. [demo_at n]), cc_cache_manager = Some demo_evict, cc_aperturb = None,
     cc_tp_apply = (\<lambda>on n. (None, n)), cc_yield_seed = 0\<rparr>"

lemma demo_resident [simp]: "resident_of demo_cc n = n"
  by (simp add: resident_of_def demo_cc_def layer_mean_resident_def demo_at_def KVCache_new_with_geometry_def resident_tokens_def resident_positions_def head_len_def
      head_start_def div_ceil_def)

lemma demo_handles [simp]: "cc_kv_handles demo_cc n = [demo_at n]" "current_pos (demo_at n) = n" "cc_aperturb demo_cc = None"
    "cc_cache_manager demo_cc = Some demo_evict" "cc_ops demo_cc = demo_ops" "pos_in demo_cc n = n"
  by (simp_all add: demo_cc_def demo_at_def pos_in_def)

definition demo_batch :: "engine_command list" where
  "demo_batch = [KvCompress 50, KvCompress 25, Suspend, RestoreDefaults, KvCompress 40]"

lemma demo_acting: "acting demo_batch = [25, 40]"
  unfolding acting_def folded_flags_eq[symmetric] by code_simp

theorem dispatch_submits_tightest_witness:
  "\<exists>d' w'. cd_dispatch demo_cc demo_batch (dispatcher_new demo_cc, registry_new, 1000)
      = (Ok (d', submit (demo_evict 40) (submit (demo_evict 25) registry_new), w') :: (string, _) result)
    \<and> (\<exists>rs d2. finalize_results demo_cc 400 d' = (Ok (rs, d2) :: (string, _) result) \<and> length rs = 5)"
proof -
  have len: "cd_logical_len (observe_context demo_cc 1000 (dispatcher_new demo_cc)) = 1000" by (simp add: observe_context_def dispatcher_new_def)
  have "List.map_filter (stage_for demo_cc 1000 1000) [25, 40] = [demo_evict 25, demo_evict 40]"
    by (simp add: List.map_filter_simps stage_for_def compress_target_len_def KV_COMPRESS_MIN_TOKENS_def demo_ops_def)
  then show ?thesis
    using dispatch_submits_tightest[where cc = demo_cc and cmds = demo_batch and d = "dispatcher_new demo_cc" and reg = registry_new and w = 1000 and 'e = string and 'f = string]
    unfolding len demo_acting by (fastforce simp: demo_batch_def)
qed

section \<open>The length of the context\<close>

text \<open>
  A run of steps: the commands, the world when they are dispatched and the world after the mutations, where the answers are
  made. Between two steps the forward pass appends tokens.
\<close>

fun run_commands :: "('s, 'u) dispatcher_config \<Rightarrow> (engine_command list \<times> 's \<times> 's) list \<Rightarrow> dispatcher \<Rightarrow> 's registry \<Rightarrow> (string, command_result list list \<times> dispatcher) result" where
  "run_commands cc [] d reg = Ok ([], d)"
| "run_commands cc ((cmds, w, w1) # steps) d reg =
     and_then (cd_dispatch cc cmds (d, reg, w)) (\<lambda>(d1, reg1, _).
     and_then (finalize_results cc w1 d1) (\<lambda>(rs, d2).
     and_then (run_commands cc steps d2 reg1) (\<lambda>(rss, d3). Ok (rs # rss, d3))))"

text \<open>Position \<open>q\<close> before the first step, then \<open>n\<close> tokens more at each dispatch, and no more than that, but at least one, after each mutation.\<close>

fun appends :: "('s, 'u) dispatcher_config \<Rightarrow> nat \<Rightarrow> nat list \<Rightarrow> (engine_command list \<times> 's \<times> 's) list \<Rightarrow> bool" where
  "appends cc q [] [] = True"
| "appends cc q (n # ns) ((cmds, w, w1) # steps) = (cc_kv_handles cc w \<noteq> [] \<and> cc_kv_handles cc w1 \<noteq> [] \<and> pos_in cc w = q + n
     \<and> 0 < pos_in cc w1 \<and> pos_in cc w1 \<le> pos_in cc w \<and> appends cc (pos_in cc w1) ns steps)"
| "appends cc q _ _ = False"

lemma observe_context_len:
  assumes "cc_kv_handles cc w \<noteq> []" "0 < pos_in cc w"
  shows "cd_logical_len (observe_context cc w d) = cd_logical_len d + (pos_in cc w - cd_last_seen_pos d)" "cd_last_seen_pos (observe_context cc w d) = pos_in cc w"
  using assms by (auto simp: observe_context_def pos_in_def split: list.splits)

text \<open>
  C20: The budget's denominator is the uncompressed length. Over any run of steps, with any commands and any compactions that leave at
  least one row, the length the dispatcher takes budgets of grows by exactly the tokens that were appended: what a compaction
  removes is not subtracted, and the token of the step of a compaction is not lost. So a repeated budget restates, and does not compound.
\<close>

theorem context_length_survives:
  assumes "appends cc (cd_last_seen_pos d) ns steps"
  shows "\<exists>rss d'. run_commands cc steps d reg = Ok (rss, d') \<and> map length rss = map (\<lambda>(cmds, _). length cmds) steps
    \<and> cd_logical_len d' = cd_logical_len d + sum_list ns"
  using assms
proof (induction cc "cd_last_seen_pos d" ns steps arbitrary: d reg rule: appends.induct)
  case (2 cc n ns cmds w w1 steps)
  have h: "cc_kv_handles cc w \<noteq> []" "cc_kv_handles cc w1 \<noteq> []" "pos_in cc w = cd_last_seen_pos d + n" "0 < pos_in cc w1" "pos_in cc w1 \<le> pos_in cc w"
      "appends cc (pos_in cc w1) ns steps" using "2.prems" by auto
  obtain d1 reg1 w' where s: "cd_dispatch cc cmds (d, reg, w) = (Ok (d1, reg1, w') :: (string, _) result)"
      "cd_logical_len d1 = cd_logical_len (observe_context cc w d)" "cd_last_seen_pos d1 = cd_last_seen_pos (observe_context cc w d)"
      "length (cd_last_results d1) = length cmds" "\<forall>p. cd_pending_compress d1 = Some p \<longrightarrow> pc_result_idx p < length cmds"
    using cd_dispatch_effect[of cc cmds d reg w] by blast
  obtain rs d2 where f: "finalize_results cc w1 d1 = (Ok (rs, d2) :: (string, _) result)" "length rs = length cmds"
      "cd_logical_len d2 = cd_logical_len (observe_context cc w1 d1)" "cd_last_seen_pos d2 = cd_last_seen_pos (observe_context cc w1 d1)"
    using finalize_ok[of d1 cc w1] s(4,5) by auto
  have "cd_logical_len d2 = cd_logical_len d + n" "cd_last_seen_pos d2 = pos_in cc w1"
    using f(3,4) s(2,3) h(3,5) observe_context_len[OF h(1), of d] observe_context_len[OF h(2,4), of d1] order_less_le_trans[OF h(4,5)] by simp_all
  with "2.hyps"(1)[of d2 reg1] h(6) s(1) f(1,2) show ?case by auto
qed auto

theorem context_length_survives_witness:
  "\<exists>rss d'. run_commands demo_cc [([], 1000, 1000), ([KvCompress 25], 1001, 250), ([KvCompress 25], 251, 251)] (dispatcher_new demo_cc) registry_new = Ok (rss, d')
    \<and> map length rss = [0, 1, 1] \<and> cd_logical_len d' = 1002"
  using context_length_survives[of demo_cc "dispatcher_new demo_cc" "[1000, 1, 1]" "[([], 1000, 1000), ([KvCompress 25], 1001, 250), ([KvCompress 25], 251, 251)]" registry_new]
  by (simp add: dispatcher_new_def)

section \<open>Answers that are not confirmed\<close>

text \<open>
  C37: Only the last compression of a step is confirmed. When two windows of one step both submit a stage and neither removes
  anything, the answer of the second is corrected to a partial one, but the first stays a success.
\<close>

theorem earlier_window_unconfirmed:
  fixes w :: 's and reg :: "'s registry"
  assumes "stage_for cc w len a = Some sa" "stage_for cc w len b = Some sb" "len = cd_logical_len (observe_context cc w d)" "0 < len"
    and "\<not> f32_le (co_ratio (cc_ops cc) (resident_of cc w) len) (co_slack (cc_ops cc) b len)" "cd_tp_switch d = None"
  shows "\<exists>d'. cd_dispatch cc [KvCompress a, RestoreDefaults, KvCompress b] (d, reg, w) = (Ok (d', submit sb (submit sa reg), w) :: ('e, _) result)
    \<and> (\<exists>d2. finalize_results cc w d' = (Ok ([Done, Done, Partial (co_ratio (cc_ops cc) (resident_of cc w) len) Declined], d2) :: ('f, _) result))"
proof -
  let ?cmds = "[KvCompress a, RestoreDefaults, KvCompress b]"
  have fl: "folded_flags ?cmds = [False, False, False]"
    by (simp add: folded_flags_def fold_segment_def compress_indices_def List.map_filter_simps upt_rec)
  have can: "can_compress cc w" by (rule stage_for_can[OF assms(1)])
  note sub = submit_compress_stage[where w = w]
  have tp: "cd_tp_switch (observe_context cc w d) = None" using assms(6) by (simp add: observe_context_def split: list.split)
  have ne: "cc_kv_handles cc w \<noteq> []" using can by (simp add: can_compress_def)
  show ?thesis using can fl tp ne assms(4,5)
    by (simp add: cd_dispatch_def Let_def apply_command_def sub[OF assms(1)] sub[OF assms(2)] assms(3)[symmetric] apply_tp_target_def
        finalize_results_def compress_outcome_def set_result_def)
qed

lemma demo_unmet: "\<not> f32_le (co_ratio (cc_ops demo_cc) (resident_of demo_cc 1000) 1000) (co_slack (cc_ops demo_cc) 25 1000)"
    "stage_for demo_cc 1000 1000 50 = Some (demo_evict 50)" "stage_for demo_cc 1000 1000 25 = Some (demo_evict 25)"
    "1000 = cd_logical_len (observe_context demo_cc 1000 (dispatcher_new demo_cc))"
  by (simp_all add: demo_ops_def f32_le_def f32_partial_cmp_def f32_is_nan_def f32_rank_def stage_for_def compress_target_len_def KV_COMPRESS_MIN_TOKENS_def
      observe_context_def dispatcher_new_def)

theorem earlier_window_unconfirmed_witness:
  "\<exists>d' d2. cd_dispatch demo_cc [KvCompress 50, RestoreDefaults, KvCompress 25] (dispatcher_new demo_cc, registry_new, 1000)
      = (Ok (d', submit (demo_evict 25) (submit (demo_evict 50) registry_new), 1000) :: (string, _) result)
    \<and> finalize_results demo_cc 1000 d' = (Ok ([Done, Done, Partial 100 Declined], d2) :: (string, _) result)"
  using earlier_window_unconfirmed[OF demo_unmet(2,3,4) _ demo_unmet(1), of registry_new] by (simp add: dispatcher_new_def demo_ops_def)

text \<open>
  A suspension does not hold a compression back. When a step brings a compression and then a suspension, the stage is
  submitted all the same; the loop stops before it runs, the manager is told that the eviction was declined, and the stage stays in the registry for
  the next run.
\<close>

theorem suspend_keeps_compression:
  fixes w :: 's and reg :: "'s registry"
  assumes "stage_for cc w len b = Some st" "len = cd_logical_len (observe_context cc w d)" "0 < len"
    and "\<not> f32_le (co_ratio (cc_ops cc) (resident_of cc w) len) (co_slack (cc_ops cc) b len)" "cd_tp_switch d = None"
  shows "\<exists>d'. cd_dispatch cc [KvCompress b, Suspend] (d, reg, w) = (Ok (d', submit st reg, w) :: ('e, _) result) \<and> lc_suspended (cd_control d')
    \<and> (\<exists>d2. finalize_results cc w d' = (Ok ([Partial (co_ratio (cc_ops cc) (resident_of cc w) len) Declined, Done], d2) :: ('f, _) result))"
proof -
  have fl: "folded_flags [KvCompress b, Suspend] = [False, False]"
    by (simp add: folded_flags_def fold_segment_def compress_indices_def List.map_filter_simps upt_rec)
  have can: "can_compress cc w" by (rule stage_for_can[OF assms(1)])
  have tp: "cd_tp_switch (observe_context cc w d) = None" using assms(5) by (simp add: observe_context_def split: list.split)
  have ne: "cc_kv_handles cc w \<noteq> []" using can by (simp add: can_compress_def)
  show ?thesis using can fl tp ne assms(3,4)
    by (simp add: cd_dispatch_def Let_def apply_command_def submit_compress_stage[OF assms(1)] assms(2)[symmetric] apply_tp_target_def
        finalize_results_def compress_outcome_def set_result_def)
qed

theorem suspend_keeps_compression_witness:
  "\<exists>d' d2. cd_dispatch demo_cc [KvCompress 25, Suspend] (dispatcher_new demo_cc, registry_new, 1000) = (Ok (d', submit (demo_evict 25) registry_new, 1000) :: (string, _) result)
    \<and> lc_suspended (cd_control d') \<and> finalize_results demo_cc 1000 d' = (Ok ([Partial 100 Declined, Done], d2) :: (string, _) result)"
  using suspend_keeps_compression[OF demo_unmet(3,4) _ demo_unmet(1), of registry_new] by (simp add: dispatcher_new_def demo_ops_def)

end
