(* ===== verification/Session_Loop.thy ===== *)
theory Session_Loop
  imports Decode_Loop Dispatcher_Props
begin

text \<open>
  The decode loop with the manager attached: the adapter is its command source and the dispatcher applies the commands
  (\<^verbatim>\<open>engine/src/session/decode_loop.rs\<close>). What holds over whole runs is proved over a relation between worlds that all other components
  respect (\<open>world_relation\<close>), and the relation is then that of a component which at most lets directives arrive.
\<close>

section \<open>Components that respect a relation\<close>

definition quiet_stage :: "('s \<Rightarrow> 's \<Rightarrow> bool) \<Rightarrow> 's pipeline_stage \<Rightarrow> bool" where
  "quiet_stage R st \<longleftrightarrow> (\<forall>phase ctx s out s'. ps_on_phase st phase ctx s = Ok (out, s') \<longrightarrow> R s s')"

definition quiet_registry :: "('s \<Rightarrow> 's \<Rightarrow> bool) \<Rightarrow> 's registry \<Rightarrow> bool" where
  "quiet_registry R reg \<longleftrightarrow> registry_wf reg \<and> (\<forall>st \<in> set (r_stages reg). quiet_stage R st)"

definition quiet_cells :: "('s \<Rightarrow> 's \<Rightarrow> bool) \<Rightarrow> ('s, 'c, 'l) loop_env \<Rightarrow> bool" where
  "quiet_cells R env \<longleftrightarrow>
     (\<forall>w. R w (snd (e_load_stop env w)))
   \<and> (\<forall>src w. e_pressure env = Some src \<longrightarrow> R w (snd (src w)))
   \<and> (\<forall>n w. R w (e_on_kv_prune env n w))
   \<and> (\<forall>m n w. R w (e_on_renumber env m n w))
   \<and> (\<forall>w. R w (e_on_kv_reencode env w))
   \<and> (\<forall>f w. e_take_reencode_fired env = Some f \<longrightarrow> R w (snd (f w)))
   \<and> (\<forall>x t w l w'. e_step env x t w = Ok (l, w') \<longrightarrow> R w w')
   \<and> (\<forall>x l w. R w (snd (e_sample env x l w)))
   \<and> (\<forall>t w. R w (e_observe_token env t w))"

definition follows :: "('s \<Rightarrow> 's \<Rightarrow> bool) \<Rightarrow> 's decode_loop \<Rightarrow> 's decode_loop \<Rightarrow> bool" where
  "follows R d d' \<longleftrightarrow> quiet_registry R (d_pipeline d) \<longrightarrow> R (d_world d) (d_world d') \<and> quiet_registry R (d_pipeline d')"

locale world_relation =
  fixes R :: "'s \<Rightarrow> 's \<Rightarrow> bool"
  assumes R_refl: "R w w" and R_trans: "R u v \<Longrightarrow> R v w \<Longrightarrow> R u w"
begin

lemma follows_trans: "follows R a b \<Longrightarrow> follows R b c \<Longrightarrow> follows R a c"
  using R_trans by (auto simp: follows_def)

lemma follows_world: "R (d_world d) w \<Longrightarrow> follows R d (d\<lparr>d_world := w\<rparr>)"
  by (simp add: follows_def)

lemma spec_follows:
  assumes "\<forall>st \<in> set sts. quiet_stage R st" "(dispatch_spec phase ctx sts s :: ('e, _) result) = Ok (stop, kept, s')"
  shows "R s s' \<and> set kept \<subseteq> set sts"
  using assms
proof (induction sts arbitrary: s kept)
  case Nil
  then show ?case by (simp add: R_refl)
next
  case (Cons st sts)
  obtain out s1 where o1: "ps_on_phase st phase ctx s = Ok (out, s1)" using Cons.prems(2) by (auto split: result.splits)
  then have r1: "R s s1" using Cons.prems(1) by (auto simp: quiet_stage_def)
  show ?case
  proof (cases out)
    case (Stop r)
    then show ?thesis using Cons.prems(2) o1 r1 by auto
  next
    case Continue
    then show ?thesis using Cons.prems o1 r1 Cons.IH[of s1] R_trans by (auto simp: result_simps)
  next
    case Consumed
    then show ?thesis using Cons.prems o1 r1 Cons.IH[of s1] R_trans by (auto simp: result_simps)
  qed
qed

lemma refresh_follows: "quiet_cells R env \<Longrightarrow> follows R d (refresh_pressure_if_due env d)"
  by (auto simp: refresh_pressure_if_due_def follows_def quiet_cells_def R_refl split: option.split prod.split) (metis snd_conv)

lemma dispatch_phase_follows:
  assumes "quiet_cells R env" "dispatch_phase env phase d = Ok (r, d')"
  shows "follows R d d'"
proof (rule follows_trans[OF refresh_follows[OF assms(1)]])
  let ?d = "refresh_pressure_if_due env d"
  show "follows R ?d d'" unfolding follows_def
  proof
    assume q: "quiet_registry R (d_pipeline ?d)"
    then have wf: "registry_wf (d_pipeline ?d)" and st: "\<forall>st \<in> set (r_stages (d_pipeline ?d)). quiet_stage R st" by (simp_all add: quiet_registry_def)
    obtain kept s' where k: "dispatch_spec phase (step_info_of ?d) (r_stages (d_pipeline ?d)) (d_world ?d) = (Ok (r, kept, s') :: (string, _) result)"
        "d' = ?d\<lparr>d_pipeline := registry_of kept, d_world := s'\<rparr>"
      using assms(2) by (auto simp: dispatch_phase_def dispatch_is_spec[OF wf] result_simps Let_def)
    have "registry_wf (registry_of kept)" by (simp add: registry_wf_def registry_of_def)
    then show "R (d_world ?d) (d_world d') \<and> quiet_registry R (d_pipeline d')"
      using spec_follows[OF st k(1)] st k(2) by (auto simp: quiet_registry_def registry_of_def)
  qed
qed

lemma phase_or_break_follows:
  assumes "quiet_cells R env" "phase_or_break env phase k d = Ok r" "\<And>d'. k d' = Ok r \<Longrightarrow> follows R d' (iter_loop r)"
  shows "follows R d (iter_loop r)"
proof -
  from assms(2) obtain o1 d' where d': "dispatch_phase env phase d = Ok (o1, d')"
    and r: "(case o1 of Some why \<Rightarrow> Ok (Break (map_stage_stop why) d') | None \<Rightarrow> k d') = Ok r"
    by (auto simp: phase_or_break_def result_simps)
  note f = dispatch_phase_follows[OF assms(1) d']
  show ?thesis using r f assms(3)[of d'] follows_trans[OF f] by (auto split: option.splits)
qed

lemma sample_part_follows:
  assumes "quiet_cells R env" "sample_part env logits d = Ok r"
  shows "follows R d (iter_loop r)"
proof -
  obtain t w where s: "e_sample env (step_ctx_of env d) logits (d_world d) = (t, w)" by fastforce
  have "R (d_world d) w" "R w (e_observe_token env t w)" using assms(1) s unfolding quiet_cells_def by (metis snd_conv)+
  then have f: "follows R d (d\<lparr>d_world := e_observe_token env t w\<rparr>)" by (intro follows_world) (rule R_trans)
  have e: "follows R d1 (iter_loop r)" if "phase_or_break env DecodeEnd (\<lambda>d2. Ok (Next t d2)) (commit_token t d1) = Ok r" for d1
  proof -
    have "follows R (commit_token t d1) (iter_loop r)"
      by (rule phase_or_break_follows[OF assms(1) that]) (auto simp: follows_def R_refl)
    then show ?thesis by (simp add: follows_def commit_token_def)
  qed
  have "phase_or_break env PostSample (\<lambda>d1. phase_or_break env DecodeEnd (\<lambda>d2. Ok (Next t d2)) (commit_token t d1))
      (d\<lparr>d_world := e_observe_token env t w\<rparr>) = Ok r" using assms(2) s by (simp add: sample_part_def)
  from follows_trans[OF f phase_or_break_follows[OF assms(1) this e]] show ?thesis .
qed

lemma invalidate_follows:
  assumes "quiet_cells R env"
  shows "follows R d (invalidate_plan_on_kv_shrink env d)"
proof -
  have "R w (e_on_kv_prune env n w)" "R w (e_on_renumber env m n w)" for m n w using assms by (simp_all add: quiet_cells_def)
  then have "R w (e_on_renumber env m n (e_on_kv_prune env n w))" for m n w by (meson R_trans)
  then show ?thesis by (simp add: invalidate_plan_on_kv_shrink_def follows_def R_refl Let_def split: option.split)
qed

lemma reencode_follows:
  assumes "quiet_cells R env"
  shows "follows R d (reencode_check env d)"
proof -
  have "R (d_world d) (if b then e_on_kv_reencode env w else w)" if "e_take_reencode_fired env = Some f" "f (d_world d) = (b, w)" for f b w
  proof -
    have "R w (e_on_kv_reencode env w)" using assms by (simp add: quiet_cells_def)
    moreover have "R (d_world d) (snd (f (d_world d)))" using assms that(1) unfolding quiet_cells_def by blast
    ultimately show ?thesis using that(2) R_trans by auto
  qed
  then show ?thesis by (auto simp: reencode_check_def follows_def R_refl split: option.split prod.split)
qed

lemma forward_part_follows:
  assumes "quiet_cells R env" "forward_part env d = Ok r"
  shows "follows R d (iter_loop r)"
proof -
  have s: "follows R d2 (iter_loop r)" if "and_then (e_step env (step_ctx_of env d2) (d_prev_token d2) (d_world d2))
      (\<lambda>(logits, w). phase_or_break env PostForward (phase_or_break env PreSample (sample_part env logits)) (d2\<lparr>d_world := w\<rparr>)) = Ok r" for d2
  proof -
    from that obtain logits w where w: "e_step env (step_ctx_of env d2) (d_prev_token d2) (d_world d2) = Ok (logits, w)"
        "phase_or_break env PostForward (phase_or_break env PreSample (sample_part env logits)) (d2\<lparr>d_world := w\<rparr>) = Ok r"
      by (auto simp: result_simps)
    have "R (d_world d2) w" using assms(1) w(1) unfolding quiet_cells_def by blast
    moreover have "follows R (d2\<lparr>d_world := w\<rparr>) (iter_loop r)"
      by (rule phase_or_break_follows[OF assms(1) w(2)], erule phase_or_break_follows[OF assms(1)], erule sample_part_follows[OF assms(1)])
    ultimately show ?thesis using follows_trans[OF follows_world] by blast
  qed
  have "follows R d1 (iter_loop r)" if "phase_or_break env PreForward (\<lambda>d2. and_then (e_step env (step_ctx_of env d2) (d_prev_token d2) (d_world d2))
      (\<lambda>(logits, w). phase_or_break env PostForward (phase_or_break env PreSample (sample_part env logits)) (d2\<lparr>d_world := w\<rparr>)))
      (invalidate_plan_on_kv_shrink env d1) = Ok r" for d1
    by (rule follows_trans[OF invalidate_follows[OF assms(1)] phase_or_break_follows[OF assms(1) that s]])
  then show ?thesis using assms(2) unfolding forward_part_def by (rule phase_or_break_follows[OF assms(1), rotated])
qed

end

section \<open>The session\<close>

record 'k session =
  ss_core :: 'k
  ss_dispatcher :: dispatcher
  ss_adapter :: adapter

text \<open>
  The loop's command source, dispatcher and report with the manager attached. A dispatch never panics, nor does the report after it, so the
  other cases of both are not reached.
\<close>

definition with_resilience :: "('k session, 'u) dispatcher_config \<Rightarrow> ('k session \<Rightarrow> nat) \<Rightarrow> ('k session, engine_command, 'l) loop_env \<Rightarrow> ('k session, engine_command, 'l) loop_env" where
  "with_resilience cc now env = env\<lparr>
     e_poll := (\<lambda>w. case adapter_poll (now w) (cc_kv_handles cc w) (ss_adapter w) of (cmds, ad) \<Rightarrow> Ok (cmds, w\<lparr>ss_adapter := ad\<rparr>)),
     e_dispatcher := Some (\<lambda>cmds (reg, w). case (cd_dispatch cc cmds (ss_dispatcher w, reg, w) :: (string, _) result) of
         Ok (d, reg', w') \<Rightarrow> (lc_suspended (cd_control d), reg', w'\<lparr>ss_dispatcher := d\<rparr>)
       | _ \<Rightarrow> (False, reg, w)),
     e_report_results := (\<lambda>n w. case (finalize_results cc w (ss_dispatcher w) :: (string, _) result) of
         Ok (rs, d) \<Rightarrow> w\<lparr>ss_dispatcher := d, ss_adapter := adapter_report_results rs (ss_adapter w)\<rparr>
       | _ \<Rightarrow> w)\<rparr>"

definition unanswered :: "'k session \<Rightarrow> (u64 \<times> nat) list" where
  "unanswered w = ex_pending_responses (ad_executor (ss_adapter w))"

text \<open>
  The channel from the manager. What the manager has sent so far is a log of the part of the world the model leaves open (\<open>sent\<close>): a component leaves the dispatcher, the
  responses and the directives taken from the channel alone, and what it lets arrive in the channel is what the log grows by.
\<close>

definition inbox :: "'k session \<Rightarrow> directive list" where
  "inbox w = ex_inbox (ad_executor (ss_adapter w))"

definition answers :: "'k session \<Rightarrow> (u64 \<times> nat) list" where
  "answers w = map (\<lambda>(s, rs). (s, length rs)) (responses (ex_outbox (ad_executor (ss_adapter w))))"

definition hears :: "('k \<Rightarrow> directive list) \<Rightarrow> 'k session \<Rightarrow> 'k session \<Rightarrow> bool" where
  "hears sent w w' \<longleftrightarrow> ss_dispatcher w' = ss_dispatcher w \<and> unanswered w' = unanswered w \<and> answers w' = answers w
     \<and> (\<exists>ds. sent (ss_core w') = sent (ss_core w) @ ds \<and> inbox w' = inbox w @ ds)"

text \<open>
  Over whole steps: the directives taken from the channel are its first ones, and each is owed one response. With the flag, all that
  were in the channel at the start have been taken.
\<close>

definition arrived :: "('k \<Rightarrow> directive list) \<Rightarrow> bool \<Rightarrow> 'k session \<Rightarrow> 'k session \<Rightarrow> bool" where
  "arrived sent full w w' \<longleftrightarrow> (\<exists>ds taken. sent (ss_core w') = sent (ss_core w) @ ds \<and> inbox w @ ds = taken @ inbox w'
     \<and> answers w' @ unanswered w' = answers w @ unanswered w @ map owed taken \<and> (full \<longrightarrow> length (inbox w) \<le> length taken))"

lemma arrived_same: "sent (ss_core w') = sent (ss_core w) \<Longrightarrow> inbox w' = inbox w \<Longrightarrow> answers w' @ unanswered w' = answers w @ unanswered w \<Longrightarrow> arrived sent False w w'"
  unfolding arrived_def by (intro exI[of _ "[]"]) simp

lemma arrived_mono: "arrived sent full w w' \<Longrightarrow> (full' \<Longrightarrow> full) \<Longrightarrow> arrived sent full' w w'"
  unfolding arrived_def by blast

lemma arrived_trans:
  assumes "arrived sent f u v" "arrived sent g v w"
  shows "arrived sent (f \<or> g) u w"
proof -
  obtain d1 t1 d2 t2 where a: "sent (ss_core v) = sent (ss_core u) @ d1" "inbox u @ d1 = t1 @ inbox v" "answers v @ unanswered v = answers u @ unanswered u @ map owed t1"
      "f \<longrightarrow> length (inbox u) \<le> length t1"
    and b: "sent (ss_core w) = sent (ss_core v) @ d2" "inbox v @ d2 = t2 @ inbox w" "answers w @ unanswered w = answers v @ unanswered v @ map owed t2"
      "g \<longrightarrow> length (inbox v) \<le> length t2"
    using assms unfolding arrived_def by blast
  have "inbox u @ d1 @ d2 = (t1 @ t2) @ inbox w" using a(2) b(2) by (metis append.assoc)
  moreover have "length (inbox u) + length d1 = length t1 + length (inbox v)" using arg_cong[OF a(2), of length] by simp
  then have "f \<or> g \<longrightarrow> length (inbox u) \<le> length (t1 @ t2)" using a(4) b(4) by auto
  moreover have "answers w @ unanswered w = answers u @ unanswered u @ map owed (t1 @ t2)" using a(3) b(3) by simp
  ultimately show ?thesis using a(1) b(1) unfolding arrived_def by (intro exI[of _ "d1 @ d2"] exI[of _ "t1 @ t2"]) simp
qed

lemma hears_arrived: "hears sent w w' \<Longrightarrow> arrived sent False w w'"
  by (auto simp: hears_def arrived_def)

lemma hears_then: "hears sent u v \<Longrightarrow> arrived sent f v w \<Longrightarrow> arrived sent f u w" "arrived sent f u v \<Longrightarrow> hears sent v w \<Longrightarrow> arrived sent f u w"
  using arrived_trans[OF hears_arrived] arrived_trans[OF _ hears_arrived] by fastforce+

interpretation hearing: world_relation "hears sent" for sent
  by unfold_locales (auto simp: hears_def)

definition quiet_config :: "('k \<Rightarrow> directive list) \<Rightarrow> ('k session, 'u) dispatcher_config \<Rightarrow> bool" where
  "quiet_config sent cc \<longleftrightarrow> (\<forall>on w. hears sent w (snd (cc_tp_apply cc on w))) \<and> (\<forall>cm r. cc_cache_manager cc = Some cm \<longrightarrow> quiet_stage (hears sent) (cm r))
     \<and> (\<forall>sel n. cc_aperturb cc = Some sel \<longrightarrow> quiet_stage (hears sent) (sel n))"

lemma quiet_with_resilience: "quiet_cells (hears sent) (with_resilience cc now env) = quiet_cells (hears sent) env"
  by (simp add: quiet_cells_def with_resilience_def)

lemma poll_arrived: "adapter_poll now cs (ss_adapter w) = (cmds, ad) \<Longrightarrow> arrived sent True w (w\<lparr>ss_adapter := ad\<rparr>)"
  unfolding arrived_def
  by (rule exI[of _ "[]"], rule exI[of _ "inbox w"])
    (auto simp: inbox_def answers_def unanswered_def adapter_poll_def drain_commands_def drain_loop_eq set_phase_def send_heartbeat_if_due_def
      send_heartbeat_now_def send_heartbeat_def Let_def split: if_splits prod.splits)

lemma quiet_submit: "quiet_registry R reg \<Longrightarrow> quiet_stage R st \<Longrightarrow> quiet_registry R (submit st reg)"
  by (cases reg) (auto simp: quiet_registry_def submit_def registry_wf_def registry_of_def)

lemma quiet_fold_submit: "quiet_registry R reg \<Longrightarrow> \<forall>st \<in> set sts. quiet_stage R st \<Longrightarrow> quiet_registry R (fold submit sts reg)"
  by (induction sts arbitrary: reg) (auto simp: quiet_submit)

lemma stage_for_quiet: "quiet_config sent cc \<Longrightarrow> stage_for cc w len b = Some st \<Longrightarrow> quiet_stage (hears sent) st"
  by (auto simp: stage_for_def quiet_config_def Let_def split: if_splits option.splits)

lemma cd_dispatch_world:
  assumes "cd_dispatch cc cmds (d, reg, w) = Ok (d', reg', w')"
  shows "w' = w \<or> (\<exists>on. w' = snd (cc_tp_apply cc on w))"
proof -
  have "apply_tp_target cc (d1, w) = Ok (d2, w2) \<Longrightarrow> w2 = w \<or> (\<exists>on. w2 = snd (cc_tp_apply cc on w))" for d1 d2 w2
    by (auto simp: apply_tp_target_def set_result_def result_simps Let_def split: option.splits prod.splits if_splits) (metis snd_conv)+
  then show ?thesis using assms by (auto simp: cd_dispatch_def result_simps Let_def split: prod.splits)
qed

text \<open>Between the poll and the report of a step, the dispatcher and the mutations leave the drained directives to be answered.\<close>

lemma dispatcher_follows:
  assumes "quiet_config sent cc" "quiet_registry (hears sent) (d_pipeline d)" "run_dispatcher (with_resilience cc now env) cmds d = (s, d')"
  shows "quiet_registry (hears sent) (d_pipeline d') \<and> arrived sent False (d_world d) (d_world d')
    \<and> (\<forall>p. cd_pending_compress (ss_dispatcher (d_world d')) = Some p \<longrightarrow> pc_result_idx p < length (cd_last_results (ss_dispatcher (d_world d'))))"
proof -
  let ?w = "d_world d" let ?d = "ss_dispatcher ?w"
  let ?sts = "List.map_filter (stage_for cc ?w (cd_logical_len (observe_context cc ?w ?d))) (acting cmds)"
  obtain d1 w1 where e: "cd_dispatch cc cmds (?d, d_pipeline d, ?w) = (Ok (d1, fold submit ?sts (d_pipeline d), w1) :: (string, _) result)"
      "length (cd_last_results d1) = length cmds" "\<forall>p. cd_pending_compress d1 = Some p \<longrightarrow> pc_result_idx p < length cmds"
    using cd_dispatch_effect[of cc cmds ?d "d_pipeline d" ?w] by blast
  have d': "d' = d\<lparr>d_pipeline := fold submit ?sts (d_pipeline d), d_world := w1\<lparr>ss_dispatcher := d1\<rparr>\<rparr>"
    using assms(3) e(1) by (simp add: run_dispatcher_def with_resilience_def)
  have "hears sent ?w w1" using cd_dispatch_world[OF e(1)] assms(1) hearing.R_refl by (auto simp: quiet_config_def)
  then have "arrived sent False ?w w1" by (rule hears_arrived)
  moreover have "\<forall>st \<in> set ?sts. quiet_stage (hears sent) st" using stage_for_quiet[OF assms(1)] by (auto simp: List.map_filter_def)
  ultimately show ?thesis using e(2,3) quiet_fold_submit[OF assms(2)] by (simp add: d' unanswered_def answers_def inbox_def arrived_def)
qed

lemma report_answers:
  assumes "\<forall>p. cd_pending_compress (ss_dispatcher (d_world d)) = Some p \<longrightarrow> pc_result_idx p < length (cd_last_results (ss_dispatcher (d_world d)))"
  shows "unanswered (d_world (report_command_results (with_resilience cc now env) n d)) = [] \<and> arrived sent False (d_world d) (d_world (report_command_results (with_resilience cc now env) n d))
    \<and> d_pipeline (report_command_results (with_resilience cc now env) n d) = d_pipeline d"
proof -
  obtain rs d1 where "finalize_results cc (d_world d) (ss_dispatcher (d_world d)) = (Ok (rs, d1) :: (string, _) result)"
    using finalize_ok[OF assms, of cc "d_world d"] by auto
  moreover have "answers w @ unanswered w = answers (w\<lparr>ss_dispatcher := d1, ss_adapter := adapter_report_results rs (ss_adapter w)\<rparr>)" for w :: "'a session"
    by (simp add: answers_def unanswered_def adapter_report_results_def with_executor_def report_results_def report_loop_responses)
  ultimately show ?thesis
    by (auto simp: report_command_results_def with_resilience_def unanswered_def adapter_report_results_def with_executor_def report_results_def inbox_def intro!: arrived_same)
qed

definition settled :: "('k \<Rightarrow> directive list) \<Rightarrow> bool \<Rightarrow> 'k session decode_loop \<Rightarrow> 'k session decode_loop \<Rightarrow> bool" where
  "settled sent full d d' \<longleftrightarrow> quiet_registry (hears sent) (d_pipeline d') \<and> unanswered (d_world d') = [] \<and> arrived sent full (d_world d) (d_world d')"

lemma settled_follows:
  assumes "settled sent full d d1" "follows (hears sent) d1 d2"
  shows "settled sent full d d2"
proof -
  have "hears sent (d_world d1) (d_world d2)" "quiet_registry (hears sent) (d_pipeline d2)" using assms by (auto simp: settled_def follows_def)
  moreover from this(1) have "unanswered (d_world d2) = []" using assms(1) by (simp add: hears_def settled_def)
  ultimately show ?thesis using assms(1) hears_then(2) unfolding settled_def by blast
qed

lemma report_settles:
  assumes "quiet_registry (hears sent) (d_pipeline d2)" "arrived sent full (d_world d) (d_world d2)" "follows (hears sent) d2 d3"
    and "\<forall>p. cd_pending_compress (ss_dispatcher (d_world d2)) = Some p \<longrightarrow> pc_result_idx p < length (cd_last_results (ss_dispatcher (d_world d2)))"
  shows "settled sent full d (report_command_results (with_resilience cc now env) n d3)"
proof -
  have h: "hears sent (d_world d2) (d_world d3)" "quiet_registry (hears sent) (d_pipeline d3)" using assms(1,3) by (auto simp: follows_def)
  then have "\<forall>p. cd_pending_compress (ss_dispatcher (d_world d3)) = Some p \<longrightarrow> pc_result_idx p < length (cd_last_results (ss_dispatcher (d_world d3)))"
    using assms(4) by (simp add: hears_def)
  note r = report_answers[OF this, where sent = sent and cc = cc and now = now and env = env and n = n]
  have "arrived sent (full \<or> False) (d_world d) (d_world (report_command_results (with_resilience cc now env) n d3))"
    by (rule arrived_trans[OF hears_then(2)[OF assms(2) h(1)]]) (use r in blast)
  with r h(2) show ?thesis by (simp add: settled_def)
qed

lemma mutate_part_settles:
  assumes "quiet_cells (hears sent) env" "mutate_part env n d2 = Ok r"
    and "\<And>d3. follows (hears sent) d2 d3 \<Longrightarrow> settled sent full d (report_command_results env n d3)"
  shows "settled sent full d (iter_loop r)"
proof -
  obtain o1 d3 where d3: "dispatch_phase env KvMutate d2 = Ok (o1, d3)"
    and r: "(case o1 of Some why \<Rightarrow> Ok (Break (map_stage_stop why) (report_command_results env n d3))
      | None \<Rightarrow> forward_part env (reencode_check env (invalidate_plan_on_kv_shrink env (report_command_results env n d3)))) = Ok r"
    using assms(2) by (auto simp: mutate_part_def result_simps Let_def)
  note s3 = assms(3)[OF hearing.dispatch_phase_follows[OF assms(1) d3]]
  show ?thesis
  proof (cases o1)
    case None
    then have "follows (hears sent) (reencode_check env (invalidate_plan_on_kv_shrink env (report_command_results env n d3))) (iter_loop r)"
      using r hearing.forward_part_follows[OF assms(1)] by simp
    then show ?thesis
      using settled_follows[OF settled_follows[OF settled_follows[OF s3 hearing.invalidate_follows[OF assms(1)]] hearing.reencode_follows[OF assms(1)]]] by blast
  qed (use r s3 in auto)
qed

lemma polled_settles:
  assumes "quiet_config sent cc" "quiet_cells (hears sent) (with_resilience cc now env)" "settled sent f d d1"
    and "and_then (e_poll (with_resilience cc now env) (d_world d1)) (\<lambda>(cmds, w'). case run_dispatcher (with_resilience cc now env) cmds (d1\<lparr>d_world := w'\<rparr>) of
      (suspended, d2) \<Rightarrow> if suspended then Ok (Break CommandRequestedStop (report_command_results (with_resilience cc now env) (length cmds) d2))
        else mutate_part (with_resilience cc now env) (length cmds) d2) = Ok r" (is "and_then (e_poll ?env _) _ = _")
  shows "settled sent True d (iter_loop r)"
proof -
  obtain cmds ad where p: "adapter_poll (now (d_world d1)) (cc_kv_handles cc (d_world d1)) (ss_adapter (d_world d1)) = (cmds, ad)" by fastforce
  let ?w = "(d_world d1)\<lparr>ss_adapter := ad\<rparr>"
  have poll: "e_poll ?env (d_world d1) = Ok (cmds, ?w)" using p by (simp add: with_resilience_def)
  obtain b d2 where rd: "run_dispatcher ?env cmds (d1\<lparr>d_world := ?w\<rparr>) = (b, d2)" by fastforce
  have "arrived sent True (d_world d1) ?w" by (rule poll_arrived[OF p])
  then have a1: "arrived sent True (d_world d) ?w" using arrived_trans[of sent f _ _ True] assms(3) by (auto simp: settled_def)
  have "quiet_registry (hears sent) (d_pipeline (d1\<lparr>d_world := ?w\<rparr>))" using assms(3) by (simp add: settled_def)
  note d2 = dispatcher_follows[OF assms(1) this rd]
  have rep: "settled sent True d (report_command_results ?env n d3)" if "follows (hears sent) d2 d3" for n d3
    by (rule report_settles[OF _ _ that]) (use d2 arrived_trans[OF a1, of False] in auto)
  show ?thesis
  proof (cases b)
    case True
    have "follows (hears sent) d2 d2" by (simp add: follows_def hearing.R_refl)
    from rep[OF this] assms(4) poll rd True show ?thesis by auto
  next
    case False
    then have "mutate_part ?env (length cmds) d2 = Ok r" using assms(4) poll rd by simp
    then show ?thesis by (rule mutate_part_settles[OF assms(2)]) (rule rep)
  qed
qed

lemma decode_iter_settles:
  assumes "quiet_config sent cc" "quiet_cells (hears sent) env" "quiet_registry (hears sent) (d_pipeline d)" "unanswered (d_world d) = []"
    and "decode_iter (with_resilience cc now env) d = Ok r"
  shows "settled sent (case r of Next t d' \<Rightarrow> True | Break why d' \<Rightarrow> False) d (iter_loop r)"
proof -
  let ?env = "with_resilience cc now env"
  have q: "quiet_cells (hears sent) ?env" using assms(2) by (simp add: quiet_with_resilience)
  obtain stop w where ld: "e_load_stop ?env (d_world d) = (stop, w)" by fastforce
  then have "hears sent (d_world d) w" using q unfolding quiet_cells_def by (metis snd_conv)
  then have "arrived sent False (d_world d) w" "unanswered w = []" using assms(4) by (simp_all add: hears_arrived hears_def)
  then have s0: "settled sent False d (d\<lparr>d_world := w\<rparr>)" using assms(3) by (simp add: settled_def)
  show ?thesis
  proof (cases stop)
    case True
    then show ?thesis using assms(5) ld s0 by (auto simp: decode_iter_def)
  next
    case False
    then obtain o1 d1 where d1: "dispatch_phase ?env DecodeStart (d\<lparr>d_world := w\<rparr>) = Ok (o1, d1)" using assms(5) ld
      by (auto simp: decode_iter_def phase_or_break_def result_simps)
    note s1 = settled_follows[OF s0 hearing.dispatch_phase_follows[OF q d1]]
    show ?thesis
    proof (cases o1)
      case None
      then have "settled sent True d (iter_loop r)" using polled_settles[OF assms(1) q s1] assms(5) ld d1 False by (simp add: decode_iter_def phase_or_break_def)
      then show ?thesis by (cases r) (auto simp: settled_def intro: arrived_mono)
    qed (use assms(5) ld d1 False s1 in \<open>auto simp: decode_iter_def phase_or_break_def\<close>)
  qed
qed

lemma step_loop_settles:
  assumes "quiet_config sent cc" "quiet_cells (hears sent) env" "quiet_registry (hears sent) (d_pipeline d)" "unanswered (d_world d) = []"
    and "step_loop (with_resilience cc now env) n gen cps d = Ok (gen', cps', why, d')"
  shows "settled sent (gen' \<noteq> gen) d d'"
  using assms(3-)
proof (induction n arbitrary: gen cps d)
  case 0
  then show ?case by (simp add: settled_def hears_arrived[OF hearing.R_refl])
next
  case (Suc n)
  then obtain r where r: "decode_iter (with_resilience cc now env) d = Ok r"
    "(case r of Break why d' \<Rightarrow> Ok (gen, cps, why, d') | Next t d' \<Rightarrow> step_loop (with_resilience cc now env) n (gen @ [t]) (cps @ [of_nat (occupancy (with_resilience cc now env) d')]) d')
      = Ok (gen', cps', why, d')" by (auto simp: result_simps)
  note s = decode_iter_settles[OF assms(1,2) Suc.prems(1,2) r(1)]
  show ?case
  proof (cases r)
    case (Next t d0)
    with s have q: "quiet_registry (hears sent) (d_pipeline d0)" "unanswered (d_world d0) = []" "arrived sent True (d_world d) (d_world d0)" by (simp_all add: settled_def)
    with Suc.IH[OF q(1,2)] r(2) Next arrived_trans[OF q(3)] show ?thesis by (fastforce simp: settled_def intro: arrived_mono)
  qed (use s r(2) in auto)
qed

text \<open>
  C18: A run answers everything it takes from the channel, and nothing else. Decode steps with the manager attached, with whatever stages, forward pass and
  sampler, as long as these leave the command channel to the loop, and directives arrive in the channel as the manager sends them (\<open>sent\<close>). However a run
  ended (budget, stop flag, suspension, a stage that stops): the directives in the channel at the start, followed by those sent
  during the run, are the ones taken by the loop, followed by those still in the channel. The responses sent by the run are one for each directive
  taken, in order, with its sequence number and one result for each of its commands. If a token was generated, all
  directives that were in the channel at the start are among those.
\<close>

theorem run_answers_directives:
  assumes "quiet_config sent cc" "quiet_cells (hears sent) env" "quiet_registry (hears sent) (d_pipeline d)" "unanswered (d_world d) = []"
    and "run_steps (with_resilience cc now env) budget first d = Ok (res, d')"
  shows "\<exists>ds taken. sent (ss_core (d_world d')) = sent (ss_core (d_world d)) @ ds
    \<and> inbox (d_world d) @ ds = taken @ inbox (d_world d')
    \<and> answers (d_world d') = answers (d_world d) @ map owed taken
    \<and> unanswered (d_world d') = []
    \<and> (tokens_generated res \<noteq> [] \<longrightarrow> length (inbox (d_world d)) \<le> length taken)"
proof -
  let ?env = "with_resilience cc now env"
  let ?d = "d\<lparr>d_prev_token := first, d_world := e_observe_token ?env first (d_world d)\<rparr>"
  have h: "hears sent (d_world d) (d_world ?d)" using assms(2) by (simp add: quiet_cells_def with_resilience_def)
  obtain gen cps why where l: "step_loop ?env budget [] [] ?d = Ok (gen, cps, why, d')" "tokens_generated res = gen"
    using assms(5) by (auto simp: run_steps_def result_simps)
  have "settled sent (gen \<noteq> []) ?d d'" by (rule step_loop_settles[OF assms(1,2) _ _ l(1)]) (use h assms(3,4) in \<open>simp_all add: hears_def\<close>)
  then have "arrived sent (gen \<noteq> []) (d_world d) (d_world d')" "unanswered (d_world d') = []"
    using hears_then(1)[OF h] by (auto simp: settled_def)
  then show ?thesis using assms(4) l(2) by (simp add: arrived_def)
qed

text \<open>A session of 1000 tokens in which the manager sends one directive that ends with a suspension.\<close>

definition session_cc :: "(nat session, nat) dispatcher_config" where
  "session_cc = \<lparr>cc_ops = demo_ops, cc_kv_handles = (\<lambda>w. [demo_at (ss_core w)]), cc_cache_manager = None, cc_aperturb = None,
     cc_tp_apply = (\<lambda>on w. (None, w)), cc_yield_seed = 0\<rparr>"

definition session_env :: "(nat session, engine_command, token) loop_env" where
  "session_env = \<lparr>e_load_stop = (\<lambda>w. (False, w)), e_pressure = None, e_poll = (\<lambda>w. Ok ([], w)),
     e_dispatcher = None, e_report_results = (\<lambda>n w. w), e_occupancy = None, e_on_kv_prune = (\<lambda>n w. w),
     e_on_renumber = (\<lambda>m n w. w), e_on_kv_reencode = (\<lambda>w. w), e_take_reencode_fired = None, e_reencode_armed = False,
     e_kv_capacity = 16, e_prefill = (\<lambda>ts p w. Ok (0, w)), e_step = (\<lambda>x t w. Ok (t + 1, w)),
     e_sample = (\<lambda>x l w. (l, w)), e_observe_token = (\<lambda>t w. w), e_finalize = Ok\<rparr>"

definition session_start :: "nat session decode_loop" where
  "session_start = decode_loop_new registry_new \<lparr>ss_core = 1000, ss_dispatcher = dispatcher_new session_cc,
     ss_adapter = adapter_new ((executor_new 0 9)\<lparr>ex_inbox := [\<lparr>dv_seq_id = 7, dv_commands = [GpuYield 4, KvCompress 25, Suspend]\<rparr>]\<rparr>)\<rparr>"

lemma session_quiet: "quiet_config (\<lambda>_. []) session_cc" "quiet_cells (hears (\<lambda>_. [])) session_env" "quiet_registry (hears (\<lambda>_. [])) (d_pipeline session_start)" "unanswered (d_world session_start) = []"
  by (auto simp: quiet_config_def quiet_cells_def session_cc_def session_env_def session_start_def decode_loop_new_def quiet_registry_def registry_new_def registry_wf_def
      registry_of_def unanswered_def adapter_new_def executor_new_def hearing.R_refl)

lemma session_cc_fields [simp]: "cc_ops session_cc = demo_ops" "cc_kv_handles session_cc w = [demo_at (ss_core w)]" "cc_cache_manager session_cc = None"
    "cc_aperturb session_cc = None" "resident_of session_cc w = ss_core w"
  by (simp_all add: resident_of_def session_cc_def layer_mean_resident_def demo_at_def KVCache_new_with_geometry_def resident_tokens_def resident_positions_def head_len_def
      head_start_def div_ceil_def)

lemma session_dispatch:
  assumes "ss_core w = 1000" "ss_dispatcher w = dispatcher_new session_cc"
  shows "\<exists>d. cd_dispatch session_cc [GpuYield 4, KvCompress 25, Suspend] (ss_dispatcher w, reg, w) = (Ok (d, reg, w) :: (string, _) result)
    \<and> lc_suspended (cd_control d) \<and> cd_pending_compress d = None"
proof -
  have "\<not> can_compress session_cc w" by (simp add: can_compress_def)
  then show ?thesis using assms
    by (simp add: cd_dispatch_def observe_context_def dispatcher_new_def apply_command_def submit_compress_def compress_target_len_def
        demo_ops_def KV_COMPRESS_MIN_TOKENS_def apply_tp_target_def LoopControl_default_def Let_def)
qed

lemma session_run:
  "\<exists>res d'. run_steps (with_resilience session_cc (\<lambda>_. 1) session_env) 3 0 session_start = Ok (res, d') \<and> ex_inbox (ad_executor (ss_adapter (d_world d'))) = []"
proof -
  let ?env = "with_resilience session_cc (\<lambda>_. 1) session_env" let ?w = "d_world session_start"
  obtain ad where p: "adapter_poll 1 [demo_at 1000] (ss_adapter ?w) = ([GpuYield 4, KvCompress 25, Suspend], ad)" "ex_inbox (ad_executor ad) = []"
    by (simp add: adapter_poll_def session_start_def decode_loop_new_def adapter_new_def executor_new_def set_phase_def send_heartbeat_if_due_def drain_commands_def Let_def)
  let ?w1 = "?w\<lparr>ss_adapter := ad\<rparr>"
  have c: "ss_core ?w1 = 1000" "ss_dispatcher ?w1 = dispatcher_new session_cc" by (simp_all add: session_start_def decode_loop_new_def)
  obtain d where d: "cd_dispatch session_cc [GpuYield 4, KvCompress 25, Suspend] (ss_dispatcher ?w1, registry_new, ?w1) = (Ok (d, registry_new, ?w1) :: (string, _) result)"
      "lc_suspended (cd_control d)" "cd_pending_compress d = None"
    using session_dispatch[OF c, of registry_new] by blast
  let ?dl = "session_start\<lparr>d_prev_token := 0\<rparr>"
  have dl: "d_world ?dl = ?w" "d_pipeline ?dl = registry_new" "ss_core ?w = 1000" by (simp_all add: session_start_def decode_loop_new_def)
  have "\<exists>d'. decode_iter ?env ?dl = Ok (Break CommandRequestedStop d') \<and> ex_inbox (ad_executor (ss_adapter (d_world d'))) = []"
    using p d dl
    by (simp add: decode_iter_def with_resilience_def session_env_def phase_or_break_def dispatch_phase_def refresh_pressure_if_due_def dispatch_def registry_new_def
        run_dispatcher_def report_command_results_def finalize_results_def adapter_report_results_def with_executor_def report_results_def Let_def)
  then show ?thesis by (auto simp: run_steps_def numeral_3_eq_3 with_resilience_def session_env_def)
qed

theorem run_answers_directives_witness:
  "\<exists>res d'. run_steps (with_resilience session_cc (\<lambda>_. 1) session_env) 3 0 session_start = Ok (res, d') \<and> answers (d_world d') = [(7, 3)]"
proof -
  obtain res d' where r: "run_steps (with_resilience session_cc (\<lambda>_. 1) session_env) 3 0 session_start = Ok (res, d')"
      "ex_inbox (ad_executor (ss_adapter (d_world d'))) = []" using session_run by blast
  have s: "inbox (d_world session_start) = [\<lparr>dv_seq_id = 7, dv_commands = [GpuYield 4, KvCompress 25, Suspend]\<rparr>]" "answers (d_world session_start) = []"
    "inbox (d_world d') = []"
    using r(2) by (simp_all add: inbox_def answers_def session_start_def decode_loop_new_def adapter_new_def executor_new_def)
  from run_answers_directives[OF session_quiet r(1)] have "answers (d_world d') = map owed (inbox (d_world session_start))" by (auto simp: s)
  then show ?thesis using r(1) by (simp add: s(1) owed_def)
qed

end
