(* ===== verification/Transport.thy ===== *)
theory Transport
  imports Prelude
begin

text \<open>
  The connection to the manager process: \<^verbatim>\<open>engine/src/resilience/transport.rs\<close>, with its length-prefixed frames, the TCP and
  Unix transports and the loop that joins a transport to the two channels of the command executor. The JSON
  codec of the messages (serde) is a parameter. A socket is the list of what its reads will find: bytes, a
  pause longer than the read timeout of the TCP transport, or a failure; the end of the list is the end of the stream.
  \<open>read_exact\<close> drops what it has read when it fails, as the standard library does.
\<close>

section \<open>Sockets\<close>

datatype transport_error = ConnectionFailed string | Disconnected | Timeout | ParseError string | TrIo

datatype wire = Byte byte | Silence | Fault

text \<open>A socket that accepts \<open>t_limit\<close> bytes before the other side is gone; \<open>None\<close> accepts any number.\<close>

record transport =
  t_connected :: bool
  t_rx :: "wire list"
  t_tx :: "byte list"
  t_limit :: "nat option"

type_synonym ('a, 's) io = "(transport_error, 'a) result \<times> 's"

definition io_then :: "('a, 's) io \<Rightarrow> ('a \<Rightarrow> 's \<Rightarrow> ('b, 's) io) \<Rightarrow> ('b, 's) io" where
  "io_then r f = (case r of (Ok a, s) \<Rightarrow> f a s | (Err e, s) \<Rightarrow> (Err e, s) | (Panic, s) \<Rightarrow> (Panic, s))"

lemma io_then_simps [simp]:
  "io_then (Ok a, s) f = f a s" "io_then (Err e, s) f = (Err e, s)" "io_then (Panic, s) f = (Panic, s)"
  by (simp_all add: io_then_def)

fun read_exact_from :: "nat \<Rightarrow> wire list \<Rightarrow> byte list \<Rightarrow> (byte list, wire list) io" where
  "read_exact_from 0 rx buf = (Ok buf, rx)"
| "read_exact_from (Suc n) [] buf = (Err Disconnected, [])"
| "read_exact_from (Suc n) (Byte b # rx) buf = read_exact_from n rx (buf @ [b])"
| "read_exact_from (Suc n) (Silence # rx) buf = (Err Timeout, rx)"
| "read_exact_from (Suc n) (Fault # rx) buf = (Err TrIo, rx)"

definition write_all :: "byte list \<Rightarrow> transport \<Rightarrow> (unit, transport) io" where
  "write_all bs t = (case t_limit t of
     None \<Rightarrow> (Ok (), t\<lparr>t_tx := t_tx t @ bs\<rparr>)
   | Some n \<Rightarrow> if length (t_tx t @ bs) \<le> n then (Ok (), t\<lparr>t_tx := t_tx t @ bs\<rparr>) else (Err TrIo, t\<lparr>t_tx := take n (t_tx t @ bs)\<rparr>))"

section \<open>Frames\<close>

definition MAX_PAYLOAD_SIZE :: u32 where
  "MAX_PAYLOAD_SIZE = 64 * 1024"

definition u32_to_be :: "u32 \<Rightarrow> byte list" where
  "u32_to_be w = rev (u32_to_le w)"

definition u32_from_be :: "byte list \<Rightarrow> u32" where
  "u32_from_be bs = u32_from_le (rev bs)"

definition read_length_prefixed :: "(byte list \<Rightarrow> 'm option) \<Rightarrow> wire list \<Rightarrow> ('m, wire list) io" where
  "read_length_prefixed dec rx =
     io_then (read_exact_from 4 rx []) (\<lambda>len_buf rx.
       let len = u32_from_be len_buf in
       if len > MAX_PAYLOAD_SIZE then (Err (ParseError ''payload too large''), rx)
       else io_then (read_exact_from (unat len) rx []) (\<lambda>payload rx.
         case dec payload of None \<Rightarrow> (Err (ParseError ''invalid JSON''), rx) | Some m \<Rightarrow> (Ok m, rx)))"

definition write_length_prefixed :: "('e \<Rightarrow> byte list option) \<Rightarrow> 'e \<Rightarrow> transport \<Rightarrow> (unit, transport) io" where
  "write_length_prefixed enc msg t = (case enc msg of
     None \<Rightarrow> (Err (ParseError ''serialize error''), t)
   | Some json \<Rightarrow> io_then (write_all (u32_to_be (word_of_nat (length json))) t) (\<lambda>_ t. write_all json t))"

definition recv :: "(byte list \<Rightarrow> 'm option) \<Rightarrow> transport \<Rightarrow> ('m, transport) io" where
  "recv dec t = (if \<not> t_connected t then (Err (ConnectionFailed ''not connected''), t)
     else let (r, rx) = read_length_prefixed dec (t_rx t) in (r, t\<lparr>t_rx := rx\<rparr>))"

definition send :: "('e \<Rightarrow> byte list option) \<Rightarrow> 'e \<Rightarrow> transport \<Rightarrow> (unit, transport) io" where
  "send enc msg t = (if \<not> t_connected t then (Err (ConnectionFailed ''not connected''), t) else write_length_prefixed enc msg t)"

section \<open>The message loop\<close>

fun drain_outgoing :: "('e \<Rightarrow> byte list option) \<Rightarrow> 'e list \<Rightarrow> transport \<Rightarrow> (unit, transport) io" where
  "drain_outgoing enc [] t = (Ok (), t)"
| "drain_outgoing enc (m # ms) t = io_then (send enc m t) (\<lambda>_ t. drain_outgoing enc ms t)"

lemma read_exact_from_shrinks:
  "read_exact_from n rx buf = (r, rx') \<Longrightarrow> r = Ok x \<or> r = Err Timeout \<Longrightarrow> 0 < n \<Longrightarrow> length rx' < length rx"
proof (induction n rx buf rule: read_exact_from.induct)
  case (3 n b rx buf)
  then show ?case by (cases n) auto
qed auto

lemma read_exact_from_le: "read_exact_from n rx buf = (r, rx') \<Longrightarrow> length rx' \<le> length rx"
  by (induction n rx buf rule: read_exact_from.induct) auto

lemma read_exact_from_no_parse: "read_exact_from n rx buf \<noteq> (Err (ParseError s), rx')"
  by (induction n rx buf rule: read_exact_from.induct) auto

text \<open>A frame that is read, skipped or interrupted uses up some of the stream, so the loop ends on every finite one.\<close>

lemma read_length_prefixed_shrinks:
  assumes "read_length_prefixed dec rx = (r, rx')" "r = Ok m \<or> r = Err Timeout \<or> r = Err (ParseError s)"
  shows "length rx' < length rx"
proof -
  obtain r1 rx1 where r1: "read_exact_from 4 rx [] = (r1, rx1)" by fastforce
  show ?thesis
  proof (cases r1)
    case (Ok b)
    have l: "length rx1 < length rx" using read_exact_from_shrinks[OF r1] Ok by simp
    obtain r2 rx2 where r2: "read_exact_from (unat (u32_from_be b)) rx1 [] = (r2, rx2)" by fastforce
    have "length rx' \<le> length rx1" using assms(1) r1 r2 Ok read_exact_from_le[OF r2]
      by (auto simp: read_length_prefixed_def Let_def io_then_def split: if_splits result.splits option.splits)
    then show ?thesis using l by simp
  next
    case (Err e)
    then show ?thesis using assms r1 read_exact_from_shrinks[OF r1] read_exact_from_no_parse[of 4 rx "[]" s rx1]
      by (auto simp: read_length_prefixed_def)
  next
    case Panic
    then show ?thesis using assms r1 by (auto simp: read_length_prefixed_def)
  qed
qed

text \<open>Sending leaves the incoming side alone.\<close>

definition same_rx :: "transport \<Rightarrow> transport \<Rightarrow> bool" where
  "same_rx t t' \<longleftrightarrow> t_rx t' = t_rx t \<and> t_connected t' = t_connected t"

lemma same_rx_trans: "same_rx t t' \<Longrightarrow> same_rx t' t'' \<Longrightarrow> same_rx t t''"
  by (simp add: same_rx_def)

lemma write_all_rx: "same_rx t (snd (write_all bs t))"
  by (simp add: same_rx_def write_all_def split: option.split)

lemma io_then_rx:
  assumes "same_rx t (snd x)" "\<And>a u. same_rx u (snd (f a u))"
  shows "same_rx t (snd (io_then x f))"
proof -
  obtain y u where "x = (y, u)" by fastforce
  then show ?thesis using assms same_rx_trans[of t u] by (cases y) auto
qed

lemma send_rx: "same_rx t (snd (send enc m t))"
proof -
  have "same_rx t t" by (simp add: same_rx_def)
  moreover have "same_rx t (snd (io_then (write_all a t) (\<lambda>_. write_all b)))" for a b by (rule io_then_rx[OF write_all_rx write_all_rx])
  ultimately show ?thesis by (simp add: send_def write_length_prefixed_def split: option.split)
qed

lemma drain_outgoing_rx: "same_rx t (snd (drain_outgoing enc ms t))"
proof (induction ms arbitrary: t)
  case Nil
  show ?case by (simp add: same_rx_def)
next
  case (Cons m ms)
  show ?case unfolding drain_outgoing.simps by (rule io_then_rx[OF send_rx Cons.IH])
qed

lemma drained: "drain_outgoing enc ms t = (r, t') \<Longrightarrow> t_rx t' = t_rx t"
  using drain_outgoing_rx[of t enc ms] by (simp add: same_rx_def)

lemma recv_shrinks:
  assumes "recv dec t = (r, t')" "r = Ok m \<or> r = Err Timeout \<or> r = Err (ParseError s)"
  shows "length (t_rx t') < length (t_rx t)"
  using assms read_length_prefixed_shrinks[of dec "t_rx t" r _ m s]
  by (auto simp: recv_def split: if_splits prod.splits)

text \<open>
  One iteration sends what the executor has queued by then (the head of \<open>outs\<close>), then waits for a message.
  \<open>alive n\<close> says whether the receiver of the commands is still there after \<open>n\<close> messages.
\<close>

function run_loop :: "(byte list \<Rightarrow> 'm option) \<Rightarrow> ('e \<Rightarrow> byte list option) \<Rightarrow> (nat \<Rightarrow> bool) \<Rightarrow> 'e list list \<Rightarrow> transport \<Rightarrow> 'm list \<Rightarrow> 'm list \<times> transport" where
  "run_loop dec enc alive outs t got =
     (case drain_outgoing enc (if outs = [] then [] else hd outs) t of
        (Ok _, t1) \<Rightarrow> (case recv dec t1 of
            (Ok m, t2) \<Rightarrow> if alive (length got) then run_loop dec enc alive (tl outs) t2 (got @ [m]) else (got, t2)
          | (Err Timeout, t2) \<Rightarrow> run_loop dec enc alive (tl outs) t2 got
          | (Err (ParseError _), t2) \<Rightarrow> run_loop dec enc alive (tl outs) t2 got
          | (_, t2) \<Rightarrow> (got, t2))
      | (_, t1) \<Rightarrow> (got, t1))"
  by pat_completeness auto

termination
proof (relation "measure (\<lambda>(dec, enc, alive, outs, t, got). length (t_rx t))", goal_cases)
  case 1
  show ?case by simp
next
  case 2
  then show ?case by (auto dest!: sym[of "(_, _)"] drained recv_shrinks)
next
  case 3
  then show ?case by (auto dest!: sym[of "(_, _)"] drained recv_shrinks)
next
  case 4
  then show ?case by (auto dest!: sym[of "(_, _)"] drained recv_shrinks)
qed

declare run_loop.simps [simp del]

text \<open>\<open>MessageLoop::spawn\<close>: the loop runs on a connected transport; a connection that fails is the caller's error.\<close>

definition spawn :: "(transport_error, transport) result \<Rightarrow> (byte list \<Rightarrow> 'm option) \<Rightarrow> ('e \<Rightarrow> byte list option) \<Rightarrow> (nat \<Rightarrow> bool) \<Rightarrow> 'e list list
    \<Rightarrow> (transport_error, 'm list \<times> transport) result" where
  "spawn connect dec enc alive outs = and_then connect (\<lambda>t. Ok (run_loop dec enc alive outs t []))"

section \<open>Frames arrive\<close>

lemma u32_from_to_be [simp]: "u32_from_be (u32_to_be w) = w"
  by (simp add: u32_from_be_def u32_to_be_def)

lemma length_u32_to_be [simp]: "length (u32_to_be w) = 4"
  by (simp add: u32_to_be_def)

lemma read_exact_from_bytes: "read_exact_from (length bs) (map Byte bs @ rx) buf = (Ok (buf @ bs), rx)"
  by (induction bs arbitrary: buf) simp_all

lemma read_exact_from_pause: "length bs < n \<Longrightarrow> read_exact_from n (map Byte bs @ Silence # rx) buf = (Err Timeout, rx)"
proof (induction bs arbitrary: n buf)
  case Nil
  then show ?case by (cases n) simp_all
next
  case (Cons b bs)
  then show ?case by (cases n) simp_all
qed

definition frame :: "byte list \<Rightarrow> byte list" where
  "frame p = u32_to_be (word_of_nat (length p)) @ p"

lemma unat_word_u32: "n < 2 ^ 32 \<Longrightarrow> unat (word_of_nat n :: u32) = n"
  by (simp add: unsigned_of_nat take_bit_nat_eq_self)

lemma payload_size: "length p \<le> 65536 \<Longrightarrow> unat (word_of_nat (length p) :: u32) = length p \<and> \<not> word_of_nat (length p) > MAX_PAYLOAD_SIZE"
  by (simp add: unsigned_of_nat take_bit_nat_eq_self word_less_nat_alt MAX_PAYLOAD_SIZE_def)

lemma read_header: "read_exact_from 4 (map Byte (u32_to_be w) @ rx) [] = (Ok (u32_to_be w), rx)"
  using read_exact_from_bytes[of "u32_to_be w" rx "[]"] by simp

lemma read_frame:
  assumes "length p \<le> 65536"
  shows "read_length_prefixed dec (map Byte (frame p) @ rx) = (case dec p of None \<Rightarrow> Err (ParseError ''invalid JSON'') | Some m \<Rightarrow> Ok m, rx)"
  using payload_size[OF assms] read_exact_from_bytes[of p rx "[]"] read_header[of "word_of_nat (length p)"]
  by (simp add: read_length_prefixed_def frame_def Let_def split: option.split)

lemma read_pause: "read_length_prefixed dec (Silence # rx) = (Err Timeout, rx)"
  using read_exact_from_pause[of "[]" 4 rx "[]"] by (simp add: read_length_prefixed_def)

lemma read_end: "read_length_prefixed dec [] = (Err Disconnected, [])"
  by (simp add: read_length_prefixed_def numeral_eq_Suc)

text \<open>A stream of whole frames, with pauses between them only.\<close>

datatype item = Pause | Frame "byte list"

fun wire_of :: "item \<Rightarrow> wire list" where
  "wire_of Pause = [Silence]"
| "wire_of (Frame p) = map Byte (frame p)"

fun payloads :: "item list \<Rightarrow> byte list list" where
  "payloads [] = []"
| "payloads (Pause # is) = payloads is"
| "payloads (Frame p # is) = p # payloads is"

fun small :: "item \<Rightarrow> bool" where
  "small Pause = True"
| "small (Frame p) = (length p \<le> 65536)"

lemma drain_all:
  assumes "t_connected t" "t_limit t = None" "\<forall>m \<in> set ms. enc m = Some (js m)"
  shows "drain_outgoing enc ms t = (Ok (), t\<lparr>t_tx := t_tx t @ concat (map (\<lambda>m. frame (js m)) ms)\<rparr>)"
  using assms by (induction ms arbitrary: t) (simp_all add: send_def write_length_prefixed_def write_all_def frame_def)

text \<open>
  C21: Messages arrive in order in both directions. On a stream of whole frames of at most 64 KB, with any number
  of read timeouts between them, the loop hands the executor exactly the messages of the frames, in
  their order and without those that are not valid JSON, and ends when the stream ends; before each wait it sends the frames of
  everything the executor had queued by then, in order.
\<close>

theorem frames_arrive:
  assumes "t_connected t" "t_limit t = None" "t_rx t = concat (map wire_of items)" "\<forall>i \<in> set items. small i"
    and "\<forall>ms \<in> set outs. \<forall>m \<in> set ms. enc m = Some (js m)"
  shows "run_loop dec enc (\<lambda>_. True) outs t got = (got @ List.map_filter dec (payloads items),
    t\<lparr>t_rx := [], t_tx := t_tx t @ concat (map (\<lambda>m. frame (js m)) (concat (take (Suc (length items)) outs)))\<rparr>)"
  using assms
proof (induction items arbitrary: t outs got)
  case Nil
  have "\<forall>m \<in> set (if outs = [] then [] else hd outs). enc m = Some (js m)" using Nil.prems(5) by (cases outs) simp_all
  note d = drain_all[OF Nil.prems(1,2) this]
  show ?case using Nil.prems by (subst run_loop.simps, unfold d) (cases outs; simp add: recv_def read_end)
next
  case (Cons i items)
  define q where "q = (if outs = [] then [] else hd outs)"
  have "\<forall>m \<in> set q. enc m = Some (js m)" using Cons.prems(5) by (cases outs) (simp_all add: q_def)
  note d = drain_all[OF Cons.prems(1,2) this]
  let ?t = "t\<lparr>t_tx := t_tx t @ concat (map (\<lambda>m. frame (js m)) q), t_rx := concat (map wire_of items)\<rparr>"
  have IH: "run_loop dec enc (\<lambda>_. True) (tl outs) ?t g = (g @ List.map_filter dec (payloads items),
    ?t\<lparr>t_rx := [], t_tx := t_tx ?t @ concat (map (\<lambda>m. frame (js m)) (concat (take (Suc (length items)) (tl outs))))\<rparr>)" for g
    using Cons.prems by (intro Cons.IH) (cases outs; auto)+
  have o: "concat (take (Suc (length (i # items))) outs) = q @ concat (take (Suc (length items)) (tl outs))" by (cases outs) (simp_all add: q_def)
  show ?case
  proof (cases i)
    case Pause
    then show ?thesis using Cons.prems IH[of got] by (subst run_loop.simps, unfold q_def[symmetric] d o) (simp add: recv_def read_pause)
  next
    case (Frame p)
    then show ?thesis using Cons.prems IH read_frame[of p dec]
      by (subst run_loop.simps, unfold q_def[symmetric] d o) (simp add: recv_def List.map_filter_def split: option.split)
  qed
qed

definition demo_dec :: "byte list \<Rightarrow> nat option" where
  "demo_dec p = (if p = [] then None else Some (length p))"

definition demo_socket :: "wire list \<Rightarrow> transport" where
  "demo_socket rx = \<lparr>t_connected = True, t_rx = rx, t_tx = [], t_limit = None\<rparr>"

theorem frames_arrive_witness:
  "fst (run_loop demo_dec (\<lambda>n. Some (replicate n 65)) (\<lambda>_. True) [[2], [], [1]] (demo_socket (concat (map wire_of [Pause, Frame [1, 2], Frame [], Pause, Frame [7]]))) [])
    = [2, 1]
  \<and> t_tx (snd (run_loop demo_dec (\<lambda>n. Some (replicate n 65)) (\<lambda>_. True) [[2], [], [1]] (demo_socket (concat (map wire_of [Pause, Frame [1, 2], Frame [], Pause, Frame [7]]))) []))
    = frame [65, 65] @ frame [65]"
proof -
  let ?items = "[Pause, Frame [1, 2], Frame [], Pause, Frame [7]]"
  have "run_loop demo_dec (\<lambda>n. Some (replicate n 65)) (\<lambda>_. True) [[2], [], [1]] (demo_socket (concat (map wire_of ?items))) []
    = ([] @ List.map_filter demo_dec (payloads ?items), (demo_socket (concat (map wire_of ?items)))\<lparr>t_rx := [],
        t_tx := [] @ concat (map (\<lambda>m. frame (replicate m 65)) (concat (take (Suc (length ?items)) [[2], [], [1]])))\<rparr>)"
    using frames_arrive[of "demo_socket (concat (map wire_of ?items))" ?items "[[2], [], [1]]" "\<lambda>n. Some (replicate n 65)" "\<lambda>n. replicate n 65" demo_dec "[]"]
    by (simp add: demo_socket_def)
  then show ?thesis by (simp add: List.map_filter_def demo_dec_def numeral_eq_Suc)
qed

text \<open>
  C36: A frame that is cut off is not resumed. When a frame is announced too large, or when the read timeout strikes
  between its length and its text, the loop goes on with the text where the next length is expected: its first four bytes
  are taken for a length, which is too large again for any JSON text (its first byte is not zero), so the
  message is lost and the stream is no longer aligned with its frames.
\<close>

theorem cut_frame_desyncs:
  assumes "length p < 2 ^ 32" "4 \<le> length p" "p ! 0 \<noteq> 0" "t_connected t"
    and "t_rx t = map Byte (u32_to_be (word_of_nat (length p))) @ (if 65536 < length p then [] else [Silence]) @ map Byte p @ rest"
  shows "\<exists>e s. fst (recv dec t) = Err e \<and> e = (if 65536 < length p then ParseError ''payload too large'' else Timeout)
    \<and> t_rx (snd (recv dec t)) = map Byte p @ rest
    \<and> recv dec (snd (recv dec t)) = (Err (ParseError s), t\<lparr>t_rx := map Byte (drop 4 p) @ rest\<rparr>)"
proof -
  let ?w = "word_of_nat (length p) :: u32"
  have big: "?w > MAX_PAYLOAD_SIZE \<longleftrightarrow> 65536 < length p" using assms(1)
    by (simp add: word_less_nat_alt unsigned_of_nat take_bit_nat_eq_self MAX_PAYLOAD_SIZE_def)
  have "unat ?w = length p" using assms(1) by (simp add: unsigned_of_nat take_bit_nat_eq_self)
  moreover have "read_exact_from (length p) (Silence # map Byte p @ rest) [] = (Err Timeout, map Byte p @ rest)"
    using assms(2) read_exact_from_pause[of "[]" "length p" "map Byte p @ rest" "[]"] by (cases p) simp_all
  ultimately have first: "recv dec t = (if 65536 < length p then Err (ParseError ''payload too large'') else Err Timeout, t\<lparr>t_rx := map Byte p @ rest\<rparr>)"
    using assms(4,5) big read_header[of ?w]
    by (auto simp: recv_def read_length_prefixed_def Let_def)
  obtain a b c d q where p: "p = a # b # c # d # q"
    using assms(2) by (cases p; cases "tl p"; cases "tl (tl p)"; cases "tl (tl (tl p))") auto
  have "0 < unat a" using assms(3) p by (simp add: unat_gt_0)
  then have "16777216 \<le> le_dec [d, c, b, a]" "le_dec [d, c, b, a] < 2 ^ 32" using le_dec_less[of "[d, c, b, a]"] by simp_all
  then have "u32_from_be [a, b, c, d] > MAX_PAYLOAD_SIZE"
    unfolding u32_from_be_def u32_from_le_def word_less_nat_alt by (simp only: rev.simps append.simps unat_word_u32) (simp add: MAX_PAYLOAD_SIZE_def)
  then have "read_length_prefixed dec (map Byte p @ rest) = (Err (ParseError ''payload too large''), map Byte q @ rest)"
    by (simp add: read_length_prefixed_def p numeral_eq_Suc)
  then show ?thesis unfolding first using assms(4) p by (simp add: recv_def)
qed

theorem cut_frame_desyncs_witness:
  "fst (recv demo_dec (demo_socket (map Byte (u32_to_be 5) @ Silence # map Byte [123, 34, 97, 34, 125]))) = Err Timeout
  \<and> (\<exists>s. recv demo_dec (snd (recv demo_dec (demo_socket (map Byte (u32_to_be 5) @ Silence # map Byte [123, 34, 97, 34, 125]))))
      = (Err (ParseError s), demo_socket [Byte 125]))"
  using cut_frame_desyncs[of "[123, 34, 97, 34, 125]" "demo_socket (map Byte (u32_to_be 5) @ Silence # map Byte [123, 34, 97, 34, 125])" "[]" demo_dec]
  by (auto simp: demo_socket_def)

end
