(* ===== verification/Spec2Isabelle.thy ===== *)
theory Spec2Isabelle
  imports Auf_Stripper Cache_Manager Gguf_Weights Kv_Bound Kv_Life Offload_Forward Prefix_Props Quant_Props Session_Loop Transport
begin

text \<open>
  \<^bold>\<open>A verification library for argus-engine\<close>

  The engine runs transformer models on constrained devices and keeps the memory of the KV cache under
  control while it does. Four of its subsystems are modelled here: the AUF file format and the GGUF loader the weights come
  from, the KV cache with everything that shortens, moves or re-encodes it, and the decode session that
  decides when it does.

  \<^bold>\<open>The AUF file format\<close> (\<^verbatim>\<open>src/engine/src/auf\<close>). A file is a header, a section table and sections.
  \<^item> \<open>Codec\<close>: little-endian words, the cursor and the error datatype of \<^verbatim>\<open>error.rs\<close>.
  \<^item> \<open>Auf_Header\<close>, \<open>Auf_Section\<close>, \<open>Auf_Tensor_Index\<close>, \<open>Auf_Tokenizer\<close>: the structures of \<^verbatim>\<open>header.rs\<close>, \<^verbatim>\<open>section.rs\<close>,
    \<^verbatim>\<open>tensor_index.rs\<close> and \<^verbatim>\<open>tokenizer.rs\<close> with their parsers and serialisers, and the round trip of each.
  \<^item> \<open>Auf_Writer\<close>, \<open>Auf_Reader\<close>, \<open>Auf_Stripper\<close>: the builder, \<open>open_from_mmap\<close> with the views it returns, and the
    rewriting of a file to fewer backends. The theorems: an opened view is in range and disjoint, a built file
    opens to what was put in, stripping keeps the model, opening panics only through the tokenizer section.

  \<^bold>\<open>The GGUF loader\<close> (\<^verbatim>\<open>src/engine/src/models/loader/gguf.rs\<close>, \<^verbatim>\<open>convert.rs\<close>).
  \<^item> \<open>Gguf_File\<close>, \<open>Gguf_Props\<close>: the cursor, the metadata values (arrays nest) and the tensor infos, with the wrap-around of the release profile. A
    file of the format is read back, a cut one is not accepted, and two kinds of numbers in a header panic.
  \<^item> \<open>Gguf_Load\<close>, \<open>Gguf_Weights\<close>: the configuration, names, types, dequantisation and the CPU path of \<open>GgufSource\<close>. From the bytes of a file to a
    tensor: the rows of query and key matrices come back in the order of training, except in \<open>Q4_K\<close>.

  \<^bold>\<open>The KV cache\<close> (\<^verbatim>\<open>src/engine/src/kv\<close>, \<^verbatim>\<open>src/engine/src/stages/kv\<close>, \<^verbatim>\<open>src/crates\<close>).
  \<^item> \<open>Kv_Layout\<close>, \<open>Kv_Cache\<close>: element types and strides, the cache record and the operations of \<^verbatim>\<open>kv_cache.rs\<close>
    on flat buffers. A buffer is a list of units; what a unit holds is a type variable, so nothing depends on it.
  \<^item> \<open>Kv_Rows\<close>, \<open>Kv_Compact\<close>, \<open>Kv_Contents\<close>, \<open>Kv_Config\<close>, \<open>Kv_Props\<close>: the abstraction of a cache to one list of rows
    per head (\<open>contents\<close>), the invariant \<open>kv_wf\<close> that every operation keeps, and what each operation does
    to the rows.
  \<^item> \<open>Kv_Format\<close>: \<^verbatim>\<open>format_apply.rs\<close>, the re-encoding of a cache and weighted merges. A merge in an opaque format without an encoder panics.
  \<^item> \<open>Swap_Handler\<close>, \<open>Swap_Props\<close>: \<^verbatim>\<open>swap_handler.rs\<close>, a prefix written to files and read back.
  \<^item> \<open>Cache_Handle\<close>, \<open>Handle_Props\<close>: \<^verbatim>\<open>cache_handle.rs\<close>, the transaction a technique stages its edits in: what is
    accepted, what is refused, what the commit does to the rows, for one layer and for the whole model; and that a commit does not fail,
    recalls and merges in unwritable formats apart.
  \<^item> \<open>Kv_Life\<close>: the calls on a cache as a step relation, and its type safety: whatever the order of the calls, the
    cache stays well-formed and a typed call does not panic (neither a recall, nor an update of an opaque cache, nor a merge in a format that cannot be written, is one).
  \<^item> \<open>Keep_Compiler\<close>: the keep-set compiler of \<^verbatim>\<open>argus-extension-api\<close>, against a declarative selection of the
    best scorers. Scores are \<open>f32\<close> bit patterns with the order of \<open>partial_cmp\<close>.
  \<^item> \<open>Stage_Driver\<close>: \<^verbatim>\<open>mutation.rs\<close>, the read view, driving and planning one layer.
  \<^item> \<open>Techniques\<close>, \<open>Technique_Props\<close>: the drop-only eviction techniques of \<^verbatim>\<open>src/crates/techniques\<close> and the rows
    each of them leaves.
  \<^item> \<open>Mutation_Driver\<close>: the gated stage of \<^verbatim>\<open>mutation.rs\<close> that evicts every layer at the rising edge of the
    memory pressure: one attempt per episode, no failure, a signal to the decode loop.
  \<^item> \<open>Cache_Manager\<close>: \<^verbatim>\<open>cache_manager.rs\<close> with its handlers, its pressure pipeline and \<^verbatim>\<open>stages/kv/eviction.rs\<close>. An
    eviction never panics, never grows a layer and reports by how much the longest layer became shorter; the stage over the manager and
    the driver that replaces it do the same.
  \<^item> \<open>Offload_Store\<close>, \<open>Offload_Cache\<close>, \<open>Offload_Forward\<close>: \<^verbatim>\<open>kv/offload\<close> and \<^verbatim>\<open>models/offload_forward.rs\<close>: K and V of the
    layers outside the working memory, in a raw buffer or in files, with deferred writes, preload buffers and a
    prefetch of adaptive depth. Both stores meet one contract (\<open>offload_contract\<close>), the cache is verified over the
    contract, and decoding from layers whose loaded buffers are current is shown to be the plain one under every interleaving of the background
    tasks. The first pass over empty layers does not leave such layers: it attends to zeros in place of the prompt.
  \<^item> \<open>Kv_Codec\<close>: \<^verbatim>\<open>crates/argus-kv-codec\<close>: blocks of 32 values at 2, 4 and 8 bits over a record of float operations
    (\<open>float_ops\<close>). The packing loses nothing: a block gives back exactly the values on its grid.
  \<^item> \<open>Quant_Window\<close> (the operations), \<open>Quant_Rows\<close>, \<open>Quant_Flush\<close>, \<open>Quant_View\<close>, \<open>Quant_Transition\<close> (what each does to the rows) and
    \<open>Quant_Props\<close>: \<^verbatim>\<open>kv/quant_window_cache.rs\<close> in its CPU mode: recent tokens in full precision, older ones in
    blocks, views dequantised incrementally, and changes of the width at run time. A run is one of a
    specification on rows in which tokens keep their order, where a change from 16 bits finds one head or fewer than 64 tokens; otherwise such a change
    exchanges rows of different heads.

  \<^bold>\<open>The decode session\<close> (\<^verbatim>\<open>src/engine/src/pipeline.rs\<close>, \<^verbatim>\<open>src/engine/src/session\<close>).
  \<^item> \<open>Pipeline\<close>: pressure and its bands, the phases of a step, and the registry that runs the stages of a phase in
    the order of their submission and drops those that are done.
  \<^item> \<open>Decode_Loop\<close>: \<^verbatim>\<open>decode_loop.rs\<close>: prefill, the steps of a run and its stop conditions. Tokens, positions and
    counters agree whatever the stages do, a run returns, and with nothing attached it is plain
    autoregressive decoding.
  \<^item> \<open>Kv_Fill\<close>, \<open>Kv_Bound\<close>: \<^verbatim>\<open>session/local_pressure.rs\<close> and the eviction part of \<^verbatim>\<open>session/assembly/build_standard_loop.rs\<close>: the decode loop under a
    pressure that measures how full the cache is. Loop, source, driver, sliding window and caches together: decoding never overflows if
    there is enough to evict at the mark, and overflows if there is not, because the driver is disarmed by an attempt that its guard refuses.
  \<^item> \<open>Transport\<close>: \<^verbatim>\<open>resilience/transport.rs\<close>: length-prefixed frames on a socket that may fall silent, and the loop that
    delivers them. Whole frames arrive in order; a frame that is cut is not resumed.
  \<^item> \<open>Commands\<close>: \<^verbatim>\<open>resilience/executor.rs\<close> and \<^verbatim>\<open>session/resilience_adapter.rs\<close>: the directives of the manager, the heartbeats
    and the responses. Each directive is answered once, in order, with a result per command.
  \<^item> \<open>Dispatcher\<close>, \<open>Dispatcher_Props\<close>: \<^verbatim>\<open>session/command_dispatcher.rs\<close>: commands become one-shot stages and loop control. The
    tightest budget of a window acts, budgets are taken of the uncompressed length, and answers are
    corrected by what the stages did, with the exceptions the theorems name.
  \<^item> \<open>Session_Loop\<close>: the decode loop composed with the dispatcher and the adapter: a run answers each
    directive it takes from the channel once, in order, and loses none.
  \<^item> \<open>Prefix_Cache\<close>, \<open>Prefix_Props\<close>: \<^verbatim>\<open>session/prefix_cache.rs\<close> with the snapshots of \<^verbatim>\<open>kv/standard_format.rs\<close>: the KV caches of a
    prompt in a file. What is accepted as a hit, that a saved prefix comes back in every head of every layer, and
    what a truncated file does.

  \<^bold>\<open>How it is modelled.\<close> A Rust \<open>Result\<close> with possible panics is the sum \<open>result\<close> of the prelude (\<open>Ok\<close>, \<open>Err\<close>,
  \<open>Panic\<close>); structures are records, enumerations datatypes; \<open>usize\<close> is \<open>nat\<close> where no value can reach the
  width, and a word with checked or wrapping arithmetic where a file can put any number there. Loops are
  structural recursion or maps; the only fuel is the depth of the stack under nested GGUF arrays, where running out is a panic as in the code. Interfaces are locales, interpreted on the model's own
  definitions: little-endian codecs, row stores, keep targets (both handles), offload stores and their client, evicting stages,
  and relations on the world of a session that its parts keep (\<open>world_relation\<close>).

  \<^bold>\<open>Parameters\<close>, for what is not in the repository or is numeric: the JSON codec of META, the block encoder of
  the writer, the allocator, \<open>madvise\<close> (\<open>kv_os\<close>), the file system (\<open>fs_env\<close>), the float arithmetic of re-encoding, merging,
  block quantisation (\<open>float_ops\<close>) and score pooling, the dequantised snapshots, the budgets computed in floats, the score accumulator, the reading of the
  memory monitor, the JSON codec of the manager's messages, the arithmetic of budgets (\<open>compress_ops\<close>), the candidate-pool stage, the switch of the
  tensor partition, the allocator, stack and lossy decoding under the GGUF parser (\<open>gguf_rt\<close>), the float arithmetic of loading (\<open>load_ops\<close>) with the iteration order of a
  hash map, and the trait objects of the decode loop (forward pass, sampler, command source). Theorems hold for all of them, or
  name what they need; the scores of a ranking are assumed not to be NaN where the order matters.

  \<^bold>\<open>Not modelled.\<close> GPU backends, CPU kernels and the forward pass are device calls and floating-point
  numerics; mapping and uploading weights, connecting sockets, the D-Bus transport, builders, command-line parsing, registration of plugins, step times and logging carry no state the
  model depends on.
  Techniques that merge or compute value-aware scores are numeric beyond their calls of the handle.
\<close>

end
